(* ===== verification/Prelude.thy ===== *)
theory Prelude
  imports Complex_Main "HOL-Library.AList"
begin

text \<open>
  Shared vocabulary of the development: exceptions as values of a sum type, sequencing of
  fallible steps, the list operations of Python (negative indices, clamped slices, slice
  assignment), loops over lists that may raise, and ceiling division. Component theories
  build on these and on the simplification rules collected here.

  A Python \<open>int\<close> is an \<open>int\<close>, a \<open>str\<close> a \<open>string\<close>, a dictionary whose insertion order is
  observed an association list updated with \<open>AList.update\<close> (which keeps the position of an
  existing key and appends a new one, as a Python dictionary does), and a dictionary that is
  only looked up a partial map. A floating point number is a rational; the definitions that
  compute with floats take the rounding \<open>fl\<close> that follows every arithmetic operation as an
  argument, so what is proved holds whatever the rounding (and for exact arithmetic).
\<close>

text \<open>Text whose characters matter is a list of code points.\<close>

type_synonym ustr = "int list"

section \<open>Exceptions\<close>

datatype py_error =
    AssertionError
  | ValueError
  | KeyError
  | IndexError
  | TypeError
  | RuntimeError
  | NotImplementedError
  | ZeroDivisionError
  | AttributeError
  | QueueFull

type_synonym 'a res = "py_error + 'a"

named_theorems res_simps \<open>elimination of sequenced results\<close>

definition ebind :: "'a res \<Rightarrow> ('a \<Rightarrow> 'b res) \<Rightarrow> 'b res" where
  "ebind m f = (case m of Inl e \<Rightarrow> Inl e | Inr x \<Rightarrow> f x)"

definition py_assert :: "bool \<Rightarrow> unit res" where
  "py_assert b = (if b then Inr () else Inl AssertionError)"

definition raise_if :: "bool \<Rightarrow> py_error \<Rightarrow> unit res" where
  "raise_if b e = (if b then Inl e else Inr ())"

lemma ebind_simps [simp]: "ebind (Inl e) f = Inl e" "ebind (Inr x) f = f x"
  by (simp_all add: ebind_def)

lemma ebind_eq_Inr [res_simps]:
  "ebind m f = Inr y \<longleftrightarrow> (\<exists>x. m = Inr x \<and> f x = Inr y)"
  by (cases m) simp_all

lemma ebind_InrE:
  assumes "ebind m f = Inr y"
  obtains x where "m = Inr x" "f x = Inr y"
  using assms by (cases m) simp_all

lemma ebind_assoc: "ebind (ebind m f) g = ebind m (\<lambda>x. ebind (f x) g)"
  by (cases m) simp_all

lemma ebind_cong [fundef_cong]:
  "m = m' \<Longrightarrow> (\<And>x. m' = Inr x \<Longrightarrow> f x = g x) \<Longrightarrow> ebind m f = ebind m' g"
  by (cases m') simp_all

lemma py_assert_eq_Inr [res_simps]: "py_assert b = Inr u \<longleftrightarrow> b"
  by (simp add: py_assert_def)

lemma py_assert_True [simp]: "b \<Longrightarrow> py_assert b = Inr ()"
  by (simp add: py_assert_def)

lemma raise_if_eq_Inr [res_simps]: "raise_if b e = Inr u \<longleftrightarrow> \<not> b"
  by (simp add: raise_if_def)

lemma raise_if_False [simp]: "\<not> b \<Longrightarrow> raise_if b e = Inr ()"
  by (simp add: raise_if_def)

text \<open>
  The postcondition of a fallible computation: a result satisfies \<open>P\<close>, and an exception is
  raised only if \<open>E\<close> holds (\<open>E = False\<close>: never).
\<close>

definition res_ok :: "bool \<Rightarrow> ('a \<Rightarrow> bool) \<Rightarrow> 'a res \<Rightarrow> bool" where
  "res_ok E P m = (case m of Inl e \<Rightarrow> E | Inr x \<Rightarrow> P x)"

lemma res_ok_simps [simp]: "res_ok E P (Inl e) = E" "res_ok E P (Inr x) = P x"
  by (simp_all add: res_ok_def)

lemma res_ok_ebind:
  "res_ok E P m \<Longrightarrow> (\<And>x. m = Inr x \<Longrightarrow> P x \<Longrightarrow> res_ok E Q (f x)) \<Longrightarrow> res_ok E Q (ebind m f)"
  by (cases m) simp_all

lemma res_ok_mono: "res_ok E P m \<Longrightarrow> (\<And>x. m = Inr x \<Longrightarrow> P x \<Longrightarrow> Q x) \<Longrightarrow> res_ok E Q m"
  by (cases m) simp_all

lemma res_ok_total: "res_ok False P m \<Longrightarrow> \<exists>x. m = Inr x \<and> P x"
  by (cases m) simp_all

lemma res_ok_Inr: "res_ok E P m \<Longrightarrow> m = Inr x \<Longrightarrow> P x"
  by simp

section \<open>Loops that may raise\<close>

fun efold :: "('a \<Rightarrow> 's \<Rightarrow> 's res) \<Rightarrow> 'a list \<Rightarrow> 's \<Rightarrow> 's res" where
  "efold f [] s = Inr s"
| "efold f (x # xs) s = ebind (f x s) (efold f xs)"

fun emap :: "('a \<Rightarrow> 'b res) \<Rightarrow> 'a list \<Rightarrow> 'b list res" where
  "emap f [] = Inr []"
| "emap f (x # xs) = ebind (f x) (\<lambda>y. ebind (emap f xs) (\<lambda>ys. Inr (y # ys)))"

lemma efold_append [simp]: "efold f (xs @ ys) s = ebind (efold f xs s) (efold f ys)"
  by (induction xs arbitrary: s) (simp_all add: ebind_assoc cong: ebind_cong)

lemma efold_cong [fundef_cong]:
  "xs = ys \<Longrightarrow> s = t \<Longrightarrow> (\<And>x s. x \<in> set ys \<Longrightarrow> f x s = g x s) \<Longrightarrow>
   efold f xs s = efold g ys t"
proof (induction ys arbitrary: xs s t)
  case Nil
  then show ?case by simp
next
  case (Cons y ys)
  then have "f y t = g y t" and "\<And>u. efold f ys u = efold g ys u"
    by auto
  with Cons.prems show ?case by (auto intro: ebind_cong)
qed

text \<open>An invariant that every iteration keeps holds after the loop.\<close>

lemma efold_invariant:
  assumes "efold f xs s = Inr t" and "P s"
    and "\<And>x s t. x \<in> set xs \<Longrightarrow> P s \<Longrightarrow> f x s = Inr t \<Longrightarrow> P t"
  shows "P t"
  using assms
proof (induction xs arbitrary: s)
  case Nil
  then show ?case by simp
next
  case (Cons x xs)
  from Cons.prems(1) obtain u where u: "f x s = Inr u" and rest: "efold f xs u = Inr t"
    by (auto simp: res_simps)
  have "P u" using Cons.prems(3) [OF _ Cons.prems(2) u] by simp
  then show ?case
    using Cons.IH [OF rest] Cons.prems(3) by (metis list.set_intros(2))
qed

text \<open>A loop whose iterations all return under an invariant returns, and keeps it.\<close>

lemma efold_total:
  assumes "P s" and "\<And>x s. x \<in> set xs \<Longrightarrow> P s \<Longrightarrow> \<exists>t. f x s = Inr t \<and> P t"
  shows "\<exists>t. efold f xs s = Inr t \<and> P t"
  using assms
proof (induction xs arbitrary: s)
  case Nil
  then show ?case by simp
next
  case (Cons x xs)
  from Cons.prems obtain u where "f x s = Inr u" "P u"
    by (meson list.set_intros(1))
  moreover have "\<exists>t. efold f xs u = Inr t \<and> P t"
    using Cons.IH \<open>P u\<close> Cons.prems(2) by (meson list.set_intros(2))
  ultimately show ?case by simp
qed

lemma efold_res_ok:
  "P s \<Longrightarrow> (\<And>x s. x \<in> set xs \<Longrightarrow> P s \<Longrightarrow> res_ok E P (f x s)) \<Longrightarrow> res_ok E P (efold f xs s)"
proof (induction xs arbitrary: s)
  case (Cons x xs)
  have "res_ok E P (f x s)" using Cons.prems by simp
  then show ?case
    using Cons.IH Cons.prems(2) by (auto intro: res_ok_ebind)
qed simp

section \<open>Python lists\<close>

definition py_clamp :: "int \<Rightarrow> int \<Rightarrow> int" where
  "py_clamp n i = (if i < 0 then max 0 (n + i) else min i n)"

definition py_index :: "int \<Rightarrow> int \<Rightarrow> nat res" where
  "py_index n i =
     (let j = (if i < 0 then n + i else i)
      in if 0 \<le> j \<and> j < n then Inr (nat j) else Inl IndexError)"

definition py_get :: "'a list \<Rightarrow> int \<Rightarrow> 'a res" where
  "py_get xs i = ebind (py_index (int (length xs)) i) (\<lambda>j. Inr (xs ! j))"

definition py_set :: "'a list \<Rightarrow> int \<Rightarrow> 'a \<Rightarrow> 'a list res" where
  "py_set xs i v = ebind (py_index (int (length xs)) i) (\<lambda>j. Inr (xs[j := v]))"

definition py_from :: "'a list \<Rightarrow> int \<Rightarrow> 'a list" where
  "py_from xs i = drop (nat (py_clamp (int (length xs)) i)) xs"

definition py_upto :: "'a list \<Rightarrow> int \<Rightarrow> 'a list" where
  "py_upto xs i = take (nat (py_clamp (int (length xs)) i)) xs"

definition py_slice :: "'a list \<Rightarrow> int \<Rightarrow> int \<Rightarrow> 'a list" where
  "py_slice xs i j =
     (let a = nat (py_clamp (int (length xs)) i); b = nat (py_clamp (int (length xs)) j)
      in take (b - a) (drop a xs))"

text \<open>The assignment \<open>xs[i:] = ys\<close>.\<close>

definition py_set_from :: "'a list \<Rightarrow> int \<Rightarrow> 'a list \<Rightarrow> 'a list" where
  "py_set_from xs i ys = py_upto xs i @ ys"

definition py_len :: "'a list \<Rightarrow> int" where
  "py_len xs = int (length xs)"

lemma py_len_simps [simp]:
  "py_len [] = 0" "py_len (x # xs) = 1 + py_len xs" "py_len (xs @ ys) = py_len xs + py_len ys"
  by (simp_all add: py_len_def)

lemma py_len_nonneg [simp]: "0 \<le> py_len xs"
  by (simp add: py_len_def)

lemma py_len_eq_0 [simp]: "py_len xs = 0 \<longleftrightarrow> xs = []"
  by (simp add: py_len_def)

lemma py_get_nonneg:
  "0 \<le> i \<Longrightarrow> i < int (length xs) \<Longrightarrow> py_get xs i = Inr (xs ! nat i)"
  by (simp add: py_get_def py_index_def Let_def)

lemma py_get_neg:
  "0 < k \<Longrightarrow> k \<le> int (length xs) \<Longrightarrow> py_get xs (- k) = Inr (xs ! nat (int (length xs) - k))"
  by (simp add: py_get_def py_index_def Let_def)

lemma py_get_last [simp]: "xs \<noteq> [] \<Longrightarrow> py_get xs (- 1) = Inr (last xs)"
  by (cases xs rule: rev_cases)
    (simp_all add: py_get_def py_index_def Let_def nat_add_distrib)

lemma py_upto_neg:
  "0 < k \<Longrightarrow> k \<le> int (length xs) \<Longrightarrow> py_upto xs (- k) = take (length xs - nat k) xs"
  by (simp add: py_upto_def py_clamp_def nat_diff_distrib' max_def)

lemma py_set_from_neg:
  "0 < k \<Longrightarrow> k \<le> int (length xs) \<Longrightarrow>
   py_set_from xs (- k) ys = take (length xs - nat k) xs @ ys"
  by (simp add: py_set_from_def py_upto_neg)

lemma py_upto_nonneg: "0 \<le> k \<Longrightarrow> py_upto xs k = take (nat k) xs"
  by (simp add: py_upto_def py_clamp_def min_def)

lemma py_from_nonneg: "0 \<le> k \<Longrightarrow> py_from xs k = drop (nat k) xs"
  by (simp add: py_from_def py_clamp_def min_def)

lemma py_slice_nat:
  "i \<le> length xs \<Longrightarrow> j \<le> length xs \<Longrightarrow> py_slice xs (int i) (int j) = take (j - i) (drop i xs)"
  by (simp add: py_slice_def py_clamp_def Let_def)

section \<open>Ceiling division\<close>

text \<open>\<open>spexis/utils.py\<close>, \<open>cdiv\<close>; Python's floor division is \<open>div\<close> on integers.\<close>

definition cdiv :: "int \<Rightarrow> int \<Rightarrow> int" where
  "cdiv a b = - (a div - b)"

text \<open>\<open>list(range(a, b, step))\<close>; the code raises when the step is 0.\<close>

definition py_range :: "int \<Rightarrow> int \<Rightarrow> int \<Rightarrow> int list res" where
  "py_range a b step =
     (if step = 0 then Inl ValueError
      else Inr (map (\<lambda>k. a + step * int k)
             [0..<nat (if 0 < step then cdiv (b - a) step else cdiv (a - b) (- step))]))"

lemma zdiv_le_iff:
  fixes a b k :: int
  assumes b: "0 < b"
  shows "k \<le> a div b \<longleftrightarrow> k * b \<le> a"
proof
  assume "k \<le> a div b"
  then have "k * b \<le> a div b * b" using b by (simp add: mult_right_mono)
  also have "\<dots> \<le> a"
    using b by (metis div_mult_mod_eq le_add_same_cancel1 pos_mod_sign)
  finally show "k * b \<le> a" .
next
  assume "k * b \<le> a"
  then have "k * b div b \<le> a div b" using b by (intro zdiv_mono1)
  with b show "k \<le> a div b" by simp
qed

lemma cdiv_le_iff: "0 < b \<Longrightarrow> cdiv a b \<le> k \<longleftrightarrow> a \<le> k * b"
proof -
  assume b: "0 < b"
  have "cdiv a b = - ((- a) div b)"
    using b by (simp add: cdiv_def div_minus_right)
  then have "cdiv a b \<le> k \<longleftrightarrow> - k \<le> (- a) div b" by linarith
  also have "\<dots> \<longleftrightarrow> (- k) * b \<le> - a"
    using b by (rule zdiv_le_iff)
  finally show ?thesis by simp
qed

lemma cdiv_mono: "0 < b \<Longrightarrow> a \<le> a' \<Longrightarrow> cdiv a b \<le> cdiv a' b"
  using cdiv_le_iff [of b a "cdiv a' b"] cdiv_le_iff [of b a' "cdiv a' b"] by linarith

section \<open>Numbers as strings\<close>

text \<open>Decimal notation, as \<open>str\<close> writes an integer.\<close>

fun show_nat :: "nat \<Rightarrow> string" where
  "show_nat n =
     (if n < 10 then [char_of (48 + n)] else show_nat (n div 10) @ [char_of (48 + n mod 10)])"

declare show_nat.simps [simp del]

definition show_int :: "int \<Rightarrow> string" where
  "show_int i = (if i < 0 then ''-'' @ show_nat (nat (- i)) else show_nat (nat i))"

lemma show_nat_digits: "c \<in> set (show_nat n) \<Longrightarrow> 48 \<le> (of_char c :: nat) \<and> (of_char c :: nat) < 58"
proof (induction n rule: show_nat.induct)
  case (1 n)
  show ?case
  proof (cases "n < 10")
    case True
    then show ?thesis using 1(2) by (simp add: show_nat.simps [of n])
  next
    case False
    then have "c \<in> set (show_nat (n div 10)) \<or> c = char_of (48 + n mod 10)"
      using 1(2) by (auto simp: show_nat.simps [of n])
    then show ?thesis using 1(1) [OF False] by auto
  qed
qed

text \<open>Reading the digits back.\<close>

definition read_nat :: "string \<Rightarrow> nat" where
  "read_nat s = foldl (\<lambda>a c. 10 * a + (of_char c - 48)) 0 s"

lemma read_show_nat: "read_nat (show_nat n) = n"
proof (induction n rule: show_nat.induct)
  case (1 n)
  show ?case
  proof (cases "n < 10")
    case True
    then show ?thesis by (simp add: show_nat.simps [of n] read_nat_def)
  next
    case False
    then have "read_nat (show_nat n) = 10 * read_nat (show_nat (n div 10)) + n mod 10"
      by (simp add: show_nat.simps [of n] read_nat_def)
    then show ?thesis using 1 [OF False] by simp
  qed
qed

lemma show_nat_inject [simp]: "show_nat m = show_nat n \<longleftrightarrow> m = n"
  by (metis read_show_nat)

end
