(* ===== verification/SamplingParams.thy ===== *)
theory SamplingParams
  imports Prelude
begin

text \<open>
  Sampling parameters (\<open>spexis/sampling_params.py\<close>): the parameters of guided decoding, the
  normalisation and the checks after a \<open>SamplingParams\<close> has been built, and the two updates from
  the generation configuration of the model and from its tokenizer.

  The tokenizer is third-party code: \<open>word_encoder\<close> holds what the code asks it for.
  \<open>logits_processors\<close> and \<open>extra_args\<close> are opaque.
\<close>

section \<open>Guided decoding\<close>

record guided_params =
  gd_json :: "ustr option"
  gd_regex :: "ustr option"
  gd_choice :: "ustr list option"
  gd_grammar :: "ustr option"
  gd_json_object :: "bool option"
  gd_backend :: "string option"
  gd_whitespace :: "ustr option"

text \<open>\<open>__post_init__\<close>: at most one kind of guide.\<close>

definition guide_count :: "guided_params \<Rightarrow> nat" where
  "guide_count g =
     length (filter id [gd_json g \<noteq> None, gd_regex g \<noteq> None, gd_choice g \<noteq> None,
                        gd_grammar g \<noteq> None, gd_json_object g \<noteq> None])"

definition guided_post_init :: "guided_params \<Rightarrow> guided_params res" where
  "guided_post_init g = ebind (raise_if (1 < guide_count g) ValueError) (\<lambda>_. Inr g)"

definition guided_from_optional :: "guided_params \<Rightarrow> guided_params option res" where
  "guided_from_optional g =
     (if guide_count g = 0 then Inr None else ebind (guided_post_init g) (\<lambda>g'. Inr (Some g')))"

fun split_colon :: "string \<Rightarrow> string list" where
  "split_colon [] = [[]]"
| "split_colon (c # s) =
     (if c = CHR '':'' then [] # split_colon s
      else (case split_colon s of [] \<Rightarrow> [[c]] | w # ws \<Rightarrow> (c # w) # ws))"

definition backend_name :: "guided_params \<Rightarrow> string" where
  "backend_name g = hd (split_colon (case gd_backend g of None \<Rightarrow> [] | Some b \<Rightarrow> b))"

section \<open>Data\<close>

datatype output_kind = CUMULATIVE | DELTA | FINAL_ONLY

datatype sampling_type = GREEDY | RANDOM | RANDOM_SEED

text \<open>\<open>stop\<close> is a string or a list of them; a number of log probabilities may be given as \<open>True\<close>.\<close>

datatype stop_arg = OneStop ustr | Stops "ustr list"

datatype count_arg = TrueCount | Count int

record sampling_params =
  sp_n :: int
  best_of :: "int option"
  real_n :: "int option"
  presence_penalty :: rat
  frequency_penalty :: rat
  repetition_penalty :: rat
  temperature :: rat
  sp_top_p :: rat
  sp_top_k :: int
  sp_min_p :: rat
  sp_seed :: "int option"
  sp_stop :: "stop_arg option"
  stop_token_ids :: "int list option"
  ignore_eos :: bool
  sp_max_tokens :: "int option"
  sp_min_tokens :: int
  logprobs_param :: "count_arg option"
  prompt_logprobs :: "count_arg option"
  sp_detokenize :: bool
  skip_special :: bool
  spaces_between :: bool
  logits_processors :: "nat list option"
  include_stop_str :: bool
  truncate_prompt_tokens :: "int option"
  sp_output_kind :: output_kind
  output_text_buffer_length :: int
  all_stop_token_ids :: "int set"
  guided_decoding :: "guided_params option"
  sp_logit_bias :: "(int \<times> rat) list option"
  sp_allowed_token_ids :: "int list option"
  extra_args :: "nat option"
  bad_words :: "ustr list option"
  sp_bad_words_token_ids :: "int list list option"

text \<open>The defaults of the class.\<close>

definition default_params :: sampling_params where
  "default_params =
     \<lparr>sp_n = 1, best_of = None, real_n = None, presence_penalty = 0, frequency_penalty = 0,
      repetition_penalty = 1, temperature = 1, sp_top_p = 1, sp_top_k = - 1, sp_min_p = 0,
      sp_seed = None, sp_stop = None, stop_token_ids = None, ignore_eos = False,
      sp_max_tokens = Some 16, sp_min_tokens = 0, logprobs_param = None, prompt_logprobs = None,
      sp_detokenize = True, skip_special = True, spaces_between = True, logits_processors = None,
      include_stop_str = False, truncate_prompt_tokens = None, sp_output_kind = CUMULATIVE,
      output_text_buffer_length = 0, all_stop_token_ids = {}, guided_decoding = None,
      sp_logit_bias = None, sp_allowed_token_ids = None, extra_args = None, bad_words = None,
      sp_bad_words_token_ids = None\<rparr>"

section \<open>Construction\<close>

definition clamp_bias :: "rat \<Rightarrow> rat" where
  "clamp_bias b = min 100 (max (- 100) b)"

definition or_default :: "'a \<Rightarrow> 'a option \<Rightarrow> 'a" where
  "or_default d x = (case x of None \<Rightarrow> d | Some y \<Rightarrow> y)"

definition stop_list :: "sampling_params \<Rightarrow> ustr list" where
  "stop_list p = (case sp_stop p of Some (Stops ss) \<Rightarrow> ss | _ \<Rightarrow> [])"

definition one_if_true :: "count_arg option \<Rightarrow> count_arg option" where
  "one_if_true c = (if c = Some TrueCount then Some (Count 1) else c)"

definition apply_best_of :: "sampling_params \<Rightarrow> sampling_params res" where
  "apply_best_of p =
     (case best_of p of
        None \<Rightarrow> Inr p
      | Some b \<Rightarrow>
          if b = 0 then Inr p
          else ebind (raise_if (b < sp_n p) ValueError) (\<lambda>_.
               Inr (if real_n p \<in> {None, Some 0}
                    then p\<lparr>real_n := Some (sp_n p), sp_n := b\<rparr> else p)))"

definition normalise :: "sampling_params \<Rightarrow> sampling_params" where
  "normalise p =
     (let p1 = p\<lparr>temperature := (if 0 < temperature p \<and> temperature p < 1 / 100
                               then max (temperature p) (1 / 100) else temperature p),
                 sp_seed := (if sp_seed p = Some (- 1) then None else sp_seed p),
                 sp_stop := (case sp_stop p of
                     None \<Rightarrow> Some (Stops []) | Some (OneStop s) \<Rightarrow> Some (Stops [s])
                   | Some (Stops ss) \<Rightarrow> Some (Stops ss)),
                 stop_token_ids := Some (or_default [] (stop_token_ids p)),
                 bad_words := Some (or_default [] (bad_words p)),
                 logprobs_param := one_if_true (logprobs_param p),
                 prompt_logprobs := one_if_true (prompt_logprobs p)\<rparr>
      in if stop_list p1 \<noteq> [] \<and> \<not> include_stop_str p1
         then p1\<lparr>output_text_buffer_length := Max (set (map py_len (stop_list p1))) - 1\<rparr>
         else p1)"

definition count_negative :: "count_arg option \<Rightarrow> bool" where
  "count_negative c = (case c of Some (Count k) \<Rightarrow> k < 0 | _ \<Rightarrow> False)"

definition verify_args :: "sampling_params \<Rightarrow> unit res" where
  "verify_args p =
     ebind (raise_if (sp_n p < 1) ValueError) (\<lambda>_.
     ebind (raise_if (\<not> (- 2 \<le> presence_penalty p \<and> presence_penalty p \<le> 2)) ValueError) (\<lambda>_.
     ebind (raise_if (\<not> (- 2 \<le> frequency_penalty p \<and> frequency_penalty p \<le> 2)) ValueError) (\<lambda>_.
     ebind (raise_if (repetition_penalty p \<le> 0) ValueError) (\<lambda>_.
     ebind (raise_if (temperature p < 0) ValueError) (\<lambda>_.
     ebind (raise_if (\<not> (0 < sp_top_p p \<and> sp_top_p p \<le> 1)) ValueError) (\<lambda>_.
     ebind (raise_if (sp_top_k p < - 1 \<or> sp_top_k p = 0) ValueError) (\<lambda>_.
     ebind (raise_if (\<not> (0 \<le> sp_min_p p \<and> sp_min_p p \<le> 1)) ValueError) (\<lambda>_.
     ebind (raise_if (case sp_max_tokens p of None \<Rightarrow> False | Some m \<Rightarrow> m < 1) ValueError) (\<lambda>_.
     ebind (raise_if (sp_min_tokens p < 0) ValueError) (\<lambda>_.
     ebind (raise_if (case sp_max_tokens p of None \<Rightarrow> False | Some m \<Rightarrow> m < sp_min_tokens p) ValueError) (\<lambda>_.
     ebind (raise_if (count_negative (logprobs_param p)) ValueError) (\<lambda>_.
     ebind (raise_if (count_negative (prompt_logprobs p)) ValueError) (\<lambda>_.
     ebind (raise_if (case truncate_prompt_tokens p of None \<Rightarrow> False | Some k \<Rightarrow> k < 1) ValueError) (\<lambda>_.
     ebind (raise_if ([] \<in> set (stop_list p)) ValueError) (\<lambda>_.
     ebind (raise_if (stop_list p \<noteq> [] \<and> \<not> sp_detokenize p) ValueError) (\<lambda>_.
     raise_if (best_of p \<noteq> real_n p \<and> sp_output_kind p = DELTA) ValueError))))))))))))))))"

definition apply_greedy :: "sampling_params \<Rightarrow> sampling_params res" where
  "apply_greedy p =
     (if temperature p < 1 / 100000
      then (let p' = p\<lparr>sp_top_p := 1, sp_top_k := - 1, sp_min_p := 0\<rparr>
            in ebind (raise_if (1 < sp_n p') ValueError) (\<lambda>_. Inr p'))
      else Inr p)"

definition post_init :: "sampling_params \<Rightarrow> sampling_params res" where
  "post_init p =
     ebind (apply_best_of p) (\<lambda>p1.
     (let p2 = normalise p1 in
      ebind (verify_args p2) (\<lambda>_.
      ebind (apply_greedy p2) (\<lambda>p3.
      Inr (p3\<lparr>all_stop_token_ids :=
              all_stop_token_ids p3 \<union> set (or_default [] (stop_token_ids p3))\<rparr>)))))"

text \<open>The arguments of \<open>from_optional\<close> that may be \<open>None\<close>; the others are those of \<open>p\<close>.\<close>

definition from_optional ::
  "int option \<Rightarrow> rat option \<Rightarrow> rat option \<Rightarrow> rat option \<Rightarrow> rat option \<Rightarrow> rat option \<Rightarrow>
   (int \<times> rat) list option \<Rightarrow> sampling_params \<Rightarrow> sampling_params res" where
  "from_optional n presence frequency repetition temp top_p bias p =
     post_init (p\<lparr>sp_n := or_default 1 n, presence_penalty := or_default 0 presence,
       frequency_penalty := or_default 0 frequency, repetition_penalty := or_default 1 repetition,
       temperature := or_default 1 temp, sp_top_p := or_default 1 top_p,
       sp_logit_bias := map_option (map (\<lambda>(t, b). (t, clamp_bias b))) bias\<rparr>)"

definition sampling_type_of :: "sampling_params \<Rightarrow> sampling_type" where
  "sampling_type_of p =
     (if temperature p < 1 / 100000 then GREEDY
      else if sp_seed p \<noteq> None then RANDOM_SEED else RANDOM)"

section \<open>Updates\<close>

datatype eos_spec = OneEos int | EosList "int list"

text \<open>\<open>enum\<close> is the order in which Python lists a set.\<close>

definition update_from_generation_config ::
  "(int set \<Rightarrow> int list) \<Rightarrow> eos_spec option \<Rightarrow> int option \<Rightarrow> sampling_params \<Rightarrow> sampling_params" where
  "update_from_generation_config enum eos_ids model_eos p =
     (let p1 = (case model_eos of
                  None \<Rightarrow> p | Some e \<Rightarrow> p\<lparr>all_stop_token_ids := insert e (all_stop_token_ids p)\<rparr>)
      in case eos_ids of
           None \<Rightarrow> p1
         | Some spec \<Rightarrow>
             (let ids = (case spec of OneEos e \<Rightarrow> {e} | EosList es \<Rightarrow> set es)
                        - (case model_eos of None \<Rightarrow> {} | Some e \<Rightarrow> {e})
              in if ids = {} then p1
                 else (let p2 = p1\<lparr>all_stop_token_ids := all_stop_token_ids p1 \<union> ids\<rparr>
                       in if ignore_eos p2 then p2
                          else p2\<lparr>stop_token_ids :=
                                 Some (enum (ids \<union> set (or_default [] (stop_token_ids p2))))\<rparr>)))"

record word_encoder =
  we_mistral :: bool
  we_encode :: "ustr \<Rightarrow> int list"
  we_encode_plain :: "ustr \<Rightarrow> int list"
  we_max_token_id :: int

text \<open>The characters that \<open>str.lstrip\<close> removes.\<close>

definition py_isspace :: "int \<Rightarrow> bool" where
  "py_isspace c \<longleftrightarrow> 9 \<le> c \<and> c \<le> 13 \<or> 28 \<le> c \<and> c \<le> 32 \<or> 8192 \<le> c \<and> c \<le> 8202 \<or>
     c \<in> {133, 160, 5760, 8232, 8233, 8239, 8287, 12288}"

definition lstrip :: "ustr \<Rightarrow> ustr" where
  "lstrip = dropWhile py_isspace"

definition encode_word :: "word_encoder \<Rightarrow> ustr \<Rightarrow> int list" where
  "encode_word t w = (if we_mistral t then we_encode t w else we_encode_plain t w)"

text \<open>One turn of the inner loop, without and with a space in front of the word.\<close>

definition add_bad_word :: "word_encoder \<Rightarrow> ustr \<Rightarrow> bool \<Rightarrow> int list list \<Rightarrow> int list list res" where
  "add_bad_word t w add_prefix_space acc =
     (let ids = encode_word t ((if add_prefix_space then [32] else []) @ lstrip w) in
      if \<not> add_prefix_space then Inr (acc @ [ids])
      else ebind (py_get ids 0) (\<lambda>first.
           ebind (py_get acc (- 1)) (\<lambda>prev.
           ebind (py_get prev 0) (\<lambda>prev_first.
           Inr (if first \<noteq> prev_first \<and> length ids = length prev then acc @ [ids] else acc)))))"

definition update_from_tokenizer :: "word_encoder \<Rightarrow> sampling_params \<Rightarrow> sampling_params res" where
  "update_from_tokenizer t p =
     (if or_default [] (bad_words p) = [] then Inr p
      else ebind (efold (\<lambda>w acc. ebind (add_bad_word t w False acc) (add_bad_word t w True))
                    (or_default [] (bad_words p)) [])
             (\<lambda>ids. ebind (raise_if (\<exists>ws \<in> set ids. \<exists>i \<in> set ws. i < 0 \<or> we_max_token_id t < i) ValueError)
             (\<lambda>_. Inr (p\<lparr>sp_bad_words_token_ids := Some ids\<rparr>))))"

section \<open>What construction guarantees\<close>

text \<open>The number of samples after \<open>best_of\<close> has been applied, and the number asked for.\<close>

definition samples_of :: "sampling_params \<Rightarrow> int" where
  "samples_of p = (if best_of p \<notin> {None, Some 0} \<and> real_n p \<in> {None, Some 0}
                   then the (best_of p) else sp_n p)"

definition real_samples_of :: "sampling_params \<Rightarrow> int option" where
  "real_samples_of p = (if best_of p \<notin> {None, Some 0} \<and> real_n p \<in> {None, Some 0}
                        then Some (sp_n p) else real_n p)"

definition stops_of :: "sampling_params \<Rightarrow> ustr list" where
  "stops_of p = (case sp_stop p of None \<Rightarrow> [] | Some (OneStop s) \<Rightarrow> [s] | Some (Stops ss) \<Rightarrow> ss)"

definition count_ok :: "count_arg option \<Rightarrow> bool" where
  "count_ok c \<longleftrightarrow> (case c of Some (Count k) \<Rightarrow> 0 \<le> k | _ \<Rightarrow> True)"

text \<open>The arguments a caller may pass.\<close>

definition acceptable :: "sampling_params \<Rightarrow> bool" where
  "acceptable p \<longleftrightarrow>
     1 \<le> samples_of p \<and> (\<forall>b. best_of p = Some b \<and> b \<noteq> 0 \<longrightarrow> sp_n p \<le> b) \<and>
     \<bar>presence_penalty p\<bar> \<le> 2 \<and> \<bar>frequency_penalty p\<bar> \<le> 2 \<and> 0 < repetition_penalty p \<and>
     0 \<le> temperature p \<and> 0 < sp_top_p p \<and> sp_top_p p \<le> 1 \<and>
     (sp_top_k p = - 1 \<or> 1 \<le> sp_top_k p) \<and> 0 \<le> sp_min_p p \<and> sp_min_p p \<le> 1 \<and>
     0 \<le> sp_min_tokens p \<and> (\<forall>m. sp_max_tokens p = Some m \<longrightarrow> 1 \<le> m \<and> sp_min_tokens p \<le> m) \<and>
     count_ok (logprobs_param p) \<and> count_ok (prompt_logprobs p) \<and>
     (\<forall>k. truncate_prompt_tokens p = Some k \<longrightarrow> 1 \<le> k) \<and>
     [] \<notin> set (stops_of p) \<and> (stops_of p \<noteq> [] \<longrightarrow> sp_detokenize p) \<and>
     (sp_output_kind p = DELTA \<longrightarrow> best_of p = real_samples_of p) \<and>
     (temperature p = 0 \<longrightarrow> samples_of p = 1)"

text \<open>What every object that has been built looks like.\<close>

definition params_wf :: "sampling_params \<Rightarrow> bool" where
  "params_wf q \<longleftrightarrow>
     1 \<le> sp_n q \<and> \<bar>presence_penalty q\<bar> \<le> 2 \<and> \<bar>frequency_penalty q\<bar> \<le> 2 \<and> 0 < repetition_penalty q \<and>
     (temperature q = 0 \<or> 1 / 100 \<le> temperature q) \<and>
     (temperature q = 0 \<longrightarrow> sp_n q = 1 \<and> sp_top_p q = 1 \<and> sp_top_k q = - 1 \<and> sp_min_p q = 0) \<and>
     0 < sp_top_p q \<and> sp_top_p q \<le> 1 \<and> (sp_top_k q = - 1 \<or> 1 \<le> sp_top_k q) \<and>
     0 \<le> sp_min_p q \<and> sp_min_p q \<le> 1 \<and> sp_seed q \<noteq> Some (- 1) \<and>
     0 \<le> sp_min_tokens q \<and> (\<forall>m. sp_max_tokens q = Some m \<longrightarrow> 1 \<le> m \<and> sp_min_tokens q \<le> m) \<and>
     logprobs_param q \<noteq> Some TrueCount \<and> prompt_logprobs q \<noteq> Some TrueCount \<and>
     count_ok (logprobs_param q) \<and> count_ok (prompt_logprobs q) \<and>
     sp_stop q = Some (Stops (stop_list q)) \<and> [] \<notin> set (stop_list q) \<and>
     stop_token_ids q \<noteq> None \<and> set (the (stop_token_ids q)) \<subseteq> all_stop_token_ids q"

lemma raise_ok [simp]: "raise_if b e = Inr u \<longleftrightarrow> \<not> b"
  by (simp add: raise_if_def)

lemma abs_le_2: "\<bar>x\<bar> \<le> (2 :: rat) \<longleftrightarrow> - 2 \<le> x \<and> x \<le> 2"
  by (simp add: abs_le_iff) linarith

lemma verify_args_iff:
  "verify_args p = Inr () \<longleftrightarrow>
     1 \<le> sp_n p \<and> \<bar>presence_penalty p\<bar> \<le> 2 \<and> \<bar>frequency_penalty p\<bar> \<le> 2 \<and> 0 < repetition_penalty p \<and>
     0 \<le> temperature p \<and> 0 < sp_top_p p \<and> sp_top_p p \<le> 1 \<and>
     (sp_top_k p = - 1 \<or> 1 \<le> sp_top_k p) \<and> 0 \<le> sp_min_p p \<and> sp_min_p p \<le> 1 \<and>
     0 \<le> sp_min_tokens p \<and> (\<forall>m. sp_max_tokens p = Some m \<longrightarrow> 1 \<le> m \<and> sp_min_tokens p \<le> m) \<and>
     \<not> count_negative (logprobs_param p) \<and> \<not> count_negative (prompt_logprobs p) \<and>
     (\<forall>k. truncate_prompt_tokens p = Some k \<longrightarrow> 1 \<le> k) \<and>
     [] \<notin> set (stop_list p) \<and> (stop_list p \<noteq> [] \<longrightarrow> sp_detokenize p) \<and>
     (sp_output_kind p = DELTA \<longrightarrow> best_of p = real_n p)"
proof -
  have k: "\<not> (sp_top_k p < - 1 \<or> sp_top_k p = 0) \<longleftrightarrow> sp_top_k p = - 1 \<or> 1 \<le> sp_top_k p" by linarith
  show ?thesis
    unfolding verify_args_def ebind_eq_Inr raise_ok k abs_le_2
    by (cases "sp_max_tokens p"; cases "truncate_prompt_tokens p") (auto simp: not_less not_le)
qed

lemma verify_args_error: "verify_args p = Inr () \<or> verify_args p = Inl ValueError"
  unfolding verify_args_def raise_if_def by (simp split: if_split)

lemma count_one_if_true [simp]:
  "count_negative (one_if_true c) \<longleftrightarrow> \<not> count_ok c" "count_ok (one_if_true c) = count_ok c"
  "one_if_true c \<noteq> Some TrueCount"
  by (auto simp: count_negative_def count_ok_def one_if_true_def split: option.splits count_arg.splits)

lemma normalise_simps [simp]:
  "sp_n (normalise p) = sp_n p" "best_of (normalise p) = best_of p" "real_n (normalise p) = real_n p"
  "presence_penalty (normalise p) = presence_penalty p"
  "frequency_penalty (normalise p) = frequency_penalty p"
  "repetition_penalty (normalise p) = repetition_penalty p"
  "temperature (normalise p) =
     (if 0 < temperature p \<and> temperature p < 1 / 100 then 1 / 100 else temperature p)"
  "sp_top_p (normalise p) = sp_top_p p" "sp_top_k (normalise p) = sp_top_k p"
  "sp_min_p (normalise p) = sp_min_p p"
  "sp_seed (normalise p) = (if sp_seed p = Some (- 1) then None else sp_seed p)"
  "stop_token_ids (normalise p) = Some (or_default [] (stop_token_ids p))"
  "sp_max_tokens (normalise p) = sp_max_tokens p" "sp_min_tokens (normalise p) = sp_min_tokens p"
  "logprobs_param (normalise p) = one_if_true (logprobs_param p)"
  "prompt_logprobs (normalise p) = one_if_true (prompt_logprobs p)"
  "truncate_prompt_tokens (normalise p) = truncate_prompt_tokens p"
  "sp_detokenize (normalise p) = sp_detokenize p" "sp_output_kind (normalise p) = sp_output_kind p"
  "all_stop_token_ids (normalise p) = all_stop_token_ids p"
  by (simp_all add: normalise_def Let_def)

lemma normalise_stops [simp]:
  "sp_stop (normalise p) = Some (Stops (stops_of p))" "stop_list (normalise p) = stops_of p"
  by (simp_all add: normalise_def Let_def stops_of_def stop_list_def split: option.splits stop_arg.splits)

lemma apply_best_of_cases:
  "apply_best_of p =
     (if \<exists>b. best_of p = Some b \<and> b \<noteq> 0 \<and> b < sp_n p then Inl ValueError
      else Inr (p\<lparr>sp_n := samples_of p, real_n := real_samples_of p\<rparr>))"
  by (auto simp: apply_best_of_def samples_of_def real_samples_of_def raise_if_def split: option.splits)

lemma acceptable_iff:
  "acceptable p \<longleftrightarrow>
     (\<forall>b. best_of p = Some b \<and> b \<noteq> 0 \<longrightarrow> sp_n p \<le> b) \<and>
     (let q = normalise (p\<lparr>sp_n := samples_of p, real_n := real_samples_of p\<rparr>)
      in verify_args q = Inr () \<and> (temperature q = 0 \<longrightarrow> sp_n q = 1))"
  unfolding acceptable_def verify_args_iff Let_def normalise_simps normalise_stops stops_of_def
  by auto

lemma post_init_cases:
  "post_init p =
     (if acceptable p
      then (let q = normalise (p\<lparr>sp_n := samples_of p, real_n := real_samples_of p\<rparr>);
                r = (if temperature p = 0 then q\<lparr>sp_top_p := 1, sp_top_k := - 1, sp_min_p := 0\<rparr> else q)
            in Inr (r\<lparr>all_stop_token_ids :=
                  all_stop_token_ids p \<union> set (or_default [] (stop_token_ids p))\<rparr>))
      else Inl ValueError)"
proof (cases "\<exists>b. best_of p = Some b \<and> b \<noteq> 0 \<and> b < sp_n p")
  case True
  then show ?thesis by (auto simp: post_init_def apply_best_of_cases acceptable_iff)
next
  case False
  let ?q = "normalise (p\<lparr>sp_n := samples_of p, real_n := real_samples_of p\<rparr>)"
  have start: "post_init p = ebind (verify_args ?q) (\<lambda>_. ebind (apply_greedy ?q) (\<lambda>p3.
      Inr (p3\<lparr>all_stop_token_ids := all_stop_token_ids p3 \<union> set (or_default [] (stop_token_ids p3))\<rparr>)))"
    unfolding post_init_def apply_best_of_cases if_not_P [OF False] by (simp add: Let_def)
  have best: "\<forall>b. best_of p = Some b \<and> b \<noteq> 0 \<longrightarrow> sp_n p \<le> b" using False by auto
  show ?thesis
  proof (cases "verify_args ?q = Inr ()")
    case True
    then have t: "0 \<le> temperature p" "1 \<le> samples_of p"
      unfolding verify_args_iff by (auto split: if_splits)
    have zero: "temperature ?q < 1 / 100000 \<longleftrightarrow> temperature p = 0" "temperature ?q = 0 \<longleftrightarrow> temperature p = 0"
      using t(1) by auto
    have "acceptable p \<longleftrightarrow> (temperature p = 0 \<longrightarrow> samples_of p = 1)"
      unfolding acceptable_iff Let_def using best True zero(2) by simp
    moreover have "samples_of p = 1 \<longleftrightarrow> \<not> 1 < samples_of p" using t(2) by auto
    ultimately show ?thesis
      unfolding start True apply_greedy_def zero(1)
      by (simp add: raise_if_def Let_def or_default_def)
  next
    case fails: False
    then have "verify_args ?q = Inl ValueError" using verify_args_error by blast
    moreover have "\<not> acceptable p" unfolding acceptable_iff Let_def using fails by simp
    ultimately show ?thesis unfolding start by simp
  qed
qed

text \<open>
  C39: what building sampling parameters guarantees. Building succeeds exactly for acceptable
  arguments and raises \<open>ValueError\<close> otherwise; the object built is well formed (every number in
  its range, greedy sampling with the settings that switch off the filters, stop strings a list
  without empty strings), and sampling is greedy exactly when the temperature asked for was 0.
\<close>

theorem post_init_checked:
  "case post_init p of
     Inl e \<Rightarrow> e = ValueError \<and> \<not> acceptable p
   | Inr q \<Rightarrow> acceptable p \<and> params_wf q \<and> (sampling_type_of q = GREEDY \<longleftrightarrow> temperature p = 0) \<and>
       sp_n q = samples_of p \<and> stop_list q = stops_of p"
proof (cases "acceptable p")
  case False
  then show ?thesis by (simp add: post_init_cases)
next
  case True
  let ?q = "normalise (p\<lparr>sp_n := samples_of p, real_n := real_samples_of p\<rparr>)"
  let ?r = "if temperature p = 0 then ?q\<lparr>sp_top_p := 1, sp_top_k := - 1, sp_min_p := 0\<rparr> else ?q"
  let ?s = "?r\<lparr>all_stop_token_ids := all_stop_token_ids p \<union> set (or_default [] (stop_token_ids p))\<rparr>"
  have "post_init p = Inr ?s" using True by (simp add: post_init_cases Let_def)
  moreover have "stop_list ?s = stops_of p"
    by (simp add: stop_list_def) (simp add: stops_of_def)
  moreover have "params_wf ?s"
    unfolding params_wf_def using True calculation(2) unfolding acceptable_def
    by (auto simp: stops_of_def)
  moreover have "sampling_type_of ?s = GREEDY \<longleftrightarrow> temperature p = 0"
    using True unfolding acceptable_def sampling_type_of_def by auto
  ultimately show ?thesis using True by simp
qed

end
