(* ===== verification/SpecRequest.thy ===== *)
theory SpecRequest
  imports SamplingParams
begin

text \<open>
  The request of \<open>spexis/v1/request.py\<close>: its fields, the status enumeration with the order
  of an \<open>IntEnum\<close>, and the operations that append, verify and roll back tokens. The
  structured-output part of a request (\<open>spexis/v1/structured_output/request.py\<close>) is the
  slot that holds no grammar, the future of one, or a compiled grammar; the grammar itself is
  third-party code and is represented by the tokens it has been fed.
\<close>

section \<open>Status and finish reason\<close>

datatype request_status =
    WAITING
  | WAITING_FOR_FSM
  | RUNNING
  | PREEMPTED
  | FINISHED_STOPPED
  | FINISHED_LENGTH_CAPPED
  | FINISHED_ABORTED
  | FINISHED_IGNORED

text \<open>\<open>enum.auto()\<close> numbers the members from 1 in the order of their declaration.\<close>

fun status_value :: "request_status \<Rightarrow> nat" where
  "status_value WAITING = 1"
| "status_value WAITING_FOR_FSM = 2"
| "status_value RUNNING = 3"
| "status_value PREEMPTED = 4"
| "status_value FINISHED_STOPPED = 5"
| "status_value FINISHED_LENGTH_CAPPED = 6"
| "status_value FINISHED_ABORTED = 7"
| "status_value FINISHED_IGNORED = 8"

lemma status_value_inject: "status_value s = status_value t \<longleftrightarrow> s = t"
  by (cases s; cases t) simp_all

instantiation request_status :: linorder
begin

definition less_eq_request_status :: "request_status \<Rightarrow> request_status \<Rightarrow> bool" where
  "less_eq_request_status s t \<longleftrightarrow> status_value s \<le> status_value t"

definition less_request_status :: "request_status \<Rightarrow> request_status \<Rightarrow> bool" where
  "less_request_status s t \<longleftrightarrow> status_value s < status_value t"

instance
  by standard
    (auto simp: less_eq_request_status_def less_request_status_def status_value_inject
      intro: status_value_inject [THEN iffD1])

end

datatype finish_reason = STOP | LENGTH | ABORT

definition status_is_finished :: "request_status \<Rightarrow> bool" where
  "status_is_finished s \<longleftrightarrow> PREEMPTED < s"

fun finished_reason_map :: "request_status \<rightharpoonup> finish_reason" where
  "finished_reason_map FINISHED_STOPPED = Some STOP"
| "finished_reason_map FINISHED_LENGTH_CAPPED = Some LENGTH"
| "finished_reason_map FINISHED_ABORTED = Some ABORT"
| "finished_reason_map FINISHED_IGNORED = Some LENGTH"
| "finished_reason_map _ = None"

lemma status_is_finished_simps [simp]:
  "\<not> status_is_finished WAITING" "\<not> status_is_finished WAITING_FOR_FSM"
  "\<not> status_is_finished RUNNING" "\<not> status_is_finished PREEMPTED"
  "status_is_finished FINISHED_STOPPED" "status_is_finished FINISHED_LENGTH_CAPPED"
  "status_is_finished FINISHED_ABORTED" "status_is_finished FINISHED_IGNORED"
  by (simp_all add: status_is_finished_def less_request_status_def)

section \<open>Data\<close>

datatype event_type = QUEUED | SCHEDULED | PREEMPTED_EVENT

datatype grammar_slot =
    NoGrammar
  | GrammarFuture bool
  | Grammar "int list"

record placeholder_range =
  offset :: int
  range_length :: int

record request =
  request_id :: string
  params :: sampling_params
  eos_token_id :: "int option"
  lora_request :: "int option"
  structured_output_request :: "grammar_slot option"
  status :: request_status
  events :: "(event_type \<times> rat) list"
  stop_reason :: "int option"
  max_tokens :: int
  prompt_token_ids :: "int list"
  num_prompt_tokens :: int
  output_token_ids :: "int list"
  all_token_ids :: "int list"
  spec_token_ids :: "int list"
  num_computed_tokens :: int
  sp_len :: int
  spec_result :: "bool option"
  fixed_idx :: "int option"
  flush_len :: "int option"
  just_fixed :: "bool option"
  spec_confidence_list :: "rat list"
  confidence_dropped :: bool
  stop_dropped :: bool
  confidence_passed :: bool
  drop_len :: int
  drop_end :: bool
  should_preempt :: bool
  num_scheduled :: int
  postpreempt_spec_result :: "bool option"
  postpreempt_fixed_idx :: "int option"
  total_spec :: int
  spec_success :: int
  spec_fail :: int
  predicted_len_prob :: "rat list option"
  mm_positions :: "placeholder_range list"
  mm_inputs :: "nat list"
  mm_hashes :: "string option list"
  num_encoder_inputs :: int
  has_encoder_inputs :: bool

record engine_core_request =
  ecr_request_id :: string
  ecr_prompt_token_ids :: "int list"
  ecr_mm_inputs :: "nat list option"
  ecr_mm_hashes :: "string option list option"
  ecr_mm_placeholders :: "placeholder_range list option"
  ecr_sampling_params :: sampling_params
  ecr_eos_token_id :: "int option"
  ecr_lora_request :: "int option"

section \<open>Construction\<close>

text \<open>\<open>x or []\<close> for an optional list.\<close>

definition or_empty :: "'a list option \<Rightarrow> 'a list" where
  "or_empty x = (case x of None \<Rightarrow> [] | Some xs \<Rightarrow> xs)"

definition init_request ::
  "string \<Rightarrow> int list \<Rightarrow> nat list option \<Rightarrow> string option list option \<Rightarrow>
   placeholder_range list option \<Rightarrow> sampling_params \<Rightarrow> int option \<Rightarrow> int option \<Rightarrow>
   grammar_slot option \<Rightarrow> request res" where
  "init_request rid prompt mm_in mm_hash mm_pos sp eos lora so =
     (case sp_max_tokens sp of
        None \<Rightarrow> Inl AssertionError
      | Some mt \<Rightarrow>
          let pos = or_empty mm_pos; ins = or_empty mm_in; hashes = or_empty mm_hash in
          ebind (py_assert (length ins = length pos)) (\<lambda>_.
          ebind (py_assert (hashes \<noteq> [] \<longrightarrow> length ins = length hashes)) (\<lambda>_.
          Inr \<lparr>request_id = rid, params = sp, eos_token_id = eos, lora_request = lora,
            structured_output_request = so,
            status = (if guided_decoding sp \<noteq> None then WAITING_FOR_FSM else WAITING),
            events = [], stop_reason = None, max_tokens = mt,
            prompt_token_ids = prompt, num_prompt_tokens = py_len prompt,
            output_token_ids = [], all_token_ids = prompt, spec_token_ids = [],
            num_computed_tokens = 0,
            sp_len = 0, spec_result = None, fixed_idx = None, flush_len = None,
            just_fixed = None,
            spec_confidence_list = [], confidence_dropped = False, stop_dropped = False,
            confidence_passed = False, drop_len = 0, drop_end = False,
            should_preempt = False, num_scheduled = 0,
            postpreempt_spec_result = None, postpreempt_fixed_idx = None,
            total_spec = 0, spec_success = 0, spec_fail = 0,
            predicted_len_prob = Some [],
            mm_positions = pos, mm_inputs = ins, mm_hashes = hashes,
            num_encoder_inputs = py_len ins, has_encoder_inputs = (0 < py_len ins)\<rparr>)))"

definition from_engine_core_request :: "engine_core_request \<Rightarrow> request res" where
  "from_engine_core_request e =
     init_request (ecr_request_id e) (ecr_prompt_token_ids e) (ecr_mm_inputs e)
       (ecr_mm_hashes e) (ecr_mm_placeholders e) (ecr_sampling_params e)
       (ecr_eos_token_id e) (ecr_lora_request e) (Some NoGrammar)"

section \<open>Queries\<close>

definition num_tokens :: "request \<Rightarrow> int" where
  "num_tokens r = py_len (all_token_ids r)"

definition num_tokens_with_spec :: "request \<Rightarrow> int" where
  "num_tokens_with_spec r = py_len (all_token_ids r) + py_len (spec_token_ids r)"

definition num_output_tokens :: "request \<Rightarrow> int" where
  "num_output_tokens r = py_len (output_token_ids r)"

definition is_finished :: "request \<Rightarrow> bool" where
  "is_finished r = status_is_finished (status r)"

definition get_finished_reason :: "request \<Rightarrow> finish_reason option" where
  "get_finished_reason r = finished_reason_map (status r)"

definition get_num_encoder_tokens :: "request \<Rightarrow> int \<Rightarrow> int res" where
  "get_num_encoder_tokens r input_id =
     ebind (py_assert (input_id < py_len (mm_positions r))) (\<lambda>_.
     ebind (py_get (mm_positions r) input_id) (\<lambda>p. Inr (range_length p)))"

definition use_structured_output :: "request \<Rightarrow> bool" where
  "use_structured_output r \<longleftrightarrow> guided_decoding (params r) \<noteq> None"

definition record_event :: "event_type \<Rightarrow> rat \<Rightarrow> request \<Rightarrow> request" where
  "record_event e ts r = r\<lparr>events := events r @ [(e, ts)]\<rparr>"

definition take_events :: "request \<Rightarrow> (event_type \<times> rat) list option \<times> request" where
  "take_events r =
     (if events r = [] then (None, r) else (Some (events r), r\<lparr>events := []\<rparr>))"

text \<open>
  Reading \<open>grammar\<close> polls the future: the flag of \<open>GrammarFuture\<close> says whether its result
  is there within the 100 microseconds the code waits.
\<close>

fun check_grammar_completion :: "grammar_slot \<Rightarrow> bool \<times> grammar_slot" where
  "check_grammar_completion (GrammarFuture True) = (True, Grammar [])"
| "check_grammar_completion (GrammarFuture False) = (False, GrammarFuture False)"
| "check_grammar_completion g = (True, g)"

definition grammar_get :: "grammar_slot \<Rightarrow> int list option \<times> grammar_slot" where
  "grammar_get g =
     (case check_grammar_completion g of
        (done, g') \<Rightarrow>
          (if done then (case g' of Grammar ts \<Rightarrow> Some ts | _ \<Rightarrow> None) else None, g'))"

text \<open>\<open>request.structured_output_request.grammar.accept_tokens(req_id, new_token_ids)\<close>.\<close>

definition accept_tokens :: "int list \<Rightarrow> request \<Rightarrow> request res" where
  "accept_tokens ts r =
     (case structured_output_request r of
        None \<Rightarrow> Inl AttributeError
      | Some g \<Rightarrow>
          (case grammar_get g of
             (None, _) \<Rightarrow> Inl AttributeError
           | (Some fed, _) \<Rightarrow>
               Inr (r\<lparr>structured_output_request := Some (Grammar (fed @ ts))\<rparr>)))"

section \<open>Speculation\<close>

definition spec_confidence :: "(rat \<Rightarrow> rat) \<Rightarrow> request \<Rightarrow> rat res" where
  "spec_confidence fl r =
     efold (\<lambda>i acc. ebind (py_get (spec_confidence_list r) (- i)) (\<lambda>c. Inr (fl (acc * c))))
       [1..sp_len r] 1"

datatype token_ids = IntToken int | TokenList "int list"

fun tokens_of :: "token_ids \<Rightarrow> int list" where
  "tokens_of (IntToken t) = [t]"
| "tokens_of (TokenList ts) = ts"

definition append_output_token_ids ::
  "token_ids \<Rightarrow> rat option \<Rightarrow> rat list option \<Rightarrow> request \<Rightarrow> request" where
  "append_output_token_ids ids conf len_prob r =
     (let r' = r\<lparr>output_token_ids := output_token_ids r @ tokens_of ids,
                 all_token_ids := all_token_ids r @ tokens_of ids\<rparr>
      in case conf of
           None \<Rightarrow> r'
         | Some c \<Rightarrow> r'\<lparr>spec_confidence_list := spec_confidence_list r @ [c],
                        predicted_len_prob := len_prob\<rparr>)"

text \<open>
  \<open>verify_output_token_ids\<close> returns one of five codes: 0 the speculated token was right,
  1 it was wrong and has been replaced, 2 and 3 the verified token belongs to a context that
  was rolled back and is thrown away, 4 the last token of a dropped speculation is replaced by
  the target model's.
\<close>

definition flush_output :: "int \<Rightarrow> request \<Rightarrow> (int \<times> request) res" where
  "flush_output code r =
     (case flush_len r of
        None \<Rightarrow> Inl TypeError
      | Some n \<Rightarrow>
          (let r' = r\<lparr>just_fixed := Some False, flush_len := Some (n - 1)\<rparr>
           in Inr (code, if n - 1 = 0 then r'\<lparr>spec_result := None\<rparr> else r')))"

definition finish_drop :: "int \<Rightarrow> request \<Rightarrow> request" where
  "finish_drop t r =
     (let r1 = r\<lparr>stop_dropped := False, confidence_dropped := False\<rparr>;
          r2 = (if spec_result r1 = Some True \<or> spec_result r1 = None
                then r1\<lparr>output_token_ids := py_set_from (output_token_ids r1) (- 1) [t],
                        all_token_ids := py_set_from (all_token_ids r1) (- 1) [t],
                        spec_confidence_list := py_set_from (spec_confidence_list r1) (- 1) [1],
                        drop_end := True\<rparr>
                else r1)
      in r2\<lparr>spec_result := None, flush_len := None, sp_len := 0, fixed_idx := Some 0\<rparr>)"

definition accept_spec :: "request \<Rightarrow> request" where
  "accept_spec r =
     r\<lparr>sp_len := sp_len r - 1, spec_result := Some True, fixed_idx := Some 0,
       spec_success := spec_success r + 1, total_spec := total_spec r + 1\<rparr>"

definition reject_spec :: "int \<Rightarrow> request \<Rightarrow> request" where
  "reject_spec t r =
     (let false_spec_place = py_len (output_token_ids r) - sp_len r in
      r\<lparr>num_computed_tokens := num_computed_tokens r - (sp_len r - 1),
        output_token_ids := py_set_from (output_token_ids r) (- sp_len r) [t],
        all_token_ids := py_set_from (all_token_ids r) (- sp_len r) [t],
        spec_confidence_list := py_set_from (spec_confidence_list r) (- sp_len r) [1],
        flush_len := Some (sp_len r - 1), sp_len := 0, just_fixed := Some True,
        confidence_dropped := False, stop_dropped := False, drop_len := 0,
        spec_result := Some False, fixed_idx := Some false_spec_place,
        spec_fail := spec_fail r + 1, total_spec := total_spec r + 1\<rparr>)"

definition validate_spec :: "int \<Rightarrow> request \<Rightarrow> (int \<times> request) res" where
  "validate_spec t r =
     (if spec_result r = Some True \<or> spec_result r = None
      then ebind (py_get (output_token_ids r) (- sp_len r)) (\<lambda>o_t.
             if o_t = t then Inr (0, accept_spec r) else Inr (1, reject_spec t r))
      else flush_output 2 r)"

fun verify_output_token_ids :: "token_ids \<Rightarrow> request \<Rightarrow> (int \<times> request) res" where
  "verify_output_token_ids (TokenList ts) r = Inl AssertionError"
| "verify_output_token_ids (IntToken t) r =
     (if confidence_dropped r \<or> stop_dropped r
      then (if spec_result r = Some False then flush_output 3 r
            else (let r' = r\<lparr>drop_len := drop_len r - 1\<rparr>
                  in if drop_len r' = 0 then Inr (4, finish_drop t r') else validate_spec t r'))
      else validate_spec t r)"

text \<open>The first threshold the predicted probabilities reach; \<open>-1\<close> when none does.\<close>

fun expect_remain_loop :: "int \<Rightarrow> rat list \<Rightarrow> rat list \<Rightarrow> int res" where
  "expect_remain_loop i [] ts = Inr (- 1)"
| "expect_remain_loop i (p # ps) ts =
     ebind (py_get ts i) (\<lambda>t. if t \<le> p then Inr i else expect_remain_loop (i + 1) ps ts)"

definition expect_remain_len_idx :: "rat list \<Rightarrow> request \<Rightarrow> int res" where
  "expect_remain_len_idx threshold_list r =
     (case predicted_len_prob r of
        None \<Rightarrow> Inl TypeError
      | Some ps \<Rightarrow> expect_remain_loop 0 ps threshold_list)"

section \<open>A sample request\<close>

text \<open>Concrete requests at which the witnesses of the development evaluate.\<close>

definition sample_params :: sampling_params where
  "sample_params =
     \<lparr>sp_n = 1, best_of = None, real_n = None, presence_penalty = 0, frequency_penalty = 0,
      repetition_penalty = 1, temperature = 0, sp_top_p = 1, sp_top_k = - 1, sp_min_p = 0,
      sp_seed = None, sp_stop = Some (Stops []), stop_token_ids = None, ignore_eos = False,
      sp_max_tokens = Some 16, sp_min_tokens = 0, logprobs_param = None, prompt_logprobs = None,
      sp_detokenize = True, skip_special = True, spaces_between = True, logits_processors = None,
      include_stop_str = False, truncate_prompt_tokens = None, sp_output_kind = CUMULATIVE,
      output_text_buffer_length = 0, all_stop_token_ids = {}, guided_decoding = None,
      sp_logit_bias = None, sp_allowed_token_ids = None, extra_args = None, bad_words = None,
      sp_bad_words_token_ids = None\<rparr>"

definition sample_request :: "string \<Rightarrow> int list \<Rightarrow> request" where
  "sample_request rid prompt =
     (case init_request rid prompt None None None sample_params (Some 9) None (Some NoGrammar) of
        Inr r \<Rightarrow> r | Inl _ \<Rightarrow> undefined)"

lemma sample_request_simps [simp]:
  "request_id (sample_request rid prompt) = rid"
  "params (sample_request rid prompt) = sample_params"
  "eos_token_id (sample_request rid prompt) = Some 9"
  "lora_request (sample_request rid prompt) = None"
  "structured_output_request (sample_request rid prompt) = Some NoGrammar"
  "status (sample_request rid prompt) = WAITING"
  "events (sample_request rid prompt) = []"
  "stop_reason (sample_request rid prompt) = None"
  "max_tokens (sample_request rid prompt) = 16"
  "prompt_token_ids (sample_request rid prompt) = prompt"
  "num_prompt_tokens (sample_request rid prompt) = py_len prompt"
  "output_token_ids (sample_request rid prompt) = []"
  "all_token_ids (sample_request rid prompt) = prompt"
  "spec_token_ids (sample_request rid prompt) = []"
  "num_computed_tokens (sample_request rid prompt) = 0"
  "sp_len (sample_request rid prompt) = 0"
  "spec_result (sample_request rid prompt) = None"
  "fixed_idx (sample_request rid prompt) = None"
  "flush_len (sample_request rid prompt) = None"
  "just_fixed (sample_request rid prompt) = None"
  "spec_confidence_list (sample_request rid prompt) = []"
  "confidence_dropped (sample_request rid prompt) = False"
  "stop_dropped (sample_request rid prompt) = False"
  "confidence_passed (sample_request rid prompt) = False"
  "drop_len (sample_request rid prompt) = 0"
  "drop_end (sample_request rid prompt) = False"
  "should_preempt (sample_request rid prompt) = False"
  "num_scheduled (sample_request rid prompt) = 0"
  "postpreempt_spec_result (sample_request rid prompt) = None"
  "predicted_len_prob (sample_request rid prompt) = Some []"
  "mm_positions (sample_request rid prompt) = []"
  "mm_hashes (sample_request rid prompt) = []"
  "has_encoder_inputs (sample_request rid prompt) = False"
  by (simp_all add: sample_request_def init_request_def sample_params_def or_empty_def)

end
