(* ===== verification/StopCheck.thy ===== *)
theory StopCheck
  imports SpecRequest
begin

text \<open>
  The stop conditions: \<open>check_stop\<close> of the upstream scheduler
  (\<open>spexis/v1/core/sched/utils.py\<close>) and its two counterparts of the speculative cycle
  (\<open>spexis/spec_parallel/stop_check.py\<close>), with what they commit to the request. The lemmas
  relate the three to one predicate on the tokens considered final.
\<close>

section \<open>The three checks\<close>

definition check_stop :: "request \<Rightarrow> int \<Rightarrow> (bool \<times> request) res" where
  "check_stop r max_model_len =
     (if max_model_len \<le> num_tokens r \<or> max_tokens r \<le> num_output_tokens r
      then Inr (True, r\<lparr>status := FINISHED_LENGTH_CAPPED\<rparr>)
      else ebind (py_get (output_token_ids r) (- 1)) (\<lambda>last_token_id.
        if \<not> ignore_eos (params r) \<and> Some last_token_id = eos_token_id r
        then Inr (True, r\<lparr>status := FINISHED_STOPPED\<rparr>)
        else if last_token_id \<in> set (or_empty (stop_token_ids (params r)))
        then Inr (True, r\<lparr>status := FINISHED_STOPPED, stop_reason := Some last_token_id\<rparr>)
        else Inr (False, r)))"

definition check_stop_from_spec :: "request \<Rightarrow> int \<Rightarrow> bool res" where
  "check_stop_from_spec r max_model_len =
     (if max_model_len \<le> num_tokens r \<or> max_tokens r \<le> num_output_tokens r
      then Inr True
      else ebind (py_get (output_token_ids r) (- 1)) (\<lambda>last_token_id.
        if \<not> ignore_eos (params r) \<and> Some last_token_id = eos_token_id r then Inr True
        else if last_token_id \<in> set (or_empty (stop_token_ids (params r))) then Inr True
        else Inr False))"

definition check_stop_from_validation :: "request \<Rightarrow> int \<Rightarrow> (bool \<times> request) res" where
  "check_stop_from_validation r max_model_len =
     (if max_model_len \<le> num_tokens r - sp_len r \<or>
         max_tokens r \<le> num_output_tokens r - sp_len r
      then Inr (True, r\<lparr>status := FINISHED_LENGTH_CAPPED\<rparr>)
      else (let last_token_idx = sp_len r + 1 in
        ebind (py_get (output_token_ids r) (- last_token_idx)) (\<lambda>last_token_id.
        if \<not> ignore_eos (params r) \<and> Some last_token_id = eos_token_id r
        then Inr (True, r\<lparr>status := FINISHED_STOPPED\<rparr>)
        else if last_token_id \<in> set (or_empty (stop_token_ids (params r)))
        then Inr (True, r\<lparr>status := FINISHED_STOPPED, stop_reason := Some last_token_id\<rparr>)
        else Inr (False, r))))"

section \<open>One predicate behind the three\<close>

text \<open>
  The verdict on a list of output tokens taken as final: \<open>Capped\<close> by a length bound,
  \<open>Eos\<close> for the end-of-sequence token, \<open>StopToken\<close> for a stop token of the request.
\<close>

datatype verdict = Go | Capped | Eos | StopToken int

definition stop_verdict :: "request \<Rightarrow> int \<Rightarrow> int list \<Rightarrow> verdict" where
  "stop_verdict r mml out =
     (if mml \<le> num_prompt_tokens r + py_len out \<or> max_tokens r \<le> py_len out then Capped
      else if \<not> ignore_eos (params r) \<and> Some (last out) = eos_token_id r then Eos
      else if last out \<in> set (or_empty (stop_token_ids (params r))) then StopToken (last out)
      else Go)"

definition commit_verdict :: "verdict \<Rightarrow> request \<Rightarrow> bool \<times> request" where
  "commit_verdict v r =
     (case v of
        Go \<Rightarrow> (False, r)
      | Capped \<Rightarrow> (True, r\<lparr>status := FINISHED_LENGTH_CAPPED\<rparr>)
      | Eos \<Rightarrow> (True, r\<lparr>status := FINISHED_STOPPED\<rparr>)
      | StopToken t \<Rightarrow> (True, r\<lparr>status := FINISHED_STOPPED, stop_reason := Some t\<rparr>))"

text \<open>The token lists of a request agree: the output follows the prompt.\<close>

definition tokens_ok :: "request \<Rightarrow> bool" where
  "tokens_ok r \<longleftrightarrow> all_token_ids r = prompt_token_ids r @ output_token_ids r \<and>
     num_prompt_tokens r = py_len (prompt_token_ids r)"

text \<open>The output without the tokens that still await verification.\<close>

definition verified :: "request \<Rightarrow> int list" where
  "verified r = take (length (output_token_ids r) - nat (sp_len r)) (output_token_ids r)"

lemma py_get_last_verified:
  assumes "0 \<le> k" "k < int (length xs)"
  shows "py_get xs (- (k + 1)) = Inr (last (take (length xs - nat k) xs))"
proof -
  have "0 < length xs - nat k" using assms by linarith
  then have "last (take (length xs - nat k) xs) = xs ! (length xs - nat k - 1)"
    by (subst last_conv_nth) auto
  moreover have "nat (int (length xs) - (k + 1)) = length xs - nat k - 1"
    using assms by linarith
  ultimately show ?thesis
    using py_get_neg [of "k + 1" xs] assms by simp
qed

lemma check_stop_verdict:
  assumes "tokens_ok r" "output_token_ids r \<noteq> []"
  shows "check_stop r mml = Inr (commit_verdict (stop_verdict r mml (output_token_ids r)) r)"
  using assms
  by (simp add: check_stop_def stop_verdict_def commit_verdict_def num_tokens_def
      num_output_tokens_def tokens_ok_def)

lemma check_stop_from_spec_verdict:
  assumes "tokens_ok r" "output_token_ids r \<noteq> []"
  shows "check_stop_from_spec r mml = Inr (stop_verdict r mml (output_token_ids r) \<noteq> Go)"
  using assms
  by (simp add: check_stop_from_spec_def stop_verdict_def num_tokens_def
      num_output_tokens_def tokens_ok_def)

lemma check_stop_from_validation_verdict:
  assumes "tokens_ok r" "0 \<le> sp_len r" "sp_len r < int (length (output_token_ids r))"
  shows "check_stop_from_validation r mml =
    Inr (commit_verdict (stop_verdict r mml (verified r)) r)"
proof -
  have len: "py_len (verified r) = py_len (output_token_ids r) - sp_len r"
    using assms by (simp add: verified_def py_len_def)
  have last: "py_get (output_token_ids r) (- (sp_len r + 1)) = Inr (last (verified r))"
    unfolding verified_def using assms(2,3) by (rule py_get_last_verified)
  show ?thesis
    using assms(1) len last
    by (simp add: check_stop_from_validation_def stop_verdict_def commit_verdict_def
        num_tokens_def num_output_tokens_def tokens_ok_def Let_def)
qed

lemma commit_verdict_frame [simp]:
  "fst (commit_verdict v r) \<longleftrightarrow> v \<noteq> Go"
  "output_token_ids (snd (commit_verdict v r)) = output_token_ids r"
  "all_token_ids (snd (commit_verdict v r)) = all_token_ids r"
  "sp_len (snd (commit_verdict v r)) = sp_len r"
  by (cases v; simp add: commit_verdict_def)+

lemma commit_verdict_finished:
  "fst (commit_verdict v r) \<Longrightarrow> is_finished (snd (commit_verdict v r))"
  by (cases v) (simp_all add: commit_verdict_def is_finished_def)

end
