(* ===== verification/SpecUpdate.thy ===== *)
theory SpecUpdate
  imports StopCheck
begin

text \<open>
  What the two update phases of \<open>SpexisScheduler\<close> (\<open>spexis/spec_parallel/scheduler.py\<close>) do
  to one request: the loop of \<open>update_from_spec_output\<close> that appends speculated tokens, the
  loop of \<open>_verify_and_collect\<close> that verifies them, and the predicate that decides whether
  the next step of a request must run a token of the target model. The lemmas describe each
  branch of verification by its effect on the verified output.
\<close>

section \<open>The per-request loops\<close>

fun spec_append_loop ::
  "int \<Rightarrow> int \<Rightarrow> int list \<Rightarrow> rat list \<Rightarrow> rat list option \<Rightarrow> request \<Rightarrow> request res" where
  "spec_append_loop mml i [] confs lp r = Inr r"
| "spec_append_loop mml i (t # ts) confs lp r =
     ebind (py_get confs i) (\<lambda>c.
     (let r1 = append_output_token_ids (IntToken t) (Some c) lp r;
          r2 = r1\<lparr>sp_len := sp_len r1 + 1\<rparr>
      in ebind (check_stop_from_spec r2 mml) (\<lambda>stopped.
         spec_append_loop mml (i + 1) ts confs lp
           (if stopped then r2\<lparr>stop_dropped := True, drop_len := sp_len r2\<rparr> else r2))))"

text \<open>
  The loop returns the tokens kept (the list after \<open>del new_token_ids[num_new:]\<close>), the
  verification codes in order, and whether the request stopped.
\<close>

fun verify_loop ::
  "int \<Rightarrow> int list \<Rightarrow> request \<Rightarrow> (int list \<times> int list \<times> bool \<times> request) res" where
  "verify_loop mml [] r = Inr ([], [], False, r)"
| "verify_loop mml (t # ts) r =
     ebind (verify_output_token_ids (IntToken t) r) (\<lambda>(code, r1).
     ebind (py_assert (0 \<le> code \<and> code \<le> 4)) (\<lambda>_.
     ebind (check_stop_from_validation r1 mml) (\<lambda>(stopped, r2).
     if stopped then Inr ([t], [code], True, r2)
     else ebind (verify_loop mml ts r2) (\<lambda>(kept, codes, s, r3).
       Inr (t # kept, code # codes, s, r3)))))"

definition has_pending_real_token :: "request \<Rightarrow> bool" where
  "has_pending_real_token r \<longleftrightarrow>
     (spec_result r = Some False \<and> just_fixed r = Some True) \<or> drop_end r \<or>
     num_computed_tokens r < num_prompt_tokens r"

section \<open>What stays the same\<close>

text \<open>The part of a request that speculation never writes.\<close>

definition same_request :: "request \<Rightarrow> request \<Rightarrow> bool" where
  "same_request r r' \<longleftrightarrow>
     request_id r' = request_id r \<and> params r' = params r \<and>
     eos_token_id r' = eos_token_id r \<and> max_tokens r' = max_tokens r \<and>
     prompt_token_ids r' = prompt_token_ids r \<and>
     num_prompt_tokens r' = num_prompt_tokens r \<and> spec_token_ids r' = spec_token_ids r"

lemma same_request_refl [simp]: "same_request r r"
  by (simp add: same_request_def)

lemma same_request_trans [trans]:
  "same_request r s \<Longrightarrow> same_request s t \<Longrightarrow> same_request r t"
  by (simp add: same_request_def)

lemma same_request_sym: "same_request r s \<Longrightarrow> same_request s r"
  by (simp add: same_request_def)

lemma same_request_stop_verdict:
  "same_request r r' \<Longrightarrow> stop_verdict r' mml out = stop_verdict r mml out"
  by (simp add: same_request_def stop_verdict_def)

lemma same_request_ops:
  "same_request r (accept_spec r)" "same_request r (reject_spec t r)"
  "same_request r (finish_drop t r)" "same_request r (append_output_token_ids ids c lp r)"
  "same_request r (snd (commit_verdict v r))"
  by (simp_all add: same_request_def accept_spec_def reject_spec_def finish_drop_def Let_def
      append_output_token_ids_def commit_verdict_def split: option.splits verdict.splits)

section \<open>The effect on the verified output\<close>

text \<open>
  A request in speculation: token lists that agree, \<open>sp_len\<close> unverified tokens at the end
  of the output, and a confidence recorded for every output token.
\<close>

definition spec_ok :: "request \<Rightarrow> bool" where
  "spec_ok r \<longleftrightarrow> tokens_ok r \<and> 0 \<le> sp_len r \<and> sp_len r \<le> py_len (output_token_ids r) \<and>
     length (spec_confidence_list r) = length (output_token_ids r)"

definition unverified :: "request \<Rightarrow> int list" where
  "unverified r = drop (length (output_token_ids r) - nat (sp_len r)) (output_token_ids r)"

lemma verified_unverified: "verified r @ unverified r = output_token_ids r"
  by (simp add: verified_def unverified_def)

lemma length_unverified: "spec_ok r \<Longrightarrow> length (unverified r) = nat (sp_len r)"
  by (auto simp: spec_ok_def unverified_def py_len_def)

lemma length_verified:
  "spec_ok r \<Longrightarrow> length (verified r) = length (output_token_ids r) - nat (sp_len r)"
  by (simp add: verified_def)

text \<open>How \<open>verified\<close> and \<open>unverified\<close> follow from a decomposition of the output.\<close>

lemma split_output:
  assumes "output_token_ids r = vs @ us" "sp_len r = int (length us)"
  shows "verified r = vs" "unverified r = us"
  using assms by (simp_all add: verified_def unverified_def)

lemma all_tokens_split:
  "tokens_ok r \<Longrightarrow> all_token_ids r = prompt_token_ids r @ verified r @ unverified r"
  by (simp add: tokens_ok_def verified_unverified)

lemma first_unverified:
  assumes "spec_ok r" "0 < sp_len r"
  shows "py_get (output_token_ids r) (- sp_len r) = Inr (hd (unverified r))"
proof -
  have "nat (int (length (output_token_ids r)) - sp_len r)
      = length (output_token_ids r) - nat (sp_len r)"
    using assms by (simp add: spec_ok_def py_len_def nat_diff_distrib')
  moreover have "unverified r \<noteq> []"
    using assms length_unverified by fastforce
  ultimately show ?thesis
    using assms py_get_neg [of "sp_len r" "output_token_ids r"]
    by (simp add: spec_ok_def py_len_def unverified_def hd_drop_conv_nth)
qed

text \<open>Acceptance moves the first unverified token to the verified output.\<close>

lemma accept_spec_effect:
  assumes "spec_ok r" "0 < sp_len r"
  shows "verified (accept_spec r) = verified r @ [hd (unverified r)]"
    and "unverified (accept_spec r) = tl (unverified r)"
    and "spec_ok (accept_spec r)"
proof -
  have ne: "unverified r \<noteq> []"
    using assms length_unverified by fastforce
  have out: "output_token_ids (accept_spec r)
      = (verified r @ [hd (unverified r)]) @ tl (unverified r)"
    using ne verified_unverified [of r] by (simp add: accept_spec_def)
  have len: "sp_len (accept_spec r) = int (length (tl (unverified r)))"
    using assms length_unverified [OF assms(1)] by (simp add: accept_spec_def)
  show "verified (accept_spec r) = verified r @ [hd (unverified r)]"
    "unverified (accept_spec r) = tl (unverified r)"
    using split_output [OF out len] by simp_all
  show "spec_ok (accept_spec r)"
    using assms by (simp add: spec_ok_def accept_spec_def tokens_ok_def)
qed

lemma take_verified:
  "0 < sp_len r \<Longrightarrow> sp_len r \<le> py_len (output_token_ids r) \<Longrightarrow>
   py_set_from (output_token_ids r) (- sp_len r) [t] = verified r @ [t]"
  by (simp add: py_set_from_neg verified_def py_len_def)

lemma take_verified_all:
  assumes "tokens_ok r" "0 < sp_len r" "sp_len r \<le> py_len (output_token_ids r)"
  shows "py_set_from (all_token_ids r) (- sp_len r) [t]
    = prompt_token_ids r @ verified r @ [t]"
  using assms
  by (simp add: py_set_from_neg verified_def py_len_def tokens_ok_def)

text \<open>Rejection replaces every unverified token by the target model's.\<close>

lemma reject_spec_effect:
  assumes "spec_ok r" "0 < sp_len r"
  shows "verified (reject_spec t r) = verified r @ [t]"
    and "unverified (reject_spec t r) = []"
    and "spec_ok (reject_spec t r)"
proof -
  have out: "output_token_ids (reject_spec t r) = verified r @ [t]"
    using assms by (simp add: reject_spec_def Let_def spec_ok_def take_verified)
  have all: "all_token_ids (reject_spec t r) = prompt_token_ids r @ verified r @ [t]"
    using assms by (simp add: reject_spec_def Let_def spec_ok_def take_verified_all)
  have "sp_len (reject_spec t r) = 0"
    by (simp add: reject_spec_def Let_def)
  with out show "verified (reject_spec t r) = verified r @ [t]"
    "unverified (reject_spec t r) = []"
    by (simp_all add: verified_def unverified_def)
  have "length (spec_confidence_list (reject_spec t r)) = Suc (length (verified r))"
    using assms
    by (simp add: reject_spec_def Let_def spec_ok_def py_len_def py_set_from_neg verified_def)
  with out all show "spec_ok (reject_spec t r)"
    using assms by (simp add: spec_ok_def tokens_ok_def reject_spec_def Let_def)
qed

text \<open>The end of a drop replaces the one token left unverified.\<close>

lemma py_set_from_last: "xs \<noteq> [] \<Longrightarrow> py_set_from xs (- 1) [t] = butlast xs @ [t]"
  using py_set_from_neg [of 1 xs "[t]"] by (simp add: butlast_conv_take Suc_leI)

lemma finish_drop_effect:
  assumes "spec_ok r" "sp_len r = 1" "spec_result r \<noteq> Some False"
  shows "verified (finish_drop t r) = verified r @ [t]"
    and "unverified (finish_drop t r) = []"
    and "spec_ok (finish_drop t r)"
proof -
  have ok: "spec_result r = Some True \<or> spec_result r = None"
    using assms(3) by (cases "spec_result r") auto
  have ne: "output_token_ids r \<noteq> []" "all_token_ids r \<noteq> []" "spec_confidence_list r \<noteq> []"
    using assms(1,2) by (auto simp: spec_ok_def tokens_ok_def)
  have v: "verified r = butlast (output_token_ids r)"
    using assms(2) by (simp add: verified_def butlast_conv_take)
  have out: "output_token_ids (finish_drop t r) = verified r @ [t]"
    using ok ne v by (simp add: finish_drop_def Let_def py_set_from_last)
  have all: "all_token_ids (finish_drop t r) = prompt_token_ids r @ verified r @ [t]"
    using ok ne v assms(1)
    by (simp add: finish_drop_def Let_def py_set_from_last spec_ok_def tokens_ok_def
        butlast_append)
  have "sp_len (finish_drop t r) = 0"
    by (simp add: finish_drop_def Let_def)
  with out show "verified (finish_drop t r) = verified r @ [t]"
    "unverified (finish_drop t r) = []"
    by (simp_all add: verified_def unverified_def)
  have "length (spec_confidence_list (finish_drop t r)) = length (spec_confidence_list r)"
    using ok ne by (simp add: finish_drop_def Let_def py_set_from_last)
  with out all show "spec_ok (finish_drop t r)"
    using assms v ne by (simp add: spec_ok_def tokens_ok_def finish_drop_def Let_def)
qed

lemma append_spec_effect:
  fixes r :: request and d :: int and c :: rat and lp :: "rat list option"
  assumes "spec_ok r"
  defines "r1 \<equiv> append_output_token_ids (IntToken d) (Some c) lp r"
  defines "r2 \<equiv> r1\<lparr>sp_len := sp_len r1 + 1\<rparr>"
  shows "verified r2 = verified r"
    and "unverified r2 = unverified r @ [d]"
    and "spec_ok r2"
proof -
  have out: "output_token_ids r2 = verified r @ unverified r @ [d]"
    using verified_unverified [of r]
    by (simp add: r2_def r1_def append_output_token_ids_def Let_def flip: append_assoc)
  have len: "sp_len r2 = int (length (unverified r @ [d]))"
    using assms length_unverified [OF assms(1)]
    by (simp add: r2_def r1_def append_output_token_ids_def Let_def spec_ok_def)
  show "verified r2 = verified r" "unverified r2 = unverified r @ [d]"
    using split_output [OF out len] by simp_all
  show "spec_ok r2"
    using assms(1)
    by (simp add: r2_def r1_def append_output_token_ids_def Let_def spec_ok_def tokens_ok_def)
qed

end
