(* ===== verification/SpecPipeline.thy ===== *)
theory SpecPipeline
  imports SpecUpdate
begin

text \<open>
  One request in the speculative pipeline. \<open>EngineCore.step_with_spexis\<close>
  (\<open>spexis/v1/engine/core.py\<close>) keeps the iterations in flight in a queue that starts with
  \<open>batch_queue_size\<close> empty entries; every step verifies the oldest, schedules, and queues the
  new one. The machine here follows one request through these steps with the operations of
  the code: the verification loop, the scheduling branches of \<open>SpexisScheduler.schedule\<close>
  (a pending real token, a dropped request, a request that keeps speculating or is dropped),
  and the append of the speculated token.

  The target model is a parameter \<open>target\<close>, a function from the tokens an iteration computes
  over to the next token (greedy decoding); what the exit layer drafts and how confident it
  is are arbitrary. The result: whatever is drafted and dropped, the verified output is the
  output of plain greedy decoding with the upstream stop check, token for token.
\<close>

section \<open>Greedy decoding without speculation\<close>

text \<open>
  The upstream loop on one request: append the target's token, then \<open>check_stop\<close>.
\<close>

fun vanilla_run ::
  "(int list \<Rightarrow> int) \<Rightarrow> int \<Rightarrow> nat \<Rightarrow> request \<Rightarrow> (bool \<times> request) res" where
  "vanilla_run target mml 0 r = Inr (False, r)"
| "vanilla_run target mml (Suc n) r =
     ebind (vanilla_run target mml n r) (\<lambda>(stopped, r1).
       if stopped then Inr (True, r1)
       else check_stop
         (append_output_token_ids (IntToken (target (all_token_ids r1))) None None r1) mml)"

primrec greedy :: "(int list \<Rightarrow> int) \<Rightarrow> int list \<Rightarrow> nat \<Rightarrow> int list" where
  "greedy target prompt 0 = []"
| "greedy target prompt (Suc n) =
     greedy target prompt n @ [target (prompt @ greedy target prompt n)]"

lemma length_greedy [simp]: "length (greedy target prompt n) = n"
  by (induction n) simp_all

lemma greedy_nonempty: "0 < n \<Longrightarrow> greedy target prompt n \<noteq> []"
  using length_greedy [of target prompt n] by fastforce

section \<open>The machine\<close>

text \<open>
  An entry of the queue as this request sees it: not scheduled, a chunk of the prefill (for
  which the model runner returns no token), or an iteration over a context.
\<close>

datatype slot = Idle | Chunk | Run "int list"

fun slot_tokens :: "(int list \<Rightarrow> int) \<Rightarrow> slot \<Rightarrow> int list" where
  "slot_tokens target (Run ctx) = [target ctx]"
| "slot_tokens target _ = []"

text \<open>The body of \<open>_verify_and_collect\<close> for the request, up to the stop.\<close>

definition verify_slot ::
  "(int list \<Rightarrow> int) \<Rightarrow> int \<Rightarrow> slot \<Rightarrow> request \<Rightarrow> (bool \<times> request) res" where
  "verify_slot target mml s r =
     (if s = Idle then Inr (False, r)
      else ebind (verify_loop mml (slot_tokens target s)
             (r\<lparr>num_scheduled := num_scheduled r - 1\<rparr>))
           (\<lambda>(kept, codes, stopped, r1). Inr (stopped, r1)))"

text \<open>
  Scheduling \<open>n\<close> tokens: the iteration computes over the tokens up to the new
  \<open>num_computed_tokens\<close>, and is a chunk when that leaves tokens uncomputed.
\<close>

definition schedule_tokens :: "int \<Rightarrow> request \<Rightarrow> slot \<times> request" where
  "schedule_tokens n r =
     (let c = num_computed_tokens r + n
      in (if c < num_tokens r then Chunk else Run (py_upto (all_token_ids r) c),
          r\<lparr>num_scheduled := num_scheduled r + 1, num_computed_tokens := c\<rparr>))"

text \<open>\<open>update_from_spec_output\<close>: the exit layer returns a token unless it ran a chunk.\<close>

definition ingest_draft ::
  "int \<Rightarrow> slot \<Rightarrow> int \<Rightarrow> rat \<Rightarrow> rat list option \<Rightarrow> request \<Rightarrow> request res" where
  "ingest_draft mml s d c lp r =
     (case s of Run _ \<Rightarrow> spec_append_loop mml 0 [d] [c] lp r | _ \<Rightarrow> Inr r)"

record pipe =
  p_request :: request
  p_slots :: "slot list"
  p_done :: bool

text \<open>
  One step of the engine for the request. \<open>real\<close> is branch 1-0 of the scheduling loop
  (a correction, the end of a drop, or a prefill, whose chunk size the budget decides),
  \<open>dropped\<close> branch 1-1, \<open>spec\<close> branch 1-2.a and \<open>drop\<close> branch 1-2.b.
\<close>

inductive pipe_step :: "(int list \<Rightarrow> int) \<Rightarrow> int \<Rightarrow> pipe \<Rightarrow> pipe \<Rightarrow> bool"
  for target :: "int list \<Rightarrow> int" and mml :: int where
  stop:
  "\<not> p_done st \<Longrightarrow> p_slots st = s # rest \<Longrightarrow>
   verify_slot target mml s (p_request st) = Inr (True, r1) \<Longrightarrow>
   pipe_step target mml st \<lparr>p_request = r1, p_slots = rest, p_done = True\<rparr>"
| real:
  "\<not> p_done st \<Longrightarrow> p_slots st = s # rest \<Longrightarrow>
   verify_slot target mml s (p_request st) = Inr (False, r1) \<Longrightarrow>
   has_pending_real_token r1 \<Longrightarrow>
   (if num_computed_tokens r1 < num_prompt_tokens r1
    then 0 < n \<and> n \<le> num_tokens_with_spec r1 - num_computed_tokens r1 else n = 1) \<Longrightarrow>
   schedule_tokens n (r1\<lparr>drop_end := False\<rparr>) = (s', r2) \<Longrightarrow>
   ingest_draft mml s' d c lp r2 = Inr r3 \<Longrightarrow>
   pipe_step target mml st \<lparr>p_request = r3, p_slots = rest @ [s'], p_done = False\<rparr>"
| dropped:
  "\<not> p_done st \<Longrightarrow> p_slots st = s # rest \<Longrightarrow>
   verify_slot target mml s (p_request st) = Inr (False, r1) \<Longrightarrow>
   \<not> has_pending_real_token r1 \<Longrightarrow> confidence_dropped r1 \<or> stop_dropped r1 \<Longrightarrow>
   pipe_step target mml st \<lparr>p_request = r1, p_slots = rest @ [Idle], p_done = False\<rparr>"
| spec:
  "\<not> p_done st \<Longrightarrow> p_slots st = s # rest \<Longrightarrow>
   verify_slot target mml s (p_request st) = Inr (False, r1) \<Longrightarrow>
   \<not> has_pending_real_token r1 \<Longrightarrow> \<not> confidence_dropped r1 \<Longrightarrow> \<not> stop_dropped r1 \<Longrightarrow>
   n = num_tokens_with_spec r1 - num_computed_tokens r1 \<Longrightarrow>
   schedule_tokens n r1 = (s', r2) \<Longrightarrow>
   ingest_draft mml s' d c lp r2 = Inr r3 \<Longrightarrow>
   pipe_step target mml st \<lparr>p_request = r3, p_slots = rest @ [s'], p_done = False\<rparr>"
| drop:
  "\<not> p_done st \<Longrightarrow> p_slots st = s # rest \<Longrightarrow>
   verify_slot target mml s (p_request st) = Inr (False, r1) \<Longrightarrow>
   \<not> has_pending_real_token r1 \<Longrightarrow> \<not> confidence_dropped r1 \<Longrightarrow> \<not> stop_dropped r1 \<Longrightarrow>
   pipe_step target mml st
     \<lparr>p_request = r1\<lparr>confidence_dropped := True, drop_len := sp_len r1\<rparr>,
      p_slots = rest @ [Idle], p_done = False\<rparr>"

text \<open>
  A request starts fresh, with at least one prompt token, and with the queue holding
  \<open>pp\<close> empty entries.
\<close>

definition fresh_request :: "request \<Rightarrow> bool" where
  "fresh_request r \<longleftrightarrow>
     prompt_token_ids r \<noteq> [] \<and> all_token_ids r = prompt_token_ids r \<and>
     num_prompt_tokens r = py_len (prompt_token_ids r) \<and> output_token_ids r = [] \<and>
     spec_token_ids r = [] \<and> spec_confidence_list r = [] \<and> num_computed_tokens r = 0 \<and>
     sp_len r = 0 \<and> spec_result r = None \<and> \<not> confidence_dropped r \<and> \<not> stop_dropped r \<and>
     \<not> drop_end r \<and> \<not> is_finished r \<and> stop_reason r = None"

definition pipe_init :: "nat \<Rightarrow> request \<Rightarrow> pipe" where
  "pipe_init pp r = \<lparr>p_request = r, p_slots = replicate pp Idle, p_done = False\<rparr>"

inductive pipe_reachable ::
  "(int list \<Rightarrow> int) \<Rightarrow> int \<Rightarrow> nat \<Rightarrow> request \<Rightarrow> pipe \<Rightarrow> bool"
  for target :: "int list \<Rightarrow> int" and mml :: int and pp :: nat and r0 :: request where
  init: "pipe_reachable target mml pp r0 (pipe_init pp r0)"
| step: "pipe_reachable target mml pp r0 st \<Longrightarrow> pipe_step target mml st st' \<Longrightarrow>
    pipe_reachable target mml pp r0 st'"

section \<open>The invariant\<close>

text \<open>The contexts of the iterations whose tokens await verification, oldest first.\<close>

definition draft_contexts :: "request \<Rightarrow> int list list" where
  "draft_contexts r =
     map (\<lambda>j. prompt_token_ids r @ verified r @ take j (unverified r)) [0..<length (unverified r)]"

definition request_dropped :: "request \<Rightarrow> bool" where
  "request_dropped r \<longleftrightarrow> confidence_dropped r \<or> stop_dropped r"

text \<open>
  During the prefill nothing is speculated. Afterwards the queue holds, oldest first, the
  iterations over rolled-back contexts that are still to be flushed, entries without a
  token, one iteration for each unverified token over exactly the tokens before it, and
  empty entries if the request has been dropped meanwhile.
\<close>

definition prefilling :: "request \<Rightarrow> slot list \<Rightarrow> bool" where
  "prefilling r slots \<longleftrightarrow> \<not> drop_end r \<and>
     output_token_ids r = [] \<and> sp_len r = 0 \<and> 0 \<le> num_computed_tokens r \<and>
     num_computed_tokens r < num_prompt_tokens r \<and> spec_result r = None \<and>
     \<not> request_dropped r \<and> set slots \<subseteq> {Idle, Chunk}"

definition queue_shape :: "request \<Rightarrow> int list list \<Rightarrow> slot list \<Rightarrow> nat \<Rightarrow> slot list" where
  "queue_shape r stale gap b =
     map Run stale @ gap @ map Run (draft_contexts r) @ replicate b Idle"

definition flags_ok :: "request \<Rightarrow> int list list \<Rightarrow> nat \<Rightarrow> bool" where
  "flags_ok r stale b \<longleftrightarrow>
     (stale \<noteq> [] \<longleftrightarrow> spec_result r = Some False) \<and>
     (stale \<noteq> [] \<longrightarrow> flush_len r = Some (int (length stale)) \<and> verified r \<noteq> []) \<and>
     (\<not> request_dropped r \<longrightarrow> b = 0) \<and>
     (request_dropped r \<longrightarrow> drop_len r = sp_len r)"

definition decoding :: "request \<Rightarrow> slot list \<Rightarrow> bool" where
  "decoding r slots \<longleftrightarrow> \<not> drop_end r \<and>
     num_computed_tokens r = num_tokens r - 1 \<and> 0 < sp_len r \<and>
     (\<exists>stale gap b. slots = queue_shape r stale gap b \<and> set gap \<subseteq> {Idle, Chunk} \<and>
        flags_ok r stale b)"

definition base_ok :: "request \<Rightarrow> request \<Rightarrow> bool" where
  "base_ok r0 r \<longleftrightarrow> spec_ok r \<and> same_request r0 r \<and> spec_token_ids r = [] \<and>
     stop_reason r = None \<and> num_prompt_tokens r = py_len (prompt_token_ids r)"

text \<open>The verified output is greedy, and no proper prefix of it (or the whole) stops.\<close>

definition output_ok ::
  "(int list \<Rightarrow> int) \<Rightarrow> int \<Rightarrow> request \<Rightarrow> int list \<Rightarrow> bool \<Rightarrow> bool" where
  "output_ok target mml r0 out done \<longleftrightarrow>
     out = greedy target (prompt_token_ids r0) (length out) \<and>
     (\<forall>m. 0 < m \<and> m < length out \<longrightarrow>
        stop_verdict r0 mml (greedy target (prompt_token_ids r0) m) = Go) \<and>
     (out \<noteq> [] \<longrightarrow> (done \<longleftrightarrow> stop_verdict r0 mml out \<noteq> Go)) \<and> (out = [] \<longrightarrow> \<not> done)"

text \<open>
  Between verification and scheduling a request may also be corrected: nothing is left
  unverified and its next step must run a real token.
\<close>

definition corrected :: "request \<Rightarrow> slot list \<Rightarrow> bool" where
  "corrected r slots \<longleftrightarrow>
     num_computed_tokens r = num_tokens r - 1 \<and> sp_len r = 0 \<and> output_token_ids r \<noteq> [] \<and>
     \<not> request_dropped r \<and>
     (\<exists>stale gap. slots = map Run stale @ gap \<and> set gap \<subseteq> {Idle, Chunk} \<and>
        flags_ok r stale 0) \<and>
     (drop_end r \<or> spec_result r = Some False \<and> just_fixed r = Some True)"

definition pipe_running ::
  "(int list \<Rightarrow> int) \<Rightarrow> int \<Rightarrow> nat \<Rightarrow> request \<Rightarrow> request \<Rightarrow> slot list \<Rightarrow> bool" where
  "pipe_running target mml pp r0 r slots \<longleftrightarrow>
     base_ok r0 r \<and> output_ok target mml r0 (verified r) False \<and> length slots = pp \<and>
     (prefilling r slots \<or> decoding r slots)"

text \<open>A finished request carries what the verdict on its verified output commits.\<close>

definition pipe_stopped ::
  "(int list \<Rightarrow> int) \<Rightarrow> int \<Rightarrow> request \<Rightarrow> request \<Rightarrow> bool" where
  "pipe_stopped target mml r0 r \<longleftrightarrow>
     output_ok target mml r0 (verified r) True \<and> verified r \<noteq> [] \<and>
     (\<exists>r1. stop_reason r1 = None \<and>
        r = snd (commit_verdict (stop_verdict r0 mml (verified r)) r1))"

definition pipe_inv ::
  "(int list \<Rightarrow> int) \<Rightarrow> int \<Rightarrow> nat \<Rightarrow> request \<Rightarrow> pipe \<Rightarrow> bool" where
  "pipe_inv target mml pp r0 st \<longleftrightarrow>
     (if p_done st then pipe_stopped target mml r0 (p_request st)
      else pipe_running target mml pp r0 (p_request st) (p_slots st))"

section \<open>Lemmas on contexts and outputs\<close>

lemma length_draft_contexts [simp]: "length (draft_contexts r) = length (unverified r)"
  by (simp add: draft_contexts_def)

lemma draft_contexts_Nil: "unverified r = [] \<Longrightarrow> draft_contexts r = []"
  by (simp add: draft_contexts_def)

lemma draft_contexts_Cons:
  assumes "unverified r = u # us" "unverified r' = us" "verified r' = verified r @ [u]"
    "prompt_token_ids r' = prompt_token_ids r"
  shows "draft_contexts r = (prompt_token_ids r @ verified r) # draft_contexts r'"
  using assms by (simp add: draft_contexts_def map_upt_Suc del: upt_Suc)

lemma draft_contexts_snoc:
  assumes "unverified r' = unverified r @ [d]" "verified r' = verified r"
    "prompt_token_ids r' = prompt_token_ids r"
  shows "draft_contexts r' = draft_contexts r @ [prompt_token_ids r @ verified r @ unverified r]"
  using assms by (simp add: draft_contexts_def)

lemma num_tokens_split:
  "spec_ok r \<Longrightarrow> num_tokens r = py_len (prompt_token_ids r) + py_len (verified r) + sp_len r"
  by (auto simp: num_tokens_def spec_ok_def tokens_ok_def verified_def py_len_def)

lemma output_ok_snoc:
  assumes "output_ok target mml r0 out False"
  defines "new \<equiv> out @ [target (prompt_token_ids r0 @ out)]"
  shows "output_ok target mml r0 new (stop_verdict r0 mml new \<noteq> Go)"
proof -
  let ?g = "greedy target (prompt_token_ids r0)"
  have out: "out = ?g (length out)"
    and before: "\<And>m. 0 < m \<Longrightarrow> m < length out \<Longrightarrow> stop_verdict r0 mml (?g m) = Go"
    and here: "out \<noteq> [] \<Longrightarrow> stop_verdict r0 mml out = Go"
    using assms(1) by (auto simp: output_ok_def)
  have new: "new = ?g (length new)"
    by (simp add: new_def flip: out)
  have upto: "stop_verdict r0 mml (?g m) = Go" if "0 < m" "m < length new" for m
  proof (cases "m = length out")
    case True
    with that(1) here show ?thesis by (simp flip: out)
  next
    case False
    with that before show ?thesis by (simp add: new_def)
  qed
  have "new \<noteq> []" by (simp add: new_def)
  with new upto show ?thesis unfolding output_ok_def by blast
qed

lemma verify_loop_single:
  assumes "verify_output_token_ids (IntToken t) r = Inr (code, r1)" "0 \<le> code" "code \<le> 4"
    and "spec_ok r1" "verified r1 \<noteq> []"
  shows "\<exists>kept codes. verify_loop mml [t] r =
    Inr (kept, codes, commit_verdict (stop_verdict r1 mml (verified r1)) r1)"
proof -
  have "sp_len r1 < int (length (output_token_ids r1))"
    using assms(4,5) by (auto simp: spec_ok_def verified_def py_len_def)
  then have "check_stop_from_validation r1 mml
      = Inr (commit_verdict (stop_verdict r1 mml (verified r1)) r1)"
    using assms(4) by (intro check_stop_from_validation_verdict) (auto simp: spec_ok_def)
  then show ?thesis
    using assms(1-3) by (cases "commit_verdict (stop_verdict r1 mml (verified r1)) r1") auto
qed

section \<open>Verification keeps the invariant\<close>

text \<open>Fields the machine's predicates do not look at.\<close>

lemma frame_num_scheduled [simp]:
  "verified (r\<lparr>num_scheduled := n\<rparr>) = verified r"
  "unverified (r\<lparr>num_scheduled := n\<rparr>) = unverified r"
  "spec_ok (r\<lparr>num_scheduled := n\<rparr>) = spec_ok r"
  "same_request r0 (r\<lparr>num_scheduled := n\<rparr>) = same_request r0 r"
  "draft_contexts (r\<lparr>num_scheduled := n\<rparr>) = draft_contexts r"
  by (simp_all add: verified_def unverified_def spec_ok_def tokens_ok_def same_request_def
      draft_contexts_def)

lemma frame_drop_len [simp]:
  "verified (r\<lparr>drop_len := n\<rparr>) = verified r"
  "unverified (r\<lparr>drop_len := n\<rparr>) = unverified r"
  "spec_ok (r\<lparr>drop_len := n\<rparr>) = spec_ok r"
  "same_request r0 (r\<lparr>drop_len := n\<rparr>) = same_request r0 r"
  "draft_contexts (r\<lparr>drop_len := n\<rparr>) = draft_contexts r"
  by (simp_all add: verified_def unverified_def spec_ok_def tokens_ok_def same_request_def
      draft_contexts_def)

text \<open>What verification leaves for the scheduler.\<close>

definition settled :: "request \<Rightarrow> slot list \<Rightarrow> bool" where
  "settled r slots \<longleftrightarrow>
     decoding r slots \<and> \<not> (spec_result r = Some False \<and> just_fixed r = Some True)"

definition pipe_mid ::
  "(int list \<Rightarrow> int) \<Rightarrow> int \<Rightarrow> request \<Rightarrow> request \<Rightarrow> slot list \<Rightarrow> bool" where
  "pipe_mid target mml r0 r slots \<longleftrightarrow>
     base_ok r0 r \<and> output_ok target mml r0 (verified r) False \<and>
     (prefilling r slots \<or> settled r slots \<or> corrected r slots)"

definition verify_goal ::
  "(int list \<Rightarrow> int) \<Rightarrow> int \<Rightarrow> request \<Rightarrow> slot \<Rightarrow> request \<Rightarrow> slot list \<Rightarrow> bool" where
  "verify_goal target mml r0 s r rest \<longleftrightarrow>
     (\<exists>r1. verify_slot target mml s r = Inr (False, r1) \<and> pipe_mid target mml r0 r1 rest) \<or>
     (\<exists>r1. verify_slot target mml s r = Inr (True, r1) \<and> pipe_stopped target mml r0 r1)"

lemma verify_advance:
  assumes base: "base_ok r0 r" and out: "output_ok target mml r0 (verified r) False"
    and ver: "verify_output_token_ids (IntToken (target ctx))
      (r\<lparr>num_scheduled := num_scheduled r - 1\<rparr>) = Inr (code, q)" "0 \<le> code" "code \<le> 4"
    and ctx: "ctx = prompt_token_ids r0 @ verified r"
    and q: "spec_ok q" "same_request r q" "stop_reason q = None"
      "verified q = verified r @ [target ctx]"
    and mid: "prefilling q rest \<or> settled q rest \<or> corrected q rest"
  shows "verify_goal target mml r0 (Run ctx) r rest"
proof -
  let ?v = "stop_verdict r0 mml (verified q)"
  have same: "same_request r0 q"
    using base q(2) by (auto simp: base_ok_def intro: same_request_trans)
  have ne: "verified q \<noteq> []" by (simp add: q(4))
  have out': "output_ok target mml r0 (verified q) (?v \<noteq> Go)"
    using output_ok_snoc [OF out] by (simp add: q(4) ctx)
  have "stop_verdict q mml (verified q) = ?v"
    by (rule same_request_stop_verdict [OF same])
  then obtain kept codes where "verify_loop mml [target ctx]
      (r\<lparr>num_scheduled := num_scheduled r - 1\<rparr>) = Inr (kept, codes, commit_verdict ?v q)"
    using verify_loop_single [OF ver q(1) ne, of mml] by auto
  then have slot: "verify_slot target mml (Run ctx) r = Inr (commit_verdict ?v q)"
    by (simp add: verify_slot_def split: prod.splits)
  show ?thesis
  proof (cases "?v = Go")
    case True
    have "base_ok r0 q"
      using base q same by (auto simp: base_ok_def same_request_def)
    with True slot out' mid show ?thesis
      by (auto simp: verify_goal_def pipe_mid_def commit_verdict_def)
  next
    case False
    let ?r1 = "snd (commit_verdict ?v q)"
    have "commit_verdict ?v q = (True, ?r1)"
      using False by (simp add: prod_eq_iff)
    moreover have "verified ?r1 = verified q"
      by (simp add: verified_def)
    ultimately have "verify_slot target mml (Run ctx) r = Inr (True, ?r1)"
      and "pipe_stopped target mml r0 ?r1"
      using slot out' ne False q(3) by (auto simp: pipe_stopped_def)
    then show ?thesis by (auto simp: verify_goal_def)
  qed
qed

lemma verify_none:
  assumes "base_ok r0 r" "output_ok target mml r0 (verified r) False" "s \<in> {Idle, Chunk}"
    and "\<And>n. prefilling (r\<lparr>num_scheduled := n\<rparr>) rest \<or> settled (r\<lparr>num_scheduled := n\<rparr>) rest"
  shows "verify_goal target mml r0 s r rest"
proof -
  have "\<exists>n. verify_slot target mml s r = Inr (False, r\<lparr>num_scheduled := n\<rparr>)"
  proof (cases "s = Idle")
    case True
    then show ?thesis by (auto simp: verify_slot_def intro!: exI [of _ "num_scheduled r"])
  next
    case False
    with assms(3) have "s = Chunk" by simp
    then show ?thesis by (auto simp: verify_slot_def)
  qed
  moreover have "base_ok r0 (r\<lparr>num_scheduled := n\<rparr>)" for n
    using assms(1) by (simp add: base_ok_def)
  ultimately show ?thesis
    using assms(2,4) unfolding verify_goal_def pipe_mid_def by (metis frame_num_scheduled(1))
qed

text \<open>The token of a rolled-back context is thrown away.\<close>

lemma verify_stale:
  assumes base: "base_ok r0 r" and out: "output_ok target mml r0 (verified r) False"
    and dec: "num_computed_tokens r = num_tokens r - 1" "0 < sp_len r" "\<not> drop_end r"
    and gap: "set gap \<subseteq> {Idle, Chunk}" and flags: "flags_ok r (ctx # stale) b"
  shows "verify_goal target mml r0 (Run ctx) r (queue_shape r stale gap b)"
proof -
  let ?r = "r\<lparr>num_scheduled := num_scheduled r - 1\<rparr>"
  define q where "q = (let q1 = ?r\<lparr>just_fixed := Some False, flush_len := Some (int (length stale))\<rparr>
    in if stale = [] then q1\<lparr>spec_result := None\<rparr> else q1)"
  have spec: "spec_result r = Some False" "flush_len r = Some (1 + int (length stale))"
    and ne: "verified r \<noteq> []"
    using flags by (auto simp: flags_ok_def)
  define code :: int where "code = (if request_dropped r then 3 else 2)"
  have ver: "verify_output_token_ids (IntToken (target ctx)) ?r = Inr (code, q)"
    using spec
    by (simp add: flush_output_def validate_spec_def q_def Let_def code_def request_dropped_def)
  have code: "0 \<le> code" "code \<le> 4"
    by (simp_all add: code_def)
  have frame: "spec_ok q" "verified q = verified r" "same_request r q" "draft_contexts q = draft_contexts r"
    "stop_reason q = None"
    using base by (auto simp: q_def Let_def base_ok_def spec_ok_def tokens_ok_def verified_def
        same_request_def draft_contexts_def unverified_def)
  have same: "same_request r0 q"
    using base frame(3) by (auto simp: base_ok_def intro: same_request_trans)
  have "stop_verdict q mml (verified q) = Go"
    using out ne frame(2) same_request_stop_verdict [OF same] by (auto simp: output_ok_def)
  then obtain kept codes where
    "verify_loop mml [target ctx] ?r = Inr (kept, codes, False, q)"
    using verify_loop_single [OF ver code frame(1), of mml] ne frame(2)
    by (auto simp: commit_verdict_def)
  then have slot: "verify_slot target mml (Run ctx) r = Inr (False, q)"
    by (simp add: verify_slot_def)
  have shape: "queue_shape r stale gap b = queue_shape q stale gap b"
    by (simp add: queue_shape_def frame(4))
  have "flags_ok q stale b"
    using flags by (auto simp: flags_ok_def q_def Let_def request_dropped_def verified_def)
  moreover have "num_computed_tokens q = num_tokens q - 1" "0 < sp_len q" "\<not> drop_end q"
    "just_fixed q = Some False"
    using dec by (simp_all add: q_def Let_def num_tokens_def)
  ultimately have "settled q (queue_shape r stale gap b)"
    using gap unfolding settled_def decoding_def shape by auto
  moreover have "base_ok r0 q"
    using base same frame by (auto simp: base_ok_def same_request_def)
  ultimately show ?thesis
    using slot out frame(2) by (auto simp: verify_goal_def pipe_mid_def)
qed

text \<open>The oldest unverified token: the end of a drop, acceptance, or rejection.\<close>

lemma verify_drop_end:
  assumes base: "base_ok r0 r" and out: "output_ok target mml r0 (verified r) False"
    and num: "num_computed_tokens r = num_tokens r - 1"
    and flags: "flags_ok r [] b"
    and drop: "request_dropped r" "sp_len r = 1"
  shows "verify_goal target mml r0 (Run (prompt_token_ids r0 @ verified r)) r (replicate b Idle)"
proof -
  let ?t = "target (prompt_token_ids r0 @ verified r)"
  let ?r = "r\<lparr>num_scheduled := num_scheduled r - 1, drop_len := 0\<rparr>"
  define q where "q = finish_drop ?t ?r"
  have spec: "spec_result r \<noteq> Some False" and dl: "drop_len r = 1"
    using flags drop by (auto simp: flags_ok_def)
  have ver: "verify_output_token_ids (IntToken ?t) (r\<lparr>num_scheduled := num_scheduled r - 1\<rparr>)
      = Inr (4, q)"
    using drop spec dl by (simp add: request_dropped_def q_def Let_def)
  have ok: "spec_ok ?r" "sp_len ?r = 1" "spec_result ?r \<noteq> Some False"
    using base drop spec by (simp_all add: base_ok_def)
  note eff = finish_drop_effect [OF ok, of ?t, folded q_def]
  have spec': "spec_result r = Some True \<or> spec_result r = None"
    using spec by (cases "spec_result r") auto
  have same: "same_request r q"
    using same_request_ops(3) [of ?r ?t] by (simp add: q_def same_request_def)
  have "num_tokens q = num_tokens r"
    using num_tokens_split [OF eff(3)] num_tokens_split [of r] base same eff(1) drop(2)
    by (simp add: same_request_def base_ok_def q_def finish_drop_def Let_def)
  then have num': "num_computed_tokens q = num_tokens q - 1"
    using num by (simp add: q_def finish_drop_def Let_def)
  have "corrected q (replicate b Idle)"
    unfolding corrected_def
  proof (intro conjI exI)
    show "output_token_ids q \<noteq> []"
      using eff(1,2) verified_unverified [of q] by auto
    show "replicate b Idle = map Run [] @ replicate b Idle" by simp
    show "set (replicate b Idle) \<subseteq> {Idle, Chunk}" by auto
    show "num_computed_tokens q = num_tokens q - 1" by (rule num')
    show "flags_ok q [] 0"
      by (auto simp: flags_ok_def q_def finish_drop_def Let_def request_dropped_def)
  qed (use spec' in \<open>simp_all add: q_def finish_drop_def Let_def request_dropped_def\<close>)
  then show ?thesis
    using verify_advance [OF base out ver _ _ refl eff(3) same, of "replicate b Idle"] eff(1) base
    by (simp add: q_def finish_drop_def Let_def base_ok_def)
qed

lemma verify_accept:
  assumes base: "base_ok r0 r" and out: "output_ok target mml r0 (verified r) False"
    and num: "num_computed_tokens r = num_tokens r - 1" "\<not> drop_end r"
    and flags: "flags_ok r [] b"
    and len: "1 < sp_len r" "hd (unverified r) = target (prompt_token_ids r0 @ verified r)"
    and rest: "map Run (draft_contexts r) @ replicate b Idle
      = Run (prompt_token_ids r0 @ verified r) # rest"
  shows "verify_goal target mml r0 (Run (prompt_token_ids r0 @ verified r)) r rest"
proof -
  let ?t = "target (prompt_token_ids r0 @ verified r)"
  define r1 where "r1 = r\<lparr>num_scheduled := num_scheduled r - 1,
    drop_len := (if request_dropped r then drop_len r - 1 else drop_len r)\<rparr>"
  define q where "q = accept_spec r1"
  have spec: "spec_result r = Some True \<or> spec_result r = None"
    and dl: "request_dropped r \<Longrightarrow> drop_len r = sp_len r"
    using flags by (cases "spec_result r"; auto simp: flags_ok_def)+
  have r1: "spec_ok r1" "0 < sp_len r1" "unverified r1 = unverified r" "verified r1 = verified r"
    using base len by (auto simp: r1_def base_ok_def)
  note eff = accept_spec_effect [OF r1(1,2), folded q_def, unfolded r1(3,4)]
  have "validate_spec ?t r1 = Inr (0, q)"
    using first_unverified [OF r1(1,2)] spec len(2) r1(3)
    by (simp add: validate_spec_def q_def r1_def)
  then have ver: "verify_output_token_ids (IntToken ?t) (r\<lparr>num_scheduled := num_scheduled r - 1\<rparr>)
      = Inr (0, q)"
    using spec dl len(1) by (auto simp: request_dropped_def r1_def Let_def)
  have same: "same_request r q"
    using same_request_ops(1) [of r1] by (simp add: q_def r1_def same_request_def)
  have ne: "unverified r \<noteq> []"
    using r1(2,3) length_unverified [OF r1(1)] by auto
  have ctxs: "draft_contexts r = (prompt_token_ids r0 @ verified r) # draft_contexts q"
    using draft_contexts_Cons [of r "hd (unverified r)" "tl (unverified r)" q] ne eff(1,2) same base
    by (simp add: same_request_def base_ok_def)
  have "settled q (queue_shape q [] [] b)"
    unfolding settled_def decoding_def
  proof (intro conjI exI)
    show "num_computed_tokens q = num_tokens q - 1"
      using num by (simp add: q_def r1_def accept_spec_def num_tokens_def)
    show "queue_shape q [] [] b = queue_shape q [] [] b" by simp
    show "flags_ok q [] b"
      using flags dl by (auto simp: flags_ok_def q_def r1_def accept_spec_def request_dropped_def)
  qed (use num len in \<open>simp_all add: q_def r1_def accept_spec_def\<close>)
  moreover have "queue_shape q [] [] b = rest"
    using rest ctxs by (simp add: queue_shape_def)
  ultimately show ?thesis
    using verify_advance [OF base out ver _ _ refl eff(3) same, of rest] eff(1) base len(2)
    by (simp add: q_def r1_def accept_spec_def base_ok_def)
qed

lemma verify_reject:
  assumes base: "base_ok r0 r" and out: "output_ok target mml r0 (verified r) False"
    and num: "num_computed_tokens r = num_tokens r - 1" "\<not> drop_end r"
    and flags: "flags_ok r [] b"
    and len: "1 < sp_len r" "hd (unverified r) \<noteq> target (prompt_token_ids r0 @ verified r)"
    and rest: "map Run (draft_contexts r) @ replicate b Idle
      = Run (prompt_token_ids r0 @ verified r) # rest"
  shows "verify_goal target mml r0 (Run (prompt_token_ids r0 @ verified r)) r rest"
proof -
  let ?t = "target (prompt_token_ids r0 @ verified r)"
  define r1 where "r1 = r\<lparr>num_scheduled := num_scheduled r - 1,
    drop_len := (if request_dropped r then drop_len r - 1 else drop_len r)\<rparr>"
  define q where "q = reject_spec ?t r1"
  have spec: "spec_result r = Some True \<or> spec_result r = None"
    and dl: "request_dropped r \<Longrightarrow> drop_len r = sp_len r"
    using flags by (cases "spec_result r"; auto simp: flags_ok_def)+
  have r1: "spec_ok r1" "0 < sp_len r1" "unverified r1 = unverified r" "verified r1 = verified r"
    using base len by (auto simp: r1_def base_ok_def)
  note eff = reject_spec_effect [OF r1(1,2), of ?t, folded q_def, unfolded r1(3,4)]
  have "validate_spec ?t r1 = Inr (1, q)"
    using first_unverified [OF r1(1,2)] spec len(2) r1(3)
    by (simp add: validate_spec_def q_def r1_def)
  then have ver: "verify_output_token_ids (IntToken ?t) (r\<lparr>num_scheduled := num_scheduled r - 1\<rparr>)
      = Inr (1, q)"
    using spec dl len(1) by (auto simp: request_dropped_def r1_def Let_def)
  have same: "same_request r q"
    using same_request_ops(2) [of r1 ?t] by (simp add: q_def r1_def same_request_def)
  define stale where "stale = tl (draft_contexts r)"
  have lens: "length (draft_contexts r) = nat (sp_len r)"
    using length_unverified [OF r1(1)] r1(3) by (simp add: r1_def)
  then have stale: "int (length stale) = sp_len r - 1" "stale \<noteq> []"
    using len(1) by (auto simp: stale_def simp flip: length_0_conv)
  have shape: "rest = map Run stale @ replicate b Idle"
    using rest lens len(1) by (cases "draft_contexts r") (auto simp: stale_def)
  have "corrected q rest"
    unfolding corrected_def
  proof (intro conjI exI)
    show "num_computed_tokens q = num_tokens q - 1"
      using num_tokens_split [OF eff(3)] num_tokens_split [of r] base same eff(1) num(1)
      by (simp add: same_request_def base_ok_def q_def r1_def reject_spec_def Let_def)
    show "output_token_ids q \<noteq> []"
      using eff(1,2) verified_unverified [of q] by auto
    show "rest = map Run stale @ replicate b Idle" by (rule shape)
    show "set (replicate b Idle) \<subseteq> {Idle, Chunk}" by auto
    show "flags_ok q stale 0"
      using stale eff(1)
      by (auto simp: flags_ok_def q_def r1_def reject_spec_def Let_def request_dropped_def)
  qed (simp_all add: q_def reject_spec_def Let_def request_dropped_def)
  then show ?thesis
    using verify_advance [OF base out ver _ _ refl eff(3) same, of rest] eff(1) base
    by (simp add: q_def r1_def reject_spec_def Let_def base_ok_def)
qed

lemma verify_decoding:
  assumes "pipe_running target mml pp r0 r (s # rest)" "decoding r (s # rest)" "2 \<le> pp"
  shows "verify_goal target mml r0 s r rest"
proof -
  have base: "base_ok r0 r" and out: "output_ok target mml r0 (verified r) False"
    and pp: "length (s # rest) = pp"
    using assms(1) by (simp_all add: pipe_running_def)
  from assms(2) obtain stale gap b where num: "num_computed_tokens r = num_tokens r - 1"
    "0 < sp_len r" "\<not> drop_end r"
    and shape: "s # rest = queue_shape r stale gap b" and gap: "set gap \<subseteq> {Idle, Chunk}"
    and flags: "flags_ok r stale b"
    by (auto simp: decoding_def)
  have same: "same_request r0 r" and ok: "spec_ok r" using base by (simp_all add: base_ok_def)
  show ?thesis
  proof (cases stale)
    case (Cons ctx stale')
    then have "s = Run ctx" "rest = queue_shape r stale' gap b"
      using shape by (simp_all add: queue_shape_def)
    then show ?thesis
      using verify_stale [OF base out num gap] flags Cons by simp
  next
    case Nil
    note stale = this
    show ?thesis
    proof (cases gap)
      case (Cons g gap')
      then have s: "s = g" "rest = queue_shape r [] gap' b"
        using shape stale by (simp_all add: queue_shape_def)
      have "settled (r\<lparr>num_scheduled := n\<rparr>) rest" for n
        unfolding settled_def decoding_def
      proof (intro conjI exI)
        show "rest = queue_shape (r\<lparr>num_scheduled := n\<rparr>) [] gap' b"
          using s(2) by (simp add: queue_shape_def)
        show "flags_ok (r\<lparr>num_scheduled := n\<rparr>) [] b"
          using flags stale by (simp add: flags_ok_def request_dropped_def)
        show "\<not> (spec_result (r\<lparr>num_scheduled := n\<rparr>) = Some False
          \<and> just_fixed (r\<lparr>num_scheduled := n\<rparr>) = Some True)"
          using flags stale by (simp add: flags_ok_def)
      qed (use num gap Cons in \<open>simp_all add: num_tokens_def\<close>)
      then show ?thesis
        using gap Cons s by (intro verify_none [OF base out]) auto
    next
      case Nil
      have ctx: "\<exists>cs. draft_contexts r = (prompt_token_ids r0 @ verified r) # cs"
      proof -
        have "unverified r \<noteq> []" using num(2) length_unverified [OF ok] by auto
        then obtain u us where "unverified r = u # us" by (cases "unverified r") auto
        then show ?thesis
          using same by (simp add: draft_contexts_def map_upt_Suc same_request_def del: upt_Suc)
      qed
      have rest: "map Run (draft_contexts r) @ replicate b Idle = s # rest"
        using shape stale Nil by (simp add: queue_shape_def)
      then have s: "s = Run (prompt_token_ids r0 @ verified r)" using ctx by auto
      have flags': "flags_ok r [] b" using flags stale by simp
      show ?thesis
      proof (cases "request_dropped r \<and> sp_len r = 1")
        case True
        then have "rest = replicate b Idle"
          using rest ctx length_unverified [OF ok] by (auto simp flip: length_draft_contexts)
        then show ?thesis
          using verify_drop_end [OF base out num(1) flags'] True s by simp
      next
        case False
        have "1 < sp_len r"
        proof (cases "request_dropped r")
          case True
          with False num(2) show ?thesis by simp
        next
          case not_dropped: False
          then have "b = 0" using flags by (simp add: flags_ok_def)
          then have "length (draft_contexts r) = pp"
            using rest pp by (metis append_Nil2 length_map replicate_0)
          then show ?thesis
            using length_unverified [OF ok] assms(3) by simp
        qed
        then show ?thesis
          using verify_accept [OF base out num(1,3) flags'] rest
            verify_reject [OF base out num(1,3) flags'] unfolding s by blast
      qed
    qed
  qed
qed

lemma verify_running:
  assumes "pipe_running target mml pp r0 r (s # rest)" "2 \<le> pp"
  shows "verify_goal target mml r0 s r rest"
proof (cases "decoding r (s # rest)")
  case True
  then show ?thesis using verify_decoding assms by blast
next
  case False
  then have pre: "prefilling r (s # rest)"
    using assms(1) by (simp add: pipe_running_def)
  then have "s \<in> {Idle, Chunk}"
    and "prefilling (r\<lparr>num_scheduled := n\<rparr>) rest" for n
    by (auto simp: prefilling_def request_dropped_def)
  then show ?thesis
    using assms(1) by (intro verify_none) (auto simp: pipe_running_def)
qed

section \<open>Scheduling keeps the invariant\<close>

lemma schedule_run:
  assumes ok: "base_ok r0 r" and n: "num_computed_tokens r + n = num_tokens r"
    and sched: "schedule_tokens n r = (s', r2)" and draft: "ingest_draft mml s' d c lp r2 = Inr r3"
  shows "s' = Run (prompt_token_ids r @ verified r @ unverified r)"
    and "verified r3 = verified r" and "unverified r3 = unverified r @ [d]"
    and "base_ok r0 r3" and "same_request r r3"
    and "draft_contexts r3 = draft_contexts r @ [prompt_token_ids r @ verified r @ unverified r]"
    and "num_computed_tokens r3 = num_tokens r3 - 1"
    and "drop_end r3 = drop_end r" and "spec_result r3 = spec_result r"
    and "flush_len r3 = flush_len r" and "sp_len r3 = sp_len r + 1"
    and "confidence_dropped r3 = confidence_dropped r"
    and "stop_dropped r3 \<Longrightarrow> stop_dropped r \<or> drop_len r3 = sp_len r3"
    and "\<not> stop_dropped r3 \<Longrightarrow> drop_len r3 = drop_len r"
    and "\<not> stop_dropped r3 \<Longrightarrow> \<not> stop_dropped r"
proof -
  define r1 where "r1 = r\<lparr>num_scheduled := num_scheduled r + 1, num_computed_tokens := num_tokens r\<rparr>"
  define q where "q = (let a = append_output_token_ids (IntToken d) (Some c) lp r1
    in a\<lparr>sp_len := sp_len a + 1\<rparr>)"
  have s': "s' = Run (py_upto (all_token_ids r) (num_tokens r))" and r2: "r2 = r1"
    using sched n by (auto simp: schedule_tokens_def Let_def r1_def)
  then show "s' = Run (prompt_token_ids r @ verified r @ unverified r)"
    using ok all_tokens_split [of r]
    by (simp add: py_upto_nonneg num_tokens_def base_ok_def spec_ok_def) (simp add: py_len_def)
  have r1: "spec_ok r1" "verified r1 = verified r" "unverified r1 = unverified r"
    using ok by (simp_all add: r1_def base_ok_def spec_ok_def tokens_ok_def verified_def unverified_def)
  note eff = append_spec_effect [OF r1(1), of d c lp]
  have q: "verified q = verified r" "unverified q = unverified r @ [d]" "spec_ok q"
    using eff r1(2,3) by (simp_all add: q_def Let_def)
  have ne: "output_token_ids q \<noteq> []"
    using q(2) verified_unverified [of q] by auto
  define st where "st = (stop_verdict q mml (output_token_ids q) \<noteq> Go)"
  have "check_stop_from_spec q mml = Inr st"
    using check_stop_from_spec_verdict [OF _ ne] q(3) by (simp add: spec_ok_def st_def)
  then have r3: "r3 = (if st then q\<lparr>stop_dropped := True, drop_len := sp_len q\<rparr> else q)"
    using draft s' r2 by (auto simp: ingest_draft_def q_def Let_def py_get_nonneg)
  show v: "verified r3 = verified r" and u: "unverified r3 = unverified r @ [d]"
    using q by (simp_all add: r3 verified_def unverified_def)
  show same: "same_request r r3"
    by (simp add: r3 q_def r1_def Let_def same_request_def append_output_token_ids_def)
  have ok3: "spec_ok r3"
    using q(3) by (simp add: r3 spec_ok_def tokens_ok_def)
  show "base_ok r0 r3"
    using ok ok3 same
    by (auto simp: base_ok_def r3 q_def r1_def Let_def append_output_token_ids_def same_request_def)
  show "draft_contexts r3 = draft_contexts r @ [prompt_token_ids r @ verified r @ unverified r]"
    using draft_contexts_snoc [OF u v] same by (simp add: same_request_def)
  show "num_computed_tokens r3 = num_tokens r3 - 1" "drop_end r3 = drop_end r"
    "spec_result r3 = spec_result r" "flush_len r3 = flush_len r" "sp_len r3 = sp_len r + 1"
    "confidence_dropped r3 = confidence_dropped r"
    "\<not> stop_dropped r3 \<Longrightarrow> drop_len r3 = drop_len r"
    "\<not> stop_dropped r3 \<Longrightarrow> \<not> stop_dropped r"
    "stop_dropped r3 \<Longrightarrow> stop_dropped r \<or> drop_len r3 = sp_len r3"
    by (auto simp: r3 q_def r1_def Let_def append_output_token_ids_def num_tokens_def
        split: if_splits)
qed

text \<open>Scheduling an iteration over the whole context appends one draft to the queue.\<close>

lemma schedule_run_decoding:
  assumes ok: "base_ok r0 r" and out: "output_ok target mml r0 (verified r) False"
    and n: "num_computed_tokens r + n = num_tokens r" and de: "\<not> drop_end r"
    and sched: "schedule_tokens n r = (s', r2)" and draft: "ingest_draft mml s' d c lp r2 = Inr r3"
    and slots: "rest = map Run stale @ gap @ map Run (draft_contexts r)"
    and gap: "set gap \<subseteq> {Idle, Chunk}" and flags: "flags_ok r stale 0"
    and nd: "\<not> request_dropped r" and pp: "pp = Suc (length rest)"
  shows "pipe_running target mml pp r0 r3 (rest @ [s'])"
proof -
  note e = schedule_run [OF ok n sched draft]
  have "rest @ [s'] = queue_shape r3 stale gap 0"
    using slots e(1,6) by (simp add: queue_shape_def)
  moreover have "flags_ok r3 stale 0"
    using flags e nd by (auto simp: flags_ok_def request_dropped_def)
  moreover have "0 < sp_len r3"
    using e(11) ok by (simp add: base_ok_def spec_ok_def)
  ultimately have "decoding r3 (rest @ [s'])"
    using e(7,8) de gap unfolding decoding_def by auto
  then show ?thesis
    using e(2,4) out pp by (simp add: pipe_running_def)
qed

lemma schedule_chunk:
  assumes ok: "base_ok r0 r" and n: "num_computed_tokens r + n < num_tokens r" "0 < n"
    and sched: "schedule_tokens n r = (s', r2)" and draft: "ingest_draft mml s' d c lp r2 = Inr r3"
    and pre: "prefilling r rest" and out: "output_ok target mml r0 (verified r) False"
    and pp: "pp = Suc (length rest)"
  shows "pipe_running target mml pp r0 r3 (rest @ [s'])"
proof -
  have s': "s' = Chunk" "r3 = r\<lparr>num_scheduled := num_scheduled r + 1,
      num_computed_tokens := num_computed_tokens r + n\<rparr>"
    using sched draft n by (auto simp: schedule_tokens_def ingest_draft_def Let_def)
  have "num_tokens r = num_prompt_tokens r"
    using ok pre by (simp add: num_tokens_def base_ok_def spec_ok_def tokens_ok_def prefilling_def)
  then have "prefilling r3 (rest @ [s'])"
    using pre n s' by (simp add: prefilling_def request_dropped_def)
  moreover have "base_ok r0 r3" "verified r3 = verified r"
    using ok s' by (auto simp: base_ok_def spec_ok_def tokens_ok_def same_request_def verified_def)
  ultimately show ?thesis using out pp by (simp add: pipe_running_def)
qed

text \<open>The prompt has been computed once a token has been generated.\<close>

lemma computed_past_prompt:
  "base_ok r0 r \<Longrightarrow> output_token_ids r \<noteq> [] \<Longrightarrow> num_computed_tokens r = num_tokens r - 1 \<Longrightarrow>
   num_prompt_tokens r \<le> num_computed_tokens r"
  by (cases "output_token_ids r")
    (simp_all add: base_ok_def spec_ok_def tokens_ok_def num_tokens_def)

lemma settled_not_pending:
  assumes "base_ok r0 r" "settled r slots"
  shows "\<not> has_pending_real_token r"
proof -
  have "0 < sp_len r" "num_computed_tokens r = num_tokens r - 1"
    using assms(2) by (simp_all add: settled_def decoding_def)
  moreover from this have "output_token_ids r \<noteq> []"
    using assms(1) by (auto simp: base_ok_def spec_ok_def)
  ultimately have "num_prompt_tokens r \<le> num_computed_tokens r"
    using computed_past_prompt assms(1) by blast
  then show ?thesis
    using assms(2) by (auto simp: has_pending_real_token_def settled_def decoding_def)
qed

lemma decoding_idle:
  assumes "decoding r slots" "request_dropped r"
  shows "decoding r (slots @ [Idle])"
proof -
  from assms(1) obtain stale gap b where "slots = queue_shape r stale gap b"
    and "set gap \<subseteq> {Idle, Chunk}" "flags_ok r stale b"
    by (auto simp: decoding_def)
  then have "slots @ [Idle] = queue_shape r stale gap (Suc b)" "flags_ok r stale (Suc b)"
    using assms(2)
    by (auto simp: queue_shape_def flags_ok_def replicate_append_same simp flip: replicate_Suc)
  then show ?thesis
    using assms(1) \<open>set gap \<subseteq> {Idle, Chunk}\<close> unfolding decoding_def by blast
qed

lemma pipe_step_inv:
  assumes step: "pipe_step target mml st st'" and inv: "pipe_inv target mml pp r0 st"
    and pp: "2 \<le> pp"
  shows "pipe_inv target mml pp r0 st'"
proof -
  have run: "verify_goal target mml r0 s (p_request st) rest" "pp = Suc (length rest)"
    if "\<not> p_done st" "p_slots st = s # rest" for s rest
    using inv that verify_running [OF _ pp] by (auto simp: pipe_inv_def pipe_running_def)
  have mid: "pipe_mid target mml r0 r1 rest" "pp = Suc (length rest)"
    if "\<not> p_done st" "p_slots st = s # rest"
      "verify_slot target mml s (p_request st) = Inr (False, r1)" for s rest r1
    using run [OF that(1,2)] that(3) by (auto simp: verify_goal_def)
  show ?thesis
    using step
  proof cases
    case (stop s rest r1)
    then show ?thesis
      using run [OF stop(2,3)] by (auto simp: verify_goal_def pipe_inv_def)
  next
    case (real s rest r1 n s' r2 d c lp r3)
    note m = mid [OF real(2-4)]
    let ?r = "r1\<lparr>drop_end := False\<rparr>"
    have base: "base_ok r0 ?r" and out: "output_ok target mml r0 (verified ?r) False"
      using m(1) by (auto simp: pipe_mid_def base_ok_def spec_ok_def tokens_ok_def
          same_request_def verified_def)
    have b1: "base_ok r0 r1" using m(1) by (simp add: pipe_mid_def)
    from m(1) real(5) have "prefilling r1 rest \<or> corrected r1 rest"
      using settled_not_pending by (auto simp: pipe_mid_def)
    then show ?thesis
    proof
      assume pre: "prefilling r1 rest"
      then have toks: "num_tokens r1 = num_prompt_tokens r1" "num_tokens_with_spec r1 = num_tokens r1"
        "unverified r1 = []"
        using b1 by (simp_all add: num_tokens_def num_tokens_with_spec_def base_ok_def spec_ok_def
            tokens_ok_def prefilling_def unverified_def)
      then have n: "0 < n" "num_computed_tokens r1 + n \<le> num_tokens r1"
        using real(6) pre by (auto simp: prefilling_def)
      have pre': "prefilling ?r rest"
        using pre by (simp add: prefilling_def request_dropped_def)
      show ?thesis
      proof (cases "num_computed_tokens r1 + n = num_tokens r1")
        case True
        then have "pipe_running target mml pp r0 r3 (rest @ [s'])"
          using pre toks
          by (intro schedule_run_decoding [OF base out _ _ real(7,8), of rest "[]" rest] m(2))
            (auto simp: num_tokens_def prefilling_def flags_ok_def request_dropped_def
              draft_contexts_def unverified_def)
        then show ?thesis using real by (simp add: pipe_inv_def)
      next
        case False
        then have "pipe_running target mml pp r0 r3 (rest @ [s'])"
          using n by (intro schedule_chunk [OF base _ _ real(7,8) pre' out m(2)])
            (auto simp: num_tokens_def)
        then show ?thesis using real by (simp add: pipe_inv_def)
      qed
    next
      assume cor: "corrected r1 rest"
      then obtain stale gap where c: "rest = map Run stale @ gap" "set gap \<subseteq> {Idle, Chunk}"
        "flags_ok r1 stale 0"
        by (auto simp: corrected_def)
      have "num_prompt_tokens r1 \<le> num_computed_tokens r1"
        using cor computed_past_prompt [OF b1] by (auto simp: corrected_def)
      then have n: "n = 1" using real(6) by simp
      have "pipe_running target mml pp r0 r3 (rest @ [s'])"
        using cor c n
        by (intro schedule_run_decoding [OF base out _ _ real(7,8), of rest stale gap] m(2))
          (auto simp: corrected_def num_tokens_def flags_ok_def request_dropped_def
            draft_contexts_def unverified_def verified_def)
      then show ?thesis using real by (simp add: pipe_inv_def)
    qed
  next
    case (dropped s rest r1)
    note m = mid [OF dropped(2-4)]
    have "\<not> prefilling r1 rest" "\<not> corrected r1 rest"
      using dropped(6) by (auto simp: prefilling_def corrected_def request_dropped_def)
    then have "decoding r1 (rest @ [Idle])"
      using m(1) dropped(6) decoding_idle
      by (auto simp: pipe_mid_def settled_def request_dropped_def)
    then show ?thesis
      using dropped m by (simp add: pipe_inv_def pipe_running_def pipe_mid_def)
  next
    case (spec s rest r1 n s' r2 d c lp r3)
    note m = mid [OF spec(2-4)]
    have base: "base_ok r0 r1" and out: "output_ok target mml r0 (verified r1) False"
      using m(1) by (simp_all add: pipe_mid_def)
    have set': "settled r1 rest"
      using m(1) spec(5) by (auto simp: pipe_mid_def corrected_def prefilling_def
          has_pending_real_token_def)
    then obtain stale gap b where q: "rest = queue_shape r1 stale gap b"
      "set gap \<subseteq> {Idle, Chunk}" "flags_ok r1 stale b"
      by (auto simp: settled_def decoding_def)
    have nd: "\<not> request_dropped r1" using spec by (simp add: request_dropped_def)
    then have b: "b = 0" using q(3) by (simp add: flags_ok_def)
    have "num_computed_tokens r1 + n = num_tokens r1"
      using spec(8) base by (simp add: num_tokens_with_spec_def num_tokens_def base_ok_def)
    then have "pipe_running target mml pp r0 r3 (rest @ [s'])"
      using set' q b nd
      by (intro schedule_run_decoding [OF base out _ _ spec(9,10), of rest stale gap] m(2))
        (auto simp: settled_def decoding_def queue_shape_def)
    then show ?thesis using spec by (simp add: pipe_inv_def)
  next
    case (drop s rest r1)
    note m = mid [OF drop(2-4)]
    let ?r = "r1\<lparr>confidence_dropped := True, drop_len := sp_len r1\<rparr>"
    have "settled r1 rest"
      using m(1) drop(5) by (auto simp: pipe_mid_def corrected_def prefilling_def
          has_pending_real_token_def)
    then obtain stale gap b where q: "rest = queue_shape r1 stale gap b"
      "set gap \<subseteq> {Idle, Chunk}" "flags_ok r1 stale b" "num_computed_tokens r1 = num_tokens r1 - 1"
      "0 < sp_len r1" "\<not> drop_end r1"
      by (auto simp: settled_def decoding_def)
    have frame: "verified ?r = verified r1" "draft_contexts ?r = draft_contexts r1"
      "base_ok r0 ?r"
      using m(1) by (auto simp: pipe_mid_def base_ok_def spec_ok_def tokens_ok_def
          same_request_def verified_def draft_contexts_def unverified_def)
    have "rest = queue_shape ?r stale gap b"
      using q(1) frame(2) by (simp add: queue_shape_def)
    moreover have "flags_ok ?r stale b"
      using q(3) frame(1) by (auto simp: flags_ok_def request_dropped_def)
    ultimately have "decoding ?r rest"
      using q unfolding decoding_def by (auto simp: num_tokens_def)
    then have "decoding ?r (rest @ [Idle])"
      by (rule decoding_idle) (simp add: request_dropped_def)
    then show ?thesis
      using drop m frame by (simp add: pipe_inv_def pipe_running_def pipe_mid_def)
  qed
qed

section \<open>Reachable states\<close>

lemma pipe_init_inv:
  assumes "fresh_request r0"
  shows "pipe_inv target mml pp r0 (pipe_init pp r0)"
proof -
  have "prefilling r0 (replicate pp Idle)"
    using assms by (auto simp: fresh_request_def prefilling_def request_dropped_def py_len_def)
  then show ?thesis
    using assms
    by (simp add: pipe_inv_def pipe_init_def pipe_running_def base_ok_def spec_ok_def tokens_ok_def
        fresh_request_def same_request_def output_ok_def verified_def)
qed

lemma pipe_reachable_inv:
  assumes "pipe_reachable target mml pp r0 st" "fresh_request r0" "2 \<le> pp"
  shows "pipe_inv target mml pp r0 st"
  using assms
  by (induction rule: pipe_reachable.induct) (auto intro: pipe_init_inv pipe_step_inv)

text \<open>The upstream loop on a fresh request, as long as no earlier prefix stops it.\<close>

lemma vanilla_run_greedy:
  assumes fresh: "fresh_request r0"
    and go: "\<And>m. 0 < m \<Longrightarrow> m < n \<Longrightarrow>
      stop_verdict r0 mml (greedy target (prompt_token_ids r0) m) = Go"
  defines "g \<equiv> greedy target (prompt_token_ids r0) n"
  shows "\<exists>v. vanilla_run target mml n r0
      = Inr (if n = 0 then (False, v) else commit_verdict (stop_verdict r0 mml g) v) \<and>
    output_token_ids v = g \<and> tokens_ok v \<and> same_request r0 v \<and> stop_reason v = None \<and>
    status v = status r0"
  using go unfolding g_def
proof (induction n)
  case 0
  then show ?case
    using fresh by (simp add: fresh_request_def tokens_ok_def same_request_def)
next
  case (Suc n)
  let ?g = "greedy target (prompt_token_ids r0)"
  obtain v where run: "vanilla_run target mml n r0
      = Inr (if n = 0 then (False, v) else commit_verdict (stop_verdict r0 mml (?g n)) v)"
    and v: "output_token_ids v = ?g n" "tokens_ok v" "same_request r0 v" "stop_reason v = None"
      "status v = status r0"
    using Suc by (metis less_Suc_eq)
  have "n = 0 \<or> stop_verdict r0 mml (?g n) = Go"
    using Suc.prems [of n] by auto
  then have run': "vanilla_run target mml n r0 = Inr (False, v)"
    using run by (auto simp: commit_verdict_def)
  define w where "w = append_output_token_ids (IntToken (target (all_token_ids v))) None None v"
  have w: "output_token_ids w = ?g (Suc n)" "tokens_ok w" "same_request r0 w"
    "stop_reason w = None" "status w = status r0"
    using v by (auto simp: w_def append_output_token_ids_def tokens_ok_def same_request_def)
  have "output_token_ids w \<noteq> []" using w(1) by simp
  then have "check_stop w mml = Inr (commit_verdict (stop_verdict r0 mml (?g (Suc n))) w)"
    using check_stop_verdict [OF w(2)] w(1) same_request_stop_verdict [OF w(3)] by simp
  then show ?case
    using run' w by (auto simp: w_def)
qed

section \<open>Properties\<close>


lemma ingest_draft_total: "\<exists>r3. ingest_draft mml s' d c lp r2 = Inr r3"
  by (cases s')
    (auto simp: ingest_draft_def py_get_nonneg Let_def check_stop_from_spec_def
      append_output_token_ids_def)

lemma pipe_mid_step:
  assumes "\<not> p_done st" "p_slots st = s # rest"
    and "verify_slot target mml s (p_request st) = Inr (False, r1)" and "base_ok r0 r1"
  shows "\<exists>st'. pipe_step target mml st st'"
proof (cases "has_pending_real_token r1")
  case True
  obtain s' r2 where sched: "schedule_tokens 1 (r1\<lparr>drop_end := False\<rparr>) = (s', r2)"
    by (cases "schedule_tokens 1 (r1\<lparr>drop_end := False\<rparr>)")
  obtain r3 where draft: "ingest_draft mml s' 0 0 None r2 = Inr r3"
    using ingest_draft_total by blast
  have "num_prompt_tokens r1 \<le> num_tokens_with_spec r1"
    using assms(4) by (auto simp: num_tokens_with_spec_def base_ok_def spec_ok_def tokens_ok_def)
  then have "pipe_step target mml st \<lparr>p_request = r3, p_slots = rest @ [s'], p_done = False\<rparr>"
    by (intro pipe_step.real [OF assms(1-3) True _ sched draft]) auto
  then show ?thesis by blast
next
  case False
  then show ?thesis
    using pipe_step.dropped [OF assms(1-3) False] pipe_step.drop [OF assms(1-3) False] by blast
qed


section \<open>Running the machine\<close>

text \<open>
  The machine as a function of the choices the relation leaves open: the chunk size, whether
  the request is dropped, the drafted token and its confidence.
\<close>

type_synonym pipe_choice = "int \<times> bool \<times> int \<times> rat"

definition pipe_exec ::
  "(int list \<Rightarrow> int) \<Rightarrow> int \<Rightarrow> pipe_choice \<Rightarrow> pipe \<Rightarrow> pipe option" where
  "pipe_exec target mml ch st =
     (case ch of (n, drp, d, c) \<Rightarrow>
      (case p_slots st of
        [] \<Rightarrow> None
      | s # rest \<Rightarrow>
          if p_done st then None
          else (case verify_slot target mml s (p_request st) of
            Inl _ \<Rightarrow> None
          | Inr (stopped, r1) \<Rightarrow>
              if stopped then Some \<lparr>p_request = r1, p_slots = rest, p_done = True\<rparr>
              else if has_pending_real_token r1 then
                (let m = (if num_computed_tokens r1 < num_prompt_tokens r1
                          then max 1 (min n (num_tokens_with_spec r1 - num_computed_tokens r1))
                          else 1);
                     sr = schedule_tokens m (r1\<lparr>drop_end := False\<rparr>)
                 in case ingest_draft mml (fst sr) d c None (snd sr) of
                      Inl _ \<Rightarrow> None
                    | Inr r3 \<Rightarrow>
                        if num_prompt_tokens r1 \<le> num_tokens_with_spec r1
                        then Some \<lparr>p_request = r3, p_slots = rest @ [fst sr], p_done = False\<rparr>
                        else None)
              else if confidence_dropped r1 \<or> stop_dropped r1
                then Some \<lparr>p_request = r1, p_slots = rest @ [Idle], p_done = False\<rparr>
              else if drp
                then Some \<lparr>p_request = r1\<lparr>confidence_dropped := True, drop_len := sp_len r1\<rparr>,
                           p_slots = rest @ [Idle], p_done = False\<rparr>
              else
                (let sr = schedule_tokens (num_tokens_with_spec r1 - num_computed_tokens r1) r1
                 in case ingest_draft mml (fst sr) d c None (snd sr) of
                      Inl _ \<Rightarrow> None
                    | Inr r3 \<Rightarrow>
                        Some \<lparr>p_request = r3, p_slots = rest @ [fst sr], p_done = False\<rparr>))))"

lemma pipe_exec_step:
  assumes "pipe_exec target mml ch st = Some st'"
  shows "pipe_step target mml st st'"
proof -
  obtain n drp d c where ch: "ch = (n, drp, d, c)" by (cases ch)
  from assms obtain s rest stopped r1 where slots: "p_slots st = s # rest" "\<not> p_done st"
    and ver: "verify_slot target mml s (p_request st) = Inr (stopped, r1)"
    by (auto simp: pipe_exec_def ch split: list.splits sum.splits if_splits)
  note ex = assms [unfolded pipe_exec_def ch, simplified slots list.case prod.case ver sum.case
      if_False]
  show ?thesis
  proof (cases stopped)
    case True
    then show ?thesis
      using ex slots ver pipe_step.stop [of st s rest target mml r1] by auto
  next
    case False
    have verF: "verify_slot target mml s (p_request st) = Inr (False, r1)"
      using ver False by simp
    note base = slots(2,1) verF
    show ?thesis
    proof (cases "has_pending_real_token r1")
      case True
      then show ?thesis
        using ex False
        by (auto simp: Let_def split: sum.splits if_splits
            intro!: pipe_step.real [OF base(1) base(2) base(3) True, where c = c and d = d])
    next
      case np: False
      then show ?thesis
        using ex False pipe_step.dropped [OF base np] pipe_step.drop [OF base np]
        by (auto simp: Let_def split: sum.splits if_splits
            intro!: pipe_step.spec [OF base(1) base(2) base(3) np, where c = c and d = d])
    qed
  qed
qed

fun pipe_run :: "(int list \<Rightarrow> int) \<Rightarrow> int \<Rightarrow> pipe_choice list \<Rightarrow> pipe \<Rightarrow> pipe option" where
  "pipe_run target mml [] st = Some st"
| "pipe_run target mml (ch # chs) st =
     (case pipe_exec target mml ch st of None \<Rightarrow> None | Some st' \<Rightarrow> pipe_run target mml chs st')"

lemma pipe_run_reachable:
  "pipe_run target mml chs st = Some st' \<Longrightarrow> pipe_reachable target mml pp r0 st \<Longrightarrow>
   pipe_reachable target mml pp r0 st'"
  by (induction chs arbitrary: st)
    (auto split: option.splits intro: pipe_reachable.step dest: pipe_exec_step)

section \<open>Witnesses\<close>

text \<open>
  A run of eight steps over two stages: the prefill, an accepted draft, a rejection with one
  iteration to flush, and a stop at the end-of-sequence token.
\<close>

definition sample_target :: "int list \<Rightarrow> int" where
  "sample_target ctx = (if length ctx = 3 then 5 else if length ctx = 5 then 9 else 7)"

definition sample_choices :: "pipe_choice list" where
  "sample_choices = [(2, False, 7, 1), (1, False, 4, 1), (1, False, 5, 1), (1, False, 5, 1),
     (1, False, 7, 1), (1, False, 9, 1), (1, False, 3, 1), (1, False, 3, 1)]"

lemma sample_fresh: "prompt \<noteq> [] \<Longrightarrow> fresh_request (sample_request rid prompt)"
  by (simp add: fresh_request_def is_finished_def)



section \<open>A rejection with a single unverified token\<close>

text \<open>
  The guarantees above need two stages. A rejection that leaves nothing to flush still enters
  the flush state, with \<open>flush_len\<close> 0; since verification decrements before it compares with
  0, the request never leaves that state.
\<close>

datatype req_op = Verify int | Draft int rat

fun req_op_step :: "int \<Rightarrow> req_op \<Rightarrow> request \<Rightarrow> request res" where
  "req_op_step mml (Verify t) r = ebind (verify_output_token_ids (IntToken t) r) (\<lambda>x. Inr (snd x))"
| "req_op_step mml (Draft d c) r = spec_append_loop mml 0 [d] [c] None r"

definition flush_stuck :: "request \<Rightarrow> bool" where
  "flush_stuck r \<longleftrightarrow> spec_ok r \<and> spec_result r = Some False \<and> (\<exists>n \<le> 0. flush_len r = Some n)"

lemma flush_stuck_verify:
  assumes "flush_stuck r"
  shows "\<exists>r'. req_op_step mml (Verify t) r = Inr r' \<and> flush_stuck r' \<and> verified r' = verified r"
  using assms
  by (auto simp: flush_stuck_def flush_output_def validate_spec_def Let_def spec_ok_def
      tokens_ok_def verified_def)

lemma flush_stuck_draft:
  assumes "flush_stuck r"
  shows "\<exists>r'. req_op_step mml (Draft d c) r = Inr r' \<and> flush_stuck r' \<and> verified r' = verified r"
proof -
  define a where "a = append_output_token_ids (IntToken d) (Some c) None r"
  define q where "q = a\<lparr>sp_len := sp_len a + 1\<rparr>"
  have ok: "spec_ok r" using assms by (simp add: flush_stuck_def)
  note eff = append_spec_effect [OF ok, of d c None, folded a_def, folded q_def]
  obtain b where b: "check_stop_from_spec q mml = Inr b"
    using check_stop_from_spec_verdict [of q mml] eff verified_unverified [of q]
    by (fastforce simp: spec_ok_def)
  define q' where "q' = (if b then q\<lparr>stop_dropped := True, drop_len := sp_len q\<rparr> else q)"
  have "req_op_step mml (Draft d c) r = Inr q'"
    using b by (simp add: py_get_nonneg q'_def q_def a_def Let_def)
  moreover have "spec_ok q'" "verified q' = verified r"
    using eff by (simp_all add: q'_def spec_ok_def tokens_ok_def verified_def)
  moreover have "spec_result q' = spec_result r" "flush_len q' = flush_len r"
    by (simp_all add: q'_def q_def a_def append_output_token_ids_def Let_def)
  ultimately show ?thesis using assms by (auto simp: flush_stuck_def)
qed

lemma flush_stuck_forever:
  "flush_stuck r \<Longrightarrow>
   \<exists>r'. efold (req_op_step mml) ops r = Inr r' \<and> flush_stuck r' \<and> verified r' = verified r"
proof (induction ops arbitrary: r)
  case Nil
  then show ?case by simp
next
  case (Cons op ops)
  have "\<exists>r1. req_op_step mml op r = Inr r1 \<and> flush_stuck r1 \<and> verified r1 = verified r"
    using flush_stuck_verify [OF Cons.prems] flush_stuck_draft [OF Cons.prems] by (cases op) auto
  then show ?case using Cons.IH by fastforce
qed

text \<open>
  C3: when a wrong draft is the only unverified token of a request that has not been dropped,
  rejecting it appends the target's token, and from then on no sequence of verifications and
  speculations ever verifies another token of this request.
\<close>

theorem lone_rejection_never_recovers:
  assumes "spec_ok r" "sp_len r = 1" "\<not> confidence_dropped r" "\<not> stop_dropped r"
    and "spec_result r \<noteq> Some False" "hd (unverified r) \<noteq> t"
  shows "\<exists>r'. efold (req_op_step mml) (Verify t # ops) r = Inr r' \<and>
    verified r' = verified r @ [t] \<and> spec_result r' = Some False"
proof -
  have pos: "0 < sp_len r" using assms(2) by simp
  have "spec_result r = Some True \<or> spec_result r = None"
    using assms(5) by (cases "spec_result r") auto
  then have step: "req_op_step mml (Verify t) r = Inr (reject_spec t r)"
    using assms first_unverified [OF assms(1) pos] by (auto simp: validate_spec_def)
  have "flush_stuck (reject_spec t r)"
    using reject_spec_effect(3) [OF assms(1) pos] assms(2)
    by (simp add: flush_stuck_def reject_spec_def Let_def)
  then show ?thesis
    using flush_stuck_forever [of "reject_spec t r" mml ops] step
      reject_spec_effect(1) [OF assms(1) pos, of t]
    by (auto simp: flush_stuck_def)
qed

theorem lone_rejection_never_recovers_witness:
  "\<exists>r r'. spec_append_loop 100 0 [5] [1] None (sample_request ''r'' [1, 2]) = Inr r \<and>
    efold (req_op_step 100) [Verify 7, Draft 7 1, Verify 7, Draft 7 1, Verify 7] r = Inr r' \<and>
    verified r' = [7]"
proof -
  let ?r = "(sample_request ''r'' [1, 2])\<lparr>output_token_ids := [5], all_token_ids := [1, 2, 5],
    spec_confidence_list := [1], predicted_len_prob := None, sp_len := 1\<rparr>"
  have r: "spec_append_loop 100 0 [5] [1] None (sample_request ''r'' [1, 2]) = Inr ?r"
    by (simp add: append_output_token_ids_def Let_def check_stop_from_spec_def num_tokens_def
        num_output_tokens_def py_get_nonneg sample_params_def or_empty_def)
  have ok: "spec_ok ?r" "verified ?r = []" "unverified ?r = [5]"
    by (simp_all add: spec_ok_def tokens_ok_def verified_def unverified_def)
  have "\<exists>r'. efold (req_op_step 100)
      (Verify 7 # [Draft 7 1, Verify 7, Draft 7 1, Verify 7]) ?r = Inr r' \<and>
    verified r' = verified ?r @ [7] \<and> spec_result r' = Some False"
    by (rule lone_rejection_never_recovers) (use ok in simp_all)
  then show ?thesis using r ok(2) by (metis append_Nil)
qed

end
