(* ===== verification/Ngram.thy ===== *)
theory Ngram
  imports Prelude
begin

text \<open>
  \<open>spexis/v1/spec_decode/ngram_proposer.py\<close>: drafts by n-gram lookup. The search is the algorithm
  of Knuth, Morris and Pratt, compiled code without bounds checks; the loops are translated as
  they are, with every array access checked, so that the theorems show that each run ends, that
  no access is out of bounds, and that the result is that of a naive search.
\<close>

section \<open>The code\<close>

text \<open>Array accesses; an index outside of the array is an error of its own.\<close>

definition aget :: "'a list \<Rightarrow> nat \<Rightarrow> 'a res" where
  "aget xs i = (if i < length xs then Inr (xs ! i) else Inl IndexError)"

definition aset :: "'a list \<Rightarrow> nat \<Rightarrow> 'a \<Rightarrow> 'a list res" where
  "aset xs i v = (if i < length xs then Inr (xs[i := v]) else Inl IndexError)"

lemma aget_Inr [simp]: "i < length xs \<Longrightarrow> aget xs i = Inr (xs ! i)"
  by (simp add: aget_def)

lemma aset_Inr [simp]: "i < length xs \<Longrightarrow> aset xs i v = Inr (xs[i := v])"
  by (simp add: aset_def)

text \<open>One pass of a loop gives its next state; \<open>None\<close> as the value of a loop means no end.\<close>

definition lps_step :: "int list \<Rightarrow> nat \<Rightarrow> nat \<Rightarrow> nat list \<Rightarrow> (nat \<times> nat \<times> nat list) res" where
  "lps_step pattern prev_lps i lps =
     ebind (aget pattern i) (\<lambda>a.
     ebind (aget pattern prev_lps) (\<lambda>b.
     if a = b then ebind (aset lps i (prev_lps + 1)) (\<lambda>lps'. Inr (prev_lps + 1, i + 1, lps'))
     else if prev_lps \<noteq> 0 then ebind (aget lps (prev_lps - 1)) (\<lambda>p. Inr (p, i, lps))
     else ebind (aset lps i 0) (\<lambda>lps'. Inr (prev_lps, i + 1, lps'))))"

partial_function (option) lps_loop ::
  "int list \<Rightarrow> nat \<Rightarrow> nat \<Rightarrow> nat list \<Rightarrow> nat list res option" where
  "lps_loop pattern prev_lps i lps =
     (if length pattern \<le> i then Some (Inr lps)
      else (case lps_step pattern prev_lps i lps of
              Inl e \<Rightarrow> Some (Inl e)
            | Inr (p, i', lps') \<Rightarrow> lps_loop pattern p i' lps'))"

definition kmp_lps_array :: "int list \<Rightarrow> nat list res option" where
  "kmp_lps_array pattern = lps_loop pattern 0 1 (replicate (length pattern) 0)"

text \<open>The flag says that the whole pattern has been matched.\<close>

definition find_step ::
  "int list \<Rightarrow> int list \<Rightarrow> nat list \<Rightarrow> nat \<Rightarrow> nat \<Rightarrow> nat \<Rightarrow> (bool \<times> nat \<times> nat) res" where
  "find_step ctx pattern lps n i j =
     ebind (aget ctx i) (\<lambda>a.
     ebind (aget pattern j) (\<lambda>b.
     if a = b then Inr (j + 1 = n, i + 1, j + 1)
     else if j \<noteq> 0 then ebind (aget lps (j - 1)) (\<lambda>j'. Inr (False, i, j'))
     else Inr (False, i + 1, j)))"

partial_function (option) find_loop ::
  "int list \<Rightarrow> int list \<Rightarrow> nat list \<Rightarrow> nat \<Rightarrow> int \<Rightarrow> nat \<Rightarrow> nat \<Rightarrow> int list option res option" where
  "find_loop ctx pattern lps n k i j =
     (if int (length ctx) - int n \<le> int i then Some (Inr None)
      else (case find_step ctx pattern lps n i j of
              Inl e \<Rightarrow> Some (Inl e)
            | Inr (matched, i', j') \<Rightarrow>
                if matched then Some (Inr (Some (py_slice ctx (int i') (int i' + k))))
                else find_loop ctx pattern lps n k i' j'))"

definition find_subarray_kmp :: "int list \<Rightarrow> int \<Rightarrow> int \<Rightarrow> int list option res option" where
  "find_subarray_kmp ctx n k =
     (if n \<le> 0 then Some (Inl AssertionError)
      else (let pattern = py_from ctx (- n) in
            Option.bind (kmp_lps_array pattern) (\<lambda>r.
              case r of Inl e \<Rightarrow> Some (Inl e)
              | Inr lps \<Rightarrow> find_loop ctx pattern lps (nat n) k 0 0)))"

record ngram_proposer =
  min_n :: int
  max_n :: int
  ng_k :: int

fun propose_loop :: "int list \<Rightarrow> int \<Rightarrow> int list \<Rightarrow> int list option res option" where
  "propose_loop ctx k [] = Some (Inr None)"
| "propose_loop ctx k (n # ns) =
     Option.bind (find_subarray_kmp ctx n k) (\<lambda>r.
       case r of Inl e \<Rightarrow> Some (Inl e)
       | Inr None \<Rightarrow> propose_loop ctx k ns
       | Inr (Some out) \<Rightarrow> Some (Inr (Some out)))"

definition propose :: "ngram_proposer \<Rightarrow> int list \<Rightarrow> int list option res option" where
  "propose p ctx =
     (case py_range (max_n p) (min_n p - 1) (- 1) of
        Inl e \<Rightarrow> Some (Inl e)
      | Inr ns \<Rightarrow> propose_loop ctx (ng_k p) ns)"

section \<open>Borders\<close>

text \<open>
  \<open>b\<close> is the length of a border of the first \<open>m\<close> elements of \<open>p\<close>: a proper prefix that is also a
  suffix. \<open>best\<close> says that it is the longest one.
\<close>

definition border :: "'a list \<Rightarrow> nat \<Rightarrow> nat \<Rightarrow> bool" where
  "border p m b \<longleftrightarrow> b < m \<and> (\<forall>q < b. p ! q = p ! (m - b + q))"

definition best :: "'a list \<Rightarrow> nat \<Rightarrow> nat \<Rightarrow> bool" where
  "best p m b \<longleftrightarrow> border p m b \<and> (\<forall>c. border p m c \<longrightarrow> c \<le> b)"

lemma border_0: "0 < m \<Longrightarrow> border p m 0"
  by (simp add: border_def)

lemma border_less: "border p m b \<Longrightarrow> b < m"
  by (simp add: border_def)

text \<open>Borders extend by one matching element, and only so.\<close>

lemma border_Suc:
  "border p (Suc m) (Suc b) \<longleftrightarrow> border p m b \<and> p ! b = p ! m"
proof
  assume a: "border p (Suc m) (Suc b)"
  then have lt: "b < m" and eq: "\<forall>q < Suc b. p ! q = p ! (m - b + q)" by (simp_all add: border_def)
  from eq have "p ! b = p ! (m - b + b)" by blast
  then show "border p m b \<and> p ! b = p ! m" using lt eq by (simp add: border_def)
next
  assume "border p m b \<and> p ! b = p ! m"
  then show "border p (Suc m) (Suc b)" by (auto simp: border_def less_Suc_eq)
qed

text \<open>Below a border, the borders of the whole are the borders of the border.\<close>

lemma border_nested:
  assumes "border p m b" "c < b"
  shows "border p m c \<longleftrightarrow> border p b c"
proof -
  have "p ! (m - c + q) = p ! (b - c + q)" if "q < c" for q
  proof -
    have "b - c + q < b" using that assms(2) by simp
    then have "p ! (b - c + q) = p ! (m - b + (b - c + q))" using assms(1) by (simp add: border_def)
    moreover have "m - b + (b - c + q) = m - c + q"
      using assms by (simp add: border_def)
    ultimately show ?thesis by simp
  qed
  then show ?thesis using assms by (auto simp: border_def)
qed

section \<open>The table of borders\<close>

definition table_upto :: "'a list \<Rightarrow> nat \<Rightarrow> nat list \<Rightarrow> bool" where
  "table_upto p i lps \<longleftrightarrow> length lps = length p \<and> (\<forall>m. 0 < m \<and> m \<le> i \<longrightarrow> best p m (lps ! (m - 1)))"

definition lps_inv :: "'a list \<Rightarrow> nat \<Rightarrow> nat \<Rightarrow> nat list \<Rightarrow> bool" where
  "lps_inv p prev i lps \<longleftrightarrow> i \<le> length p \<and> table_upto p i lps \<and> border p i prev \<and>
     (\<forall>b. border p (Suc i) (Suc b) \<longrightarrow> b \<le> prev)"

lemma table_upto_Suc:
  assumes "table_upto p i lps" "i < length p" "best p (Suc i) b"
  shows "table_upto p (Suc i) (lps[i := b])"
  using assms by (auto simp: table_upto_def nth_list_update le_Suc_eq)

lemma lps_inv_next:
  assumes "table_upto p i lps" "i < length p" "best p (Suc i) b"
  shows "lps_inv p b (Suc i) (lps[i := b])"
proof -
  have "c \<le> b" if "border p (Suc (Suc i)) (Suc c)" for c
    using that assms(3) by (simp add: border_Suc best_def)
  then show ?thesis
    using assms table_upto_Suc [OF assms] by (simp add: lps_inv_def best_def)
qed

lemma lps_step_ok:
  assumes inv: "lps_inv p prev i lps" and i: "i < length p"
  shows "\<exists>prev' i' lps'. lps_step p prev i lps = Inr (prev', i', lps') \<and> lps_inv p prev' i' lps' \<and>
    2 * (length p - i') + prev' < 2 * (length p - i) + prev"
proof -
  have tab: "table_upto p i lps" and b: "border p i prev"
    and max: "\<And>c. border p (Suc i) (Suc c) \<Longrightarrow> c \<le> prev"
    using inv by (simp_all add: lps_inv_def)
  have lt: "prev < i" using b by (rule border_less)
  have len: "length lps = length p" using tab by (simp add: table_upto_def)
  consider (eq) "p ! i = p ! prev" | (fall) "p ! i \<noteq> p ! prev" "prev \<noteq> 0"
    | (zero) "p ! i \<noteq> p ! prev" "prev = 0" by blast
  then show ?thesis
  proof cases
    case eq
    have "c \<le> Suc prev" if "border p (Suc i) c" for c
      using that max by (cases c) simp_all
    then have "best p (Suc i) (Suc prev)" using b eq by (simp add: best_def border_Suc)
    from lps_inv_next [OF tab i this] show ?thesis
      using eq i lt len by (simp add: lps_step_def)
  next
    case fall
    then have best: "best p prev (lps ! (prev - 1))" using tab lt by (simp add: table_upto_def)
    then have nested: "border p i (lps ! (prev - 1))"
      using border_nested [OF b] border_less by (auto simp: best_def)
    have "c \<le> lps ! (prev - 1)" if c: "border p (Suc i) (Suc c)" for c
    proof -
      have "border p i c" "p ! c = p ! i" using c by (simp_all add: border_Suc)
      then have "c < prev" using max [OF c] fall(1) by (cases "c = prev") auto
      then have "border p prev c" using border_nested [OF b] \<open>border p i c\<close> by blast
      then show ?thesis using best by (simp add: best_def)
    qed
    then have "lps_inv p (lps ! (prev - 1)) i lps" using inv nested by (simp add: lps_inv_def)
    moreover have "lps ! (prev - 1) < prev" using best by (auto simp: best_def dest: border_less)
    ultimately show ?thesis using fall i lt len by (simp add: lps_step_def)
  next
    case zero
    have "c \<le> 0" if "border p (Suc i) c" for c
    proof (cases c)
      case (Suc d)
      then have "border p (Suc i) (Suc d)" using that by simp
      then have "d = 0" "p ! d = p ! i" using max [of d] zero(2) by (auto simp: border_Suc)
      then show ?thesis using zero by simp
    qed simp
    then have "best p (Suc i) 0" by (simp add: best_def border_0)
    note next_inv = lps_inv_next [OF tab i this]
    have "aget p 0 = Inr (p ! 0)" using i lt by (intro aget_Inr) linarith
    then have "lps_step p prev i lps = Inr (0, Suc i, lps[i := 0])"
      using zero i len by (simp add: lps_step_def)
    then show ?thesis using next_inv i zero(2) by simp
  qed
qed

lemma lps_loop_ok:
  assumes "lps_inv p prev i lps"
  shows "\<exists>lps'. lps_loop p prev i lps = Some (Inr lps') \<and> table_upto p (length p) lps'"
  using assms
proof (induction "2 * (length p - i) + prev" arbitrary: prev i lps rule: less_induct)
  case less
  show ?case
  proof (cases "length p \<le> i")
    case True
    then have "i = length p" using less.prems by (simp add: lps_inv_def)
    then show ?thesis
      using less.prems by (subst lps_loop.simps) (simp add: lps_inv_def)
  next
    case False
    then obtain prev' i' lps' where st: "lps_step p prev i lps = Inr (prev', i', lps')"
      "lps_inv p prev' i' lps'" "2 * (length p - i') + prev' < 2 * (length p - i) + prev"
      using lps_step_ok [OF less.prems] by (auto simp: not_le)
    from less.hyps [OF st(3,2)] show ?thesis
      using False st(1) by (subst lps_loop.simps) simp
  qed
qed

lemma kmp_lps_array_ok:
  assumes "p \<noteq> []"
  shows "\<exists>lps. kmp_lps_array p = Some (Inr lps) \<and> table_upto p (length p) lps"
proof -
  have "best p (Suc 0) 0" by (auto simp: best_def border_def)
  then have "lps_inv p 0 1 (replicate (length p) 0)"
    using assms by (auto simp: lps_inv_def table_upto_def border_def best_def le_Suc_eq
        less_Suc_eq_0_disj Suc_le_eq)
  from lps_loop_ok [OF this] show ?thesis by (simp add: kmp_lps_array_def)
qed

section \<open>The search\<close>

text \<open>The pattern occurs at \<open>s\<close>, within the first \<open>N\<close> elements.\<close>

definition occurs :: "int list \<Rightarrow> int list \<Rightarrow> nat \<Rightarrow> nat \<Rightarrow> bool" where
  "occurs ctx p N s \<longleftrightarrow> s + length p \<le> N \<and> (\<forall>q < length p. ctx ! (s + q) = p ! q)"

definition find_inv :: "int list \<Rightarrow> int list \<Rightarrow> nat \<Rightarrow> nat \<Rightarrow> nat \<Rightarrow> bool" where
  "find_inv ctx p N i j \<longleftrightarrow> j \<le> i \<and> j < length p \<and>
     (\<forall>q < j. ctx ! (i - j + q) = p ! q) \<and> (\<forall>s < i - j. \<not> occurs ctx p N s)"

lemma occurs_at:
  assumes "occurs ctx p N s" "s \<le> t" "t < s + length p"
  shows "ctx ! t = p ! (t - s)"
proof -
  have "t - s < length p" using assms by linarith
  then have "ctx ! (s + (t - s)) = p ! (t - s)" using assms(1) by (simp add: occurs_def)
  then show ?thesis using assms(2) by simp
qed

text \<open>An occurrence that starts inside of what is matched gives a border of it.\<close>

lemma occurs_border:
  assumes "find_inv ctx p N i j" "occurs ctx p N s" "i - j < s" "s < i"
  shows "border p j (i - s)"
proof -
  have "p ! q = p ! (j - (i - s) + q)" if q: "q < i - s" for q
  proof -
    have j: "j \<le> i" "j < length p" "\<forall>q < j. ctx ! (i - j + q) = p ! q"
      using assms(1) unfolding find_inv_def by blast+
    have "ctx ! (s + q) = p ! (s + q - s)"
      by (rule occurs_at [OF assms(2)]) (use q assms(3,4) j in linarith)+
    moreover have "j - (i - s) + q < j" using q assms(3,4) j by linarith
    then have "ctx ! (i - j + (j - (i - s) + q)) = p ! (j - (i - s) + q)" using j by blast
    moreover have "i - j + (j - (i - s) + q) = s + q" using assms(3,4) j by linarith
    ultimately have "ctx ! (s + q) = p ! (j - (i - s) + q)" by (simp only:)
    with \<open>ctx ! (s + q) = p ! (s + q - s)\<close> show ?thesis by simp
  qed
  moreover have "i - s < j" using assms(1,3,4) by (auto simp: find_inv_def)
  ultimately show ?thesis by (simp add: border_def)
qed

lemma find_step_ok:
  assumes inv: "find_inv ctx p N i j" and i: "i < N" "N \<le> length ctx"
    and tab: "table_upto p (length p) lps"
  shows "\<exists>m i' j'. find_step ctx p lps (length p) i j = Inr (m, i', j') \<and>
    (if m then length p \<le> i' \<and> occurs ctx p N (i' - length p) \<and>
         (\<forall>s < i' - length p. \<not> occurs ctx p N s)
     else find_inv ctx p N i' j' \<and> 2 * (N - i') + j' < 2 * (N - i) + j)"
proof -
  have j: "j \<le> i" "j < length p" "\<And>q. q < j \<Longrightarrow> ctx ! (i - j + q) = p ! q"
    "\<And>s. s < i - j \<Longrightarrow> \<not> occurs ctx p N s"
    using inv unfolding find_inv_def by blast+
  have len: "length lps = length p" using tab by (simp add: table_upto_def)
  consider (eq) "ctx ! i = p ! j" | (fall) "ctx ! i \<noteq> p ! j" "j \<noteq> 0"
    | (zero) "ctx ! i \<noteq> p ! j" "j = 0" by blast
  then show ?thesis
  proof cases
    case eq
    have match: "ctx ! (i - j + q) = p ! q" if "q < Suc j" for q
      using that j eq by (cases "q = j") auto
    have step: "find_step ctx p lps (length p) i j = Inr (Suc j = length p, Suc i, Suc j)"
      using eq i j by (simp add: find_step_def)
    show ?thesis
    proof (cases "Suc j = length p")
      case True
      have start: "Suc i - length p = i - j" "length p \<le> Suc i" using True j(1) by linarith+
      have "occurs ctx p N (i - j)"
        using match True i(1) j(1) by (simp add: occurs_def)
      then show ?thesis
        using step True j(4) start by (intro exI [of _ True] exI [of _ "Suc i"] exI [of _ "Suc j"]) simp
    next
      case False
      have "find_inv ctx p N (Suc i) (Suc j)"
        using False j match by (simp add: find_inv_def)
      moreover have "2 * (N - Suc i) + Suc j < 2 * (N - i) + j" using i(1) by linarith
      ultimately show ?thesis
        using step False by (intro exI [of _ False] exI [of _ "Suc i"] exI [of _ "Suc j"]) simp
    qed
  next
    case fall
    let ?b = "lps ! (j - 1)"
    have best: "best p j ?b" using tab fall j(2) by (simp add: table_upto_def)
    then have b: "?b < j" "\<And>q. q < ?b \<Longrightarrow> p ! q = p ! (j - ?b + q)"
      by (auto simp: best_def border_def)
    have "\<not> occurs ctx p N s" if s: "s < i - ?b" for s
    proof
      assume o: "occurs ctx p N s"
      then have ge: "i - j \<le> s" using j(4) by (meson not_le)
      show False
      proof (cases "s = i - j")
        case True
        then have "ctx ! i = p ! (i - s)" using occurs_at [OF o, of i] j by simp
        moreover have "i - s = j" using True j(1) by simp
        ultimately show False using fall(1) by simp
      next
        case False
        then have "border p j (i - s)" using occurs_border [OF inv o] ge s by simp
        then have "i - s \<le> ?b" using best by (simp add: best_def)
        then show False using s by linarith
      qed
    qed
    moreover have "ctx ! (i - ?b + q) = p ! q" if "q < ?b" for q
    proof -
      have "j - ?b + q < j" using b(1) that by linarith
      then have "ctx ! (i - j + (j - ?b + q)) = p ! (j - ?b + q)" by (rule j(3))
      moreover have "i - j + (j - ?b + q) = i - ?b + q" using b(1) j(1) by linarith
      ultimately show ?thesis using b(2) [OF that] by (simp only:)
    qed
    ultimately have "find_inv ctx p N i ?b" using b(1) j by (simp add: find_inv_def)
    moreover have "find_step ctx p lps (length p) i j = Inr (False, i, ?b)"
      using fall i j(2) len by (simp add: find_step_def)
    ultimately show ?thesis
      using b(1) by (intro exI [of _ False] exI [of _ i] exI [of _ ?b]) simp
  next
    case zero
    have "\<not> occurs ctx p N i"
    proof
      assume o: "occurs ctx p N i"
      show False using occurs_at [OF o, of i] zero j(2) by simp
    qed
    then have "find_inv ctx p N (Suc i) 0"
      using zero j by (auto simp: find_inv_def less_Suc_eq)
    moreover have "find_step ctx p lps (length p) i j = Inr (False, Suc i, 0)"
      using zero i j(2) by (simp add: find_step_def)
    moreover have "2 * (N - Suc i) + 0 < 2 * (N - i) + j" using i(1) by linarith
    ultimately show ?thesis
      by (intro exI [of _ False] exI [of _ "Suc i"] exI [of _ 0]) simp
  qed
qed

definition first_match :: "int list \<Rightarrow> int list \<Rightarrow> nat \<Rightarrow> nat option" where
  "first_match ctx p N = List.find (occurs ctx p N) [0..<Suc N]"

lemma first_match_Some:
  assumes "occurs ctx p N s" "\<forall>t < s. \<not> occurs ctx p N t"
  shows "first_match ctx p N = Some s"
proof -
  have "s \<le> N" using assms(1) by (simp add: occurs_def)
  then show ?thesis
    using assms unfolding first_match_def find_Some_iff
    by (intro exI [of _ s]) (simp add: less_Suc_eq_le del: upt_Suc)
qed

lemma first_match_None: "(\<forall>s. \<not> occurs ctx p N s) \<Longrightarrow> first_match ctx p N = None"
  by (simp add: first_match_def find_None_iff)

lemma find_loop_ok:
  assumes "find_inv ctx p N i j" "N = length ctx - length p" "length p \<le> length ctx"
    and "table_upto p (length p) lps"
  shows "find_loop ctx p lps (length p) k i j = Some (Inr (map_option
    (\<lambda>s. py_slice ctx (int (s + length p)) (int (s + length p) + k)) (first_match ctx p N)))"
  using assms
proof (induction "2 * (N - i) + j" arbitrary: i j rule: less_induct)
  case less
  have guard: "int (length ctx) - int (length p) \<le> int i \<longleftrightarrow> N \<le> i"
    using less.prems(2,3) by linarith
  show ?case
  proof (cases "N \<le> i")
    case True
    have "\<not> occurs ctx p N s" for s
    proof
      assume o: "occurs ctx p N s"
      then have "i - j \<le> s" using less.prems(1) by (meson find_inv_def not_le)
      moreover have "s + length p \<le> N" "j < length p"
        using o less.prems(1) by (simp_all add: occurs_def find_inv_def)
      ultimately show False using True by linarith
    qed
    then show ?thesis
      using True guard by (subst find_loop.simps) (simp add: first_match_None)
  next
    case False
    have N: "N \<le> length ctx" using less.prems(2) by simp
    obtain m i' j' where st: "find_step ctx p lps (length p) i j = Inr (m, i', j')"
      "if m then length p \<le> i' \<and> occurs ctx p N (i' - length p) \<and>
         (\<forall>s < i' - length p. \<not> occurs ctx p N s)
       else find_inv ctx p N i' j' \<and> 2 * (N - i') + j' < 2 * (N - i) + j"
      using find_step_ok [OF less.prems(1) _ N less.prems(4)] False by (auto simp: not_le)
    show ?thesis
    proof (cases m)
      case True
      then have "first_match ctx p N = Some (i' - length p)" "length p \<le> i'"
        using st(2) first_match_Some by auto
      then show ?thesis
        using False guard st(1) True by (subst find_loop.simps) simp
    next
      case False': False
      then have "find_inv ctx p N i' j'" "2 * (N - i') + j' < 2 * (N - i) + j" using st(2) by simp_all
      from less.hyps [OF this(2,1) less.prems(2-4)] show ?thesis
        using False guard st(1) False' by (subst find_loop.simps) simp
    qed
  qed
qed

section \<open>The naive search\<close>

definition naive_lookup :: "int list \<Rightarrow> int \<Rightarrow> int \<Rightarrow> int list option" where
  "naive_lookup ctx n k =
     (let m = nat n; N = length ctx - m in
      if length ctx < m then None
      else map_option (\<lambda>s. py_slice ctx (int (s + m)) (int (s + m) + k))
        (List.find (\<lambda>s. s + m \<le> N \<and> take m (drop s ctx) = drop N ctx) [0..<Suc N]))"

lemma occurs_take:
  assumes "N + length p \<le> length ctx"
  shows "occurs ctx p N s \<longleftrightarrow> s + length p \<le> N \<and> take (length p) (drop s ctx) = p"
proof (cases "s + length p \<le> N")
  case True
  then have "length (take (length p) (drop s ctx)) = length p" using assms by simp
  then have "take (length p) (drop s ctx) = p \<longleftrightarrow>
      (\<forall>q < length p. take (length p) (drop s ctx) ! q = p ! q)"
    unfolding list_eq_iff_nth_eq by presburger
  moreover have "take (length p) (drop s ctx) ! q = ctx ! (s + q)" if "q < length p" for q
    using that True assms by simp
  ultimately show ?thesis using True by (simp add: occurs_def)
qed (simp add: occurs_def)

lemma kmp_lps_array_Nil: "kmp_lps_array [] = Some (Inr [])"
  unfolding kmp_lps_array_def by (subst lps_loop.simps) simp

lemma kmp_result:
  assumes "0 < n"
  shows "find_subarray_kmp ctx n k = Some (Inr (naive_lookup ctx n k))"
proof (cases "length ctx < nat n")
  case True
  define p where "p = py_from ctx (- n)"
  obtain lps where lps: "kmp_lps_array p = Some (Inr lps)"
    using kmp_lps_array_ok [of p] kmp_lps_array_Nil by (cases "p = []") auto
  have "int (length ctx) - int (nat n) \<le> int 0" using True by linarith
  then have "find_loop ctx p lps (nat n) k 0 0 = Some (Inr None)"
    by (subst find_loop.simps) (simp only: if_True)
  then show ?thesis
    using assms True lps by (simp add: find_subarray_kmp_def naive_lookup_def Let_def p_def)
next
  case False
  define m N p where "m = nat n" and "N = length ctx - nat n" and "p = drop N ctx"
  have p: "py_from ctx (- n) = p" "length p = m" "p \<noteq> []" "N + length p = length ctx"
    using False assms by (auto simp: p_def N_def m_def py_from_def py_clamp_def nat_diff_distrib')
  obtain lps where lps: "kmp_lps_array p = Some (Inr lps)" "table_upto p (length p) lps"
    using kmp_lps_array_ok [OF p(3)] by blast
  have "find_inv ctx p N 0 0" using p(3) by (simp add: find_inv_def)
  moreover have "N = length ctx - length p" "length p \<le> length ctx" using p(4) by linarith+
  ultimately have "find_loop ctx p lps (length p) k 0 0 = Some (Inr (map_option
      (\<lambda>s. py_slice ctx (int (s + length p)) (int (s + length p) + k)) (first_match ctx p N)))"
    by (rule find_loop_ok [OF _ _ _ lps(2)])
  then have "find_loop ctx p lps m k 0 0 = Some (Inr (map_option
      (\<lambda>s. py_slice ctx (int (s + m)) (int (s + m) + k)) (first_match ctx p N)))"
    by (simp only: p(2))
  moreover have "first_match ctx p N =
      List.find (\<lambda>s. s + m \<le> N \<and> take m (drop s ctx) = drop N ctx) [0..<Suc N]"
    using occurs_take [of N p ctx] p(2,4)
    by (simp add: first_match_def p_def [symmetric] cong: find_cong)
  ultimately have "find_loop ctx p lps m k 0 0 = Some (Inr (naive_lookup ctx n k))"
    using False by (simp only: naive_lookup_def Let_def m_def N_def if_False)
  then show ?thesis
    using assms p(1) lps(1) by (simp add: find_subarray_kmp_def m_def)
qed

text \<open>
  C30: the search for an n-gram is right. For a positive length the compiled search ends, accesses
  no array out of bounds, and returns what a naive search does: the up to \<open>k\<close> tokens that follow
  the first place where the last \<open>n\<close> tokens of the context occur before them, or nothing when
  there is no such place.
\<close>

theorem kmp_equals_naive:
  assumes "0 < n"
  shows "find_subarray_kmp ctx n k = Some (Inr (naive_lookup ctx n k))"
  using assms by (rule kmp_result)

theorem kmp_equals_naive_witness:
  "find_subarray_kmp [1, 2, 3, 4, 2, 3] 2 4 = Some (Inr (Some [4, 2, 3])) \<and>
   find_subarray_kmp [1, 2, 3, 4, 2, 3] 3 4 = Some (Inr None)"
  using kmp_equals_naive [of 2 "[1, 2, 3, 4, 2, 3]" 4] kmp_equals_naive [of 3 "[1, 2, 3, 4, 2, 3]" 4]
  by (simp add: naive_lookup_def upt_rec numeral_2_eq_2 numeral_3_eq_3 py_slice_def py_clamp_def
      Let_def)

section \<open>The proposer\<close>

lemma py_range_down: "py_range a (b - 1) (- 1) = Inr (map (\<lambda>i. a - int i) [0..<nat (a - b + 1)])"
proof -
  have "nat (a - (b - 1)) = nat (a - b + 1)" by simp
  then show ?thesis by (simp add: py_range_def cdiv_def)
qed

lemma find_subarray_ends: "\<exists>r. find_subarray_kmp ctx n k = Some r"
proof (cases "0 < n")
  case False
  then show ?thesis by (simp add: find_subarray_kmp_def)
qed (simp add: kmp_result)

text \<open>
  C31: the proposer always ends, whatever its bounds and the context are.
\<close>

theorem propose_ends: "\<exists>r. propose p ctx = Some r"
proof -
  have "\<exists>r. propose_loop ctx k ns = Some r" for k ns
  proof (induction ns)
    case (Cons n ns)
    obtain r where r: "find_subarray_kmp ctx n k = Some r" using find_subarray_ends by blast
    show ?case
    proof (cases r)
      case (Inr out)
      then show ?thesis using r Cons by (cases out) simp_all
    qed (use r in simp)
  qed simp
  then show ?thesis by (simp add: propose_def py_range_down)
qed

text \<open>The loop over the lengths from \<open>a\<close> down: the first length that yields something wins.\<close>

definition longest_in :: "int list \<Rightarrow> int \<Rightarrow> int \<Rightarrow> int \<Rightarrow> int list option \<Rightarrow> bool" where
  "longest_in ctx k lower upper out \<longleftrightarrow>
     (case out of
        None \<Rightarrow> \<forall>n \<in> {lower<..upper}. naive_lookup ctx n k = None
      | Some ts \<Rightarrow> \<exists>n \<in> {lower<..upper}. naive_lookup ctx n k = Some ts \<and>
          (\<forall>m \<in> {n<..upper}. naive_lookup ctx m k = None))"

lemma longest_in_step:
  assumes "longest_in ctx k lower (a - 1) out" "naive_lookup ctx a k = None" "lower < a"
  shows "longest_in ctx k lower a out"
proof -
  have upto: "{c<..a} = insert a {c<..a - 1}" if "c < a" for c using that by auto
  show ?thesis
  proof (cases out)
    case (Some ts)
    then obtain n where n: "n \<in> {lower<..a - 1}" "naive_lookup ctx n k = Some ts"
      "\<forall>m \<in> {n<..a - 1}. naive_lookup ctx m k = None" using assms(1) by (auto simp: longest_in_def)
    then have "\<forall>m \<in> {n<..a}. naive_lookup ctx m k = None" using assms(2) upto [of n] by auto
    then show ?thesis using n(1,2) Some by (auto simp: longest_in_def intro!: bexI [of _ n])
  qed (use assms upto [of lower] in \<open>auto simp: longest_in_def\<close>)
qed

lemma propose_loop_longest:
  assumes "0 \<le> a - int d"
  shows "\<exists>out. propose_loop ctx k (map (\<lambda>i. a - int i) [0..<d]) = Some (Inr out) \<and>
    longest_in ctx k (a - int d) a out"
  using assms
proof (induction d arbitrary: a)
  case 0
  then show ?case by (simp add: longest_in_def)
next
  case (Suc d)
  have xs: "map (\<lambda>i. a - int i) [0..<Suc d] = a # map (\<lambda>i. (a - 1) - int i) [0..<d]"
    by (simp add: upt_conv_Cons map_Suc_upt [symmetric] del: upt_Suc)
  have a: "find_subarray_kmp ctx a k = Some (Inr (naive_lookup ctx a k))"
    using Suc.prems by (intro kmp_result) simp
  show ?case
  proof (cases "naive_lookup ctx a k")
    case (Some ts)
    then have "propose_loop ctx k (map (\<lambda>i. a - int i) [0..<Suc d]) = Some (Inr (Some ts))"
      using a unfolding xs by simp
    then show ?thesis using Some
      by (intro exI [of _ "Some ts"]) (auto simp: longest_in_def intro: bexI [of _ a])
  next
    case None
    have "0 \<le> a - 1 - int d" using Suc.prems by simp
    from Suc.IH [OF this] obtain out where out:
      "propose_loop ctx k (map (\<lambda>i. a - 1 - int i) [0..<d]) = Some (Inr out)"
      "longest_in ctx k (a - 1 - int d) (a - 1) out" by blast
    have "propose_loop ctx k (map (\<lambda>i. a - int i) [0..<Suc d]) = Some (Inr out)"
      using a None out(1) unfolding xs by simp
    moreover have "longest_in ctx k (a - int (Suc d)) a out"
      using longest_in_step [OF out(2) None] by (simp add: algebra_simps)
    ultimately show ?thesis by blast
  qed
qed

text \<open>
  C32: the proposer prefers the longest n-gram. With positive bounds it raises nothing; what it
  proposes is the result for the longest n-gram within the bounds that has one, and it proposes
  nothing only when no n-gram within the bounds occurs before.
\<close>

theorem propose_longest:
  assumes "0 < min_n p"
  shows "\<exists>out. propose p ctx = Some (Inr out) \<and>
    (case out of
       None \<Rightarrow> \<forall>n \<in> {min_n p..max_n p}. naive_lookup ctx n (ng_k p) = None
     | Some ts \<Rightarrow> \<exists>n \<in> {min_n p..max_n p}. naive_lookup ctx n (ng_k p) = Some ts \<and>
         (\<forall>m \<in> {n<..max_n p}. naive_lookup ctx m (ng_k p) = None))"
proof -
  let ?d = "nat (max_n p - min_n p + 1)"
  show ?thesis
  proof (cases "min_n p \<le> max_n p")
    case True
    then have d: "max_n p - int ?d = min_n p - 1" by simp
    then have range: "{max_n p - int ?d<..max_n p} = {min_n p..max_n p}" by auto
    have "0 \<le> max_n p - int ?d" using d assms by linarith
    from propose_loop_longest [OF this, unfolded longest_in_def range] show ?thesis
      by (simp only: propose_def py_range_down sum.case)
  next
    case False
    then show ?thesis by (simp add: propose_def py_range_down)
  qed
qed

theorem propose_longest_witness:
  "propose \<lparr>min_n = 2, max_n = 3, ng_k = 4\<rparr> [1, 2, 3, 4, 2, 3] = Some (Inr (Some [4, 2, 3]))"
proof -
  let ?p = "\<lparr>min_n = 2, max_n = 3, ng_k = 4\<rparr>" and ?c = "[1, 2, 3, 4, 2, 3] :: int list"
  have two: "naive_lookup ?c 2 4 = Some [4, 2, 3]" and three: "naive_lookup ?c 3 4 = None"
    by (simp_all add: naive_lookup_def upt_rec numeral_2_eq_2 numeral_3_eq_3 py_slice_def
        py_clamp_def Let_def)
  have range: "{2..3 :: int} = {2, 3}" by auto
  have "0 < min_n ?p" by simp
  from propose_longest [OF this, of ?c] obtain out where out: "propose ?p ?c = Some (Inr out)"
    "case out of None \<Rightarrow> \<forall>n \<in> {2, 3}. naive_lookup ?c n 4 = None
     | Some ts \<Rightarrow> \<exists>n \<in> {2, 3}. naive_lookup ?c n 4 = Some ts \<and>
         (\<forall>m \<in> {n<..3}. naive_lookup ?c m 4 = None)"
    unfolding ngram_proposer.simps range by blast
  then show ?thesis using two three by (cases out) auto
qed

end
