(* ===== verification/KVConfig.thy ===== *)
theory KVConfig
  imports Prelude "HOL-Library.Multiset" "HOL-Library.List_Lexorder" "HOL-Library.Char_ord"
begin

text \<open>
  The layout of the KV cache: the specs of \<open>spexis/v1/kv_cache_interface.py\<close> and the functions of
  \<open>spexis/v1/core/kv_cache_utils.py\<close> that size the cache from them. A dictionary is an
  association list in insertion order; the element size of a data type, a property of the tensor
  library, is a parameter.
\<close>

section \<open>Specs\<close>

record attention_spec =
  as_block_size :: int
  num_kv_heads :: int
  head_size :: int
  as_dtype :: string
  use_mla :: bool

datatype kv_cache_spec =
    FullAttentionSpec attention_spec
  | SlidingWindowSpec attention_spec int

definition sliding_window_spec :: "attention_spec \<Rightarrow> int \<Rightarrow> kv_cache_spec res" where
  "sliding_window_spec a window =
     ebind (py_assert (\<not> use_mla a)) (\<lambda>_. Inr (SlidingWindowSpec a window))"

fun spec_base :: "kv_cache_spec \<Rightarrow> attention_spec" where
  "spec_base (FullAttentionSpec a) = a"
| "spec_base (SlidingWindowSpec a w) = a"

text \<open>The values of the configuration that matter here.\<close>

record kv_env =
  dtype_size :: "string \<Rightarrow> int"
  kv_max_model_len :: int
  max_num_batched_tokens :: int
  cache_block_size :: int
  num_gpu_blocks_override :: "int option"

definition page_size_bytes :: "kv_env \<Rightarrow> kv_cache_spec \<Rightarrow> int" where
  "page_size_bytes env s =
     (let a = spec_base s; coef = (if use_mla a then 1 else 2) in
      coef * as_block_size a * num_kv_heads a * head_size a * dtype_size env (as_dtype a))"

fun type_id :: "kv_env \<Rightarrow> kv_cache_spec \<Rightarrow> string" where
  "type_id env (FullAttentionSpec a) =
     ''full_attention_'' @ show_int (as_block_size a) @ ''_''
       @ show_int (page_size_bytes env (FullAttentionSpec a))"
| "type_id env (SlidingWindowSpec a w) =
     ''sliding_window_'' @ show_int w @ ''_'' @ show_int (as_block_size a) @ ''_''
       @ show_int (page_size_bytes env (SlidingWindowSpec a w))"

fun max_memory_usage_bytes :: "kv_env \<Rightarrow> kv_cache_spec \<Rightarrow> int" where
  "max_memory_usage_bytes env (FullAttentionSpec a) =
     cdiv (kv_max_model_len env) (as_block_size a) * page_size_bytes env (FullAttentionSpec a)"
| "max_memory_usage_bytes env (SlidingWindowSpec a w) =
     (let tokens = min (w - 1 + max_num_batched_tokens env) (kv_max_model_len env) in
      (cdiv tokens (as_block_size a) + 1) * page_size_bytes env (SlidingWindowSpec a w))"

type_synonym layer_specs = "(string \<times> kv_cache_spec) list"

record kv_cache_group =
  layer_names :: "string list"
  group_spec :: kv_cache_spec

record kv_cache_config =
  num_blocks :: int
  tensors :: "(string \<times> int) list"
  kv_cache_groups :: "kv_cache_group list"

section \<open>The largest model length that fits\<close>

definition needed_memory :: "kv_env \<Rightarrow> layer_specs \<Rightarrow> int \<Rightarrow> int" where
  "needed_memory env specs len =
     sum_list (map (\<lambda>(_, s). max_memory_usage_bytes (env\<lparr>kv_max_model_len := len\<rparr>) s) specs)"

definition fits_in_memory :: "kv_env \<Rightarrow> layer_specs \<Rightarrow> int \<Rightarrow> int \<Rightarrow> bool" where
  "fits_in_memory env specs available len \<longleftrightarrow> needed_memory env specs len \<le> available"

function search_loop :: "(int \<Rightarrow> bool) \<Rightarrow> int \<Rightarrow> int \<Rightarrow> int \<Rightarrow> int" where
  "search_loop fits left right result =
     (if right < left then result
      else (let mid = (left + right) div 2 in
            if fits mid then search_loop fits (mid + 1) right mid
            else search_loop fits left (mid - 1) result))"
  by pat_completeness auto

termination
  by (relation "measure (\<lambda>(fits, left, right, result). nat (right + 1 - left))") auto

declare search_loop.simps [simp del]

text \<open>The code also leaves the length it tried last in the configuration; the caller then raises.\<close>

definition estimate_max_model_len :: "kv_env \<Rightarrow> layer_specs \<Rightarrow> int \<Rightarrow> int" where
  "estimate_max_model_len env specs available =
     (if \<not> fits_in_memory env specs available 1 then 0
      else search_loop (fits_in_memory env specs available) 1 (kv_max_model_len env) 1)"

definition check_enough_kv_cache_memory :: "kv_env \<Rightarrow> layer_specs \<Rightarrow> int \<Rightarrow> unit res" where
  "check_enough_kv_cache_memory env specs available =
     ebind (raise_if (available \<le> 0) ValueError) (\<lambda>_.
     raise_if (available < needed_memory env specs (kv_max_model_len env)) ValueError)"

section \<open>The configuration\<close>

definition spec_of :: "layer_specs \<Rightarrow> string \<Rightarrow> kv_cache_spec res" where
  "spec_of specs l = (case map_of specs l of None \<Rightarrow> Inl KeyError | Some s \<Rightarrow> Inr s)"

text \<open>\<open>all\<close> stops at the first layer whose spec differs.\<close>

fun all_same_spec :: "layer_specs \<Rightarrow> kv_cache_spec \<Rightarrow> string list \<Rightarrow> bool res" where
  "all_same_spec specs s [] = Inr True"
| "all_same_spec specs s (n # ns) =
     ebind (spec_of specs n) (\<lambda>s'. if s' = s then all_same_spec specs s ns else Inr False)"

definition make_group :: "layer_specs \<Rightarrow> string list \<Rightarrow> kv_cache_group res" where
  "make_group specs names =
     ebind (py_get names 0) (\<lambda>first.
     ebind (spec_of specs first) (\<lambda>s.
     ebind (all_same_spec specs s (tl names)) (\<lambda>same.
     ebind (py_assert same) (\<lambda>_.
     Inr \<lparr>layer_names = names, group_spec = s\<rparr>))))"

definition create_kv_cache_group_specs ::
  "layer_specs \<Rightarrow> string list list \<Rightarrow> kv_cache_group list res" where
  "create_kv_cache_group_specs specs grouped = emap (make_group specs) grouped"

definition is_kv_cache_type_uniform :: "kv_env \<Rightarrow> layer_specs \<Rightarrow> bool" where
  "is_kv_cache_type_uniform env specs \<longleftrightarrow> card (set (map (type_id env \<circ> snd) specs)) = 1"

definition kv_cache_config_uniform_type ::
  "kv_env \<Rightarrow> layer_specs \<Rightarrow> int \<Rightarrow> kv_cache_config res" where
  "kv_cache_config_uniform_type env specs available =
     (let sizes = remdups (map (page_size_bytes env \<circ> snd) specs) in
      ebind (py_assert (length sizes = 1)) (\<lambda>_.
      (let page = hd sizes in
       ebind (raise_if (page = 0 \<or> specs = []) ZeroDivisionError) (\<lambda>_.
       (let computed = max (available div page div int (length specs)) 0;
            blocks = (case num_gpu_blocks_override env of None \<Rightarrow> computed | Some n \<Rightarrow> n)
        in ebind (raise_if (kv_max_model_len env = 0) ZeroDivisionError) (\<lambda>_.
           ebind (create_kv_cache_group_specs specs [map fst specs]) (\<lambda>groups.
           Inr \<lparr>num_blocks = blocks, tensors = map (\<lambda>(l, _). (l, page * blocks)) specs,
                kv_cache_groups = groups\<rparr>)))))))"

fun is_full :: "kv_cache_spec \<Rightarrow> bool" where
  "is_full (FullAttentionSpec a) = True"
| "is_full (SlidingWindowSpec a w) = False"

definition unify_hybrid_kv_cache_specs :: "layer_specs \<Rightarrow> layer_specs" where
  "unify_hybrid_kv_cache_specs specs =
     (if (\<exists>s \<in> set (map snd specs). is_full s) \<and> (\<exists>s \<in> set (map snd specs). \<not> is_full s)
      then map (\<lambda>(l, s). (l, FullAttentionSpec (spec_base s))) specs
      else specs)"

definition get_kv_cache_config :: "kv_env \<Rightarrow> layer_specs \<Rightarrow> int \<Rightarrow> kv_cache_config res" where
  "get_kv_cache_config env specs available =
     ebind (check_enough_kv_cache_memory env specs available) (\<lambda>_.
     (let specs' = unify_hybrid_kv_cache_specs specs in
      if is_kv_cache_type_uniform env specs'
      then kv_cache_config_uniform_type env specs' available
      else Inl NotImplementedError))"

definition sort_groups :: "kv_env \<Rightarrow> kv_cache_config \<Rightarrow> kv_cache_config" where
  "sort_groups env c =
     c\<lparr>kv_cache_groups := sort_key (\<lambda>g. type_id env (group_spec g)) (kv_cache_groups c)\<rparr>"

definition same_groups :: "kv_cache_config \<Rightarrow> kv_cache_config \<Rightarrow> bool" where
  "same_groups c d \<longleftrightarrow>
     (\<forall>(g, h) \<in> set (zip (kv_cache_groups c) (kv_cache_groups d)). group_spec g = group_spec h)"

definition unify_kv_cache_configs ::
  "kv_env \<Rightarrow> kv_cache_config list \<Rightarrow> kv_cache_config list res" where
  "unify_kv_cache_configs env configs =
     (let cs = map (sort_groups env) configs in
      ebind (py_assert (\<forall>c \<in> set (tl cs). same_groups (hd cs) c)) (\<lambda>_.
      ebind (raise_if (cs = []) ValueError) (\<lambda>_.
      (let n = Min (set (map num_blocks cs)) in
       Inr (map (\<lambda>c. c\<lparr>num_blocks := n\<rparr>) cs)))))"

section \<open>The binary search\<close>

definition spec_ok :: "kv_env \<Rightarrow> kv_cache_spec \<Rightarrow> bool" where
  "spec_ok env s \<longleftrightarrow> 0 < as_block_size (spec_base s) \<and> 0 \<le> page_size_bytes env s"

lemma page_size_len [simp]:
  "page_size_bytes (env\<lparr>kv_max_model_len := n\<rparr>) s = page_size_bytes env s"
  by (simp add: page_size_bytes_def Let_def)

lemma max_memory_mono:
  assumes "spec_ok env s" "m \<le> n"
  shows "max_memory_usage_bytes (env\<lparr>kv_max_model_len := m\<rparr>) s
    \<le> max_memory_usage_bytes (env\<lparr>kv_max_model_len := n\<rparr>) s"
proof (cases s)
  case (FullAttentionSpec a)
  then have "cdiv m (as_block_size a) \<le> cdiv n (as_block_size a)"
    using assms by (intro cdiv_mono) (simp_all add: spec_ok_def)
  then show ?thesis
    using assms(1) FullAttentionSpec by (simp add: spec_ok_def mult_right_mono)
next
  case (SlidingWindowSpec a w)
  then have "cdiv (min (w - 1 + max_num_batched_tokens env) m) (as_block_size a)
      \<le> cdiv (min (w - 1 + max_num_batched_tokens env) n) (as_block_size a)"
    using assms by (intro cdiv_mono) (auto simp: spec_ok_def)
  then show ?thesis
    using assms(1) SlidingWindowSpec by (simp add: spec_ok_def mult_right_mono)
qed

lemma needed_memory_mono:
  assumes "\<forall>(l, s) \<in> set specs. spec_ok env s" "m \<le> n"
  shows "needed_memory env specs m \<le> needed_memory env specs n"
  unfolding needed_memory_def
  using assms by (intro sum_list_mono) (auto intro: max_memory_mono)

text \<open>The search keeps the largest value known to fit and excludes what lies above its window.\<close>

lemma search_loop_ok:
  fixes fits :: "int \<Rightarrow> bool" and left right result top :: int
  assumes "\<And>m n. m \<le> n \<Longrightarrow> fits n \<Longrightarrow> fits m" "fits result" "left - 1 \<le> result"
    "result \<le> left" "result \<le> top" "\<forall>n. right < n \<and> n \<le> top \<longrightarrow> \<not> fits n" "right \<le> top"
  shows "let r = search_loop fits left right result in
    fits r \<and> result \<le> r \<and> r \<le> top \<and> (\<forall>n. r < n \<and> n \<le> top \<longrightarrow> \<not> fits n)"
  using assms
proof (induction fits left right result rule: search_loop.induct)
  case (1 fits left right result)
  show ?case
  proof (cases "right < left")
    case True
    then show ?thesis using 1(3-) by (subst search_loop.simps) (auto simp: Let_def)
  next
    case False
    let ?mid = "(left + right) div 2"
    have mid: "left \<le> ?mid" "?mid \<le> right" using False by auto
    show ?thesis
    proof (cases "fits ?mid")
      case True
      have "let r = search_loop fits (?mid + 1) right ?mid in
          fits r \<and> ?mid \<le> r \<and> r \<le> top \<and> (\<forall>n. r < n \<and> n \<le> top \<longrightarrow> \<not> fits n)"
        by (rule 1(1) [OF False refl True]) (use 1(3-) True mid in auto)
      then show ?thesis
        using True False mid 1(6) by (subst search_loop.simps) (auto simp: Let_def)
    next
      case False': False
      have "\<not> fits n" if "?mid \<le> n" for n using 1(3) [OF that] False' by blast
      then have "let r = search_loop fits left (?mid - 1) result in
          fits r \<and> result \<le> r \<and> r \<le> top \<and> (\<forall>n. r < n \<and> n \<le> top \<longrightarrow> \<not> fits n)"
        by (intro 1(2) [OF False refl False']) (use 1(3-) mid in auto)
      then show ?thesis
        using False False' by (subst search_loop.simps) (simp add: Let_def)
    qed
  qed
qed

text \<open>
  C33: the estimated model length is the largest that fits. When block sizes are positive and page
  sizes not negative, the binary search returns 0 if not even one token fits, and otherwise a
  length that fits while no greater length up to the configured one does.
\<close>

theorem estimated_length_is_largest:
  assumes "\<forall>(l, s) \<in> set specs. spec_ok env s" "1 \<le> kv_max_model_len env"
  shows "let r = estimate_max_model_len env specs available; top = kv_max_model_len env in
    0 \<le> r \<and> r \<le> top \<and> (0 < r \<longrightarrow> needed_memory env specs r \<le> available) \<and>
    (\<forall>n. r < n \<and> n \<le> top \<longrightarrow> available < needed_memory env specs n)"
proof (cases "fits_in_memory env specs available 1")
  case False
  have "available < needed_memory env specs n" if "0 < n" for n
    using False needed_memory_mono [OF assms(1), of 1 n] that by (simp add: fits_in_memory_def)
  then show ?thesis using False assms(2) by (simp add: estimate_max_model_len_def)
next
  case True
  let ?fits = "fits_in_memory env specs available" and ?top = "kv_max_model_len env"
  have mono: "\<And>m n. m \<le> n \<Longrightarrow> ?fits n \<Longrightarrow> ?fits m"
    using needed_memory_mono [OF assms(1)] order_trans unfolding fits_in_memory_def by blast
  have eq: "estimate_max_model_len env specs available = search_loop ?fits 1 ?top 1"
    using True by (simp add: estimate_max_model_len_def)
  have "let r = search_loop ?fits 1 ?top 1 in
      ?fits r \<and> 1 \<le> r \<and> r \<le> ?top \<and> (\<forall>n. r < n \<and> n \<le> ?top \<longrightarrow> \<not> ?fits n)"
    by (rule search_loop_ok) (use mono True assms(2) in auto)
  then show ?thesis unfolding eq by (simp add: Let_def fits_in_memory_def not_le)
qed

text \<open>Two layers of full attention, whose pages hold 10 tokens and take 20 bytes.\<close>

definition sample_attention :: attention_spec where
  "sample_attention = \<lparr>as_block_size = 10, num_kv_heads = 1, head_size = 1, as_dtype = ''u8'',
     use_mla = False\<rparr>"

definition sample_kv_env :: kv_env where
  "sample_kv_env = \<lparr>dtype_size = (\<lambda>_. 1), kv_max_model_len = 100, max_num_batched_tokens = 1,
     cache_block_size = 10, num_gpu_blocks_override = None\<rparr>"

lemma sample_page: "page_size_bytes (sample_kv_env\<lparr>kv_max_model_len := n\<rparr>) (FullAttentionSpec sample_attention) = 20"
  "page_size_bytes sample_kv_env (FullAttentionSpec sample_attention) = 20"
  "page_size_bytes sample_kv_env (SlidingWindowSpec sample_attention w) = 20"
  by (simp_all add: page_size_bytes_def sample_attention_def sample_kv_env_def)

definition sample_layers :: layer_specs where
  "sample_layers = [(''a'', FullAttentionSpec sample_attention), (''b'', FullAttentionSpec sample_attention)]"

lemma sample_needed: "needed_memory sample_kv_env sample_layers n = 40 * cdiv n 10"
  by (simp add: needed_memory_def sample_layers_def sample_page) (simp add: sample_attention_def)

theorem estimated_length_is_largest_witness:
  "estimate_max_model_len sample_kv_env sample_layers 300 = 70"
proof -
  let ?r = "estimate_max_model_len sample_kv_env sample_layers 300"
  have ok: "\<forall>(l, s) \<in> set sample_layers. spec_ok sample_kv_env s"
    by (simp add: sample_layers_def spec_ok_def sample_page) (simp add: sample_attention_def)
  have len: "kv_max_model_len sample_kv_env = 100" by (simp add: sample_kv_env_def)
  have r: "0 \<le> ?r" "?r \<le> 100" "0 < ?r \<longrightarrow> cdiv ?r 10 \<le> 7"
    "\<forall>n. ?r < n \<and> n \<le> 100 \<longrightarrow> 8 \<le> cdiv n 10"
    using estimated_length_is_largest [OF ok, of 300] by (auto simp: Let_def len sample_needed)
  have "?r \<le> 70" using r(1,3) by (cases "0 < ?r") (auto simp: cdiv_le_iff)
  moreover have "\<not> ?r < 70"
  proof
    assume "?r < 70"
    then have "8 \<le> cdiv 70 (10 :: int)" using r(4) by simp
    then show False by (simp add: cdiv_def)
  qed
  ultimately show ?thesis by simp
qed

section \<open>The sizes\<close>

lemma all_same_spec_uniform:
  "(\<And>n. n \<in> set ns \<Longrightarrow> map_of specs n = Some s) \<Longrightarrow> all_same_spec specs s ns = Inr True"
  by (induction ns) (simp_all add: spec_of_def)

lemma map_of_uniform:
  "set (map snd specs) \<subseteq> {s} \<Longrightarrow> n \<in> fst ` set specs \<Longrightarrow> map_of specs n = Some s"
  by (induction specs) auto

lemma remdups_single: "set xs = {a} \<Longrightarrow> remdups xs = [a]"
proof -
  assume xs: "set xs = {a}"
  then have "length (remdups xs) = 1" by (simp add: length_remdups_card_conv)
  then obtain b where "remdups xs = [b]" by (cases "remdups xs") auto
  moreover have "set (remdups xs) = {a}" using xs by simp
  ultimately show ?thesis by simp
qed

text \<open>What one type of KV cache gets.\<close>

definition blocks_for :: "kv_env \<Rightarrow> layer_specs \<Rightarrow> kv_cache_spec \<Rightarrow> int \<Rightarrow> int" where
  "blocks_for env specs s available =
     max (available div page_size_bytes env s div int (length specs)) 0"

lemma uniform_config:
  assumes "set (map snd specs) = {s}" "page_size_bytes env s \<noteq> 0"
    and "kv_max_model_len env \<noteq> 0" "num_gpu_blocks_override env = None"
  shows "kv_cache_config_uniform_type env specs available = Inr
    \<lparr>num_blocks = blocks_for env specs s available,
     tensors = map (\<lambda>(l, _). (l, page_size_bytes env s * blocks_for env specs s available)) specs,
     kv_cache_groups = [\<lparr>layer_names = map fst specs, group_spec = s\<rparr>]\<rparr>"
proof -
  have ne: "specs \<noteq> []" using assms(1) by auto
  have "set (map (page_size_bytes env \<circ> snd) specs) = page_size_bytes env ` set (map snd specs)"
    by (simp add: image_comp)
  also have "\<dots> = {page_size_bytes env s}" unfolding assms(1) by simp
  finally have sizes: "remdups (map (page_size_bytes env \<circ> snd) specs) = [page_size_bytes env s]"
    by (rule remdups_single)
  have sub: "set (map snd specs) \<subseteq> {s}" using assms(1) by simp
  have spec: "map_of specs n = Some s" if "n \<in> set (map fst specs)" for n
    using map_of_uniform [OF sub] that by simp
  obtain l rest where names: "map fst specs = l # rest" using ne by (cases specs) auto
  have "all_same_spec specs s rest = Inr True"
    by (rule all_same_spec_uniform) (use spec names in simp)
  moreover have "spec_of specs l = Inr s" using spec names by (simp add: spec_of_def)
  ultimately have "make_group specs (map fst specs) = Inr \<lparr>layer_names = map fst specs, group_spec = s\<rparr>"
    unfolding names by (simp add: make_group_def py_get_nonneg)
  then show ?thesis
    using sizes ne assms(2-4)
    by (simp add: kv_cache_config_uniform_type_def create_kv_cache_group_specs_def Let_def
        blocks_for_def raise_if_def)
qed

lemma unify_uniform: "set (map snd specs) = {s} \<Longrightarrow> unify_hybrid_kv_cache_specs specs = specs"
  by (auto simp: unify_hybrid_kv_cache_specs_def)

lemma type_uniform:
  assumes "set (map snd specs) = {s}"
  shows "is_kv_cache_type_uniform env specs"
proof -
  have "set (map (type_id env \<circ> snd) specs) = type_id env ` set (map snd specs)"
    by (simp add: image_comp)
  then show ?thesis unfolding is_kv_cache_type_uniform_def using assms by simp
qed

lemma needed_uniform:
  assumes "set (map snd specs) \<subseteq> {FullAttentionSpec a}"
  shows "needed_memory env specs n =
    int (length specs) * (cdiv n (as_block_size a) * page_size_bytes env (FullAttentionSpec a))"
  using assms by (induction specs) (auto simp: needed_memory_def algebra_simps)



text \<open>
  The memory check is too weak for hybrid models. It is made before the sliding-window layers
  are turned into full-attention ones, so that a model passes whose KV cache then cannot hold
  one request of the maximal length.
\<close>

theorem hybrid_check_too_weak:
  "\<exists>c. get_kv_cache_config sample_kv_env
      [(''a'', FullAttentionSpec sample_attention), (''b'', SlidingWindowSpec sample_attention 1)] 240
      = Inr c \<and>
    needed_memory sample_kv_env (unify_hybrid_kv_cache_specs
      [(''a'', FullAttentionSpec sample_attention), (''b'', SlidingWindowSpec sample_attention 1)]) 100
      = 400 \<and>
    num_blocks c * cache_block_size sample_kv_env < kv_max_model_len sample_kv_env"
proof -
  let ?specs = "[(''a'', FullAttentionSpec sample_attention), (''b'', SlidingWindowSpec sample_attention 1)]"
  have bs: "as_block_size sample_attention = 10" by (simp add: sample_attention_def)
  have env: "kv_max_model_len sample_kv_env = 100" "num_gpu_blocks_override sample_kv_env = None"
    "cache_block_size sample_kv_env = 10" "max_num_batched_tokens sample_kv_env = 1"
    by (simp_all add: sample_kv_env_def)
  have cdiv: "cdiv 100 10 = 10" "cdiv 1 10 = 1" by (simp_all add: cdiv_def)
  have "needed_memory sample_kv_env ?specs 100 = 240"
    by (simp add: needed_memory_def sample_page bs env cdiv)
  then have check: "check_enough_kv_cache_memory sample_kv_env ?specs 240 = Inr ()"
    by (simp add: check_enough_kv_cache_memory_def raise_if_def env)
  have unify: "unify_hybrid_kv_cache_specs ?specs = sample_layers"
    by (simp add: unify_hybrid_kv_cache_specs_def sample_layers_def)
  have uni: "set (map snd sample_layers) = {FullAttentionSpec sample_attention}"
    by (simp add: sample_layers_def)
  have "blocks_for sample_kv_env sample_layers (FullAttentionSpec sample_attention) 240 = 6"
    by (simp add: blocks_for_def sample_page sample_layers_def)
  then show ?thesis
    using uniform_config [OF uni, of sample_kv_env 240] type_uniform [OF uni, of sample_kv_env]
      check unify
    by (simp add: get_kv_cache_config_def sample_page env sample_needed cdiv)
qed

section \<open>Several workers\<close>

lemma sort_groups_frame [simp]: "num_blocks (sort_groups env c) = num_blocks c"
  by (simp add: sort_groups_def)

text \<open>
  The configurations of the workers are unified to the smallest. When the sorted groups agree
  as far as both lists go, every configuration keeps its tensors, gets its groups sorted by type
  and the smallest of all numbers of blocks, which is one that some worker has.
\<close>

theorem unified_to_smallest:
  assumes "configs \<noteq> []"
    and "\<forall>c \<in> set (tl configs). same_groups (sort_groups env (hd configs)) (sort_groups env c)"
  shows "\<exists>cs n. unify_kv_cache_configs env configs = Inr cs \<and> n \<in> num_blocks ` set configs \<and>
    (\<forall>c \<in> set configs. n \<le> num_blocks c) \<and> length cs = length configs \<and>
    (\<forall>i < length cs. num_blocks (cs ! i) = n \<and> tensors (cs ! i) = tensors (configs ! i) \<and>
       mset (kv_cache_groups (cs ! i)) = mset (kv_cache_groups (configs ! i)) \<and>
       sorted (map (\<lambda>g. type_id env (group_spec g)) (kv_cache_groups (cs ! i))))"
proof -
  let ?cs = "map (sort_groups env) configs" and ?n = "Min (num_blocks ` set configs)"
  obtain c0 rest where c: "configs = c0 # rest" using assms(1) by (cases configs) auto
  have "\<forall>c \<in> set (tl ?cs). same_groups (hd ?cs) c" using assms(2) by (simp add: c)
  moreover have "num_blocks ` sort_groups env ` set configs = num_blocks ` set configs"
    by (simp add: image_image)
  ultimately have "unify_kv_cache_configs env configs = Inr (map (\<lambda>c. c\<lparr>num_blocks := ?n\<rparr>) ?cs)"
    using assms(1) by (simp add: unify_kv_cache_configs_def Let_def raise_if_def)
  moreover have "?n \<in> num_blocks ` set configs" using assms(1) by (intro Min_in) auto
  moreover have "\<forall>c \<in> set configs. ?n \<le> num_blocks c" by simp
  ultimately show ?thesis
    by (intro exI [of _ "map (\<lambda>c. c\<lparr>num_blocks := ?n\<rparr>) ?cs"] exI [of _ ?n])
      (simp add: sort_groups_def)
qed

definition sample_worker :: "int \<Rightarrow> kv_cache_group list \<Rightarrow> kv_cache_config" where
  "sample_worker n gs = \<lparr>num_blocks = n, tensors = [], kv_cache_groups = gs\<rparr>"

definition sample_group :: kv_cache_group where
  "sample_group = \<lparr>layer_names = [''a''], group_spec = FullAttentionSpec sample_attention\<rparr>"

theorem unified_to_smallest_witness:
  "\<exists>cs. unify_kv_cache_configs sample_kv_env
      [sample_worker 7 [sample_group], sample_worker 5 [sample_group]] = Inr cs \<and>
    num_blocks (cs ! 0) = 5"
proof -
  let ?w = "[sample_worker 7 [sample_group], sample_worker 5 [sample_group]]"
  have "\<forall>c \<in> set (tl ?w). same_groups (sort_groups sample_kv_env (hd ?w)) (sort_groups sample_kv_env c)"
    by (simp add: same_groups_def sort_groups_def sample_worker_def)
  from unified_to_smallest [OF _ this] obtain cs n where
    cs: "unify_kv_cache_configs sample_kv_env ?w = Inr cs" "n \<in> num_blocks ` set ?w"
    "\<forall>c \<in> set ?w. n \<le> num_blocks c" "length cs = length ?w"
    "\<forall>i < length cs. num_blocks (cs ! i) = n" by (metis list.discI)
  have "n = 5" using cs(2,3) by (auto simp: sample_worker_def)
  then show ?thesis using cs(1,4,5) by auto
qed

text \<open>
  A missing group goes unnoticed. The groups of two workers are compared pairwise up to the
  length of the shorter list, so that workers with different numbers of groups are unified.
\<close>

theorem missing_group_unnoticed:
  "\<exists>cs. unify_kv_cache_configs sample_kv_env
      [sample_worker 7 [sample_group], sample_worker 7 []] = Inr cs \<and>
    map (length \<circ> kv_cache_groups) cs = [1, 0]"
  by (simp add: unify_kv_cache_configs_def same_groups_def sort_groups_def sample_worker_def
      raise_if_def Let_def)

end
