(* ===== verification/BlockHash.thy ===== *)
theory BlockHash
  imports SpecRequest "HOL-Library.Countable"
begin

text \<open>
  The hashes under which full KV blocks are cached (\<open>spexis/v1/core/kv_cache_utils.py\<close>): the
  extra keys of multi-modal and LoRA requests, the hash of one block given its parent's, and
  the chain of hashes of a request. The hash function (\<open>hash\<close> or \<open>sha256\<close>) is an argument,
  and so is the seed \<open>NONE_HASH\<close> of the first block.
\<close>

section \<open>Data\<close>

text \<open>The tuple of extra keys holds LoRA ids and multi-modal hashes.\<close>

datatype extra_key = LoraKey int | MmKey string

instance extra_key :: countable
  by countable_datatype

record block_hash_type =
  hash_value :: int
  bh_token_ids :: "int list"
  bh_extra_keys :: "extra_key list option"

text \<open>What is hashed: the parent's hash value, the tokens of the block, the extra keys.\<close>

type_synonym hash_input = "int \<times> int list \<times> extra_key list option"

text \<open>
  \<open>NONE_HASH\<close> of the module: \<open>env\<close> is \<open>os.getenv('PYTHONHASHSEED')\<close>, \<open>urandom\<close> the 32 random
  bytes as an integer, \<open>sha\<close> the hash of an optional string.
\<close>

definition none_hash_seed :: "(string option \<Rightarrow> int) \<Rightarrow> int \<Rightarrow> string option \<Rightarrow> int" where
  "none_hash_seed sha urandom env = (if env \<noteq> None then urandom else sha env)"

section \<open>Extra keys\<close>

definition need_extra_keys :: "request \<Rightarrow> bool" where
  "need_extra_keys r \<longleftrightarrow> mm_positions r \<noteq> [] \<or> lora_request r \<noteq> None"

text \<open>The while loop over the multi-modal inputs, from index \<open>i\<close>.\<close>

function gen_mm_loop ::
  "placeholder_range list \<Rightarrow> string option list \<Rightarrow> int \<Rightarrow> int \<Rightarrow> nat \<Rightarrow>
   (extra_key list \<times> int) res" where
  "gen_mm_loop ps hs start_idx end_idx i =
     (if i < length ps then
        (case hs ! i of
           None \<Rightarrow> Inl AssertionError
         | Some h \<Rightarrow>
             (let off = offset (ps ! i); len = range_length (ps ! i) in
              if off < end_idx then
                (if off + len < start_idx then gen_mm_loop ps hs start_idx end_idx (Suc i)
                 else if off + len \<le> end_idx
                 then ebind (gen_mm_loop ps hs start_idx end_idx (Suc i))
                        (\<lambda>(keys, j). Inr (MmKey h # keys, j))
                 else Inr ([MmKey h], int i))
              else Inr ([], int i)))
      else Inr ([], int i))"
  by pat_completeness auto
termination
  by (relation "measure (\<lambda>(ps, hs, s, e, i). length ps - i)") auto

declare gen_mm_loop.simps [simp del]

definition gen_mm_extra_hash_keys ::
  "request \<Rightarrow> int \<Rightarrow> int \<Rightarrow> int \<Rightarrow> (extra_key list \<times> int) res" where
  "gen_mm_extra_hash_keys r start_idx end_idx mm_idx =
     (let ps = mm_positions r; hs = mm_hashes r in
      if ps = [] then Inr ([], mm_idx)
      else if length ps \<noteq> length hs then Inl ValueError
      else if offset (last ps) + range_length (last ps) < start_idx then Inr ([], mm_idx)
      else if mm_idx < 0
      then ebind (py_assert (- mm_idx \<le> py_len ps)) (\<lambda>_.
             gen_mm_loop ps hs start_idx end_idx (nat (py_len ps + mm_idx)))
      else if mm_idx < py_len ps then gen_mm_loop ps hs start_idx end_idx (nat mm_idx)
      else Inr ([], mm_idx))"

definition gen_lora_extra_hash_keys :: "request \<Rightarrow> extra_key list" where
  "gen_lora_extra_hash_keys r =
     (case lora_request r of None \<Rightarrow> [] | Some lora_int_id \<Rightarrow> [LoraKey lora_int_id])"

definition generate_block_hash_extra_keys ::
  "request \<Rightarrow> int \<Rightarrow> int \<Rightarrow> int \<Rightarrow> (extra_key list option \<times> int) res" where
  "generate_block_hash_extra_keys r start_idx end_idx mm_idx =
     ebind (gen_mm_extra_hash_keys r start_idx end_idx mm_idx) (\<lambda>(mm_keys, new_idx).
     (let keys = gen_lora_extra_hash_keys r @ mm_keys in
      Inr (if keys = [] then None else Some keys, new_idx)))"

section \<open>Hashing\<close>

text \<open>
  A parent hash of \<open>None\<close> \<^emph>\<open>or 0\<close> is replaced by the seed: the code tests its truth value.
\<close>

definition hash_parent :: "int \<Rightarrow> int option \<Rightarrow> int" where
  "hash_parent none_hash parent =
     (case parent of None \<Rightarrow> none_hash | Some v \<Rightarrow> if v = 0 then none_hash else v)"

lemma hash_parent_None [simp]: "hash_parent none_hash None = none_hash"
  by (simp add: hash_parent_def)

definition hash_block_tokens ::
  "(hash_input \<Rightarrow> int) \<Rightarrow> int \<Rightarrow> int option \<Rightarrow> int list \<Rightarrow> extra_key list option \<Rightarrow>
   block_hash_type" where
  "hash_block_tokens hash_fn none_hash parent tokens keys =
     \<lparr>hash_value = hash_fn (hash_parent none_hash parent, tokens, keys),
      bh_token_ids = tokens, bh_extra_keys = keys\<rparr>"

lemma hash_parent_block:
  "(\<And>x. hash_fn x \<noteq> 0) \<Longrightarrow>
   hash_parent nh (Some (hash_value (hash_block_tokens hash_fn nh p ts ks))) =
   hash_fn (hash_parent nh p, ts, ks)"
  by (simp add: hash_parent_def hash_block_tokens_def)

text \<open>The loop of \<open>hash_request_tokens\<close>, over the tokens from \<open>start\<close> on.\<close>

function hash_tokens_loop ::
  "(hash_input \<Rightarrow> int) \<Rightarrow> int \<Rightarrow> nat \<Rightarrow> request \<Rightarrow> nat \<Rightarrow> int option \<Rightarrow>
   extra_key list option \<Rightarrow> int \<Rightarrow> block_hash_type list res" where
  "hash_tokens_loop hash_fn none_hash block_size r start parent keys mm_idx =
     (let block = take block_size (drop start (all_token_ids r)) in
      if block_size = 0 \<or> length (all_token_ids r) \<le> start \<or> length block < block_size
      then Inr []
      else ebind (if need_extra_keys r
                  then generate_block_hash_extra_keys r (int start)
                         (int (start + block_size)) mm_idx
                  else Inr (keys, mm_idx)) (\<lambda>(keys', mm_idx').
           (let bh = hash_block_tokens hash_fn none_hash parent block keys' in
            ebind (hash_tokens_loop hash_fn none_hash block_size r (start + block_size)
                    (Some (hash_value bh)) keys' mm_idx') (\<lambda>rest. Inr (bh # rest)))))"
  by pat_completeness auto
termination
  by (relation "measure (\<lambda>(f, n, bs, r, start, p, k, m). length (all_token_ids r) - start)")
    auto

declare hash_tokens_loop.simps [simp del]

text \<open>\<open>range\<close> raises \<open>ValueError\<close> for a zero step.\<close>

definition hash_request_tokens ::
  "(hash_input \<Rightarrow> int) \<Rightarrow> int \<Rightarrow> nat \<Rightarrow> request \<Rightarrow> block_hash_type list res" where
  "hash_request_tokens hash_fn none_hash block_size r =
     (if block_size = 0 then Inl ValueError
      else hash_tokens_loop hash_fn none_hash block_size r 0 None None 0)"

section \<open>The chain without extra keys\<close>

text \<open>
  The hashes of consecutive blocks of a token list, each over its parent's value, as a
  recursion on the number of blocks.
\<close>

fun hash_chain ::
  "(hash_input \<Rightarrow> int) \<Rightarrow> int \<Rightarrow> nat \<Rightarrow> extra_key list option \<Rightarrow> int option \<Rightarrow> int list \<Rightarrow>
   nat \<Rightarrow> block_hash_type list" where
  "hash_chain hash_fn none_hash bs keys parent tokens 0 = []"
| "hash_chain hash_fn none_hash bs keys parent tokens (Suc n) =
     (let bh = hash_block_tokens hash_fn none_hash parent (take bs tokens) keys
      in bh # hash_chain hash_fn none_hash bs keys (Some (hash_value bh)) (drop bs tokens) n)"

lemma length_hash_chain [simp]:
  "length (hash_chain hash_fn none_hash bs keys parent tokens n) = n"
  by (induction n arbitrary: parent tokens) (simp_all add: Let_def)

text \<open>The value that parents the block after the first \<open>n\<close>.\<close>

fun chain_parent ::
  "(hash_input \<Rightarrow> int) \<Rightarrow> int \<Rightarrow> nat \<Rightarrow> extra_key list option \<Rightarrow> int option \<Rightarrow> int list \<Rightarrow>
   nat \<Rightarrow> int option" where
  "chain_parent hash_fn none_hash bs keys parent tokens 0 = parent"
| "chain_parent hash_fn none_hash bs keys parent tokens (Suc n) =
     chain_parent hash_fn none_hash bs keys
       (Some (hash_value (hash_block_tokens hash_fn none_hash parent (take bs tokens) keys)))
       (drop bs tokens) n"

lemma hash_chain_add:
  "hash_chain hash_fn nh bs keys parent tokens (m + n) =
   hash_chain hash_fn nh bs keys parent tokens m @
   hash_chain hash_fn nh bs keys (chain_parent hash_fn nh bs keys parent tokens m)
     (drop (m * bs) tokens) n"
  by (induction m arbitrary: parent tokens) (simp_all add: Let_def add.commute)

lemma chain_parent_last:
  "0 < n \<Longrightarrow> chain_parent hash_fn nh bs keys parent tokens n =
   Some (hash_value (last (hash_chain hash_fn nh bs keys parent tokens n)))"
proof (induction n arbitrary: parent tokens)
  case 0
  then show ?case by simp
next
  case (Suc n)
  show ?case
  proof (cases n)
    case 0
    then show ?thesis by (simp add: Let_def)
  next
    case Suc': (Suc k)
    then show ?thesis
      using Suc.IH [of "Some (hash_value (hash_block_tokens hash_fn nh parent (take bs tokens) keys))"
          "drop bs tokens"]
      by (auto simp: Let_def)
  qed
qed

lemma hash_chain_take:
  "n * bs \<le> m \<Longrightarrow>
   hash_chain hash_fn nh bs keys parent (take m tokens) n =
   hash_chain hash_fn nh bs keys parent tokens n"
proof (induction n arbitrary: m parent tokens)
  case (Suc n)
  then have "n * bs \<le> m - bs" and "bs \<le> m" by auto
  with Suc.IH [of "m - bs" _ "drop bs tokens"] show ?case
    by (simp add: Let_def drop_take min_absorb1)
qed simp

text \<open>A request whose blocks all have the same extra keys: none, or its LoRA id.\<close>

definition uniform_keys :: "request \<Rightarrow> extra_key list option" where
  "uniform_keys r = (case lora_request r of None \<Rightarrow> None | Some i \<Rightarrow> Some [LoraKey i])"

lemma generate_keys_uniform:
  "mm_positions r = [] \<Longrightarrow>
   generate_block_hash_extra_keys r s e m = Inr (uniform_keys r, m)"
  by (simp add: generate_block_hash_extra_keys_def gen_mm_extra_hash_keys_def
      gen_lora_extra_hash_keys_def uniform_keys_def split: option.splits)

lemma hash_tokens_loop_chain:
  assumes "mm_positions r = []" "0 < bs"
    and "keys = None \<or> keys = uniform_keys r"
  shows "hash_tokens_loop hash_fn nh bs r start parent keys m =
    Inr (hash_chain hash_fn nh bs (uniform_keys r) parent (drop start (all_token_ids r))
      ((length (all_token_ids r) - start) div bs))"
  using assms
proof (induction hash_fn nh bs r start parent keys m rule: hash_tokens_loop.induct)
  case (1 hash_fn nh bs r start parent keys m)
  let ?ts = "all_token_ids r"
  let ?block = "take bs (drop start ?ts)"
  show ?case
  proof (cases "length ?ts \<le> start \<or> length ?block < bs")
    case True
    then have "(length ?ts - start) div bs = 0"
      using 1(3) by auto
    with True show ?thesis by (subst hash_tokens_loop.simps) auto
  next
    case False
    then have long: "bs \<le> length ?ts - start" by auto
    then have steps: "(length ?ts - start) div bs = Suc ((length ?ts - (start + bs)) div bs)"
      using 1(3) by (simp add: div_if)
    have keys: "(if need_extra_keys r
        then generate_block_hash_extra_keys r (int start) (int (start + bs)) m
        else Inr (keys, m)) = Inr (uniform_keys r, m)"
      using 1(2,4) generate_keys_uniform [OF 1(2)]
      by (auto simp: need_extra_keys_def uniform_keys_def)
    define bh where "bh = hash_block_tokens hash_fn nh parent ?block (uniform_keys r)"
    have rest: "hash_tokens_loop hash_fn nh bs r (start + bs) (Some (hash_value bh))
        (uniform_keys r) m =
      Inr (hash_chain hash_fn nh bs (uniform_keys r) (Some (hash_value bh))
        (drop (start + bs) ?ts) ((length ?ts - (start + bs)) div bs))"
      unfolding bh_def
      by (rule 1(1) [OF refl _ keys refl refl]) (use 1 False in auto)
    have "hash_tokens_loop hash_fn nh bs r start parent keys m =
      ebind (hash_tokens_loop hash_fn nh bs r (start + bs) (Some (hash_value bh))
        (uniform_keys r) m) (\<lambda>rest. Inr (bh # rest))"
      using False 1(3) keys
      by (subst hash_tokens_loop.simps) (simp add: Let_def bh_def)
    then show ?thesis
      using steps rest by (simp add: Let_def bh_def add.commute)
  qed
qed


lemma hash_chain_nth:
  "i < n \<Longrightarrow> hash_chain hash_fn nh bs keys parent tokens n ! i =
   hash_block_tokens hash_fn nh (chain_parent hash_fn nh bs keys parent tokens i)
     (take bs (drop (i * bs) tokens)) keys"
proof (induction n arbitrary: i parent tokens)
  case (Suc n)
  then show ?case
    by (cases i) (simp_all add: Let_def add.commute)
qed simp

lemma chain_parent_Suc:
  "chain_parent hash_fn nh bs keys parent tokens (Suc i) =
   Some (hash_value (hash_block_tokens hash_fn nh
     (chain_parent hash_fn nh bs keys parent tokens i) (take bs (drop (i * bs) tokens)) keys))"
proof -
  let ?c = "hash_chain hash_fn nh bs keys parent tokens (Suc i)"
  have "length ?c = Suc i" by (rule length_hash_chain)
  then have "last ?c = ?c ! i" by (subst last_conv_nth) auto
  then show ?thesis
    using chain_parent_last [of "Suc i" hash_fn nh bs keys parent tokens]
      hash_chain_nth [of i "Suc i" hash_fn nh bs keys parent tokens]
    by (simp del: chain_parent.simps hash_chain.simps)
qed

declare chain_parent.simps(2) [simp del]

text \<open>Two chains that agree on one hash agree on its position and on everything before it.\<close>

lemma chain_parent_inj:
  assumes "inj hash_fn" "\<And>x. hash_fn x \<noteq> 0" "\<And>x. hash_fn x \<noteq> nh"
    and "hash_parent nh (chain_parent hash_fn nh bs keys None tokens i) =
         hash_parent nh (chain_parent hash_fn nh bs keys' None tokens' j)"
  shows "i = j \<and> take (i * bs) tokens = take (j * bs) tokens'"
proof -
  have seed_Suc: "hash_parent nh (chain_parent hash_fn nh bs k None ts (Suc m)) \<noteq> nh" for k ts m
    using assms(2,3)
    by (simp add: chain_parent_Suc hash_parent_def hash_block_tokens_def)
  show ?thesis using assms(4)
  proof (induction i arbitrary: j)
    case 0
    then show ?case
      using seed_Suc [of keys' tokens', symmetric] by (cases j) auto
  next
    case (Suc i)
    obtain j' where j: "j = Suc j'"
      using Suc.prems seed_Suc [of keys tokens i]
      by (cases j) auto
    have "hash_parent nh (chain_parent hash_fn nh bs keys None tokens i) =
        hash_parent nh (chain_parent hash_fn nh bs keys' None tokens' j')"
      and block: "take bs (drop (i * bs) tokens) = take bs (drop (j' * bs) tokens')"
      and "keys = keys'"
      using Suc.prems by (auto simp: j chain_parent_Suc hash_parent_block [OF assms(2)] inj_eq [OF assms(1)])
    moreover from this have "i = j' \<and> take (i * bs) tokens = take (j' * bs) tokens'"
      using Suc.IH by blast
    ultimately show ?case
      by (auto simp: j take_add add.commute [of bs])
  qed
qed

lemma hash_request_tokens_chain:
  assumes "mm_positions r = []" "0 < bs"
  shows "hash_request_tokens hash_fn nh bs r =
    Inr (hash_chain hash_fn nh bs (uniform_keys r) None (all_token_ids r)
      (length (all_token_ids r) div bs))"
  using hash_tokens_loop_chain [of r bs None hash_fn nh 0 None 0] assms
  by (simp add: hash_request_tokens_def)

lemma uniform_keys_inject: "uniform_keys r = uniform_keys r' \<longleftrightarrow> lora_request r = lora_request r'"
  by (auto simp: uniform_keys_def split: option.splits)

section \<open>Properties\<close>

text \<open>
  C27: block hashes identify prefixes. For requests without multi-modal inputs, and a hash
  function without collisions whose values are neither 0 nor the seed, two blocks with the
  same hash stand at the same index, with the same tokens in every block up to it, for the
  same LoRA adapter.
\<close>

theorem block_hash_identifies_prefix:
  assumes "inj hash_fn" "\<forall>x. hash_fn x \<noteq> 0 \<and> hash_fn x \<noteq> none_hash" "0 < bs"
    and "mm_positions r = []" "mm_positions r' = []"
    and "hash_request_tokens hash_fn none_hash bs r = Inr hs" "i < length hs"
    and "hash_request_tokens hash_fn none_hash bs r' = Inr hs'" "j < length hs'"
    and "hs ! i = hs' ! j"
  shows "i = j \<and> take (Suc i * bs) (all_token_ids r) = take (Suc j * bs) (all_token_ids r') \<and>
    lora_request r = lora_request r'"
proof -
  let ?p = "\<lambda>r i. chain_parent hash_fn none_hash bs (uniform_keys r) None (all_token_ids r) i"
  have nth: "hs ! i = hash_block_tokens hash_fn none_hash (?p r i)
      (take bs (drop (i * bs) (all_token_ids r))) (uniform_keys r)"
    "hs' ! j = hash_block_tokens hash_fn none_hash (?p r' j)
      (take bs (drop (j * bs) (all_token_ids r'))) (uniform_keys r')"
    using assms(6-9) hash_request_tokens_chain [OF assms(4,3)]
      hash_request_tokens_chain [OF assms(5,3)] by (auto simp: hash_chain_nth)
  have keys: "lora_request r = lora_request r'"
    and block: "take bs (drop (i * bs) (all_token_ids r))
      = take bs (drop (j * bs) (all_token_ids r'))"
    and parent: "hash_parent none_hash (?p r i) = hash_parent none_hash (?p r' j)"
    using assms(10) unfolding nth
    by (simp_all add: hash_block_tokens_def inj_eq [OF assms(1)] uniform_keys_inject)
  from chain_parent_inj [OF assms(1) _ _ parent] assms(2)
  have "i = j \<and> take (i * bs) (all_token_ids r) = take (j * bs) (all_token_ids r')"
    by blast
  with keys block show ?thesis
    by (auto simp: take_add add.commute [of bs])
qed

theorem block_hash_identifies_prefix_witness:
  "\<exists>(hash_fn :: hash_input \<Rightarrow> int) hs. inj hash_fn \<and>
     hash_request_tokens hash_fn 1 2 (sample_request ''a'' [1, 2, 3, 4, 5]) = Inr hs \<and>
     hash_request_tokens hash_fn 1 2 (sample_request ''b'' [1, 2, 3, 4, 6]) = Inr hs \<and>
     take (Suc 1 * 2) [1, 2, 3, 4, 5] = take (Suc 1 * 2) [1, 2, 3, 4, 6::int]"
proof -
  define hash_fn :: "hash_input \<Rightarrow> int" where "hash_fn = (\<lambda>x. int (to_nat x) + 2)"
  have inj: "inj hash_fn" by (simp add: hash_fn_def inj_on_def)
  have vals: "\<forall>x. hash_fn x \<noteq> 0 \<and> hash_fn x \<noteq> 1" by (simp add: hash_fn_def)
  let ?a = "sample_request ''a'' [1, 2, 3, 4, 5]" and ?b = "sample_request ''b'' [1, 2, 3, 4, 6]"
  let ?hs = "hash_chain hash_fn 1 2 None None [1, 2, 3, 4, 5] 2"
  have a: "hash_request_tokens hash_fn 1 2 ?a = Inr ?hs"
    using hash_request_tokens_chain [of ?a 2 hash_fn 1]
    by (simp add: uniform_keys_def flip: numeral_2_eq_2 del: hash_chain.simps)
  have same: "hash_chain hash_fn 1 2 None None [1, 2, 3, 4, 6] 2 = ?hs"
    by (simp add: Let_def numeral_2_eq_2)
  have b: "hash_request_tokens hash_fn 1 2 ?b = Inr ?hs"
    using hash_request_tokens_chain [of ?b 2 hash_fn 1]
    by (simp add: uniform_keys_def same flip: numeral_2_eq_2 del: hash_chain.simps)
  have "take (Suc 1 * 2) (all_token_ids ?a) = take (Suc 1 * 2) (all_token_ids ?b)"
    using block_hash_identifies_prefix [OF inj vals _ _ _ a _ b, of 1 1] by simp
  with inj a b show ?thesis by auto
qed

text \<open>
  Requests that share a prefix share its block hashes. When two requests without multi-modal
  inputs agree on their first \<open>k\<close> full blocks and their LoRA adapter, the first \<open>k\<close> block hashes
  are the same, whatever follows.
\<close>

theorem shared_prefix_same_hashes:
  assumes "0 < bs" "mm_positions r = []" "mm_positions r' = []"
    and "lora_request r = lora_request r'"
    and "take (k * bs) (all_token_ids r) = take (k * bs) (all_token_ids r')"
    and "k * bs \<le> length (all_token_ids r)" "k * bs \<le> length (all_token_ids r')"
  shows "\<exists>hs hs'. hash_request_tokens hash_fn none_hash bs r = Inr hs \<and>
    hash_request_tokens hash_fn none_hash bs r' = Inr hs' \<and> take k hs = take k hs' \<and>
    k \<le> length hs \<and> k \<le> length hs'"
proof -
  let ?chain = "\<lambda>r n. hash_chain hash_fn none_hash bs (uniform_keys r) None (all_token_ids r) n"
  have split: "take k (?chain r (length (all_token_ids r) div bs)) = ?chain r k"
    "k \<le> length (all_token_ids r) div bs"
    if "k * bs \<le> length (all_token_ids r)" for r
  proof -
    show le: "k \<le> length (all_token_ids r) div bs"
      using that assms(1) by (simp add: less_eq_div_iff_mult_less_eq)
    show "take k (?chain r (length (all_token_ids r) div bs)) = ?chain r k"
      using hash_chain_add [of hash_fn none_hash bs "uniform_keys r" None "all_token_ids r" k
          "length (all_token_ids r) div bs - k"] le by simp
  qed
  have "uniform_keys r = uniform_keys r'"
    using assms(4) by (simp add: uniform_keys_inject)
  then have "?chain r k = ?chain r' k"
    using hash_chain_take [of k bs "k * bs" hash_fn none_hash "uniform_keys r" None] assms(5)
    by (metis order_refl)
  with split assms(6,7) show ?thesis
    using hash_request_tokens_chain [OF assms(2,1), of hash_fn none_hash]
      hash_request_tokens_chain [OF assms(3,1), of hash_fn none_hash] by auto
qed

theorem shared_prefix_same_hashes_witness:
  "\<exists>hs hs'. hash_request_tokens fst 7 2 (sample_request ''a'' [1, 2, 3, 4, 5]) = Inr hs \<and>
    hash_request_tokens fst 7 2 (sample_request ''b'' [1, 2, 9]) = Inr hs' \<and>
    take 1 hs = take 1 hs' \<and> 1 \<le> length hs \<and> 1 \<le> length hs'"
  by (rule shared_prefix_same_hashes) simp_all

text \<open>
  The hash of a multi-modal request does not say where in a block an input starts. The
  documentation of \<open>_gen_mm_extra_hash_keys\<close> promises (hash, start offset) pairs as extra keys;
  two requests with the same tokens whose image starts at different offsets of a block get
  the same block hashes under every hash function.
\<close>

theorem mm_keys_ignore_offset:
  "\<exists>r r' :: request. all_token_ids r = all_token_ids r' \<and> mm_hashes r = mm_hashes r' \<and>
     offset (mm_positions r ! 0) \<noteq> offset (mm_positions r' ! 0) \<and>
     (\<exists>bh. hash_request_tokens hash_fn none_hash 4 r = Inr [bh] \<and>
           hash_request_tokens hash_fn none_hash 4 r' = Inr [bh] \<and>
           bh_extra_keys bh = Some [MmKey ''img''])"
proof -
  let ?r = "\<lambda>k. (sample_request ''m'' [5, 5, 5, 5])\<lparr>mm_hashes := [Some ''img''],
    mm_positions := [\<lparr>offset = k, range_length = 2\<rparr>]\<rparr>"
  have "hash_request_tokens hash_fn none_hash 4 (?r k) =
      Inr [hash_block_tokens hash_fn none_hash None [5, 5, 5, 5] (Some [MmKey ''img''])]"
    if "0 \<le> k" "k \<le> 2" for k
    using that
    by (simp add: hash_request_tokens_def hash_tokens_loop.simps Let_def need_extra_keys_def
        generate_block_hash_extra_keys_def gen_mm_extra_hash_keys_def gen_mm_loop.simps
        gen_lora_extra_hash_keys_def)
  from this [of 0] this [of 1] show ?thesis
    by (intro exI [of _ "?r 0"] exI [of _ "?r 1"]) (simp add: hash_block_tokens_def)
qed

text \<open>
  The comment on \<open>NONE_HASH\<close> wants processes to share the seed when \<open>PYTHONHASHSEED\<close> is set
  and a random one otherwise; the conditional is the other way round.
\<close>

lemma none_hash_seed_inverted:
  "none_hash_seed sha u (Some env) = u \<and> none_hash_seed sha u None = none_hash_seed sha u' None"
  by (simp add: none_hash_seed_def)

end
