(* ===== verification/FreeQueue.thy ===== *)
theory FreeQueue
  imports BlockHash
begin

text \<open>
  The KV blocks and the queue of free ones (\<open>KVCacheBlock\<close> and \<open>FreeKVCacheBlockQueue\<close> of
  \<open>spexis/v1/core/kv_cache_utils.py\<close>). The queue is a doubly linked list threaded through the
  blocks: the pointers live in the blocks, so an operation changes the store of blocks as
  well as head, tail and count. A block is referred to by its id; a store maps ids to blocks.

  The locale \<open>block_queue\<close> is the interface the block pool relies on, a queue of ids from
  whose middle an id can be removed; the linked list is proved to implement it.
\<close>

section \<open>Blocks and the queue\<close>

record kv_block =
  block_id :: nat
  ref_cnt :: int
  block_hash :: "block_hash_type option"
  prev_free_block :: "nat option"
  next_free_block :: "nat option"

type_synonym store = "nat \<Rightarrow> kv_block"

definition new_block :: "nat \<Rightarrow> kv_block" where
  "new_block i = \<lparr>block_id = i, ref_cnt = 0, block_hash = None,
     prev_free_block = None, next_free_block = None\<rparr>"

definition set_prev :: "nat \<Rightarrow> nat option \<Rightarrow> store \<Rightarrow> store" where
  "set_prev b p st = st(b := (st b)\<lparr>prev_free_block := p\<rparr>)"

definition set_next :: "nat \<Rightarrow> nat option \<Rightarrow> store \<Rightarrow> store" where
  "set_next b p st = st(b := (st b)\<lparr>next_free_block := p\<rparr>)"

definition incr_ref :: "nat \<Rightarrow> store \<Rightarrow> store" where
  "incr_ref b st = st(b := (st b)\<lparr>ref_cnt := ref_cnt (st b) + 1\<rparr>)"

definition decr_ref :: "nat \<Rightarrow> store \<Rightarrow> store" where
  "decr_ref b st = st(b := (st b)\<lparr>ref_cnt := ref_cnt (st b) - 1\<rparr>)"

definition set_block_hash :: "nat \<Rightarrow> block_hash_type \<Rightarrow> store \<Rightarrow> store res" where
  "set_block_hash b h st =
     (if block_hash (st b) = None then Inr (st(b := (st b)\<lparr>block_hash := Some h\<rparr>))
      else Inl AssertionError)"

definition reset_hash :: "nat \<Rightarrow> store \<Rightarrow> store" where
  "reset_hash b st = st(b := (st b)\<lparr>block_hash := None\<rparr>)"

lemma store_updates [simp]:
  "block_hash (reset_hash b st x) = (if x = b then None else block_hash (st x))"
  "block_id (reset_hash b st x) = block_id (st x)"
  "ref_cnt (reset_hash b st x) = ref_cnt (st x)"
  "prev_free_block (reset_hash b st x) = prev_free_block (st x)"
  "next_free_block (reset_hash b st x) = next_free_block (st x)"
  "block_hash (incr_ref b st x) = block_hash (st x)"
  "block_id (incr_ref b st x) = block_id (st x)"
  "ref_cnt (incr_ref b st x) = (if x = b then ref_cnt (st x) + 1 else ref_cnt (st x))"
  "prev_free_block (incr_ref b st x) = prev_free_block (st x)"
  "next_free_block (incr_ref b st x) = next_free_block (st x)"
  by (simp_all add: reset_hash_def incr_ref_def)

record free_queue =
  free_list_head :: "nat option"
  free_list_tail :: "nat option"
  num_free_blocks :: int

type_synonym queue_state = "store \<times> free_queue"

text \<open>The constructor links the given blocks in their order.\<close>

fun link_blocks :: "nat list \<Rightarrow> nat list \<Rightarrow> store \<Rightarrow> store" where
  "link_blocks blocks [] st = st"
| "link_blocks blocks (i # is) st =
     (let st1 = (if 0 < i then set_prev (blocks ! i) (Some (blocks ! (i - 1))) st else st);
          st2 = (if i < length blocks - 1
                 then set_next (blocks ! i) (Some (blocks ! (i + 1))) st1 else st1)
      in link_blocks blocks is st2)"

definition init_free_queue :: "nat list \<Rightarrow> store \<Rightarrow> queue_state res" where
  "init_free_queue blocks st =
     (if blocks = [] then Inl IndexError
      else Inr (link_blocks blocks [0..<length blocks] st,
        \<lparr>free_list_head = Some (hd blocks), free_list_tail = Some (last blocks),
         num_free_blocks = py_len blocks\<rparr>))"

definition fq_remove :: "nat \<Rightarrow> queue_state \<Rightarrow> queue_state" where
  "fq_remove b sq =
     (let st = fst sq; q = snd sq;
          st1 = (case prev_free_block (st b) of None \<Rightarrow> st
                 | Some p \<Rightarrow> set_next p (next_free_block (st b)) st);
          st2 = (case next_free_block (st1 b) of None \<Rightarrow> st1
                 | Some n \<Rightarrow> set_prev n (prev_free_block (st1 b)) st1);
          q1 = (if Some b = free_list_head q
                then q\<lparr>free_list_head := next_free_block (st2 b)\<rparr> else q);
          q2 = (if Some b = free_list_tail q1
                then q1\<lparr>free_list_tail := prev_free_block (st2 b)\<rparr> else q1);
          st3 = set_prev b None (set_next b None st2)
      in (st3, q2\<lparr>num_free_blocks := num_free_blocks q2 - 1\<rparr>))"

definition fq_popleft :: "queue_state \<Rightarrow> (nat \<times> queue_state) res" where
  "fq_popleft sq =
     (case free_list_head (snd sq) of
        None \<Rightarrow> Inl ValueError
      | Some b \<Rightarrow> Inr (b, fq_remove b sq))"

definition fq_append :: "nat \<Rightarrow> queue_state \<Rightarrow> queue_state res" where
  "fq_append b sq =
     (let st = fst sq; q = snd sq in
      case free_list_tail q of
        Some t \<Rightarrow>
          (let st1 = set_prev b (Some t) (set_next t (Some b) st)
           in Inr (set_next b None st1,
                q\<lparr>free_list_tail := Some b, num_free_blocks := num_free_blocks q + 1\<rparr>))
      | None \<Rightarrow>
          ebind (py_assert (free_list_head q = None)) (\<lambda>_.
          Inr (set_next b None st,
            q\<lparr>free_list_head := Some b, free_list_tail := Some b,
              num_free_blocks := num_free_blocks q + 1\<rparr>)))"

text \<open>
  The traversal follows \<open>next_free_block\<close> until it is \<open>None\<close>; on a circular list it would not
  return, so it is a partial function.
\<close>

partial_function (option) walk_free :: "store \<Rightarrow> nat option \<Rightarrow> nat list option" where
  "walk_free st p =
     (case p of
        None \<Rightarrow> Some []
      | Some b \<Rightarrow>
          Option.bind (walk_free st (next_free_block (st b))) (\<lambda>bs. Some (b # bs)))"

definition get_all_free_blocks :: "queue_state \<Rightarrow> nat list option" where
  "get_all_free_blocks sq = walk_free (fst sq) (free_list_head (snd sq))"

section \<open>Segments of the linked list\<close>

text \<open>What stands before and after a segment: its neighbour, or the given pointer.\<close>

definition first_or :: "nat list \<Rightarrow> nat option \<Rightarrow> nat option" where
  "first_or xs n = (case xs of [] \<Rightarrow> n | x # _ \<Rightarrow> Some x)"

definition last_or :: "nat list \<Rightarrow> nat option \<Rightarrow> nat option" where
  "last_or xs p = (if xs = [] then p else Some (last xs))"

lemma first_or_simps [simp]:
  "first_or [] n = n" "first_or (x # xs) n = Some x"
  "first_or (xs @ ys) n = first_or xs (first_or ys n)"
  by (simp_all add: first_or_def split: list.splits)

lemma last_or_simps [simp]:
  "last_or [] p = p" "last_or (x # xs) p = last_or xs (Some x)"
  "last_or (xs @ ys) p = last_or ys (last_or xs p)"
  by (simp_all add: last_or_def)

lemma first_or_neq [simp]:
  "b \<notin> set xs \<Longrightarrow> first_or xs p = Some b \<longleftrightarrow> xs = [] \<and> p = Some b"
  "b \<notin> set xs \<Longrightarrow> Some b = first_or xs p \<longleftrightarrow> xs = [] \<and> p = Some b"
  by (cases xs; auto)+

lemma last_or_neq [simp]:
  "b \<notin> set xs \<Longrightarrow> last_or xs p = Some b \<longleftrightarrow> xs = [] \<and> p = Some b"
  "b \<notin> set xs \<Longrightarrow> Some b = last_or xs p \<longleftrightarrow> xs = [] \<and> p = Some b"
  by (auto simp: last_or_def)

text \<open>The segment \<open>xs\<close> entered from \<open>p\<close> and left to \<open>n\<close>.\<close>

fun seg :: "store \<Rightarrow> nat option \<Rightarrow> nat list \<Rightarrow> nat option \<Rightarrow> bool" where
  "seg st p [] n \<longleftrightarrow> True"
| "seg st p (x # xs) n \<longleftrightarrow>
     prev_free_block (st x) = p \<and> next_free_block (st x) = first_or xs n \<and> seg st (Some x) xs n"

lemma seg_append [simp]:
  "seg st p (xs @ ys) n \<longleftrightarrow> seg st p xs (first_or ys n) \<and> seg st (last_or xs p) ys n"
  by (induction xs arbitrary: p) auto

lemma seg_cong:
  "(\<And>x. x \<in> set xs \<Longrightarrow> prev_free_block (st x) = prev_free_block (st' x) \<and>
     next_free_block (st x) = next_free_block (st' x)) \<Longrightarrow>
   seg st p xs n = seg st' p xs n"
  by (induction xs arbitrary: p) auto

lemma seg_set_next_other [simp]:
  "b \<notin> set xs \<Longrightarrow> seg (set_next b v st) p xs n = seg st p xs n"
  by (rule seg_cong) (auto simp: set_next_def)

lemma seg_set_prev_other [simp]:
  "b \<notin> set xs \<Longrightarrow> seg (set_prev b v st) p xs n = seg st p xs n"
  by (rule seg_cong) (auto simp: set_prev_def)

lemma pointer_updates [simp]:
  "prev_free_block (set_next b v st x) = prev_free_block (st x)"
  "next_free_block (set_next b v st x) = (if x = b then v else next_free_block (st x))"
  "next_free_block (set_prev b v st x) = next_free_block (st x)"
  "prev_free_block (set_prev b v st x) = (if x = b then v else prev_free_block (st x))"
  by (simp_all add: set_next_def set_prev_def)

text \<open>The other fields of a block.\<close>

definition same_payload :: "store \<Rightarrow> store \<Rightarrow> bool" where
  "same_payload st st' \<longleftrightarrow>
     (\<forall>b. block_id (st' b) = block_id (st b) \<and> ref_cnt (st' b) = ref_cnt (st b) \<and>
          block_hash (st' b) = block_hash (st b))"

lemma same_payload_set [simp]:
  "same_payload st (set_next b v st') \<longleftrightarrow> same_payload st st'"
  "same_payload st (set_prev b v st') \<longleftrightarrow> same_payload st st'"
  by (auto simp: same_payload_def set_next_def set_prev_def)

lemma same_payload_refl [simp]: "same_payload st st"
  by (simp add: same_payload_def)

lemma same_payload_trans [trans]:
  "same_payload st st' \<Longrightarrow> same_payload st' st'' \<Longrightarrow> same_payload st st''"
  by (simp add: same_payload_def)

text \<open>The queue represents the list of its blocks in order; other blocks are unlinked.\<close>

definition fq_rep :: "queue_state \<Rightarrow> nat list \<Rightarrow> bool" where
  "fq_rep sq xs \<longleftrightarrow>
     distinct xs \<and> seg (fst sq) None xs None \<and>
     free_list_head (snd sq) = first_or xs None \<and> free_list_tail (snd sq) = last_or xs None \<and>
     num_free_blocks (snd sq) = py_len xs \<and>
     (\<forall>b. b \<notin> set xs \<longrightarrow>
        prev_free_block (fst sq b) = None \<and> next_free_block (fst sq b) = None)"


section \<open>The operations on the represented list\<close>

lemma fq_remove_rep:
  assumes "fq_rep sq xs" "b \<in> set xs"
  shows "fq_rep (fq_remove b sq) (remove1 b xs)"
proof -
  obtain ys zs where xs: "xs = ys @ b # zs" and "b \<notin> set ys"
    using assms(2) by (meson split_list_first)
  have rem: "remove1 b xs = ys @ zs"
    using xs \<open>b \<notin> set ys\<close> by (simp add: remove1_append)
  show ?thesis
  proof (cases ys rule: rev_cases; cases zs)
    fix v vs assume "ys = []" "zs = v # vs"
    then show ?thesis
      using assms(1) unfolding rem unfolding xs by (simp add: fq_rep_def fq_remove_def Let_def)
  next
    fix us u v vs assume "ys = us @ [u]" "zs = v # vs"
    then show ?thesis
      using assms(1) unfolding rem unfolding xs by (simp add: fq_rep_def fq_remove_def Let_def)
  next
    fix us u assume "ys = us @ [u]" "zs = []"
    then show ?thesis
      using assms(1) unfolding rem unfolding xs by (simp add: fq_rep_def fq_remove_def Let_def)
  next
    assume "ys = []" "zs = []"
    then show ?thesis
      using assms(1) unfolding rem unfolding xs by (simp add: fq_rep_def fq_remove_def Let_def)
  qed
qed

lemma fq_remove_payload: "same_payload (fst sq) (fst (fq_remove b sq))"
  by (simp add: fq_remove_def Let_def split: option.splits)

lemma fq_popleft_rep:
  assumes "fq_rep sq (b # xs)"
  shows "fq_popleft sq = Inr (b, fq_remove b sq) \<and> fq_rep (fq_remove b sq) xs"
  using fq_remove_rep [OF assms, of b] assms by (simp add: fq_popleft_def fq_rep_def)

lemma fq_popleft_empty: "fq_rep sq [] \<Longrightarrow> fq_popleft sq = Inl ValueError"
  by (simp add: fq_popleft_def fq_rep_def)

lemma fq_append_rep:
  assumes "fq_rep sq xs" "b \<notin> set xs"
  shows "\<exists>sq'. fq_append b sq = Inr sq' \<and> fq_rep sq' (xs @ [b]) \<and>
    same_payload (fst sq) (fst sq')"
proof (cases xs rule: rev_cases)
  case Nil
  then show ?thesis
    using assms by (auto simp: fq_rep_def fq_append_def Let_def)
next
  case (snoc us u)
  then show ?thesis
    using assms by (auto simp: fq_rep_def fq_append_def Let_def)
qed

lemma fq_rep_count: "fq_rep sq xs \<Longrightarrow> num_free_blocks (snd sq) = py_len xs"
  by (simp add: fq_rep_def)

lemma fq_rep_distinct: "fq_rep sq xs \<Longrightarrow> distinct xs"
  by (simp add: fq_rep_def)

text \<open>Writing the other fields of blocks does not disturb the queue.\<close>

lemma fq_rep_pointers:
  "fq_rep (st, q) xs \<Longrightarrow>
   (\<And>b. prev_free_block (st' b) = prev_free_block (st b)) \<Longrightarrow>
   (\<And>b. next_free_block (st' b) = next_free_block (st b)) \<Longrightarrow> fq_rep (st', q) xs"
  using seg_cong [of xs st st' None None] by (auto simp: fq_rep_def)

lemma fq_rep_unique: "fq_rep sq xs \<Longrightarrow> fq_rep sq ys \<Longrightarrow> xs = ys"
proof -
  have "xs = ys" if "seg st p xs None" "seg st p ys None" "first_or xs None = first_or ys None"
    for st p
    using that
  proof (induction xs arbitrary: p ys)
    case Nil
    then show ?case by (cases ys) auto
  next
    case (Cons x xs)
    then show ?case by (cases ys) auto
  qed
  then show "fq_rep sq xs \<Longrightarrow> fq_rep sq ys \<Longrightarrow> xs = ys"
    by (metis fq_rep_def)
qed

lemma walk_free_seg: "seg st p xs None \<Longrightarrow> walk_free st (first_or xs None) = Some xs"
  by (induction xs arbitrary: p) (subst walk_free.simps; force)+

lemma get_all_free_blocks_rep: "fq_rep sq xs \<Longrightarrow> get_all_free_blocks sq = Some xs"
  unfolding get_all_free_blocks_def fq_rep_def using walk_free_seg by metis

text \<open>The constructor represents the given order.\<close>

lemma link_blocks_append:
  "link_blocks blocks (is @ js) st = link_blocks blocks js (link_blocks blocks is st)"
  by (induction "is" arbitrary: st) (simp_all add: Let_def)

lemma link_step:
  assumes "distinct blocks" "k < length blocks"
    and "seg st None (take k blocks) (first_or (drop k blocks) None)"
    and "\<forall>b. b \<notin> set (take k blocks) \<longrightarrow>
      prev_free_block (st b) = None \<and> next_free_block (st b) = None"
  defines "st' \<equiv> link_blocks blocks [k] st"
  shows "seg st' None (take (Suc k) blocks) (first_or (drop (Suc k) blocks) None)"
    and "\<forall>b. b \<notin> set (take (Suc k) blocks) \<longrightarrow>
      prev_free_block (st' b) = None \<and> next_free_block (st' b) = None"
proof -
  let ?b = "blocks ! k" and ?ys = "take k blocks" and ?zs = "drop (Suc k) blocks"
  have fresh: "?b \<notin> set ?ys"
    using assms(1,2) by (auto simp: in_set_conv_nth nth_eq_iff_index_eq)
  have prev: "last_or ?ys None = (if 0 < k then Some (blocks ! (k - 1)) else None)"
    using assms(2) by (auto simp: last_or_def last_conv_nth min_def)
  have "next": "first_or ?zs None = (if k < length blocks - 1 then Some (blocks ! (k + 1)) else None)"
    using assms(2) Cons_nth_drop_Suc [of "Suc k" blocks] by (auto simp: first_or_def split: list.splits)
  have take: "take (Suc k) blocks = ?ys @ [?b]" and drop: "drop k blocks = ?b # ?zs"
    using assms(2) by (simp_all add: take_Suc_conv_app_nth Cons_nth_drop_Suc)
  have pointers: "prev_free_block (st' ?b) = last_or ?ys None"
    "next_free_block (st' ?b) = first_or ?zs None"
    using assms(4) fresh by (simp_all add: st'_def prev "next" Let_def)
  have other: "prev_free_block (st' x) = prev_free_block (st x)"
    "next_free_block (st' x) = next_free_block (st x)" if "x \<noteq> ?b" for x
    using that by (simp_all add: st'_def Let_def)
  have "seg st' None ?ys (Some ?b)"
    using assms(3) fresh seg_cong [of ?ys st' st None "Some ?b"] other unfolding drop
    by (metis first_or_simps(2))
  then show "seg st' None (take (Suc k) blocks) (first_or ?zs None)"
    using pointers unfolding take by simp
  show "\<forall>b. b \<notin> set (take (Suc k) blocks) \<longrightarrow>
      prev_free_block (st' b) = None \<and> next_free_block (st' b) = None"
    using assms(4) other unfolding take by simp
qed

lemma link_blocks_rep:
  assumes "distinct blocks" "k \<le> length blocks"
    and "\<forall>b. prev_free_block (st b) = None \<and> next_free_block (st b) = None"
  defines "st' \<equiv> link_blocks blocks [0..<k] st"
  shows "seg st' None (take k blocks) (first_or (drop k blocks) None) \<and>
    (\<forall>b. b \<notin> set (take k blocks) \<longrightarrow>
      prev_free_block (st' b) = None \<and> next_free_block (st' b) = None)"
  unfolding st'_def using assms(2)
proof (induction k)
  case 0
  then show ?case using assms(3) by simp
next
  case (Suc k)
  then show ?case
    using link_step [OF assms(1), of k "link_blocks blocks [0..<k] st"]
    by (simp add: link_blocks_append del: link_blocks.simps(2))
qed

lemma link_blocks_payload: "same_payload st (link_blocks blocks is st)"
proof (induction "is" arbitrary: st)
  case (Cons i "is")
  have "same_payload st (link_blocks blocks [i] st)" by (simp add: Let_def)
  also have "same_payload (link_blocks blocks [i] st) (link_blocks blocks (i # is) st)"
    using Cons [of "link_blocks blocks [i] st"] by (simp add: Let_def)
  finally show ?case .
qed simp

lemma init_free_queue_rep:
  assumes "distinct blocks" "blocks \<noteq> []"
    and "\<forall>b. prev_free_block (st b) = None \<and> next_free_block (st b) = None"
  shows "\<exists>sq. init_free_queue blocks st = Inr sq \<and> fq_rep sq blocks \<and> same_payload st (fst sq)"
  using link_blocks_rep [OF assms(1) _ assms(3), of "length blocks"] assms(1,2)
    link_blocks_payload [of st blocks]
  by (auto simp: init_free_queue_def fq_rep_def first_or_def last_or_def split: list.splits)

section \<open>The interface of the block pool\<close>

text \<open>
  A queue of block ids with reference counts beside it: \<open>rep q xs\<close> says that \<open>q\<close> holds the ids
  \<open>xs\<close> in order. The operations keep the counts, and writing a count keeps the queue.
\<close>

locale block_queue =
  fixes rep :: "'q \<Rightarrow> nat list \<Rightarrow> bool"
    and pop :: "'q \<Rightarrow> (nat \<times> 'q) res"
    and rm :: "nat \<Rightarrow> 'q \<Rightarrow> 'q"
    and app :: "nat \<Rightarrow> 'q \<Rightarrow> 'q res"
    and count :: "'q \<Rightarrow> int"
    and ref :: "'q \<Rightarrow> nat \<Rightarrow> int"
    and set_ref :: "nat \<Rightarrow> int \<Rightarrow> 'q \<Rightarrow> 'q"
  assumes pop_law: "rep q (b # xs) \<Longrightarrow> \<exists>q'. pop q = Inr (b, q') \<and> rep q' xs \<and> ref q' = ref q"
    and pop_empty: "rep q [] \<Longrightarrow> pop q = Inl ValueError"
    and rm_law: "rep q xs \<Longrightarrow> b \<in> set xs \<Longrightarrow> rep (rm b q) (remove1 b xs) \<and> ref (rm b q) = ref q"
    and app_law: "rep q xs \<Longrightarrow> b \<notin> set xs \<Longrightarrow>
      \<exists>q'. app b q = Inr q' \<and> rep q' (xs @ [b]) \<and> ref q' = ref q"
    and count_law: "rep q xs \<Longrightarrow> count q = int (length xs)"
    and distinct_law: "rep q xs \<Longrightarrow> distinct xs"
    and set_ref_rep: "rep (set_ref b v q) xs = rep q xs"
    and set_ref_ref: "ref (set_ref b v q) = (ref q)(b := v)"
begin

text \<open>The queue holds exactly the unreferenced blocks of \<open>A\<close>, and no count is negative.\<close>

definition balanced :: "nat set \<Rightarrow> 'q \<Rightarrow> bool" where
  "balanced A q \<longleftrightarrow>
     (\<exists>xs. rep q xs \<and> set xs = {b \<in> A. ref q b = 0}) \<and> (\<forall>b \<in> A. 0 \<le> ref q b)"

text \<open>The two ways a reference is taken, and the one it is released.\<close>

definition acquire :: "nat set \<Rightarrow> nat \<Rightarrow> 'q \<Rightarrow> 'q" where
  "acquire A b q =
     (let q' = (if ref q b = 0 \<and> b \<in> A then rm b q else q) in set_ref b (ref q' b + 1) q')"

definition release :: "nat set \<Rightarrow> nat \<Rightarrow> 'q \<Rightarrow> 'q res" where
  "release A b q =
     (let q' = set_ref b (ref q b - 1) q
      in if ref q' b = 0 \<and> b \<in> A then app b q' else Inr q')"

lemma balanced_count:
  "balanced A q \<Longrightarrow> finite A \<Longrightarrow> count q = int (card {b \<in> A. ref q b = 0})"
  by (metis (no_types, lifting) balanced_def count_law distinct_card distinct_law)

lemma balanced_acquire:
  assumes "balanced A q"
  shows "balanced A (acquire A b q) \<and> ref (acquire A b q) = (ref q)(b := ref q b + 1)"
proof -
  obtain xs where xs: "rep q xs" "set xs = {b \<in> A. ref q b = 0}" "\<forall>b \<in> A. 0 \<le> ref q b"
    using assms by (auto simp: balanced_def)
  show ?thesis
  proof (cases "ref q b = 0 \<and> b \<in> A")
    case True
    then have "b \<in> set xs" using xs by simp
    note law = rm_law [OF xs(1) this]
    have acq: "acquire A b q = set_ref b (ref q b + 1) (rm b q)"
      using True law by (simp add: acquire_def Let_def)
    have "set (remove1 b xs) = {x \<in> A. ((ref q)(b := ref q b + 1)) x = 0}"
      using True xs(2) distinct_law [OF xs(1)] by auto
    moreover have "rep (acquire A b q) (remove1 b xs)"
      "ref (acquire A b q) = (ref q)(b := ref q b + 1)"
      using law by (simp_all add: acq set_ref_rep set_ref_ref)
    ultimately show ?thesis
      using xs(3) by (auto simp: balanced_def)
  next
    case False
    then have acq: "acquire A b q = set_ref b (ref q b + 1) q"
      by (auto simp: acquire_def)
    have "b \<in> A \<longrightarrow> 0 < ref q b" using False xs(3) by (auto simp: less_le)
    then have "x \<in> A \<and> ref q x = 0 \<longleftrightarrow> x \<in> A \<and> ((ref q)(b := ref q b + 1)) x = 0" for x
      by (cases "x = b") auto
    then have "set xs = {x \<in> A. ((ref q)(b := ref q b + 1)) x = 0}"
      unfolding xs(2) by blast
    moreover have "rep (acquire A b q) xs"
      "ref (acquire A b q) = (ref q)(b := ref q b + 1)"
      using xs(1) by (simp_all add: acq set_ref_rep set_ref_ref)
    ultimately show ?thesis
      using xs(3) by (auto simp: balanced_def)
  qed
qed

lemma balanced_release:
  assumes "balanced A q" "b \<in> A \<longrightarrow> 0 < ref q b"
  shows "\<exists>q'. release A b q = Inr q' \<and> balanced A q' \<and> ref q' = (ref q)(b := ref q b - 1)"
proof -
  obtain xs where xs: "rep q xs" "set xs = {b \<in> A. ref q b = 0}" "\<forall>b \<in> A. 0 \<le> ref q b"
    using assms(1) by (auto simp: balanced_def)
  define q1 where "q1 = set_ref b (ref q b - 1) q"
  have q1: "rep q1 xs" "ref q1 = (ref q)(b := ref q b - 1)"
    using xs(1) by (simp_all add: q1_def set_ref_rep set_ref_ref)
  show ?thesis
  proof (cases "ref q1 b = 0 \<and> b \<in> A")
    case True
    then have "b \<notin> set xs" using assms(2) xs(2) by auto
    from app_law [OF q1(1) this] obtain q' where
      q': "app b q1 = Inr q'" "rep q' (xs @ [b])" "ref q' = ref q1" by blast
    have "set (xs @ [b]) = {x \<in> A. ref q' x = 0}"
      using True q' q1(2) xs(2) by auto
    moreover have "\<forall>x \<in> A. 0 \<le> ref q' x"
      using True q' q1(2) xs(3) by auto
    ultimately have "balanced A q'" using q'(2) by (auto simp: balanced_def)
    moreover have "release A b q = app b q1"
      using True by (simp add: release_def Let_def q1_def)
    ultimately show ?thesis using q' q1(2) by simp
  next
    case False
    then have "release A b q = Inr q1"
      by (auto simp: release_def Let_def q1_def)
    moreover have "set xs = {x \<in> A. ref q1 x = 0}"
      using False q1(2) xs(2) assms(2) by auto
    moreover have "\<forall>x \<in> A. 0 \<le> ref q1 x"
      using False q1(2) xs(3) assms(2) by auto
    ultimately show ?thesis using q1 by (auto simp: balanced_def)
  qed
qed

lemma balanced_pop:
  assumes "balanced A q" "0 < count q"
  shows "\<exists>b q'. pop q = Inr (b, q') \<and> b \<in> A \<and> ref q b = 0 \<and> ref q' = ref q \<and>
    balanced A (set_ref b 1 q')"
proof -
  obtain xs where xs: "rep q xs" "set xs = {b \<in> A. ref q b = 0}" "\<forall>b \<in> A. 0 \<le> ref q b"
    using assms(1) by (auto simp: balanced_def)
  with assms(2) obtain b ys where ys: "xs = b # ys"
    using count_law [OF xs(1)] by (cases xs) auto
  obtain q' where q': "pop q = Inr (b, q')" "rep q' ys" "ref q' = ref q"
    using pop_law xs(1) unfolding ys by blast
  have "set ys = {x \<in> A. ((ref q)(b := 1)) x = 0}"
    using xs(2) distinct_law [OF xs(1)] by (auto simp: ys)
  moreover have "rep (set_ref b 1 q') ys" "ref (set_ref b 1 q') = (ref q)(b := 1)"
    using q' by (simp_all add: set_ref_rep set_ref_ref)
  ultimately have "balanced A (set_ref b 1 q')"
    using xs(3) by (auto simp: balanced_def)
  with q' xs(2) show ?thesis by (auto simp: ys)
qed

end

text \<open>Blocks also carry labels (their id and hash) that no operation of the queue writes.\<close>

locale labelled_queue = block_queue rep pop rm app count ref set_ref
  for rep :: "'q \<Rightarrow> nat list \<Rightarrow> bool"
    and pop :: "'q \<Rightarrow> (nat \<times> 'q) res"
    and rm :: "nat \<Rightarrow> 'q \<Rightarrow> 'q"
    and app :: "nat \<Rightarrow> 'q \<Rightarrow> 'q res"
    and count :: "'q \<Rightarrow> int"
    and ref :: "'q \<Rightarrow> nat \<Rightarrow> int"
    and set_ref :: "nat \<Rightarrow> int \<Rightarrow> 'q \<Rightarrow> 'q" +
  fixes label :: "'q \<Rightarrow> nat \<Rightarrow> 'l"
  assumes pop_label: "pop q = Inr (b, q') \<Longrightarrow> label q' = label q"
    and rm_label: "label (rm b q) = label q"
    and app_label: "app b q = Inr q' \<Longrightarrow> label q' = label q"
    and set_ref_label: "label (set_ref b v q) = label q"
begin

lemma acquire_label: "label (acquire A b q) = label q"
  by (simp add: acquire_def Let_def rm_label set_ref_label)

lemma release_label: "release A b q = Inr q' \<Longrightarrow> label q' = label q"
  by (auto simp: release_def Let_def set_ref_label dest: app_label split: if_splits)

end

text \<open>The linked list in the store provides the interface.\<close>

definition q_ref :: "queue_state \<Rightarrow> nat \<Rightarrow> int" where
  "q_ref sq b = ref_cnt (fst sq b)"

definition q_set_ref :: "nat \<Rightarrow> int \<Rightarrow> queue_state \<Rightarrow> queue_state" where
  "q_set_ref b v sq = ((fst sq)(b := (fst sq b)\<lparr>ref_cnt := v\<rparr>), snd sq)"

lemma same_payload_ref: "same_payload (fst sq) (fst sq') \<Longrightarrow> q_ref sq' = q_ref sq"
  by (auto simp: same_payload_def q_ref_def)

lemma fq_rep_set_ref: "fq_rep (q_set_ref b v sq) xs = fq_rep sq xs"
  using fq_rep_pointers [of "fst sq" "snd sq" xs "fst (q_set_ref b v sq)"]
    fq_rep_pointers [of "fst (q_set_ref b v sq)" "snd sq" xs "fst sq"]
  by (auto simp: q_set_ref_def)

interpretation bq: block_queue fq_rep fq_popleft fq_remove fq_append
    "\<lambda>sq. num_free_blocks (snd sq)" q_ref q_set_ref
proof unfold_locales
  fix sq b xs
  show "fq_rep sq (b # xs) \<Longrightarrow>
      \<exists>sq'. fq_popleft sq = Inr (b, sq') \<and> fq_rep sq' xs \<and> q_ref sq' = q_ref sq"
    using fq_popleft_rep fq_remove_payload same_payload_ref by blast
next
  fix sq xs and b :: nat
  show "fq_rep sq xs \<Longrightarrow> b \<notin> set xs \<Longrightarrow>
      \<exists>sq'. fq_append b sq = Inr sq' \<and> fq_rep sq' (xs @ [b]) \<and> q_ref sq' = q_ref sq"
    using fq_append_rep same_payload_ref by blast
next
  fix sq xs and b :: nat
  show "fq_rep sq xs \<Longrightarrow> b \<in> set xs \<Longrightarrow>
      fq_rep (fq_remove b sq) (remove1 b xs) \<and> q_ref (fq_remove b sq) = q_ref sq"
    using fq_remove_rep same_payload_ref [OF fq_remove_payload] by blast
next
  fix b v sq xs
  show "fq_rep (q_set_ref b v sq) xs = fq_rep sq xs" by (rule fq_rep_set_ref)
  show "q_ref (q_set_ref b v sq) = (q_ref sq)(b := v)"
    by (auto simp: q_ref_def q_set_ref_def)
qed (auto simp: fq_popleft_empty fq_rep_count fq_rep_distinct py_len_def)

definition q_label :: "queue_state \<Rightarrow> nat \<Rightarrow> nat \<times> block_hash_type option" where
  "q_label sq b = (block_id (fst sq b), block_hash (fst sq b))"

lemma same_payload_label: "same_payload (fst sq) (fst sq') \<Longrightarrow> q_label sq' = q_label sq"
  by (auto simp: same_payload_def q_label_def)

lemma fq_append_payload: "fq_append b sq = Inr sq' \<Longrightarrow> same_payload (fst sq) (fst sq')"
  by (auto simp: fq_append_def Let_def res_simps split: option.splits)

interpretation lq: labelled_queue fq_rep fq_popleft fq_remove fq_append
    "\<lambda>sq. num_free_blocks (snd sq)" q_ref q_set_ref q_label
proof unfold_locales
  fix sq sq' b
  show "fq_popleft sq = Inr (b, sq') \<Longrightarrow> q_label sq' = q_label sq"
    by (auto simp: fq_popleft_def same_payload_label [OF fq_remove_payload] split: option.splits)
  show "q_label (fq_remove b sq) = q_label sq"
    by (rule same_payload_label [OF fq_remove_payload])
  show "fq_append b sq = Inr sq' \<Longrightarrow> q_label sq' = q_label sq"
    by (rule same_payload_label [OF fq_append_payload])
  show "q_label (q_set_ref b v sq) = q_label sq" for v
    by (auto simp: q_label_def q_set_ref_def)
qed

section \<open>Properties\<close>

text \<open>
  C26: the linked list of free blocks implements a queue from whose middle blocks can be removed.
  When it represents a list, the traversal returns that list and the count its length;
  \<open>popleft\<close> returns the first block, or raises on the empty queue; \<open>remove\<close> of a member
  leaves the others in order, and \<open>append\<close> puts a block that is not in the queue at its end.
\<close>

theorem free_queue_refines_list:
  assumes "fq_rep sq xs"
  shows "get_all_free_blocks sq = Some xs \<and> num_free_blocks (snd sq) = py_len xs \<and>
    (case xs of
       [] \<Rightarrow> fq_popleft sq = Inl ValueError
     | b # ys \<Rightarrow> \<exists>sq'. fq_popleft sq = Inr (b, sq') \<and> fq_rep sq' ys) \<and>
    (\<forall>b \<in> set xs. fq_rep (fq_remove b sq) (remove1 b xs)) \<and>
    (\<forall>b. b \<notin> set xs \<longrightarrow> (\<exists>sq'. fq_append b sq = Inr sq' \<and> fq_rep sq' (xs @ [b])))"
proof (intro conjI allI impI ballI)
  show "case xs of
       [] \<Rightarrow> fq_popleft sq = Inl ValueError
     | b # ys \<Rightarrow> \<exists>sq'. fq_popleft sq = Inr (b, sq') \<and> fq_rep sq' ys"
    using assms fq_popleft_rep fq_popleft_empty by (cases xs) auto
  show "\<exists>sq'. fq_append b sq = Inr sq' \<and> fq_rep sq' (xs @ [b])" if "b \<notin> set xs" for b
    using fq_append_rep [OF assms that] by blast
qed (use assms get_all_free_blocks_rep fq_rep_count fq_remove_rep in simp_all)

theorem free_queue_refines_list_witness:
  "\<exists>sq sq'. init_free_queue [0, 1, 2] new_block = Inr sq \<and>
     fq_append 1 (fq_remove 1 sq) = Inr sq' \<and>
     get_all_free_blocks sq' = Some [0, 2, 1]"
proof -
  obtain sq where sq: "init_free_queue [0, 1, 2] new_block = Inr sq" "fq_rep sq [0, 1, 2]"
    using init_free_queue_rep [of "[0, 1, 2]" new_block] by (auto simp: new_block_def)
  have "fq_rep (fq_remove 1 sq) [0, 2]"
    using free_queue_refines_list [OF sq(2)] by simp
  moreover have "1 \<notin> set [0, 2 :: nat]" by simp
  ultimately obtain sq' where
    sq': "fq_append 1 (fq_remove 1 sq) = Inr sq'" "fq_rep sq' ([0, 2] @ [1])"
    using free_queue_refines_list [of "fq_remove 1 sq" "[0, 2]"] by blast
  have "get_all_free_blocks sq' = Some ([0, 2] @ [1])"
    using free_queue_refines_list [OF sq'(2)] by blast
  with sq(1) sq'(1) show ?thesis
    by (intro exI [of _ sq] exI [of _ sq']) simp
qed

end
