(* ===== verification/BlockPool.thy ===== *)
theory BlockPool
  imports FreeQueue
begin

text \<open>
  The pool of KV blocks (\<open>BlockPool\<close> of \<open>spexis/v1/core/block_pool.py\<close>): the store of blocks,
  the queue of free ones, the map from block hashes to cached blocks, and the null block.
  The pool's lemmas rest on the interface \<open>block_queue\<close> of the free queue: every operation
  keeps the queue to exactly the unreferenced blocks, and the two directions of the prefix
  cache (the hash a block carries, the blocks listed under a hash) consistent.
\<close>

section \<open>State\<close>

text \<open>
  The value of \<open>cached_block_hash_to_block\<close> at a hash is a dictionary from block ids to
  blocks; it is observed in insertion order, so it is an association list.
\<close>

record block_pool =
  num_gpu_blocks :: nat
  enable_caching :: bool
  bp_blocks :: store
  free_block_queue :: free_queue
  cached_block_hash_to_block :: "block_hash_type \<Rightarrow> (nat \<times> nat) list option"
  null_block :: nat

definition pool_queue :: "block_pool \<Rightarrow> queue_state" where
  "pool_queue p = (bp_blocks p, free_block_queue p)"

definition with_queue :: "queue_state \<Rightarrow> block_pool \<Rightarrow> block_pool" where
  "with_queue sq p = p\<lparr>bp_blocks := fst sq, free_block_queue := snd sq\<rparr>"

definition init_block_pool :: "nat \<Rightarrow> bool \<Rightarrow> block_pool res" where
  "init_block_pool n caching =
     ebind (py_assert (0 < n)) (\<lambda>_.
     ebind (init_free_queue [0..<n] new_block) (\<lambda>sq.
     ebind (fq_popleft sq) (\<lambda>(b, sq').
     Inr \<lparr>num_gpu_blocks = n, enable_caching = caching, bp_blocks = fst sq',
       free_block_queue = snd sq', cached_block_hash_to_block = (\<lambda>_. None),
       null_block = b\<rparr>)))"

section \<open>Operations\<close>

definition get_num_free_blocks :: "block_pool \<Rightarrow> int" where
  "get_num_free_blocks p = num_free_blocks (free_block_queue p)"

definition get_usage :: "(rat \<Rightarrow> rat) \<Rightarrow> block_pool \<Rightarrow> rat" where
  "get_usage fl p =
     fl (1 - fl (of_int (get_num_free_blocks p) / of_nat (num_gpu_blocks p)))"

definition get_cached_block :: "block_pool \<Rightarrow> block_hash_type \<Rightarrow> nat option" where
  "get_cached_block p h =
     (case cached_block_hash_to_block p h of
        None \<Rightarrow> None
      | Some [] \<Rightarrow> None
      | Some ((first_block_id, b) # _) \<Rightarrow> Some b)"

definition maybe_evict_cached_block :: "nat \<Rightarrow> block_pool \<Rightarrow> (bool \<times> block_pool) res" where
  "maybe_evict_cached_block b p =
     (case block_hash (bp_blocks p b) of
        None \<Rightarrow> Inr (False, p)
      | Some h \<Rightarrow>
          (case cached_block_hash_to_block p h of
             None \<Rightarrow> Inr (False, p)
           | Some d \<Rightarrow>
               (let p1 = p\<lparr>bp_blocks := reset_hash b (bp_blocks p)\<rparr> in
                if b \<notin> fst ` set d then Inl KeyError
                else (let d' = AList.delete b d in
                  Inr (True, p1\<lparr>cached_block_hash_to_block :=
                    (cached_block_hash_to_block p1)
                      (h := if d' = [] then None else Some d')\<rparr>)))))"

fun new_blocks_loop :: "nat \<Rightarrow> block_pool \<Rightarrow> (nat list \<times> block_pool) res" where
  "new_blocks_loop 0 p = Inr ([], p)"
| "new_blocks_loop (Suc n) p =
     ebind (fq_popleft (pool_queue p)) (\<lambda>(b, sq).
     (let p1 = with_queue sq p in
      ebind (py_assert (ref_cnt (bp_blocks p1 b) = 0)) (\<lambda>_.
      ebind (if enable_caching p1 then ebind (maybe_evict_cached_block b p1) (\<lambda>x. Inr (snd x))
             else Inr p1) (\<lambda>p2.
      ebind (new_blocks_loop n (p2\<lparr>bp_blocks := incr_ref b (bp_blocks p2)\<rparr>)) (\<lambda>(bs, p3).
      Inr (b # bs, p3))))))"

definition get_new_blocks :: "int \<Rightarrow> block_pool \<Rightarrow> (nat list \<times> block_pool) res" where
  "get_new_blocks num_blocks p =
     (if get_num_free_blocks p < num_blocks then Inl ValueError
      else new_blocks_loop (nat num_blocks) p)"

definition touch_block :: "nat \<Rightarrow> block_pool \<Rightarrow> block_pool" where
  "touch_block b p =
     (let p1 = (if ref_cnt (bp_blocks p b) = 0 \<and> b \<noteq> null_block p
                then with_queue (fq_remove b (pool_queue p)) p else p)
      in p1\<lparr>bp_blocks := incr_ref b (bp_blocks p1)\<rparr>)"

definition touch :: "nat list \<Rightarrow> block_pool \<Rightarrow> block_pool" where
  "touch bs p = fold touch_block bs p"

definition free_block :: "nat \<Rightarrow> block_pool \<Rightarrow> block_pool res" where
  "free_block b p =
     (let p1 = p\<lparr>bp_blocks := decr_ref b (bp_blocks p)\<rparr> in
      if ref_cnt (bp_blocks p1 b) = 0 \<and> b \<noteq> null_block p1
      then ebind (fq_append b (pool_queue p1)) (\<lambda>sq. Inr (with_queue sq p1))
      else Inr p1)"

definition free_blocks :: "nat list \<Rightarrow> block_pool \<Rightarrow> block_pool res" where
  "free_blocks bs p = efold free_block bs p"

definition reset_pool_cache :: "block_pool \<Rightarrow> bool \<times> block_pool" where
  "reset_pool_cache p =
     (let num_used_blocks = int (num_gpu_blocks p) - get_num_free_blocks p in
      if num_used_blocks \<noteq> 1 then (False, p)
      else (True, p\<lparr>cached_block_hash_to_block := (\<lambda>_. None),
             bp_blocks := fold reset_hash [0..<num_gpu_blocks p] (bp_blocks p)\<rparr>))"

text \<open>
  The loop of \<open>cache_full_blocks\<close>: \<open>i\<close> counts the new full blocks, \<open>prev\<close> is the hash value of
  the block before; computed hashes are appended to the request's \<open>hashes\<close>.
\<close>

fun cache_full_loop ::
  "(hash_input \<Rightarrow> int) \<Rightarrow> int \<Rightarrow> request \<Rightarrow> int \<Rightarrow> int \<Rightarrow> block_hash_type list \<Rightarrow> nat \<Rightarrow>
   nat list \<Rightarrow> int option \<Rightarrow> block_hash_type list \<Rightarrow> block_pool \<Rightarrow>
   (block_hash_type list \<times> block_pool) res" where
  "cache_full_loop hash_fn none_hash r block_size num_cached new_hashes i [] prev hashes p =
     Inr (hashes, p)"
| "cache_full_loop hash_fn none_hash r block_size num_cached new_hashes i (blk # blks) prev
     hashes p =
     ebind (py_assert (block_hash (bp_blocks p blk) = None)) (\<lambda>_.
     ebind (if i < length new_hashes then Inr (new_hashes ! i, hashes)
            else (let blk_idx = num_cached + int i;
                      start_idx = blk_idx * block_size;
                      end_idx = (blk_idx + 1) * block_size;
                      tokens = py_slice (all_token_ids r) start_idx end_idx
                  in ebind (py_assert (py_len tokens = block_size)) (\<lambda>_.
                     ebind (generate_block_hash_extra_keys r start_idx end_idx (- 1)) (\<lambda>(keys, _).
                     (let h = hash_block_tokens hash_fn none_hash prev tokens keys
                      in Inr (h, hashes @ [h])))))) (\<lambda>(h, hashes').
     ebind (set_block_hash blk h (bp_blocks p)) (\<lambda>st.
     (let d = (case cached_block_hash_to_block p h of None \<Rightarrow> [] | Some d \<Rightarrow> d);
          p' = p\<lparr>bp_blocks := st, cached_block_hash_to_block :=
                 (cached_block_hash_to_block p)
                   (h := Some (AList.update (block_id (st blk)) blk d))\<rparr>
      in cache_full_loop hash_fn none_hash r block_size num_cached new_hashes (Suc i) blks
           (Some (hash_value h)) hashes' p'))))"

definition cache_full_blocks ::
  "(hash_input \<Rightarrow> int) \<Rightarrow> int \<Rightarrow> request \<Rightarrow> nat list \<Rightarrow> block_hash_type list \<Rightarrow> int \<Rightarrow> int \<Rightarrow>
   int \<Rightarrow> block_pool \<Rightarrow> (block_hash_type list \<times> block_pool) res" where
  "cache_full_blocks hash_fn none_hash r blocks hashes num_cached num_full block_size p =
     (if num_cached = num_full then Inr (hashes, p)
      else
        (let new_full_blocks = py_slice blocks num_cached num_full in
         ebind (py_assert (num_cached \<le> py_len hashes)) (\<lambda>_.
         (let new_hashes = py_from hashes num_cached in
          ebind (if num_cached = 0 then Inr None
                 else ebind (py_get blocks (num_cached - 1)) (\<lambda>prev_block.
                   case block_hash (bp_blocks p prev_block) of
                     None \<Rightarrow> Inl AssertionError
                   | Some h \<Rightarrow> Inr (Some (hash_value h)))) (\<lambda>prev.
          cache_full_loop hash_fn none_hash r block_size num_cached new_hashes 0
            new_full_blocks prev hashes p)))))"

section \<open>The invariant\<close>

text \<open>The blocks a request can hold: every block but the null block.\<close>

definition managed :: "block_pool \<Rightarrow> nat set" where
  "managed p = {1..<num_gpu_blocks p}"

text \<open>The two directions of the prefix cache agree.\<close>

definition entry_ok :: "block_pool \<Rightarrow> block_hash_type \<Rightarrow> (nat \<times> nat) list \<Rightarrow> bool" where
  "entry_ok p h d \<longleftrightarrow> d \<noteq> [] \<and> distinct (map fst d) \<and>
     (\<forall>(k, b) \<in> set d. k = b \<and> b \<in> managed p \<and> block_hash (bp_blocks p b) = Some h)"

definition cache_ok :: "block_pool \<Rightarrow> bool" where
  "cache_ok p \<longleftrightarrow>
     (\<forall>h d. cached_block_hash_to_block p h = Some d \<longrightarrow> entry_ok p h d) \<and>
     (\<forall>b h. block_hash (bp_blocks p b) = Some h \<longrightarrow>
        (\<exists>d. cached_block_hash_to_block p h = Some d \<and> b \<in> fst ` set d))"

definition pool_ok :: "block_pool \<Rightarrow> bool" where
  "pool_ok p \<longleftrightarrow>
     0 < num_gpu_blocks p \<and> null_block p = 0 \<and>
     (\<forall>b. block_id (bp_blocks p b) = b) \<and>
     bq.balanced (managed p) (pool_queue p) \<and> cache_ok p \<and>
     (\<not> enable_caching p \<longrightarrow> cached_block_hash_to_block p = (\<lambda>_. None))"

definition refs :: "block_pool \<Rightarrow> nat \<Rightarrow> int" where
  "refs p = q_ref (pool_queue p)"

lemma pool_queue_simps [simp]:
  "fst (pool_queue p) = bp_blocks p" "snd (pool_queue p) = free_block_queue p"
  "pool_queue (with_queue sq p) = sq"
  "managed (with_queue sq p) = managed p"
  by (simp_all add: pool_queue_def with_queue_def managed_def)

lemma with_queue_simps [simp]:
  "num_gpu_blocks (with_queue sq p) = num_gpu_blocks p"
  "enable_caching (with_queue sq p) = enable_caching p"
  "bp_blocks (with_queue sq p) = fst sq"
  "cached_block_hash_to_block (with_queue sq p) = cached_block_hash_to_block p"
  "null_block (with_queue sq p) = null_block p"
  by (simp_all add: with_queue_def)

lemma refs_eq: "refs p b = ref_cnt (bp_blocks p b)"
  by (simp add: refs_def q_ref_def)


text \<open>What the cache looks at: the labels of the blocks and the map.\<close>

lemma cache_ok_cong:
  "cached_block_hash_to_block p' = cached_block_hash_to_block p \<Longrightarrow> managed p' = managed p \<Longrightarrow>
   (\<And>b. block_hash (bp_blocks p' b) = block_hash (bp_blocks p b)) \<Longrightarrow>
   cache_ok p' = cache_ok p"
  by (simp add: cache_ok_def entry_ok_def)

definition same_static :: "block_pool \<Rightarrow> block_pool \<Rightarrow> bool" where
  "same_static p p' \<longleftrightarrow>
     num_gpu_blocks p' = num_gpu_blocks p \<and> enable_caching p' = enable_caching p \<and>
     null_block p' = null_block p"

lemma same_static_refl [simp]: "same_static p p"
  by (simp add: same_static_def)

lemma same_static_trans [trans]:
  "same_static p p' \<Longrightarrow> same_static p' p'' \<Longrightarrow> same_static p p''"
  by (simp add: same_static_def)

lemma same_static_with_queue [simp]: "same_static p (with_queue sq p)"
  by (simp add: same_static_def)

lemma same_static_managed: "same_static p p' \<Longrightarrow> managed p' = managed p"
  by (simp add: same_static_def managed_def)

text \<open>A pool whose queue changes without touching a label keeps everything but the queue.\<close>

lemma pool_ok_with_queue:
  assumes "pool_ok p" "bq.balanced (managed p) sq" "q_label sq = q_label (pool_queue p)"
  shows "pool_ok (with_queue sq p)"
proof -
  have label: "block_id (fst sq b) = block_id (bp_blocks p b)"
    "block_hash (fst sq b) = block_hash (bp_blocks p b)" for b
    using fun_cong [OF assms(3), of b] by (simp_all add: q_label_def)
  have "cache_ok (with_queue sq p) = cache_ok p"
    by (rule cache_ok_cong) (simp_all add: label)
  then show ?thesis
    using assms(1,2) label by (simp add: pool_ok_def)
qed

section \<open>Taking and releasing references\<close>

lemma touch_block_acquire:
  assumes "null_block p = 0" "b < num_gpu_blocks p"
  shows "touch_block b p = with_queue (bq.acquire (managed p) b (pool_queue p)) p"
proof -
  have "b \<noteq> null_block p \<longleftrightarrow> b \<in> managed p"
    using assms by (auto simp: managed_def)
  then show ?thesis
    by (simp add: touch_block_def bq.acquire_def Let_def with_queue_def incr_ref_def
        q_set_ref_def q_ref_def)
qed

lemma free_block_release:
  assumes "null_block p = 0" "b < num_gpu_blocks p"
  shows "free_block b p =
    ebind (bq.release (managed p) b (pool_queue p)) (\<lambda>sq. Inr (with_queue sq p))"
proof -
  have null: "b \<noteq> null_block p \<longleftrightarrow> b \<in> managed p"
    using assms by (auto simp: managed_def)
  define sq where "sq = q_set_ref b (q_ref (pool_queue p) b - 1) (pool_queue p)"
  have p1: "p\<lparr>bp_blocks := decr_ref b (bp_blocks p)\<rparr> = with_queue sq p"
    by (simp add: sq_def with_queue_def q_set_ref_def decr_ref_def q_ref_def)
  have "ref_cnt (fst sq b) = q_ref sq b" by (simp add: q_ref_def)
  moreover have "with_queue sq' (with_queue sq p) = with_queue sq' p" for sq'
    by (simp add: with_queue_def)
  ultimately show ?thesis
    using null by (simp add: free_block_def bq.release_def Let_def p1 flip: sq_def)
qed

lemma touch_block_ok:
  assumes "pool_ok p" "b < num_gpu_blocks p"
  shows "pool_ok (touch_block b p) \<and> refs (touch_block b p) = (refs p)(b := refs p b + 1) \<and>
    same_static p (touch_block b p) \<and>
    cached_block_hash_to_block (touch_block b p) = cached_block_hash_to_block p \<and>
    (\<forall>x. block_hash (bp_blocks (touch_block b p) x) = block_hash (bp_blocks p x))"
proof -
  have bal: "bq.balanced (managed p) (pool_queue p)" and null: "null_block p = 0"
    using assms(1) by (simp_all add: pool_ok_def)
  let ?sq = "bq.acquire (managed p) b (pool_queue p)"
  have eq: "touch_block b p = with_queue ?sq p"
    by (rule touch_block_acquire [OF null assms(2)])
  have lab: "q_label ?sq = q_label (pool_queue p)" by (rule lq.acquire_label)
  have "block_hash (fst ?sq x) = block_hash (bp_blocks p x)" for x
    using fun_cong [OF lab, of x] by (simp add: q_label_def)
  then show ?thesis
    using bq.balanced_acquire [OF bal, of b] pool_ok_with_queue [OF assms(1) _ lab]
    by (simp add: eq refs_def)
qed

lemma free_block_ok:
  assumes "pool_ok p" "b < num_gpu_blocks p" "b \<in> managed p \<longrightarrow> 0 < refs p b"
  shows "\<exists>p'. free_block b p = Inr p' \<and> pool_ok p' \<and>
    refs p' = (refs p)(b := refs p b - 1) \<and> same_static p p' \<and>
    cached_block_hash_to_block p' = cached_block_hash_to_block p \<and>
    (\<forall>x. block_hash (bp_blocks p' x) = block_hash (bp_blocks p x))"
proof -
  have bal: "bq.balanced (managed p) (pool_queue p)" and null: "null_block p = 0"
    using assms(1) by (simp_all add: pool_ok_def)
  from bq.balanced_release [OF bal] assms(3) obtain sq where
    sq: "bq.release (managed p) b (pool_queue p) = Inr sq" "bq.balanced (managed p) sq"
      "q_ref sq = (q_ref (pool_queue p))(b := q_ref (pool_queue p) b - 1)"
    unfolding refs_def by blast
  have lab: "q_label sq = q_label (pool_queue p)" by (rule lq.release_label [OF sq(1)])
  have "block_hash (fst sq x) = block_hash (bp_blocks p x)" for x
    using fun_cong [OF lab, of x] by (simp add: q_label_def)
  then show ?thesis
    using sq pool_ok_with_queue [OF assms(1) sq(2) lab]
    by (simp add: free_block_release [OF null assms(2)] refs_def)
qed

text \<open>Lists of blocks: every occurrence counts.\<close>

definition add_refs :: "(nat \<Rightarrow> int) \<Rightarrow> int \<Rightarrow> nat list \<Rightarrow> nat \<Rightarrow> int" where
  "add_refs f c bs = (\<lambda>b. f b + c * int (count_list bs b))"

lemma add_refs_Nil [simp]: "add_refs f c [] = f"
  by (simp add: add_refs_def)

lemma add_refs_Cons: "add_refs f c (b # bs) = add_refs (f(b := f b + c)) c bs"
  by (auto simp: add_refs_def fun_eq_iff algebra_simps)

definition same_cache :: "block_pool \<Rightarrow> block_pool \<Rightarrow> bool" where
  "same_cache p p' \<longleftrightarrow> cached_block_hash_to_block p' = cached_block_hash_to_block p \<and>
     (\<forall>x. block_hash (bp_blocks p' x) = block_hash (bp_blocks p x))"

lemma touch_ok:
  "pool_ok p \<Longrightarrow> \<forall>b \<in> set bs. b < num_gpu_blocks p \<Longrightarrow>
   pool_ok (touch bs p) \<and> refs (touch bs p) = add_refs (refs p) 1 bs \<and>
   same_static p (touch bs p) \<and> same_cache p (touch bs p)"
proof (induction bs arbitrary: p)
  case Nil
  then show ?case by (simp add: touch_def same_cache_def)
next
  case (Cons b bs)
  have step: "pool_ok (touch_block b p)" "refs (touch_block b p) = (refs p)(b := refs p b + 1)"
    "same_static p (touch_block b p)" "same_cache p (touch_block b p)"
    using touch_block_ok [of p b] Cons.prems by (auto simp: same_cache_def)
  have "\<forall>x \<in> set bs. x < num_gpu_blocks (touch_block b p)"
    using Cons.prems(2) step(3) by (simp add: same_static_def)
  from Cons.IH [OF step(1) this] step show ?case
    by (auto simp: touch_def add_refs_Cons same_cache_def fun_upd_def elim: same_static_trans)
qed

lemma free_blocks_ok:
  "pool_ok p \<Longrightarrow> \<forall>b \<in> set bs. b < num_gpu_blocks p \<Longrightarrow>
   \<forall>b \<in> managed p. int (count_list bs b) \<le> refs p b \<Longrightarrow>
   \<exists>p'. free_blocks bs p = Inr p' \<and> pool_ok p' \<and> refs p' = add_refs (refs p) (- 1) bs \<and>
     same_static p p' \<and> same_cache p p'"
proof (induction bs arbitrary: p)
  case Nil
  then show ?case by (simp add: free_blocks_def same_cache_def)
next
  case (Cons b bs)
  have "b \<in> managed p \<longrightarrow> 0 < refs p b"
    using Cons.prems(3) by fastforce
  then obtain p1 where p1: "free_block b p = Inr p1" "pool_ok p1"
    "refs p1 = (refs p)(b := refs p b - 1)" "same_static p p1" "same_cache p p1"
    using free_block_ok [of p b] Cons.prems by (auto simp: same_cache_def)
  have "\<forall>x \<in> set bs. x < num_gpu_blocks p1"
    using Cons.prems(2) p1(4) by (simp add: same_static_def)
  moreover have "\<forall>x \<in> managed p1. int (count_list bs x) \<le> refs p1 x"
    using Cons.prems(3) p1(3) same_static_managed [OF p1(4)] by fastforce
  ultimately obtain p' where "free_blocks bs p1 = Inr p'" "pool_ok p'"
    "refs p' = add_refs (refs p1) (- 1) bs" "same_static p1 p'" "same_cache p1 p'"
    using Cons.IH [OF p1(2)] by blast
  with p1 show ?case
    by (auto simp: free_blocks_def add_refs_Cons same_cache_def elim: same_static_trans)
qed

section \<open>Taking new blocks\<close>

text \<open>Evicting a block clears its hash and its entry, and nothing else.\<close>

lemma maybe_evict_ok:
  assumes "cache_ok p"
  shows "\<exists>e c. maybe_evict_cached_block b p =
      Inr (e, p\<lparr>bp_blocks := reset_hash b (bp_blocks p), cached_block_hash_to_block := c\<rparr>) \<and>
    cache_ok (p\<lparr>bp_blocks := reset_hash b (bp_blocks p), cached_block_hash_to_block := c\<rparr>) \<and>
    (cached_block_hash_to_block p = (\<lambda>_. None) \<longrightarrow> c = (\<lambda>_. None))"
proof (cases "block_hash (bp_blocks p b)")
  case None
  then have "reset_hash b (bp_blocks p) = bp_blocks p"
    by (auto simp: reset_hash_def)
  then show ?thesis
    using assms None
    by (intro exI [of _ False] exI [of _ "cached_block_hash_to_block p"])
      (simp add: maybe_evict_cached_block_def)
next
  case (Some h)
  then obtain d where d: "cached_block_hash_to_block p h = Some d" "b \<in> fst ` set d"
    using assms Some unfolding cache_ok_def by blast
  define d' where "d' = AList.delete b d"
  define c where "c = (cached_block_hash_to_block p)(h := if d' = [] then None else Some d')"
  let ?p = "p\<lparr>bp_blocks := reset_hash b (bp_blocks p), cached_block_hash_to_block := c\<rparr>"
  have eq: "maybe_evict_cached_block b p = Inr (True, ?p)"
    using Some d by (simp add: maybe_evict_cached_block_def Let_def c_def d'_def)
  have keys: "fst ` set d' = fst ` set d - {b}" and sub: "set d' \<subseteq> set d"
    by (auto simp: d'_def AList.delete_eq)
  have dist: "distinct (map fst d) \<Longrightarrow> distinct (map fst d')"
    by (simp add: d'_def AList.delete_eq distinct_map_filter)
  have elem: "k = x \<and> x \<in> managed p \<and> block_hash (bp_blocks p x) = Some g"
    if "cached_block_hash_to_block p g = Some e" "(k, x) \<in> set e" for g e k x
    using assms that unfolding cache_ok_def entry_ok_def by fast
  have "cache_ok ?p"
    unfolding cache_ok_def
  proof (intro conjI allI impI)
    fix g e assume g: "cached_block_hash_to_block ?p g = Some e"
    have "e \<noteq> [] \<and> distinct (map fst e)"
    proof (cases "g = h")
      case True
      moreover have "entry_ok p h d" using assms d(1) by (simp add: cache_ok_def)
      ultimately show ?thesis
        using g dist by (auto simp: c_def entry_ok_def split: if_splits)
    next
      case False
      then have "entry_ok p g e" using g assms by (simp add: c_def cache_ok_def)
      then show ?thesis by (simp add: entry_ok_def)
    qed
    moreover have "\<forall>(k, x) \<in> set e. k = x \<and> x \<in> managed ?p \<and> block_hash (bp_blocks ?p x) = Some g"
    proof safe
      fix k x assume kx: "(k, x) \<in> set e"
      have "k \<noteq> b \<and> (\<exists>e'. cached_block_hash_to_block p g = Some e' \<and> (k, x) \<in> set e')"
      proof (cases "g = h")
        case True
        then have "e = d'" using g by (auto simp: c_def split: if_splits)
        then show ?thesis using kx keys sub d(1) True by force
      next
        case False
        then have "cached_block_hash_to_block p g = Some e" using g by (simp add: c_def)
        moreover from elem [OF this kx] have "k \<noteq> b" using Some False by auto
        ultimately show ?thesis using kx by blast
      qed
      then obtain e' where ne: "k \<noteq> b" and e': "cached_block_hash_to_block p g = Some e'"
        "(k, x) \<in> set e'" by blast
      from elem [OF e'] have "k = x \<and> x \<in> managed p \<and> block_hash (bp_blocks p x) = Some g" .
      then show "k = x" "x \<in> managed ?p" "block_hash (bp_blocks ?p x) = Some g"
        using ne by (simp_all add: managed_def)
    qed
    ultimately show "entry_ok ?p g e" by (simp add: entry_ok_def)
  next
    fix x g assume "block_hash (bp_blocks ?p x) = Some g"
    then have "x \<noteq> b" "block_hash (bp_blocks p x) = Some g" by (auto split: if_splits)
    moreover from this obtain e where "cached_block_hash_to_block p g = Some e" "x \<in> fst ` set e"
      using assms unfolding cache_ok_def by blast
    ultimately show "\<exists>e. cached_block_hash_to_block ?p g = Some e \<and> x \<in> fst ` set e"
      using keys d(1) by (cases "g = h") (auto simp: c_def)
  qed
  with eq d show ?thesis by auto
qed

lemma balanced_same:
  assumes "bq.balanced A sq"
    and "\<And>b. prev_free_block (st b) = prev_free_block (fst sq b)"
    and "\<And>b. next_free_block (st b) = next_free_block (fst sq b)"
    and "\<And>b. ref_cnt (st b) = ref_cnt (fst sq b)"
  shows "bq.balanced A (st, snd sq)"
proof -
  have "fq_rep (st, snd sq) xs" if "fq_rep sq xs" for xs
    using fq_rep_pointers [of "fst sq" "snd sq" xs st] that assms(2,3) by simp
  moreover have "q_ref (st, snd sq) = q_ref sq"
    using assms(4) by (auto simp: q_ref_def)
  ultimately show ?thesis
    using assms(1) by (auto simp: bq.balanced_def)
qed

text \<open>The queue counts the unreferenced blocks.\<close>

lemma num_free_card:
  "pool_ok p \<Longrightarrow> get_num_free_blocks p = int (card {b \<in> managed p. refs p b = 0})"
  using bq.balanced_count [of "managed p" "pool_queue p"]
  by (simp add: pool_ok_def get_num_free_blocks_def refs_def managed_def)

text \<open>One iteration of the loop of \<open>get_new_blocks\<close>.\<close>

lemma new_blocks_step:
  assumes "pool_ok p" "0 < get_num_free_blocks p"
  shows "\<exists>b p'. b \<in> managed p \<and> refs p b = 0 \<and>
    new_blocks_loop (Suc n) p =
      ebind (new_blocks_loop n p') (\<lambda>(bs, p''). Inr (b # bs, p'')) \<and>
    pool_ok p' \<and> refs p' = (refs p)(b := 1) \<and> same_static p p' \<and>
    (\<forall>x. x \<noteq> b \<longrightarrow> block_hash (bp_blocks p' x) = block_hash (bp_blocks p x)) \<and>
    block_hash (bp_blocks p' b) = None"
proof -
  have bal: "bq.balanced (managed p) (pool_queue p)" and cache: "cache_ok p"
    and free: "0 < num_free_blocks (snd (pool_queue p))"
    using assms by (simp_all add: pool_ok_def get_num_free_blocks_def)
  from bq.balanced_pop [OF bal free] obtain b sq where
    sq: "fq_popleft (pool_queue p) = Inr (b, sq)" "b \<in> managed p" "q_ref (pool_queue p) b = 0"
      "q_ref sq = q_ref (pool_queue p)" "bq.balanced (managed p) (q_set_ref b 1 sq)"
    by blast
  have lab: "q_label sq = q_label (pool_queue p)" by (rule lq.pop_label [OF sq(1)])
  have label: "block_id (fst sq x) = block_id (bp_blocks p x)"
    "block_hash (fst sq x) = block_hash (bp_blocks p x)"
    "ref_cnt (fst sq x) = ref_cnt (bp_blocks p x)" for x
    using fun_cong [OF lab, of x] fun_cong [OF sq(4), of x]
    by (simp_all add: q_label_def q_ref_def)
  let ?p1 = "with_queue sq p"
  have cache1: "cache_ok ?p1"
    using cache cache_ok_cong [of ?p1 p] by (simp add: label)
  obtain c where c: "(if enable_caching ?p1
        then ebind (maybe_evict_cached_block b ?p1) (\<lambda>x. Inr (snd x)) else Inr ?p1) =
      Inr (?p1\<lparr>bp_blocks := reset_hash b (fst sq), cached_block_hash_to_block := c\<rparr>)"
    and cache2: "cache_ok
      (?p1\<lparr>bp_blocks := reset_hash b (fst sq), cached_block_hash_to_block := c\<rparr>)"
    and nocache: "\<not> enable_caching p \<longrightarrow> c = (\<lambda>_. None)"
  proof (cases "enable_caching p")
    case True
    with maybe_evict_ok [OF cache1, of b] that show ?thesis by auto
  next
    case False
    then have none: "cached_block_hash_to_block p = (\<lambda>_. None)"
      using assms(1) by (simp add: pool_ok_def)
    then have "block_hash (bp_blocks p b) = None"
      using cache by (cases "block_hash (bp_blocks p b)") (auto simp: cache_ok_def)
    then have "reset_hash b (fst sq) = fst sq"
      using label(2) [of b] by (auto simp: reset_hash_def)
    then have "?p1\<lparr>bp_blocks := reset_hash b (fst sq),
        cached_block_hash_to_block := cached_block_hash_to_block ?p1\<rparr> = ?p1"
      by (simp add: with_queue_def)
    with that [of "cached_block_hash_to_block ?p1"] False none cache1 show ?thesis
      by (simp add: with_queue_def)
  qed
  define p' where "p' = ?p1\<lparr>cached_block_hash_to_block := c,
    bp_blocks := incr_ref b (reset_hash b (fst sq))\<rparr>"
  have step: "new_blocks_loop (Suc n) p =
      ebind (new_blocks_loop n p') (\<lambda>(bs, p''). Inr (b # bs, p''))"
    using sq(1,3) c label(3) [of b] by (simp add: p'_def q_ref_def Let_def)
  have queue: "pool_queue p' = (incr_ref b (reset_hash b (fst sq)), snd (q_set_ref b 1 sq))"
    by (simp add: p'_def pool_queue_def with_queue_def q_set_ref_def)
  have ref0: "ref_cnt (fst sq b) = 0" using sq(3) label(3) by (simp add: q_ref_def)
  have "bq.balanced (managed p) (pool_queue p')"
    unfolding queue using ref0 by (intro balanced_same [OF sq(5)]) (auto simp: q_set_ref_def)
  moreover have "cache_ok p'"
    using cache2 cache_ok_cong [of p' "?p1\<lparr>bp_blocks := reset_hash b (fst sq),
        cached_block_hash_to_block := c\<rparr>"]
    by (simp add: p'_def managed_def)
  moreover have static: "same_static p p'" by (simp add: p'_def same_static_def)
  moreover have "cached_block_hash_to_block p' = c" "\<And>x. block_id (bp_blocks p' x) = block_id (bp_blocks p x)"
    by (simp_all add: p'_def label)
  ultimately have "pool_ok p'"
    using assms(1) nocache same_static_managed [OF static]
    by (simp add: pool_ok_def same_static_def)
  moreover have "refs p' = (refs p)(b := 1)"
    using ref0 label(3) by (simp add: fun_eq_iff refs_eq p'_def)
  moreover have "block_hash (bp_blocks p' x) = (if x = b then None else block_hash (bp_blocks p x))"
    for x by (simp add: p'_def label)
  ultimately show ?thesis
    using step sq(2,3) \<open>same_static p p'\<close>
    by (intro exI [of _ b] exI [of _ p']) (simp add: refs_def)
qed

lemma new_blocks_ok:
  "pool_ok p \<Longrightarrow> int n \<le> get_num_free_blocks p \<Longrightarrow>
   \<exists>bs p'. new_blocks_loop n p = Inr (bs, p') \<and> length bs = n \<and> distinct bs \<and>
     set bs \<subseteq> {b \<in> managed p. refs p b = 0} \<and> pool_ok p' \<and>
     refs p' = add_refs (refs p) 1 bs \<and> same_static p p' \<and>
     (\<forall>x. x \<notin> set bs \<longrightarrow> block_hash (bp_blocks p' x) = block_hash (bp_blocks p x)) \<and>
     (\<forall>x \<in> set bs. block_hash (bp_blocks p' x) = None)"
proof (induction n arbitrary: p)
  case 0
  then show ?case by simp
next
  case (Suc n)
  have "0 < get_num_free_blocks p" using Suc.prems(2) by linarith
  from new_blocks_step [OF Suc.prems(1) this, of n] obtain b p1 where
    b: "b \<in> managed p" "refs p b = 0"
    and step: "new_blocks_loop (Suc n) p =
      ebind (new_blocks_loop n p1) (\<lambda>(bs, p''). Inr (b # bs, p''))"
    and p1: "pool_ok p1" "refs p1 = (refs p)(b := 1)" "same_static p p1"
      "\<forall>x. x \<noteq> b \<longrightarrow> block_hash (bp_blocks p1 x) = block_hash (bp_blocks p x)"
      "block_hash (bp_blocks p1 b) = None"
    by blast
  have free: "{x \<in> managed p1. refs p1 x = 0} = {x \<in> managed p. refs p x = 0} - {b}"
    using p1(2) same_static_managed [OF p1(3)] by auto
  have "get_num_free_blocks p1 = get_num_free_blocks p - 1"
  proof -
    let ?F = "{x \<in> managed p. refs p x = 0}"
    have "finite ?F" by (simp add: managed_def)
    then have "card ?F = Suc (card (?F - {b}))"
      using b by (intro card.remove) auto
    then show ?thesis
      using num_free_card [OF p1(1)] num_free_card [OF Suc.prems(1)] unfolding free by linarith
  qed
  then have "int n \<le> get_num_free_blocks p1" using Suc.prems(2) by simp
  from Suc.IH [OF p1(1) this] obtain bs p' where
    bs: "new_blocks_loop n p1 = Inr (bs, p')" "length bs = n" "distinct bs"
      "set bs \<subseteq> {x \<in> managed p1. refs p1 x = 0}" "pool_ok p'"
      "refs p' = add_refs (refs p1) 1 bs" "same_static p1 p'"
      "\<forall>x. x \<notin> set bs \<longrightarrow> block_hash (bp_blocks p' x) = block_hash (bp_blocks p1 x)"
      "\<forall>x \<in> set bs. block_hash (bp_blocks p' x) = None"
    by blast
  have notin: "b \<notin> set bs" and sub: "set bs \<subseteq> {x \<in> managed p. refs p x = 0}"
    using bs(4) unfolding free by blast+
  have refs: "refs p' = add_refs (refs p) 1 (b # bs)"
    using bs(6) p1(2) b(2) by (simp add: add_refs_Cons fun_upd_def)
  have hash: "block_hash (bp_blocks p' x) =
      (if x \<in> set (b # bs) then None else block_hash (bp_blocks p x))" for x
    using bs(8,9) p1(4,5) notin by (cases "x = b") auto
  have loop: "new_blocks_loop (Suc n) p = Inr (b # bs, p')"
    using step bs(1) by (simp del: new_blocks_loop.simps)
  have "same_static p p'" using p1(3) bs(7) by (rule same_static_trans)
  moreover have "set (b # bs) \<subseteq> {x \<in> managed p. refs p x = 0}"
    using b sub by simp
  moreover have "distinct (b # bs)" "length (b # bs) = Suc n"
    using notin bs(2,3) by simp_all
  moreover have "\<forall>x. x \<notin> set (b # bs) \<longrightarrow>
      block_hash (bp_blocks p' x) = block_hash (bp_blocks p x)"
    "\<forall>x \<in> set (b # bs). block_hash (bp_blocks p' x) = None"
    by (simp_all only: hash if_False if_True simp_thms) simp_all
  ultimately show ?case using loop bs(5) refs by blast
qed

section \<open>Committing full blocks to the prefix cache\<close>

text \<open>One block: its hash is set and its entry added.\<close>

definition cached_dict :: "block_pool \<Rightarrow> block_hash_type \<Rightarrow> (nat \<times> nat) list" where
  "cached_dict p h = (case cached_block_hash_to_block p h of None \<Rightarrow> [] | Some d \<Rightarrow> d)"

definition commit_block :: "nat \<Rightarrow> block_hash_type \<Rightarrow> block_pool \<Rightarrow> block_pool" where
  "commit_block b h p =
     p\<lparr>bp_blocks := (bp_blocks p)(b := (bp_blocks p b)\<lparr>block_hash := Some h\<rparr>),
       cached_block_hash_to_block :=
         (cached_block_hash_to_block p)(h := Some (AList.update b b (cached_dict p h)))\<rparr>"

lemma commit_block_simps [simp]:
  "block_hash (bp_blocks (commit_block b h p) x) =
     (if x = b then Some h else block_hash (bp_blocks p x))"
  "ref_cnt (bp_blocks (commit_block b h p) x) = ref_cnt (bp_blocks p x)"
  "block_id (bp_blocks (commit_block b h p) x) = block_id (bp_blocks p x)"
  "managed (commit_block b h p) = managed p"
  "num_gpu_blocks (commit_block b h p) = num_gpu_blocks p"
  "null_block (commit_block b h p) = null_block p"
  "enable_caching (commit_block b h p) = enable_caching p"
  by (simp_all add: commit_block_def managed_def)

lemma commit_block_cache:
  "cached_block_hash_to_block (commit_block b h p) g =
   (if g = h then Some (AList.update b b (cached_dict p h)) else cached_block_hash_to_block p g)"
  by (simp add: commit_block_def)

lemma set_update_fst: "fst ` set (AList.update k v d) = insert k (fst ` set d)"
  by (simp add: dom_update)

lemma set_update_sub: "x \<in> set (AList.update k v d) \<Longrightarrow> x = (k, v) \<or> x \<in> set d"
  by (induction d) (auto split: if_splits)

lemma cache_ok_commit:
  assumes "cache_ok p" "b \<in> managed p" "block_hash (bp_blocks p b) = None"
  shows "cache_ok (commit_block b h p)"
proof -
  have elem: "entry_ok p g d" if "cached_block_hash_to_block p g = Some d" for g d
    using assms(1) that unfolding cache_ok_def by blast
  have old: "distinct (map fst (cached_dict p h)) \<and>
      (\<forall>(k, x) \<in> set (cached_dict p h). k = x \<and> x \<in> managed p \<and>
        block_hash (bp_blocks p x) = Some h)"
  proof (cases "cached_block_hash_to_block p h")
    case None
    then show ?thesis by (simp add: cached_dict_def)
  next
    case (Some d)
    from elem [OF this] Some show ?thesis by (simp add: cached_dict_def entry_ok_def)
  qed
  show ?thesis
    unfolding cache_ok_def
  proof (intro conjI allI impI)
    fix g d assume d: "cached_block_hash_to_block (commit_block b h p) g = Some d"
    have "d \<noteq> [] \<and> distinct (map fst d)"
    proof (cases "g = h")
      case True
      then show ?thesis using d old by (auto simp: commit_block_cache distinct_update)
    next
      case False
      then have "entry_ok p g d" using d elem by (simp add: commit_block_cache)
      then show ?thesis by (simp add: entry_ok_def)
    qed
    moreover have "\<forall>(k, x) \<in> set d. k = x \<and> x \<in> managed (commit_block b h p) \<and>
        block_hash (bp_blocks (commit_block b h p) x) = Some g"
    proof safe
      fix k x assume kx: "(k, x) \<in> set d"
      have "k = x \<and> x \<in> managed p \<and>
          (if x = b then g = h else block_hash (bp_blocks p x) = Some g)"
      proof (cases "g = h")
        case True
        then have "(k, x) = (b, b) \<or> (k, x) \<in> set (cached_dict p h)"
          using d kx set_update_sub by (fastforce simp: commit_block_cache)
        then show ?thesis using old assms(2,3) True by fastforce
      next
        case False
        then have "cached_block_hash_to_block p g = Some d"
          using d by (simp add: commit_block_cache)
        from elem [OF this] kx show ?thesis using assms(3) unfolding entry_ok_def by fastforce
      qed
      then show "k = x" "x \<in> managed (commit_block b h p)"
        "block_hash (bp_blocks (commit_block b h p) x) = Some g"
        by (auto split: if_splits)
    qed
    ultimately show "entry_ok (commit_block b h p) g d" by (simp add: entry_ok_def)
  next
    fix x g assume x: "block_hash (bp_blocks (commit_block b h p) x) = Some g"
    show "\<exists>d. cached_block_hash_to_block (commit_block b h p) g = Some d \<and> x \<in> fst ` set d"
    proof (cases "x = b")
      case True
      then show ?thesis using x by (simp add: commit_block_cache set_update_fst)
    next
      case False
      then have "block_hash (bp_blocks p x) = Some g" using x by simp
      then obtain d where "cached_block_hash_to_block p g = Some d" "x \<in> fst ` set d"
        using assms(1) unfolding cache_ok_def by blast
      then show ?thesis
        by (auto simp: commit_block_cache set_update_fst cached_dict_def)
    qed
  qed
qed

lemma pool_ok_commit:
  assumes "pool_ok p" "enable_caching p" "b \<in> managed p" "block_hash (bp_blocks p b) = None"
  shows "pool_ok (commit_block b h p)"
proof -
  have "pool_queue (commit_block b h p) =
      ((bp_blocks p)(b := (bp_blocks p b)\<lparr>block_hash := Some h\<rparr>), snd (pool_queue p))"
    by (simp add: commit_block_def pool_queue_def)
  moreover have "bq.balanced (managed p) \<dots>"
    using assms(1) by (intro balanced_same) (auto simp: pool_ok_def)
  ultimately show ?thesis
    using assms cache_ok_commit [of p b h] by (simp add: pool_ok_def)
qed

text \<open>An iteration that finds its block unhashed commits it under the chosen hash.\<close>

lemma cache_full_loop_Cons:
  assumes "block_hash (bp_blocks p blk) = None" "block_id (bp_blocks p blk) = blk"
    and "(if i < length new_hashes then Inr (new_hashes ! i, hashes)
          else (let blk_idx = num_cached + int i;
                    start_idx = blk_idx * block_size;
                    end_idx = (blk_idx + 1) * block_size;
                    tokens = py_slice (all_token_ids r) start_idx end_idx
                in ebind (py_assert (py_len tokens = block_size)) (\<lambda>_.
                   ebind (generate_block_hash_extra_keys r start_idx end_idx (- 1)) (\<lambda>(keys, _).
                   (let h = hash_block_tokens hash_fn none_hash prev tokens keys
                    in Inr (h, hashes @ [h])))))) = Inr (h, hashes')"
  shows "cache_full_loop hash_fn none_hash r block_size num_cached new_hashes i (blk # blks) prev
      hashes p =
    cache_full_loop hash_fn none_hash r block_size num_cached new_hashes (Suc i) blks
      (Some (hash_value h)) hashes' (commit_block blk h p)"
  using assms
  by (simp add: set_block_hash_def commit_block_def cached_dict_def)

text \<open>
  The hash of block \<open>k\<close> of a text-only request, and the loop's choice for it: the hash the
  request already has, or the one computed from the tokens.
\<close>

definition request_chain ::
  "(hash_input \<Rightarrow> int) \<Rightarrow> int \<Rightarrow> nat \<Rightarrow> request \<Rightarrow> block_hash_type list" where
  "request_chain hash_fn none_hash bs r =
     hash_chain hash_fn none_hash bs (uniform_keys r) None (all_token_ids r)
       (length (all_token_ids r) div bs)"

lemma length_request_chain [simp]:
  "length (request_chain hash_fn none_hash bs r) = length (all_token_ids r) div bs"
  by (simp add: request_chain_def)

definition request_parent ::
  "(hash_input \<Rightarrow> int) \<Rightarrow> int \<Rightarrow> nat \<Rightarrow> request \<Rightarrow> nat \<Rightarrow> int option" where
  "request_parent hash_fn none_hash bs r k =
     chain_parent hash_fn none_hash bs (uniform_keys r) None (all_token_ids r) k"

lemma request_chain_nth:
  "k < length (all_token_ids r) div bs \<Longrightarrow>
   request_chain hash_fn none_hash bs r ! k =
   hash_block_tokens hash_fn none_hash (request_parent hash_fn none_hash bs r k)
     (take bs (drop (k * bs) (all_token_ids r))) (uniform_keys r)"
  by (simp add: request_chain_def request_parent_def hash_chain_nth)

lemma request_parent_Suc:
  "k < length (all_token_ids r) div bs \<Longrightarrow>
   request_parent hash_fn none_hash bs r (Suc k) =
   Some (hash_value (request_chain hash_fn none_hash bs r ! k))"
  by (simp add: request_chain_nth) (simp add: request_parent_def chain_parent_Suc)

lemma block_slice:
  assumes "k < length xs div bs" "0 < bs"
  shows "py_slice xs (int k * int bs) ((int k + 1) * int bs) = take bs (drop (k * bs) xs)"
    and "length (take bs (drop (k * bs) xs)) = bs"
proof -
  have "Suc k * bs \<le> length xs"
    using assms by (metis Suc_leI less_eq_div_iff_mult_less_eq)
  then have le: "k * bs + bs \<le> length xs" by simp
  have k: "int k * int bs = int (k * bs)" "(int k + 1) * int bs = int (k * bs + bs)"
    by (simp_all add: algebra_simps)
  show "py_slice xs (int k * int bs) ((int k + 1) * int bs) = take bs (drop (k * bs) xs)"
    using le unfolding k by (subst py_slice_nat) simp_all
  show "length (take bs (drop (k * bs) xs)) = bs" using le by simp
qed

lemma cache_full_loop_ok:
  fixes hash_fn :: "hash_input \<Rightarrow> int" and none_hash :: int
  assumes "mm_positions r = []" "0 < bs"
  defines "C \<equiv> request_chain hash_fn none_hash bs r"
  assumes "hashes0 = take m C" "m \<le> length C" "nc \<le> m"
  shows "pool_ok p \<Longrightarrow> enable_caching p \<Longrightarrow> set blks \<subseteq> managed p \<Longrightarrow> distinct blks \<Longrightarrow>
    \<forall>b \<in> set blks. block_hash (bp_blocks p b) = None \<Longrightarrow> nc + i + length blks \<le> length C \<Longrightarrow>
    hashes = take (max m (nc + i)) C \<Longrightarrow>
    \<exists>p'. cache_full_loop hash_fn none_hash r (int bs) (int nc) (drop nc hashes0) i blks
        (request_parent hash_fn none_hash bs r (nc + i)) hashes p =
        Inr (take (max m (nc + i + length blks)) C, p') \<and>
      pool_ok p' \<and> refs p' = refs p \<and> same_static p p' \<and>
      (\<forall>j < length blks. block_hash (bp_blocks p' (blks ! j)) = Some (C ! (nc + i + j))) \<and>
      (\<forall>b. b \<notin> set blks \<longrightarrow> block_hash (bp_blocks p' b) = block_hash (bp_blocks p b))"
proof (induction blks arbitrary: i hashes p)
  case Nil
  then show ?case by simp
next
  case (Cons blk blks)
  let ?k = "nc + i" and ?prev = "request_parent hash_fn none_hash bs r (nc + i)"
  have k: "?k < length (all_token_ids r) div bs" using Cons.prems(6) by (simp add: C_def)
  have h: "C ! ?k = hash_block_tokens hash_fn none_hash ?prev
      (take bs (drop (?k * bs) (all_token_ids r))) (uniform_keys r)"
    unfolding C_def by (rule request_chain_nth [OF k])
  note slice = block_slice [OF k assms(2)]
  have choice: "(if i < length (drop nc hashes0) then Inr (drop nc hashes0 ! i, hashes)
      else (let blk_idx = int nc + int i;
                start_idx = blk_idx * int bs;
                end_idx = (blk_idx + 1) * int bs;
                tokens = py_slice (all_token_ids r) start_idx end_idx
            in ebind (py_assert (py_len tokens = int bs)) (\<lambda>_.
               ebind (generate_block_hash_extra_keys r start_idx end_idx (- 1)) (\<lambda>(keys, _).
               (let h = hash_block_tokens hash_fn none_hash ?prev tokens keys
                in Inr (h, hashes @ [h])))))) = Inr (C ! ?k, take (max m (Suc ?k)) C)"
  proof (cases "?k < m")
    case True
    then have "i < length (drop nc hashes0)" "drop nc hashes0 ! i = C ! ?k"
      "max m (Suc ?k) = m" "hashes = take m C"
      using assms(4-6) Cons.prems(6,7) by (auto simp: max_def)
    then show ?thesis by simp
  next
    case False
    then have "\<not> i < length (drop nc hashes0)"
      using assms(4-6) by auto
    moreover have "hashes @ [C ! ?k] = take (max m (Suc ?k)) C"
      using False Cons.prems(6,7) by (simp add: max_def take_Suc_conv_app_nth)
    moreover have "py_len (take bs (drop (?k * bs) (all_token_ids r))) = int bs"
      using slice(2) by (simp only: py_len_def)
    moreover have "(int nc + int i) * int bs = int ?k * int bs"
      "(int nc + int i + 1) * int bs = (int ?k + 1) * int bs" by simp_all
    ultimately show ?thesis
      using h by (simp only: Let_def slice(1) generate_keys_uniform [OF assms(1)] if_False
          py_assert_True ebind_simps prod.case)
  qed
  let ?p = "commit_block blk (C ! ?k) p"
  have blk: "block_hash (bp_blocks p blk) = None" "blk \<in> managed p" "blk \<notin> set blks"
    using Cons.prems by auto
  have id: "block_id (bp_blocks p blk) = blk" using Cons.prems(1) by (simp add: pool_ok_def)
  have refs: "refs ?p = refs p" by (simp add: fun_eq_iff refs_eq)
  have static: "same_static p ?p" by (simp add: same_static_def)
  have parent: "request_parent hash_fn none_hash bs r (nc + Suc i) = Some (hash_value (C ! ?k))"
    using request_parent_Suc [OF k, of hash_fn none_hash] by (simp add: C_def)
  have "\<forall>b \<in> set blks. block_hash (bp_blocks ?p b) = None"
    using Cons.prems(5) blk(3) by auto
  moreover have "pool_ok ?p" by (rule pool_ok_commit [OF Cons.prems(1,2) blk(2,1)])
  moreover have "enable_caching ?p" "set blks \<subseteq> managed ?p" "distinct blks"
    "nc + Suc i + length blks \<le> length C" "take (max m (Suc ?k)) C = take (max m (nc + Suc i)) C"
    using Cons.prems(2,3,4,6) by simp_all
  ultimately obtain p' where p': "cache_full_loop hash_fn none_hash r (int bs) (int nc)
      (drop nc hashes0) (Suc i) blks
      (request_parent hash_fn none_hash bs r (nc + Suc i)) (take (max m (Suc ?k)) C) ?p =
      Inr (take (max m (nc + Suc i + length blks)) C, p')"
    "pool_ok p'" "refs p' = refs ?p" "same_static ?p p'"
    "\<forall>j < length blks. block_hash (bp_blocks p' (blks ! j)) = Some (C ! (nc + Suc i + j))"
    "\<forall>b. b \<notin> set blks \<longrightarrow> block_hash (bp_blocks p' b) = block_hash (bp_blocks ?p b)"
    using Cons.IH [of ?p "Suc i" "take (max m (Suc ?k)) C"] by blast
  have "block_hash (bp_blocks p' ((blk # blks) ! j)) = Some (C ! (?k + j))"
    if "j < length (blk # blks)" for j
    using p'(5,6) blk(3) that by (cases j) auto
  moreover have "block_hash (bp_blocks p' b) = block_hash (bp_blocks p b)"
    if "b \<notin> set (blk # blks)" for b
    using p'(6) that by simp
  moreover have "cache_full_loop hash_fn none_hash r (int bs) (int nc) (drop nc hashes0) i
      (blk # blks) ?prev hashes p = Inr (take (max m (?k + length (blk # blks))) C, p')"
    using cache_full_loop_Cons [OF blk(1) id choice, of blks] p'(1) [unfolded parent]
    by (simp del: cache_full_loop.simps)
  ultimately show ?case
    using p'(2) refs p'(3) same_static_trans [OF static p'(4)] by (metis (no_types))
qed

section \<open>The initial pool\<close>

lemma init_block_pool_ok:
  assumes "0 < n"
  shows "\<exists>p. init_block_pool n caching = Inr p \<and> pool_ok p \<and> num_gpu_blocks p = n \<and>
    enable_caching p = caching \<and> (\<forall>b. refs p b = 0) \<and>
    (\<forall>b. block_hash (bp_blocks p b) = None) \<and> cached_block_hash_to_block p = (\<lambda>_. None)"
proof -
  obtain sq where sq: "init_free_queue [0..<n] new_block = Inr sq" "fq_rep sq [0..<n]"
    "same_payload new_block (fst sq)"
    using init_free_queue_rep [of "[0..<n]" new_block] assms by (auto simp: new_block_def)
  have n: "[0..<n] = 0 # [1..<n]" using assms by (simp add: upt_conv_Cons)
  define sq' where "sq' = fq_remove 0 sq"
  have pop: "fq_popleft sq = Inr (0, sq')" "fq_rep sq' [1..<n]"
    using fq_popleft_rep sq(2) unfolding n sq'_def by blast+
  define p where "p = \<lparr>num_gpu_blocks = n, enable_caching = caching, bp_blocks = fst sq',
     free_block_queue = snd sq', cached_block_hash_to_block = (\<lambda>_. None), null_block = 0\<rparr>"
  have init: "init_block_pool n caching = Inr p"
    using assms sq(1) pop(1) by (simp add: init_block_pool_def p_def)
  have "same_payload new_block (fst sq')"
    using sq(3) fq_remove_payload unfolding sq'_def by (rule same_payload_trans)
  then have payload: "ref_cnt (fst sq' b) = 0" "block_hash (fst sq' b) = None"
    "block_id (fst sq' b) = b" for b
    by (simp_all add: same_payload_def new_block_def)
  have "pool_queue p = sq'" by (simp add: p_def pool_queue_def)
  moreover have "set [1..<n] = {b \<in> managed p. q_ref sq' b = 0}"
    by (auto simp: managed_def p_def q_ref_def payload)
  ultimately have "bq.balanced (managed p) (pool_queue p)"
    using pop(2) payload by (auto simp: bq.balanced_def q_ref_def)
  then have "pool_ok p"
    using assms payload by (simp add: pool_ok_def p_def cache_ok_def)
  with init payload show ?thesis
    by (intro exI [of _ p]) (simp add: p_def refs_eq)
qed

lemma init_block_pool_free:
  "init_block_pool n caching = Inr p \<Longrightarrow> 0 < n \<Longrightarrow> get_num_free_blocks p = int n - 1"
proof -
  assume init: "init_block_pool n caching = Inr p" and "0 < n"
  then have p: "pool_ok p" "num_gpu_blocks p = n" "\<forall>b. refs p b = 0"
    using init_block_pool_ok [of n caching] by auto
  then have "{b \<in> managed p. refs p b = 0} = {1..<n}" by (auto simp: managed_def)
  then show "get_num_free_blocks p = int n - 1"
    using num_free_card [OF p(1)] \<open>0 < n\<close> by simp
qed

section \<open>Properties\<close>

lemma hashed_block_listed:
  assumes "pool_ok p" "block_hash (bp_blocks p b) = Some h"
  shows "b \<in> managed p \<and>
    (\<exists>d. cached_block_hash_to_block p h = Some d \<and> entry_ok p h d \<and> (b, b) \<in> set d)"
proof -
  have "cache_ok p" using assms(1) by (simp add: pool_ok_def)
  then obtain d where d: "cached_block_hash_to_block p h = Some d" "b \<in> fst ` set d" "entry_ok p h d"
    using assms(2) unfolding cache_ok_def by blast
  then show ?thesis by (fastforce simp: entry_ok_def)
qed

text \<open>
  C25: allocation hands out fresh blocks. From a well-formed pool with enough free blocks,
  \<open>get_new_blocks\<close> returns that many distinct blocks that nobody referenced, with one reference
  each and no entry left in the prefix cache; every other count is unchanged and the pool stays
  well-formed. When too few blocks are free it raises.
\<close>

theorem get_new_blocks_correct:
  assumes "pool_ok p" "0 \<le> n"
  shows "(get_num_free_blocks p < n \<longrightarrow> get_new_blocks n p = Inl ValueError) \<and>
    (n \<le> get_num_free_blocks p \<longrightarrow>
      (\<exists>bs p'. get_new_blocks n p = Inr (bs, p') \<and> py_len bs = n \<and> distinct bs \<and>
        (\<forall>b \<in> set bs. b \<in> managed p \<and> refs p b = 0 \<and> refs p' b = 1 \<and>
           (\<forall>h. get_cached_block p' h \<noteq> Some b)) \<and>
        (\<forall>b. b \<notin> set bs \<longrightarrow> refs p' b = refs p b) \<and> pool_ok p' \<and>
        get_num_free_blocks p' = get_num_free_blocks p - n))"
proof (intro conjI impI)
  assume "get_num_free_blocks p < n"
  then show "get_new_blocks n p = Inl ValueError" by (simp add: get_new_blocks_def)
next
  assume le: "n \<le> get_num_free_blocks p"
  obtain bs p' where bs: "new_blocks_loop (nat n) p = Inr (bs, p')" "length bs = nat n"
    "distinct bs" "set bs \<subseteq> {b \<in> managed p. refs p b = 0}" "pool_ok p'"
    "refs p' = add_refs (refs p) 1 bs" "same_static p p'"
    "\<forall>x \<in> set bs. block_hash (bp_blocks p' x) = None"
    using new_blocks_ok [OF assms(1), of "nat n"] assms(2) le by auto
  have count: "refs p' b = refs p b + (if b \<in> set bs then 1 else 0)" for b
    using bs(3,6) by (simp add: add_refs_def count_list_eq_length_filter distinct_length_filter)
  have uncached: "get_cached_block p' h \<noteq> Some b" if "b \<in> set bs" for b h
  proof
    assume "get_cached_block p' h = Some b"
    then obtain k d where "cached_block_hash_to_block p' h = Some ((k, b) # d)"
      by (auto simp: get_cached_block_def split: option.splits list.splits)
    then have "entry_ok p' h ((k, b) # d)"
      using bs(5) by (simp add: pool_ok_def cache_ok_def)
    then show False using bs(8) that by (simp add: entry_ok_def)
  qed
  have "{b \<in> managed p'. refs p' b = 0} = {b \<in> managed p. refs p b = 0} - set bs"
    using bs(4) count same_static_managed [OF bs(7)] by auto
  then have "get_num_free_blocks p' = get_num_free_blocks p - n"
    using num_free_card [OF bs(5)] num_free_card [OF assms(1)] bs(2,3,4) assms(2)
      card_mono [of "{b \<in> managed p. refs p b = 0}" "set bs"]
    by (simp add: card_Diff_subset distinct_card managed_def)
  then show "\<exists>bs p'. get_new_blocks n p = Inr (bs, p') \<and> py_len bs = n \<and> distinct bs \<and>
      (\<forall>b \<in> set bs. b \<in> managed p \<and> refs p b = 0 \<and> refs p' b = 1 \<and>
         (\<forall>h. get_cached_block p' h \<noteq> Some b)) \<and>
      (\<forall>b. b \<notin> set bs \<longrightarrow> refs p' b = refs p b) \<and> pool_ok p' \<and>
      get_num_free_blocks p' = get_num_free_blocks p - n"
    using le bs count uncached assms(2)
    by (intro exI [of _ bs] exI [of _ p']) (auto simp: get_new_blocks_def py_len_def)
qed

theorem get_new_blocks_correct_witness:
  "\<exists>p bs p'. init_block_pool 4 True = Inr p \<and> get_new_blocks 2 p = Inr (bs, p') \<and>
     py_len bs = 2 \<and> distinct bs \<and> get_num_free_blocks p' = 1 \<and>
     get_new_blocks 2 p' = Inl ValueError"
proof -
  obtain p where p: "init_block_pool 4 True = Inr p" "pool_ok p"
    using init_block_pool_ok [of 4 True] by auto
  have free: "get_num_free_blocks p = 3" using init_block_pool_free [OF p(1)] by simp
  obtain bs p' where bs: "get_new_blocks 2 p = Inr (bs, p')" "py_len bs = 2" "distinct bs"
    "pool_ok p'" "get_num_free_blocks p' = 1"
    using get_new_blocks_correct [OF p(2), of 2] free by auto
  moreover have "get_new_blocks 2 p' = Inl ValueError"
    using get_new_blocks_correct [OF bs(4), of 2] bs(5) by simp
  ultimately show ?thesis using p(1) by blast
qed

lemma cached_block_lookup:
  assumes "pool_ok p"
  shows "(\<forall>b. get_cached_block p h = Some b \<longrightarrow>
      b \<in> managed p \<and> block_hash (bp_blocks p b) = Some h) \<and>
    (get_cached_block p h = None \<longleftrightarrow> (\<forall>b. block_hash (bp_blocks p b) \<noteq> Some h))"
proof (cases "cached_block_hash_to_block p h")
  case None
  then show ?thesis
    using hashed_block_listed [OF assms, of _ h] by (auto simp: get_cached_block_def)
next
  case (Some d)
  then have d: "entry_ok p h d" using assms by (simp add: pool_ok_def cache_ok_def)
  then obtain k b e where e: "d = (k, b) # e" by (auto simp: entry_ok_def neq_Nil_conv)
  then have "b \<in> managed p" "block_hash (bp_blocks p b) = Some h"
    using d by (simp_all add: entry_ok_def)
  then show ?thesis using Some e by (auto simp: get_cached_block_def)
qed

text \<open>
  A prefix cache hit is a block of that content. In a well-formed pool \<open>get_cached_block\<close>
  returns a block only if that block carries the requested hash, and it misses only if no block
  does.
\<close>

theorem get_cached_block_sound_complete:
  assumes "pool_ok p"
  shows "(\<forall>b. get_cached_block p h = Some b \<longrightarrow>
      b \<in> managed p \<and> block_hash (bp_blocks p b) = Some h) \<and>
    (get_cached_block p h = None \<longleftrightarrow> (\<forall>b. block_hash (bp_blocks p b) \<noteq> Some h))"
  using cached_block_lookup [OF assms] .

lemma fold_reset_hash:
  "block_hash (fold reset_hash bs s x) = (if x \<in> set bs then None else block_hash (s x))"
  "prev_free_block (fold reset_hash bs s x) = prev_free_block (s x)"
  "next_free_block (fold reset_hash bs s x) = next_free_block (s x)"
  "ref_cnt (fold reset_hash bs s x) = ref_cnt (s x)"
  "block_id (fold reset_hash bs s x) = block_id (s x)"
  by (induction bs arbitrary: s) simp_all

text \<open>The pool without any hash.\<close>

definition clear_hashes :: "block_pool \<Rightarrow> block_pool" where
  "clear_hashes p = p\<lparr>cached_block_hash_to_block := (\<lambda>_. None),
     bp_blocks := fold reset_hash [0..<num_gpu_blocks p] (bp_blocks p)\<rparr>"

lemma clear_hashes_ok:
  assumes "pool_ok p"
  shows "pool_ok (clear_hashes p)"
proof -
  let ?st = "fold reset_hash [0..<num_gpu_blocks p] (bp_blocks p)"
  have "block_hash (?st b) = None" for b
    using hashed_block_listed [OF assms, of b]
    by (cases "block_hash (bp_blocks p b)") (auto simp: fold_reset_hash managed_def)
  then have "cache_ok (clear_hashes p)" by (simp add: cache_ok_def clear_hashes_def)
  moreover have "pool_queue (clear_hashes p) = (?st, snd (pool_queue p))"
    by (simp add: pool_queue_def clear_hashes_def)
  moreover have "bq.balanced (managed p) (?st, snd (pool_queue p))"
    using assms by (intro balanced_same) (simp_all add: pool_ok_def fold_reset_hash)
  ultimately show ?thesis
    using assms by (simp add: pool_ok_def managed_def)
      (simp add: clear_hashes_def fold_reset_hash)
qed

lemma reset_pool_cache_eq:
  "reset_pool_cache p =
   (if int (num_gpu_blocks p) - get_num_free_blocks p = 1 then (True, clear_hashes p)
    else (False, p))"
  by (simp add: reset_pool_cache_def clear_hashes_def)

lemma reset_pool_ok: "pool_ok p \<Longrightarrow> pool_ok (snd (reset_pool_cache p))"
  by (simp add: reset_pool_cache_eq clear_hashes_ok)

text \<open>
  The prefix cache is reset exactly when nothing is in use. On a well-formed pool
  \<open>reset_prefix_cache\<close> succeeds if and only if every block but the null block is free; then no
  hash hits any more, otherwise the pool is unchanged.
\<close>

theorem reset_pool_cache_correct:
  assumes "pool_ok p"
  shows "(fst (reset_pool_cache p) \<longleftrightarrow> (\<forall>b \<in> managed p. refs p b = 0)) \<and>
    (fst (reset_pool_cache p) \<longrightarrow> pool_ok (snd (reset_pool_cache p)) \<and>
       (\<forall>h. get_cached_block (snd (reset_pool_cache p)) h = None)) \<and>
    (\<not> fst (reset_pool_cache p) \<longrightarrow> snd (reset_pool_cache p) = p)"
proof -
  let ?F = "{b \<in> managed p. refs p b = 0}"
  have "finite (managed p)" and card: "card (managed p) = num_gpu_blocks p - 1"
    by (simp_all add: managed_def)
  then have "?F = managed p \<longleftrightarrow> card ?F = card (managed p)"
    by (metis (no_types, lifting) card_subset_eq mem_Collect_eq subsetI)
  moreover have "0 < num_gpu_blocks p" using assms by (simp add: pool_ok_def)
  ultimately have used: "int (num_gpu_blocks p) - get_num_free_blocks p = 1 \<longleftrightarrow> ?F = managed p"
    using num_free_card [OF assms] card by linarith
  have "?F = managed p \<longleftrightarrow> (\<forall>b \<in> managed p. refs p b = 0)" by auto
  moreover have "get_cached_block (clear_hashes p) h = None" for h
    by (simp add: get_cached_block_def clear_hashes_def)
  ultimately show ?thesis
    using used clear_hashes_ok [OF assms] by (simp add: reset_pool_cache_eq)
qed

theorem get_cached_block_sound_complete_witness:
  "\<exists>p. init_block_pool 4 True = Inr p \<and> (\<forall>h.
    (get_cached_block p h = None \<longleftrightarrow> (\<forall>b. block_hash (bp_blocks p b) \<noteq> Some h)))"
proof -
  obtain p where p: "init_block_pool 4 True = Inr p" "pool_ok p"
    using init_block_pool_ok [of 4 True] by auto
  have "get_cached_block p h = None \<longleftrightarrow> (\<forall>b. block_hash (bp_blocks p b) \<noteq> Some h)" for h
    using get_cached_block_sound_complete [OF p(2)] by blast
  with p(1) show ?thesis by blast
qed

theorem reset_pool_cache_correct_witness:
  "\<exists>p bs p'. init_block_pool 4 True = Inr p \<and> get_new_blocks 2 p = Inr (bs, p') \<and>
     fst (reset_pool_cache p) \<and> \<not> fst (reset_pool_cache p')"
proof -
  obtain p where p: "init_block_pool 4 True = Inr p" "pool_ok p" "\<forall>b. refs p b = 0"
    using init_block_pool_ok [of 4 True] by auto
  have "2 \<le> get_num_free_blocks p" using init_block_pool_free [OF p(1)] by simp
  then have le: "int 2 \<le> get_num_free_blocks p" by simp
  from new_blocks_ok [OF p(2) this] obtain bs p' where
    n: "new_blocks_loop 2 p = Inr (bs, p')" "length bs = 2"
      "set bs \<subseteq> {b \<in> managed p. refs p b = 0}" "pool_ok p'" "refs p' = add_refs (refs p) 1 bs"
      "same_static p p'"
    by blast
  then have bs: "get_new_blocks 2 p = Inr (bs, p')" "pool_ok p'" "length bs = 2"
    "set bs \<subseteq> managed p" "managed p' = managed p" "refs p' = add_refs (refs p) 1 bs"
    using le by (simp_all add: get_new_blocks_def subset_iff same_static_def managed_def)
  obtain b where "b \<in> set bs" using bs(3) by (cases bs) auto
  then have "refs p' b \<noteq> 0" "b \<in> managed p'"
    using bs(4-6) p(3) by (auto simp: add_refs_def count_list_0_iff)
  with reset_pool_cache_correct [OF bs(2)] have "\<not> fst (reset_pool_cache p')" by blast
  moreover have "fst (reset_pool_cache p)"
    using reset_pool_cache_correct [OF p(2)] p(3) by blast
  ultimately show ?thesis using p(1) bs(1) by blast
qed

text \<open>
  C24: full blocks are committed under the right hashes. For a text-only request whose recorded
  hashes are a prefix of the hashes of its tokens, \<open>cache_full_blocks\<close> on unhashed blocks of the
  request succeeds: block \<open>j\<close> of the request ends up with the hash \<open>hash_request_tokens\<close> gives
  block \<open>j\<close>, whether it was recorded before or computed from the parent, the recorded hashes grow
  to cover the new blocks, and no reference count or other block's hash changes.
\<close>

theorem cache_full_blocks_correct:
  assumes "pool_ok p" "enable_caching p" "0 < bs" "mm_positions r = []"
    and "hash_request_tokens hash_fn none_hash bs r = Inr C"
    and "m \<le> length C" "nc \<le> m" "nc \<le> nf" "nf \<le> length C" "nf \<le> length blocks"
    and "distinct (drop nc (take nf blocks))" "set (drop nc (take nf blocks)) \<subseteq> managed p"
    and "\<forall>b \<in> set (drop nc (take nf blocks)). block_hash (bp_blocks p b) = None"
    and "0 < nc \<longrightarrow> block_hash (bp_blocks p (blocks ! (nc - 1))) = Some (C ! (nc - 1))"
  shows "\<exists>p'. cache_full_blocks hash_fn none_hash r blocks (take m C) (int nc) (int nf) (int bs) p
      = Inr (take (max m nf) C, p') \<and> pool_ok p' \<and> refs p' = refs p \<and>
    (\<forall>j. nc \<le> j \<and> j < nf \<longrightarrow> block_hash (bp_blocks p' (blocks ! j)) = Some (C ! j)) \<and>
    (\<forall>b. b \<notin> set (drop nc (take nf blocks)) \<longrightarrow>
       block_hash (bp_blocks p' b) = block_hash (bp_blocks p b))"
proof (cases "nc = nf")
  case True
  then show ?thesis
    using assms(1,7) by (intro exI [of _ p]) (auto simp: cache_full_blocks_def max_absorb1)
next
  case False
  let ?new = "drop nc (take nf blocks)"
  have C: "C = request_chain hash_fn none_hash bs r"
    using assms(3-5) hash_request_tokens_chain by (simp add: request_chain_def)
  have new: "length ?new = nf - nc" "py_slice blocks (int nc) (int nf) = ?new"
    using assms(8,10) py_slice_nat [of nc blocks nf] by (simp_all add: drop_take)
  have prev: "(if int nc = 0 then Inr None
      else ebind (py_get blocks (int nc - 1)) (\<lambda>prev_block.
        case block_hash (bp_blocks p prev_block) of
          None \<Rightarrow> Inl AssertionError
        | Some h \<Rightarrow> Inr (Some (hash_value h)))) =
      Inr (request_parent hash_fn none_hash bs r nc)"
  proof (cases nc)
    case 0
    then show ?thesis by (simp add: request_parent_def)
  next
    case (Suc k)
    then have "py_get blocks (int nc - 1) = Inr (blocks ! k)"
      using assms(8,10) py_get_nonneg [of "int k" blocks] by simp
    then show ?thesis
      using Suc assms(7,14) assms(6) request_parent_Suc [of k r bs hash_fn none_hash]
      by (simp add: C)
  qed
  obtain p' where loop: "cache_full_loop hash_fn none_hash r (int bs) (int nc)
      (drop nc (take m C)) 0 ?new (request_parent hash_fn none_hash bs r nc) (take m C) p =
      Inr (take (max m nf) C, p')"
    and p': "pool_ok p'" "refs p' = refs p"
    and nth: "\<forall>j < length ?new. block_hash (bp_blocks p' (?new ! j)) = Some (C ! (nc + j))"
    and rest: "\<forall>b. b \<notin> set ?new \<longrightarrow> block_hash (bp_blocks p' b) = block_hash (bp_blocks p b)"
    using cache_full_loop_ok [OF assms(4,3) _ _ assms(7), of "take m C" hash_fn none_hash p ?new 0
        "take m C"] assms(1,2,6,7-9,11-13) new(1) by (auto simp: C max_absorb1)
  have "block_hash (bp_blocks p' (blocks ! j)) = Some (C ! j)" if "nc \<le> j" "j < nf" for j
    using spec [OF nth, of "j - nc"] that new(1) assms(10) by simp
  moreover have "py_from (take m C) (int nc) = drop nc (take m C)" by (simp add: py_from_nonneg)
  ultimately show ?thesis
    using False new(2) prev assms(6,7) loop p' rest
    by (intro exI [of _ p']) (simp add: cache_full_blocks_def py_len_def Let_def)
qed

theorem cache_full_blocks_correct_witness:
  "\<exists>p bs p' C p''. init_block_pool 4 True = Inr p \<and> get_new_blocks 2 p = Inr (bs, p') \<and>
     hash_request_tokens fst 7 2 (sample_request ''a'' [1, 2, 3, 4, 5]) = Inr C \<and>
     cache_full_blocks fst 7 (sample_request ''a'' [1, 2, 3, 4, 5]) bs (take 1 C) (int 0) (int 2)
       (int 2) p' = Inr (take (max 1 2) C, p'') \<and>
     block_hash (bp_blocks p'' (bs ! 1)) = Some (C ! 1)"
proof -
  let ?r = "sample_request ''a'' [1, 2, 3, 4, 5]"
  obtain p where p: "init_block_pool 4 True = Inr p" "pool_ok p" "enable_caching p"
    using init_block_pool_ok [of 4 True] by auto
  have le: "int 2 \<le> get_num_free_blocks p" using init_block_pool_free [OF p(1)] by simp
  from new_blocks_ok [OF p(2) this] obtain bs p' where
    n: "new_blocks_loop 2 p = Inr (bs, p')" "length bs = 2" "distinct bs"
      "set bs \<subseteq> {b \<in> managed p. refs p b = 0}" "pool_ok p'"
      "same_static p p'" "\<forall>x \<in> set bs. block_hash (bp_blocks p' x) = None"
    by blast
  then have bs: "get_new_blocks 2 p = Inr (bs, p')" "set bs \<subseteq> managed p'" "enable_caching p'"
    using le p(3) by (simp_all add: get_new_blocks_def subset_iff same_static_def managed_def)
  obtain C where C: "hash_request_tokens fst 7 2 ?r = Inr C" "length C = 2"
    using hash_request_tokens_chain [of ?r 2 fst 7] by (simp add: Let_def)
  have "\<exists>p''. cache_full_blocks fst 7 ?r bs (take 1 C) (int 0) (int 2) (int 2) p' =
      Inr (take (max 1 2) C, p'') \<and> pool_ok p'' \<and> refs p'' = refs p' \<and>
      (\<forall>j. 0 \<le> j \<and> j < 2 \<longrightarrow> block_hash (bp_blocks p'' (bs ! j)) = Some (C ! j)) \<and>
      (\<forall>b. b \<notin> set (drop 0 (take 2 bs)) \<longrightarrow>
         block_hash (bp_blocks p'' b) = block_hash (bp_blocks p' b))"
    by (rule cache_full_blocks_correct) (use n bs C in simp_all)
  moreover have "0 \<le> (1::nat) \<and> 1 < (2::nat)" by simp
  ultimately obtain p'' where
    "cache_full_blocks fst 7 ?r bs (take 1 C) (int 0) (int 2) (int 2) p' =
      Inr (take (max 1 2) C, p'')" "block_hash (bp_blocks p'' (bs ! 1)) = Some (C ! 1)"
    by blast
  with p(1) bs(1) C(1) show ?thesis by blast
qed

end
