(* ===== verification/KVManager.thy ===== *)
theory KVManager
  imports BlockPool
begin

text \<open>
  The KV cache manager: \<open>KVCacheManager\<close> (\<open>spexis/v1/core/kv_cache_manager.py\<close>), the
  managers for full and sliding-window attention
  (\<open>spexis/v1/core/specialized_manager.py\<close>), and \<open>SPKVCacheManager\<close>
  (\<open>spexis/spec_parallel/kv_cache_manager.py\<close>), which differs in one call that does nothing.

  The invariant relates reference counts to block tables: every block is referenced exactly as
  often as it stands in the table of some request. From it follow that nothing leaks, and, for
  the speculative variant, that no two requests ever share a block.
\<close>

section \<open>State\<close>

datatype special_manager = FullAttentionManager | SlidingWindowManager int

record prefix_cache_stats =
  stats_reset :: bool
  stats_requests :: int
  stats_queries :: int
  stats_hits :: int

definition new_prefix_cache_stats :: prefix_cache_stats where
  "new_prefix_cache_stats =
     \<lparr>stats_reset = False, stats_requests = 0, stats_queries = 0, stats_hits = 0\<rparr>"

text \<open>
  \<open>req_to_blocks\<close> and \<open>req_to_block_hashes\<close> are default dictionaries that nothing iterates
  over: a missing entry is the empty list. \<open>skip_commit\<close> says that the pool's
  \<open>cache_full_blocks\<close> has been replaced by the function that returns without effect.
\<close>

record kv_manager =
  block_size :: nat
  max_num_blocks_per_req :: int
  num_preallocate_blocks :: int
  special :: special_manager
  skip_commit :: bool
  km_pool :: block_pool
  req_to_blocks :: "string \<Rightarrow> nat list"
  req_to_block_hashes :: "string \<Rightarrow> block_hash_type list"
  num_cached_block :: "string \<Rightarrow> int option"
  km_stats :: prefix_cache_stats

definition init_kv_manager ::
  "nat \<Rightarrow> special_manager \<Rightarrow> nat \<Rightarrow> int \<Rightarrow> bool \<Rightarrow> int \<Rightarrow> kv_manager res" where
  "init_kv_manager bs kind num_blocks max_model_len caching num_preallocate_tokens =
     (if bs = 0 then Inl ZeroDivisionError
      else ebind (init_block_pool num_blocks caching) (\<lambda>p.
        Inr \<lparr>block_size = bs, max_num_blocks_per_req = cdiv max_model_len (int bs),
          num_preallocate_blocks = cdiv num_preallocate_tokens (int bs),
          special = kind, skip_commit = False, km_pool = p,
          req_to_blocks = (\<lambda>_. []), req_to_block_hashes = (\<lambda>_. []),
          num_cached_block = (\<lambda>_. None), km_stats = new_prefix_cache_stats\<rparr>))"

definition init_sp_kv_manager ::
  "nat \<Rightarrow> special_manager \<Rightarrow> nat \<Rightarrow> int \<Rightarrow> bool \<Rightarrow> int \<Rightarrow> kv_manager res" where
  "init_sp_kv_manager bs kind num_blocks max_model_len caching num_preallocate_tokens =
     ebind (init_kv_manager bs kind num_blocks max_model_len caching num_preallocate_tokens)
       (\<lambda>m. Inr (m\<lparr>skip_commit := True\<rparr>))"

section \<open>Attention-specific parts\<close>

fun full_cache_hit :: "block_pool \<Rightarrow> block_hash_type list \<Rightarrow> nat list" where
  "full_cache_hit p [] = []"
| "full_cache_hit p (h # hs) =
     (case get_cached_block p h of None \<Rightarrow> [] | Some b \<Rightarrow> b # full_cache_hit p hs)"

text \<open>
  The search from the right: \<open>i\<close> hashes are left, \<open>contiguous\<close> counts the hits just seen.
\<close>

fun sliding_hit_loop ::
  "block_pool \<Rightarrow> block_hash_type list \<Rightarrow> int \<Rightarrow> nat \<Rightarrow> nat list \<Rightarrow> nat \<Rightarrow> nat list" where
  "sliding_hit_loop p hs needed 0 computed contiguous = take contiguous computed"
| "sliding_hit_loop p hs needed (Suc i) computed contiguous =
     (case get_cached_block p (hs ! i) of
        None \<Rightarrow> sliding_hit_loop p hs needed i computed 0
      | Some b \<Rightarrow>
          (let computed' = computed[i := b]; contiguous' = contiguous + 1 in
           if needed \<le> int contiguous' then take (i + contiguous') computed'
           else sliding_hit_loop p hs needed i computed' contiguous'))"

definition sliding_cache_hit ::
  "nat \<Rightarrow> int \<Rightarrow> block_pool \<Rightarrow> block_hash_type list \<Rightarrow> nat list" where
  "sliding_cache_hit bs window p hs =
     sliding_hit_loop p hs (cdiv (window - 1) (int bs)) (length hs)
       (replicate (length hs) (null_block p)) 0"

definition find_longest_cache_hit :: "kv_manager \<Rightarrow> block_hash_type list \<Rightarrow> nat list" where
  "find_longest_cache_hit m hs =
     (case special m of
        FullAttentionManager \<Rightarrow> full_cache_hit (km_pool m) hs
      | SlidingWindowManager window \<Rightarrow> sliding_cache_hit (block_size m) window (km_pool m) hs)"

text \<open>The loop down from index \<open>i - 1\<close>: the removed blocks and the remaining table.\<close>

fun skip_loop :: "nat \<Rightarrow> nat \<Rightarrow> nat list \<Rightarrow> nat list \<Rightarrow> (nat list \<times> nat list) res" where
  "skip_loop null 0 blocks removed = Inr (removed, blocks)"
| "skip_loop null (Suc i) blocks removed =
     ebind (py_get blocks (int i)) (\<lambda>b.
       if b = null then Inr (removed, blocks)
       else skip_loop null i (blocks[i := null]) (removed @ [b]))"

definition remove_skipped_blocks ::
  "kv_manager \<Rightarrow> nat list \<Rightarrow> int \<Rightarrow> (nat list \<times> nat list) res" where
  "remove_skipped_blocks m blocks num_computed =
     (case special m of
        FullAttentionManager \<Rightarrow> Inr ([], blocks)
      | SlidingWindowManager window \<Rightarrow>
          (let last_useful_token = num_computed - window + 1;
               last_useful_block = last_useful_token div int (block_size m)
           in skip_loop (null_block (km_pool m)) (nat last_useful_block) blocks []))"

section \<open>Operations\<close>

definition usage :: "(rat \<Rightarrow> rat) \<Rightarrow> kv_manager \<Rightarrow> rat" where
  "usage fl m = get_usage fl (km_pool m)"

definition make_prefix_cache_stats :: "kv_manager \<Rightarrow> prefix_cache_stats \<times> kv_manager" where
  "make_prefix_cache_stats m = (km_stats m, m\<lparr>km_stats := new_prefix_cache_stats\<rparr>)"

definition get_computed_blocks ::
  "(hash_input \<Rightarrow> int) \<Rightarrow> int \<Rightarrow> request \<Rightarrow> kv_manager \<Rightarrow> ((nat list \<times> int) \<times> kv_manager) res" where
  "get_computed_blocks hash_fn none_hash r m =
     (if \<not> enable_caching (km_pool m) then Inr (([], 0), m)
      else
        ebind (if req_to_block_hashes m (request_id r) = []
               then hash_request_tokens hash_fn none_hash (block_size m) r
               else Inr (req_to_block_hashes m (request_id r))) (\<lambda>hashes.
        (let m1 = m\<lparr>req_to_block_hashes := (req_to_block_hashes m)(request_id r := hashes),
                   km_stats := (km_stats m)\<lparr>stats_requests := stats_requests (km_stats m) + 1\<rparr>\<rparr>
         in if prompt_logprobs (params r) \<noteq> None then Inr (([], 0), m1)
            else ebind (if py_len hashes * int (block_size m) = num_tokens r
                        then (if hashes = [] then Inl IndexError else Inr (butlast hashes))
                        else Inr hashes) (\<lambda>searched.
              (let computed = find_longest_cache_hit m1 searched;
                   s = km_stats m1;
                   m2 = m1\<lparr>km_stats := s\<lparr>stats_queries := stats_queries s + py_len searched,
                                         stats_hits := stats_hits s + py_len computed\<rparr>\<rparr>
               in Inr ((computed, py_len computed * int (block_size m)), m2))))))"

text \<open>
  \<open>allocate_slots\<close> after the skipped blocks are gone: \<open>blocks\<close> is the table of the request,
  \<open>m\<close> the manager whose pool has them back.
\<close>

definition allocate_new ::
  "(hash_input \<Rightarrow> int) \<Rightarrow> int \<Rightarrow> request \<Rightarrow> int \<Rightarrow> nat list \<Rightarrow> int \<Rightarrow> nat list \<Rightarrow> kv_manager \<Rightarrow>
   (nat list option \<times> kv_manager) res" where
  "allocate_new hash_fn none_hash r ntokens new_computed num_lookahead blocks m =
     (let bs = int (block_size m); rid = request_id r;
          num_computed = num_computed_tokens r + py_len new_computed * bs;
          num_required = cdiv (num_computed + ntokens + num_lookahead) bs;
          num_new = num_required - py_len blocks - py_len new_computed;
          num_evictable = py_len (filter (\<lambda>b. refs (km_pool m) b = 0) new_computed)
      in if get_num_free_blocks (km_pool m) - num_evictable < num_new then Inr (None, m)
      else
        ebind (if enable_caching (km_pool m) then Inr (touch new_computed (km_pool m))
               else ebind (py_assert (new_computed = [])) (\<lambda>_. Inr (km_pool m))) (\<lambda>p1.
        (let blocks1 = blocks @ new_computed in
         ebind (if num_new \<le> 0 then Inr ([], p1)
                else (let prealloc = max 0 (num_preallocate_blocks m - num_lookahead div bs);
                          n = min (min (num_new + prealloc) (get_num_free_blocks p1))
                                (max_num_blocks_per_req m - py_len blocks1)
                      in ebind (py_assert (0 < n)) (\<lambda>_. get_new_blocks n p1))) (\<lambda>(new, p2).
         (let blocks2 = blocks1 @ new;
              m2 = m\<lparr>km_pool := p2, req_to_blocks := (req_to_blocks m)(rid := blocks2)\<rparr>
          in if \<not> enable_caching p2 then Inr (Some new, m2)
             else
               (let num_cached = (case num_cached_block m rid of
                                    None \<Rightarrow> py_len new_computed | Some n \<Rightarrow> n);
                    num_full = (num_computed + ntokens - py_len (spec_token_ids r)) div bs
                in ebind (if skip_commit m then Inr (req_to_block_hashes m rid, p2)
                          else cache_full_blocks hash_fn none_hash r blocks2
                                 (req_to_block_hashes m rid) num_cached num_full bs p2)
                     (\<lambda>(hashes, p3).
                   Inr (Some new,
                     m2\<lparr>km_pool := p3,
                        req_to_block_hashes := (req_to_block_hashes m)(rid := hashes),
                        num_cached_block := (num_cached_block m)(rid \<mapsto> num_full)\<rparr>))))))))"

definition allocate_slots ::
  "(hash_input \<Rightarrow> int) \<Rightarrow> int \<Rightarrow> request \<Rightarrow> int \<Rightarrow> nat list \<Rightarrow> int \<Rightarrow> kv_manager \<Rightarrow>
   (nat list option \<times> kv_manager) res" where
  "allocate_slots hash_fn none_hash r ntokens new_computed num_lookahead m =
     (if ntokens = 0 then Inl ValueError
      else
        ebind (remove_skipped_blocks m (req_to_blocks m (request_id r)) (num_computed_tokens r))
          (\<lambda>(removed, blocks).
        ebind (free_blocks removed (km_pool m)) (\<lambda>p.
        allocate_new hash_fn none_hash r ntokens new_computed num_lookahead blocks
          (m\<lparr>km_pool := p,
             req_to_blocks := (req_to_blocks m)(request_id r := blocks)\<rparr>))))"

definition free :: "request \<Rightarrow> kv_manager \<Rightarrow> kv_manager res" where
  "free r m =
     (let blocks = req_to_blocks m (request_id r);
          ordered = (if enable_caching (km_pool m) then rev blocks else blocks)
      in ebind (free_blocks ordered (km_pool m)) (\<lambda>p.
         Inr (m\<lparr>km_pool := p, req_to_blocks := (req_to_blocks m)(request_id r := []),
                num_cached_block := (num_cached_block m)(request_id r := None)\<rparr>)))"

definition reset_prefix_cache :: "kv_manager \<Rightarrow> bool \<times> kv_manager" where
  "reset_prefix_cache m =
     (case reset_pool_cache (km_pool m) of
        (True, p) \<Rightarrow> (True, m\<lparr>km_pool := p, km_stats := (km_stats m)\<lparr>stats_reset := True\<rparr>\<rparr>)
      | (False, p) \<Rightarrow> (False, m\<lparr>km_pool := p\<rparr>))"

definition get_num_common_prefix_blocks :: "request \<Rightarrow> int \<Rightarrow> kv_manager \<Rightarrow> int res" where
  "get_num_common_prefix_blocks r num_running m =
     ebind (py_assert (status r = RUNNING)) (\<lambda>_.
     Inr (py_len (takeWhile (\<lambda>b. refs (km_pool m) b = num_running)
       (req_to_blocks m (request_id r)))))"

definition free_block_hashes :: "request \<Rightarrow> kv_manager \<Rightarrow> kv_manager" where
  "free_block_hashes r m =
     m\<lparr>req_to_block_hashes := (req_to_block_hashes m)(request_id r := [])\<rparr>"

section \<open>Tables and reference counts\<close>

text \<open>
  The invariant: a well-formed pool whose reference counts are the numbers of occurrences in
  the block tables, of which finitely many are not empty.
\<close>

definition table_count :: "(string \<Rightarrow> nat list) \<Rightarrow> nat \<Rightarrow> int" where
  "table_count f b = (\<Sum>i | f i \<noteq> []. int (count_list (f i) b))"

definition kv_ok :: "kv_manager \<Rightarrow> bool" where
  "kv_ok m \<longleftrightarrow> 0 < block_size m \<and> pool_ok (km_pool m) \<and>
     finite {i. req_to_blocks m i \<noteq> []} \<and>
     (\<forall>i. \<forall>b \<in> set (req_to_blocks m i). b < num_gpu_blocks (km_pool m)) \<and>
     (special m = FullAttentionManager \<longrightarrow>
        (\<forall>i. \<forall>b \<in> set (req_to_blocks m i). b \<noteq> 0)) \<and>
     (\<forall>b \<in> managed (km_pool m). refs (km_pool m) b = table_count (req_to_blocks m) b)"

lemma table_count_empty [simp]: "table_count (\<lambda>_. []) b = 0"
  by (simp add: table_count_def)

text \<open>Over any finite set that covers the non-empty tables the sum is the same.\<close>

lemma table_count_cover:
  assumes "finite A" "{i. f i \<noteq> []} \<subseteq> A"
  shows "table_count f b = (\<Sum>i \<in> A. int (count_list (f i) b))"
  unfolding table_count_def using assms by (intro sum.mono_neutral_left) auto

lemma table_count_upd:
  assumes "finite {i. f i \<noteq> []}"
  shows "table_count (f(i := bs)) b =
    table_count f b - int (count_list (f i) b) + int (count_list bs b)"
proof -
  let ?A = "insert i {j. f j \<noteq> []}"
  have A: "finite ?A" using assms by simp
  have "table_count (f(i := bs)) b = (\<Sum>j \<in> ?A. int (count_list ((f(i := bs)) j) b))"
    by (rule table_count_cover [OF A]) auto
  also have "\<dots> = int (count_list bs b) + (\<Sum>j \<in> ?A - {i}. int (count_list (f j) b))"
    using A by (subst sum.remove [of _ i]) (auto intro: sum.cong)
  also have "(\<Sum>j \<in> ?A - {i}. int (count_list (f j) b)) =
      table_count f b - int (count_list (f i) b)"
    using table_count_cover [OF A, of f b] sum.remove [OF A, of i "\<lambda>j. int (count_list (f j) b)"]
    by (simp add: subset_insertI del: insert_Diff_single)
  finally show ?thesis by linarith
qed

lemma finite_tables_upd: "finite {i. f i \<noteq> []} \<Longrightarrow> finite {j. (f(i := bs)) j \<noteq> []}"
  by (rule finite_subset [of _ "insert i {j. f j \<noteq> []}"]) auto

lemma table_count_ge:
  assumes "finite {i. f i \<noteq> []}"
  shows "int (count_list (f i) b) \<le> table_count f b"
proof (cases "f i = []")
  case True
  then show ?thesis by (simp add: table_count_def sum_nonneg)
next
  case False
  then show ?thesis
    unfolding table_count_def using assms
    by (intro member_le_sum [where f = "\<lambda>i. int (count_list (f i) b)"]) auto
qed

text \<open>One request's table and the counts of the pool change together.\<close>

lemma kv_ok_retable:
  assumes "kv_ok m" "pool_ok p" "same_static (km_pool m) p"
    and "\<forall>b \<in> set bs. b < num_gpu_blocks (km_pool m)"
    and "special m = FullAttentionManager \<longrightarrow> (\<forall>b \<in> set bs. b \<noteq> 0)"
    and "\<forall>b \<in> managed (km_pool m). refs p b =
      refs (km_pool m) b - int (count_list (req_to_blocks m i) b) + int (count_list bs b)"
  shows "kv_ok (m\<lparr>km_pool := p, req_to_blocks := (req_to_blocks m)(i := bs)\<rparr>)"
proof -
  have fin: "finite {i. req_to_blocks m i \<noteq> []}" using assms(1) by (simp add: kv_ok_def)
  have N: "num_gpu_blocks p = num_gpu_blocks (km_pool m)" "managed p = managed (km_pool m)"
    using assms(3) by (simp_all add: same_static_def managed_def)
  show ?thesis
    using assms fin finite_tables_upd [OF fin, of i bs] table_count_upd [OF fin, of i bs]
    by (auto simp: kv_ok_def N)
qed

text \<open>Fields outside the pool and the tables do not matter.\<close>

lemma kv_ok_frame:
  "kv_ok m \<Longrightarrow> block_size m' = block_size m \<Longrightarrow> special m' = special m \<Longrightarrow>
   km_pool m' = km_pool m \<Longrightarrow> req_to_blocks m' = req_to_blocks m \<Longrightarrow> kv_ok m'"
  by (simp add: kv_ok_def)

lemma count_list_append [simp]: "count_list (xs @ ys) b = count_list xs b + count_list ys b"
  by (induction xs) simp_all

lemma count_list_rev [simp]: "count_list (rev xs) b = count_list xs b"
  by (induction xs) simp_all

subsection \<open>Freeing a request\<close>

lemma free_ok:
  assumes "kv_ok m"
  shows "\<exists>m'. free r m = Inr m' \<and> kv_ok m' \<and>
    req_to_blocks m' = (req_to_blocks m)(request_id r := []) \<and>
    same_static (km_pool m) (km_pool m') \<and> same_cache (km_pool m) (km_pool m') \<and>
    (\<forall>b \<in> managed (km_pool m). refs (km_pool m') b =
       refs (km_pool m) b - int (count_list (req_to_blocks m (request_id r)) b))"
proof -
  let ?bs = "req_to_blocks m (request_id r)"
  define ordered where "ordered = (if enable_caching (km_pool m) then rev ?bs else ?bs)"
  have ordered: "set ordered = set ?bs" "\<And>b. count_list ordered b = count_list ?bs b"
    by (simp_all add: ordered_def)
  have fin: "finite {i. req_to_blocks m i \<noteq> []}" using assms by (simp add: kv_ok_def)
  have "\<forall>b \<in> set ordered. b < num_gpu_blocks (km_pool m)"
    using assms ordered by (simp add: kv_ok_def)
  moreover have "\<forall>b \<in> managed (km_pool m). int (count_list ordered b) \<le> refs (km_pool m) b"
    using assms ordered table_count_ge [OF fin] by (simp add: kv_ok_def)
  ultimately obtain p where p: "free_blocks ordered (km_pool m) = Inr p" "pool_ok p"
    "refs p = add_refs (refs (km_pool m)) (- 1) ordered" "same_static (km_pool m) p"
    "same_cache (km_pool m) p"
    using free_blocks_ok [of "km_pool m" ordered] assms by (auto simp: kv_ok_def)
  have refs: "\<forall>b \<in> managed (km_pool m). refs p b =
      refs (km_pool m) b - int (count_list ?bs b)"
    using p(3) ordered by (simp add: add_refs_def)
  have "kv_ok (m\<lparr>km_pool := p, req_to_blocks := (req_to_blocks m)(request_id r := [])\<rparr>)"
    using kv_ok_retable [OF assms p(2,4), of "[]" "request_id r"] refs by simp
  then show ?thesis
    using p refs by (auto simp: free_def Let_def simp flip: ordered_def intro: kv_ok_frame)
qed

subsection \<open>Skipped blocks\<close>

lemma skip_loop_ok:
  "i \<le> length blocks \<Longrightarrow>
   \<exists>rs blocks'. skip_loop null i blocks removed = Inr (removed @ rs, blocks') \<and>
     length blocks' = length blocks \<and> set rs \<subseteq> set blocks - {null} \<and>
     set blocks' \<subseteq> insert null (set blocks) \<and>
     (\<forall>b. b \<noteq> null \<longrightarrow> count_list blocks b = count_list rs b + count_list blocks' b)"
proof (induction i arbitrary: blocks removed)
  case 0
  then show ?case by auto
next
  case (Suc i)
  let ?b = "blocks ! i"
  have get: "py_get blocks (int i) = Inr ?b" using Suc.prems by (simp add: py_get_nonneg)
  show ?case
  proof (cases "?b = null")
    case True
    then show ?thesis
      using get by (intro exI [of _ "[]"] exI [of _ blocks]) auto
  next
    case False
    let ?blocks = "blocks[i := null]"
    have mem: "?b \<in> set blocks" using Suc.prems by simp
    have upd: "set ?blocks \<subseteq> insert null (set blocks)" by (rule set_update_subset_insert)
    have count: "count_list blocks b = (if b = ?b then 1 else 0) + count_list ?blocks b"
      if "b \<noteq> null" for b
    proof -
      have "blocks = take i blocks @ ?b # drop (Suc i) blocks"
        using Suc.prems by (simp add: Cons_nth_drop_Suc)
      then have "count_list blocks b = count_list (take i blocks @ ?b # drop (Suc i) blocks) b"
        by simp
      moreover have "?blocks = take i blocks @ null # drop (Suc i) blocks"
        using Suc.prems by (simp add: upd_conv_take_nth_drop)
      ultimately show ?thesis using that by auto
    qed
    from Suc.IH [of ?blocks "removed @ [?b]"] Suc.prems obtain rs blocks' where
      "skip_loop null i ?blocks (removed @ [?b]) = Inr ((removed @ [?b]) @ rs, blocks')"
      "length blocks' = length blocks" "set rs \<subseteq> set ?blocks - {null}"
      "set blocks' \<subseteq> insert null (set ?blocks)"
      "\<forall>b. b \<noteq> null \<longrightarrow> count_list ?blocks b = count_list rs b + count_list blocks' b"
      by auto
    then show ?thesis
      using get False mem upd count
      by (intro exI [of _ "?b # rs"] exI [of _ blocks']) auto
  qed
qed

definition window_ok :: "kv_manager \<Rightarrow> bool" where
  "window_ok m \<longleftrightarrow> (case special m of FullAttentionManager \<Rightarrow> True | SlidingWindowManager w \<Rightarrow> 1 \<le> w)"

lemma remove_skipped_blocks_ok:
  assumes "0 < block_size m" "null_block (km_pool m) = 0" "window_ok m"
    and "special m = FullAttentionManager \<or> c \<le> py_len blocks * int (block_size m)"
  shows "\<exists>rs blocks'. remove_skipped_blocks m blocks c = Inr (rs, blocks') \<and>
    length blocks' = length blocks \<and> set rs \<subseteq> set blocks \<and> 0 \<notin> set rs - set blocks \<and>
    set blocks' \<subseteq> (if special m = FullAttentionManager then set blocks else insert 0 (set blocks)) \<and>
    (\<forall>b. b \<noteq> 0 \<longrightarrow> count_list blocks b = count_list rs b + count_list blocks' b)"
proof (cases "special m")
  case FullAttentionManager
  then show ?thesis by (simp add: remove_skipped_blocks_def)
next
  case (SlidingWindowManager w)
  define i where "i = nat ((c - w + 1) div int (block_size m))"
  have "c - w + 1 \<le> py_len blocks * int (block_size m)"
    using assms(3,4) SlidingWindowManager by (simp add: window_ok_def)
  then have "(c - w + 1) div int (block_size m) \<le> (py_len blocks * int (block_size m)) div int (block_size m)"
    using assms(1) by (intro zdiv_mono1) auto
  then have "(c - w + 1) div int (block_size m) \<le> py_len blocks" using assms(1) by simp
  then have "i \<le> length blocks" by (simp add: i_def py_len_def)
  from skip_loop_ok [OF this, of 0 "[]"] show ?thesis
    using SlidingWindowManager assms(2)
    by (auto simp: remove_skipped_blocks_def Let_def i_def)
qed

subsection \<open>Allocation\<close>

text \<open>Touching computed blocks takes at most the evictable ones from the free queue.\<close>

lemma touch_free:
  assumes "pool_ok p" "\<forall>b \<in> set bs. b < num_gpu_blocks p"
  shows "get_num_free_blocks p - py_len (filter (\<lambda>b. refs p b = 0) bs)
    \<le> get_num_free_blocks (touch bs p)"
proof -
  note t = touch_ok [OF assms]
  let ?F = "{b \<in> managed p. refs p b = 0}" and ?G = "{b \<in> managed p. refs (touch bs p) b = 0}"
  let ?E = "set (filter (\<lambda>b. refs p b = 0) bs)"
  have "?F \<subseteq> ?G \<union> ?E"
  proof
    fix b assume b: "b \<in> ?F"
    show "b \<in> ?G \<union> ?E"
    proof (cases "b \<in> set bs")
      case False
      then have "count_list bs b = 0" by (simp add: count_list_0_iff)
      then show ?thesis using b t by (simp add: add_refs_def)
    qed (use b in simp)
  qed
  then have "card ?F \<le> card (?G \<union> ?E)" by (intro card_mono) (auto simp: managed_def)
  also have "\<dots> \<le> card ?G + card ?E" by (rule card_Un_le)
  also have "card ?E \<le> length (filter (\<lambda>b. refs p b = 0) bs)" by (rule card_length)
  finally have "int (card ?F) \<le> int (card ?G) + py_len (filter (\<lambda>b. refs p b = 0) bs)"
    by (simp add: py_len_def)
  moreover have "managed (touch bs p) = managed p" using t same_static_managed by blast
  ultimately show ?thesis
    using t num_free_card [OF assms(1)] num_free_card [of "touch bs p"] by simp
qed

text \<open>What an allocation that succeeds has done before it commits blocks to the cache.\<close>

definition allocated ::
  "request \<Rightarrow> nat list \<Rightarrow> int \<Rightarrow> nat list \<Rightarrow> kv_manager \<Rightarrow> nat list \<Rightarrow> kv_manager \<Rightarrow> bool" where
  "allocated r ncb required blocks m new m' \<longleftrightarrow>
     kv_ok m' \<and> req_to_blocks m' = (req_to_blocks m)(request_id r := blocks @ ncb @ new) \<and>
     same_static (km_pool m) (km_pool m') \<and> distinct new \<and>
     (\<forall>b \<in> set new. b \<in> managed (km_pool m) \<and> b \<notin> set ncb \<and> refs (km_pool m) b = 0) \<and>
     required \<le> py_len (blocks @ ncb @ new) \<and>
     (\<forall>b. block_hash (bp_blocks (km_pool m) b) = None \<longrightarrow>
        block_hash (bp_blocks (km_pool m') b) = None)"

lemma allocate_new_take:
  assumes ok: "kv_ok m" and blocks: "req_to_blocks m (request_id r) = blocks"
    and ncb: "\<forall>b \<in> set ncb. b < num_gpu_blocks (km_pool m)"
      "special m = FullAttentionManager \<longrightarrow> 0 \<notin> set ncb"
      "enable_caching (km_pool m) \<or> ncb = []"
    and "0 \<le> prealloc"
    and max: "required \<le> max_blocks"
    and enough: "required - py_len blocks - py_len ncb \<le>
      get_num_free_blocks (km_pool m) - py_len (filter (\<lambda>b. refs (km_pool m) b = 0) ncb)"
  defines "p1 \<equiv> (if enable_caching (km_pool m) then touch ncb (km_pool m) else km_pool m)"
    and "num_new \<equiv> required - py_len blocks - py_len ncb"
  defines "n \<equiv> min (min (num_new + prealloc) (get_num_free_blocks p1))
      (max_blocks - py_len (blocks @ ncb))"
  shows "\<exists>new p2. (if num_new \<le> 0 then Inr ([], p1)
        else ebind (py_assert (0 < n)) (\<lambda>_. get_new_blocks n p1)) = Inr (new, p2) \<and>
      allocated r ncb required blocks m new
        (m\<lparr>km_pool := p2, req_to_blocks := (req_to_blocks m)(request_id r := blocks @ ncb @ new)\<rparr>) \<and>
      (py_len (blocks @ ncb) \<le> max_blocks \<longrightarrow> py_len (blocks @ ncb @ new) \<le> max_blocks)"
proof -
  let ?p = "km_pool m"
  have pool: "pool_ok ?p" using ok by (simp add: kv_ok_def)
  have p1: "pool_ok p1" "refs p1 = add_refs (refs ?p) 1 ncb" "same_static ?p p1"
    "\<forall>b. block_hash (bp_blocks p1 b) = block_hash (bp_blocks ?p b)"
    using touch_ok [OF pool ncb(1)] ncb(3) pool by (auto simp: p1_def same_cache_def)
  have free1: "num_new \<le> get_num_free_blocks p1"
    using touch_free [OF pool ncb(1)] enough ncb(3) by (auto simp: p1_def num_new_def)
  have retable: "allocated r ncb required blocks m new
      (m\<lparr>km_pool := p2, req_to_blocks := (req_to_blocks m)(request_id r := blocks @ ncb @ new)\<rparr>)"
    if p2: "pool_ok p2" "same_static p1 p2" "refs p2 = add_refs (refs p1) 1 new"
      and new: "distinct new" "set new \<subseteq> {b \<in> managed p1. refs p1 b = 0}"
      and req: "required \<le> py_len (blocks @ ncb @ new)"
      and hash: "\<forall>b. block_hash (bp_blocks p1 b) = None \<longrightarrow> block_hash (bp_blocks p2 b) = None"
    for new p2
  proof -
    have static: "same_static ?p p2" using p1(3) p2(2) by (rule same_static_trans)
    have N: "managed p1 = managed ?p" using p1(3) by (rule same_static_managed)
    have fresh: "b \<in> managed ?p \<and> b \<notin> set ncb \<and> refs ?p b = 0" if "b \<in> set new" for b
    proof -
      have b: "b \<in> managed ?p" "refs ?p b + int (count_list ncb b) = 0"
        using that new(2) p1(2) N by (auto simp: add_refs_def)
      have "0 \<le> refs ?p b"
        using pool b(1) by (simp add: pool_ok_def bq.balanced_def refs_def)
      with b(2) have "refs ?p b = 0" "count_list ncb b = 0" by linarith+
      with b(1) show ?thesis by (simp add: count_list_0_iff)
    qed
    have "refs p2 b = refs ?p b - int (count_list (req_to_blocks m (request_id r)) b) +
        int (count_list (blocks @ ncb @ new) b)" for b
      using p2(3) p1(2) blocks by (simp add: add_refs_def)
    moreover have "\<forall>b \<in> set (blocks @ ncb @ new). b < num_gpu_blocks ?p"
      using ok blocks ncb(1) fresh by (auto simp: kv_ok_def managed_def)
    moreover have "special m = FullAttentionManager \<longrightarrow> (\<forall>b \<in> set (blocks @ ncb @ new). b \<noteq> 0)"
    proof (intro impI ballI)
      fix b assume full: "special m = FullAttentionManager" and "b \<in> set (blocks @ ncb @ new)"
      then consider "b \<in> set blocks" | "b \<in> set ncb" | "b \<in> set new" by auto
      then show "b \<noteq> 0"
      proof cases
        case 1
        then show ?thesis using ok blocks full by (auto simp: kv_ok_def)
      next
        case 2
        then show ?thesis using ncb(2) full by metis
      next
        case 3
        then show ?thesis using fresh [OF 3] by (simp add: managed_def)
      qed
    qed
    ultimately show ?thesis
      using kv_ok_retable [OF ok p2(1) static] static new(1) fresh req hash p1(4)
      by (simp add: allocated_def)
  qed
  show ?thesis
  proof (cases "num_new \<le> 0")
    case True
    then show ?thesis
      using retable [of p1 "[]"] p1(1) by (simp add: num_new_def)
  next
    case False
    then have n: "0 < n" "n \<le> get_num_free_blocks p1" "n \<le> max_blocks - py_len (blocks @ ncb)"
      "num_new \<le> n"
      using free1 max assms(6) by (auto simp: n_def num_new_def)
    have le: "int (nat n) \<le> get_num_free_blocks p1" using n by simp
    from new_blocks_ok [OF p1(1) this] obtain new p2 where
      new: "new_blocks_loop (nat n) p1 = Inr (new, p2)" "length new = nat n" "distinct new"
        "set new \<subseteq> {b \<in> managed p1. refs p1 b = 0}" "pool_ok p2"
        "refs p2 = add_refs (refs p1) 1 new" "same_static p1 p2"
        "\<forall>x. x \<notin> set new \<longrightarrow> block_hash (bp_blocks p2 x) = block_hash (bp_blocks p1 x)"
        "\<forall>x \<in> set new. block_hash (bp_blocks p2 x) = None"
      by blast
    have hash: "\<forall>b. block_hash (bp_blocks p1 b) = None \<longrightarrow> block_hash (bp_blocks p2 b) = None"
      using new(8,9) by metis
    have len: "py_len new = n" using new(2) n(1) by (simp add: py_len_def)
    have "get_new_blocks n p1 = Inr (new, p2)" using new(1) n(2) by (simp add: get_new_blocks_def)
    moreover have "required \<le> py_len (blocks @ ncb @ new)"
      using n(4) len by (simp add: num_new_def)
    moreover have "py_len (blocks @ ncb @ new) \<le> max_blocks" using n(3) len by simp
    ultimately show ?thesis
      using False n(1) retable [OF new(5,7,6,3,4)] hash by auto
  qed
qed


text \<open>Committing blocks to the prefix cache keeps the pool well-formed, whatever the hashes.\<close>

lemma cache_full_loop_inv:
  "cache_full_loop hash_fn none_hash r bs nc nh i blks prev hashes p = Inr (hashes', p') \<Longrightarrow>
   pool_ok p \<Longrightarrow> enable_caching p \<Longrightarrow> set blks \<subseteq> managed p \<Longrightarrow>
   pool_ok p' \<and> refs p' = refs p \<and> same_static p p'"
proof (induction blks arbitrary: i prev hashes p)
  case Nil
  then show ?case by simp
next
  case (Cons blk blks)
  have id: "block_id (bp_blocks p blk) = blk" using Cons.prems(2) by (simp add: pool_ok_def)
  have none: "block_hash (bp_blocks p blk) = None"
    using Cons.prems(1) by (auto simp: res_simps)
  obtain h hs where "cache_full_loop hash_fn none_hash r bs nc nh i (blk # blks) prev hashes p =
      cache_full_loop hash_fn none_hash r bs nc nh (Suc i) blks (Some (hash_value h)) hs
        (commit_block blk h p)"
    using Cons.prems(1) cache_full_loop_Cons [OF none id]
    by (auto simp only: cache_full_loop.simps res_simps split_paired_all)
  moreover have "pool_ok (commit_block blk h p)"
    using Cons.prems none by (intro pool_ok_commit) auto
  moreover have "refs (commit_block blk h p) = refs p" by (simp add: fun_eq_iff refs_eq)
  moreover have "same_static p (commit_block blk h p)" by (simp add: same_static_def)
  ultimately show ?case
    using Cons.IH [of "Suc i" "Some (hash_value h)" hs "commit_block blk h p"] Cons.prems
    by (auto elim: same_static_trans)
qed

lemma set_py_slice: "set (py_slice xs i j) \<subseteq> set xs"
  by (auto simp: py_slice_def Let_def dest: in_set_takeD in_set_dropD)

lemma cache_full_blocks_inv:
  assumes "cache_full_blocks hash_fn none_hash r blocks hashes nc nf bs p = Inr (hashes', p')"
    and "pool_ok p" "enable_caching p" "set blocks \<subseteq> managed p"
  shows "pool_ok p' \<and> refs p' = refs p \<and> same_static p p'"
proof (cases "nc = nf")
  case True
  then show ?thesis using assms by (simp add: cache_full_blocks_def)
next
  case False
  then obtain nh prev where "cache_full_loop hash_fn none_hash r bs nc nh 0
      (py_slice blocks nc nf) prev hashes p = Inr (hashes', p')"
    using assms(1) by (auto simp: cache_full_blocks_def Let_def res_simps)
  moreover have "set (py_slice blocks nc nf) \<subseteq> managed p"
    using assms(4) set_py_slice by fast
  ultimately show ?thesis using cache_full_loop_inv assms(2,3) by blast
qed


definition required_blocks :: "request \<Rightarrow> int \<Rightarrow> nat list \<Rightarrow> int \<Rightarrow> kv_manager \<Rightarrow> int" where
  "required_blocks r ntokens ncb la m =
     cdiv (num_computed_tokens r + py_len ncb * int (block_size m) + ntokens + la)
       (int (block_size m))"

text \<open>The condition under which an allocation is refused.\<close>

definition shortage :: "request \<Rightarrow> int \<Rightarrow> nat list \<Rightarrow> int \<Rightarrow> nat list \<Rightarrow> kv_manager \<Rightarrow> bool" where
  "shortage r ntokens ncb la blocks m \<longleftrightarrow>
     get_num_free_blocks (km_pool m) - py_len (filter (\<lambda>b. refs (km_pool m) b = 0) ncb) <
     required_blocks r ntokens ncb la m - py_len blocks - py_len ncb"

lemma allocated_frame:
  "allocated r ncb req blocks m new m1 \<Longrightarrow> kv_ok m' \<Longrightarrow>
   req_to_blocks m' = req_to_blocks m1 \<Longrightarrow> km_pool m' = km_pool m1 \<Longrightarrow>
   allocated r ncb req blocks m new m'"
  by (simp add: allocated_def)

lemma allocate_new_cases:
  fixes hash_fn :: "hash_input \<Rightarrow> int" and none_hash :: int
  assumes "kv_ok m" "req_to_blocks m (request_id r) = blocks"
    and "\<forall>b \<in> set ncb. b < num_gpu_blocks (km_pool m)"
      "special m = FullAttentionManager \<longrightarrow> 0 \<notin> set ncb"
      "enable_caching (km_pool m) \<or> ncb = []"
    and max: "required_blocks r ntokens ncb la m \<le> max_num_blocks_per_req m"
  defines "alloc \<equiv> allocate_new hash_fn none_hash r ntokens ncb la blocks m"
  shows "(shortage r ntokens ncb la blocks m \<and> alloc = Inr (None, m)) \<or>
    (\<not> shortage r ntokens ncb la blocks m \<and>
     (\<exists>new p2 num_cached num_full.
       let m2 = m\<lparr>km_pool := p2,
                  req_to_blocks := (req_to_blocks m)(request_id r := blocks @ ncb @ new)\<rparr> in
       allocated r ncb (required_blocks r ntokens ncb la m) blocks m new m2 \<and>
       (py_len (blocks @ ncb) \<le> max_num_blocks_per_req m \<longrightarrow>
          py_len (blocks @ ncb @ new) \<le> max_num_blocks_per_req m) \<and>
       alloc = (if \<not> enable_caching p2 then Inr (Some new, m2)
         else ebind (if skip_commit m then Inr (req_to_block_hashes m (request_id r), p2)
                     else cache_full_blocks hash_fn none_hash r (blocks @ ncb @ new)
                            (req_to_block_hashes m (request_id r)) num_cached num_full
                            (int (block_size m)) p2)
                (\<lambda>(hashes, p3). Inr (Some new,
                  m2\<lparr>km_pool := p3,
                     req_to_block_hashes := (req_to_block_hashes m)(request_id r := hashes),
                     num_cached_block := (num_cached_block m)(request_id r \<mapsto> num_full)\<rparr>)))))"
proof (cases "shortage r ntokens ncb la blocks m")
  case True
  then show ?thesis
    by (simp add: alloc_def allocate_new_def Let_def shortage_def required_blocks_def)
next
  case False
  let ?req = "required_blocks r ntokens ncb la m"
  let ?prealloc = "max 0 (num_preallocate_blocks m - la div int (block_size m))"
  let ?p1 = "if enable_caching (km_pool m) then touch ncb (km_pool m) else km_pool m"
  have touch: "(if enable_caching (km_pool m) then Inr (touch ncb (km_pool m))
      else ebind (py_assert (ncb = [])) (\<lambda>_. Inr (km_pool m))) = Inr ?p1"
    using assms(5) by auto
  obtain new p2 where take: "(if ?req - py_len blocks - py_len ncb \<le> 0 then Inr ([], ?p1)
        else let n = min (min (?req - py_len blocks - py_len ncb + ?prealloc)
            (get_num_free_blocks ?p1)) (max_num_blocks_per_req m - py_len (blocks @ ncb))
          in ebind (py_assert (0 < n)) (\<lambda>_. get_new_blocks n ?p1)) = Inr (new, p2)"
    and new: "allocated r ncb ?req blocks m new (m\<lparr>km_pool := p2,
          req_to_blocks := (req_to_blocks m)(request_id r := blocks @ ncb @ new)\<rparr>)"
      "py_len (blocks @ ncb) \<le> max_num_blocks_per_req m \<longrightarrow>
         py_len (blocks @ ncb @ new) \<le> max_num_blocks_per_req m"
    using allocate_new_take [OF assms(1-5) _ max, of ?prealloc] False
    unfolding Let_def shortage_def by (auto simp: not_less)
  have "alloc = (let m2 = m\<lparr>km_pool := p2,
          req_to_blocks := (req_to_blocks m)(request_id r := blocks @ ncb @ new)\<rparr>;
        num_cached = (case num_cached_block m (request_id r) of
                        None \<Rightarrow> py_len ncb | Some n \<Rightarrow> n);
        num_full = (num_computed_tokens r + py_len ncb * int (block_size m) + ntokens -
                    py_len (spec_token_ids r)) div int (block_size m)
      in if \<not> enable_caching p2 then Inr (Some new, m2)
         else ebind (if skip_commit m then Inr (req_to_block_hashes m (request_id r), p2)
                     else cache_full_blocks hash_fn none_hash r (blocks @ ncb @ new)
                            (req_to_block_hashes m (request_id r)) num_cached num_full
                            (int (block_size m)) p2)
                (\<lambda>(hashes, p3). Inr (Some new,
                  m2\<lparr>km_pool := p3,
                     req_to_block_hashes := (req_to_block_hashes m)(request_id r := hashes),
                     num_cached_block := (num_cached_block m)(request_id r \<mapsto> num_full)\<rparr>)))"
    using False take
    unfolding alloc_def allocate_new_def shortage_def required_blocks_def Let_def
    by (simp only: if_False touch ebind_simps prod.case append_assoc)
  with False new show ?thesis unfolding Let_def by blast
qed


text \<open>The first part of \<open>allocate_slots\<close>: skipped blocks go back to the pool.\<close>

lemma allocate_slots_prep:
  fixes hash_fn :: "hash_input \<Rightarrow> int" and none_hash :: int
  assumes ok: "kv_ok m" and "window_ok m" "0 < ntokens"
    and "special m = FullAttentionManager \<or>
      num_computed_tokens r \<le> py_len (req_to_blocks m (request_id r)) * int (block_size m)"
  shows "\<exists>blocks p. let m1 = m\<lparr>km_pool := p,
        req_to_blocks := (req_to_blocks m)(request_id r := blocks)\<rparr> in
      allocate_slots hash_fn none_hash r ntokens ncb la m =
        allocate_new hash_fn none_hash r ntokens ncb la blocks m1 \<and>
      kv_ok m1 \<and> same_static (km_pool m) p \<and> same_cache (km_pool m) p \<and>
      length blocks = length (req_to_blocks m (request_id r)) \<and>
      (special m = FullAttentionManager \<longrightarrow> m1 = m)"
proof -
  let ?bs = "req_to_blocks m (request_id r)"
  have pool: "pool_ok (km_pool m)" and fin: "finite {i. req_to_blocks m i \<noteq> []}"
    and "0 < block_size m"
    using ok by (simp_all add: kv_ok_def)
  moreover have "null_block (km_pool m) = 0" using pool by (simp add: pool_ok_def)
  ultimately obtain rs blocks where rm:
    "remove_skipped_blocks m ?bs (num_computed_tokens r) = Inr (rs, blocks)"
    "length blocks = length ?bs" "set rs \<subseteq> set ?bs"
    "set blocks \<subseteq> (if special m = FullAttentionManager then set ?bs else insert 0 (set ?bs))"
    "\<forall>b. b \<noteq> 0 \<longrightarrow> count_list ?bs b = count_list rs b + count_list blocks b"
    using remove_skipped_blocks_ok [OF _ _ assms(2,4)] by blast
  have count: "int (count_list rs b) \<le> refs (km_pool m) b" if "b \<in> managed (km_pool m)" for b
  proof -
    have "count_list rs b \<le> count_list ?bs b"
      using rm(5) that by (auto simp: managed_def)
    then have "int (count_list rs b) \<le> table_count (req_to_blocks m) b"
      using table_count_ge [OF fin, of "request_id r" b] by linarith
    then show ?thesis using ok that by (simp add: kv_ok_def)
  qed
  moreover have "\<forall>b \<in> set rs. b < num_gpu_blocks (km_pool m)"
    using rm(3) ok by (auto simp: kv_ok_def)
  ultimately obtain p where p: "free_blocks rs (km_pool m) = Inr p" "pool_ok p"
    "refs p = add_refs (refs (km_pool m)) (- 1) rs" "same_static (km_pool m) p"
    "same_cache (km_pool m) p"
    using free_blocks_ok [OF pool, of rs] by blast
  have "kv_ok (m\<lparr>km_pool := p, req_to_blocks := (req_to_blocks m)(request_id r := blocks)\<rparr>)"
  proof (rule kv_ok_retable [OF ok p(2,4)])
    have N: "0 < num_gpu_blocks (km_pool m)" using pool by (simp add: pool_ok_def)
    have bound: "\<forall>b \<in> set ?bs. b < num_gpu_blocks (km_pool m)"
      using ok by (simp add: kv_ok_def)
    show "\<forall>b \<in> set blocks. b < num_gpu_blocks (km_pool m)"
      using rm(4) bound N by (auto split: if_splits)
    show "special m = FullAttentionManager \<longrightarrow> (\<forall>b \<in> set blocks. b \<noteq> 0)"
    proof (intro impI ballI)
      fix b assume "special m = FullAttentionManager" "b \<in> set blocks"
      moreover from this have "b \<in> set ?bs" using rm(4) by auto
      ultimately show "b \<noteq> 0" using ok unfolding kv_ok_def by blast
    qed
    show "\<forall>b \<in> managed (km_pool m). refs p b =
        refs (km_pool m) b - int (count_list ?bs b) + int (count_list blocks b)"
      using p(3) rm(5) by (auto simp: add_refs_def managed_def)
  qed
  moreover have "special m = FullAttentionManager \<longrightarrow> rs = [] \<and> blocks = ?bs"
    using rm(1) by (auto simp: remove_skipped_blocks_def)
  then have "special m = FullAttentionManager \<longrightarrow>
      m\<lparr>km_pool := p, req_to_blocks := (req_to_blocks m)(request_id r := blocks)\<rparr> = m"
    using p(1) by (auto simp: free_blocks_def)
  ultimately show ?thesis
    using rm(1,2) p(1,4,5) assms(3) unfolding Let_def
    by (intro exI [of _ blocks] exI [of _ p]) (simp add: allocate_slots_def)
qed

lemma allocated_not_in_tables:
  assumes "allocated r ncb req blocks m new m'" "kv_ok m" "b \<in> set new"
  shows "b \<notin> set (req_to_blocks m i)"
proof -
  have "b \<in> managed (km_pool m)" "refs (km_pool m) b = 0"
    using assms(1,3) by (auto simp: allocated_def)
  then have "table_count (req_to_blocks m) b = 0" and fin: "finite {i. req_to_blocks m i \<noteq> []}"
    using assms(2) by (simp_all add: kv_ok_def)
  then have "count_list (req_to_blocks m i) b = 0"
    using table_count_ge [OF fin, of i b] by simp
  then show ?thesis by (simp add: count_list_0_iff)
qed


text \<open>
  The variants that commit nothing to the cache: caching is disabled, or the commit is skipped.
\<close>

lemma allocate_new_uncommitted:
  fixes hash_fn :: "hash_input \<Rightarrow> int" and none_hash :: int
  assumes "kv_ok m" "req_to_blocks m (request_id r) = blocks"
    and "\<forall>b \<in> set ncb. b < num_gpu_blocks (km_pool m)"
      "special m = FullAttentionManager \<longrightarrow> 0 \<notin> set ncb"
      "enable_caching (km_pool m) \<or> ncb = []"
    and "required_blocks r ntokens ncb la m \<le> max_num_blocks_per_req m"
    and "skip_commit m \<or> \<not> enable_caching (km_pool m)"
  shows "if shortage r ntokens ncb la blocks m
    then allocate_new hash_fn none_hash r ntokens ncb la blocks m = Inr (None, m)
    else \<exists>new m'. allocate_new hash_fn none_hash r ntokens ncb la blocks m = Inr (Some new, m') \<and>
      allocated r ncb (required_blocks r ntokens ncb la m) blocks m new m' \<and>
      special m' = special m \<and> skip_commit m' = skip_commit m \<and> block_size m' = block_size m \<and>
      max_num_blocks_per_req m' = max_num_blocks_per_req m \<and>
      (py_len (blocks @ ncb) \<le> max_num_blocks_per_req m \<longrightarrow>
         py_len (blocks @ ncb @ new) \<le> max_num_blocks_per_req m)"
proof (cases "shortage r ntokens ncb la blocks m")
  case True
  then show ?thesis using allocate_new_cases [OF assms(1-6), of hash_fn none_hash] by simp
next
  case False
  from allocate_new_cases [OF assms(1-6), of hash_fn none_hash] False
  obtain new p2 nc nf where
    new: "allocated r ncb (required_blocks r ntokens ncb la m) blocks m new (m\<lparr>km_pool := p2,
        req_to_blocks := (req_to_blocks m)(request_id r := blocks @ ncb @ new)\<rparr>)"
      "py_len (blocks @ ncb) \<le> max_num_blocks_per_req m \<longrightarrow>
         py_len (blocks @ ncb @ new) \<le> max_num_blocks_per_req m"
    and res: "allocate_new hash_fn none_hash r ntokens ncb la blocks m =
      (let m2 = m\<lparr>km_pool := p2,
                  req_to_blocks := (req_to_blocks m)(request_id r := blocks @ ncb @ new)\<rparr> in
       if \<not> enable_caching p2 then Inr (Some new, m2)
       else ebind (if skip_commit m then Inr (req_to_block_hashes m (request_id r), p2)
                     else cache_full_blocks hash_fn none_hash r (blocks @ ncb @ new)
                            (req_to_block_hashes m (request_id r)) nc nf
                            (int (block_size m)) p2)
                (\<lambda>(hashes, p3). Inr (Some new,
                  m2\<lparr>km_pool := p3,
                     req_to_block_hashes := (req_to_block_hashes m)(request_id r := hashes),
                     num_cached_block := (num_cached_block m)(request_id r \<mapsto> nf)\<rparr>)))"
    unfolding Let_def by blast
  have "enable_caching p2 = enable_caching (km_pool m)"
    using new(1) by (simp add: allocated_def same_static_def)
  then have "\<exists>m'. allocate_new hash_fn none_hash r ntokens ncb la blocks m = Inr (Some new, m') \<and>
      km_pool m' = p2 \<and>
      req_to_blocks m' = (req_to_blocks m)(request_id r := blocks @ ncb @ new) \<and>
      special m' = special m \<and> skip_commit m' = skip_commit m \<and> block_size m' = block_size m \<and>
      max_num_blocks_per_req m' = max_num_blocks_per_req m"
    using assms(7) unfolding res by (cases "enable_caching p2") (auto simp: Let_def)
  then obtain m' where
    m': "allocate_new hash_fn none_hash r ntokens ncb la blocks m = Inr (Some new, m')"
      "km_pool m' = p2" "req_to_blocks m' = (req_to_blocks m)(request_id r := blocks @ ncb @ new)"
      "special m' = special m" "skip_commit m' = skip_commit m" "block_size m' = block_size m"
      "max_num_blocks_per_req m' = max_num_blocks_per_req m"
    by blast
  have "kv_ok m'"
    by (rule kv_ok_frame [of "m\<lparr>km_pool := p2,
        req_to_blocks := (req_to_blocks m)(request_id r := blocks @ ncb @ new)\<rparr>"])
      (use new(1) m' in \<open>simp_all add: allocated_def\<close>)
  then have "allocated r ncb (required_blocks r ntokens ncb la m) blocks m new m'"
    by (rule allocated_frame [OF new(1)]) (use m' in simp_all)
  with False m' new(2) show ?thesis by auto
qed


section \<open>The manager as a machine\<close>

text \<open>
  One call of the scheduler on the manager. \<open>Admit\<close> looks up the prefix cache for a waiting
  request and allocates with the hits, \<open>Extend\<close> allocates for a running one; the side
  conditions are what the scheduler asserts or guarantees (a positive number of tokens, within
  \<open>max_model_len\<close>).
\<close>

inductive kv_step ::
  "(hash_input \<Rightarrow> int) \<Rightarrow> int \<Rightarrow> kv_manager \<Rightarrow> kv_manager \<Rightarrow> bool"
  for hash_fn :: "hash_input \<Rightarrow> int" and none_hash :: int where
  admit:
  "get_computed_blocks hash_fn none_hash r m = Inr ((cb, nc), m1) \<Longrightarrow> 0 < n \<Longrightarrow>
   required_blocks r n cb 0 m1 \<le> max_num_blocks_per_req m1 \<Longrightarrow>
   allocate_slots hash_fn none_hash r n cb 0 m1 = Inr (res, m') \<Longrightarrow>
   kv_step hash_fn none_hash m m'"
| extend:
  "0 < n \<Longrightarrow> required_blocks r n [] la m \<le> max_num_blocks_per_req m \<Longrightarrow>
   allocate_slots hash_fn none_hash r n [] la m = Inr (res, m') \<Longrightarrow>
   kv_step hash_fn none_hash m m'"
| free: "free r m = Inr m' \<Longrightarrow> kv_step hash_fn none_hash m m'"
| free_hashes: "kv_step hash_fn none_hash m (free_block_hashes r m)"
| reset: "kv_step hash_fn none_hash m (snd (reset_prefix_cache m))"
| stats: "kv_step hash_fn none_hash m (snd (make_prefix_cache_stats m))"

subsection \<open>The speculative manager\<close>

text \<open>No block has a hash, and no block is referenced twice.\<close>

definition sp_ok :: "kv_manager \<Rightarrow> bool" where
  "sp_ok m \<longleftrightarrow> kv_ok m \<and> special m = FullAttentionManager \<and> skip_commit m \<and>
     (\<forall>b. block_hash (bp_blocks (km_pool m) b) = None) \<and>
     (\<forall>b \<in> managed (km_pool m). refs (km_pool m) b \<le> 1)"

lemma sp_no_hit: "sp_ok m \<Longrightarrow> get_cached_block (km_pool m) h = None"
proof -
  assume ok: "sp_ok m"
  show "get_cached_block (km_pool m) h = None"
  proof (cases "cached_block_hash_to_block (km_pool m) h")
    case None
    then show ?thesis by (simp add: get_cached_block_def)
  next
    case (Some d)
    then have "entry_ok (km_pool m) h d"
      using ok by (simp add: sp_ok_def kv_ok_def pool_ok_def cache_ok_def)
    then show ?thesis
      using ok by (cases d) (auto simp: entry_ok_def sp_ok_def)
  qed
qed

lemma sp_full_cache_hit: "sp_ok m \<Longrightarrow> full_cache_hit (km_pool m) hs = []"
  by (cases hs) (simp_all add: sp_no_hit)

lemma sp_ok_frame:
  "sp_ok m \<Longrightarrow> block_size m' = block_size m \<Longrightarrow> special m' = special m \<Longrightarrow>
   skip_commit m' = skip_commit m \<Longrightarrow> km_pool m' = km_pool m \<Longrightarrow>
   req_to_blocks m' = req_to_blocks m \<Longrightarrow> sp_ok m'"
  by (auto simp: sp_ok_def intro: kv_ok_frame)

lemma get_computed_blocks_frame:
  assumes "get_computed_blocks hash_fn none_hash r m = Inr ((cb, nc), m1)"
  shows "km_pool m1 = km_pool m \<and> req_to_blocks m1 = req_to_blocks m \<and>
    block_size m1 = block_size m \<and> special m1 = special m \<and> skip_commit m1 = skip_commit m \<and>
    max_num_blocks_per_req m1 = max_num_blocks_per_req m \<and>
    (cb = [] \<and> nc = 0 \<or> (\<exists>hs. cb = find_longest_cache_hit m hs \<and>
       nc = py_len cb * int (block_size m)))"
proof (cases "enable_caching (km_pool m)")
  case False
  then show ?thesis using assms by (simp add: get_computed_blocks_def)
next
  case True
  have hit: "find_longest_cache_hit
      (m\<lparr>req_to_block_hashes := f, km_stats := s\<rparr>) hs = find_longest_cache_hit m hs" for f s hs
    by (cases "special m") (simp_all add: find_longest_cache_hit_def)
  from assms True obtain hashes where m1: "(let m1 = m\<lparr>req_to_block_hashes :=
        (req_to_block_hashes m)(request_id r := hashes),
        km_stats := (km_stats m)\<lparr>stats_requests := stats_requests (km_stats m) + 1\<rparr>\<rparr>
      in if prompt_logprobs (params r) \<noteq> None then Inr (([], 0), m1)
         else ebind (if py_len hashes * int (block_size m) = num_tokens r
                     then (if hashes = [] then Inl IndexError else Inr (butlast hashes))
                     else Inr hashes) (\<lambda>searched.
           (let computed = find_longest_cache_hit m1 searched;
                s = km_stats m1;
                m2 = m1\<lparr>km_stats := s\<lparr>stats_queries := stats_queries s + py_len searched,
                                      stats_hits := stats_hits s + py_len computed\<rparr>\<rparr>
            in Inr ((computed, py_len computed * int (block_size m)), m2)))) = Inr ((cb, nc), m1)"
    by (auto simp only: get_computed_blocks_def simp_thms if_False ebind_eq_Inr)
  show ?thesis
  proof (cases "prompt_logprobs (params r)")
    case None
    from m1 show ?thesis
      unfolding Let_def None by (auto simp: ebind_eq_Inr hit)
  next
    case Some
    then show ?thesis using m1 by (auto simp: Let_def)
  qed
qed

lemma sp_get_computed_blocks:
  assumes "sp_ok m" "get_computed_blocks hash_fn none_hash r m = Inr ((cb, nc), m1)"
  shows "cb = [] \<and> nc = 0 \<and> sp_ok m1"
  using get_computed_blocks_frame [OF assms(2)] assms(1) sp_full_cache_hit
  by (auto simp: find_longest_cache_hit_def sp_ok_def intro: kv_ok_frame)

lemma sp_allocate_cases:
  assumes "sp_ok m" "0 < n" "required_blocks r n [] la m \<le> max_num_blocks_per_req m"
  shows "if shortage r n [] la (req_to_blocks m (request_id r)) m
    then allocate_slots hash_fn none_hash r n [] la m = Inr (None, m)
    else \<exists>new m'. allocate_slots hash_fn none_hash r n [] la m = Inr (Some new, m') \<and>
      allocated r [] (required_blocks r n [] la m) (req_to_blocks m (request_id r)) m new m' \<and>
      special m' = special m \<and> skip_commit m' = skip_commit m \<and> block_size m' = block_size m \<and>
      max_num_blocks_per_req m' = max_num_blocks_per_req m"
proof -
  let ?bs = "req_to_blocks m (request_id r)"
  have full: "special m = FullAttentionManager" and ok: "kv_ok m" and skip: "skip_commit m"
    using assms(1) by (simp_all add: sp_ok_def)
  have "window_ok m" using full by (simp add: window_ok_def)
  from allocate_slots_prep [OF ok this assms(2) disjI1 [OF full],
      where hash_fn = hash_fn and none_hash = none_hash and ncb = "[]" and la = la]
  obtain blocks p where alloc: "allocate_slots hash_fn none_hash r n [] la m =
      allocate_new hash_fn none_hash r n [] la blocks (m\<lparr>km_pool := p,
        req_to_blocks := (req_to_blocks m)(request_id r := blocks)\<rparr>)"
    and m: "m\<lparr>km_pool := p,
        req_to_blocks := (req_to_blocks m)(request_id r := blocks)\<rparr> = m"
    unfolding Let_def using full by blast
  have "?bs = blocks"
    using arg_cong [OF m, of "\<lambda>m. req_to_blocks m (request_id r)"] by simp
  with alloc m
  have alloc: "allocate_slots hash_fn none_hash r n [] la m =
      allocate_new hash_fn none_hash r n [] la ?bs m"
    by simp
  show ?thesis
    using allocate_new_uncommitted [OF ok refl _ _ _ assms(3) disjI1 [OF skip],
        of hash_fn none_hash, simplified]
    unfolding alloc by (auto split: if_splits)
qed

lemma sp_allocate:
  assumes "sp_ok m" "0 < n" "required_blocks r n [] la m \<le> max_num_blocks_per_req m"
    and "allocate_slots hash_fn none_hash r n [] la m = Inr (res, m')"
  shows "sp_ok m'"
proof -
  let ?bs = "req_to_blocks m (request_id r)"
  have ok: "kv_ok m" using assms(1) by (simp add: sp_ok_def)
  note cases = sp_allocate_cases [OF assms(1-3), of hash_fn none_hash]
  show ?thesis
  proof (cases "shortage r n [] la ?bs m")
    case True
    then show ?thesis using cases assms(1,4) by simp
  next
    case False
    then obtain new where new:
      "allocated r [] (required_blocks r n [] la m) ?bs m new m'"
      "special m' = special m" "skip_commit m' = skip_commit m"
      using cases assms(4) by auto
    have fin: "finite {i. req_to_blocks m i \<noteq> []}" using ok by (simp add: kv_ok_def)
    have "refs (km_pool m') b \<le> 1" if b: "b \<in> managed (km_pool m')" for b
    proof -
      have b': "b \<in> managed (km_pool m)"
        using new(1) b same_static_managed by (auto simp: allocated_def)
      have "refs (km_pool m') b = table_count (req_to_blocks m') b"
        using new(1) b by (simp add: allocated_def kv_ok_def)
      also have "req_to_blocks m' = (req_to_blocks m)(request_id r := ?bs @ new)"
        using new(1) by (simp add: allocated_def)
      also have "table_count \<dots> b = table_count (req_to_blocks m) b + int (count_list new b)"
        by (simp add: table_count_upd [OF fin])
      also have "table_count (req_to_blocks m) b = refs (km_pool m) b"
        using ok b' by (simp add: kv_ok_def)
      also have "refs (km_pool m) b + int (count_list new b) \<le> 1"
      proof (cases "b \<in> set new")
        case True
        then have "refs (km_pool m) b = 0" "distinct new"
          using new(1) by (auto simp: allocated_def)
        with True show ?thesis
          by (simp add: count_list_eq_length_filter distinct_length_filter)
      next
        case False
        then have "count_list new b = 0" by (simp add: count_list_0_iff)
        then show ?thesis using assms(1) b' by (simp add: sp_ok_def)
      qed
      finally show ?thesis .
    qed
    then show ?thesis
      using new assms(1) by (simp add: sp_ok_def allocated_def)
  qed
qed


lemma sp_free:
  assumes "sp_ok m" "free r m = Inr m'"
  shows "sp_ok m'"
proof -
  have ok: "kv_ok m" using assms(1) by (simp add: sp_ok_def)
  from free_ok [OF ok, of r] assms(2) have
    f: "kv_ok m'" "same_static (km_pool m) (km_pool m')" "same_cache (km_pool m) (km_pool m')"
      "\<forall>b \<in> managed (km_pool m). refs (km_pool m') b =
         refs (km_pool m) b - int (count_list (req_to_blocks m (request_id r)) b)"
    by auto
  have "special m' = special m" "skip_commit m' = skip_commit m"
    using assms(2) by (auto simp: free_def Let_def res_simps)
  moreover have "refs (km_pool m') b \<le> 1" if "b \<in> managed (km_pool m')" for b
  proof -
    have "b \<in> managed (km_pool m)" using that same_static_managed [OF f(2)] by simp
    then have "refs (km_pool m') b \<le> refs (km_pool m) b" "refs (km_pool m) b \<le> 1"
      using f(4) assms(1) by (auto simp: sp_ok_def)
    then show ?thesis by linarith
  qed
  ultimately show ?thesis
    using f assms(1) by (simp add: sp_ok_def same_cache_def)
qed

lemma kv_ok_reset:
  assumes "kv_ok m"
  shows "kv_ok (snd (reset_prefix_cache m)) \<and>
    refs (km_pool (snd (reset_prefix_cache m))) = refs (km_pool m) \<and>
    same_static (km_pool m) (km_pool (snd (reset_prefix_cache m))) \<and>
    req_to_blocks (snd (reset_prefix_cache m)) = req_to_blocks m \<and>
    special (snd (reset_prefix_cache m)) = special m \<and>
    skip_commit (snd (reset_prefix_cache m)) = skip_commit m \<and>
    (\<forall>b. block_hash (bp_blocks (km_pool m) b) = None \<longrightarrow>
       block_hash (bp_blocks (km_pool (snd (reset_prefix_cache m))) b) = None)"
proof -
  obtain ok p where p: "reset_pool_cache (km_pool m) = (ok, p)" by fastforce
  have pool: "pool_ok (km_pool m)" using assms by (simp add: kv_ok_def)
  have "pool_ok p"
    using reset_pool_ok [OF pool] p by simp
  moreover have "refs p = refs (km_pool m)" "same_static (km_pool m) p"
    "\<forall>b. block_hash (bp_blocks (km_pool m) b) = None \<longrightarrow> block_hash (bp_blocks p b) = None"
    using p by (auto simp: reset_pool_cache_def Let_def fun_eq_iff refs_eq fold_reset_hash same_static_def
        split: if_splits)
  moreover have "managed p = managed (km_pool m)" "num_gpu_blocks p = num_gpu_blocks (km_pool m)"
    using calculation(3) by (simp_all add: same_static_def managed_def)
  ultimately show ?thesis
    using assms by (cases ok) (simp_all add: reset_prefix_cache_def p kv_ok_def)
qed

lemma sp_step_ok:
  assumes "kv_step hash_fn none_hash m m'" "sp_ok m"
  shows "sp_ok m'"
  using assms(1)
proof cases
  case (admit r cb nc m1 n res)
  have "cb = [] \<and> nc = 0 \<and> sp_ok m1"
    by (rule sp_get_computed_blocks [OF assms(2) admit(1)])
  then show ?thesis using admit sp_allocate by blast
next
  case (extend n r la res)
  then show ?thesis using assms(2) sp_allocate by blast
next
  case (free r)
  then show ?thesis using assms(2) sp_free by blast
next
  case (free_hashes r)
  then show ?thesis
    using assms(2) by (auto simp: free_block_hashes_def intro: sp_ok_frame)
next
  case reset
  have ok: "kv_ok m" using assms(2) by (simp add: sp_ok_def)
  show ?thesis
    using kv_ok_reset [OF ok] assms(2) same_static_managed by (auto simp: reset sp_ok_def)
next
  case stats
  then show ?thesis
    using assms(2) by (auto simp: make_prefix_cache_stats_def intro: sp_ok_frame)
qed

lemma init_kv_manager_ok:
  assumes "init_kv_manager bs kind N mml caching pre = Inr m"
  shows "kv_ok m \<and> special m = kind \<and> \<not> skip_commit m \<and> num_gpu_blocks (km_pool m) = N \<and>
    block_size m = bs \<and> max_num_blocks_per_req m = cdiv mml (int bs) \<and>
    enable_caching (km_pool m) = caching \<and>
    (\<forall>b. refs (km_pool m) b = 0 \<and> block_hash (bp_blocks (km_pool m) b) = None) \<and>
    req_to_blocks m = (\<lambda>_. [])"
proof -
  obtain p where p: "init_block_pool N caching = Inr p" and bs: "0 < bs"
    using assms by (auto simp: init_kv_manager_def res_simps split: if_splits)
  then have "0 < N" by (auto simp: init_block_pool_def res_simps)
  then show ?thesis
    using assms p bs init_block_pool_ok [of N caching]
    by (auto simp: init_kv_manager_def kv_ok_def)
qed

lemma init_sp_ok:
  assumes "init_sp_kv_manager bs FullAttentionManager N mml caching pre = Inr m"
  shows "sp_ok m \<and> num_gpu_blocks (km_pool m) = N"
proof -
  obtain m0 where m0: "init_kv_manager bs FullAttentionManager N mml caching pre = Inr m0"
    "m = m0\<lparr>skip_commit := True\<rparr>"
    using assms by (auto simp: init_sp_kv_manager_def res_simps)
  from init_kv_manager_ok [OF m0(1)] show ?thesis
    by (auto simp: m0(2) sp_ok_def intro: kv_ok_frame)
qed

lemma sp_reachable_ok:
  "(kv_step hash_fn none_hash)\<^sup>*\<^sup>* m m' \<Longrightarrow> sp_ok m \<Longrightarrow> sp_ok m'"
  by (induction rule: rtranclp_induct) (auto intro: sp_step_ok)

subsection \<open>Full attention with prefix caching\<close>

definition full_ok :: "kv_manager \<Rightarrow> bool" where
  "full_ok m \<longleftrightarrow> kv_ok m \<and> special m = FullAttentionManager"

text \<open>The blocks of a hit are managed blocks.\<close>

lemma cached_block_managed:
  assumes "pool_ok p" "get_cached_block p h = Some b"
  shows "b \<in> managed p"
proof -
  obtain k d where "cached_block_hash_to_block p h = Some ((k, b) # d)"
    using assms(2) by (auto simp: get_cached_block_def split: option.splits list.splits)
  then have "entry_ok p h ((k, b) # d)"
    using assms(1) by (simp add: pool_ok_def cache_ok_def)
  then show ?thesis by (simp add: entry_ok_def)
qed

lemma full_cache_hit_managed: "pool_ok p \<Longrightarrow> set (full_cache_hit p hs) \<subseteq> managed p"
proof (induction hs)
  case (Cons h hs)
  then show ?case
    using cached_block_managed [of p h] by (cases "get_cached_block p h") simp_all
qed simp

lemma full_tables_managed:
  assumes "kv_ok m" "special m = FullAttentionManager"
  shows "set (req_to_blocks m i) \<subseteq> managed (km_pool m)"
proof
  fix b assume "b \<in> set (req_to_blocks m i)"
  then have "b < num_gpu_blocks (km_pool m)" "b \<noteq> 0"
    using assms unfolding kv_ok_def by blast+
  then show "b \<in> managed (km_pool m)" by (simp add: managed_def Suc_le_eq)
qed

lemma full_allocate:
  assumes "full_ok m" "0 < n" "set cb \<subseteq> managed (km_pool m)"
    and "enable_caching (km_pool m) \<or> cb = []"
    and "required_blocks r n cb la m \<le> max_num_blocks_per_req m"
    and "allocate_slots hash_fn none_hash r n cb la m = Inr (res, m')"
  shows "full_ok m' \<and> same_static (km_pool m) (km_pool m')"
proof -
  let ?bs = "req_to_blocks m (request_id r)"
  have full: "special m = FullAttentionManager" and ok: "kv_ok m"
    using assms(1) by (simp_all add: full_ok_def)
  have "window_ok m" using full by (simp add: window_ok_def)
  from allocate_slots_prep [OF ok this assms(2) disjI1 [OF full],
      where hash_fn = hash_fn and none_hash = none_hash and ncb = cb and la = la]
  obtain blocks p where slots: "allocate_slots hash_fn none_hash r n cb la m =
      allocate_new hash_fn none_hash r n cb la blocks (m\<lparr>km_pool := p,
        req_to_blocks := (req_to_blocks m)(request_id r := blocks)\<rparr>)"
    and m: "m\<lparr>km_pool := p,
        req_to_blocks := (req_to_blocks m)(request_id r := blocks)\<rparr> = m"
    unfolding Let_def using full by blast
  have "?bs = blocks"
    using arg_cong [OF m, of "\<lambda>m. req_to_blocks m (request_id r)"] by simp
  with slots m assms(6)
  have alloc: "allocate_new hash_fn none_hash r n cb la ?bs m = Inr (res, m')"
    by simp
  have cb: "\<forall>b \<in> set cb. b < num_gpu_blocks (km_pool m)"
    "special m = FullAttentionManager \<longrightarrow> 0 \<notin> set cb"
    using assms(3) by (auto simp: managed_def)
  from allocate_new_cases [OF ok refl cb assms(4,5), of hash_fn none_hash]
  show ?thesis
  proof (elim disjE conjE exE)
    assume "allocate_new hash_fn none_hash r n cb la ?bs m = Inr (None, m)"
    with alloc assms(1) show ?thesis by simp
  next
    fix new p2 nc nf
    let ?m2 = "m\<lparr>km_pool := p2,
      req_to_blocks := (req_to_blocks m)(request_id r := ?bs @ cb @ new)\<rparr>"
    assume "let m2 = ?m2 in
       allocated r cb (required_blocks r n cb la m) ?bs m new m2 \<and>
       (py_len (?bs @ cb) \<le> max_num_blocks_per_req m \<longrightarrow>
          py_len (?bs @ cb @ new) \<le> max_num_blocks_per_req m) \<and>
       allocate_new hash_fn none_hash r n cb la ?bs m =
        (if \<not> enable_caching p2 then Inr (Some new, m2)
         else ebind (if skip_commit m then Inr (req_to_block_hashes m (request_id r), p2)
                     else cache_full_blocks hash_fn none_hash r (?bs @ cb @ new)
                            (req_to_block_hashes m (request_id r)) nc nf
                            (int (block_size m)) p2)
                (\<lambda>(hashes, p3). Inr (Some new,
                  m2\<lparr>km_pool := p3,
                     req_to_block_hashes := (req_to_block_hashes m)(request_id r := hashes),
                     num_cached_block := (num_cached_block m)(request_id r \<mapsto> nf)\<rparr>)))"
    then have new: "allocated r cb (required_blocks r n cb la m) ?bs m new ?m2"
      and eq: "(if \<not> enable_caching p2 then Inr (Some new, ?m2)
         else ebind (if skip_commit m then Inr (req_to_block_hashes m (request_id r), p2)
                     else cache_full_blocks hash_fn none_hash r (?bs @ cb @ new)
                            (req_to_block_hashes m (request_id r)) nc nf
                            (int (block_size m)) p2)
                (\<lambda>(hashes, p3). Inr (Some new,
                  ?m2\<lparr>km_pool := p3,
                     req_to_block_hashes := (req_to_block_hashes m)(request_id r := hashes),
                     num_cached_block := (num_cached_block m)(request_id r \<mapsto> nf)\<rparr>)))
        = Inr (res, m')"
      using alloc by (simp_all add: Let_def)
    have ok2: "kv_ok ?m2" and static: "same_static (km_pool m) p2"
      using new by (simp_all add: allocated_def)
    have blocks: "set (?bs @ cb @ new) \<subseteq> managed p2"
      using full_tables_managed [OF ok2, of "request_id r"] full by simp
    obtain p3 where p3: "km_pool m' = p3" "req_to_blocks m' = req_to_blocks ?m2"
      "special m' = special m" "block_size m' = block_size m"
      "pool_ok p3 \<and> refs p3 = refs p2 \<and> same_static p2 p3"
    proof (cases "\<not> enable_caching p2 \<or> skip_commit m")
      case True
      with eq ok2 that [of p2] show ?thesis
        by (auto simp: kv_ok_def split: if_splits)
    next
      case False
      with eq obtain hashes p3 where c: "cache_full_blocks hash_fn none_hash r (?bs @ cb @ new)
          (req_to_block_hashes m (request_id r)) nc nf (int (block_size m)) p2 = Inr (hashes, p3)"
        and m': "m' = ?m2\<lparr>km_pool := p3,
          req_to_block_hashes := (req_to_block_hashes m)(request_id r := hashes),
          num_cached_block := (num_cached_block m)(request_id r \<mapsto> nf)\<rparr>"
        by (auto simp: ebind_eq_Inr)
      have "pool_ok p3 \<and> refs p3 = refs p2 \<and> same_static p2 p3"
        by (rule cache_full_blocks_inv [OF c _ _ blocks])
          (use ok2 False in \<open>simp_all add: kv_ok_def\<close>)
      then show ?thesis by (intro that [of p3]) (simp_all add: m')
    qed
    have "managed p3 = managed p2" "num_gpu_blocks p3 = num_gpu_blocks p2"
      using p3(5) by (simp_all add: same_static_def managed_def)
    then have "kv_ok m'"
      using ok2 p3 by (simp add: kv_ok_def)
    moreover have "same_static (km_pool m) p3"
      using static p3(5) same_static_trans by blast
    ultimately show ?thesis using p3(1,3) full by (simp add: full_ok_def)
  qed
qed

lemma full_step_ok:
  assumes "kv_step hash_fn none_hash m m'" "full_ok m"
  shows "full_ok m' \<and> same_static (km_pool m) (km_pool m')"
  using assms(1)
proof cases
  case (admit r cb nc m1 n res)
  note frame = get_computed_blocks_frame [OF admit(1)]
  have m1: "full_ok m1" "km_pool m1 = km_pool m"
    using assms(2) frame by (auto simp: full_ok_def intro: kv_ok_frame)
  have "set cb \<subseteq> managed (km_pool m1)"
    using frame assms(2) full_cache_hit_managed [of "km_pool m"]
    by (auto simp: full_ok_def find_longest_cache_hit_def kv_ok_def)
  moreover have "enable_caching (km_pool m1) \<or> cb = []"
  proof (cases "enable_caching (km_pool m)")
    case False
    then show ?thesis using admit(1) by (simp add: get_computed_blocks_def)
  qed (simp add: m1(2))
  ultimately show ?thesis
    using full_allocate [OF m1(1) admit(2) _ _ admit(3,4)] m1(2) by simp
next
  case (extend n r la res)
  then show ?thesis using assms(2) full_allocate [of m n "[]"] by simp
next
  case (free r)
  then show ?thesis
    using assms(2) free_ok [of m r]
    by (auto simp: full_ok_def free_def Let_def res_simps)
next
  case (free_hashes r)
  then show ?thesis
    using assms(2) by (auto simp: full_ok_def free_block_hashes_def intro: kv_ok_frame)
next
  case reset
  then show ?thesis using kv_ok_reset [of m] assms(2) by (simp add: full_ok_def)
next
  case stats
  then show ?thesis
    using assms(2) by (auto simp: full_ok_def make_prefix_cache_stats_def intro: kv_ok_frame)
qed

lemma full_reachable_ok:
  "(kv_step hash_fn none_hash)\<^sup>*\<^sup>* m m' \<Longrightarrow> full_ok m \<Longrightarrow>
   full_ok m' \<and> same_static (km_pool m) (km_pool m')"
  by (induction rule: rtranclp_induct) (auto dest: full_step_ok elim: same_static_trans)

section \<open>Properties\<close>

lemma kv_ok_refs:
  "kv_ok m \<Longrightarrow> b \<in> managed (km_pool m) \<Longrightarrow>
   table_count (req_to_blocks m) b = refs (km_pool m) b"
  by (simp add: kv_ok_def)

text \<open>The blocks in use, when no block is referenced twice.\<close>

lemma sp_tables:
  assumes "sp_ok m"
  shows "distinct (req_to_blocks m i)"
    and "i \<noteq> j \<Longrightarrow> set (req_to_blocks m i) \<inter> set (req_to_blocks m j) = {}"
proof -
  have ok: "kv_ok m" and full: "special m = FullAttentionManager"
    using assms by (simp_all add: sp_ok_def)
  have fin: "finite {i. req_to_blocks m i \<noteq> []}" using ok by (simp add: kv_ok_def)
  have one: "table_count (req_to_blocks m) b \<le> 1" if "b \<in> set (req_to_blocks m i)" for b i
  proof -
    have "b \<in> managed (km_pool m)" using full_tables_managed [OF ok full] that by blast
    then show ?thesis using assms kv_ok_refs [OF ok, of b] by (simp add: sp_ok_def)
  qed
  show "distinct (req_to_blocks m i)"
  proof (rule ccontr)
    assume "\<not> distinct (req_to_blocks m i)"
    then obtain xs ys zs b where "req_to_blocks m i = xs @ [b] @ ys @ [b] @ zs"
      using not_distinct_decomp by blast
    then have "2 \<le> count_list (req_to_blocks m i) b" "b \<in> set (req_to_blocks m i)" by simp_all
    with one [of b i] table_count_ge [OF fin, of i b] show False by linarith
  qed
  show "set (req_to_blocks m i) \<inter> set (req_to_blocks m j) = {}" if "i \<noteq> j"
  proof (rule ccontr)
    assume "set (req_to_blocks m i) \<inter> set (req_to_blocks m j) \<noteq> {}"
    then obtain b where b: "b \<in> set (req_to_blocks m i)" "b \<in> set (req_to_blocks m j)" by auto
    let ?A = "{i. req_to_blocks m i \<noteq> []}"
    have sub: "{i, j} \<subseteq> ?A" using b by auto
    have "(\<Sum>k \<in> {i, j}. int (count_list (req_to_blocks m k) b)) \<le> table_count (req_to_blocks m) b"
      unfolding table_count_def using fin sub by (intro sum_mono2) auto
    moreover have "0 < count_list (req_to_blocks m i) b" "0 < count_list (req_to_blocks m j) b"
      using b count_list_0_iff [of _ b] by (metis gr0I)+
    ultimately show False using one [OF b(1)] that by simp
  qed
qed

lemma sp_free_blocks:
  assumes "sp_ok m"
  shows "get_num_free_blocks (km_pool m) = int (num_gpu_blocks (km_pool m)) - 1 -
    (\<Sum>i | req_to_blocks m i \<noteq> []. py_len (req_to_blocks m i))"
proof -
  have ok: "kv_ok m" and full: "special m = FullAttentionManager"
    using assms by (simp_all add: sp_ok_def)
  let ?f = "req_to_blocks m" and ?p = "km_pool m"
  let ?A = "{i. ?f i \<noteq> []}"
  have fin: "finite ?A" and pool: "pool_ok ?p" using ok by (simp_all add: kv_ok_def)
  have used: "{b \<in> managed ?p. refs ?p b \<noteq> 0} = (\<Union>i \<in> ?A. set (?f i))"
  proof
    show "{b \<in> managed ?p. refs ?p b \<noteq> 0} \<subseteq> (\<Union>i \<in> ?A. set (?f i))"
    proof
      fix b assume "b \<in> {b \<in> managed ?p. refs ?p b \<noteq> 0}"
      then have "table_count ?f b \<noteq> 0" using kv_ok_refs [OF ok, of b] by simp
      then obtain i where "i \<in> ?A" "count_list (?f i) b \<noteq> 0"
        unfolding table_count_def by (auto elim: sum.not_neutral_contains_not_neutral)
      then show "b \<in> (\<Union>i \<in> ?A. set (?f i))" by (auto simp: count_list_0_iff)
    qed
    show "(\<Union>i \<in> ?A. set (?f i)) \<subseteq> {b \<in> managed ?p. refs ?p b \<noteq> 0}"
    proof
      fix b assume "b \<in> (\<Union>i \<in> ?A. set (?f i))"
      then obtain i where i: "b \<in> set (?f i)" by blast
      then have "count_list (?f i) b \<noteq> 0" by (simp add: count_list_0_iff)
      then have "table_count ?f b \<noteq> 0" using table_count_ge [OF fin, of i b] by linarith
      moreover have "b \<in> managed ?p" using full_tables_managed [OF ok full] i by blast
      ultimately show "b \<in> {b \<in> managed ?p. refs ?p b \<noteq> 0}"
        using kv_ok_refs [OF ok, of b] by simp
    qed
  qed
  have "card {b \<in> managed ?p. refs ?p b \<noteq> 0} = (\<Sum>i \<in> ?A. card (set (?f i)))"
    unfolding used using fin sp_tables(2) [OF assms] by (intro card_UN_disjoint) auto
  also have "\<dots> = (\<Sum>i \<in> ?A. length (?f i))"
    using sp_tables(1) [OF assms] by (simp add: distinct_card)
  finally have card: "card {b \<in> managed ?p. refs ?p b \<noteq> 0} = (\<Sum>i \<in> ?A. length (?f i))" .
  have split: "managed ?p = {b \<in> managed ?p. refs ?p b = 0} \<union> {b \<in> managed ?p. refs ?p b \<noteq> 0}"
    by auto
  have "card (managed ?p) = card {b \<in> managed ?p. refs ?p b = 0} +
      card {b \<in> managed ?p. refs ?p b \<noteq> 0}"
    by (subst split, rule card_Un_disjoint) (auto simp: managed_def)
  moreover have "0 < num_gpu_blocks ?p" using pool by (simp add: pool_ok_def)
  then have "int (card (managed ?p)) = int (num_gpu_blocks ?p) - 1" by (simp add: managed_def)
  ultimately show ?thesis
    using num_free_card [OF pool] card by (simp add: py_len_def)
qed


text \<open>
  C23: the manager leaks no block. With full attention, with or without prefix caching, after any
  sequence of operations a block is referenced exactly as often as it occurs in block tables,
  and once every table is empty all blocks but the null block are free again.
\<close>

theorem kv_manager_no_leak:
  assumes "init_kv_manager bs FullAttentionManager N mml caching pre = Inr m0"
    and "(kv_step hash_fn none_hash)\<^sup>*\<^sup>* m0 m"
  shows "(\<forall>b \<in> managed (km_pool m). refs (km_pool m) b = table_count (req_to_blocks m) b) \<and>
    ((\<forall>i. req_to_blocks m i = []) \<longrightarrow> get_num_free_blocks (km_pool m) = int N - 1)"
proof -
  have m0: "full_ok m0" "num_gpu_blocks (km_pool m0) = N"
    using init_kv_manager_ok [OF assms(1)] by (simp_all add: full_ok_def)
  have m: "full_ok m" "same_static (km_pool m0) (km_pool m)"
    using full_reachable_ok [OF assms(2) m0(1)] by simp_all
  then have N: "num_gpu_blocks (km_pool m) = N" using m0(2) by (simp add: same_static_def)
  have pool: "pool_ok (km_pool m)" and refs:
    "\<forall>b \<in> managed (km_pool m). refs (km_pool m) b = table_count (req_to_blocks m) b"
    using m(1) by (simp_all add: full_ok_def kv_ok_def)
  have "get_num_free_blocks (km_pool m) = int N - 1" if "\<forall>i. req_to_blocks m i = []"
  proof -
    have "req_to_blocks m = (\<lambda>_. [])" using that by auto
    then have "{b \<in> managed (km_pool m). refs (km_pool m) b = 0} = managed (km_pool m)"
      using refs by auto
    moreover have "0 < num_gpu_blocks (km_pool m)" using pool by (simp add: pool_ok_def)
    ultimately show ?thesis
      using num_free_card [OF pool] N by (simp add: managed_def)
  qed
  with refs show ?thesis by blast
qed

lemma allocate_slots_uncommitted:
  fixes hash_fn :: "hash_input \<Rightarrow> int" and none_hash :: int
  assumes "kv_ok m" "special m = FullAttentionManager"
    and "skip_commit m \<or> \<not> enable_caching (km_pool m)" "0 < n"
    and "set cb \<subseteq> managed (km_pool m)" "enable_caching (km_pool m) \<or> cb = []"
    and "required_blocks r n cb la m \<le> max_num_blocks_per_req m"
  defines "bs \<equiv> req_to_blocks m (request_id r)"
  shows "if shortage r n cb la bs m
    then allocate_slots hash_fn none_hash r n cb la m = Inr (None, m)
    else \<exists>new m'. allocate_slots hash_fn none_hash r n cb la m = Inr (Some new, m') \<and>
      allocated r cb (required_blocks r n cb la m) bs m new m' \<and>
      (py_len (bs @ cb) \<le> max_num_blocks_per_req m \<longrightarrow>
         py_len (bs @ cb @ new) \<le> max_num_blocks_per_req m)"
proof -
  have "window_ok m" using assms(2) by (simp add: window_ok_def)
  from allocate_slots_prep [OF assms(1) this assms(4) disjI1 [OF assms(2)],
      where hash_fn = hash_fn and none_hash = none_hash and ncb = cb and la = la]
  obtain blocks p where slots: "allocate_slots hash_fn none_hash r n cb la m =
      allocate_new hash_fn none_hash r n cb la blocks (m\<lparr>km_pool := p,
        req_to_blocks := (req_to_blocks m)(request_id r := blocks)\<rparr>)"
    and m: "m\<lparr>km_pool := p,
        req_to_blocks := (req_to_blocks m)(request_id r := blocks)\<rparr> = m"
    unfolding Let_def using assms(2) by blast
  have "bs = blocks"
    using arg_cong [OF m, of "\<lambda>m. req_to_blocks m (request_id r)"] by (simp add: bs_def)
  with slots m have eq: "allocate_slots hash_fn none_hash r n cb la m =
      allocate_new hash_fn none_hash r n cb la bs m"
    by simp
  have cb: "\<forall>b \<in> set cb. b < num_gpu_blocks (km_pool m)"
    "special m = FullAttentionManager \<longrightarrow> 0 \<notin> set cb"
    using assms(5) by (auto simp: managed_def)
  from allocate_new_uncommitted [OF assms(1) bs_def [symmetric, THEN meta_eq_to_obj_eq] cb assms(6,7,3),
      of hash_fn none_hash]
  show ?thesis unfolding eq by (auto split: if_splits)
qed

text \<open>
  C22: allocation either reserves everything or changes nothing. For full attention without
  commits (the speculative manager, or caching disabled), a request for a positive number of
  tokens within the per-request bound never raises. It is refused exactly when the free blocks
  not needed by the computed ones do not suffice, and then nothing has changed. Otherwise
  the request's table grows by the computed blocks and new ones that stand in no table, covers
  the tokens asked for and stays within the bound, and no other table changes.
\<close>

theorem allocate_slots_correct:
  assumes "kv_ok m" "special m = FullAttentionManager"
    and "skip_commit m \<or> \<not> enable_caching (km_pool m)" "0 < n"
    and "set cb \<subseteq> managed (km_pool m)" "enable_caching (km_pool m) \<or> cb = []"
    and "required_blocks r n cb la m \<le> max_num_blocks_per_req m"
    and "py_len (req_to_blocks m (request_id r) @ cb) \<le> max_num_blocks_per_req m"
  shows "(shortage r n cb la (req_to_blocks m (request_id r)) m \<longrightarrow>
      allocate_slots hash_fn none_hash r n cb la m = Inr (None, m)) \<and>
    (\<not> shortage r n cb la (req_to_blocks m (request_id r)) m \<longrightarrow>
      (\<exists>new m'. allocate_slots hash_fn none_hash r n cb la m = Inr (Some new, m') \<and> kv_ok m' \<and>
        req_to_blocks m' = (req_to_blocks m)
          (request_id r := req_to_blocks m (request_id r) @ cb @ new) \<and>
        distinct new \<and> (\<forall>b \<in> set new. b \<noteq> 0 \<and> (\<forall>i. b \<notin> set (req_to_blocks m i))) \<and>
        num_computed_tokens r + py_len cb * int (block_size m) + n + la \<le>
          py_len (req_to_blocks m' (request_id r)) * int (block_size m) \<and>
        py_len (req_to_blocks m' (request_id r)) \<le> max_num_blocks_per_req m))"
proof -
  let ?bs = "req_to_blocks m (request_id r)"
  note total = allocate_slots_uncommitted [OF assms(1-7), of hash_fn none_hash]
  have bs: "0 < int (block_size m)" using assms(1) by (simp add: kv_ok_def)
  have "num_computed_tokens r + py_len cb * int (block_size m) + n + la \<le>
      py_len (?bs @ cb @ new) * int (block_size m)"
    if "required_blocks r n cb la m \<le> py_len (?bs @ cb @ new)" for new
    using that unfolding required_blocks_def by (simp only: cdiv_le_iff [OF bs])
  moreover have "b \<noteq> 0 \<and> (\<forall>i. b \<notin> set (req_to_blocks m i))"
    if "allocated r cb q ?bs m new m'" "b \<in> set new" for b q new m'
    using allocated_not_in_tables [OF that(1) assms(1) that(2)] that
    by (auto simp: allocated_def managed_def)
  ultimately show ?thesis
    using total assms(8)
    by (cases "shortage r n cb la ?bs m") (auto 4 3 simp: allocated_def)
qed

lemma sample_sp_manager:
  "\<exists>m0. init_sp_kv_manager 2 FullAttentionManager 6 100 True 0 = Inr m0 \<and> sp_ok m0 \<and>
     get_num_free_blocks (km_pool m0) = 5 \<and> req_to_blocks m0 = (\<lambda>_. []) \<and>
     enable_caching (km_pool m0) \<and> max_num_blocks_per_req m0 = 50 \<and> block_size m0 = 2"
proof -
  obtain p where p: "init_block_pool 6 True = Inr p"
    using init_block_pool_ok [of 6 True] by auto
  obtain m where m: "init_kv_manager 2 FullAttentionManager 6 100 True 0 = Inr m" "km_pool m = p"
    using p by (simp add: init_kv_manager_def)
  have "init_sp_kv_manager 2 FullAttentionManager 6 100 True 0 = Inr (m\<lparr>skip_commit := True\<rparr>)"
    using m by (simp add: init_sp_kv_manager_def)
  moreover have "get_num_free_blocks p = 5" using init_block_pool_free [OF p] by simp
  moreover have "cdiv 100 2 = 50" by (simp add: cdiv_def)
  ultimately show ?thesis
    using init_sp_ok [OF \<open>init_sp_kv_manager _ _ _ _ _ _ = _\<close>] init_kv_manager_ok [OF m(1)] m(2)
    by auto
qed

theorem allocate_slots_correct_witness:
  "\<exists>m0 new m'. init_sp_kv_manager 2 FullAttentionManager 6 100 True 0 = Inr m0 \<and>
     allocate_slots fst 7 (sample_request ''a'' [1, 2, 3, 4, 5]) 5 [] 0 m0 = Inr (Some new, m') \<and>
     5 \<le> py_len new * 2 \<and>
     allocate_slots fst 7 (sample_request ''b'' [1, 2]) 20 [] 0 m0 = Inr (None, m0)"
proof -
  obtain m0 where m0: "init_sp_kv_manager 2 FullAttentionManager 6 100 True 0 = Inr m0" "sp_ok m0"
    "get_num_free_blocks (km_pool m0) = 5" "req_to_blocks m0 = (\<lambda>_. [])"
    "max_num_blocks_per_req m0 = 50" "block_size m0 = 2"
    using sample_sp_manager by blast
  have ok: "kv_ok m0" "special m0 = FullAttentionManager"
    "skip_commit m0 \<or> \<not> enable_caching (km_pool m0)"
    using m0(2) by (simp_all add: sp_ok_def)
  have req: "required_blocks r n [] 0 m0 = cdiv n 2" if "num_computed_tokens r = 0" for r n
    using that m0(6) by (simp add: required_blocks_def)
  let ?a = "sample_request ''a'' [1, 2, 3, 4, 5]" and ?b = "sample_request ''b'' [1, 2]"
  have "\<not> shortage ?a 5 [] 0 (req_to_blocks m0 (request_id ?a)) m0"
    "shortage ?b 20 [] 0 (req_to_blocks m0 (request_id ?b)) m0"
    using m0(3,4) by (simp_all add: shortage_def req cdiv_def)
  moreover have "required_blocks ?a 5 [] 0 m0 \<le> max_num_blocks_per_req m0"
    "required_blocks ?b 20 [] 0 m0 \<le> max_num_blocks_per_req m0"
    by (simp_all add: req m0(5) cdiv_def)
  moreover have "py_len (req_to_blocks m0 i @ []) \<le> max_num_blocks_per_req m0" for i
    by (simp add: m0(4,5))
  ultimately have a: "\<exists>new m'. allocate_slots fst 7 ?a 5 [] 0 m0 = Inr (Some new, m') \<and>
      5 \<le> py_len new * 2"
    and b: "allocate_slots fst 7 ?b 20 [] 0 m0 = Inr (None, m0)"
    using allocate_slots_correct [OF ok, of 5 "[]" ?a 0 fst 7]
      allocate_slots_correct [OF ok, of 20 "[]" ?b 0 fst 7] m0(4,6) by auto
  with m0(1) show ?thesis by blast
qed

lemma sample_extend:
  assumes "kv_ok m" "special m = FullAttentionManager" "req_to_blocks m = (\<lambda>_. [])"
    and "skip_commit m \<or> \<not> enable_caching (km_pool m)" "block_size m = 2"
    and "max_num_blocks_per_req m = 50" "get_num_free_blocks (km_pool m) = 5"
  shows "\<exists>m'. kv_step fst 7 m m' \<and> req_to_blocks m' ''a'' \<noteq> [] \<and>
    (\<forall>i. i \<noteq> ''a'' \<longrightarrow> req_to_blocks m' i = []) \<and> kv_ok m'"
proof -
  let ?r = "sample_request ''a'' [1, 2, 3, 4, 5]"
  have req: "required_blocks ?r 5 [] 0 m = 3"
    using assms(5) by (simp add: required_blocks_def cdiv_def)
  have bound: "required_blocks ?r 5 [] 0 m \<le> max_num_blocks_per_req m"
    unfolding req assms(6) by simp
  have "\<not> shortage ?r 5 [] 0 (req_to_blocks m (request_id ?r)) m"
    using assms(3,7) by (simp add: shortage_def req)
  then obtain new m' where alloc: "allocate_slots fst 7 ?r 5 [] 0 m = Inr (Some new, m')"
    and new: "allocated ?r [] 3 [] m new m'"
    using allocate_slots_uncommitted [OF assms(1,2,4), of 5 "[]" ?r 0 fst 7] bound assms(3) req
    by auto
  have "kv_step fst 7 m m'" by (rule kv_step.extend [OF _ bound alloc]) simp
  with new show ?thesis
    using assms(3) by (auto simp: allocated_def)
qed


theorem kv_manager_no_leak_witness:
  "\<exists>m0 m m'. init_kv_manager 2 FullAttentionManager 6 100 False 0 = Inr m0 \<and>
     kv_step fst 7 m0 m \<and> req_to_blocks m ''a'' \<noteq> [] \<and> kv_step fst 7 m m' \<and>
     get_num_free_blocks (km_pool m') = 5"
proof -
  obtain p where p: "init_block_pool 6 False = Inr p"
    using init_block_pool_ok [of 6 False] by auto
  obtain m0 where m0: "init_kv_manager 2 FullAttentionManager 6 100 False 0 = Inr m0" "km_pool m0 = p"
    using p by (simp add: init_kv_manager_def)
  have "get_num_free_blocks p = 5" using init_block_pool_free [OF p] by simp
  moreover have "cdiv 100 2 = 50" by (simp add: cdiv_def)
  ultimately obtain m where m: "kv_step fst 7 m0 m" "req_to_blocks m ''a'' \<noteq> []"
    "\<forall>i. i \<noteq> ''a'' \<longrightarrow> req_to_blocks m i = []" "kv_ok m"
    using sample_extend [of m0] init_kv_manager_ok [OF m0(1)] m0(2) by auto
  obtain m' where m': "free (sample_request ''a'' []) m = Inr m'"
    "req_to_blocks m' = (req_to_blocks m)(''a'' := [])"
    using free_ok [OF m(4), of "sample_request ''a'' []"] by auto
  have step: "kv_step fst 7 m m'" using m'(1) by (rule kv_step.free)
  with m(1) have "(kv_step fst 7)\<^sup>*\<^sup>* m0 m'" by (meson rtranclp.simps)
  from kv_manager_no_leak [OF m0(1) this] have "get_num_free_blocks (km_pool m') = 5"
    using m'(2) m(3) by auto
  with m0(1) m(1,2) step show ?thesis by blast
qed

text \<open>
  A prefix cache hit is the longest one. For full attention the computed blocks are the
  blocks cached under the first hashes, in order and up to the first hash that is not cached.
\<close>

theorem full_cache_hit_longest:
  assumes "pool_ok p"
  shows "length (full_cache_hit p hs) \<le> length hs \<and>
    (\<forall>i < length (full_cache_hit p hs).
       block_hash (bp_blocks p (full_cache_hit p hs ! i)) = Some (hs ! i)) \<and>
    (length (full_cache_hit p hs) < length hs \<longrightarrow>
       (\<forall>b. block_hash (bp_blocks p b) \<noteq> Some (hs ! length (full_cache_hit p hs))))"
proof (induction hs)
  case Nil
  then show ?case by simp
next
  case (Cons h hs)
  show ?case
  proof (cases "get_cached_block p h")
    case None
    then show ?thesis using cached_block_lookup [OF assms, of h] by simp
  next
    case (Some b)
    then have "block_hash (bp_blocks p b) = Some h"
      using cached_block_lookup [OF assms, of h] by simp
    with Some Cons show ?thesis by (auto simp: nth_Cons split: nat.split)
  qed
qed

theorem full_cache_hit_longest_witness:
  "\<exists>p. init_block_pool 4 True = Inr p \<and>
     length (full_cache_hit p [\<lparr>hash_value = 3, bh_token_ids = [1], bh_extra_keys = None\<rparr>]) \<le> 1"
proof -
  obtain p where p: "init_block_pool 4 True = Inr p" "pool_ok p"
    using init_block_pool_ok [of 4 True] by auto
  from full_cache_hit_longest [OF p(2),
      of "[\<lparr>hash_value = 3, bh_token_ids = [1], bh_extra_keys = None\<rparr>]"] p(1)
  show ?thesis by auto
qed

end
