(* ===== verification/EncoderCache.thy ===== *)
theory EncoderCache
  imports SpecRequest
begin

text \<open>
  The encoder cache (\<open>spexis/v1/core/encoder_cache_manager.py\<close>): which encoder inputs of which
  request are cached, how many token slots are left, and the entries freed since the last
  schedule. The invariant: the free slots and the tokens of the cached inputs add up to the
  size of the cache.
\<close>

section \<open>State and operations\<close>

record encoder_cache =
  ec_size :: int
  num_free_slots :: int
  ec_cached :: "string \<Rightarrow> int set option"
  ec_freed :: "(string \<times> int) list"

definition init_encoder_cache :: "int \<Rightarrow> encoder_cache" where
  "init_encoder_cache cache_size =
     \<lparr>ec_size = cache_size, num_free_slots = cache_size, ec_cached = (\<lambda>_. None), ec_freed = []\<rparr>"

definition has_cache :: "request \<Rightarrow> int \<Rightarrow> encoder_cache \<Rightarrow> bool" where
  "has_cache r input_id c \<longleftrightarrow>
     (case ec_cached c (request_id r) of None \<Rightarrow> False | Some s \<Rightarrow> input_id \<in> s)"

definition can_allocate :: "request \<Rightarrow> int \<Rightarrow> encoder_cache \<Rightarrow> bool res" where
  "can_allocate r input_id c =
     ebind (get_num_encoder_tokens r input_id) (\<lambda>n. Inr (n \<le> num_free_slots c))"

definition ec_allocate :: "request \<Rightarrow> int \<Rightarrow> encoder_cache \<Rightarrow> encoder_cache res" where
  "ec_allocate r input_id c =
     (let s = (case ec_cached c (request_id r) of None \<Rightarrow> {} | Some s \<Rightarrow> s) in
      ebind (get_num_encoder_tokens r input_id) (\<lambda>n.
      Inr (c\<lparr>ec_cached := (ec_cached c)(request_id r \<mapsto> insert input_id s),
             num_free_slots := num_free_slots c - n\<rparr>)))"

definition get_cached_input_ids :: "request \<Rightarrow> encoder_cache \<Rightarrow> int set" where
  "get_cached_input_ids r c =
     (case ec_cached c (request_id r) of None \<Rightarrow> {} | Some s \<Rightarrow> s)"

definition free_encoder_input :: "request \<Rightarrow> int \<Rightarrow> encoder_cache \<Rightarrow> encoder_cache res" where
  "free_encoder_input r input_id c =
     (case ec_cached c (request_id r) of
        None \<Rightarrow> Inr c
      | Some s \<Rightarrow>
          (let s' = s - {input_id} in
           ebind (get_num_encoder_tokens r input_id) (\<lambda>n.
           Inr (c\<lparr>ec_cached := (ec_cached c)(request_id r := if s' = {} then None else Some s'),
                  num_free_slots := num_free_slots c + n,
                  ec_freed := ec_freed c @ [(request_id r, input_id)]\<rparr>))))"

text \<open>The code iterates over a copy of the set; \<open>enum\<close> is the order of that iteration.\<close>

definition ec_free :: "(int set \<Rightarrow> int list) \<Rightarrow> request \<Rightarrow> encoder_cache \<Rightarrow> encoder_cache res" where
  "ec_free enum r c = efold (free_encoder_input r) (enum (get_cached_input_ids r c)) c"

definition get_freed_ids :: "encoder_cache \<Rightarrow> (string \<times> int) list \<times> encoder_cache" where
  "get_freed_ids c = (ec_freed c, c\<lparr>ec_freed := []\<rparr>)"

text \<open>
  The budgets: \<open>by_modality\<close> is what the multi-modal registry reports for the model, the other
  arguments are fields of the scheduler configuration.
\<close>

definition encoder_budget_multimodal ::
  "(string \<times> int) list \<Rightarrow> bool \<Rightarrow> int \<Rightarrow> int \<Rightarrow> int \<Rightarrow> (int \<times> int) res" where
  "encoder_budget_multimodal by_modality disable_chunked max_batched max_input cache_size =
     (if by_modality = [] then Inr (0, 0)
      else
        (let max_item = Max (snd ` set by_modality) in
         if disable_chunked \<and> max_batched < max_item then Inl ValueError
         else Inr (max max_input max_item, max cache_size max_item)))"

definition compute_encoder_budget ::
  "bool \<Rightarrow> (string \<times> int) list \<Rightarrow> bool \<Rightarrow> int \<Rightarrow> int \<Rightarrow> int \<Rightarrow> (int \<times> int) res" where
  "compute_encoder_budget is_multimodal by_modality disable_chunked max_batched max_input cache_size =
     (if \<not> is_multimodal then Inr (0, 0)
      else encoder_budget_multimodal by_modality disable_chunked max_batched max_input cache_size)"

section \<open>The invariant\<close>

definition ec_entries :: "encoder_cache \<Rightarrow> (string \<times> int) set" where
  "ec_entries c = {(i, x). \<exists>s. ec_cached c i = Some s \<and> x \<in> s}"

text \<open>\<open>tok i x\<close> is the number of encoder tokens of input \<open>x\<close> of request \<open>i\<close>.\<close>

definition ec_ok :: "(string \<Rightarrow> int \<Rightarrow> int) \<Rightarrow> encoder_cache \<Rightarrow> bool" where
  "ec_ok tok c \<longleftrightarrow> finite (ec_entries c) \<and> (\<forall>i. ec_cached c i \<noteq> Some {}) \<and>
     num_free_slots c + (\<Sum>(i, x) \<in> ec_entries c. tok i x) = ec_size c"

definition tokens_of_request :: "(string \<Rightarrow> int \<Rightarrow> int) \<Rightarrow> request \<Rightarrow> int \<Rightarrow> bool" where
  "tokens_of_request tok r x \<longleftrightarrow> get_num_encoder_tokens r x = Inr (tok (request_id r) x)"

lemma has_cache_entries: "has_cache r x c \<longleftrightarrow> (request_id r, x) \<in> ec_entries c"
  by (auto simp: has_cache_def ec_entries_def split: option.splits)

lemma cached_ids_entries: "x \<in> get_cached_input_ids r c \<longleftrightarrow> (request_id r, x) \<in> ec_entries c"
  by (auto simp: get_cached_input_ids_def ec_entries_def split: option.splits)

lemma ec_allocate_ok:
  assumes "ec_ok tok c" "tokens_of_request tok r x" "\<not> has_cache r x c"
  shows "\<exists>c'. ec_allocate r x c = Inr c' \<and> ec_ok tok c' \<and>
    ec_entries c' = insert (request_id r, x) (ec_entries c) \<and>
    num_free_slots c' = num_free_slots c - tok (request_id r) x \<and> ec_size c' = ec_size c"
proof -
  let ?s = "case ec_cached c (request_id r) of None \<Rightarrow> {} | Some s \<Rightarrow> s"
  define c' where "c' = c\<lparr>ec_cached := (ec_cached c)(request_id r \<mapsto> insert x ?s),
    num_free_slots := num_free_slots c - tok (request_id r) x\<rparr>"
  have "ec_allocate r x c = Inr c'"
    using assms(2) by (simp add: ec_allocate_def tokens_of_request_def c'_def)
  moreover have entries: "ec_entries c' = insert (request_id r, x) (ec_entries c)"
    by (auto simp: ec_entries_def c'_def split: option.splits if_splits)
  moreover have "ec_ok tok c'"
    using assms(1,3) unfolding ec_ok_def entries
    by (auto simp: has_cache_entries c'_def)
  ultimately show ?thesis by (simp add: c'_def)
qed

lemma free_encoder_input_ok:
  assumes "ec_ok tok c" "tokens_of_request tok r x" "has_cache r x c"
  shows "\<exists>c'. free_encoder_input r x c = Inr c' \<and> ec_ok tok c' \<and>
    ec_entries c' = ec_entries c - {(request_id r, x)} \<and> ec_size c' = ec_size c \<and>
    ec_freed c' = ec_freed c @ [(request_id r, x)]"
proof -
  obtain s where s: "ec_cached c (request_id r) = Some s" "x \<in> s"
    using assms(3) by (auto simp: has_cache_def split: option.splits)
  define c' where "c' = c\<lparr>ec_cached := (ec_cached c)
      (request_id r := if s - {x} = {} then None else Some (s - {x})),
    num_free_slots := num_free_slots c + tok (request_id r) x,
    ec_freed := ec_freed c @ [(request_id r, x)]\<rparr>"
  have "free_encoder_input r x c = Inr c'"
    using assms(2) s(1) by (simp add: free_encoder_input_def tokens_of_request_def c'_def Let_def)
  moreover have entries: "ec_entries c' = ec_entries c - {(request_id r, x)}"
    using s by (auto simp: ec_entries_def c'_def split: if_splits)
  moreover have "ec_ok tok c'"
  proof -
    have mem: "(request_id r, x) \<in> ec_entries c" using assms(3) by (simp add: has_cache_entries)
    have fin: "finite (ec_entries c)" using assms(1) by (simp add: ec_ok_def)
    have "(\<Sum>(i, y) \<in> ec_entries c. tok i y) =
        tok (request_id r) x + (\<Sum>(i, y) \<in> ec_entries c - {(request_id r, x)}. tok i y)"
      using sum.remove [OF fin mem, of "\<lambda>(i, y). tok i y"] by simp
    then show ?thesis
      using assms(1) fin unfolding ec_ok_def entries by (auto simp: c'_def split: if_splits)
  qed
  ultimately show ?thesis by (simp add: c'_def)
qed

lemma efold_free_ok:
  "ec_ok tok c \<Longrightarrow> distinct xs \<Longrightarrow> \<forall>x \<in> set xs. has_cache r x c \<and> tokens_of_request tok r x \<Longrightarrow>
   \<exists>c'. efold (free_encoder_input r) xs c = Inr c' \<and> ec_ok tok c' \<and>
     ec_entries c' = ec_entries c - {request_id r} \<times> set xs \<and> ec_size c' = ec_size c \<and>
     ec_freed c' = ec_freed c @ map (Pair (request_id r)) xs"
proof (induction xs arbitrary: c)
  case Nil
  then show ?case by simp
next
  case (Cons x xs)
  obtain c1 where c1: "free_encoder_input r x c = Inr c1" "ec_ok tok c1"
    "ec_entries c1 = ec_entries c - {(request_id r, x)}" "ec_size c1 = ec_size c"
    "ec_freed c1 = ec_freed c @ [(request_id r, x)]"
    using free_encoder_input_ok [of tok c r x] Cons.prems by auto
  have "\<forall>y \<in> set xs. has_cache r y c1 \<and> tokens_of_request tok r y"
    using Cons.prems(2,3) c1(3) by (auto simp: has_cache_entries)
  then obtain c' where "efold (free_encoder_input r) xs c1 = Inr c'" "ec_ok tok c'"
    "ec_entries c' = ec_entries c1 - {request_id r} \<times> set xs" "ec_size c' = ec_size c1"
    "ec_freed c' = ec_freed c1 @ map (Pair (request_id r)) xs"
    using Cons.IH [OF c1(2)] Cons.prems(2) by auto
  with c1 show ?case by auto
qed

section \<open>Properties\<close>

text \<open>
  Encoder slots are conserved. Allocating an input that fits and is not cached takes exactly
  its tokens; freeing a request gives back the tokens of all its inputs, drops its entries
  and no others, and reports each of them once. The free slots never exceed what the cached
  inputs leave.
\<close>

theorem encoder_slots_conserved:
  assumes "ec_ok tok c" "tokens_of_request tok r x" "\<not> has_cache r x c"
    and "can_allocate r x c = Inr True" "0 \<le> num_free_slots c"
    and "\<And>s. finite s \<Longrightarrow> set (enum s) = s \<and> distinct (enum s)"
    and "\<forall>y \<in> get_cached_input_ids r c. tokens_of_request tok r y"
  shows "\<exists>c1 c2. ec_allocate r x c = Inr c1 \<and> ec_ok tok c1 \<and> has_cache r x c1 \<and>
    0 \<le> num_free_slots c1 \<and> num_free_slots c1 = num_free_slots c - tok (request_id r) x \<and>
    ec_free enum r c1 = Inr c2 \<and> ec_ok tok c2 \<and>
    ec_entries c2 = {(i, y) \<in> ec_entries c. i \<noteq> request_id r} \<and>
    set (drop (length (ec_freed c)) (ec_freed c2)) =
      {request_id r} \<times> insert x (get_cached_input_ids r c)"
proof -
  obtain c1 where c1: "ec_allocate r x c = Inr c1" "ec_ok tok c1"
    "ec_entries c1 = insert (request_id r, x) (ec_entries c)"
    "num_free_slots c1 = num_free_slots c - tok (request_id r) x" "ec_freed c1 = ec_freed c"
    using ec_allocate_ok [OF assms(1-3)]
    by (auto simp: ec_allocate_def res_simps Let_def)
  let ?ids = "get_cached_input_ids r c1"
  have ids: "?ids = insert x (get_cached_input_ids r c)"
    using c1(3) by (auto simp: cached_ids_entries)
  have "finite (ec_entries c1)" using c1(2) by (simp add: ec_ok_def)
  then have "finite (Pair (request_id r) ` ?ids)"
    by (rule rev_finite_subset) (auto simp: cached_ids_entries)
  then have "finite ?ids" by (rule finite_imageD) (simp add: inj_on_def)
  then have enum: "set (enum ?ids) = ?ids" "distinct (enum ?ids)" using assms(6) by simp_all
  have "\<forall>y \<in> set (enum ?ids). has_cache r y c1 \<and> tokens_of_request tok r y"
    using enum(1) ids assms(2,7) by (auto simp: has_cache_entries cached_ids_entries c1(3))
  from efold_free_ok [OF c1(2) enum(2) this] obtain c2 where
    c2: "ec_free enum r c1 = Inr c2" "ec_ok tok c2"
      "ec_entries c2 = ec_entries c1 - {request_id r} \<times> set (enum ?ids)"
      "ec_freed c2 = ec_freed c1 @ map (Pair (request_id r)) (enum ?ids)"
    by (auto simp: ec_free_def)
  have "ec_entries c2 = {(i, y) \<in> ec_entries c. i \<noteq> request_id r}"
    using c2(3) c1(3) enum(1) by (auto simp: cached_ids_entries)
  moreover have "set (drop (length (ec_freed c)) (ec_freed c2)) =
      {request_id r} \<times> insert x (get_cached_input_ids r c)"
    using c2(4) c1(5) enum(1) ids by auto
  moreover have "0 \<le> num_free_slots c1"
    using assms(2,4) c1(4) by (simp add: can_allocate_def tokens_of_request_def)
  ultimately show ?thesis
    using c1 c2(1,2) by (auto simp: has_cache_entries)
qed

theorem encoder_slots_conserved_witness:
  "\<exists>c1 c2. let r = (sample_request ''m'' [1])\<lparr>mm_positions := [\<lparr>offset = 0, range_length = 3\<rparr>]\<rparr> in
    ec_allocate r 0 (init_encoder_cache 8) = Inr c1 \<and> num_free_slots c1 = 5 \<and>
    ec_free sorted_list_of_set r c1 = Inr c2 \<and> ec_entries c2 = {}"
proof -
  let ?r = "(sample_request ''m'' [1])\<lparr>mm_positions := [\<lparr>offset = 0, range_length = 3\<rparr>]\<rparr>"
  let ?c = "init_encoder_cache 8"
  have empty: "ec_entries ?c = {}" "get_cached_input_ids ?r ?c = {}" "\<not> has_cache ?r 0 ?c"
    by (auto simp: ec_entries_def init_encoder_cache_def get_cached_input_ids_def has_cache_def)
  then have ok: "ec_ok (\<lambda>i x. 3) ?c" by (simp add: ec_ok_def) (simp add: init_encoder_cache_def)
  have tok: "tokens_of_request (\<lambda>i x. 3) ?r 0"
    by (simp add: tokens_of_request_def get_num_encoder_tokens_def py_get_nonneg)
  have can: "can_allocate ?r 0 ?c = Inr True" "0 \<le> num_free_slots ?c" "num_free_slots ?c = 8"
    using tok by (simp_all add: can_allocate_def tokens_of_request_def init_encoder_cache_def)
  have enum: "finite s \<Longrightarrow> set (sorted_list_of_set s) = s \<and> distinct (sorted_list_of_set s)"
    for s :: "int set" by simp
  from encoder_slots_conserved [OF ok tok empty(3) can(1,2) enum] empty(1,2) can(3)
  show ?thesis by (auto simp: Let_def)
qed

end
