(* ===== verification/LengthCalc.thy ===== *)
theory LengthCalc
  imports SpecRequest
begin

text \<open>
  Length-aware scheduling's projection of KV memory
  (\<open>spexis/lookahead_scheduling/length_calc.py\<close>): the expected number of generated tokens and
  the probability of a generation length after a number of iterations, both memoised in tables
  with -1 for \<open>not computed\<close>, and the peak over the projected iterations. Floats are rationals
  and \<open>fl\<close> rounds after every operation; the lemmas hold for every \<open>fl\<close> unless they say
  otherwise.
\<close>

section \<open>Closed forms\<close>

definition py_pow :: "(rat \<Rightarrow> rat) \<Rightarrow> rat \<Rightarrow> int \<Rightarrow> rat res" where
  "py_pow fl x n =
     (if 0 \<le> n then Inr (fl (x ^ nat n))
      else if x = 0 then Inl ZeroDivisionError
      else Inr (fl (inverse x ^ nat (- n))))"

text \<open>\<open>math.comb\<close> raises for negative arguments.\<close>

definition py_comb :: "int \<Rightarrow> int \<Rightarrow> int res" where
  "py_comb n k = (if n < 0 \<or> k < 0 then Inl ValueError else Inr (int (nat n choose nat k)))"

definition gen_len_term :: "(rat \<Rightarrow> rat) \<Rightarrow> int \<Rightarrow> rat \<Rightarrow> int \<Rightarrow> int \<Rightarrow> rat res" where
  "gen_len_term fl pp acc num_iter wrong =
     (let right = num_iter - wrong * pp; len = right + wrong in
      ebind (py_comb len right) (\<lambda>c.
      ebind (py_pow fl acc right) (\<lambda>a.
      ebind (py_pow fl (fl (1 - acc)) wrong) (\<lambda>b.
      Inr (fl (fl (of_int (len * c) * a) * b))))))"

definition calculate_gen_len :: "(rat \<Rightarrow> rat) \<Rightarrow> int \<Rightarrow> rat \<Rightarrow> int \<Rightarrow> rat res" where
  "calculate_gen_len fl pp acc num_iter =
     (if pp = 0 then Inl ZeroDivisionError
      else efold (\<lambda>wrong s. ebind (gen_len_term fl pp acc num_iter wrong) (\<lambda>t. Inr (fl (s + t))))
             [0..num_iter div pp] 0)"

definition calc_prob_len :: "(rat \<Rightarrow> rat) \<Rightarrow> int \<Rightarrow> rat \<Rightarrow> int \<Rightarrow> int \<Rightarrow> rat res" where
  "calc_prob_len fl pp acc len num_iter =
     (if pp - 1 = 0 then Inl ZeroDivisionError
      else if (num_iter - len) mod (pp - 1) \<noteq> 0 then Inr 0
      else
        (let wrong = (num_iter - len) div (pp - 1); right = len - wrong in
         ebind (py_comb len wrong) (\<lambda>c.
         ebind (py_pow fl acc right) (\<lambda>a.
         ebind (py_pow fl (fl (1 - acc)) wrong) (\<lambda>b.
         Inr (fl (fl (of_int c * a) * b)))))))"

section \<open>Memo tables\<close>

record exp_gen_len_cache =
  eg_max_iter :: int
  eg_cache :: "rat list"
  eg_pp_stages :: int
  eg_spec_acc :: rat

definition init_exp_gen_len_cache :: "int \<Rightarrow> int \<Rightarrow> rat \<Rightarrow> exp_gen_len_cache" where
  "init_exp_gen_len_cache max_iter pp acc =
     \<lparr>eg_max_iter = max_iter, eg_cache = replicate (nat (max_iter + 1)) (- 1),
      eg_pp_stages = pp, eg_spec_acc = acc\<rparr>"

definition eg_get ::
  "(rat \<Rightarrow> rat) \<Rightarrow> int \<Rightarrow> exp_gen_len_cache \<Rightarrow> (rat \<times> exp_gen_len_cache) res" where
  "eg_get fl num_iter c =
     (if eg_max_iter c < num_iter then Inl ValueError
      else ebind (py_get (eg_cache c) num_iter) (\<lambda>v.
        if v = - 1 then
          ebind (calculate_gen_len fl (eg_pp_stages c) (eg_spec_acc c) num_iter) (\<lambda>x.
          ebind (py_set (eg_cache c) num_iter x) (\<lambda>cache.
          Inr (x, c\<lparr>eg_cache := cache\<rparr>)))
        else Inr (v, c)))"

record len_prob_cache =
  lp_max_iter :: int
  lp_prob :: "rat list list"
  lp_cum_prob :: "rat list list"
  lp_len_list :: "int list"
  lp_pp_stages :: int
  lp_spec_acc :: rat

definition init_len_prob_cache :: "int \<Rightarrow> int \<Rightarrow> rat \<Rightarrow> int list \<Rightarrow> len_prob_cache" where
  "init_len_prob_cache max_iter pp acc expect_length =
     \<lparr>lp_max_iter = max_iter,
      lp_prob = replicate (nat max_iter) (replicate (nat max_iter) (- 1)),
      lp_cum_prob = replicate (length expect_length) (replicate (nat max_iter) (- 1)),
      lp_len_list = expect_length, lp_pp_stages = pp, lp_spec_acc = acc\<rparr>"

text \<open>Two-dimensional tables: \<open>t[i][j]\<close> and \<open>t[i][j] = v\<close>.\<close>

definition table_get :: "'a list list \<Rightarrow> int \<Rightarrow> int \<Rightarrow> 'a res" where
  "table_get t i j = ebind (py_get t i) (\<lambda>row. py_get row j)"

definition table_set :: "'a list list \<Rightarrow> int \<Rightarrow> int \<Rightarrow> 'a \<Rightarrow> 'a list list res" where
  "table_set t i j v =
     ebind (py_get t i) (\<lambda>row. ebind (py_set row j v) (\<lambda>row'. py_set t i row'))"

definition lp_get ::
  "(rat \<Rightarrow> rat) \<Rightarrow> int \<Rightarrow> int \<Rightarrow> len_prob_cache \<Rightarrow> (rat \<times> len_prob_cache) res" where
  "lp_get fl len num_iter c =
     (if lp_max_iter c < num_iter then Inl ValueError
      else ebind (table_get (lp_prob c) (num_iter - 1) (len - 1)) (\<lambda>v.
        if v = - 1 then
          ebind (calc_prob_len fl (lp_pp_stages c) (lp_spec_acc c) len num_iter) (\<lambda>x.
          ebind (table_set (lp_prob c) (num_iter - 1) (len - 1) x) (\<lambda>t.
          Inr (x, c\<lparr>lp_prob := t\<rparr>)))
        else Inr (v, c)))"

definition calc_cum_prob_len ::
  "(rat \<Rightarrow> rat) \<Rightarrow> int \<Rightarrow> int \<Rightarrow> len_prob_cache \<Rightarrow> (rat \<times> len_prob_cache) res" where
  "calc_cum_prob_len fl len_idx num_iter c =
     ebind (py_get (lp_len_list c) len_idx) (\<lambda>len.
     efold (\<lambda>l (s, c). ebind (lp_get fl l num_iter c) (\<lambda>(p, c'). Inr (fl (s + p), c')))
       [len..num_iter] (0, c))"

definition cum_prob_get ::
  "(rat \<Rightarrow> rat) \<Rightarrow> int \<Rightarrow> int \<Rightarrow> len_prob_cache \<Rightarrow> (rat \<times> len_prob_cache) res" where
  "cum_prob_get fl len_idx num_iter c =
     (if lp_max_iter c < num_iter then Inl ValueError
      else ebind (table_get (lp_cum_prob c) len_idx (num_iter - 1)) (\<lambda>v.
        if v = - 1 then
          ebind (calc_cum_prob_len fl len_idx num_iter c) (\<lambda>(x, c').
          ebind (table_set (lp_cum_prob c') len_idx (num_iter - 1) x) (\<lambda>t.
          Inr (x, c'\<lparr>lp_cum_prob := t\<rparr>)))
        else Inr (v, c)))"

section \<open>Projected memory\<close>

text \<open>The loop over the batch of \<open>calculate_iter_mem\<close>: finished requests and their tokens.\<close>

definition finish_step ::
  "(rat \<Rightarrow> rat) \<Rightarrow> int \<Rightarrow> rat list \<Rightarrow> rat list \<Rightarrow> request \<Rightarrow> rat \<times> rat \<times> len_prob_cache \<Rightarrow>
   (rat \<times> rat \<times> len_prob_cache) res" where
  "finish_step fl num_iter thresholds precision r s =
     (case s of (reqs, reqlen, c) \<Rightarrow>
        ebind (expect_remain_len_idx thresholds r) (\<lambda>idx.
        if idx = - 1 then Inr (reqs, reqlen, c)
        else ebind (cum_prob_get fl idx num_iter c) (\<lambda>(prob_len, c').
             ebind (py_get precision idx) (\<lambda>prec.
             (let eff_prob = fl (prob_len * prec) in
              Inr (fl (reqs + eff_prob),
                   fl (reqlen + fl (eff_prob * of_int (num_tokens r))), c'))))))"

definition calculate_iter_mem ::
  "(rat \<Rightarrow> rat) \<Rightarrow> int \<Rightarrow> int \<Rightarrow> request list \<Rightarrow> rat list \<Rightarrow> rat list \<Rightarrow>
   exp_gen_len_cache \<times> len_prob_cache \<Rightarrow> (rat \<times> exp_gen_len_cache \<times> len_prob_cache) res" where
  "calculate_iter_mem fl num_iter sum_req_len batch thresholds precision caches =
     ebind (eg_get fl num_iter (fst caches)) (\<lambda>(gen_len, eg).
     ebind (efold (finish_step fl num_iter thresholds precision) batch (0, 0, snd caches))
       (\<lambda>(reqs, reqlen, lp).
     Inr (fl (fl (of_int sum_req_len + fl (fl (of_int (py_len batch) - reqs) * gen_len)) - reqlen),
          eg, lp)))"

text \<open>The loop over the iterations: the projections, the maximum and where it is reached.\<close>

fun peak_loop ::
  "(rat \<Rightarrow> rat) \<Rightarrow> int list \<Rightarrow> int \<Rightarrow> request list \<Rightarrow> rat list \<Rightarrow> rat list \<Rightarrow> rat \<Rightarrow> int \<Rightarrow>
   exp_gen_len_cache \<times> len_prob_cache \<Rightarrow>
   (rat list \<times> rat \<times> int \<times> exp_gen_len_cache \<times> len_prob_cache) res" where
  "peak_loop fl [] sum_req_len batch thresholds precision mem_max mem_max_iter caches =
     Inr ([], mem_max, mem_max_iter, caches)"
| "peak_loop fl (i # is) sum_req_len batch thresholds precision mem_max mem_max_iter caches =
     ebind (calculate_iter_mem fl i sum_req_len batch thresholds precision caches)
       (\<lambda>(memory, caches').
     (let better = mem_max < memory in
      ebind (peak_loop fl is sum_req_len batch thresholds precision
               (if better then memory else mem_max) (if better then i else mem_max_iter) caches')
        (\<lambda>(usage, m, mi, caches''). Inr (memory # usage, m, mi, caches''))))"

definition calculate_peak_mem ::
  "(rat \<Rightarrow> rat) \<Rightarrow> int list \<Rightarrow> request list \<Rightarrow> rat list \<Rightarrow> rat list \<Rightarrow>
   exp_gen_len_cache \<times> len_prob_cache \<Rightarrow>
   (rat list \<times> rat \<times> int \<times> exp_gen_len_cache \<times> len_prob_cache) res" where
  "calculate_peak_mem fl iter_list batch thresholds precision caches =
     peak_loop fl iter_list (sum_list (map num_tokens batch)) batch thresholds precision 0 0 caches"

section \<open>The tables do not change the results\<close>

text \<open>
  A table entry is either -1 or what the closed form gives; looking up through the table then
  gives the closed form's value, and the table stays so.
\<close>

definition eg_ok :: "(rat \<Rightarrow> rat) \<Rightarrow> exp_gen_len_cache \<Rightarrow> bool" where
  "eg_ok fl c \<longleftrightarrow> length (eg_cache c) = nat (eg_max_iter c + 1) \<and>
     (\<forall>i < length (eg_cache c). eg_cache c ! i = - 1 \<or>
        calculate_gen_len fl (eg_pp_stages c) (eg_spec_acc c) (int i) = Inr (eg_cache c ! i))"

definition lp_ok :: "(rat \<Rightarrow> rat) \<Rightarrow> len_prob_cache \<Rightarrow> bool" where
  "lp_ok fl c \<longleftrightarrow> length (lp_prob c) = nat (lp_max_iter c) \<and>
     (\<forall>i < length (lp_prob c). length (lp_prob c ! i) = nat (lp_max_iter c) \<and>
        (\<forall>j < nat (lp_max_iter c). lp_prob c ! i ! j = - 1 \<or>
           calc_prob_len fl (lp_pp_stages c) (lp_spec_acc c) (int j + 1) (int i + 1) =
             Inr (lp_prob c ! i ! j)))"

lemma eg_ok_init: "eg_ok fl (init_exp_gen_len_cache max_iter pp acc)"
  by (simp add: eg_ok_def init_exp_gen_len_cache_def)

lemma lp_ok_init: "lp_ok fl (init_len_prob_cache max_iter pp acc lens)"
  by (simp add: lp_ok_def init_len_prob_cache_def)

lemma eg_get_ok:
  assumes "eg_ok fl c" "0 \<le> n" "n \<le> eg_max_iter c"
    and "calculate_gen_len fl (eg_pp_stages c) (eg_spec_acc c) n = Inr v"
  shows "\<exists>c'. eg_get fl n c = Inr (v, c') \<and> eg_ok fl c' \<and> eg_max_iter c' = eg_max_iter c \<and>
    eg_pp_stages c' = eg_pp_stages c \<and> eg_spec_acc c' = eg_spec_acc c"
proof -
  have len: "n < int (length (eg_cache c))" using assms(1-3) by (simp add: eg_ok_def)
  then have get: "py_get (eg_cache c) n = Inr (eg_cache c ! nat n)"
    using assms(2) by (simp add: py_get_nonneg)
  have set: "py_set (eg_cache c) n v = Inr ((eg_cache c)[nat n := v])"
    using assms(2) len by (simp add: py_set_def py_index_def Let_def)
  show ?thesis
  proof (cases "eg_cache c ! nat n = - 1")
    case True
    then show ?thesis
      using assms get set by (auto simp: eg_get_def eg_ok_def nth_list_update)
  next
    case False
    have "nat n < length (eg_cache c)" using len assms(2) by simp
    then have "eg_cache c ! nat n = v"
      using assms(1,2,4) False unfolding eg_ok_def by fastforce
    then show ?thesis using assms(1,3) get False by (simp add: eg_get_def)
  qed
qed

text \<open>The closed forms return for the arguments the scheduler uses.\<close>

lemma py_pow_nonneg: "0 \<le> n \<Longrightarrow> py_pow fl x n = Inr (fl (x ^ nat n))"
  by (simp add: py_pow_def)

lemma py_pow_total: "x \<noteq> 0 \<Longrightarrow> \<exists>v. py_pow fl x n = Inr v"
  by (simp add: py_pow_def)

lemma gen_len_term_total:
  assumes "0 < pp" "0 \<le> wrong" "wrong \<le> n div pp"
  shows "\<exists>t. gen_len_term fl pp acc n wrong = Inr t"
proof -
  have "wrong * pp \<le> n" using zdiv_le_iff [OF assms(1)] assms(3) by blast
  then show ?thesis
    using assms(2) by (simp add: gen_len_term_def Let_def py_comb_def py_pow_nonneg)
qed

lemma calculate_gen_len_total:
  assumes "0 < pp"
  shows "\<exists>v. calculate_gen_len fl pp acc n = Inr v"
proof -
  let ?f = "\<lambda>wrong s. ebind (gen_len_term fl pp acc n wrong) (\<lambda>t. Inr (fl (s + t)))"
  have "\<exists>t. efold ?f [0..n div pp] 0 = Inr t \<and> True"
  proof (rule efold_total)
    fix x s assume "x \<in> set [0..n div pp]"
    then obtain t where "gen_len_term fl pp acc n x = Inr t"
      using gen_len_term_total [OF assms] by fastforce
    then show "\<exists>t. ebind (gen_len_term fl pp acc n x) (\<lambda>t. Inr (fl (s + t))) = Inr t \<and> True"
      by simp
  qed simp
  then show ?thesis using assms by (auto simp: calculate_gen_len_def)
qed

lemma calc_prob_len_total:
  assumes "2 \<le> pp" "acc \<noteq> 0" "0 \<le> len" "len \<le> n"
  shows "\<exists>v. calc_prob_len fl pp acc len n = Inr v"
proof -
  have w: "0 \<le> (n - len) div (pp - 1)"
    using assms by (intro pos_imp_zdiv_nonneg_iff [THEN iffD2]) auto
  obtain a where "py_pow fl acc (len - (n - len) div (pp - 1)) = Inr a"
    using py_pow_total [OF assms(2)] by blast
  with w show ?thesis
    using assms by (auto simp: calc_prob_len_def Let_def py_comb_def py_pow_nonneg)
qed

lemma lp_get_ok:
  assumes "lp_ok fl c" "1 \<le> l" "l \<le> n" "n \<le> lp_max_iter c"
    and "calc_prob_len fl (lp_pp_stages c) (lp_spec_acc c) l n = Inr v"
  shows "\<exists>c'. lp_get fl l n c = Inr (v, c') \<and> lp_ok fl c' \<and>
    lp_max_iter c' = lp_max_iter c \<and> lp_pp_stages c' = lp_pp_stages c \<and>
    lp_spec_acc c' = lp_spec_acc c \<and> lp_len_list c' = lp_len_list c \<and>
    lp_cum_prob c' = lp_cum_prob c"
proof -
  obtain i where n: "n = int i + 1"
    using assms(2,3) by (intro that [of "nat (n - 1)"]) simp
  obtain j where l: "l = int j + 1"
    using assms(2) by (intro that [of "nat (l - 1)"]) simp
  have i: "i < length (lp_prob c)" and j: "j < nat (lp_max_iter c)"
    using assms(1,3,4) by (auto simp: lp_ok_def n l)
  have row: "length (lp_prob c ! i) = nat (lp_max_iter c)"
    using assms(1) i by (simp add: lp_ok_def)
  then have jl: "j < length (lp_prob c ! i)" using j by simp
  have geti: "py_get (lp_prob c) (n - 1) = Inr (lp_prob c ! i)"
    using i by (simp add: n py_get_nonneg)
  have getj: "py_get (lp_prob c ! i) (l - 1) = Inr (lp_prob c ! i ! j)"
    using jl by (simp add: l py_get_nonneg)
  have seti: "py_set (lp_prob c) (n - 1) r = Inr ((lp_prob c)[i := r])" for r
    using i by (simp add: n py_set_def py_index_def Let_def)
  have setj: "py_set (lp_prob c ! i) (l - 1) x = Inr ((lp_prob c ! i)[j := x])" for x
    using jl by (simp add: l py_set_def py_index_def Let_def)
  note v = assms(5) [unfolded n l]
  have entry: "lp_prob c ! i ! j = - 1 \<or> lp_prob c ! i ! j = v"
    using assms(1) v i j unfolding lp_ok_def by fastforce
  show ?thesis
  proof (cases "lp_prob c ! i ! j = - 1")
    case True
    let ?t = "(lp_prob c)[i := (lp_prob c ! i)[j := v]]"
    have "lp_ok fl (c\<lparr>lp_prob := ?t\<rparr>)"
      using assms(1) v i j row by (auto simp: lp_ok_def nth_list_update)
    then show ?thesis
      using True assms(4,5) by (simp add: lp_get_def table_get_def table_set_def geti getj seti setj)
  next
    case False
    then show ?thesis
      using entry assms(1,4) by (simp add: lp_get_def table_get_def geti getj)
  qed
qed

section \<open>Properties\<close>

text \<open>
  C28: memoisation is transparent. With at least two stages and a nonzero acceptance probability,
  lookups in tables that hold only computed values return exactly what the closed forms compute,
  in any order of lookups, and leave the tables so.
\<close>

theorem memo_transparent:
  assumes "eg_ok fl eg" "0 \<le> n" "n \<le> eg_max_iter eg" "0 < eg_pp_stages eg"
    and "lp_ok fl lp" "1 \<le> l" "l \<le> k" "k \<le> lp_max_iter lp" "2 \<le> lp_pp_stages lp"
    and "lp_spec_acc lp \<noteq> 0"
  shows "\<exists>v eg' w lp'.
    calculate_gen_len fl (eg_pp_stages eg) (eg_spec_acc eg) n = Inr v \<and>
    eg_get fl n eg = Inr (v, eg') \<and> eg_ok fl eg' \<and>
    calc_prob_len fl (lp_pp_stages lp) (lp_spec_acc lp) l k = Inr w \<and>
    lp_get fl l k lp = Inr (w, lp') \<and> lp_ok fl lp'"
proof -
  obtain v where v: "calculate_gen_len fl (eg_pp_stages eg) (eg_spec_acc eg) n = Inr v"
    using calculate_gen_len_total [OF assms(4)] by blast
  obtain w where w: "calc_prob_len fl (lp_pp_stages lp) (lp_spec_acc lp) l k = Inr w"
    using calc_prob_len_total [OF assms(9,10)] assms(6,7) by fastforce
  show ?thesis
    using v w eg_get_ok [OF assms(1-3) v] lp_get_ok [OF assms(5-8) w] by blast
qed

theorem memo_transparent_witness:
  "\<exists>v eg' w lp'. calculate_gen_len (\<lambda>x. x) 2 (4 / 5) 8 = Inr v \<and>
     eg_get (\<lambda>x. x) 8 (init_exp_gen_len_cache 64 2 (4 / 5)) = Inr (v, eg') \<and>
     eg_ok (\<lambda>x. x) eg' \<and> calc_prob_len (\<lambda>x. x) 2 (4 / 5) 4 8 = Inr w \<and>
     lp_get (\<lambda>x. x) 4 8 (init_len_prob_cache 64 2 (4 / 5) [4, 8]) = Inr (w, lp')"
proof -
  let ?eg = "init_exp_gen_len_cache 64 2 (4 / 5)" and ?lp = "init_len_prob_cache 64 2 (4 / 5) [4, 8]"
  have fields: "eg_max_iter ?eg = 64" "eg_pp_stages ?eg = 2" "eg_spec_acc ?eg = 4 / 5"
    "lp_max_iter ?lp = 64" "lp_pp_stages ?lp = 2" "lp_spec_acc ?lp = 4 / 5"
    by (simp_all add: init_exp_gen_len_cache_def init_len_prob_cache_def)
  from memo_transparent [of "\<lambda>x. x" ?eg 8 ?lp 4 8, unfolded fields] eg_ok_init lp_ok_init
  show ?thesis by simp blast
qed

lemma peak_loop_spec:
  "peak_loop fl iters slen batch th prec m0 i0 caches = Inr (usage, m, mi, caches') \<Longrightarrow>
   length usage = length iters \<and> m0 \<le> m \<and> (\<forall>u \<in> set usage. u \<le> m) \<and>
   (m = m0 \<and> mi = i0 \<or>
    m0 < m \<and> (\<exists>k < length usage. usage ! k = m \<and> iters ! k = mi \<and> (\<forall>j < k. usage ! j < m)))"
proof (induction iters arbitrary: m0 i0 caches usage)
  case Nil
  then show ?case by auto
next
  case (Cons i iters)
  from Cons.prems obtain mem cs us where
    mem: "calculate_iter_mem fl i slen batch th prec caches = Inr (mem, cs)"
    and rest: "peak_loop fl iters slen batch th prec (if m0 < mem then mem else m0)
      (if m0 < mem then i else i0) cs = Inr (us, m, mi, caches')"
    and usage: "usage = mem # us"
    by (auto simp: res_simps Let_def)
  from Cons.IH [OF rest] have IH: "length us = length iters"
    "(if m0 < mem then mem else m0) \<le> m" "\<forall>u \<in> set us. u \<le> m"
    "m = (if m0 < mem then mem else m0) \<and> mi = (if m0 < mem then i else i0) \<or>
     (if m0 < mem then mem else m0) < m \<and>
     (\<exists>k < length us. us ! k = m \<and> iters ! k = mi \<and> (\<forall>j < k. us ! j < m))"
    by blast+
  have bounds: "m0 \<le> m" "mem \<le> m" using IH(2) by (auto split: if_splits)
  from IH(4) show ?case
  proof (elim disjE conjE exE)
    assume "m = (if m0 < mem then mem else m0)" "mi = (if m0 < mem then i else i0)"
    then show ?thesis
      using IH(1,3) bounds usage by (cases "m0 < mem") (auto intro!: exI [of _ 0])
  next
    fix k assume k: "(if m0 < mem then mem else m0) < m" "k < length us" "us ! k = m"
      "iters ! k = mi" "\<forall>j < k. us ! j < m"
    then have "mem < m" "m0 < m" by (auto split: if_splits)
    then show ?thesis
      using IH(1,3) k usage
      by (auto intro!: exI [of _ "Suc k"] simp: nth_Cons split: nat.split)
  qed
qed

text \<open>
  The peak is the peak. \<open>calculate_peak_mem\<close> returns one projection per iteration in the order
  of the list; the reported peak bounds every projection, and when it is positive it is one of
  them and the reported iteration is the first that reaches it (otherwise both are 0).
\<close>

theorem peak_is_maximum:
  assumes "calculate_peak_mem fl iters batch th prec caches = Inr (usage, m, mi, caches')"
  shows "length usage = length iters \<and> 0 \<le> m \<and> (\<forall>u \<in> set usage. u \<le> m) \<and>
    (m = 0 \<and> mi = 0 \<or>
     0 < m \<and> (\<exists>k < length usage. usage ! k = m \<and> iters ! k = mi \<and> (\<forall>j < k. usage ! j < m)))"
  using peak_loop_spec assms unfolding calculate_peak_mem_def by blast

text \<open>The sample of the witness: one request whose remaining length is not predicted.\<close>

theorem peak_is_maximum_witness:
  "\<exists>usage m mi c. calculate_peak_mem (\<lambda>x. x) [4] [sample_request ''a'' [1, 2]] [1 / 2] [1]
      (init_exp_gen_len_cache 64 2 1, init_len_prob_cache 64 2 1 [4]) = Inr (usage, m, mi, c) \<and>
    length usage = 1 \<and> 0 \<le> m \<and> (\<forall>u \<in> set usage. u \<le> m)"
proof -
  let ?eg = "init_exp_gen_len_cache 64 2 1"
  obtain v where v: "calculate_gen_len (\<lambda>x. x) (eg_pp_stages ?eg) (eg_spec_acc ?eg) 4 = Inr v"
    using calculate_gen_len_total [of 2 "\<lambda>x. x" 1 4] by (auto simp: init_exp_gen_len_cache_def)
  have max: "4 \<le> eg_max_iter ?eg" by (simp add: init_exp_gen_len_cache_def)
  from eg_get_ok [OF eg_ok_init _ max v] obtain c where "eg_get (\<lambda>x. x) 4 ?eg = Inr (v, c)" by auto
  then obtain usage m mi c where r: "calculate_peak_mem (\<lambda>x. x) [4] [sample_request ''a'' [1, 2]]
      [1 / 2] [1] (?eg, init_len_prob_cache 64 2 1 [4]) = Inr (usage, m, mi, c)"
    by (auto simp: calculate_peak_mem_def calculate_iter_mem_def finish_step_def
        expect_remain_len_idx_def Let_def)
  from peak_is_maximum [OF r] r show ?thesis by auto
qed

end
