(* ===== verification/SchedState.thy ===== *)
theory SchedState
  imports KVManager EncoderCache LengthCalc StopCheck
begin

text \<open>
  Data of the two schedulers: the configuration of speculative parallelism
  (\<open>SpexisConfig\<close> in \<open>spexis/config.py\<close>), the payloads handed to the workers
  (\<open>spexis/v1/core/sched/output.py\<close>, \<open>spexis/spec_parallel/sched_output.py\<close>), what the
  model runner returns, the outputs of the engine core, and the state of
  \<open>SpexisScheduler\<close>.

  Requests are objects that the scheduler's queues share: a queue holds object ids, and \<open>heap\<close>
  gives the object's current fields. Payload objects are values: the code pickles a schedule
  before it mutates the cached payload again.
\<close>

section \<open>Configuration\<close>

record spexis_config =
  enable_spexis :: bool
  spexis_ver :: string
  exit_layer :: "bool list"
  exit_models :: "string option list"
  length_predictor_path :: "string option"
  verify_strategy :: "string option"
  cfg_drop_ratio :: "rat option"
  expect_length_opt :: "int list option"
  lenprob_threshold_opt :: "rat list option"
  lenesti_prec_opt :: "rat list option"
  sx_la_sched1 :: bool
  sx_la_sched2 :: bool

text \<open>The defaults of the three lists, and the switches before the version is looked at.\<close>

definition config_defaults :: "spexis_config \<Rightarrow> spexis_config" where
  "config_defaults c =
     (let el = (case expect_length_opt c of None \<Rightarrow> [4, 8, 16, 32, 64] | Some l \<Rightarrow> l) in
      c\<lparr>sx_la_sched1 := False, sx_la_sched2 := False,
        expect_length_opt := Some el,
        lenprob_threshold_opt :=
          (case lenprob_threshold_opt c of
             None \<Rightarrow> Some (replicate (length el) (1 / 2)) | Some l \<Rightarrow> Some l),
        lenesti_prec_opt :=
          (case lenesti_prec_opt c of
             None \<Rightarrow> Some [727 / 1000, 7423 / 10000, 7709 / 10000, 7909 / 10000, 8164 / 10000]
           | Some l \<Rightarrow> Some l)\<rparr>)"

definition config_check_exits :: "spexis_config \<Rightarrow> spexis_config res" where
  "config_check_exits c =
     ebind (py_assert (length (exit_layer c) = length (exit_models c))) (\<lambda>_.
     ebind (py_assert (\<forall>i < length (exit_layer c).
              exit_layer c ! i \<or> exit_models c ! i \<noteq> None)) (\<lambda>_.
     (let strategy = (case verify_strategy c of None \<Rightarrow> ''greedy'' | Some s \<Rightarrow> s) in
      ebind (raise_if (strategy \<noteq> ''greedy'') NotImplementedError) (\<lambda>_.
      Inr (c\<lparr>verify_strategy := Some strategy\<rparr>)))))"

definition config_check_lookahead :: "spexis_config \<Rightarrow> spexis_config res" where
  "config_check_lookahead c =
     ebind (py_assert (spexis_ver c \<in> {''1.0'', ''2.0'', ''2.5''})) (\<lambda>_.
     ebind (py_assert (case cfg_drop_ratio c of None \<Rightarrow> False | Some d \<Rightarrow> 0 \<le> d \<and> d < 1)) (\<lambda>_.
     (let c' = c\<lparr>sx_la_sched1 := (spexis_ver c \<in> {''2.0'', ''2.5''}),
                 sx_la_sched2 := (spexis_ver c = ''2.5'')\<rparr>
      in ebind (py_assert (sx_la_sched2 c' \<longrightarrow> length_predictor_path c' \<noteq> None)) (\<lambda>_. Inr c'))))"

text \<open>Loading the exit models' and the predictor's own configuration files is left out.\<close>

definition spexis_post_init :: "spexis_config \<Rightarrow> spexis_config res" where
  "spexis_post_init c =
     (let c1 = config_defaults c in
      if enable_spexis c1 then ebind (config_check_exits c1) config_check_lookahead
      else Inr c1)"

text \<open>What \<open>SpexisScheduler.__init__\<close> keeps of the configurations.\<close>

record sched_config =
  enable_la_sched1 :: bool
  enable_la_sched2 :: bool
  drop_ratio :: rat
  pp_size :: int
  include_finished_set :: bool
  log_stats :: bool
  max_num_running_reqs :: int
  max_num_scheduled_tokens :: int
  max_model_len :: int
  long_prefill_token_threshold :: int
  cfg_block_size :: nat
  mem_esti_bar :: rat
  mem_estimate_margin :: rat
  average_spec_acc :: rat
  max_estimate_iter :: int
  estimate_iter_stride :: int
  expect_length :: "int list"
  lenprob_threshold :: "rat list"
  lenesti_prec :: "rat list"
  num_conf_buckets :: nat
  prefill_reserve_blocks :: int
  la_sched2_max_reqs :: int
  la_sched2_lenidx_thre :: int
  la_sched2_conf_thre :: rat
  num_lookahead_tokens :: int

definition iter_list :: "sched_config \<Rightarrow> int list res" where
  "iter_list cfg =
     py_range (estimate_iter_stride cfg) (max_estimate_iter cfg + 1) (estimate_iter_stride cfg)"

text \<open>
  Third-party and environment parts: the rounding of floats, the hash of the prefix cache with
  its seed, and the order in which a set is iterated.
\<close>

record sched_env =
  env_fl :: "rat \<Rightarrow> rat"
  env_hash :: "hash_input \<Rightarrow> int"
  env_none_hash :: int
  env_enum :: "int set \<Rightarrow> int list"

section \<open>Payloads\<close>

record new_request_data =
  nr_req_id :: string
  nr_prompt_token_ids :: "int list"
  nr_mm_inputs :: "nat list"
  nr_mm_hashes :: "string option list"
  nr_mm_positions :: "placeholder_range list"
  nr_sampling_params :: sampling_params
  nr_block_ids :: "nat list"
  nr_num_computed_tokens :: int
  nr_lora_request :: "int option"

definition new_request_data_from :: "request \<Rightarrow> nat list \<Rightarrow> new_request_data" where
  "new_request_data_from r blocks =
     \<lparr>nr_req_id = request_id r, nr_prompt_token_ids = prompt_token_ids r,
      nr_mm_inputs = mm_inputs r, nr_mm_hashes = mm_hashes r, nr_mm_positions = mm_positions r,
      nr_sampling_params = params r, nr_block_ids = blocks,
      nr_num_computed_tokens = num_computed_tokens r, nr_lora_request = lora_request r\<rparr>"

record cached_request_data =
  cr_req_id :: string
  resumed_from_preemption :: bool
  cr_new_token_ids :: "int list"
  cr_new_block_ids :: "nat list"
  cr_num_computed_tokens :: int
  cr_spec_result :: bool
  cr_fixed_idx :: int

definition cached_request_data_from ::
  "request \<Rightarrow> bool \<Rightarrow> int list \<Rightarrow> nat list \<Rightarrow> cached_request_data" where
  "cached_request_data_from r resumed tokens blocks =
     \<lparr>cr_req_id = request_id r, resumed_from_preemption = resumed, cr_new_token_ids = tokens,
      cr_new_block_ids = blocks, cr_num_computed_tokens = num_computed_tokens r,
      cr_spec_result = True, cr_fixed_idx = - 1\<rparr>"

text \<open>
  \<open>SchedulerOutput\<close> and \<open>SpexisSchedulerOutput\<close> have the same fields but for \<open>embeddings\<close>,
  which the engine core fills in and the scheduler leaves at \<open>None\<close>.
\<close>

record scheduler_output =
  so_new_reqs :: "new_request_data list"
  so_cached_reqs :: "cached_request_data list"
  so_num_scheduled_tokens :: "(string \<times> int) list"
  so_total_num_scheduled_tokens :: int
  so_spec_decode_tokens :: "(string \<times> int list) list"
  so_encoder_inputs :: "(string \<times> int list) list"
  so_num_common_prefix_blocks :: int
  so_finished_req_ids :: "string set"
  so_free_encoder_input_ids :: "(string \<times> int) list"
  so_structured_output_request_ids :: "(string \<times> int) list"
  so_embeddings :: "rat list list option"

definition resume_helper :: "request list \<Rightarrow> (string \<times> int list) list" where
  "resume_helper rs = fold (\<lambda>r d. AList.update (request_id r) (all_token_ids r) d) rs []"

text \<open>
  The output of the model runner. A dictionary value is opaque where only its presence
  matters (\<open>prompt_logprobs_dict\<close>), as is the table of sample log probabilities.
\<close>

record runner_output =
  req_id_to_index :: "string \<Rightarrow> int option"
  sampled_token_ids :: "int list list"
  ro_spec_token_ids :: "int list list option"
  ro_spec_confidence :: "rat list list"
  length_probs :: "rat list list option"
  ro_logprobs :: bool
  prompt_logprobs_dict :: "string \<Rightarrow> int option"

record engine_core_output =
  eo_request_id :: string
  eo_new_token_ids :: "int list"
  eo_new_logprobs :: "(int \<times> int) option"
  eo_prompt_logprobs :: "int option"
  eo_finish_reason :: "finish_reason option"
  eo_stop_reason :: "int option"
  eo_events :: "(event_type \<times> rat) list option"

text \<open>Counters of speculative decoding (\<open>spexis/v1/spec_decode/metrics.py\<close>).\<close>

record spec_decoding_stats =
  num_draft_tokens :: int
  num_accepted_tokens :: int

definition observe_stats :: "int \<Rightarrow> int \<Rightarrow> spec_decoding_stats \<Rightarrow> spec_decoding_stats" where
  "observe_stats draft accepted st =
     st\<lparr>num_draft_tokens := num_draft_tokens st + draft,
        num_accepted_tokens := num_accepted_tokens st + accepted\<rparr>"

definition take_stats :: "spec_decoding_stats \<Rightarrow> spec_decoding_stats \<times> spec_decoding_stats" where
  "take_stats st = (st, \<lparr>num_draft_tokens = 0, num_accepted_tokens = 0\<rparr>)"

definition make_spec_decoding_stats ::
  "bool \<Rightarrow> spec_decoding_stats option \<Rightarrow> int \<Rightarrow> int \<Rightarrow> spec_decoding_stats option" where
  "make_spec_decoding_stats log_on st draft accepted =
     (if \<not> log_on then None
      else Some (observe_stats draft accepted
             (case st of None \<Rightarrow> \<lparr>num_draft_tokens = 0, num_accepted_tokens = 0\<rparr> | Some x \<Rightarrow> x)))"

record scheduler_stats =
  num_running_reqs :: int
  num_waiting_reqs :: int
  gpu_cache_usage :: rat
  prefix_stats :: prefix_cache_stats
  decoding_stats :: "spec_decoding_stats option"

record engine_core_outputs =
  eos_outputs :: "engine_core_output list"
  eos_stats :: "scheduler_stats option"
  eos_finished :: "string set option"

section \<open>The state of the speculative scheduler\<close>

type_synonym oid = nat

record scheduler =
  heap :: "oid \<Rightarrow> request"
  requests :: "string \<Rightarrow> oid option"
  waiting :: "oid list"
  running_scheduled :: "oid list"
  to_be_preempted :: "oid list"
  scheduled_req_ids :: "string set"
  finished_req_ids :: "string set"
  cached_reqs_data :: "string \<Rightarrow> cached_request_data option"
  kv_cache_manager :: kv_manager
  encoder_cache_manager :: encoder_cache
  estimate_caches :: "exp_gen_len_cache \<times> len_prob_cache"

abbreviation req_id_of :: "scheduler \<Rightarrow> oid \<Rightarrow> string" where
  "req_id_of s x \<equiv> request_id (heap s x)"

definition upd :: "oid \<Rightarrow> (request \<Rightarrow> request) \<Rightarrow> scheduler \<Rightarrow> scheduler" where
  "upd x f s = s\<lparr>heap := (heap s)(x := f (heap s x))\<rparr>"

text \<open>
  The initial state; \<open>h\<close> holds the objects that will be handed to \<open>add_request\<close>. The tables of
  the length estimate exist for version 2.5 only and are not read otherwise.
\<close>

definition init_scheduler ::
  "sched_config \<Rightarrow> (oid \<Rightarrow> request) \<Rightarrow> nat \<Rightarrow> bool \<Rightarrow> int \<Rightarrow> int \<Rightarrow> scheduler res" where
  "init_scheduler cfg h num_blocks caching num_preallocate encoder_cache_size =
     ebind (init_sp_kv_manager (cfg_block_size cfg) FullAttentionManager num_blocks
              (max_model_len cfg) caching num_preallocate) (\<lambda>m.
     Inr \<lparr>heap = h, requests = (\<lambda>_. None), waiting = [], running_scheduled = [],
       to_be_preempted = [], scheduled_req_ids = {}, finished_req_ids = {},
       cached_reqs_data = (\<lambda>_. None), kv_cache_manager = m,
       encoder_cache_manager = init_encoder_cache encoder_cache_size,
       estimate_caches =
         (init_exp_gen_len_cache (max_estimate_iter cfg) (pp_size cfg) (average_spec_acc cfg),
          init_len_prob_cache (max_estimate_iter cfg) (pp_size cfg) (average_spec_acc cfg)
            (expect_length cfg))\<rparr>)"

lemma upd_simps [simp]:
  "heap (upd x f s) = (heap s)(x := f (heap s x))" "requests (upd x f s) = requests s"
  "waiting (upd x f s) = waiting s" "running_scheduled (upd x f s) = running_scheduled s"
  "to_be_preempted (upd x f s) = to_be_preempted s"
  "scheduled_req_ids (upd x f s) = scheduled_req_ids s"
  "finished_req_ids (upd x f s) = finished_req_ids s"
  "cached_reqs_data (upd x f s) = cached_reqs_data s"
  "kv_cache_manager (upd x f s) = kv_cache_manager s"
  "encoder_cache_manager (upd x f s) = encoder_cache_manager s"
  "estimate_caches (upd x f s) = estimate_caches s"
  by (simp_all add: upd_def)

section \<open>A sample scheduler\<close>

text \<open>The configuration and the initial state at which the witnesses evaluate.\<close>

definition sample_config :: sched_config where
  "sample_config =
     \<lparr>enable_la_sched1 = True, enable_la_sched2 = False, drop_ratio = 1 / 2, pp_size = 2,
      include_finished_set = False, log_stats = False, max_num_running_reqs = 4,
      max_num_scheduled_tokens = 8, max_model_len = 100, long_prefill_token_threshold = 0,
      cfg_block_size = 2, mem_esti_bar = 7 / 10, mem_estimate_margin = 95 / 100,
      average_spec_acc = 4 / 5, max_estimate_iter = 64, estimate_iter_stride = 4,
      expect_length = [4], lenprob_threshold = [1 / 2], lenesti_prec = [1],
      num_conf_buckets = 2, prefill_reserve_blocks = 0, la_sched2_max_reqs = 1,
      la_sched2_lenidx_thre = 0, la_sched2_conf_thre = 0, num_lookahead_tokens = 0\<rparr>"

definition sample_env :: sched_env where
  "sample_env = \<lparr>env_fl = (\<lambda>x. x), env_hash = fst, env_none_hash = 7,
     env_enum = sorted_list_of_set\<rparr>"

definition sample_scheduler :: "(oid \<Rightarrow> request) \<Rightarrow> scheduler" where
  "sample_scheduler h =
     (case init_scheduler sample_config h 6 True 0 0 of Inr s \<Rightarrow> s | Inl _ \<Rightarrow> undefined)"

text \<open>A decoding request with one unverified token of a given confidence.\<close>

definition sample_speculating :: "string \<Rightarrow> rat \<Rightarrow> request" where
  "sample_speculating i c = (sample_request i [1, 2])\<lparr>output_token_ids := [3],
     all_token_ids := [1, 2, 3], num_computed_tokens := 2, sp_len := 1,
     spec_confidence_list := [c], status := RUNNING, predicted_len_prob := Some [1]\<rparr>"

lemma sample_scheduler_init:
  "\<exists>m. init_sp_kv_manager 2 FullAttentionManager 6 100 True 0 = Inr m \<and> sp_ok m \<and>
    req_to_blocks m = (\<lambda>_. []) \<and> max_num_blocks_per_req m = 50 \<and> block_size m = 2 \<and>
    get_num_free_blocks (km_pool m) = 5 \<and>
    init_scheduler sample_config h 6 True 0 0 = Inr (sample_scheduler h) \<and>
    kv_cache_manager (sample_scheduler h) = m"
proof -
  obtain m where m: "init_sp_kv_manager 2 FullAttentionManager 6 100 True 0 = Inr m" "sp_ok m"
    "req_to_blocks m = (\<lambda>_. [])" "max_num_blocks_per_req m = 50" "block_size m = 2"
    "get_num_free_blocks (km_pool m) = 5"
    using sample_sp_manager by blast
  then show ?thesis
    by (simp add: sample_scheduler_def init_scheduler_def sample_config_def)
qed

lemma sample_scheduler_simps [simp]:
  "heap (sample_scheduler h) = h" "requests (sample_scheduler h) = (\<lambda>_. None)"
  "waiting (sample_scheduler h) = []" "running_scheduled (sample_scheduler h) = []"
  "to_be_preempted (sample_scheduler h) = []" "scheduled_req_ids (sample_scheduler h) = {}"
  "finished_req_ids (sample_scheduler h) = {}" "cached_reqs_data (sample_scheduler h) = (\<lambda>_. None)"
  "encoder_cache_manager (sample_scheduler h) = init_encoder_cache 0"
  using sample_sp_manager
  by (auto simp: sample_scheduler_def init_scheduler_def sample_config_def)

end
