(* ===== verification/Metrics.thy ===== *)
theory Metrics
  imports SchedState
begin

text \<open>
  Counters of the engine: the hit rate of the prefix cache (\<open>PrefixCachingMetrics\<close> in
  \<open>spexis/v1/core/kv_cache_utils.py\<close>), the acceptance rate of drafts
  (\<open>spexis/v1/spec_decode/metrics.py\<close>), and the statistics of requests, iterations and LoRA
  adapters that the frontend keeps (\<open>spexis/v1/metrics/stats.py\<close>). An object that the code passes
  to be mutated is a value passed in and a new value returned.
\<close>

section \<open>Prefix cache\<close>

record prefix_caching_metrics =
  pm_interval :: int
  aggregated_requests :: int
  aggregated_query_total :: int
  aggregated_query_hit :: int
  query_queue :: "(int \<times> int \<times> int) list"

definition init_prefix_metrics :: "int \<Rightarrow> prefix_caching_metrics" where
  "init_prefix_metrics interval =
     \<lparr>pm_interval = interval, aggregated_requests = 0, aggregated_query_total = 0,
      aggregated_query_hit = 0, query_queue = []\<rparr>"

definition reset_prefix_metrics :: "prefix_caching_metrics \<Rightarrow> prefix_caching_metrics" where
  "reset_prefix_metrics m =
     m\<lparr>aggregated_requests := 0, aggregated_query_total := 0, aggregated_query_hit := 0,
       query_queue := []\<rparr>"

definition observe_prefix_stats ::
  "prefix_cache_stats \<Rightarrow> prefix_caching_metrics \<Rightarrow> prefix_caching_metrics res" where
  "observe_prefix_stats st m =
     (let m1 = (if stats_reset st then reset_prefix_metrics m else m);
          m2 = m1\<lparr>query_queue := query_queue m1 @ [(stats_requests st, stats_queries st, stats_hits st)],
                  aggregated_requests := aggregated_requests m1 + stats_requests st,
                  aggregated_query_total := aggregated_query_total m1 + stats_queries st,
                  aggregated_query_hit := aggregated_query_hit m1 + stats_hits st\<rparr>
      in if pm_interval m2 < aggregated_requests m2
         then (case query_queue m2 of
             [] \<Rightarrow> Inl IndexError
           | (r, q, h) # rest \<Rightarrow>
               Inr (m2\<lparr>query_queue := rest, aggregated_requests := aggregated_requests m2 - r,
                       aggregated_query_total := aggregated_query_total m2 - q,
                       aggregated_query_hit := aggregated_query_hit m2 - h\<rparr>))
         else Inr m2)"

definition hit_rate :: "(rat \<Rightarrow> rat) \<Rightarrow> prefix_caching_metrics \<Rightarrow> rat" where
  "hit_rate fl m =
     (if aggregated_query_total m = 0 then 0
      else fl (of_int (aggregated_query_hit m) / of_int (aggregated_query_total m)))"

section \<open>Drafts\<close>

record spec_decoding_metrics =
  drafted :: "int list"
  accepted :: "int list"

definition reset_spec_metrics :: spec_decoding_metrics where
  "reset_spec_metrics = \<lparr>drafted = [], accepted = []\<rparr>"

definition observe_spec_metrics ::
  "spec_decoding_stats \<Rightarrow> spec_decoding_metrics \<Rightarrow> spec_decoding_metrics" where
  "observe_spec_metrics st m =
     m\<lparr>drafted := drafted m @ [num_draft_tokens st], accepted := accepted m @ [num_accepted_tokens st]\<rparr>"

text \<open>
  The rate that is logged; \<open>None\<close> stands for the not-a-number without drafts. The counters are
  reset afterwards.
\<close>

definition log_spec_metrics ::
  "(rat \<Rightarrow> rat) \<Rightarrow> spec_decoding_metrics \<Rightarrow> (rat option \<times> int \<times> int) \<times> spec_decoding_metrics" where
  "log_spec_metrics fl m =
     (let d = sum_list (drafted m); a = sum_list (accepted m);
          rate = (if 0 < d then Some (fl (fl (of_int a / of_int d) * 100)) else None)
      in ((rate, a, d), reset_spec_metrics))"

section \<open>Requests\<close>

record lora_stats =
  waiting_requests :: "string set"
  running_requests :: "string set"

type_synonym lora_states = "(string \<times> lora_stats) list"

record request_state_stats =
  rs_num_generation_tokens :: int
  arrival_time :: rat
  queued_ts :: rat
  scheduled_ts :: rat
  first_token_ts :: rat
  last_token_ts :: rat

definition new_request_stats :: "rat \<Rightarrow> request_state_stats" where
  "new_request_stats t =
     \<lparr>rs_num_generation_tokens = 0, arrival_time = t, queued_ts = 0, scheduled_ts = 0,
      first_token_ts = 0, last_token_ts = 0\<rparr>"

record finished_request_stats =
  fs_finish_reason :: finish_reason
  e2e_latency :: rat
  fs_num_prompt_tokens :: int
  fs_num_generation_tokens :: int
  max_tokens_param :: "int option"
  queued_time :: rat
  prefill_time :: rat
  inference_time :: rat
  decode_time :: rat

record iteration_stats =
  iteration_timestamp :: rat
  it_num_generation_tokens :: int
  it_num_prompt_tokens :: int
  num_preempted_reqs :: int
  finished_requests :: "finished_request_stats list"
  max_num_generation_tokens_iter :: "int list"
  n_params_iter :: "int list"
  time_to_first_tokens_iter :: "rat list"
  time_per_output_tokens_iter :: "rat list"
  waiting_lora_adapters :: "(string \<times> int) list"
  running_lora_adapters :: "(string \<times> int) list"

definition init_iteration_stats :: "rat \<Rightarrow> iteration_stats" where
  "init_iteration_stats now =
     \<lparr>iteration_timestamp = now, it_num_generation_tokens = 0, it_num_prompt_tokens = 0,
      num_preempted_reqs = 0, finished_requests = [], max_num_generation_tokens_iter = [],
      n_params_iter = [], time_to_first_tokens_iter = [], time_per_output_tokens_iter = [],
      waiting_lora_adapters = [], running_lora_adapters = []\<rparr>"

definition time_since :: "(rat \<Rightarrow> rat) \<Rightarrow> iteration_stats \<Rightarrow> rat \<Rightarrow> rat" where
  "time_since fl it start = fl (iteration_timestamp it - start)"

text \<open>\<open>set.remove\<close> raises when the element is missing.\<close>

definition set_remove :: "string \<Rightarrow> string set \<Rightarrow> string set res" where
  "set_remove x A = (if x \<in> A then Inr (A - {x}) else Inl KeyError)"

definition scheduled_request :: "lora_stats option \<Rightarrow> string \<Rightarrow> lora_stats option res" where
  "scheduled_request lora i =
     (case lora of
        None \<Rightarrow> Inr None
      | Some l \<Rightarrow>
          ebind (set_remove i (waiting_requests l)) (\<lambda>w.
          Inr (Some (l\<lparr>waiting_requests := w, running_requests := insert i (running_requests l)\<rparr>))))"

definition preempted_request :: "lora_stats option \<Rightarrow> string \<Rightarrow> lora_stats option res" where
  "preempted_request lora i =
     (case lora of
        None \<Rightarrow> Inr None
      | Some l \<Rightarrow>
          ebind (set_remove i (running_requests l)) (\<lambda>r.
          Inr (Some (l\<lparr>running_requests := r, waiting_requests := insert i (waiting_requests l)\<rparr>))))"

type_synonym stats_state = "iteration_stats \<times> request_state_stats \<times> lora_stats option"

definition update_from_event :: "string \<Rightarrow> event_type \<times> rat \<Rightarrow> stats_state \<Rightarrow> stats_state res" where
  "update_from_event i = (\<lambda>(kind, ts) (it, rs, lora).
     (case kind of
        QUEUED \<Rightarrow>
          Inr (it, rs\<lparr>queued_ts := ts\<rparr>,
            map_option (\<lambda>l. l\<lparr>waiting_requests := insert i (waiting_requests l)\<rparr>) lora)
      | SCHEDULED \<Rightarrow>
          (let rs' = (if scheduled_ts rs = 0 then rs\<lparr>scheduled_ts := ts\<rparr> else rs) in
           ebind (scheduled_request lora i) (\<lambda>lora'. Inr (it, rs', lora')))
      | PREEMPTED_EVENT \<Rightarrow>
          ebind (preempted_request lora i) (\<lambda>lora'.
          Inr (it\<lparr>num_preempted_reqs := num_preempted_reqs it + 1\<rparr>, rs, lora'))))"

definition update_from_events ::
  "string \<Rightarrow> (event_type \<times> rat) list \<Rightarrow> stats_state \<Rightarrow> stats_state res" where
  "update_from_events i evs = efold (update_from_event i) evs"

text \<open>The statistics of one output of the engine.\<close>

definition stats_from_output ::
  "(rat \<Rightarrow> rat) \<Rightarrow> string \<Rightarrow> int list \<Rightarrow> (event_type \<times> rat) list option \<Rightarrow> rat \<Rightarrow> bool \<Rightarrow> int \<Rightarrow>
   stats_state \<Rightarrow> stats_state res" where
  "stats_from_output fl i new_ids evs core_ts is_prefilling prompt_len = (\<lambda>(it, rs, lora).
     let n = py_len new_ids;
         it1 = it\<lparr>it_num_generation_tokens := it_num_generation_tokens it + n\<rparr>
     in ebind (if is_prefilling then py_assert (0 < n) else Inr ()) (\<lambda>_.
        let it2 = (if is_prefilling
              then it1\<lparr>it_num_prompt_tokens := it_num_prompt_tokens it1 + prompt_len,
                       time_to_first_tokens_iter :=
                         time_to_first_tokens_iter it1 @ [time_since fl it1 (arrival_time rs)]\<rparr>
              else it1);
            rs1 = rs\<lparr>rs_num_generation_tokens := rs_num_generation_tokens rs + n\<rparr>
        in ebind (case evs of None \<Rightarrow> Inr (it2, rs1, lora)
                  | Some es \<Rightarrow> update_from_events i es (it2, rs1, lora)) (\<lambda>(it3, rs2, lora').
           if is_prefilling
           then Inr (it3, rs2\<lparr>first_token_ts := core_ts, last_token_ts := core_ts\<rparr>, lora')
           else Inr (it3\<lparr>time_per_output_tokens_iter :=
                           time_per_output_tokens_iter it3 @ [fl (core_ts - last_token_ts rs2)]\<rparr>,
                     rs2\<lparr>last_token_ts := core_ts\<rparr>, lora'))))"

definition stats_from_finished ::
  "(rat \<Rightarrow> rat) \<Rightarrow> finish_reason \<Rightarrow> int \<Rightarrow> int option \<Rightarrow> request_state_stats \<Rightarrow> iteration_stats \<Rightarrow>
   iteration_stats" where
  "stats_from_finished fl reason n_prompt max_toks rs it =
     it\<lparr>finished_requests := finished_requests it @
       [\<lparr>fs_finish_reason = reason, e2e_latency = time_since fl it (arrival_time rs),
         fs_num_prompt_tokens = n_prompt, fs_num_generation_tokens = rs_num_generation_tokens rs,
         max_tokens_param = max_toks, queued_time = fl (scheduled_ts rs - queued_ts rs),
         prefill_time = fl (first_token_ts rs - scheduled_ts rs),
         inference_time = fl (last_token_ts rs - scheduled_ts rs),
         decode_time = fl (last_token_ts rs - first_token_ts rs)\<rparr>]\<rparr>"

section \<open>Adapters\<close>

definition new_lora_stats :: lora_stats where
  "new_lora_stats = \<lparr>waiting_requests = {}, running_requests = {}\<rparr>"

text \<open>\<open>get_stats\<close> creates the entry of an adapter that is new.\<close>

definition lora_get_stats ::
  "string option \<Rightarrow> lora_states \<Rightarrow> lora_stats option \<times> lora_states" where
  "lora_get_stats name ls =
     (case name of
        None \<Rightarrow> (None, ls)
      | Some n \<Rightarrow>
          (case map_of ls n of
             Some l \<Rightarrow> (Some l, ls)
           | None \<Rightarrow> (Some new_lora_stats, AList.update n new_lora_stats ls)))"

text \<open>Writes a mutated object back.\<close>

definition lora_put :: "string option \<Rightarrow> lora_stats option \<Rightarrow> lora_states \<Rightarrow> lora_states" where
  "lora_put name l ls =
     (case (name, l) of (Some n, Some x) \<Rightarrow> AList.update n x ls | _ \<Rightarrow> ls)"

definition lora_add_request :: "string \<Rightarrow> string option \<Rightarrow> lora_states \<Rightarrow> lora_states" where
  "lora_add_request i name ls =
     (case lora_get_stats name ls of
        (l, ls') \<Rightarrow>
          lora_put name (map_option (\<lambda>x. x\<lparr>waiting_requests := insert i (waiting_requests x)\<rparr>) l) ls')"

definition lora_finish_request ::
  "string \<Rightarrow> string option \<Rightarrow> lora_states \<Rightarrow> lora_states res" where
  "lora_finish_request i name ls =
     (case name of
        None \<Rightarrow> Inr ls
      | Some n \<Rightarrow>
          (case map_of ls n of
             None \<Rightarrow> Inl KeyError
           | Some l \<Rightarrow>
               ebind (set_remove i (running_requests l)) (\<lambda>r.
               Inr (AList.update n (l\<lparr>running_requests := r\<rparr>) ls))))"

definition lora_abort_request ::
  "string \<Rightarrow> string option \<Rightarrow> lora_states \<Rightarrow> lora_states res" where
  "lora_abort_request i name ls =
     (case name of
        None \<Rightarrow> Inr ls
      | Some n \<Rightarrow>
          (case map_of ls n of
             None \<Rightarrow> Inl KeyError
           | Some l \<Rightarrow>
               Inr (AList.update n (l\<lparr>waiting_requests := waiting_requests l - {i},
                                      running_requests := running_requests l - {i}\<rparr>) ls)))"

definition lora_iteration_stats :: "lora_states \<Rightarrow> iteration_stats \<Rightarrow> iteration_stats" where
  "lora_iteration_stats ls it =
     fold (\<lambda>(n, l) it.
       let it1 = (if waiting_requests l \<noteq> {}
             then it\<lparr>waiting_lora_adapters :=
                       AList.update n (int (card (waiting_requests l))) (waiting_lora_adapters it)\<rparr>
             else it)
       in if running_requests l \<noteq> {}
          then it1\<lparr>running_lora_adapters :=
                     AList.update n (int (card (running_requests l))) (running_lora_adapters it1)\<rparr>
          else it1) ls it"

section \<open>The hit rate\<close>

text \<open>The counters are the sums over the queue, and no entry has more hits than queries.\<close>

definition prefix_metrics_ok :: "prefix_caching_metrics \<Rightarrow> bool" where
  "prefix_metrics_ok m \<longleftrightarrow>
     aggregated_requests m = sum_list (map fst (query_queue m)) \<and>
     aggregated_query_total m = sum_list (map (fst \<circ> snd) (query_queue m)) \<and>
     aggregated_query_hit m = sum_list (map (snd \<circ> snd) (query_queue m)) \<and>
     (\<forall>(r, q, h) \<in> set (query_queue m). 0 \<le> h \<and> h \<le> q)"

definition stats_ok :: "prefix_cache_stats \<Rightarrow> bool" where
  "stats_ok st \<longleftrightarrow> 0 \<le> stats_hits st \<and> stats_hits st \<le> stats_queries st"

lemma reset_prefix_ok: "prefix_metrics_ok (reset_prefix_metrics m)"
  by (simp add: prefix_metrics_ok_def reset_prefix_metrics_def)

abbreviation stats_triple :: "prefix_cache_stats \<Rightarrow> int \<times> int \<times> int" where
  "stats_triple st \<equiv> (stats_requests st, stats_queries st, stats_hits st)"

lemma observe_prefix_ok:
  assumes "prefix_metrics_ok m" "stats_ok st"
  shows "\<exists>m'. observe_prefix_stats st m = Inr m' \<and> prefix_metrics_ok m' \<and>
    pm_interval m' = pm_interval m \<and>
    (\<exists>gone. query_queue m @ [stats_triple st] = gone @ query_queue m')"
proof -
  let ?m1 = "if stats_reset st then reset_prefix_metrics m else m"
  have ok: "prefix_metrics_ok ?m1" "pm_interval ?m1 = pm_interval m"
    and gone: "\<exists>gone. query_queue m = gone @ query_queue ?m1"
    using assms(1) reset_prefix_ok by (auto simp: reset_prefix_metrics_def)
  obtain y rest where q: "query_queue ?m1 @ [stats_triple st] = y # rest"
    by (cases "query_queue ?m1") auto
  obtain r qs h where y: "y = (r, qs, h)" by (cases y)
  let ?m2 = "?m1\<lparr>query_queue := y # rest,
                  aggregated_requests := aggregated_requests ?m1 + stats_requests st,
                  aggregated_query_total := aggregated_query_total ?m1 + stats_queries st,
                  aggregated_query_hit := aggregated_query_hit ?m1 + stats_hits st\<rparr>"
  have ok2: "prefix_metrics_ok ?m2"
    using ok(1) assms(2) unfolding prefix_metrics_ok_def stats_ok_def
    by (simp add: q [symmetric])
  have next_gone: "\<exists>gone. query_queue m @ [stats_triple st] = gone @ y # rest"
    using gone q by (metis append.assoc)
  show ?thesis
  proof (cases "pm_interval ?m2 < aggregated_requests ?m2")
    case True
    let ?m3 = "?m2\<lparr>query_queue := rest, aggregated_requests := aggregated_requests ?m2 - r,
                    aggregated_query_total := aggregated_query_total ?m2 - qs,
                    aggregated_query_hit := aggregated_query_hit ?m2 - h\<rparr>"
    have "observe_prefix_stats st m = Inr ?m3"
      using True y unfolding observe_prefix_stats_def Let_def q by simp
    moreover have "prefix_metrics_ok ?m3" using ok2 y by (simp add: prefix_metrics_ok_def)
    moreover have "\<exists>gone. query_queue m @ [stats_triple st] = gone @ rest"
      using next_gone by (metis append.assoc append_Cons append_Nil)
    ultimately show ?thesis using ok(2) by simp
  next
    case False
    then have "observe_prefix_stats st m = Inr ?m2"
      unfolding observe_prefix_stats_def Let_def q by simp
    then show ?thesis using ok2 ok(2) next_gone by simp
  qed
qed

text \<open>
  The metrics describe a window of the most recent updates, and the rate is a proportion whatever
  the rounding, as long as it is monotone and exact at 0 and 1.
\<close>

lemma prefix_metrics_window:
  assumes "\<forall>st \<in> set sts. stats_ok st" "prefix_metrics_ok m"
  shows "\<exists>m'. efold observe_prefix_stats sts m = Inr m' \<and> prefix_metrics_ok m' \<and>
    (\<exists>older. query_queue m @ map stats_triple sts = older @ query_queue m')"
  using assms
proof (induction sts arbitrary: m)
  case (Cons st sts)
  from observe_prefix_ok [of m st] Cons.prems obtain m1 gone where m1:
    "observe_prefix_stats st m = Inr m1" "prefix_metrics_ok m1"
    "query_queue m @ [stats_triple st] = gone @ query_queue m1" by auto
  with Cons.IH [of m1] Cons.prems(1) obtain m' older where m':
    "efold observe_prefix_stats sts m1 = Inr m'" "prefix_metrics_ok m'"
    "query_queue m1 @ map stats_triple sts = older @ query_queue m'" by auto
  have "query_queue m @ map stats_triple (st # sts)
      = (query_queue m @ [stats_triple st]) @ map stats_triple sts" by simp
  also have "\<dots> = (gone @ older) @ query_queue m'" unfolding m1(3) using m'(3) by simp
  finally have "query_queue m @ map stats_triple (st # sts) = (gone @ older) @ query_queue m'" .
  then show ?case using m1(1) m'(1,2) by (intro exI [of _ m'] conjI exI [of _ "gone @ older"]) simp_all
qed simp

lemma hit_rate_proportion:
  assumes "prefix_metrics_ok m" "mono fl" "fl 0 = 0" "fl 1 = 1"
  shows "0 \<le> hit_rate fl m \<and> hit_rate fl m \<le> 1"
proof (cases "aggregated_query_total m = 0")
  case False
  have "0 \<le> aggregated_query_hit m \<and> aggregated_query_hit m \<le> aggregated_query_total m"
  proof -
    have each: "0 \<le> (snd \<circ> snd) x \<and> (snd \<circ> snd) x \<le> (fst \<circ> snd) x" if "x \<in> set (query_queue m)" for x
      using assms(1) that unfolding prefix_metrics_ok_def by (cases x) auto
    then have "sum_list (map (snd \<circ> snd) (query_queue m)) \<le> sum_list (map (fst \<circ> snd) (query_queue m))"
      by (intro sum_list_mono) blast
    moreover have "0 \<le> sum_list (map (snd \<circ> snd) (query_queue m))"
      using each by (intro sum_list_nonneg) (metis (no_types, lifting) imageE list.set_map)
    ultimately show ?thesis using assms(1) unfolding prefix_metrics_ok_def by simp
  qed
  then have "0 \<le> (of_int (aggregated_query_hit m) / of_int (aggregated_query_total m) :: rat)"
    "of_int (aggregated_query_hit m) / of_int (aggregated_query_total m) \<le> (1 :: rat)"
    using False by (simp_all add: divide_le_eq_1)
  then show ?thesis
    using False assms(3,4) monoD [OF assms(2)] by (metis hit_rate_def)
qed (simp add: hit_rate_def)

text \<open>
  The hit rate is that of the most recent updates. After any sequence of updates with at most
  as many hits as queries, nothing has been raised, the counters are the sums over the queue, the
  queue holds the most recent updates in their order, and the rate lies between 0 and 1.
\<close>

theorem prefix_hit_rate_windowed:
  assumes "\<forall>st \<in> set sts. stats_ok st" "mono fl" "fl 0 = 0" "fl 1 = 1"
  shows "\<exists>m older. efold observe_prefix_stats sts (init_prefix_metrics interval) = Inr m \<and>
    map stats_triple sts = older @ query_queue m \<and>
    aggregated_query_total m = sum_list (map (fst \<circ> snd) (query_queue m)) \<and>
    aggregated_query_hit m = sum_list (map (snd \<circ> snd) (query_queue m)) \<and>
    0 \<le> hit_rate fl m \<and> hit_rate fl m \<le> 1"
proof -
  have init: "prefix_metrics_ok (init_prefix_metrics interval)"
    by (simp add: prefix_metrics_ok_def init_prefix_metrics_def)
  from prefix_metrics_window [OF assms(1) init] obtain m older where m:
    "efold observe_prefix_stats sts (init_prefix_metrics interval) = Inr m" "prefix_metrics_ok m"
    "map stats_triple sts = older @ query_queue m" by (auto simp: init_prefix_metrics_def)
  then show ?thesis
    using hit_rate_proportion [OF m(2) assms(2-4)] by (auto simp: prefix_metrics_ok_def)
qed

theorem prefix_hit_rate_windowed_witness:
  "\<exists>m. efold observe_prefix_stats
      [\<lparr>stats_reset = False, stats_requests = 2, stats_queries = 8, stats_hits = 3\<rparr>,
       \<lparr>stats_reset = True, stats_requests = 2, stats_queries = 4, stats_hits = 1\<rparr>]
      (init_prefix_metrics 1000) = Inr m \<and> hit_rate (\<lambda>x. x) m \<le> 1"
  using prefix_hit_rate_windowed [of
      "[\<lparr>stats_reset = False, stats_requests = 2, stats_queries = 8, stats_hits = 3\<rparr>,
        \<lparr>stats_reset = True, stats_requests = 2, stats_queries = 4, stats_hits = 1\<rparr>]" "\<lambda>x. x" 1000]
  by (auto simp: stats_ok_def mono_def)

section \<open>The adapters' sets follow the events\<close>

text \<open>
  Whether a request runs after a sequence of events; \<open>None\<close> when it is scheduled while it runs or
  preempted while it waits.
\<close>

fun after_events :: "bool \<Rightarrow> event_type list \<Rightarrow> bool option" where
  "after_events runs [] = Some runs"
| "after_events runs (QUEUED # es) = (if runs then None else after_events False es)"
| "after_events runs (SCHEDULED # es) = (if runs then None else after_events True es)"
| "after_events runs (PREEMPTED_EVENT # es) = (if runs then after_events False es else None)"

definition lora_tracks :: "string \<Rightarrow> bool \<Rightarrow> lora_stats \<Rightarrow> bool" where
  "lora_tracks i runs l \<longleftrightarrow> (i \<in> waiting_requests l \<longleftrightarrow> \<not> runs) \<and> (i \<in> running_requests l \<longleftrightarrow> runs)"

lemma event_tracked:
  assumes "lora_tracks i runs l" "after_events runs [fst ev] = Some runs'"
  shows "\<exists>it' rs' l'. update_from_event i ev (it, rs, Some l) = Inr (it', rs', Some l') \<and>
    lora_tracks i runs' l' \<and> waiting_requests l' - {i} = waiting_requests l - {i} \<and>
    running_requests l' - {i} = running_requests l - {i}"
  using assms
  by (cases ev; cases "fst ev")
    (auto simp: update_from_event_def lora_tracks_def scheduled_request_def preempted_request_def
      set_remove_def Let_def split: if_splits)

lemma after_events_Cons:
  "after_events runs (e # es) = Option.bind (after_events runs [e]) (\<lambda>b. after_events b es)"
  by (cases e) simp_all

lemma events_tracked:
  assumes "lora_tracks i runs l" "after_events runs (map fst evs) = Some runs'"
  shows "\<exists>it' rs' l'. update_from_events i evs (it, rs, Some l) = Inr (it', rs', Some l') \<and>
    lora_tracks i runs' l' \<and> waiting_requests l' - {i} = waiting_requests l - {i} \<and>
    running_requests l' - {i} = running_requests l - {i}"
  using assms
proof (induction evs arbitrary: runs l it rs)
  case (Cons ev evs)
  obtain b where b: "after_events runs [fst ev] = Some b" "after_events b (map fst evs) = Some runs'"
    using Cons.prems(2) after_events_Cons [of runs "fst ev" "map fst evs"]
    by (auto simp: bind_eq_Some_conv)
  from event_tracked [OF Cons.prems(1) b(1), of it rs] obtain it1 rs1 l1 where one:
    "update_from_event i ev (it, rs, Some l) = Inr (it1, rs1, Some l1)" "lora_tracks i b l1"
    "waiting_requests l1 - {i} = waiting_requests l - {i}"
    "running_requests l1 - {i} = running_requests l - {i}" by blast
  from Cons.IH [OF one(2) b(2), of it1 rs1] show ?case
    using one by (auto simp: update_from_events_def)
qed (auto simp: update_from_events_def)

text \<open>Finishing a request works exactly when it runs.\<close>

lemma finish_tracked:
  assumes "lora_tracks i runs l" "map_of ls n = Some l"
  shows "lora_finish_request i (Some n) ls =
    (if runs then Inr (AList.update n (l\<lparr>running_requests := running_requests l - {i}\<rparr>) ls)
     else Inl KeyError)"
  using assms by (simp add: lora_finish_request_def lora_tracks_def set_remove_def)

end
