(* ===== verification/Detok.thy ===== *)
theory Detok
  imports SpecRequest
begin

text \<open>
  From token ids to text: the incremental detokenization of
  \<open>spexis/transformers_utils/detokenizer_utils.py\<close>, the search for stop strings of
  \<open>spexis/engine/output_processor/stop_checker.py\<close>, and the detokenizer of a request of
  \<open>spexis/v1/engine/detokenizer.py\<close>. Characters matter here beyond ASCII, so a text is the list of
  its code points. The tokenizer is third-party code and a parameter.
\<close>

section \<open>Texts and tokenizers\<close>

text \<open>
  What the code asks of a tokenizer. An id that is not in the vocabulary has no token. A tokenizer
  that answers a single string when asked for one id counts as answering the list of it, which is
  what the code makes of it.
\<close>

record tokenizer =
  convert_ids_to_tokens :: "int list \<Rightarrow> bool \<Rightarrow> ustr option list"
  convert_tokens_to_string :: "ustr option list \<Rightarrow> ustr"
  get_added_vocab :: "ustr list"
  all_special_tokens :: "ustr list"
  is_fast :: bool
  vocab_len :: int

definition replacement_char :: int where
  "replacement_char = 65533"

definition ends_incomplete :: "ustr \<Rightarrow> bool" where
  "ends_incomplete t \<longleftrightarrow> t \<noteq> [] \<and> last t = replacement_char"

definition replace_none_with_empty :: "ustr option list \<Rightarrow> ustr option list" where
  "replace_none_with_empty ts = map (\<lambda>t. case t of None \<Rightarrow> Some [] | Some s \<Rightarrow> Some s) ts"

definition token_in :: "ustr option \<Rightarrow> ustr list \<Rightarrow> bool" where
  "token_in t vs = (case t of None \<Rightarrow> False | Some s \<Rightarrow> s \<in> set vs)"

definition flush_sub_text :: "tokenizer \<Rightarrow> ustr list \<Rightarrow> ustr option list \<Rightarrow> ustr list" where
  "flush_sub_text tk subs current =
     (if current = [] then subs else subs @ [convert_tokens_to_string tk current])"

fun sub_texts_loop ::
  "tokenizer \<Rightarrow> bool \<Rightarrow> ustr option list \<Rightarrow> ustr list \<Rightarrow> ustr option list \<Rightarrow> ustr list" where
  "sub_texts_loop tk skip [] subs current = flush_sub_text tk subs current"
| "sub_texts_loop tk skip (t # ts) subs current =
     (if skip \<and> token_in t (all_special_tokens tk) then sub_texts_loop tk skip ts subs current
      else if token_in t (get_added_vocab tk)
      then sub_texts_loop tk skip ts (flush_sub_text tk subs current @ [the t]) []
      else sub_texts_loop tk skip ts subs (current @ [t]))"

fun join_texts :: "ustr \<Rightarrow> ustr list \<Rightarrow> ustr" where
  "join_texts sep [] = []"
| "join_texts sep [t] = t"
| "join_texts sep (t # ts) = t @ sep @ join_texts sep ts"

definition convert_with_added_encoders ::
  "tokenizer \<Rightarrow> ustr option list \<Rightarrow> bool \<Rightarrow> bool \<Rightarrow> ustr" where
  "convert_with_added_encoders tk ts skip spaces =
     join_texts (if spaces then [32] else []) (sub_texts_loop tk skip ts [] [])"

section \<open>Incremental detokenization\<close>

definition convert_prompt_ids_to_tokens ::
  "tokenizer \<Rightarrow> int list \<Rightarrow> bool \<Rightarrow> ustr option list \<times> int \<times> int" where
  "convert_prompt_ids_to_tokens tk prompt skip =
     (let new_tokens = convert_ids_to_tokens tk (py_from prompt (- 5 - 2)) skip;
          read = py_len new_tokens
      in (replace_none_with_empty new_tokens, max (read - 5) 0, read))"

definition convert_ids_list_to_tokens :: "tokenizer \<Rightarrow> int list \<Rightarrow> ustr option list" where
  "convert_ids_list_to_tokens tk ids = replace_none_with_empty (convert_ids_to_tokens tk ids False)"

definition new_id_tokens :: "tokenizer \<Rightarrow> int \<Rightarrow> bool \<Rightarrow> ustr option list" where
  "new_id_tokens tk i skip =
     (if 0 \<le> i \<and> i < vocab_len tk then convert_ids_to_tokens tk [i] skip else [Some []])"

definition decode_tokens :: "tokenizer \<Rightarrow> bool \<Rightarrow> bool \<Rightarrow> ustr option list \<Rightarrow> ustr" where
  "decode_tokens tk skip spaces ts =
     (if is_fast tk \<or> get_added_vocab tk = [] then convert_tokens_to_string tk ts
      else convert_with_added_encoders tk ts skip spaces)"

text \<open>The result is the new tokens, the new text, and the new offsets.\<close>

definition detokenize_incrementally ::
  "tokenizer \<Rightarrow> int list \<Rightarrow> ustr option list option \<Rightarrow> int \<Rightarrow> int \<Rightarrow> bool \<Rightarrow> bool \<Rightarrow>
   (ustr option list \<times> ustr \<times> int \<times> int) res" where
  "detokenize_incrementally tk ids prev prefix_off read_off skip spaces =
     ebind (py_get ids (- 1)) (\<lambda>new_id.
     let (prev_tokens, p, r) =
           (case prev of
              None \<Rightarrow> convert_prompt_ids_to_tokens tk (py_upto ids (- 1)) skip
            | Some ts \<Rightarrow> (ts, prefix_off, read_off));
         new_tokens = new_id_tokens tk new_id skip;
         output_tokens = prev_tokens @ new_tokens;
         returned = (if prev = None then output_tokens else new_tokens);
         prefix_text = decode_tokens tk skip spaces (py_slice output_tokens p r);
         new_text = decode_tokens tk skip spaces (py_from output_tokens p)
     in if py_len new_text \<le> py_len prefix_text \<or> ends_incomplete new_text
        then Inr (returned, [], p, r)
        else Inr (returned, py_from new_text (py_len prefix_text), r, py_len output_tokens))"

section \<open>Stop strings\<close>

text \<open>\<open>str.find\<close> with a start: the least index from there on, or -1.\<close>

definition occurs_at :: "ustr \<Rightarrow> ustr \<Rightarrow> nat \<Rightarrow> bool" where
  "occurs_at t s i \<longleftrightarrow> i + length s \<le> length t \<and> take (length s) (drop i t) = s"

definition py_find :: "ustr \<Rightarrow> ustr \<Rightarrow> int \<Rightarrow> int" where
  "py_find t s start =
     (let a = nat (if start < 0 then max 0 (py_len t + start) else start) in
      case find (occurs_at t s) [a..<Suc (length t)] of None \<Rightarrow> - 1 | Some i \<Rightarrow> int i)"

fun stop_strings_loop :: "ustr \<Rightarrow> int \<Rightarrow> bool \<Rightarrow> ustr list \<Rightarrow> (ustr \<times> int) option" where
  "stop_strings_loop t new_chars incl [] = None"
| "stop_strings_loop t new_chars incl (s # ss) =
     (let i = py_find t s (1 - new_chars - py_len s) in
      if i = - 1 then stop_strings_loop t new_chars incl ss
      else if incl then
        (if py_len t \<le> i + py_len s then Some (s, - 1) else Some (s, i + py_len s))
      else Some (s, i))"

definition check_stop_strings :: "ustr \<Rightarrow> int \<Rightarrow> ustr list \<Rightarrow> bool \<Rightarrow> (ustr \<times> int) option" where
  "check_stop_strings t new_chars stops incl =
     (if new_chars = 0 \<or> stops = [] then None else stop_strings_loop t new_chars incl stops)"

section \<open>The detokenizer of a request\<close>

record detokenizer =
  dt_token_ids :: "int list"
  dt_output_text :: ustr
  dt_tokens :: "ustr option list"
  dt_prompt_len :: int
  dt_stop :: "ustr list"
  dt_include_stop :: bool
  dt_prefix_offset :: int
  dt_read_offset :: int
  dt_skip_special :: bool
  dt_spaces :: bool
  dt_tokenizer :: "tokenizer option"
  dt_stop_buffer :: int
  dt_last_offset :: int

text \<open>The fields of the sampling parameters that are read here.\<close>

record detok_params =
  dp_stop :: "ustr list"
  dp_include_stop :: bool
  dp_skip_special :: bool
  dp_spaces :: bool

definition stop_buffer_of :: "detok_params \<Rightarrow> int" where
  "stop_buffer_of ps =
     (if dp_stop ps \<noteq> [] \<and> \<not> dp_include_stop ps
      then Max (set (map py_len (dp_stop ps))) - 1 else 0)"

definition detokenizer_from_request ::
  "tokenizer option \<Rightarrow> int list \<Rightarrow> detok_params \<Rightarrow> detokenizer" where
  "detokenizer_from_request tk prompt ps =
     (case tk of
        None \<Rightarrow>
          \<lparr>dt_token_ids = [], dt_output_text = [], dt_tokens = [], dt_prompt_len = 0, dt_stop = [],
           dt_include_stop = False, dt_prefix_offset = 0, dt_read_offset = 0,
           dt_skip_special = True, dt_spaces = True, dt_tokenizer = None, dt_stop_buffer = 0,
           dt_last_offset = 0\<rparr>
      | Some t \<Rightarrow>
          (let (tokens, p, r) = convert_prompt_ids_to_tokens t prompt (dp_skip_special ps) in
          \<lparr>dt_token_ids = prompt, dt_output_text = [], dt_tokens = tokens,
           dt_prompt_len = py_len prompt, dt_stop = dp_stop ps,
           dt_include_stop = dp_include_stop ps, dt_prefix_offset = p, dt_read_offset = r,
           dt_skip_special = dp_skip_special ps, dt_spaces = dp_spaces ps, dt_tokenizer = Some t,
           dt_stop_buffer = stop_buffer_of ps, dt_last_offset = 0\<rparr>))"

definition dt_output_token_ids :: "detokenizer \<Rightarrow> int list" where
  "dt_output_token_ids d =
     (if dt_prompt_len d = 0 then dt_token_ids d else py_from (dt_token_ids d) (dt_prompt_len d))"

definition detok_one :: "tokenizer \<Rightarrow> int \<Rightarrow> ustr \<times> detokenizer \<Rightarrow> (ustr \<times> detokenizer) res" where
  "detok_one tk i = (\<lambda>(decoded, d).
     let ids = dt_token_ids d @ [i] in
     ebind (detokenize_incrementally tk ids (Some (dt_tokens d)) (dt_prefix_offset d)
              (dt_read_offset d) (dt_skip_special d) (dt_spaces d)) (\<lambda>(new_tokens, txt, p, r).
     Inr (decoded @ txt,
          d\<lparr>dt_token_ids := ids, dt_tokens := dt_tokens d @ new_tokens, dt_prefix_offset := p,
            dt_read_offset := r\<rparr>)))"

definition evaluate_stop :: "ustr \<Rightarrow> detokenizer \<Rightarrow> ustr option \<times> detokenizer" where
  "evaluate_stop decoded d =
     (if dt_stop d = [] then (None, d)
      else (case check_stop_strings (dt_output_text d) (py_len decoded) (dt_stop d)
                   (dt_include_stop d) of
              None \<Rightarrow> (None, d)
            | Some (s, truncate_to) \<Rightarrow>
                (Some s, if truncate_to \<noteq> - 1
                   then d\<lparr>dt_output_text := py_upto (dt_output_text d) truncate_to\<rparr> else d)))"

text \<open>The matched stop string, if any, and the detokenizer after the update.\<close>

definition detok_update ::
  "int list \<Rightarrow> bool \<Rightarrow> detokenizer \<Rightarrow> (ustr option \<times> detokenizer) res" where
  "detok_update new_ids stop_terminated d =
     (if new_ids = [] then Inr (None, d)
      else case dt_tokenizer d of
        None \<Rightarrow> Inr (None, d\<lparr>dt_token_ids := dt_token_ids d @ new_ids\<rparr>)
      | Some tk \<Rightarrow>
          (let skipped = stop_terminated \<and> \<not> dt_include_stop d;
               ids = (if skipped then py_upto new_ids (- 1) else new_ids)
           in ebind (efold (detok_one tk) ids ([], d)) (\<lambda>(decoded, d1).
              let d2 = d1\<lparr>dt_output_text := dt_output_text d1 @ decoded\<rparr> in
              if stop_terminated
              then Inr (None, if skipped
                     then d2\<lparr>dt_token_ids := dt_token_ids d2 @ [last new_ids]\<rparr> else d2)
              else Inr (evaluate_stop decoded d2))))"

definition get_next_output_text :: "bool \<Rightarrow> bool \<Rightarrow> detokenizer \<Rightarrow> ustr \<times> detokenizer" where
  "get_next_output_text finished delta d =
     (let buffer = (if finished then 0 else dt_stop_buffer d) in
      if \<not> delta
      then (if buffer \<noteq> 0 then py_upto (dt_output_text d) (- buffer) else dt_output_text d, d)
      else (let n = py_len (dt_output_text d) - buffer; last_off = dt_last_offset d in
            if last_off < n
            then (py_slice (dt_output_text d) last_off n, d\<lparr>dt_last_offset := n\<rparr>)
            else ([], d)))"


section \<open>Streaming\<close>

text \<open>
  One output of the engine for a request that streams: update the detokenizer, then take the new
  text; a stop string finishes the request as a finish reason does
  (\<open>OutputProcessor.process_outputs\<close>). Nothing is taken from a finished request.
\<close>

definition stream_step ::
  "int list \<Rightarrow> finish_reason option \<Rightarrow> detokenizer \<Rightarrow> (bool \<times> ustr \<times> detokenizer) res" where
  "stream_step ids reason d =
     ebind (detok_update ids (reason = Some STOP) d) (\<lambda>(s, d1).
     let finished = (reason \<noteq> None \<or> or_empty s \<noteq> []);
         (t, d2) = get_next_output_text finished True d1
     in Inr (finished, t, d2))"

fun stream_outputs ::
  "(int list \<times> finish_reason option) list \<Rightarrow> detokenizer \<Rightarrow>
   (ustr list \<times> bool \<times> detokenizer) res" where
  "stream_outputs [] d = Inr ([], False, d)"
| "stream_outputs ((ids, reason) # rest) d =
     ebind (stream_step ids reason d) (\<lambda>(finished, t, d1).
     if finished then Inr ([t], True, d1)
     else ebind (stream_outputs rest d1) (\<lambda>(ts, fin, d2). Inr (t # ts, fin, d2)))"

definition same_output :: "detokenizer \<Rightarrow> detokenizer \<Rightarrow> bool" where
  "same_output d d' \<longleftrightarrow> dt_output_text d' = dt_output_text d \<and> dt_stop d' = dt_stop d \<and>
     dt_include_stop d' = dt_include_stop d \<and> dt_stop_buffer d' = dt_stop_buffer d \<and>
     dt_last_offset d' = dt_last_offset d"

lemma detok_one_total:
  "\<exists>decoded' d'. detok_one tk i (decoded, d) = Inr (decoded', d') \<and> same_output d d'"
  by (simp add: detok_one_def detokenize_incrementally_def Let_def same_output_def split: prod.split)

lemma detok_all_total:
  "\<exists>decoded d'. efold (detok_one tk) ids ([], d) = Inr (decoded, d') \<and> same_output d d'"
proof -
  have "\<exists>t. efold (detok_one tk) ids ([], d) = Inr t \<and> same_output d (snd t)"
  proof (rule efold_total)
    show "same_output d (snd ([], d))" by (simp add: same_output_def)
  next
    fix i and s :: "ustr \<times> detokenizer"
    assume "same_output d (snd s)"
    moreover obtain decoded' d' where "detok_one tk i s = Inr (decoded', d')" "same_output (snd s) d'"
      using detok_one_total [of tk i "fst s" "snd s"] by auto
    ultimately show "\<exists>t. detok_one tk i s = Inr t \<and> same_output d (snd t)"
      by (auto simp: same_output_def)
  qed
  then show ?thesis by auto
qed

text \<open>The buffer covers every stop string but its last character.\<close>

definition buffer_ok :: "detokenizer \<Rightarrow> bool" where
  "buffer_ok d \<longleftrightarrow> 0 \<le> dt_stop_buffer d \<and> (\<forall>s \<in> set (dt_stop d). s \<noteq> []) \<and>
     (dt_include_stop d \<longrightarrow> dt_stop_buffer d = 0) \<and>
     (\<not> dt_include_stop d \<longrightarrow> (\<forall>s \<in> set (dt_stop d). py_len s \<le> dt_stop_buffer d + 1))"

lemma buffer_ok_initial:
  assumes "\<forall>s \<in> set (dp_stop ps). s \<noteq> []"
  shows "buffer_ok (detokenizer_from_request tk prompt ps)"
proof (cases tk)
  case None
  then show ?thesis by (simp add: detokenizer_from_request_def buffer_ok_def)
next
  case (Some t)
  have max: "py_len s \<le> Max (set (map py_len (dp_stop ps)))" if "s \<in> set (dp_stop ps)" for s
    using that by simp
  have one: "1 \<le> py_len s" if "s \<in> set (dp_stop ps)" for s
  proof -
    have "s \<noteq> []" using that assms by blast
    then show ?thesis by (cases s) simp_all
  qed
  have "1 \<le> Max (set (map py_len (dp_stop ps)))" if ne: "dp_stop ps \<noteq> []"
  proof -
    have "hd (dp_stop ps) \<in> set (dp_stop ps)" using ne by simp
    from one [OF this] max [OF this] show ?thesis by (rule order_trans)
  qed
  then show ?thesis
    using max assms Some
    by (auto simp: detokenizer_from_request_def buffer_ok_def stop_buffer_of_def split: prod.split)
qed

lemma find_SomeD: "find P xs = Some x \<Longrightarrow> x \<in> set xs \<and> P x"
  by (induction xs) (auto split: if_splits)

lemma py_find_bounds:
  assumes "py_find t s start \<noteq> - 1"
  shows "(if start < 0 then max 0 (py_len t + start) else start) \<le> py_find t s start"
    "py_find t s start + py_len s \<le> py_len t" "occurs_at t s (nat (py_find t s start))"
proof -
  let ?a = "nat (if start < 0 then max 0 (py_len t + start) else start)"
  obtain i where i: "find (occurs_at t s) [?a..<Suc (length t)] = Some i"
    using assms by (auto simp: py_find_def Let_def split: option.splits)
  then have "py_find t s start = int i" by (simp only: py_find_def Let_def option.case)
  moreover have "occurs_at t s i" "?a \<le> i" using find_SomeD [OF i] by auto
  ultimately show "(if start < 0 then max 0 (py_len t + start) else start) \<le> py_find t s start"
    "py_find t s start + py_len s \<le> py_len t" "occurs_at t s (nat (py_find t s start))"
    by (auto simp: occurs_at_def py_len_def)
qed

text \<open>A match is not truncated before what the buffer allowed to be emitted.\<close>

lemma stop_strings_truncate:
  assumes "stop_strings_loop (old @ decoded) (py_len decoded) incl ss = Some (s, k)" "decoded \<noteq> []"
    and "\<forall>s \<in> set ss. s \<noteq> []"
  shows "s \<in> set ss \<and> (k \<noteq> - 1 \<longrightarrow> 0 \<le> k \<and> k \<le> py_len (old @ decoded) \<and>
    (if incl then py_len old < k else py_len old + 1 - py_len s \<le> k))"
  using assms(1,3)
proof (induction ss)
  case (Cons s' ss)
  let ?t = "old @ decoded" and ?n = "py_len decoded"
  let ?start = "1 - ?n - py_len s'" and ?i = "py_find ?t s' (1 - ?n - py_len s')"
  show ?case
  proof (cases "?i = - 1")
    case True
    then show ?thesis using Cons by (simp add: Let_def)
  next
    case False
    have "1 \<le> ?n" using assms(2) by (cases decoded) simp_all
    moreover have pos: "1 \<le> py_len s'" using Cons.prems(2) by (cases s') auto
    ultimately have "?start < 0" by simp
    then have lo: "max 0 (py_len old + 1 - py_len s') \<le> ?i"
      using py_find_bounds(1) [OF False] by (simp add: algebra_simps)
    have hi: "?i + py_len s' \<le> py_len ?t" by (rule py_find_bounds(2) [OF False])
    show ?thesis
    proof (cases incl)
      case True
      then have "s = s' \<and> (k \<noteq> - 1 \<longrightarrow> k = ?i + py_len s')"
        using Cons.prems(1) False by (auto simp: Let_def split: if_splits)
      moreover have "0 \<le> ?i + py_len s' \<and> ?i + py_len s' \<le> py_len ?t \<and> py_len old < ?i + py_len s'"
        using lo hi pos by linarith
      ultimately show ?thesis using True by auto
    next
      case False': False
      then have "s = s' \<and> k = ?i" using Cons.prems(1) False by (auto simp: Let_def)
      then show ?thesis using lo hi False' pos by simp
    qed
  qed
qed simp

text \<open>What has been emitted is a prefix of the text that leaves the buffer out.\<close>

definition emitted :: "ustr \<Rightarrow> detokenizer \<Rightarrow> bool" where
  "emitted e d \<longleftrightarrow> 0 \<le> dt_last_offset d \<and>
     dt_last_offset d \<le> max 0 (py_len (dt_output_text d) - dt_stop_buffer d) \<and>
     e = take (nat (dt_last_offset d)) (dt_output_text d)"

lemma below_buffer: "0 \<le> b \<Longrightarrow> x \<le> max 0 (py_len t - b) \<Longrightarrow> x \<le> py_len t"
  using py_len_nonneg [of t] by linarith

lemma evaluate_stop_emitted:
  assumes "buffer_ok d" "evaluate_stop decoded d = (s, d')"
    and "dt_output_text d = old @ decoded"
    and "0 \<le> dt_last_offset d" "dt_last_offset d \<le> max 0 (py_len old - dt_stop_buffer d)"
  shows "buffer_ok d' \<and> dt_last_offset d' = dt_last_offset d \<and>
    take (nat (dt_last_offset d)) (dt_output_text d') = take (nat (dt_last_offset d)) old \<and>
    dt_last_offset d \<le> py_len (dt_output_text d') \<and> (or_empty s = [] \<longrightarrow> d' = d)"
proof -
  let ?n = "dt_last_offset d"
  have n: "?n \<le> py_len old" using below_buffer assms(1,5) unfolding buffer_ok_def by blast
  then have nat_n: "nat ?n \<le> length old" by (simp add: py_len_def)
  have n': "?n \<le> py_len old + py_len decoded" using n py_len_nonneg [of decoded] by linarith
  show ?thesis
  proof (cases "dt_stop d = [] \<or> check_stop_strings (dt_output_text d) (py_len decoded) (dt_stop d)
      (dt_include_stop d) = None")
    case True
    then have "d' = d" using assms(2) by (auto simp: evaluate_stop_def split: if_splits)
    then show ?thesis using assms n' nat_n by simp
  next
    case False
    then obtain s' k where c: "check_stop_strings (dt_output_text d) (py_len decoded) (dt_stop d)
        (dt_include_stop d) = Some (s', k)" by auto
    then have d': "s = Some s'" "d' = (if k \<noteq> - 1
        then d\<lparr>dt_output_text := py_upto (dt_output_text d) k\<rparr> else d)"
      using assms(2) False by (auto simp: evaluate_stop_def)
    from c have loop: "stop_strings_loop (old @ decoded) (py_len decoded) (dt_include_stop d)
        (dt_stop d) = Some (s', k)" and dec: "decoded \<noteq> []"
      using assms(3) by (auto simp: check_stop_strings_def split: if_splits)
    have stops: "\<forall>s \<in> set (dt_stop d). s \<noteq> []" using assms(1) by (simp add: buffer_ok_def)
    from stop_strings_truncate [OF loop dec stops] have s': "s' \<in> set (dt_stop d)"
      and k: "k \<noteq> - 1 \<longrightarrow> 0 \<le> k \<and> k \<le> py_len (old @ decoded) \<and>
        (if dt_include_stop d then py_len old < k else py_len old + 1 - py_len s' \<le> k)" by auto
    have "s' \<noteq> []" using s' stops by blast
    then have some: "or_empty s \<noteq> []" using d'(1) by (simp add: or_empty_def)
    show ?thesis
    proof (cases "k = - 1")
      case True
      then show ?thesis using d' some assms(1,3) n' nat_n by simp
    next
      case False': False
      have "?n \<le> k"
      proof (cases "dt_include_stop d")
        case True
        then show ?thesis using k False' n by simp
      next
        case False
        then have "py_len s' \<le> dt_stop_buffer d + 1" using assms(1) s' by (simp add: buffer_ok_def)
        moreover have "0 \<le> k" "py_len old + 1 - py_len s' \<le> k" using k False' False by simp_all
        ultimately show ?thesis using assms(5) by linarith
      qed
      then have "nat ?n \<le> nat k" by simp
      then have "take (nat ?n) (take (nat k) (old @ decoded)) = take (nat ?n) old"
        using nat_n by (simp add: min_def del: take_append) simp
      moreover have "py_upto (dt_output_text d) k = take (nat k) (old @ decoded)"
        using assms(3) k False' by (simp add: py_upto_nonneg)
      moreover have "?n \<le> py_len (take (nat k) (old @ decoded))"
        using \<open>?n \<le> k\<close> n' k False' by (simp add: py_len_def min_def del: take_append)
      ultimately show ?thesis
        using d' some False' assms(1) by (simp add: buffer_ok_def del: take_append)
    qed
  qed
qed

lemma detok_update_emitted:
  assumes "buffer_ok d" "emitted e d"
  shows "\<exists>s d'. detok_update ids st d = Inr (s, d') \<and> buffer_ok d' \<and>
    dt_last_offset d' = dt_last_offset d \<and>
    take (nat (dt_last_offset d)) (dt_output_text d') = e \<and>
    dt_last_offset d \<le> py_len (dt_output_text d') \<and> (or_empty s = [] \<longrightarrow> emitted e d')"
proof -
  let ?n = "dt_last_offset d" and ?old = "dt_output_text d"
  have off: "0 \<le> ?n" "?n \<le> max 0 (py_len ?old - dt_stop_buffer d)" and e: "e = take (nat ?n) ?old"
    using assms(2) by (simp_all add: emitted_def)
  have n: "?n \<le> py_len ?old" using below_buffer off(2) assms(1) unfolding buffer_ok_def by blast
  have grown: "buffer_ok d' \<and> dt_last_offset d' = ?n \<and>
      take (nat ?n) (dt_output_text d') = e \<and> ?n \<le> py_len (dt_output_text d') \<and> emitted e d'"
    if "dt_output_text d' = ?old @ decoded" "dt_stop d' = dt_stop d"
      "dt_include_stop d' = dt_include_stop d" "dt_stop_buffer d' = dt_stop_buffer d"
      "dt_last_offset d' = ?n" for d' decoded
  proof -
    have "nat ?n \<le> length ?old" using n by (simp add: py_len_def)
    moreover have "?n \<le> max 0 (py_len (?old @ decoded) - dt_stop_buffer d)"
      using off(2) py_len_nonneg [of decoded] unfolding py_len_simps by linarith
    moreover have "?n \<le> py_len (?old @ decoded)"
      using n py_len_nonneg [of decoded] unfolding py_len_simps by linarith
    ultimately show ?thesis
      using that off(1) e assms(1) by (simp add: emitted_def buffer_ok_def)
  qed
  show ?thesis
  proof (cases "ids = [] \<or> dt_tokenizer d = None")
    case True
    then have "\<exists>d'. detok_update ids st d = Inr (None, d') \<and> same_output d d'"
      by (auto simp: detok_update_def same_output_def)
    then show ?thesis using grown [of _ "[]"] by (auto simp: same_output_def)
  next
    case False
    then obtain tk where tk: "dt_tokenizer d = Some tk" "ids \<noteq> []" by auto
    let ?skipped = "st \<and> \<not> dt_include_stop d"
    obtain decoded d1 where d1: "efold (detok_one tk) (if ?skipped then py_upto ids (- 1) else ids)
        ([], d) = Inr (decoded, d1)" "same_output d d1"
      using detok_all_total by blast
    let ?d2 = "d1\<lparr>dt_output_text := dt_output_text d1 @ decoded\<rparr>"
    have d2: "dt_output_text ?d2 = ?old @ decoded" "dt_stop ?d2 = dt_stop d"
      "dt_include_stop ?d2 = dt_include_stop d" "dt_stop_buffer ?d2 = dt_stop_buffer d"
      "dt_last_offset ?d2 = ?n" using d1(2) by (simp_all add: same_output_def)
    show ?thesis
    proof (cases st)
      case True
      let ?d3 = "if ?skipped then ?d2\<lparr>dt_token_ids := dt_token_ids ?d2 @ [last ids]\<rparr> else ?d2"
      have "detok_update ids st d = Inr (None, ?d3)"
        using tk d1(1) True by (simp add: detok_update_def Let_def)
      moreover have "dt_output_text ?d3 = ?old @ decoded" "dt_stop ?d3 = dt_stop d"
        "dt_include_stop ?d3 = dt_include_stop d" "dt_stop_buffer ?d3 = dt_stop_buffer d"
        "dt_last_offset ?d3 = ?n" using d2 by simp_all
      ultimately show ?thesis using grown by blast
    next
      case False
      obtain s d3 where d3: "evaluate_stop decoded ?d2 = (s, d3)" by fastforce
      have "detok_update ids st d = Inr (s, d3)"
        using tk d1(1) False d3 by (simp add: detok_update_def Let_def)
      moreover have "buffer_ok ?d2" "emitted e ?d2" using grown [OF d2] by simp_all
      moreover have "buffer_ok d3 \<and> dt_last_offset d3 = dt_last_offset ?d2 \<and>
          take (nat (dt_last_offset ?d2)) (dt_output_text d3) = take (nat (dt_last_offset ?d2)) ?old \<and>
          dt_last_offset ?d2 \<le> py_len (dt_output_text d3) \<and> (or_empty s = [] \<longrightarrow> d3 = ?d2)"
        using evaluate_stop_emitted [OF \<open>buffer_ok ?d2\<close> d3 d2(1)] off d2(4,5) by simp
      ultimately show ?thesis using e d2(5) by auto
    qed
  qed
qed

text \<open>Taking the new text extends what has been emitted.\<close>

lemma py_slice_int:
  "0 \<le> i \<Longrightarrow> i \<le> j \<Longrightarrow> j \<le> py_len xs \<Longrightarrow>
   py_slice xs i j = take (nat j - nat i) (drop (nat i) xs)"
  using py_slice_nat [of "nat i" xs "nat j"] by (simp add: py_len_def)

lemma cumulative_text:
  assumes "0 \<le> dt_stop_buffer d"
  shows "fst (get_next_output_text finished False d) =
    take (nat (py_len (dt_output_text d) - (if finished then 0 else dt_stop_buffer d)))
      (dt_output_text d)"
proof (cases "finished \<or> dt_stop_buffer d = 0")
  case True
  then have "fst (get_next_output_text finished False d) = dt_output_text d"
    by (auto simp: get_next_output_text_def)
  then show ?thesis using True by (auto simp: py_len_def)
next
  case False
  have clamp: "nat (py_clamp m (- b)) = nat (m - b)" if "0 < b" for m b
    using that by (simp add: py_clamp_def)
  have "fst (get_next_output_text finished False d) = py_upto (dt_output_text d) (- dt_stop_buffer d)"
    using False by (simp add: get_next_output_text_def)
  also have "\<dots> = take (nat (py_len (dt_output_text d) - dt_stop_buffer d)) (dt_output_text d)"
    unfolding py_upto_def py_len_def using False assms by (subst clamp) simp_all
  finally show ?thesis using False by simp
qed

lemma get_next_frame:
  assumes "get_next_output_text finished True d = (t, d')"
  shows "dt_output_text d' = dt_output_text d" "dt_stop_buffer d' = dt_stop_buffer d"
    "dt_include_stop d' = dt_include_stop d" "dt_stop d' = dt_stop d"
proof -
  have "d' = d \<or> (\<exists>n. d' = d\<lparr>dt_last_offset := n\<rparr>)"
    using assms unfolding get_next_output_text_def Let_def
    by (simp only: not_True_eq_False if_False split: if_split_asm) blast+
  then show "dt_output_text d' = dt_output_text d" "dt_stop_buffer d' = dt_stop_buffer d"
    "dt_include_stop d' = dt_include_stop d" "dt_stop d' = dt_stop d" by auto
qed

lemma take_emits:
  assumes "buffer_ok d" "0 \<le> dt_last_offset d" "dt_last_offset d \<le> py_len (dt_output_text d)"
    and "take (nat (dt_last_offset d)) (dt_output_text d) = e"
    and "\<not> finished \<Longrightarrow> emitted e d" "get_next_output_text finished True d = (t, d')"
  shows "e @ t = fst (get_next_output_text finished False d')" "buffer_ok d'"
    "\<not> finished \<Longrightarrow> emitted (e @ t) d'"
proof -
  let ?txt = "dt_output_text d" and ?last = "dt_last_offset d"
  let ?buf = "if finished then 0 else dt_stop_buffer d"
  let ?n = "py_len ?txt - ?buf"
  have buf: "0 \<le> dt_stop_buffer d" using assms(1) by (simp add: buffer_ok_def)
  have frame: "dt_output_text d' = ?txt" "dt_stop_buffer d' = dt_stop_buffer d" "buffer_ok d'"
    using get_next_frame [OF assms(6)] assms(1) unfolding buffer_ok_def by simp_all
  have cumulative: "fst (get_next_output_text finished False d') = take (nat ?n) ?txt"
    using cumulative_text [of d' finished] buf frame(1,2) by (simp only:)
  show "buffer_ok d'" by (rule frame(3))
  show goal: "e @ t = fst (get_next_output_text finished False d')"
  proof (cases "?last < ?n")
    case True
    then have "t = py_slice ?txt ?last ?n"
      using assms(6) by (auto simp: get_next_output_text_def Let_def)
    moreover have "?n \<le> py_len ?txt" using buf by simp
    then have "py_slice ?txt ?last ?n = take (nat ?n - nat ?last) (drop (nat ?last) ?txt)"
      using True assms(2) by (intro py_slice_int) simp_all
    ultimately have "e @ t = take (nat ?last) ?txt @ take (nat ?n - nat ?last) (drop (nat ?last) ?txt)"
      using assms(4) by simp
    also have "\<dots> = take (nat ?last + (nat ?n - nat ?last)) ?txt" by (simp add: take_add)
    also have "nat ?last + (nat ?n - nat ?last) = nat ?n" using True assms(2) by simp
    finally show ?thesis using cumulative by simp
  next
    case False
    then have t: "t = []" using assms(6) by (auto simp: get_next_output_text_def Let_def)
    have "nat ?last = nat ?n"
    proof (cases finished)
      case True
      then show ?thesis using False assms(3) by simp
    next
      case nf: False
      then have "?last \<le> max 0 ?n" using assms(5) by (simp add: emitted_def)
      then show ?thesis using False assms(2) by simp
    qed
    then show ?thesis using t assms(4) cumulative by simp
  qed
  show "emitted (e @ t) d'" if "\<not> finished"
  proof (cases "?last < ?n")
    case True
    then have "dt_last_offset d' = ?n" using assms(6)
      by (auto simp: get_next_output_text_def Let_def)
    then show ?thesis
      using goal cumulative frame(1,2) True assms(2) that by (simp add: emitted_def)
  next
    case False
    then have "d' = d" "t = []" using assms(6) by (auto simp: get_next_output_text_def Let_def)
    then show ?thesis using assms(5) that by simp
  qed
qed

lemma stream_step_emits:
  assumes "buffer_ok d" "emitted e d"
  shows "\<exists>finished t d'. stream_step ids reason d = Inr (finished, t, d') \<and>
    e @ t = fst (get_next_output_text finished False d') \<and> buffer_ok d' \<and>
    (\<not> finished \<longrightarrow> emitted (e @ t) d')"
proof -
  from detok_update_emitted [OF assms] obtain s d1 where u:
    "detok_update ids (reason = Some STOP) d = Inr (s, d1)" "buffer_ok d1"
    "dt_last_offset d1 = dt_last_offset d"
    "take (nat (dt_last_offset d)) (dt_output_text d1) = e"
    "dt_last_offset d \<le> py_len (dt_output_text d1)" "or_empty s = [] \<longrightarrow> emitted e d1" by blast
  let ?fin = "reason \<noteq> None \<or> or_empty s \<noteq> []"
  obtain t d2 where g: "get_next_output_text ?fin True d1 = (t, d2)" by fastforce
  have step: "stream_step ids reason d = Inr (?fin, t, d2)"
    using u(1) g by (simp add: stream_step_def Let_def)
  have "0 \<le> dt_last_offset d1" using assms(2) u(3) by (simp add: emitted_def)
  moreover have "\<not> ?fin \<Longrightarrow> emitted e d1" using u(6) by simp
  ultimately show ?thesis
    using take_emits [OF u(2) _ _ _ _ g, of e] u(3,4,5) step by auto
qed

text \<open>
  C35: streaming loses and repeats nothing. Whatever the tokenizer does and wherever stop strings
  match, as long as no stop string is empty, a request that streams raises nothing and the texts
  it has streamed put together are at every moment the text that a request without streaming
  shows at that moment: all of the output when it has finished, all but the held-back end before.
\<close>

theorem streamed_text_reassembles:
  assumes "\<forall>s \<in> set (dp_stop ps). s \<noteq> []"
  shows "\<exists>texts finished d.
    stream_outputs steps (detokenizer_from_request tk prompt ps) = Inr (texts, finished, d) \<and>
    concat texts = fst (get_next_output_text finished False d)"
proof -
  have run: "\<exists>texts finished d'. stream_outputs steps d = Inr (texts, finished, d') \<and>
      e @ concat texts = fst (get_next_output_text finished False d')"
    if "buffer_ok d" "emitted e d" "e = fst (get_next_output_text False False d)" for d e
    using that
  proof (induction steps arbitrary: d e)
    case Nil
    then show ?case by (intro exI [of _ "[]"] exI [of _ False] exI [of _ d]) simp
  next
    case (Cons st steps)
    obtain ids reason where st: "st = (ids, reason)" by fastforce
    from stream_step_emits [OF Cons.prems(1,2)] obtain finished t d1 where s:
      "stream_step ids reason d = Inr (finished, t, d1)"
      "e @ t = fst (get_next_output_text finished False d1)" "buffer_ok d1"
      "\<not> finished \<longrightarrow> emitted (e @ t) d1" by blast
    show ?case
    proof (cases finished)
      case True
      then show ?thesis using s(1,2) st
        by (intro exI [of _ "[t]"] exI [of _ True] exI [of _ d1]) simp
    next
      case False
      with s(2-4) obtain texts fin d2 where "stream_outputs steps d1 = Inr (texts, fin, d2)"
        "(e @ t) @ concat texts = fst (get_next_output_text fin False d2)"
        using Cons.IH [of d1 "e @ t"] by auto
      then show ?thesis using s(1) st False by simp
    qed
  qed
  have "emitted [] (detokenizer_from_request tk prompt ps)"
    by (auto simp: emitted_def detokenizer_from_request_def split: option.split prod.split)
  moreover have "fst (get_next_output_text False False (detokenizer_from_request tk prompt ps)) = []"
    by (auto simp: get_next_output_text_def Let_def py_upto_def detokenizer_from_request_def
        split: option.split prod.split)
  ultimately show ?thesis using run [OF buffer_ok_initial [OF assms], of "[]"] by simp
qed


section \<open>Incremental and batch decoding agree\<close>

text \<open>
  What the incremental scheme relies on: decoding can be cut wherever the decoded text does not
  end within a character. A tokenizer with byte fallback is of this kind.
\<close>

definition stable_decode :: "tokenizer \<Rightarrow> bool" where
  "stable_decode tk \<longleftrightarrow> convert_tokens_to_string tk [] = [] \<and>
     (\<forall>xs ys. \<not> ends_incomplete (convert_tokens_to_string tk xs) \<longrightarrow>
        convert_tokens_to_string tk (xs @ ys) =
        convert_tokens_to_string tk xs @ convert_tokens_to_string tk ys)"

lemma stable_decodeD:
  assumes "stable_decode tk" "\<not> ends_incomplete (convert_tokens_to_string tk xs)"
  shows "convert_tokens_to_string tk (xs @ ys) =
    convert_tokens_to_string tk xs @ convert_tokens_to_string tk ys"
  using assms by (simp add: stable_decode_def)

lemma ends_incomplete_append:
  "ends_incomplete (s @ t) \<longleftrightarrow> ends_incomplete t \<or> (t = [] \<and> ends_incomplete s)"
  by (cases "t = []") (auto simp: ends_incomplete_def)

lemma py_slice_middle:
  "py_slice (before @ mid @ after) (py_len before) (py_len (before @ mid)) = mid"
  using py_slice_nat [of "length before" "before @ mid @ after" "length (before @ mid)"]
  by (simp add: py_len_def)

lemma py_from_prefix: "py_from (before @ after) (py_len before) = after"
  by (simp add: py_from_def py_clamp_def py_len_def)

text \<open>
  The output tokens \<open>out\<close> have been decoded up to \<open>shown\<close>, and what follows is empty or ends
  within a character; \<open>mid\<close> are the tokens between the two offsets.
\<close>

definition decoded_upto ::
  "tokenizer \<Rightarrow> ustr option list \<Rightarrow> ustr option list \<Rightarrow> ustr \<Rightarrow> detokenizer \<Rightarrow> bool" where
  "decoded_upto tk prompt_tokens out decoded d \<longleftrightarrow>
     (\<exists>shown rest before mid.
        dt_tokens d = prompt_tokens @ out \<and> out = shown @ rest \<and>
        prompt_tokens @ shown = before @ mid \<and>
        dt_prefix_offset d = py_len before \<and> dt_read_offset d = py_len (before @ mid) \<and>
        \<not> ends_incomplete (convert_tokens_to_string tk mid) \<and>
        decoded = convert_tokens_to_string tk shown \<and> \<not> ends_incomplete decoded \<and>
        (convert_tokens_to_string tk rest = [] \<or>
         ends_incomplete (convert_tokens_to_string tk rest)))"

lemma decoded_upto_step:
  assumes stable: "stable_decode tk" and fast: "is_fast tk \<or> get_added_vocab tk = []"
    and inv: "decoded_upto tk T out decoded d" and one: "detok_one tk i (decoded, d) = Inr (decoded', d')"
  shows "decoded_upto tk T (out @ new_id_tokens tk i (dt_skip_special d)) decoded' d' \<and>
    dt_skip_special d' = dt_skip_special d"
proof -
  let ?f = "convert_tokens_to_string tk" and ?new = "new_id_tokens tk i (dt_skip_special d)"
  from inv obtain shown rest before mid where
    toks: "dt_tokens d = T @ out" "out = shown @ rest" "T @ shown = before @ mid"
      "dt_prefix_offset d = py_len before" "dt_read_offset d = py_len (before @ mid)"
    and mid: "\<not> ends_incomplete (?f mid)"
    and shown: "decoded = ?f shown" "\<not> ends_incomplete (?f shown)"
    unfolding decoded_upto_def by blast
  let ?rest = "rest @ ?new"
  have all: "dt_tokens d @ ?new = before @ mid @ ?rest"
    using toks(1-3) by (metis append.assoc)
  have dec: "decode_tokens tk skip spaces xs = ?f xs" for skip spaces xs
    using fast by (simp add: decode_tokens_def)
  have cut: "?f (mid @ ?rest) = ?f mid @ ?f ?rest" by (rule stable_decodeD [OF stable mid])
  let ?wait = "py_len (?f (mid @ ?rest)) \<le> py_len (?f mid) \<or> ends_incomplete (?f (mid @ ?rest))"
  have res: "decoded' = decoded @ (if ?wait then [] else ?f ?rest)"
    "dt_tokens d' = dt_tokens d @ ?new" "dt_skip_special d' = dt_skip_special d"
    "dt_prefix_offset d' = (if ?wait then dt_prefix_offset d else dt_read_offset d)"
    "dt_read_offset d' = (if ?wait then dt_read_offset d else py_len (before @ mid @ ?rest))"
    using one unfolding detok_one_def detokenize_incrementally_def
    by (simp_all add: Let_def dec all toks(4,5) py_slice_middle [unfolded py_len_simps]
        py_from_prefix cut split: if_splits) (auto simp: cut py_from_prefix)
  show ?thesis
  proof (cases ?wait)
    case True
    have "?f ?rest = [] \<or> ends_incomplete (?f ?rest)"
      using True mid unfolding cut by (auto simp: ends_incomplete_append py_len_def)
    then have "decoded_upto tk T (out @ ?new) decoded' d'"
      unfolding decoded_upto_def using True res toks mid shown
      by (intro exI [of _ shown] exI [of _ ?rest] exI [of _ before] exI [of _ mid]) simp
    then show ?thesis using res(3) by blast
  next
    case False
    then have complete: "\<not> ends_incomplete (?f ?rest)"
      using mid unfolding cut by (auto simp: ends_incomplete_append ends_incomplete_def)
    have out: "?f (out @ ?new) = decoded @ ?f ?rest"
      using stable_decodeD [OF stable shown(2), of ?rest] toks(2) shown(1) by simp
    have "\<not> ends_incomplete (decoded @ ?f ?rest)"
      using complete shown by (auto simp: ends_incomplete_append)
    moreover have "?f [] = []" using stable by (simp add: stable_decode_def)
    moreover have "T @ out @ ?new = (before @ mid) @ ?rest" using all toks(1) by simp
    ultimately have "decoded_upto tk T (out @ ?new) decoded' d'"
      unfolding decoded_upto_def using False res toks(1,4,5) complete out
      by (intro exI [of _ "out @ ?new"] exI [of _ "[]"] exI [of _ "before @ mid"] exI [of _ ?rest])
        simp
    then show ?thesis using res(3) by blast
  qed
qed

lemma decoded_upto_all:
  assumes "stable_decode tk" "is_fast tk \<or> get_added_vocab tk = []"
    and "decoded_upto tk T out decoded d"
  shows "\<exists>decoded' d'. efold (detok_one tk) ids (decoded, d) = Inr (decoded', d') \<and>
    decoded_upto tk T (out @ concat (map (\<lambda>i. new_id_tokens tk i (dt_skip_special d)) ids))
      decoded' d'"
  using assms(3)
proof (induction ids arbitrary: out decoded d)
  case (Cons i ids)
  obtain decoded1 d1 where one: "detok_one tk i (decoded, d) = Inr (decoded1, d1)"
    using detok_one_total by blast
  from decoded_upto_step [OF assms(1,2) Cons.prems one]
  have "decoded_upto tk T (out @ new_id_tokens tk i (dt_skip_special d)) decoded1 d1"
    and skip: "dt_skip_special d1 = dt_skip_special d" by blast+
  from Cons.IH [OF this(1)] show ?case using one skip by simp
qed simp


text \<open>A tokenizer with two bytes, 1 and 2, that make one character only together.\<close>

fun sample_piece :: "ustr option \<Rightarrow> ustr" where
  "sample_piece None = []"
| "sample_piece (Some s) = (if s = [1] then [replacement_char] else s)"

function sample_decode :: "ustr option list \<Rightarrow> ustr" where
  "sample_decode [] = []"
| "sample_decode (t # ts) =
     (if t = Some [1] \<and> ts \<noteq> [] \<and> hd ts = Some [2] then 233 # sample_decode (tl ts)
      else sample_piece t @ sample_decode ts)"
  by pat_completeness auto

termination
  by (relation "measure length") auto

definition sample_tokenizer :: tokenizer where
  "sample_tokenizer = \<lparr>convert_ids_to_tokens = (\<lambda>ids _. map (\<lambda>i. Some [i]) ids),
     convert_tokens_to_string = sample_decode, get_added_vocab = [], all_special_tokens = [],
     is_fast = True, vocab_len = 1000\<rparr>"

lemma sample_stable: "stable_decode sample_tokenizer"
proof -
  have "\<not> ends_incomplete (sample_decode xs) \<Longrightarrow> sample_decode (xs @ ys) = sample_decode xs @ sample_decode ys"
    for xs ys
  proof (induction xs rule: sample_decode.induct)
    case (2 t ts)
    show ?case
    proof (cases "t = Some [1] \<and> ts \<noteq> [] \<and> hd ts = Some [2]")
      case True
      then have "\<not> ends_incomplete (sample_decode (tl ts))"
        using 2(3) by (auto simp: ends_incomplete_def)
      then show ?thesis using 2(1) True by simp
    next
      case False
      then have "\<not> ends_incomplete (sample_decode ts)"
        and ne: "ts = [] \<Longrightarrow> t \<noteq> Some [1]"
        using 2(3) by (auto simp: ends_incomplete_def split: if_splits)
      then show ?thesis using 2(2) False by (cases ts) auto
    qed
  qed simp
  then show ?thesis by (simp add: stable_decode_def sample_tokenizer_def)
qed

definition sample_detok_params :: detok_params where
  "sample_detok_params =
     \<lparr>dp_stop = [[66, 67]], dp_include_stop = False, dp_skip_special = False, dp_spaces = True\<rparr>"


theorem streamed_text_reassembles_witness:
  "\<exists>texts finished d.
    stream_outputs [([65], None), ([66], None), ([67], None)]
      (detokenizer_from_request (Some sample_tokenizer) [64] sample_detok_params) = Inr (texts, finished, d) \<and>
    concat texts = fst (get_next_output_text finished False d)"
  by (rule streamed_text_reassembles) (simp add: sample_detok_params_def)

end
