(* ===== verification/Outputs.thy ===== *)
theory Outputs
  imports Metrics Detok
begin

text \<open>
  What the frontend hands to its callers: completion and request outputs and how they are merged
  (\<open>spexis/outputs.py\<close>), the collector of a stream (\<open>RequestOutputCollector\<close> in
  \<open>spexis/v1/engine/output_processor.py\<close>), the log probabilities of a request
  (\<open>spexis/v1/engine/logprobs.py\<close>) and the parent of the requests of parallel sampling
  (\<open>spexis/v1/engine/parallel_sampling.py\<close>).
\<close>

section \<open>Outputs\<close>

datatype stop_cause = StopId int | StopString ustr

record logprob =
  lg_logprob :: rat
  lg_rank :: int
  lg_decoded :: "ustr option"

type_synonym logprob_dict = "(int \<times> logprob) list"

record completion_output =
  co_index :: int
  co_text :: ustr
  co_token_ids :: "int list"
  co_cumulative_logprob :: "rat option"
  co_logprobs :: "logprob_dict list option"
  co_finish_reason :: "finish_reason option"
  co_stop_reason :: "stop_cause option"

text \<open>The list that parallel sampling hands over may still have empty places.\<close>

record request_output =
  rq_request_id :: string
  rq_prompt :: "ustr option"
  rq_prompt_token_ids :: "int list"
  rq_prompt_logprobs :: "logprob_dict option list option"
  rq_outputs :: "completion_output option list"
  rq_finished :: bool

definition co_finished :: "completion_output \<Rightarrow> bool" where
  "co_finished c \<longleftrightarrow> co_finish_reason c \<noteq> None"

definition merge_completion :: "completion_output \<Rightarrow> completion_output \<Rightarrow> completion_output res" where
  "merge_completion c n =
     ebind (if or_empty (co_logprobs n) \<noteq> [] then py_assert (co_logprobs c \<noteq> None) else Inr ()) (\<lambda>_.
     Inr (c\<lparr>co_text := co_text c @ co_text n, co_token_ids := co_token_ids c @ co_token_ids n,
            co_logprobs := (if or_empty (co_logprobs n) \<noteq> []
               then map_option (\<lambda>ls. ls @ or_empty (co_logprobs n)) (co_logprobs c) else co_logprobs c),
            co_cumulative_logprob := co_cumulative_logprob n,
            co_finish_reason := co_finish_reason n, co_stop_reason := co_stop_reason n\<rparr>))"

text \<open>The inner loop: merge into the first completion of the same index, or append.\<close>

fun merge_into ::
  "completion_output option \<Rightarrow> completion_output option list \<Rightarrow> completion_output option list res" where
  "merge_into n [] = Inr [n]"
| "merge_into None (c # cs) = Inl AttributeError"
| "merge_into (Some n) (None # cs) = Inl AttributeError"
| "merge_into (Some n) (Some c # cs) =
     (if co_index c = co_index n
      then ebind (merge_completion c n) (\<lambda>m. Inr (Some m # cs))
      else ebind (merge_into (Some n) cs) (\<lambda>cs'. Inr (Some c # cs')))"

definition request_output_add :: "request_output \<Rightarrow> request_output \<Rightarrow> request_output res" where
  "request_output_add a b =
     ebind (efold merge_into (rq_outputs b) (rq_outputs a)) (\<lambda>outs.
     Inr (a\<lparr>rq_finished := (rq_finished a \<or> rq_finished b), rq_outputs := outs\<rparr>))"

section \<open>The collector\<close>

record collector =
  aggregate :: bool
  pending_output :: "request_output option"
  ready :: bool

definition init_collector :: "output_kind \<Rightarrow> collector" where
  "init_collector kind = \<lparr>aggregate = (kind = DELTA), pending_output = None, ready = False\<rparr>"

definition collector_put :: "request_output \<Rightarrow> collector \<Rightarrow> collector res" where
  "collector_put out c =
     (case pending_output c of
        None \<Rightarrow> Inr (c\<lparr>pending_output := Some out, ready := True\<rparr>)
      | Some p \<Rightarrow>
          if aggregate c
          then ebind (request_output_add p out) (\<lambda>m. Inr (c\<lparr>pending_output := Some m\<rparr>))
          else Inr (c\<lparr>pending_output := Some out\<rparr>))"

text \<open>\<open>get\<close> waits while this has no output.\<close>

definition collector_get_nowait :: "collector \<Rightarrow> request_output option \<times> collector" where
  "collector_get_nowait c =
     (case pending_output c of
        None \<Rightarrow> (None, c)
      | Some p \<Rightarrow> (Some p, c\<lparr>pending_output := None, ready := False\<rparr>))"

section \<open>Log probabilities\<close>

record logprobs_lists =
  ll_token_ids :: "int list list"
  ll_logprobs :: "rat list list"
  ll_ranks :: "int list"

text \<open>A tensor of two dimensions is its rows together with its width.\<close>

record prompt_tensors =
  pt_token_ids :: "int list list"
  pt_logprobs :: "rat list list"
  pt_ranks :: "int list"
  pt_width :: nat

record logprobs_processor =
  lp_tokenizer :: "tokenizer option"
  lp_logprobs :: "logprob_dict list option"
  lp_prompt_logprobs :: "logprob_dict option list option"
  lp_cumulative :: "rat option"
  lp_num :: "int option"
  lp_num_prompt :: "int option"

definition logprobs_from_request ::
  "tokenizer option \<Rightarrow> int option \<Rightarrow> int option \<Rightarrow> logprobs_processor" where
  "logprobs_from_request tk num num_prompt =
     \<lparr>lp_tokenizer = tk, lp_logprobs = (if num = None then None else Some []),
      lp_prompt_logprobs = (if num_prompt = None then None else Some [None]),
      lp_cumulative = (if num = None then None else Some 0),
      lp_num = num, lp_num_prompt = num_prompt\<rparr>"

definition make_logprob_dict ::
  "rat list \<Rightarrow> int list \<Rightarrow> ustr option list \<Rightarrow> int \<Rightarrow> int \<Rightarrow> logprob_dict" where
  "make_logprob_dict lps ids decoded rank num =
     (let ranks = rank # map int [1..<Suc (nat num)] in
      fold (\<lambda>(i, lp, rk, tok) d.
              AList.update i \<lparr>lg_logprob = lp, lg_rank = rk, lg_decoded = tok\<rparr> d)
        (zip ids (zip lps (zip ranks decoded))) [])"

text \<open>The endless supply of \<open>None\<close> is cut to the number of tokens, as \<open>zip\<close> does.\<close>

definition decoded_or_nones :: "tokenizer option \<Rightarrow> int list \<Rightarrow> ustr option list" where
  "decoded_or_nones tk ids =
     (case tk of None \<Rightarrow> replicate (length ids) None | Some t \<Rightarrow> convert_ids_list_to_tokens t ids)"

definition sample_logprobs_step ::
  "(rat \<Rightarrow> rat) \<Rightarrow> int \<Rightarrow> int \<times> rat list \<times> int list \<Rightarrow> logprobs_processor \<Rightarrow> logprobs_processor res" where
  "sample_logprobs_step fl num = (\<lambda>(rank, lps, ids) p.
     ebind (py_get lps 0) (\<lambda>sampled.
     Inr (p\<lparr>lp_cumulative := map_option (\<lambda>c. fl (c + sampled)) (lp_cumulative p),
            lp_logprobs := map_option (\<lambda>ls. ls @
              [make_logprob_dict lps ids (decoded_or_nones (lp_tokenizer p) ids) rank num])
              (lp_logprobs p)\<rparr>)))"

definition update_sample_logprobs ::
  "(rat \<Rightarrow> rat) \<Rightarrow> logprobs_lists \<Rightarrow> logprobs_processor \<Rightarrow> logprobs_processor res" where
  "update_sample_logprobs fl lls p =
     (case lp_num p of
        None \<Rightarrow> Inl AssertionError
      | Some num \<Rightarrow>
          ebind (py_assert (lp_logprobs p \<noteq> None)) (\<lambda>_.
          ebind (py_assert (lp_cumulative p \<noteq> None)) (\<lambda>_.
          efold (sample_logprobs_step fl num)
            (zip (ll_ranks lls) (zip (ll_logprobs lls) (ll_token_ids lls))) p)))"

definition prompt_logprobs_step ::
  "prompt_tensors \<Rightarrow> ustr option list option \<Rightarrow> int \<Rightarrow> nat \<Rightarrow> logprobs_processor \<Rightarrow> logprobs_processor res" where
  "prompt_logprobs_step ts decoded num pos p =
     ebind (py_get (pt_logprobs ts) (int pos)) (\<lambda>lps.
     ebind (py_get (pt_token_ids ts) (int pos)) (\<lambda>ids.
     ebind (py_get (pt_ranks ts) (int pos)) (\<lambda>rank.
     (let start = pos * pt_width ts;
          toks = (case decoded of
             None \<Rightarrow> replicate (length ids) None
           | Some ds \<Rightarrow> py_slice ds (int start) (int (start + pt_width ts)))
      in Inr (p\<lparr>lp_prompt_logprobs := map_option (\<lambda>ls. ls @
                [Some (make_logprob_dict lps ids toks rank num)]) (lp_prompt_logprobs p)\<rparr>)))))"

definition update_prompt_logprobs ::
  "prompt_tensors \<Rightarrow> logprobs_processor \<Rightarrow> logprobs_processor res" where
  "update_prompt_logprobs ts p =
     (case lp_num_prompt p of
        None \<Rightarrow> Inl AssertionError
      | Some num \<Rightarrow>
          ebind (py_assert (lp_prompt_logprobs p \<noteq> None)) (\<lambda>_.
          (let decoded = map_option (\<lambda>tk. convert_ids_list_to_tokens tk (concat (pt_token_ids ts)))
                 (lp_tokenizer p)
           in efold (prompt_logprobs_step ts decoded num) [0..<length (pt_logprobs ts)] p)))"

definition pop_prompt_logprobs ::
  "logprobs_processor \<Rightarrow> logprob_dict option list option \<times> logprobs_processor" where
  "pop_prompt_logprobs p =
     (lp_prompt_logprobs p,
      if or_empty (lp_prompt_logprobs p) \<noteq> [] then p\<lparr>lp_prompt_logprobs := Some []\<rparr> else p)"

definition logprobs_update ::
  "(rat \<Rightarrow> rat) \<Rightarrow> logprobs_lists option \<Rightarrow> prompt_tensors option \<Rightarrow> logprobs_processor \<Rightarrow>
   logprobs_processor res" where
  "logprobs_update fl new prompt p =
     ebind (case new of None \<Rightarrow> Inr p | Some ls \<Rightarrow> update_sample_logprobs fl ls p) (\<lambda>p1.
     case prompt of None \<Rightarrow> Inr p1 | Some ts \<Rightarrow> update_prompt_logprobs ts p1)"

section \<open>Parallel sampling\<close>

record parent_request =
  pr_request_id :: string
  pr_params :: sampling_params
  child_requests :: "string set"
  output_aggregator :: "completion_output option list"
  max_num_generation_tokens :: int
  cached_child_params :: "sampling_params option"

definition init_parent :: "string \<Rightarrow> sampling_params \<Rightarrow> parent_request" where
  "init_parent i ps =
     \<lparr>pr_request_id = i, pr_params = ps, child_requests = {},
      output_aggregator = (if sp_output_kind ps = FINAL_ONLY then replicate (nat (sp_n ps)) None else []),
      max_num_generation_tokens = 0, cached_child_params = None\<rparr>"

definition get_child_params :: "int \<Rightarrow> parent_request \<Rightarrow> sampling_params \<times> parent_request" where
  "get_child_params index p =
     (case cached_child_params p of
        Some c \<Rightarrow> (c, p)
      | None \<Rightarrow>
          (let c = (pr_params p)\<lparr>sp_n := 1\<rparr> in
           case sp_seed (pr_params p) of
             None \<Rightarrow> (c, p\<lparr>cached_child_params := Some c\<rparr>)
           | Some s \<Rightarrow> (c\<lparr>sp_seed := Some (s + index)\<rparr>, p)))"

definition child_id :: "int \<Rightarrow> string \<Rightarrow> string" where
  "child_id index i = show_int index @ ''_'' @ i"

definition get_child_info ::
  "int \<Rightarrow> parent_request \<Rightarrow> (string \<times> sampling_params) \<times> parent_request" where
  "get_child_info index p =
     (let i = child_id index (pr_request_id p);
          (ps, p') = get_child_params index (p\<lparr>child_requests := insert i (child_requests p)\<rparr>)
      in ((i, ps), p'))"

text \<open>The outputs to return, whether the parent is finished, and the parent afterwards.\<close>

definition get_outputs ::
  "string \<Rightarrow> completion_output \<Rightarrow> parent_request \<Rightarrow>
   ((string \<times> completion_output option list \<times> bool) \<times> parent_request) res" where
  "get_outputs i c p =
     ebind (if co_finished c then set_remove i (child_requests p) else Inr (child_requests p))
       (\<lambda>children.
     (let p1 = p\<lparr>child_requests := children\<rparr> in
      if sp_output_kind (pr_params p1) \<noteq> FINAL_ONLY
      then Inr ((pr_request_id p1, [Some c], children = {}), p1)
      else ebind (py_set (output_aggregator p1) (co_index c) (Some c)) (\<lambda>agg.
           Inr ((pr_request_id p1, if children = {} then agg else [], children = {}),
                p1\<lparr>output_aggregator := agg\<rparr>))))"

definition observe_generation_tokens :: "int \<Rightarrow> parent_request \<Rightarrow> int \<times> parent_request" where
  "observe_generation_tokens n p =
     (let m = max n (max_num_generation_tokens p) in (m, p\<lparr>max_num_generation_tokens := m\<rparr>))"

definition observe_finished_request ::
  "parent_request option \<Rightarrow> int \<Rightarrow> iteration_stats \<Rightarrow> parent_request option \<times> iteration_stats" where
  "observe_finished_request parent n it =
     (let (n', parent') =
            (case parent of
               None \<Rightarrow> (n, None)
             | Some p \<Rightarrow> (case observe_generation_tokens n p of (m, p') \<Rightarrow> (m, Some p')));
          n_param = (case parent of None \<Rightarrow> 1 | Some p \<Rightarrow> sp_n (pr_params p))
      in (parent',
          if (case parent' of None \<Rightarrow> True | Some p \<Rightarrow> child_requests p = {})
          then it\<lparr>max_num_generation_tokens_iter := max_num_generation_tokens_iter it @ [n'],
                  n_params_iter := n_params_iter it @ [n_param]\<rparr>
          else it))"

section \<open>Nothing is lost between producer and consumer\<close>

text \<open>What a list of completions holds of the completion with index \<open>i\<close>.\<close>

definition collected ::
  "(completion_output \<Rightarrow> 'a list) \<Rightarrow> int \<Rightarrow> completion_output option list \<Rightarrow> 'a list" where
  "collected f i cs = concat (map f (filter (\<lambda>c. co_index c = i) (map the cs)))"

definition co_logprob_list :: "completion_output \<Rightarrow> logprob_dict list" where
  "co_logprob_list c = or_empty (co_logprobs c)"

text \<open>
  No empty place, no index twice, and log probabilities in all of them (\<open>b\<close>) or in none.
\<close>

definition completions_ok :: "bool \<Rightarrow> completion_output option list \<Rightarrow> bool" where
  "completions_ok b cs \<longleftrightarrow> None \<notin> set cs \<and> distinct (map (co_index \<circ> the) cs) \<and>
     (\<forall>c \<in> set cs. co_logprobs (the c) \<noteq> None \<longleftrightarrow> b)"

lemma completions_ok_Cons:
  "completions_ok b (Some c # cs) \<longleftrightarrow> completions_ok b cs \<and>
     co_index c \<notin> (co_index \<circ> the) ` set cs \<and> (co_logprobs c \<noteq> None \<longleftrightarrow> b)"
  by (auto simp: completions_ok_def)

lemma collected_Cons:
  "collected f i (Some c # cs) = (if co_index c = i then f c else []) @ collected f i cs"
  by (simp add: collected_def)

lemma collected_other: "i \<notin> (co_index \<circ> the) ` set cs \<Longrightarrow> collected f i cs = []"
  by (induction cs) (auto simp: collected_def)

definition merges :: "(completion_output \<Rightarrow> 'a list) \<Rightarrow> bool" where
  "merges f \<longleftrightarrow> (\<forall>c n m. merge_completion c n = Inr m \<longrightarrow> f m = f c @ f n)"

lemma merges_fields: "merges co_text" "merges co_token_ids" "merges co_logprob_list"
  by (auto simp: merges_def merge_completion_def res_simps co_logprob_list_def or_empty_def
      split: if_splits option.splits)

lemma merge_completion_ok:
  assumes "co_logprobs c \<noteq> None \<longleftrightarrow> b" "co_logprobs n \<noteq> None \<longleftrightarrow> b"
  shows "\<exists>m. merge_completion c n = Inr m \<and> co_index m = co_index c \<and> (co_logprobs m \<noteq> None \<longleftrightarrow> b)"
  using assms by (auto simp: merge_completion_def or_empty_def)

lemma merge_into_ok:
  fixes f :: "completion_output \<Rightarrow> 'a list"
  assumes "completions_ok b cs" "co_logprobs n \<noteq> None \<longleftrightarrow> b" "merges f"
  shows "\<exists>cs'. merge_into (Some n) cs = Inr cs' \<and> completions_ok b cs' \<and>
    (co_index \<circ> the) ` set cs' = insert (co_index n) ((co_index \<circ> the) ` set cs) \<and>
    (\<forall>i. collected f i cs' = collected f i cs @ (if co_index n = i then f n else []))"
  using assms(1)
proof (induction cs)
  case Nil
  then show ?case using assms(2) by (simp add: completions_ok_def collected_def)
next
  case (Cons c cs)
  then obtain c0 where c: "c = Some c0" by (cases c) (auto simp: completions_ok_def)
  have ok: "completions_ok b cs" "co_index c0 \<notin> (co_index \<circ> the) ` set cs"
    "co_logprobs c0 \<noteq> None \<longleftrightarrow> b"
    using Cons.prems by (simp_all add: c completions_ok_Cons)
  show ?case
  proof (cases "co_index c0 = co_index n")
    case True
    obtain m where m: "merge_completion c0 n = Inr m" "co_index m = co_index c0"
      "co_logprobs m \<noteq> None \<longleftrightarrow> b"
      using merge_completion_ok [OF ok(3) assms(2)] by blast
    have "merge_into (Some n) (c # cs) = Inr (Some m # cs)" using c True m(1) by simp
    moreover have "completions_ok b (Some m # cs)" using ok m by (simp add: completions_ok_Cons)
    moreover have "collected f i (Some m # cs) = collected f i (c # cs) @
        (if co_index n = i then f n else [])" for i
      using assms(3) m True collected_other [OF ok(2), of f]
      by (auto simp: c collected_Cons merges_def)
    ultimately show ?thesis using c m(2) True by auto
  next
    case False
    from Cons.IH [OF ok(1)] obtain cs' where cs':
      "merge_into (Some n) cs = Inr cs'" "completions_ok b cs'"
      "(co_index \<circ> the) ` set cs' = insert (co_index n) ((co_index \<circ> the) ` set cs)"
      "\<forall>i. collected f i cs' = collected f i cs @ (if co_index n = i then f n else [])" by blast
    have "merge_into (Some n) (c # cs) = Inr (c # cs')" using c False cs'(1) by simp
    moreover have "completions_ok b (c # cs')"
      using ok False cs'(2,3) by (simp add: c completions_ok_Cons)
    ultimately show ?thesis using c cs'(3,4) by (auto simp: collected_Cons)
  qed
qed

definition output_ok :: "bool \<Rightarrow> request_output \<Rightarrow> bool" where
  "output_ok b r \<longleftrightarrow> completions_ok b (rq_outputs r)"

text \<open>What a stream of outputs tells of the completion with index \<open>i\<close>.\<close>

definition streamed :: "(completion_output \<Rightarrow> 'a list) \<Rightarrow> int \<Rightarrow> request_output list \<Rightarrow> 'a list" where
  "streamed f i rs = concat (map (\<lambda>r. collected f i (rq_outputs r)) rs)"

lemma streamed_simps [simp]:
  "streamed f i [] = []" "streamed f i (r # rs) = collected f i (rq_outputs r) @ streamed f i rs"
  "streamed f i (rs @ rs') = streamed f i rs @ streamed f i rs'"
  by (simp_all add: streamed_def)

lemma request_output_add_ok:
  fixes f :: "completion_output \<Rightarrow> 'a list"
  assumes "output_ok b r" "output_ok b r'" "merges f"
  shows "\<exists>m. request_output_add r r' = Inr m \<and> output_ok b m \<and>
    (rq_finished m \<longleftrightarrow> rq_finished r \<or> rq_finished r') \<and>
    (\<forall>i. collected f i (rq_outputs m) = collected f i (rq_outputs r) @ collected f i (rq_outputs r'))"
proof -
  have loop: "\<exists>out. efold merge_into new cs = Inr out \<and> completions_ok b out \<and>
      (\<forall>i. collected f i out = collected f i cs @ collected f i new)"
    if "completions_ok b new" "completions_ok b cs" for new cs
    using that
  proof (induction new arbitrary: cs)
    case Nil
    then show ?case by (simp add: collected_def)
  next
    case (Cons n new)
    then obtain n0 where n: "n = Some n0" by (cases n) (auto simp: completions_ok_def)
    have ok: "completions_ok b new" "co_logprobs n0 \<noteq> None \<longleftrightarrow> b"
      using Cons.prems(1) by (simp_all add: n completions_ok_Cons)
    from merge_into_ok [OF Cons.prems(2) ok(2) assms(3)] obtain cs' where cs':
      "merge_into (Some n0) cs = Inr cs'" "completions_ok b cs'"
      "\<forall>i. collected f i cs' = collected f i cs @ (if co_index n0 = i then f n0 else [])" by blast
    from Cons.IH [OF ok(1) cs'(2)] obtain out where
      "efold merge_into new cs' = Inr out" "completions_ok b out"
      "\<forall>i. collected f i out = collected f i cs' @ collected f i new" by blast
    then show ?case using n cs'(1,3) by (simp add: collected_Cons)
  qed
  from loop [of "rq_outputs r'" "rq_outputs r"] assms(1,2) show ?thesis
    by (auto simp: output_ok_def request_output_add_def)
qed

datatype collector_op = Put request_output | Get

text \<open>Puts of the producer and gets of the consumer in any order; a get without output waits.\<close>

fun run_collector ::
  "collector_op list \<Rightarrow> collector \<Rightarrow> (request_output list \<times> collector) res" where
  "run_collector [] c = Inr ([], c)"
| "run_collector (Put r # ops) c = ebind (collector_put r c) (run_collector ops)"
| "run_collector (Get # ops) c =
     (case collector_get_nowait c of
        (got, c') \<Rightarrow> ebind (run_collector ops c') (\<lambda>(rs, c''). Inr (case got of None \<Rightarrow> rs | Some r \<Rightarrow> r # rs, c'')))"

fun puts :: "collector_op list \<Rightarrow> request_output list" where
  "puts [] = []"
| "puts (Put r # ops) = r # puts ops"
| "puts (Get # ops) = puts ops"

definition waiting_output :: "collector \<Rightarrow> request_output list" where
  "waiting_output c = (case pending_output c of None \<Rightarrow> [] | Some r \<Rightarrow> [r])"

lemma run_collector_ok:
  fixes f :: "completion_output \<Rightarrow> 'a list"
  assumes "\<forall>r \<in> set (puts ops). output_ok b r" "\<forall>r \<in> set (waiting_output c). output_ok b r"
    and "aggregate c" "merges f"
  shows "\<exists>got c'. run_collector ops c = Inr (got, c') \<and>
    (\<forall>i. streamed f i (got @ waiting_output c') = streamed f i (waiting_output c @ puts ops)) \<and>
    ((\<exists>r \<in> set (got @ waiting_output c'). rq_finished r) \<longleftrightarrow>
     (\<exists>r \<in> set (waiting_output c @ puts ops). rq_finished r))"
  using assms(1-3)
proof (induction ops arbitrary: c)
  case (Cons op ops)
  show ?case
  proof (cases op)
    case (Put r)
    have r: "output_ok b r" using Cons.prems(1) Put by simp
    show ?thesis
    proof (cases "pending_output c")
      case None
      let ?c = "c\<lparr>pending_output := Some r, ready := True\<rparr>"
      have "collector_put r c = Inr ?c" using None by (simp add: collector_put_def)
      moreover have "waiting_output ?c = [r]" "waiting_output c = []"
        using None by (simp_all add: waiting_output_def)
      ultimately show ?thesis
        using Cons.IH [of ?c] Cons.prems Put r by auto
    next
      case (Some p)
      then have p: "output_ok b p" using Cons.prems(2) by (simp add: waiting_output_def)
      from request_output_add_ok [OF p r assms(4)] obtain m where m:
        "request_output_add p r = Inr m" "output_ok b m"
        "rq_finished m \<longleftrightarrow> rq_finished p \<or> rq_finished r"
        "\<forall>i. collected f i (rq_outputs m) = collected f i (rq_outputs p) @ collected f i (rq_outputs r)"
        by blast
      let ?c = "c\<lparr>pending_output := Some m\<rparr>"
      have "collector_put r c = Inr ?c" using Some m(1) Cons.prems(3) by (simp add: collector_put_def)
      moreover have "waiting_output ?c = [m]" "waiting_output c = [p]"
        using Some by (simp_all add: waiting_output_def)
      ultimately show ?thesis
        using Cons.IH [of ?c] Cons.prems Put m(2-4) by auto
    qed
  next
    case Get
    show ?thesis
    proof (cases "pending_output c")
      case None
      then have "collector_get_nowait c = (None, c)" by (simp add: collector_get_nowait_def)
      then show ?thesis using Cons.IH [of c] Cons.prems Get by auto
    next
      case (Some p)
      let ?c = "c\<lparr>pending_output := None, ready := False\<rparr>"
      have "collector_get_nowait c = (Some p, ?c)" using Some by (simp add: collector_get_nowait_def)
      moreover have "waiting_output ?c = []" "waiting_output c = [p]"
        using Some by (simp_all add: waiting_output_def)
      ultimately show ?thesis using Cons.IH [of ?c] Cons.prems Get by auto
    qed
  qed
qed simp

text \<open>
  C37: no text, token or log probability is lost, repeated or reordered on the way to a streaming
  consumer. However the producer gets ahead of the consumer, a collector of deltas never raises,
  and what the consumer has taken together with what waits for it is, for every completion, what
  was put, in its order; the end of the request is seen exactly when it was put.
\<close>

theorem collector_lossless:
  assumes "\<forall>r \<in> set (puts ops). output_ok b r"
  shows "\<exists>got c. run_collector ops (init_collector DELTA) = Inr (got, c) \<and>
    (\<forall>i. streamed co_text i (got @ waiting_output c) = streamed co_text i (puts ops) \<and>
         streamed co_token_ids i (got @ waiting_output c) = streamed co_token_ids i (puts ops) \<and>
         streamed co_logprob_list i (got @ waiting_output c) = streamed co_logprob_list i (puts ops)) \<and>
    ((\<exists>r \<in> set (got @ waiting_output c). rq_finished r) \<longleftrightarrow> (\<exists>r \<in> set (puts ops). rq_finished r))"
proof -
  have init: "waiting_output (init_collector DELTA) = []" "aggregate (init_collector DELTA)"
    by (simp_all add: waiting_output_def init_collector_def)
  note run = run_collector_ok [OF assms _ init(2)]
  from run [OF _ merges_fields(1)] run [OF _ merges_fields(2)] run [OF _ merges_fields(3)]
  show ?thesis unfolding init(1) by auto
qed

definition sample_completion :: "int \<Rightarrow> ustr \<Rightarrow> completion_output" where
  "sample_completion i t = \<lparr>co_index = i, co_text = t, co_token_ids = t, co_cumulative_logprob = None,
     co_logprobs = None, co_finish_reason = None, co_stop_reason = None\<rparr>"

definition sample_output :: "completion_output list \<Rightarrow> request_output" where
  "sample_output cs = \<lparr>rq_request_id = ''r'', rq_prompt = None, rq_prompt_token_ids = [],
     rq_prompt_logprobs = None, rq_outputs = map Some cs, rq_finished = False\<rparr>"

theorem collector_lossless_witness:
  "\<exists>got c. run_collector [Put (sample_output [sample_completion 0 [5]]),
      Put (sample_output [sample_completion 1 [6]]), Get,
      Put (sample_output [sample_completion 0 [7]])] (init_collector DELTA) = Inr (got, c) \<and>
    streamed co_text 0 (got @ waiting_output c) = [5, 7]"
proof -
  let ?ops = "[Put (sample_output [sample_completion 0 [5]]),
      Put (sample_output [sample_completion 1 [6]]), Get,
      Put (sample_output [sample_completion 0 [7]])]"
  have "\<forall>r \<in> set (puts ?ops). output_ok False r"
    by (simp add: output_ok_def completions_ok_def sample_output_def sample_completion_def)
  moreover have "streamed co_text 0 (puts ?ops) = [5, 7]"
    by (simp add: collected_def sample_output_def sample_completion_def)
  ultimately show ?thesis using collector_lossless by metis
qed

section \<open>Parallel sampling returns every sample once\<close>

text \<open>
  The client registers the children one by one; each finishes at some time (only finished
  completions reach \<open>get_outputs\<close> when just the final output is wanted).
\<close>

fun register_children ::
  "int list \<Rightarrow> parent_request \<Rightarrow> (string \<times> sampling_params) list \<times> parent_request" where
  "register_children [] p = ([], p)"
| "register_children (k # ks) p =
     (let (info, p1) = get_child_info k p; (infos, p2) = register_children ks p1
      in (info # infos, p2))"

fun finish_children ::
  "(int \<Rightarrow> completion_output) \<Rightarrow> int list \<Rightarrow> parent_request \<Rightarrow>
   ((completion_output option list \<times> bool) list \<times> parent_request) res" where
  "finish_children c [] p = Inr ([], p)"
| "finish_children c (k # ks) p =
     ebind (get_outputs (child_id k (pr_request_id p)) (c k) p) (\<lambda>((_, outs, finished), p1).
     ebind (finish_children c ks p1) (\<lambda>(rest, p2). Inr ((outs, finished) # rest, p2)))"

lemma child_id_inject [simp]:
  "0 \<le> a \<Longrightarrow> 0 \<le> b \<Longrightarrow> child_id a i = child_id b i \<longleftrightarrow> a = b"
  by (auto simp: child_id_def show_int_def)

text \<open>The parameters of the child with index \<open>k\<close>.\<close>

definition child_params :: "int \<Rightarrow> sampling_params \<Rightarrow> sampling_params" where
  "child_params k ps = ps\<lparr>sp_n := 1, sp_seed := map_option (\<lambda>s. s + k) (sp_seed ps)\<rparr>"

definition cached_ok :: "parent_request \<Rightarrow> bool" where
  "cached_ok p \<longleftrightarrow> (\<forall>c. cached_child_params p = Some c \<longrightarrow>
     sp_seed (pr_params p) = None \<and> c = (pr_params p)\<lparr>sp_n := 1\<rparr>)"

lemma child_params_cases:
  "sp_seed ps = None \<Longrightarrow> child_params k ps = ps\<lparr>sp_n := 1\<rparr>"
  "sp_seed ps = Some s \<Longrightarrow> child_params k ps = ps\<lparr>sp_n := 1\<rparr>\<lparr>sp_seed := Some (s + k)\<rparr>"
  by (simp_all add: child_params_def)

lemma get_child_params_ok:
  assumes "cached_ok p"
  shows "\<exists>cache. get_child_params k p = (child_params k (pr_params p), p\<lparr>cached_child_params := cache\<rparr>) \<and>
    (\<forall>c. cache = Some c \<longrightarrow> sp_seed (pr_params p) = None \<and> c = (pr_params p)\<lparr>sp_n := 1\<rparr>)"
proof (cases "cached_child_params p")
  case (Some c)
  then have "sp_seed (pr_params p) = None" "c = (pr_params p)\<lparr>sp_n := 1\<rparr>"
    using assms by (simp_all add: cached_ok_def)
  then show ?thesis
    by (intro exI [of _ "Some c"]) (simp add: get_child_params_def Some child_params_cases(1))
next
  case None
  show ?thesis
  proof (cases "sp_seed (pr_params p)")
    case seed: None
    show ?thesis
      by (intro exI [of _ "Some ((pr_params p)\<lparr>sp_n := 1\<rparr>)"])
        (simp add: get_child_params_def None seed child_params_cases(1) Let_def)
  next
    case (Some s)
    have "p = p\<lparr>cached_child_params := None\<rparr>" using None by simp
    then show ?thesis
      by (intro exI [of _ None])
        (simp add: get_child_params_def None Some child_params_cases(2) [OF Some] Let_def)
  qed
qed

lemma register_children_ok:
  assumes "cached_ok p"
  shows "\<exists>cache. register_children ks p =
    (map (\<lambda>k. (child_id k (pr_request_id p), child_params k (pr_params p))) ks,
     p\<lparr>child_requests := child_requests p \<union> (\<lambda>k. child_id k (pr_request_id p)) ` set ks,
       cached_child_params := cache\<rparr>)"
  using assms
proof (induction ks arbitrary: p)
  case Nil
  have "p = p\<lparr>child_requests := child_requests p \<union> {}, cached_child_params := cached_child_params p\<rparr>"
    by simp
  then show ?case by (auto intro!: exI [of _ "cached_child_params p"])
next
  case (Cons k ks)
  let ?i = "child_id k (pr_request_id p)"
  let ?p = "p\<lparr>child_requests := insert ?i (child_requests p)\<rparr>"
  have "cached_ok ?p" using Cons.prems by (simp add: cached_ok_def)
  from get_child_params_ok [OF this, of k] obtain cache where
    "get_child_params k ?p = (child_params k (pr_params p), ?p\<lparr>cached_child_params := cache\<rparr>)"
    and cache: "cached_ok (?p\<lparr>cached_child_params := cache\<rparr>)" by (auto simp: cached_ok_def)
  then have one: "get_child_info k p = ((?i, child_params k (pr_params p)), ?p\<lparr>cached_child_params := cache\<rparr>)"
    by (simp add: get_child_info_def Let_def)
  from Cons.IH [OF cache] obtain cache' where
    "register_children ks (?p\<lparr>cached_child_params := cache\<rparr>) =
      (map (\<lambda>k. (child_id k (pr_request_id p), child_params k (pr_params p))) ks,
       p\<lparr>child_requests := insert ?i (child_requests p) \<union> (\<lambda>k. child_id k (pr_request_id p)) ` set ks,
         cached_child_params := cache'\<rparr>)" by auto
  then show ?case using one by (intro exI [of _ cache']) (simp add: Let_def)
qed

lemma finish_children_ok:
  assumes "ks \<noteq> []" "distinct ks" "set ks \<subseteq> {0..<n}" "0 \<le> n" "sp_output_kind (pr_params p) = FINAL_ONLY"
    and "child_requests p = (\<lambda>k. child_id k (pr_request_id p)) ` set ks"
    and "py_len (output_aggregator p) = n"
    and "\<forall>k \<in> {0..<n} - set ks. output_aggregator p ! nat k = Some (c k)"
    and "\<forall>k. co_index (c k) = k \<and> co_finished (c k)"
  shows "\<exists>p'. finish_children c ks p =
    Inr (replicate (length ks - 1) ([], False) @ [(map (\<lambda>k. Some (c (int k))) [0..<nat n], True)], p')"
  using assms
proof (induction ks arbitrary: p)
  case (Cons k ks)
  let ?id = "\<lambda>k. child_id k (pr_request_id p)" and ?agg = "(output_aggregator p)[nat k := Some (c k)]"
  have k: "0 \<le> k" "k < n" "k \<notin> set ks" using Cons.prems(2,3) by auto
  have "?id k \<notin> ?id ` set ks" using k Cons.prems(3) by auto
  then have children: "child_requests p - {?id k} = ?id ` set ks" using Cons.prems(6) by auto
  have set_ok: "py_set (output_aggregator p) k (Some (c k)) = Inr ?agg"
    using k Cons.prems(7) by (simp add: py_set_def py_index_def py_len_def)
  let ?p1 = "p\<lparr>child_requests := ?id ` set ks, output_aggregator := ?agg\<rparr>"
  have one: "get_outputs (?id k) (c k) p =
      Inr ((pr_request_id p, if ks = [] then ?agg else [], ks = []), ?p1)"
    using Cons.prems(5,6,9) children set_ok by (simp add: get_outputs_def set_remove_def)
  have placed: "\<forall>j \<in> {0..<n} - set ks. ?agg ! nat j = Some (c j)"
    using Cons.prems(7,8) k by (auto simp: nth_list_update py_len_def nat_eq_iff2)
  show ?case
  proof (cases "ks = []")
    case True
    have "?agg ! j = Some (c (int j))" if "j < nat n" for j
      using bspec [OF placed, of "int j"] that True by simp
    then have "?agg = map (\<lambda>k. Some (c (int k))) [0..<nat n]"
      using Cons.prems(7) by (intro nth_equalityI) (auto simp: py_len_def)
    then show ?thesis using one True by simp
  next
    case False
    have "\<exists>p'. finish_children c ks ?p1 = Inr (replicate (length ks - 1) ([], False) @
        [(map (\<lambda>k. Some (c (int k))) [0..<nat n], True)], p')"
      using Cons.prems placed False by (intro Cons.IH) (simp_all add: py_len_def)
    moreover have "(([] :: completion_output option list), False) # replicate (length ks - 1) ([], False)
        = replicate (length ks) ([], False)"
      using False by (cases ks) simp_all
    ultimately show ?thesis using one False by auto
  qed
qed simp

text \<open>
  Parallel sampling returns every sample once. When only final outputs are wanted, each child
  is registered under an id of its own, for one sample and with a seed of its own if there is a
  seed; in whatever order the children finish, nothing is raised, nothing is returned until the
  last one finishes, and then the outputs of all children in the order of their indices.
\<close>

theorem parallel_samples_complete:
  assumes "sp_n ps = n" "1 \<le> n" "sp_output_kind ps = FINAL_ONLY"
    and "distinct order" "set order = {0..<n}"
    and "\<forall>k. co_index (c k) = k \<and> co_finished (c k)"
  shows "\<exists>infos p p'.
    register_children [0..n - 1] (init_parent i ps) = (infos, p) \<and>
    infos = map (\<lambda>k. (child_id k i, child_params k ps)) [0..n - 1] \<and>
    distinct (map fst infos) \<and>
    finish_children c order p =
      Inr (replicate (length order - 1) ([], False) @
           [(map (\<lambda>k. Some (c (int k))) [0..<nat n], True)], p')"
proof -
  let ?init = "init_parent i ps"
  have "cached_ok ?init" by (simp add: cached_ok_def init_parent_def)
  from register_children_ok [OF this, of "[0..n - 1]"] obtain cache where reg:
    "register_children [0..n - 1] ?init =
      (map (\<lambda>k. (child_id k i, child_params k ps)) [0..n - 1],
       ?init\<lparr>child_requests := (\<lambda>k. child_id k i) ` {0..n - 1}, cached_child_params := cache\<rparr>)"
    by (auto simp: init_parent_def)
  let ?p = "?init\<lparr>child_requests := (\<lambda>k. child_id k i) ` {0..n - 1}, cached_child_params := cache\<rparr>"
  have "{0..n - 1} = set order" unfolding assms(5) by auto
  then have "(\<lambda>k. child_id k i) ` {0..n - 1} = (\<lambda>k. child_id k i) ` set order" by (rule arg_cong)
  moreover have "pr_request_id ?p = i" by (simp add: init_parent_def)
  ultimately have p: "child_requests ?p = (\<lambda>k. child_id k (pr_request_id ?p)) ` set order"
    "sp_output_kind (pr_params ?p) = FINAL_ONLY" "py_len (output_aggregator ?p) = n"
    using assms(1-3) by (simp_all add: init_parent_def py_len_def)
  have "order \<noteq> []" "set order \<subseteq> {0..<n}" "0 \<le> n" using assms(2,5) by auto
  moreover have "\<forall>k \<in> {0..<n} - set order. output_aggregator ?p ! nat k = Some (c k)"
    using assms(5) by simp
  ultimately obtain p' where "finish_children c order ?p = Inr (replicate (length order - 1) ([], False) @
      [(map (\<lambda>k. Some (c (int k))) [0..<nat n], True)], p')"
    using finish_children_ok [OF _ assms(4) _ _ p(2,1,3) _ assms(6)] by blast
  moreover have "distinct (map fst (map (\<lambda>k. (child_id k i,
      child_params k ps)) [0..n - 1]))"
    unfolding map_map comp_def fst_conv by (auto simp: distinct_map inj_on_def)
  ultimately show ?thesis using reg by blast
qed

theorem parallel_samples_complete_witness:
  "\<exists>infos p p'. register_children [0..2 - 1]
      (init_parent ''r''
        (sample_params\<lparr>sp_n := 2, sp_seed := Some 7, sp_output_kind := FINAL_ONLY\<rparr>)) = (infos, p) \<and>
    map (sp_seed \<circ> snd) infos = [Some 7, Some 8] \<and>
    (\<exists>a b. finish_children (\<lambda>k. (sample_completion k [k])\<lparr>co_finish_reason := Some STOP\<rparr>) [1, 0] p =
      Inr ([([], False), ([Some a, Some b], True)], p') \<and> co_text a = [0] \<and> co_text b = [1])"
proof -
  let ?c = "\<lambda>k. (sample_completion k [k])\<lparr>co_finish_reason := Some STOP\<rparr>"
  have "set [1, 0 :: int] = {0..<2}" by auto
  moreover have "\<forall>k. co_index (?c k) = k \<and> co_finished (?c k)"
    by (simp add: sample_completion_def co_finished_def)
  moreover have two: "[0..2 - 1 :: int] = [0, 1]" "[0..<nat 2] = [0, 1]"
    by (simp_all add: upto.simps upt_rec)
  ultimately show ?thesis
    using parallel_samples_complete [of "sample_params\<lparr>sp_n := 2, sp_seed := Some 7,
      sp_output_kind := FINAL_ONLY\<rparr>" 2 "[1, 0]" ?c "''r''"]
    by (auto simp: sample_completion_def sample_params_def child_params_def)
qed

end
