(* ===== verification/SpexisSched.thy ===== *)
theory SpexisSched
  imports SchedState SpecUpdate
begin

text \<open>
  \<open>SpexisScheduler\<close> (\<open>spexis/spec_parallel/scheduler.py\<close>): preemption, the confidence drop and
  the length-aware boost, the projection of memory, the phases of \<open>schedule\<close>, the payload of a
  scheduled request, the two updates of an iteration, and the operations on requests from
  outside. One definition per method, the phases of \<open>schedule\<close> one definition each.
\<close>

section \<open>Preemption\<close>

text \<open>What \<open>_preempt_request\<close> records at the decision, before the in-flight work has drained.\<close>

definition mark_preempted :: "request \<Rightarrow> request" where
  "mark_preempted r =
     (if postpreempt_spec_result r \<noteq> Some False then
        (let res = \<not> (just_fixed r = Some True \<and> spec_result r = Some False) in
         r\<lparr>should_preempt := True, postpreempt_spec_result := Some res,
           postpreempt_fixed_idx := (if res then None else fixed_idx r)\<rparr>)
      else r\<lparr>should_preempt := True\<rparr>)"

definition reset_preempted :: "request \<Rightarrow> request" where
  "reset_preempted r =
     r\<lparr>sp_len := 0, spec_result := None, fixed_idx := None, flush_len := None,
       just_fixed := None, drop_len := 0, confidence_dropped := False, stop_dropped := False,
       confidence_passed := False, predicted_len_prob := Some [], should_preempt := False,
       num_scheduled := 0, num_computed_tokens := 0\<rparr>"

definition preempt_request :: "oid \<Rightarrow> scheduler \<Rightarrow> bool \<times> scheduler" where
  "preempt_request x s =
     (let s1 = upd x mark_preempted s in
      if 0 < num_scheduled (heap s1 x) then (False, s1)
      else
        (let s2 = upd x reset_preempted s1 in
         (True, s2\<lparr>scheduled_req_ids := scheduled_req_ids s2 - {req_id_of s2 x},
                   waiting := x # waiting s2\<rparr>)))"

text \<open>The loop over \<open>to_be_preempted\<close> at the start of \<open>schedule\<close>.\<close>

definition drain_step :: "oid \<Rightarrow> oid list \<times> scheduler \<Rightarrow> oid list \<times> scheduler" where
  "drain_step x st =
     (case preempt_request x (snd st) of
        (done, s') \<Rightarrow> (if done then fst st else fst st @ [x], s'))"

definition drain_preempted :: "scheduler \<Rightarrow> oid list \<times> scheduler" where
  "drain_preempted s =
     (case fold drain_step (to_be_preempted s) ([], s) of
        (pending, s') \<Rightarrow> (to_be_preempted s, s'\<lparr>to_be_preempted := pending\<rparr>))"

text \<open>
  Making room: the newest running request loses its blocks and is preempted, or marked while
  it has iterations in flight.
\<close>

definition evict_last :: "sched_config \<Rightarrow> rat \<Rightarrow> scheduler \<Rightarrow> (oid \<times> scheduler) res" where
  "evict_last cfg ts s =
     (if running_scheduled s = [] then Inl IndexError
      else
        (let x = last (running_scheduled s) in
         ebind (free (heap s x) (kv_cache_manager s)) (\<lambda>m.
         (let s1 = upd x (\<lambda>r. r\<lparr>status := PREEMPTED\<rparr>)
                     (s\<lparr>running_scheduled := butlast (running_scheduled s), kv_cache_manager := m\<rparr>);
              s2 = (if log_stats cfg then upd x (record_event PREEMPTED_EVENT ts) s1 else s1)
          in case preempt_request x s2 of
               (done, s3) \<Rightarrow>
                 Inr (x, if done then s3
                         else s3\<lparr>to_be_preempted := to_be_preempted s3 @ [x]\<rparr>)))))"

lemma evict_last_running:
  "evict_last cfg ts s = Inr (x, s') \<Longrightarrow>
   running_scheduled s \<noteq> [] \<and> x = last (running_scheduled s) \<and>
   running_scheduled s' = butlast (running_scheduled s)"
  by (auto simp: evict_last_def preempt_request_def Let_def res_simps split: if_splits)

text \<open>
  \<open>_allocate_with_preemption\<close>: the new blocks, or nothing when the request itself had to go; the
  third component is the extended list of preempted requests.
\<close>

function allocate_with_preemption ::
  "sched_config \<Rightarrow> sched_env \<Rightarrow> rat \<Rightarrow> oid \<Rightarrow> int \<Rightarrow> oid list \<Rightarrow> scheduler \<Rightarrow>
   (nat list option \<times> oid list \<times> scheduler) res" where
  "allocate_with_preemption cfg env ts x n preempted s =
     ebind (allocate_slots (env_hash env) (env_none_hash env) (heap s x) n []
              (num_lookahead_tokens cfg) (kv_cache_manager s)) (\<lambda>(new, m).
     (let s1 = s\<lparr>kv_cache_manager := m\<rparr> in
      if new \<noteq> None then Inr (new, preempted, s1)
      else ebind (evict_last cfg ts s1) (\<lambda>(y, s2).
        if y = x then Inr (None, preempted @ [y], s2)
        else allocate_with_preemption cfg env ts x n (preempted @ [y]) s2)))"
  by pat_completeness auto

termination
proof (relation "measure (\<lambda>(cfg, env, ts, x, n, preempted, s). length (running_scheduled s))")
  fix cfg ts s and res :: "nat list option \<times> kv_manager" and new m s1 ev y s2
  assume "s1 = s\<lparr>kv_cache_manager := m\<rparr>" "evict_last cfg ts s1 = Inr ev" "(y, s2) = ev"
  then show "\<And>env x n preempted. ((cfg, env, ts, x, n, preempted @ [y], s2),
      cfg, env, ts, x, n, preempted, s)
    \<in> measure (\<lambda>(cfg, env, ts, x, n, preempted, s). length (running_scheduled s))"
    using evict_last_running [of cfg ts s1 y s2] by auto
qed simp

declare allocate_with_preemption.simps [simp del]

section \<open>Lookahead scheduling, part 1: the confidence drop\<close>

text \<open>\<open>int(x)\<close> of a float truncates towards 0.\<close>

definition py_int :: "rat \<Rightarrow> int" where
  "py_int x = (if x < 0 then - \<lfloor>- x\<rfloor> else \<lfloor>x\<rfloor>)"

definition bucket_index :: "(rat \<Rightarrow> rat) \<Rightarrow> nat \<Rightarrow> rat \<Rightarrow> nat res" where
  "bucket_index fl n conf =
     (let idx = min (py_int (fl (conf / fl (1 / of_nat n)))) (int n - 1) in
      ebind (raise_if (idx < 0 \<or> int n \<le> idx) ValueError) (\<lambda>_. Inr (nat idx)))"

text \<open>
  The first loop of \<open>_apply_confidence_drop\<close>: the candidates in buckets of their confidence, and
  the number of requests that run a token of the target model anyway.
\<close>

definition sort_step ::
  "(rat \<Rightarrow> rat) \<Rightarrow> nat \<Rightarrow> oid \<Rightarrow> int \<times> oid list list \<times> scheduler \<Rightarrow>
   (int \<times> oid list list \<times> scheduler) res" where
  "sort_step fl n x st =
     (case st of (num_real, buckets, s) \<Rightarrow>
        let s' = upd x (\<lambda>r. r\<lparr>confidence_passed := False\<rparr>) s; r = heap s' x in
        if should_preempt r then Inr (num_real, buckets, s')
        else if has_pending_real_token r then Inr (num_real + 1, buckets, s')
        else if confidence_dropped r \<or> stop_dropped r then Inr (num_real, buckets, s')
        else ebind (spec_confidence fl r) (\<lambda>conf.
             ebind (bucket_index fl n conf) (\<lambda>i.
             Inr (num_real, buckets[i := buckets ! i @ [x]], s'))))"

definition sort_buckets ::
  "(rat \<Rightarrow> rat) \<Rightarrow> nat \<Rightarrow> scheduler \<Rightarrow> (int \<times> oid list list \<times> scheduler) res" where
  "sort_buckets fl n s =
     (if n = 0 then Inl ZeroDivisionError
      else efold (sort_step fl n) (running_scheduled s) (0, replicate n [], s))"

definition pass_requests :: "oid list \<Rightarrow> scheduler \<Rightarrow> scheduler" where
  "pass_requests xs s = fold (\<lambda>x. upd x (\<lambda>r. r\<lparr>confidence_passed := True\<rparr>)) xs s"

text \<open>
  The second loop, over the buckets from the highest down: \<open>i\<close> buckets are left, so
  \<open>tmp_idx = i - 1\<close>. It returns the dropped confidence, \<open>tmp_idx\<close> and \<open>tmp_req_idx\<close>. When the
  budget does not cover a bucket, the budget ends in it.
\<close>

fun pass_loop ::
  "(rat \<Rightarrow> rat) \<Rightarrow> rat \<Rightarrow> oid list list \<Rightarrow> nat \<Rightarrow> int \<Rightarrow> rat \<Rightarrow> int \<Rightarrow> scheduler \<Rightarrow>
   (rat \<times> int \<times> int \<times> scheduler) res" where
  "pass_loop fl width buckets 0 budget dropped tmp_req s = Inr (dropped, - 1, tmp_req, s)"
| "pass_loop fl width buckets (Suc i) budget dropped tmp_req s =
     (if budget \<le> 0 then Inr (dropped, int i, tmp_req, s)
      else
        (let b = buckets ! i in
         if py_len b \<le> budget
         then pass_loop fl width buckets i (budget - py_len b) (fl (of_nat i * width)) tmp_req
                (pass_requests b s)
         else
           (let k = min (tmp_req + budget) (py_len b);
                s' = pass_requests (py_slice b tmp_req k) s
            in ebind (py_get b k) (\<lambda>x.
               ebind (spec_confidence fl (heap s' x)) (\<lambda>conf.
               pass_loop fl width buckets i (budget - (k - tmp_req)) conf k s')))))"

text \<open>
  \<open>_length_aware_boost\<close>: the scan of one bucket from a position, and of the buckets below.
  The result is the boost budget that is left.
\<close>

definition boost_step ::
  "sched_config \<Rightarrow> sched_env \<Rightarrow> oid \<Rightarrow> int \<times> scheduler \<Rightarrow> (int \<times> scheduler) res" where
  "boost_step cfg env x st =
     (case st of (left, s) \<Rightarrow>
        ebind (expect_remain_len_idx (lenprob_threshold cfg) (heap s x)) (\<lambda>idx.
        if idx \<noteq> la_sched2_lenidx_thre cfg then Inr (left, s)
        else ebind (spec_confidence (env_fl env) (heap s x)) (\<lambda>conf.
          if la_sched2_conf_thre cfg < conf \<and> 0 < left
          then Inr (left - 1, upd x (\<lambda>r. r\<lparr>confidence_passed := True\<rparr>) s)
          else Inr (left, s))))"

fun boost_bucket ::
  "sched_config \<Rightarrow> sched_env \<Rightarrow> oid list \<Rightarrow> int \<times> scheduler \<Rightarrow> (int \<times> scheduler) res" where
  "boost_bucket cfg env [] st = Inr st"
| "boost_bucket cfg env (x # xs) st =
     ebind (boost_step cfg env x st) (\<lambda>st'.
       if fst st' = 0 then Inr st' else boost_bucket cfg env xs st')"

fun boost_below ::
  "sched_config \<Rightarrow> sched_env \<Rightarrow> oid list list \<Rightarrow> nat \<Rightarrow> int \<times> scheduler \<Rightarrow> (int \<times> scheduler) res" where
  "boost_below cfg env buckets 0 st = Inr st"
| "boost_below cfg env buckets (Suc i) st =
     ebind (boost_bucket cfg env (buckets ! i) st) (\<lambda>st'.
       if fst st' = 0 then Inr st' else boost_below cfg env buckets i st')"

definition length_aware_boost ::
  "sched_config \<Rightarrow> sched_env \<Rightarrow> oid list list \<Rightarrow> int \<Rightarrow> int \<Rightarrow> scheduler \<Rightarrow> scheduler res" where
  "length_aware_boost cfg env buckets tmp_idx tmp_req s =
     ebind (if tmp_req \<noteq> 0
            then ebind (py_get buckets tmp_idx) (\<lambda>b.
                 ebind (boost_bucket cfg env (py_from b tmp_req) (la_sched2_max_reqs cfg, s)) (\<lambda>st.
                 Inr (tmp_idx - 1, st)))
            else Inr (tmp_idx, (la_sched2_max_reqs cfg, s))) (\<lambda>(idx, st).
     ebind (if fst st \<noteq> 0 then boost_below cfg env buckets (nat (idx + 1)) st else Inr st)
       (\<lambda>st'. Inr (snd st')))"

definition apply_confidence_drop ::
  "sched_config \<Rightarrow> sched_env \<Rightarrow> scheduler \<Rightarrow> (rat \<times> scheduler) res" where
  "apply_confidence_drop cfg env s =
     (let fl = env_fl env; n = num_conf_buckets cfg;
          batch = py_len (running_scheduled s);
          pass_num = batch - py_int (fl (of_int batch * drop_ratio cfg))
      in ebind (sort_buckets fl n s) (\<lambda>(num_real, buckets, s1).
         ebind (pass_loop fl (fl (1 / of_nat n)) buckets n (max (pass_num - num_real) 0) 0 0 s1)
           (\<lambda>(dropped, tmp_idx, tmp_req, s2).
         if enable_la_sched2 cfg
         then ebind (length_aware_boost cfg env buckets tmp_idx tmp_req s2)
                (\<lambda>s3. Inr (dropped, s3))
         else Inr (dropped, s2))))"

section \<open>Lookahead scheduling, part 2: the projection of memory\<close>

record memory_estimate =
  should_estimate :: bool
  delay_prefill :: bool
  mem_usage_list :: "rat list"
  mem_in_tokens :: int

definition no_estimate :: memory_estimate where
  "no_estimate = \<lparr>should_estimate = False, delay_prefill = False, mem_usage_list = [],
     mem_in_tokens = 0\<rparr>"

definition estimate_lookahead_memory ::
  "sched_config \<Rightarrow> sched_env \<Rightarrow> int \<Rightarrow> bool \<Rightarrow> scheduler \<Rightarrow> (memory_estimate \<times> scheduler) res" where
  "estimate_lookahead_memory cfg env token_budget have_preempted s =
     (if have_preempted \<or> waiting s = [] \<or> token_budget \<le> 0
         \<or> usage (env_fl env) (kv_cache_manager s) \<le> mem_esti_bar cfg
      then Inr (no_estimate, s)
      else
        (let fl = env_fl env;
             mem = (int (num_gpu_blocks (km_pool (kv_cache_manager s))) - prefill_reserve_blocks cfg)
                     * int (cfg_block_size cfg)
         in ebind (iter_list cfg) (\<lambda>iters.
            ebind (calculate_peak_mem fl iters (map (heap s) (running_scheduled s))
                     (lenprob_threshold cfg) (lenesti_prec cfg) (estimate_caches s))
              (\<lambda>(mem_list, peak, _, caches).
            Inr (\<lparr>should_estimate = True,
                  delay_prefill = (fl (mem_estimate_margin cfg * of_int mem) < peak),
                  mem_usage_list = mem_list, mem_in_tokens = mem\<rparr>,
                 s\<lparr>estimate_caches := caches\<rparr>)))))"

text \<open>
  The loop that adds the footprint of a waiting request to the projection; it stops at the
  first iteration that overflows.
\<close>

fun admit_estimate ::
  "sched_config \<Rightarrow> (rat \<Rightarrow> rat) \<Rightarrow> request \<Rightarrow> int list \<Rightarrow> int \<Rightarrow> memory_estimate \<Rightarrow>
   exp_gen_len_cache \<Rightarrow> (memory_estimate \<times> exp_gen_len_cache) res" where
  "admit_estimate cfg fl r [] i est eg = Inr (est, eg)"
| "admit_estimate cfg fl r (it # its) i est eg =
     ebind (eg_get fl it eg) (\<lambda>(g, eg').
     ebind (py_get (mem_usage_list est) i) (\<lambda>u.
     (let u' = fl (u + fl (of_int (num_tokens r) + g)) in
      ebind (py_set (mem_usage_list est) i u') (\<lambda>l.
      (let est' = est\<lparr>mem_usage_list := l\<rparr> in
       if fl (mem_estimate_margin cfg * of_int (mem_in_tokens est)) < u'
       then Inr (est'\<lparr>delay_prefill := True\<rparr>, eg')
       else admit_estimate cfg fl r its (i + 1) est' eg')))))"

section \<open>The phases of \<open>schedule\<close>\<close>

text \<open>
  The local variables of \<open>schedule\<close>. \<open>req_index\<close> counts over the running list first and goes on
  in the waiting phase, where only structured output reads it.
\<close>

record sched_local =
  token_budget :: int
  req_index :: nat
  new_reqs :: "oid list"
  resumed_reqs :: "oid list"
  flushed_reqs :: "oid list"
  sp_reqs :: "oid list"
  preempted_reqs :: "oid list"
  new_block_ids :: "string \<Rightarrow> nat list option"
  scheduled_tokens :: "(string \<times> int) list"
  structured_ids :: "(string \<times> int) list"
  skipped_reqs :: "oid list"
  estimate :: memory_estimate

definition init_local :: "sched_config \<Rightarrow> oid list \<Rightarrow> sched_local" where
  "init_local cfg preempted =
     \<lparr>token_budget = max_num_scheduled_tokens cfg, req_index = 0, new_reqs = [],
      resumed_reqs = [], flushed_reqs = [], sp_reqs = [], preempted_reqs = preempted,
      new_block_ids = (\<lambda>_. None), scheduled_tokens = [], structured_ids = [],
      skipped_reqs = [], estimate = no_estimate\<rparr>"

definition cap_tokens :: "sched_config \<Rightarrow> int \<Rightarrow> int \<Rightarrow> int" where
  "cap_tokens cfg budget n =
     (let threshold = long_prefill_token_threshold cfg in
      min (if 0 < threshold \<and> threshold < n then threshold else n) budget)"

text \<open>What is recorded for a running request that got its blocks.\<close>

definition commit_running ::
  "oid \<Rightarrow> bool \<Rightarrow> int \<Rightarrow> nat list \<Rightarrow> scheduler \<times> sched_local \<Rightarrow> scheduler \<times> sched_local" where
  "commit_running x flushed n blocks st =
     (case st of (s, l) \<Rightarrow>
        let i = req_id_of s x;
            s' = upd x (\<lambda>r. r\<lparr>num_scheduled := num_scheduled r + 1\<rparr>) s
        in (s'\<lparr>scheduled_req_ids := insert i (scheduled_req_ids s')\<rparr>,
            l\<lparr>flushed_reqs := (if flushed then flushed_reqs l @ [x] else flushed_reqs l),
              sp_reqs := (if flushed then sp_reqs l else sp_reqs l @ [x]),
              structured_ids :=
                (if use_structured_output (heap s x)
                 then AList.update i (int (req_index l)) (structured_ids l) else structured_ids l),
              new_block_ids := (new_block_ids l)(i \<mapsto> blocks),
              scheduled_tokens := AList.update i n (scheduled_tokens l),
              token_budget := token_budget l - n,
              req_index := req_index l + 1\<rparr>))"

text \<open>Allocate and record; \<open>True\<close> when the loop goes on, \<open>False\<close> for \<open>break\<close>.\<close>

definition schedule_running ::
  "sched_config \<Rightarrow> sched_env \<Rightarrow> rat \<Rightarrow> oid \<Rightarrow> bool \<Rightarrow> int \<Rightarrow> scheduler \<times> sched_local \<Rightarrow>
   (bool \<times> scheduler \<times> sched_local) res" where
  "schedule_running cfg env ts x flushed n st =
     (case st of (s, l) \<Rightarrow>
        let n' = cap_tokens cfg (token_budget l) n in
        ebind (py_assert (0 < n')) (\<lambda>_.
        ebind (allocate_with_preemption cfg env ts x n' (preempted_reqs l) s)
          (\<lambda>(new, preempted, s').
        (let l' = l\<lparr>preempted_reqs := preempted\<rparr> in
         case new of
           None \<Rightarrow> Inr (False, s', l')
         | Some blocks \<Rightarrow> Inr (True, commit_running x flushed n' blocks (s', l'))))))"

definition next_request :: "scheduler \<times> sched_local \<Rightarrow> scheduler \<times> sched_local" where
  "next_request st = (fst st, (snd st)\<lparr>req_index := req_index (snd st) + 1\<rparr>)"

definition drop_speculation :: "request \<Rightarrow> request" where
  "drop_speculation r = r\<lparr>confidence_dropped := True, drop_len := sp_len r\<rparr>"

definition running_step ::
  "sched_config \<Rightarrow> sched_env \<Rightarrow> rat \<Rightarrow> scheduler \<times> sched_local \<Rightarrow>
   (bool \<times> scheduler \<times> sched_local) res" where
  "running_step cfg env ts st =
     (case st of (s, l) \<Rightarrow>
        let x = running_scheduled s ! req_index l; r = heap s x in
        if should_preempt r then Inr (True, next_request st)
        else if has_pending_real_token r then
          (let s1 = upd x (\<lambda>r. r\<lparr>drop_end := False\<rparr>) s;
               n = (if num_computed_tokens r < num_prompt_tokens r
                    then num_tokens_with_spec r - num_computed_tokens r else 1)
           in schedule_running cfg env ts x True n (s1, l))
        else if confidence_dropped r \<or> stop_dropped r then Inr (True, next_request st)
        else if \<not> enable_la_sched1 cfg \<or> confidence_passed r then
          schedule_running cfg env ts x False (num_tokens_with_spec r - num_computed_tokens r) st
        else Inr (True, next_request (upd x drop_speculation s, l)))"

lemma allocate_with_preemption_running:
  "allocate_with_preemption cfg env ts x n preempted s = Inr (new, preempted', s') \<Longrightarrow>
   length (running_scheduled s') \<le> length (running_scheduled s)"
proof (induction cfg env ts x n preempted s rule: allocate_with_preemption.induct)
  case (1 cfg env ts x n preempted s)
  note eq = 1(2) [unfolded allocate_with_preemption.simps [of cfg env ts x n preempted s]]
  from eq obtain res m where
    alloc: "allocate_slots (env_hash env) (env_none_hash env) (heap s x) n []
      (num_lookahead_tokens cfg) (kv_cache_manager s) = Inr (res, m)"
    by (auto simp: res_simps)
  let ?s1 = "s\<lparr>kv_cache_manager := m\<rparr>"
  show ?case
  proof (cases res)
    case (Some b)
    then show ?thesis using eq alloc by auto
  next
    case None
    with eq alloc obtain y s2 where y: "evict_last cfg ts ?s1 = Inr (y, s2)"
      by (auto simp: res_simps)
    have len: "length (running_scheduled s2) \<le> length (running_scheduled s)"
      using evict_last_running [OF y] by simp
    show ?thesis
    proof (cases "y = x")
      case True
      then show ?thesis using eq alloc None y len by auto
    next
      case False
      then have "allocate_with_preemption cfg env ts x n (preempted @ [y]) s2
          = Inr (new, preempted', s')"
        using eq alloc None y by auto
      from 1(1) [OF alloc refl refl _ y refl False this] None len show ?thesis by simp
    qed
  qed
qed

lemma running_step_measure:
  assumes "running_step cfg env ts (s, l) = Inr (True, s', l')"
  shows "req_index l' = req_index l + 1 \<and>
    length (running_scheduled s') \<le> length (running_scheduled s)"
proof -
  have run: "req_index l' = req_index l + 1 \<and>
      length (running_scheduled s') \<le> length (running_scheduled t)"
    if sched: "schedule_running cfg env ts x fl n (t, l) = Inr (True, s', l')" for x fl n t
  proof -
    obtain new preempted t' where alloc: "allocate_with_preemption cfg env ts x
        (cap_tokens cfg (token_budget l) n) (preempted_reqs l) t = Inr (new, preempted, t')"
      using sched by (auto simp: schedule_running_def Let_def res_simps)
    show ?thesis
      using sched alloc allocate_with_preemption_running [OF alloc]
      by (auto simp: schedule_running_def commit_running_def Let_def res_simps
          split: option.splits)
  qed
  show ?thesis
    using assms run
    by (fastforce simp: running_step_def next_request_def Let_def split: if_splits)
qed

text \<open>The loop over the running requests.\<close>

function running_loop ::
  "sched_config \<Rightarrow> sched_env \<Rightarrow> rat \<Rightarrow> scheduler \<times> sched_local \<Rightarrow> (scheduler \<times> sched_local) res" where
  "running_loop cfg env ts st =
     (if length (running_scheduled (fst st)) \<le> req_index (snd st) \<or> token_budget (snd st) \<le> 0
      then Inr st
      else ebind (running_step cfg env ts st) (\<lambda>(go_on, st').
        if go_on then running_loop cfg env ts st' else Inr st'))"
  by pat_completeness auto

termination
proof (relation "measure (\<lambda>(cfg, env, ts, st).
    length (running_scheduled (fst st)) - req_index (snd st))")
  fix cfg env ts and st :: "scheduler \<times> sched_local" and x go_on st'
  assume "\<not> (length (running_scheduled (fst st)) \<le> req_index (snd st) \<or> token_budget (snd st) \<le> 0)"
    "running_step cfg env ts st = Inr x" "(go_on, st') = x" go_on
  then show "((cfg, env, ts, st'), cfg, env, ts, st) \<in> measure (\<lambda>(cfg, env, ts, st).
      length (running_scheduled (fst st)) - req_index (snd st))"
    using running_step_measure [of cfg env ts "fst st" "snd st" "fst st'" "snd st'"] by auto
qed simp

declare running_loop.simps [simp del]

text \<open>
  A request that waits for its grammar becomes an ordinary waiting one when the grammar is
  there; otherwise it is skipped.
\<close>

definition poll_grammar :: "oid \<Rightarrow> scheduler \<Rightarrow> bool \<times> scheduler" where
  "poll_grammar x s =
     (let r = heap s x in
      if status r \<noteq> WAITING_FOR_FSM then (True, s)
      else (case structured_output_request r of
              None \<Rightarrow> (False, s)
            | Some g \<Rightarrow>
                (case grammar_get g of
                   (compiled, g') \<Rightarrow>
                     (let s' = upd x (\<lambda>r. r\<lparr>structured_output_request := Some g'\<rparr>) s in
                      if compiled = None then (False, s')
                      else (True, upd x (\<lambda>r. r\<lparr>status := WAITING\<rparr>) s')))))"

text \<open>A waiting request that got its blocks moves to the running list.\<close>

definition commit_waiting ::
  "sched_config \<Rightarrow> rat \<Rightarrow> oid \<Rightarrow> int \<Rightarrow> int \<Rightarrow> nat list \<Rightarrow> scheduler \<times> sched_local \<Rightarrow>
   (scheduler \<times> sched_local) res" where
  "commit_waiting cfg ts x n num_computed blocks st =
     (case st of (s, l) \<Rightarrow>
        let r = heap s x; i = request_id r;
            s1 = upd x (\<lambda>r. r\<lparr>num_scheduled := num_scheduled r + 1\<rparr>)
                   (s\<lparr>waiting := tl (waiting s), running_scheduled := running_scheduled s @ [x],
                      scheduled_req_ids := insert i (scheduled_req_ids s)\<rparr>);
            s2 = (if log_stats cfg then upd x (record_event SCHEDULED ts) s1 else s1);
            s3 = upd x (\<lambda>r. r\<lparr>status := RUNNING, num_computed_tokens := num_computed\<rparr>) s2;
            l1 = l\<lparr>structured_ids :=
                     (if use_structured_output r
                      then AList.update i (int (req_index l)) (structured_ids l)
                      else structured_ids l),
                   req_index := req_index l + 1,
                   new_block_ids := (new_block_ids l)(i \<mapsto> blocks),
                   scheduled_tokens := AList.update i n (scheduled_tokens l),
                   token_budget := token_budget l - n\<rparr>
        in if status r = WAITING then Inr (s3, l1\<lparr>new_reqs := new_reqs l1 @ [x]\<rparr>)
           else if status r = PREEMPTED then Inr (s3, l1\<lparr>resumed_reqs := resumed_reqs l1 @ [x]\<rparr>)
           else Inl RuntimeError)"

definition admit_waiting ::
  "sched_config \<Rightarrow> sched_env \<Rightarrow> rat \<Rightarrow> oid \<Rightarrow> scheduler \<times> sched_local \<Rightarrow>
   (bool \<times> scheduler \<times> sched_local) res" where
  "admit_waiting cfg env ts x st =
     (case st of (s, l) \<Rightarrow>
        let r = heap s x in
        ebind (get_computed_blocks (env_hash env) (env_none_hash env) r (kv_cache_manager s))
          (\<lambda>((computed, num_computed), m).
        (let n = cap_tokens cfg (token_budget l) (num_tokens r - num_computed) in
         ebind (py_assert (0 < n)) (\<lambda>_.
         ebind (allocate_slots (env_hash env) (env_none_hash env) r n computed 0 m) (\<lambda>(new, m').
         (let s' = s\<lparr>kv_cache_manager := m'\<rparr> in
          case new of
            None \<Rightarrow> Inr (False, s', l)
          | Some blocks \<Rightarrow>
              ebind (commit_waiting cfg ts x n num_computed (computed @ blocks) (s', l)) (\<lambda>st'.
              Inr (True, st'))))))))"

definition estimate_waiting ::
  "sched_config \<Rightarrow> sched_env \<Rightarrow> oid \<Rightarrow> scheduler \<times> sched_local \<Rightarrow> (scheduler \<times> sched_local) res"
where
  "estimate_waiting cfg env x st =
     (case st of (s, l) \<Rightarrow>
        if should_estimate (estimate l) then
          ebind (iter_list cfg) (\<lambda>its.
          ebind (admit_estimate cfg (env_fl env) (heap s x) its 0 (estimate l)
                   (fst (estimate_caches s))) (\<lambda>(est, eg).
          Inr (s\<lparr>estimate_caches := (eg, snd (estimate_caches s))\<rparr>, l\<lparr>estimate := est\<rparr>)))
        else Inr st)"

definition waiting_step ::
  "sched_config \<Rightarrow> sched_env \<Rightarrow> rat \<Rightarrow> scheduler \<times> sched_local \<Rightarrow>
   (bool \<times> scheduler \<times> sched_local) res" where
  "waiting_step cfg env ts st =
     (if py_len (running_scheduled (fst st)) = max_num_running_reqs cfg then Inr (False, st)
      else
        (let x = hd (waiting (fst st)) in
         ebind (estimate_waiting cfg env x st) (\<lambda>(s1, l1).
         if should_estimate (estimate l1) \<and> delay_prefill (estimate l1) then Inr (False, s1, l1)
         else (case poll_grammar x s1 of
                 (ready, s2) \<Rightarrow>
                   (if ready then admit_waiting cfg env ts x (s2, l1)
                    else Inr (True, s2\<lparr>waiting := tl (waiting s2)\<rparr>,
                              l1\<lparr>skipped_reqs := x # skipped_reqs l1\<rparr>))))))"

lemma poll_grammar_frame:
  assumes "poll_grammar x s = (ready, s')"
  shows "waiting s' = waiting s" "running_scheduled s' = running_scheduled s"
    "to_be_preempted s' = to_be_preempted s" "requests s' = requests s"
    "kv_cache_manager s' = kv_cache_manager s"
    "encoder_cache_manager s' = encoder_cache_manager s"
    "cached_reqs_data s' = cached_reqs_data s" "finished_req_ids s' = finished_req_ids s"
    "scheduled_req_ids s' = scheduled_req_ids s" "estimate_caches s' = estimate_caches s"
  using assms by (auto simp: poll_grammar_def Let_def split: if_splits option.splits prod.splits)

lemma admit_waiting_waiting:
  assumes "admit_waiting cfg env ts x (s, l) = Inr (True, s', l')"
  shows "waiting s' = tl (waiting s)"
proof -
  have commit: "waiting t' = tl (waiting t)"
    if "commit_waiting cfg ts x n nc bs (t, k) = Inr (t', k')" for n nc bs t k t' k'
    using that by (simp add: commit_waiting_def Let_def split: if_splits) (auto)
  from assms show ?thesis
    unfolding admit_waiting_def Let_def prod.case
    by (elim ebind_InrE) (auto split: option.splits prod.splits elim!: ebind_InrE dest!: commit)
qed

lemma waiting_step_measure:
  assumes "waiting_step cfg env ts (s, l) = Inr (True, s', l')"
  shows "waiting s' = tl (waiting s)"
proof -
  obtain s1 l1 where e: "estimate_waiting cfg env (hd (waiting s)) (s, l) = Inr (s1, l1)"
    using assms by (auto simp: waiting_step_def Let_def res_simps split: if_splits)
  then have w: "waiting s1 = waiting s"
    by (auto simp: estimate_waiting_def res_simps split: if_splits)
  obtain ready s2 where p: "poll_grammar (hd (waiting s)) s1 = (ready, s2)" by fastforce
  have "(if ready then admit_waiting cfg env ts (hd (waiting s)) (s2, l1)
      else Inr (True, s2\<lparr>waiting := tl (waiting s2)\<rparr>,
             l1\<lparr>skipped_reqs := hd (waiting s) # skipped_reqs l1\<rparr>)) = Inr (True, s', l')"
    using assms e p by (simp add: waiting_step_def Let_def split: if_splits)
  then have "waiting s' = tl (waiting s2)"
    using admit_waiting_waiting by (cases ready) auto
  with w poll_grammar_frame(1) [OF p] show ?thesis by simp
qed

function waiting_loop ::
  "sched_config \<Rightarrow> sched_env \<Rightarrow> rat \<Rightarrow> scheduler \<times> sched_local \<Rightarrow> (scheduler \<times> sched_local) res" where
  "waiting_loop cfg env ts st =
     (if waiting (fst st) = [] \<or> token_budget (snd st) \<le> 0 then Inr st
      else ebind (waiting_step cfg env ts st) (\<lambda>(go_on, st').
        if go_on then waiting_loop cfg env ts st' else Inr st'))"
  by pat_completeness auto

termination
proof (relation "measure (\<lambda>(cfg, env, ts, st). length (waiting (fst st)))")
  fix cfg env ts and st :: "scheduler \<times> sched_local" and x go_on st'
  assume "\<not> (waiting (fst st) = [] \<or> token_budget (snd st) \<le> 0)"
    "waiting_step cfg env ts st = Inr x" "(go_on, st') = x" go_on
  then show "((cfg, env, ts, st'), cfg, env, ts, st) \<in>
      measure (\<lambda>(cfg, env, ts, st). length (waiting (fst st)))"
    using waiting_step_measure [of cfg env ts "fst st" "snd st" "fst st'" "snd st'"] by auto
qed simp

declare waiting_loop.simps [simp del]

text \<open>\<open>self.waiting.extendleft(skipped_waiting_requests)\<close> pushes one after the other.\<close>

definition put_back_skipped :: "scheduler \<times> sched_local \<Rightarrow> scheduler" where
  "put_back_skipped st = (fst st)\<lparr>waiting := fold (#) (skipped_reqs (snd st)) (waiting (fst st))\<rparr>"

section \<open>The output of \<open>schedule\<close>\<close>

text \<open>
  Which correction a step carries to the worker: the tokens to send, the verdict on the last
  speculation and the position of the corrected token. A correction recorded at preemption is
  sent once and forgotten.
\<close>

definition resolve_correction ::
  "request \<Rightarrow> int list \<Rightarrow> bool \<Rightarrow> (int list \<times> bool \<times> int \<times> request) res" where
  "resolve_correction r tokens is_cached =
     (if postpreempt_spec_result r = Some False then
        (case postpreempt_fixed_idx r of
           None \<Rightarrow> Inl TypeError
         | Some i \<Rightarrow>
             ebind (py_get (output_token_ids r) i) (\<lambda>t.
             Inr ([t], False, i,
                  r\<lparr>postpreempt_spec_result := None, postpreempt_fixed_idx := None\<rparr>)))
      else if spec_result r = Some False \<and> (just_fixed r = Some True \<or> \<not> is_cached) then
        (case fixed_idx r of
           None \<Rightarrow> Inl TypeError
         | Some i \<Rightarrow> ebind (py_get (output_token_ids r) i) (\<lambda>t. Inr ([t], False, i, r)))
      else Inr (tokens, True, - 1, r))"

definition make_cached_request_data ::
  "oid \<Rightarrow> int \<Rightarrow> int \<Rightarrow> nat list \<Rightarrow> bool \<Rightarrow> scheduler \<Rightarrow> (cached_request_data \<times> scheduler) res" where
  "make_cached_request_data x num_sched num_spec blocks resumed s =
     (let r = heap s x; i = request_id r; nc = num_computed_tokens r;
          tokens = py_slice (all_token_ids r) nc (nc + (num_sched - num_spec));
          old = cached_reqs_data s i
      in ebind (resolve_correction r tokens (old \<noteq> None)) (\<lambda>(tokens', result, idx, r').
         (let d0 = (case old of
                      Some d \<Rightarrow> d\<lparr>resumed_from_preemption := resumed, cr_new_token_ids := tokens',
                                  cr_new_block_ids := blocks, cr_num_computed_tokens := nc\<rparr>
                    | None \<Rightarrow> cached_request_data_from r' resumed tokens' blocks);
              d = d0\<lparr>cr_spec_result := result, cr_fixed_idx := idx\<rparr>
          in Inr (d, (upd x (\<lambda>_. r') s)
                       \<lparr>cached_reqs_data := (cached_reqs_data s)(i \<mapsto> d)\<rparr>))))"

text \<open>\<open>d[k]\<close> on a dictionary.\<close>

definition dict_get :: "('k \<times> 'v) list \<Rightarrow> 'k \<Rightarrow> 'v res" where
  "dict_get d k = (case map_of d k of None \<Rightarrow> Inl KeyError | Some v \<Rightarrow> Inr v)"

definition map_get :: "('k \<Rightarrow> 'v option) \<Rightarrow> 'k \<Rightarrow> 'v res" where
  "map_get m k = (case m k of None \<Rightarrow> Inl KeyError | Some v \<Rightarrow> Inr v)"

fun make_cached_list ::
  "sched_local \<Rightarrow> bool \<Rightarrow> oid list \<Rightarrow> scheduler \<Rightarrow> (cached_request_data list \<times> scheduler) res" where
  "make_cached_list l resumed [] s = Inr ([], s)"
| "make_cached_list l resumed (x # xs) s =
     ebind (dict_get (scheduled_tokens l) (req_id_of s x)) (\<lambda>n.
     ebind (map_get (new_block_ids l) (req_id_of s x)) (\<lambda>blocks.
     ebind (make_cached_request_data x n 0 blocks resumed s) (\<lambda>(d, s').
     ebind (make_cached_list l resumed xs s') (\<lambda>(ds, s''). Inr (d # ds, s'')))))"

definition make_new_list :: "sched_local \<Rightarrow> scheduler \<Rightarrow> new_request_data list res" where
  "make_new_list l s =
     emap (\<lambda>x. ebind (map_get (new_block_ids l) (req_id_of s x)) (\<lambda>blocks.
             Inr (new_request_data_from (heap s x) blocks))) (new_reqs l)"

definition advance_computed :: "string \<times> int \<Rightarrow> scheduler \<Rightarrow> scheduler res" where
  "advance_computed e s =
     ebind (map_get (requests s) (fst e)) (\<lambda>x.
     Inr (upd x (\<lambda>r. r\<lparr>num_computed_tokens := num_computed_tokens r + snd e\<rparr>) s))"

definition total_scheduled :: "sched_local \<Rightarrow> int" where
  "total_scheduled l = sum_list (map snd (scheduled_tokens l))"

definition check_constraints :: "sched_config \<Rightarrow> scheduler \<Rightarrow> sched_local \<Rightarrow> unit res" where
  "check_constraints cfg s l =
     ebind (py_assert (total_scheduled l \<le> max_num_scheduled_tokens cfg)) (\<lambda>_.
     ebind (py_assert (0 \<le> token_budget l)) (\<lambda>_.
     ebind (py_assert (py_len (running_scheduled s) \<le> max_num_running_reqs cfg)) (\<lambda>_.
     py_assert (py_len (new_reqs l) + py_len (resumed_reqs l) + py_len (flushed_reqs l)
                  + py_len (sp_reqs l) \<le> py_len (running_scheduled s)))))"

record schedule_result =
  sr_output :: scheduler_output
  sr_resume_helper :: "(string \<times> int list) list"
  sr_max_dropped :: rat

text \<open>
  From the assertions on. The structured-output manager returns a bitmask exactly when some
  scheduled request uses structured output, which this scheduler does not implement.
\<close>

definition finish_schedule ::
  "sched_config \<Rightarrow> rat \<Rightarrow> scheduler \<times> sched_local \<Rightarrow> (schedule_result \<times> scheduler) res" where
  "finish_schedule cfg dropped st =
     (case st of (s, l) \<Rightarrow>
        ebind (check_constraints cfg s l) (\<lambda>_.
        ebind (raise_if (structured_ids l \<noteq> []) NotImplementedError) (\<lambda>_.
        ebind (make_new_list l s) (\<lambda>news.
        ebind (make_cached_list l True (resumed_reqs l) s) (\<lambda>(resumed, s1).
        ebind (make_cached_list l False (flushed_reqs l) s1) (\<lambda>(flushed, s2).
        ebind (make_cached_list l False (sp_reqs l) s2) (\<lambda>(sp, s3).
        (case get_freed_ids (encoder_cache_manager s3) of
           (freed, enc) \<Rightarrow>
             (let out = \<lparr>so_new_reqs = news, so_cached_reqs = resumed @ flushed @ sp,
                so_num_scheduled_tokens = scheduled_tokens l,
                so_total_num_scheduled_tokens = total_scheduled l,
                so_spec_decode_tokens = [], so_encoder_inputs = [],
                so_num_common_prefix_blocks = 0,
                so_finished_req_ids = finished_req_ids s3,
                so_free_encoder_input_ids = freed,
                so_structured_output_request_ids = structured_ids l, so_embeddings = None\<rparr>
              in ebind (efold advance_computed (scheduled_tokens l)
                          (s3\<lparr>encoder_cache_manager := enc\<rparr>)) (\<lambda>s4.
                 Inr (\<lparr>sr_output = out,
                       sr_resume_helper = resume_helper (map (heap s3) (resumed_reqs l)),
                       sr_max_dropped = dropped\<rparr>,
                      s4\<lparr>finished_req_ids := {}\<rparr>)))))))))))"

section \<open>\<open>schedule\<close>\<close>

definition schedule_waiting ::
  "sched_config \<Rightarrow> sched_env \<Rightarrow> rat \<Rightarrow> scheduler \<times> sched_local \<Rightarrow> (scheduler \<times> sched_local) res"
where
  "schedule_waiting cfg env ts st =
     (case st of (s, l) \<Rightarrow>
        ebind (if enable_la_sched2 cfg
               then estimate_lookahead_memory cfg env (token_budget l) (preempted_reqs l \<noteq> []) s
               else Inr (no_estimate, s)) (\<lambda>(est, s1).
        (let l1 = l\<lparr>estimate := est\<rparr> in
         ebind (if preempted_reqs l = [] \<and> \<not> delay_prefill est
                then waiting_loop cfg env ts (s1, l1) else Inr (s1, l1)) (\<lambda>st'.
         Inr (put_back_skipped st', snd st')))))"

text \<open>\<open>ts\<close> is the time at which \<open>schedule\<close> is called; the measured durations are left out.\<close>

definition schedule ::
  "sched_config \<Rightarrow> sched_env \<Rightarrow> rat \<Rightarrow> scheduler \<Rightarrow> (schedule_result \<times> scheduler) res" where
  "schedule cfg env ts s =
     (case drain_preempted s of
        (preempted, s1) \<Rightarrow>
          ebind (if enable_la_sched1 cfg then apply_confidence_drop cfg env s1 else Inr (0, s1))
            (\<lambda>(dropped, s2).
          ebind (running_loop cfg env ts (s2, init_local cfg preempted)) (\<lambda>st.
          ebind (schedule_waiting cfg env ts st) (\<lambda>st'.
          finish_schedule cfg dropped st'))))"

section \<open>The two updates of an iteration\<close>

text \<open>\<open>make_stats\<close>; asking for the statistics of the prefix cache resets them.\<close>

definition make_stats ::
  "sched_config \<Rightarrow> sched_env \<Rightarrow> scheduler \<Rightarrow> scheduler_stats option \<times> scheduler" where
  "make_stats cfg env s =
     (if \<not> log_stats cfg then (None, s)
      else (case make_prefix_cache_stats (kv_cache_manager s) of
              (prefix, m) \<Rightarrow>
                (Some \<lparr>num_running_reqs = py_len (running_scheduled s),
                       num_waiting_reqs = py_len (waiting s),
                       gpu_cache_usage = usage (env_fl env) (kv_cache_manager s),
                       prefix_stats = prefix, decoding_stats = None\<rparr>,
                 s\<lparr>kv_cache_manager := m\<rparr>)))"

definition finish_outputs ::
  "sched_config \<Rightarrow> sched_env \<Rightarrow> scheduler_output \<Rightarrow> engine_core_output list \<Rightarrow> scheduler \<Rightarrow>
   engine_core_outputs \<times> scheduler" where
  "finish_outputs cfg env so outs s =
     (case make_stats cfg env s of
        (stats, s') \<Rightarrow>
          (\<lparr>eos_outputs = outs, eos_stats = stats,
            eos_finished = (if include_finished_set cfg
                            then Some (so_finished_req_ids so \<union> finished_req_ids s')
                            else None)\<rparr>, s'))"

text \<open>The output of one request; collecting its events empties them.\<close>

definition make_output ::
  "int list \<Rightarrow> (int \<times> int) option \<Rightarrow> int option \<Rightarrow> request \<Rightarrow> engine_core_output \<times> request" where
  "make_output tokens logprobs prompt_lps r =
     (case take_events r of
        (evs, r') \<Rightarrow>
          (\<lparr>eo_request_id = request_id r, eo_new_token_ids = tokens, eo_new_logprobs = logprobs,
            eo_prompt_logprobs = prompt_lps, eo_finish_reason = get_finished_reason r,
            eo_stop_reason = stop_reason r, eo_events = evs\<rparr>, r'))"

definition emit_output ::
  "int list \<Rightarrow> (int \<times> int) option \<Rightarrow> runner_output \<Rightarrow> request \<Rightarrow>
   (engine_core_output list \<times> request) res" where
  "emit_output tokens logprobs ro r =
     ebind (if tokens \<noteq> [] \<and> use_structured_output r then accept_tokens tokens r else Inr r)
       (\<lambda>r1.
     (let prompt_lps = prompt_logprobs_dict ro (request_id r) in
      if tokens \<noteq> [] then
        (case make_output tokens logprobs prompt_lps r1 of (out, r2) \<Rightarrow> Inr ([out], r2))
      else ebind (py_assert (prompt_lps = None)) (\<lambda>_. Inr ([], r1))))"

definition tokens_scheduled :: "scheduler_output \<Rightarrow> string \<Rightarrow> int" where
  "tokens_scheduled so i = (case map_of (so_num_scheduled_tokens so) i of None \<Rightarrow> 0 | Some n \<Rightarrow> n)"

text \<open>One request in \<open>update_from_spec_output\<close>.\<close>

definition spec_update_step ::
  "sched_config \<Rightarrow> scheduler_output \<Rightarrow> runner_output \<Rightarrow> oid \<Rightarrow>
   engine_core_output list \<times> scheduler \<Rightarrow> (engine_core_output list \<times> scheduler) res" where
  "spec_update_step cfg so ro x st =
     (case st of (outs, s) \<Rightarrow>
        let r = heap s x; i = request_id r in
        if tokens_scheduled so i = 0 then Inr st
        else
          ebind (map_get (req_id_to_index ro) i) (\<lambda>k.
          ebind (py_get (sampled_token_ids ro) k) (\<lambda>tokens.
          ebind (py_get (ro_spec_confidence ro) k) (\<lambda>confs.
          ebind (case length_probs ro of
                   None \<Rightarrow> Inr None | Some ps \<Rightarrow> ebind (py_get ps k) (\<lambda>p. Inr (Some p))) (\<lambda>lp.
          ebind (spec_append_loop (max_model_len cfg) 0 tokens confs lp r) (\<lambda>r1.
          ebind (emit_output tokens None ro r1) (\<lambda>(out, r2).
          Inr (outs @ out, upd x (\<lambda>_. r2) s))))))))"

definition update_from_spec_output ::
  "sched_config \<Rightarrow> sched_env \<Rightarrow> scheduler_output \<Rightarrow> runner_output \<Rightarrow> scheduler \<Rightarrow>
   (engine_core_outputs \<times> scheduler) res" where
  "update_from_spec_output cfg env so ro s =
     ebind (efold (spec_update_step cfg so ro) (running_scheduled s) ([], s)) (\<lambda>(outs, s').
     Inr (finish_outputs cfg env so outs s'))"

text \<open>\<open>_free_request\<close>.\<close>

definition free_request :: "sched_env \<Rightarrow> oid \<Rightarrow> scheduler \<Rightarrow> scheduler res" where
  "free_request env x s =
     (let r = heap s x; i = request_id r in
      ebind (py_assert (is_finished r)) (\<lambda>_.
      ebind (free r (kv_cache_manager s)) (\<lambda>m.
      ebind (ec_free (env_enum env) r (encoder_cache_manager s)) (\<lambda>enc.
      ebind (map_get (requests s) i) (\<lambda>_.
      Inr (s\<lparr>kv_cache_manager := free_block_hashes r m, encoder_cache_manager := enc,
             cached_reqs_data := (cached_reqs_data s)(i := None),
             requests := (requests s)(i := None),
             finished_req_ids := insert i (finished_req_ids s)\<rparr>))))))"

text \<open>What \<open>_verify_and_collect\<close> accumulates: outputs, finished ids, the counts of the codes.\<close>

record verify_acc =
  va_outputs :: "engine_core_output list"
  va_finished :: "string list"
  va_counts :: "int list"

definition count_code :: "int \<Rightarrow> int list \<Rightarrow> int list" where
  "count_code c counts = counts[nat c := counts ! nat c + 1]"

definition verify_step ::
  "sched_config \<Rightarrow> sched_env \<Rightarrow> (string \<Rightarrow> int) \<Rightarrow> runner_output \<Rightarrow> oid \<Rightarrow>
   verify_acc \<times> scheduler \<Rightarrow> (verify_acc \<times> scheduler) res" where
  "verify_step cfg env scheduled ro x st =
     (case st of (acc, s) \<Rightarrow>
        let r = heap s x; i = request_id r in
        if scheduled i = 0 then Inr st
        else
          ebind (map_get (req_id_to_index ro) i) (\<lambda>k.
          ebind (py_get (sampled_token_ids ro) k) (\<lambda>tokens.
          (let send_to_user = (spec_result r \<noteq> Some False) in
           ebind (verify_loop (max_model_len cfg) tokens
                    (r\<lparr>num_scheduled := num_scheduled r - 1\<rparr>)) (\<lambda>(kept, codes, stopped, r1).
           (let s1 = upd x (\<lambda>_. r1) s;
                acc1 = acc\<lparr>va_counts := fold count_code codes (va_counts acc)\<rparr>
            in ebind (if stopped then free_request env x s1 else Inr s1) (\<lambda>s2.
               (let acc2 = (if stopped
                            then acc1\<lparr>va_finished := va_finished acc1 @ [i]\<rparr> else acc1)
                in if \<not> send_to_user then Inr (acc2, s2)
                   else
                     ebind (emit_output kept
                              (if logprobs_param (params r1) \<noteq> None \<and> ro_logprobs ro
                               then Some (k, k + 1) else None) ro (heap s2 x)) (\<lambda>(out, r2).
                     Inr (acc2\<lparr>va_outputs := va_outputs acc2 @ out\<rparr>, upd x (\<lambda>_. r2) s2))))))))))"

definition verify_and_collect ::
  "sched_config \<Rightarrow> sched_env \<Rightarrow> (string \<Rightarrow> int) \<Rightarrow> runner_output \<Rightarrow> oid list \<Rightarrow>
   verify_acc \<times> scheduler \<Rightarrow> (verify_acc \<times> scheduler) res" where
  "verify_and_collect cfg env scheduled ro xs st = efold (verify_step cfg env scheduled ro) xs st"

text \<open>\<open>del\<close> of the first request with the id.\<close>

fun remove_first_id :: "(oid \<Rightarrow> string) \<Rightarrow> string \<Rightarrow> oid list \<Rightarrow> oid list" where
  "remove_first_id ids i [] = []"
| "remove_first_id ids i (x # xs) = (if ids x = i then xs else x # remove_first_id ids i xs)"

definition forget_finished :: "string \<Rightarrow> scheduler \<Rightarrow> scheduler" where
  "forget_finished i s =
     s\<lparr>scheduled_req_ids := scheduled_req_ids s - {i},
       running_scheduled := remove_first_id (req_id_of s) i (running_scheduled s),
       to_be_preempted := remove_first_id (req_id_of s) i (to_be_preempted s)\<rparr>"

definition update_from_true_output ::
  "sched_config \<Rightarrow> sched_env \<Rightarrow> scheduler_output \<Rightarrow> runner_output \<Rightarrow> scheduler \<Rightarrow>
   (engine_core_outputs \<times> int list \<times> scheduler) res" where
  "update_from_true_output cfg env so ro s =
     ebind (verify_and_collect cfg env (tokens_scheduled so) ro (running_scheduled s)
              (\<lparr>va_outputs = [], va_finished = [], va_counts = [0, 0, 0, 0, 0]\<rparr>, s)) (\<lambda>st.
     ebind (verify_and_collect cfg env (tokens_scheduled so) ro (to_be_preempted (snd st)) st)
       (\<lambda>(acc, s2).
     (case finish_outputs cfg env so (va_outputs acc)
             (fold forget_finished (va_finished acc) s2) of
        (outs, s3) \<Rightarrow> Inr (outs, va_counts acc, s3))))"

section \<open>Requests from outside, and counters\<close>

definition add_request :: "sched_config \<Rightarrow> rat \<Rightarrow> oid \<Rightarrow> scheduler \<Rightarrow> scheduler res" where
  "add_request cfg ts x s =
     ebind (raise_if (temperature (params (heap s x)) \<noteq> 0) NotImplementedError) (\<lambda>_.
     (let s1 = s\<lparr>waiting := waiting s @ [x], requests := (requests s)(req_id_of s x \<mapsto> x)\<rparr>
      in Inr (if log_stats cfg then upd x (record_event QUEUED ts) s1 else s1)))"

definition finish_request ::
  "sched_env \<Rightarrow> request_status \<Rightarrow> string \<Rightarrow> scheduler \<Rightarrow> scheduler res" where
  "finish_request env st i s =
     (case requests s i of
        None \<Rightarrow> Inr s
      | Some x \<Rightarrow>
          ebind (if status (heap s x) = RUNNING
                 then Inr (s\<lparr>scheduled_req_ids := scheduled_req_ids s - {req_id_of s x}\<rparr>)
                 else if x \<in> set (waiting s) then Inr (s\<lparr>waiting := remove1 x (waiting s)\<rparr>)
                 else Inl ValueError) (\<lambda>s1.
          free_request env x (upd x (\<lambda>r. r\<lparr>status := st\<rparr>) s1)))"

text \<open>\<open>ids\<close> is the order in which the set of the given ids is iterated.\<close>

definition finish_requests ::
  "sched_env \<Rightarrow> string list \<Rightarrow> request_status \<Rightarrow> scheduler \<Rightarrow> scheduler res" where
  "finish_requests env ids st s =
     ebind (py_assert (status_is_finished st)) (\<lambda>_. efold (finish_request env st) ids s)"

definition get_num_unfinished_requests :: "scheduler \<Rightarrow> int" where
  "get_num_unfinished_requests s =
     py_len (waiting s) + py_len (running_scheduled s) + py_len (to_be_preempted s)"

definition has_finished_requests :: "scheduler \<Rightarrow> bool" where
  "has_finished_requests s \<longleftrightarrow> finished_req_ids s \<noteq> {}"

definition get_num_unscheduled_requests :: "scheduler \<Rightarrow> int" where
  "get_num_unscheduled_requests s =
     get_num_unfinished_requests s - int (card (scheduled_req_ids s))"

definition sched_reset_prefix_cache :: "scheduler \<Rightarrow> bool \<times> scheduler" where
  "sched_reset_prefix_cache s =
     (case reset_prefix_cache (kv_cache_manager s) of (ok, m) \<Rightarrow> (ok, s\<lparr>kv_cache_manager := m\<rparr>))"

end
