(* ===== verification/SchedInv.thy ===== *)
theory SchedInv
  imports SpexisSched "HOL-Library.Multiset"
begin

text \<open>
  The invariant of \<open>SpexisScheduler\<close> and the effect of its building blocks on it: the three
  queues hold different requests, each registered under its id and in a status that fits its
  queue, only running requests own KV blocks, and the running list stays within its limit.
\<close>

section \<open>The invariant\<close>

definition tracked :: "scheduler \<Rightarrow> oid list" where
  "tracked s = waiting s @ running_scheduled s @ to_be_preempted s"

definition wait_ok :: "request \<Rightarrow> bool" where
  "wait_ok r \<longleftrightarrow> status r \<in> {WAITING, WAITING_FOR_FSM, PREEMPTED} \<and>
     num_computed_tokens r = 0 \<and> \<not> should_preempt r"

definition run_ok :: "request \<Rightarrow> bool" where
  "run_ok r \<longleftrightarrow> status r = RUNNING \<and> \<not> should_preempt r"

definition drain_ok :: "request \<Rightarrow> bool" where
  "drain_ok r \<longleftrightarrow> status r = PREEMPTED"

text \<open>
  \<open>F\<close> are the ids of requests that have finished but are still listed, as between the loops of
  \<open>update_from_true_output\<close>; between the operations of the scheduler it is empty.
\<close>

definition queues_ok :: "string set \<Rightarrow> scheduler \<Rightarrow> bool" where
  "queues_ok F s \<longleftrightarrow>
     distinct (map (req_id_of s) (tracked s)) \<and>
     (\<forall>x \<in> set (tracked s). req_id_of s x \<notin> F \<longrightarrow> requests s (req_id_of s x) = Some x) \<and>
     (\<forall>i x. requests s i = Some x \<longrightarrow> i \<notin> F \<and> x \<in> set (tracked s) \<and> req_id_of s x = i) \<and>
     (\<forall>x \<in> set (waiting s). req_id_of s x \<notin> F \<and> wait_ok (heap s x)) \<and>
     (\<forall>x \<in> set (running_scheduled s). req_id_of s x \<notin> F \<longrightarrow> run_ok (heap s x)) \<and>
     (\<forall>x \<in> set (to_be_preempted s). req_id_of s x \<notin> F \<longrightarrow> drain_ok (heap s x))"

definition resources_ok :: "sched_config \<Rightarrow> string set \<Rightarrow> scheduler \<Rightarrow> bool" where
  "resources_ok cfg F s \<longleftrightarrow>
     sp_ok (kv_cache_manager s) \<and>
     max_num_blocks_per_req (kv_cache_manager s) =
       cdiv (max_model_len cfg) (int (block_size (kv_cache_manager s))) \<and>
     (\<forall>i. req_to_blocks (kv_cache_manager s) i \<noteq> [] \<longrightarrow>
        i \<notin> F \<and> i \<in> req_id_of s ` set (running_scheduled s)) \<and>
     (\<forall>i. ec_cached (encoder_cache_manager s) i = None) \<and>
     py_len (running_scheduled s) \<le> max_num_running_reqs cfg"

definition sched_inv :: "sched_config \<Rightarrow> string set \<Rightarrow> scheduler \<Rightarrow> bool" where
  "sched_inv cfg F s \<longleftrightarrow> queues_ok F s \<and> resources_ok cfg F s"

abbreviation sched_ok :: "sched_config \<Rightarrow> scheduler \<Rightarrow> bool" where
  "sched_ok cfg s \<equiv> sched_inv cfg {} s"

lemma tracked_upd [simp]: "tracked (upd x f s) = tracked s"
  by (simp add: tracked_def)

lemma req_id_of_upd:
  "request_id (f (heap s x)) = req_id_of s x \<Longrightarrow> req_id_of (upd x f s) y = req_id_of s y"
  by simp

text \<open>A request may change in place as long as it keeps its id and fits its queue.\<close>

lemma sched_inv_upd:
  assumes "sched_inv cfg F s" "request_id (f (heap s x)) = req_id_of s x"
    and "x \<in> set (waiting s) \<Longrightarrow> wait_ok (f (heap s x))"
    and "x \<in> set (running_scheduled s) \<Longrightarrow> req_id_of s x \<notin> F \<Longrightarrow> run_ok (f (heap s x))"
    and "x \<in> set (to_be_preempted s) \<Longrightarrow> req_id_of s x \<notin> F \<Longrightarrow> drain_ok (f (heap s x))"
  shows "sched_inv cfg F (upd x f s)"
proof -
  have id: "req_id_of (upd x f s) y = req_id_of s y" for y
    using assms(2) by simp
  have old: "queues_ok F s" "resources_ok cfg F s"
    using assms(1) by (simp_all add: sched_inv_def)
  have wait: "\<forall>y \<in> set (waiting s). req_id_of s y \<notin> F \<and> wait_ok (heap (upd x f s) y)"
    using old(1) assms(3) by (simp add: queues_ok_def)
  have run: "\<forall>y \<in> set (running_scheduled s). req_id_of s y \<notin> F \<longrightarrow> run_ok (heap (upd x f s) y)"
    using old(1) assms(4) by (simp add: queues_ok_def)
  have drain: "\<forall>y \<in> set (to_be_preempted s). req_id_of s y \<notin> F \<longrightarrow> drain_ok (heap (upd x f s) y)"
    using old(1) assms(5) by (simp add: queues_ok_def)
  have "queues_ok F (upd x f s)"
    using old(1) wait run drain
    by (simp only: queues_ok_def id tracked_upd upd_simps(2-5)) simp
  moreover have "resources_ok cfg F (upd x f s)"
    using old(2) by (simp only: resources_ok_def id upd_simps(2-11)) simp
  ultimately show ?thesis by (simp add: sched_inv_def)
qed

text \<open>Bookkeeping fields do not matter.\<close>

lemma sched_inv_frame:
  assumes "sched_inv cfg F s"
    and "heap s' = heap s" "requests s' = requests s" "waiting s' = waiting s"
      "running_scheduled s' = running_scheduled s" "to_be_preempted s' = to_be_preempted s"
      "kv_cache_manager s' = kv_cache_manager s"
      "ec_cached (encoder_cache_manager s') = ec_cached (encoder_cache_manager s)"
  shows "sched_inv cfg F s'"
  using assms by (simp add: sched_inv_def queues_ok_def resources_ok_def tracked_def)

lemma sched_inv_kv:
  assumes "sched_inv cfg F s" "sp_ok m"
    "max_num_blocks_per_req m = max_num_blocks_per_req (kv_cache_manager s)"
    "block_size m = block_size (kv_cache_manager s)"
    "\<And>i. req_to_blocks m i \<noteq> [] \<Longrightarrow> i \<notin> F \<and> i \<in> req_id_of s ` set (running_scheduled s)"
  shows "sched_inv cfg F (s\<lparr>kv_cache_manager := m\<rparr>)"
  using assms by (simp add: sched_inv_def queues_ok_def resources_ok_def tracked_def)

lemma sched_inv_dest:
  assumes "sched_inv cfg F s"
  shows "sp_ok (kv_cache_manager s)"
    "x \<in> set (running_scheduled s) \<Longrightarrow> req_id_of s x \<notin> F \<Longrightarrow> run_ok (heap s x)"
    "x \<in> set (waiting s) \<Longrightarrow> wait_ok (heap s x)"
    "py_len (running_scheduled s) \<le> max_num_running_reqs cfg"
    "distinct (running_scheduled s)"
    "max_num_blocks_per_req (kv_cache_manager s) =
       cdiv (max_model_len cfg) (int (block_size (kv_cache_manager s)))"
    "0 < block_size (kv_cache_manager s)"
proof -
  show "distinct (running_scheduled s)"
    using assms by (simp add: sched_inv_def queues_ok_def tracked_def distinct_map)
  show "0 < block_size (kv_cache_manager s)"
    using assms by (simp add: sched_inv_def resources_ok_def sp_ok_def kv_ok_def)
qed (use assms in \<open>auto simp: sched_inv_def queues_ok_def resources_ok_def\<close>)

lemma tracked_distinct: "sched_inv cfg F s \<Longrightarrow> distinct (tracked s)"
  by (simp add: sched_inv_def queues_ok_def distinct_map)

lemma distinct_map_perm:
  assumes "distinct (map f xs)" "mset ys = mset xs"
  shows "distinct (map f ys)"
proof -
  have "mset (map f ys) = mset (map f xs)" using assms(2) by simp
  then show ?thesis using assms(1) mset_eq_imp_distinct_iff by blast
qed

section \<open>Preemption\<close>

lemma mark_preempted_frame [simp]:
  "request_id (mark_preempted r) = request_id r" "status (mark_preempted r) = status r"
  "num_scheduled (mark_preempted r) = num_scheduled r"
  by (simp_all add: mark_preempted_def Let_def)

lemma reset_preempted_frame [simp]:
  "request_id (reset_preempted r) = request_id r" "status (reset_preempted r) = status r"
  by (simp_all add: reset_preempted_def)

text \<open>
  A request that is in no queue, without blocks, is put into one of the two queues of
  preempted requests.
\<close>

definition requeue :: "oid \<Rightarrow> scheduler \<Rightarrow> scheduler" where
  "requeue x s =
     (case preempt_request x s of
        (done, s') \<Rightarrow> if done then s' else s'\<lparr>to_be_preempted := to_be_preempted s' @ [x]\<rparr>)"

lemma requeue_cases:
  "requeue x s =
     (if 0 < num_scheduled (heap s x)
      then (upd x mark_preempted s)\<lparr>to_be_preempted := to_be_preempted s @ [x]\<rparr>
      else (upd x (\<lambda>r. reset_preempted (mark_preempted r)) s)
             \<lparr>scheduled_req_ids := scheduled_req_ids s - {req_id_of s x},
              waiting := x # waiting s\<rparr>)"
  by (simp add: requeue_def preempt_request_def Let_def upd_def)

text \<open>
  A request moves between the queues, or stays, and changes its fields and its blocks; the
  others stay where they are.
\<close>

lemma sched_inv_shuffle:
  assumes inv: "sched_inv cfg F s" and F: "req_id_of s x \<notin> F"
    and heap: "heap s' = (heap s)(x := r')" "request_id r' = req_id_of s x"
    and same: "requests s' = requests s" "encoder_cache_manager s' = encoder_cache_manager s"
    and tracked: "mset (tracked s') = mset (tracked s)"
    and wait: "set (waiting s') \<subseteq> insert x (set (waiting s))" "x \<in> set (waiting s') \<Longrightarrow> wait_ok r'"
    and run: "set (running_scheduled s') \<subseteq> insert x (set (running_scheduled s))"
      "x \<in> set (running_scheduled s') \<Longrightarrow> run_ok r'"
      "py_len (running_scheduled s') \<le> max_num_running_reqs cfg"
    and drain: "set (to_be_preempted s') \<subseteq> insert x (set (to_be_preempted s))"
      "x \<in> set (to_be_preempted s') \<Longrightarrow> drain_ok r'"
    and kv: "kv_cache_manager s' = m" "sp_ok m"
      "max_num_blocks_per_req m = max_num_blocks_per_req (kv_cache_manager s)"
      "block_size m = block_size (kv_cache_manager s)"
      "\<And>i. req_to_blocks m i \<noteq> [] \<Longrightarrow>
         i \<notin> F \<and> i \<in> req_id_of s ` set (running_scheduled s')"
  shows "sched_inv cfg F s'"
proof -
  have id: "req_id_of s' y = req_id_of s y" for y using heap by simp
  have old: "queues_ok F s" "resources_ok cfg F s"
    using inv by (simp_all add: sched_inv_def)
  have set: "set (tracked s') = set (tracked s)" using tracked by (rule mset_eq_setD)
  have "distinct (map (req_id_of s) (tracked s))" using old(1) by (simp only: queues_ok_def)
  then have "distinct (map (req_id_of s) (tracked s'))" using tracked by (rule distinct_map_perm)
  moreover have "\<forall>y \<in> set (waiting s'). req_id_of s y \<notin> F \<and> wait_ok (heap s' y)"
    using old(1) wait F heap(1) by (auto simp: queues_ok_def)
  moreover have "\<forall>y \<in> set (running_scheduled s'). req_id_of s y \<notin> F \<longrightarrow> run_ok (heap s' y)"
    using old(1) run(1,2) heap(1) by (auto simp: queues_ok_def)
  moreover have "\<forall>y \<in> set (to_be_preempted s'). req_id_of s y \<notin> F \<longrightarrow> drain_ok (heap s' y)"
    using old(1) drain heap(1) by (auto simp: queues_ok_def)
  ultimately have "queues_ok F s'"
    using old(1) by (simp only: queues_ok_def id set same(1)) simp
  moreover have "resources_ok cfg F s'"
    using old(2) kv(2-5) run(3)
    by (simp only: resources_ok_def id kv(1) same(2)) simp
  ultimately show ?thesis by (simp add: sched_inv_def)
qed

text \<open>The last running request leaves the running list for one of the other two.\<close>

lemma sched_inv_move:
  assumes inv: "sched_inv cfg F s" and run: "running_scheduled s = ys @ [x]"
    and F: "req_id_of s x \<notin> F"
    and s': "heap s' = (heap s)(x := r')" "request_id r' = req_id_of s x"
      "requests s' = requests s" "running_scheduled s' = ys" "kv_cache_manager s' = m"
      "encoder_cache_manager s' = encoder_cache_manager s"
    and dest: "waiting s' = x # waiting s \<and> to_be_preempted s' = to_be_preempted s \<and> wait_ok r'
      \<or> waiting s' = waiting s \<and> to_be_preempted s' = to_be_preempted s @ [x] \<and> drain_ok r'"
    and m: "sp_ok m" "max_num_blocks_per_req m = max_num_blocks_per_req (kv_cache_manager s)"
      "block_size m = block_size (kv_cache_manager s)"
      "req_to_blocks m = (req_to_blocks (kv_cache_manager s))(req_id_of s x := [])"
  shows "sched_inv cfg F s'"
proof (rule sched_inv_shuffle [OF inv F s'(1-3,6) _ _ _ _ _ _ _ _ s'(5) m(1-3)])
  have dist: "distinct (tracked s)" using inv by (rule tracked_distinct)
  then have notin: "x \<notin> set (waiting s)" "x \<notin> set ys" "x \<notin> set (to_be_preempted s)"
    using run by (auto simp: tracked_def)
  show "mset (tracked s') = mset (tracked s)"
    using dest s'(4) run by (auto simp: tracked_def)
  show "x \<in> set (waiting s') \<Longrightarrow> wait_ok r'" "x \<in> set (to_be_preempted s') \<Longrightarrow> drain_ok r'"
    "x \<in> set (running_scheduled s') \<Longrightarrow> run_ok r'"
    using dest notin s'(4) by auto
  show "py_len (running_scheduled s') \<le> max_num_running_reqs cfg"
    using sched_inv_dest(4) [OF inv] run s'(4) by simp
  show "i \<notin> F \<and> i \<in> req_id_of s ` set (running_scheduled s')" if "req_to_blocks m i \<noteq> []" for i
  proof -
    have "i \<noteq> req_id_of s x" "req_to_blocks (kv_cache_manager s) i \<noteq> []"
      using that m(4) by (auto split: if_splits)
    moreover have "i \<notin> F \<and> i \<in> req_id_of s ` set (running_scheduled s)"
      using inv calculation(2) by (simp add: sched_inv_def resources_ok_def)
    ultimately show ?thesis using run s'(4) by auto
  qed
qed (use dest s'(4) run in auto)

text \<open>A request whose in-flight work has drained returns to the waiting queue.\<close>

lemma sched_inv_drained:
  assumes inv: "sched_inv cfg F s" and pre: "to_be_preempted s = ps @ x # rest"
    and F: "req_id_of s x \<notin> F"
    and s': "heap s' = (heap s)(x := r')" "request_id r' = req_id_of s x"
      "requests s' = requests s" "running_scheduled s' = running_scheduled s"
      "kv_cache_manager s' = kv_cache_manager s"
      "encoder_cache_manager s' = encoder_cache_manager s"
      "waiting s' = x # waiting s" "to_be_preempted s' = ps @ rest" "wait_ok r'"
  shows "sched_inv cfg F s'"
proof (rule sched_inv_shuffle [OF inv F s'(1-3,6) _ _ _ _ _ _ _ _ s'(5)])
  have "distinct (tracked s)" using inv by (rule tracked_distinct)
  then have notin: "x \<notin> set (running_scheduled s)" "x \<notin> set (ps @ rest)"
    using pre by (auto simp: tracked_def)
  show "mset (tracked s') = mset (tracked s)"
    using pre s'(4,7,8) by (simp add: tracked_def)
  show "x \<in> set (running_scheduled s') \<Longrightarrow> run_ok r'" "x \<in> set (to_be_preempted s') \<Longrightarrow> drain_ok r'"
    using notin s'(4,8) by simp_all
  show "i \<notin> F \<and> i \<in> req_id_of s ` set (running_scheduled s')"
    if "req_to_blocks (kv_cache_manager s) i \<noteq> []" for i
    using inv that s'(4) by (simp add: sched_inv_def resources_ok_def)
qed (use pre s' sched_inv_dest(1,4) [OF inv] in auto)

lemma sp_free_total:
  assumes "sp_ok m"
  shows "\<exists>m'. free r m = Inr m' \<and> sp_ok m' \<and>
    req_to_blocks m' = (req_to_blocks m)(request_id r := []) \<and>
    block_size m' = block_size m \<and> max_num_blocks_per_req m' = max_num_blocks_per_req m"
proof -
  have "kv_ok m" using assms by (simp add: sp_ok_def)
  from free_ok [OF this, of r] obtain m' where m': "free r m = Inr m'"
    "req_to_blocks m' = (req_to_blocks m)(request_id r := [])" by blast
  moreover have "block_size m' = block_size m" "max_num_blocks_per_req m' = max_num_blocks_per_req m"
    using m'(1) by (auto simp: free_def Let_def res_simps)
  ultimately show ?thesis using sp_free [OF assms m'(1)] by blast
qed

text \<open>
  Evicting the newest running request succeeds and keeps the invariant; the other requests keep
  their fields.
\<close>

definition preempt_fields :: "request \<Rightarrow> request" where
  "preempt_fields r =
     (if 0 < num_scheduled r then mark_preempted r else reset_preempted (mark_preempted r))"

lemma evict_last_ok:
  assumes inv: "sched_inv cfg F s" and run: "running_scheduled s = ys @ [x]"
    and F: "req_id_of s x \<notin> F"
  shows "\<exists>s'. evict_last cfg ts s = Inr (x, s') \<and> sched_inv cfg F s' \<and>
    running_scheduled s' = ys \<and> (\<forall>y. y \<noteq> x \<longrightarrow> heap s' y = heap s y) \<and>
    set (tracked s') = set (tracked s) \<and>
    (\<exists>ev. heap s' x = preempt_fields ((heap s x)\<lparr>status := PREEMPTED, events := ev\<rparr>)) \<and>
    finished_req_ids s' = finished_req_ids s \<and> cached_reqs_data s' = cached_reqs_data s \<and>
    req_to_blocks (kv_cache_manager s') = (req_to_blocks (kv_cache_manager s))(req_id_of s x := []) \<and>
    block_size (kv_cache_manager s') = block_size (kv_cache_manager s)"
proof -
  obtain m where m: "free (heap s x) (kv_cache_manager s) = Inr m" "sp_ok m"
    "req_to_blocks m = (req_to_blocks (kv_cache_manager s))(req_id_of s x := [])"
    "block_size m = block_size (kv_cache_manager s)"
    "max_num_blocks_per_req m = max_num_blocks_per_req (kv_cache_manager s)"
    using sp_free_total [OF sched_inv_dest(1) [OF inv]] by blast
  define ev where "ev = (if log_stats cfg then events (heap s x) @ [(PREEMPTED_EVENT, ts)]
    else events (heap s x))"
  define r1 where "r1 = (heap s x)\<lparr>status := PREEMPTED, events := ev\<rparr>"
  define s1 where "s1 = s\<lparr>running_scheduled := ys, kv_cache_manager := m,
    heap := (heap s)(x := r1)\<rparr>"
  have ev: "evict_last cfg ts s = Inr (x, requeue x s1)"
    using m(1) run
    by (simp add: evict_last_def requeue_def s1_def r1_def ev_def record_event_def upd_def Let_def
        split: prod.splits)
  have r1: "request_id r1 = req_id_of s x" "status r1 = PREEMPTED" by (simp_all add: r1_def)
  have fields: "heap (requeue x s1) = (heap s)(x := preempt_fields r1)"
    "requests (requeue x s1) = requests s" "running_scheduled (requeue x s1) = ys"
    "kv_cache_manager (requeue x s1) = m"
    "encoder_cache_manager (requeue x s1) = encoder_cache_manager s"
    "finished_req_ids (requeue x s1) = finished_req_ids s"
    "cached_reqs_data (requeue x s1) = cached_reqs_data s"
    by (simp_all add: requeue_cases s1_def preempt_fields_def)
  have dest: "waiting (requeue x s1) = x # waiting s \<and>
      to_be_preempted (requeue x s1) = to_be_preempted s \<and> wait_ok (preempt_fields r1)
    \<or> waiting (requeue x s1) = waiting s \<and>
      to_be_preempted (requeue x s1) = to_be_preempted s @ [x] \<and> drain_ok (preempt_fields r1)"
    using r1(2)
    by (simp add: requeue_cases s1_def preempt_fields_def wait_ok_def drain_ok_def
        reset_preempted_def)
  have id: "request_id (preempt_fields r1) = req_id_of s x"
    using r1(1) by (simp add: preempt_fields_def)
  have "sched_inv cfg F (requeue x s1)"
    by (rule sched_inv_move [OF inv run F fields(1) id fields(2-5) dest m(2,5,4,3)])
  moreover have "set (tracked (requeue x s1)) = set (tracked s)"
    using dest fields(3) run by (auto simp: tracked_def)
  ultimately show ?thesis
    using ev fields m(3,4) by (auto simp: r1_def)
qed

section \<open>Allocation with preemption\<close>

text \<open>What evictions leave: a prefix of the running list, all other requests untouched.\<close>

definition evicted_to :: "nat \<Rightarrow> scheduler \<Rightarrow> scheduler \<Rightarrow> bool" where
  "evicted_to j s s' \<longleftrightarrow>
     running_scheduled s' = take j (running_scheduled s) \<and>
     (\<forall>y. y \<notin> set (drop j (running_scheduled s)) \<longrightarrow> heap s' y = heap s y) \<and>
     (\<forall>y \<in> set (drop j (running_scheduled s)). \<exists>ev.
        heap s' y = preempt_fields ((heap s y)\<lparr>status := PREEMPTED, events := ev\<rparr>)) \<and>
     set (tracked s') = set (tracked s) \<and>
     finished_req_ids s' = finished_req_ids s \<and> cached_reqs_data s' = cached_reqs_data s \<and>
     (length (running_scheduled s) \<le> j \<longrightarrow> waiting s' = waiting s)"

text \<open>
  The block tables afterwards: those of the evicted requests are gone, that of the request which
  is served has slots for its tokens, all others are untouched.
\<close>

definition covered :: "scheduler \<Rightarrow> oid \<Rightarrow> int \<Rightarrow> bool" where
  "covered s x n \<longleftrightarrow> num_computed_tokens (heap s x) + n \<le>
     py_len (req_to_blocks (kv_cache_manager s) (req_id_of s x))
       * int (block_size (kv_cache_manager s))"

definition tables_kept :: "oid \<Rightarrow> nat \<Rightarrow> scheduler \<Rightarrow> scheduler \<Rightarrow> bool" where
  "tables_kept x j s s' \<longleftrightarrow>
     block_size (kv_cache_manager s') = block_size (kv_cache_manager s) \<and>
     (\<forall>i. i \<notin> req_id_of s ` insert x (set (drop j (running_scheduled s))) \<longrightarrow>
        req_to_blocks (kv_cache_manager s') i = req_to_blocks (kv_cache_manager s) i)"

lemma evicted_to_refl: "length (running_scheduled s) \<le> j \<Longrightarrow> evicted_to j s s"
  by (simp add: evicted_to_def)

lemma evicted_to_step:
  assumes "evicted_to j s2 s'" "running_scheduled s = ys @ [y]" "y \<notin> set ys" "j \<le> length ys"
    and "running_scheduled s2 = ys" "\<forall>z. z \<noteq> y \<longrightarrow> heap s2 z = heap s z"
      "set (tracked s2) = set (tracked s)"
      "\<exists>e. heap s2 y = preempt_fields ((heap s y)\<lparr>status := PREEMPTED, events := e\<rparr>)"
      "finished_req_ids s2 = finished_req_ids s" "cached_reqs_data s2 = cached_reqs_data s"
  shows "evicted_to j s s'"
proof -
  have drop: "drop j (running_scheduled s) = drop j ys @ [y]" using assms(2,4) by simp
  have y: "y \<notin> set (drop j ys)" using assms(3) in_set_dropD by fastforce
  then have eq: "heap s2 z = heap s z" if "z \<in> set (drop j ys)" for z
    using assms(6) that by metis
  have "heap s' y = heap s2 y" using assms(1,5) y by (simp add: evicted_to_def)
  moreover have "\<exists>ev. heap s' z = preempt_fields ((heap s z)\<lparr>status := PREEMPTED, events := ev\<rparr>)"
    if z: "z \<in> set (drop j ys)" for z
  proof -
    obtain ev where "heap s' z = preempt_fields ((heap s2 z)\<lparr>status := PREEMPTED, events := ev\<rparr>)"
      using assms(1,5) z unfolding evicted_to_def by blast
    then show ?thesis using eq [OF z] by auto
  qed
  ultimately show ?thesis
    using assms unfolding evicted_to_def drop by auto
qed

text \<open>A bound on the tokens of a request keeps its table within the manager's limit.\<close>

definition fits :: "sched_config \<Rightarrow> request \<Rightarrow> int \<Rightarrow> int \<Rightarrow> bool" where
  "fits cfg r n la \<longleftrightarrow> num_computed_tokens r + n + la \<le> max_model_len cfg"

lemma fits_required:
  assumes "sched_inv cfg F s" "fits cfg r n la"
  shows "required_blocks r n [] la (kv_cache_manager s)
    \<le> max_num_blocks_per_req (kv_cache_manager s)"
proof -
  have "cdiv (num_computed_tokens r + n + la) (int (block_size (kv_cache_manager s)))
      \<le> cdiv (max_model_len cfg) (int (block_size (kv_cache_manager s)))"
    using assms(2) sched_inv_dest(7) [OF assms(1)] by (intro cdiv_mono) (simp_all add: fits_def)
  then show ?thesis
    using sched_inv_dest(6) [OF assms(1)] by (simp add: required_blocks_def)
qed

text \<open>Allocating for a running request in place.\<close>

lemma allocate_inv:
  assumes "sched_inv cfg F s" "x \<in> set (running_scheduled s)" "req_id_of s x \<notin> F"
    and "0 < n" "fits cfg (heap s x) n la" "0 \<le> la"
  shows "\<exists>new m. allocate_slots hash_fn none_hash (heap s x) n [] la (kv_cache_manager s)
      = Inr (new, m) \<and> sched_inv cfg F (s\<lparr>kv_cache_manager := m\<rparr>) \<and>
    (new = None \<longrightarrow> m = kv_cache_manager s) \<and>
    (new \<noteq> None \<longrightarrow> covered (s\<lparr>kv_cache_manager := m\<rparr>) x n) \<and>
    tables_kept x (length (running_scheduled s)) s (s\<lparr>kv_cache_manager := m\<rparr>)"
proof -
  let ?m = "kv_cache_manager s" and ?i = "req_id_of s x"
  note sp = sched_inv_dest(1) [OF assms(1)]
  note cases = sp_allocate_cases [OF sp assms(4) fits_required [OF assms(1,5)],
      of hash_fn none_hash]
  show ?thesis
  proof (cases "shortage (heap s x) n [] la (req_to_blocks ?m ?i) ?m")
    case True
    then show ?thesis using cases assms(1) by (simp add: tables_kept_def)
  next
    case False
    with cases obtain new m where new: "allocate_slots hash_fn none_hash (heap s x) n [] la ?m
        = Inr (Some new, m)"
      "req_to_blocks m = (req_to_blocks ?m)(?i := req_to_blocks ?m ?i @ new)"
      "block_size m = block_size ?m" "max_num_blocks_per_req m = max_num_blocks_per_req ?m"
      "required_blocks (heap s x) n [] la ?m \<le> py_len (req_to_blocks ?m ?i @ new)"
      by (auto simp: allocated_def)
    have "sp_ok m" using sp_allocate [OF sp assms(4) fits_required [OF assms(1,5)] new(1)] .
    moreover have "i \<notin> F \<and> i \<in> req_id_of s ` set (running_scheduled s)"
      if "req_to_blocks m i \<noteq> []" for i
      using that new(2) assms(1-3)
      by (auto simp: sched_inv_def resources_ok_def split: if_splits)
    ultimately have inv: "sched_inv cfg F (s\<lparr>kv_cache_manager := m\<rparr>)"
      using sched_inv_kv [OF assms(1)] new(1,3,4) by blast
    have "covered (s\<lparr>kv_cache_manager := m\<rparr>) x n"
      using new(2,3,5) assms(6) sched_inv_dest(7) [OF assms(1)]
      by (simp add: covered_def required_blocks_def cdiv_le_iff)
    moreover have "tables_kept x (length (running_scheduled s)) s (s\<lparr>kv_cache_manager := m\<rparr>)"
      by (simp add: tables_kept_def new(2,3))
    ultimately show ?thesis using new(1) inv by blast
  qed
qed

lemma tables_kept_step:
  assumes "tables_kept x j s2 s'" "running_scheduled s = ys @ [y]" "j \<le> length ys"
    and "running_scheduled s2 = ys" "\<And>z. req_id_of s2 z = req_id_of s z"
      "req_to_blocks (kv_cache_manager s2) = (req_to_blocks (kv_cache_manager s))(req_id_of s y := [])"
      "block_size (kv_cache_manager s2) = block_size (kv_cache_manager s)"
  shows "tables_kept x j s s'"
  using assms(1) unfolding tables_kept_def assms(2-) by (auto simp: assms(3))

lemma allocate_with_preemption_ok:
  assumes "sched_ok cfg s" "k < length (running_scheduled s)" "running_scheduled s ! k = x"
    and "0 < n" "fits cfg (heap s x) n (num_lookahead_tokens cfg)" "0 \<le> num_lookahead_tokens cfg"
  shows "\<exists>new j s'. allocate_with_preemption cfg env ts x n pre s =
      Inr (new, pre @ rev (drop j (running_scheduled s)), s') \<and> sched_ok cfg s' \<and>
    evicted_to j s s' \<and> j \<le> length (running_scheduled s) \<and>
    (if new = None then j = k else k < j \<and> covered s' x n) \<and> tables_kept x j s s'"
  using assms(1-3,5)
proof (induction "length (running_scheduled s)" arbitrary: s pre rule: less_induct)
  case less
  let ?rs = "running_scheduled s"
  have mem: "x \<in> set ?rs" using less.prems(2,3) by auto
  obtain new m where alloc: "allocate_slots (env_hash env) (env_none_hash env) (heap s x) n []
      (num_lookahead_tokens cfg) (kv_cache_manager s) = Inr (new, m)"
    and inv: "sched_ok cfg (s\<lparr>kv_cache_manager := m\<rparr>)"
    and none: "new = None \<longrightarrow> m = kv_cache_manager s"
    and tab: "new \<noteq> None \<longrightarrow> covered (s\<lparr>kv_cache_manager := m\<rparr>) x n"
      "tables_kept x (length ?rs) s (s\<lparr>kv_cache_manager := m\<rparr>)"
    using allocate_inv [OF less.prems(1) mem _ assms(4) less.prems(4) assms(6)] by blast
  show ?case
  proof (cases new)
    case (Some b)
    then have "allocate_with_preemption cfg env ts x n pre s
        = Inr (Some b, pre, s\<lparr>kv_cache_manager := m\<rparr>)"
      using alloc by (subst allocate_with_preemption.simps) simp
    moreover have "evicted_to (length ?rs) s (s\<lparr>kv_cache_manager := m\<rparr>)"
      by (simp add: evicted_to_def tracked_def)
    ultimately show ?thesis
      using inv less.prems(2) Some tab
      by (intro exI [of _ "Some b"] exI [of _ "length ?rs"]) simp
  next
    case None
    then have s1: "s\<lparr>kv_cache_manager := m\<rparr> = s" using none by simp
    obtain ys y where rs: "?rs = ys @ [y]" using less.prems(2) by (cases ?rs rule: rev_cases) auto
    obtain s2 where ev: "evict_last cfg ts s = Inr (y, s2)" "sched_ok cfg s2"
      "running_scheduled s2 = ys" "\<forall>z. z \<noteq> y \<longrightarrow> heap s2 z = heap s z"
      "set (tracked s2) = set (tracked s)"
      "\<exists>e. heap s2 y = preempt_fields ((heap s y)\<lparr>status := PREEMPTED, events := e\<rparr>)"
      "finished_req_ids s2 = finished_req_ids s" "cached_reqs_data s2 = cached_reqs_data s"
      "req_to_blocks (kv_cache_manager s2) = (req_to_blocks (kv_cache_manager s))(req_id_of s y := [])"
      "block_size (kv_cache_manager s2) = block_size (kv_cache_manager s)"
      using evict_last_ok [OF less.prems(1) rs, of ts] by auto
    have id2: "req_id_of s2 z = req_id_of s z" for z
      using ev(4,6) by (cases "z = y") (auto simp: preempt_fields_def)
    have dist: "distinct (ys @ [y])" using sched_inv_dest(5) [OF less.prems(1)] rs by simp
    have unfold: "allocate_with_preemption cfg env ts x n pre s =
        (if y = x then Inr (None, pre @ [y], s2)
         else allocate_with_preemption cfg env ts x n (pre @ [y]) s2)"
      using alloc None none ev(1) by (subst allocate_with_preemption.simps) simp
    show ?thesis
    proof (cases "y = x")
      case True
      then have k: "k = length ys"
        using less.prems(2,3) dist rs by (metis distinct_append length_append_singleton
            less_antisym not_distinct_conv_prefix nth_append nth_mem distinct_singleton
            disjoint_insert(1) list.simps(15))
      have "evicted_to k s s2"
        using ev rs k by (simp add: evicted_to_def)
      moreover have "tables_kept x k s s2" using ev(9,10) rs k True by (simp add: tables_kept_def)
      ultimately show ?thesis
        using unfold True ev(2) rs k by (intro exI [of _ None] exI [of _ k]) auto
    next
      case False
      then have k: "k < length ys" "ys ! k = x"
        using less.prems(2,3) rs by (auto simp: nth_append less_Suc_eq split: if_splits)
      have fits: "fits cfg (heap s2 x) n (num_lookahead_tokens cfg)"
        using less.prems(4) ev(4) False by simp
      have shorter: "length (running_scheduled s2) < length ?rs" using ev(3) rs by simp
      from less.hyps [OF shorter ev(2), of "pre @ [y]"] k ev(3) fits obtain new' j s' where
        r: "allocate_with_preemption cfg env ts x n (pre @ [y]) s2 =
            Inr (new', (pre @ [y]) @ rev (drop j ys), s')" "sched_ok cfg s'" "evicted_to j s2 s'"
          "j \<le> length ys" "if new' = None then j = k else k < j \<and> covered s' x n"
          "tables_kept x j s2 s'"
        by auto
      have "evicted_to j s s'"
        using evicted_to_step [OF r(3) rs _ _ ev(3-8)] r(4) dist by simp
      moreover have "tables_kept x j s s'"
        using tables_kept_step [OF r(6) rs r(4) ev(3) id2 ev(9,10)] .
      ultimately show ?thesis
        using unfold False r rs by (intro exI [of _ new'] exI [of _ j]) auto
    qed
  qed
qed

section \<open>The drain of preempted requests\<close>

text \<open>What the start of \<open>schedule\<close> may do to a request that waits for its preemption.\<close>

lemma drain_step_ok:
  assumes inv: "sched_inv cfg F (s\<lparr>to_be_preempted := ps @ x # rest\<rparr>)"
    and F: "req_id_of s x \<notin> F" and step: "drain_step x (ps, s) = (ps', s')"
  shows "sched_inv cfg F (s'\<lparr>to_be_preempted := ps' @ rest\<rparr>)"
    and "heap s' = (heap s)(x := preempt_fields (heap s x))"
    and "running_scheduled s' = running_scheduled s" "finished_req_ids s' = finished_req_ids s"
    and "cached_reqs_data s' = cached_reqs_data s"
    and "set (tracked (s'\<lparr>to_be_preempted := ps' @ rest\<rparr>)) =
      set (tracked (s\<lparr>to_be_preempted := ps @ x # rest\<rparr>))"
proof -
  let ?t = "s\<lparr>to_be_preempted := ps @ x # rest\<rparr>"
  show "heap s' = (heap s)(x := preempt_fields (heap s x))"
    "running_scheduled s' = running_scheduled s" "finished_req_ids s' = finished_req_ids s"
    "cached_reqs_data s' = cached_reqs_data s"
    "set (tracked (s'\<lparr>to_be_preempted := ps' @ rest\<rparr>)) = set (tracked ?t)"
    using step
    by (auto simp: drain_step_def preempt_request_def Let_def preempt_fields_def tracked_def
        split: if_splits)
  show "sched_inv cfg F (s'\<lparr>to_be_preempted := ps' @ rest\<rparr>)"
  proof (cases "0 < num_scheduled (heap s x)")
    case True
    have "x \<notin> set (waiting s)" "x \<notin> set (running_scheduled s)"
      using tracked_distinct [OF inv] by (auto simp: tracked_def)
    moreover have "drain_ok (heap s x)"
      using inv F by (simp add: sched_inv_def queues_ok_def)
    ultimately have "sched_inv cfg F (upd x mark_preempted ?t)"
      using sched_inv_upd [OF inv, of mark_preempted x] by (simp add: drain_ok_def)
    moreover have "s'\<lparr>to_be_preempted := ps' @ rest\<rparr> = upd x mark_preempted ?t"
      using step True by (auto simp: drain_step_def preempt_request_def Let_def upd_def)
    ultimately show ?thesis by simp
  next
    case False
    let ?r = "reset_preempted (mark_preempted (heap s x))"
    have s': "s' = (upd x (\<lambda>r. reset_preempted (mark_preempted r)) s)
        \<lparr>scheduled_req_ids := scheduled_req_ids s - {req_id_of s x}, waiting := x # waiting s\<rparr>"
      "ps' = ps"
      using step False by (auto simp: drain_step_def preempt_request_def Let_def upd_def)
    have "drain_ok (heap s x)"
      using inv F by (simp add: sched_inv_def queues_ok_def)
    then have "wait_ok ?r" by (simp add: drain_ok_def wait_ok_def reset_preempted_def)
    then show ?thesis
      using F s'
      by (intro sched_inv_drained [OF inv, of ps x rest "s'\<lparr>to_be_preempted := ps' @ rest\<rparr>" ?r])
        simp_all
  qed
qed

lemma fold_drain_ok:
  assumes "sched_inv cfg F (s\<lparr>to_be_preempted := ps @ xs\<rparr>)"
    and "\<forall>x \<in> set xs. req_id_of s x \<notin> F" "distinct xs"
    and "fold drain_step xs (ps, s) = (ps', s')"
  shows "sched_inv cfg F (s'\<lparr>to_be_preempted := ps'\<rparr>) \<and>
    (\<forall>y. heap s' y = (if y \<in> set xs then preempt_fields (heap s y) else heap s y)) \<and>
    running_scheduled s' = running_scheduled s \<and> finished_req_ids s' = finished_req_ids s \<and>
    cached_reqs_data s' = cached_reqs_data s \<and>
    set (tracked (s'\<lparr>to_be_preempted := ps'\<rparr>)) =
      set (tracked (s\<lparr>to_be_preempted := ps @ xs\<rparr>))"
  using assms
proof (induction xs arbitrary: ps s)
  case Nil
  then show ?case by simp
next
  case (Cons x xs)
  obtain p1 s1 where step: "drain_step x (ps, s) = (p1, s1)" by fastforce
  note d = drain_step_ok [OF Cons.prems(1) _ step]
  have F: "req_id_of s x \<notin> F" using Cons.prems(2) by simp
  have h: "heap s1 = (heap s)(x := preempt_fields (heap s x))" using d(2) F by blast
  have "\<forall>y \<in> set xs. req_id_of s1 y \<notin> F"
    using Cons.prems(2,3) h by auto
  moreover have "fold drain_step xs (p1, s1) = (ps', s')" using Cons.prems(4) step by simp
  ultimately show ?case
    using Cons.IH [of p1 s1] d F h Cons.prems(3) by auto
qed

lemma drain_preempted_ok:
  assumes "sched_ok cfg s" "drain_preempted s = (xs, s')"
  shows "sched_ok cfg s' \<and> xs = to_be_preempted s \<and>
    (\<forall>y. heap s' y = (if y \<in> set xs then preempt_fields (heap s y) else heap s y)) \<and>
    running_scheduled s' = running_scheduled s \<and> finished_req_ids s' = finished_req_ids s \<and>
    cached_reqs_data s' = cached_reqs_data s \<and> set (tracked s') = set (tracked s) \<and>
    (xs = [] \<longrightarrow> waiting s' = waiting s)"
proof -
  obtain ps t where fold: "fold drain_step (to_be_preempted s) ([], s) = (ps, t)" by fastforce
  have "distinct (to_be_preempted s)"
    using tracked_distinct [OF assms(1)] by (simp add: tracked_def)
  moreover have "s\<lparr>to_be_preempted := [] @ to_be_preempted s\<rparr> = s" by simp
  ultimately show ?thesis
    using fold_drain_ok [of cfg "{}" "[]" "to_be_preempted s" s ps t] fold assms
    by (auto simp: drain_preempted_def)
qed

section \<open>The confidence drop\<close>

text \<open>Only the flag \<open>confidence_passed\<close> of some requests differs.\<close>

definition same_but_passed :: "scheduler \<Rightarrow> scheduler \<Rightarrow> bool" where
  "same_but_passed s s' \<longleftrightarrow>
     s' = s\<lparr>heap := heap s'\<rparr> \<and> (\<forall>y. \<exists>b. heap s' y = (heap s y)\<lparr>confidence_passed := b\<rparr>)"

lemma same_but_passed_refl [simp]: "same_but_passed s s"
proof -
  have "heap s y = (heap s y)\<lparr>confidence_passed := confidence_passed (heap s y)\<rparr>" for y by simp
  then show ?thesis by (metis same_but_passed_def scheduler.surjective scheduler.update_convs(1))
qed

lemma same_but_passed_trans:
  assumes "same_but_passed s t" "same_but_passed t u"
  shows "same_but_passed s u"
proof -
  have "\<exists>b. heap u y = (heap s y)\<lparr>confidence_passed := b\<rparr>" for y
  proof -
    obtain b c where "heap t y = (heap s y)\<lparr>confidence_passed := b\<rparr>"
      "heap u y = (heap t y)\<lparr>confidence_passed := c\<rparr>"
      using assms unfolding same_but_passed_def by blast
    then have "heap u y = (heap s y)\<lparr>confidence_passed := c\<rparr>" by simp
    then show ?thesis by blast
  qed
  moreover have "u = s\<lparr>heap := heap u\<rparr>"
    using assms unfolding same_but_passed_def by (metis scheduler.update_convs(1) scheduler.surjective)
  ultimately show ?thesis by (simp add: same_but_passed_def)
qed

lemma same_but_passed_upd:
  "same_but_passed s (upd x (\<lambda>r. r\<lparr>confidence_passed := b\<rparr>) s)"
proof -
  have "\<exists>c. ((heap s)(x := (heap s x)\<lparr>confidence_passed := b\<rparr>)) y =
      (heap s y)\<lparr>confidence_passed := c\<rparr>" for y
  proof (cases "y = x")
    case False
    then show ?thesis by (intro exI [of _ "confidence_passed (heap s y)"]) simp
  qed auto
  then show ?thesis by (simp add: same_but_passed_def upd_def)
qed

lemma same_but_passed_pass: "same_but_passed s (pass_requests xs s)"
  unfolding pass_requests_def
proof (induction xs arbitrary: s)
  case (Cons x xs)
  from same_but_passed_trans [OF same_but_passed_upd Cons.IH]
  show ?case by (simp only: fold_simps) 
qed simp

lemma same_but_passed_fields:
  assumes "same_but_passed s s'"
  shows "requests s' = requests s" "waiting s' = waiting s"
    "running_scheduled s' = running_scheduled s" "to_be_preempted s' = to_be_preempted s"
    "finished_req_ids s' = finished_req_ids s" "cached_reqs_data s' = cached_reqs_data s"
    "kv_cache_manager s' = kv_cache_manager s"
    "encoder_cache_manager s' = encoder_cache_manager s" "tracked s' = tracked s"
    "estimate_caches s' = estimate_caches s" "scheduled_req_ids s' = scheduled_req_ids s"
proof -
  obtain h where "s' = s\<lparr>heap := h\<rparr>" using assms unfolding same_but_passed_def by blast
  then show "requests s' = requests s" "waiting s' = waiting s"
    "running_scheduled s' = running_scheduled s" "to_be_preempted s' = to_be_preempted s"
    "finished_req_ids s' = finished_req_ids s" "cached_reqs_data s' = cached_reqs_data s"
    "kv_cache_manager s' = kv_cache_manager s"
    "encoder_cache_manager s' = encoder_cache_manager s" "tracked s' = tracked s"
    "estimate_caches s' = estimate_caches s" "scheduled_req_ids s' = scheduled_req_ids s"
    by (simp_all add: tracked_def)
qed

lemma same_but_passed_heap:
  "same_but_passed s s' \<Longrightarrow> \<exists>b. heap s' y = (heap s y)\<lparr>confidence_passed := b\<rparr>"
  by (simp add: same_but_passed_def)

lemma same_but_passed_inv:
  assumes "same_but_passed s s'" "sched_inv cfg F s"
  shows "sched_inv cfg F s'"
proof -
  note f = same_but_passed_fields [OF assms(1)]
  have id: "req_id_of s' y = req_id_of s y" for y
    using same_but_passed_heap [OF assms(1), of y] by auto
  have ok: "wait_ok (heap s' y) = wait_ok (heap s y)" "run_ok (heap s' y) = run_ok (heap s y)"
    "drain_ok (heap s' y) = drain_ok (heap s y)" for y
    using same_but_passed_heap [OF assms(1), of y]
    by (auto simp: wait_ok_def run_ok_def drain_ok_def)
  have "queues_ok F s'"
    using assms(2) by (simp only: sched_inv_def queues_ok_def id ok f) simp
  moreover have "resources_ok cfg F s'"
    using assms(2) by (simp only: sched_inv_def resources_ok_def id f) simp
  ultimately show ?thesis by (simp add: sched_inv_def)
qed

end
