(* ===== verification/ConfidenceDrop.thy ===== *)
theory ConfidenceDrop
  imports SchedInv
begin

text \<open>
  What \<open>_apply_confidence_drop\<close> selects: the sorting of the running requests into confidence
  buckets in closed form, the selection as a prefix of the candidates in bucket order, and
  where the length-aware boost resumes.
\<close>

section \<open>Candidates and buckets\<close>

definition drop_candidate :: "request \<Rightarrow> bool" where
  "drop_candidate r \<longleftrightarrow> \<not> should_preempt r \<and> \<not> has_pending_real_token r \<and>
     \<not> confidence_dropped r \<and> \<not> stop_dropped r"

definition real_token_request :: "request \<Rightarrow> bool" where
  "real_token_request r \<longleftrightarrow> \<not> should_preempt r \<and> has_pending_real_token r"

definition bucket_of :: "(rat \<Rightarrow> rat) \<Rightarrow> nat \<Rightarrow> request \<Rightarrow> nat res" where
  "bucket_of fl n r = ebind (spec_confidence fl r) (bucket_index fl n)"

lemma passed_irrelevant [simp]:
  "spec_confidence fl (r\<lparr>confidence_passed := b\<rparr>) = spec_confidence fl r"
  "bucket_of fl n (r\<lparr>confidence_passed := b\<rparr>) = bucket_of fl n r"
  "has_pending_real_token (r\<lparr>confidence_passed := b\<rparr>) = has_pending_real_token r"
  "drop_candidate (r\<lparr>confidence_passed := b\<rparr>) = drop_candidate r"
  "real_token_request (r\<lparr>confidence_passed := b\<rparr>) = real_token_request r"
  by (simp_all add: spec_confidence_def bucket_of_def has_pending_real_token_def
      drop_candidate_def real_token_request_def)

lemma same_but_passed_irrelevant:
  assumes "same_but_passed s s'"
  shows "spec_confidence fl (heap s' x) = spec_confidence fl (heap s x)"
    "bucket_of fl n (heap s' x) = bucket_of fl n (heap s x)"
    "has_pending_real_token (heap s' x) = has_pending_real_token (heap s x)"
    "drop_candidate (heap s' x) = drop_candidate (heap s x)"
    "real_token_request (heap s' x) = real_token_request (heap s x)"
  using same_but_passed_heap [OF assms, of x] by auto

lemma bucket_index_less: "bucket_index fl n c = Inr i \<Longrightarrow> i < n"
  by (auto simp: bucket_index_def Let_def res_simps)

lemma bucket_of_less: "bucket_of fl n r = Inr i \<Longrightarrow> i < n"
  by (auto simp: bucket_of_def res_simps dest: bucket_index_less)

text \<open>The requests of one bucket, in the order of the running list.\<close>

definition in_bucket :: "(rat \<Rightarrow> rat) \<Rightarrow> nat \<Rightarrow> scheduler \<Rightarrow> nat \<Rightarrow> oid \<Rightarrow> bool" where
  "in_bucket fl n s i x \<longleftrightarrow> drop_candidate (heap s x) \<and> bucket_of fl n (heap s x) = Inr i"

definition unpass :: "oid list \<Rightarrow> scheduler \<Rightarrow> scheduler" where
  "unpass xs s = fold (\<lambda>x. upd x (\<lambda>r. r\<lparr>confidence_passed := False\<rparr>)) xs s"

lemma unpass_frame: "same_but_passed s (unpass xs s)"
  unfolding unpass_def
proof (induction xs arbitrary: s)
  case (Cons x xs)
  from same_but_passed_trans [OF same_but_passed_upd Cons.IH]
  show ?case by (simp only: fold_simps)
qed simp

lemma fold_passed:
  "confidence_passed (heap (fold (\<lambda>x. upd x (\<lambda>r. r\<lparr>confidence_passed := b\<rparr>)) xs s) y) =
     (if y \<in> set xs then b else confidence_passed (heap s y))"
  by (induction xs arbitrary: s) auto

lemma unpass_passed: "x \<in> set xs \<Longrightarrow> \<not> confidence_passed (heap (unpass xs s) x)"
  by (simp add: unpass_def fold_passed)

lemma pass_requests_passed:
  "confidence_passed (heap (pass_requests xs s) y) \<longleftrightarrow> y \<in> set xs \<or> confidence_passed (heap s y)"
  by (simp add: pass_requests_def fold_passed)

lemma pass_requests_append: "pass_requests (xs @ ys) s = pass_requests ys (pass_requests xs s)"
  by (simp add: pass_requests_def)

lemma sort_fold:
  assumes "\<forall>x \<in> set xs. drop_candidate (heap s x) \<longrightarrow> (\<exists>i. bucket_of fl n (heap s x) = Inr i)"
    and "length bs = n"
  shows "efold (sort_step fl n) xs (k, bs, s) =
    Inr (k + py_len (filter (\<lambda>x. real_token_request (heap s x)) xs),
         map (\<lambda>i. bs ! i @ filter (in_bucket fl n s i) xs) [0..<n], unpass xs s)"
  using assms
proof (induction xs arbitrary: k bs s)
  case Nil
  then show ?case by (simp add: unpass_def list_eq_iff_nth_eq)
next
  case (Cons x xs)
  let ?s = "upd x (\<lambda>r. r\<lparr>confidence_passed := False\<rparr>) s"
  let ?r = "heap s x"
  note same = same_but_passed_irrelevant [OF same_but_passed_upd [of s x False]]
  have bucket: "in_bucket fl n ?s i y = in_bucket fl n s i y" for i y
    by (simp only: in_bucket_def same)
  have unp: "unpass xs ?s = unpass (x # xs) s" by (simp add: unpass_def)
  have IH: "efold (sort_step fl n) xs (k', bs', ?s) =
      Inr (k' + py_len (filter (\<lambda>x. real_token_request (heap s x)) xs),
           map (\<lambda>i. bs' ! i @ filter (in_bucket fl n s i) xs) [0..<n], unpass (x # xs) s)"
    if "length bs' = n" for k' bs'
    using Cons.IH [of ?s bs' k'] Cons.prems(1) that unfolding same bucket unp by simp
  show ?case
  proof (cases "drop_candidate ?r")
    case False
    then have "in_bucket fl n s i x = False" for i by (simp add: in_bucket_def)
    moreover have "sort_step fl n x (k, bs, s) =
        Inr (k + (if real_token_request ?r then 1 else 0), bs, ?s)"
      using False
      by (auto simp: sort_step_def drop_candidate_def real_token_request_def Let_def)
    ultimately show ?thesis using IH [OF Cons.prems(2)] by simp
  next
    case cand: True
    then obtain c i where c: "spec_confidence fl ?r = Inr c" "bucket_index fl n c = Inr i"
      using Cons.prems(1) by (auto simp: bucket_of_def res_simps)
    have "bucket_of fl n ?r = Inr i" using c by (simp add: bucket_of_def)
    then have i: "i < n" and b: "in_bucket fl n s j x \<longleftrightarrow> j = i" for j
      using cand bucket_of_less by (auto simp: in_bucket_def)
    have "sort_step fl n x (k, bs, s) = Inr (k, bs[i := bs ! i @ [x]], ?s)"
      using cand c by (simp add: sort_step_def drop_candidate_def Let_def)
    moreover have "map (\<lambda>j. bs[i := bs ! i @ [x]] ! j @ filter (in_bucket fl n s j) xs) [0..<n]
        = map (\<lambda>j. bs ! j @ filter (in_bucket fl n s j) (x # xs)) [0..<n]"
      using i b Cons.prems(2) by (auto simp: list_eq_iff_nth_eq nth_list_update)
    moreover have "\<not> real_token_request ?r"
      using cand by (simp add: drop_candidate_def real_token_request_def)
    ultimately show ?thesis using IH [of "bs[i := bs ! i @ [x]]" k] Cons.prems(2) by simp
  qed
qed

text \<open>The buckets as the selection sees them, from the highest down.\<close>

definition buckets :: "(rat \<Rightarrow> rat) \<Rightarrow> nat \<Rightarrow> scheduler \<Rightarrow> oid list list" where
  "buckets fl n s = map (\<lambda>i. filter (in_bucket fl n s i) (running_scheduled s)) [0..<n]"

definition ranked :: "oid list list \<Rightarrow> nat \<Rightarrow> oid list" where
  "ranked bs i = concat (rev (take i bs))"

lemma ranked_Suc: "i < length bs \<Longrightarrow> ranked bs (Suc i) = bs ! i @ ranked bs i"
  by (simp add: ranked_def take_Suc_conv_app_nth)

lemma ranked_0 [simp]: "ranked bs 0 = []"
  by (simp add: ranked_def)

lemma sort_buckets_eq:
  assumes "0 < n" "\<forall>x \<in> set (running_scheduled s). drop_candidate (heap s x) \<longrightarrow>
      (\<exists>i. bucket_of fl n (heap s x) = Inr i)"
  shows "sort_buckets fl n s =
    Inr (py_len (filter (\<lambda>x. real_token_request (heap s x)) (running_scheduled s)),
         buckets fl n s, unpass (running_scheduled s) s)"
  using assms sort_fold [of "running_scheduled s" s fl n "replicate n []" 0]
  by (simp add: sort_buckets_def buckets_def cong: map_cong)

section \<open>The selection\<close>

text \<open>
  The selection passes a prefix of the candidates ranked by bucket. It ends with whole buckets,
  or inside bucket \<open>j\<close>, whose first \<open>k\<close> requests it passes; then it reports \<open>j - 1\<close> as the
  bucket at which it stopped.
\<close>

definition cut_at :: "oid list list \<Rightarrow> nat \<Rightarrow> int \<Rightarrow> int \<Rightarrow> int \<Rightarrow> bool" where
  "cut_at bs i budget idx k \<longleftrightarrow>
     k = 0 \<and> (\<exists>j \<le> i. take (nat budget) (ranked bs i) = concat (rev (drop j (take i bs)))) \<or>
     (\<exists>j < i. idx = int j - 1 \<and> 0 < k \<and> k < py_len (bs ! j) \<and>
        take (nat budget) (ranked bs i) =
          concat (rev (drop (Suc j) (take i bs))) @ take (nat k) (bs ! j))"

lemma pass_loop_stop:
  "pass_loop fl w bs i 0 d k s = Inr (d, int i - 1, k, s)"
  by (cases i) auto

lemma pass_loop_eq:
  assumes "\<forall>x \<in> set (concat bs). \<exists>c. spec_confidence fl (heap s x) = Inr c"
    and "i \<le> length bs" "0 \<le> budget"
  shows "\<exists>d' idx k. pass_loop fl w bs i budget d 0 s =
      Inr (d', idx, k, pass_requests (take (nat budget) (ranked bs i)) s) \<and>
    cut_at bs i budget idx k"
  using assms
proof (induction i arbitrary: budget d s)
  case 0
  then show ?case by (simp add: cut_at_def pass_requests_def)
next
  case (Suc i)
  let ?b = "bs ! i"
  have r: "ranked bs (Suc i) = ?b @ ranked bs i" using Suc.prems(2) by (simp add: ranked_Suc)
  have len: "i < length bs" using Suc.prems(2) by simp
  consider (none) "budget = 0" | (whole) "0 < budget" "py_len ?b \<le> budget"
    | (cut) "0 < budget" "budget < py_len ?b"
    using Suc.prems(3) by linarith
  then show ?case
  proof cases
    case none
    then have "cut_at bs (Suc i) budget (int i) 0"
      by (auto simp: cut_at_def intro!: exI [of _ "Suc i"])
    then show ?thesis using none by (simp add: pass_requests_def)
  next
    case whole
    let ?s = "pass_requests ?b s"
    have "\<forall>x \<in> set (concat bs). \<exists>c. spec_confidence fl (heap ?s x) = Inr c"
      using Suc.prems(1) by (simp only: same_but_passed_irrelevant [OF same_but_passed_pass])
    then obtain d' idx k where
      IH: "pass_loop fl w bs i (budget - py_len ?b) (fl (of_nat i * w)) 0 ?s =
          Inr (d', idx, k, pass_requests (take (nat (budget - py_len ?b)) (ranked bs i)) ?s)"
        "cut_at bs i (budget - py_len ?b) idx k"
      using Suc.IH [of ?s "budget - py_len ?b"] len whole by fastforce
    have take: "take (nat budget) (ranked bs (Suc i)) =
        ?b @ take (nat (budget - py_len ?b)) (ranked bs i)"
      using whole by (simp add: r py_len_def nat_diff_distrib)
    have drop: "concat (rev (drop j (take (Suc i) bs))) =
        ?b @ concat (rev (drop j (take i bs)))" if "j \<le> i" for j
      using that len by (simp add: take_Suc_conv_app_nth)
    from IH(2) have "cut_at bs (Suc i) budget idx k"
      unfolding cut_at_def take
    proof (elim disjE exE conjE)
      fix j assume "j \<le> i" "k = 0"
        "take (nat (budget - py_len ?b)) (ranked bs i) = concat (rev (drop j (take i bs)))"
      then show "k = 0 \<and> (\<exists>j \<le> Suc i. ?b @ take (nat (budget - py_len ?b)) (ranked bs i) =
            concat (rev (drop j (take (Suc i) bs)))) \<or>
          (\<exists>j < Suc i. idx = int j - 1 \<and> 0 < k \<and> k < py_len (bs ! j) \<and>
            ?b @ take (nat (budget - py_len ?b)) (ranked bs i) =
              concat (rev (drop (Suc j) (take (Suc i) bs))) @ take (nat k) (bs ! j))"
        using drop by (metis le_SucI)
    next
      fix j assume j: "j < i" "idx = int j - 1" "0 < k" "k < py_len (bs ! j)"
        "take (nat (budget - py_len ?b)) (ranked bs i) =
          concat (rev (drop (Suc j) (take i bs))) @ take (nat k) (bs ! j)"
      then show "k = 0 \<and> (\<exists>j \<le> Suc i. ?b @ take (nat (budget - py_len ?b)) (ranked bs i) =
            concat (rev (drop j (take (Suc i) bs)))) \<or>
          (\<exists>j < Suc i. idx = int j - 1 \<and> 0 < k \<and> k < py_len (bs ! j) \<and>
            ?b @ take (nat (budget - py_len ?b)) (ranked bs i) =
              concat (rev (drop (Suc j) (take (Suc i) bs))) @ take (nat k) (bs ! j))"
        using drop [of "Suc j"] by (intro disjI2 exI [of _ j]) simp
    qed
    then show ?thesis
      using IH(1) whole by (auto simp: take pass_requests_append Let_def)
  next
    case cut
    have b: "nat budget < length ?b" using cut by (simp add: py_len_def)
    let ?s = "pass_requests (take (nat budget) ?b) s"
    have "?b \<in> set bs" "?b ! nat budget \<in> set ?b" using len b by simp_all
    then have "?b ! nat budget \<in> set (concat bs)" by (simp only: set_concat) blast
    then obtain c where c: "spec_confidence fl (heap s (?b ! nat budget)) = Inr c"
      using Suc.prems(1) by blast
    have get: "py_get ?b budget = Inr (?b ! nat budget)"
      using cut by (simp add: py_get_nonneg py_len_def)
    have slice: "py_slice ?b 0 budget = take (nat budget) ?b"
      using py_slice_nat [of 0 ?b "nat budget"] b cut(1) by simp
    have take: "take (nat budget) (ranked bs (Suc i)) = take (nat budget) ?b"
      using b by (simp add: r)
    have "cut_at bs (Suc i) budget (int i - 1) budget"
      using cut len unfolding cut_at_def take by (intro disjI2 exI [of _ i]) auto
    moreover have "pass_loop fl w bs (Suc i) budget d 0 s = Inr (c, int i - 1, budget, ?s)"
      using cut c get slice pass_loop_stop
      by (simp add: Let_def min_def same_but_passed_irrelevant [OF same_but_passed_pass])
    ultimately show ?thesis by (auto simp: take)
  qed
qed

text \<open>The ranking lists each candidate once, by falling bucket.\<close>

lemma set_ranked:
  "i \<le> n \<Longrightarrow> set (ranked (buckets fl n s) i) =
    {x \<in> set (running_scheduled s). \<exists>j < i. in_bucket fl n s j x}"
proof (induction i)
  case (Suc i)
  then have "ranked (buckets fl n s) (Suc i) =
      filter (in_bucket fl n s i) (running_scheduled s) @ ranked (buckets fl n s) i"
    by (subst ranked_Suc) (simp_all add: buckets_def)
  with Suc show ?case by (auto simp: less_Suc_eq)
qed simp

lemma in_bucket_unique: "in_bucket fl n s i x \<Longrightarrow> in_bucket fl n s j x \<Longrightarrow> i = j"
  by (simp add: in_bucket_def)

lemma distinct_ranked:
  assumes "distinct (running_scheduled s)" "i \<le> n"
  shows "distinct (ranked (buckets fl n s) i)"
  using assms(2)
proof (induction i)
  case (Suc i)
  have "ranked (buckets fl n s) (Suc i) =
      filter (in_bucket fl n s i) (running_scheduled s) @ ranked (buckets fl n s) i"
    using Suc.prems by (subst ranked_Suc) (simp_all add: buckets_def)
  moreover have "set (filter (in_bucket fl n s i) (running_scheduled s)) \<inter>
      set (ranked (buckets fl n s) i) = {}"
  proof (rule equals0I)
    fix x assume "x \<in> set (filter (in_bucket fl n s i) (running_scheduled s)) \<inter>
      set (ranked (buckets fl n s) i)"
    then obtain j where "j < i" "in_bucket fl n s j x" "in_bucket fl n s i x"
      using Suc.prems by (auto simp: set_ranked)
    then show False using in_bucket_unique [of fl n s i x j] by simp
  qed
  ultimately show ?case using Suc assms(1) by simp
qed simp

lemma sorted_ranked:
  assumes "i \<le> n"
  shows "sorted_wrt (\<lambda>x y. \<forall>a b. in_bucket fl n s a x \<longrightarrow> in_bucket fl n s b y \<longrightarrow> b \<le> a)
    (ranked (buckets fl n s) i)"
  using assms
proof (induction i)
  case (Suc i)
  have r: "ranked (buckets fl n s) (Suc i) =
      filter (in_bucket fl n s i) (running_scheduled s) @ ranked (buckets fl n s) i"
    using Suc.prems by (subst ranked_Suc) (simp_all add: buckets_def)
  have "sorted_wrt (\<lambda>x y. \<forall>a b. in_bucket fl n s a x \<longrightarrow> in_bucket fl n s b y \<longrightarrow> b \<le> a)
      (filter (in_bucket fl n s i) (running_scheduled s))"
    by (rule sorted_wrt_mono_rel [where P = "\<lambda>x y. True"])
      (auto simp: sorted_wrt_iff_nth_less dest: in_bucket_unique)
  moreover have "\<forall>x \<in> set (filter (in_bucket fl n s i) (running_scheduled s)).
      \<forall>y \<in> set (ranked (buckets fl n s) i).
        \<forall>a b. in_bucket fl n s a x \<longrightarrow> in_bucket fl n s b y \<longrightarrow> b \<le> a"
  proof (intro ballI allI impI)
    fix x y a b
    assume x: "x \<in> set (filter (in_bucket fl n s i) (running_scheduled s))"
      and y: "y \<in> set (ranked (buckets fl n s) i)"
      and ab: "in_bucket fl n s a x" "in_bucket fl n s b y"
    have "a = i" using x ab(1) in_bucket_unique by fastforce
    moreover obtain j where "j < i" "in_bucket fl n s j y"
      using y Suc.prems by (auto simp: set_ranked)
    ultimately show "b \<le> a" using ab(2) in_bucket_unique by (metis less_imp_le)
  qed
  ultimately show ?case using Suc unfolding r sorted_wrt_append by simp
qed simp

text \<open>The number of requests the drop lets through, after those that run a real token.\<close>

definition pass_budget :: "sched_config \<Rightarrow> sched_env \<Rightarrow> scheduler \<Rightarrow> int" where
  "pass_budget cfg env s =
     max (py_len (running_scheduled s)
          - py_int (env_fl env (of_int (py_len (running_scheduled s)) * drop_ratio cfg))
          - py_len (filter (\<lambda>x. real_token_request (heap s x)) (running_scheduled s))) 0"

definition confidences_ok :: "sched_config \<Rightarrow> sched_env \<Rightarrow> scheduler \<Rightarrow> bool" where
  "confidences_ok cfg env s \<longleftrightarrow> 0 < num_conf_buckets cfg \<and>
     (\<forall>x \<in> set (running_scheduled s). drop_candidate (heap s x) \<longrightarrow>
        (\<exists>i. bucket_of (env_fl env) (num_conf_buckets cfg) (heap s x) = Inr i))"

text \<open>What happens before the boost.\<close>

lemma drop_selection:
  assumes "confidences_ok cfg env s"
  defines "fl \<equiv> env_fl env" and "n \<equiv> num_conf_buckets cfg"
  shows "\<exists>d idx k. apply_confidence_drop cfg env s =
      (let s' = pass_requests (take (nat (pass_budget cfg env s)) (ranked (buckets fl n s) n))
                  (unpass (running_scheduled s) s)
       in if enable_la_sched2 cfg
          then ebind (length_aware_boost cfg env (buckets fl n s) idx k s') (\<lambda>s''. Inr (d, s''))
          else Inr (d, s')) \<and>
    cut_at (buckets fl n s) n (pass_budget cfg env s) idx k"
proof -
  let ?s1 = "unpass (running_scheduled s) s"
  have sort: "sort_buckets fl n s =
      Inr (py_len (filter (\<lambda>x. real_token_request (heap s x)) (running_scheduled s)),
           buckets fl n s, ?s1)"
    using assms(1) unfolding fl_def n_def confidences_ok_def by (intro sort_buckets_eq) simp_all
  have "\<forall>x \<in> set (concat (buckets fl n s)). \<exists>c. spec_confidence fl (heap ?s1 x) = Inr c"
    by (auto simp: buckets_def in_bucket_def bucket_of_def res_simps
        same_but_passed_irrelevant [OF unpass_frame])
  from pass_loop_eq [OF this, of n "pass_budget cfg env s" "fl (1 / of_nat n)" 0]
  obtain d idx k where pass:
    "pass_loop fl (fl (1 / of_nat n)) (buckets fl n s) n (pass_budget cfg env s) 0 0 ?s1 =
      Inr (d, idx, k, pass_requests (take (nat (pass_budget cfg env s)) (ranked (buckets fl n s) n)) ?s1)"
    "cut_at (buckets fl n s) n (pass_budget cfg env s) idx k"
    by (auto simp: buckets_def pass_budget_def)
  have "apply_confidence_drop cfg env s =
      (let s' = pass_requests (take (nat (pass_budget cfg env s)) (ranked (buckets fl n s) n)) ?s1
       in if enable_la_sched2 cfg
          then ebind (length_aware_boost cfg env (buckets fl n s) idx k s') (\<lambda>s''. Inr (d, s''))
          else Inr (d, s'))"
    using pass(1)
    by (simp add: apply_confidence_drop_def Let_def sort pass_budget_def flip: fl_def n_def)
  with pass(2) show ?thesis by blast
qed

section \<open>The boost\<close>

text \<open>The boost raises flags, of requests it scans only.\<close>

definition boosted :: "oid set \<Rightarrow> scheduler \<Rightarrow> scheduler \<Rightarrow> bool" where
  "boosted A s s' \<longleftrightarrow> same_but_passed s s' \<and> (\<forall>y. y \<notin> A \<longrightarrow> heap s' y = heap s y)"

lemma boosted_refl [simp]: "boosted A s s"
  by (simp add: boosted_def)

lemma boosted_trans: "boosted A s t \<Longrightarrow> boosted B t u \<Longrightarrow> boosted (A \<union> B) s u"
  using same_but_passed_trans by (auto simp: boosted_def)

lemma boosted_mono: "boosted A s t \<Longrightarrow> A \<subseteq> B \<Longrightarrow> boosted B s t"
  by (auto simp: boosted_def)

lemma boost_step_ok:
  "boost_step cfg env x (l, s) = Inr (l', s') \<Longrightarrow> boosted {x} s s'"
  using same_but_passed_upd [of s x True]
  by (auto simp: boost_step_def res_simps boosted_def split: if_splits)

lemma boost_bucket_ok:
  "boost_bucket cfg env xs (l, s) = Inr (l', s') \<Longrightarrow> boosted (set xs) s s'"
proof (induction xs arbitrary: l s)
  case (Cons x xs)
  then obtain l1 s1 where step: "boost_step cfg env x (l, s) = Inr (l1, s1)"
    by (auto simp: res_simps)
  show ?case
  proof (cases "l1 = 0")
    case True
    then show ?thesis
      using Cons.prems step boosted_mono [OF boost_step_ok [OF step]] by auto
  next
    case False
    then have "boosted (set xs) s1 s'" using Cons step by auto
    from boosted_trans [OF boost_step_ok [OF step] this] show ?thesis by simp
  qed
qed simp

lemma boost_below_ok:
  "boost_below cfg env bs i (l, s) = Inr (l', s') \<Longrightarrow> boosted (\<Union>j < i. set (bs ! j)) s s'"
proof (induction i arbitrary: l s)
  case (Suc i)
  then obtain l1 s1 where step: "boost_bucket cfg env (bs ! i) (l, s) = Inr (l1, s1)"
    by (auto simp: res_simps)
  show ?case
  proof (cases "l1 = 0")
    case True
    then show ?thesis
      using Suc.prems step boosted_mono [OF boost_bucket_ok [OF step], of "\<Union>j < Suc i. set (bs ! j)"]
      by auto
  next
    case False
    then have "boosted (\<Union>j < i. set (bs ! j)) s1 s'" using Suc step by auto
    from boosted_trans [OF boost_bucket_ok [OF step] this] show ?thesis
      by (rule boosted_mono) (auto simp: less_Suc_eq)
  qed
qed simp

lemma set_py_from: "set (py_from xs i) \<subseteq> set xs"
  by (simp add: py_from_def set_drop_subset)

lemma length_aware_boost_ok:
  assumes "length_aware_boost cfg env bs idx k s = Inr s'"
  shows "\<exists>b0 bound. boosted (b0 \<union> (\<Union>j < bound. set (bs ! j))) s s' \<and>
    (if k \<noteq> 0 then (\<exists>b. py_get bs idx = Inr b \<and> b0 = set b) \<and> bound = nat idx
     else b0 = {} \<and> bound = nat (idx + 1))"
proof -
  define first where "first = (if k \<noteq> 0
    then ebind (py_get bs idx) (\<lambda>b.
         ebind (boost_bucket cfg env (py_from b k) (la_sched2_max_reqs cfg, s)) (\<lambda>st.
         Inr (idx - 1, st)))
    else Inr (idx, (la_sched2_max_reqs cfg, s)))"
  from assms obtain p where p: "first = Inr p"
    "(case p of (i, st) \<Rightarrow> ebind (if fst st \<noteq> 0 then boost_below cfg env bs (nat (i + 1)) st
       else Inr st) (\<lambda>st'. Inr (snd st'))) = Inr s'"
    unfolding length_aware_boost_def first_def [symmetric] by (rule ebind_InrE)
  obtain idx1 l1 s1 where split: "p = (idx1, l1, s1)" by (cases p)
  have first: "first = Inr (idx1, l1, s1)" using p(1) split by simp
  from p(2) obtain q where "(if l1 \<noteq> 0 then boost_below cfg env bs (nat (idx1 + 1)) (l1, s1)
      else Inr (l1, s1)) = Inr q" "snd q = s'"
    unfolding split by (auto elim: ebind_InrE)
  then obtain l2 where rest: "(if l1 \<noteq> 0 then boost_below cfg env bs (nat (idx1 + 1)) (l1, s1)
      else Inr (l1, s1)) = Inr (l2, s')"
    by (cases q) simp
  have below: "boosted (\<Union>j < nat (idx1 + 1). set (bs ! j)) s1 s'"
    using rest boost_below_ok by (cases "l1 = 0") auto
  show ?thesis
  proof (cases "k = 0")
    case True
    then have "idx1 = idx" "s1 = s" using first by (simp_all add: first_def)
    then show ?thesis using below True by auto
  next
    case False
    then obtain b where b: "py_get bs idx = Inr b" "idx1 = idx - 1"
      "boost_bucket cfg env (py_from b k) (la_sched2_max_reqs cfg, s) = Inr (l1, s1)"
      using first by (auto simp: first_def res_simps)
    have "boosted (set b) s s1"
      using boosted_mono [OF boost_bucket_ok [OF b(3)] set_py_from] .
    from boosted_trans [OF this below] show ?thesis
      using False b(1,2) by (intro exI [of _ "set b"] exI [of _ "nat idx"]) simp
  qed
qed

text \<open>Whatever the version, the drop changes the flags only; without the boost it cannot fail.\<close>

lemma apply_confidence_drop_ok:
  assumes "confidences_ok cfg env s"
  shows "res_ok (enable_la_sched2 cfg) (\<lambda>(d, s'). same_but_passed s s')
    (apply_confidence_drop cfg env s)"
proof -
  let ?sel = "pass_requests (take (nat (pass_budget cfg env s))
    (ranked (buckets (env_fl env) (num_conf_buckets cfg) s) (num_conf_buckets cfg)))
    (unpass (running_scheduled s) s)"
  have sel: "same_but_passed s ?sel"
    by (rule same_but_passed_trans [OF unpass_frame same_but_passed_pass])
  obtain d idx k where eq: "apply_confidence_drop cfg env s =
      (if enable_la_sched2 cfg
       then ebind (length_aware_boost cfg env (buckets (env_fl env) (num_conf_buckets cfg) s)
              idx k ?sel) (\<lambda>s''. Inr (d, s''))
       else Inr (d, ?sel))"
    using drop_selection [OF assms] unfolding Let_def by blast
  show ?thesis
  proof (cases "length_aware_boost cfg env (buckets (env_fl env) (num_conf_buckets cfg) s) idx k ?sel")
    case (Inr s')
    then have "same_but_passed ?sel s'"
      using length_aware_boost_ok [OF Inr] by (auto simp: boosted_def)
    then have "same_but_passed s s'" using sel same_but_passed_trans by blast
    then show ?thesis unfolding eq using sel Inr by simp
  next
    case (Inl e)
    then show ?thesis unfolding eq using sel by simp
  qed
qed

section \<open>Properties\<close>

text \<open>
  C29: the confidence drop keeps exactly the most confident requests. Without the boost, and when
  every candidate has a confidence that falls into a bucket, the drop returns, changes nothing
  but the flags, and passes only candidates: as many as the budget (the batch less the dropped
  fraction less the requests that run a real token, at least 0) or all of them, and none of
  them lies in a lower bucket than a candidate that is dropped.
\<close>

theorem confidence_drop_selects:
  assumes "confidences_ok cfg env s" "\<not> enable_la_sched2 cfg" "distinct (running_scheduled s)"
  shows "\<exists>d s'. apply_confidence_drop cfg env s = Inr (d, s') \<and> same_but_passed s s' \<and>
    (let passed = {x \<in> set (running_scheduled s). confidence_passed (heap s' x)};
         candidates = {x \<in> set (running_scheduled s). drop_candidate (heap s x)}
     in passed \<subseteq> candidates \<and>
        int (card passed) = min (pass_budget cfg env s) (int (card candidates)) \<and>
        (\<forall>x \<in> passed. \<forall>y \<in> candidates - passed. \<forall>a b.
           bucket_of (env_fl env) (num_conf_buckets cfg) (heap s x) = Inr a \<longrightarrow>
           bucket_of (env_fl env) (num_conf_buckets cfg) (heap s y) = Inr b \<longrightarrow> b \<le> a))"
proof -
  let ?fl = "env_fl env" and ?n = "num_conf_buckets cfg"
  let ?ranked = "ranked (buckets ?fl ?n s) ?n" and ?k = "nat (pass_budget cfg env s)"
  let ?s = "pass_requests (take ?k ?ranked) (unpass (running_scheduled s) s)"
  let ?passed = "{x \<in> set (running_scheduled s). confidence_passed (heap ?s x)}"
  let ?cands = "{x \<in> set (running_scheduled s). drop_candidate (heap s x)}"
  obtain d where eq: "apply_confidence_drop cfg env s = Inr (d, ?s)"
    using drop_selection [OF assms(1)] assms(2) unfolding Let_def by auto
  have same: "same_but_passed s ?s"
    by (rule same_but_passed_trans [OF unpass_frame same_but_passed_pass])
  have cands: "set ?ranked = ?cands"
    using assms(1) by (auto simp: set_ranked confidences_ok_def in_bucket_def dest: bucket_of_less)
  have passed: "?passed = set (take ?k ?ranked)"
    using cands by (auto simp: pass_requests_passed unpass_passed dest: in_set_takeD)
  have dist: "distinct ?ranked" using assms(3) by (intro distinct_ranked) simp_all
  have "card ?passed = min ?k (length ?ranked)"
    unfolding passed using dist by (simp add: distinct_card min.commute)
  moreover have "length ?ranked = card ?cands" using cands dist by (metis distinct_card)
  moreover have "0 \<le> pass_budget cfg env s" by (simp add: pass_budget_def)
  ultimately have card: "int (card ?passed) = min (pass_budget cfg env s) (int (card ?cands))"
    by (simp add: min_def nat_le_iff)
  have order: "b \<le> a" if "x \<in> ?passed" "y \<in> ?cands - ?passed"
    "bucket_of ?fl ?n (heap s x) = Inr a" "bucket_of ?fl ?n (heap s y) = Inr b" for x y a b
  proof -
    have x: "x \<in> set (take ?k ?ranked)" using that(1) passed by blast
    have "y \<in> set ?ranked" "y \<notin> set (take ?k ?ranked)" using that(2) passed cands by blast+
    then have y: "y \<in> set (drop ?k ?ranked)" by (metis Un_iff append_take_drop_id set_append)
    have "x \<in> ?cands" using that(1) passed cands in_set_takeD x by fast
    then have xy: "in_bucket ?fl ?n s a x" "in_bucket ?fl ?n s b y"
      using that by (auto simp: in_bucket_def)
    have "sorted_wrt (\<lambda>x y. \<forall>a b. in_bucket ?fl ?n s a x \<longrightarrow> in_bucket ?fl ?n s b y \<longrightarrow> b \<le> a)
        (take ?k ?ranked @ drop ?k ?ranked)"
      unfolding append_take_drop_id by (rule sorted_ranked) simp
    then show ?thesis using x y xy unfolding sorted_wrt_append by blast
  qed
  have "?passed \<subseteq> ?cands" using passed cands in_set_takeD by fast
  then show ?thesis
    using eq same card order unfolding Let_def by blast
qed

text \<open>
  The boost misses the bucket in which the cut falls. Its documentation says that it resumes
  exactly where the selection stopped, but the bucket index has already moved on: with at least
  two buckets, a request that the selection drops although it passes another one of the same
  bucket stays dropped, whatever its predicted length and confidence.
\<close>

theorem boost_misses_cut_bucket:
  assumes "confidences_ok cfg env s" "enable_la_sched2 cfg" "2 \<le> num_conf_buckets cfg"
    and "apply_confidence_drop cfg env s = Inr (d, s')"
    and "apply_confidence_drop (cfg\<lparr>enable_la_sched2 := False\<rparr>) env s = Inr (d0, s0)"
    and "x \<in> set (running_scheduled s)" "y \<in> set (running_scheduled s)"
    and "drop_candidate (heap s x)" "drop_candidate (heap s y)"
    and "bucket_of (env_fl env) (num_conf_buckets cfg) (heap s x) = Inr b"
      "bucket_of (env_fl env) (num_conf_buckets cfg) (heap s y) = Inr b"
    and "confidence_passed (heap s0 y)" "\<not> confidence_passed (heap s0 x)"
  shows "\<not> confidence_passed (heap s' x)"
proof -
  let ?fl = "env_fl env" and ?n = "num_conf_buckets cfg"
  let ?bs = "buckets ?fl ?n s" and ?k = "nat (pass_budget cfg env s)"
  let ?take = "take ?k (ranked ?bs ?n)"
  let ?sel = "pass_requests ?take (unpass (running_scheduled s) s)"
  have "confidences_ok (cfg\<lparr>enable_la_sched2 := False\<rparr>) env s"
    using assms(1) by (simp add: confidences_ok_def)
  from drop_selection [OF this] have s0: "s0 = ?sel"
    using assms(5) unfolding Let_def by (auto simp: pass_budget_def)
  obtain d1 idx k where sel: "apply_confidence_drop cfg env s =
      ebind (length_aware_boost cfg env ?bs idx k ?sel) (\<lambda>s''. Inr (d1, s''))"
    and cut: "cut_at ?bs ?n (pass_budget cfg env s) idx k"
    using drop_selection [OF assms(1)] assms(2) unfolding Let_def by auto
  have boost: "length_aware_boost cfg env ?bs idx k ?sel = Inr s'"
    using assms(4) unfolding sel by (auto simp: res_simps)
  have y: "y \<in> set ?take" and x: "x \<notin> set ?take"
    using assms(6,7,12,13) unfolding s0 by (simp_all add: pass_requests_passed unpass_passed)
  have bn: "b < ?n" using bucket_of_less [OF assms(10)] .
  have only: "i = b" if "i < ?n" "z \<in> set (?bs ! i)" "z = x \<or> z = y" for i z
    using that assms(10,11) by (auto simp: buckets_def in_bucket_def)
  have mem: "x \<in> set (?bs ! b)" "y \<in> set (?bs ! b)"
    using bn assms(6-11) by (simp_all add: buckets_def in_bucket_def)
  have len: "length ?bs = ?n" by (simp add: buckets_def)
  have whole: False if j: "set (concat (rev (drop j (take ?n ?bs)))) \<subseteq> set ?take"
    "y \<in> set (concat (rev (drop j (take ?n ?bs))))" for j
  proof -
    obtain c where c: "c \<in> set (drop j ?bs)" "y \<in> set c" using j(2) len by auto
    then obtain a where a: "a < length (drop j ?bs)" "drop j ?bs ! a = c"
      unfolding in_set_conv_nth by blast
    define i where "i = j + a"
    have i: "j \<le> i" "i < ?n" "y \<in> set (?bs ! i)"
      using a c(2) len by (auto simp: i_def)
    then have "i = b" using only by blast
    then have "?bs ! b \<in> set (drop j ?bs)"
      using i(1,2) len by (auto simp: in_set_conv_nth intro!: exI [of _ "b - j"])
    then have "x \<in> set (concat (rev (drop j (take ?n ?bs))))" using mem(1) len by auto
    then show False using j(1) x by blast
  qed
  obtain j where j: "j < ?n" "idx = int j - 1" "0 < k" "k < py_len (?bs ! j)"
    "?take = concat (rev (drop (Suc j) (take ?n ?bs))) @ take (nat k) (?bs ! j)"
    using cut y whole unfolding cut_at_def by (metis order_refl)
  have "y \<in> set (take (nat k) (?bs ! j))" using y j(5) whole [of "Suc j"] by auto
  then have jb: "j = b" using only j(1) in_set_takeD by fast
  obtain b0 where b0: "boosted (b0 \<union> (\<Union>i < nat idx. set (?bs ! i))) ?sel s'"
    "\<exists>c. py_get ?bs idx = Inr c \<and> b0 = set c"
    using length_aware_boost_ok [OF boost] j(3) by auto
  have "x \<notin> b0"
  proof (cases "j = 0")
    case True
    have ne: "?bs \<noteq> []" using assms(3) len by auto
    then have "last ?bs = ?bs ! (?n - 1)" using len by (simp add: last_conv_nth)
    then have "b0 = set (?bs ! (?n - 1))"
      using b0(2) j(2) True py_get_last [OF ne] by auto
    then show ?thesis using only [of "?n - 1" x] jb True assms(3) by auto
  next
    case False
    then have "py_get ?bs idx = Inr (?bs ! (j - 1))"
      using j(1,2) len by (simp add: py_get_nonneg nat_diff_distrib')
    then have b0': "b0 = set (?bs ! (j - 1))" using b0(2) by auto
    have "j - 1 < ?n" "j - 1 \<noteq> b" using jb False j(1) by simp_all
    then show ?thesis using only [of "j - 1" x] b0' by blast
  qed
  moreover have "x \<notin> set (?bs ! i)" if "i < nat idx" for i
  proof -
    have "i < ?n" "i \<noteq> b" using that j(1,2) jb by simp_all
    then show ?thesis using only [of i x] by blast
  qed
  ultimately have "x \<notin> b0 \<union> (\<Union>i < nat idx. set (?bs ! i))" by blast
  then have "heap s' x = heap ?sel x" using b0(1) unfolding boosted_def by blast
  then show ?thesis using assms(13) s0 by simp
qed

text \<open>
  Witnesses: three requests in speculation, two of them in the upper bucket, of which the
  drop passes one.
\<close>

definition sample_batch :: "oid \<Rightarrow> request" where
  "sample_batch x = sample_speculating (replicate x CHR ''r'') (if x = 2 then 1 / 5 else 4 / 5)"

abbreviation sample_running :: scheduler where
  "sample_running \<equiv> (sample_scheduler sample_batch)\<lparr>running_scheduled := [0, 1, 2]\<rparr>"

lemma sample_floor: "\<lfloor>8 / 5 :: rat\<rfloor> = 1" "\<lfloor>2 / 5 :: rat\<rfloor> = 0" "\<lfloor>3 / 2 :: rat\<rfloor> = 1" "\<lfloor>2 :: rat\<rfloor> = 2"
  by (simp_all add: floor_eq_iff)

lemma sample_batch_bucket:
  "drop_candidate (sample_batch x)"
  "bucket_of (\<lambda>x. x) 2 (sample_batch x) = Inr (if x = 2 then 0 else 1)"
  by (simp_all add: sample_batch_def sample_speculating_def drop_candidate_def
      has_pending_real_token_def bucket_of_def spec_confidence_def bucket_index_def py_int_def
      sample_floor)

lemma sample_running_ok:
  "confidences_ok sample_config sample_env sample_running"
  "pass_budget sample_config sample_env sample_running = 2"
  using sample_batch_bucket
  by (auto simp: confidences_ok_def pass_budget_def sample_config_def sample_env_def py_int_def
      real_token_request_def drop_candidate_def sample_floor)

theorem confidence_drop_selects_witness:
  "\<exists>d s'. apply_confidence_drop sample_config sample_env sample_running = Inr (d, s') \<and>
    card {x \<in> {0, 1, 2}. confidence_passed (heap s' x)} = 2"
proof -
  let ?A = "{x \<in> set (running_scheduled sample_running). drop_candidate (heap sample_running x)}"
  have "?A = {0, 1, 2}" using sample_batch_bucket(1) by auto
  then have A: "card ?A = 3" by simp
  have la: "\<not> enable_la_sched2 sample_config" by (simp add: sample_config_def)
  have "distinct (running_scheduled sample_running)" by simp
  from confidence_drop_selects [OF sample_running_ok(1) la this] A sample_running_ok(2)
  obtain d s' where "apply_confidence_drop sample_config sample_env sample_running = Inr (d, s')"
    "int (card {x \<in> set (running_scheduled sample_running). confidence_passed (heap s' x)}) = 2"
    unfolding Let_def by auto
  moreover have "set (running_scheduled sample_running) = {0, 1, 2}" by simp
  ultimately show ?thesis by auto
qed

definition boost_config :: sched_config where
  "boost_config = sample_config\<lparr>enable_la_sched2 := True, drop_ratio := 2 / 3\<rparr>"

lemma sample_buckets: "buckets (\<lambda>x. x) 2 sample_running = [[2], [0, 1]]"
  using sample_batch_bucket by (simp add: buckets_def in_bucket_def upt_rec)

lemma boost_sample:
  "\<exists>d s' d0 s0. apply_confidence_drop boost_config sample_env sample_running = Inr (d, s') \<and>
    apply_confidence_drop (boost_config\<lparr>enable_la_sched2 := False\<rparr>) sample_env sample_running
      = Inr (d0, s0) \<and>
    confidence_passed (heap s0 0) \<and> \<not> confidence_passed (heap s0 1)"
proof -
  have conf: "spec_confidence (\<lambda>x. x) (sample_batch 1) = Inr (4 / 5)"
    by (simp add: sample_batch_def sample_speculating_def spec_confidence_def)
  let ?s = "unpass [0, 1, 2] sample_running"
  have sort: "sort_buckets (\<lambda>x. x) 2 sample_running = Inr (0, [[2], [0, 1]], ?s)"
    using sort_buckets_eq [of 2 sample_running "\<lambda>x. x"] sample_batch_bucket
    unfolding sample_buckets by (simp add: real_token_request_def drop_candidate_def)
  have pass: "pass_loop (\<lambda>x. x) (1 / 2) [[2], [0, 1]] 2 1 0 0 ?s =
      Inr (4 / 5, 0, 1, pass_requests [0] ?s)"
  proof -
    have "spec_confidence (\<lambda>x. x) (heap (pass_requests [0] ?s) 1) = Inr (4 / 5)"
      using conf by (simp add: same_but_passed_irrelevant(1) [OF same_but_passed_pass]
          same_but_passed_irrelevant(1) [OF unpass_frame])
    then show ?thesis
      by (simp add: numeral_2_eq_2 Let_def py_slice_def py_clamp_def py_get_nonneg min_def)
  qed
  have drop: "apply_confidence_drop (boost_config\<lparr>enable_la_sched2 := b\<rparr>) sample_env sample_running =
      (if b then Inr (4 / 5, pass_requests [0] ?s) else Inr (4 / 5, pass_requests [0] ?s))" for b
    using sort pass
    by (simp add: apply_confidence_drop_def boost_config_def sample_config_def sample_env_def
        py_int_def sample_floor length_aware_boost_def py_get_nonneg py_from_def py_clamp_def
        max_def)
  have "boost_config\<lparr>enable_la_sched2 := True\<rparr> = boost_config" by (simp add: boost_config_def)
  then have "apply_confidence_drop boost_config sample_env sample_running =
      Inr (4 / 5, pass_requests [0] ?s)"
    using drop [of True] by simp
  moreover have "confidence_passed (heap (pass_requests [0] ?s) 0)"
    "\<not> confidence_passed (heap (pass_requests [0] ?s) 1)"
    by (simp_all add: pass_requests_passed unpass_passed)
  moreover have "apply_confidence_drop (boost_config\<lparr>enable_la_sched2 := False\<rparr>) sample_env
      sample_running = Inr (4 / 5, pass_requests [0] ?s)"
    using drop [of False] by simp
  ultimately show ?thesis by blast
qed

theorem boost_misses_cut_bucket_witness:
  "\<exists>d s'. apply_confidence_drop boost_config sample_env sample_running = Inr (d, s') \<and>
    expect_remain_len_idx (lenprob_threshold boost_config) (sample_batch 1) =
      Inr (la_sched2_lenidx_thre boost_config) \<and> \<not> confidence_passed (heap s' 1)"
proof -
  obtain d s' d0 s0 where s:
    "apply_confidence_drop boost_config sample_env sample_running = Inr (d, s')"
    "apply_confidence_drop (boost_config\<lparr>enable_la_sched2 := False\<rparr>) sample_env sample_running
      = Inr (d0, s0)"
    "confidence_passed (heap s0 0)" "\<not> confidence_passed (heap s0 1)"
    using boost_sample by blast
  have ok: "confidences_ok boost_config sample_env sample_running" "enable_la_sched2 boost_config"
    "2 \<le> num_conf_buckets boost_config"
    using sample_running_ok(1) by (simp_all add: boost_config_def confidences_ok_def sample_config_def)
  have "\<not> confidence_passed (heap s' 1)"
    by (rule boost_misses_cut_bucket [OF ok s(1,2) _ _ _ _ _ _ s(3,4), where b = 1])
      (use sample_batch_bucket in \<open>simp_all add: boost_config_def sample_config_def sample_env_def\<close>)
  moreover have "expect_remain_len_idx (lenprob_threshold boost_config) (sample_batch 1) =
      Inr (la_sched2_lenidx_thre boost_config)"
    by (simp add: boost_config_def sample_config_def expect_remain_len_idx_def sample_batch_def
        sample_speculating_def py_get_nonneg)
  ultimately show ?thesis using s(1) by blast
qed

end
