(* ===== verification/SchedSafety.thy ===== *)
theory SchedSafety
  imports ConfidenceDrop
begin

text \<open>
  \<open>schedule\<close> of the speculative scheduler: it keeps the invariant, none of its assertions can
  fail, and its output is consistent. The phases are treated one after the other; an invariant
  of the batch relates the local variables to the running list.
\<close>

section \<open>What \<open>schedule\<close> expects of a request\<close>

text \<open>
  A recorded correction points into the output, the request is text only, and its tokens fit
  the model; a running request that is not being dropped has a token to compute.
\<close>

definition correction_ok :: "request \<Rightarrow> bool" where
  "correction_ok r \<longleftrightarrow>
     (postpreempt_spec_result r = Some False \<longrightarrow>
        (\<exists>i. postpreempt_fixed_idx r = Some i \<and> 0 \<le> i \<and> i < py_len (output_token_ids r))) \<and>
     (spec_result r = Some False \<longrightarrow>
        (\<exists>i. fixed_idx r = Some i \<and> 0 \<le> i \<and> i < py_len (output_token_ids r)))"

definition request_fits :: "sched_config \<Rightarrow> request \<Rightarrow> bool" where
  "request_fits cfg r \<longleftrightarrow> correction_ok r \<and> mm_positions r = [] \<and> \<not> use_structured_output r \<and>
     0 \<le> num_computed_tokens r \<and> 0 < num_tokens r \<and> 0 \<le> num_lookahead_tokens cfg \<and>
     num_tokens_with_spec r + num_lookahead_tokens cfg \<le> max_model_len cfg"

definition request_ready :: "request \<Rightarrow> bool" where
  "request_ready r \<longleftrightarrow> num_computed_tokens r < num_tokens_with_spec r \<or>
     \<not> has_pending_real_token r \<and> (confidence_dropped r \<or> stop_dropped r)"

text \<open>
  Together with the frame of a run of \<open>schedule\<close> until its output is made: the payload cached
  for an id is about that id, and \<open>F\<close> are the ids that have finished since the last run.
\<close>

definition all_fit :: "sched_config \<Rightarrow> string set \<Rightarrow> scheduler \<Rightarrow> bool" where
  "all_fit cfg F s \<longleftrightarrow> (\<forall>x \<in> set (tracked s). request_fits cfg (heap s x)) \<and>
     (\<forall>i d. cached_reqs_data s i = Some d \<longrightarrow> cr_req_id d = i) \<and> finished_req_ids s = F"

lemma num_tokens_le_with_spec: "num_tokens r \<le> num_tokens_with_spec r"
  by (simp add: num_tokens_def num_tokens_with_spec_def)

text \<open>The fields \<open>request_fits\<close> reads.\<close>

lemma request_fits_cong:
  assumes "request_fits cfg r" "correction_ok r'"
    and "mm_positions r' = mm_positions r" "params r' = params r" "all_token_ids r' = all_token_ids r"
      "spec_token_ids r' = spec_token_ids r" "0 \<le> num_computed_tokens r'"
  shows "request_fits cfg r'"
  using assms
  by (simp add: request_fits_def use_structured_output_def num_tokens_def num_tokens_with_spec_def)

lemma correction_ok_mark:
  "correction_ok r \<Longrightarrow> correction_ok (mark_preempted r)"
  by (auto simp: correction_ok_def mark_preempted_def Let_def)

lemma correction_ok_reset:
  "correction_ok r \<Longrightarrow> correction_ok (reset_preempted r)"
  by (simp add: correction_ok_def reset_preempted_def)

lemma mark_reset_fields [simp]:
  "mm_positions (mark_preempted r) = mm_positions r" "params (mark_preempted r) = params r"
  "all_token_ids (mark_preempted r) = all_token_ids r"
  "spec_token_ids (mark_preempted r) = spec_token_ids r"
  "num_computed_tokens (mark_preempted r) = num_computed_tokens r"
  "mm_positions (reset_preempted r) = mm_positions r" "params (reset_preempted r) = params r"
  "all_token_ids (reset_preempted r) = all_token_ids r"
  "spec_token_ids (reset_preempted r) = spec_token_ids r"
  "num_computed_tokens (reset_preempted r) = 0"
  by (simp_all add: mark_preempted_def reset_preempted_def Let_def)

lemma request_fits_preempt:
  assumes "request_fits cfg r"
  shows "request_fits cfg (preempt_fields (r\<lparr>status := st, events := ev\<rparr>))"
proof -
  have fits: "correction_ok r" "0 \<le> num_computed_tokens r"
    using assms by (simp_all add: request_fits_def)
  then have c: "correction_ok (r\<lparr>status := st, events := ev\<rparr>)" by (simp add: correction_ok_def)
  show ?thesis
    by (rule request_fits_cong [OF assms])
      (simp_all add: preempt_fields_def correction_ok_mark correction_ok_reset c fits)
qed

lemma request_fits_preempt': "request_fits cfg r \<Longrightarrow> request_fits cfg (preempt_fields r)"
  using request_fits_preempt [of cfg r "events r" "status r"] by simp

lemma all_fit_evicted:
  assumes "all_fit cfg F s" "evicted_to j s s'"
  shows "all_fit cfg F s'"
proof -
  have "request_fits cfg (heap s' y)" if y: "y \<in> set (tracked s')" for y
  proof -
    have fits: "request_fits cfg (heap s y)"
      using assms y by (simp add: all_fit_def evicted_to_def)
    show ?thesis
    proof (cases "y \<in> set (drop j (running_scheduled s))")
      case True
      then obtain ev where
        "heap s' y = preempt_fields ((heap s y)\<lparr>status := PREEMPTED, events := ev\<rparr>)"
        using assms(2) unfolding evicted_to_def by blast
      then show ?thesis using request_fits_preempt [OF fits] by simp
    next
      case False
      then show ?thesis using assms(2) fits by (simp add: evicted_to_def)
    qed
  qed
  then show ?thesis using assms by (simp add: all_fit_def evicted_to_def)
qed

section \<open>The batch\<close>

declare map_of_eq_Some_iff [simp del]

definition batch :: "sched_local \<Rightarrow> oid list" where
  "batch l = new_reqs l @ resumed_reqs l @ flushed_reqs l @ sp_reqs l"

definition batch_ok :: "sched_config \<Rightarrow> scheduler \<Rightarrow> sched_local \<Rightarrow> bool" where
  "batch_ok cfg s l \<longleftrightarrow>
     total_scheduled l + token_budget l = max_num_scheduled_tokens cfg \<and> 0 \<le> token_budget l \<and>
     distinct (map fst (scheduled_tokens l)) \<and> (\<forall>e \<in> set (scheduled_tokens l). 0 < snd e) \<and>
     structured_ids l = [] \<and> distinct (batch l) \<and>
     fst ` set (scheduled_tokens l) = req_id_of s ` set (batch l) \<and>
     set (batch l) \<subseteq> set (running_scheduled s) \<and>
     (\<forall>x \<in> set (batch l). new_block_ids l (req_id_of s x) \<noteq> None \<and>
        (\<exists>n. map_of (scheduled_tokens l) (req_id_of s x) = Some n \<and> covered s x n))"

text \<open>
  The batch reads of the state only who is running and, of the requests in the batch, the ids,
  the computed tokens and the block tables.
\<close>

definition slots_kept :: "scheduler \<Rightarrow> scheduler \<Rightarrow> oid \<Rightarrow> bool" where
  "slots_kept s s' x \<longleftrightarrow> req_id_of s' x = req_id_of s x \<and>
     num_computed_tokens (heap s' x) = num_computed_tokens (heap s x) \<and>
     req_to_blocks (kv_cache_manager s') (req_id_of s x) =
       req_to_blocks (kv_cache_manager s) (req_id_of s x) \<and>
     block_size (kv_cache_manager s') = block_size (kv_cache_manager s)"

lemma slots_kept_covered: "slots_kept s s' x \<Longrightarrow> covered s' x n = covered s x n"
  by (simp add: slots_kept_def covered_def)

lemma batch_ok_cong:
  assumes "batch_ok cfg s l" "set (batch l) \<subseteq> set (running_scheduled s')"
    and "\<And>x. x \<in> set (batch l) \<Longrightarrow> slots_kept s s' x"
  shows "batch_ok cfg s' l"
proof -
  have id: "req_id_of s' x = req_id_of s x" if "x \<in> set (batch l)" for x
    using assms(3) [OF that] by (simp add: slots_kept_def)
  then have "req_id_of s' ` set (batch l) = req_id_of s ` set (batch l)"
    by (rule image_cong [OF refl])
  moreover have "\<forall>x \<in> set (batch l). new_block_ids l (req_id_of s' x) \<noteq> None \<and>
      (\<exists>n. map_of (scheduled_tokens l) (req_id_of s' x) = Some n \<and> covered s' x n)"
    using assms(1) by (simp add: batch_ok_def id slots_kept_covered [OF assms(3)])
  ultimately show ?thesis using assms(1,2) by (simp add: batch_ok_def)
qed

lemma batch_ok_frame:
  assumes "batch_ok cfg s l" "heap s' = heap s" "running_scheduled s' = running_scheduled s"
    "req_to_blocks (kv_cache_manager s') = req_to_blocks (kv_cache_manager s)"
    "block_size (kv_cache_manager s') = block_size (kv_cache_manager s)"
  shows "batch_ok cfg s' l"
  by (rule batch_ok_cong [OF assms(1)])
    (use assms in \<open>simp_all add: slots_kept_def batch_ok_def\<close>)

lemma batch_ok_local:
  assumes "batch_ok cfg s l" "batch l' = batch l" "scheduled_tokens l' = scheduled_tokens l"
    "token_budget l' = token_budget l" "structured_ids l' = structured_ids l"
    "new_block_ids l' = new_block_ids l"
  shows "batch_ok cfg s l'"
  using assms(1) unfolding batch_ok_def total_scheduled_def assms(2-6) .

lemma alist_update_new: "k \<notin> fst ` set al \<Longrightarrow> AList.update k v al = al @ [(k, v)]"
  by (induction al) auto

lemma ids_distinct:
  assumes "sched_inv cfg F s" "x \<in> set (tracked s)" "y \<in> set (tracked s)"
    and "req_id_of s x = req_id_of s y"
  shows "x = y"
proof -
  have "inj_on (req_id_of s) (set (tracked s))"
    using assms(1) by (simp add: sched_inv_def queues_ok_def distinct_map)
  then show ?thesis using assms(2-4) by (meson inj_onD)
qed

text \<open>A further request joins the batch.\<close>

lemma batch_ok_add:
  assumes "batch_ok cfg s l" "sched_inv cfg F s" "set (running_scheduled s) \<subseteq> set (tracked s)"
    and "x \<in> set (tracked s)" "x \<notin> set (batch l)" "0 < n" "n \<le> token_budget l"
    and "\<And>y. req_id_of s' y = req_id_of s y"
      "\<And>y. y \<in> set (batch l) \<Longrightarrow> slots_kept s s' y" "covered s' x n"
    and "set (running_scheduled s) \<union> {x} \<subseteq> set (running_scheduled s')"
    and "mset (batch l') = add_mset x (mset (batch l))" "structured_ids l' = []"
      "new_block_ids l' = (new_block_ids l)(req_id_of s x \<mapsto> b)"
      "scheduled_tokens l' = AList.update (req_id_of s x) n (scheduled_tokens l)"
      "token_budget l' = token_budget l - n"
  shows "batch_ok cfg s' l'"
proof -
  have b: "total_scheduled l + token_budget l = max_num_scheduled_tokens cfg" "0 \<le> token_budget l"
    "distinct (map fst (scheduled_tokens l))" "\<forall>e \<in> set (scheduled_tokens l). 0 < snd e"
    "distinct (batch l)" "fst ` set (scheduled_tokens l) = req_id_of s ` set (batch l)"
    "set (batch l) \<subseteq> set (running_scheduled s)"
    "\<forall>x \<in> set (batch l). new_block_ids l (req_id_of s x) \<noteq> None \<and>
        (\<exists>n. map_of (scheduled_tokens l) (req_id_of s x) = Some n \<and> covered s x n)"
    using assms(1) by (simp_all add: batch_ok_def)
  have fresh: "req_id_of s x \<notin> fst ` set (scheduled_tokens l)"
  proof
    assume "req_id_of s x \<in> fst ` set (scheduled_tokens l)"
    then obtain y where "y \<in> set (batch l)" "req_id_of s x = req_id_of s y" using b(6) by auto
    then have "x = y" using ids_distinct [OF assms(2,4)] b(7) assms(3) by blast
    then show False using \<open>y \<in> set (batch l)\<close> assms(5) by simp
  qed
  have st: "scheduled_tokens l' = scheduled_tokens l @ [(req_id_of s x, n)]"
    using assms(15) fresh by (simp add: alist_update_new)
  have set: "set (batch l') = insert x (set (batch l))"
    using assms(12) by (metis set_mset_add_mset_insert set_mset_mset)
  have "distinct (batch l')"
    using b(5) assms(5,12) by (metis distinct.simps(2) mset.simps(2) mset_eq_imp_distinct_iff)
  moreover have "new_block_ids l' (req_id_of s' y) \<noteq> None \<and>
      (\<exists>n. map_of (scheduled_tokens l') (req_id_of s' y) = Some n \<and> covered s' y n)"
    if y: "y \<in> set (batch l')" for y
  proof (cases "y = x")
    case True
    have "map_of (scheduled_tokens l) (req_id_of s x) = None"
      using fresh by (simp add: map_of_eq_None_iff)
    then show ?thesis using True assms(8,10,14) by (simp add: st map_add_def)
  next
    case False
    then have y: "y \<in> set (batch l)" using y set by simp
    obtain n' where n': "map_of (scheduled_tokens l) (req_id_of s y) = Some n'" "covered s y n'"
      using b(8) y by blast
    have "req_id_of s y \<noteq> req_id_of s x" using fresh b(6) y by (metis image_eqI)
    then show ?thesis
      using n' b(8) y assms(8,14) slots_kept_covered [OF assms(9) [OF y]]
      by (simp add: st map_add_def)
  qed
  ultimately show ?thesis
    using b(1-7) fresh assms(6,7,11,13,16)
    by (auto simp: batch_ok_def total_scheduled_def st set assms(8))
qed

section \<open>The running phase\<close>

definition run_phase :: "sched_config \<Rightarrow> string set \<Rightarrow> scheduler \<times> sched_local \<Rightarrow> bool" where
  "run_phase cfg F st \<longleftrightarrow>
     (case st of (s, l) \<Rightarrow>
        sched_ok cfg s \<and> all_fit cfg F s \<and> batch_ok cfg s l \<and>
        req_index l \<le> length (running_scheduled s) \<and>
        set (batch l) \<subseteq> set (take (req_index l) (running_scheduled s)) \<and>
        (\<forall>x \<in> set (drop (req_index l) (running_scheduled s)). request_ready (heap s x)) \<and>
        skipped_reqs l = [])"

definition run_done :: "sched_config \<Rightarrow> string set \<Rightarrow> scheduler \<times> sched_local \<Rightarrow> bool" where
  "run_done cfg F st \<longleftrightarrow>
     sched_ok cfg (fst st) \<and> all_fit cfg F (fst st) \<and> batch_ok cfg (fst st) (snd st) \<and>
     skipped_reqs (snd st) = []"

lemma run_phase_done: "run_phase cfg F st \<Longrightarrow> run_done cfg F st"
  by (auto simp: run_phase_def run_done_def)

text \<open>The request at the index may change in place.\<close>

lemma run_phase_upd:
  assumes "run_phase cfg F (s, l)" "req_index l < length (running_scheduled s)"
    and "running_scheduled s ! req_index l = x"
    and "request_id (f (heap s x)) = req_id_of s x" "run_ok (f (heap s x))"
    and "request_fits cfg (f (heap s x))"
      "num_computed_tokens (f (heap s x)) = num_computed_tokens (heap s x)"
  shows "sched_ok cfg (upd x f s) \<and> all_fit cfg F (upd x f s) \<and> batch_ok cfg (upd x f s) l"
proof -
  have ok: "sched_ok cfg s" "all_fit cfg F s" "batch_ok cfg s l"
    using assms(1) by (simp_all add: run_phase_def)
  have x: "x \<in> set (running_scheduled s)" using assms(2,3) by auto
  have "distinct (tracked s)" using tracked_distinct [OF ok(1)] .
  then have "x \<notin> set (waiting s)" "x \<notin> set (to_be_preempted s)"
    using x by (auto simp: tracked_def)
  then have "sched_ok cfg (upd x f s)"
    using sched_inv_upd [OF ok(1), of f x] assms(4,5) by blast
  moreover have "all_fit cfg F (upd x f s)" using ok(2) assms(6) by (simp add: all_fit_def)
  moreover have "batch_ok cfg (upd x f s) l"
    by (rule batch_ok_cong [OF ok(3)])
      (use ok(3) assms(4,7) in \<open>simp_all add: batch_ok_def slots_kept_def\<close>)
  ultimately show ?thesis by blast
qed

lemma cap_tokens_bounds:
  "0 < n \<Longrightarrow> 0 < budget \<Longrightarrow> 0 < cap_tokens cfg budget n \<and> cap_tokens cfg budget n \<le> n \<and>
   cap_tokens cfg budget n \<le> budget"
  by (auto simp: cap_tokens_def Let_def)

text \<open>
  Scheduling the request at the index: \<open>s\<close> is the state before, \<open>t\<close> the one in which the
  request may already have changed in place.
\<close>

lemma schedule_running_ok:
  assumes phase: "run_phase cfg F (s, l)" and i: "req_index l < length (running_scheduled s)"
    and x: "running_scheduled s ! req_index l = x" and budget: "0 < token_budget l"
    and t: "t = upd x f s" "request_id (f (heap s x)) = req_id_of s x" "run_ok (f (heap s x))"
      "request_fits cfg (f (heap s x))"
      "num_computed_tokens (f (heap s x)) = num_computed_tokens (heap s x)"
    and n: "0 < n" "num_computed_tokens (f (heap s x)) + n \<le> num_tokens_with_spec (f (heap s x))"
  shows "res_ok False (\<lambda>(go_on, st'). if go_on then run_phase cfg F st' \<and>
      req_index (snd st') = req_index l + 1 else run_done cfg F st')
    (schedule_running cfg env ts x fl n (t, l))"
proof -
  let ?n = "cap_tokens cfg (token_budget l) n" and ?rs = "running_scheduled s"
  note cap = cap_tokens_bounds [OF n(1) budget, of cfg]
  have t_ok: "sched_ok cfg t" "all_fit cfg F t" "batch_ok cfg t l"
    using run_phase_upd [OF phase i x, of f] t by simp_all
  have rt: "running_scheduled t = ?rs" using t(1) by simp
  have r: "set (batch l) \<subseteq> set (take (req_index l) ?rs)"
    "\<forall>y \<in> set (drop (req_index l) ?rs). request_ready (heap s y)" "skipped_reqs l = []"
    using phase by (simp_all add: run_phase_def)
  have dist: "distinct ?rs" using sched_inv_dest(5) t_ok(1) rt by metis
  have fits: "fits cfg (heap t x) ?n (num_lookahead_tokens cfg)"
    using cap n(2) t(1,4) by (simp add: fits_def request_fits_def)
  have it: "req_index l < length (running_scheduled t)" "running_scheduled t ! req_index l = x"
    using i x rt by simp_all
  have pos: "0 < ?n" using cap by blast
  have la: "0 \<le> num_lookahead_tokens cfg" using t(4) by (simp add: request_fits_def)
  obtain new j s' where alloc: "allocate_with_preemption cfg env ts x ?n (preempted_reqs l) t =
      Inr (new, preempted_reqs l @ rev (drop j ?rs), s')" "sched_ok cfg s'"
    "evicted_to j t s'" "j \<le> length ?rs" "if new = None then j = req_index l else req_index l < j \<and> covered s' x ?n"
    "tables_kept x j t s'"
    using allocate_with_preemption_ok [OF t_ok(1) it pos fits la, of env ts "preempted_reqs l"]
    unfolding rt by blast
  let ?l = "l\<lparr>preempted_reqs := preempted_reqs l @ rev (drop j ?rs)\<rparr>"
  have rs': "running_scheduled s' = take j ?rs" using alloc(3) rt by (simp add: evicted_to_def)
  have keep: "heap s' y = heap t y" if y: "y \<in> set (take j ?rs)" for y
  proof -
    have "y \<notin> set (drop j ?rs)"
      using set_take_disj_set_drop_if_distinct [OF dist order_refl, of j] y by blast
    then show ?thesis using alloc(3) rt by (simp add: evicted_to_def)
  qed
  have ij: "req_index l \<le> j" using alloc(5) by (auto split: if_splits)
  have sub: "set (batch l) \<subseteq> set (take j ?rs)"
    using r(1) set_take_subset_set_take [OF ij, of ?rs] by (rule subset_trans)
  have cons: "drop (req_index l) ?rs = x # drop (Suc (req_index l)) ?rs"
    using Cons_nth_drop_Suc [OF i] x by simp
  then have take_notin: "x \<notin> set (take (req_index l) ?rs)"
    using set_take_disj_set_drop_if_distinct [OF dist order_refl, of "req_index l"] by auto
  have batch: "batch_ok cfg s' ?l"
  proof (rule batch_ok_cong [where s = t])
    show "batch_ok cfg t ?l"
      by (rule batch_ok_local [OF t_ok(3)]) (simp_all add: batch_def)
    show "set (batch ?l) \<subseteq> set (running_scheduled s')" using sub rs' by (simp add: batch_def)
    show "slots_kept t s' y" if y: "y \<in> set (batch ?l)" for y
    proof -
      have y: "y \<in> set (batch l)" using y by (simp add: batch_def)
      then have yj: "y \<in> set (take j ?rs)" using sub by blast
      have "req_id_of t y \<notin> req_id_of t ` insert x (set (drop j ?rs))"
      proof
        assume "req_id_of t y \<in> req_id_of t ` insert x (set (drop j ?rs))"
        then obtain z where z: "z \<in> insert x (set (drop j ?rs))" "req_id_of t y = req_id_of t z"
          by blast
        have in_rs: "y \<in> set ?rs" "z \<in> set ?rs"
          using in_set_takeD [OF yj] z(1) in_set_dropD [of z j ?rs] i x by auto
        then have "y = z"
          using ids_distinct [OF t_ok(1) _ _ z(2)] rt by (simp add: tracked_def)
        moreover have "y \<noteq> x" using y r(1) take_notin by blast
        moreover have "y \<notin> set (drop j ?rs)"
          using set_take_disj_set_drop_if_distinct [OF dist order_refl, of j] yj by blast
        ultimately show False using z(1) by blast
      qed
      then show ?thesis
        using alloc(6) keep [OF yj] rt unfolding tables_kept_def slots_kept_def by simp
    qed
  qed
  have fit: "all_fit cfg F s'" by (rule all_fit_evicted [OF t_ok(2) alloc(3)])
  show ?thesis
  proof (cases new)
    case None
    then show ?thesis
      using alloc cap batch fit r(3) by (simp add: schedule_running_def Let_def run_done_def)
  next
    case (Some b)
    then have j: "req_index l < j" using alloc(5) by simp
    have xj: "x \<in> set (take j ?rs)"
      using i j x by (metis in_set_conv_nth length_take min_less_iff_conj nth_take)
    have hx: "heap s' x = f (heap s x)" using keep [OF xj] t(1) by simp
    define u v where "u = fst (commit_running x fl ?n b (s', ?l))"
      and "v = snd (commit_running x fl ?n b (s', ?l))"
    have u: "u = (upd x (\<lambda>r. r\<lparr>num_scheduled := num_scheduled r + 1\<rparr>) s')
        \<lparr>scheduled_req_ids := insert (req_id_of s' x) (scheduled_req_ids s')\<rparr>"
      by (simp add: u_def commit_running_def Let_def)
    have v: "req_index v = req_index l + 1" "skipped_reqs v = skipped_reqs l"
      "mset (batch v) = add_mset x (mset (batch ?l))"
      "new_block_ids v = (new_block_ids ?l)(req_id_of s' x \<mapsto> b)"
      "scheduled_tokens v = AList.update (req_id_of s' x) ?n (scheduled_tokens ?l)"
      "token_budget v = token_budget ?l - ?n"
      "structured_ids v = []"
      using batch fit xj rs' t(4) hx
      by (simp_all add: v_def commit_running_def Let_def batch_def batch_ok_def request_fits_def)
    have res: "schedule_running cfg env ts x fl n (t, l) = Inr (True, u, v)"
      using alloc(1) Some cap by (simp add: schedule_running_def Let_def u_def v_def)
    have xs: "x \<in> set (running_scheduled s')" using xj rs' by simp
    have ntr: "x \<notin> set (waiting s')" "x \<notin> set (to_be_preempted s')"
      using tracked_distinct [OF alloc(2)] xs by (auto simp: tracked_def)
    have "sched_ok cfg (upd x (\<lambda>r. r\<lparr>num_scheduled := num_scheduled r + 1\<rparr>) s')"
      using sched_inv_upd [OF alloc(2), of "\<lambda>r. r\<lparr>num_scheduled := num_scheduled r + 1\<rparr>" x]
        ntr hx t(3) by (simp add: run_ok_def)
    then have u_ok: "sched_ok cfg u" by (rule sched_inv_frame) (simp_all add: u)
    have "request_fits cfg ((heap s' x)\<lparr>num_scheduled := num_scheduled (heap s' x) + 1\<rparr>)"
      using t(4) unfolding hx
      by (rule request_fits_cong)
        (use t(4) in \<open>simp_all add: request_fits_def correction_ok_def\<close>)
    then have u_fit: "all_fit cfg F u" using fit by (simp add: all_fit_def u tracked_def)
    have u_batch: "batch_ok cfg u v"
    proof (rule batch_ok_add [OF batch alloc(2) _ _ _ _ _ _ _ _ _ v(3,7,4,5,6)])
      show "set (running_scheduled s') \<subseteq> set (tracked s')" by (auto simp: tracked_def)
      show "x \<in> set (tracked s')" using xs by (simp add: tracked_def)
      show "x \<notin> set (batch ?l)" using r(1) take_notin by (auto simp: batch_def)
      show "0 < ?n" "?n \<le> token_budget ?l" using cap by simp_all
      show "req_id_of u y = req_id_of s' y" for y by (simp add: u)
      show "slots_kept s' u y" for y by (simp add: u slots_kept_def)
      show "covered u x ?n" using alloc(5) Some by (simp add: covered_def u)
      show "set (running_scheduled s') \<union> {x} \<subseteq> set (running_scheduled u)" using xs by (simp add: u)
    qed
    have len: "length (take j ?rs) = j" using alloc(4) by simp
    have "set (batch v) = insert x (set (batch ?l))" using arg_cong [OF v(3), of set_mset] by simp
    moreover have "batch ?l = batch l" by (simp add: batch_def)
    moreover have "take (Suc (req_index l)) ?rs = take (req_index l) ?rs @ [x]"
      using i x by (simp add: take_Suc_conv_app_nth)
    ultimately have sub': "set (batch v) \<subseteq> set (take (req_index v) (running_scheduled u))"
      using r(1) j by (auto simp: v(1) u rs' min_def)
    have "request_ready (heap u y)" if y: "y \<in> set (drop (req_index v) (running_scheduled u))" for y
    proof -
      have "y \<in> set (drop (Suc (req_index l)) (take j ?rs))" using y v(1) by (simp add: u rs')
      then have y1: "y \<in> set (take j ?rs)" "y \<in> set (drop (Suc (req_index l)) ?rs)"
        using in_set_dropD [of y "Suc (req_index l)" "take j ?rs"]
          in_set_takeD [of y "j - Suc (req_index l)" "drop (Suc (req_index l)) ?rs"]
        by (simp_all only: drop_take)
      then have "y \<in> set (drop (req_index l) ?rs)" by (simp add: cons)
      moreover have "distinct (drop (req_index l) ?rs)" using dist by simp
      then have "y \<noteq> x" using y1(2) unfolding cons by auto
      ultimately show ?thesis using r(2) keep [OF y1(1)] t(1) by (simp add: u)
    qed
    then have "run_phase cfg F (u, v)"
      using u_ok u_fit u_batch sub' v(1,2) r(3) j len by (simp add: run_phase_def u rs')
    then show ?thesis using res v(1) by simp
  qed
qed

lemma run_phase_skip:
  assumes phase: "run_phase cfg F (s, l)" and i: "req_index l < length (running_scheduled s)"
    and x: "running_scheduled s ! req_index l = x"
    and f: "request_id (f (heap s x)) = req_id_of s x" "run_ok (f (heap s x))"
      "request_fits cfg (f (heap s x))"
      "num_computed_tokens (f (heap s x)) = num_computed_tokens (heap s x)"
  shows "run_phase cfg F (next_request (upd x f s, l))"
proof -
  let ?rs = "running_scheduled s"
  have dist: "distinct ?rs" using phase sched_inv_dest(5) by (auto simp: run_phase_def)
  have cons: "drop (req_index l) ?rs = x # drop (Suc (req_index l)) ?rs"
    using Cons_nth_drop_Suc [OF i] x by simp
  moreover have "distinct (drop (req_index l) ?rs)" using dist by simp
  ultimately have notin: "x \<notin> set (drop (Suc (req_index l)) ?rs)" by auto
  let ?l = "l\<lparr>req_index := Suc (req_index l)\<rparr>"
  have l: "batch ?l = batch l" by (simp add: batch_def)
  have ok: "sched_ok cfg (upd x f s) \<and> all_fit cfg F (upd x f s) \<and> batch_ok cfg (upd x f s) l"
    using run_phase_upd [OF phase i x, of f] f by blast
  then have "batch_ok cfg (upd x f s) ?l"
    by (intro batch_ok_local [where l = l and l' = ?l]) (simp_all add: l)
  moreover have "set (batch l) \<subseteq> set (take (Suc (req_index l)) ?rs)"
    using phase set_take_subset_set_take [of "req_index l" "Suc (req_index l)" ?rs]
    by (auto simp: run_phase_def)
  moreover have "\<forall>y \<in> set (drop (Suc (req_index l)) ?rs). request_ready (heap (upd x f s) y)"
    using phase notin cons by (auto simp: run_phase_def)
  ultimately show ?thesis
    using phase i ok by (simp add: run_phase_def next_request_def l)
qed

lemma running_step_ok:
  assumes phase: "run_phase cfg F (s, l)" and i: "req_index l < length (running_scheduled s)"
    and budget: "0 < token_budget l"
  shows "res_ok False (\<lambda>(go_on, st'). if go_on then run_phase cfg F st' \<and>
      req_index (snd st') = req_index l + 1 else run_done cfg F st')
    (running_step cfg env ts (s, l))"
proof -
  define x where "x = running_scheduled s ! req_index l"
  let ?r = "heap s x"
  have mem: "x \<in> set (running_scheduled s)" using i by (simp add: x_def)
  have ok: "sched_ok cfg s" "all_fit cfg F s" using phase by (simp_all add: run_phase_def)
  have run: "run_ok ?r" using sched_inv_dest(2) [OF ok(1) mem] by simp
  have fit: "request_fits cfg ?r" using ok(2) mem by (simp add: all_fit_def tracked_def)
  have "x \<in> set (drop (req_index l) (running_scheduled s))"
    using Cons_nth_drop_Suc [OF i] unfolding x_def by (metis list.set_intros(1))
  then have ready: "request_ready ?r" using phase by (simp add: run_phase_def)
  have not_pre: "\<not> should_preempt ?r" using run by (simp add: run_ok_def)
  have id: "upd y (\<lambda>r. r) s = s" for y by (simp add: upd_def)
  consider (real) "has_pending_real_token ?r"
    | (dropped) "\<not> has_pending_real_token ?r" "confidence_dropped ?r \<or> stop_dropped ?r"
    | (spec) "\<not> has_pending_real_token ?r" "\<not> confidence_dropped ?r" "\<not> stop_dropped ?r"
        "\<not> enable_la_sched1 cfg \<or> confidence_passed ?r"
    | (drop) "\<not> has_pending_real_token ?r" "\<not> confidence_dropped ?r" "\<not> stop_dropped ?r"
        "enable_la_sched1 cfg" "\<not> confidence_passed ?r"
    by blast
  then show ?thesis
  proof cases
    case real
    let ?f = "\<lambda>r::request. r\<lparr>drop_end := False\<rparr>"
    let ?n = "if num_computed_tokens ?r < num_prompt_tokens ?r
      then num_tokens_with_spec ?r - num_computed_tokens ?r else 1"
    have lt: "num_computed_tokens ?r < num_tokens_with_spec ?r"
      using ready real by (simp add: request_ready_def)
    have "request_fits cfg (?f ?r)"
      by (rule request_fits_cong [OF fit])
        (use fit in \<open>simp_all add: request_fits_def correction_ok_def\<close>)
    then have "res_ok False (\<lambda>(go_on, st'). if go_on then run_phase cfg F st' \<and>
        req_index (snd st') = req_index l + 1 else run_done cfg F st')
      (schedule_running cfg env ts x True ?n (upd x ?f s, l))"
      using lt run
      by (intro schedule_running_ok [OF phase i x_def [symmetric] budget, where f = ?f])
        (simp_all add: run_ok_def num_tokens_with_spec_def)
    moreover have "running_step cfg env ts (s, l) = schedule_running cfg env ts x True ?n (upd x ?f s, l)"
      using real not_pre by (simp add: running_step_def x_def Let_def)
    ultimately show ?thesis by (simp only:)
  next
    case dropped
    then show ?thesis
      using run_phase_skip [OF phase i x_def [symmetric], of "\<lambda>r. r"] run fit not_pre id
      by (simp add: running_step_def x_def Let_def next_request_def)
  next
    case spec
    have lt: "num_computed_tokens ?r < num_tokens_with_spec ?r"
      using ready spec by (simp add: request_ready_def)
    have "res_ok False (\<lambda>(go_on, st'). if go_on then run_phase cfg F st' \<and>
        req_index (snd st') = req_index l + 1 else run_done cfg F st')
      (schedule_running cfg env ts x False (num_tokens_with_spec ?r - num_computed_tokens ?r) (s, l))"
      using lt run fit
      by (intro schedule_running_ok [OF phase i x_def [symmetric] budget, where f = "\<lambda>r. r"])
        (simp_all add: id)
    moreover have "running_step cfg env ts (s, l) = schedule_running cfg env ts x False
        (num_tokens_with_spec ?r - num_computed_tokens ?r) (s, l)"
      using spec not_pre by (simp add: running_step_def x_def Let_def)
    ultimately show ?thesis by (simp only:)
  next
    case drop
    have "request_fits cfg (drop_speculation ?r)"
      by (rule request_fits_cong [OF fit])
        (use fit in \<open>simp_all add: request_fits_def correction_ok_def drop_speculation_def\<close>)
    then have "run_phase cfg F (next_request (upd x drop_speculation s, l))"
      using run by (intro run_phase_skip [OF phase i x_def [symmetric]])
        (simp_all add: drop_speculation_def run_ok_def)
    moreover have "running_step cfg env ts (s, l) =
        Inr (True, next_request (upd x drop_speculation s, l))"
      using drop not_pre by (simp add: running_step_def x_def Let_def)
    ultimately show ?thesis by (simp add: next_request_def)
  qed
qed

lemma running_loop_ok:
  "run_phase cfg F st \<Longrightarrow> res_ok False (run_done cfg F) (running_loop cfg env ts st)"
proof (induction cfg env ts st rule: running_loop.induct)
  case (1 cfg env ts st)
  obtain s l where st: "st = (s, l)" by (cases st)
  show ?case
  proof (cases "length (running_scheduled s) \<le> req_index l \<or> token_budget l \<le> 0")
    case True
    then show ?thesis
      using run_phase_done [OF 1(2)] by (subst running_loop.simps) (auto simp: st)
  next
    case False
    then have step: "res_ok False (\<lambda>(go_on, st'). if go_on then run_phase cfg F st' \<and>
        req_index (snd st') = req_index l + 1 else run_done cfg F st') (running_step cfg env ts st)"
      using running_step_ok 1(2) unfolding st by simp
    have "res_ok False (run_done cfg F) (ebind (running_step cfg env ts st) (\<lambda>(go_on, st').
        if go_on then running_loop cfg env ts st' else Inr st'))"
    proof (rule res_ok_ebind [OF step])
      fix p assume p: "running_step cfg env ts st = Inr p"
        "case p of (go_on, st') \<Rightarrow> if go_on then run_phase cfg F st' \<and>
          req_index (snd st') = req_index l + 1 else run_done cfg F st'"
      obtain go_on st' where split: "p = (go_on, st')" by (cases p)
      show "res_ok False (run_done cfg F) (case p of (go_on, st') \<Rightarrow>
          if go_on then running_loop cfg env ts st' else Inr st')"
      proof (cases go_on)
        case True
        then show ?thesis
          using 1(1) [of p go_on st'] False p split by (simp add: st)
      qed (use p split in simp)
    qed
    then show ?thesis using False by (subst running_loop.simps) (simp add: st)
  qed
qed

section \<open>The waiting phase\<close>

lemma sp_get_computed_total:
  assumes "sp_ok m" "mm_positions r = []" "0 < num_tokens r"
  shows "\<exists>m'. get_computed_blocks hash_fn none_hash r m = Inr (([], 0), m') \<and> sp_ok m' \<and>
    req_to_blocks m' = req_to_blocks m \<and> block_size m' = block_size m \<and>
    max_num_blocks_per_req m' = max_num_blocks_per_req m"
proof -
  have bs: "0 < block_size m" using assms(1) by (simp add: sp_ok_def kv_ok_def)
  have "\<exists>p m'. get_computed_blocks hash_fn none_hash r m = Inr (p, m')"
  proof (cases "enable_caching (km_pool m)")
    case False
    then show ?thesis by (simp add: get_computed_blocks_def)
  next
    case True
    define hs where "hs = (if req_to_block_hashes m (request_id r) = []
      then hash_chain hash_fn none_hash (block_size m) (uniform_keys r) None (all_token_ids r)
        (length (all_token_ids r) div block_size m)
      else req_to_block_hashes m (request_id r))"
    have hashes: "(if req_to_block_hashes m (request_id r) = []
        then hash_request_tokens hash_fn none_hash (block_size m) r
        else Inr (req_to_block_hashes m (request_id r))) = Inr hs"
      using hash_request_tokens_chain [OF assms(2) bs] by (simp add: hs_def)
    have "hs \<noteq> []" if "py_len hs * int (block_size m) = num_tokens r"
      using that assms(3) by auto
    then show ?thesis
      using True by (simp add: get_computed_blocks_def hashes Let_def)
  qed
  then obtain cb nc m' where r: "get_computed_blocks hash_fn none_hash r m = Inr ((cb, nc), m')"
    by auto
  from sp_get_computed_blocks [OF assms(1) r] get_computed_blocks_frame [OF r] r
  show ?thesis by auto
qed

lemma poll_grammar_upd:
  assumes "poll_grammar x s = (ready, s')"
  shows "\<exists>g st. s' = upd x (\<lambda>r. r\<lparr>structured_output_request := g, status := st\<rparr>) s \<and>
    (st = status (heap s x) \<or> st = WAITING) \<and> (ready \<longrightarrow> st \<noteq> WAITING_FOR_FSM)"
proof -
  have same: "s = upd x (\<lambda>r. r\<lparr>structured_output_request := structured_output_request (heap s x),
      status := status (heap s x)\<rparr>) s"
    by (simp add: upd_def)
  show ?thesis
  proof (cases "status (heap s x) \<noteq> WAITING_FOR_FSM \<or> structured_output_request (heap s x) = None")
    case True
    then have "s' = s" "ready \<longrightarrow> status (heap s x) \<noteq> WAITING_FOR_FSM"
      using assms by (auto simp: poll_grammar_def Let_def split: if_splits option.splits)
    then show ?thesis using same by metis
  next
    case False
    then obtain g where g: "structured_output_request (heap s x) = Some g"
      "status (heap s x) = WAITING_FOR_FSM" by auto
    obtain compiled g' where get: "grammar_get g = (compiled, g')" by fastforce
    show ?thesis
    proof (cases compiled)
      case None
      then have "s' = upd x (\<lambda>r. r\<lparr>structured_output_request := Some g'\<rparr>) s" "\<not> ready"
        using assms g get by (simp_all add: poll_grammar_def Let_def)
      moreover have "upd x (\<lambda>r. r\<lparr>structured_output_request := Some g'\<rparr>) s =
          upd x (\<lambda>r. r\<lparr>structured_output_request := Some g', status := status (heap s x)\<rparr>) s"
        by (simp add: upd_def)
      ultimately show ?thesis by metis
    next
      case Some
      then have "s' = upd x (\<lambda>r. r\<lparr>structured_output_request := Some g', status := WAITING\<rparr>) s"
        using assms g get by (auto simp: poll_grammar_def Let_def upd_def)
      then show ?thesis by blast
    qed
  qed
qed

lemma fold_Cons: "fold (#) xs ys = rev xs @ ys"
  by (induction xs arbitrary: ys) auto

definition wait_phase :: "sched_config \<Rightarrow> string set \<Rightarrow> scheduler \<times> sched_local \<Rightarrow> bool" where
  "wait_phase cfg F st \<longleftrightarrow>
     sched_ok cfg (put_back_skipped st) \<and> all_fit cfg F (put_back_skipped st) \<and>
     batch_ok cfg (fst st) (snd st) \<and>
     (should_estimate (estimate (snd st)) \<longrightarrow> enable_la_sched2 cfg)"

lemma put_back_upd:
  "put_back_skipped (upd x f s, l) = upd x f (put_back_skipped (s, l))"
  by (simp add: put_back_skipped_def upd_def)

lemma put_back_simps [simp]:
  "heap (put_back_skipped st) = heap (fst st)" "requests (put_back_skipped st) = requests (fst st)"
  "waiting (put_back_skipped st) = rev (skipped_reqs (snd st)) @ waiting (fst st)"
  "running_scheduled (put_back_skipped st) = running_scheduled (fst st)"
  "to_be_preempted (put_back_skipped st) = to_be_preempted (fst st)"
  "kv_cache_manager (put_back_skipped st) = kv_cache_manager (fst st)"
  "encoder_cache_manager (put_back_skipped st) = encoder_cache_manager (fst st)"
  "finished_req_ids (put_back_skipped st) = finished_req_ids (fst st)"
  "cached_reqs_data (put_back_skipped st) = cached_reqs_data (fst st)"
  by (simp_all add: put_back_skipped_def fold_Cons)

text \<open>A request at the head of the waiting queue is admitted, or the loop ends.\<close>

lemma admit_waiting_ok:
  assumes phase: "wait_phase cfg F (s, l)" and w: "waiting s = x # ws"
    and st: "status (heap s x) \<noteq> WAITING_FOR_FSM"
    and room: "py_len (running_scheduled s) \<noteq> max_num_running_reqs cfg"
    and budget: "0 < token_budget l"
  shows "res_ok False (\<lambda>(_, st'). wait_phase cfg F st')
    (admit_waiting cfg env ts x (s, l))"
proof -
  let ?W = "put_back_skipped (s, l)" and ?r = "heap s x" and ?sk = "rev (skipped_reqs l)"
  have ok: "sched_ok cfg ?W" "all_fit cfg F ?W" "batch_ok cfg s l"
    "should_estimate (estimate l) \<longrightarrow> enable_la_sched2 cfg"
    using phase by (simp_all add: wait_phase_def)
  have mem: "x \<in> set (waiting ?W)" using w by simp
  have wait: "wait_ok ?r" using sched_inv_dest(3) [OF ok(1) mem] by simp
  have fit: "request_fits cfg ?r" using ok(2) mem unfolding all_fit_def tracked_def by auto
  let ?m = "kv_cache_manager s"
  obtain m where m: "get_computed_blocks (env_hash env) (env_none_hash env) ?r ?m = Inr (([], 0), m)"
    "sp_ok m" "req_to_blocks m = req_to_blocks ?m" "block_size m = block_size ?m"
    "max_num_blocks_per_req m = max_num_blocks_per_req ?m"
    using sp_get_computed_total [of ?m ?r] sched_inv_dest(1) [OF ok(1)] fit
    by (auto simp: request_fits_def)
  let ?n = "cap_tokens cfg (token_budget l) (num_tokens ?r)"
  have n: "0 < ?n" "?n \<le> num_tokens ?r" "?n \<le> token_budget l"
    using cap_tokens_bounds [of "num_tokens ?r" "token_budget l" cfg] fit budget
    by (simp_all add: request_fits_def)
  have tables: "i \<in> req_id_of s ` set (running_scheduled s)" if "req_to_blocks m i \<noteq> []" for i
    using ok(1) that m(3) by (simp add: sched_inv_def resources_ok_def)
  let ?W1 = "?W\<lparr>kv_cache_manager := m\<rparr>"
  have W1: "sched_ok cfg ?W1"
    by (rule sched_inv_kv [OF ok(1)]) (use m tables in simp_all)
  have "fits cfg ?r ?n 0"
    using n(2) fit wait num_tokens_le_with_spec [of ?r]
    by (simp add: fits_def request_fits_def wait_ok_def)
  then have req: "required_blocks ?r ?n [] 0 m \<le> max_num_blocks_per_req m"
    using fits_required [OF W1] by simp
  note alloc = sp_allocate_cases [OF m(2) n(1) req, of "env_hash env" "env_none_hash env"]
  show ?thesis
  proof (cases "shortage ?r ?n [] 0 (req_to_blocks m (request_id ?r)) m")
    case True
    then have "admit_waiting cfg env ts x (s, l) = Inr (False, s\<lparr>kv_cache_manager := m\<rparr>, l)"
      using alloc m(1) n(1) by (simp add: admit_waiting_def Let_def)
    moreover have "put_back_skipped (s\<lparr>kv_cache_manager := m\<rparr>, l) = ?W1"
      by (simp add: put_back_skipped_def)
    moreover have "batch_ok cfg (s\<lparr>kv_cache_manager := m\<rparr>) l"
      by (rule batch_ok_frame [OF ok(3)]) (simp_all add: m)
    moreover have "all_fit cfg F ?W1" using ok(2) by (simp add: all_fit_def tracked_def)
    ultimately show ?thesis using W1 ok(4) by (simp add: wait_phase_def)
  next
    case False
    with alloc obtain new m' where new:
      "allocate_slots (env_hash env) (env_none_hash env) ?r ?n [] 0 m = Inr (Some new, m')"
      "req_to_blocks m' = (req_to_blocks m)(req_id_of s x := req_to_blocks m (req_id_of s x) @ new)"
      "block_size m' = block_size m" "max_num_blocks_per_req m' = max_num_blocks_per_req m"
      "required_blocks ?r ?n [] 0 m \<le> py_len (req_to_blocks m (req_id_of s x) @ new)"
      by (auto simp: allocated_def)
    have num0: "num_computed_tokens ?r = 0" using wait by (simp add: wait_ok_def)
    have sp': "sp_ok m'"
      using sp_allocate [OF m(2) n(1) req new(1)] .
    define ev where "ev = (if log_stats cfg then events ?r @ [(SCHEDULED, ts)] else events ?r)"
    define r' where "r' = ?r\<lparr>num_scheduled := num_scheduled ?r + 1, events := ev,
      status := RUNNING, num_computed_tokens := 0\<rparr>"
    define u where "u = s\<lparr>heap := (heap s)(x := r'), waiting := ws,
      running_scheduled := running_scheduled s @ [x],
      scheduled_req_ids := insert (req_id_of s x) (scheduled_req_ids s), kv_cache_manager := m'\<rparr>"
    define v where "v = l\<lparr>req_index := req_index l + 1,
      new_block_ids := (new_block_ids l)(req_id_of s x \<mapsto> new),
      scheduled_tokens := AList.update (req_id_of s x) ?n (scheduled_tokens l),
      token_budget := token_budget l - ?n,
      new_reqs := (if status ?r = WAITING then new_reqs l @ [x] else new_reqs l),
      resumed_reqs := (if status ?r = WAITING then resumed_reqs l else resumed_reqs l @ [x])\<rparr>"
    have "status ?r = WAITING \<or> status ?r = PREEMPTED" using wait st by (auto simp: wait_ok_def)
    then have commit: "commit_waiting cfg ts x ?n 0 new (s\<lparr>kv_cache_manager := m'\<rparr>, l) = Inr (u, v)"
      using w fit
      by (elim disjE; simp add: commit_waiting_def Let_def u_def v_def r'_def ev_def record_event_def
          request_fits_def upd_def)
    have uv: "heap u = (heap s)(x := r')" "waiting u = ws"
      "running_scheduled u = running_scheduled s @ [x]"
      "to_be_preempted u = to_be_preempted s" "requests u = requests s" "kv_cache_manager u = m'"
      "encoder_cache_manager u = encoder_cache_manager s" "finished_req_ids u = finished_req_ids s"
      "skipped_reqs v = skipped_reqs l" "mset (batch v) = add_mset x (mset (batch l))"
      "new_block_ids v = (new_block_ids l)(req_id_of s x \<mapsto> new)"
      "scheduled_tokens v = AList.update (req_id_of s x) ?n (scheduled_tokens l)"
      "token_budget v = token_budget l - ?n" "estimate v = estimate l" "structured_ids v = []"
      "cached_reqs_data u = cached_reqs_data s"
      using ok(3) by (simp_all add: u_def v_def batch_def batch_ok_def)
    have step: "admit_waiting cfg env ts x (s, l) = Inr (True, u, v)"
      using m(1) n(1) new(1) commit by (simp add: admit_waiting_def Let_def)
    have notin: "x \<notin> set (running_scheduled s)" "x \<notin> set (to_be_preempted s)" "x \<notin> set ws"
      "x \<notin> set (skipped_reqs l)"
      using tracked_distinct [OF ok(1)] w by (auto simp: tracked_def)
    have "sched_ok cfg (put_back_skipped (u, v))"
    proof (rule sched_inv_shuffle [OF ok(1), of x _ r' m'])
      show "mset (tracked (put_back_skipped (u, v))) = mset (tracked ?W)"
        by (simp add: tracked_def uv w)
      show "x \<in> set (waiting (put_back_skipped (u, v))) \<Longrightarrow> wait_ok r'"
        "x \<in> set (to_be_preempted (put_back_skipped (u, v))) \<Longrightarrow> drain_ok r'"
        using notin by (simp_all add: uv)
      show "run_ok r'" using wait by (simp add: r'_def run_ok_def wait_ok_def)
      show "py_len (running_scheduled (put_back_skipped (u, v))) \<le> max_num_running_reqs cfg"
        using sched_inv_dest(4) [OF ok(1)] room by (simp add: uv)
      show "i \<notin> {} \<and> i \<in> req_id_of ?W ` set (running_scheduled (put_back_skipped (u, v)))"
        if "req_to_blocks m' i \<noteq> []" for i
        using that new(2) tables by (auto simp: uv split: if_splits)
    qed (use w sp' new m in \<open>auto simp: uv r'_def\<close>)
    moreover have "request_fits cfg r'"
      by (rule request_fits_cong [OF fit])
        (use fit in \<open>simp_all add: r'_def request_fits_def correction_ok_def\<close>)
    then have "all_fit cfg F (put_back_skipped (u, v))"
      using ok(2) w by (auto simp: all_fit_def tracked_def uv)
    moreover have "batch_ok cfg u v"
    proof (rule batch_ok_add [where s = ?W and l = l and x = x and n = ?n and b = new])
      show "batch_ok cfg ?W l" by (rule batch_ok_frame [OF ok(3)]) simp_all
      show "slots_kept ?W u y" if y: "y \<in> set (batch l)" for y
      proof -
        have y: "y \<in> set (running_scheduled s)" using ok(3) y by (auto simp: batch_ok_def)
        then have "y \<noteq> x" using notin by blast
        moreover have "req_id_of ?W y \<noteq> req_id_of ?W x"
          using ids_distinct [OF ok(1), of y x] y mem \<open>y \<noteq> x\<close> by (auto simp: tracked_def)
        ultimately show ?thesis using new m by (simp add: slots_kept_def uv)
      qed
      show "covered u x ?n"
        using new(5) m(4) sched_inv_dest(7) [OF W1] new(2,3)
        by (simp add: covered_def uv r'_def required_blocks_def cdiv_le_iff num0)
      show "x \<notin> set (batch l)" using ok(3) notin(1) by (auto simp: batch_ok_def)
      show "req_id_of u y = req_id_of ?W y" for y by (simp add: uv r'_def)
    qed (use ok(1) n w in \<open>auto simp: uv tracked_def\<close>)
    ultimately show ?thesis
      using step ok(4) uv(8,14) by (simp add: wait_phase_def)
  qed
qed

lemma admit_estimate_should:
  "admit_estimate cfg fl r its i est eg = Inr (est', eg') \<Longrightarrow>
   should_estimate est' = should_estimate est"
  by (induction cfg fl r its i est eg rule: admit_estimate.induct)
    (auto simp: res_simps Let_def split: if_splits)

lemma estimate_waiting_ok:
  assumes "wait_phase cfg F (s, l)"
  shows "res_ok (enable_la_sched2 cfg) (\<lambda>st'. \<exists>c e. st' = (s\<lparr>estimate_caches := c\<rparr>, l\<lparr>estimate := e\<rparr>) \<and>
      wait_phase cfg F st')
    (estimate_waiting cfg env x (s, l))"
proof (cases "should_estimate (estimate l)")
  case False
  then have "estimate_waiting cfg env x (s, l) = Inr (s\<lparr>estimate_caches := estimate_caches s\<rparr>,
      l\<lparr>estimate := estimate l\<rparr>)"
    by (simp add: estimate_waiting_def)
  moreover have "\<exists>c e. (s, l) = (s\<lparr>estimate_caches := c\<rparr>, l\<lparr>estimate := e\<rparr>) \<and> wait_phase cfg F (s, l)"
    using assms by (intro exI [of _ "estimate_caches s"] exI [of _ "estimate l"]) simp
  ultimately show ?thesis by simp
next
  case True
  then have la: "enable_la_sched2 cfg" using assms by (simp add: wait_phase_def)
  show ?thesis
  proof (cases "estimate_waiting cfg env x (s, l)")
    case (Inr st')
    then obtain its est eg where its: "admit_estimate cfg (env_fl env) (heap s x) its 0 (estimate l)
          (fst (estimate_caches s)) = Inr (est, eg)"
      and st': "st' = (s\<lparr>estimate_caches := (eg, snd (estimate_caches s))\<rparr>, l\<lparr>estimate := est\<rparr>)"
      using True by (auto simp: estimate_waiting_def elim!: ebind_InrE)
    have "sched_ok cfg (put_back_skipped st')"
      by (rule sched_inv_frame [of cfg "{}" "put_back_skipped (s, l)"])
        (use assms in \<open>simp_all add: wait_phase_def st'\<close>)
    moreover have "batch_ok cfg (fst st') l"
      by (rule batch_ok_frame [of cfg s]) (use assms in \<open>simp_all add: wait_phase_def st'\<close>)
    then have "batch_ok cfg (fst st') (snd st')"
      by (rule batch_ok_local) (simp_all add: st' batch_def)
    ultimately have "wait_phase cfg F st'"
      using assms la by (simp add: wait_phase_def st' all_fit_def tracked_def)
    then show ?thesis using Inr st' by auto
  qed (use la in simp)
qed

lemma waiting_step_ok:
  assumes phase: "wait_phase cfg F (s, l)" and w: "waiting s \<noteq> []" and budget: "0 < token_budget l"
  shows "res_ok (enable_la_sched2 cfg) (\<lambda>(_, st'). wait_phase cfg F st')
    (waiting_step cfg env ts (s, l))"
proof (cases "py_len (running_scheduled s) = max_num_running_reqs cfg")
  case True
  then show ?thesis using phase by (simp add: waiting_step_def)
next
  case room: False
  obtain x ws where xs: "waiting s = x # ws" using w by (cases "waiting s") auto
  define go where "go = (\<lambda>(s1, l1). if should_estimate (estimate l1) \<and> delay_prefill (estimate l1)
    then Inr (False, s1, l1)
    else case poll_grammar x s1 of (ready, s2) \<Rightarrow>
      if ready then admit_waiting cfg env ts x (s2, l1)
      else Inr (True, s2\<lparr>waiting := tl (waiting s2)\<rparr>, l1\<lparr>skipped_reqs := x # skipped_reqs l1\<rparr>))"
  have eq: "waiting_step cfg env ts (s, l) = ebind (estimate_waiting cfg env x (s, l)) go"
    using room xs by (simp add: waiting_step_def go_def)
  show ?thesis unfolding eq
  proof (rule res_ok_ebind [OF estimate_waiting_ok [OF phase]], elim exE conjE)
    fix st c e assume st: "st = (s\<lparr>estimate_caches := c\<rparr>, l\<lparr>estimate := e\<rparr>)"
      and phase1: "wait_phase cfg F st"
    let ?s = "s\<lparr>estimate_caches := c\<rparr>" and ?l = "l\<lparr>estimate := e\<rparr>"
    let ?Q = "\<lambda>(_, st'). wait_phase cfg F st'"
    obtain ready s2 where poll: "poll_grammar x ?s = (ready, s2)" by fastforce
    obtain g st2 where s2: "s2 = upd x (\<lambda>r. r\<lparr>structured_output_request := g, status := st2\<rparr>) ?s"
      "st2 = status (heap s x) \<or> st2 = WAITING" "ready \<longrightarrow> st2 \<noteq> WAITING_FOR_FSM"
      using poll_grammar_upd [OF poll] by auto
    let ?f = "\<lambda>r::request. r\<lparr>structured_output_request := g, status := st2\<rparr>"
    let ?W = "put_back_skipped (?s, ?l)"
    have W: "sched_ok cfg ?W" "all_fit cfg F ?W" "batch_ok cfg ?s ?l"
      "should_estimate e \<longrightarrow> enable_la_sched2 cfg"
      using phase1 by (simp_all add: wait_phase_def st)
    have mem: "x \<in> set (waiting ?W)" using xs by simp
    have wait: "wait_ok (heap s x)" using sched_inv_dest(3) [OF W(1) mem] by simp
    have fit: "request_fits cfg (heap s x)" using W(2) mem unfolding all_fit_def tracked_def by auto
    have notin: "x \<notin> set (running_scheduled s)" "x \<notin> set (to_be_preempted s)"
      using tracked_distinct [OF W(1)] mem by (auto simp: tracked_def)
    have "sched_ok cfg (upd x ?f ?W)"
      using sched_inv_upd [OF W(1), of ?f x] notin wait s2(2) by (auto simp: wait_ok_def)
    moreover have "request_fits cfg (?f (heap s x))"
      by (rule request_fits_cong [OF fit]) (use fit in \<open>simp_all add: request_fits_def correction_ok_def\<close>)
    then have "all_fit cfg F (upd x ?f ?W)" using W(2) by (simp add: all_fit_def)
    moreover have "batch_ok cfg (upd x ?f ?s) ?l"
      by (rule batch_ok_cong [OF W(3)])
        (use W(3) in \<open>simp_all add: batch_ok_def slots_kept_def\<close>)
    ultimately have phase2: "wait_phase cfg F (s2, ?l)"
      using W(4) by (simp add: wait_phase_def s2(1) put_back_upd)
    have "res_ok False ?Q (go st)"
    proof (cases "should_estimate e \<and> delay_prefill e")
      case True
      then show ?thesis using phase1 by (simp add: go_def st)
    next
      case delay: False
      show ?thesis
      proof (cases ready)
        case True
        have "res_ok False ?Q (admit_waiting cfg env ts x (s2, ?l))"
          by (rule admit_waiting_ok [OF phase2, of x ws])
            (use xs room budget s2 True in simp_all)
        moreover have "go st = admit_waiting cfg env ts x (s2, ?l)"
          using delay poll True by (auto simp: go_def st)
        ultimately show ?thesis by (simp only:)
      next
        case False
        let ?l' = "?l\<lparr>skipped_reqs := x # skipped_reqs ?l\<rparr>"
        have "put_back_skipped (s2\<lparr>waiting := tl (waiting s2)\<rparr>, ?l') = put_back_skipped (s2, ?l)"
          using xs by (simp add: put_back_skipped_def s2(1) upd_def)
        moreover have "batch_ok cfg (s2\<lparr>waiting := tl (waiting s2)\<rparr>) ?l"
          by (rule batch_ok_frame [of cfg s2]) (use phase2 in \<open>simp_all add: wait_phase_def\<close>)
        then have "batch_ok cfg (s2\<lparr>waiting := tl (waiting s2)\<rparr>) ?l'"
          by (rule batch_ok_local) (simp_all add: batch_def)
        ultimately have "wait_phase cfg F (s2\<lparr>waiting := tl (waiting s2)\<rparr>, ?l')"
          using phase2 by (simp add: wait_phase_def)
        moreover have "go st = Inr (True, s2\<lparr>waiting := tl (waiting s2)\<rparr>, ?l')"
          using delay poll False by (auto simp: go_def st)
        ultimately show ?thesis by (simp add: s2(1))
      qed
    qed
    then show "res_ok (enable_la_sched2 cfg) ?Q (go st)" by (cases "go st") simp_all
  qed
qed

lemma waiting_loop_ok:
  "wait_phase cfg F st \<Longrightarrow> res_ok (enable_la_sched2 cfg) (\<lambda>st'. wait_phase cfg F st') (waiting_loop cfg env ts st)"
proof (induction cfg env ts st rule: waiting_loop.induct)
  case (1 cfg env ts st)
  obtain s l where st: "st = (s, l)" by (cases st)
  let ?Q = "\<lambda>st'. wait_phase cfg F st'"
  show ?case
  proof (cases "waiting s = [] \<or> token_budget l \<le> 0")
    case True
    then show ?thesis using 1(2) by (subst waiting_loop.simps) (auto simp: st)
  next
    case False
    then have step: "res_ok (enable_la_sched2 cfg) (\<lambda>(_, st'). ?Q st') (waiting_step cfg env ts st)"
      using waiting_step_ok 1(2) unfolding st by simp
    have "res_ok (enable_la_sched2 cfg) ?Q (ebind (waiting_step cfg env ts st) (\<lambda>(go_on, st').
        if go_on then waiting_loop cfg env ts st' else Inr st'))"
    proof (rule res_ok_ebind [OF step])
      fix p assume p: "waiting_step cfg env ts st = Inr p" "case p of (_, st') \<Rightarrow> ?Q st'"
      obtain go_on st' where split: "p = (go_on, st')" by (cases p)
      show "res_ok (enable_la_sched2 cfg) ?Q (case p of (go_on, st') \<Rightarrow>
          if go_on then waiting_loop cfg env ts st' else Inr st')"
      proof (cases go_on)
        case True
        then show ?thesis
          using 1(1) [of p go_on st'] False p split by (simp add: st)
      qed (use p split in simp)
    qed
    then show ?thesis using False by (subst waiting_loop.simps) (simp add: st)
  qed
qed

section \<open>The output\<close>

text \<open>What making the payload of a request may change.\<close>

definition same_but_payload :: "scheduler \<Rightarrow> scheduler \<Rightarrow> bool" where
  "same_but_payload s s' \<longleftrightarrow>
     s' = s\<lparr>heap := heap s', cached_reqs_data := cached_reqs_data s'\<rparr> \<and>
     (\<forall>y. \<exists>p i. heap s' y = (heap s y)\<lparr>postpreempt_spec_result := p, postpreempt_fixed_idx := i\<rparr> \<and>
        (correction_ok (heap s y) \<longrightarrow> correction_ok (heap s' y)))"

lemma same_but_payload_refl: "same_but_payload s s"
proof -
  have "heap s y = (heap s y)\<lparr>postpreempt_spec_result := postpreempt_spec_result (heap s y),
      postpreempt_fixed_idx := postpreempt_fixed_idx (heap s y)\<rparr>" for y
    by simp
  then have "\<exists>p i. heap s y = (heap s y)\<lparr>postpreempt_spec_result := p, postpreempt_fixed_idx := i\<rparr> \<and>
      (correction_ok (heap s y) \<longrightarrow> correction_ok (heap s y))" for y
    by blast
  moreover have "s = s\<lparr>heap := heap s, cached_reqs_data := cached_reqs_data s\<rparr>" by simp
  ultimately show ?thesis unfolding same_but_payload_def by blast
qed

lemma same_but_payload_trans:
  assumes "same_but_payload s t" "same_but_payload t u"
  shows "same_but_payload s u"
proof -
  have "\<exists>p i. heap u y = (heap s y)\<lparr>postpreempt_spec_result := p, postpreempt_fixed_idx := i\<rparr> \<and>
      (correction_ok (heap s y) \<longrightarrow> correction_ok (heap u y))" for y
  proof -
    obtain p i q j where
      "heap t y = (heap s y)\<lparr>postpreempt_spec_result := p, postpreempt_fixed_idx := i\<rparr>"
      "heap u y = (heap t y)\<lparr>postpreempt_spec_result := q, postpreempt_fixed_idx := j\<rparr>"
      "correction_ok (heap s y) \<longrightarrow> correction_ok (heap u y)"
      using assms unfolding same_but_payload_def by metis
    then show ?thesis by (intro exI [of _ q] exI [of _ j]) simp
  qed
  moreover obtain h c where "t = s\<lparr>heap := h, cached_reqs_data := c\<rparr>"
    using assms(1) unfolding same_but_payload_def by blast
  moreover obtain h c where "u = t\<lparr>heap := h, cached_reqs_data := c\<rparr>"
    using assms(2) unfolding same_but_payload_def by blast
  ultimately show ?thesis by (simp add: same_but_payload_def)
qed

lemma same_but_payload_fields:
  assumes "same_but_payload s s'"
  shows "requests s' = requests s" "waiting s' = waiting s"
    "running_scheduled s' = running_scheduled s" "to_be_preempted s' = to_be_preempted s"
    "finished_req_ids s' = finished_req_ids s" "kv_cache_manager s' = kv_cache_manager s"
    "encoder_cache_manager s' = encoder_cache_manager s" "tracked s' = tracked s"
proof -
  obtain h c where "s' = s\<lparr>heap := h, cached_reqs_data := c\<rparr>"
    using assms unfolding same_but_payload_def by blast
  then show "requests s' = requests s" "waiting s' = waiting s"
    "running_scheduled s' = running_scheduled s" "to_be_preempted s' = to_be_preempted s"
    "finished_req_ids s' = finished_req_ids s" "kv_cache_manager s' = kv_cache_manager s"
    "encoder_cache_manager s' = encoder_cache_manager s" "tracked s' = tracked s"
    by (simp_all add: tracked_def)
qed

lemma same_but_payload_heap:
  assumes "same_but_payload s s'"
  shows "req_id_of s' y = req_id_of s y" "wait_ok (heap s' y) = wait_ok (heap s y)"
    "run_ok (heap s' y) = run_ok (heap s y)" "drain_ok (heap s' y) = drain_ok (heap s y)"
    "request_fits cfg (heap s y) \<Longrightarrow> request_fits cfg (heap s' y)"
    "num_computed_tokens (heap s' y) = num_computed_tokens (heap s y)"
proof -
  obtain p i where h:
    "heap s' y = (heap s y)\<lparr>postpreempt_spec_result := p, postpreempt_fixed_idx := i\<rparr>"
    "correction_ok (heap s y) \<longrightarrow> correction_ok (heap s' y)"
    using assms unfolding same_but_payload_def by blast
  then show "req_id_of s' y = req_id_of s y" "wait_ok (heap s' y) = wait_ok (heap s y)"
    "run_ok (heap s' y) = run_ok (heap s y)" "drain_ok (heap s' y) = drain_ok (heap s y)"
    "num_computed_tokens (heap s' y) = num_computed_tokens (heap s y)"
    by (simp_all add: wait_ok_def run_ok_def drain_ok_def)
  assume fit: "request_fits cfg (heap s y)"
  show "request_fits cfg (heap s' y)"
    by (rule request_fits_cong [OF fit]) (use fit h in \<open>simp_all add: request_fits_def\<close>)
qed

lemma same_but_payload_inv:
  assumes "same_but_payload s s'" "sched_inv cfg F s"
  shows "sched_inv cfg F s'"
proof -
  note f = same_but_payload_fields [OF assms(1)] and h = same_but_payload_heap [OF assms(1)]
  have "queues_ok F s'"
    using assms(2) by (simp only: sched_inv_def queues_ok_def h f) simp
  moreover have "resources_ok cfg F s'"
    using assms(2) by (simp only: sched_inv_def resources_ok_def h f) simp
  ultimately show ?thesis by (simp add: sched_inv_def)
qed

lemma resolve_correction_ok:
  assumes "correction_ok r"
  shows "\<exists>ts res idx r' p i. resolve_correction r tokens cached = Inr (ts, res, idx, r') \<and>
    r' = r\<lparr>postpreempt_spec_result := p, postpreempt_fixed_idx := i\<rparr> \<and> correction_ok r'"
proof -
  have same: "r = r\<lparr>postpreempt_spec_result := postpreempt_spec_result r,
      postpreempt_fixed_idx := postpreempt_fixed_idx r\<rparr>"
    by simp
  consider (post) "postpreempt_spec_result r = Some False"
    | (fixed) "postpreempt_spec_result r \<noteq> Some False" "spec_result r = Some False \<and>
        (just_fixed r = Some True \<or> \<not> cached)"
    | (plain) "postpreempt_spec_result r \<noteq> Some False" "\<not> (spec_result r = Some False \<and>
        (just_fixed r = Some True \<or> \<not> cached))"
    by blast
  then show ?thesis
  proof cases
    case post
    then obtain i where "postpreempt_fixed_idx r = Some i" "0 \<le> i" "i < py_len (output_token_ids r)"
      using assms by (auto simp: correction_ok_def)
    then show ?thesis
      using post assms
      by (auto simp: resolve_correction_def py_get_nonneg py_len_def correction_ok_def)
  next
    case fixed
    then obtain i where "fixed_idx r = Some i" "0 \<le> i" "i < py_len (output_token_ids r)"
      using assms by (auto simp: correction_ok_def)
    then have "\<exists>ts res idx. resolve_correction r tokens cached = Inr (ts, res, idx, r)"
      using fixed by (auto simp: resolve_correction_def py_get_nonneg py_len_def)
    then show ?thesis using same assms by metis
  next
    case plain
    then have "resolve_correction r tokens cached = Inr (tokens, True, - 1, r)"
      by (auto simp: resolve_correction_def)
    then show ?thesis using same assms by metis
  qed
qed

lemma make_cached_request_data_ok:
  assumes "correction_ok (heap s x)"
    and "\<forall>i d. cached_reqs_data s i = Some d \<longrightarrow> cr_req_id d = i"
  shows "\<exists>d s'. make_cached_request_data x n k blocks resumed s = Inr (d, s') \<and>
    cr_req_id d = req_id_of s x \<and> cr_num_computed_tokens d = num_computed_tokens (heap s x) \<and>
    same_but_payload s s' \<and>
    (\<forall>i d. cached_reqs_data s' i = Some d \<longrightarrow> cr_req_id d = i)"
proof -
  let ?r = "heap s x"
  let ?tokens = "py_slice (all_token_ids ?r) (num_computed_tokens ?r)
    (num_computed_tokens ?r + (n - k))"
  obtain ts res idx r' p i where r:
    "resolve_correction ?r ?tokens (cached_reqs_data s (req_id_of s x) \<noteq> None) = Inr (ts, res, idx, r')"
    "r' = ?r\<lparr>postpreempt_spec_result := p, postpreempt_fixed_idx := i\<rparr>" "correction_ok r'"
    using resolve_correction_ok [OF assms(1)] by blast
  obtain d where made: "make_cached_request_data x n k blocks resumed s =
      Inr (d, (upd x (\<lambda>_. r') s)\<lparr>cached_reqs_data := (cached_reqs_data s)(req_id_of s x \<mapsto> d)\<rparr>)"
    and d: "cr_req_id d = req_id_of s x" "cr_num_computed_tokens d = num_computed_tokens (heap s x)"
    using r(1,2) assms(2)
    by (auto simp: make_cached_request_data_def Let_def cached_request_data_from_def
        split: option.splits)
  let ?s' = "(upd x (\<lambda>_. r') s)\<lparr>cached_reqs_data := (cached_reqs_data s)(req_id_of s x \<mapsto> d)\<rparr>"
  have "\<exists>q j. heap ?s' y = (heap s y)\<lparr>postpreempt_spec_result := q, postpreempt_fixed_idx := j\<rparr> \<and>
      (correction_ok (heap s y) \<longrightarrow> correction_ok (heap ?s' y))" for y
  proof (cases "y = x")
    case True
    then show ?thesis using r(2,3) by auto
  next
    case False
    then show ?thesis
      by (intro exI [of _ "postpreempt_spec_result (heap s y)"]
          exI [of _ "postpreempt_fixed_idx (heap s y)"]) simp
  qed
  then have "same_but_payload s ?s'" by (simp add: same_but_payload_def upd_def)
  then show ?thesis using made d assms(2) by auto
qed

end
