(* ===== verification/ScheduleOk.thy ===== *)
theory ScheduleOk
  imports SchedSafety
begin

text \<open>
  The end of \<open>schedule\<close>, from its assertions to the update of the computed tokens, and the
  theorem about the whole of \<open>schedule\<close>.
\<close>

section \<open>The lists of the output\<close>

text \<open>What the local variables hold for a list of requests that is sent.\<close>

definition sendable :: "sched_local \<Rightarrow> scheduler \<Rightarrow> oid list \<Rightarrow> bool" where
  "sendable l s xs \<longleftrightarrow> (\<forall>x \<in> set xs. correction_ok (heap s x) \<and>
     (\<exists>n. map_of (scheduled_tokens l) (req_id_of s x) = Some n) \<and>
     (\<exists>b. new_block_ids l (req_id_of s x) = Some b))"

definition cached_ids_ok :: "scheduler \<Rightarrow> bool" where
  "cached_ids_ok s \<longleftrightarrow> (\<forall>i d. cached_reqs_data s i = Some d \<longrightarrow> cr_req_id d = i)"

lemma sendable_payload:
  assumes "same_but_payload s s'" "sendable l s xs"
  shows "sendable l s' xs"
proof -
  have "correction_ok (heap s' x)" if "x \<in> set xs" for x
    using assms that unfolding same_but_payload_def sendable_def by blast
  then show ?thesis
    using assms(2) by (simp add: sendable_def same_but_payload_heap(1) [OF assms(1)])
qed

lemma make_cached_list_ok:
  assumes "sendable l s xs" "cached_ids_ok s"
  shows "\<exists>ds s'. make_cached_list l resumed xs s = Inr (ds, s') \<and>
    map (\<lambda>d. (cr_req_id d, cr_num_computed_tokens d)) ds =
      map (\<lambda>x. (req_id_of s x, num_computed_tokens (heap s x))) xs \<and>
    same_but_payload s s' \<and> cached_ids_ok s'"
  using assms
proof (induction xs arbitrary: s)
  case Nil
  then show ?case by (simp add: same_but_payload_refl)
next
  case (Cons x xs)
  obtain n b where nb: "map_of (scheduled_tokens l) (req_id_of s x) = Some n"
    "new_block_ids l (req_id_of s x) = Some b" and corr: "correction_ok (heap s x)"
    using Cons.prems(1) by (auto simp: sendable_def)
  obtain d t where d: "make_cached_request_data x n 0 b resumed s = Inr (d, t)"
    "cr_req_id d = req_id_of s x" "cr_num_computed_tokens d = num_computed_tokens (heap s x)"
    "same_but_payload s t" "cached_ids_ok t"
    using make_cached_request_data_ok [OF corr, where n = n and k = 0 and blocks = b
        and resumed = resumed] Cons.prems(2)
    unfolding cached_ids_ok_def by blast
  have "sendable l s xs" using Cons.prems(1) by (simp add: sendable_def)
  then have "sendable l t xs" using sendable_payload [OF d(4)] by blast
  from Cons.IH [OF this d(5)] obtain ds s' where ds:
    "make_cached_list l resumed xs t = Inr (ds, s')"
    "map (\<lambda>d. (cr_req_id d, cr_num_computed_tokens d)) ds =
      map (\<lambda>x. (req_id_of t x, num_computed_tokens (heap t x))) xs"
    "same_but_payload t s'" "cached_ids_ok s'" by blast
  have "map (\<lambda>x. (req_id_of t x, num_computed_tokens (heap t x))) xs =
      map (\<lambda>x. (req_id_of s x, num_computed_tokens (heap s x))) xs"
    by (simp only: same_but_payload_heap [OF d(4)])
  then show ?case
    using d nb ds same_but_payload_trans [OF d(4) ds(3)]
    by (simp add: dict_get_def map_get_def)
qed

lemma make_new_list_ok:
  assumes "sendable l s (new_reqs l)"
  shows "\<exists>ds. make_new_list l s = Inr ds \<and>
    map (\<lambda>d. (nr_req_id d, nr_num_computed_tokens d)) ds =
      map (\<lambda>x. (req_id_of s x, num_computed_tokens (heap s x))) (new_reqs l)"
proof -
  have "\<exists>ds. emap (\<lambda>x. ebind (map_get (new_block_ids l) (req_id_of s x)) (\<lambda>blocks.
             Inr (new_request_data_from (heap s x) blocks))) xs = Inr ds \<and>
    map (\<lambda>d. (nr_req_id d, nr_num_computed_tokens d)) ds =
      map (\<lambda>x. (req_id_of s x, num_computed_tokens (heap s x))) xs"
    if "sendable l s xs" for xs
    using that
  proof (induction xs)
    case (Cons x xs)
    then have "sendable l s xs" by (simp add: sendable_def)
    then obtain ds where "emap (\<lambda>x. ebind (map_get (new_block_ids l) (req_id_of s x)) (\<lambda>blocks.
             Inr (new_request_data_from (heap s x) blocks))) xs = Inr ds"
      "map (\<lambda>d. (nr_req_id d, nr_num_computed_tokens d)) ds =
        map (\<lambda>x. (req_id_of s x, num_computed_tokens (heap s x))) xs"
      using Cons.IH by blast
    moreover obtain b where "new_block_ids l (req_id_of s x) = Some b"
      using Cons.prems by (auto simp: sendable_def)
    ultimately show ?case by (simp add: map_get_def new_request_data_from_def)
  qed simp
  then show ?thesis using assms by (simp add: make_new_list_def)
qed

section \<open>Advancing the computed tokens\<close>

definition advance_by :: "(string \<times> int) list \<Rightarrow> scheduler \<Rightarrow> oid \<Rightarrow> int" where
  "advance_by es s y =
     (case map_of es (req_id_of s y) of
        Some n \<Rightarrow> if requests s (req_id_of s y) = Some y then n else 0
      | None \<Rightarrow> 0)"

lemma advance_fold:
  assumes "distinct (map fst es)"
    and "\<forall>i \<in> fst ` set es. \<exists>x. requests s i = Some x \<and> req_id_of s x = i"
  shows "\<exists>s'. efold advance_computed es s = Inr s' \<and> s' = s\<lparr>heap := heap s'\<rparr> \<and>
    (\<forall>y. heap s' y =
      (heap s y)\<lparr>num_computed_tokens := num_computed_tokens (heap s y) + advance_by es s y\<rparr>)"
  using assms
proof (induction es arbitrary: s)
  case Nil
  have "s = s\<lparr>heap := heap s\<rparr>" by simp
  moreover have "heap s y = (heap s y)\<lparr>num_computed_tokens := num_computed_tokens (heap s y) + 0\<rparr>"
    for y by simp
  ultimately show ?case by (simp add: advance_by_def)
next
  case (Cons e es)
  obtain i n where e: "e = (i, n)" by (cases e)
  obtain x where x: "requests s i = Some x" "req_id_of s x = i"
    using Cons.prems(2) e by auto
  let ?t = "upd x (\<lambda>r. r\<lparr>num_computed_tokens := num_computed_tokens r + n\<rparr>) s"
  have id: "req_id_of ?t y = req_id_of s y" for y by simp
  have pre: "\<forall>i \<in> fst ` set es. \<exists>x. requests ?t i = Some x \<and> req_id_of ?t x = i"
    using Cons.prems(2) by (simp only: id) simp
  have dist: "distinct (map fst es)" "i \<notin> fst ` set es" using Cons.prems(1) e by auto
  from Cons.IH [OF dist(1) pre] obtain s' where s': "efold advance_computed es ?t = Inr s'"
    "s' = ?t\<lparr>heap := heap s'\<rparr>"
    "\<forall>y. heap s' y =
      (heap ?t y)\<lparr>num_computed_tokens := num_computed_tokens (heap ?t y) + advance_by es ?t y\<rparr>"
    by blast
  have "map_of es i = None" using dist(2) by (simp add: map_of_eq_None_iff)
  then have adv: "advance_by (e # es) s y = (if y = x then n else 0) + advance_by es ?t y" for y
    using x by (auto simp: advance_by_def e split: option.splits)
  have "heap s' y =
      (heap s y)\<lparr>num_computed_tokens := num_computed_tokens (heap s y) + advance_by (e # es) s y\<rparr>" for y
    unfolding adv s'(3) [rule_format] by simp
  moreover have "s' = s\<lparr>heap := heap s'\<rparr>"
    by (subst s'(2)) (simp add: upd_def)
  moreover have "efold advance_computed (e # es) s = Inr s'"
    using s'(1) x by (simp add: advance_computed_def map_get_def e)
  ultimately show ?case by blast
qed

text \<open>Advancing running requests keeps the invariant.\<close>

lemma advanced_inv:
  assumes "sched_inv cfg F s"
    and "s' = s\<lparr>heap := heap s'\<rparr>"
    and "\<And>y. \<exists>k. heap s' y = (heap s y)\<lparr>num_computed_tokens := k\<rparr>"
    and "\<And>y. y \<in> set (waiting s) \<Longrightarrow> heap s' y = heap s y"
  shows "sched_inv cfg F s'"
proof -
  obtain h where h: "s' = s\<lparr>heap := h\<rparr>" using assms(2) by blast
  have f: "requests s' = requests s" "waiting s' = waiting s"
    "running_scheduled s' = running_scheduled s" "to_be_preempted s' = to_be_preempted s"
    "kv_cache_manager s' = kv_cache_manager s" "tracked s' = tracked s"
    "encoder_cache_manager s' = encoder_cache_manager s"
    by (simp_all add: h tracked_def)
  have id: "req_id_of s' y = req_id_of s y" for y using assms(3) [of y] by auto
  have ok: "run_ok (heap s' y) = run_ok (heap s y)" "drain_ok (heap s' y) = drain_ok (heap s y)" for y
    using assms(3) [of y] by (auto simp: run_ok_def drain_ok_def)
  have wait: "\<forall>y \<in> set (waiting s). req_id_of s y \<notin> F \<and> wait_ok (heap s' y)"
    using assms(1,4) by (simp add: sched_inv_def queues_ok_def)
  have "queues_ok F s'"
    using assms(1) wait by (simp only: sched_inv_def queues_ok_def id ok f) simp
  moreover have "resources_ok cfg F s'"
    using assms(1) by (simp only: sched_inv_def resources_ok_def id f) simp
  ultimately show ?thesis by (simp add: sched_inv_def)
qed

section \<open>The output\<close>

definition payloads :: "scheduler_output \<Rightarrow> (string \<times> int) list" where
  "payloads out = map (\<lambda>d. (nr_req_id d, nr_num_computed_tokens d)) (so_new_reqs out) @
     map (\<lambda>d. (cr_req_id d, cr_num_computed_tokens d)) (so_cached_reqs out)"

text \<open>
  A consistent output: it reports the finished ids \<open>F\<close>; it stays within the token budget and
  gives every scheduled request at least one token; it has exactly one payload per scheduled
  request; and each of these is running, is advanced by its tokens, and has slots in its own
  block table for everything computed so far and now.
\<close>

definition output_ok :: "sched_config \<Rightarrow> string set \<Rightarrow> scheduler_output \<Rightarrow> scheduler \<Rightarrow> bool" where
  "output_ok cfg F out s \<longleftrightarrow>
     so_finished_req_ids out = F \<and>
     so_total_num_scheduled_tokens out = sum_list (map snd (so_num_scheduled_tokens out)) \<and>
     so_total_num_scheduled_tokens out \<le> max_num_scheduled_tokens cfg \<and>
     (\<forall>(i, n) \<in> set (so_num_scheduled_tokens out). 0 < n) \<and>
     distinct (map fst (so_num_scheduled_tokens out)) \<and>
     distinct (map fst (payloads out)) \<and>
     fst ` set (payloads out) = fst ` set (so_num_scheduled_tokens out) \<and>
     (\<forall>(i, k) \<in> set (payloads out). \<exists>x n. requests s i = Some x \<and>
        x \<in> set (running_scheduled s) \<and> map_of (so_num_scheduled_tokens out) i = Some n \<and>
        num_computed_tokens (heap s x) = k + n \<and>
        k + n \<le> py_len (req_to_blocks (kv_cache_manager s) i)
          * int (block_size (kv_cache_manager s)))"

lemma batch_dest:
  assumes "batch_ok cfg s l"
  shows "total_scheduled l \<le> max_num_scheduled_tokens cfg" "0 \<le> token_budget l"
    "distinct (map fst (scheduled_tokens l))" "\<forall>e \<in> set (scheduled_tokens l). 0 < snd e"
    "structured_ids l = []" "distinct (batch l)"
    "fst ` set (scheduled_tokens l) = req_id_of s ` set (batch l)"
    "set (batch l) \<subseteq> set (running_scheduled s)"
    "x \<in> set (batch l) \<Longrightarrow> \<exists>b. new_block_ids l (req_id_of s x) = Some b"
    "x \<in> set (batch l) \<Longrightarrow>
       \<exists>n. map_of (scheduled_tokens l) (req_id_of s x) = Some n \<and> covered s x n"
  using assms by (auto simp: batch_ok_def)

lemma check_constraints_ok:
  assumes "sched_inv cfg F s" "batch_ok cfg s l"
  shows "check_constraints cfg s l = Inr ()"
proof -
  have "card (set (batch l)) \<le> card (set (running_scheduled s))"
    by (intro card_mono batch_dest(8) [OF assms(2)]) simp
  then have "py_len (batch l) \<le> py_len (running_scheduled s)"
    using distinct_card [OF batch_dest(6) [OF assms(2)]]
      distinct_card [OF sched_inv_dest(5) [OF assms(1)]]
    by (simp add: py_len_def)
  then show ?thesis
    using batch_dest(1,2) [OF assms(2)] sched_inv_dest(4) [OF assms(1)]
    by (simp add: check_constraints_def batch_def)
qed

lemma batch_sendable:
  assumes "all_fit cfg F s" "batch_ok cfg s l" "set xs \<subseteq> set (batch l)"
  shows "sendable l s xs"
  unfolding sendable_def
proof (intro ballI conjI)
  fix x assume "x \<in> set xs"
  then have x: "x \<in> set (batch l)" using assms(3) by blast
  then have "x \<in> set (tracked s)" using batch_dest(8) [OF assms(2)] by (auto simp: tracked_def)
  then show "correction_ok (heap s x)" using assms(1) by (simp add: all_fit_def request_fits_def)
  show "\<exists>n. map_of (scheduled_tokens l) (req_id_of s x) = Some n"
    using batch_dest(10) [OF assms(2) x] by blast
  show "\<exists>b. new_block_ids l (req_id_of s x) = Some b"
    using batch_dest(9) [OF assms(2) x] .
qed

text \<open>The four lists are made one after the other.\<close>

lemma make_lists_ok:
  assumes "all_fit cfg F s" "batch_ok cfg s l"
  shows "\<exists>news rs fs ss s1 s2 s3. make_new_list l s = Inr news \<and>
    make_cached_list l True (resumed_reqs l) s = Inr (rs, s1) \<and>
    make_cached_list l False (flushed_reqs l) s1 = Inr (fs, s2) \<and>
    make_cached_list l False (sp_reqs l) s2 = Inr (ss, s3) \<and>
    map (\<lambda>d. (nr_req_id d, nr_num_computed_tokens d)) news @
      map (\<lambda>d. (cr_req_id d, cr_num_computed_tokens d)) (rs @ fs @ ss) =
      map (\<lambda>x. (req_id_of s x, num_computed_tokens (heap s x))) (batch l) \<and>
    same_but_payload s s3 \<and> cached_ids_ok s3"
proof -
  have send: "sendable l s (new_reqs l)" "sendable l s (resumed_reqs l)"
    "sendable l s (flushed_reqs l)" "sendable l s (sp_reqs l)"
    by (rule batch_sendable [OF assms]; auto simp: batch_def)+
  have ids: "cached_ids_ok s" using assms(1) by (simp add: all_fit_def cached_ids_ok_def)
  obtain news where n: "make_new_list l s = Inr news"
    "map (\<lambda>d. (nr_req_id d, nr_num_computed_tokens d)) news =
      map (\<lambda>x. (req_id_of s x, num_computed_tokens (heap s x))) (new_reqs l)"
    using make_new_list_ok [OF send(1)] by blast
  obtain rs s1 where r: "make_cached_list l True (resumed_reqs l) s = Inr (rs, s1)"
    "map (\<lambda>d. (cr_req_id d, cr_num_computed_tokens d)) rs =
      map (\<lambda>x. (req_id_of s x, num_computed_tokens (heap s x))) (resumed_reqs l)"
    "same_but_payload s s1" "cached_ids_ok s1"
    using make_cached_list_ok [OF send(2) ids] by blast
  obtain fs s2 where f: "make_cached_list l False (flushed_reqs l) s1 = Inr (fs, s2)"
    "map (\<lambda>d. (cr_req_id d, cr_num_computed_tokens d)) fs =
      map (\<lambda>x. (req_id_of s1 x, num_computed_tokens (heap s1 x))) (flushed_reqs l)"
    "same_but_payload s1 s2" "cached_ids_ok s2"
    using make_cached_list_ok [OF sendable_payload [OF r(3) send(3)] r(4)] by blast
  have s02: "same_but_payload s s2" by (rule same_but_payload_trans [OF r(3) f(3)])
  obtain ss s3 where p: "make_cached_list l False (sp_reqs l) s2 = Inr (ss, s3)"
    "map (\<lambda>d. (cr_req_id d, cr_num_computed_tokens d)) ss =
      map (\<lambda>x. (req_id_of s2 x, num_computed_tokens (heap s2 x))) (sp_reqs l)"
    "same_but_payload s2 s3" "cached_ids_ok s3"
    using make_cached_list_ok [OF sendable_payload [OF s02 send(4)] f(4)] by blast
  have s03: "same_but_payload s s3" by (rule same_but_payload_trans [OF s02 p(3)])
  have "map (\<lambda>d. (nr_req_id d, nr_num_computed_tokens d)) news @
      map (\<lambda>d. (cr_req_id d, cr_num_computed_tokens d)) (rs @ fs @ ss) =
      map (\<lambda>x. (req_id_of s x, num_computed_tokens (heap s x))) (batch l)"
    using n(2) r(2) f(2) p(2)
    by (simp only: batch_def map_append same_but_payload_heap [OF r(3)]
        same_but_payload_heap [OF s02])
  then show ?thesis using n(1) r(1) f(1) p(1,4) s03 by blast
qed

text \<open>After the lists are made, the computed tokens of the batch advance.\<close>

lemma advance_ok:
  assumes ok: "sched_ok cfg s" "all_fit cfg F s" and batch: "batch_ok cfg s l"
  shows "\<exists>s'. efold advance_computed (scheduled_tokens l) s = Inr s' \<and>
    s' = s\<lparr>heap := heap s'\<rparr> \<and> sched_ok cfg s' \<and>
    (\<forall>y \<in> set (tracked s). request_fits cfg (heap s' y)) \<and>
    (\<forall>x \<in> set (batch l). \<exists>n. map_of (scheduled_tokens l) (req_id_of s x) = Some n \<and>
       covered s x n \<and> heap s' x = (heap s x)\<lparr>num_computed_tokens := num_computed_tokens (heap s x) + n\<rparr>)"
proof -
  have sub: "x \<in> set (running_scheduled s)" "x \<in> set (tracked s)" if "x \<in> set (batch l)" for x
    using batch_dest(8) [OF batch] that by (auto simp: tracked_def)
  have reg: "requests s (req_id_of s x) = Some x" if "x \<in> set (tracked s)" for x
    using ok(1) that by (simp add: sched_inv_def queues_ok_def)
  have "\<exists>x. requests s i = Some x \<and> req_id_of s x = i" if i: "i \<in> fst ` set (scheduled_tokens l)" for i
  proof -
    obtain x where x: "x \<in> set (batch l)" "i = req_id_of s x" using i batch_dest(7) [OF batch] by auto
    then show ?thesis using reg [OF sub(2) [OF x(1)]] by blast
  qed
  then obtain s' where s': "efold advance_computed (scheduled_tokens l) s = Inr s'"
    "s' = s\<lparr>heap := heap s'\<rparr>"
    "\<forall>y. heap s' y = (heap s y)\<lparr>num_computed_tokens :=
      num_computed_tokens (heap s y) + advance_by (scheduled_tokens l) s y\<rparr>"
    using advance_fold [OF batch_dest(3) [OF batch], of s] by blast
  have nonneg: "0 \<le> advance_by (scheduled_tokens l) s y" for y
    using batch_dest(4) [OF batch]
    by (auto simp: advance_by_def split: option.splits dest!: map_of_SomeD)
  have still: "advance_by (scheduled_tokens l) s y = 0" if y: "y \<in> set (waiting s)" for y
  proof -
    have "y \<notin> set (running_scheduled s)"
      using tracked_distinct [OF ok(1)] y by (auto simp: tracked_def)
    then have "y \<notin> set (batch l)" using sub by blast
    moreover have "y = x" if "x \<in> set (batch l)" "req_id_of s y = req_id_of s x" for x
      using ids_distinct [OF ok(1) _ sub(2) [OF that(1)] that(2)] y by (simp add: tracked_def)
    ultimately have "req_id_of s y \<notin> fst ` set (scheduled_tokens l)"
      using batch_dest(7) [OF batch] by auto
    then have "map_of (scheduled_tokens l) (req_id_of s y) = None"
      by (simp add: map_of_eq_None_iff)
    then show ?thesis by (simp add: advance_by_def)
  qed
  have "sched_ok cfg s'"
  proof (rule advanced_inv [OF ok(1) s'(2)])
    show "\<exists>k. heap s' y = (heap s y)\<lparr>num_computed_tokens := k\<rparr>" for y using s'(3) by blast
    show "heap s' y = heap s y" if "y \<in> set (waiting s)" for y
      using s'(3) still [OF that] by simp
  qed
  moreover have "request_fits cfg (heap s' y)" if y: "y \<in> set (tracked s)" for y
  proof -
    have fit: "request_fits cfg (heap s y)" using ok(2) y by (simp add: all_fit_def)
    show ?thesis
      by (rule request_fits_cong [OF fit])
        (use fit nonneg [of y] s'(3) in \<open>simp_all add: request_fits_def correction_ok_def\<close>)
  qed
  moreover have "\<exists>n. map_of (scheduled_tokens l) (req_id_of s x) = Some n \<and> covered s x n \<and>
      heap s' x = (heap s x)\<lparr>num_computed_tokens := num_computed_tokens (heap s x) + n\<rparr>"
    if x: "x \<in> set (batch l)" for x
  proof -
    obtain n where n: "map_of (scheduled_tokens l) (req_id_of s x) = Some n" "covered s x n"
      using batch_dest(10) [OF batch x] by blast
    then have "advance_by (scheduled_tokens l) s x = n"
      using reg [OF sub(2) [OF x]] by (simp add: advance_by_def)
    then show ?thesis using n s'(3) by simp
  qed
  ultimately show ?thesis using s'(1,2) by blast
qed

lemma finish_schedule_ok:
  assumes "sched_ok cfg s" "all_fit cfg F s" "batch_ok cfg s l"
  shows "\<exists>res s'. finish_schedule cfg d (s, l) = Inr (res, s') \<and> sched_ok cfg s' \<and>
    all_fit cfg {} s' \<and> output_ok cfg F (sr_output res) s'"
proof -
  obtain news rs fs ss s1 s2 s3 where lists: "make_new_list l s = Inr news"
    "make_cached_list l True (resumed_reqs l) s = Inr (rs, s1)"
    "make_cached_list l False (flushed_reqs l) s1 = Inr (fs, s2)"
    "make_cached_list l False (sp_reqs l) s2 = Inr (ss, s3)"
    and pay: "map (\<lambda>d. (nr_req_id d, nr_num_computed_tokens d)) news @
      map (\<lambda>d. (cr_req_id d, cr_num_computed_tokens d)) (rs @ fs @ ss) =
      map (\<lambda>x. (req_id_of s x, num_computed_tokens (heap s x))) (batch l)"
    and s3: "same_but_payload s s3" "cached_ids_ok s3"
    using make_lists_ok [OF assms(2,3)] by blast
  note f = same_but_payload_fields [OF s3(1)] and h = same_but_payload_heap [OF s3(1)]
  obtain freed enc where enc: "get_freed_ids (encoder_cache_manager s3) = (freed, enc)" by fastforce
  let ?t = "s3\<lparr>encoder_cache_manager := enc\<rparr>"
  have ec: "ec_cached enc = ec_cached (encoder_cache_manager s3)"
    using enc by (auto simp: get_freed_ids_def)
  have t_ok: "sched_ok cfg ?t"
    by (rule sched_inv_frame [OF same_but_payload_inv [OF s3(1) assms(1)]]) (simp_all add: ec)
  have tracked: "tracked ?t = tracked s" using f(8) by (simp add: tracked_def)
  have "request_fits cfg (heap ?t y)" if "y \<in> set (tracked s)" for y
    using h(5) assms(2) that by (simp add: all_fit_def)
  then have t_fit: "all_fit cfg F ?t"
    using s3(2) f(5) assms(2) by (simp add: all_fit_def tracked cached_ids_ok_def)
  have t_batch: "batch_ok cfg ?t l"
    by (rule batch_ok_cong [OF assms(3)])
      (use assms(3) in \<open>simp_all add: batch_ok_def slots_kept_def h f\<close>)
  obtain s4 where s4: "efold advance_computed (scheduled_tokens l) ?t = Inr s4"
    "s4 = ?t\<lparr>heap := heap s4\<rparr>" "sched_ok cfg s4"
    "\<forall>y \<in> set (tracked ?t). request_fits cfg (heap s4 y)"
    "\<forall>x \<in> set (batch l). \<exists>n. map_of (scheduled_tokens l) (req_id_of ?t x) = Some n \<and>
       covered ?t x n \<and> heap s4 x = (heap ?t x)\<lparr>num_computed_tokens := num_computed_tokens (heap ?t x) + n\<rparr>"
    using advance_ok [OF t_ok t_fit t_batch] by blast
  obtain hp where hp: "s4 = ?t\<lparr>heap := hp\<rparr>" using s4(2) by blast
  have f4: "requests s4 = requests s" "running_scheduled s4 = running_scheduled s"
    "kv_cache_manager s4 = kv_cache_manager s" "tracked s4 = tracked s"
    "cached_reqs_data s4 = cached_reqs_data s3" "finished_req_ids s3 = F"
    using f tracked assms(2) by (simp_all add: hp tracked_def all_fit_def)
  let ?s = "s4\<lparr>finished_req_ids := {}\<rparr>"
  define out where "out = \<lparr>so_new_reqs = news, so_cached_reqs = rs @ fs @ ss,
    so_num_scheduled_tokens = scheduled_tokens l,
    so_total_num_scheduled_tokens = total_scheduled l,
    so_spec_decode_tokens = [], so_encoder_inputs = [],
    so_num_common_prefix_blocks = 0, so_finished_req_ids = F,
    so_free_encoder_input_ids = freed,
    so_structured_output_request_ids = structured_ids l, so_embeddings = None\<rparr>"
  define res where "res = \<lparr>sr_output = out,
    sr_resume_helper = resume_helper (map (heap s3) (resumed_reqs l)), sr_max_dropped = d\<rparr>"
  have eq: "finish_schedule cfg d (s, l) = Inr (res, ?s)"
    using check_constraints_ok [OF assms(1,3)] batch_dest(5) [OF assms(3)] lists enc s4(1) f4(6)
    by (simp add: finish_schedule_def raise_if_def res_def out_def)
  have pay': "payloads out = map (\<lambda>x. (req_id_of s x, num_computed_tokens (heap s x))) (batch l)"
    using pay by (simp add: payloads_def out_def)
  have batch_tracked: "set (batch l) \<subseteq> set (tracked s)"
    using batch_dest(8) [OF assms(3)] by (auto simp: tracked_def)
  have "inj_on (req_id_of s) (set (batch l))"
    using ids_distinct [OF assms(1)] batch_tracked unfolding inj_on_def by blast
  then have dist: "distinct (map fst (payloads out))"
    using batch_dest(6) [OF assms(3)] by (simp add: pay' distinct_map comp_def)
  have each: "\<exists>x n. requests ?s i = Some x \<and> x \<in> set (running_scheduled ?s) \<and>
      map_of (scheduled_tokens l) i = Some n \<and> num_computed_tokens (heap ?s x) = k + n \<and>
      k + n \<le> py_len (req_to_blocks (kv_cache_manager ?s) i) * int (block_size (kv_cache_manager ?s))"
    if ik: "(i, k) \<in> set (payloads out)" for i k
  proof -
    obtain x where x: "x \<in> set (batch l)" "i = req_id_of s x" "k = num_computed_tokens (heap s x)"
      using ik unfolding pay' by auto
    obtain n where n: "map_of (scheduled_tokens l) (req_id_of ?t x) = Some n" "covered ?t x n"
      "heap s4 x = (heap ?t x)\<lparr>num_computed_tokens := num_computed_tokens (heap ?t x) + n\<rparr>"
      using s4(5) x(1) by blast
    have "requests s i = Some x"
      using assms(1) batch_tracked x(1,2) by (auto simp: sched_inv_def queues_ok_def)
    moreover have "x \<in> set (running_scheduled s)" using batch_dest(8) [OF assms(3)] x(1) by blast
    ultimately show ?thesis
      using n x(2,3) by (simp add: f4 h f covered_def)
  qed
  have keys: "fst ` set (payloads out) = fst ` set (scheduled_tokens l)"
    by (simp add: pay' image_image batch_dest(7) [OF assms(3)])
  have fields: "so_finished_req_ids out = F" "so_num_scheduled_tokens out = scheduled_tokens l"
    "so_total_num_scheduled_tokens out = sum_list (map snd (scheduled_tokens l))"
    by (simp_all add: out_def total_scheduled_def)
  have pos: "\<forall>(i, n) \<in> set (scheduled_tokens l). 0 < n"
    using batch_dest(4) [OF assms(3)] by auto
  have all: "\<forall>(i, k) \<in> set (payloads out). \<exists>x n. requests ?s i = Some x \<and>
      x \<in> set (running_scheduled ?s) \<and> map_of (scheduled_tokens l) i = Some n \<and>
      num_computed_tokens (heap ?s x) = k + n \<and>
      k + n \<le> py_len (req_to_blocks (kv_cache_manager ?s) i) * int (block_size (kv_cache_manager ?s))"
    using each by blast
  have "sum_list (map snd (scheduled_tokens l)) \<le> max_num_scheduled_tokens cfg"
    using batch_dest(1) [OF assms(3)] by (simp add: total_scheduled_def)
  then have "output_ok cfg F out ?s"
    unfolding output_ok_def fields
    using batch_dest(3) [OF assms(3)] dist keys pos all by blast
  moreover have "sched_ok cfg ?s" by (rule sched_inv_frame [OF s4(3)]) simp_all
  moreover have tr: "tracked ?s = tracked s" using f4(4) by (simp add: tracked_def)
  then have "all_fit cfg {} ?s"
    using s4(4) s3(2) by (simp add: all_fit_def tracked tr f4 cached_ids_ok_def)
  ultimately show ?thesis using eq by (auto simp: res_def)
qed

section \<open>The phases together\<close>

lemma estimate_lookahead_memory_ok:
  "res_ok True (\<lambda>(est, s'). \<exists>c. s' = s\<lparr>estimate_caches := c\<rparr>)
     (estimate_lookahead_memory cfg env budget pre s)"
proof (cases "estimate_lookahead_memory cfg env budget pre s")
  case (Inr r)
  have "\<exists>a b. s = s\<lparr>estimate_caches := (a, b)\<rparr>"
    by (intro exI [of _ "fst (estimate_caches s)"] exI [of _ "snd (estimate_caches s)"]) simp
  then show ?thesis
    using Inr by (auto simp: estimate_lookahead_memory_def Let_def res_simps split: if_splits)
qed simp

lemma schedule_waiting_ok:
  assumes "run_done cfg F (s, l)"
  shows "res_ok (enable_la_sched2 cfg) (\<lambda>(s', l'). sched_ok cfg s' \<and> all_fit cfg F s' \<and>
      batch_ok cfg s' l') (schedule_waiting cfg env ts (s, l))"
proof -
  have dn: "sched_ok cfg s" "all_fit cfg F s" "batch_ok cfg s l" "skipped_reqs l = []"
    using assms by (simp_all add: run_done_def)
  let ?est = "if enable_la_sched2 cfg
    then estimate_lookahead_memory cfg env (token_budget l) (preempted_reqs l \<noteq> []) s
    else Inr (no_estimate, s)"
  have "\<exists>c. s = s\<lparr>estimate_caches := c\<rparr>" by (rule exI [of _ "estimate_caches s"]) simp
  then have est: "res_ok (enable_la_sched2 cfg) (\<lambda>(e, s'). (\<exists>c. s' = s\<lparr>estimate_caches := c\<rparr>) \<and>
      (should_estimate e \<longrightarrow> enable_la_sched2 cfg)) ?est"
    using estimate_lookahead_memory_ok [of s cfg env "token_budget l" "preempted_reqs l \<noteq> []"]
    by (cases "enable_la_sched2 cfg") (auto simp: no_estimate_def elim: res_ok_mono)
  show ?thesis
    unfolding schedule_waiting_def prod.case
  proof (rule res_ok_ebind [OF est])
    fix p :: "memory_estimate \<times> scheduler"
    assume p: "case p of (e, s') \<Rightarrow> (\<exists>c. s' = s\<lparr>estimate_caches := c\<rparr>) \<and>
      (should_estimate e \<longrightarrow> enable_la_sched2 cfg)"
    then obtain e c where e: "p = (e, s\<lparr>estimate_caches := c\<rparr>)" "should_estimate e \<longrightarrow> enable_la_sched2 cfg"
      by auto
    let ?s = "s\<lparr>estimate_caches := c\<rparr>" and ?l = "l\<lparr>estimate := e\<rparr>"
    have put: "put_back_skipped (?s, ?l) = ?s" using dn(4) by (simp add: put_back_skipped_def)
    have "sched_ok cfg ?s" by (rule sched_inv_frame [OF dn(1)]) simp_all
    moreover have "all_fit cfg F ?s" using dn(2) by (simp add: all_fit_def tracked_def)
    moreover have "batch_ok cfg ?s l" by (rule batch_ok_frame [OF dn(3)]) simp_all
    then have "batch_ok cfg ?s ?l" by (rule batch_ok_local) (simp_all add: batch_def)
    ultimately have phase: "wait_phase cfg F (?s, ?l)" using e(2) by (simp add: wait_phase_def put)
    have "res_ok (enable_la_sched2 cfg) (\<lambda>st'. wait_phase cfg F st')
      (if preempted_reqs l = [] \<and> \<not> delay_prefill e then waiting_loop cfg env ts (?s, ?l) else Inr (?s, ?l))"
      using waiting_loop_ok [OF phase] phase by simp
    then have "res_ok (enable_la_sched2 cfg) (\<lambda>(s', l'). sched_ok cfg s' \<and> all_fit cfg F s' \<and>
        batch_ok cfg s' l')
      (ebind (if preempted_reqs l = [] \<and> \<not> delay_prefill e then waiting_loop cfg env ts (?s, ?l)
              else Inr (?s, ?l)) (\<lambda>st'. Inr (put_back_skipped st', snd st')))"
    proof (rule res_ok_ebind)
      fix st' assume "wait_phase cfg F st'"
      then have w: "sched_ok cfg (put_back_skipped st')" "all_fit cfg F (put_back_skipped st')"
        "batch_ok cfg (fst st') (snd st')"
        by (simp_all add: wait_phase_def)
      have "batch_ok cfg (put_back_skipped st') (snd st')"
        by (rule batch_ok_frame [OF w(3)]) simp_all
      then show "res_ok (enable_la_sched2 cfg) (\<lambda>(s', l'). sched_ok cfg s' \<and> all_fit cfg F s' \<and>
          batch_ok cfg s' l') (Inr (put_back_skipped st', snd st'))"
        using w(1,2) by simp
    qed
    then show "res_ok (enable_la_sched2 cfg) (\<lambda>(s', l'). sched_ok cfg s' \<and> all_fit cfg F s' \<and>
        batch_ok cfg s' l')
      (case p of (est, s1) \<Rightarrow> let l1 = l\<lparr>estimate := est\<rparr> in
         ebind (if preempted_reqs l = [] \<and> \<not> delay_prefill est
                then waiting_loop cfg env ts (s1, l1) else Inr (s1, l1)) (\<lambda>st'.
         Inr (put_back_skipped st', snd st')))"
      by (simp only: e(1) prod.case Let_def)
  qed
qed

lemma request_ready_passed: "request_ready (r\<lparr>confidence_passed := b\<rparr>) = request_ready r"
  by (simp add: request_ready_def num_tokens_with_spec_def has_pending_real_token_def)

lemma request_fits_passed: "request_fits cfg r \<Longrightarrow> request_fits cfg (r\<lparr>confidence_passed := b\<rparr>)"
  by (rule request_fits_cong) (simp_all add: request_fits_def correction_ok_def)

text \<open>The state in which the running requests are scheduled.\<close>

lemma run_phase_init:
  assumes "sched_ok cfg s" "all_fit cfg F s" "0 \<le> max_num_scheduled_tokens cfg"
    and "\<forall>x \<in> set (running_scheduled s). request_ready (heap s x)"
  shows "run_phase cfg F (s, init_local cfg pre)"
  using assms
  by (simp add: run_phase_def init_local_def batch_ok_def batch_def total_scheduled_def)

text \<open>What \<open>schedule\<close> expects of a state.\<close>

definition schedulable :: "sched_config \<Rightarrow> sched_env \<Rightarrow> scheduler \<Rightarrow> bool" where
  "schedulable cfg env s \<longleftrightarrow>
     sched_ok cfg s \<and> all_fit cfg (finished_req_ids s) s \<and> 0 \<le> max_num_scheduled_tokens cfg \<and>
     (\<forall>x \<in> set (running_scheduled s). request_ready (heap s x)) \<and>
     (enable_la_sched1 cfg \<longrightarrow> confidences_ok cfg env s)"

lemma drain_schedulable:
  assumes "schedulable cfg env s" "drain_preempted s = (xs, s')"
  shows "schedulable cfg env s' \<and> finished_req_ids s' = finished_req_ids s"
proof -
  have s: "sched_ok cfg s" "all_fit cfg (finished_req_ids s) s" "0 \<le> max_num_scheduled_tokens cfg"
    "\<forall>x \<in> set (running_scheduled s). request_ready (heap s x)"
    "enable_la_sched1 cfg \<longrightarrow> confidences_ok cfg env s"
    using assms(1) by (simp_all add: schedulable_def)
  note d = drain_preempted_ok [OF s(1) assms(2)]
  have run: "heap s' x = heap s x" if "x \<in> set (running_scheduled s)" for x
    using d that tracked_distinct [OF s(1)] by (auto simp: tracked_def)
  have "request_fits cfg (heap s' x)" if "x \<in> set (tracked s)" for x
    using d s(2) that request_fits_preempt' by (simp add: all_fit_def)
  then have "all_fit cfg (finished_req_ids s') s'" using d s(2) by (simp add: all_fit_def)
  moreover have "confidences_ok cfg env s' = confidences_ok cfg env s"
    using d run by (simp add: confidences_ok_def)
  ultimately show ?thesis using d s run by (simp add: schedulable_def)
qed

lemma passed_schedulable:
  assumes "schedulable cfg env s" "same_but_passed s s'"
  shows "run_phase cfg (finished_req_ids s) (s', init_local cfg pre)"
proof -
  have s: "sched_ok cfg s" "all_fit cfg (finished_req_ids s) s" "0 \<le> max_num_scheduled_tokens cfg"
    "\<forall>x \<in> set (running_scheduled s). request_ready (heap s x)"
    using assms(1) by (simp_all add: schedulable_def)
  note f = same_but_passed_fields [OF assms(2)]
  have fits: "request_fits cfg (heap s' x)" if "request_fits cfg (heap s x)" for x
    using same_but_passed_heap [OF assms(2), of x] request_fits_passed [OF that] by auto
  have "request_ready (heap s' x) = request_ready (heap s x)" for x
    using same_but_passed_heap [OF assms(2), of x] by (auto simp: request_ready_passed)
  then show ?thesis
    using s fits same_but_passed_inv [OF assms(2) s(1)]
    by (intro run_phase_init) (simp_all add: all_fit_def f)
qed

lemma schedule_ok:
  assumes "schedulable cfg env s"
  shows "case schedule cfg env ts s of
      Inl e \<Rightarrow> enable_la_sched2 cfg
    | Inr (res, s') \<Rightarrow> sched_ok cfg s' \<and> all_fit cfg {} s' \<and>
        output_ok cfg (finished_req_ids s) (sr_output res) s'"
proof -
  let ?Q = "\<lambda>(res, s'). sched_ok cfg s' \<and> all_fit cfg {} s' \<and>
    output_ok cfg (finished_req_ids s) (sr_output res) s'"
  let ?E = "enable_la_sched2 cfg" and ?F = "finished_req_ids s"
  obtain pre s1 where drain: "drain_preempted s = (pre, s1)" by fastforce
  have s1: "schedulable cfg env s1" "finished_req_ids s1 = ?F"
    using drain_schedulable [OF assms drain] by simp_all
  have drop: "res_ok ?E (\<lambda>(d, s2). run_phase cfg ?F (s2, init_local cfg pre))
    (if enable_la_sched1 cfg then apply_confidence_drop cfg env s1 else Inr (0, s1))"
  proof (cases "enable_la_sched1 cfg")
    case True
    then have "confidences_ok cfg env s1" using s1(1) by (simp add: schedulable_def)
    from apply_confidence_drop_ok [OF this] show ?thesis
      using True passed_schedulable [OF s1(1)] s1(2) by (auto elim!: res_ok_mono)
  next
    case False
    then show ?thesis using passed_schedulable [OF s1(1) same_but_passed_refl] s1(2) by simp
  qed
  have "res_ok ?E ?Q (schedule cfg env ts s)"
    unfolding schedule_def drain prod.case
  proof (rule res_ok_ebind [OF drop])
    fix p :: "rat \<times> scheduler"
    assume "case p of (d, s2) \<Rightarrow> run_phase cfg ?F (s2, init_local cfg pre)"
    then obtain d s2 where p: "p = (d, s2)" "run_phase cfg ?F (s2, init_local cfg pre)"
      by (cases p) auto
    have "res_ok ?E ?Q (ebind (running_loop cfg env ts (s2, init_local cfg pre)) (\<lambda>st.
        ebind (schedule_waiting cfg env ts st) (\<lambda>st'. finish_schedule cfg d st')))"
    proof (rule res_ok_ebind)
      show "res_ok ?E (run_done cfg ?F) (running_loop cfg env ts (s2, init_local cfg pre))"
        using running_loop_ok [OF p(2), of env ts] by (auto dest!: res_ok_total)
    next
      fix st assume "run_done cfg ?F st"
      then have "res_ok ?E (\<lambda>(s', l'). sched_ok cfg s' \<and> all_fit cfg ?F s' \<and> batch_ok cfg s' l')
          (schedule_waiting cfg env ts st)"
        using schedule_waiting_ok [of cfg ?F "fst st" "snd st"] by simp
      then show "res_ok ?E ?Q (ebind (schedule_waiting cfg env ts st) (\<lambda>st'. finish_schedule cfg d st'))"
      proof (rule res_ok_ebind)
        fix st' assume "case st' of (s', l') \<Rightarrow> sched_ok cfg s' \<and> all_fit cfg ?F s' \<and> batch_ok cfg s' l'"
        then show "res_ok ?E ?Q (finish_schedule cfg d st')"
          using finish_schedule_ok [of cfg "fst st'" ?F "snd st'" d] by (cases st') auto
      qed
    qed
    then show "res_ok ?E ?Q (case p of (d, s2) \<Rightarrow>
        ebind (running_loop cfg env ts (s2, init_local cfg pre)) (\<lambda>st.
        ebind (schedule_waiting cfg env ts st) (\<lambda>st'. finish_schedule cfg d st')))"
      by (simp only: p(1) prod.case)
  qed
  then show ?thesis by (cases "schedule cfg env ts s") auto
qed


text \<open>A scheduler with three speculating requests and one that waits.\<close>

definition sample_busy :: scheduler where
  "sample_busy = (sample_scheduler (sample_batch(3 := sample_request ''rrr'' [1, 2])))
     \<lparr>running_scheduled := [0, 1, 2], waiting := [3],
      requests := [[] \<mapsto> 0, ''r'' \<mapsto> 1, ''rr'' \<mapsto> 2, ''rrr'' \<mapsto> 3]\<rparr>"

lemma sample_busy_simps:
  "heap sample_busy = sample_batch(3 := sample_request ''rrr'' [1, 2])"
  "running_scheduled sample_busy = [0, 1, 2]" "waiting sample_busy = [3]"
  "to_be_preempted sample_busy = []" "finished_req_ids sample_busy = {}"
  "cached_reqs_data sample_busy = (\<lambda>_. None)"
  "requests sample_busy = [[] \<mapsto> 0, ''r'' \<mapsto> 1, ''rr'' \<mapsto> 2, ''rrr'' \<mapsto> 3]"
  "ec_cached (encoder_cache_manager sample_busy) = (\<lambda>_. None)"
  by (simp_all add: sample_busy_def init_encoder_cache_def)

lemma sample_batch_simps:
  "request_id (sample_batch x) = replicate x CHR ''r''" "status (sample_batch x) = RUNNING"
  "should_preempt (sample_batch x) = False" "postpreempt_spec_result (sample_batch x) = None"
  "spec_result (sample_batch x) = None" "mm_positions (sample_batch x) = []"
  "num_computed_tokens (sample_batch x) = 2" "num_tokens (sample_batch x) = 3"
  "num_tokens_with_spec (sample_batch x) = 3"
  "use_structured_output (sample_batch x) = use_structured_output (sample_request [] [1, 2])"
  by (simp_all add: sample_batch_def sample_speculating_def num_tokens_def num_tokens_with_spec_def
      use_structured_output_def)

lemma sample_busy_kv:
  "sp_ok (kv_cache_manager sample_busy)" "req_to_blocks (kv_cache_manager sample_busy) = (\<lambda>_. [])"
  "max_num_blocks_per_req (kv_cache_manager sample_busy) = 50"
  "block_size (kv_cache_manager sample_busy) = 2"
  using sample_scheduler_init [of "sample_batch(3 := sample_request ''rrr'' [1, 2])"]
  by (auto simp: sample_busy_def)

lemma sample_no_grammar: "\<not> use_structured_output (sample_request i p)"
  by (simp add: use_structured_output_def sample_params_def)

lemma sample_busy_ok: "sched_ok sample_config sample_busy"
proof -
  have "cdiv 100 2 = 50" by (simp add: cdiv_def)
  then have "resources_ok sample_config {} sample_busy"
    by (simp add: resources_ok_def sample_busy_kv sample_busy_simps sample_config_def)
  moreover have "queues_ok {} sample_busy"
    by (auto simp: queues_ok_def tracked_def sample_busy_simps sample_batch_simps wait_ok_def
        run_ok_def numeral_3_eq_3 numeral_2_eq_2)
  ultimately show ?thesis by (simp add: sched_inv_def)
qed

lemma sample_busy_schedulable: "schedulable sample_config sample_env sample_busy"
proof -
  have fit: "request_fits sample_config (sample_batch x)" for x
    by (simp add: request_fits_def correction_ok_def sample_batch_simps sample_no_grammar
        sample_config_def)
  have "request_fits sample_config (sample_request ''rrr'' [1, 2])"
    by (simp add: request_fits_def correction_ok_def sample_no_grammar num_tokens_def
        num_tokens_with_spec_def sample_config_def)
  then have "all_fit sample_config {} sample_busy"
    using fit by (simp add: all_fit_def tracked_def sample_busy_simps)
  moreover have "confidences_ok sample_config sample_env sample_busy"
    using sample_batch_bucket
    by (auto simp: confidences_ok_def sample_busy_simps sample_config_def sample_env_def)
  moreover have "request_ready (sample_batch x)" for x
    by (simp add: request_ready_def sample_batch_simps)
  ultimately show ?thesis
    using sample_busy_ok
    by (simp add: schedulable_def sample_busy_simps) (simp add: sample_config_def)
qed


end
