(* ===== verification/UpdateOk.thy ===== *)
theory UpdateOk
  imports ScheduleOk
begin

text \<open>
  \<open>update_from_true_output\<close> of the speculative scheduler: verification of the running and of the
  draining requests, release of those that stop, and the removal of their traces.
\<close>

section \<open>One request\<close>

definition same_owner :: "request \<Rightarrow> request \<Rightarrow> bool" where
  "same_owner r r' \<longleftrightarrow> request_id r' = request_id r \<and> params r' = params r \<and>
     should_preempt r' = should_preempt r"

lemma flush_fields:
  assumes "flush_output c r = Inr (code, r')"
  shows "same_owner r r' \<and> status r' = status r \<and> code = c"
proof -
  obtain n where "flush_len r = Some n"
    using assms by (cases "flush_len r") (simp_all add: flush_output_def)
  then show ?thesis
    using assms by (cases "n - 1 = 0") (auto simp: flush_output_def Let_def same_owner_def)
qed

lemma validate_fields:
  assumes "validate_spec t r = Inr (code, r')"
  shows "same_owner r r' \<and> status r' = status r \<and> 0 \<le> code \<and> code \<le> 4"
proof (cases "spec_result r = Some True \<or> spec_result r = None")
  case True
  then have "ebind (py_get (output_token_ids r) (- sp_len r)) (\<lambda>o_t.
      if o_t = t then Inr (0, accept_spec r) else Inr (1, reject_spec t r)) = Inr (code, r')"
    using assms by (simp add: validate_spec_def)
  then show ?thesis
    by (elim ebind_InrE)
      (auto simp: accept_spec_def reject_spec_def Let_def same_owner_def split: if_splits)
next
  case False
  then have "flush_output 2 r = Inr (code, r')"
    using assms by (auto simp: validate_spec_def split: if_splits)
  from flush_fields [OF this] show ?thesis by auto
qed

lemma finish_drop_fields: "same_owner r (finish_drop t r) \<and> status (finish_drop t r) = status r"
  by (simp add: finish_drop_def Let_def same_owner_def)

lemma verify_fields:
  assumes "verify_output_token_ids (IntToken t) r = Inr (code, r')"
  shows "same_owner r r' \<and> status r' = status r \<and> 0 \<le> code \<and> code \<le> 4"
proof -
  let ?d = "r\<lparr>drop_len := drop_len r - 1\<rparr>"
  have d: "same_owner r q = same_owner ?d q" "status r = status ?d" for q
    by (simp_all add: same_owner_def)
  consider "validate_spec t r = Inr (code, r')" | "flush_output 3 r = Inr (code, r')"
    | "code = 4" "r' = finish_drop t ?d" | "validate_spec t ?d = Inr (code, r')"
    using assms by (auto simp: Let_def split: if_splits)
  then show ?thesis
    using validate_fields flush_fields finish_drop_fields d by cases fastforce+
qed

lemma stop_fields:
  assumes "check_stop_from_validation r mml = Inr (stopped, r')"
  shows "same_owner r r' \<and> (if stopped then is_finished r' else r' = r)"
proof (cases "mml \<le> num_tokens r - sp_len r \<or> max_tokens r \<le> num_output_tokens r - sp_len r")
  case True
  then show ?thesis
    using assms by (auto simp: check_stop_from_validation_def same_owner_def is_finished_def)
next
  case False
  then have "ebind (py_get (output_token_ids r) (- (sp_len r + 1))) (\<lambda>t.
        if \<not> ignore_eos (params r) \<and> Some t = eos_token_id r
        then Inr (True, r\<lparr>status := FINISHED_STOPPED\<rparr>)
        else if t \<in> set (or_empty (stop_token_ids (params r)))
        then Inr (True, r\<lparr>status := FINISHED_STOPPED, stop_reason := Some t\<rparr>)
        else Inr (False, r)) = Inr (stopped, r')"
    using assms unfolding check_stop_from_validation_def Let_def by simp
  then show ?thesis
    by (elim ebind_InrE) (auto simp: same_owner_def is_finished_def split: if_splits)
qed

lemma verify_loop_fields:
  "verify_loop mml ts r = Inr (kept, codes, stopped, r') \<Longrightarrow>
   same_owner r r' \<and> (if stopped then is_finished r' else status r' = status r) \<and>
   (kept = [] \<longleftrightarrow> ts = []) \<and> (\<forall>c \<in> set codes. 0 \<le> c \<and> c \<le> 4)"
proof (induction ts arbitrary: r kept codes)
  case Nil
  then show ?case by (simp add: same_owner_def)
next
  case (Cons t ts)
  obtain code r1 where v: "verify_output_token_ids (IntToken t) r = Inr (code, r1)"
    and rest: "ebind (py_assert (0 \<le> code \<and> code \<le> 4)) (\<lambda>_.
      ebind (check_stop_from_validation r1 mml) (\<lambda>(stopped, r2).
      if stopped then Inr ([t], [code], True, r2)
      else ebind (verify_loop mml ts r2) (\<lambda>(kept, codes, s, r3).
        Inr (t # kept, code # codes, s, r3)))) = Inr (kept, codes, stopped, r')"
    using Cons.prems unfolding verify_loop.simps by (elim ebind_InrE) auto
  obtain st r2 where s: "check_stop_from_validation r1 mml = Inr (st, r2)"
    and rest': "(if st then Inr ([t], [code], True, r2)
      else ebind (verify_loop mml ts r2) (\<lambda>(kept, codes, s, r3).
        Inr (t # kept, code # codes, s, r3))) = Inr (kept, codes, stopped, r')"
    using rest by (elim ebind_InrE) auto
  note f = verify_fields [OF v] stop_fields [OF s]
  show ?case
  proof (cases st)
    case True
    then show ?thesis using rest' f by (auto simp: same_owner_def)
  next
    case False
    then obtain k c where l: "verify_loop mml ts r2 = Inr (k, c, stopped, r')"
      "kept = t # k" "codes = code # c"
      using rest' by (auto elim!: ebind_InrE)
    show ?thesis using Cons.IH [OF l(1)] f False l(2,3) by (auto simp: same_owner_def)
  qed
qed

text \<open>The release of a running or draining request whose verification stopped.\<close>

definition enum_ok :: "sched_env \<Rightarrow> bool" where
  "enum_ok env \<longleftrightarrow> (\<forall>A. finite A \<longrightarrow> set (env_enum env A) = A)"

definition freed_to :: "scheduler \<Rightarrow> oid \<Rightarrow> request \<Rightarrow> scheduler \<Rightarrow> bool" where
  "freed_to s x r s' \<longleftrightarrow>
     heap s' = (heap s)(x := r) \<and> waiting s' = waiting s \<and>
     running_scheduled s' = running_scheduled s \<and> to_be_preempted s' = to_be_preempted s \<and>
     requests s' = (requests s)(req_id_of s x := None) \<and>
     finished_req_ids s' = insert (req_id_of s x) (finished_req_ids s)"

lemma free_request_ok:
  assumes inv: "sched_inv cfg F s"
    and x: "x \<in> set (running_scheduled s) \<union> set (to_be_preempted s)" "req_id_of s x \<notin> F"
    and r: "request_id r = req_id_of s x" "is_finished r" and env: "enum_ok env"
  shows "\<exists>s'. free_request env x (upd x (\<lambda>_. r) s) = Inr s' \<and>
    sched_inv cfg (insert (req_id_of s x) F) s' \<and> freed_to s x r s'"
proof -
  let ?i = "req_id_of s x" and ?m = "kv_cache_manager s"
  have q: "queues_ok F s" and res: "resources_ok cfg F s" using inv by (simp_all add: sched_inv_def)
  have reg: "requests s ?i = Some x" using q x by (auto simp: queues_ok_def tracked_def)
  obtain m where m: "free r ?m = Inr m" "sp_ok m"
    "req_to_blocks m = (req_to_blocks ?m)(?i := [])" "block_size m = block_size ?m"
    "max_num_blocks_per_req m = max_num_blocks_per_req ?m"
    using sp_free_total [OF sched_inv_dest(1) [OF inv], of r] r(1) by auto
  have "env_enum env {} = []" using env by (auto simp: enum_ok_def)
  then have enc: "ec_free (env_enum env) r (encoder_cache_manager s) = Inr (encoder_cache_manager s)"
    using res by (simp add: ec_free_def get_cached_input_ids_def resources_ok_def)
  define s' where "s' = (upd x (\<lambda>_. r) s)\<lparr>kv_cache_manager := free_block_hashes r m,
    cached_reqs_data := (cached_reqs_data s)(?i := None), requests := (requests s)(?i := None),
    finished_req_ids := insert ?i (finished_req_ids s)\<rparr>"
  have eq: "free_request env x (upd x (\<lambda>_. r) s) = Inr s'"
    using r m(1) enc reg
    by (simp add: free_request_def Let_def map_get_def s'_def upd_def)
  have f: "heap s' = (heap s)(x := r)" "waiting s' = waiting s"
    "running_scheduled s' = running_scheduled s" "to_be_preempted s' = to_be_preempted s"
    "requests s' = (requests s)(?i := None)" "tracked s' = tracked s"
    "kv_cache_manager s' = free_block_hashes r m" "encoder_cache_manager s' = encoder_cache_manager s"
    by (simp_all add: s'_def upd_def tracked_def)
  have id: "req_id_of s' y = req_id_of s y" for y using r(1) by (simp add: f)
  have other: "heap s' y = heap s y" if "req_id_of s y \<noteq> ?i" for y
    using that by (auto simp: f)
  have wait: "req_id_of s y \<noteq> ?i" if "y \<in> set (waiting s)" for y
  proof
    assume "req_id_of s y = ?i"
    then have "y = x" using ids_distinct [OF inv, of y x] x(1) that by (auto simp: tracked_def)
    then show False using tracked_distinct [OF inv] x(1) that by (auto simp: tracked_def)
  qed
  have "req_id_of s y \<notin> insert ?i F \<and> wait_ok (heap s' y)" if "y \<in> set (waiting s)" for y
    using q that wait [OF that] other [OF wait [OF that]] by (simp add: queues_ok_def)
  then have "\<forall>y \<in> set (waiting s). req_id_of s y \<notin> insert ?i F \<and> wait_ok (heap s' y)" by blast
  moreover have "\<forall>y \<in> set (running_scheduled s). req_id_of s y \<notin> insert ?i F \<longrightarrow> run_ok (heap s' y)"
    using q other by (simp add: queues_ok_def)
  moreover have "\<forall>y \<in> set (to_be_preempted s). req_id_of s y \<notin> insert ?i F \<longrightarrow> drain_ok (heap s' y)"
    using q other by (simp add: queues_ok_def)
  moreover have "\<forall>y \<in> set (tracked s). req_id_of s y \<notin> insert ?i F \<longrightarrow>
      requests s' (req_id_of s y) = Some y"
    using q by (simp add: queues_ok_def f)
  moreover have "\<forall>i y. requests s' i = Some y \<longrightarrow>
      i \<notin> insert ?i F \<and> y \<in> set (tracked s) \<and> req_id_of s y = i"
    using q by (simp add: queues_ok_def f)
  moreover have "distinct (map (req_id_of s) (tracked s))" using q by (simp add: queues_ok_def)
  ultimately have "queues_ok (insert ?i F) s'"
    unfolding queues_ok_def id f(2-4,6) by blast
  moreover have "sp_ok (free_block_hashes r m)"
    by (rule sp_ok_frame [OF m(2)]) (simp_all add: free_block_hashes_def)
  moreover have tabs: "req_to_blocks (free_block_hashes r m) = (req_to_blocks ?m)(?i := [])"
    "max_num_blocks_per_req (free_block_hashes r m) = max_num_blocks_per_req ?m"
    "block_size (free_block_hashes r m) = block_size ?m"
    using m(3-5) by (simp_all add: free_block_hashes_def)
  ultimately have "queues_ok (insert ?i F) s'" "resources_ok cfg (insert ?i F) s'"
    using res unfolding resources_ok_def id f(3,7,8) tabs by auto
  moreover have "freed_to s x r s'" by (simp add: freed_to_def s'_def upd_def)
  ultimately show ?thesis using eq by (auto simp: sched_inv_def)
qed

section \<open>The two loops\<close>

text \<open>
  What the step relies on for a request whose tokens arrived: the runner knows it, verification
  of its tokens raises nothing, and a partial prefill comes without prompt log probabilities.
  The pipeline lemmas show that verification raises nothing on the states a request reaches.
\<close>

definition verifiable :: "sched_config \<Rightarrow> runner_output \<Rightarrow> request \<Rightarrow> bool" where
  "verifiable cfg ro r \<longleftrightarrow> \<not> use_structured_output r \<and>
     (\<exists>k ts res. req_id_to_index ro (request_id r) = Some k \<and>
        py_get (sampled_token_ids ro) k = Inr ts \<and>
        verify_loop (max_model_len cfg) ts (r\<lparr>num_scheduled := num_scheduled r - 1\<rparr>) = Inr res \<and>
        (ts = [] \<longrightarrow> prompt_logprobs_dict ro (request_id r) = None))"

text \<open>Whether verification of the tokens of a request ends with a stop.\<close>

definition stops :: "sched_config \<Rightarrow> runner_output \<Rightarrow> request \<Rightarrow> bool" where
  "stops cfg ro r \<longleftrightarrow> (\<exists>k ts kept codes r'. req_id_to_index ro (request_id r) = Some k \<and>
     py_get (sampled_token_ids ro) k = Inr ts \<and>
     verify_loop (max_model_len cfg) ts (r\<lparr>num_scheduled := num_scheduled r - 1\<rparr>)
       = Inr (kept, codes, True, r'))"

text \<open>The state while the lists are gone through; \<open>F\<close> are the ids that finished.\<close>

definition verify_state ::
  "sched_config \<Rightarrow> scheduler \<Rightarrow> string list \<Rightarrow> oid set \<Rightarrow> verify_acc \<Rightarrow> scheduler \<Rightarrow> bool" where
  "verify_state cfg s0 F X acc s \<longleftrightarrow>
     sched_inv cfg (set F) s \<and> va_finished acc = F \<and> waiting s = waiting s0 \<and>
     running_scheduled s = running_scheduled s0 \<and> to_be_preempted s = to_be_preempted s0 \<and>
     finished_req_ids s = finished_req_ids s0 \<union> set F \<and>
     (\<forall>i. requests s i = (if i \<in> set F then None else requests s0 i)) \<and>
     (\<forall>y. y \<notin> X \<longrightarrow> heap s y = heap s0 y) \<and> (\<forall>y. req_id_of s y = req_id_of s0 y)"

lemma make_output_owner:
  assumes "make_output tokens lps plps r = (eo, r')"
  shows "same_owner r r' \<and> status r' = status r"
  using assms by (auto simp: make_output_def take_events_def same_owner_def split: if_splits)

lemma emit_output_ok:
  assumes "\<not> use_structured_output r" "tokens = [] \<longrightarrow> prompt_logprobs_dict ro (request_id r) = None"
  shows "\<exists>out r'. emit_output tokens lps ro r = Inr (out, r') \<and> same_owner r r' \<and> status r' = status r"
proof (cases "tokens = []")
  case True
  then show ?thesis using assms by (simp add: emit_output_def same_owner_def Let_def)
next
  case False
  obtain eo r' where m: "make_output tokens lps (prompt_logprobs_dict ro (request_id r)) r = (eo, r')"
    by fastforce
  then show ?thesis using False assms make_output_owner [OF m] by (simp add: emit_output_def Let_def)
qed

lemma running_owner:
  assumes "same_owner r r'" "status r' = status r"
  shows "run_ok r' = run_ok r" "drain_ok r' = drain_ok r"
  using assms by (simp_all add: same_owner_def run_ok_def drain_ok_def)

text \<open>A running or draining request changes in place, keeping its owner and status.\<close>

lemma sched_inv_owner:
  assumes "sched_inv cfg F s" "x \<in> set (running_scheduled s) \<union> set (to_be_preempted s)"
    and "same_owner (heap s x) r'" "status r' = status (heap s x)"
  shows "sched_inv cfg F (upd x (\<lambda>_. r') s)"
proof -
  have "x \<notin> set (waiting s)"
    using tracked_distinct [OF assms(1)] assms(2) by (auto simp: tracked_def)
  moreover have "run_ok (heap s x)" if "x \<in> set (running_scheduled s)" "req_id_of s x \<notin> F"
    using sched_inv_dest(2) [OF assms(1)] that by blast
  moreover have "drain_ok (heap s x)" if "x \<in> set (to_be_preempted s)" "req_id_of s x \<notin> F"
    using assms(1) that by (simp add: sched_inv_def queues_ok_def)
  ultimately show ?thesis
    using sched_inv_upd [OF assms(1), of "\<lambda>_. r'" x] assms(3) running_owner [OF assms(3,4)]
    by (simp add: same_owner_def)
qed

lemma verify_state_owner:
  assumes st: "verify_state cfg s0 F X acc s" and x: "x \<in> X"
    "x \<in> set (running_scheduled s0) \<union> set (to_be_preempted s0)"
    and r': "same_owner (heap s x) r'" "status r' = status (heap s x) \<or> req_id_of s x \<in> set F"
    and acc: "va_finished acc' = va_finished acc"
  shows "verify_state cfg s0 F X acc' (upd x (\<lambda>_. r') s)"
proof -
  have inv: "sched_inv cfg (set F) s" and lists: "running_scheduled s = running_scheduled s0"
    "to_be_preempted s = to_be_preempted s0"
    using st by (simp_all add: verify_state_def)
  have mem: "x \<in> set (running_scheduled s) \<union> set (to_be_preempted s)" using x(2) lists by simp
  have id: "request_id r' = req_id_of s x" using r'(1) by (simp add: same_owner_def)
  have "sched_inv cfg (set F) (upd x (\<lambda>_. r') s)"
  proof (cases "req_id_of s x \<in> set F")
    case True
    moreover have "x \<notin> set (waiting s)"
      using tracked_distinct [OF inv] mem by (auto simp: tracked_def)
    ultimately show ?thesis using sched_inv_upd [OF inv, of "\<lambda>_. r'" x] id by simp
  next
    case False
    then show ?thesis using sched_inv_owner [OF inv mem r'(1)] r'(2) by blast
  qed
  then show ?thesis using st x(1) id acc by (auto simp: verify_state_def)
qed

lemma verify_step_ok:
  assumes st: "verify_state cfg s0 F X acc s"
    and x: "x \<in> set (running_scheduled s0) \<union> set (to_be_preempted s0)" "x \<notin> X"
      "req_id_of s0 x \<notin> set F"
    and ver: "sch (req_id_of s0 x) \<noteq> 0 \<Longrightarrow> verifiable cfg ro (heap s0 x)" and env: "enum_ok env"
  shows "\<exists>acc' s'. verify_step cfg env sch ro x (acc, s) = Inr (acc', s') \<and>
    verify_state cfg s0
      (if sch (req_id_of s0 x) \<noteq> 0 \<and> stops cfg ro (heap s0 x) then F @ [req_id_of s0 x] else F)
      (insert x X) acc' s'"
proof -
  let ?r = "heap s0 x" and ?i = "req_id_of s0 x"
  have hx: "heap s x = ?r" using st x(2) by (simp add: verify_state_def)
  have inv: "sched_inv cfg (set F) s" and lists: "running_scheduled s = running_scheduled s0"
    "to_be_preempted s = to_be_preempted s0"
    using st by (simp_all add: verify_state_def)
  have mem: "x \<in> set (running_scheduled s) \<union> set (to_be_preempted s)" using x(1) lists by simp
  have st': "verify_state cfg s0 F (insert x X) acc s" using st by (auto simp: verify_state_def)
  show ?thesis
  proof (cases "sch ?i = 0")
    case True
    then show ?thesis using st' hx by (simp add: verify_step_def Let_def)
  next
    case sched: False
    let ?q = "?r\<lparr>num_scheduled := num_scheduled ?r - 1\<rparr>"
    obtain k ts kept codes stopped r1 where run: "req_id_to_index ro ?i = Some k"
      "py_get (sampled_token_ids ro) k = Inr ts"
      "verify_loop (max_model_len cfg) ts ?q = Inr (kept, codes, stopped, r1)"
      "ts = [] \<longrightarrow> prompt_logprobs_dict ro ?i = None"
      and plain: "\<not> use_structured_output ?r"
      using ver [OF sched] unfolding verifiable_def by auto
    note lf = verify_loop_fields [OF run(3)]
    have own: "same_owner ?r r1" using lf by (simp add: same_owner_def)
    have id: "request_id r1 = ?i" using own by (simp add: same_owner_def)
    have stops: "stops cfg ro ?r = stopped" using run(1-3) by (auto simp: stops_def)
    define F' where "F' = (if stopped then F @ [?i] else F)"
    define acc2 where "acc2 = (let acc1 = acc\<lparr>va_counts := fold count_code codes (va_counts acc)\<rparr>
      in if stopped then acc1\<lparr>va_finished := va_finished acc1 @ [?i]\<rparr> else acc1)"
    have acc2: "va_finished acc2 = F'"
      using st by (simp add: acc2_def F'_def verify_state_def Let_def)
    have "\<exists>s2. (if stopped then free_request env x (upd x (\<lambda>_. r1) s) else Inr (upd x (\<lambda>_. r1) s))
        = Inr s2 \<and> verify_state cfg s0 F' (insert x X) acc2 s2 \<and> heap s2 x = r1"
    proof (cases stopped)
      case True
      have ix: "req_id_of s x \<notin> set F" "request_id r1 = req_id_of s x" "is_finished r1"
        using x(3) hx id lf True by simp_all
      obtain s2 where s2: "free_request env x (upd x (\<lambda>_. r1) s) = Inr s2"
        "sched_inv cfg (insert (req_id_of s x) (set F)) s2" "freed_to s x r1 s2"
        using free_request_ok [OF inv mem ix env] by blast
      have "verify_state cfg s0 F' (insert x X) acc2 s2"
        using s2(2,3) st hx id True acc2
        by (auto simp: verify_state_def freed_to_def F'_def)
      then show ?thesis using s2(1,3) True by (simp add: freed_to_def)
    next
      case False
      have "status r1 = status (heap s x)" using lf False hx by simp
      then have "verify_state cfg s0 F (insert x X) acc2 (upd x (\<lambda>_. r1) s)"
        using verify_state_owner [OF st', of x r1 acc2] x(1) own hx acc2 st False
        by (simp add: verify_state_def F'_def)
      then show ?thesis using False by (simp add: F'_def)
    qed
    then obtain s2 where s2: "(if stopped then free_request env x (upd x (\<lambda>_. r1) s)
        else Inr (upd x (\<lambda>_. r1) s)) = Inr s2"
      "verify_state cfg s0 F' (insert x X) acc2 s2" "heap s2 x = r1"
      by blast
    have goal_F: "(if sch ?i \<noteq> 0 \<and> stops cfg ro ?r then F @ [?i] else F) = F'"
      using sched stops by (simp add: F'_def)
    have step: "verify_step cfg env sch ro x (acc, s) =
        (if spec_result ?r = Some False then Inr (acc2, s2)
         else ebind (emit_output kept (if logprobs_param (params r1) \<noteq> None \<and> ro_logprobs ro
                       then Some (k, k + 1) else None) ro r1) (\<lambda>(out, r2).
              Inr (acc2\<lparr>va_outputs := va_outputs acc2 @ out\<rparr>, upd x (\<lambda>_. r2) s2)))"
      using sched run s2(1,3) hx
      by (simp add: verify_step_def Let_def map_get_def acc2_def cong: if_cong)
    show ?thesis
    proof (cases "spec_result ?r = Some False")
      case True
      then show ?thesis using step s2(2) goal_F by auto
    next
      case False
      have "\<not> use_structured_output r1"
        using plain own by (simp add: use_structured_output_def same_owner_def)
      moreover have "kept = [] \<longrightarrow> prompt_logprobs_dict ro (request_id r1) = None"
        using run(4) lf id by simp
      ultimately obtain out r2 where out: "emit_output kept (if logprobs_param (params r1) \<noteq> None \<and>
          ro_logprobs ro then Some (k, k + 1) else None) ro r1 = Inr (out, r2)"
        "same_owner r1 r2" "status r2 = status r1"
        using emit_output_ok by blast
      have "verify_state cfg s0 F' (insert x X) (acc2\<lparr>va_outputs := va_outputs acc2 @ out\<rparr>)
          (upd x (\<lambda>_. r2) s2)"
        using verify_state_owner [OF s2(2), of x r2] x(1) out(2,3) s2(3) by simp
      then show ?thesis using step out(1) False goal_F by simp
    qed
  qed
qed

definition stopped_ids :: "sched_config \<Rightarrow> (string \<Rightarrow> int) \<Rightarrow> runner_output \<Rightarrow> scheduler \<Rightarrow> oid list \<Rightarrow> string list"
where
  "stopped_ids cfg sch ro s xs =
     map (req_id_of s) (filter (\<lambda>x. sch (req_id_of s x) \<noteq> 0 \<and> stops cfg ro (heap s x)) xs)"

lemma verify_and_collect_ok:
  assumes "verify_state cfg s0 F X acc s" "distinct (map (req_id_of s0) xs)"
    and "set xs \<subseteq> set (running_scheduled s0) \<union> set (to_be_preempted s0)" "set xs \<inter> X = {}"
    and "req_id_of s0 ` set xs \<inter> set F = {}"
    and "\<forall>x \<in> set xs. sch (req_id_of s0 x) \<noteq> 0 \<longrightarrow> verifiable cfg ro (heap s0 x)" "enum_ok env"
  shows "\<exists>acc' s'. verify_and_collect cfg env sch ro xs (acc, s) = Inr (acc', s') \<and>
    verify_state cfg s0 (F @ stopped_ids cfg sch ro s0 xs) (X \<union> set xs) acc' s'"
  using assms
proof (induction xs arbitrary: F X acc s)
  case Nil
  then show ?case by (simp add: verify_and_collect_def stopped_ids_def)
next
  case (Cons x xs)
  let ?F = "if sch (req_id_of s0 x) \<noteq> 0 \<and> stops cfg ro (heap s0 x) then F @ [req_id_of s0 x] else F"
  have "x \<in> set (running_scheduled s0) \<union> set (to_be_preempted s0)" "x \<notin> X"
    "req_id_of s0 x \<notin> set F"
    "sch (req_id_of s0 x) \<noteq> 0 \<Longrightarrow> verifiable cfg ro (heap s0 x)"
    using Cons.prems by auto
  from verify_step_ok [OF Cons.prems(1) this Cons.prems(7)] obtain acc1 s1 where
    s1: "verify_step cfg env sch ro x (acc, s) = Inr (acc1, s1)"
    "verify_state cfg s0 ?F (insert x X) acc1 s1" by blast
  have nx: "x \<notin> set xs" "req_id_of s0 x \<notin> req_id_of s0 ` set xs" using Cons.prems(2) by auto
  have "set ?F \<subseteq> insert (req_id_of s0 x) (set F)" by auto
  then have disj: "req_id_of s0 ` set xs \<inter> set ?F = {}" using Cons.prems(5) nx by auto
  obtain acc' s' where s': "verify_and_collect cfg env sch ro xs (acc1, s1) = Inr (acc', s')"
    "verify_state cfg s0 (?F @ stopped_ids cfg sch ro s0 xs) (insert x X \<union> set xs) acc' s'"
    using Cons.IH [OF s1(2) _ _ _ disj] Cons.prems(2-7) nx by auto
  have "?F @ stopped_ids cfg sch ro s0 xs = F @ stopped_ids cfg sch ro s0 (x # xs)"
    by (simp add: stopped_ids_def)
  moreover have "insert x X \<union> set xs = X \<union> set (x # xs)" by simp
  ultimately show ?case using s1(1) s' by (simp add: verify_and_collect_def)
qed

section \<open>Forgetting the finished requests\<close>

lemma remove_first_id_filter:
  "distinct (map ids xs) \<Longrightarrow> remove_first_id ids i xs = filter (\<lambda>x. ids x \<noteq> i) xs"
proof (induction xs)
  case (Cons x xs)
  have "filter (\<lambda>y. ids y \<noteq> ids x) xs = xs"
    using Cons.prems by (auto simp: filter_id_conv image_iff)
  then show ?case using Cons by auto
qed simp

lemma forget_fold:
  assumes "distinct (map (req_id_of s) (running_scheduled s))"
    "distinct (map (req_id_of s) (to_be_preempted s))"
  shows "fold forget_finished is s =
    s\<lparr>scheduled_req_ids := scheduled_req_ids s - set is,
      running_scheduled := filter (\<lambda>x. req_id_of s x \<notin> set is) (running_scheduled s),
      to_be_preempted := filter (\<lambda>x. req_id_of s x \<notin> set is) (to_be_preempted s)\<rparr>"
  using assms
proof (induction "is" arbitrary: s)
  case (Cons i "is")
  let ?t = "forget_finished i s"
  have t: "?t = s\<lparr>scheduled_req_ids := scheduled_req_ids s - {i},
      running_scheduled := filter (\<lambda>x. req_id_of s x \<noteq> i) (running_scheduled s),
      to_be_preempted := filter (\<lambda>x. req_id_of s x \<noteq> i) (to_be_preempted s)\<rparr>"
    using Cons.prems by (simp add: forget_finished_def remove_first_id_filter)
  have "distinct (map (req_id_of ?t) (running_scheduled ?t))"
    "distinct (map (req_id_of ?t) (to_be_preempted ?t))"
    using Cons.prems by (simp_all add: t distinct_map_filter)
  note IH = Cons.IH [OF this]
  have "fold forget_finished (i # is) s = fold forget_finished is ?t" by simp
  also have "\<dots> = s\<lparr>scheduled_req_ids := scheduled_req_ids s - set (i # is),
      running_scheduled := filter (\<lambda>x. req_id_of s x \<notin> set (i # is)) (running_scheduled s),
      to_be_preempted := filter (\<lambda>x. req_id_of s x \<notin> set (i # is)) (to_be_preempted s)\<rparr>"
    unfolding IH by (simp add: t filter_filter Diff_insert2 [symmetric] conj_commute)
  finally show ?case .
qed simp

lemma forget_inv:
  assumes "sched_inv cfg (set F) s"
  shows "sched_ok cfg (fold forget_finished F s)"
proof -
  let ?t = "fold forget_finished F s" and ?keep = "\<lambda>x. req_id_of s x \<notin> set F"
  have q: "queues_ok (set F) s" and r: "resources_ok cfg (set F) s"
    using assms by (simp_all add: sched_inv_def)
  have t: "?t = s\<lparr>scheduled_req_ids := scheduled_req_ids s - set F,
      running_scheduled := filter ?keep (running_scheduled s),
      to_be_preempted := filter ?keep (to_be_preempted s)\<rparr>"
    using q by (intro forget_fold) (simp_all add: queues_ok_def tracked_def)
  have f: "heap ?t = heap s" "requests ?t = requests s" "waiting ?t = waiting s"
    "running_scheduled ?t = filter ?keep (running_scheduled s)"
    "to_be_preempted ?t = filter ?keep (to_be_preempted s)"
    "kv_cache_manager ?t = kv_cache_manager s" "encoder_cache_manager ?t = encoder_cache_manager s"
    by (simp_all add: t)
  have "filter ?keep (waiting s) = waiting s"
    using q by (simp add: queues_ok_def filter_id_conv)
  then have tr: "tracked ?t = filter ?keep (tracked s)" by (simp add: tracked_def f)
  have "queues_ok {} ?t"
    using q unfolding queues_ok_def tr f by (auto simp: distinct_map_filter)
  moreover have "py_len (filter ?keep (running_scheduled s)) \<le> py_len (running_scheduled s)"
    by (simp add: py_len_def)
  then have "resources_ok cfg {} ?t"
    using r unfolding resources_ok_def f by fastforce
  ultimately show ?thesis by (simp add: sched_inv_def)
qed

section \<open>The update\<close>

lemma finish_outputs_ok:
  assumes "sched_ok cfg s" "finish_outputs cfg env so outs s = (eos, s')"
  shows "sched_ok cfg s' \<and> s' = s\<lparr>kv_cache_manager := kv_cache_manager s'\<rparr>"
proof (cases "log_stats cfg")
  case False
  then have "s' = s" using assms(2) by (simp add: finish_outputs_def make_stats_def)
  then show ?thesis using assms(1) by simp
next
  case True
  let ?m = "(kv_cache_manager s)\<lparr>km_stats := new_prefix_cache_stats\<rparr>"
  have s': "s' = s\<lparr>kv_cache_manager := ?m\<rparr>"
    using assms(2) True by (simp add: finish_outputs_def make_stats_def make_prefix_cache_stats_def)
  have "sp_ok ?m" by (rule sp_ok_frame [OF sched_inv_dest(1) [OF assms(1)]]) simp_all
  moreover have "i \<notin> {} \<and> i \<in> req_id_of s ` set (running_scheduled s)"
    if "req_to_blocks ?m i \<noteq> []" for i
    using assms(1) that by (simp add: sched_inv_def resources_ok_def)
  ultimately have "sched_ok cfg s'" unfolding s' by (intro sched_inv_kv [OF assms(1)]) simp_all
  then show ?thesis by (simp add: s')
qed

lemma true_output_ok:
  assumes "sched_ok cfg s" "enum_ok env"
    and "\<forall>x \<in> set (running_scheduled s) \<union> set (to_be_preempted s).
      tokens_scheduled so (req_id_of s x) \<noteq> 0 \<longrightarrow> verifiable cfg ro (heap s x)"
  shows "\<exists>outs counts s'. update_from_true_output cfg env so ro s = Inr (outs, counts, s') \<and>
    sched_ok cfg s' \<and>
    (let stopped = set (stopped_ids cfg (tokens_scheduled so) ro s
           (running_scheduled s @ to_be_preempted s))
     in finished_req_ids s' = finished_req_ids s \<union> stopped \<and>
        requests s' = requests s |` (- stopped) \<and> waiting s' = waiting s \<and>
        running_scheduled s' = filter (\<lambda>x. req_id_of s x \<notin> stopped) (running_scheduled s) \<and>
        to_be_preempted s' = filter (\<lambda>x. req_id_of s x \<notin> stopped) (to_be_preempted s) \<and>
        (\<forall>i \<in> stopped. req_to_blocks (kv_cache_manager s') i = []))"
proof -
  let ?sch = "tokens_scheduled so" and ?run = "running_scheduled s" and ?tbp = "to_be_preempted s"
  let ?acc = "\<lparr>va_outputs = [], va_finished = [], va_counts = [0, 0, 0, 0, 0]\<rparr>"
  let ?A = "stopped_ids cfg ?sch ro s ?run" and ?B = "stopped_ids cfg ?sch ro s ?tbp"
  have ids: "distinct (map (req_id_of s) (waiting s @ ?run @ ?tbp))"
    using assms(1) by (simp add: sched_inv_def queues_ok_def tracked_def)
  have init: "verify_state cfg s [] {} ?acc s"
    using assms(1) by (simp add: verify_state_def)
  obtain acc1 s1 where s1: "verify_and_collect cfg env ?sch ro ?run (?acc, s) = Inr (acc1, s1)"
    "verify_state cfg s ?A (set ?run) acc1 s1"
    using verify_and_collect_ok [OF init, of ?run ?sch ro env] ids assms(2,3) by auto
  have tbp: "to_be_preempted s1 = ?tbp" using s1(2) by (simp add: verify_state_def)
  have dist: "distinct (map (req_id_of s) ?tbp)" "set ?tbp \<inter> set ?run = {}" using ids by auto
  have "set ?A \<subseteq> req_id_of s ` set ?run" by (auto simp: stopped_ids_def)
  then have disj: "req_id_of s ` set ?tbp \<inter> set ?A = {}" using ids by auto
  have sub: "set ?tbp \<subseteq> set ?run \<union> set ?tbp" by simp
  have ver: "\<forall>x \<in> set ?tbp. ?sch (req_id_of s x) \<noteq> 0 \<longrightarrow> verifiable cfg ro (heap s x)"
    using assms(3) by simp
  obtain acc s2 where s2: "verify_and_collect cfg env ?sch ro ?tbp (acc1, s1) = Inr (acc, s2)"
    "verify_state cfg s (?A @ ?B) (set ?run \<union> set ?tbp) acc s2"
    using verify_and_collect_ok [OF s1(2) dist(1) sub dist(2) disj ver assms(2)] by blast
  let ?F = "?A @ ?B"
  have F: "stopped_ids cfg ?sch ro s (?run @ ?tbp) = ?F" by (simp add: stopped_ids_def)
  have inv2: "sched_inv cfg (set ?F) s2" and fin: "va_finished acc = ?F"
    using s2(2) by (simp_all add: verify_state_def)
  let ?s3 = "fold forget_finished ?F s2"
  obtain outs s4 where s4: "finish_outputs cfg env so (va_outputs acc) ?s3 = (outs, s4)" by fastforce
  note last = finish_outputs_ok [OF forget_inv [OF inv2] s4]
  obtain m where m: "s4 = ?s3\<lparr>kv_cache_manager := m\<rparr>" using last by blast
  have lists2: "running_scheduled s2 = ?run" "to_be_preempted s2 = ?tbp" "waiting s2 = waiting s"
    "finished_req_ids s2 = finished_req_ids s \<union> set ?F"
    "\<forall>i. requests s2 i = (if i \<in> set ?F then None else requests s i)"
    and id2: "\<And>y. req_id_of s2 y = req_id_of s y"
    using s2(2) unfolding verify_state_def by blast+
  have "distinct (map (req_id_of s2) (tracked s2))"
    using inv2 unfolding sched_inv_def queues_ok_def by blast
  then have "distinct (map (req_id_of s2) (running_scheduled s2))"
    "distinct (map (req_id_of s2) (to_be_preempted s2))"
    by (simp_all add: tracked_def)
  then have s3: "?s3 = s2\<lparr>scheduled_req_ids := scheduled_req_ids s2 - set ?F,
      running_scheduled := filter (\<lambda>x. req_id_of s x \<notin> set ?F) ?run,
      to_be_preempted := filter (\<lambda>x. req_id_of s x \<notin> set ?F) ?tbp\<rparr>"
    by (subst forget_fold) (simp_all only: lists2(1,2) id2)
  have res: "finished_req_ids s4 = finished_req_ids s \<union> set ?F" "waiting s4 = waiting s"
    "running_scheduled s4 = filter (\<lambda>x. req_id_of s x \<notin> set ?F) ?run"
    "to_be_preempted s4 = filter (\<lambda>x. req_id_of s x \<notin> set ?F) ?tbp"
    "requests s4 = requests s |` (- set ?F)" "\<And>y. req_id_of s4 y = req_id_of s y"
    unfolding m s3 using lists2(3-5) id2 by (auto simp: restrict_map_def)
  have empty: "req_to_blocks (kv_cache_manager s4) i = []" if "i \<in> set ?F" for i
  proof (rule ccontr)
    assume "req_to_blocks (kv_cache_manager s4) i \<noteq> []"
    then have "i \<in> req_id_of s4 ` set (running_scheduled s4)"
      using last by (simp add: sched_inv_def resources_ok_def)
    then show False using that by (auto simp: res)
  qed
  have eq: "update_from_true_output cfg env so ro s = Inr (outs, va_counts acc, s4)"
    using s1(1) s2(1) s4 tbp fin by (simp add: update_from_true_output_def)
  show ?thesis
    unfolding F Let_def
    by (intro exI conjI ballI) (rule eq conjunct1 [OF last] res empty; assumption?)+
qed

text \<open>
  C6: verification releases exactly the requests that stop. In a state that satisfies the
  invariant, when verification of the tokens that arrived raises nothing, the update returns and
  keeps the invariant. The requests whose verification stopped are no longer known, are in none
  of the lists and own no block; their ids are reported as finished; every other request stays
  where it was.
\<close>

theorem true_output_releases_stopped:
  assumes "sched_ok cfg s" "enum_ok env"
    and "\<forall>x \<in> set (running_scheduled s) \<union> set (to_be_preempted s).
      tokens_scheduled so (req_id_of s x) \<noteq> 0 \<longrightarrow> verifiable cfg ro (heap s x)"
  shows "\<exists>outs counts s'. update_from_true_output cfg env so ro s = Inr (outs, counts, s') \<and>
    sched_ok cfg s' \<and>
    (let stopped = set (stopped_ids cfg (tokens_scheduled so) ro s
           (running_scheduled s @ to_be_preempted s))
     in finished_req_ids s' = finished_req_ids s \<union> stopped \<and>
        requests s' = requests s |` (- stopped) \<and> waiting s' = waiting s \<and>
        running_scheduled s' = filter (\<lambda>x. req_id_of s x \<notin> stopped) (running_scheduled s) \<and>
        to_be_preempted s' = filter (\<lambda>x. req_id_of s x \<notin> stopped) (to_be_preempted s) \<and>
        (\<forall>i \<in> stopped. req_to_blocks (kv_cache_manager s') i = []))"
  by (rule true_output_ok [OF assms])

text \<open>The first of three speculating requests gets its end-of-sequence token.\<close>

definition sample_step_output :: scheduler_output where
  "sample_step_output =
     \<lparr>so_new_reqs = [], so_cached_reqs = [],
      so_num_scheduled_tokens = [([], 1), (''r'', 1), (''rr'', 1)],
      so_total_num_scheduled_tokens = 3, so_spec_decode_tokens = [], so_encoder_inputs = [],
      so_num_common_prefix_blocks = 0, so_finished_req_ids = {}, so_free_encoder_input_ids = [],
      so_structured_output_request_ids = [], so_embeddings = None\<rparr>"

definition sample_runner_output :: runner_output where
  "sample_runner_output =
     \<lparr>req_id_to_index = [[] \<mapsto> 0, ''r'' \<mapsto> 1, ''rr'' \<mapsto> 2],
      sampled_token_ids = [[9], [3], [3]], ro_spec_token_ids = None, ro_spec_confidence = [],
      length_probs = None, ro_logprobs = False, prompt_logprobs_dict = (\<lambda>_. None)\<rparr>"

lemma sample_verify:
  "verify_output_token_ids (IntToken 3) ((sample_batch x)\<lparr>num_scheduled := n\<rparr>) =
     Inr (0, accept_spec ((sample_batch x)\<lparr>num_scheduled := n\<rparr>))"
  "verify_output_token_ids (IntToken 9) ((sample_batch x)\<lparr>num_scheduled := n\<rparr>) =
     Inr (1, reject_spec 9 ((sample_batch x)\<lparr>num_scheduled := n\<rparr>))"
  by (simp_all add: sample_batch_def sample_speculating_def validate_spec_def)

lemma sample_check:
  "check_stop_from_validation (accept_spec ((sample_batch x)\<lparr>num_scheduled := n\<rparr>)) 100 =
     Inr (False, accept_spec ((sample_batch x)\<lparr>num_scheduled := n\<rparr>))"
  "check_stop_from_validation (reject_spec 9 ((sample_batch x)\<lparr>num_scheduled := n\<rparr>)) 100 =
     Inr (True, (reject_spec 9 ((sample_batch x)\<lparr>num_scheduled := n\<rparr>))\<lparr>status := FINISHED_STOPPED\<rparr>)"
  by (simp_all add: sample_batch_def sample_speculating_def accept_spec_def reject_spec_def Let_def
      check_stop_from_validation_def num_tokens_def num_output_tokens_def py_len_def
      py_set_from_def py_upto_def py_clamp_def sample_params_def or_empty_def)

lemma sample_verify_loop:
  "\<exists>kept codes r'. verify_loop 100 [if b then 9 else 3] ((sample_batch x)\<lparr>num_scheduled := n\<rparr>) =
     Inr (kept, codes, b, r')"
  by (cases b) (simp_all add: sample_verify sample_check del: verify_output_token_ids.simps)

theorem true_output_releases_stopped_witness:
  "\<exists>outs counts s'. update_from_true_output sample_config sample_env sample_step_output
      sample_runner_output sample_busy = Inr (outs, counts, s') \<and>
    sched_ok sample_config s' \<and> finished_req_ids s' = {[]} \<and> running_scheduled s' = [1, 2]"
proof -
  let ?sch = "tokens_scheduled sample_step_output"
  have env: "enum_ok sample_env" by (simp add: enum_ok_def sample_env_def)
  have three: "x = 0 \<or> x = 1 \<or> x = 2" if "x \<in> set (running_scheduled sample_busy)" for x
    using that by (auto simp: sample_busy_simps)
  have heap: "heap sample_busy x = sample_batch x" if "x \<in> {0, 1, 2}" for x
    using that by (auto simp: sample_busy_simps)
  have sch: "?sch [] = 1" "?sch ''r'' = 1" "?sch ''rr'' = 1"
    by (simp_all add: tokens_scheduled_def sample_step_output_def)
  have rr: "replicate 2 CHR ''r'' = ''rr''" by (simp add: numeral_2_eq_2)
  have toks: "\<exists>k. req_id_to_index sample_runner_output (replicate x CHR ''r'') = Some k \<and>
      py_get (sampled_token_ids sample_runner_output) k = Inr [if x = 0 then 9 else 3]"
    if "x \<in> {0, 1, 2}" for x
    using that rr by (auto simp: sample_runner_output_def py_get_nonneg)
  have "verifiable sample_config sample_runner_output (sample_batch x)" if x: "x \<in> {0, 1, 2}" for x
  proof -
    obtain k where k: "req_id_to_index sample_runner_output (replicate x CHR ''r'') = Some k"
      "py_get (sampled_token_ids sample_runner_output) k = Inr [if x = 0 then 9 else 3]"
      using toks [OF x] by blast
    obtain kept codes r' where "verify_loop 100 [if x = 0 then 9 else 3]
        ((sample_batch x)\<lparr>num_scheduled := num_scheduled (sample_batch x) - 1\<rparr>) =
      Inr (kept, codes, x = 0, r')"
      using sample_verify_loop [where b = "x = 0" and x = x and n = "num_scheduled (sample_batch x) - 1"] by blast
    moreover have "max_model_len sample_config = 100" by (simp add: sample_config_def)
    ultimately show ?thesis
      unfolding verifiable_def using k by (simp add: sample_batch_simps sample_no_grammar)
  qed
  then have ver: "\<forall>x \<in> set (running_scheduled sample_busy) \<union> set (to_be_preempted sample_busy).
      ?sch (req_id_of sample_busy x) \<noteq> 0 \<longrightarrow>
      verifiable sample_config sample_runner_output (heap sample_busy x)"
    using heap by (auto simp: sample_busy_simps(2,4))
  have stops: "stops sample_config sample_runner_output (sample_batch x) \<longleftrightarrow> x = 0"
    if x: "x \<in> {0, 1, 2}" for x
  proof -
    obtain k where k: "req_id_to_index sample_runner_output (replicate x CHR ''r'') = Some k"
      "py_get (sampled_token_ids sample_runner_output) k = Inr [if x = 0 then 9 else 3]"
      using toks [OF x] by blast
    obtain kept codes r' where "verify_loop 100 [if x = 0 then 9 else 3]
        ((sample_batch x)\<lparr>num_scheduled := num_scheduled (sample_batch x) - 1\<rparr>) =
      Inr (kept, codes, x = 0, r')"
      using sample_verify_loop [where b = "x = 0" and x = x and n = "num_scheduled (sample_batch x) - 1"] by blast
    with k show ?thesis by (auto simp: stops_def sample_batch_simps sample_config_def)
  qed
  have "stopped_ids sample_config ?sch sample_runner_output sample_busy
      (running_scheduled sample_busy @ to_be_preempted sample_busy) = [[]]"
    using heap sch stops
    by (simp add: stopped_ids_def sample_busy_simps(2,4) sample_batch_simps numeral_2_eq_2)
  then show ?thesis
    using true_output_releases_stopped [OF sample_busy_ok env ver] heap
    by (auto simp: Let_def sample_busy_simps(2,4,5) sample_batch_simps)
qed

end
