(* ===== verification/SchedEvents.thy ===== *)
theory SchedEvents
  imports UpdateOk
begin

text \<open>
  Aborts from outside, by the queue the request is in, and the correction of a rejected
  speculation that is overtaken by a preemption.
\<close>

section \<open>Aborting a request\<close>

lemma free_waiting_ok:
  assumes inv: "sched_ok cfg s" and x: "x \<in> set (waiting s)" and env: "enum_ok env"
    and st: "status_is_finished st"
  shows "\<exists>s'. free_request env x (upd x (\<lambda>r. r\<lparr>status := st\<rparr>)
      (s\<lparr>waiting := remove1 x (waiting s)\<rparr>)) = Inr s' \<and> sched_ok cfg s' \<and>
    waiting s' = remove1 x (waiting s) \<and> running_scheduled s' = running_scheduled s \<and>
    to_be_preempted s' = to_be_preempted s \<and> requests s' = (requests s)(req_id_of s x := None) \<and>
    finished_req_ids s' = insert (req_id_of s x) (finished_req_ids s)"
proof -
  let ?i = "req_id_of s x" and ?m = "kv_cache_manager s" and ?r = "(heap s x)\<lparr>status := st\<rparr>"
  have q: "queues_ok {} s" and res: "resources_ok cfg {} s" using inv by (simp_all add: sched_inv_def)
  have xt: "x \<in> set (tracked s)" using x by (simp add: tracked_def)
  have reg: "requests s ?i = Some x" using q xt by (simp add: queues_ok_def)
  obtain m where m: "free ?r ?m = Inr m" "sp_ok m"
    "req_to_blocks m = (req_to_blocks ?m)(?i := [])" "block_size m = block_size ?m"
    "max_num_blocks_per_req m = max_num_blocks_per_req ?m"
    using sp_free_total [OF sched_inv_dest(1) [OF inv], of ?r] by auto
  have "env_enum env {} = []" using env by (auto simp: enum_ok_def)
  then have enc: "ec_free (env_enum env) ?r (encoder_cache_manager s) = Inr (encoder_cache_manager s)"
    using res by (simp add: ec_free_def get_cached_input_ids_def resources_ok_def)
  define s' where "s' = s\<lparr>heap := (heap s)(x := ?r), waiting := remove1 x (waiting s),
    kv_cache_manager := free_block_hashes ?r m,
    cached_reqs_data := (cached_reqs_data s)(?i := None), requests := (requests s)(?i := None),
    finished_req_ids := insert ?i (finished_req_ids s)\<rparr>"
  have eq: "free_request env x (upd x (\<lambda>r. r\<lparr>status := st\<rparr>)
      (s\<lparr>waiting := remove1 x (waiting s)\<rparr>)) = Inr s'"
    using st m(1) enc reg
    by (simp add: free_request_def Let_def map_get_def s'_def upd_def is_finished_def)
  have f: "heap s' = (heap s)(x := ?r)" "waiting s' = remove1 x (waiting s)"
    "running_scheduled s' = running_scheduled s" "to_be_preempted s' = to_be_preempted s"
    "requests s' = (requests s)(?i := None)" "kv_cache_manager s' = free_block_hashes ?r m"
    "encoder_cache_manager s' = encoder_cache_manager s"
    by (simp_all add: s'_def)
  have id: "req_id_of s' y = req_id_of s y" for y by (simp add: f)
  have dist: "distinct (tracked s)" by (rule tracked_distinct [OF inv])
  have notin: "x \<notin> set (running_scheduled s)" "x \<notin> set (to_be_preempted s)"
    using dist x by (auto simp: tracked_def)
  have tr: "tracked s' = remove1 x (tracked s)"
    using x by (simp add: tracked_def f remove1_append)
  have set_tr: "set (tracked s') = set (tracked s) - {x}" using dist by (simp add: tr)
  have ids: "distinct (map (req_id_of s) (tracked s))" using q by (simp add: queues_ok_def)
  have "distinct (map (req_id_of s) (tracked s'))"
    unfolding distinct_map set_tr using ids dist
    by (auto simp: tr distinct_map distinct_remove1 inj_on_def)
  moreover have "requests s' (req_id_of s y) = Some y" if y: "y \<in> set (tracked s')" for y
  proof -
    have "y \<in> set (tracked s)" "y \<noteq> x" using y set_tr by auto
    moreover from this have "req_id_of s y \<noteq> ?i" using ids_distinct [OF inv _ xt] by blast
    ultimately show ?thesis using q by (simp add: queues_ok_def f)
  qed
  moreover have "y \<in> set (tracked s') \<and> req_id_of s y = i" if y: "requests s' i = Some y" for i y
  proof -
    have "i \<noteq> ?i" "requests s i = Some y" using y by (auto simp: f split: if_splits)
    then show ?thesis using q set_tr unfolding queues_ok_def by blast
  qed
  moreover have "wait_ok (heap s' y)" if "y \<in> set (waiting s')" for y
  proof -
    have "distinct (waiting s)" using dist by (simp add: tracked_def)
    then have "y \<in> set (waiting s)" "y \<noteq> x" using that by (auto simp: f)
    then show ?thesis using q by (simp add: queues_ok_def f)
  qed
  moreover have "run_ok (heap s' y)" if "y \<in> set (running_scheduled s)" for y
    using q that notin by (auto simp: queues_ok_def f)
  moreover have "drain_ok (heap s' y)" if "y \<in> set (to_be_preempted s)" for y
    using q that notin by (auto simp: queues_ok_def f)
  ultimately have "queues_ok {} s'" unfolding queues_ok_def id f(3,4) by blast
  moreover have "sp_ok (free_block_hashes ?r m)"
    by (rule sp_ok_frame [OF m(2)]) (simp_all add: free_block_hashes_def)
  moreover have tabs: "req_to_blocks (free_block_hashes ?r m) = (req_to_blocks ?m)(?i := [])"
    "max_num_blocks_per_req (free_block_hashes ?r m) = max_num_blocks_per_req ?m"
    "block_size (free_block_hashes ?r m) = block_size ?m"
    using m(3-5) by (simp_all add: free_block_hashes_def)
  ultimately have "sched_ok cfg s'"
    using res unfolding sched_inv_def resources_ok_def id f(3,6,7) tabs by auto
  then show ?thesis using eq by (simp add: s'_def)
qed

text \<open>
  A request that waits can be aborted. From a state that satisfies the invariant,
  \<open>finish_requests\<close> with a finished status takes exactly this request out of the queue and of
  the table of requests, reports its id, and keeps the invariant.
\<close>

theorem abort_waiting_removes:
  assumes "sched_ok cfg s" "x \<in> set (waiting s)" "enum_ok env" "status_is_finished st"
  shows "\<exists>s'. finish_requests env [req_id_of s x] st s = Inr s' \<and> sched_ok cfg s' \<and>
    waiting s' = remove1 x (waiting s) \<and> running_scheduled s' = running_scheduled s \<and>
    to_be_preempted s' = to_be_preempted s \<and> requests s' = (requests s)(req_id_of s x := None) \<and>
    finished_req_ids s' = insert (req_id_of s x) (finished_req_ids s)"
proof -
  have "x \<in> set (tracked s)" using assms(2) by (simp add: tracked_def)
  then have reg: "requests s (req_id_of s x) = Some x"
    using assms(1) by (simp add: sched_inv_def queues_ok_def)
  have "wait_ok (heap s x)" by (rule sched_inv_dest(3) [OF assms(1,2)])
  then have "status (heap s x) \<noteq> RUNNING" by (auto simp: wait_ok_def)
  with reg have "finish_request env st (req_id_of s x) s = free_request env x
      (upd x (\<lambda>r. r\<lparr>status := st\<rparr>) (s\<lparr>waiting := remove1 x (waiting s)\<rparr>))"
    using assms(2) by (simp add: finish_request_def)
  then show ?thesis
    using free_waiting_ok [OF assms] assms(4) by (auto simp: finish_requests_def)
qed

theorem abort_waiting_removes_witness:
  "\<exists>s'. finish_requests sample_env [''rrr''] FINISHED_ABORTED sample_busy = Inr s' \<and>
    waiting s' = [] \<and> running_scheduled s' = [0, 1, 2] \<and> finished_req_ids s' = {''rrr''}"
proof -
  have env: "enum_ok sample_env" by (simp add: enum_ok_def sample_env_def)
  have x: "3 \<in> set (waiting sample_busy)" by (simp add: sample_busy_simps)
  have st: "status_is_finished FINISHED_ABORTED" by simp
  from abort_waiting_removes [OF sample_busy_ok x env st] show ?thesis
    by (auto simp: sample_busy_simps)
qed

text \<open>
  Aborting a request that is being preempted crashes. A request that waits in
  \<open>to_be_preempted\<close> for its iterations to drain has status \<open>PREEMPTED\<close> but is not in the waiting
  queue, so that \<open>self.waiting.remove(request)\<close> raises \<open>ValueError\<close>.
\<close>

theorem abort_draining_raises:
  assumes "sched_ok cfg s" "x \<in> set (to_be_preempted s)" "status_is_finished st"
  shows "finish_requests env [req_id_of s x] st s = Inl ValueError"
proof -
  have "x \<in> set (tracked s)" using assms(2) by (simp add: tracked_def)
  then have reg: "requests s (req_id_of s x) = Some x"
    using assms(1) by (simp add: sched_inv_def queues_ok_def)
  have "drain_ok (heap s x)" using assms(1,2) by (simp add: sched_inv_def queues_ok_def)
  then have "status (heap s x) = PREEMPTED" by (simp add: drain_ok_def)
  moreover have "x \<notin> set (waiting s)"
    using tracked_distinct [OF assms(1)] assms(2) by (auto simp: tracked_def)
  ultimately show ?thesis
    using reg assms(3) by (simp add: finish_requests_def finish_request_def)
qed

text \<open>A scheduler in which one request drains.\<close>

definition sample_draining :: scheduler where
  "sample_draining = (sample_scheduler (\<lambda>x. (sample_batch x)
       \<lparr>status := PREEMPTED, should_preempt := True, num_scheduled := 1\<rparr>))
     \<lparr>to_be_preempted := [0], requests := [[] \<mapsto> 0]\<rparr>"

lemma sample_draining_ok: "sched_ok sample_config sample_draining"
proof -
  have "cdiv 100 2 = 50" by (simp add: cdiv_def)
  then have "resources_ok sample_config {} sample_draining"
    using sample_scheduler_init
    by (auto simp: resources_ok_def sample_draining_def sample_config_def init_encoder_cache_def)
  moreover have "queues_ok {} sample_draining"
    by (auto simp: queues_ok_def tracked_def sample_draining_def drain_ok_def sample_batch_simps)
  ultimately show ?thesis by (simp add: sched_inv_def)
qed

theorem abort_draining_raises_witness:
  "finish_requests sample_env [[]] FINISHED_ABORTED sample_draining = Inl ValueError"
proof -
  have "0 \<in> set (to_be_preempted sample_draining)" by (simp add: sample_draining_def)
  from abort_draining_raises [OF sample_draining_ok this] show ?thesis
    by (simp add: sample_draining_def sample_batch_simps)
qed

section \<open>A correction overtaken by a preemption\<close>

text \<open>
  The life of a request between the decision to preempt it, just after the correction, and the
  moment its iterations have drained: the stale iterations are flushed, and each run of
  \<open>schedule\<close> tries the preemption again.
\<close>

inductive drains :: "request \<Rightarrow> request \<Rightarrow> bool" for r where
  decided: "drains r (mark_preempted r)"
| retried: "drains r q \<Longrightarrow> drains r (mark_preempted q)"
| flushed: "drains r q \<Longrightarrow> flush_output c q = Inr (c', q') \<Longrightarrow> drains r q'"
| counted: "drains r q \<Longrightarrow> drains r (q\<lparr>num_scheduled := n\<rparr>)"

lemma flush_keeps:
  assumes "flush_output c q = Inr (c', q')"
  shows "postpreempt_spec_result q' = postpreempt_spec_result q \<and>
    postpreempt_fixed_idx q' = postpreempt_fixed_idx q \<and> output_token_ids q' = output_token_ids q"
proof -
  obtain n where "flush_len q = Some n"
    using assms by (cases "flush_len q") (simp_all add: flush_output_def)
  then show ?thesis using assms by (cases "n - 1 = 0") (auto simp: flush_output_def Let_def)
qed

lemma drains_keeps:
  assumes "drains r q" "spec_result r = Some False" "just_fixed r = Some True"
    "postpreempt_spec_result r \<noteq> Some False"
  shows "postpreempt_spec_result q = Some False \<and> postpreempt_fixed_idx q = fixed_idx r \<and>
    output_token_ids q = output_token_ids r"
  using assms(1)
proof induction
  case decided
  then show ?case using assms(2-4) by (simp add: mark_preempted_def Let_def)
next
  case (retried q)
  then show ?case by (simp add: mark_preempted_def Let_def)
next
  case (flushed q c c' q')
  then show ?case using flush_keeps by simp
qed simp

text \<open>
  C7: a correction survives a preemption and is sent exactly once. When a request whose last
  speculation was just corrected is preempted, then, however long its stale iterations take to
  drain, the reset forgets the speculation, and the first payload made for the request afterwards
  carries the corrected token, the verdict that the speculation was wrong and the position of
  the correction; the payload after that is an ordinary one.
\<close>

theorem preemption_keeps_correction:
  assumes "spec_result r = Some False" "just_fixed r = Some True" "fixed_idx r = Some i"
    and "0 \<le> i" "i < py_len (output_token_ids r)" "postpreempt_spec_result r \<noteq> Some False"
    and "drains r q"
  shows "spec_result (reset_preempted q) = None \<and> num_computed_tokens (reset_preempted q) = 0 \<and>
    (\<exists>q'. resolve_correction (reset_preempted q) ts cached =
        Inr ([output_token_ids r ! nat i], False, i, q') \<and>
      resolve_correction q' ts' cached' = Inr (ts', True, - 1, q'))"
proof -
  have "postpreempt_spec_result q = Some False" "postpreempt_fixed_idx q = Some i"
    "output_token_ids q = output_token_ids r"
    using drains_keeps [OF assms(7,1,2,6)] assms(3) by simp_all
  then show ?thesis
    using assms(4,5) by (simp add: resolve_correction_def reset_preempted_def py_get_nonneg py_len_def)
qed

theorem preemption_keeps_correction_witness:
  "\<exists>q'. resolve_correction (reset_preempted (mark_preempted (reject_spec 9 (sample_batch 0)))) [] False =
     Inr ([9], False, 0, q')"
proof -
  let ?r = "reject_spec 9 (sample_batch 0)"
  have "spec_result ?r = Some False" "just_fixed ?r = Some True" "fixed_idx ?r = Some 0"
    "output_token_ids ?r = [9]" "postpreempt_spec_result ?r \<noteq> Some False"
    by (simp_all add: reject_spec_def Let_def sample_batch_def sample_speculating_def py_len_def
        py_set_from_def py_upto_def py_clamp_def)
  then show ?thesis
    using preemption_keeps_correction [of ?r 0 "mark_preempted ?r" "[]" False "[]" False]
      drains.decided [of ?r]
    by auto
qed

end
