(* ===== verification/OutputProc.thy ===== *)
theory OutputProc
  imports Outputs SchedEvents UpdateOk
begin

text \<open>
  The frontend's side of a request (\<open>spexis/v1/engine/output_processor.py\<close>): the state of each
  request, and the processor that turns the outputs of the engine core into outputs for the
  caller, finishes requests on stop strings, and keeps the statistics. The parents of parallel
  sampling and the collectors of streams are objects that requests share: a request holds their
  numbers, and the processor's state gives their contents.
\<close>

section \<open>Requests\<close>

text \<open>What the engine core sends; the log probabilities have arrived as lists.\<close>

record frontend_output =
  fo_request_id :: string
  fo_new_token_ids :: "int list"
  fo_new_logprobs :: "logprobs_lists option"
  fo_prompt_logprobs :: "prompt_tensors option"
  fo_finish_reason :: "finish_reason option"
  fo_stop_reason :: "int option"
  fo_events :: "(event_type \<times> rat) list option"

record request_state =
  st_request_id :: string
  st_parent :: "nat option"
  st_index :: int
  st_lora_name :: "string option"
  st_kind :: output_kind
  st_prompt :: "ustr option"
  st_prompt_token_ids :: "int list"
  st_prompt_len :: int
  st_logprobs :: logprobs_processor
  st_detokenizer :: detokenizer
  st_max_tokens :: "int option"
  st_is_prefilling :: bool
  st_queue :: "nat option"
  st_stats :: "request_state_stats option"

text \<open>What is read of an \<open>EngineCoreRequest\<close> and its sampling parameters.\<close>

record frontend_request =
  fr_request_id :: string
  fr_prompt :: "ustr option"
  fr_prompt_token_ids :: "int list"
  fr_lora_name :: "string option"
  fr_arrival_time :: rat
  fr_kind :: output_kind
  fr_detokenize :: bool
  fr_detok :: detok_params
  fr_logprobs :: "int option"
  fr_prompt_logprobs :: "int option"
  fr_max_tokens :: "int option"

definition request_state_from ::
  "tokenizer option \<Rightarrow> frontend_request \<Rightarrow> nat option \<Rightarrow> int \<Rightarrow> nat option \<Rightarrow> bool \<Rightarrow> request_state" where
  "request_state_from tokenizer r parent index queue log_on =
     (let tk = (if fr_detokenize r then tokenizer else None) in
      \<lparr>st_request_id = fr_request_id r, st_parent = parent, st_index = index,
       st_lora_name = fr_lora_name r, st_kind = fr_kind r, st_prompt = fr_prompt r,
       st_prompt_token_ids = fr_prompt_token_ids r, st_prompt_len = py_len (fr_prompt_token_ids r),
       st_logprobs = logprobs_from_request tk (fr_logprobs r) (fr_prompt_logprobs r),
       st_detokenizer = detokenizer_from_request tk (fr_prompt_token_ids r) (fr_detok r),
       st_max_tokens = fr_max_tokens r, st_is_prefilling = True, st_queue = queue,
       st_stats = (if log_on then Some (new_request_stats (fr_arrival_time r)) else None)\<rparr>)"

definition new_completion_output ::
  "int list \<Rightarrow> finish_reason option \<Rightarrow> stop_cause option \<Rightarrow> request_state \<Rightarrow>
   completion_output \<times> request_state" where
  "new_completion_output new_ids reason cause st =
     (let finished = (reason \<noteq> None); delta = (st_kind st = DELTA);
          (txt, d) = get_next_output_text finished delta (st_detokenizer st);
          ids = (if delta then new_ids else dt_output_token_ids d);
          lps = lp_logprobs (st_logprobs st);
          lps' = (if delta \<and> or_empty lps \<noteq> []
                  then map_option (\<lambda>ls. py_from ls (- py_len ids)) lps else lps)
      in (\<lparr>co_index = st_index st, co_text = txt, co_token_ids = ids,
           co_cumulative_logprob = lp_cumulative (st_logprobs st), co_logprobs = lps',
           co_finish_reason = reason, co_stop_reason = (if finished then cause else None)\<rparr>,
          st\<lparr>st_detokenizer := d\<rparr>))"

definition new_request_output ::
  "string \<Rightarrow> completion_output option list \<Rightarrow> bool \<Rightarrow> request_state \<Rightarrow> request_output \<times> request_state" where
  "new_request_output i outs finished st =
     (let (plps, lp) = (if st_kind st = DELTA then pop_prompt_logprobs (st_logprobs st)
                        else (lp_prompt_logprobs (st_logprobs st), st_logprobs st))
      in (\<lparr>rq_request_id = i, rq_prompt = st_prompt st,
           rq_prompt_token_ids = st_prompt_token_ids st, rq_prompt_logprobs = plps,
           rq_outputs = outs, rq_finished = finished\<rparr>,
          st\<lparr>st_logprobs := lp\<rparr>))"

text \<open>The output for the caller, if there is one, with the request and its parent afterwards.\<close>

definition make_request_output ::
  "int list \<Rightarrow> finish_reason option \<Rightarrow> stop_cause option \<Rightarrow> request_state \<Rightarrow> parent_request option \<Rightarrow>
   (request_output option \<times> request_state \<times> parent_request option) res" where
  "make_request_output new_ids reason cause st parent =
     (if reason = None \<and> st_kind st = FINAL_ONLY then Inr (None, st, parent)
      else
        (let (c, st1) = new_completion_output new_ids reason cause st in
         case parent of
           None \<Rightarrow>
             (let (out, st2) = new_request_output (st_request_id st1) [Some c] (reason \<noteq> None) st1
              in Inr (Some out, st2, None))
         | Some p \<Rightarrow>
             ebind (get_outputs (st_request_id st1) c p) (\<lambda>((i, outs, finished), p').
             if outs = [] then Inr (None, st1, Some p')
             else (let (out, st2) = new_request_output i outs finished st1
                   in Inr (Some out, st2, Some p')))))"

section \<open>The processor\<close>

record output_processor =
  op_log_stats :: bool
  request_states :: "(string \<times> request_state) list"
  parent_requests :: "(string \<times> nat) list"
  lora_states :: lora_states
  parent_objs :: "nat \<Rightarrow> parent_request"
  collector_objs :: "nat \<Rightarrow> collector"

definition get_num_unfinished :: "output_processor \<Rightarrow> int" where
  "get_num_unfinished q = py_len (request_states q)"

definition has_unfinished_requests :: "output_processor \<Rightarrow> bool" where
  "has_unfinished_requests q \<longleftrightarrow> 0 < py_len (request_states q)"

definition op_add_request ::
  "tokenizer option \<Rightarrow> frontend_request \<Rightarrow> nat option \<Rightarrow> int \<Rightarrow> nat option \<Rightarrow> output_processor \<Rightarrow>
   output_processor res" where
  "op_add_request tk r parent index queue q =
     ebind (raise_if (map_of (request_states q) (fr_request_id r) \<noteq> None) ValueError) (\<lambda>_.
     (let st = request_state_from tk r parent index queue (op_log_stats q) in
      Inr (q\<lparr>request_states := AList.update (fr_request_id r) st (request_states q),
             lora_states := lora_add_request (st_request_id st) (st_lora_name st) (lora_states q),
             parent_requests :=
               (case parent of
                  None \<Rightarrow> parent_requests q
                | Some p \<Rightarrow> AList.update (pr_request_id (parent_objs q p)) p (parent_requests q))\<rparr>)))"

text \<open>
  Aborting a parent aborts its children by a recursive call. Each level of the recursion has taken
  a parent out of the table, so that the fuel is the number of parents; \<open>None\<close> is a lack of fuel.
  The order in which the set of children is walked is a parameter.
\<close>

definition abort_state :: "string \<Rightarrow> request_state \<Rightarrow> output_processor \<Rightarrow> output_processor res" where
  "abort_state i st q =
     ebind (lora_abort_request (st_request_id st) (st_lora_name st) (lora_states q)) (\<lambda>ls.
     Inr (q\<lparr>request_states := AList.delete i (request_states q), lora_states := ls\<rparr>))"

fun abort_loop ::
  "(string set \<Rightarrow> string list) \<Rightarrow> nat \<Rightarrow> string list \<Rightarrow> output_processor \<Rightarrow>
   (string list \<times> output_processor) res option" where
  "abort_loop enum fuel [] q = Some (Inr ([], q))"
| "abort_loop enum fuel (i # ids) q =
     (let continue = (\<lambda>aborted q'.
            map_option (\<lambda>r. ebind r (\<lambda>(rest, q''). Inr (aborted @ rest, q''))) (abort_loop enum fuel ids q'))
      in case map_of (request_states q) i of
           Some st \<Rightarrow>
             (case abort_state i st q of Inl e \<Rightarrow> Some (Inl e) | Inr q1 \<Rightarrow> continue [i] q1)
         | None \<Rightarrow>
             (case map_of (parent_requests q) i of
                None \<Rightarrow> continue [] q
              | Some p \<Rightarrow>
                  (let q1 = q\<lparr>parent_requests := AList.delete i (parent_requests q)\<rparr>;
                       children = child_requests (parent_objs q p)
                   in if children = {} then continue [] q1
                      else case fuel of
                        0 \<Rightarrow> None
                      | Suc n \<Rightarrow>
                          (case abort_loop enum n (enum children) q1 of
                             None \<Rightarrow> None
                           | Some (Inl e) \<Rightarrow> Some (Inl e)
                           | Some (Inr (_, q2)) \<Rightarrow> continue (enum children) q2))))"

definition op_abort_requests ::
  "(string set \<Rightarrow> string list) \<Rightarrow> string list \<Rightarrow> output_processor \<Rightarrow>
   (string list \<times> output_processor) res option" where
  "op_abort_requests enum ids q = abort_loop enum (length (parent_requests q)) ids q"


section \<open>Processing the outputs of the engine\<close>

record process_acc =
  pa_outputs :: "request_output list"
  pa_aborts :: "string list"
  pa_stats :: "iteration_stats option"

text \<open>\<open>_update_stats_from_output\<close>.\<close>

definition op_update_stats ::
  "(rat \<Rightarrow> rat) \<Rightarrow> rat option \<Rightarrow> frontend_output \<Rightarrow> request_state \<Rightarrow>
   iteration_stats option \<Rightarrow> lora_states \<Rightarrow>
   (request_state \<times> iteration_stats option \<times> lora_states) res" where
  "op_update_stats fl core_ts out st it ls =
     (case it of
        None \<Rightarrow> Inr (st, None, ls)
      | Some it0 \<Rightarrow>
          (let (lora, ls1) = lora_get_stats (st_lora_name st) ls in
           case (core_ts, st_stats st) of
             (Some ts, Some rs) \<Rightarrow>
               ebind (stats_from_output fl (fo_request_id out) (fo_new_token_ids out) (fo_events out)
                        ts (st_is_prefilling st) (st_prompt_len st) (it0, rs, lora))
                 (\<lambda>(it', rs', lora').
               Inr (st\<lparr>st_stats := Some rs'\<rparr>, Some it', lora_put (st_lora_name st) lora' ls1))
           | _ \<Rightarrow> Inl AssertionError))"

text \<open>Into the request's collector, or to the list that is returned.\<close>

definition op_deliver ::
  "request_output option \<Rightarrow> nat option \<Rightarrow> process_acc \<times> output_processor \<Rightarrow>
   (process_acc \<times> output_processor) res" where
  "op_deliver out queue = (\<lambda>(acc, q).
     (case out of
        None \<Rightarrow> Inr (acc, q)
      | Some r \<Rightarrow>
          (case queue of
             None \<Rightarrow> Inr (acc\<lparr>pa_outputs := pa_outputs acc @ [r]\<rparr>, q)
           | Some k \<Rightarrow>
               ebind (collector_put r (collector_objs q k)) (\<lambda>c.
               Inr (acc, q\<lparr>collector_objs := (collector_objs q)(k := c)\<rparr>)))))"

text \<open>\<open>_update_stats_from_finished\<close>; the parent is an object of the processor's state.\<close>

definition op_finish_stats ::
  "(rat \<Rightarrow> rat) \<Rightarrow> request_state \<Rightarrow> finish_reason \<Rightarrow> process_acc \<times> output_processor \<Rightarrow>
   (process_acc \<times> output_processor) res" where
  "op_finish_stats fl st reason = (\<lambda>(acc, q).
     (case pa_stats acc of
        None \<Rightarrow> Inr (acc, q)
      | Some it \<Rightarrow>
          (case st_stats st of
             None \<Rightarrow> Inl AssertionError
           | Some rs \<Rightarrow>
               (let it1 = stats_from_finished fl reason (py_len (st_prompt_token_ids st))
                      (st_max_tokens st) rs it
                in ebind (lora_finish_request (st_request_id st) (st_lora_name st) (lora_states q))
                     (\<lambda>ls.
                   (let (parent, it2) = observe_finished_request
                          (map_option (parent_objs q) (st_parent st)) (rs_num_generation_tokens rs) it1;
                        q1 = q\<lparr>lora_states := ls\<rparr>
                    in Inr (acc\<lparr>pa_stats := Some it2\<rparr>,
                            (case (st_parent st, parent) of
                              (Some k, Some p) \<Rightarrow> q1\<lparr>parent_objs := (parent_objs q1)(k := p)\<rparr>
                            | _ \<Rightarrow> q1))))))))"

definition op_finish ::
  "(rat \<Rightarrow> rat) \<Rightarrow> frontend_output \<Rightarrow> request_state \<Rightarrow> finish_reason \<Rightarrow>
   process_acc \<times> output_processor \<Rightarrow> (process_acc \<times> output_processor) res" where
  "op_finish fl out st reason = (\<lambda>(acc, q).
     let i = fo_request_id out;
         parents = (case st_parent st of
            Some k \<Rightarrow>
              if child_requests (parent_objs q k) = {}
              then AList.delete (pr_request_id (parent_objs q k)) (parent_requests q)
              else parent_requests q
          | None \<Rightarrow> parent_requests q);
         q1 = q\<lparr>request_states := AList.delete i (request_states q), parent_requests := parents\<rparr>;
         acc1 = (if fo_finish_reason out = None then acc\<lparr>pa_aborts := pa_aborts acc @ [i]\<rparr> else acc)
     in op_finish_stats fl st reason (acc1, q1))"

definition process_one ::
  "(rat \<Rightarrow> rat) \<Rightarrow> rat option \<Rightarrow> frontend_output \<Rightarrow> process_acc \<times> output_processor \<Rightarrow>
   (process_acc \<times> output_processor) res" where
  "process_one fl core_ts out = (\<lambda>(acc, q).
     let i = fo_request_id out in
     case map_of (request_states q) i of
       None \<Rightarrow> Inr (acc, q)
     | Some st0 \<Rightarrow>
         ebind (op_update_stats fl core_ts out st0 (pa_stats acc) (lora_states q)) (\<lambda>(st1, it, ls).
         ebind (detok_update (fo_new_token_ids out) (fo_finish_reason out = Some STOP)
                  (st_detokenizer st1)) (\<lambda>(stop, d).
         let matched = (or_empty stop \<noteq> []);
             reason = (if matched then Some STOP else fo_finish_reason out);
             cause = (if matched then map_option StopString stop
                      else map_option StopId (fo_stop_reason out))
         in
         ebind (logprobs_update fl (fo_new_logprobs out) (fo_prompt_logprobs out) (st_logprobs st1))
           (\<lambda>lp.
         ebind (make_request_output (fo_new_token_ids out) reason cause
                  (st1\<lparr>st_is_prefilling := False, st_detokenizer := d, st_logprobs := lp\<rparr>)
                  (map_option (parent_objs q) (st_parent st1))) (\<lambda>(result, st2, parent).
         let q1 = q\<lparr>lora_states := ls,
                request_states := AList.update i st2 (request_states q),
                parent_objs := (case (st_parent st2, parent) of
                    (Some k, Some p) \<Rightarrow> (parent_objs q)(k := p) | _ \<Rightarrow> parent_objs q)\<rparr>
         in ebind (op_deliver result (st_queue st2) (acc\<lparr>pa_stats := it\<rparr>, q1)) (\<lambda>state.
            case reason of None \<Rightarrow> Inr state | Some r \<Rightarrow> op_finish fl out st2 r state))))))"

definition process_outputs ::
  "(rat \<Rightarrow> rat) \<Rightarrow> frontend_output list \<Rightarrow> rat option \<Rightarrow> iteration_stats option \<Rightarrow>
   output_processor \<Rightarrow> (process_acc \<times> output_processor) res" where
  "process_outputs fl outs core_ts it q =
     ebind (efold (process_one fl core_ts) outs
              (\<lparr>pa_outputs = [], pa_aborts = [], pa_stats = it\<rparr>, q)) (\<lambda>(acc, q').
     Inr (acc\<lparr>pa_stats := map_option (lora_iteration_stats (lora_states q')) (pa_stats acc)\<rparr>, q'))"

section \<open>The fuel of an abort is enough\<close>

lemma delete_shorter: "map_of xs i \<noteq> None \<Longrightarrow> length (AList.delete i xs) < length xs"
proof -
  assume "map_of xs i \<noteq> None"
  then obtain v where "(i, v) \<in> set xs" by (meson map_of_SomeD option.exhaust)
  then show ?thesis
    unfolding AList.delete_eq by (intro length_filter_less) auto
qed

definition abort_fits ::
  "output_processor \<Rightarrow> (string list \<times> output_processor) res option \<Rightarrow> bool" where
  "abort_fits q res \<longleftrightarrow> (\<exists>r. res = Some r \<and>
     (\<forall>a q'. r = Inr (a, q') \<longrightarrow> length (parent_requests q') \<le> length (parent_requests q)))"

lemma abort_fits_continue:
  assumes "abort_fits q' res" "length (parent_requests q') \<le> length (parent_requests q)"
  shows "abort_fits q (map_option (\<lambda>r. ebind r (\<lambda>(rest, q''). Inr (xs @ rest, q''))) res)"
  using assms by (fastforce simp: abort_fits_def res_simps)

lemma abort_loop_total:
  "length (parent_requests q) \<le> fuel \<Longrightarrow> abort_fits q (abort_loop enum fuel ids q)"
proof (induction fuel arbitrary: ids q)
  case 0
  have none: "parent_requests q' = []" if "length (parent_requests q') \<le> 0" for q' :: output_processor
    using that by simp
  show ?case
    using 0
  proof (induction ids arbitrary: q)
    case (Cons i ids)
    show ?case
    proof (cases "map_of (request_states q) i")
      case None
      then show ?thesis
        using abort_fits_continue [OF Cons.IH [OF Cons.prems], of q "[]"] none [OF Cons.prems]
        by simp
    next
      case (Some st)
      show ?thesis
      proof (cases "abort_state i st q")
        case (Inr q1)
        then have "parent_requests q1 = parent_requests q" by (auto simp: abort_state_def res_simps)
        then show ?thesis
          using abort_fits_continue [OF Cons.IH [of q1], of q "[i]"] Cons.prems Some Inr by simp
      qed (use Some in \<open>simp add: abort_fits_def\<close>)
    qed
  qed (simp add: abort_fits_def)
next
  case (Suc n)
  show ?case
    using Suc.prems
  proof (induction ids arbitrary: q)
    case (Cons i ids)
    show ?case
    proof (cases "map_of (request_states q) i")
      case (Some st)
      show ?thesis
      proof (cases "abort_state i st q")
        case (Inr q1)
        then have "parent_requests q1 = parent_requests q" by (auto simp: abort_state_def res_simps)
        then show ?thesis
          using abort_fits_continue [OF Cons.IH [of q1], of q "[i]"] Cons.prems Some Inr by simp
      qed (use Some in \<open>simp add: abort_fits_def\<close>)
    next
      case no_state: None
      show ?thesis
      proof (cases "map_of (parent_requests q) i")
        case None
        then show ?thesis
          using abort_fits_continue [OF Cons.IH [OF Cons.prems], of q "[]"] no_state by simp
      next
        case (Some p)
        let ?q1 = "q\<lparr>parent_requests := AList.delete i (parent_requests q)\<rparr>"
        let ?children = "child_requests (parent_objs q p)"
        have less: "length (parent_requests ?q1) < length (parent_requests q)"
          using delete_shorter [of "parent_requests q" i] Some by simp
        then have fit: "length (parent_requests ?q1) \<le> n" using Cons.prems by simp
        show ?thesis
        proof (cases "?children = {}")
          case True
          then show ?thesis
            using abort_fits_continue [OF Cons.IH [of ?q1], of q "[]"] less Cons.prems no_state Some
            by simp
        next
          case False
          from Suc.IH [OF fit, of "enum ?children"] obtain r where
            r: "abort_loop enum n (enum ?children) ?q1 = Some r"
            "\<forall>a q'. r = Inr (a, q') \<longrightarrow> length (parent_requests q') \<le> length (parent_requests ?q1)"
            unfolding abort_fits_def by blast
          show ?thesis
          proof (cases r)
            case (Inl e)
            then show ?thesis using r(1) no_state Some False by (simp add: Let_def abort_fits_def)
          next
            case (Inr x)
            obtain a q2 where x: "x = (a, q2)" by fastforce
            then have "length (parent_requests q2) \<le> length (parent_requests q)"
              using r(2) Inr less by fastforce
            then have "abort_fits q (map_option (\<lambda>r. ebind r (\<lambda>(rest, q''). Inr (enum ?children @ rest, q'')))
                (abort_loop enum (Suc n) ids q2))"
              using abort_fits_continue [OF Cons.IH [of q2]] Cons.prems by simp
            then show ?thesis using r(1) Inr x no_state Some False by (simp add: Let_def)
          qed
        qed
      qed
    qed
  qed (simp add: abort_fits_def)
qed

lemma abort_requests_total: "\<exists>r. op_abort_requests enum ids q = Some r"
  using abort_loop_total [of q "length (parent_requests q)" enum ids]
  by (auto simp: op_abort_requests_def abort_fits_def)

section \<open>The statistics of a request that is preempted and then finishes\<close>

lemma stats_from_output_tracked:
  assumes "lora_tracks i runs l" "after_events runs (map fst (or_empty evs)) = Some runs'"
    and "\<not> is_prefilling"
  shows "\<exists>it' rs' l'. stats_from_output fl i ids evs ts is_prefilling n (it, rs, Some l) =
    Inr (it', rs', Some l') \<and> lora_tracks i runs' l'"
proof (cases evs)
  case None
  then show ?thesis using assms by (auto simp: stats_from_output_def Let_def or_empty_def)
next
  case (Some es)
  then have legal: "after_events runs (map fst es) = Some runs'" using assms(2) by (simp add: or_empty_def)
  let ?it = "it\<lparr>it_num_generation_tokens := it_num_generation_tokens it + py_len ids\<rparr>"
  let ?rs = "rs\<lparr>rs_num_generation_tokens := rs_num_generation_tokens rs + py_len ids\<rparr>"
  from events_tracked [OF assms(1) legal, of ?it ?rs] show ?thesis
    using Some assms(3) by (auto simp: stats_from_output_def Let_def)
qed

lemma detok_update_total: "\<exists>s d'. detok_update ids b d = Inr (s, d')"
proof (cases "dt_tokenizer d")
  case (Some tk)
  obtain decoded d1 where
    "efold (detok_one tk) (if b \<and> \<not> dt_include_stop d then py_upto ids (- 1) else ids) ([], d)
      = Inr (decoded, d1)" using detok_all_total by blast
  moreover obtain s d2 where "evaluate_stop decoded (d1\<lparr>dt_output_text := dt_output_text d1 @ decoded\<rparr>)
      = (s, d2)" by fastforce
  ultimately show ?thesis using Some by (cases b) (auto simp: detok_update_def Let_def)
qed (auto simp: detok_update_def)

lemma new_completion_frame:
  "\<exists>c d. new_completion_output ids reason cause st = (c, st\<lparr>st_detokenizer := d\<rparr>)"
  unfolding new_completion_output_def Let_def by (auto split: prod.split)

lemma new_request_frame:
  "\<exists>r lp. new_request_output i outs finished st = (r, st\<lparr>st_logprobs := lp\<rparr>)"
proof (cases "st_kind st = DELTA")
  case False
  have "st = st\<lparr>st_logprobs := st_logprobs st\<rparr>" by simp
  then show ?thesis using False unfolding new_request_output_def Let_def by (simp, metis)
qed (auto simp: new_request_output_def Let_def split: prod.split)

lemma make_output_frame:
  "\<exists>r d lp. make_request_output ids (Some reason) cause st None =
     Inr (Some r, st\<lparr>st_detokenizer := d, st_logprobs := lp\<rparr>, None)"
proof -
  obtain c d where c: "new_completion_output ids (Some reason) cause st = (c, st\<lparr>st_detokenizer := d\<rparr>)"
    using new_completion_frame by blast
  obtain r lp where "new_request_output (st_request_id st) [Some c] True (st\<lparr>st_detokenizer := d\<rparr>) =
      (r, st\<lparr>st_detokenizer := d, st_logprobs := lp\<rparr>)" using new_request_frame by blast
  then show ?thesis using c by (auto simp: make_request_output_def Let_def)
qed

text \<open>
  C38: a request with an adapter must run when it finishes. For a request whose adapter's sets say
  truly whether it runs, and whose finishing output carries events that follow on that, the
  processor returns exactly if the request runs after these events; otherwise, that is when the
  last event is a preemption, it raises \<open>KeyError\<close>.
\<close>

theorem adapter_request_must_run_to_finish:
  assumes "map_of (request_states q) i = Some st" "st_request_id st = i" "st_lora_name st = Some n"
    and "map_of (lora_states q) n = Some l" "lora_tracks i runs l"
    and "st_stats st = Some rs" "\<not> st_is_prefilling st" "st_parent st = None" "st_queue st = None"
    and "fo_request_id out = i" "fo_new_logprobs out = None" "fo_prompt_logprobs out = None"
    and "fo_finish_reason out = Some reason"
    and "after_events runs (map fst (or_empty (fo_events out))) = Some b"
  shows "(b \<longrightarrow> (\<exists>r. process_outputs fl [out] (Some ts) (Some it) q = Inr r)) \<and>
    (\<not> b \<longrightarrow> process_outputs fl [out] (Some ts) (Some it) q = Inl KeyError)"
proof -
  let ?acc = "\<lparr>pa_outputs = [], pa_aborts = [], pa_stats = Some it\<rparr>"
  obtain it' rs' l' where stats: "stats_from_output fl i (fo_new_token_ids out) (fo_events out) ts
      (st_is_prefilling st) (st_prompt_len st) (it, rs, Some l) = Inr (it', rs', Some l')"
    and l': "lora_tracks i b l'"
    using stats_from_output_tracked [OF assms(5,14), of "st_is_prefilling st"] assms(7) by blast
  let ?st1 = "st\<lparr>st_stats := Some rs'\<rparr>" and ?ls = "AList.update n l' (lora_states q)"
  have upd: "op_update_stats fl (Some ts) out st (Some it) (lora_states q) = Inr (?st1, Some it', ?ls)"
    using assms(3,4,6,10) stats by (simp add: op_update_stats_def lora_get_stats_def lora_put_def)
  obtain stop d where d: "detok_update (fo_new_token_ids out) (fo_finish_reason out = Some STOP)
      (st_detokenizer ?st1) = Inr (stop, d)" using detok_update_total by blast
  define reason' where "reason' = (if or_empty stop \<noteq> [] then STOP else reason)"
  define cause where "cause = (if or_empty stop \<noteq> [] then map_option StopString stop
      else map_option StopId (fo_stop_reason out))"
  let ?st2 = "?st1\<lparr>st_is_prefilling := False, st_detokenizer := d, st_logprobs := st_logprobs ?st1\<rparr>"
  obtain result st3 where make:
    "make_request_output (fo_new_token_ids out) (Some reason') cause ?st2 None = Inr (Some result, st3, None)"
    and st3: "st_request_id st3 = i" "st_lora_name st3 = Some n" "st_stats st3 = Some rs'"
      "st_parent st3 = None" "st_queue st3 = None"
  proof -
    obtain r d' lp where "make_request_output (fo_new_token_ids out) (Some reason') cause ?st2 None =
        Inr (Some r, ?st2\<lparr>st_detokenizer := d', st_logprobs := lp\<rparr>, None)"
      using make_output_frame by blast
    then show thesis by (rule that) (simp_all add: assms(2,3,8,9))
  qed
  let ?q1 = "q\<lparr>lora_states := ?ls, request_states := AList.update i st3 (request_states q),
      parent_objs := parent_objs q\<rparr>"
  have "process_one fl (Some ts) out (?acc, q) =
      op_finish fl out st3 reason' (\<lparr>pa_outputs = [result], pa_aborts = [], pa_stats = Some it'\<rparr>, ?q1)"
    using assms(1,8,10-13) upd d make st3(4,5)
    by (simp add: process_one_def Let_def logprobs_update_def op_deliver_def reason'_def cause_def
        split: if_splits)
  also have "\<dots> = (if b then op_finish fl out st3 reason'
      (\<lparr>pa_outputs = [result], pa_aborts = [], pa_stats = Some it'\<rparr>, ?q1) else Inl KeyError)"
    using finish_tracked [OF l', of ?ls n] st3 assms(10,13)
    by (simp add: op_finish_def op_finish_stats_def Let_def update_conv')
  finally have one: "process_one fl (Some ts) out (?acc, q) = (if b then op_finish fl out st3 reason'
      (\<lparr>pa_outputs = [result], pa_aborts = [], pa_stats = Some it'\<rparr>, ?q1) else Inl KeyError)" .
  have "\<exists>r. op_finish fl out st3 reason'
      (\<lparr>pa_outputs = [result], pa_aborts = [], pa_stats = Some it'\<rparr>, ?q1) = Inr r" if b
    using finish_tracked [OF l', of ?ls n] st3 assms(10,13) that
    by (auto simp: op_finish_def op_finish_stats_def Let_def update_conv' split: prod.split)
  then show ?thesis using one by (auto simp: process_outputs_def split: prod.split)
qed

subsection \<open>The scheduler sends such outputs\<close>

text \<open>An output as it arrives; looking up the log probabilities of a row is a parameter.\<close>

definition frontend_of ::
  "(int \<times> int \<Rightarrow> logprobs_lists) \<Rightarrow> (int \<Rightarrow> prompt_tensors) \<Rightarrow> engine_core_output \<Rightarrow> frontend_output" where
  "frontend_of rows prompt_rows e =
     \<lparr>fo_request_id = eo_request_id e, fo_new_token_ids = eo_new_token_ids e,
      fo_new_logprobs = map_option rows (eo_new_logprobs e),
      fo_prompt_logprobs = map_option prompt_rows (eo_prompt_logprobs e),
      fo_finish_reason = eo_finish_reason e, fo_stop_reason = eo_stop_reason e,
      fo_events = eo_events e\<rparr>"

text \<open>A request that has been preempted while an iteration of it is under way.\<close>

definition sample_evicted_request :: request where
  "sample_evicted_request = (sample_batch 0)\<lparr>status := PREEMPTED, should_preempt := True,
     num_scheduled := 1, events := [(PREEMPTED_EVENT, 4)]\<rparr>"

definition sample_evicted :: scheduler where
  "sample_evicted = (sample_scheduler (\<lambda>x. sample_evicted_request))
     \<lparr>to_be_preempted := [0], requests := [[] \<mapsto> 0]\<rparr>"

lemma sample_evicted_ok: "sched_ok sample_config sample_evicted"
proof -
  have "cdiv 100 2 = 50" by (simp add: cdiv_def)
  then have "resources_ok sample_config {} sample_evicted"
    using sample_scheduler_init
    by (auto simp: resources_ok_def sample_evicted_def sample_config_def init_encoder_cache_def)
  moreover have "queues_ok {} sample_evicted"
    by (auto simp: queues_ok_def tracked_def sample_evicted_def sample_evicted_request_def
        drain_ok_def sample_batch_simps)
  ultimately show ?thesis by (simp add: sched_inv_def)
qed

text \<open>The output that the request sends when the token that arrives ends it.\<close>

definition sample_last_output :: engine_core_output where
  "sample_last_output = \<lparr>eo_request_id = [], eo_new_token_ids = [9], eo_new_logprobs = None,
     eo_prompt_logprobs = None, eo_finish_reason = Some STOP, eo_stop_reason = None,
     eo_events = Some [(PREEMPTED_EVENT, 4)]\<rparr>"

lemma sample_evicted_output:
  "\<exists>outs counts s'. update_from_true_output sample_config sample_env sample_step_output
      sample_runner_output sample_evicted = Inr (outs, counts, s') \<and>
    eos_outputs outs = [sample_last_output]"
proof -
  let ?acc = "\<lparr>va_outputs = [], va_finished = [], va_counts = [0, 0, 0, 0, 0]\<rparr>"
  let ?r = "sample_evicted_request\<lparr>num_scheduled := 0\<rparr>"
  let ?r1 = "(reject_spec 9 ?r)\<lparr>status := FINISHED_STOPPED\<rparr>"
  have sch: "tokens_scheduled sample_step_output [] = 1"
    by (simp add: tokens_scheduled_def sample_step_output_def)
  have r: "request_id sample_evicted_request = []" "spec_result sample_evicted_request = None"
    "num_scheduled sample_evicted_request = 1"
    by (simp_all add: sample_evicted_request_def sample_batch_def sample_speculating_def)
  have loop: "verify_loop 100 [9] ?r = Inr ([9], [1], True, ?r1)"
    by (simp add: sample_evicted_request_def sample_batch_def sample_speculating_def reject_spec_def
        Let_def validate_spec_def check_stop_from_validation_def num_tokens_def num_output_tokens_def
        py_len_def py_set_from_def py_upto_def py_clamp_def sample_params_def or_empty_def)
  have r1: "request_id ?r1 = []" "is_finished ?r1" "params ?r1 = sample_params"
    "events ?r1 = [(PREEMPTED_EVENT, 4)]" "stop_reason ?r1 = None"
    by (simp_all add: sample_evicted_request_def sample_batch_def sample_speculating_def reject_spec_def
        Let_def is_finished_def)
  have lists: "running_scheduled sample_evicted = []" "to_be_preempted sample_evicted = [0]"
    "heap sample_evicted 0 = sample_evicted_request" "req_id_of sample_evicted 0 = []"
    using r(1) by (simp_all add: sample_evicted_def)
  have env: "enum_ok sample_env" by (simp add: enum_ok_def sample_env_def)
  obtain s2 where free: "free_request sample_env 0 (upd 0 (\<lambda>_. ?r1) sample_evicted) = Inr s2"
    and s2: "heap s2 0 = ?r1"
    using free_request_ok [OF sample_evicted_ok _ _ _ r1(2) env, of 0] lists r1(1)
    by (auto simp: freed_to_def)
  have "emit_output [9] None sample_runner_output ?r1 =
      Inr ([sample_last_output], ?r1\<lparr>events := []\<rparr>)"
    using r1 by (simp add: emit_output_def make_output_def take_events_def use_structured_output_def
        sample_params_def sample_runner_output_def sample_last_output_def get_finished_reason_def)
  then have "verify_step sample_config sample_env (tokens_scheduled sample_step_output)
      sample_runner_output 0 (?acc, sample_evicted) =
    Inr (\<lparr>va_outputs = [sample_last_output], va_finished = [[]], va_counts = [0, 1, 0, 0, 0]\<rparr>,
         upd 0 (\<lambda>_. ?r1\<lparr>events := []\<rparr>) s2)"
    using sch r lists loop free s2 r1
    by (simp add: verify_step_def Let_def sample_runner_output_def sample_config_def map_get_def
        py_get_nonneg sample_params_def count_code_def)
  then show ?thesis
    using lists
    by (auto simp: update_from_true_output_def verify_and_collect_def finish_outputs_def Let_def
        split: prod.split)
qed

definition sample_state :: request_state where
  "sample_state = request_state_from None
     \<lparr>fr_request_id = [], fr_prompt = None, fr_prompt_token_ids = [1, 2], fr_lora_name = Some ''a'',
      fr_arrival_time = 1, fr_kind = DELTA, fr_detokenize = False, fr_detok = sample_detok_params,
      fr_logprobs = None, fr_prompt_logprobs = None, fr_max_tokens = None\<rparr> None 0 None True"

definition sample_processor :: output_processor where
  "sample_processor = \<lparr>op_log_stats = True,
     request_states = [([], sample_state\<lparr>st_is_prefilling := False\<rparr>)], parent_requests = [],
     lora_states = [(''a'', \<lparr>waiting_requests = {}, running_requests = {[]}\<rparr>)],
     parent_objs = (\<lambda>_. init_parent [] (sample_params\<lparr>sp_output_kind := DELTA\<rparr>)),
     collector_objs = (\<lambda>_. init_collector DELTA)\<rparr>"

text \<open>The scheduler ends a request that is being preempted, and the frontend fails on its output.\<close>

theorem adapter_request_must_run_to_finish_witness:
  "\<forall>rows prompt_rows. \<exists>outs counts s'. update_from_true_output sample_config sample_env
      sample_step_output sample_runner_output sample_evicted = Inr (outs, counts, s') \<and>
    process_outputs (\<lambda>x. x) (map (frontend_of rows prompt_rows) (eos_outputs outs)) (Some 5)
      (Some (init_iteration_stats 5)) sample_processor = Inl KeyError"
proof (intro allI)
  fix rows :: "int \<times> int \<Rightarrow> logprobs_lists" and prompt_rows :: "int \<Rightarrow> prompt_tensors"
  let ?out = "frontend_of rows prompt_rows sample_last_output"
  let ?st = "sample_state\<lparr>st_is_prefilling := False\<rparr>"
  let ?l = "\<lparr>waiting_requests = {}, running_requests = {[]}\<rparr>"
  have st: "map_of (request_states sample_processor) [] = Some ?st" "st_request_id ?st = []"
    "st_lora_name ?st = Some ''a''" "map_of (lora_states sample_processor) ''a'' = Some ?l"
    "st_stats ?st = Some (new_request_stats 1)" "\<not> st_is_prefilling ?st" "st_parent ?st = None"
    "st_queue ?st = None"
    by (simp_all add: sample_processor_def sample_state_def request_state_from_def Let_def)
  have l: "lora_tracks [] True ?l" by (simp add: lora_tracks_def)
  have out: "fo_request_id ?out = []" "fo_new_logprobs ?out = None" "fo_prompt_logprobs ?out = None"
    "fo_finish_reason ?out = Some STOP"
    "after_events True (map fst (or_empty (fo_events ?out))) = Some False"
    by (simp_all add: frontend_of_def sample_last_output_def or_empty_def)
  have "process_outputs (\<lambda>x. x) [?out] (Some 5) (Some (init_iteration_stats 5)) sample_processor
      = Inl KeyError"
    using adapter_request_must_run_to_finish [OF st(1-4) l st(5-8) out] by blast
  then show "\<exists>outs counts s'. update_from_true_output sample_config sample_env
      sample_step_output sample_runner_output sample_evicted = Inr (outs, counts, s') \<and>
    process_outputs (\<lambda>x. x) (map (frontend_of rows prompt_rows) (eos_outputs outs)) (Some 5)
      (Some (init_iteration_stats 5)) sample_processor = Inl KeyError"
    using sample_evicted_output by auto
qed

end
