(* ===== verification/CpuBatch.thy ===== *)
theory CpuBatch
  imports SchedState
begin

text \<open>
  The engine core's mirror of the worker's persistent batch
  (\<open>spexis/spec_parallel/handle_inputbatch.py\<close>): which request sits at which index, and the token
  ids in the order of the indices, whose embeddings are looked up on the CPU. The order in which
  Python walks a set is the parameter \<open>enum\<close>.
\<close>

section \<open>The batch\<close>

record cpu_batch =
  cb_max :: nat
  cb_ids :: "string option list"
  cb_index :: "(string \<times> nat) list"

definition cb_num_reqs :: "cpu_batch \<Rightarrow> nat" where
  "cb_num_reqs b = length (cb_index b)"

definition init_cpu_batch :: "nat \<Rightarrow> cpu_batch" where
  "init_cpu_batch n = \<lparr>cb_max = n, cb_ids = [], cb_index = []\<rparr>"

definition cpu_add :: "string \<Rightarrow> nat option \<Rightarrow> cpu_batch \<Rightarrow> cpu_batch res" where
  "cpu_add r ix b =
     (let k = (case ix of None \<Rightarrow> cb_num_reqs b | Some k \<Rightarrow> k) in
      ebind (py_assert (k < cb_max b)) (\<lambda>_.
      ebind (if k = length (cb_ids b) then Inr (cb_ids b @ [Some r])
             else py_set (cb_ids b) (int k) (Some r)) (\<lambda>ids.
      Inr (b\<lparr>cb_ids := ids, cb_index := AList.update r k (cb_index b)\<rparr>))))"

definition cpu_remove :: "string \<Rightarrow> cpu_batch \<Rightarrow> (nat option \<times> cpu_batch) res" where
  "cpu_remove r b =
     (case map_of (cb_index b) r of
        None \<Rightarrow> Inr (None, b)
      | Some k \<Rightarrow>
          ebind (py_set (cb_ids b) (int k) None) (\<lambda>ids.
          Inr (Some k, b\<lparr>cb_ids := ids, cb_index := AList.delete r (cb_index b)\<rparr>)))"

text \<open>The largest index from \<open>last\<close> down that is not empty.\<close>

function skip_empty :: "nat list \<Rightarrow> int \<Rightarrow> int" where
  "skip_empty es k = (if k \<in> int ` set es then skip_empty es (k - 1) else k)"
  by pat_completeness auto

termination
  by (relation "measure (\<lambda>(es, k). nat (k + 1))") auto

declare skip_empty.simps [simp del]

text \<open>
  One iteration of the loop of \<open>condense\<close>: nothing to move, or the request at \<open>last\<close> moves to the
  smallest empty index.
\<close>

definition cpu_move :: "nat \<Rightarrow> nat \<Rightarrow> cpu_batch \<Rightarrow> cpu_batch res" where
  "cpu_move src tgt b =
     ebind (py_get (cb_ids b) (int src)) (\<lambda>i.
     case i of
       None \<Rightarrow> Inl AssertionError
     | Some r \<Rightarrow>
         ebind (py_set (cb_ids b) (int tgt) (Some r)) (\<lambda>ids.
         ebind (py_set ids (int src) None) (\<lambda>ids'.
         Inr (b\<lparr>cb_ids := ids', cb_index := AList.update r tgt (cb_index b)\<rparr>))))"

text \<open>
  The list of empty indices is in descending order, so that the smallest one is popped from its
  end. \<open>move\<close> does the work, so that the batch of the worker uses the same loop.
\<close>

function condense_loop ::
  "(nat \<Rightarrow> nat \<Rightarrow> 'b \<Rightarrow> 'b res) \<Rightarrow> nat list \<Rightarrow> int \<Rightarrow> 'b \<Rightarrow> 'b res" where
  "condense_loop move es last_index b =
     (if es = [] then Inr b
      else (let k = skip_empty es last_index; e = last es in
            if k \<le> int e then Inr b
            else ebind (move (nat k) e b) (condense_loop move (butlast es) (k - 1))))"
  by pat_completeness auto

termination
  by (relation "measure (\<lambda>(move, es, k, b). length es)") auto

declare condense_loop.simps [simp del]

definition cpu_trim :: "cpu_batch \<Rightarrow> cpu_batch" where
  "cpu_trim b = b\<lparr>cb_ids := take (cb_num_reqs b) (cb_ids b)\<rparr>"

definition cpu_condense :: "nat list \<Rightarrow> cpu_batch \<Rightarrow> cpu_batch res" where
  "cpu_condense es b =
     (if cb_num_reqs b = 0 then Inr (b\<lparr>cb_ids := []\<rparr>)
      else ebind (condense_loop cpu_move es (int (cb_num_reqs b) + int (length es) - 1) b)
             (\<lambda>b'. Inr (cpu_trim b')))"

section \<open>Following the scheduler\<close>

text \<open>\<open>remove\<close> and \<open>add\<close> do the work, so that the worker's batch uses the same loops.\<close>

definition remove_step ::
  "(string \<Rightarrow> 'b \<Rightarrow> (nat option \<times> 'b) res) \<Rightarrow> bool \<Rightarrow> string \<Rightarrow> nat list \<times> 'b \<Rightarrow>
   (nat list \<times> 'b) res" where
  "remove_step remove must r = (\<lambda>(removed, b).
     ebind (remove r b) (\<lambda>(k, b').
     ebind (py_assert (must \<longrightarrow> k \<noteq> None)) (\<lambda>_.
     Inr (case k of None \<Rightarrow> removed | Some k \<Rightarrow> removed @ [k], b'))))"

abbreviation cpu_remove_step :: "bool \<Rightarrow> string \<Rightarrow> nat list \<times> cpu_batch \<Rightarrow> (nat list \<times> cpu_batch) res" where
  "cpu_remove_step \<equiv> remove_step cpu_remove"

definition fill_index :: "nat list \<Rightarrow> nat option \<times> nat list" where
  "fill_index es = (if es = [] then (None, []) else (Some (last es), butlast es))"

definition add_step ::
  "(string \<Rightarrow> nat option \<Rightarrow> 'b \<Rightarrow> 'b res) \<Rightarrow> string \<Rightarrow> nat list \<times> 'b \<Rightarrow> (nat list \<times> 'b) res" where
  "add_step add r = (\<lambda>(es, b).
     case fill_index es of (k, es') \<Rightarrow> ebind (add r k b) (\<lambda>b'. Inr (es', b')))"

abbreviation cpu_add_step :: "string \<Rightarrow> nat list \<times> cpu_batch \<Rightarrow> (nat list \<times> cpu_batch) res" where
  "cpu_add_step \<equiv> add_step cpu_add"

definition scheduled_ids :: "scheduler_output \<Rightarrow> string set" where
  "scheduled_ids so = set (map fst (so_num_scheduled_tokens so))"

definition ids_to_add :: "scheduler_output \<Rightarrow> cpu_batch \<Rightarrow> string list" where
  "ids_to_add so b =
     map nr_req_id (so_new_reqs so) @
     filter (\<lambda>r. map_of (cb_index b) r = None) (map cr_req_id (so_cached_reqs so))"

definition cpu_update_states ::
  "(string set \<Rightarrow> string list) \<Rightarrow> scheduler_output \<Rightarrow> cpu_batch \<Rightarrow> cpu_batch res" where
  "cpu_update_states enum so b =
     ebind (efold (cpu_remove_step False) (enum (so_finished_req_ids so)) ([], b)) (\<lambda>(removed1, b1).
     ebind (efold (cpu_remove_step True) (enum (set (map fst (cb_index b1)) - scheduled_ids so))
              (removed1, b1)) (\<lambda>(removed, b2).
     ebind (efold cpu_add_step (ids_to_add so b2) (rev (sort removed), b2)) (\<lambda>(es, b3).
     if es \<noteq> [] then cpu_condense es b3 else Inr b3)))"

section \<open>Token ids in the order of the batch\<close>

definition num_scheduled_of :: "scheduler_output \<Rightarrow> string \<Rightarrow> int" where
  "num_scheduled_of so r = (case map_of (so_num_scheduled_tokens so) r of None \<Rightarrow> 0 | Some n \<Rightarrow> n)"

definition place_new ::
  "scheduler_output \<Rightarrow> cpu_batch \<Rightarrow> new_request_data \<Rightarrow> int list option list \<Rightarrow> int list option list res" where
  "place_new so b d slots =
     (case map_of (cb_index b) (nr_req_id d) of
        None \<Rightarrow> Inr slots
      | Some k \<Rightarrow>
          py_set slots (int k) (Some (py_upto (nr_prompt_token_ids d) (num_scheduled_of so (nr_req_id d)))))"

definition place_cached ::
  "scheduler_output \<Rightarrow> (string \<times> int list) list \<Rightarrow> cpu_batch \<Rightarrow> cached_request_data \<Rightarrow>
   int list option list \<Rightarrow> int list option list res" where
  "place_cached so resumed b d slots =
     (case map_of (cb_index b) (cr_req_id d) of
        None \<Rightarrow> Inl AssertionError
      | Some k \<Rightarrow>
          if resumed_from_preemption d
          then (case map_of resumed (cr_req_id d) of
              None \<Rightarrow> Inl KeyError
            | Some ts \<Rightarrow> py_set slots (int k) (Some (py_upto ts (num_scheduled_of so (cr_req_id d)))))
          else py_set slots (int k) (Some (cr_new_token_ids d)))"

definition reorder_token_ids ::
  "cpu_batch \<Rightarrow> scheduler_output \<Rightarrow> (string \<times> int list) list \<Rightarrow> int list res" where
  "reorder_token_ids b so resumed =
     ebind (efold (place_new so b) (so_new_reqs so) (replicate (cb_num_reqs b) None)) (\<lambda>slots.
     ebind (efold (place_cached so resumed b) (so_cached_reqs so) slots) (\<lambda>slots'.
     Inr (concat (map or_empty slots'))))"

text \<open>The embedding of a token that has no row raises.\<close>

definition total_embedding_process ::
  "(string set \<Rightarrow> string list) \<Rightarrow> rat list list \<Rightarrow> (string \<times> int list) list \<Rightarrow> scheduler_output \<Rightarrow>
   cpu_batch \<Rightarrow> (scheduler_output \<times> cpu_batch) res" where
  "total_embedding_process enum embed_tokens resumed so b =
     ebind (cpu_update_states enum so b) (\<lambda>b'.
     ebind (reorder_token_ids b' so resumed) (\<lambda>ids.
     ebind (emap (py_get embed_tokens) ids) (\<lambda>rows.
     Inr (so\<lparr>so_embeddings := Some rows\<rparr>, b'))))"

section \<open>The invariant\<close>

text \<open>
  The table of indices is the inverse of the list of ids, and the indices in \<open>E\<close> are empty. Between
  the operations of the scheduler nothing is empty.
\<close>

definition holes_ok :: "nat set \<Rightarrow> cpu_batch \<Rightarrow> bool" where
  "holes_ok E b \<longleftrightarrow> distinct (map fst (cb_index b)) \<and>
     (\<forall>r k. map_of (cb_index b) r = Some k \<longleftrightarrow> k < length (cb_ids b) \<and> cb_ids b ! k = Some r) \<and>
     (\<forall>k < length (cb_ids b). cb_ids b ! k = None \<longleftrightarrow> k \<in> E) \<and>
     E \<subseteq> {..<length (cb_ids b)} \<and> length (cb_ids b) \<le> cb_max b"

abbreviation batch_ok :: "cpu_batch \<Rightarrow> bool" where
  "batch_ok \<equiv> holes_ok {}"

abbreviation batch_reqs :: "cpu_batch \<Rightarrow> string set" where
  "batch_reqs b \<equiv> dom (map_of (cb_index b))"

lemma holes_okD:
  assumes "holes_ok E b"
  shows "map_of (cb_index b) r = Some k \<longleftrightarrow> k < length (cb_ids b) \<and> cb_ids b ! k = Some r"
    "k < length (cb_ids b) \<Longrightarrow> cb_ids b ! k = None \<longleftrightarrow> k \<in> E"
    "E \<subseteq> {..<length (cb_ids b)}" "length (cb_ids b) \<le> cb_max b" "finite E"
    "distinct (map fst (cb_index b))"
  using assms unfolding holes_ok_def by (blast intro: finite_subset)+

lemma num_reqs_card: "distinct (map fst (cb_index b)) \<Longrightarrow> cb_num_reqs b = card (batch_reqs b)"
  by (metis cb_num_reqs_def distinct_card dom_map_of_conv_image_fst length_map list.set_map)

text \<open>Every index is taken or empty.\<close>

lemma holes_count:
  assumes "holes_ok E b"
  shows "length (cb_ids b) = cb_num_reqs b + card E"
proof -
  let ?idx = "map_of (cb_index b)" and ?n = "length (cb_ids b)"
  have "bij_betw (\<lambda>r. the (?idx r)) (dom ?idx) ({..<?n} - E)"
  proof (rule bij_betw_imageI)
    show "inj_on (\<lambda>r. the (?idx r)) (dom ?idx)"
    proof (rule inj_onI)
      fix r q assume "r \<in> dom ?idx" "q \<in> dom ?idx" "the (?idx r) = the (?idx q)"
      then obtain k where "?idx r = Some k" "?idx q = Some k" by auto
      then show "r = q" using holes_okD(1) [OF assms, of r k] holes_okD(1) [OF assms, of q k] by simp
    qed
    show "(\<lambda>r. the (?idx r)) ` dom ?idx = {..<?n} - E"
    proof (intro set_eqI iffI)
      fix k assume "k \<in> (\<lambda>r. the (?idx r)) ` dom ?idx"
      then obtain r where "?idx r = Some k" by auto
      then show "k \<in> {..<?n} - E"
        using holes_okD(1) [OF assms, of r k] holes_okD(2) [OF assms, of k] by auto
    next
      fix k assume k: "k \<in> {..<?n} - E"
      then obtain r where "cb_ids b ! k = Some r" using holes_okD(2) [OF assms, of k] by auto
      then have "?idx r = Some k" using holes_okD(1) [OF assms, of r k] k by simp
      then show "k \<in> (\<lambda>r. the (?idx r)) ` dom ?idx" by force
    qed
  qed
  then have "card (dom ?idx) = card ({..<?n} - E)" by (rule bij_betw_same_card)
  also have "\<dots> = ?n - card E" using holes_okD(3,5) [OF assms] by (simp add: card_Diff_subset)
  finally have "cb_num_reqs b = ?n - card E"
    using num_reqs_card [OF holes_okD(6) [OF assms]] by simp
  moreover have "card E \<le> ?n"
    using card_mono [OF _ holes_okD(3) [OF assms]] by simp
  ultimately show ?thesis by simp
qed

lemma py_set_nat: "k < length xs \<Longrightarrow> py_set xs (int k) v = Inr (xs[k := v])"
  by (simp add: py_set_def py_index_def)

lemma py_get_nat: "k < length xs \<Longrightarrow> py_get xs (int k) = Inr (xs ! k)"
  by (simp add: py_get_nonneg)

lemma map_of_delete [simp]: "map_of (AList.delete r xs) = (map_of xs)(r := None)"
  by (simp add: delete_conv')

lemma cpu_remove_ok:
  assumes "holes_ok E b" "map_of (cb_index b) r = Some k"
  shows "\<exists>b'. cpu_remove r b = Inr (Some k, b') \<and> holes_ok (insert k E) b' \<and> k \<notin> E \<and>
    map_of (cb_index b') = (map_of (cb_index b))(r := None) \<and> cb_max b' = cb_max b \<and>
    length (cb_ids b') = length (cb_ids b)"
proof -
  have k: "k < length (cb_ids b)" "cb_ids b ! k = Some r" using holes_okD(1) [OF assms(1)] assms(2) by auto
  let ?b = "b\<lparr>cb_ids := (cb_ids b)[k := None], cb_index := AList.delete r (cb_index b)\<rparr>"
  have "k \<notin> E" using holes_okD(2) [OF assms(1) k(1)] k(2) by simp
  moreover have "holes_ok (insert k E) ?b"
    unfolding holes_ok_def
  proof (intro conjI allI impI)
    show "distinct (map fst (cb_index ?b))" using holes_okD(6) [OF assms(1)] by (simp add: distinct_delete)
    show "map_of (cb_index ?b) q = Some j \<longleftrightarrow> j < length (cb_ids ?b) \<and> cb_ids ?b ! j = Some q" for q j
      using holes_okD(1) [OF assms(1), of q j] k assms(2) by (auto simp: nth_list_update)
    show "cb_ids ?b ! j = None \<longleftrightarrow> j \<in> insert k E" if "j < length (cb_ids ?b)" for j
      using holes_okD(2) [OF assms(1), of j] that k by (auto simp: nth_list_update)
    show "insert k E \<subseteq> {..<length (cb_ids ?b)}" using holes_okD(3) [OF assms(1)] k(1) by auto
    show "length (cb_ids ?b) \<le> cb_max ?b" using holes_okD(4) [OF assms(1)] by simp
  qed
  moreover have "cpu_remove r b = Inr (Some k, ?b)"
    using assms(2) k(1) by (simp add: cpu_remove_def py_set_nat)
  ultimately show ?thesis by auto
qed

lemma cpu_add_hole:
  assumes "holes_ok E b" "k \<in> E" "map_of (cb_index b) r = None"
  shows "\<exists>b'. cpu_add r (Some k) b = Inr b' \<and> holes_ok (E - {k}) b' \<and>
    map_of (cb_index b') = (map_of (cb_index b))(r \<mapsto> k) \<and> cb_max b' = cb_max b"
proof -
  have k: "k < length (cb_ids b)" "cb_ids b ! k = None"
    using holes_okD(2,3) [OF assms(1)] assms(2) by auto
  let ?b = "b\<lparr>cb_ids := (cb_ids b)[k := Some r], cb_index := AList.update r k (cb_index b)\<rparr>"
  have "holes_ok (E - {k}) ?b"
    unfolding holes_ok_def
  proof (intro conjI allI impI)
    show "distinct (map fst (cb_index ?b))" using holes_okD(6) [OF assms(1)] by (simp add: distinct_update)
    show "map_of (cb_index ?b) q = Some j \<longleftrightarrow> j < length (cb_ids ?b) \<and> cb_ids ?b ! j = Some q" for q j
      using holes_okD(1) [OF assms(1), of q j] holes_okD(1) [OF assms(1), of r j] assms(3) k
      by (auto simp: nth_list_update update_conv')
    show "cb_ids ?b ! j = None \<longleftrightarrow> j \<in> E - {k}" if "j < length (cb_ids ?b)" for j
      using holes_okD(2) [OF assms(1), of j] that k by (auto simp: nth_list_update)
    show "E - {k} \<subseteq> {..<length (cb_ids ?b)}" using holes_okD(3) [OF assms(1)] by auto
    show "length (cb_ids ?b) \<le> cb_max ?b" using holes_okD(4) [OF assms(1)] by simp
  qed
  moreover have "cpu_add r (Some k) b = Inr ?b"
    using k(1) holes_okD(4) [OF assms(1)] by (simp add: cpu_add_def py_set_nat)
  ultimately show ?thesis by (auto simp: update_conv')
qed

lemma cpu_add_end:
  assumes "batch_ok b" "length (cb_ids b) < cb_max b" "map_of (cb_index b) r = None"
  shows "\<exists>b'. cpu_add r None b = Inr b' \<and> batch_ok b' \<and>
    map_of (cb_index b') = (map_of (cb_index b))(r \<mapsto> length (cb_ids b)) \<and> cb_max b' = cb_max b"
proof -
  let ?n = "length (cb_ids b)"
  have n: "cb_num_reqs b = ?n" using holes_count [OF assms(1)] by simp
  let ?b = "b\<lparr>cb_ids := cb_ids b @ [Some r], cb_index := AList.update r ?n (cb_index b)\<rparr>"
  have "batch_ok ?b"
    unfolding holes_ok_def
  proof (intro conjI allI impI)
    show "distinct (map fst (cb_index ?b))" using holes_okD(6) [OF assms(1)] by (simp add: distinct_update)
    show "map_of (cb_index ?b) q = Some j \<longleftrightarrow> j < length (cb_ids ?b) \<and> cb_ids ?b ! j = Some q" for q j
      using holes_okD(1) [OF assms(1), of q j] holes_okD(1) [OF assms(1), of r j] assms(3)
      by (auto simp: nth_append update_conv')
    show "cb_ids ?b ! j = None \<longleftrightarrow> j \<in> {}" if "j < length (cb_ids ?b)" for j
      using holes_okD(2) [OF assms(1), of j] that by (auto simp: nth_append)
    show "length (cb_ids ?b) \<le> cb_max ?b" using assms(2) by simp
  qed simp
  moreover have "cpu_add r None b = Inr ?b" using assms(2) n by (simp add: cpu_add_def)
  ultimately show ?thesis by (auto simp: update_conv')
qed

section \<open>Condensing\<close>

lemma skip_empty_le: "skip_empty es k \<le> k"
proof (induction es k rule: skip_empty.induct)
  case (1 es k)
  then show ?case by (subst skip_empty.simps) auto
qed

lemma skip_empty_ok:
  "skip_empty es k \<notin> int ` set es \<and> (\<forall>j. skip_empty es k < j \<and> j \<le> k \<longrightarrow> j \<in> int ` set es)"
proof (induction es k rule: skip_empty.induct)
  case (1 es k)
  show ?case
  proof (cases "k \<in> int ` set es")
    case True
    then have "skip_empty es k = skip_empty es (k - 1)" by (simp add: skip_empty.simps)
    then show ?thesis using 1 [OF True] True by (metis le_less zle_diff1_eq)
  next
    case False
    then have "skip_empty es k = k" by (simp add: skip_empty.simps)
    then show ?thesis using False by auto
  qed
qed

lemma skip_empty_lower: "- 1 \<le> k \<Longrightarrow> - 1 \<le> skip_empty es k"
proof (induction es k rule: skip_empty.induct)
  case (1 es k)
  then show ?case by (subst skip_empty.simps) auto
qed

text \<open>
  During the loop the empty indices are the remaining ones of the list and those above \<open>m\<close>.
\<close>

definition above :: "int \<Rightarrow> cpu_batch \<Rightarrow> nat set" where
  "above m b = {k. m < int k \<and> k < length (cb_ids b)}"

definition condensing :: "nat list \<Rightarrow> int \<Rightarrow> cpu_batch \<Rightarrow> bool" where
  "condensing es m b \<longleftrightarrow> holes_ok (set es \<union> above m b) b \<and> sorted_wrt (>) es \<and> - 1 \<le> m \<and>
     m < int (length (cb_ids b))"

lemma cpu_move_ok:
  assumes "holes_ok E b" "src < length (cb_ids b)" "src \<notin> E" "tgt \<in> E"
  shows "\<exists>b' r. cpu_move src tgt b = Inr b' \<and> map_of (cb_index b) r = Some src \<and>
    map_of (cb_index b') = (map_of (cb_index b))(r \<mapsto> tgt) \<and>
    holes_ok (insert src E - {tgt}) b' \<and> length (cb_ids b') = length (cb_ids b) \<and>
    cb_max b' = cb_max b"
proof -
  obtain r where r: "cb_ids b ! src = Some r" using holes_okD(2) [OF assms(1,2)] assms(3) by auto
  then have idx: "map_of (cb_index b) r = Some src" using holes_okD(1) [OF assms(1)] assms(2) by simp
  have tgt: "tgt < length (cb_ids b)" "cb_ids b ! tgt = None" "src \<noteq> tgt"
    using holes_okD(2,3) [OF assms(1)] assms(3,4) by auto
  let ?b = "b\<lparr>cb_ids := (cb_ids b)[tgt := Some r, src := None],
               cb_index := AList.update r tgt (cb_index b)\<rparr>"
  have "holes_ok (insert src E - {tgt}) ?b"
    unfolding holes_ok_def
  proof (intro conjI allI impI)
    show "distinct (map fst (cb_index ?b))" using holes_okD(6) [OF assms(1)] by (simp add: distinct_update)
    show "map_of (cb_index ?b) q = Some j \<longleftrightarrow> j < length (cb_ids ?b) \<and> cb_ids ?b ! j = Some q" for q j
      using holes_okD(1) [OF assms(1), of q j] idx r tgt assms(2)
      by (auto simp: nth_list_update update_conv')
    show "cb_ids ?b ! j = None \<longleftrightarrow> j \<in> insert src E - {tgt}" if "j < length (cb_ids ?b)" for j
      using holes_okD(2) [OF assms(1), of j] that assms(2) tgt by (auto simp: nth_list_update)
    show "insert src E - {tgt} \<subseteq> {..<length (cb_ids ?b)}"
      using holes_okD(3) [OF assms(1)] assms(2) by auto
    show "length (cb_ids ?b) \<le> cb_max ?b" using holes_okD(4) [OF assms(1)] by simp
  qed
  moreover have "cpu_move src tgt b = Inr ?b"
    using r assms(2) tgt(1) by (simp add: cpu_move_def py_get_nat py_set_nat)
  ultimately show ?thesis using idx by (auto simp: update_conv')
qed

lemma sorted_butlast:
  assumes "sorted_wrt (>) (es :: nat list)" "es \<noteq> []"
  shows "sorted_wrt (>) (butlast es)" "set es = insert (last es) (set (butlast es))"
    "last es \<notin> set (butlast es)" "\<forall>e \<in> set es. last es \<le> e"
proof -
  have es: "es = butlast es @ [last es]" using assms(2) by simp
  with assms(1) have "sorted_wrt (>) (butlast es @ [last es])" by simp
  then have *: "sorted_wrt (>) (butlast es)" "\<forall>e \<in> set (butlast es). last es < e"
    by (auto simp: sorted_wrt_append)
  have "set es = set (butlast es @ [last es])" using es by simp
  then show "sorted_wrt (>) (butlast es)" "set es = insert (last es) (set (butlast es))"
    "last es \<notin> set (butlast es)" "\<forall>e \<in> set es. last es \<le> e"
    using * by auto
qed

text \<open>
  What the loop needs of the work of one move: \<open>slots\<close> is the part of a batch that says which
  request sits where, on which a move does what \<open>cpu_move\<close> does, and \<open>ok\<close> is an invariant of the
  rest of the batch. The mirror and the batch of the worker are both of this kind.
\<close>

locale batch_move =
  fixes move :: "nat \<Rightarrow> nat \<Rightarrow> 'b \<Rightarrow> 'b res"
    and slots :: "'b \<Rightarrow> cpu_batch"
    and ok :: "'b \<Rightarrow> bool"
  assumes move_ok: "\<lbrakk>ok g; holes_ok E (slots g); src < length (cb_ids (slots g)); src \<notin> E; tgt \<in> E\<rbrakk> \<Longrightarrow>
    \<exists>g'. move src tgt g = Inr g' \<and> cpu_move src tgt (slots g) = Inr (slots g') \<and> ok g'"
begin

lemma loop_ok:
  assumes "ok g" "condensing es m (slots g)"
  shows "\<exists>g' m'. condense_loop move es m g = Inr g' \<and>
    condense_loop cpu_move es m (slots g) = Inr (slots g') \<and> ok g' \<and>
    holes_ok (above m' (slots g')) (slots g') \<and> - 1 \<le> m' \<and> m' < int (length (cb_ids (slots g'))) \<and>
    batch_reqs (slots g') = batch_reqs (slots g) \<and> cb_max (slots g') = cb_max (slots g)"
  using assms
proof (induction "length es" arbitrary: es m g)
  case 0
  then show ?case by (auto simp: condense_loop.simps condensing_def)
next
  case (Suc n)
  let ?b = "slots g" and ?k = "skip_empty es m" and ?e = "last es"
  have es: "es \<noteq> []" using Suc.hyps(2) by auto
  have inv: "holes_ok (set es \<union> above m ?b) ?b" and sorted: "sorted_wrt (>) es"
    and m: "- 1 \<le> m" "m < int (length (cb_ids ?b))"
    using Suc.prems(2) by (simp_all add: condensing_def)
  note es' = sorted_butlast [OF sorted es]
  have k: "- 1 \<le> ?k" "?k \<le> m" "?k \<notin> int ` set es"
    "\<And>j. ?k < j \<Longrightarrow> j \<le> m \<Longrightarrow> j \<in> int ` set es"
    using skip_empty_lower [OF m(1)] skip_empty_le [of es m] skip_empty_ok [of es m] by auto
  have in_range: "set es \<subseteq> {..<length (cb_ids ?b)}" using holes_okD(3) [OF inv] by simp
  have same: "set es \<union> above m ?b = set es \<union> above ?k ?b"
  proof (intro set_eqI iffI)
    fix j assume "j \<in> set es \<union> above ?k ?b"
    then show "j \<in> set es \<union> above m ?b" using k(4) [of "int j"]
      by (cases "int j \<le> m") (auto simp: above_def)
  qed (use k(2) in \<open>auto simp: above_def\<close>)
  show ?case
  proof (cases "?k \<le> int ?e")
    case True
    have "set es \<subseteq> above ?k ?b"
    proof
      fix j assume j: "j \<in> set es"
      then have "?k \<le> int j" using es'(4) True by fastforce
      moreover have "?k \<noteq> int j" using k(3) j by blast
      ultimately show "j \<in> above ?k ?b" using in_range j by (auto simp: above_def)
    qed
    then have "holes_ok (above ?k ?b) ?b" using inv same by (metis Un_absorb1)
    then show ?thesis using True es k(1,2) m(2) Suc.prems(1)
      by (intro exI [of _ g] exI [of _ ?k]) (simp add: condense_loop.simps Let_def)
  next
    case False
    then have pos: "int ?e < ?k" by simp
    let ?src = "nat ?k" and ?E = "set es \<union> above ?k ?b"
    have src: "?src < length (cb_ids ?b)" "int ?src = ?k" using pos k(2) m(2) by auto
    have "int ?src \<notin> int ` set es" using k(3) src(2) by (simp only: not_False_eq_True)
    then have "?src \<notin> set es" by blast
    moreover have "?src \<notin> above ?k ?b" using src(2) by (simp add: above_def)
    ultimately have out: "?src \<notin> ?E" by blast
    moreover have hole: "?e \<in> ?E" using es by simp
    ultimately obtain g1 where g1: "move ?src ?e g = Inr g1" "cpu_move ?src ?e ?b = Inr (slots g1)" "ok g1"
      using move_ok [OF Suc.prems(1) inv [unfolded same] src(1)] by blast
    let ?b1 = "slots g1"
    obtain r where b1: "map_of (cb_index ?b1) = (map_of (cb_index ?b))(r \<mapsto> ?e)"
      "map_of (cb_index ?b) r = Some ?src"
      "holes_ok (insert ?src ?E - {?e}) ?b1" "length (cb_ids ?b1) = length (cb_ids ?b)"
      "cb_max ?b1 = cb_max ?b"
      using cpu_move_ok [OF inv [unfolded same] src(1) out hole] g1(2) by auto
    have "insert ?src ?E - {?e} = set (butlast es) \<union> above (?k - 1) ?b1"
    proof -
      have "above (?k - 1) ?b1 = insert ?src (above ?k ?b)"
      proof (rule set_eqI)
        fix j
        show "j \<in> above (?k - 1) ?b1 \<longleftrightarrow> j \<in> insert ?src (above ?k ?b)"
          using src b1(4) unfolding above_def by (simp, linarith)
      qed
      moreover have "?e \<noteq> ?src" "?e \<notin> above ?k ?b" using pos src(2) by (auto simp: above_def)
      moreover note es'(2,3)
      ultimately show ?thesis by blast
    qed
    then have "condensing (butlast es) (?k - 1) ?b1"
      using b1(3,4) es'(1) pos src k(2) m(2) by (simp add: condensing_def)
    moreover have "n = length (butlast es)" using Suc.hyps(2) by simp
    ultimately obtain g' m' where
      "condense_loop move (butlast es) (?k - 1) g1 = Inr g'"
      "condense_loop cpu_move (butlast es) (?k - 1) ?b1 = Inr (slots g')" "ok g'"
      "holes_ok (above m' (slots g')) (slots g')"
      "- 1 \<le> m'" "m' < int (length (cb_ids (slots g')))" "batch_reqs (slots g') = batch_reqs ?b1"
      "cb_max (slots g') = cb_max ?b1" using Suc.hyps(1) [of "butlast es" g1 "?k - 1"] g1(3) by blast
    moreover have "batch_reqs ?b1 = batch_reqs ?b" using b1(1,2) by (auto simp: dom_def)
    moreover have "condense_loop move es m g = condense_loop move (butlast es) (?k - 1) g1"
      "condense_loop cpu_move es m ?b = condense_loop cpu_move (butlast es) (?k - 1) ?b1"
      using False es g1(1,2) by (simp_all add: condense_loop.simps [of _ es] Let_def)
    ultimately show ?thesis using b1(5) by auto
  qed
qed

end

interpretation cpu: batch_move cpu_move "\<lambda>b. b" "\<lambda>_. True"
proof
  fix g E src tgt
  assume "holes_ok E g" "src < length (cb_ids g)" "src \<notin> E" "tgt \<in> E"
  then show "\<exists>g'. cpu_move src tgt g = Inr g' \<and> cpu_move src tgt g = Inr g' \<and> True"
    using cpu_move_ok by blast
qed

text \<open>The loop starts with the empty indices at hand and nothing above the last index.\<close>

lemma condensing_start:
  assumes "holes_ok (set es) b" "sorted_wrt (>) es"
  shows "condensing es (int (cb_num_reqs b) + int (length es) - 1) b"
proof -
  have "distinct es" using assms(2) by (induction es) auto
  then have len: "length (cb_ids b) = cb_num_reqs b + length es"
    using holes_count [OF assms(1)] by (simp add: distinct_card)
  then have "above (int (cb_num_reqs b) + int (length es) - 1) b = {}" by (auto simp: above_def)
  then show ?thesis using assms len by (simp add: condensing_def)
qed

lemma cpu_trim_ok:
  assumes "holes_ok (above m b) b" "- 1 \<le> m" "m < int (length (cb_ids b))"
  shows "batch_ok (cpu_trim b)" "map_of (cb_index (cpu_trim b)) = map_of (cb_index b)"
proof -
  have "above m b = {nat (m + 1)..<length (cb_ids b)}" using assms(2) by (auto simp: above_def)
  then have "card (above m b) = length (cb_ids b) - nat (m + 1)" by simp
  moreover have "nat (m + 1) \<le> length (cb_ids b)" using assms(3) by simp
  ultimately have n: "cb_num_reqs b = nat (m + 1)" using holes_count [OF assms(1)] by simp
  let ?b = "cpu_trim b"
  have ids: "cb_ids ?b = take (nat (m + 1)) (cb_ids b)" "cb_index ?b = cb_index b" "cb_max ?b = cb_max b"
    using n by (simp_all add: cpu_trim_def)
  have some: "cb_ids b ! k \<noteq> None \<longleftrightarrow> k < nat (m + 1)" if "k < length (cb_ids b)" for k
    using holes_okD(2) [OF assms(1) that] that assms(2) by (auto simp: above_def)
  show "batch_ok ?b"
    unfolding holes_ok_def
  proof (intro conjI allI impI)
    show "distinct (map fst (cb_index ?b))" using holes_okD(6) [OF assms(1)] ids by simp
    show "map_of (cb_index ?b) q = Some j \<longleftrightarrow> j < length (cb_ids ?b) \<and> cb_ids ?b ! j = Some q" for q j
    proof (cases "j < nat (m + 1)")
      case True
      then show ?thesis using holes_okD(1) [OF assms(1), of q j] ids by simp
    next
      case False
      then have "map_of (cb_index b) q \<noteq> Some j"
        using holes_okD(1) [OF assms(1), of q j] some [of j] by auto
      then show ?thesis using False ids by simp
    qed
    show "cb_ids ?b ! j = None \<longleftrightarrow> j \<in> {}" if "j < length (cb_ids ?b)" for j
      using some [of j] that ids by simp
    show "length (cb_ids ?b) \<le> cb_max ?b" using holes_okD(4) [OF assms(1)] ids by simp
  qed simp
  show "map_of (cb_index ?b) = map_of (cb_index b)" using ids by simp
qed

lemma cpu_condense_ok:
  assumes "holes_ok (set es) b" "sorted_wrt (>) es"
  shows "\<exists>b'. cpu_condense es b = Inr b' \<and> batch_ok b' \<and> batch_reqs b' = batch_reqs b \<and>
    cb_max b' = cb_max b"
proof (cases "cb_num_reqs b = 0")
  case True
  then have "cb_index b = []" by (simp add: cb_num_reqs_def)
  then show ?thesis using True by (simp add: cpu_condense_def holes_ok_def)
next
  case False
  from cpu.loop_ok [OF TrueI condensing_start [OF assms]] obtain b' m' where
    b': "condense_loop cpu_move es (int (cb_num_reqs b) + int (length es) - 1) b = Inr b'"
    "holes_ok (above m' b') b'" "- 1 \<le> m'"
    "m' < int (length (cb_ids b'))" "batch_reqs b' = batch_reqs b" "cb_max b' = cb_max b" by blast
  then show ?thesis
    using False cpu_trim_ok [OF b'(2-4)] by (simp add: cpu_condense_def cpu_trim_def)
qed

section \<open>The batch after a step of the scheduler\<close>

definition enum_strings_ok :: "(string set \<Rightarrow> string list) \<Rightarrow> bool" where
  "enum_strings_ok enum \<longleftrightarrow> (\<forall>A. finite A \<longrightarrow> set (enum A) = A \<and> distinct (enum A))"

text \<open>
  What the scheduler's output guarantees: each scheduled request is announced once, there are no
  more than fit, and a request announced as new is not in the batch unless it has just finished.
\<close>

definition step_output_ok :: "scheduler_output \<Rightarrow> cpu_batch \<Rightarrow> bool" where
  "step_output_ok so b \<longleftrightarrow>
     distinct (map nr_req_id (so_new_reqs so) @ map cr_req_id (so_cached_reqs so)) \<and>
     set (map nr_req_id (so_new_reqs so) @ map cr_req_id (so_cached_reqs so)) = scheduled_ids so \<and>
     length (so_new_reqs so) + length (so_cached_reqs so) \<le> cb_max b \<and>
     finite (so_finished_req_ids so) \<and>
     (\<forall>d \<in> set (so_new_reqs so). nr_req_id d \<in> batch_reqs b \<longrightarrow> nr_req_id d \<in> so_finished_req_ids so)"

text \<open>Removing a list of requests.\<close>

definition removing :: "cpu_batch \<Rightarrow> string set \<Rightarrow> nat list \<Rightarrow> cpu_batch \<Rightarrow> bool" where
  "removing b gone removed b' \<longleftrightarrow> holes_ok (set removed) b' \<and> distinct removed \<and>
     map_of (cb_index b') = map_of (cb_index b) |` (- gone) \<and> cb_max b' = cb_max b \<and>
     length (cb_ids b') = length (cb_ids b)"

lemma remove_all_ok:
  assumes "removing b gone removed b1" "distinct rs" "must \<longrightarrow> set rs \<subseteq> batch_reqs b1"
  shows "\<exists>removed' b2. efold (cpu_remove_step must) rs (removed, b1) = Inr (removed', b2) \<and>
    removing b (gone \<union> set rs) removed' b2"
  using assms
proof (induction rs arbitrary: gone removed b1)
  case (Cons r rs)
  have inv: "holes_ok (set removed) b1" "distinct removed"
    "map_of (cb_index b1) = map_of (cb_index b) |` (- gone)" "cb_max b1 = cb_max b"
    "length (cb_ids b1) = length (cb_ids b)"
    using Cons.prems(1) by (simp_all add: removing_def)
  obtain removed1 b2 where one: "cpu_remove_step must r (removed, b1) = Inr (removed1, b2)"
    and rem: "removing b (insert r gone) removed1 b2"
    and reqs: "batch_reqs b2 = batch_reqs b1 - {r}"
  proof (cases "map_of (cb_index b1) r")
    case None
    then have "\<not> must" using Cons.prems(3) by auto
    then have "cpu_remove_step must r (removed, b1) = Inr (removed, b1)"
      using None by (simp add: remove_step_def cpu_remove_def)
    moreover have "map_of (cb_index b1) = map_of (cb_index b) |` (- insert r gone)"
      using None inv(3) by (auto simp: restrict_map_def fun_eq_iff)
    ultimately show thesis using that inv None by (auto simp: removing_def)
  next
    case (Some k)
    from cpu_remove_ok [OF inv(1) Some] obtain b2 where b2:
      "cpu_remove r b1 = Inr (Some k, b2)" "holes_ok (insert k (set removed)) b2" "k \<notin> set removed"
      "map_of (cb_index b2) = (map_of (cb_index b1))(r := None)" "cb_max b2 = cb_max b1"
      "length (cb_ids b2) = length (cb_ids b1)" by blast
    then have "cpu_remove_step must r (removed, b1) = Inr (removed @ [k], b2)"
      by (simp add: remove_step_def)
    moreover have "removing b (insert r gone) (removed @ [k]) b2"
      using b2 inv by (auto simp: removing_def restrict_map_def fun_eq_iff)
    moreover have "batch_reqs b2 = batch_reqs b1 - {r}" using b2(4) by auto
    ultimately show thesis by (rule that)
  qed
  have "distinct rs" "must \<longrightarrow> set rs \<subseteq> batch_reqs b2" using Cons.prems(2,3) reqs by auto
  from Cons.IH [OF rem this] show ?case using one by auto
qed (simp add: removing_def)

text \<open>
  A batch whose index part follows the mirror when requests are removed, and in every operation:
  then lists of requests can be removed, and added into the empty indices first.
\<close>

locale batch_removal =
  fixes slots :: "'b \<Rightarrow> cpu_batch"
    and ok :: "'b \<Rightarrow> bool"
    and remove :: "string \<Rightarrow> 'b \<Rightarrow> (nat option \<times> 'b) res"
  assumes remove_ok: "\<lbrakk>ok g; holes_ok E (slots g); cpu_remove r (slots g) = Inr (k, b)\<rbrakk> \<Longrightarrow>
      \<exists>g'. remove r g = Inr (k, g') \<and> slots g' = b \<and> ok g'"
begin

lemma remove_all:
  assumes "ok g" "holes_ok E (slots g)"
    and "efold (cpu_remove_step must) rs (removed, slots g) = Inr (removed', b)"
  shows "\<exists>g'. efold (remove_step remove must) rs (removed, g) = Inr (removed', g') \<and> slots g' = b \<and> ok g'"
  using assms
proof (induction rs arbitrary: g E removed)
  case (Cons r rs)
  from Cons.prems(3) obtain k b1 where b1: "cpu_remove r (slots g) = Inr (k, b1)" "must \<longrightarrow> k \<noteq> None"
    "efold (cpu_remove_step must) rs (case k of None \<Rightarrow> removed | Some k \<Rightarrow> removed @ [k], b1) =
      Inr (removed', b)"
    by (auto simp: remove_step_def [of _ _ r] ebind_eq_Inr py_assert_def split: if_splits)
  from remove_ok [OF Cons.prems(1,2) b1(1)] obtain g1 where
    g1: "remove r g = Inr (k, g1)" "slots g1 = b1" "ok g1" by blast
  have "\<exists>F. holes_ok F b1"
  proof (cases "map_of (cb_index (slots g)) r")
    case None
    then show ?thesis using Cons.prems(2) b1(1) by (auto simp: cpu_remove_def)
  next
    case (Some j)
    from cpu_remove_ok [OF Cons.prems(2) this] b1(1) show ?thesis by auto
  qed
  then obtain F where F: "holes_ok F (slots g1)" using g1(2) by blast
  have "remove_step remove must r (removed, g) =
      Inr (case k of None \<Rightarrow> removed | Some k \<Rightarrow> removed @ [k], g1)"
    using g1(1) b1(2) by (simp add: remove_step_def py_assert_def)
  with Cons.IH [OF g1(3) F b1(3) [folded g1(2)]] show ?case by simp
qed simp

end

locale batch_ops = batch_move move slots ok + batch_removal slots ok remove
  for move :: "nat \<Rightarrow> nat \<Rightarrow> 'b \<Rightarrow> 'b res" and slots :: "'b \<Rightarrow> cpu_batch" and ok :: "'b \<Rightarrow> bool"
    and remove :: "string \<Rightarrow> 'b \<Rightarrow> (nat option \<times> 'b) res" +
  fixes add :: "string \<Rightarrow> nat option \<Rightarrow> 'b \<Rightarrow> 'b res"
    and fits :: "string \<Rightarrow> bool"
  assumes add_ok: "\<lbrakk>ok g; holes_ok E (slots g); fits r; map_of (cb_index (slots g)) r = None;
      case ix of None \<Rightarrow> E = {} \<and> length (cb_ids (slots g)) < cb_max (slots g) | Some k \<Rightarrow> k \<in> E;
      cpu_add r ix (slots g) = Inr b\<rbrakk> \<Longrightarrow> \<exists>g'. add r ix g = Inr g' \<and> slots g' = b \<and> ok g'"
begin

lemma add_all:
  assumes "ok g" "holes_ok (set es) (slots g)" "sorted_wrt (>) es" "distinct rs"
    and "set rs \<inter> batch_reqs (slots g) = {}" "cb_num_reqs (slots g) + length rs \<le> cb_max (slots g)"
    and "\<forall>r \<in> set rs. fits r"
  shows "\<exists>es' g'. efold (add_step add) rs (es, g) = Inr (es', g') \<and>
    efold cpu_add_step rs (es, slots g) = Inr (es', slots g') \<and> ok g' \<and> holes_ok (set es') (slots g') \<and>
    sorted_wrt (>) es' \<and> batch_reqs (slots g') = batch_reqs (slots g) \<union> set rs \<and>
    (\<forall>r \<in> batch_reqs (slots g). map_of (cb_index (slots g')) r = map_of (cb_index (slots g)) r) \<and>
    cb_max (slots g') = cb_max (slots g)"
  using assms
proof (induction rs arbitrary: es g)
  case (Cons r rs)
  let ?b = "slots g"
  have fresh: "map_of (cb_index ?b) r = None" using Cons.prems(5) by auto
  have fit: "fits r" using Cons.prems(7) by simp
  obtain es1 g1 k where one: "add_step add r (es, g) = Inr (es1, g1)" "ok g1"
    and cpu: "cpu_add_step r (es, ?b) = Inr (es1, slots g1)"
    and b1: "holes_ok (set es1) (slots g1)" "sorted_wrt (>) es1"
      "map_of (cb_index (slots g1)) = (map_of (cb_index ?b))(r \<mapsto> k)" "cb_max (slots g1) = cb_max ?b"
  proof (cases "es = []")
    case True
    have room: "length (cb_ids ?b) < cb_max ?b"
      using holes_count [OF Cons.prems(2)] Cons.prems(6) True by simp
    then obtain b1 where b1: "cpu_add r None ?b = Inr b1" "batch_ok b1"
      "map_of (cb_index b1) = (map_of (cb_index ?b))(r \<mapsto> length (cb_ids ?b))" "cb_max b1 = cb_max ?b"
      using cpu_add_end [of ?b r] Cons.prems(2) True fresh by auto
    moreover obtain g1 where "add r None g = Inr g1" "slots g1 = b1" "ok g1"
      using add_ok [OF Cons.prems(1,2) fit fresh, of None] True room b1(1) by auto
    ultimately show thesis
      by (intro that [of "[]" g1]) (simp_all add: add_step_def fill_index_def True)
  next
    case False
    note es' = sorted_butlast [OF Cons.prems(3) False]
    obtain b1 where b1: "cpu_add r (Some (last es)) ?b = Inr b1" "holes_ok (set es - {last es}) b1"
      "map_of (cb_index b1) = (map_of (cb_index ?b))(r \<mapsto> last es)" "cb_max b1 = cb_max ?b"
      using cpu_add_hole [OF Cons.prems(2) _ fresh] False by (metis last_in_set)
    moreover obtain g1 where "add r (Some (last es)) g = Inr g1" "slots g1 = b1" "ok g1"
      using add_ok [OF Cons.prems(1,2) fit fresh, of "Some (last es)"] False b1(1) by auto
    moreover have "set es - {last es} = set (butlast es)" using es'(2,3) by blast
    ultimately show thesis using es'(1) False
      by (intro that [of "butlast es" g1]) (simp_all add: add_step_def fill_index_def)
  qed
  have reqs: "batch_reqs (slots g1) = insert r (batch_reqs ?b)" using b1(3) by auto
  have "cb_num_reqs (slots g1) = Suc (cb_num_reqs ?b)"
    using num_reqs_card [OF holes_okD(6) [OF b1(1)]] num_reqs_card [OF holes_okD(6) [OF Cons.prems(2)]]
      reqs fresh by (simp add: finite_dom_map_of domIff)
  then have "cb_num_reqs (slots g1) + length rs \<le> cb_max (slots g1)" using Cons.prems(6) b1(4) by simp
  moreover have "distinct rs" "set rs \<inter> batch_reqs (slots g1) = {}" "\<forall>r \<in> set rs. fits r"
    using Cons.prems(4,5,7) reqs by auto
  ultimately obtain es' g' where rest: "efold (add_step add) rs (es1, g1) = Inr (es', g')"
    "efold cpu_add_step rs (es1, slots g1) = Inr (es', slots g')" "ok g'"
    "holes_ok (set es') (slots g')" "sorted_wrt (>) es'"
    "batch_reqs (slots g') = batch_reqs (slots g1) \<union> set rs"
    "\<forall>q \<in> batch_reqs (slots g1). map_of (cb_index (slots g')) q = map_of (cb_index (slots g1)) q"
    "cb_max (slots g') = cb_max (slots g1)"
    using Cons.IH [OF one(2) b1(1,2)] by blast
  moreover have "\<forall>q \<in> batch_reqs ?b. map_of (cb_index (slots g')) q = map_of (cb_index ?b) q"
  proof
    fix q assume q: "q \<in> batch_reqs ?b"
    then have "q \<noteq> r" using fresh by auto
    then show "map_of (cb_index (slots g')) q = map_of (cb_index ?b) q" using rest(7) reqs q b1(3) by simp
  qed
  ultimately show ?case using one(1) cpu b1(4) reqs by auto
qed auto

end

interpretation cpu_ops: batch_ops cpu_move "\<lambda>b. b" "\<lambda>_. True" cpu_remove cpu_add "\<lambda>_. True"
  by unfold_locales auto

text \<open>The stages of a step: what has been removed, and what is there to add.\<close>

lemma cpu_update_parts:
  assumes "batch_ok b" "step_output_ok so b" "enum_strings_ok enum"
  obtains removed1 b1 removed b2 where
    "efold (cpu_remove_step False) (enum (so_finished_req_ids so)) ([], b) = Inr (removed1, b1)"
    "removing b (so_finished_req_ids so) removed1 b1"
    "efold (cpu_remove_step True) (enum (set (map fst (cb_index b1)) - scheduled_ids so)) (removed1, b1) =
       Inr (removed, b2)"
    "holes_ok (set (rev (sort removed))) b2" "sorted_wrt (>) (rev (sort removed))"
    "map_of (cb_index b2) = map_of (cb_index b) |` (scheduled_ids so - so_finished_req_ids so)"
    "cb_max b2 = cb_max b"
    "set (ids_to_add so b2) \<inter> batch_reqs b2 = {}" "distinct (ids_to_add so b2)"
    "batch_reqs b2 \<union> set (ids_to_add so b2) = scheduled_ids so"
    "cb_num_reqs b2 + length (ids_to_add so b2) \<le> cb_max b2"
proof -
  let ?fin = "so_finished_req_ids so"
  have fin: "set (enum ?fin) = ?fin" "distinct (enum ?fin)"
    using assms(2,3) by (simp_all add: step_output_ok_def enum_strings_ok_def)
  have "removing b {} [] b" using assms(1) by (simp add: removing_def restrict_map_def)
  from remove_all_ok [OF this fin(2), of False] obtain removed1 b1 where
    r1: "efold (cpu_remove_step False) (enum ?fin) ([], b) = Inr (removed1, b1)"
    "removing b ?fin removed1 b1" using fin(1) by auto
  let ?un = "set (map fst (cb_index b1)) - scheduled_ids so"
  have un: "set (enum ?un) = ?un" "distinct (enum ?un)"
    using assms(3) by (simp_all add: enum_strings_ok_def)
  have "set (enum ?un) \<subseteq> batch_reqs b1" using un(1) by (auto simp: dom_map_of_conv_image_fst)
  then obtain removed b2 where
    r2: "efold (cpu_remove_step True) (enum ?un) (removed1, b1) = Inr (removed, b2)"
    "removing b (?fin \<union> ?un) removed b2"
    using remove_all_ok [OF r1(2) un(2), of True] un(1) by auto
  let ?es = "rev (sort removed)" and ?add = "ids_to_add so b2"
  have b2: "holes_ok (set ?es) b2" "distinct removed" "cb_max b2 = cb_max b"
    "map_of (cb_index b2) = map_of (cb_index b) |` (- (?fin \<union> ?un))"
    using r2(2) by (simp_all add: removing_def)
  have "sorted_wrt (<) (sort removed)"
    using b2(2) by (simp add: strict_sorted_iff)
  then have es: "sorted_wrt (>) ?es" by (simp add: sorted_wrt_rev)
  have keys1: "set (map fst (cb_index b1)) = batch_reqs b - ?fin"
    using r1(2) by (auto simp: removing_def dom_map_of_conv_image_fst [symmetric])
  have table: "map_of (cb_index b2) = map_of (cb_index b) |` (scheduled_ids so - ?fin)"
  proof
    fix r show "map_of (cb_index b2) r = (map_of (cb_index b) |` (scheduled_ids so - ?fin)) r"
      using b2(4) unfolding keys1 by (cases "map_of (cb_index b) r") (auto simp: restrict_map_def)
  qed
  then have reqs2: "batch_reqs b2 = (batch_reqs b - ?fin) \<inter> scheduled_ids so" by auto
  let ?new = "map nr_req_id (so_new_reqs so)" and ?cached = "map cr_req_id (so_cached_reqs so)"
  have out: "distinct (?new @ ?cached)" "set (?new @ ?cached) = scheduled_ids so"
    "length (?new @ ?cached) \<le> cb_max b" "\<forall>i \<in> set ?new. i \<in> batch_reqs b \<longrightarrow> i \<in> ?fin"
    using assms(2) by (simp_all add: step_output_ok_def)
  have fresh: "set ?add \<inter> batch_reqs b2 = {}"
    using out(4) reqs2 by (auto simp: ids_to_add_def)
  have dist: "distinct ?add" using out(1) by (auto simp: ids_to_add_def)
  have all: "batch_reqs b2 \<union> set ?add = scheduled_ids so"
    using out(2) reqs2 by (auto simp: ids_to_add_def)
  have "cb_num_reqs b2 + length ?add = card (batch_reqs b2 \<union> set ?add)"
    using num_reqs_card [OF holes_okD(6) [OF b2(1)]] fresh dist
    by (subst card_Un_disjoint) (auto simp: distinct_card finite_dom_map_of)
  also have "\<dots> = length (?new @ ?cached)" unfolding all using out(1,2) by (metis distinct_card)
  finally have "cb_num_reqs b2 + length ?add \<le> cb_max b2" using out(3) b2(3) by simp
  with r1 r2(1) b2(1,3) es table fresh dist all show thesis by (intro that)
qed

text \<open>A whole step of the scheduler.\<close>

lemma cpu_update_ok:
  assumes "batch_ok b" "step_output_ok so b" "enum_strings_ok enum"
  shows "\<exists>b'. cpu_update_states enum so b = Inr b' \<and> batch_ok b' \<and>
    batch_reqs b' = scheduled_ids so \<and> cb_max b' = cb_max b"
proof -
  from cpu_update_parts [OF assms] obtain removed1 b1 removed b2 where
    r1: "efold (cpu_remove_step False) (enum (so_finished_req_ids so)) ([], b) = Inr (removed1, b1)" and
    r2: "efold (cpu_remove_step True) (enum (set (map fst (cb_index b1)) - scheduled_ids so)) (removed1, b1) =
        Inr (removed, b2)" and
    b2: "holes_ok (set (rev (sort removed))) b2" "sorted_wrt (>) (rev (sort removed))" "cb_max b2 = cb_max b"
      "set (ids_to_add so b2) \<inter> batch_reqs b2 = {}" "distinct (ids_to_add so b2)"
      "batch_reqs b2 \<union> set (ids_to_add so b2) = scheduled_ids so"
      "cb_num_reqs b2 + length (ids_to_add so b2) \<le> cb_max b2" by metis
  from cpu_ops.add_all [OF TrueI b2(1,2,5,4,7)] obtain es b3 where
    r3: "efold cpu_add_step (ids_to_add so b2) (rev (sort removed), b2) = Inr (es, b3)" "holes_ok (set es) b3"
    "sorted_wrt (>) es" "batch_reqs b3 = scheduled_ids so" "cb_max b3 = cb_max b2" using b2(6) by blast
  have update: "cpu_update_states enum so b = (if es \<noteq> [] then cpu_condense es b3 else Inr b3)"
    using r1 r2 r3(1) by (simp add: cpu_update_states_def)
  show ?thesis
  proof (cases "es = []")
    case True
    then show ?thesis using update r3 b2(3) by simp
  next
    case False
    then show ?thesis using update cpu_condense_ok [OF r3(2,3)] r3(4,5) b2(3) by auto
  qed
qed

section \<open>The order in which sets are walked does not matter\<close>

definition same_batch :: "cpu_batch \<Rightarrow> cpu_batch \<Rightarrow> bool" where
  "same_batch b c \<longleftrightarrow> cb_max b = cb_max c \<and> cb_ids b = cb_ids c \<and>
     map_of (cb_index b) = map_of (cb_index c) \<and>
     distinct (map fst (cb_index b)) \<and> distinct (map fst (cb_index c))"

lemma same_num_reqs: "same_batch b c \<Longrightarrow> cb_num_reqs b = cb_num_reqs c"
  using num_reqs_card [of b] num_reqs_card [of c] by (simp add: same_batch_def)

text \<open>A batch is determined by its length, its table and its empty indices by these.\<close>

lemma option_eqI: "(\<And>r. x = Some r \<longleftrightarrow> y = Some r) \<Longrightarrow> x = y"
  by (cases x; cases y) auto

lemma holes_same:
  assumes "holes_ok E b" "holes_ok F c" "length (cb_ids b) = length (cb_ids c)"
    and "map_of (cb_index b) = map_of (cb_index c)" "cb_max b = cb_max c"
  shows "same_batch b c" "E = F"
proof -
  have "cb_ids b ! k = cb_ids c ! k" if "k < length (cb_ids b)" for k
  proof -
    have "cb_ids b ! k = Some r \<longleftrightarrow> cb_ids c ! k = Some r" for r
      using holes_okD(1) [OF assms(1), of r k] holes_okD(1) [OF assms(2), of r k] assms(3,4) that by simp
    then show ?thesis by (rule option_eqI)
  qed
  then have ids: "cb_ids b = cb_ids c" using assms(3) by (simp add: list_eq_iff_nth_eq)
  then show "same_batch b c"
    using assms(4,5) holes_okD(6) [OF assms(1)] holes_okD(6) [OF assms(2)] by (simp add: same_batch_def)
  have "G = {k. k < length (cb_ids b) \<and> cb_ids b ! k = None}" if "holes_ok G b" for G
    using holes_okD(2,3) [OF that] by auto
  moreover have "holes_ok F b" using assms(2,4,5) ids holes_okD(6) [OF assms(1)] by (simp add: holes_ok_def)
  ultimately show "E = F" using assms(1) by blast
qed

lemma cpu_add_same:
  assumes "same_batch b c" "cpu_add r ix b = Inr b'"
  shows "\<exists>c'. cpu_add r ix c = Inr c' \<and> same_batch b' c'"
proof -
  let ?k = "case ix of None \<Rightarrow> cb_num_reqs b | Some k \<Rightarrow> k"
  obtain ids where ids: "?k < cb_max b"
    "(if ?k = length (cb_ids b) then Inr (cb_ids b @ [Some r]) else py_set (cb_ids b) (int ?k) (Some r)) = Inr ids"
    "b' = b\<lparr>cb_ids := ids, cb_index := AList.update r ?k (cb_index b)\<rparr>"
    using assms(2) by (auto simp: cpu_add_def Let_def ebind_eq_Inr py_assert_def split: if_splits)
  let ?c = "c\<lparr>cb_ids := ids, cb_index := AList.update r ?k (cb_index c)\<rparr>"
  have k: "(case ix of None \<Rightarrow> cb_num_reqs c | Some k \<Rightarrow> k) = ?k"
    using same_num_reqs [OF assms(1)] by (simp split: option.split)
  have eq: "cb_max c = cb_max b" "cb_ids c = cb_ids b" using assms(1) by (simp_all add: same_batch_def)
  have "cpu_add r ix c = Inr ?c"
    unfolding cpu_add_def k Let_def eq by (simp add: ids(1,2) py_assert_def)
  moreover have "same_batch b' ?c"
    using assms(1) ids(3) by (simp add: same_batch_def update_conv' distinct_update)
  ultimately show ?thesis by blast
qed

lemma cpu_move_same:
  assumes "same_batch b c" "cpu_move src tgt b = Inr b'"
  shows "\<exists>c'. cpu_move src tgt c = Inr c' \<and> same_batch b' c'"
proof -
  from assms(2) obtain r ids ids' where r: "py_get (cb_ids b) (int src) = Inr (Some r)"
    "py_set (cb_ids b) (int tgt) (Some r) = Inr ids" "py_set ids (int src) None = Inr ids'"
    "b' = b\<lparr>cb_ids := ids', cb_index := AList.update r tgt (cb_index b)\<rparr>"
    by (auto simp: cpu_move_def ebind_eq_Inr split: option.splits)
  then have "cpu_move src tgt c = Inr (c\<lparr>cb_ids := ids', cb_index := AList.update r tgt (cb_index c)\<rparr>)"
    using assms(1) by (simp add: cpu_move_def same_batch_def)
  then show ?thesis using assms(1) r(4) by (simp add: same_batch_def update_conv' distinct_update)
qed

lemma condense_loop_same:
  "\<lbrakk>same_batch b c; condense_loop cpu_move es m b = Inr b'\<rbrakk> \<Longrightarrow>
   \<exists>c'. condense_loop cpu_move es m c = Inr c' \<and> same_batch b' c'"
proof (induction "length es" arbitrary: es m b c)
  case 0
  then show ?case by (auto simp: condense_loop.simps)
next
  case (Suc n)
  let ?k = "skip_empty es m" and ?e = "last es"
  have es: "es \<noteq> []" using Suc.hyps(2) by auto
  show ?case
  proof (cases "?k \<le> int ?e")
    case True
    then show ?thesis using Suc.prems es by (auto simp: condense_loop.simps Let_def)
  next
    case False
    then have step: "condense_loop cpu_move es m x =
        ebind (cpu_move (nat ?k) ?e x) (condense_loop cpu_move (butlast es) (?k - 1))" for x
      using es by (simp add: condense_loop.simps [of _ es] Let_def)
    with Suc.prems(2) obtain b1 where b1: "cpu_move (nat ?k) ?e b = Inr b1"
      "condense_loop cpu_move (butlast es) (?k - 1) b1 = Inr b'" by (auto simp: ebind_eq_Inr)
    with cpu_move_same [OF Suc.prems(1)] obtain c1 where c1: "cpu_move (nat ?k) ?e c = Inr c1"
      "same_batch b1 c1" by blast
    have "n = length (butlast es)" using Suc.hyps(2) by simp
    from Suc.hyps(1) [OF this c1(2) b1(2)] show ?thesis using c1(1) step by simp
  qed
qed

lemma cpu_condense_same:
  assumes "same_batch b c" "cpu_condense es b = Inr b'"
  shows "\<exists>c'. cpu_condense es c = Inr c' \<and> same_batch b' c'"
proof (cases "cb_num_reqs b = 0")
  case True
  then show ?thesis
    using assms same_num_reqs [OF assms(1)] by (auto simp: cpu_condense_def same_batch_def)
next
  case False
  let ?m = "int (cb_num_reqs b) + int (length es) - 1"
  from False assms(2) obtain b1 where b1: "condense_loop cpu_move es ?m b = Inr b1" "b' = cpu_trim b1"
    by (auto simp: cpu_condense_def ebind_eq_Inr)
  with condense_loop_same [OF assms(1)] obtain c1 where c1: "condense_loop cpu_move es ?m c = Inr c1"
    "same_batch b1 c1" by blast
  then have "cpu_condense es c = Inr (cpu_trim c1)"
    using False same_num_reqs [OF assms(1)] by (simp add: cpu_condense_def)
  moreover have "same_batch b' (cpu_trim c1)"
    using c1(2) b1(2) same_num_reqs [OF c1(2)] by (simp add: same_batch_def cpu_trim_def)
  ultimately show ?thesis by blast
qed

lemma cpu_add_all_same:
  "\<lbrakk>same_batch b c; efold cpu_add_step rs (es, b) = Inr (es', b')\<rbrakk> \<Longrightarrow>
   \<exists>c'. efold cpu_add_step rs (es, c) = Inr (es', c') \<and> same_batch b' c'"
proof (induction rs arbitrary: es b c)
  case (Cons r rs)
  obtain k es1 where k: "fill_index es = (k, es1)" by force
  with Cons.prems(2) obtain b1 where b1: "cpu_add r k b = Inr b1"
    "efold cpu_add_step rs (es1, b1) = Inr (es', b')"
    by (auto simp: add_step_def [of _ r] ebind_eq_Inr)
  with cpu_add_same [OF Cons.prems(1)] obtain c1 where c1: "cpu_add r k c = Inr c1" "same_batch b1 c1" by blast
  then have "cpu_add_step r (es, c) = Inr (es1, c1)" using k by (simp add: add_step_def)
  with Cons.IH [OF c1(2) b1(2)] show ?case by simp
qed simp

text \<open>Two removals of the same requests, in whatever order.\<close>

lemma removing_same:
  assumes "removing b gone removed b1" "removing c gone removed' c1" "same_batch b c"
  shows "same_batch b1 c1" "set removed = set removed'" "sort removed = sort removed'"
proof -
  have b1: "holes_ok (set removed) b1" "holes_ok (set removed') c1" "distinct removed" "distinct removed'"
    using assms(1,2) by (simp_all add: removing_def)
  have eq: "length (cb_ids b1) = length (cb_ids c1)"
    "map_of (cb_index b1) = map_of (cb_index c1)" "cb_max b1 = cb_max c1"
    using assms by (simp_all add: removing_def same_batch_def)
  show "same_batch b1 c1" "set removed = set removed'" using holes_same [OF b1(1,2) eq] by simp_all
  then show "sort removed = sort removed'" using b1(3,4)
    by (metis sorted_list_of_set_sort_remdups distinct_remdups_id)
qed

lemma cpu_update_order:
  assumes "batch_ok b" "step_output_ok so b" "enum_strings_ok enum" "enum_strings_ok enum'"
    and "same_batch b c" "batch_ok c" "cpu_update_states enum so b = Inr b'"
  shows "\<exists>c'. cpu_update_states enum' so c = Inr c' \<and> same_batch b' c'"
proof -
  let ?fin = "so_finished_req_ids so"
  have fin: "set (enum ?fin) = ?fin" "set (enum' ?fin) = ?fin" "distinct (enum ?fin)" "distinct (enum' ?fin)"
    using assms(2-4) by (simp_all add: step_output_ok_def enum_strings_ok_def)
  have start: "removing b {} [] b" "removing c {} [] c"
    using assms(1,6) by (simp_all add: removing_def restrict_map_def)
  from remove_all_ok [OF start(1) fin(3), of False] obtain removed1 b1 where
    b1: "efold (cpu_remove_step False) (enum ?fin) ([], b) = Inr (removed1, b1)"
    "removing b ?fin removed1 b1" using fin(1) by auto
  from remove_all_ok [OF start(2) fin(4), of False] obtain removed1' c1 where
    c1: "efold (cpu_remove_step False) (enum' ?fin) ([], c) = Inr (removed1', c1)"
    "removing c ?fin removed1' c1" using fin(2) by auto
  have same1: "same_batch b1 c1" using removing_same [OF b1(2) c1(2) assms(5)] by simp
  let ?un = "set (map fst (cb_index b1)) - scheduled_ids so"
  have keys: "set (map fst (cb_index c1)) = set (map fst (cb_index b1))"
    using same1 unfolding same_batch_def set_map dom_map_of_conv_image_fst [symmetric] by simp
  have un: "set (enum ?un) = ?un" "distinct (enum ?un)" "set (enum' ?un) = ?un" "distinct (enum' ?un)"
    using assms(3,4) by (simp_all add: enum_strings_ok_def)
  have "set (enum ?un) \<subseteq> batch_reqs b1" "set (enum' ?un) \<subseteq> batch_reqs c1"
    using un(1,3) keys by (auto simp: dom_map_of_conv_image_fst)
  then obtain removed b2 removed' c2 where
    b2: "efold (cpu_remove_step True) (enum ?un) (removed1, b1) = Inr (removed, b2)"
    "removing b (?fin \<union> ?un) removed b2" and
    c2: "efold (cpu_remove_step True) (enum' ?un) (removed1', c1) = Inr (removed', c2)"
    "removing c (?fin \<union> ?un) removed' c2"
    using remove_all_ok [OF b1(2) un(2), of True] remove_all_ok [OF c1(2) un(4), of True] un(1,3) by auto
  note same2 = removing_same [OF b2(2) c2(2) assms(5)]
  let ?add = "ids_to_add so b2"
  have add: "ids_to_add so c2 = ?add" using same2(1) by (simp add: ids_to_add_def same_batch_def)
  from assms(7) b1(1) b2(1) obtain es b3 where
    b3: "efold cpu_add_step ?add (rev (sort removed), b2) = Inr (es, b3)"
    "(if es \<noteq> [] then cpu_condense es b3 else Inr b3) = Inr b'"
    by (auto simp: cpu_update_states_def ebind_eq_Inr)
  note b3' = b3(1) [unfolded same2(3)]
  from cpu_add_all_same [OF same2(1) b3'] obtain c3 where
    c3: "efold cpu_add_step ?add (rev (sort removed'), c2) = Inr (es, c3)" "same_batch b3 c3" by blast
  have update: "cpu_update_states enum' so c = (if es \<noteq> [] then cpu_condense es c3 else Inr c3)"
    using c1(1) c2(1) c3(1) keys add by (simp add: cpu_update_states_def)
  show ?thesis
  proof (cases "es = []")
    case True
    then show ?thesis using update b3(2) c3(2) by simp
  next
    case False
    then show ?thesis using update b3(2) cpu_condense_same [OF c3(2)] by simp
  qed
qed

section \<open>Token ids in the order of the batch\<close>

text \<open>The token ids of this step of a scheduled request.\<close>

definition new_tokens_of :: "scheduler_output \<Rightarrow> new_request_data \<Rightarrow> int list" where
  "new_tokens_of so d = py_upto (nr_prompt_token_ids d) (num_scheduled_of so (nr_req_id d))"

definition cached_tokens_of ::
  "scheduler_output \<Rightarrow> (string \<times> int list) list \<Rightarrow> cached_request_data \<Rightarrow> int list" where
  "cached_tokens_of so resumed d =
     (if resumed_from_preemption d
      then py_upto (the (map_of resumed (cr_req_id d))) (num_scheduled_of so (cr_req_id d))
      else cr_new_token_ids d)"

definition step_tokens ::
  "scheduler_output \<Rightarrow> (string \<times> int list) list \<Rightarrow> (string \<times> int list) list" where
  "step_tokens so resumed =
     map (\<lambda>d. (nr_req_id d, new_tokens_of so d)) (so_new_reqs so) @
     map (\<lambda>d. (cr_req_id d, cached_tokens_of so resumed d)) (so_cached_reqs so)"

text \<open>Filling slots: entry \<open>k\<close> holds the tokens of the request at index \<open>k\<close> once it has been met.\<close>

definition slots_show :: "cpu_batch \<Rightarrow> (string \<times> int list) list \<Rightarrow> int list option list \<Rightarrow> bool" where
  "slots_show b ts slots \<longleftrightarrow> length slots = length (cb_ids b) \<and>
     (\<forall>k < length slots. \<forall>r. cb_ids b ! k = Some r \<longrightarrow> slots ! k = map_of ts r)"

lemma slots_show_set:
  assumes "batch_ok b" "slots_show b ts slots" "map_of (cb_index b) r = Some k" "map_of ts r = None"
  shows "py_set slots (int k) (Some v) = Inr (slots[k := Some v]) \<and>
    slots_show b (ts @ [(r, v)]) (slots[k := Some v])"
proof -
  have k: "k < length slots" "cb_ids b ! k = Some r"
    using holes_okD(1) [OF assms(1), of r k] assms(2,3) by (auto simp: slots_show_def)
  have "slots[k := Some v] ! j = map_of (ts @ [(r, v)]) q"
    if j: "j < length slots" "cb_ids b ! j = Some q" for j q
  proof (cases "j = k")
    case True
    then show ?thesis using j k assms(4) by (simp add: map_add_def)
  next
    case False
    then have "q \<noteq> r" using holes_okD(1) [OF assms(1), of q j] assms(2,3) j by (auto simp: slots_show_def)
    then show ?thesis using False j assms(2) by (auto simp: slots_show_def map_add_def split: option.split)
  qed
  then show ?thesis using k(1) assms(2) by (simp add: py_set_nat slots_show_def)
qed

lemma place_new_all:
  assumes "batch_ok b" "slots_show b ts slots" "distinct (map nr_req_id ds)"
    and "\<forall>d \<in> set ds. nr_req_id d \<in> batch_reqs b \<and> map_of ts (nr_req_id d) = None"
  shows "\<exists>slots'. efold (place_new so b) ds slots = Inr slots' \<and>
    slots_show b (ts @ map (\<lambda>d. (nr_req_id d, new_tokens_of so d)) ds) slots'"
  using assms(2-)
proof (induction ds arbitrary: ts slots)
  case (Cons d ds)
  obtain k where k: "map_of (cb_index b) (nr_req_id d) = Some k" using Cons.prems(3) by auto
  have "nr_req_id d \<notin> nr_req_id ` set ds" using Cons.prems(2) by simp
  then have ne: "nr_req_id d' \<noteq> nr_req_id d" if "d' \<in> set ds" for d' using that by (metis image_eqI)
  have "map_of ts (nr_req_id d) = None" using Cons.prems(3) by simp
  note one = slots_show_set [OF assms(1) Cons.prems(1) k this, of "new_tokens_of so d"]
  have "\<forall>d' \<in> set ds. nr_req_id d' \<in> batch_reqs b \<and>
      map_of (ts @ [(nr_req_id d, new_tokens_of so d)]) (nr_req_id d') = None"
    using ne Cons.prems(3) by (simp add: map_add_def)
  from Cons.IH [OF conjunct2 [OF one] _ this] Cons.prems(2) show ?case
    using one k by (simp add: place_new_def new_tokens_of_def)
qed simp

lemma place_cached_all:
  assumes "batch_ok b" "slots_show b ts slots" "distinct (map cr_req_id ds)"
    and "\<forall>d \<in> set ds. cr_req_id d \<in> batch_reqs b \<and> map_of ts (cr_req_id d) = None \<and>
      (resumed_from_preemption d \<longrightarrow> map_of resumed (cr_req_id d) \<noteq> None)"
  shows "\<exists>slots'. efold (place_cached so resumed b) ds slots = Inr slots' \<and>
    slots_show b (ts @ map (\<lambda>d. (cr_req_id d, cached_tokens_of so resumed d)) ds) slots'"
  using assms(2-)
proof (induction ds arbitrary: ts slots)
  case (Cons d ds)
  obtain k where k: "map_of (cb_index b) (cr_req_id d) = Some k" using Cons.prems(3) by auto
  have "cr_req_id d \<notin> cr_req_id ` set ds" using Cons.prems(2) by simp
  then have ne: "cr_req_id d' \<noteq> cr_req_id d" if "d' \<in> set ds" for d' using that by (metis image_eqI)
  have "map_of ts (cr_req_id d) = None" using Cons.prems(3) by simp
  note one = slots_show_set [OF assms(1) Cons.prems(1) k this, of "cached_tokens_of so resumed d"]
  have "\<forall>d' \<in> set ds. cr_req_id d' \<in> batch_reqs b \<and>
      map_of (ts @ [(cr_req_id d, cached_tokens_of so resumed d)]) (cr_req_id d') = None \<and>
      (resumed_from_preemption d' \<longrightarrow> map_of resumed (cr_req_id d') \<noteq> None)"
    using ne Cons.prems(3) by (simp add: map_add_def)
  from Cons.IH [OF conjunct2 [OF one] _ this] Cons.prems(2) show ?case
    using one k Cons.prems(3) by (auto simp: place_cached_def cached_tokens_of_def split: if_splits)
qed simp

text \<open>The tokens of a batch without gaps, one request after the other.\<close>

definition batch_tokens ::
  "scheduler_output \<Rightarrow> (string \<times> int list) list \<Rightarrow> cpu_batch \<Rightarrow> int list" where
  "batch_tokens so resumed b =
     concat (map (\<lambda>r. the (map_of (step_tokens so resumed) (the r))) (cb_ids b))"

lemma reorder_token_ids_ok:
  assumes "batch_ok b" "batch_reqs b = scheduled_ids so"
    and "distinct (map nr_req_id (so_new_reqs so) @ map cr_req_id (so_cached_reqs so))"
    and "set (map nr_req_id (so_new_reqs so) @ map cr_req_id (so_cached_reqs so)) = scheduled_ids so"
    and "\<forall>d \<in> set (so_cached_reqs so). resumed_from_preemption d \<longrightarrow> map_of resumed (cr_req_id d) \<noteq> None"
  shows "reorder_token_ids b so resumed = Inr (batch_tokens so resumed b)"
proof -
  have n: "cb_num_reqs b = length (cb_ids b)" using holes_count [OF assms(1)] by simp
  have start: "slots_show b [] (replicate (cb_num_reqs b) None)" using n by (simp add: slots_show_def)
  have "\<forall>d \<in> set (so_new_reqs so). nr_req_id d \<in> batch_reqs b \<and> map_of [] (nr_req_id d) = None"
    unfolding assms(2) assms(4) [symmetric] by simp
  from place_new_all [OF assms(1) start _ this, of so] assms(3) obtain slots where
    slots: "efold (place_new so b) (so_new_reqs so) (replicate (cb_num_reqs b) None) = Inr slots"
    "slots_show b (map (\<lambda>d. (nr_req_id d, new_tokens_of so d)) (so_new_reqs so)) slots" by auto
  let ?new = "map (\<lambda>d. (nr_req_id d, new_tokens_of so d)) (so_new_reqs so)"
  have "map_of ?new (cr_req_id d) = None" if "d \<in> set (so_cached_reqs so)" for d
  proof -
    have "cr_req_id d \<notin> nr_req_id ` set (so_new_reqs so)" using assms(3) that by auto
    then show ?thesis by (simp add: map_of_eq_None_iff image_image)
  qed
  then have "\<forall>d \<in> set (so_cached_reqs so). cr_req_id d \<in> batch_reqs b \<and> map_of ?new (cr_req_id d) = None \<and>
      (resumed_from_preemption d \<longrightarrow> map_of resumed (cr_req_id d) \<noteq> None)"
    using assms(5) unfolding assms(2) assms(4) [symmetric] by simp
  from place_cached_all [OF assms(1) slots(2) _ this, of so] assms(3) obtain slots' where
    slots': "efold (place_cached so resumed b) (so_cached_reqs so) slots = Inr slots'"
    "slots_show b (step_tokens so resumed) slots'" by (auto simp: step_tokens_def)
  have "or_empty (slots' ! k) = the (map_of (step_tokens so resumed) (the (cb_ids b ! k)))"
    if k: "k < length (cb_ids b)" for k
  proof -
    obtain r where r: "cb_ids b ! k = Some r" using holes_okD(2) [OF assms(1) k] by auto
    then have "r \<in> scheduled_ids so" using holes_okD(1) [OF assms(1), of r k] k assms(2) by auto
    then have "r \<in> fst ` set (step_tokens so resumed)"
      unfolding assms(4) [symmetric] by (auto simp: step_tokens_def image_Un image_image)
    then obtain ts where "map_of (step_tokens so resumed) r = Some ts"
      by (metis domD dom_map_of_conv_image_fst)
    then show ?thesis using slots'(2) r k by (simp add: slots_show_def or_empty_def)
  qed
  then have "map or_empty slots' = map (\<lambda>r. the (map_of (step_tokens so resumed) (the r))) (cb_ids b)"
    using slots'(2) by (intro nth_equalityI) (auto simp: slots_show_def)
  then show ?thesis using slots(1) slots'(1) by (simp add: reorder_token_ids_def batch_tokens_def)
qed

section \<open>The embeddings of a step\<close>

lemma emap_embed:
  "\<forall>t \<in> set ts. 0 \<le> t \<and> t < py_len rows \<Longrightarrow> emap (py_get rows) ts = Inr (map (\<lambda>t. rows ! nat t) ts)"
  by (induction ts) (auto simp: py_get_nonneg py_len_def)

text \<open>The tokens of a step are in the table of embeddings.\<close>

definition embeddable :: "rat list list \<Rightarrow> scheduler_output \<Rightarrow> (string \<times> int list) list \<Rightarrow> bool" where
  "embeddable embed_tokens so resumed \<longleftrightarrow>
     (\<forall>(r, ts) \<in> set (step_tokens so resumed). \<forall>t \<in> set ts. 0 \<le> t \<and> t < py_len embed_tokens)"

lemma batch_tokens_in_table:
  assumes "batch_ok b" "batch_reqs b = scheduled_ids so" "embeddable embed_tokens so resumed"
    and "set (map nr_req_id (so_new_reqs so) @ map cr_req_id (so_cached_reqs so)) = scheduled_ids so"
    and "t \<in> set (batch_tokens so resumed b)"
  shows "0 \<le> t \<and> t < py_len embed_tokens"
proof -
  from assms(5) obtain x where x: "x \<in> set (cb_ids b)" "t \<in> set (the (map_of (step_tokens so resumed) (the x)))"
    by (auto simp: batch_tokens_def)
  then obtain k where k: "k < length (cb_ids b)" "cb_ids b ! k = x" by (auto simp: in_set_conv_nth)
  then obtain r where r: "x = Some r" using holes_okD(2) [OF assms(1) k(1)] by auto
  then have "r \<in> scheduled_ids so" using holes_okD(1) [OF assms(1), of r k] k assms(2) by auto
  then have "r \<in> fst ` set (step_tokens so resumed)"
    unfolding assms(4) [symmetric] by (auto simp: step_tokens_def image_Un image_image)
  then obtain ts where "map_of (step_tokens so resumed) r = Some ts"
    by (metis domD dom_map_of_conv_image_fst)
  then show ?thesis using assms(3) x(2) r map_of_SomeD by (fastforce simp: embeddable_def)
qed

lemma total_embedding_ok:
  assumes "batch_ok b" "step_output_ok so b" "enum_strings_ok enum"
    and "\<forall>d \<in> set (so_cached_reqs so). resumed_from_preemption d \<longrightarrow> map_of resumed (cr_req_id d) \<noteq> None"
    and "embeddable embed_tokens so resumed"
  shows "\<exists>b'. cpu_update_states enum so b = Inr b' \<and> batch_ok b' \<and> batch_reqs b' = scheduled_ids so \<and>
    cb_max b' = cb_max b \<and>
    total_embedding_process enum embed_tokens resumed so b =
      Inr (so\<lparr>so_embeddings := Some (map (\<lambda>t. embed_tokens ! nat t) (batch_tokens so resumed b'))\<rparr>, b')"
proof -
  from cpu_update_ok [OF assms(1-3)] obtain b' where b': "cpu_update_states enum so b = Inr b'" "batch_ok b'"
    "batch_reqs b' = scheduled_ids so" "cb_max b' = cb_max b" by blast
  have out: "distinct (map nr_req_id (so_new_reqs so) @ map cr_req_id (so_cached_reqs so))"
    "set (map nr_req_id (so_new_reqs so) @ map cr_req_id (so_cached_reqs so)) = scheduled_ids so"
    using assms(2) by (simp_all add: step_output_ok_def)
  note tokens = reorder_token_ids_ok [OF b'(2,3) out assms(4)]
  have "emap (py_get embed_tokens) (batch_tokens so resumed b') =
      Inr (map (\<lambda>t. embed_tokens ! nat t) (batch_tokens so resumed b'))"
    using batch_tokens_in_table [OF b'(2,3) assms(5) out(2)] by (intro emap_embed) blast
  then show ?thesis using b' tokens by (simp add: total_embedding_process_def)
qed

end
