(* ===== verification/InputBatch.thy ===== *)
theory InputBatch
  imports CpuBatch
begin

text \<open>
  The persistent batch of the worker (\<open>spexis/v1/worker/gpu_input_batch.py\<close>) with its block table
  (\<open>spexis/v1/worker/block_table.py\<close>): the operations that add, remove and move a request, and the
  metadata for the sampler.

  The part of the batch that says which request sits where is that of \<open>CpuBatch\<close>. The code keeps
  one array per attribute and one dictionary per optional attribute, all indexed by the request's
  index; here entry \<open>k\<close> of each of them is gathered in row \<open>k\<close>. Every array has \<open>max_num_reqs\<close>
  entries. A list of output token ids is shared between the batch and the cached state of its
  request, and the state appends to it: both hold a reference, an index into \<open>out_heap\<close>.
\<close>

section \<open>Rows\<close>

text \<open>
  Assignment to a slice of a row of a numpy array: the slice is clamped, and the values must be as
  many as its places, or one.
\<close>

definition np_set_slice :: "'a list \<Rightarrow> int \<Rightarrow> int \<Rightarrow> 'a list \<Rightarrow> 'a list res" where
  "np_set_slice xs i j vs =
     (let a = nat (py_clamp (py_len xs) i); b = nat (py_clamp (py_len xs) j); n = b - a in
      if length vs = n then Inr (take a xs @ vs @ drop (a + n) xs)
      else if length vs = 1 then Inr (take a xs @ replicate n (hd vs) @ drop (a + n) xs)
      else Inl ValueError)"

record gpu_row =
  rw_tokens :: "int list"
  rw_num_tokens :: int
  rw_num_tokens_no_spec :: int
  rw_num_prompt_tokens :: int
  rw_num_computed :: int
  rw_blocks :: "nat list"
  rw_num_blocks :: int
  rw_temperature :: rat
  rw_top_p :: rat
  rw_top_k :: int
  rw_min_p :: rat
  rw_frequency :: rat
  rw_presence :: rat
  rw_repetition :: rat
  rw_min_tokens :: "(int \<times> int set) option"
  rw_lora :: int
  rw_generator :: "int option"
  rw_logit_bias :: "(int \<times> rat) list option"
  rw_mask :: "bool list"
  rw_bad_words :: "int list list option"

text \<open>The block table.\<close>

definition bt_append_row :: "nat list \<Rightarrow> gpu_row \<Rightarrow> gpu_row res" where
  "bt_append_row blocks w =
     (if blocks = [] then Inr w
      else (let start = rw_num_blocks w; n = py_len blocks in
            ebind (np_set_slice (rw_blocks w) start (start + n) blocks) (\<lambda>bs.
            Inr (w\<lparr>rw_num_blocks := start + n, rw_blocks := bs\<rparr>))))"

definition bt_add_row :: "nat list \<Rightarrow> gpu_row \<Rightarrow> gpu_row res" where
  "bt_add_row blocks w = bt_append_row blocks (w\<lparr>rw_num_blocks := 0\<rparr>)"

definition bt_move_row :: "gpu_row \<Rightarrow> gpu_row \<Rightarrow> gpu_row res" where
  "bt_move_row src tgt =
     (let n = rw_num_blocks src in
      ebind (np_set_slice (rw_blocks tgt) 0 n (py_upto (rw_blocks src) n)) (\<lambda>bs.
      Inr (tgt\<lparr>rw_blocks := bs, rw_num_blocks := n\<rparr>)))"

section \<open>Requests and the batch\<close>

record cached_state =
  cs_req_id :: string
  cs_prompt_token_ids :: "int list"
  cs_params :: sampling_params
  cs_generator :: "int option"
  cs_block_ids :: "nat list"
  cs_num_computed_tokens :: int
  cs_output :: nat
  cs_lora_request :: "int option"

type_synonym out_heap = "int list list"

definition cs_output_ids :: "out_heap \<Rightarrow> cached_state \<Rightarrow> int list" where
  "cs_output_ids h c = h ! cs_output c"

definition cs_num_tokens :: "out_heap \<Rightarrow> cached_state \<Rightarrow> int" where
  "cs_num_tokens h c = py_len (cs_prompt_token_ids c) + py_len (cs_output_ids h c)"

record gpu_batch =
  gb_slots :: cpu_batch
  gb_vocab_size :: int
  gb_rows :: "gpu_row list"
  gb_outputs :: "nat option list"
  gb_mask_allocated :: bool
  gb_greedy :: "string set"
  gb_random :: "string set"
  gb_top_p :: "string set"
  gb_top_k :: "string set"
  gb_min_p :: "string set"
  gb_frequency :: "string set"
  gb_presence :: "string set"
  gb_repetition :: "string set"
  gb_has_allowed :: "string set"
  gb_num_logprobs :: "string \<Rightarrow> count_arg option"
  gb_num_prompt_logprobs :: "string \<Rightarrow> count_arg option"
  gb_in_progress_prompt_logprobs :: "string set"
  gb_lora_requests_of :: "int \<Rightarrow> string set option"
  gb_lora_request :: "int \<Rightarrow> int option"

definition empty_row :: "nat \<Rightarrow> nat \<Rightarrow> nat \<Rightarrow> gpu_row" where
  "empty_row max_len max_blocks vocab =
     \<lparr>rw_tokens = replicate max_len 0, rw_num_tokens = 0, rw_num_tokens_no_spec = 0,
      rw_num_prompt_tokens = 0, rw_num_computed = 0, rw_blocks = replicate max_blocks 0,
      rw_num_blocks = 0, rw_temperature = 0, rw_top_p = 0, rw_top_k = 0, rw_min_p = 0,
      rw_frequency = 0, rw_presence = 0, rw_repetition = 0, rw_min_tokens = None, rw_lora = 0,
      rw_generator = None, rw_logit_bias = None, rw_mask = replicate vocab False,
      rw_bad_words = None\<rparr>"

definition init_gpu_batch :: "nat \<Rightarrow> nat \<Rightarrow> nat \<Rightarrow> nat \<Rightarrow> gpu_batch" where
  "init_gpu_batch max_reqs max_len max_blocks vocab =
     \<lparr>gb_slots = init_cpu_batch max_reqs, gb_vocab_size = int vocab,
      gb_rows = replicate max_reqs (empty_row max_len max_blocks vocab), gb_outputs = [],
      gb_mask_allocated = False, gb_greedy = {}, gb_random = {}, gb_top_p = {}, gb_top_k = {},
      gb_min_p = {}, gb_frequency = {}, gb_presence = {}, gb_repetition = {}, gb_has_allowed = {},
      gb_num_logprobs = Map.empty, gb_num_prompt_logprobs = Map.empty,
      gb_in_progress_prompt_logprobs = {}, gb_lora_requests_of = Map.empty,
      gb_lora_request = Map.empty\<rparr>"

section \<open>Adding a request\<close>

text \<open>The token ids and block ids of a request in its row.\<close>

definition fill_tokens :: "out_heap \<Rightarrow> cached_state \<Rightarrow> gpu_row \<Rightarrow> gpu_row res" where
  "fill_tokens h c w =
     (let n = py_len (cs_prompt_token_ids c); out = cs_output_ids h c in
      ebind (np_set_slice (rw_tokens w) 0 n (cs_prompt_token_ids c)) (\<lambda>ts.
      ebind (np_set_slice ts n (n + py_len out) out) (\<lambda>ts'.
      bt_add_row (cs_block_ids c)
        (w\<lparr>rw_num_prompt_tokens := n, rw_tokens := ts', rw_num_tokens := cs_num_tokens h c,
           rw_num_tokens_no_spec := cs_num_tokens h c,
           rw_num_computed := cs_num_computed_tokens c\<rparr>))))"

definition sampling_eps :: rat where
  "sampling_eps = 1 / 100000"

definition top_k_set :: "int \<Rightarrow> sampling_params \<Rightarrow> bool" where
  "top_k_set vocab p \<longleftrightarrow> 0 < sp_top_k p \<and> sp_top_k p < vocab"

definition fill_mask :: "sampling_params \<Rightarrow> bool list \<Rightarrow> bool list res" where
  "fill_mask p ms =
     (case sp_allowed_token_ids p of
        None \<Rightarrow> Inr ms
      | Some ids \<Rightarrow> if ids = [] then Inr ms
          else efold (\<lambda>i m. py_set m i False) ids (replicate (length ms) True))"

definition fill_sampling :: "int \<Rightarrow> cached_state \<Rightarrow> gpu_row \<Rightarrow> gpu_row res" where
  "fill_sampling vocab c w =
     (let p = cs_params c in
      ebind (fill_mask p (rw_mask w)) (\<lambda>ms.
      Inr (w\<lparr>rw_temperature := (if sampling_type_of p = GREEDY then - 1 else temperature p),
             rw_top_p := sp_top_p p,
             rw_top_k := (if top_k_set vocab p then sp_top_k p else vocab),
             rw_min_p := sp_min_p p,
             rw_frequency := frequency_penalty p,
             rw_presence := presence_penalty p,
             rw_repetition := repetition_penalty p,
             rw_min_tokens := (if sp_min_tokens p \<noteq> 0
                               then Some (sp_min_tokens p, all_stop_token_ids p) else rw_min_tokens w),
             rw_generator := (if cs_generator c \<noteq> None then cs_generator c else rw_generator w),
             rw_logit_bias := (if sp_logit_bias p \<noteq> None then sp_logit_bias p else rw_logit_bias w),
             rw_mask := ms,
             rw_bad_words := (if or_default [] (sp_bad_words_token_ids p) \<noteq> []
                              then sp_bad_words_token_ids p else rw_bad_words w),
             rw_lora := (case cs_lora_request c of Some l \<Rightarrow> l | None \<Rightarrow> 0)\<rparr>)))"

text \<open>The sets of request ids that tell which sampling step is needed at all.\<close>

definition join :: "bool \<Rightarrow> string \<Rightarrow> string set \<Rightarrow> string set" where
  "join b r A = (if b then insert r A else A)"

definition register_sampling :: "cached_state \<Rightarrow> gpu_batch \<Rightarrow> gpu_batch" where
  "register_sampling c g =
     (let r = cs_req_id c; p = cs_params c; greedy = (sampling_type_of p = GREEDY);
          allowed = (or_default [] (sp_allowed_token_ids p) \<noteq> []) in
      g\<lparr>gb_greedy := join greedy r (gb_greedy g),
        gb_random := join (\<not> greedy) r (gb_random g),
        gb_top_p := join (sp_top_p p < 1) r (gb_top_p g),
        gb_top_k := join (top_k_set (gb_vocab_size g) p) r (gb_top_k g),
        gb_min_p := join (sampling_eps < sp_min_p p) r (gb_min_p g),
        gb_frequency := join (frequency_penalty p \<noteq> 0) r (gb_frequency g),
        gb_presence := join (presence_penalty p \<noteq> 0) r (gb_presence g),
        gb_repetition := join (repetition_penalty p \<noteq> 1) r (gb_repetition g),
        gb_has_allowed := join allowed r (gb_has_allowed g),
        gb_mask_allocated := gb_mask_allocated g \<or> allowed,
        gb_num_logprobs := (if logprobs_param p \<noteq> None
            then (gb_num_logprobs g)(r := logprobs_param p) else gb_num_logprobs g),
        gb_num_prompt_logprobs := (if prompt_logprobs p \<noteq> None
            then (gb_num_prompt_logprobs g)(r := prompt_logprobs p) else gb_num_prompt_logprobs g)\<rparr>)"

definition register_lora :: "cached_state \<Rightarrow> gpu_batch \<Rightarrow> gpu_batch" where
  "register_lora c g =
     (case cs_lora_request c of
        None \<Rightarrow> g
      | Some l \<Rightarrow>
          g\<lparr>gb_lora_requests_of := (gb_lora_requests_of g)
              (l \<mapsto> insert (cs_req_id c) (or_default {} (gb_lora_requests_of g l))),
            gb_lora_request := (gb_lora_request g)(l \<mapsto> l)\<rparr>)"

definition gpu_add :: "out_heap \<Rightarrow> cached_state \<Rightarrow> nat option \<Rightarrow> gpu_batch \<Rightarrow> gpu_batch res" where
  "gpu_add h c ix g =
     (let k = (case ix of None \<Rightarrow> cb_num_reqs (gb_slots g) | Some k \<Rightarrow> k) in
      ebind (cpu_add (cs_req_id c) ix (gb_slots g)) (\<lambda>slots.
      ebind (if k = length (cb_ids (gb_slots g)) then Inr (gb_outputs g @ [Some (cs_output c)])
             else py_set (gb_outputs g) (int k) (Some (cs_output c))) (\<lambda>outputs.
      ebind (py_get (gb_rows g) (int k)) (\<lambda>w.
      ebind (fill_tokens h c w) (\<lambda>w1.
      ebind (fill_sampling (gb_vocab_size g) c w1) (\<lambda>w2.
      Inr (register_lora c (register_sampling c
             (g\<lparr>gb_slots := slots, gb_outputs := outputs, gb_rows := (gb_rows g)[k := w2]\<rparr>)))))))))"

section \<open>Removing a request\<close>

definition leave_sampling :: "string \<Rightarrow> gpu_batch \<Rightarrow> gpu_batch" where
  "leave_sampling r g =
     g\<lparr>gb_greedy := gb_greedy g - {r}, gb_random := gb_random g - {r},
       gb_top_p := gb_top_p g - {r}, gb_top_k := gb_top_k g - {r}, gb_min_p := gb_min_p g - {r},
       gb_frequency := gb_frequency g - {r}, gb_presence := gb_presence g - {r},
       gb_repetition := gb_repetition g - {r}, gb_has_allowed := gb_has_allowed g - {r},
       gb_num_logprobs := (gb_num_logprobs g)(r := None),
       gb_num_prompt_logprobs := (gb_num_prompt_logprobs g)(r := None),
       gb_in_progress_prompt_logprobs := gb_in_progress_prompt_logprobs g - {r}\<rparr>"

definition leave_lora :: "string \<Rightarrow> int \<Rightarrow> gpu_batch \<Rightarrow> gpu_batch res" where
  "leave_lora r l g =
     (if l = 0 then Inr g
      else case gb_lora_requests_of g l of
          None \<Rightarrow> Inl KeyError
        | Some rs \<Rightarrow>
            if rs - {r} \<noteq> {} then Inr (g\<lparr>gb_lora_requests_of := (gb_lora_requests_of g)(l \<mapsto> rs - {r})\<rparr>)
            else if gb_lora_request g l = None then Inl KeyError
            else Inr (g\<lparr>gb_lora_requests_of := (gb_lora_requests_of g)(l := None),
                        gb_lora_request := (gb_lora_request g)(l := None)\<rparr>))"

definition clear_row :: "bool \<Rightarrow> gpu_row \<Rightarrow> gpu_row" where
  "clear_row mask_allocated w =
     w\<lparr>rw_min_tokens := None, rw_generator := None, rw_lora := 0, rw_logit_bias := None,
       rw_mask := (if mask_allocated then replicate (length (rw_mask w)) False else rw_mask w),
       rw_bad_words := None\<rparr>"

definition gpu_remove :: "string \<Rightarrow> gpu_batch \<Rightarrow> (nat option \<times> gpu_batch) res" where
  "gpu_remove r g =
     ebind (cpu_remove r (gb_slots g)) (\<lambda>(ix, slots).
     case ix of
       None \<Rightarrow> Inr (None, g)
     | Some k \<Rightarrow>
         ebind (py_set (gb_outputs g) (int k) None) (\<lambda>outputs.
         ebind (py_get (gb_rows g) (int k)) (\<lambda>w.
         ebind (leave_lora r (rw_lora w) (leave_sampling r
                  (g\<lparr>gb_slots := slots, gb_outputs := outputs\<rparr>))) (\<lambda>g'.
         Inr (Some k, g'\<lparr>gb_rows := (gb_rows g')[k := clear_row (gb_mask_allocated g) w]\<rparr>)))))"

section \<open>Condensing\<close>

text \<open>
  Moving a request from index \<open>src\<close> to the empty index \<open>tgt\<close>: only the used part of its token ids
  and blocks is copied, and the optional attributes move only when they are present.
\<close>

definition move_into :: "bool \<Rightarrow> gpu_row \<Rightarrow> gpu_row \<Rightarrow> gpu_row res" where
  "move_into mask_allocated s t =
     (let n = rw_num_tokens s in
      ebind (np_set_slice (rw_tokens t) 0 n (py_upto (rw_tokens s) n)) (\<lambda>ts.
      ebind (bt_move_row s (t\<lparr>rw_tokens := ts, rw_num_tokens := n,
               rw_num_tokens_no_spec := rw_num_tokens_no_spec s,
               rw_num_prompt_tokens := rw_num_prompt_tokens s,
               rw_num_computed := rw_num_computed s\<rparr>)) (\<lambda>t'.
      Inr (t'\<lparr>rw_temperature := rw_temperature s, rw_top_p := rw_top_p s, rw_top_k := rw_top_k s,
              rw_frequency := rw_frequency s, rw_presence := rw_presence s,
              rw_repetition := rw_repetition s, rw_min_p := rw_min_p s,
              rw_generator := (if rw_generator s \<noteq> None then rw_generator s else rw_generator t),
              rw_min_tokens := (if rw_min_tokens s \<noteq> None then rw_min_tokens s else rw_min_tokens t),
              rw_lora := rw_lora s,
              rw_logit_bias := rw_logit_bias s,
              rw_mask := (if mask_allocated then rw_mask s else rw_mask t),
              rw_bad_words := (if rw_bad_words s \<noteq> None then rw_bad_words s else rw_bad_words t)\<rparr>))))"

text \<open>What is left at the index the request has moved away from.\<close>

definition vacate_row :: "gpu_row \<Rightarrow> gpu_row" where
  "vacate_row w = w\<lparr>rw_generator := None, rw_min_tokens := None, rw_bad_words := None\<rparr>"

definition gpu_move :: "nat \<Rightarrow> nat \<Rightarrow> gpu_batch \<Rightarrow> gpu_batch res" where
  "gpu_move src tgt g =
     ebind (cpu_move src tgt (gb_slots g)) (\<lambda>slots.
     ebind (py_get (gb_outputs g) (int src)) (\<lambda>out.
     ebind (py_set (gb_outputs g) (int tgt) out) (\<lambda>outs.
     ebind (py_set outs (int src) None) (\<lambda>outs'.
     ebind (py_get (gb_rows g) (int src)) (\<lambda>s.
     ebind (py_get (gb_rows g) (int tgt)) (\<lambda>t.
     ebind (move_into (gb_mask_allocated g) s t) (\<lambda>t'.
     Inr (g\<lparr>gb_slots := slots, gb_outputs := outs',
            gb_rows := (gb_rows g)[tgt := t', src := vacate_row s]\<rparr>))))))))"

definition gpu_condense :: "nat list \<Rightarrow> gpu_batch \<Rightarrow> gpu_batch res" where
  "gpu_condense es g =
     (let n = cb_num_reqs (gb_slots g) in
      if n = 0 then Inr (g\<lparr>gb_slots := (gb_slots g)\<lparr>cb_ids := []\<rparr>, gb_outputs := []\<rparr>)
      else ebind (condense_loop gpu_move es (int n + int (length es) - 1) g)
             (\<lambda>g'. Inr (g'\<lparr>gb_slots := cpu_trim (gb_slots g'),
                           gb_outputs := take (cb_num_reqs (gb_slots g')) (gb_outputs g')\<rparr>)))"

section \<open>Swapping two requests\<close>

text \<open>
  Two rows trade places, but for the mask: its rows are views of one tensor, so that the second
  assignment reads what the first has written.
\<close>

definition swap_rows :: "nat \<Rightarrow> nat \<Rightarrow> bool \<Rightarrow> gpu_row list \<Rightarrow> gpu_row list" where
  "swap_rows i j mask_allocated rows =
     (let a = rows ! i; b = rows ! j in
      rows[i := b, j := a\<lparr>rw_mask := (if mask_allocated then rw_mask b else rw_mask a)\<rparr>])"

definition gpu_swap :: "nat \<Rightarrow> nat \<Rightarrow> gpu_batch \<Rightarrow> gpu_batch res" where
  "gpu_swap i j g =
     (let b = gb_slots g in
      ebind (py_get (cb_ids b) (int i)) (\<lambda>ri.
      ebind (py_get (cb_ids b) (int j)) (\<lambda>rj.
      ebind (py_get (gb_outputs g) (int i)) (\<lambda>oi.
      ebind (py_get (gb_outputs g) (int j)) (\<lambda>oj.
      case (ri, rj) of
        (Some r, Some q) \<Rightarrow>
          (case (map_of (cb_index b) r, map_of (cb_index b) q) of
             (Some kr, Some kq) \<Rightarrow>
               Inr (g\<lparr>gb_slots := b\<lparr>cb_ids := (cb_ids b)[i := Some q, j := Some r],
                       cb_index := AList.update q kr (AList.update r kq (cb_index b))\<rparr>,
                     gb_outputs := (gb_outputs g)[i := oj, j := oi],
                     gb_rows := swap_rows i j (gb_mask_allocated g) (gb_rows g)\<rparr>)
           | _ \<Rightarrow> Inl KeyError)
      | _ \<Rightarrow> Inl AssertionError)))))"

section \<open>Metadata for the sampler\<close>

definition all_greedy :: "gpu_batch \<Rightarrow> bool" where
  "all_greedy g \<longleftrightarrow> gb_random g = {}"

definition all_random :: "gpu_batch \<Rightarrow> bool" where
  "all_random g \<longleftrightarrow> gb_greedy g = {}"

definition no_top_p :: "gpu_batch \<Rightarrow> bool" where
  "no_top_p g \<longleftrightarrow> gb_top_p g = {}"

definition no_top_k :: "gpu_batch \<Rightarrow> bool" where
  "no_top_k g \<longleftrightarrow> gb_top_k g = {}"

definition no_min_p :: "gpu_batch \<Rightarrow> bool" where
  "no_min_p g \<longleftrightarrow> gb_min_p g = {}"

definition no_penalties :: "gpu_batch \<Rightarrow> bool" where
  "no_penalties g \<longleftrightarrow> gb_presence g = {} \<and> gb_frequency g = {} \<and> gb_repetition g = {}"

definition no_allowed_token_ids :: "gpu_batch \<Rightarrow> bool" where
  "no_allowed_token_ids g \<longleftrightarrow> gb_has_allowed g = {}"

text \<open>One row of prompt token ids, padded with a token id that does not exist.\<close>

definition prompt_row :: "int \<Rightarrow> int \<Rightarrow> gpu_row \<Rightarrow> int list" where
  "prompt_row vocab width w =
     (let ts = py_upto (rw_tokens w) width; n = length (py_upto ts (rw_num_prompt_tokens w))
      in take n ts @ replicate (length ts - n) vocab)"

definition make_prompt_token_ids :: "gpu_batch \<Rightarrow> int list list res" where
  "make_prompt_token_ids g =
     (let rows = take (cb_num_reqs (gb_slots g)) (gb_rows g) in
      if rows = [] then Inl ValueError
      else Inr (map (prompt_row (gb_vocab_size g) (Max (set (map rw_num_prompt_tokens rows)))) rows))"

record sampling_metadata =
  sm_temperature :: "rat list option"
  sm_all_greedy :: bool
  sm_all_random :: bool
  sm_top_p :: "rat list option"
  sm_top_k :: "int list option"
  sm_min_p :: "rat list option"
  sm_prompt_token_ids :: "int list list option"
  sm_penalties :: "(rat list \<times> rat list \<times> rat list) option"
  sm_output_token_ids :: "nat option list"
  sm_logit_bias :: "(int \<times> rat) list option list"
  sm_mask :: "bool list list option"

text \<open>
  A column of the device is filled only when it is needed; one that is not needed is \<open>None\<close> here
  (the code passes penalties on unfilled, and nobody reads them).
\<close>

definition make_sampling_metadata :: "gpu_batch \<Rightarrow> sampling_metadata res" where
  "make_sampling_metadata g =
     (let rows = take (cb_num_reqs (gb_slots g)) (gb_rows g) in
      ebind (if no_penalties g then Inr None
             else ebind (make_prompt_token_ids g) (\<lambda>ts. Inr (Some ts))) (\<lambda>prompts.
      ebind (py_assert (\<not> no_allowed_token_ids g \<longrightarrow> gb_mask_allocated g)) (\<lambda>_.
      Inr \<lparr>sm_temperature = (if all_greedy g then None else Some (map rw_temperature rows)),
           sm_all_greedy = all_greedy g, sm_all_random = all_random g,
           sm_top_p = (if no_top_p g then None else Some (map rw_top_p rows)),
           sm_top_k = (if no_top_k g then None else Some (map rw_top_k rows)),
           sm_min_p = (if no_min_p g then None else Some (map rw_min_p rows)),
           sm_prompt_token_ids = prompts,
           sm_penalties = (if no_penalties g then None
               else Some (map rw_frequency rows, map rw_presence rows, map rw_repetition rows)),
           sm_output_token_ids = gb_outputs g,
           sm_logit_bias = map rw_logit_bias rows,
           sm_mask = (if no_allowed_token_ids g then None else Some (map rw_mask rows))\<rparr>)))"

lemma metadata_fields:
  assumes "make_sampling_metadata g = Inr m"
  defines "rows \<equiv> take (cb_num_reqs (gb_slots g)) (gb_rows g)"
  shows "sm_temperature m = (if all_greedy g then None else Some (map rw_temperature rows))"
    "sm_all_greedy m = all_greedy g" "sm_all_random m = all_random g"
    "sm_top_p m = (if no_top_p g then None else Some (map rw_top_p rows))"
    "sm_top_k m = (if no_top_k g then None else Some (map rw_top_k rows))"
    "sm_min_p m = (if no_min_p g then None else Some (map rw_min_p rows))"
    "sm_penalties m = (if no_penalties g then None
       else Some (map rw_frequency rows, map rw_presence rows, map rw_repetition rows))"
    "sm_output_token_ids m = gb_outputs g" "sm_logit_bias m = map rw_logit_bias rows"
    "sm_mask m = (if no_allowed_token_ids g then None else Some (map rw_mask rows))"
proof -
  from assms(1) obtain prompts where m: "m = \<lparr>sm_temperature = (if all_greedy g then None else Some (map rw_temperature rows)),
           sm_all_greedy = all_greedy g, sm_all_random = all_random g,
           sm_top_p = (if no_top_p g then None else Some (map rw_top_p rows)),
           sm_top_k = (if no_top_k g then None else Some (map rw_top_k rows)),
           sm_min_p = (if no_min_p g then None else Some (map rw_min_p rows)),
           sm_prompt_token_ids = prompts,
           sm_penalties = (if no_penalties g then None
               else Some (map rw_frequency rows, map rw_presence rows, map rw_repetition rows)),
           sm_output_token_ids = gb_outputs g,
           sm_logit_bias = map rw_logit_bias rows,
           sm_mask = (if no_allowed_token_ids g then None else Some (map rw_mask rows))\<rparr>"
    unfolding make_sampling_metadata_def Let_def rows_def [symmetric] ebind_eq_Inr by blast
  show "sm_temperature m = (if all_greedy g then None else Some (map rw_temperature rows))"
    "sm_all_greedy m = all_greedy g" "sm_all_random m = all_random g"
    "sm_top_p m = (if no_top_p g then None else Some (map rw_top_p rows))"
    "sm_top_k m = (if no_top_k g then None else Some (map rw_top_k rows))"
    "sm_min_p m = (if no_min_p g then None else Some (map rw_min_p rows))"
    "sm_penalties m = (if no_penalties g then None
       else Some (map rw_frequency rows, map rw_presence rows, map rw_repetition rows))"
    "sm_output_token_ids m = gb_outputs g" "sm_logit_bias m = map rw_logit_bias rows"
    "sm_mask m = (if no_allowed_token_ids g then None else Some (map rw_mask rows))"
    unfolding m sampling_metadata.simps by (rule refl)+
qed

end
