(* ===== verification/BatchRows.thy ===== *)
theory BatchRows
  imports InputBatch
begin

text \<open>
  What the rows of the worker's batch hold: the invariant of the batch, and that adding, removing
  and moving requests keep it. The batch is looked at through \<open>view\<close>, the row of each request,
  whatever the index it sits at.
\<close>

section \<open>Slices\<close>

lemma py_clamp_nat: "n \<le> length xs \<Longrightarrow> nat (py_clamp (py_len xs) (int n)) = n"
  by (simp add: py_clamp_def py_len_def)

lemma np_set_slice_nat:
  assumes "n + length vs \<le> length xs"
  shows "np_set_slice xs (int n) (int n + py_len vs) vs =
    Inr (take n xs @ vs @ drop (n + length vs) xs)"
proof -
  have "nat (py_clamp (py_len xs) (int n)) = n" using assms by (intro py_clamp_nat) simp
  moreover have "nat (py_clamp (py_len xs) (int n + py_len vs)) = n + length vs"
    using py_clamp_nat [OF assms] by (simp add: py_len_def)
  ultimately show ?thesis by (simp add: np_set_slice_def Let_def)
qed

lemma np_set_slice_0:
  assumes "length vs \<le> length xs" "n = py_len vs"
  shows "np_set_slice xs 0 n vs = Inr (vs @ drop (length vs) xs)"
  using np_set_slice_nat [of 0 vs xs] assms by simp

lemma py_upto_nat [simp]: "py_upto xs (int n) = take n xs"
  by (cases "n \<le> length xs") (simp_all add: py_upto_def py_clamp_def min_def)

section \<open>What a row shows\<close>

definition row_wf :: "nat \<Rightarrow> nat \<Rightarrow> int \<Rightarrow> gpu_row \<Rightarrow> bool" where
  "row_wf L B V w \<longleftrightarrow>
     length (rw_tokens w) = L \<and> length (rw_blocks w) = B \<and> length (rw_mask w) = nat V"

definition vacant :: "gpu_row \<Rightarrow> bool" where
  "vacant w \<longleftrightarrow> rw_generator w = None \<and> rw_min_tokens w = None \<and> rw_bad_words w = None"

definition cs_tokens :: "out_heap \<Rightarrow> cached_state \<Rightarrow> int list" where
  "cs_tokens h c = cs_prompt_token_ids c @ cs_output_ids h c"

text \<open>
  The first \<open>num_tokens_no_spec\<close> token ids are those of the request, and the blocks are its blocks.
  A request in the middle of its prompt may show a part of its tokens only.
\<close>

definition tokens_show :: "out_heap \<Rightarrow> cached_state \<Rightarrow> gpu_row \<Rightarrow> bool" where
  "tokens_show h c w \<longleftrightarrow>
     0 \<le> rw_num_tokens_no_spec w \<and> rw_num_tokens_no_spec w \<le> rw_num_tokens w \<and>
     rw_num_tokens w \<le> py_len (rw_tokens w) \<and>
     rw_num_tokens_no_spec w \<le> py_len (cs_tokens h c) \<and>
     take (nat (rw_num_tokens_no_spec w)) (rw_tokens w) =
       take (nat (rw_num_tokens_no_spec w)) (cs_tokens h c) \<and>
     rw_num_prompt_tokens w = py_len (cs_prompt_token_ids c) \<and>
     rw_num_computed w = cs_num_computed_tokens c \<and>
     rw_num_blocks w = py_len (cs_block_ids c) \<and> length (cs_block_ids c) \<le> length (rw_blocks w) \<and>
     take (length (cs_block_ids c)) (rw_blocks w) = cs_block_ids c"

definition mask_of :: "int \<Rightarrow> int list \<Rightarrow> bool list" where
  "mask_of V ids = map (\<lambda>i. int i \<notin> set ids) [0..<nat V]"

definition allowed_ids :: "cached_state \<Rightarrow> int list" where
  "allowed_ids c = or_default [] (sp_allowed_token_ids (cs_params c))"

definition sampling_shows :: "int \<Rightarrow> cached_state \<Rightarrow> gpu_row \<Rightarrow> bool" where
  "sampling_shows V c w \<longleftrightarrow> (let p = cs_params c in
     rw_temperature w = (if sampling_type_of p = GREEDY then - 1 else temperature p) \<and>
     rw_top_p w = sp_top_p p \<and> rw_top_k w = (if top_k_set V p then sp_top_k p else V) \<and>
     rw_min_p w = sp_min_p p \<and> rw_frequency w = frequency_penalty p \<and>
     rw_presence w = presence_penalty p \<and> rw_repetition w = repetition_penalty p \<and>
     rw_min_tokens w = (if sp_min_tokens p \<noteq> 0 then Some (sp_min_tokens p, all_stop_token_ids p) else None) \<and>
     rw_generator w = cs_generator c \<and>
     rw_bad_words w = (if or_default [] (sp_bad_words_token_ids p) \<noteq> []
                       then sp_bad_words_token_ids p else None) \<and>
     rw_lora w = (case cs_lora_request c of Some l \<Rightarrow> l | None \<Rightarrow> 0) \<and>
     (sp_logit_bias p \<noteq> None \<longrightarrow> rw_logit_bias w = sp_logit_bias p) \<and>
     (allowed_ids c \<noteq> [] \<longrightarrow> rw_mask w = mask_of V (allowed_ids c)))"

definition row_shows :: "out_heap \<Rightarrow> int \<Rightarrow> cached_state \<Rightarrow> gpu_row \<Rightarrow> bool" where
  "row_shows h V c w \<longleftrightarrow> tokens_show h c w \<and> sampling_shows V c w"

text \<open>A request that fits a row.\<close>

definition request_fits :: "nat \<Rightarrow> nat \<Rightarrow> int \<Rightarrow> out_heap \<Rightarrow> cached_state \<Rightarrow> bool" where
  "request_fits L B V h c \<longleftrightarrow>
     length (cs_tokens h c) \<le> L \<and> length (cs_block_ids c) \<le> B \<and>
     (\<forall>i \<in> set (allowed_ids c). 0 \<le> i \<and> i < V)"

section \<open>Filling a row\<close>

lemma bt_append_row_ok:
  assumes "rw_num_blocks w = int n" "n + length bs \<le> length (rw_blocks w)"
  shows "\<exists>bs'. bt_append_row bs w = Inr (w\<lparr>rw_num_blocks := int n + py_len bs, rw_blocks := bs'\<rparr>) \<and>
    length bs' = length (rw_blocks w) \<and> take (n + length bs) bs' = take n (rw_blocks w) @ bs"
proof (cases "bs = []")
  case True
  then show ?thesis using assms by (intro exI [of _ "rw_blocks w"]) (simp add: bt_append_row_def)
next
  case False
  let ?bs = "take n (rw_blocks w) @ bs @ drop (n + length bs) (rw_blocks w)"
  have "bt_append_row bs w = Inr (w\<lparr>rw_num_blocks := int n + py_len bs, rw_blocks := ?bs\<rparr>)"
    using False assms(1) np_set_slice_nat [OF assms(2)] by (simp add: bt_append_row_def Let_def)
  moreover have "length ?bs = length (rw_blocks w)" using assms(2) by simp
  ultimately show ?thesis using assms(2) by (intro exI [of _ ?bs]) simp
qed

lemma fill_tokens_ok:
  assumes "row_wf L B V w" "request_fits L B V h c"
  shows "\<exists>ts bs. let n = py_len (cs_tokens h c) in
    fill_tokens h c w = Inr (w\<lparr>rw_num_prompt_tokens := py_len (cs_prompt_token_ids c), rw_tokens := ts,
      rw_num_tokens := n, rw_num_tokens_no_spec := n, rw_num_computed := cs_num_computed_tokens c,
      rw_num_blocks := py_len (cs_block_ids c), rw_blocks := bs\<rparr>) \<and>
    length ts = L \<and> take (length (cs_tokens h c)) ts = cs_tokens h c \<and> length bs = B \<and>
    take (length (cs_block_ids c)) bs = cs_block_ids c"
proof -
  let ?p = "cs_prompt_token_ids c" and ?o = "cs_output_ids h c"
  have len: "length ?p + length ?o \<le> length (rw_tokens w)" "length (cs_block_ids c) \<le> length (rw_blocks w)"
    using assms by (simp_all add: row_wf_def request_fits_def cs_tokens_def)
  let ?ts = "?p @ drop (length ?p) (rw_tokens w)"
  let ?us = "?p @ ?o @ drop (length ?p + length ?o) ?ts"
  have "np_set_slice (rw_tokens w) 0 (py_len ?p) ?p = Inr ?ts"
    using len(1) by (intro np_set_slice_0) simp_all
  moreover have "np_set_slice ?ts (py_len ?p) (py_len ?p + py_len ?o) ?o = Inr ?us"
    using np_set_slice_nat [of "length ?p" ?o ?ts] len(1) by (simp add: py_len_def)
  moreover have n: "cs_num_tokens h c = py_len (cs_tokens h c)"
    by (simp add: cs_num_tokens_def cs_tokens_def)
  moreover obtain bs where
    "bt_append_row (cs_block_ids c) (w\<lparr>rw_num_prompt_tokens := py_len ?p, rw_tokens := ?us,
        rw_num_tokens := py_len (cs_tokens h c), rw_num_tokens_no_spec := py_len (cs_tokens h c),
        rw_num_computed := cs_num_computed_tokens c, rw_num_blocks := 0\<rparr>) =
      Inr (w\<lparr>rw_num_prompt_tokens := py_len ?p, rw_tokens := ?us,
        rw_num_tokens := py_len (cs_tokens h c), rw_num_tokens_no_spec := py_len (cs_tokens h c),
        rw_num_computed := cs_num_computed_tokens c,
        rw_num_blocks := py_len (cs_block_ids c), rw_blocks := bs\<rparr>)"
    "length bs = length (rw_blocks w)" "take (length (cs_block_ids c)) bs = cs_block_ids c"
    using bt_append_row_ok [of "w\<lparr>rw_num_prompt_tokens := py_len ?p, rw_tokens := ?us,
        rw_num_tokens := py_len (cs_tokens h c), rw_num_tokens_no_spec := py_len (cs_tokens h c),
        rw_num_computed := cs_num_computed_tokens c, rw_num_blocks := 0\<rparr>" 0 "cs_block_ids c"] len(2)
    by auto
  moreover have "length ?us = length (rw_tokens w)" using len(1) by simp
  moreover have "take (length (cs_tokens h c)) ?us = cs_tokens h c" by (simp add: cs_tokens_def)
  ultimately show ?thesis using assms(1)
    by (intro exI [of _ ?us] exI [of _ bs]) (simp add: fill_tokens_def bt_add_row_def row_wf_def Let_def)
qed

lemma fill_mask_ok:
  assumes "\<forall>i \<in> set ids. 0 \<le> i \<and> i < V"
  shows "efold (\<lambda>i m. py_set m i False) ids (replicate (nat V) True) = Inr (mask_of V ids)"
proof -
  have "efold (\<lambda>i m. py_set m i False) ids m = Inr (map (\<lambda>i. m ! i \<and> int i \<notin> set ids) [0..<nat V])"
    if "length m = nat V" for m
    using assms that
  proof (induction ids arbitrary: m)
    case Nil
    then show ?case by (auto intro: nth_equalityI simp flip: map_nth)
  next
    case (Cons i ids)
    then have i: "0 \<le> i" "nat i < length m" by auto
    then have "py_set m i False = Inr (m[nat i := False])" using py_set_nat [OF i(2)] by simp
    moreover have "map (\<lambda>j. m[nat i := False] ! j \<and> int j \<notin> set ids) [0..<nat V] =
        map (\<lambda>j. m ! j \<and> int j \<notin> set (i # ids)) [0..<nat V]"
      using i Cons.prems(2) by (auto simp: nth_list_update)
    ultimately show ?case using Cons by simp
  qed
  then show ?thesis by (simp add: mask_of_def cong: map_cong)
qed

lemma fill_sampling_ok:
  assumes "vacant w" "length (rw_mask w) = nat V" "\<forall>i \<in> set (allowed_ids c). 0 \<le> i \<and> i < V"
  shows "\<exists>w'. fill_sampling V c w = Inr w' \<and> sampling_shows V c w' \<and> length (rw_mask w') = nat V \<and>
    (\<forall>h. tokens_show h c w' = tokens_show h c w) \<and> rw_tokens w' = rw_tokens w \<and> rw_blocks w' = rw_blocks w"
proof -
  let ?ids = "sp_allowed_token_ids (cs_params c)"
  obtain m where m: "fill_mask (cs_params c) (rw_mask w) = Inr m" "length m = nat V"
    "allowed_ids c \<noteq> [] \<Longrightarrow> m = mask_of V (allowed_ids c)"
  proof (cases "allowed_ids c = []")
    case True
    then show thesis using that [of "rw_mask w"] assms(2)
      by (auto simp: fill_mask_def allowed_ids_def or_default_def split: option.splits)
  next
    case False
    then obtain ids where ids: "?ids = Some ids" "ids \<noteq> []" "allowed_ids c = ids"
      by (auto simp: allowed_ids_def or_default_def split: option.splits)
    then show thesis using that [of "mask_of V ids"] fill_mask_ok [of ids V] assms(2,3)
      by (simp add: fill_mask_def mask_of_def)
  qed
  then show ?thesis using assms(1)
    by (simp add: fill_sampling_def sampling_shows_def tokens_show_def vacant_def Let_def)
qed

section \<open>Moving a row\<close>

lemma keep_if_present: "y = None \<Longrightarrow> (if x \<noteq> None then x else y) = x"
  by (cases x) simp_all

lemma move_into_ok:
  assumes "row_shows h V c s" "row_wf L B V s" "row_wf L B V t" "vacant t" "allowed_ids c \<noteq> [] \<longrightarrow> alloc"
  shows "\<exists>t'. move_into alloc s t = Inr t' \<and> row_shows h V c t' \<and> row_wf L B V t'"
proof -
  define n where "n = nat (rw_num_tokens s)"
  have n: "rw_num_tokens s = int n" "n \<le> L" "nat (rw_num_tokens_no_spec s) \<le> n"
    using assms(1,2) by (auto simp: n_def row_shows_def tokens_show_def row_wf_def py_len_def)
  let ?ts = "take n (rw_tokens s) @ drop n (rw_tokens t)"
  have ts: "np_set_slice (rw_tokens t) 0 (int n) (take n (rw_tokens s)) = Inr ?ts" "length ?ts = L"
    using np_set_slice_0 [of "take n (rw_tokens s)" "rw_tokens t" "int n"] n(2) assms(2,3)
    by (simp_all add: row_wf_def py_len_def min_absorb2)
  have take: "take (nat (rw_num_tokens_no_spec s)) ?ts = take (nat (rw_num_tokens_no_spec s)) (rw_tokens s)"
    using n assms(2) by (simp add: row_wf_def min_absorb1)
  let ?m = "length (cs_block_ids c)"
  have m: "rw_num_blocks s = int ?m" "?m \<le> B" "take ?m (rw_blocks s) = cs_block_ids c"
    using assms(1,2) by (simp_all add: row_shows_def tokens_show_def row_wf_def py_len_def)
  let ?bs = "cs_block_ids c @ drop ?m (rw_blocks t)"
  have bs: "np_set_slice (rw_blocks t) 0 (int ?m) (cs_block_ids c) = Inr ?bs" "length ?bs = B"
    using np_set_slice_0 [of "cs_block_ids c" "rw_blocks t" "int ?m"] m(2) assms(3)
    by (simp_all add: row_wf_def py_len_def)
  let ?t = "t\<lparr>rw_tokens := ?ts, rw_num_tokens := rw_num_tokens s,
      rw_num_tokens_no_spec := rw_num_tokens_no_spec s,
      rw_num_prompt_tokens := rw_num_prompt_tokens s, rw_num_computed := rw_num_computed s,
      rw_blocks := ?bs, rw_num_blocks := rw_num_blocks s,
      rw_temperature := rw_temperature s, rw_top_p := rw_top_p s, rw_top_k := rw_top_k s,
      rw_frequency := rw_frequency s, rw_presence := rw_presence s,
      rw_repetition := rw_repetition s, rw_min_p := rw_min_p s,
      rw_generator := rw_generator s, rw_min_tokens := rw_min_tokens s,
      rw_lora := rw_lora s, rw_logit_bias := rw_logit_bias s,
      rw_mask := (if alloc then rw_mask s else rw_mask t), rw_bad_words := rw_bad_words s\<rparr>"
  have vac: "rw_generator t = None" "rw_min_tokens t = None" "rw_bad_words t = None"
    using assms(4) by (simp_all add: vacant_def)
  note keep = keep_if_present [OF vac(1)] keep_if_present [OF vac(2)] keep_if_present [OF vac(3)]
  have "move_into alloc s t = Inr ?t"
    unfolding move_into_def bt_move_row_def Let_def n(1) m(1) py_upto_nat m(3) ts(1) ebind_simps keep
    using bs(1) by (simp add: n(1) m(1,3))
  moreover have "tokens_show h c ?t"
    using assms(1,2) take ts(2) bs(2) m by (simp add: row_shows_def tokens_show_def row_wf_def py_len_def)
  moreover have "sampling_shows V c ?t"
    using assms(1,5) by (simp add: row_shows_def sampling_shows_def Let_def)
  moreover have "row_wf L B V ?t" using ts(2) bs(2) assms(2,3) by (simp add: row_wf_def)
  ultimately show ?thesis by (simp add: row_shows_def)
qed

section \<open>The batch as a map from requests to rows\<close>

abbreviation gb_index :: "gpu_batch \<Rightarrow> string \<Rightarrow> nat option" where
  "gb_index g \<equiv> map_of (cb_index (gb_slots g))"

definition view :: "gpu_batch \<Rightarrow> string \<Rightarrow> gpu_row option" where
  "view g r = (case gb_index g r of None \<Rightarrow> None | Some k \<Rightarrow> Some (gb_rows g ! k))"

definition who :: "(gpu_row \<Rightarrow> bool) \<Rightarrow> gpu_batch \<Rightarrow> string set" where
  "who P g = {r. \<exists>w. view g r = Some w \<and> P w}"

text \<open>The sets of request ids are those their rows call for.\<close>

definition sets_ok :: "gpu_batch \<Rightarrow> bool" where
  "sets_ok g \<longleftrightarrow>
     gb_greedy g = who (\<lambda>w. rw_temperature w = - 1) g \<and>
     gb_random g = who (\<lambda>w. rw_temperature w \<noteq> - 1) g \<and>
     gb_top_p g = who (\<lambda>w. rw_top_p w < 1) g \<and>
     gb_top_k g = who (\<lambda>w. rw_top_k w < gb_vocab_size g) g \<and>
     gb_min_p g = who (\<lambda>w. sampling_eps < rw_min_p w) g \<and>
     gb_frequency g = who (\<lambda>w. rw_frequency w \<noteq> 0) g \<and>
     gb_presence g = who (\<lambda>w. rw_presence w \<noteq> 0) g \<and>
     gb_repetition g = who (\<lambda>w. rw_repetition w \<noteq> 1) g \<and>
     (gb_has_allowed g \<noteq> {} \<longrightarrow> gb_mask_allocated g)"

text \<open>Every request with an adapter is registered with it.\<close>

definition lora_ok :: "gpu_batch \<Rightarrow> bool" where
  "lora_ok g \<longleftrightarrow> dom (gb_lora_requests_of g) = dom (gb_lora_request g) \<and>
     (\<forall>r w. view g r = Some w \<and> rw_lora w \<noteq> 0 \<longrightarrow>
        (\<exists>S. gb_lora_requests_of g (rw_lora w) = Some S \<and> r \<in> S))"

definition batch_rows_ok ::
  "nat \<Rightarrow> nat \<Rightarrow> (string \<Rightarrow> cached_state option) \<Rightarrow> out_heap \<Rightarrow> gpu_batch \<Rightarrow> bool" where
  "batch_rows_ok L B reqs h g \<longleftrightarrow>
     length (gb_rows g) = cb_max (gb_slots g) \<and> length (gb_outputs g) = length (cb_ids (gb_slots g)) \<and>
     (\<forall>w \<in> set (gb_rows g). row_wf L B (gb_vocab_size g) w) \<and>
     (\<forall>k < length (gb_rows g). (\<forall>r. gb_index g r \<noteq> Some k) \<longrightarrow> vacant (gb_rows g ! k)) \<and>
     (\<forall>r w. view g r = Some w \<longrightarrow> (\<exists>c. reqs r = Some c \<and> row_shows h (gb_vocab_size g) c w \<and>
        (allowed_ids c \<noteq> [] \<longrightarrow> gb_mask_allocated g))) \<and>
     sets_ok g \<and> lora_ok g"

lemma batch_rows_okD:
  assumes "batch_rows_ok L B reqs h g"
  shows "length (gb_rows g) = cb_max (gb_slots g)" "length (gb_outputs g) = length (cb_ids (gb_slots g))"
    "k < length (gb_rows g) \<Longrightarrow> row_wf L B (gb_vocab_size g) (gb_rows g ! k)"
    "\<lbrakk>k < length (gb_rows g); \<forall>r. gb_index g r \<noteq> Some k\<rbrakk> \<Longrightarrow> vacant (gb_rows g ! k)"
    "view g r = Some w \<Longrightarrow> \<exists>c. reqs r = Some c \<and> row_shows h (gb_vocab_size g) c w \<and>
        (allowed_ids c \<noteq> [] \<longrightarrow> gb_mask_allocated g)"
    "sets_ok g" "lora_ok g" "\<forall>w \<in> set (gb_rows g). row_wf L B (gb_vocab_size g) w"
  using assms by (simp_all add: batch_rows_ok_def)

text \<open>The view after an index has been assigned, removed or moved.\<close>

lemma view_insert:
  assumes "gb_index g' = (gb_index g)(r \<mapsto> k)" "gb_rows g' = (gb_rows g)[k := w]" "k < length (gb_rows g)"
    and "\<forall>q. gb_index g q \<noteq> Some k"
  shows "view g' = (view g)(r \<mapsto> w)"
proof
  fix q show "view g' q = ((view g)(r \<mapsto> w)) q"
    using assms by (cases "q = r"; cases "gb_index g q") (auto simp: view_def nth_list_update)
qed

lemma view_remove:
  assumes "gb_index g' = (gb_index g)(r := None)" "gb_rows g' = (gb_rows g)[k := w]"
    and "\<forall>q. gb_index g q = Some k \<longrightarrow> q = r"
  shows "view g' = (view g)(r := None)"
proof
  fix q
  have "a \<noteq> k" if "q \<noteq> r" "gb_index g q = Some a" for a using assms(3) that by auto
  then show "view g' q = ((view g)(r := None)) q"
    using assms(1,2) by (cases "q = r"; cases "gb_index g q") (simp_all add: view_def)
qed

lemma view_move:
  assumes "gb_index g' = (gb_index g)(r \<mapsto> tgt)" "gb_rows g' = (gb_rows g)[tgt := w, src := v]"
    and "tgt < length (gb_rows g)" "src \<noteq> tgt"
    and "\<forall>q. gb_index g q \<noteq> Some tgt" "\<forall>q. gb_index g q = Some src \<longrightarrow> q = r"
  shows "view g' = (view g)(r \<mapsto> w)"
proof
  fix q
  have "a \<noteq> src \<and> a \<noteq> tgt" if "q \<noteq> r" "gb_index g q = Some a" for a using assms(5,6) that by auto
  then show "view g' q = ((view g)(r \<mapsto> w)) q"
    using assms(1-4) by (cases "q = r"; cases "gb_index g q") (simp_all add: view_def)
qed

lemma ball_update: "\<lbrakk>\<forall>w \<in> set ws. P w; P v\<rbrakk> \<Longrightarrow> \<forall>w \<in> set (ws[k := v]). P w"
  using set_update_subset_insert [of ws k v] by blast

lemma unused_upd: "\<lbrakk>\<forall>q. (m(r := x)) q \<noteq> Some j; m r \<noteq> Some j\<rbrakk> \<Longrightarrow> \<forall>q. m q \<noteq> Some j"
  by (metis fun_upd_other)

lemma who_insert:
  "view g' = (view g)(r \<mapsto> w) \<Longrightarrow> view g r = None \<Longrightarrow> who P g' = join (P w) r (who P g)"
  by (auto simp: who_def join_def)

lemma who_remove: "view g' = (view g)(r := None) \<Longrightarrow> who P g' = who P g - {r}"
  by (auto simp: who_def)

lemma who_same: "view g' = view g \<Longrightarrow> who P g' = who P g"
  by (simp add: who_def)

lemma who_move:
  "view g' = (view g)(r \<mapsto> w') \<Longrightarrow> view g r = Some w \<Longrightarrow> P w' = P w \<Longrightarrow> who P g' = who P g"
  by (auto simp: who_def)

section \<open>Adding\<close>

lemma sets_ok_add:
  assumes "sets_ok g" "view g' = (view g)(r \<mapsto> w)" "view g r = None" "sampling_shows (gb_vocab_size g) c w"
    and "r = cs_req_id c" "gb_vocab_size g' = gb_vocab_size g"
    and "gb_greedy g' = join (sampling_type_of (cs_params c) = GREEDY) r (gb_greedy g)"
    and "gb_random g' = join (sampling_type_of (cs_params c) \<noteq> GREEDY) r (gb_random g)"
    and "gb_top_p g' = join (sp_top_p (cs_params c) < 1) r (gb_top_p g)"
    and "gb_top_k g' = join (top_k_set (gb_vocab_size g) (cs_params c)) r (gb_top_k g)"
    and "gb_min_p g' = join (sampling_eps < sp_min_p (cs_params c)) r (gb_min_p g)"
    and "gb_frequency g' = join (frequency_penalty (cs_params c) \<noteq> 0) r (gb_frequency g)"
    and "gb_presence g' = join (presence_penalty (cs_params c) \<noteq> 0) r (gb_presence g)"
    and "gb_repetition g' = join (repetition_penalty (cs_params c) \<noteq> 1) r (gb_repetition g)"
    and "gb_has_allowed g' = join (allowed_ids c \<noteq> []) r (gb_has_allowed g)"
    and "gb_mask_allocated g' \<longleftrightarrow> gb_mask_allocated g \<or> allowed_ids c \<noteq> []"
  shows "sets_ok g'"
proof -
  have temp: "rw_temperature w = - 1 \<longleftrightarrow> sampling_type_of (cs_params c) = GREEDY"
    using assms(4) by (auto simp: sampling_shows_def Let_def sampling_type_of_def)
  have top_k: "rw_top_k w < gb_vocab_size g \<longleftrightarrow> top_k_set (gb_vocab_size g) (cs_params c)"
    using assms(4) by (auto simp: sampling_shows_def Let_def top_k_set_def)
  show ?thesis
    using assms(1,4)
    unfolding sets_ok_def assms(6-16) who_insert [OF assms(2,3)] temp top_k
    by (simp add: sampling_shows_def Let_def join_def)
qed

lemma register_simps [simp]:
  "gb_slots (register_lora c (register_sampling c g)) = gb_slots g"
  "gb_rows (register_lora c (register_sampling c g)) = gb_rows g"
  "gb_outputs (register_lora c (register_sampling c g)) = gb_outputs g"
  "gb_vocab_size (register_lora c (register_sampling c g)) = gb_vocab_size g"
  "gb_mask_allocated (register_lora c (register_sampling c g)) \<longleftrightarrow> gb_mask_allocated g \<or> allowed_ids c \<noteq> []"
  by (simp_all add: register_lora_def register_sampling_def allowed_ids_def Let_def split: option.split)

lemma register_sets:
  "gb_greedy (register_lora c (register_sampling c g)) =
     join (sampling_type_of (cs_params c) = GREEDY) (cs_req_id c) (gb_greedy g)"
  "gb_random (register_lora c (register_sampling c g)) =
     join (sampling_type_of (cs_params c) \<noteq> GREEDY) (cs_req_id c) (gb_random g)"
  "gb_top_p (register_lora c (register_sampling c g)) =
     join (sp_top_p (cs_params c) < 1) (cs_req_id c) (gb_top_p g)"
  "gb_top_k (register_lora c (register_sampling c g)) =
     join (top_k_set (gb_vocab_size g) (cs_params c)) (cs_req_id c) (gb_top_k g)"
  "gb_min_p (register_lora c (register_sampling c g)) =
     join (sampling_eps < sp_min_p (cs_params c)) (cs_req_id c) (gb_min_p g)"
  "gb_frequency (register_lora c (register_sampling c g)) =
     join (frequency_penalty (cs_params c) \<noteq> 0) (cs_req_id c) (gb_frequency g)"
  "gb_presence (register_lora c (register_sampling c g)) =
     join (presence_penalty (cs_params c) \<noteq> 0) (cs_req_id c) (gb_presence g)"
  "gb_repetition (register_lora c (register_sampling c g)) =
     join (repetition_penalty (cs_params c) \<noteq> 1) (cs_req_id c) (gb_repetition g)"
  "gb_has_allowed (register_lora c (register_sampling c g)) =
     join (allowed_ids c \<noteq> []) (cs_req_id c) (gb_has_allowed g)"
  by (simp_all add: register_lora_def register_sampling_def allowed_ids_def Let_def split: option.split)

lemma lora_ok_add:
  assumes "lora_ok g" "view g' = (view g)(cs_req_id c \<mapsto> w)"
    and "rw_lora w = (case cs_lora_request c of Some l \<Rightarrow> l | None \<Rightarrow> 0)"
    and "gb_lora_requests_of g' = gb_lora_requests_of (register_lora c g)"
    and "gb_lora_request g' = gb_lora_request (register_lora c g)"
  shows "lora_ok g'"
proof (cases "cs_lora_request c")
  case None
  then show ?thesis using assms by (auto simp: lora_ok_def register_lora_def)
next
  case (Some l)
  let ?S = "insert (cs_req_id c) (or_default {} (gb_lora_requests_of g l))"
  have of': "gb_lora_requests_of g' = (gb_lora_requests_of g)(l \<mapsto> ?S)"
    "gb_lora_request g' = (gb_lora_request g)(l \<mapsto> l)" "rw_lora w = l"
    using assms(3-5) Some by (simp_all add: register_lora_def)
  have "\<exists>S. gb_lora_requests_of g' (rw_lora v) = Some S \<and> q \<in> S"
    if q: "view g' q = Some v" "rw_lora v \<noteq> 0" for q v
  proof (cases "q = cs_req_id c")
    case True
    then show ?thesis using q assms(2) of' by simp
  next
    case False
    then have "view g q = Some v" using q(1) assms(2) by simp
    then obtain S where "gb_lora_requests_of g (rw_lora v) = Some S" "q \<in> S"
      using assms(1) q(2) unfolding lora_ok_def by blast
    then show ?thesis using of'(1) by (cases "rw_lora v = l") (simp_all add: or_default_def)
  qed
  then show ?thesis using assms(1) of' by (simp add: lora_ok_def)
qed

lemma gpu_add_ok:
  assumes "batch_rows_ok L B reqs h g" "cpu_add (cs_req_id c) ix (gb_slots g) = Inr slots"
    and "k = (case ix of None \<Rightarrow> cb_num_reqs (gb_slots g) | Some k \<Rightarrow> k)"
    and "map_of (cb_index slots) = (gb_index g)(cs_req_id c \<mapsto> k)" "cb_max slots = cb_max (gb_slots g)"
    and "length (cb_ids slots) = max (length (cb_ids (gb_slots g))) (Suc k)" "k < cb_max (gb_slots g)"
    and "\<forall>q. gb_index g q \<noteq> Some k" "gb_index g (cs_req_id c) = None"
    and "reqs (cs_req_id c) = Some c" "request_fits L B (gb_vocab_size g) h c"
    and "k \<le> length (cb_ids (gb_slots g))"
  shows "\<exists>g' w. gpu_add h c ix g = Inr g' \<and> gb_slots g' = slots \<and> batch_rows_ok L B reqs h g' \<and>
    view g' = (view g)(cs_req_id c \<mapsto> w) \<and> gb_vocab_size g' = gb_vocab_size g"
proof -
  let ?r = "cs_req_id c" and ?V = "gb_vocab_size g"
  note inv = batch_rows_okD [OF assms(1)]
  have k: "k < length (gb_rows g)" using assms(7) inv(1) by simp
  have wf: "row_wf L B ?V (gb_rows g ! k)" and vac: "vacant (gb_rows g ! k)"
    using inv(3,4) [OF k] assms(8) by simp_all
  from fill_tokens_ok [OF wf assms(11)] obtain w1 where
    w1: "fill_tokens h c (gb_rows g ! k) = Inr w1" "tokens_show h c w1" "row_wf L B ?V w1" "vacant w1"
    using wf vac assms(11)
    by (auto simp: Let_def tokens_show_def row_wf_def vacant_def request_fits_def py_len_def)
  have fits: "\<forall>i \<in> set (allowed_ids c). 0 \<le> i \<and> i < ?V" using assms(11) by (simp add: request_fits_def)
  have "length (rw_mask w1) = nat ?V" using w1(3) by (simp add: row_wf_def)
  from fill_sampling_ok [OF w1(4) this fits] obtain w2 where
    w2: "fill_sampling ?V c w1 = Inr w2" "sampling_shows ?V c w2" "length (rw_mask w2) = nat ?V"
      "tokens_show h c w2" "rw_tokens w2 = rw_tokens w1" "rw_blocks w2 = rw_blocks w1"
    using w1(2) by blast
  have wf2: "row_wf L B ?V w2" using w1(3) w2(3,5,6) by (simp add: row_wf_def)
  obtain outs where outs: "(if k = length (cb_ids (gb_slots g)) then Inr (gb_outputs g @ [Some (cs_output c)])
      else py_set (gb_outputs g) (int k) (Some (cs_output c))) = Inr outs" "length outs = length (cb_ids slots)"
  proof (cases "k = length (cb_ids (gb_slots g))")
    case True
    then show thesis using that assms(6) inv(2) by simp
  next
    case False
    then have "k < length (gb_outputs g)" using assms(12) inv(2) by simp
    then show thesis using that False assms(6) inv(2) by (simp add: py_set_nat max_def)
  qed
  let ?g = "register_lora c (register_sampling c
      (g\<lparr>gb_slots := slots, gb_outputs := outs, gb_rows := (gb_rows g)[k := w2]\<rparr>))"
  have add: "gpu_add h c ix g = Inr ?g"
    unfolding gpu_add_def assms(3) [symmetric] Let_def assms(2) ebind_simps outs(1) py_get_nat [OF k]
      w1(1) w2(1) by (rule refl)
  have view: "view ?g = (view g)(?r \<mapsto> w2)"
    using assms(4,8) k by (intro view_insert) simp_all
  have fresh: "view g ?r = None" using assms(9) by (simp add: view_def)
  have "sets_ok ?g"
    by (rule sets_ok_add [OF inv(6) view fresh w2(2)]) (simp_all add: register_sets)
  moreover have "lora_ok ?g"
    by (rule lora_ok_add [OF inv(7) view])
      (use w2(2) in \<open>simp_all add: sampling_shows_def Let_def register_lora_def register_sampling_def
        split: option.split\<close>)
  moreover have "vacant (gb_rows ?g ! j)"
    if "j < length (gb_rows ?g)" "\<forall>q. gb_index ?g q \<noteq> Some j" for j
  proof -
    have "gb_index ?g ?r = Some k" using assms(4) by simp
    then have "j \<noteq> k" using that(2) by metis
    moreover have "gb_index ?g = (gb_index g)(?r \<mapsto> k)" using assms(4) by simp
    then have "\<forall>q. gb_index g q \<noteq> Some j" using unused_upd that(2) assms(9) by (metis option.distinct(1))
    ultimately show ?thesis using inv(4) [of j] that(1) by simp
  qed
  moreover have "\<exists>c'. reqs q = Some c' \<and> row_shows h ?V c' w \<and> (allowed_ids c' \<noteq> [] \<longrightarrow> gb_mask_allocated ?g)"
    if "view ?g q = Some w" for q w
  proof (cases "q = ?r")
    case True
    then show ?thesis using that view assms(10) w2(2,4) by (simp add: row_shows_def)
  next
    case False
    then have "view g q = Some w" using that view by simp
    from inv(5) [OF this] show ?thesis by auto
  qed
  moreover have "\<forall>w \<in> set (gb_rows ?g). row_wf L B ?V w"
    using ball_update [OF inv(8) wf2] by simp
  ultimately have "batch_rows_ok L B reqs h ?g"
    using inv(1) outs(2) assms(5) by (simp add: batch_rows_ok_def)
  then show ?thesis using add view by (intro exI [of _ ?g] exI [of _ w2]) simp
qed

section \<open>Removing\<close>

lemma sets_ok_remove:
  assumes "sets_ok g" "view g' = (view g)(r := None)" "gb_vocab_size g' = gb_vocab_size g"
    and "gb_greedy g' = gb_greedy g - {r}" "gb_random g' = gb_random g - {r}"
    and "gb_top_p g' = gb_top_p g - {r}" "gb_top_k g' = gb_top_k g - {r}" "gb_min_p g' = gb_min_p g - {r}"
    and "gb_frequency g' = gb_frequency g - {r}" "gb_presence g' = gb_presence g - {r}"
    and "gb_repetition g' = gb_repetition g - {r}" "gb_has_allowed g' = gb_has_allowed g - {r}"
    and "gb_mask_allocated g' = gb_mask_allocated g"
  shows "sets_ok g'"
  using assms(1) unfolding sets_ok_def assms(3-13) who_remove [OF assms(2)] by auto

lemma leave_lora_ok:
  assumes "lora_ok g" "view g r = Some w"
    and "gb_lora_requests_of g1 = gb_lora_requests_of g" "gb_lora_request g1 = gb_lora_request g"
  shows "\<exists>reqs' lr. leave_lora r (rw_lora w) g1 = Inr (g1\<lparr>gb_lora_requests_of := reqs', gb_lora_request := lr\<rparr>) \<and>
    dom reqs' = dom lr \<and>
    (\<forall>q v. q \<noteq> r \<and> view g q = Some v \<and> rw_lora v \<noteq> 0 \<longrightarrow> (\<exists>S. reqs' (rw_lora v) = Some S \<and> q \<in> S))"
proof (cases "rw_lora w = 0")
  case True
  have "g1 = g1\<lparr>gb_lora_requests_of := gb_lora_requests_of g, gb_lora_request := gb_lora_request g\<rparr>"
    using assms(3,4) by simp
  then show ?thesis using assms(1) True
    by (intro exI [of _ "gb_lora_requests_of g"] exI [of _ "gb_lora_request g"])
      (simp add: leave_lora_def lora_ok_def)
next
  case False
  let ?l = "rw_lora w"
  have ok: "dom (gb_lora_requests_of g) = dom (gb_lora_request g)"
    "\<And>q v. view g q = Some v \<Longrightarrow> rw_lora v \<noteq> 0 \<Longrightarrow> \<exists>S. gb_lora_requests_of g (rw_lora v) = Some S \<and> q \<in> S"
    using assms(1) unfolding lora_ok_def by blast+
  obtain S where S: "gb_lora_requests_of g ?l = Some S" using ok(2) [OF assms(2) False] by blast
  have other: "\<exists>T. gb_lora_requests_of g (rw_lora v) = Some T \<and> q \<in> T - {r}"
    if "q \<noteq> r" "view g q = Some v" "rw_lora v \<noteq> 0" for q v
    using ok(2) [OF that(2,3)] that(1) by blast
  show ?thesis
  proof (cases "S - {r} = {}")
    case True
    have "\<exists>x. gb_lora_request g ?l = Some x" using ok(1) S by (metis domD domI)
    then have "leave_lora r ?l g1 = Inr (g1\<lparr>gb_lora_requests_of := (gb_lora_requests_of g)(?l := None),
        gb_lora_request := (gb_lora_request g)(?l := None)\<rparr>)"
      using True False S assms(3,4) by (auto simp: leave_lora_def)
    moreover have "\<exists>T. ((gb_lora_requests_of g)(?l := None)) (rw_lora v) = Some T \<and> q \<in> T"
      if hyp: "q \<noteq> r \<and> view g q = Some v \<and> rw_lora v \<noteq> 0" for q v
    proof -
      obtain T where T: "gb_lora_requests_of g (rw_lora v) = Some T" "q \<in> T - {r}" using other [of q v] hyp by blast
      then have "rw_lora v \<noteq> ?l" using True S by auto
      then show ?thesis using T by simp
    qed
    moreover have "dom ((gb_lora_requests_of g)(?l := None)) = dom ((gb_lora_request g)(?l := None))"
      using ok(1) by simp
    ultimately show ?thesis by blast
  next
    case rest: False
    have "leave_lora r ?l g1 = Inr (g1\<lparr>gb_lora_requests_of := (gb_lora_requests_of g)(?l \<mapsto> S - {r}),
        gb_lora_request := gb_lora_request g\<rparr>)"
      using rest False S assms(3,4) by (simp add: leave_lora_def)
    moreover have "\<exists>T. ((gb_lora_requests_of g)(?l \<mapsto> S - {r})) (rw_lora v) = Some T \<and> q \<in> T"
      if hyp: "q \<noteq> r \<and> view g q = Some v \<and> rw_lora v \<noteq> 0" for q v
    proof -
      obtain T where T: "gb_lora_requests_of g (rw_lora v) = Some T" "q \<in> T - {r}" using other [of q v] hyp by blast
      then show ?thesis using S by (cases "rw_lora v = ?l") simp_all
    qed
    moreover have "dom ((gb_lora_requests_of g)(?l \<mapsto> S - {r})) = dom (gb_lora_request g)"
      using ok(1) S by (metis domI dom_fun_upd insert_absorb option.distinct(1))
    ultimately show ?thesis by blast
  qed
qed

lemma gpu_remove_none:
  "gb_index g r = None \<Longrightarrow> gpu_remove r g = Inr (None, g)"
  by (simp add: gpu_remove_def cpu_remove_def)

lemma gpu_remove_ok:
  assumes "batch_rows_ok L B reqs h g" "cpu_remove r (gb_slots g) = Inr (Some k, slots)"
    and "map_of (cb_index slots) = (gb_index g)(r := None)" "cb_max slots = cb_max (gb_slots g)"
    and "length (cb_ids slots) = length (cb_ids (gb_slots g))" "k < length (cb_ids (gb_slots g))"
    and "length (cb_ids (gb_slots g)) \<le> cb_max (gb_slots g)"
    and "gb_index g r = Some k" "\<forall>q. gb_index g q = Some k \<longrightarrow> q = r"
  shows "\<exists>g'. gpu_remove r g = Inr (Some k, g') \<and> gb_slots g' = slots \<and> batch_rows_ok L B reqs h g' \<and>
    view g' = (view g)(r := None) \<and> gb_vocab_size g' = gb_vocab_size g"
proof -
  note inv = batch_rows_okD [OF assms(1)]
  have k: "k < length (gb_rows g)" "k < length (gb_outputs g)" using assms(6,7) inv(1,2) by simp_all
  let ?w = "gb_rows g ! k" and ?outs = "(gb_outputs g)[k := None]"
  let ?g1 = "leave_sampling r (g\<lparr>gb_slots := slots, gb_outputs := ?outs\<rparr>)"
  have vw: "view g r = Some ?w" using assms(8) by (simp add: view_def)
  have "gb_lora_requests_of ?g1 = gb_lora_requests_of g" "gb_lora_request ?g1 = gb_lora_request g"
    by (simp_all add: leave_sampling_def)
  from leave_lora_ok [OF inv(7) vw this] obtain lreqs lr where
    lora': "leave_lora r (rw_lora ?w) ?g1 = Inr (?g1\<lparr>gb_lora_requests_of := lreqs, gb_lora_request := lr\<rparr>)"
    and lora: "dom lreqs = dom lr"
      "\<And>q v. \<lbrakk>q \<noteq> r; view g q = Some v; rw_lora v \<noteq> 0\<rbrakk> \<Longrightarrow> \<exists>S. lreqs (rw_lora v) = Some S \<and> q \<in> S"
    by blast
  let ?g2 = "?g1\<lparr>gb_lora_requests_of := lreqs, gb_lora_request := lr\<rparr>"
  let ?g = "?g2\<lparr>gb_rows := (gb_rows ?g2)[k := clear_row (gb_mask_allocated g) ?w]\<rparr>"
  have "gpu_remove r g = Inr (Some k, ?g)"
    unfolding gpu_remove_def assms(2) ebind_simps prod.case option.case py_set_nat [OF k(2)]
      py_get_nat [OF k(1)] lora' by (rule refl)
  then obtain g' where rm: "gpu_remove r g = Inr (Some k, g')"
    and fields: "gb_slots g' = slots" "gb_rows g' = (gb_rows g)[k := clear_row (gb_mask_allocated g) ?w]"
      "gb_vocab_size g' = gb_vocab_size g" "gb_mask_allocated g' = gb_mask_allocated g"
      "gb_outputs g' = ?outs" "gb_lora_requests_of g' = lreqs" "gb_lora_request g' = lr"
    and sets: "gb_greedy g' = gb_greedy g - {r}" "gb_random g' = gb_random g - {r}"
      "gb_top_p g' = gb_top_p g - {r}" "gb_top_k g' = gb_top_k g - {r}" "gb_min_p g' = gb_min_p g - {r}"
      "gb_frequency g' = gb_frequency g - {r}" "gb_presence g' = gb_presence g - {r}"
      "gb_repetition g' = gb_repetition g - {r}" "gb_has_allowed g' = gb_has_allowed g - {r}"
    by (rule that [of ?g]) (simp_all add: leave_sampling_def)
  have view: "view g' = (view g)(r := None)"
    using assms(3,9) fields by (intro view_remove) simp_all
  have "sets_ok g'"
    by (rule sets_ok_remove [OF inv(6) view fields(3) sets fields(4)])
  moreover have "lora_ok g'"
    unfolding lora_ok_def fields(6,7) view using lora by (simp split: if_splits)
  moreover have "vacant (gb_rows g' ! j)"
    if "j < length (gb_rows g')" "\<forall>q. gb_index g' q \<noteq> Some j" for j
  proof (cases "j = k")
    case True
    then show ?thesis using k fields by (simp add: vacant_def clear_row_def)
  next
    case False
    have idx: "gb_index g' = (gb_index g)(r := None)" using assms(3) fields(1) by simp
    have "gb_index g r \<noteq> Some j" using False assms(8) by simp
    with unused_upd [OF that(2) [unfolded idx]] have "\<forall>q. gb_index g q \<noteq> Some j" .
    then show ?thesis using inv(4) [of j] that(1) False fields by simp
  qed
  moreover have "\<exists>c'. reqs q = Some c' \<and> row_shows h (gb_vocab_size g) c' w \<and>
      (allowed_ids c' \<noteq> [] \<longrightarrow> gb_mask_allocated g')" if "view g' q = Some w" for q w
    using inv(5) [of q w] that view fields(4) by (simp split: if_splits)
  moreover have "row_wf L B (gb_vocab_size g) (clear_row (gb_mask_allocated g) ?w)"
    using inv(3) [OF k(1)] by (simp add: row_wf_def clear_row_def)
  then have "\<forall>w \<in> set (gb_rows g'). row_wf L B (gb_vocab_size g) w"
    using ball_update [OF inv(8)] fields(2) by simp
  ultimately have "batch_rows_ok L B reqs h g'"
    unfolding batch_rows_ok_def using inv(1,2) assms(4,5) fields by simp
  then show ?thesis using rm view fields by blast
qed

section \<open>Moving\<close>

lemma gpu_move_ok:
  assumes "batch_rows_ok L B reqs h g" "holes_ok E (gb_slots g)"
    and "src < length (cb_ids (gb_slots g))" "src \<notin> E" "tgt \<in> E"
  shows "\<exists>g'. gpu_move src tgt g = Inr g' \<and> cpu_move src tgt (gb_slots g) = Inr (gb_slots g') \<and>
    batch_rows_ok L B reqs h g' \<and> gb_vocab_size g' = gb_vocab_size g"
proof -
  let ?b = "gb_slots g" and ?V = "gb_vocab_size g" and ?alloc = "gb_mask_allocated g"
  note inv = batch_rows_okD [OF assms(1)]
  from cpu_move_ok [OF assms(2-5)] obtain slots r where mv: "cpu_move src tgt ?b = Inr slots"
    "gb_index g r = Some src" "map_of (cb_index slots) = (gb_index g)(r \<mapsto> tgt)"
    "length (cb_ids slots) = length (cb_ids ?b)" "cb_max slots = cb_max ?b" by blast
  have tgt: "tgt < length (cb_ids ?b)" "src \<noteq> tgt" using holes_okD(3) [OF assms(2)] assms(4,5) by auto
  have empty: "\<forall>q. gb_index g q \<noteq> Some tgt" using holes_okD(1,2) [OF assms(2)] tgt(1) assms(5) by auto
  have only: "\<forall>q. gb_index g q = Some src \<longrightarrow> q = r"
    using holes_okD(1) [OF assms(2)] mv(2) by (metis option.inject)
  have len: "src < length (gb_rows g)" "tgt < length (gb_rows g)" "src < length (gb_outputs g)"
    "tgt < length (gb_outputs g)"
    using assms(3) tgt(1) inv(1,2) holes_okD(4) [OF assms(2)] by simp_all
  let ?s = "gb_rows g ! src" and ?t = "gb_rows g ! tgt"
  have vr: "view g r = Some ?s" using mv(2) by (simp add: view_def)
  from inv(5) [OF this] obtain c where c: "reqs r = Some c" "row_shows h ?V c ?s"
    "allowed_ids c \<noteq> [] \<longrightarrow> ?alloc" by blast
  from move_into_ok [OF c(2) inv(3) [OF len(1)] inv(3) [OF len(2)] inv(4) [OF len(2) empty] c(3)]
  obtain t' where t': "move_into ?alloc ?s ?t = Inr t'" "row_shows h ?V c t'" "row_wf L B ?V t'" by blast
  let ?outs = "(gb_outputs g)[tgt := gb_outputs g ! src, src := None]"
  let ?g = "g\<lparr>gb_slots := slots, gb_outputs := ?outs, gb_rows := (gb_rows g)[tgt := t', src := vacate_row ?s]\<rparr>"
  have move: "gpu_move src tgt g = Inr ?g"
    using len by (simp add: gpu_move_def mv(1) py_get_nat py_set_nat t'(1))
  have view: "view ?g = (view g)(r \<mapsto> t')"
    using mv(3) len tgt(2) empty only by (intro view_move [of _ _ _ tgt _ src]) simp_all
  have same: "rw_temperature t' = rw_temperature ?s" "rw_top_p t' = rw_top_p ?s" "rw_top_k t' = rw_top_k ?s"
    "rw_min_p t' = rw_min_p ?s" "rw_frequency t' = rw_frequency ?s" "rw_presence t' = rw_presence ?s"
    "rw_repetition t' = rw_repetition ?s" "rw_lora t' = rw_lora ?s"
    using c(2) t'(2) by (simp_all add: row_shows_def sampling_shows_def Let_def)
  have who: "who P ?g = who P g" if "P t' = P ?s" for P by (rule who_move [OF view vr that])
  have "sets_ok ?g" using inv(6) unfolding sets_ok_def by (simp add: who same)
  moreover have "lora_ok ?g"
    using inv(7) view vr same(8) unfolding lora_ok_def by simp
  moreover have "vacant (gb_rows ?g ! j)"
    if j: "j < length (gb_rows ?g)" "\<forall>q. gb_index ?g q \<noteq> Some j" for j
  proof (cases "j = src")
    case True
    then show ?thesis using len tgt(2) by (simp add: vacant_def vacate_row_def)
  next
    case False
    have "gb_index ?g r = Some tgt" using mv(3) by simp
    then have "j \<noteq> tgt" using j(2) by metis
    have idx: "gb_index ?g = (gb_index g)(r \<mapsto> tgt)" using mv(3) by simp
    have "gb_index g r \<noteq> Some j" using False mv(2) by simp
    with unused_upd [OF j(2) [unfolded idx]] have "\<forall>q. gb_index g q \<noteq> Some j" .
    moreover note \<open>j \<noteq> tgt\<close>
    ultimately show ?thesis using inv(4) [of j] j(1) False by simp
  qed
  moreover have "\<exists>c'. reqs q = Some c' \<and> row_shows h ?V c' w \<and> (allowed_ids c' \<noteq> [] \<longrightarrow> ?alloc)"
    if "view ?g q = Some w" for q w
    using inv(5) [of q w] that view c t'(2) by (cases "q = r") simp_all
  moreover have "row_wf L B ?V (vacate_row ?s)"
    using inv(3) [OF len(1)] by (simp add: row_wf_def vacate_row_def)
  then have "\<forall>w \<in> set (gb_rows ?g). row_wf L B ?V w"
    using ball_update [OF ball_update [OF inv(8) t'(3)]] by simp
  ultimately have "batch_rows_ok L B reqs h ?g"
    unfolding batch_rows_ok_def using inv(1,2) mv(4,5) by simp
  then show ?thesis using move mv(1) by (intro exI [of _ ?g]) simp
qed

interpretation gpu: batch_move gpu_move gb_slots "\<lambda>g. batch_rows_ok L B reqs h g \<and> gb_vocab_size g = V"
  for L B reqs h V
proof
  fix g E src tgt
  assume "batch_rows_ok L B reqs h g \<and> gb_vocab_size g = V" "holes_ok E (gb_slots g)"
    "src < length (cb_ids (gb_slots g))" "src \<notin> E" "tgt \<in> E"
  then show "\<exists>g'. gpu_move src tgt g = Inr g' \<and> cpu_move src tgt (gb_slots g) = Inr (gb_slots g') \<and>
      batch_rows_ok L B reqs h g' \<and> gb_vocab_size g' = V"
    using gpu_move_ok by metis
qed

text \<open>Condensing, with the index part of the batch doing what the mirror does.\<close>

lemma batch_rows_same_view:
  assumes "batch_rows_ok L B reqs h g" "gb_index g' = gb_index g" "gb_rows g' = gb_rows g"
    and "cb_max (gb_slots g') = cb_max (gb_slots g)" "length (gb_outputs g') = length (cb_ids (gb_slots g'))"
    and "\<exists>slots outs. g' = g\<lparr>gb_slots := slots, gb_outputs := outs\<rparr>"
  shows "batch_rows_ok L B reqs h g'"
proof -
  have view: "view g' = view g" unfolding view_def assms(2,3) by (rule refl)
  obtain slots outs where g': "g' = g\<lparr>gb_slots := slots, gb_outputs := outs\<rparr>" using assms(6) by blast
  have same: "gb_vocab_size g' = gb_vocab_size g" "gb_mask_allocated g' = gb_mask_allocated g"
    "sets_ok g'" "lora_ok g'"
    using assms(1) who_same [OF view] view unfolding g' batch_rows_ok_def sets_ok_def lora_ok_def by simp_all
  show ?thesis
    using assms(1) unfolding batch_rows_ok_def assms(2-5) same(1,2) view using same(3,4) by simp
qed

lemma gpu_condense_ok:
  assumes "batch_rows_ok L B reqs h g" "holes_ok (set es) (gb_slots g)" "sorted_wrt (>) es"
  shows "\<exists>g'. gpu_condense es g = Inr g' \<and> cpu_condense es (gb_slots g) = Inr (gb_slots g') \<and>
    batch_rows_ok L B reqs h g' \<and> gb_vocab_size g' = gb_vocab_size g"
proof (cases "cb_num_reqs (gb_slots g) = 0")
  case True
  let ?g = "g\<lparr>gb_slots := (gb_slots g)\<lparr>cb_ids := []\<rparr>, gb_outputs := []\<rparr>"
  have "batch_rows_ok L B reqs h ?g"
    by (rule batch_rows_same_view [OF assms(1)]) auto
  then show ?thesis using True by (simp add: gpu_condense_def cpu_condense_def)
next
  case False
  let ?m = "int (cb_num_reqs (gb_slots g)) + int (length es) - 1"
  from gpu.loop_ok [OF conjI [OF assms(1) refl] condensing_start [OF assms(2,3)]] obtain g1 m' where
    g1: "condense_loop gpu_move es ?m g = Inr g1" "condense_loop cpu_move es ?m (gb_slots g) = Inr (gb_slots g1)"
    "batch_rows_ok L B reqs h g1" "gb_vocab_size g1 = gb_vocab_size g"
    "holes_ok (above m' (gb_slots g1)) (gb_slots g1)" by blast
  let ?g = "g1\<lparr>gb_slots := cpu_trim (gb_slots g1), gb_outputs := take (cb_num_reqs (gb_slots g1)) (gb_outputs g1)\<rparr>"
  have "length (gb_outputs ?g) = length (cb_ids (gb_slots ?g))"
    using batch_rows_okD(2) [OF g1(3)] by (simp add: cpu_trim_def)
  then have "batch_rows_ok L B reqs h ?g"
    by (intro batch_rows_same_view [OF g1(3)]) (auto simp: cpu_trim_def)
  moreover have "gpu_condense es g = Inr ?g" "cpu_condense es (gb_slots g) = Inr (gb_slots ?g)"
    using False g1(1,2) by (simp_all add: gpu_condense_def cpu_condense_def)
  ultimately show ?thesis using g1(4) by (intro exI [of _ ?g]) simp
qed

text \<open>All operations of the worker's batch follow the mirror.\<close>

lemma cpu_add_shape:
  assumes "cpu_add r ix b = Inr b'"
  shows "let k = (case ix of None \<Rightarrow> cb_num_reqs b | Some k \<Rightarrow> k) in
    k < cb_max b \<and> map_of (cb_index b') = (map_of (cb_index b))(r \<mapsto> k) \<and> cb_max b' = cb_max b \<and>
    (k \<le> length (cb_ids b) \<longrightarrow> length (cb_ids b') = max (length (cb_ids b)) (Suc k))"
proof -
  let ?k = "case ix of None \<Rightarrow> cb_num_reqs b | Some k \<Rightarrow> k"
  obtain ids where ids: "?k < cb_max b"
    "(if ?k = length (cb_ids b) then Inr (cb_ids b @ [Some r]) else py_set (cb_ids b) (int ?k) (Some r)) = Inr ids"
    "b' = b\<lparr>cb_ids := ids, cb_index := AList.update r ?k (cb_index b)\<rparr>"
    using assms by (auto simp: cpu_add_def Let_def ebind_eq_Inr py_assert_def split: if_splits)
  have "length ids = max (length (cb_ids b)) (Suc ?k)" if "?k \<le> length (cb_ids b)"
  proof (cases "?k = length (cb_ids b)")
    case True
    then have "ids = cb_ids b @ [Some r]" using ids(2) by simp
    then show ?thesis using True by simp
  next
    case False
    then have "?k < length (cb_ids b)" using that by simp
    moreover have "ids = (cb_ids b)[?k := Some r]" using ids(2) False py_set_nat [OF calculation] by simp
    ultimately show ?thesis by simp
  qed
  then show ?thesis using ids(1,3) by (simp add: Let_def update_conv')
qed

definition gpu_add_cached ::
  "(string \<Rightarrow> cached_state option) \<Rightarrow> out_heap \<Rightarrow> string \<Rightarrow> nat option \<Rightarrow> gpu_batch \<Rightarrow> gpu_batch res" where
  "gpu_add_cached reqs h r ix g =
     (case reqs r of None \<Rightarrow> Inl KeyError | Some c \<Rightarrow> gpu_add h c ix g)"

definition ready ::
  "nat \<Rightarrow> nat \<Rightarrow> int \<Rightarrow> (string \<Rightarrow> cached_state option) \<Rightarrow> out_heap \<Rightarrow> string \<Rightarrow> bool" where
  "ready L B V reqs h r \<longleftrightarrow>
     (\<exists>c. reqs r = Some c \<and> cs_req_id c = r \<and> request_fits L B V h c)"

lemma gpu_remove_follows:
  assumes "batch_rows_ok L B reqs h g" "holes_ok E (gb_slots g)" "cpu_remove r (gb_slots g) = Inr (k, b)"
  shows "\<exists>g'. gpu_remove r g = Inr (k, g') \<and> gb_slots g' = b \<and> batch_rows_ok L B reqs h g' \<and>
    gb_vocab_size g' = gb_vocab_size g \<and> view g' \<subseteq>\<^sub>m view g"
proof (cases "gb_index g r")
  case None
  then show ?thesis using assms gpu_remove_none [OF None] by (auto simp: cpu_remove_def)
next
  case (Some j)
  from cpu_remove_ok [OF assms(2) Some] assms(3) have b: "k = Some j"
    "map_of (cb_index b) = (gb_index g)(r := None)" "cb_max b = cb_max (gb_slots g)"
    "length (cb_ids b) = length (cb_ids (gb_slots g))" by auto
  have "\<forall>q. gb_index g q = Some j \<longrightarrow> q = r"
    using holes_okD(1) [OF assms(2)] Some by (metis option.inject)
  moreover have "j < length (cb_ids (gb_slots g))" using holes_okD(1) [OF assms(2)] Some by simp
  ultimately obtain g' where "gpu_remove r g = Inr (Some j, g')" "gb_slots g' = b"
    "batch_rows_ok L B reqs h g'" "gb_vocab_size g' = gb_vocab_size g" "view g' = (view g)(r := None)"
    using gpu_remove_ok [OF assms(1) assms(3) [unfolded b(1)] b(2-4) _ holes_okD(4) [OF assms(2)] Some]
    by blast
  moreover have "(view g)(r := None) \<subseteq>\<^sub>m view g" by (simp add: map_le_def)
  ultimately show ?thesis using b(1) by metis
qed

lemma gpu_add_follows:
  assumes "batch_rows_ok L B reqs h g" "holes_ok E (gb_slots g)" "ready L B (gb_vocab_size g) reqs h r"
    and "gb_index g r = None"
    and "case ix of None \<Rightarrow> E = {} \<and> length (cb_ids (gb_slots g)) < cb_max (gb_slots g) | Some k \<Rightarrow> k \<in> E"
    and "cpu_add r ix (gb_slots g) = Inr b"
  shows "\<exists>g'. gpu_add_cached reqs h r ix g = Inr g' \<and> gb_slots g' = b \<and> batch_rows_ok L B reqs h g' \<and>
    gb_vocab_size g' = gb_vocab_size g"
proof -
  let ?b = "gb_slots g"
  let ?k = "case ix of None \<Rightarrow> cb_num_reqs ?b | Some k \<Rightarrow> k"
  obtain c where c: "reqs r = Some c" "cs_req_id c = r" "request_fits L B (gb_vocab_size g) h c"
    using assms(3) by (auto simp: ready_def)
  have k: "?k \<le> length (cb_ids ?b)" "\<forall>q. gb_index g q \<noteq> Some ?k"
  proof -
    consider "ix = None" "E = {}" | k where "ix = Some k" "k \<in> E"
      using assms(5) by (cases ix) auto
    then have "?k \<le> length (cb_ids ?b) \<and> (\<forall>q. gb_index g q \<noteq> Some ?k)"
    proof cases
      case 1
      then have "?k = length (cb_ids ?b)" using holes_count [OF assms(2)] by simp
      then show ?thesis using holes_okD(1) [OF assms(2)] by simp
    next
      case 2
      then have "?k < length (cb_ids ?b)" "cb_ids ?b ! ?k = None"
        using holes_okD(2,3) [OF assms(2)] by auto
      then show ?thesis using holes_okD(1) [OF assms(2)] by simp
    qed
    then show "?k \<le> length (cb_ids ?b)" "\<forall>q. gb_index g q \<noteq> Some ?k" by blast+
  qed
  from cpu_add_shape [OF assms(6)] k(1) have b: "?k < cb_max ?b"
    "map_of (cb_index b) = (gb_index g)(r \<mapsto> ?k)" "cb_max b = cb_max ?b"
    "length (cb_ids b) = max (length (cb_ids ?b)) (Suc ?k)" by (simp_all add: Let_def)
  from gpu_add_ok [OF assms(1) _ refl, of c ix b] assms(4,6) b c k
  obtain g' where "gpu_add h c ix g = Inr g'" "gb_slots g' = b" "batch_rows_ok L B reqs h g'"
    "gb_vocab_size g' = gb_vocab_size g" by auto
  then show ?thesis using c(1) by (simp add: gpu_add_cached_def)
qed

interpretation gpu_removal: batch_removal gb_slots
    "\<lambda>g. (batch_rows_ok L B reqs h g \<and> gb_vocab_size g = V) \<and> view g \<subseteq>\<^sub>m v" gpu_remove
  for L B reqs h V v
proof
  fix g E r k b
  assume ok: "(batch_rows_ok L B reqs h g \<and> gb_vocab_size g = V) \<and> view g \<subseteq>\<^sub>m v"
    and "holes_ok E (gb_slots g)" "cpu_remove r (gb_slots g) = Inr (k, b)"
  from gpu_remove_follows [OF _ this(2,3)] ok obtain g' where
    "gpu_remove r g = Inr (k, g')" "gb_slots g' = b" "batch_rows_ok L B reqs h g'"
    "gb_vocab_size g' = V" "view g' \<subseteq>\<^sub>m view g" by blast
  with ok show "\<exists>g'. gpu_remove r g = Inr (k, g') \<and> gb_slots g' = b \<and>
      (batch_rows_ok L B reqs h g' \<and> gb_vocab_size g' = V) \<and> view g' \<subseteq>\<^sub>m v"
    by (blast intro: map_le_trans)
qed

interpretation gpu_ops: batch_ops gpu_move gb_slots "\<lambda>g. batch_rows_ok L B reqs h g \<and> gb_vocab_size g = V"
    gpu_remove "gpu_add_cached reqs h" "ready L B V reqs h"
  for L B reqs h V
proof
  show "\<exists>g'. gpu_remove r g = Inr (k, g') \<and> gb_slots g' = b \<and> batch_rows_ok L B reqs h g' \<and> gb_vocab_size g' = V"
    if "batch_rows_ok L B reqs h g \<and> gb_vocab_size g = V" "holes_ok E (gb_slots g)"
      "cpu_remove r (gb_slots g) = Inr (k, b)" for g E r k b
    using gpu_remove_follows [OF _ that(2,3)] that(1) by blast
  show "\<exists>g'. gpu_add_cached reqs h r ix g = Inr g' \<and> gb_slots g' = b \<and> batch_rows_ok L B reqs h g' \<and>
      gb_vocab_size g' = V"
    if "batch_rows_ok L B reqs h g \<and> gb_vocab_size g = V" "holes_ok E (gb_slots g)" "ready L B V reqs h r"
      "gb_index g r = None"
      "case ix of None \<Rightarrow> E = {} \<and> length (cb_ids (gb_slots g)) < cb_max (gb_slots g) | Some k \<Rightarrow> k \<in> E"
      "cpu_add r ix (gb_slots g) = Inr b" for g E r ix b
    using gpu_add_follows [OF _ that(2) _ that(4-6)] that(1,3) by auto
qed

section \<open>Metadata\<close>

lemma who_nonempty: "who P g \<noteq> {} \<Longrightarrow> cb_num_reqs (gb_slots g) \<noteq> 0"
  by (auto simp: who_def view_def cb_num_reqs_def split: option.splits)

lemma make_sampling_metadata_ok:
  assumes "batch_rows_ok L B reqs h g" "batch_ok (gb_slots g)"
  shows "\<exists>m. make_sampling_metadata g = Inr m"
proof -
  note inv = batch_rows_okD [OF assms(1)]
  have "\<exists>ts. make_prompt_token_ids g = Inr ts" if "\<not> no_penalties g"
  proof -
    have "cb_num_reqs (gb_slots g) \<noteq> 0"
      using that inv(6) who_nonempty unfolding no_penalties_def sets_ok_def by blast
    moreover have "cb_num_reqs (gb_slots g) \<le> length (gb_rows g)"
      using holes_count [OF assms(2)] holes_okD(4) [OF assms(2)] inv(1) by simp
    ultimately show ?thesis by (auto simp: make_prompt_token_ids_def Let_def)
  qed
  moreover have "\<not> no_allowed_token_ids g \<longrightarrow> gb_mask_allocated g"
    using inv(6) by (simp add: sets_ok_def no_allowed_token_ids_def)
  ultimately show ?thesis
    by (cases "no_penalties g") (auto simp: make_sampling_metadata_def Let_def py_assert_def)
qed

text \<open>A column of the metadata, in terms of the requests in the order of the batch.\<close>

definition batch_column ::
  "(cached_state \<Rightarrow> 'a) \<Rightarrow> (string \<Rightarrow> cached_state option) \<Rightarrow> gpu_batch \<Rightarrow> 'a list" where
  "batch_column F reqs g = map (\<lambda>r. F (the (reqs (the r)))) (cb_ids (gb_slots g))"

definition someone ::
  "(cached_state \<Rightarrow> bool) \<Rightarrow> (string \<Rightarrow> cached_state option) \<Rightarrow> gpu_batch \<Rightarrow> bool" where
  "someone P reqs g \<longleftrightarrow> (\<exists>r c. Some r \<in> set (cb_ids (gb_slots g)) \<and> reqs r = Some c \<and> P c)"

lemma row_of_index:
  assumes "batch_rows_ok L B reqs h g" "batch_ok (gb_slots g)" "k < length (cb_ids (gb_slots g))"
  shows "\<exists>r c. cb_ids (gb_slots g) ! k = Some r \<and> view g r = Some (gb_rows g ! k) \<and> reqs r = Some c \<and>
    row_shows h (gb_vocab_size g) c (gb_rows g ! k)"
proof -
  obtain r where r: "cb_ids (gb_slots g) ! k = Some r" using holes_okD(2) [OF assms(2,3)] by auto
  then have "gb_index g r = Some k" using holes_okD(1) [OF assms(2)] assms(3) by simp
  then have v: "view g r = Some (gb_rows g ! k)" by (simp add: view_def)
  from batch_rows_okD(5) [OF assms(1) v] r v show ?thesis by blast
qed

lemma column_ok:
  assumes "batch_rows_ok L B reqs h g" "batch_ok (gb_slots g)"
    and "\<And>c w. row_shows h (gb_vocab_size g) c w \<Longrightarrow> f w = F c"
  shows "map f (take (cb_num_reqs (gb_slots g)) (gb_rows g)) = batch_column F reqs g"
proof (rule nth_equalityI)
  have n: "cb_num_reqs (gb_slots g) = length (cb_ids (gb_slots g))" using holes_count [OF assms(2)] by simp
  then have le: "cb_num_reqs (gb_slots g) \<le> length (gb_rows g)"
    using holes_okD(4) [OF assms(2)] batch_rows_okD(1) [OF assms(1)] by simp
  then show "length (map f (take (cb_num_reqs (gb_slots g)) (gb_rows g))) = length (batch_column F reqs g)"
    using n by (simp add: batch_column_def)
  fix k assume "k < length (map f (take (cb_num_reqs (gb_slots g)) (gb_rows g)))"
  then have k: "k < length (cb_ids (gb_slots g))" using n by simp
  from row_of_index [OF assms(1,2) k] obtain r c where "cb_ids (gb_slots g) ! k = Some r"
    "reqs r = Some c" "row_shows h (gb_vocab_size g) c (gb_rows g ! k)" by blast
  then show "map f (take (cb_num_reqs (gb_slots g)) (gb_rows g)) ! k = batch_column F reqs g ! k"
    using k n le assms(3) by (simp add: batch_column_def)
qed

lemma who_someone:
  assumes "batch_rows_ok L B reqs h g" "batch_ok (gb_slots g)"
    and "\<And>c w. row_shows h (gb_vocab_size g) c w \<Longrightarrow> P w \<longleftrightarrow> Q c"
  shows "who P g \<noteq> {} \<longleftrightarrow> someone Q reqs g"
proof
  assume "who P g \<noteq> {}"
  then obtain r w where r: "view g r = Some w" "P w" by (auto simp: who_def)
  from batch_rows_okD(5) [OF assms(1) r(1)] obtain c where c: "reqs r = Some c"
    "row_shows h (gb_vocab_size g) c w" by blast
  obtain k where "gb_index g r = Some k" using r(1) by (auto simp: view_def split: option.splits)
  then have "Some r \<in> set (cb_ids (gb_slots g))" using holes_okD(1) [OF assms(2)] nth_mem by metis
  then show "someone Q reqs g" using c assms(3) r(2) by (auto simp: someone_def)
next
  assume "someone Q reqs g"
  then obtain r c where r: "Some r \<in> set (cb_ids (gb_slots g))" "reqs r = Some c" "Q c"
    by (auto simp: someone_def)
  then obtain k where k: "k < length (cb_ids (gb_slots g))" "cb_ids (gb_slots g) ! k = Some r"
    by (auto simp: in_set_conv_nth)
  from row_of_index [OF assms(1,2) k(1)] k(2) r(2,3) assms(3) show "who P g \<noteq> {}"
    by (fastforce simp: who_def)
qed

lemma someone_disj:
  "someone (\<lambda>c. P c \<or> Q c) reqs g \<longleftrightarrow> someone P reqs g \<or> someone Q reqs g"
  by (auto simp: someone_def)

lemma row_columns:
  assumes "row_shows h V c w"
  shows "rw_temperature w = (if sampling_type_of (cs_params c) = GREEDY then - 1 else temperature (cs_params c))"
    "rw_top_p w = sp_top_p (cs_params c)"
    "rw_top_k w = (if top_k_set V (cs_params c) then sp_top_k (cs_params c) else V)"
    "rw_min_p w = sp_min_p (cs_params c)" "rw_frequency w = frequency_penalty (cs_params c)"
    "rw_presence w = presence_penalty (cs_params c)" "rw_repetition w = repetition_penalty (cs_params c)"
  using assms by (simp_all add: row_shows_def sampling_shows_def Let_def)

lemma set_someone:
  assumes "batch_rows_ok L B reqs h g" "batch_ok (gb_slots g)"
  shows "gb_random g \<noteq> {} \<longleftrightarrow> someone (\<lambda>c. sampling_type_of (cs_params c) \<noteq> GREEDY) reqs g"
    "gb_greedy g \<noteq> {} \<longleftrightarrow> someone (\<lambda>c. sampling_type_of (cs_params c) = GREEDY) reqs g"
    "gb_top_p g \<noteq> {} \<longleftrightarrow> someone (\<lambda>c. sp_top_p (cs_params c) < 1) reqs g"
    "gb_top_k g \<noteq> {} \<longleftrightarrow> someone (\<lambda>c. top_k_set (gb_vocab_size g) (cs_params c)) reqs g"
    "gb_min_p g \<noteq> {} \<longleftrightarrow> someone (\<lambda>c. sampling_eps < sp_min_p (cs_params c)) reqs g"
    "gb_frequency g \<noteq> {} \<longleftrightarrow> someone (\<lambda>c. frequency_penalty (cs_params c) \<noteq> 0) reqs g"
    "gb_presence g \<noteq> {} \<longleftrightarrow> someone (\<lambda>c. presence_penalty (cs_params c) \<noteq> 0) reqs g"
    "gb_repetition g \<noteq> {} \<longleftrightarrow> someone (\<lambda>c. repetition_penalty (cs_params c) \<noteq> 1) reqs g"
proof -
  have greedy: "rw_temperature w = - 1 \<longleftrightarrow> sampling_type_of (cs_params c) = GREEDY"
    if "row_shows h (gb_vocab_size g) c w" for c w
    using row_columns(1) [OF that] by (auto simp: sampling_type_of_def)
  have top_k: "rw_top_k w < gb_vocab_size g \<longleftrightarrow> top_k_set (gb_vocab_size g) (cs_params c)"
    if "row_shows h (gb_vocab_size g) c w" for c w
    using row_columns(3) [OF that] by (auto simp: top_k_set_def)
  have sets: "gb_random g = who (\<lambda>w. rw_temperature w \<noteq> - 1) g" "gb_greedy g = who (\<lambda>w. rw_temperature w = - 1) g"
    "gb_top_p g = who (\<lambda>w. rw_top_p w < 1) g" "gb_top_k g = who (\<lambda>w. rw_top_k w < gb_vocab_size g) g"
    "gb_min_p g = who (\<lambda>w. sampling_eps < rw_min_p w) g" "gb_frequency g = who (\<lambda>w. rw_frequency w \<noteq> 0) g"
    "gb_presence g = who (\<lambda>w. rw_presence w \<noteq> 0) g" "gb_repetition g = who (\<lambda>w. rw_repetition w \<noteq> 1) g"
    using batch_rows_okD(6) [OF assms(1)] unfolding sets_ok_def by blast+
  note who = who_someone [OF assms]
  show "gb_random g \<noteq> {} \<longleftrightarrow> someone (\<lambda>c. sampling_type_of (cs_params c) \<noteq> GREEDY) reqs g"
    unfolding sets by (rule who) (simp add: greedy)
  show "gb_greedy g \<noteq> {} \<longleftrightarrow> someone (\<lambda>c. sampling_type_of (cs_params c) = GREEDY) reqs g"
    unfolding sets by (rule who) (simp add: greedy)
  show "gb_top_p g \<noteq> {} \<longleftrightarrow> someone (\<lambda>c. sp_top_p (cs_params c) < 1) reqs g"
    unfolding sets by (rule who) (simp add: row_columns)
  show "gb_top_k g \<noteq> {} \<longleftrightarrow> someone (\<lambda>c. top_k_set (gb_vocab_size g) (cs_params c)) reqs g"
    unfolding sets by (rule who) (simp add: top_k)
  show "gb_min_p g \<noteq> {} \<longleftrightarrow> someone (\<lambda>c. sampling_eps < sp_min_p (cs_params c)) reqs g"
    unfolding sets by (rule who) (simp add: row_columns)
  show "gb_frequency g \<noteq> {} \<longleftrightarrow> someone (\<lambda>c. frequency_penalty (cs_params c) \<noteq> 0) reqs g"
    unfolding sets by (rule who) (simp add: row_columns)
  show "gb_presence g \<noteq> {} \<longleftrightarrow> someone (\<lambda>c. presence_penalty (cs_params c) \<noteq> 0) reqs g"
    unfolding sets by (rule who) (simp add: row_columns)
  show "gb_repetition g \<noteq> {} \<longleftrightarrow> someone (\<lambda>c. repetition_penalty (cs_params c) \<noteq> 1) reqs g"
    unfolding sets by (rule who) (simp add: row_columns)
qed

end
