(* ===== verification/GpuUpdate.thy ===== *)
theory GpuUpdate
  imports BatchRows
begin

text \<open>
  The worker's side of a step: \<open>SpecParallelGPUModelRunner._update_states\<close>
  (\<open>spexis/spec_parallel/gpu_model_runner.py\<close>), which brings the cached states of the requests and
  the persistent batch up to date with the output of the scheduler. Encoder outputs are opaque: of
  the encoder cache the input ids are kept. The positions of M-RoPE are left out. A generator is
  its seed.
\<close>

section \<open>The runner\<close>

record runner =
  ru_requests :: "string \<Rightarrow> cached_state option"
  ru_encoder :: "string \<Rightarrow> int set option"
  ru_heap :: out_heap
  ru_batch :: gpu_batch
  ru_pp_size :: int
  ru_metadata :: "sampling_metadata option"

definition forget_request :: "string \<Rightarrow> runner \<Rightarrow> runner" where
  "forget_request r ru =
     ru\<lparr>ru_requests := (ru_requests ru)(r := None), ru_encoder := (ru_encoder ru)(r := None)\<rparr>"

definition drop_encoder_input :: "string \<times> int \<Rightarrow> runner \<Rightarrow> runner" where
  "drop_encoder_input = (\<lambda>(r, i) ru.
     case ru_encoder ru r of
       None \<Rightarrow> ru
     | Some S \<Rightarrow>
         ru\<lparr>ru_encoder := (ru_encoder ru)(r := (if S - {i} = {} then None else Some (S - {i})))\<rparr>)"

text \<open>A request that is scheduled for the first time.\<close>

definition cache_new_request :: "new_request_data \<Rightarrow> runner \<Rightarrow> runner" where
  "cache_new_request d ru =
     (let p = nr_sampling_params d; h = ru_heap ru in
      ru\<lparr>ru_requests := (ru_requests ru)(nr_req_id d \<mapsto>
           \<lparr>cs_req_id = nr_req_id d, cs_prompt_token_ids = nr_prompt_token_ids d, cs_params = p,
            cs_generator = (if sampling_type_of p = RANDOM_SEED then sp_seed p else None),
            cs_block_ids = nr_block_ids d, cs_num_computed_tokens = nr_num_computed_tokens d,
            cs_output = length h, cs_lora_request = nr_lora_request d\<rparr>),
         ru_heap := h @ [[]]\<rparr>)"

section \<open>Running and resumed requests\<close>

text \<open>
  A rejected speculation: the output is cut off at the wrong token and continued, which makes a new
  list. Otherwise the token ids beyond those already known are appended to the list at hand.
\<close>

definition correct_output ::
  "cached_request_data \<Rightarrow> cached_state \<Rightarrow> out_heap \<Rightarrow> cached_state \<times> out_heap" where
  "correct_output d c h =
     (c\<lparr>cs_output := length h\<rparr>,
      h @ [py_upto (cs_output_ids h c) (cr_fixed_idx d) @ cr_new_token_ids d])"

definition extend_output :: "cached_request_data \<Rightarrow> cached_state \<Rightarrow> out_heap \<Rightarrow> out_heap res" where
  "extend_output d c h =
     (let n = cr_num_computed_tokens d + py_len (cr_new_token_ids d) - cs_num_tokens h c;
          out = cs_output_ids h c in
      if n = 1
      then ebind (py_get (cr_new_token_ids d) (- 1)) (\<lambda>t. Inr (h[cs_output c := out @ [t]]))
      else if 0 < n then Inr (h[cs_output c := out @ py_from (cr_new_token_ids d) (- n)])
      else Inr h)"

definition update_state ::
  "cached_request_data \<Rightarrow> cached_state \<Rightarrow> out_heap \<Rightarrow> (cached_state \<times> out_heap) res" where
  "update_state d c h =
     (let c1 = c\<lparr>cs_num_computed_tokens := cr_num_computed_tokens d\<rparr>;
          blocks = (if resumed_from_preemption d then cr_new_block_ids d
                    else cs_block_ids c @ cr_new_block_ids d) in
      ebind (if \<not> cr_spec_result d then Inr (correct_output d c1 h)
             else ebind (extend_output d c1 h) (\<lambda>h'. Inr (c1, h'))) (\<lambda>(c2, h').
      Inr (c2\<lparr>cs_block_ids := blocks\<rparr>, h')))"

text \<open>The row of a request that is in the batch.\<close>

definition update_row_tokens ::
  "int \<Rightarrow> cached_request_data \<Rightarrow> gpu_row \<Rightarrow> gpu_row res" where
  "update_row_tokens pp d w =
     (let start = cr_num_computed_tokens d; new = cr_new_token_ids d in
      if \<not> cr_spec_result d
      then ebind (np_set_slice (rw_tokens w) start (start + 1) new) (\<lambda>ts.
           ebind (np_set_slice ts (start + 1) (start + pp + 1) [0]) (\<lambda>ts'.
           Inr (w\<lparr>rw_tokens := ts', rw_num_tokens_no_spec := start + 1\<rparr>)))
      else ebind (np_set_slice (rw_tokens w) start (start + py_len new) new) (\<lambda>ts.
           Inr (w\<lparr>rw_tokens := ts, rw_num_tokens_no_spec := start + py_len new\<rparr>)))"

definition update_row_spec :: "int \<Rightarrow> int list \<Rightarrow> gpu_row \<Rightarrow> gpu_row res" where
  "update_row_spec end spec w =
     (if spec = [] then Inr (w\<lparr>rw_num_tokens := end\<rparr>)
      else ebind (np_set_slice (rw_tokens w) end (end + py_len spec) spec) (\<lambda>ts.
           Inr (w\<lparr>rw_tokens := ts, rw_num_tokens := end + py_len spec\<rparr>)))"

definition spec_tokens_of :: "scheduler_output \<Rightarrow> string \<Rightarrow> int list" where
  "spec_tokens_of so r = or_default [] (map_of (so_spec_decode_tokens so) r)"

definition update_row :: "int \<Rightarrow> scheduler_output \<Rightarrow> cached_request_data \<Rightarrow> gpu_row \<Rightarrow> gpu_row res" where
  "update_row pp so d w =
     ebind (bt_append_row (cr_new_block_ids d) (w\<lparr>rw_num_computed := cr_num_computed_tokens d\<rparr>)) (\<lambda>w1.
     ebind (update_row_tokens pp d w1)
       (update_row_spec (cr_num_computed_tokens d + py_len (cr_new_token_ids d))
          (spec_tokens_of so (cr_req_id d))))"

definition update_cached ::
  "scheduler_output \<Rightarrow> cached_request_data \<Rightarrow> string list \<times> runner \<Rightarrow> (string list \<times> runner) res" where
  "update_cached so d = (\<lambda>(to_add, ru).
     (let r = cr_req_id d; g = ru_batch ru in
      case ru_requests ru r of
        None \<Rightarrow> Inl KeyError
      | Some c \<Rightarrow>
          ebind (update_state d c (ru_heap ru)) (\<lambda>(c', h).
          (let ru1 = ru\<lparr>ru_requests := (ru_requests ru)(r \<mapsto> c'), ru_heap := h\<rparr> in
           case gb_index g r of
             None \<Rightarrow> Inr (to_add @ [r], ru1)
           | Some k \<Rightarrow>
               ebind (py_get (gb_rows g) (int k)) (\<lambda>w.
               ebind (update_row (ru_pp_size ru) so d w) (\<lambda>w'.
               Inr (to_add, ru1\<lparr>ru_batch := g\<lparr>gb_rows := (gb_rows g)[k := w']\<rparr>\<rparr>)))))))"

section \<open>A step\<close>

definition gpu_update_states ::
  "(string set \<Rightarrow> string list) \<Rightarrow> scheduler_output \<Rightarrow> runner \<Rightarrow> runner res" where
  "gpu_update_states enum so ru =
     (let ru1 = fold forget_request (enum (so_finished_req_ids so)) ru in
      ebind (efold (remove_step gpu_remove False) (enum (so_finished_req_ids so)) ([], ru_batch ru1))
        (\<lambda>(removed1, g1).
     (let ru2 = fold drop_encoder_input (so_free_encoder_input_ids so) ru1 in
      ebind (efold (remove_step gpu_remove True)
               (enum (set (map fst (cb_index (gb_slots g1))) - scheduled_ids so)) (removed1, g1))
        (\<lambda>(removed, g2).
     (let ru3 = fold cache_new_request (so_new_reqs so) (ru2\<lparr>ru_batch := g2\<rparr>) in
      ebind (efold (update_cached so) (so_cached_reqs so) (map nr_req_id (so_new_reqs so), ru3))
        (\<lambda>(to_add, ru4).
      ebind (efold (add_step (gpu_add_cached (ru_requests ru4) (ru_heap ru4))) to_add
               (rev (sort removed), ru_batch ru4)) (\<lambda>(es, g5).
      ebind (if es \<noteq> [] then gpu_condense es g5 else Inr g5) (\<lambda>g6.
      ebind (if removed \<noteq> [] \<or> to_add \<noteq> []
             then ebind (make_sampling_metadata g6) (\<lambda>m. Inr (Some m))
             else Inr (ru_metadata ru4)) (\<lambda>m.
      Inr (ru4\<lparr>ru_batch := g6, ru_metadata := m\<rparr>))))))))))"

section \<open>The invariant\<close>

text \<open>
  Each cached state is filed under its own id, its output list exists, and no two share one.
\<close>

definition states_ok :: "int \<Rightarrow> (string \<Rightarrow> cached_state option) \<Rightarrow> out_heap \<Rightarrow> bool" where
  "states_ok V reqs h \<longleftrightarrow>
     (\<forall>r c. reqs r = Some c \<longrightarrow> cs_req_id c = r \<and> cs_output c < length h \<and>
        (\<forall>i \<in> set (allowed_ids c). 0 \<le> i \<and> i < V)) \<and>
     (\<forall>r q c d. reqs r = Some c \<and> reqs q = Some d \<and> cs_output c = cs_output d \<longrightarrow> r = q)"

definition stepping :: "nat \<Rightarrow> nat \<Rightarrow> nat set \<Rightarrow> cpu_batch \<Rightarrow> runner \<Rightarrow> bool" where
  "stepping L B E slots ru \<longleftrightarrow>
     gb_slots (ru_batch ru) = slots \<and> holes_ok E slots \<and>
     batch_rows_ok L B (ru_requests ru) (ru_heap ru) (ru_batch ru) \<and>
     states_ok (gb_vocab_size (ru_batch ru)) (ru_requests ru) (ru_heap ru) \<and> 0 \<le> ru_pp_size ru"

definition runner_ok :: "nat \<Rightarrow> nat \<Rightarrow> runner \<Rightarrow> bool" where
  "runner_ok L B ru \<longleftrightarrow> stepping L B {} (gb_slots (ru_batch ru)) ru"

text \<open>Nothing changes but for the requests in \<open>R\<close>.\<close>

definition keeps :: "string set \<Rightarrow> runner \<Rightarrow> runner \<Rightarrow> bool" where
  "keeps R ru ru' \<longleftrightarrow>
     (\<forall>r. r \<notin> R \<longrightarrow> ru_requests ru' r = ru_requests ru r \<and> view (ru_batch ru') r = view (ru_batch ru) r \<and>
        (\<forall>c. ru_requests ru r = Some c \<longrightarrow> cs_output_ids (ru_heap ru') c = cs_output_ids (ru_heap ru) c)) \<and>
     gb_vocab_size (ru_batch ru') = gb_vocab_size (ru_batch ru)"

lemma keeps_refl: "keeps {} ru ru"
  by (simp add: keeps_def)

lemma keeps_trans: "\<lbrakk>keeps R ru ru'; keeps S ru' ru''\<rbrakk> \<Longrightarrow> keeps (R \<union> S) ru ru''"
  unfolding keeps_def by (metis Un_iff)

lemma tokens_show_cong: "cs_output_ids h' c = cs_output_ids h c \<Longrightarrow> tokens_show h' c = tokens_show h c"
  by (simp add: fun_eq_iff tokens_show_def cs_tokens_def)

lemma batch_rows_cong:
  assumes "batch_rows_ok L B reqs h g"
    and "\<And>r w. view g r = Some w \<Longrightarrow> reqs' r = reqs r \<and>
      (\<forall>c. reqs r = Some c \<longrightarrow> cs_output_ids h' c = cs_output_ids h c)"
  shows "batch_rows_ok L B reqs' h' g"
proof -
  have "\<exists>c. reqs' r = Some c \<and> row_shows h' (gb_vocab_size g) c w \<and> (allowed_ids c \<noteq> [] \<longrightarrow> gb_mask_allocated g)"
    if v: "view g r = Some w" for r w
  proof -
    from batch_rows_okD(5) [OF assms(1) v] obtain c where c: "reqs r = Some c"
      "row_shows h (gb_vocab_size g) c w" "allowed_ids c \<noteq> [] \<longrightarrow> gb_mask_allocated g" by blast
    have reqs': "reqs' r = Some c" and same: "cs_output_ids h' c = cs_output_ids h c"
      using assms(2) [OF v] c(1) by simp_all
    have "row_shows h' (gb_vocab_size g) c w"
      using c(2) by (simp only: row_shows_def tokens_show_cong [OF same])
    with reqs' c(3) show ?thesis by blast
  qed
  then show ?thesis using assms(1) unfolding batch_rows_ok_def by blast
qed

lemma states_okD:
  assumes "states_ok V reqs h" "reqs r = Some c"
  shows "cs_req_id c = r" "cs_output c < length h" "\<forall>i \<in> set (allowed_ids c). 0 \<le> i \<and> i < V"
    "\<lbrakk>reqs q = Some d; q \<noteq> r\<rbrakk> \<Longrightarrow> cs_output d \<noteq> cs_output c"
  using assms unfolding states_ok_def by blast+

lemma states_ok_insert:
  assumes "states_ok V reqs h" "length h \<le> length h'" "cs_req_id c = r" "cs_output c < length h'"
    and "\<forall>i \<in> set (allowed_ids c). 0 \<le> i \<and> i < V"
    and "\<And>q d. \<lbrakk>reqs q = Some d; q \<noteq> r\<rbrakk> \<Longrightarrow> cs_output d \<noteq> cs_output c"
  shows "states_ok V (reqs(r \<mapsto> c)) h'"
  unfolding states_ok_def
proof (intro conjI allI impI)
  fix q b assume b: "(reqs(r \<mapsto> c)) q = Some b"
  then show "cs_req_id b = q" "cs_output b < length h'" "\<forall>i \<in> set (allowed_ids b). 0 \<le> i \<and> i < V"
    using states_okD(1-3) [OF assms(1), of q b] assms(2-5) by (auto split: if_splits)
next
  fix q p b e
  assume same: "(reqs(r \<mapsto> c)) q = Some b \<and> (reqs(r \<mapsto> c)) p = Some e \<and> cs_output b = cs_output e"
  show "q = p"
  proof (cases "q = r \<or> p = r")
    case True
    then show ?thesis using same assms(6) by (metis fun_upd_apply option.inject)
  next
    case False
    then show ?thesis using same states_okD(4) [OF assms(1)] by (metis fun_upd_other)
  qed
qed

lemma states_ok_restrict:
  "\<lbrakk>states_ok V reqs h; \<And>r c. reqs' r = Some c \<Longrightarrow> reqs r = Some c\<rbrakk> \<Longrightarrow> states_ok V reqs' h"
  unfolding states_ok_def by blast

section \<open>Forgetting and caching requests\<close>

lemma forget_all [simp]:
  "ru_requests (fold forget_request rs ru) = (\<lambda>r. if r \<in> set rs then None else ru_requests ru r)"
  "ru_heap (fold forget_request rs ru) = ru_heap ru" "ru_batch (fold forget_request rs ru) = ru_batch ru"
  "ru_pp_size (fold forget_request rs ru) = ru_pp_size ru"
  by (induction rs arbitrary: ru) (auto simp: forget_request_def)

lemma free_inputs [simp]:
  "ru_requests (fold drop_encoder_input xs ru) = ru_requests ru"
  "ru_heap (fold drop_encoder_input xs ru) = ru_heap ru"
  "ru_batch (fold drop_encoder_input xs ru) = ru_batch ru"
  "ru_pp_size (fold drop_encoder_input xs ru) = ru_pp_size ru"
  by (induction xs arbitrary: ru) (auto simp: drop_encoder_input_def split: option.splits)

definition new_fits :: "nat \<Rightarrow> nat \<Rightarrow> int \<Rightarrow> new_request_data \<Rightarrow> bool" where
  "new_fits L B V d \<longleftrightarrow> length (nr_prompt_token_ids d) \<le> L \<and> length (nr_block_ids d) \<le> B \<and>
     (\<forall>i \<in> set (or_default [] (sp_allowed_token_ids (nr_sampling_params d))). 0 \<le> i \<and> i < V)"

text \<open>The state of a request that has just been announced as new.\<close>

definition after_new :: "new_request_data \<Rightarrow> out_heap \<Rightarrow> cached_state \<Rightarrow> bool" where
  "after_new d h c \<longleftrightarrow> cs_tokens h c = nr_prompt_token_ids d \<and>
     cs_num_computed_tokens c = nr_num_computed_tokens d \<and> cs_block_ids c = nr_block_ids d"

text \<open>A state that is kept as the output lists of others change.\<close>

lemma state_keeps:
  assumes "keeps R ru ru'" "r \<notin> R" "ru_requests ru r = Some c"
  shows "ru_requests ru' r = Some c" "cs_tokens (ru_heap ru') c = cs_tokens (ru_heap ru) c"
  using assms by (simp_all add: keeps_def cs_tokens_def)

lemma cache_new_ok:
  assumes "stepping L B E slots ru" "map_of (cb_index slots) (nr_req_id d) = None"
    and "new_fits L B (gb_vocab_size (ru_batch ru)) d"
  shows "stepping L B E slots (cache_new_request d ru) \<and> keeps {nr_req_id d} ru (cache_new_request d ru) \<and>
    (\<exists>c. ru_requests (cache_new_request d ru) (nr_req_id d) = Some c \<and>
       request_fits L B (gb_vocab_size (ru_batch ru)) (ru_heap (cache_new_request d ru)) c \<and>
       after_new d (ru_heap (cache_new_request d ru)) c)"
proof -
  let ?r = "nr_req_id d" and ?h = "ru_heap ru" and ?g = "ru_batch ru"
  obtain c where c: "cache_new_request d ru =
      ru\<lparr>ru_requests := (ru_requests ru)(?r \<mapsto> c), ru_heap := ?h @ [[]]\<rparr>"
    and cs: "cs_req_id c = ?r" "cs_output c = length ?h" "cs_params c = nr_sampling_params d"
      "cs_prompt_token_ids c = nr_prompt_token_ids d" "cs_block_ids c = nr_block_ids d"
      "cs_num_computed_tokens c = nr_num_computed_tokens d"
    by (simp add: cache_new_request_def Let_def)
  let ?ru = "ru\<lparr>ru_requests := (ru_requests ru)(?r \<mapsto> c), ru_heap := ?h @ [[]]\<rparr>"
  have inv: "gb_slots ?g = slots" "holes_ok E slots"
    "batch_rows_ok L B (ru_requests ru) ?h ?g" "states_ok (gb_vocab_size ?g) (ru_requests ru) ?h"
    "0 \<le> ru_pp_size ru"
    using assms(1) by (simp_all add: stepping_def)
  have old: "cs_output_ids (?h @ [[]]) b = cs_output_ids ?h b" if "ru_requests ru q = Some b" for q b
    using inv(4) that by (simp add: states_ok_def cs_output_ids_def nth_append)
  have "view ?g ?r = None" using assms(2) inv(1) by (simp add: view_def)
  then have "batch_rows_ok L B ((ru_requests ru)(?r \<mapsto> c)) (?h @ [[]]) ?g"
    using old by (intro batch_rows_cong [OF inv(3)]) auto
  moreover have "states_ok (gb_vocab_size ?g) ((ru_requests ru)(?r \<mapsto> c)) (?h @ [[]])"
  proof (rule states_ok_insert [OF inv(4)])
    show "\<forall>i \<in> set (allowed_ids c). 0 \<le> i \<and> i < gb_vocab_size ?g"
      using assms(3) cs(3) by (simp add: new_fits_def allowed_ids_def)
    show "cs_output b \<noteq> cs_output c" if "ru_requests ru q = Some b" "q \<noteq> ?r" for q b
      using states_okD(2) [OF inv(4) that(1)] cs(2) by simp
  qed (use cs in simp_all)
  ultimately have "stepping L B E slots ?ru" using inv by (simp add: stepping_def)
  moreover have "keeps {?r} ru ?ru" using old by (simp add: keeps_def)
  moreover have "request_fits L B (gb_vocab_size ?g) (?h @ [[]]) c"
    using assms(3) cs by (simp add: request_fits_def new_fits_def cs_tokens_def cs_output_ids_def allowed_ids_def)
  moreover have "after_new d (?h @ [[]]) c" using cs by (simp add: after_new_def cs_tokens_def cs_output_ids_def)
  ultimately show ?thesis unfolding c by simp
qed

lemma cache_all_ok:
  assumes "stepping L B E slots ru" "distinct (map nr_req_id ds)"
    and "\<forall>d \<in> set ds. map_of (cb_index slots) (nr_req_id d) = None \<and> new_fits L B (gb_vocab_size (ru_batch ru)) d"
  shows "stepping L B E slots (fold cache_new_request ds ru) \<and>
    keeps (nr_req_id ` set ds) ru (fold cache_new_request ds ru) \<and>
    (\<forall>d \<in> set ds. \<exists>c. ru_requests (fold cache_new_request ds ru) (nr_req_id d) = Some c \<and>
       request_fits L B (gb_vocab_size (ru_batch ru)) (ru_heap (fold cache_new_request ds ru)) c \<and>
       after_new d (ru_heap (fold cache_new_request ds ru)) c)"
  using assms
proof (induction ds arbitrary: ru)
  case Nil
  then show ?case by (simp add: keeps_refl)
next
  case (Cons d ds)
  let ?ru = "cache_new_request d ru" and ?r = "nr_req_id d" and ?V = "gb_vocab_size (ru_batch ru)"
  have one: "stepping L B E slots ?ru" "keeps {?r} ru ?ru"
    "\<exists>c. ru_requests ?ru ?r = Some c \<and> request_fits L B ?V (ru_heap ?ru) c \<and> after_new d (ru_heap ?ru) c"
    using cache_new_ok [OF Cons.prems(1), of d] Cons.prems(3) by simp_all
  have V: "gb_vocab_size (ru_batch ?ru) = ?V" using one(2) by (simp add: keeps_def)
  have rest: "stepping L B E slots (fold cache_new_request ds ?ru)"
    "keeps (nr_req_id ` set ds) ?ru (fold cache_new_request ds ?ru)"
    "\<forall>d \<in> set ds. \<exists>c. ru_requests (fold cache_new_request ds ?ru) (nr_req_id d) = Some c \<and>
       request_fits L B ?V (ru_heap (fold cache_new_request ds ?ru)) c \<and>
       after_new d (ru_heap (fold cache_new_request ds ?ru)) c"
    using Cons.IH [OF one(1)] Cons.prems(2,3) V by simp_all
  have "?r \<notin> nr_req_id ` set ds" using Cons.prems(2) by simp
  then have "\<exists>c. ru_requests (fold cache_new_request ds ?ru) ?r = Some c \<and>
      request_fits L B ?V (ru_heap (fold cache_new_request ds ?ru)) c \<and>
      after_new d (ru_heap (fold cache_new_request ds ?ru)) c"
  proof -
    assume "?r \<notin> nr_req_id ` set ds"
    moreover obtain c where c: "ru_requests ?ru ?r = Some c" "request_fits L B ?V (ru_heap ?ru) c"
      "after_new d (ru_heap ?ru) c" using one(3) by blast
    ultimately show ?thesis using state_keeps [OF rest(2) _ c(1)] c(2,3)
      by (simp add: request_fits_def after_new_def)
  qed
  then show ?case using rest keeps_trans [OF one(2) rest(2)] by simp
qed

section \<open>Updating a cached state\<close>

text \<open>
  What the scheduler's output for a running or resumed request promises, given the worker's state
  of it: the token ids it sends start at or before the end of those the worker knows and agree
  with them, or replace the token at which a speculation was wrong; and they fit the row.
\<close>

definition cached_fits :: "nat \<Rightarrow> nat \<Rightarrow> out_heap \<Rightarrow> cached_request_data \<Rightarrow> cached_state \<Rightarrow> bool" where
  "cached_fits L B h d c \<longleftrightarrow>
     (let ts = cs_tokens h c; nc = cr_num_computed_tokens d; new = cr_new_token_ids d in
      0 \<le> nc \<and> nc \<le> py_len ts \<and> length ts \<le> L \<and> nc + py_len new \<le> int L \<and>
      length (if resumed_from_preemption d then cr_new_block_ids d
              else cs_block_ids c @ cr_new_block_ids d) \<le> B \<and>
      (if cr_spec_result d then take (length new) (drop (nat nc) ts) = take (length ts - nat nc) new
       else (\<exists>t. new = [t]) \<and> 0 \<le> cr_fixed_idx d \<and> cr_fixed_idx d < py_len (cs_output_ids h c) \<and>
         nc = py_len (cs_prompt_token_ids c) + cr_fixed_idx d))"

definition tokens_after :: "int list \<Rightarrow> cached_request_data \<Rightarrow> int list" where
  "tokens_after ts d =
     (let nc = nat (cr_num_computed_tokens d); new = cr_new_token_ids d in
      if cr_spec_result d then ts @ drop (length ts - nc) new else take nc ts @ new)"

lemma take_extension:
  assumes "take (length new) (drop nc ts) = take (length ts - nc) new" "nc \<le> length ts"
  shows "take (nc + length new) (ts @ drop (length ts - nc) new) = take nc ts @ new"
proof (cases "length new \<le> length ts - nc")
  case True
  then have "take (nc + length new) ts = take nc ts @ take (length new) (drop nc ts)"
    by (simp add: take_add)
  then show ?thesis using True assms by simp
next
  case False
  then have "drop nc ts = take (length ts - nc) new" using assms by simp
  then have "ts = take nc ts @ take (length ts - nc) new" by (metis append_take_drop_id)
  then have "ts @ drop (length ts - nc) new = take nc ts @ new"
    by (metis append.assoc append_take_drop_id)
  then show ?thesis using assms(2) by simp
qed

lemma tokens_after_ok:
  assumes "cached_fits L B h d c"
  shows "take (nat (cr_num_computed_tokens d) + length (cr_new_token_ids d)) (tokens_after (cs_tokens h c) d) =
      take (nat (cr_num_computed_tokens d)) (cs_tokens h c) @ cr_new_token_ids d"
    "nat (cr_num_computed_tokens d) + length (cr_new_token_ids d) \<le> length (tokens_after (cs_tokens h c) d)"
    "length (tokens_after (cs_tokens h c) d) \<le> L"
proof -
  let ?ts = "cs_tokens h c" and ?nc = "nat (cr_num_computed_tokens d)" and ?new = "cr_new_token_ids d"
  have fits: "?nc \<le> length ?ts" "length ?ts \<le> L" "?nc + length ?new \<le> L"
    "cr_spec_result d \<Longrightarrow> take (length ?new) (drop ?nc ?ts) = take (length ?ts - ?nc) ?new"
    using assms by (auto simp: cached_fits_def Let_def py_len_def)
  show "take (?nc + length ?new) (tokens_after ?ts d) = take ?nc ?ts @ ?new"
    using take_extension [OF fits(4) fits(1)] fits(1) by (cases "cr_spec_result d") (simp_all add: tokens_after_def Let_def)
  show "?nc + length ?new \<le> length (tokens_after ?ts d)" "length (tokens_after ?ts d) \<le> L"
    using fits(1-3) by (auto simp: tokens_after_def Let_def)
qed

lemma extend_output_ok:
  assumes "cached_fits L B h d c" "cr_spec_result d" "cs_output c < length h"
  shows "extend_output d c h = Inr (h[cs_output c := cs_output_ids h c @
    drop (length (cs_tokens h c) - nat (cr_num_computed_tokens d)) (cr_new_token_ids d)])"
proof -
  let ?ts = "cs_tokens h c" and ?nc = "nat (cr_num_computed_tokens d)" and ?new = "cr_new_token_ids d"
  let ?n = "cr_num_computed_tokens d + py_len ?new - cs_num_tokens h c"
  have fits: "0 \<le> cr_num_computed_tokens d" "?nc \<le> length ?ts"
    using assms(1) by (auto simp: cached_fits_def Let_def py_len_def)
  have n: "?n = int ?nc + int (length ?new) - int (length ?ts)"
    using fits(1) by (simp add: cs_num_tokens_def cs_tokens_def py_len_def)
  consider "?n = 1" | "1 < ?n" | "?n \<le> 0" by linarith
  then show ?thesis
  proof cases
    case 1
    then have len: "length ?new = Suc (length ?ts - ?nc)" using n fits(2) by linarith
    then have "?new \<noteq> []" by auto
    then have "py_get ?new (- 1) = Inr (last ?new)" by (rule py_get_last)
    moreover have "drop (length ?ts - ?nc) ?new = [last ?new]"
      using len \<open>?new \<noteq> []\<close> by (metis append_butlast_last_id append_eq_conv_conj diff_Suc_1 length_butlast)
    ultimately show ?thesis using 1 by (simp add: extend_output_def Let_def)
  next
    case 2
    have "py_clamp (int (length ?new)) (- ?n) = int (length ?new) - ?n"
      using 2 n fits(2) by (simp add: py_clamp_def)
    also have "\<dots> = int (length ?ts - ?nc)" using n fits(2) by (simp add: of_nat_diff)
    finally have "nat (py_clamp (int (length ?new)) (- ?n)) = length ?ts - ?nc" by simp
    then show ?thesis using 2 by (simp add: extend_output_def Let_def py_from_def)
  next
    case 3
    then have "int (length ?new) \<le> int (length ?ts) - int ?nc" unfolding n by linarith
    then have "length ?new \<le> length ?ts - ?nc" using fits(2) by linarith
    then have "drop (length ?ts - ?nc) ?new = []" by simp
    then show ?thesis using 3 by (simp add: extend_output_def Let_def cs_output_ids_def)
  qed
qed

lemma cs_tokens_update [simp]:
  "cs_tokens h (c\<lparr>cs_num_computed_tokens := n\<rparr>) = cs_tokens h c"
  "cs_output_ids h (c\<lparr>cs_num_computed_tokens := n\<rparr>) = cs_output_ids h c"
  by (simp_all add: cs_tokens_def cs_output_ids_def)

definition blocks_after :: "cached_request_data \<Rightarrow> cached_state \<Rightarrow> nat list" where
  "blocks_after d c =
     (if resumed_from_preemption d then cr_new_block_ids d else cs_block_ids c @ cr_new_block_ids d)"

lemma update_state_ok:
  assumes "cached_fits L B h d c" "cs_output c < length h"
  shows "\<exists>ref h'. update_state d c h =
      Inr (c\<lparr>cs_num_computed_tokens := cr_num_computed_tokens d, cs_output := ref,
             cs_block_ids := blocks_after d c\<rparr>, h') \<and>
    cs_prompt_token_ids c @ h' ! ref = tokens_after (cs_tokens h c) d \<and>
    ref < length h' \<and> (ref = cs_output c \<or> length h \<le> ref) \<and> length h \<le> length h' \<and>
    (\<forall>x < length h. x \<noteq> cs_output c \<longrightarrow> h' ! x = h ! x)"
proof (cases "cr_spec_result d")
  case True
  let ?c = "c\<lparr>cs_num_computed_tokens := cr_num_computed_tokens d\<rparr>"
  have "cached_fits L B h d ?c = cached_fits L B h d c" by (simp add: cached_fits_def)
  then have "cached_fits L B h d ?c" using assms(1) by (rule iffD2)
  from extend_output_ok [OF this True] assms(2)
  have "update_state d c h = Inr (c\<lparr>cs_num_computed_tokens := cr_num_computed_tokens d,
      cs_output := cs_output c, cs_block_ids := blocks_after d c\<rparr>, h[cs_output c := cs_output_ids h c @
      drop (length (cs_tokens h c) - nat (cr_num_computed_tokens d)) (cr_new_token_ids d)])"
    using True by (simp add: update_state_def blocks_after_def Let_def)
  then show ?thesis using True assms(2)
    by (intro exI [of _ "cs_output c"] exI) (auto simp: tokens_after_def cs_tokens_def Let_def)
next
  case False
  let ?out = "cs_output_ids h c" and ?fix = "nat (cr_fixed_idx d)"
  have fits: "?fix \<le> length ?out" "0 \<le> cr_fixed_idx d"
    "nat (cr_num_computed_tokens d) = length (cs_prompt_token_ids c) + ?fix"
    using assms(1) False by (auto simp: cached_fits_def Let_def py_len_def nat_add_distrib)
  have "py_upto ?out (cr_fixed_idx d) = take ?fix ?out" using py_upto_nat [of ?out ?fix] fits(2) by simp
  then have "update_state d c h = Inr (c\<lparr>cs_num_computed_tokens := cr_num_computed_tokens d,
      cs_output := length h, cs_block_ids := blocks_after d c\<rparr>, h @ [take ?fix ?out @ cr_new_token_ids d])"
    using False by (simp add: update_state_def correct_output_def blocks_after_def cs_output_ids_def Let_def)
  moreover have "tokens_after (cs_tokens h c) d =
      cs_prompt_token_ids c @ take ?fix ?out @ cr_new_token_ids d"
    using False fits(3) by (simp add: tokens_after_def cs_tokens_def Let_def)
  ultimately show ?thesis
    by (intro exI [of _ "length h"] exI [of _ "h @ [take ?fix ?out @ cr_new_token_ids d]"])
      (simp add: nth_append)
qed

section \<open>Updating a row\<close>

text \<open>A slice that starts within the known part of a row.\<close>

lemma set_slice_prefix:
  assumes "0 \<le> s" "nat s + length vs \<le> length xs"
  shows "\<exists>ys. np_set_slice xs s (s + py_len vs) vs = Inr (take (nat s) xs @ vs @ ys) \<and>
    length (take (nat s) xs @ vs @ ys) = length xs"
  using np_set_slice_nat [OF assms(2)] assms by (simp add: min_absorb2)

text \<open>Writing a single value into a clamped slice never raises and keeps what is in front of it.\<close>

lemma set_slice_fill:
  assumes "0 \<le> s" "s \<le> e"
  shows "\<exists>ys. np_set_slice xs s e [v] = Inr ys \<and> length ys = length xs \<and> take (nat s) ys = take (nat s) xs"
proof -
  let ?n = "length xs"
  have a: "nat (py_clamp (py_len xs) s) = min (nat s) ?n" "nat (py_clamp (py_len xs) e) = min (nat e) ?n"
    using assms by (auto simp: py_clamp_def py_len_def min_def)
  have b: "min (nat s) ?n \<le> min (nat e) ?n" using assms by auto
  let ?a = "min (nat s) ?n" and ?k = "min (nat e) ?n - min (nat s) ?n"
  have one: "[v] = replicate ?k v" if "length [v] = ?k" unfolding that [symmetric] by simp
  have "np_set_slice xs s e [v] = Inr (take ?a xs @ replicate ?k v @ drop (?a + ?k) xs)"
    unfolding np_set_slice_def a Let_def using one by auto
  moreover have "length (take ?a xs @ replicate ?k v @ drop (?a + ?k) xs) = ?n" using b by simp
  moreover have "take (nat s) (take ?a xs @ replicate ?k v @ drop (?a + ?k) xs) = take (nat s) xs"
    by (cases "nat s \<le> ?n") (simp_all add: min_def)
  ultimately show ?thesis by blast
qed

text \<open>What the output promises of a request that is in the batch.\<close>

definition row_fits :: "scheduler_output \<Rightarrow> cached_request_data \<Rightarrow> gpu_row \<Rightarrow> bool" where
  "row_fits so d w \<longleftrightarrow> \<not> resumed_from_preemption d \<and>
     cr_num_computed_tokens d \<le> rw_num_tokens_no_spec w \<and>
     cr_num_computed_tokens d + py_len (cr_new_token_ids d) + py_len (spec_tokens_of so (cr_req_id d))
       \<le> py_len (rw_tokens w)"

lemma update_row_tokens_ok:
  assumes "0 \<le> pp" "0 \<le> cr_num_computed_tokens d" "\<not> cr_spec_result d \<Longrightarrow> \<exists>t. cr_new_token_ids d = [t]"
    and "nat (cr_num_computed_tokens d) + length (cr_new_token_ids d) \<le> length (rw_tokens w)"
  shows "\<exists>ts. update_row_tokens pp d w = Inr (w\<lparr>rw_tokens := ts,
      rw_num_tokens_no_spec := cr_num_computed_tokens d + py_len (cr_new_token_ids d)\<rparr>) \<and>
    length ts = length (rw_tokens w) \<and>
    take (nat (cr_num_computed_tokens d) + length (cr_new_token_ids d)) ts =
      take (nat (cr_num_computed_tokens d)) (rw_tokens w) @ cr_new_token_ids d"
proof -
  let ?s = "cr_num_computed_tokens d" and ?new = "cr_new_token_ids d"
  from set_slice_prefix [OF assms(2,4)] obtain ys where ys:
    "np_set_slice (rw_tokens w) ?s (?s + py_len ?new) ?new = Inr (take (nat ?s) (rw_tokens w) @ ?new @ ys)"
    "length (take (nat ?s) (rw_tokens w) @ ?new @ ys) = length (rw_tokens w)" by blast
  let ?ts = "take (nat ?s) (rw_tokens w) @ ?new @ ys"
  have pre: "take (nat ?s + length ?new) ?ts = take (nat ?s) (rw_tokens w) @ ?new" using assms(4) by simp
  show ?thesis
  proof (cases "cr_spec_result d")
    case True
    then show ?thesis using ys pre by (intro exI [of _ ?ts]) (simp add: update_row_tokens_def Let_def)
  next
    case False
    with assms(3) obtain t where t: "?new = [t]" by blast
    have one: "np_set_slice (rw_tokens w) ?s (?s + 1) ?new = Inr ?ts" using ys(1) t by simp
    from set_slice_fill [of "?s + 1" "?s + pp + 1" ?ts 0] assms(1,2) obtain us where
      us: "np_set_slice ?ts (?s + 1) (?s + pp + 1) [0] = Inr us" "length us = length ?ts"
      "take (nat (?s + 1)) us = take (nat (?s + 1)) ?ts" by auto
    have "update_row_tokens pp d w = Inr (w\<lparr>rw_tokens := us, rw_num_tokens_no_spec := ?s + 1\<rparr>)"
      using False one us(1) by (simp add: update_row_tokens_def Let_def)
    moreover have "nat (?s + 1) = nat ?s + length ?new" using assms(2) t by simp
    ultimately show ?thesis using us(2,3) pre ys(2) t
      by (intro exI [of _ us]) simp
  qed
qed

lemma update_row_spec_ok:
  assumes "0 \<le> e" "e + py_len spec \<le> py_len (rw_tokens w)"
  shows "\<exists>ts. update_row_spec e spec w = Inr (w\<lparr>rw_tokens := ts, rw_num_tokens := e + py_len spec\<rparr>) \<and>
    length ts = length (rw_tokens w) \<and> take (nat e) ts = take (nat e) (rw_tokens w)"
proof (cases "spec = []")
  case True
  then show ?thesis
    by (intro exI [of _ "rw_tokens w"]) (simp add: update_row_spec_def)
next
  case False
  have "nat e + length spec \<le> length (rw_tokens w)" using assms by (simp add: py_len_def)
  from set_slice_prefix [OF assms(1) this] obtain ys where
    "np_set_slice (rw_tokens w) e (e + py_len spec) spec = Inr (take (nat e) (rw_tokens w) @ spec @ ys)"
    "length (take (nat e) (rw_tokens w) @ spec @ ys) = length (rw_tokens w)" by blast
  then show ?thesis using False \<open>nat e + length spec \<le> length (rw_tokens w)\<close>
    by (intro exI [of _ "take (nat e) (rw_tokens w) @ spec @ ys"]) (simp add: update_row_spec_def)
qed

lemma update_row_ok:
  assumes "row_shows h V c w" "row_wf L B V w" "cached_fits L B h d c" "row_fits so d w" "0 \<le> pp"
    and "cs_tokens h' c' = tokens_after (cs_tokens h c) d"
    and "c' = c\<lparr>cs_num_computed_tokens := cr_num_computed_tokens d, cs_output := ref,
               cs_block_ids := blocks_after d c\<rparr>"
  shows "\<exists>ts bs nb n m. let w' = w\<lparr>rw_num_computed := cr_num_computed_tokens d, rw_num_blocks := nb, rw_blocks := bs,
      rw_tokens := ts, rw_num_tokens_no_spec := n, rw_num_tokens := m\<rparr> in
    update_row pp so d w = Inr w' \<and> row_shows h' V c' w' \<and> row_wf L B V w'"
proof -
  let ?nc = "cr_num_computed_tokens d" and ?new = "cr_new_token_ids d" and ?m = "length (cs_block_ids c)"
  let ?spec = "spec_tokens_of so (cr_req_id d)"
  have shown: "rw_num_blocks w = int ?m" "take ?m (rw_blocks w) = cs_block_ids c"
    "take (nat (rw_num_tokens_no_spec w)) (rw_tokens w) = take (nat (rw_num_tokens_no_spec w)) (cs_tokens h c)"
    "rw_num_prompt_tokens w = py_len (cs_prompt_token_ids c)" "sampling_shows V c w"
    using assms(1) by (simp_all add: row_shows_def tokens_show_def py_len_def)
  have wf: "length (rw_tokens w) = L" "length (rw_blocks w) = B" "length (rw_mask w) = nat V"
    using assms(2) by (simp_all add: row_wf_def)
  have fits: "\<not> resumed_from_preemption d" "?nc \<le> rw_num_tokens_no_spec w" "0 \<le> ?nc"
    "?nc + py_len ?new + py_len ?spec \<le> int L" "nat ?nc + length ?new \<le> L"
    "?m + length (cr_new_block_ids d) \<le> B" "\<not> cr_spec_result d \<Longrightarrow> \<exists>t. ?new = [t]"
    using assms(3,4) wf by (auto simp: cached_fits_def row_fits_def Let_def py_len_def)
  let ?w0 = "w\<lparr>rw_num_computed := ?nc\<rparr>"
  have "rw_num_blocks ?w0 = int ?m" "?m + length (cr_new_block_ids d) \<le> length (rw_blocks ?w0)"
    using shown(1) fits(6) wf(2) by simp_all
  from bt_append_row_ok [OF this] obtain bs where bs:
    "bt_append_row (cr_new_block_ids d) ?w0 =
      Inr (?w0\<lparr>rw_num_blocks := int ?m + py_len (cr_new_block_ids d), rw_blocks := bs\<rparr>)"
    "length bs = B" "take (?m + length (cr_new_block_ids d)) bs = cs_block_ids c @ cr_new_block_ids d"
    using shown(2) wf(2) by auto
  let ?w1 = "?w0\<lparr>rw_num_blocks := int ?m + py_len (cr_new_block_ids d), rw_blocks := bs\<rparr>"
  from update_row_tokens_ok [OF assms(5) fits(3,7), of ?w1] fits(5) wf(1) obtain ts where ts:
    "update_row_tokens pp d ?w1 = Inr (?w1\<lparr>rw_tokens := ts, rw_num_tokens_no_spec := ?nc + py_len ?new\<rparr>)"
    "length ts = L" "take (nat ?nc + length ?new) ts = take (nat ?nc) (rw_tokens w) @ ?new" by auto
  let ?w2 = "?w1\<lparr>rw_tokens := ts, rw_num_tokens_no_spec := ?nc + py_len ?new\<rparr>" and ?e = "?nc + py_len ?new"
  from update_row_spec_ok [of ?e ?spec ?w2] fits(3,4) ts(2) obtain us where us:
    "update_row_spec ?e ?spec ?w2 = Inr (?w2\<lparr>rw_tokens := us, rw_num_tokens := ?e + py_len ?spec\<rparr>)"
    "length us = L" "take (nat ?e) us = take (nat ?e) ts" by (auto simp: py_len_def)
  let ?w3 = "w\<lparr>rw_num_computed := ?nc, rw_num_blocks := int ?m + py_len (cr_new_block_ids d), rw_blocks := bs,
      rw_tokens := us, rw_num_tokens_no_spec := ?e, rw_num_tokens := ?e + py_len ?spec\<rparr>"
  have upd: "update_row pp so d w = Inr ?w3" using bs(1) ts(1) us(1) by (simp add: update_row_def)
  have e: "nat ?e = nat ?nc + length ?new" using fits(3) by (simp add: py_len_def nat_add_distrib)
  have "take (nat ?nc) (rw_tokens w) = take (nat ?nc) (cs_tokens h c)"
    using shown(3) fits(2) by (metis min.absorb1 nat_mono take_take)
  then have toks: "take (nat ?e) us = take (nat ?e) (cs_tokens h' c')"
    using us(3) ts(3) tokens_after_ok(1) [OF assms(3)] by (simp add: e assms(6))
  have len: "nat ?e \<le> length (cs_tokens h' c')"
    using tokens_after_ok(2) [OF assms(3)] by (simp add: e assms(6))
  have blocks: "cs_block_ids c' = cs_block_ids c @ cr_new_block_ids d"
    using assms(7) fits(1) by (simp add: blocks_after_def)
  have "tokens_show h' c' ?w3"
    unfolding tokens_show_def blocks
    using toks len fits(3,4,6) us(2) bs(2,3) shown(4) assms(7) by (simp add: py_len_def)
  moreover have "sampling_shows V c' ?w3"
    using shown(5) assms(7) by (simp add: sampling_shows_def allowed_ids_def Let_def)
  moreover have "row_wf L B V ?w3" using us(2) bs(2) wf(3) by (simp add: row_wf_def)
  ultimately show ?thesis using upd
    by (intro exI [of _ us] exI [of _ bs] exI [of _ "int ?m + py_len (cr_new_block_ids d)"] exI [of _ ?e]
          exI [of _ "?e + py_len ?spec"]) (simp add: row_shows_def)
qed

section \<open>Updating the requests of a step\<close>

lemma batch_rows_update:
  assumes "batch_rows_ok L B reqs h g" "holes_ok E (gb_slots g)" "gb_index g r = Some k"
    and "row_shows h' (gb_vocab_size g) c' w'" "row_wf L B (gb_vocab_size g) w'" "reqs' r = Some c'"
    and "allowed_ids c' \<noteq> [] \<longrightarrow> gb_mask_allocated g"
    and "\<And>q w. \<lbrakk>q \<noteq> r; view g q = Some w\<rbrakk> \<Longrightarrow> reqs' q = reqs q \<and>
      (\<forall>c. reqs q = Some c \<longrightarrow> cs_output_ids h' c = cs_output_ids h c)"
    and "\<exists>ts bs nb n m nc. w' = (gb_rows g ! k)\<lparr>rw_num_computed := nc, rw_num_blocks := nb, rw_blocks := bs,
      rw_tokens := ts, rw_num_tokens_no_spec := n, rw_num_tokens := m\<rparr>"
  shows "batch_rows_ok L B reqs' h' (g\<lparr>gb_rows := (gb_rows g)[k := w']\<rparr>)"
    "view (g\<lparr>gb_rows := (gb_rows g)[k := w']\<rparr>) = (view g)(r \<mapsto> w')"
proof -
  let ?g = "g\<lparr>gb_rows := (gb_rows g)[k := w']\<rparr>" and ?w = "gb_rows g ! k"
  note inv = batch_rows_okD [OF assms(1)]
  have k: "k < length (gb_rows g)"
    using holes_okD(1) [OF assms(2), of r k] holes_okD(4) [OF assms(2)] assms(3) inv(1) by auto
  have only: "q = r" if "gb_index g q = Some k" for q
    using holes_okD(1) [OF assms(2)] assms(3) that by (metis option.inject)
  show view: "view ?g = (view g)(r \<mapsto> w')"
  proof
    fix q
    have "a \<noteq> k" if "q \<noteq> r" "gb_index g q = Some a" for a using only that by auto
    then show "view ?g q = ((view g)(r \<mapsto> w')) q"
      using assms(3) k by (cases "q = r"; cases "gb_index g q") (simp_all add: view_def)
  qed
  have vr: "view g r = Some ?w" using assms(3) by (simp add: view_def)
  have same: "rw_temperature w' = rw_temperature ?w" "rw_top_p w' = rw_top_p ?w" "rw_top_k w' = rw_top_k ?w"
    "rw_min_p w' = rw_min_p ?w" "rw_frequency w' = rw_frequency ?w" "rw_presence w' = rw_presence ?w"
    "rw_repetition w' = rw_repetition ?w" "rw_lora w' = rw_lora ?w"
    using assms(9) by auto
  have who: "who P ?g = who P g" if "P w' = P ?w" for P by (rule who_move [OF view vr that])
  have "sets_ok ?g" using inv(6) unfolding sets_ok_def by (simp add: who same)
  moreover have "lora_ok ?g" using inv(7) view vr same(8) unfolding lora_ok_def by simp
  moreover have "vacant (gb_rows ?g ! j)" if "j < length (gb_rows ?g)" "\<forall>q. gb_index ?g q \<noteq> Some j" for j
  proof -
    have "\<forall>q. gb_index g q \<noteq> Some j" using that(2) by simp
    moreover have "j \<noteq> k" using calculation assms(3) by auto
    ultimately show ?thesis using inv(4) [of j] that(1) by simp
  qed
  moreover have "\<exists>c. reqs' q = Some c \<and> row_shows h' (gb_vocab_size g) c w \<and>
      (allowed_ids c \<noteq> [] \<longrightarrow> gb_mask_allocated g)" if v: "view ?g q = Some w" for q w
  proof (cases "q = r")
    case True
    then show ?thesis using v view assms(4,6,7) by simp
  next
    case False
    then have vq: "view g q = Some w" using v view by simp
    from inv(5) [OF vq] obtain c where c: "reqs q = Some c" "row_shows h (gb_vocab_size g) c w"
      "allowed_ids c \<noteq> [] \<longrightarrow> gb_mask_allocated g" by blast
    have "reqs' q = Some c" and h: "cs_output_ids h' c = cs_output_ids h c"
      using assms(8) [OF False vq] c(1) by simp_all
    moreover have "row_shows h' (gb_vocab_size g) c w"
      using c(2) by (simp only: row_shows_def tokens_show_cong [OF h])
    ultimately show ?thesis using c(3) by blast
  qed
  moreover have "\<forall>w \<in> set (gb_rows ?g). row_wf L B (gb_vocab_size g) w"
    using ball_update [OF inv(8) assms(5)] by simp
  ultimately show "batch_rows_ok L B reqs' h' ?g"
    unfolding batch_rows_ok_def using inv(1,2) by simp
qed

definition step_fits ::
  "nat \<Rightarrow> nat \<Rightarrow> scheduler_output \<Rightarrow> runner \<Rightarrow> cached_request_data \<Rightarrow> bool" where
  "step_fits L B so ru d \<longleftrightarrow>
     (\<exists>c. ru_requests ru (cr_req_id d) = Some c \<and> cached_fits L B (ru_heap ru) d c) \<and>
     (\<forall>w. view (ru_batch ru) (cr_req_id d) = Some w \<longrightarrow> row_fits so d w)"

text \<open>The state of a running or resumed request after the output has been worked in.\<close>

definition after_cached :: "cached_request_data \<Rightarrow> out_heap \<Rightarrow> cached_state \<Rightarrow> bool" where
  "after_cached d h c \<longleftrightarrow> cs_num_computed_tokens c = cr_num_computed_tokens d \<and>
     take (length (cr_new_token_ids d)) (drop (nat (cr_num_computed_tokens d)) (cs_tokens h c)) = cr_new_token_ids d"

lemma tokens_after_new:
  assumes "cached_fits L B h d c"
  shows "take (length (cr_new_token_ids d)) (drop (nat (cr_num_computed_tokens d)) (tokens_after (cs_tokens h c) d)) =
    cr_new_token_ids d"
proof -
  let ?nc = "nat (cr_num_computed_tokens d)" and ?new = "cr_new_token_ids d"
  have nc: "?nc \<le> length (cs_tokens h c)" using assms by (auto simp: cached_fits_def Let_def py_len_def)
  have "drop ?nc (take (?nc + length ?new) (tokens_after (cs_tokens h c) d)) = ?new"
    unfolding tokens_after_ok(1) [OF assms] using nc by simp
  then show ?thesis by (simp add: drop_take)
qed

lemma update_cached_ok:
  assumes "stepping L B E slots ru" "step_fits L B so ru d"
  shows "\<exists>ru'. update_cached so d (to_add, ru) =
      Inr (if map_of (cb_index slots) (cr_req_id d) = None then to_add @ [cr_req_id d] else to_add, ru') \<and>
    stepping L B E slots ru' \<and> keeps {cr_req_id d} ru ru' \<and>
    (\<exists>c. ru_requests ru' (cr_req_id d) = Some c \<and>
       request_fits L B (gb_vocab_size (ru_batch ru)) (ru_heap ru') c \<and> after_cached d (ru_heap ru') c)"
proof -
  let ?r = "cr_req_id d" and ?h = "ru_heap ru" and ?g = "ru_batch ru"
  let ?V = "gb_vocab_size ?g"
  have inv: "gb_slots ?g = slots" "holes_ok E slots"
    "batch_rows_ok L B (ru_requests ru) ?h ?g" "states_ok ?V (ru_requests ru) ?h" "0 \<le> ru_pp_size ru"
    using assms(1) by (simp_all add: stepping_def)
  obtain c where c: "ru_requests ru ?r = Some c" "cached_fits L B ?h d c"
    using assms(2) by (auto simp: step_fits_def)
  note st = states_okD [OF inv(4) c(1)]
  from update_state_ok [OF c(2) st(2)] obtain ref h' where
    upd: "update_state d c ?h = Inr (c\<lparr>cs_num_computed_tokens := cr_num_computed_tokens d, cs_output := ref,
        cs_block_ids := blocks_after d c\<rparr>, h')" and
    h': "cs_prompt_token_ids c @ h' ! ref = tokens_after (cs_tokens ?h c) d" "ref < length h'"
      "ref = cs_output c \<or> length ?h \<le> ref" "length ?h \<le> length h'"
      "\<forall>x < length ?h. x \<noteq> cs_output c \<longrightarrow> h' ! x = ?h ! x" by blast
  let ?c = "c\<lparr>cs_num_computed_tokens := cr_num_computed_tokens d, cs_output := ref,
        cs_block_ids := blocks_after d c\<rparr>"
  let ?reqs = "(ru_requests ru)(?r \<mapsto> ?c)"
  have toks: "cs_tokens h' ?c = tokens_after (cs_tokens ?h c) d"
    using h'(1) by (simp add: cs_tokens_def cs_output_ids_def)
  have others: "cs_output_ids h' b = cs_output_ids ?h b" if "ru_requests ru q = Some b" "q \<noteq> ?r" for q b
    using states_okD(2) [OF inv(4) that(1)] st(4) [OF that] h'(5) by (simp add: cs_output_ids_def)
  have allowed: "allowed_ids ?c = allowed_ids c" by (simp add: allowed_ids_def)
  have states: "states_ok ?V ?reqs h'"
  proof (rule states_ok_insert [OF inv(4) h'(4)])
    show "cs_output b \<noteq> cs_output ?c" if "ru_requests ru q = Some b" "q \<noteq> ?r" for q b
      using states_okD(2) [OF inv(4) that(1)] st(4) [OF that] h'(3) by auto
    show "\<forall>i \<in> set (allowed_ids ?c). 0 \<le> i \<and> i < ?V" unfolding allowed by (rule st(3))
  qed (use st(1) h'(2) in simp_all)
  have fits: "request_fits L B ?V h' ?c"
    using tokens_after_ok(3) [OF c(2)] c(2) st(3) unfolding request_fits_def toks allowed
    by (simp add: cached_fits_def blocks_after_def Let_def)
  have after: "after_cached d h' ?c"
    unfolding after_cached_def toks by (simp add: tokens_after_new [OF c(2)])
  let ?ru = "ru\<lparr>ru_requests := ?reqs, ru_heap := h'\<rparr>"
  show ?thesis
  proof (cases "map_of (cb_index slots) ?r")
    case None
    then have "view ?g ?r = None" using inv(1) by (simp add: view_def)
    then have "batch_rows_ok L B ?reqs h' ?g" using others by (intro batch_rows_cong [OF inv(3)]) auto
    then have "stepping L B E slots ?ru" using inv states by (simp add: stepping_def)
    moreover have "keeps {?r} ru ?ru" using others by (simp add: keeps_def)
    moreover have "update_cached so d (to_add, ru) = Inr (to_add @ [?r], ?ru)"
      using None inv(1) by (simp add: update_cached_def c(1) upd Let_def)
    ultimately show ?thesis using None fits after by (intro exI [of _ ?ru]) simp
  next
    case (Some k)
    then have idx: "gb_index ?g ?r = Some k" using inv(1) by simp
    then have vr: "view ?g ?r = Some (gb_rows ?g ! k)" by (simp add: view_def)
    have k: "k < length (gb_rows ?g)"
      using holes_okD(1) [OF inv(2), of ?r k] holes_okD(4) [OF inv(2)] Some batch_rows_okD(1) [OF inv(3)]
        inv(1) by auto
    from batch_rows_okD(5) [OF inv(3) vr] c(1) have shows_c: "row_shows ?h ?V c (gb_rows ?g ! k)"
      and mask: "allowed_ids c \<noteq> [] \<longrightarrow> gb_mask_allocated ?g" by auto
    have rfits: "row_fits so d (gb_rows ?g ! k)" using assms(2) vr by (simp add: step_fits_def)
    from update_row_ok [OF shows_c batch_rows_okD(3) [OF inv(3) k] c(2) rfits inv(5) toks refl]
    obtain w' where w': "update_row (ru_pp_size ru) so d (gb_rows ?g ! k) = Inr w'"
      "row_shows h' ?V ?c w'" "row_wf L B ?V w'"
      "\<exists>ts bs nb n m nc. w' = (gb_rows ?g ! k)\<lparr>rw_num_computed := nc, rw_num_blocks := nb, rw_blocks := bs,
        rw_tokens := ts, rw_num_tokens_no_spec := n, rw_num_tokens := m\<rparr>"
      unfolding Let_def by blast
    let ?ru' = "?ru\<lparr>ru_batch := ?g\<lparr>gb_rows := (gb_rows ?g)[k := w']\<rparr>\<rparr>"
    have "holes_ok E (gb_slots ?g)" using inv(1,2) by simp
    note row = batch_rows_update [OF inv(3) this idx w'(2,3) _ _ _ w'(4), of ?reqs]
    have "batch_rows_ok L B ?reqs h' (?g\<lparr>gb_rows := (gb_rows ?g)[k := w']\<rparr>)"
      using mask others by (intro row(1)) (simp_all add: allowed)
    then have "stepping L B E slots ?ru'" using inv states by (simp add: stepping_def)
    moreover have "view (?g\<lparr>gb_rows := (gb_rows ?g)[k := w']\<rparr>) = (view ?g)(?r \<mapsto> w')"
      using mask others by (intro row(2)) (simp_all add: allowed)
    then have "keeps {?r} ru ?ru'" using others by (simp add: keeps_def)
    moreover have "update_cached so d (to_add, ru) = Inr (to_add, ?ru')"
      using idx k by (simp add: update_cached_def c(1) upd py_get_nat w'(1) Let_def)
    ultimately show ?thesis using Some fits after by (intro exI [of _ ?ru']) simp
  qed
qed

lemma step_fits_keeps:
  assumes "keeps R ru ru'" "cr_req_id d \<notin> R" "step_fits L B so ru d"
  shows "step_fits L B so ru' d"
proof -
  obtain c where c: "ru_requests ru (cr_req_id d) = Some c" "cached_fits L B (ru_heap ru) d c"
    using assms(3) by (auto simp: step_fits_def)
  have same: "ru_requests ru' (cr_req_id d) = Some c" "cs_output_ids (ru_heap ru') c = cs_output_ids (ru_heap ru) c"
    "view (ru_batch ru') (cr_req_id d) = view (ru_batch ru) (cr_req_id d)"
    using assms(1,2) c(1) by (simp_all add: keeps_def)
  then have "cached_fits L B (ru_heap ru') d c = cached_fits L B (ru_heap ru) d c"
    by (simp add: cached_fits_def cs_tokens_def)
  then show ?thesis using assms(3) c same by (auto simp: step_fits_def)
qed

lemma update_all_ok:
  assumes "stepping L B E slots ru" "distinct (map cr_req_id ds)" "\<forall>d \<in> set ds. step_fits L B so ru d"
  shows "\<exists>ru'. efold (update_cached so) ds (to_add, ru) =
      Inr (to_add @ filter (\<lambda>r. map_of (cb_index slots) r = None) (map cr_req_id ds), ru') \<and>
    stepping L B E slots ru' \<and> keeps (cr_req_id ` set ds) ru ru' \<and>
    (\<forall>d \<in> set ds. \<exists>c. ru_requests ru' (cr_req_id d) = Some c \<and>
       request_fits L B (gb_vocab_size (ru_batch ru)) (ru_heap ru') c \<and> after_cached d (ru_heap ru') c)"
  using assms
proof (induction ds arbitrary: to_add ru)
  case Nil
  then show ?case by (simp add: keeps_refl)
next
  case (Cons d ds)
  let ?r = "cr_req_id d" and ?V = "gb_vocab_size (ru_batch ru)"
  let ?add = "if map_of (cb_index slots) ?r = None then to_add @ [?r] else to_add"
  from update_cached_ok [OF Cons.prems(1), of so d to_add] Cons.prems(3) obtain ru1 where
    ru1: "update_cached so d (to_add, ru) = Inr (?add, ru1)" "stepping L B E slots ru1" "keeps {?r} ru ru1"
    "\<exists>c. ru_requests ru1 ?r = Some c \<and> request_fits L B ?V (ru_heap ru1) c \<and> after_cached d (ru_heap ru1) c" by auto
  have out: "?r \<notin> cr_req_id ` set ds" and dist: "distinct (map cr_req_id ds)" using Cons.prems(2) by simp_all
  have "step_fits L B so ru1 e" if "e \<in> set ds" for e
  proof (rule step_fits_keeps [OF ru1(3)])
    show "cr_req_id e \<notin> {?r}" using out that by (metis image_eqI singletonD)
    show "step_fits L B so ru e" using Cons.prems(3) that by simp
  qed
  with Cons.IH [OF ru1(2) dist, of ?add] obtain ru' where
    ru': "efold (update_cached so) ds (?add, ru1) =
        Inr (?add @ filter (\<lambda>r. map_of (cb_index slots) r = None) (map cr_req_id ds), ru')"
      "stepping L B E slots ru'" "keeps (cr_req_id ` set ds) ru1 ru'"
      "\<forall>d \<in> set ds. \<exists>c. ru_requests ru' (cr_req_id d) = Some c \<and>
        request_fits L B (gb_vocab_size (ru_batch ru1)) (ru_heap ru') c \<and> after_cached d (ru_heap ru') c" by blast
  have V: "gb_vocab_size (ru_batch ru1) = ?V" using ru1(3) by (simp add: keeps_def)
  have "\<exists>c. ru_requests ru' ?r = Some c \<and> request_fits L B ?V (ru_heap ru') c \<and> after_cached d (ru_heap ru') c"
  proof -
    obtain c where c: "ru_requests ru1 ?r = Some c" "request_fits L B ?V (ru_heap ru1) c"
      "after_cached d (ru_heap ru1) c" using ru1(4) by blast
    then show ?thesis using state_keeps [OF ru'(3) out c(1)] by (simp add: request_fits_def after_cached_def)
  qed
  moreover have "keeps (cr_req_id ` set (d # ds)) ru ru'" using keeps_trans [OF ru1(3) ru'(3)] by simp
  moreover have "?add @ filter (\<lambda>r. map_of (cb_index slots) r = None) (map cr_req_id ds) =
      to_add @ filter (\<lambda>r. map_of (cb_index slots) r = None) (map cr_req_id (d # ds))" by simp
  ultimately show ?case using ru1(1) ru' V by (intro exI [of _ ru']) simp
qed

section \<open>A whole step\<close>

text \<open>What the output of the scheduler promises the worker, beyond \<open>step_output_ok\<close>.\<close>

definition worker_fits :: "nat \<Rightarrow> nat \<Rightarrow> scheduler_output \<Rightarrow> runner \<Rightarrow> bool" where
  "worker_fits L B so ru \<longleftrightarrow>
     (\<forall>d \<in> set (so_new_reqs so). new_fits L B (gb_vocab_size (ru_batch ru)) d) \<and>
     (\<forall>d \<in> set (so_cached_reqs so). cr_req_id d \<notin> so_finished_req_ids so \<and> step_fits L B so ru d)"

text \<open>Finished requests are forgotten after their rows have gone.\<close>

lemma stepping_forget:
  assumes "runner_ok L B ru" "batch_rows_ok L B (ru_requests ru) (ru_heap ru) g"
    and "holes_ok E (gb_slots g)" "gb_vocab_size g = gb_vocab_size (ru_batch ru)"
    and "\<And>r. r \<in> fin \<Longrightarrow> gb_index g r = None"
    and "ru_requests ru' = (\<lambda>r. if r \<in> fin then None else ru_requests ru r)"
    and "ru_heap ru' = ru_heap ru" "ru_batch ru' = g" "ru_pp_size ru' = ru_pp_size ru"
  shows "stepping L B E (gb_slots g) ru'"
proof -
  have "batch_rows_ok L B (ru_requests ru') (ru_heap ru') g"
  proof (rule batch_rows_cong [OF assms(2)])
    fix r w assume "view g r = Some w"
    then have "r \<notin> fin" using assms(5) by (auto simp: view_def)
    then show "ru_requests ru' r = ru_requests ru r \<and> (\<forall>c. ru_requests ru r = Some c \<longrightarrow>
        cs_output_ids (ru_heap ru') c = cs_output_ids (ru_heap ru) c)"
      using assms(6,7) by simp
  qed
  moreover have old: "states_ok (gb_vocab_size g) (ru_requests ru) (ru_heap ru)" "0 \<le> ru_pp_size ru"
    using assms(1,4) by (simp_all add: runner_ok_def stepping_def)
  have "states_ok (gb_vocab_size g) (ru_requests ru') (ru_heap ru')"
    unfolding assms(6,7) by (rule states_ok_restrict [OF old(1)]) (simp split: if_splits)
  ultimately show ?thesis using assms(3,8,9) old(2) by (simp add: stepping_def)
qed

lemma gpu_update_ok:
  assumes "runner_ok L B ru" "step_output_ok so (gb_slots (ru_batch ru))" "enum_strings_ok enum"
    and "worker_fits L B so ru"
  shows "\<exists>ru'. gpu_update_states enum so ru = Inr ru' \<and> runner_ok L B ru' \<and>
    batch_reqs (gb_slots (ru_batch ru')) = scheduled_ids so \<and>
    cpu_update_states enum so (gb_slots (ru_batch ru)) = Inr (gb_slots (ru_batch ru')) \<and>
    (\<forall>r \<in> so_finished_req_ids so. r \<notin> scheduled_ids so \<longrightarrow> ru_requests ru' r = None) \<and>
    (\<forall>d \<in> set (so_new_reqs so). \<exists>c. ru_requests ru' (nr_req_id d) = Some c \<and> after_new d (ru_heap ru') c) \<and>
    (\<forall>d \<in> set (so_cached_reqs so). \<exists>c. ru_requests ru' (cr_req_id d) = Some c \<and> after_cached d (ru_heap ru') c)"
proof -
  let ?g = "ru_batch ru" and ?fin = "so_finished_req_ids so"
  let ?V = "gb_vocab_size ?g" and ?reqs = "ru_requests ru" and ?h = "ru_heap ru" and ?b = "gb_slots ?g"
  have start: "batch_ok ?b" "batch_rows_ok L B ?reqs ?h ?g"
    using assms(1) by (simp_all add: runner_ok_def stepping_def)
  from cpu_update_parts [OF start(1) assms(2,3)] obtain removed1 b1 removed b2 where
    r1: "efold (cpu_remove_step False) (enum ?fin) ([], ?b) = Inr (removed1, b1)"
      "removing ?b ?fin removed1 b1" and
    r2: "efold (cpu_remove_step True) (enum (set (map fst (cb_index b1)) - scheduled_ids so)) (removed1, b1) =
        Inr (removed, b2)" and
    b2: "holes_ok (set (rev (sort removed))) b2" "sorted_wrt (>) (rev (sort removed))"
      "map_of (cb_index b2) = map_of (cb_index ?b) |` (scheduled_ids so - ?fin)" "cb_max b2 = cb_max ?b"
      "set (ids_to_add so b2) \<inter> batch_reqs b2 = {}" "distinct (ids_to_add so b2)"
      "batch_reqs b2 \<union> set (ids_to_add so b2) = scheduled_ids so"
      "cb_num_reqs b2 + length (ids_to_add so b2) \<le> cb_max b2" by metis
  have ok0: "(batch_rows_ok L B ?reqs ?h ?g \<and> gb_vocab_size ?g = ?V) \<and> view ?g \<subseteq>\<^sub>m view ?g"
    using start(2) by simp
  from gpu_removal.remove_all [OF ok0 start(1) r1(1)] obtain g1 where
    g1: "efold (remove_step gpu_remove False) (enum ?fin) ([], ?g) = Inr (removed1, g1)" "gb_slots g1 = b1"
    and ok1: "(batch_rows_ok L B ?reqs ?h g1 \<and> gb_vocab_size g1 = ?V) \<and> view g1 \<subseteq>\<^sub>m view ?g" by blast
  have "holes_ok (set removed1) (gb_slots g1)" using r1(2) g1(2) by (simp add: removing_def)
  from gpu_removal.remove_all [OF ok1 this r2 [folded g1(2)]] obtain g2 where
    g2: "efold (remove_step gpu_remove True) (enum (set (map fst (cb_index b1)) - scheduled_ids so))
        (removed1, g1) = Inr (removed, g2)" "gb_slots g2 = b2"
      "batch_rows_ok L B ?reqs ?h g2" "gb_vocab_size g2 = ?V" "view g2 \<subseteq>\<^sub>m view ?g"
    using g1(2) by auto
  let ?ru2 = "fold drop_encoder_input (so_free_encoder_input_ids so) (fold forget_request (enum ?fin) ru)"
  let ?ru2' = "?ru2\<lparr>ru_batch := g2\<rparr>" and ?E = "set (rev (sort removed))"
  have fin: "set (enum ?fin) = ?fin" using assms(2,3) by (simp add: step_output_ok_def enum_strings_ok_def)
  have st2: "stepping L B ?E b2 ?ru2'"
    using stepping_forget [OF assms(1) g2(3) _ g2(4), of ?E ?fin ?ru2'] b2(1,3) g2(2) fin by simp
  \<comment> \<open>new requests\<close>
  let ?new = "so_new_reqs so" and ?cached = "so_cached_reqs so"
  have out: "distinct (map nr_req_id ?new @ map cr_req_id ?cached)"
    "set (map nr_req_id ?new @ map cr_req_id ?cached) = scheduled_ids so"
    "\<forall>d \<in> set ?new. nr_req_id d \<in> batch_reqs ?b \<longrightarrow> nr_req_id d \<in> ?fin"
    using assms(2) by (simp_all add: step_output_ok_def)
  have "\<forall>d \<in> set ?new. map_of (cb_index b2) (nr_req_id d) = None \<and> new_fits L B (gb_vocab_size (ru_batch ?ru2')) d"
    using out(3) b2(3) assms(4) g2(4) by (auto simp: worker_fits_def restrict_map_def)
  from cache_all_ok [OF st2 _ this] out(1) obtain ru3 where ru3: "ru3 = fold cache_new_request ?new ?ru2'"
    "stepping L B ?E b2 ru3" "keeps (nr_req_id ` set ?new) ?ru2' ru3"
    "\<forall>d \<in> set ?new. \<exists>c. ru_requests ru3 (nr_req_id d) = Some c \<and> request_fits L B ?V (ru_heap ru3) c \<and>
      after_new d (ru_heap ru3) c"
    using g2(4) by auto
  have V3: "gb_vocab_size (ru_batch ru3) = ?V" using ru3(3) g2(4) by (simp add: keeps_def)
  \<comment> \<open>running and resumed requests\<close>
  have "step_fits L B so ru3 d" if d: "d \<in> set ?cached" for d
  proof (rule step_fits_keeps [OF ru3(3)])
    show "cr_req_id d \<notin> nr_req_id ` set ?new" using out(1) d by auto
    have "cr_req_id d \<notin> ?fin" "step_fits L B so ru d" using assms(4) d by (simp_all add: worker_fits_def)
    then show "step_fits L B so ?ru2' d"
      using g2(5) fin by (auto simp: step_fits_def map_le_def dom_def)
  qed
  with update_all_ok [OF ru3(2), of ?cached so "map nr_req_id ?new"] out(1) V3 obtain ru4 where
    ru4: "efold (update_cached so) ?cached (map nr_req_id ?new, ru3) = Inr (ids_to_add so b2, ru4)"
      "stepping L B ?E b2 ru4" "keeps (cr_req_id ` set ?cached) ru3 ru4"
      "\<forall>d \<in> set ?cached. \<exists>c. ru_requests ru4 (cr_req_id d) = Some c \<and> request_fits L B ?V (ru_heap ru4) c \<and>
        after_cached d (ru_heap ru4) c"
    by (auto simp: ids_to_add_def)
  have V4: "gb_vocab_size (ru_batch ru4) = ?V" using ru4(3) V3 by (simp add: keeps_def)
  have st4: "gb_slots (ru_batch ru4) = b2" "batch_rows_ok L B (ru_requests ru4) (ru_heap ru4) (ru_batch ru4)"
    "states_ok ?V (ru_requests ru4) (ru_heap ru4)" "0 \<le> ru_pp_size ru4"
    using ru4(2) V4 by (simp_all add: stepping_def)
  have new4: "\<exists>c. ru_requests ru4 (nr_req_id d) = Some c \<and> request_fits L B ?V (ru_heap ru4) c \<and>
      after_new d (ru_heap ru4) c" if d: "d \<in> set ?new" for d
  proof -
    have not_cached: "nr_req_id d \<notin> cr_req_id ` set ?cached" using out(1) d by auto
    obtain c where c: "ru_requests ru3 (nr_req_id d) = Some c" "request_fits L B ?V (ru_heap ru3) c"
      "after_new d (ru_heap ru3) c" using ru3(4) d by blast
    then show ?thesis using state_keeps [OF ru4(3) not_cached c(1)]
      by (simp add: request_fits_def after_new_def)
  qed
  have "ready L B ?V (ru_requests ru4) (ru_heap ru4) r" if r: "r \<in> scheduled_ids so" for r
  proof -
    have "\<exists>c. ru_requests ru4 r = Some c \<and> request_fits L B ?V (ru_heap ru4) c"
    proof (cases "r \<in> cr_req_id ` set ?cached")
      case True
      then show ?thesis using ru4(4) by blast
    next
      case False
      then have "r \<in> nr_req_id ` set ?new" using r out(2) by auto
      then show ?thesis using new4 by blast
    qed
    then show ?thesis using states_okD(1) [OF st4(3)] by (auto simp: ready_def)
  qed
  then have ready: "\<forall>r \<in> set (ids_to_add so b2). ready L B ?V (ru_requests ru4) (ru_heap ru4) r"
    using b2(7) by blast
  \<comment> \<open>adding and condensing\<close>
  have ok4: "batch_rows_ok L B (ru_requests ru4) (ru_heap ru4) (ru_batch ru4) \<and> gb_vocab_size (ru_batch ru4) = ?V"
    using st4(2) V4 by simp
  from gpu_ops.add_all [OF ok4, of "rev (sort removed)" "ids_to_add so b2"] b2 st4(1) ready obtain es g5 where
    g5: "efold (add_step (gpu_add_cached (ru_requests ru4) (ru_heap ru4))) (ids_to_add so b2)
        (rev (sort removed), ru_batch ru4) = Inr (es, g5)"
      "efold cpu_add_step (ids_to_add so b2) (rev (sort removed), b2) = Inr (es, gb_slots g5)"
      "batch_rows_ok L B (ru_requests ru4) (ru_heap ru4) g5" "gb_vocab_size g5 = ?V"
      "holes_ok (set es) (gb_slots g5)" "sorted_wrt (>) es" "batch_reqs (gb_slots g5) = scheduled_ids so"
    by auto
  obtain g6 where g6: "(if es \<noteq> [] then gpu_condense es g5 else Inr g5) = Inr g6"
      "(if es \<noteq> [] then cpu_condense es (gb_slots g5) else Inr (gb_slots g5)) = Inr (gb_slots g6)"
      "batch_rows_ok L B (ru_requests ru4) (ru_heap ru4) g6" "gb_vocab_size g6 = ?V"
      "batch_ok (gb_slots g6)" "batch_reqs (gb_slots g6) = scheduled_ids so"
  proof (cases "es = []")
    case True
    then show thesis using that [of g5] g5 by simp
  next
    case False
    from gpu_condense_ok [OF g5(3,5,6)] obtain g6 where g6: "gpu_condense es g5 = Inr g6"
      "cpu_condense es (gb_slots g5) = Inr (gb_slots g6)"
      "batch_rows_ok L B (ru_requests ru4) (ru_heap ru4) g6" "gb_vocab_size g6 = ?V" using g5(4) by auto
    moreover have "batch_ok (gb_slots g6)" "batch_reqs (gb_slots g6) = scheduled_ids so"
      using cpu_condense_ok [OF g5(5,6)] g6(2) g5(7) by auto
    ultimately show thesis using that [of g6] False by simp
  qed
  obtain m where m: "(if removed \<noteq> [] \<or> ids_to_add so b2 \<noteq> []
      then ebind (make_sampling_metadata g6) (\<lambda>m. Inr (Some m)) else Inr (ru_metadata ru4)) = Inr m"
  proof -
    obtain m0 where "make_sampling_metadata g6 = Inr m0" using make_sampling_metadata_ok [OF g6(3,5)] by blast
    then show thesis
      by (intro that [of "if removed \<noteq> [] \<or> ids_to_add so b2 \<noteq> [] then Some m0 else ru_metadata ru4"]) simp
  qed
  let ?ru' = "ru4\<lparr>ru_batch := g6, ru_metadata := m\<rparr>"
  have "gpu_update_states enum so ru = Inr ?ru'"
    using g1(1) g1(2) g2(1) ru4(1) g5(1) g6(1) m by (simp add: gpu_update_states_def ru3(1) Let_def)
  moreover have "cpu_update_states enum so ?b = Inr (gb_slots g6)"
    using r1(1) r2 g5(2) g6(2) by (simp add: cpu_update_states_def)
  moreover have "runner_ok L B ?ru'"
    using g6(3-5) st4(3,4) by (simp add: runner_ok_def stepping_def)
  moreover have "ru_requests ru4 r = None" if "r \<in> ?fin" "r \<notin> scheduled_ids so" for r
  proof -
    have "r \<notin> cr_req_id ` set ?cached" "r \<notin> nr_req_id ` set ?new" using that(2) out(2) by auto
    then show ?thesis using ru4(3) ru3(3) that(1) fin by (simp add: keeps_def)
  qed
  moreover have "\<forall>d \<in> set ?new. \<exists>c. ru_requests ru4 (nr_req_id d) = Some c \<and> after_new d (ru_heap ru4) c"
    "\<forall>d \<in> set ?cached. \<exists>c. ru_requests ru4 (cr_req_id d) = Some c \<and> after_cached d (ru_heap ru4) c"
    using new4 ru4(4) by blast+
  ultimately show ?thesis using g6(6) by (intro exI [of _ ?ru']) simp
qed

end
