(* ===== verification/Worker.thy ===== *)
theory Worker
  imports GpuUpdate "HOL-Library.List_Lexorder" "HOL-Library.Char_ord"
begin

text \<open>
  What the worker's batch guarantees from step to step: its rows are those of the scheduled
  requests, the embeddings that the engine core looks up on the CPU arrive in the order of the
  batch, and the sampler gets every request's own parameters. Two defects: the corrected output of a
  rejected speculation does not reach the sampler, and a logit bias or mask stays behind when its
  request moves.
\<close>

section \<open>The initial state\<close>

definition init_runner :: "nat \<Rightarrow> nat \<Rightarrow> nat \<Rightarrow> nat \<Rightarrow> int \<Rightarrow> runner" where
  "init_runner max_reqs max_len max_blocks vocab pp =
     \<lparr>ru_requests = Map.empty, ru_encoder = Map.empty, ru_heap = [],
      ru_batch = init_gpu_batch max_reqs max_len max_blocks vocab, ru_pp_size = pp,
      ru_metadata = None\<rparr>"

lemma init_batch_ok: "batch_ok (init_cpu_batch n)"
  by (simp add: init_cpu_batch_def holes_ok_def)

lemma init_runner_ok: "0 \<le> pp \<Longrightarrow> runner_ok L B (init_runner n L B v pp)"
  using init_batch_ok [of n]
  by (simp add: runner_ok_def stepping_def init_runner_def init_gpu_batch_def batch_rows_ok_def
      states_ok_def sets_ok_def lora_ok_def who_def view_def init_cpu_batch_def row_wf_def empty_row_def
      vacant_def)

lemma enum_sorted [simp]: "enum_strings_ok sorted_list_of_set"
  by (simp add: enum_strings_ok_def)

section \<open>Rows\<close>


text \<open>A first step with one new request, for the witnesses.\<close>

definition sample_new :: new_request_data where
  "sample_new = \<lparr>nr_req_id = ''a'', nr_prompt_token_ids = [1, 2], nr_mm_inputs = [], nr_mm_hashes = [],
     nr_mm_positions = [], nr_sampling_params = sample_params, nr_block_ids = [3],
     nr_num_computed_tokens = 0, nr_lora_request = None\<rparr>"

definition sample_step :: scheduler_output where
  "sample_step = \<lparr>so_new_reqs = [sample_new], so_cached_reqs = [],
     so_num_scheduled_tokens = [(''a'', 2)], so_total_num_scheduled_tokens = 2,
     so_spec_decode_tokens = [], so_encoder_inputs = [], so_num_common_prefix_blocks = 0,
     so_finished_req_ids = {}, so_free_encoder_input_ids = [], so_structured_output_request_ids = [],
     so_embeddings = None\<rparr>"

lemma sample_step_ok:
  "runner_ok 4 2 (init_runner 2 4 2 8 1)"
  "step_output_ok sample_step (gb_slots (ru_batch (init_runner 2 4 2 8 1)))"
  "worker_fits 4 2 sample_step (init_runner 2 4 2 8 1)"
  by (rule init_runner_ok, simp) (simp_all add: step_output_ok_def worker_fits_def new_fits_def sample_step_def sample_new_def
      init_runner_def init_gpu_batch_def init_cpu_batch_def scheduled_ids_def sample_params_def or_default_def)


section \<open>Embeddings\<close>

text \<open>
  The embeddings arrive in the order of the worker's batch. When the mirror of the engine core
  agrees with the worker's batch before a step, both raise nothing, they agree afterwards, and
  the embeddings attached to the step are those of the token ids of the scheduled requests, in
  the order of the worker's batch; the two processes may walk sets in different orders.
\<close>

theorem embeddings_in_worker_order:
  assumes "runner_ok L B ru" "step_output_ok so (gb_slots (ru_batch ru))" "worker_fits L B so ru"
    and "enum_strings_ok enum" "enum_strings_ok enum'"
    and "same_batch (gb_slots (ru_batch ru)) b" "batch_ok b"
    and "\<forall>d \<in> set (so_cached_reqs so). resumed_from_preemption d \<longrightarrow> map_of resumed (cr_req_id d) \<noteq> None"
    and "\<forall>(r, ts) \<in> set (step_tokens so resumed). \<forall>t \<in> set ts. 0 \<le> t \<and> t < py_len embed_tokens"
  shows "\<exists>ru' b'. gpu_update_states enum so ru = Inr ru' \<and>
    total_embedding_process enum' embed_tokens resumed so b =
      Inr (so\<lparr>so_embeddings := Some (map (\<lambda>t. embed_tokens ! nat t)
             (batch_tokens so resumed (gb_slots (ru_batch ru'))))\<rparr>, b') \<and>
    same_batch (gb_slots (ru_batch ru')) b' \<and> batch_ok b'"
proof -
  let ?b = "gb_slots (ru_batch ru)"
  have ok: "batch_ok ?b" using assms(1) by (simp add: runner_ok_def stepping_def)
  from gpu_update_ok [OF assms(1,2,4,3)] obtain ru' where ru': "gpu_update_states enum so ru = Inr ru'"
    "cpu_update_states enum so ?b = Inr (gb_slots (ru_batch ru'))" by blast
  from cpu_update_order [OF ok assms(2,4,5,6,7) ru'(2)] obtain b' where
    b': "cpu_update_states enum' so b = Inr b'" "same_batch (gb_slots (ru_batch ru')) b'" by blast
  have "step_output_ok so b"
    using assms(2,6) by (simp add: step_output_ok_def same_batch_def)
  have "embeddable embed_tokens so resumed" using assms(9) by (simp add: embeddable_def)
  from total_embedding_ok [OF assms(7) \<open>step_output_ok so b\<close> assms(5,8) this] b'(1) have
    "total_embedding_process enum' embed_tokens resumed so b =
      Inr (so\<lparr>so_embeddings := Some (map (\<lambda>t. embed_tokens ! nat t) (batch_tokens so resumed b'))\<rparr>, b')"
    "batch_ok b'" by auto
  moreover have "batch_tokens so resumed b' = batch_tokens so resumed (gb_slots (ru_batch ru'))"
    using b'(2) by (simp add: batch_tokens_def same_batch_def)
  ultimately show ?thesis using ru'(1) b'(2) by auto
qed

theorem embeddings_in_worker_order_witness:
  "\<exists>ru' b'. gpu_update_states sorted_list_of_set sample_step (init_runner 2 4 2 8 1) = Inr ru' \<and>
    total_embedding_process (\<lambda>A. rev (sorted_list_of_set A)) [[0], [10], [20]] [] sample_step (init_cpu_batch 2) =
      Inr (sample_step\<lparr>so_embeddings := Some (map (\<lambda>t. [[0], [10], [20]] ! nat t)
             (batch_tokens sample_step [] (gb_slots (ru_batch ru'))))\<rparr>, b')"
proof -
  have rev: "enum_strings_ok (\<lambda>A. rev (sorted_list_of_set A))" by (simp add: enum_strings_ok_def)
  have same: "same_batch (gb_slots (ru_batch (init_runner 2 4 2 8 1))) (init_cpu_batch 2)"
    by (simp add: same_batch_def init_runner_def init_gpu_batch_def init_cpu_batch_def)
  have "\<forall>d \<in> set (so_cached_reqs sample_step). resumed_from_preemption d \<longrightarrow> map_of [] (cr_req_id d) \<noteq> None"
    by (simp add: sample_step_def)
  moreover have "\<forall>(r, ts) \<in> set (step_tokens sample_step []). \<forall>t \<in> set ts. 0 \<le> t \<and> t < py_len [[0], [10], [20 :: rat]]"
    by (simp add: sample_step_def sample_new_def step_tokens_def new_tokens_of_def num_scheduled_of_def
        py_upto_def py_clamp_def)
  ultimately show ?thesis
    using embeddings_in_worker_order [OF sample_step_ok(1,2,3) enum_sorted rev same init_batch_ok] by blast
qed

section \<open>Metadata\<close>

definition column_if :: "bool \<Rightarrow> 'a \<Rightarrow> 'a option" where
  "column_if b x = (if b then Some x else None)"

lemma column_unless: "(if b then None else Some x) = column_if (\<not> b) x"
  by (simp add: column_if_def)



section \<open>The corrected output does not reach the sampler\<close>

text \<open>
  C40: a corrected output misses the sampler. When a running request's speculation was rejected, its
  cached state gets a new output list, cut off at the wrong token and continued; the list that
  the batch hands to the sampler for the penalties is still the old one, with the wrong tokens.
\<close>

theorem correction_misses_sampler:
  assumes "update_cached so d (to_add, ru) = Inr (to_add', ru')" "\<not> cr_spec_result d"
    and "ru_requests ru (cr_req_id d) = Some c" "gb_index (ru_batch ru) (cr_req_id d) = Some k"
    and "gb_outputs (ru_batch ru) ! k = Some (cs_output c)" "cs_output c < length (ru_heap ru)"
  shows "\<exists>c'. ru_requests ru' (cr_req_id d) = Some c' \<and>
    cs_output_ids (ru_heap ru') c' =
      py_upto (cs_output_ids (ru_heap ru) c) (cr_fixed_idx d) @ cr_new_token_ids d \<and>
    gb_outputs (ru_batch ru') ! k = Some (cs_output c) \<and>
    ru_heap ru' ! cs_output c = cs_output_ids (ru_heap ru) c"
proof -
  let ?c = "c\<lparr>cs_num_computed_tokens := cr_num_computed_tokens d\<rparr>" and ?h = "ru_heap ru"
  define blocks where "blocks = (if resumed_from_preemption d then cr_new_block_ids d
    else cs_block_ids c @ cr_new_block_ids d)"
  define h where "h = ?h @ [py_upto (cs_output_ids ?h c) (cr_fixed_idx d) @ cr_new_token_ids d]"
  have "update_state d c ?h = Inr (?c\<lparr>cs_output := length ?h, cs_block_ids := blocks\<rparr>, h)"
    using assms(2) by (simp add: update_state_def correct_output_def blocks_def h_def cs_output_ids_def Let_def)
  with assms(1,3,4) have
    "ru_requests ru' (cr_req_id d) = Some (?c\<lparr>cs_output := length ?h, cs_block_ids := blocks\<rparr>)"
    "ru_heap ru' = h" "gb_outputs (ru_batch ru') = gb_outputs (ru_batch ru)"
    by (auto simp: update_cached_def Let_def ebind_eq_Inr)
  then show ?thesis using assms(5,6) by (simp add: cs_output_ids_def h_def nth_append)
qed

definition wrong_step :: cached_request_data where
  "wrong_step = \<lparr>cr_req_id = ''a'', resumed_from_preemption = False, cr_new_token_ids = [6],
     cr_new_block_ids = [], cr_num_computed_tokens = 2, cr_spec_result = False, cr_fixed_idx = 0\<rparr>"

definition sample_cached :: cached_state where
  "sample_cached = \<lparr>cs_req_id = ''a'', cs_prompt_token_ids = [1, 2], cs_params = sample_params,
     cs_generator = None, cs_block_ids = [3], cs_num_computed_tokens = 2, cs_output = 0,
     cs_lora_request = None\<rparr>"

definition speculating :: runner where
  "speculating = (let g = init_gpu_batch 1 4 2 8 in
     \<lparr>ru_requests = [''a'' \<mapsto> sample_cached], ru_encoder = Map.empty, ru_heap = [[5]],
      ru_batch = g\<lparr>gb_slots := (gb_slots g)\<lparr>cb_ids := [Some ''a''], cb_index := [(''a'', 0)]\<rparr>,
        gb_outputs := [Some 0], gb_rows := [(empty_row 4 2 8)
          \<lparr>rw_tokens := [1, 2, 5, 0], rw_num_tokens := 3, rw_num_tokens_no_spec := 3,
           rw_num_prompt_tokens := 2, rw_num_computed := 2, rw_blocks := [3, 0], rw_num_blocks := 1\<rparr>]\<rparr>,
      ru_pp_size = 1, ru_metadata = None\<rparr>)"

theorem correction_misses_sampler_witness:
  "\<exists>ru' c'. update_cached sample_step wrong_step ([], speculating) = Inr ([], ru') \<and>
    ru_requests ru' ''a'' = Some c' \<and> cs_output_ids (ru_heap ru') c' = [6] \<and>
    gb_outputs (ru_batch ru') ! 0 = Some 0 \<and> ru_heap ru' ! 0 = [5]"
proof -
  have "case update_cached sample_step wrong_step ([], speculating) of Inl e \<Rightarrow> False | Inr (to_add, ru) \<Rightarrow> to_add = []"
    by code_simp
  then have "\<exists>ru'. update_cached sample_step wrong_step ([], speculating) = Inr ([], ru')"
    by (auto split: sum.splits)
  then obtain ru' where ru': "update_cached sample_step wrong_step ([], speculating) = Inr ([], ru')" by blast
  have fixed: "\<not> cr_spec_result wrong_step" "cr_req_id wrong_step = ''a''" "cr_fixed_idx wrong_step = 0"
    "cr_new_token_ids wrong_step = [6]" by (simp_all add: wrong_step_def)
  have state: "ru_requests speculating (cr_req_id wrong_step) = Some sample_cached"
    "gb_index (ru_batch speculating) (cr_req_id wrong_step) = Some 0"
    "gb_outputs (ru_batch speculating) ! 0 = Some (cs_output sample_cached)"
    "cs_output sample_cached < length (ru_heap speculating)"
    "cs_output_ids (ru_heap speculating) sample_cached = [5]" "cs_output sample_cached = 0"
    by (simp_all add: speculating_def sample_cached_def wrong_step_def Let_def cs_output_ids_def)
  from correction_misses_sampler [OF ru' fixed(1) state(1-4)] ru' show ?thesis
    by (auto simp: fixed state(5,6) py_upto_def py_clamp_def)
qed

section \<open>A logit bias stays behind\<close>

lemma skip_one: "tgt < n \<Longrightarrow> skip_empty [tgt] (int n) = int n"
  by (subst skip_empty.simps) auto

lemma py_get_nat_Inr: "py_get xs (int k) = Inr x \<longleftrightarrow> k < length xs \<and> xs ! k = x"
  by (auto simp: py_get_def py_index_def)

lemma condense_nil: "ebind m (condense_loop move [] k) = m"
  by (cases m) (simp_all add: condense_loop.simps)

lemma condense_one:
  assumes "holes_ok {tgt} (gb_slots g)" "tgt < cb_num_reqs (gb_slots g)" "gpu_condense [tgt] g = Inr g'"
  shows "cb_num_reqs (gb_slots g') = cb_num_reqs (gb_slots g) \<and>
    length (gb_rows g') = length (gb_rows g) \<and>
    (cb_num_reqs (gb_slots g) < length (gb_rows g) \<longrightarrow>
      gb_rows g' ! cb_num_reqs (gb_slots g) = vacate_row (gb_rows g ! cb_num_reqs (gb_slots g)))"
proof -
  let ?b = "gb_slots g" let ?n = "cb_num_reqs ?b"
  have loop: "condense_loop gpu_move [tgt] (int ?n) g = gpu_move ?n tgt g"
    by (subst condense_loop.simps) (use assms(2) in \<open>simp add: skip_one [OF assms(2)] Let_def condense_nil\<close>)
  from assms(2,3) obtain g1 where g1: "gpu_move ?n tgt g = Inr g1"
    "g' = g1\<lparr>gb_slots := cpu_trim (gb_slots g1), gb_outputs := take (cb_num_reqs (gb_slots g1)) (gb_outputs g1)\<rparr>"
    by (auto simp: gpu_condense_def Let_def loop ebind_eq_Inr)
  then obtain s t' where mv: "cpu_move ?n tgt ?b = Inr (gb_slots g1)" "py_get (gb_rows g) (int ?n) = Inr s"
    "gb_rows g1 = (gb_rows g)[tgt := t', ?n := vacate_row s]"
    unfolding gpu_move_def ebind_eq_Inr by auto
  then obtain r where r: "cb_ids ?b ! ?n = Some r" "cb_index (gb_slots g1) = AList.update r tgt (cb_index ?b)"
    "?n < length (cb_ids ?b)"
    by (auto simp: cpu_move_def ebind_eq_Inr py_get_nat_Inr dest!: sym [of _ "gb_slots g1"]
      split: option.splits)
  have "map_of (cb_index ?b) r = Some ?n" using holes_okD(1) [OF assms(1)] r(1,3) by simp
  then have "r \<in> set (map fst (cb_index ?b))" by (force dest: map_of_SomeD)
  then have "map fst (cb_index (gb_slots g1)) = map fst (cb_index ?b)" by (simp add: r(2) update_keys)
  then have "cb_num_reqs (gb_slots g') = ?n"
    using g1(2) by (simp add: cb_num_reqs_def cpu_trim_def) (metis length_map)
  moreover have "gb_rows g' ! ?n = vacate_row (gb_rows g ! ?n)" if "?n < length (gb_rows g)"
    using mv(2,3) g1(2) that by (simp add: py_get_nat)
  moreover have "length (gb_rows g') = length (gb_rows g)" using mv(3) g1(2) by simp
  ultimately show ?thesis by blast
qed

lemma gpu_add_row:
  assumes "gpu_add h c None g = Inr g'" "cb_num_reqs (gb_slots g) < length (gb_rows g)"
  shows "\<exists>w1. fill_tokens h c (gb_rows g ! cb_num_reqs (gb_slots g)) = Inr w1 \<and>
    fill_sampling (gb_vocab_size g) c w1 = Inr (gb_rows g' ! cb_num_reqs (gb_slots g))"
  using assms
  by (auto simp: gpu_add_def Let_def ebind_eq_Inr py_get_nat register_lora_def register_sampling_def
      split: option.splits)

lemma fill_tokens_sampling:
  "fill_tokens h c w = Inr w1 \<Longrightarrow> rw_logit_bias w1 = rw_logit_bias w \<and> rw_mask w1 = rw_mask w"
  by (auto simp: fill_tokens_def bt_add_row_def bt_append_row_def Let_def ebind_eq_Inr split: if_splits)

text \<open>
  A logit bias and a mask of allowed tokens stay behind when a request moves. When the request
  at the end of the batch moves into a gap, its row keeps both, and the next request that is added
  there, without a logit bias and allowed tokens of its own, takes them over.
\<close>

theorem moved_request_leaves_bias:
  assumes "holes_ok {tgt} (gb_slots g)" "tgt < cb_num_reqs (gb_slots g)"
    and "cb_num_reqs (gb_slots g) < length (gb_rows g)"
    and "gpu_condense [tgt] g = Inr g1" "gpu_add h c None g1 = Inr g2"
    and "sp_logit_bias (cs_params c) = None" "or_default [] (sp_allowed_token_ids (cs_params c)) = []"
  shows "rw_logit_bias (gb_rows g2 ! cb_num_reqs (gb_slots g)) = rw_logit_bias (gb_rows g ! cb_num_reqs (gb_slots g)) \<and>
    rw_mask (gb_rows g2 ! cb_num_reqs (gb_slots g)) = rw_mask (gb_rows g ! cb_num_reqs (gb_slots g))"
proof -
  let ?n = "cb_num_reqs (gb_slots g)"
  have g1: "cb_num_reqs (gb_slots g1) = ?n" "gb_rows g1 ! ?n = vacate_row (gb_rows g ! ?n)"
    "?n < length (gb_rows g1)"
    using condense_one [OF assms(1,2,4)] assms(3) by simp_all
  from gpu_add_row [OF assms(5)] g1 obtain w1 where w1: "fill_tokens h c (vacate_row (gb_rows g ! ?n)) = Inr w1"
    "fill_sampling (gb_vocab_size g1) c w1 = Inr (gb_rows g2 ! ?n)" by auto
  have "fill_mask (cs_params c) (rw_mask w1) = Inr (rw_mask w1)"
    using assms(7) by (simp add: fill_mask_def or_default_def split: option.splits)
  then have "rw_logit_bias (gb_rows g2 ! ?n) = rw_logit_bias w1 \<and> rw_mask (gb_rows g2 ! ?n) = rw_mask w1"
    using w1(2) assms(6) by (auto simp: fill_sampling_def Let_def dest!: sym [of _ "gb_rows g2 ! ?n"])
  then show ?thesis using fill_tokens_sampling [OF w1(1)] by (simp add: vacate_row_def)
qed

text \<open>
  Two requests, of which the first has left and the second, at index 1, has a logit bias; the second
  moves to index 0 and a third request, without a bias, joins at index 1.
\<close>

definition biased_batch :: gpu_batch where
  "biased_batch = (let g = init_gpu_batch 2 4 2 8 in
     g\<lparr>gb_slots := (gb_slots g)\<lparr>cb_ids := [None, Some ''b''], cb_index := [(''b'', 1)]\<rparr>,
       gb_outputs := [None, Some 0],
       gb_rows := [empty_row 4 2 8, (empty_row 4 2 8)\<lparr>rw_logit_bias := Some [(7, 5)]\<rparr>]\<rparr>)"

definition joining :: cached_state where
  "joining = \<lparr>cs_req_id = ''c'', cs_prompt_token_ids = [1, 2], cs_params = sample_params,
     cs_generator = None, cs_block_ids = [3], cs_num_computed_tokens = 0, cs_output = 1,
     cs_lora_request = None\<rparr>"

lemma joining_unbiased:
  "sp_logit_bias (cs_params joining) = None" "or_default [] (sp_allowed_token_ids (cs_params joining)) = []"
  by (simp_all add: joining_def sample_params_def or_default_def)

theorem moved_request_leaves_bias_witness:
  "\<exists>g1 g2. gpu_condense [0] biased_batch = Inr g1 \<and> gpu_add [[5], []] joining None g1 = Inr g2 \<and>
    sp_logit_bias (cs_params joining) = None \<and> rw_logit_bias (gb_rows g2 ! 1) = Some [(7, 5)]"
proof -
  have "case ebind (gpu_condense [0] biased_batch) (gpu_add [[5], []] joining None) of
      Inl e \<Rightarrow> False | Inr g2 \<Rightarrow> True"
    by code_simp
  then obtain g1 g2 where g: "gpu_condense [0] biased_batch = Inr g1" "gpu_add [[5], []] joining None g1 = Inr g2"
    by (auto simp: ebind_eq_Inr split: sum.splits)
  have n: "cb_num_reqs (gb_slots biased_batch) = 1" "length (gb_rows biased_batch) = 2"
    "rw_logit_bias (gb_rows biased_batch ! 1) = Some [(7, 5)]"
    by (simp_all add: biased_batch_def cb_num_reqs_def Let_def)
  have holes: "holes_ok {0} (gb_slots biased_batch)"
    by (auto simp: biased_batch_def holes_ok_def Let_def init_gpu_batch_def init_cpu_batch_def nth_Cons
        split: nat.splits)
  have "0 < cb_num_reqs (gb_slots biased_batch)"
    "cb_num_reqs (gb_slots biased_batch) < length (gb_rows biased_batch)" by (simp_all add: n)
  from moved_request_leaves_bias [OF holes this g joining_unbiased] g joining_unbiased(1) show ?thesis
    unfolding n(1) by (simp only: n(3)) blast
qed

section \<open>Swapping rows mixes up the masks\<close>

lemma swap_mixes_masks:
  assumes "gpu_swap i j g = Inr g'" "gb_mask_allocated g" "i \<noteq> j" "i < length (gb_rows g)" "j < length (gb_rows g)"
  shows "rw_mask (gb_rows g' ! i) = rw_mask (gb_rows g ! j) \<and> rw_mask (gb_rows g' ! j) = rw_mask (gb_rows g ! j)"
proof -
  from assms(1) have "gb_rows g' = swap_rows i j (gb_mask_allocated g) (gb_rows g)"
    unfolding gpu_swap_def Let_def ebind_eq_Inr
    by (elim exE conjE) (simp split: option.split_asm, auto)
  then show ?thesis using assms(2-5) by (simp add: swap_rows_def Let_def)
qed

end
