(* ===== verification/NumpyOps.thy ===== *)
theory NumpyOps
  imports Prelude "HOL-Library.Word"
begin

text \<open>
  The numpy operations with which the worker builds its flattened inputs: elementwise operations
  with broadcasting, \<open>repeat\<close>, \<open>cumsum\<close>, arithmetic in 32 bits, and what their combinations
  amount to: an array over all tokens of the batch is the concatenation of one array per request.
\<close>

section \<open>Operations\<close>

definition int32 :: "int \<Rightarrow> int" where
  "int32 x = sint (word_of_int x :: 32 word)"

definition np_zip :: "('a \<Rightarrow> 'b \<Rightarrow> 'c) \<Rightarrow> 'a list \<Rightarrow> 'b list \<Rightarrow> 'c list res" where
  "np_zip f xs ys =
     (if length xs = length ys then Inr (map2 f xs ys)
      else if length xs = 1 then Inr (map (f (hd xs)) ys)
      else if length ys = 1 then Inr (map (\<lambda>x. f x (hd ys)) xs)
      else Inl ValueError)"

definition np_repeat :: "'a list \<Rightarrow> int list \<Rightarrow> 'a list res" where
  "np_repeat xs ns =
     (if \<exists>n \<in> set ns. n < 0 then Inl ValueError
      else if length xs = length ns then Inr (concat (map2 (\<lambda>x n. replicate (nat n) x) xs ns))
      else if length ns = 1 then Inr (concat (map (replicate (nat (hd ns))) xs))
      else Inl ValueError)"

fun cumsum_from :: "int \<Rightarrow> int list \<Rightarrow> int list" where
  "cumsum_from a [] = []"
| "cumsum_from a (x # xs) = (a + x) # cumsum_from (a + x) xs"

definition np_cumsum :: "int list \<Rightarrow> int list" where
  "np_cumsum = cumsum_from 0"

text \<open>\<open>index_select\<close> refuses negative indices.\<close>

definition index_select :: "'a list \<Rightarrow> int list \<Rightarrow> 'a list res" where
  "index_select xs = emap (\<lambda>i. if i < 0 then Inl IndexError else py_get xs i)"

definition np_arange :: "int \<Rightarrow> int list" where
  "np_arange n = map int [0..<nat n]"

section \<open>32-bit arithmetic\<close>

lemma zdiv_less_iff: "0 < b \<Longrightarrow> a div b < k \<longleftrightarrow> a < k * b" for a b k :: int
  using zdiv_le_iff [of b k a] by linarith

lemma int32_id [simp]: "\<lbrakk>- (2 ^ 31) \<le> x; x < 2 ^ 31\<rbrakk> \<Longrightarrow> int32 x = x"
  by (simp add: int32_def sint_sbintrunc' signed_take_bit_int_eq_self)

lemma int32_wraps:
  assumes "2 ^ 31 \<le> x" "x < 2 ^ 32"
  shows "int32 x = x - 2 ^ 32"
proof -
  have "(x + 2 ^ 31) mod 2 ^ 32 = (x + 2 ^ 31 - 2 ^ 32) mod 2 ^ 32" by (rule minus_mod_self2 [symmetric])
  also have "\<dots> = x + 2 ^ 31 - 2 ^ 32" using assms by (intro mod_pos_pos_trivial) simp_all
  finally show ?thesis by (simp add: int32_def int_word_sint)
qed

lemma map_plus_0 [simp]: "map ((+) 0) xs = (xs :: int list)"
  by (induction xs) simp_all

section \<open>Ragged arrays\<close>

lemma np_zip_same [simp]: "length xs = length ys \<Longrightarrow> np_zip f xs ys = Inr (map2 f xs ys)"
  by (simp add: np_zip_def)

lemma np_repeat_same:
  "\<lbrakk>length xs = length ns; \<forall>n \<in> set ns. 0 \<le> n\<rbrakk> \<Longrightarrow>
   np_repeat xs ns = Inr (concat (map2 (\<lambda>x n. replicate (nat n) x) xs ns))"
  by (auto simp: np_repeat_def)

lemma cumsum_length [simp]: "length (cumsum_from a xs) = length xs" "length (np_cumsum xs) = length xs"
  by (induction xs arbitrary: a) (simp_all add: np_cumsum_def)

lemma cumsum_nth: "k < length xs \<Longrightarrow> cumsum_from a xs ! k = a + sum_list (take (Suc k) xs)"
  by (induction xs arbitrary: a k) (auto simp: less_Suc_eq_0_disj)

lemma np_cumsum_nth: "k < length xs \<Longrightarrow> np_cumsum xs ! k = sum_list (take (Suc k) xs)"
  by (simp add: np_cumsum_def cumsum_nth)

lemma np_cumsum_last: "xs \<noteq> [] \<Longrightarrow> last (np_cumsum xs) = sum_list xs"
  by (simp add: last_conv_nth np_cumsum_nth flip: length_greater_0_conv)

text \<open>One array per request, with \<open>n\<close> entries \<open>f x 0, \<dots>, f x (n - 1)\<close>.\<close>

definition ragged :: "('a \<Rightarrow> int \<Rightarrow> 'b) \<Rightarrow> 'a list \<Rightarrow> int list \<Rightarrow> 'b list" where
  "ragged f xs ns = concat (map2 (\<lambda>x n. map (f x) (np_arange n)) xs ns)"

lemma arange_length [simp]: "length (np_arange n) = nat n"
  by (simp add: np_arange_def)

lemma set_arange [simp]: "set (np_arange n) = {0..<n}"
proof -
  have "{0..<n} = int ` {0..<nat n}" by (cases "0 \<le> n") (simp_all add: image_int_atLeastLessThan)
  then show ?thesis by (simp add: np_arange_def)
qed

lemma ragged_Nil [simp]: "ragged f [] ns = []" "ragged f xs [] = []"
  by (simp_all add: ragged_def)

lemma ragged_Cons [simp]: "ragged f (x # xs) (n # ns) = map (f x) (np_arange n) @ ragged f xs ns"
  by (simp add: ragged_def)

lemma ragged_length:
  "\<lbrakk>length xs = length ns; \<forall>n \<in> set ns. 0 \<le> n\<rbrakk> \<Longrightarrow> int (length (ragged f xs ns)) = sum_list ns"
  by (induction xs ns rule: list_induct2) auto

lemma ragged_length_cong:
  "length xs = length ns \<Longrightarrow> length ys = length ns \<Longrightarrow> length (ragged f xs ns) = length (ragged g ys ns)"
proof (induction ns arbitrary: xs ys)
  case (Cons n ns)
  then show ?case by (cases xs; cases ys) auto
qed simp

lemma map_ragged: "map h (ragged f xs ns) = ragged (\<lambda>x i. h (f x i)) xs ns"
  by (simp add: ragged_def map_concat comp_def case_prod_beta')

lemma ragged_cong:
  assumes "length xs = length ys"
    and "\<And>k i. \<lbrakk>k < length xs; k < length ns; 0 \<le> i; i < ns ! k\<rbrakk> \<Longrightarrow> f (xs ! k) i = g (ys ! k) i"
  shows "ragged f xs ns = ragged g ys ns"
  using assms
proof (induction xs ys arbitrary: ns rule: list_induct2)
  case (Cons x xs y ys)
  show ?case
  proof (cases ns)
    case (Cons n ms)
    have "map (f x) (np_arange n) = map (g y) (np_arange n)"
      using Cons.prems [of 0] Cons by simp
    moreover have "ragged f xs ms = ragged g ys ms"
      using Cons.prems [of "Suc k" for k] Cons by (intro Cons.IH) simp
    ultimately show ?thesis using Cons by simp
  qed simp
qed simp

lemma ragged_concat:
  assumes "length xs = length ns"
    and "\<And>k. k < length ns \<Longrightarrow> map (f (xs ! k)) (np_arange (ns ! k)) = g (xs ! k) (ns ! k)"
  shows "ragged f xs ns = concat (map2 g xs ns)"
proof -
  have "map2 (\<lambda>x n. map (f x) (np_arange n)) xs ns = map2 g xs ns"
    by (rule nth_equalityI) (use assms in simp_all)
  then show ?thesis unfolding ragged_def by (rule arg_cong)
qed

lemma set_ragged:
  "set (ragged f xs ns) = {f (xs ! k) i |k i. k < length xs \<and> k < length ns \<and> 0 \<le> i \<and> i < ns ! k}"
  by (fastforce simp: ragged_def set_zip in_set_conv_nth)

lemma zip_ragged:
  "\<lbrakk>length xs = length ns; length ys = length ns\<rbrakk> \<Longrightarrow>
   map2 h (ragged f xs ns) (ragged g ys ns) = ragged (\<lambda>(x, y) i. h (f x i) (g y i)) (zip xs ys) ns"
proof (induction ns arbitrary: xs ys)
  case (Cons n ns)
  then obtain x xs' y ys' where "xs = x # xs'" "ys = y # ys'" by (metis length_Suc_conv)
  then show ?case using Cons by (simp add: zip_map1 zip_map2 zip_same_conv_map)
qed simp

lemma zip_ragged_same:
  "length xs = length ns \<Longrightarrow>
   map2 h (ragged f xs ns) (ragged g xs ns) = ragged (\<lambda>x i. h (f x i) (g x i)) xs ns"
  by (subst zip_ragged) (auto intro: ragged_cong)

lemma zip_ragged_index:
  "\<lbrakk>length xs = length ns; length ys = length ns\<rbrakk> \<Longrightarrow>
   map2 h (ragged f xs ns) (ragged (\<lambda>_ i. i) ys ns) = ragged (\<lambda>x i. h (f x i) i) xs ns"
  by (subst zip_ragged) (auto intro: ragged_cong)

lemma np_zip_ragged:
  assumes "length xs = length ns" "length ys = length ns"
  shows "np_zip h (ragged f xs ns) (ragged g ys ns) = Inr (map2 h (ragged f xs ns) (ragged g ys ns))"
  by (rule np_zip_same) (rule ragged_length_cong [OF assms])

lemma replicate_ragged:
  "concat (map2 (\<lambda>x n. replicate (nat n) x) xs ns) = ragged (\<lambda>x _. x) xs ns"
  by (simp add: ragged_def map_replicate_const)

lemma repeat_ragged:
  "\<lbrakk>length xs = length ns; \<forall>n \<in> set ns. 0 \<le> n\<rbrakk> \<Longrightarrow> np_repeat xs ns = Inr (ragged (\<lambda>x _. x) xs ns)"
  by (simp add: np_repeat_same replicate_ragged)

text \<open>The batched arange: positions within the whole array minus the start of the request.\<close>

lemma arange_add:
  assumes "0 \<le> n" "0 \<le> m"
  shows "np_arange (n + m) = np_arange n @ map ((+) n) (np_arange m)"
proof -
  have "[0..<nat n + nat m] = [0..<nat n] @ map (\<lambda>i. i + nat n) [0..<nat m]"
    unfolding map_add_upt using upt_add_eq_append [of 0 "nat n" "nat m"] by (simp add: add.commute)
  then show ?thesis using assms by (simp add: np_arange_def nat_add_distrib comp_def add.commute)
qed

lemma arange_ragged:
  assumes "\<forall>n \<in> set ns. 0 \<le> n"
  shows "map ((+) a) (np_arange (sum_list ns)) =
    ragged (\<lambda>s i. s + i) (map2 (-) (cumsum_from a ns) ns) ns"
  using assms
proof (induction ns arbitrary: a)
  case (Cons n ns)
  have nonneg: "0 \<le> n" "0 \<le> sum_list ns" using Cons.prems by (auto intro: sum_list_nonneg)
  have "map ((+) a) (np_arange (n + sum_list ns)) =
      map ((+) a) (np_arange n) @ map ((+) (a + n)) (np_arange (sum_list ns))"
    unfolding arange_add [OF nonneg] by (simp add: add.assoc)
  then show ?case using Cons.IH [of "a + n"] Cons.prems by simp
qed (simp add: np_arange_def)

lemma batched_arange:
  assumes "\<forall>n \<in> set ns. 0 \<le> n"
  shows "map2 (-) (np_arange (sum_list ns)) (ragged (\<lambda>x _. x) (map2 (-) (np_cumsum ns) ns) ns) =
    ragged (\<lambda>_ i. i) ns ns"
proof -
  let ?s = "map2 (-) (np_cumsum ns) ns"
  have arange: "np_arange (sum_list ns) = ragged (\<lambda>s i. s + i) ?s ns"
    using arange_ragged [OF assms, of 0] by (simp add: np_cumsum_def)
  have "map2 (-) (np_arange (sum_list ns)) (ragged (\<lambda>x _. x) ?s ns) =
      ragged (\<lambda>(x, y) i. (x + i) - y) (zip ?s ?s) ns"
    unfolding arange by (rule zip_ragged) simp_all
  also have "\<dots> = ragged (\<lambda>_ i. i) ns ns"
    by (rule ragged_cong) simp_all
  finally show ?thesis .
qed

text \<open>The steps of a batched arange, as the code takes them.\<close>

lemma batched_steps:
  assumes "\<forall>n \<in> set ns. 0 \<le> n"
  shows "np_repeat (map2 (-) (np_cumsum ns) ns) ns = Inr (ragged (\<lambda>x _. x) (map2 (-) (np_cumsum ns) ns) ns)"
    "np_zip (-) (np_arange (sum_list ns)) (ragged (\<lambda>x _. x) (map2 (-) (np_cumsum ns) ns) ns) =
      Inr (ragged (\<lambda>_ i. i) ns ns)"
proof -
  show "np_repeat (map2 (-) (np_cumsum ns) ns) ns = Inr (ragged (\<lambda>x _. x) (map2 (-) (np_cumsum ns) ns) ns)"
    by (rule repeat_ragged) (use assms in simp_all)
  have "0 \<le> sum_list ns" using assms by (intro sum_list_nonneg) simp
  then have "length (np_arange (sum_list ns)) = length (ragged (\<lambda>x _. x) (map2 (-) (np_cumsum ns) ns) ns)"
    using ragged_length [of "map2 (-) (np_cumsum ns) ns" ns "\<lambda>x _. x"] assms by simp
  then show "np_zip (-) (np_arange (sum_list ns)) (ragged (\<lambda>x _. x) (map2 (-) (np_cumsum ns) ns) ns) =
      Inr (ragged (\<lambda>_ i. i) ns ns)"
    using batched_arange [OF assms] by simp
qed

text \<open>An elementwise operation that may raise.\<close>

lemma emap_all: "(\<And>x. x \<in> set xs \<Longrightarrow> f x = Inr (g x)) \<Longrightarrow> emap f xs = Inr (map g xs)"
  by (induction xs) simp_all

lemma emap_ragged:
  assumes "\<And>k i. \<lbrakk>k < length xs; k < length ns; 0 \<le> i; i < ns ! k\<rbrakk> \<Longrightarrow> f (g (xs ! k) i) = Inr (h (xs ! k) i)"
  shows "emap f (ragged g xs ns) = Inr (ragged h xs ns)"
proof -
  have "\<forall>x \<in> set (ragged g xs ns). \<exists>y. f x = Inr y"
    using assms by (auto simp: set_ragged)
  have all: "emap f ys = Inr (map (\<lambda>y. projr (f y)) ys)" if "\<forall>y \<in> set ys. \<exists>z. f y = Inr z" for ys
    using that by (induction ys) auto
  have "emap f (ragged g xs ns) = Inr (map (\<lambda>y. projr (f y)) (ragged g xs ns))"
    by (rule all) fact
  also have "map (\<lambda>y. projr (f y)) (ragged g xs ns) = ragged h xs ns"
    unfolding map_ragged by (rule ragged_cong) (simp_all add: assms)
  finally show ?thesis .
qed

lemma emap_only_error:
  assumes "x \<in> set xs" "f x = Inl e" "\<And>y d. f y = Inl d \<Longrightarrow> d = e"
  shows "emap f xs = Inl e"
  using assms(1)
proof (induction xs)
  case (Cons y ys)
  show ?case
  proof (cases "f y")
    case (Inl d)
    then show ?thesis using assms(3) by simp
  next
    case (Inr z)
    then have "x \<in> set ys" using Cons.prems assms(2) by auto
    then show ?thesis using Cons.IH Inr by simp
  qed
qed simp

lemma py_get_error: "py_get xs i = Inl e \<Longrightarrow> e = IndexError"
  by (auto simp: py_get_def py_index_def Let_def split: if_splits)

text \<open>Entries of different requests and of different places of a request differ.\<close>

lemma distinct_ragged:
  assumes "length xs = length ns"
    and "\<And>k l i j. \<lbrakk>k < length ns; l < length ns; 0 \<le> i; i < ns ! k; 0 \<le> j; j < ns ! l;
      f (xs ! k) i = f (xs ! l) j\<rbrakk> \<Longrightarrow> k = l \<and> i = j"
  shows "distinct (ragged f xs ns)"
  using assms
proof (induction xs ns rule: list_induct2)
  case (Cons x xs n ns)
  have "inj_on (f x) (set (np_arange n))"
    using Cons.prems [of 0 0] by (auto simp: inj_on_def)
  moreover have "distinct (np_arange n)" by (simp add: np_arange_def distinct_map inj_on_def)
  ultimately have "distinct (map (f x) (np_arange n))" by (simp add: distinct_map)
  moreover have "distinct (ragged f xs ns)"
    using Cons.prems [of "Suc k" "Suc l" for k l] by (intro Cons.IH) fastforce
  moreover have "f x i \<notin> set (ragged f xs ns)" if "0 \<le> i" "i < n" for i
  proof
    assume "f x i \<in> set (ragged f xs ns)"
    then obtain k j where "f x i = f (xs ! k) j" "k < length ns" "0 \<le> j" "j < ns ! k"
      by (auto simp: set_ragged)
    then show False using Cons.prems [of 0 "Suc k" i j] that by simp
  qed
  ultimately show ?case by auto
qed simp

text \<open>The entry \<open>i\<close> of the request at index \<open>k\<close>, whose entries start at the sum of the counts before.\<close>

lemma starts_nth: "k < length ns \<Longrightarrow> map2 (-) (np_cumsum ns) ns ! k = sum_list (take k ns)"
  by (simp add: np_cumsum_nth take_Suc_conv_app_nth)

lemma ragged_nth:
  assumes "length xs = length ns" "\<forall>n \<in> set ns. 0 \<le> n" "k < length ns" "0 \<le> i" "i < ns ! k"
  shows "0 \<le> sum_list (take k ns) \<and> sum_list (take k ns) + i < int (length (ragged f xs ns)) \<and>
    ragged f xs ns ! nat (sum_list (take k ns) + i) = f (xs ! k) i"
  using assms
proof (induction xs ns arbitrary: k rule: list_induct2)
  case (Cons x xs n ns)
  have len: "int (length (ragged f xs ns)) = sum_list ns" using Cons by (intro ragged_length) simp_all
  show ?case
  proof (cases k)
    case 0
    moreover have "0 \<le> sum_list ns" using Cons.prems(1) by (intro sum_list_nonneg) simp
    ultimately show ?thesis using Cons.prems by (simp add: nth_append np_arange_def)
  next
    case (Suc j)
    let ?s = "sum_list (take j ns)"
    have step: "0 \<le> ?s" "?s + i < int (length (ragged f xs ns))" "ragged f xs ns ! nat (?s + i) = f (xs ! j) i"
      using Cons.IH [of j] Cons.prems Suc by simp_all
    have "nat (n + ?s + i) = nat n + nat (?s + i)" using Cons.prems(1,3) step(1)
      by (simp add: nat_add_distrib add.assoc)
    then show ?thesis using step Cons.prems(1) Suc by (simp add: nth_append)
  qed
qed simp

text \<open>A flattened two-dimensional array.\<close>

lemma length_concat_uniform:
  "\<forall>xs \<in> set xss. length xs = L \<Longrightarrow> length (concat xss) = length xss * L"
  by (induction xss) auto

lemma nth_concat_uniform:
  assumes "\<forall>xs \<in> set xss. length xs = L" "k < length xss" "j < L"
  shows "concat xss ! (k * L + j) = xss ! k ! j"
  using assms
proof (induction xss arbitrary: k)
  case (Cons xs xss)
  then show ?case by (cases k) (auto simp: nth_append)
qed simp

lemma flat_index:
  assumes "\<forall>xs \<in> set xss. length xs = L" "k < length xss" "0 \<le> j" "j < int L"
  shows "py_get (concat xss) (int k * int L + j) = Inr (xss ! k ! nat j)"
proof -
  have "k * L + nat j < length (concat xss)"
  proof -
    have "k * L + nat j < (k + 1) * L" using assms(3,4) by auto
    also have "\<dots> \<le> length xss * L" using assms(2) by (intro mult_right_mono) auto
    finally show ?thesis using length_concat_uniform [OF assms(1)] by simp
  qed
  moreover have "nat (int k * int L + j) = k * L + nat j"
    using assms(3) by (metis nat_add_distrib nat_int of_nat_0_le_iff of_nat_mult)
  moreover have "int k * int L + j = int (k * L + nat j)" using assms(3) by simp
  moreover have "concat xss ! (k * L + nat j) = xss ! k ! nat j"
    using nth_concat_uniform [OF assms(1,2)] assms(3,4) by simp
  ultimately show ?thesis by (simp add: py_get_nonneg del: of_nat_add of_nat_mult)
qed

lemma sum_list_le:
  "\<lbrakk>length xs = length ys; \<And>k. k < length ys \<Longrightarrow> xs ! k \<le> ys ! k\<rbrakk> \<Longrightarrow> sum_list xs \<le> sum_list (ys :: int list)"
proof (induction xs ys rule: list_induct2)
  case (Cons x xs y ys)
  then show ?case using Cons.prems [of 0] Cons.prems [of "Suc k" for k] by (simp add: add_mono)
qed simp

text \<open>The last of the cumulative sums is the total.\<close>

lemma py_get_total: "ns \<noteq> [] \<Longrightarrow> py_get (np_cumsum ns) (- 1) = Inr (sum_list ns)"
  using py_get_last [of "np_cumsum ns"] np_cumsum_last [of ns] by (metis cumsum_length(2) length_0_conv)

end
