(* ===== verification/PrepareInputs.thy ===== *)
theory PrepareInputs
  imports Worker NumpyOps
begin

text \<open>
  The inputs of the model for one step: \<open>_prepare_inputs\<close> of
  \<open>spexis/spec_parallel/gpu_model_runner.py\<close>, with \<open>_calc_spec_decode_metadata\<close> and
  \<open>_compute_cascade_attn_prefix_len\<close> of \<open>spexis/v1/worker/gpu_model_runner.py\<close> and the heuristics
  of \<open>spexis/v1/attention/backends/flash_attn.py\<close>.

  The arrays for all tokens of the step are computed by vectorised operations on flattened arrays.
  The indices of requests are 32-bit integers, so that their products wrap around. Multi-axis
  rotary positions, the hot swap of adapters and the copies to the device are left out.
\<close>

section \<open>Configuration\<close>

record worker_config =
  wc_max_len :: int
  wc_max_blocks :: int
  wc_block_size :: int
  wc_max_tokens :: int
  wc_query_heads :: int
  wc_kv_heads :: int
  wc_alibi :: bool
  wc_sliding_window :: bool
  wc_num_sms :: int
  wc_cascade :: bool

text \<open>The length of the array from which ranges are sliced, and such a slice.\<close>

definition arange_slice :: "worker_config \<Rightarrow> gpu_batch \<Rightarrow> int \<Rightarrow> int list" where
  "arange_slice cfg g n =
     np_arange (min n (max (max (int (cb_max (gb_slots g)) + 1) (wc_max_len cfg)) (wc_max_tokens cfg)))"

section \<open>Cascade attention\<close>

definition use_cascade_attention :: "worker_config \<Rightarrow> int \<Rightarrow> int list \<Rightarrow> bool" where
  "use_cascade_attention cfg prefix_len query_lens =
     (if prefix_len < 256 then False
      else if wc_alibi cfg \<or> wc_sliding_window cfg then False
      else if length query_lens < 8 then False
      else (let num_reqs = py_len query_lens;
                per_kv = wc_query_heads cfg div wc_kv_heads cfg;
                flash_decoding = (1 < per_kv \<and> (\<forall>q \<in> set query_lens. q = 1));
                prefix_tiles = cdiv prefix_len 128;
                cascade_ctas = wc_query_heads cfg * cdiv num_reqs 128;
                cascade_time = cdiv cascade_ctas (wc_num_sms cfg) * prefix_tiles;
                decoding_ctas = num_reqs * wc_kv_heads cfg * cdiv per_kv 128 * prefix_tiles
            in \<not> flash_decoding \<or> cascade_time < cdiv decoding_ctas (wc_num_sms cfg)))"

definition cascade_prefix_len :: "worker_config \<Rightarrow> int list \<Rightarrow> int \<Rightarrow> gpu_batch \<Rightarrow> int" where
  "cascade_prefix_len cfg counts num_common g =
     (let bs = wc_block_size cfg; len = num_common * bs in
      if len = 0 then 0
      else (let len' = min len (Min (set (map rw_num_computed (take (length counts) (gb_rows g)))));
                aligned = len' div bs * bs
            in if use_cascade_attention cfg aligned counts then aligned else 0))"

section \<open>Draft tokens\<close>

record spec_metadata =
  sd_draft_token_ids :: "int list"
  sd_num_draft_tokens :: "int list"
  sd_cu_num_draft_tokens :: "int list"
  sd_target_logits_indices :: "int list"
  sd_bonus_logits_indices :: "int list"
  sd_logits_indices :: "int list"

definition calc_spec_decode_metadata ::
  "(int \<Rightarrow> int list) \<Rightarrow> int list \<Rightarrow> int list \<Rightarrow> int list \<Rightarrow> spec_metadata res" where
  "calc_spec_decode_metadata arange num_draft cu_scheduled input_ids =
     (let num_sampled = map ((+) 1) num_draft; cu_sampled = np_cumsum num_sampled;
          starts = map2 (-) cu_sampled num_sampled; cu_draft = np_cumsum num_draft in
      ebind (py_get cu_sampled (- 1)) (\<lambda>total_sampled.
      ebind (np_repeat starts num_sampled) (\<lambda>offsets.
      ebind (np_zip (-) (arange total_sampled) offsets) (\<lambda>inner.
      ebind (np_repeat (map2 (-) cu_scheduled num_sampled) num_sampled) (\<lambda>bases.
      ebind (np_zip (+) bases inner) (\<lambda>logits_indices.
      ebind (py_get cu_draft (- 1)) (\<lambda>total_draft.
      ebind (np_repeat (map2 (-) cu_draft num_draft) num_draft) (\<lambda>draft_offsets.
      ebind (np_zip (-) (arange total_draft) draft_offsets) (\<lambda>draft_inner.
      ebind (np_repeat starts num_draft) (\<lambda>draft_bases.
      ebind (np_zip (+) draft_bases draft_inner) (\<lambda>target_indices.
      ebind (emap (py_get input_ids) logits_indices) (\<lambda>sampled_ids.
      ebind (emap (py_get sampled_ids) (map ((+) 1) target_indices)) (\<lambda>draft_ids.
      Inr \<lparr>sd_draft_token_ids = draft_ids, sd_num_draft_tokens = num_draft,
           sd_cu_num_draft_tokens = cu_draft, sd_target_logits_indices = target_indices,
           sd_bonus_logits_indices = map (\<lambda>x. x - 1) cu_sampled,
           sd_logits_indices = logits_indices\<rparr>)))))))))))))"

definition count_drafts :: "scheduler_output \<Rightarrow> cpu_batch \<Rightarrow> int list res" where
  "count_drafts so b =
     efold (\<lambda>(r, ts) ns.
         case map_of (cb_index b) r of
           None \<Rightarrow> Inl KeyError
         | Some k \<Rightarrow> py_set ns (int k) (py_len ts))
       (so_spec_decode_tokens so) (replicate (cb_num_reqs b) 0)"

section \<open>Inputs\<close>

record model_inputs =
  mi_positions :: "int list"
  mi_input_ids :: "int list"
  mi_slots :: "int list"
  mi_query_start_loc :: "int list"
  mi_seq_lens :: "int list"
  mi_max_query_len :: int
  mi_common_prefix_len :: int
  mi_logits_indices :: "int list"
  mi_spec :: "spec_metadata option"

definition scheduled_counts :: "scheduler_output \<Rightarrow> cpu_batch \<Rightarrow> int list res" where
  "scheduled_counts so b =
     emap (\<lambda>i. case i of
         None \<Rightarrow> Inl KeyError
       | Some r \<Rightarrow> (case map_of (so_num_scheduled_tokens so) r of None \<Rightarrow> Inl KeyError | Some n \<Rightarrow> Inr n))
       (cb_ids b)"

definition logits_of ::
  "worker_config \<Rightarrow> scheduler_output \<Rightarrow> gpu_batch \<Rightarrow> int list \<Rightarrow> int list \<Rightarrow>
   (int list \<times> spec_metadata option) res" where
  "logits_of cfg so g cu input_ids =
     (if so_spec_decode_tokens so = [] then Inr (map (\<lambda>x. x - 1) cu, None)
      else ebind (count_drafts so (gb_slots g)) (\<lambda>num_draft.
           ebind (calc_spec_decode_metadata (arange_slice cfg g) num_draft cu input_ids) (\<lambda>m.
           Inr (sd_logits_indices m, Some m))))"

definition prepare_inputs ::
  "worker_config \<Rightarrow> scheduler_output \<Rightarrow> gpu_batch \<Rightarrow> model_inputs res" where
  "prepare_inputs cfg so g =
     (let total = so_total_num_scheduled_tokens so; n = cb_num_reqs (gb_slots g); bs = wc_block_size cfg in
      ebind (py_assert (0 < total)) (\<lambda>_.
      ebind (py_assert (0 < n)) (\<lambda>_.
      ebind (scheduled_counts so (gb_slots g)) (\<lambda>counts.
      ebind (np_repeat (np_arange (int n)) counts) (\<lambda>req_indices.
      (let cu = np_cumsum counts in
      ebind (np_repeat (map2 (-) cu counts) counts) (\<lambda>offsets.
      ebind (np_zip (-) (arange_slice cfg g total) offsets) (\<lambda>inner.
      ebind (emap (py_get (map rw_num_computed (gb_rows g))) req_indices) (\<lambda>computed.
      ebind (np_zip (+) computed inner) (\<lambda>positions.
      ebind (raise_if (py_len positions \<noteq> min total (wc_max_tokens cfg)) ValueError) (\<lambda>_.
      ebind (np_zip (+) positions (map (\<lambda>i. int32 (i * wc_max_len cfg)) req_indices)) (\<lambda>token_indices.
      ebind (index_select (concat (map rw_tokens (gb_rows g))) token_indices) (\<lambda>input_ids.
      ebind (np_zip (+) (map (\<lambda>i. int32 (i * wc_max_blocks cfg)) req_indices) (map (\<lambda>p. p div bs) positions))
        (\<lambda>block_indices.
      ebind (emap (py_get (concat (map rw_blocks (gb_rows g)))) block_indices) (\<lambda>block_numbers.
      ebind (np_zip (\<lambda>b p. int32 (int32 (int b * bs) + p mod bs)) block_numbers positions) (\<lambda>slots.
      ebind (np_zip (+) (map rw_num_computed (take n (gb_rows g))) counts) (\<lambda>seq_lens.
      ebind (logits_of cfg so g cu input_ids) (\<lambda>(logits_indices, spec).
      Inr \<lparr>mi_positions = positions, mi_input_ids = input_ids, mi_slots = slots,
           mi_query_start_loc = 0 # cu, mi_seq_lens = seq_lens, mi_max_query_len = Max (set counts),
           mi_common_prefix_len = (if wc_cascade cfg
             then cascade_prefix_len cfg counts (so_num_common_prefix_blocks so) g else 0),
           mi_logits_indices = logits_indices, mi_spec = spec\<rparr>))))))))))))))))))"

section \<open>One array per request\<close>

definition counts_of :: "scheduler_output \<Rightarrow> cpu_batch \<Rightarrow> int list" where
  "counts_of so b = map (\<lambda>i. num_scheduled_of so (the i)) (cb_ids b)"

lemma scheduled_counts_ok:
  assumes "batch_ok b" "batch_reqs b = scheduled_ids so"
  shows "scheduled_counts so b = Inr (counts_of so b)"
proof -
  let ?f = "\<lambda>i. case i of None \<Rightarrow> Inl KeyError
    | Some r \<Rightarrow> (case map_of (so_num_scheduled_tokens so) r of None \<Rightarrow> Inl KeyError | Some n \<Rightarrow> Inr n)"
  have "?f i = Inr (num_scheduled_of so (the i))" if i: "i \<in> set (cb_ids b)" for i
  proof -
    obtain k where k: "k < length (cb_ids b)" "cb_ids b ! k = i" using i by (auto simp: in_set_conv_nth)
    then obtain r where r: "i = Some r" using holes_okD(2) [OF assms(1) k(1)] by auto
    then have "r \<in> scheduled_ids so" using holes_okD(1) [OF assms(1), of r k] k assms(2) by auto
    then have "r \<in> dom (map_of (so_num_scheduled_tokens so))"
      unfolding scheduled_ids_def dom_map_of_conv_image_fst set_map .
    then obtain n where "map_of (so_num_scheduled_tokens so) r = Some n" by blast
    then show ?thesis using r by (simp add: num_scheduled_of_def)
  qed
  then show ?thesis unfolding scheduled_counts_def counts_of_def by (rule emap_all)
qed

text \<open>
  What the step promises: it has tokens, no more than fit the buffers; each request has at least
  one; and its row has room and blocks for them. The sizes of the flattened arrays and the slots
  of the KV cache are 31-bit numbers.
\<close>

definition inputs_fit :: "nat \<Rightarrow> nat \<Rightarrow> worker_config \<Rightarrow> scheduler_output \<Rightarrow> gpu_batch \<Rightarrow> bool" where
  "inputs_fit L B cfg so g \<longleftrightarrow>
     (let ns = counts_of so (gb_slots g); bs = wc_block_size cfg in
      wc_max_len cfg = int L \<and> wc_max_blocks cfg = int B \<and> 0 < bs \<and>
      so_total_num_scheduled_tokens so = sum_list ns \<and> sum_list ns \<le> wc_max_tokens cfg \<and> ns \<noteq> [] \<and>
      (\<forall>k < length ns. 1 \<le> ns ! k \<and> 0 \<le> rw_num_computed (gb_rows g ! k) \<and>
         rw_num_computed (gb_rows g ! k) + ns ! k \<le> int L \<and>
         rw_num_computed (gb_rows g ! k) + ns ! k \<le> rw_num_blocks (gb_rows g ! k) * bs \<and>
         rw_num_blocks (gb_rows g ! k) \<le> int B \<and>
         (\<forall>b \<in> set (take (nat (rw_num_blocks (gb_rows g ! k))) (rw_blocks (gb_rows g ! k))). (int b + 1) * bs \<le> 2 ^ 31)) \<and>
      int (cb_max (gb_slots g)) * int L \<le> 2 ^ 31 \<and> int (cb_max (gb_slots g)) * int B \<le> 2 ^ 31)"

text \<open>Position \<open>p\<close> of a request in the KV cache.\<close>

definition slot_of :: "int \<Rightarrow> nat list \<Rightarrow> int \<Rightarrow> int" where
  "slot_of bs blocks p = int (blocks ! nat (p div bs)) * bs + p mod bs"

lemma int32_row: "\<lbrakk>k < m; int m * int L \<le> 2 ^ 31\<rbrakk> \<Longrightarrow> int32 (int k * int L) = int k * int L"
proof (cases "L = 0")
  case False
  assume k: "k < m" "int m * int L \<le> 2 ^ 31"
  then have "int k * int L < int m * int L" using False by simp
  moreover have "- (2 ^ 31) \<le> int k * int L" by (rule order_trans [of _ 0]) simp_all
  ultimately show ?thesis using k(2) by (intro int32_id) linarith+
qed simp

lemma int32_slot:
  assumes "(int b + 1) * bs \<le> 2 ^ 31" "0 < bs"
  shows "int32 (int32 (int b * bs) + p mod bs) = int b * bs + p mod bs"
proof -
  have p: "0 \<le> p mod bs" "p mod bs < bs" using assms(2) by simp_all
  have b: "0 \<le> int b * bs" using assms(2) by simp
  have top: "int b * bs + bs \<le> 2 ^ 31" using assms(1) by (simp add: distrib_right)
  have "int32 (int b * bs) = int b * bs" by (rule int32_id) (use b top assms(2) in linarith)+
  moreover have "int32 (int b * bs + p mod bs) = int b * bs + p mod bs"
    by (rule int32_id) (use b top p in linarith)+
  ultimately show ?thesis by simp
qed

lemma block_index:
  assumes "0 \<le> p" "p < nb * bs" "nb \<le> m" "0 < bs"
  shows "0 \<le> p div bs" "p div bs < nb" "p div bs < (m :: int)"
proof -
  show "0 \<le> p div bs" "p div bs < nb" using assms by (simp_all add: pos_imp_zdiv_nonneg_iff zdiv_less_iff)
  then show "p div bs < m" using assms(3) by simp
qed

lemma prepare_arrays:
  fixes so g cfg
  defines "ns \<equiv> counts_of so (gb_slots g)" and "rows \<equiv> take (cb_num_reqs (gb_slots g)) (gb_rows g)"
    and "bs \<equiv> wc_block_size cfg"
  assumes "batch_ok (gb_slots g)" "batch_reqs (gb_slots g) = scheduled_ids so"
    and "length (gb_rows g) = cb_max (gb_slots g)" "\<forall>w \<in> set (gb_rows g). row_wf L B V w"
    and "inputs_fit L B cfg so g"
    and "logits_of cfg so g (np_cumsum ns) (ragged (\<lambda>w i. rw_tokens w ! nat (rw_num_computed w + i)) rows ns) =
      Inr (li, spec)"
  shows "prepare_inputs cfg so g = Inr
    \<lparr>mi_positions = ragged (\<lambda>w i. rw_num_computed w + i) rows ns,
     mi_input_ids = ragged (\<lambda>w i. rw_tokens w ! nat (rw_num_computed w + i)) rows ns,
     mi_slots = ragged (\<lambda>w i. slot_of bs (rw_blocks w) (rw_num_computed w + i)) rows ns,
     mi_query_start_loc = 0 # np_cumsum ns,
     mi_seq_lens = map2 (\<lambda>w n. rw_num_computed w + n) rows ns,
     mi_max_query_len = Max (set ns),
     mi_common_prefix_len = (if wc_cascade cfg
       then cascade_prefix_len cfg ns (so_num_common_prefix_blocks so) g else 0),
     mi_logits_indices = li, mi_spec = spec\<rparr>"
proof -
  let ?b = "gb_slots g" let ?n = "cb_num_reqs ?b" let ?xs = "np_arange (int ?n)"
  let ?w = "\<lambda>x. gb_rows g ! nat x"
  have n: "?n = length ns" using holes_count [OF assms(4)] by (simp add: ns_def counts_of_def)
  have max: "?n \<le> cb_max ?b" using holes_okD(4) [OF assms(4)] n by (simp add: ns_def counts_of_def)
  have fit: "wc_max_len cfg = int L" "wc_max_blocks cfg = int B" "0 < bs"
    "so_total_num_scheduled_tokens so = sum_list ns" "sum_list ns \<le> wc_max_tokens cfg" "ns \<noteq> []"
    "\<And>k. k < length ns \<Longrightarrow> 1 \<le> ns ! k \<and> 0 \<le> rw_num_computed (gb_rows g ! k) \<and>
      rw_num_computed (gb_rows g ! k) + ns ! k \<le> int L \<and>
      rw_num_computed (gb_rows g ! k) + ns ! k \<le> rw_num_blocks (gb_rows g ! k) * bs \<and>
      rw_num_blocks (gb_rows g ! k) \<le> int B \<and>
      (\<forall>b \<in> set (take (nat (rw_num_blocks (gb_rows g ! k))) (rw_blocks (gb_rows g ! k))). (int b + 1) * bs \<le> 2 ^ 31)"
    "int (cb_max ?b) * int L \<le> 2 ^ 31" "int (cb_max ?b) * int B \<le> 2 ^ 31"
    using assms(8) unfolding inputs_fit_def Let_def ns_def [symmetric] bs_def [symmetric] by blast+
  have pos: "\<forall>n \<in> set ns. 0 \<le> n" using fit(7) by (force simp: in_set_conv_nth)
  have total: "0 < sum_list ns"
  proof -
    obtain m ms where "ns = m # ms" using fit(6) by (cases ns) auto
    then show ?thesis using pos fit(7) [of 0] sum_list_nonneg [of ms] by auto
  qed
  have len: "length ?xs = length ns" "length rows = length ns"
    using n max assms(6) by (simp_all add: rows_def)
  have rows_nth: "rows ! k = ?w (?xs ! k)" if "k < length ns" for k
    using that n by (simp add: rows_def np_arange_def)
  have to_rows: "ragged (\<lambda>x i. f (?w x) i) ?xs ns = ragged f rows ns" for f :: "gpu_row \<Rightarrow> int \<Rightarrow> 'c"
    by (rule ragged_cong) (use len rows_nth in simp_all)
  have xs_nth: "?xs ! k = int k" if "k < length ns" for k using that n by (simp add: np_arange_def)
  have in_rows: "k < length (gb_rows g)" if "k < length ns" for k using that n max assms(6) by simp
  have wf: "row_wf L B V (gb_rows g ! k)" if "k < length ns" for k
    using assms(7) in_rows [OF that] by simp
  have counts: "scheduled_counts so ?b = Inr ns"
    using scheduled_counts_ok [OF assms(4,5)] by (simp add: ns_def)
  have indices: "np_repeat ?xs ns = Inr (ragged (\<lambda>x _. x) ?xs ns)" by (rule repeat_ragged [OF len(1) pos])
  have offsets: "np_repeat (map2 (-) (np_cumsum ns) ns) ns =
      Inr (ragged (\<lambda>x _. x) (map2 (-) (np_cumsum ns) ns) ns)"
    by (rule repeat_ragged) (use pos in simp_all)
  have slice: "arange_slice cfg g (sum_list ns) = np_arange (sum_list ns)"
    unfolding arange_slice_def using fit(5) by (intro arg_cong [of _ _ np_arange] min_absorb1) simp
  have "length (np_arange (sum_list ns)) = length (ragged (\<lambda>x _. x) (map2 (-) (np_cumsum ns) ns) ns)"
    using ragged_length [of "map2 (-) (np_cumsum ns) ns" ns "\<lambda>x _. x"] pos total by simp
  then have inner: "np_zip (-) (np_arange (sum_list ns)) (ragged (\<lambda>x _. x) (map2 (-) (np_cumsum ns) ns) ns) =
      Inr (ragged (\<lambda>_ i. i) ns ns)"
    using batched_arange [OF pos] by simp
  have computed: "emap (py_get (map rw_num_computed (gb_rows g))) (ragged (\<lambda>x _. x) ?xs ns) =
      Inr (ragged (\<lambda>x _. rw_num_computed (?w x)) ?xs ns)"
    by (rule emap_ragged) (use xs_nth in_rows in \<open>simp add: py_get_nonneg\<close>)
  let ?p = "\<lambda>x i. rw_num_computed (?w x) + i"
  have positions: "np_zip (+) (ragged (\<lambda>x _. rw_num_computed (?w x)) ?xs ns) (ragged (\<lambda>_ i. i) ns ns) =
      Inr (ragged ?p ?xs ns)"
    unfolding np_zip_ragged [OF len(1) refl] by (simp add: zip_ragged_index [OF len(1) refl])
  have tokens: "np_zip (+) (ragged ?p ?xs ns) (map (\<lambda>i. int32 (i * wc_max_len cfg)) (ragged (\<lambda>x _. x) ?xs ns)) =
      Inr (ragged (\<lambda>x i. ?p x i + int32 (x * int L)) ?xs ns)"
    unfolding map_ragged fit(1) np_zip_ragged [OF len(1) len(1)] zip_ragged_same [OF len(1)] ..
  have "index_select (concat (map rw_tokens (gb_rows g))) (ragged (\<lambda>x i. ?p x i + int32 (x * int L)) ?xs ns) =
      Inr (ragged (\<lambda>x i. rw_tokens (?w x) ! nat (?p x i)) ?xs ns)"
    unfolding index_select_def
  proof (rule emap_ragged)
    fix k i assume k: "k < length ?xs" "k < length ns" "0 \<le> i" "i < ns ! k"
    have p: "0 \<le> ?p (int k) i" "?p (int k) i < int L" using fit(7) [OF k(2)] k(3,4) by simp_all
    have "int32 (int k * int L) = int k * int L"
      using int32_row [OF _ fit(8)] in_rows [OF k(2)] assms(6) by simp
    moreover have "py_get (concat (map rw_tokens (gb_rows g))) (int k * int L + ?p (int k) i) =
        Inr (map rw_tokens (gb_rows g) ! k ! nat (?p (int k) i))"
      by (rule flat_index) (use assms(7) in_rows [OF k(2)] p in \<open>auto simp: row_wf_def\<close>)
    moreover have "0 \<le> int k * int L + ?p (int k) i" using p(1) by simp
    ultimately show "(if ?p (?xs ! k) i + int32 (?xs ! k * int L) < 0 then Inl IndexError
        else py_get (concat (map rw_tokens (gb_rows g))) (?p (?xs ! k) i + int32 (?xs ! k * int L))) =
      Inr (rw_tokens (?w (?xs ! k)) ! nat (?p (?xs ! k) i))"
      using in_rows [OF k(2)] by (simp add: xs_nth [OF k(2)] add.commute)
  qed
  note input_ids = this [unfolded to_rows [of "\<lambda>w i. rw_tokens w ! nat (rw_num_computed w + i)"]]
  have blocks: "np_zip (+) (map (\<lambda>i. int32 (i * wc_max_blocks cfg)) (ragged (\<lambda>x _. x) ?xs ns))
      (map (\<lambda>p. p div bs) (ragged ?p ?xs ns)) = Inr (ragged (\<lambda>x i. int32 (x * int B) + ?p x i div bs) ?xs ns)"
    unfolding map_ragged fit(2) np_zip_ragged [OF len(1) len(1)] zip_ragged_same [OF len(1)] ..
  have numbers: "emap (py_get (concat (map rw_blocks (gb_rows g)))) (ragged (\<lambda>x i. int32 (x * int B) + ?p x i div bs) ?xs ns) =
      Inr (ragged (\<lambda>x i. rw_blocks (?w x) ! nat (?p x i div bs)) ?xs ns)"
  proof (rule emap_ragged)
    fix k i assume k: "k < length ?xs" "k < length ns" "0 \<le> i" "i < ns ! k"
    let ?q = "?p (int k) i div bs"
    have p: "0 \<le> ?p (int k) i" "?p (int k) i < rw_num_blocks (?w (int k)) * bs" "rw_num_blocks (?w (int k)) \<le> int B"
      using fit(7) [OF k(2)] k(3,4) by simp_all
    note q = block_index(1,3) [OF p fit(3)]
    have "int32 (int k * int B) = int k * int B"
      using int32_row [OF _ fit(9)] in_rows [OF k(2)] assms(6) by simp
    moreover have "py_get (concat (map rw_blocks (gb_rows g))) (int k * int B + ?q) =
        Inr (map rw_blocks (gb_rows g) ! k ! nat ?q)"
      by (rule flat_index) (use assms(7) in_rows [OF k(2)] q in \<open>auto simp: row_wf_def\<close>)
    ultimately show "py_get (concat (map rw_blocks (gb_rows g))) (int32 (?xs ! k * int B) + ?p (?xs ! k) i div bs) =
        Inr (rw_blocks (?w (?xs ! k)) ! nat (?p (?xs ! k) i div bs))"
      using in_rows [OF k(2)] by (simp add: xs_nth [OF k(2)])
  qed
  have "np_zip (\<lambda>b p. int32 (int32 (int b * bs) + p mod bs))
      (ragged (\<lambda>x i. rw_blocks (?w x) ! nat (?p x i div bs)) ?xs ns) (ragged ?p ?xs ns) =
      Inr (ragged (\<lambda>x i. int32 (int32 (int (rw_blocks (?w x) ! nat (?p x i div bs)) * bs) + ?p x i mod bs)) ?xs ns)"
    unfolding np_zip_ragged [OF len(1) len(1)] zip_ragged_same [OF len(1)] ..
  also have "ragged (\<lambda>x i. int32 (int32 (int (rw_blocks (?w x) ! nat (?p x i div bs)) * bs) + ?p x i mod bs)) ?xs ns =
      ragged (\<lambda>x i. slot_of bs (rw_blocks (?w x)) (?p x i)) ?xs ns"
  proof (rule ragged_cong [OF refl])
    fix k i assume k: "k < length ?xs" "k < length ns" "0 \<le> i" "i < ns ! k"
    let ?q = "?p (int k) i div bs"
    have p: "0 \<le> ?p (int k) i" "?p (int k) i < rw_num_blocks (?w (int k)) * bs" "rw_num_blocks (?w (int k)) \<le> int B"
      using fit(7) [OF k(2)] k(3,4) by simp_all
    have "nat ?q < length (rw_blocks (?w (int k)))" "nat ?q < nat (rw_num_blocks (?w (int k)))"
      using wf [OF k(2)] block_index [OF p fit(3)] by (simp_all add: row_wf_def)
    then have "rw_blocks (?w (int k)) ! nat ?q \<in> set (take (nat (rw_num_blocks (?w (int k)))) (rw_blocks (?w (int k))))"
      by (force simp: in_set_conv_nth)
    then have "(int (rw_blocks (?w (int k)) ! nat ?q) + 1) * bs \<le> 2 ^ 31"
      using fit(7) [OF k(2)] by simp
    from int32_slot [OF this fit(3)]
    show "int32 (int32 (int (rw_blocks (?w (?xs ! k)) ! nat (?p (?xs ! k) i div bs)) * bs) + ?p (?xs ! k) i mod bs) =
        slot_of bs (rw_blocks (?w (?xs ! k))) (?p (?xs ! k) i)"
      by (simp add: xs_nth [OF k(2)] slot_of_def)
  qed
  also note to_rows [of "\<lambda>w i. slot_of bs (rw_blocks w) (rw_num_computed w + i)"]
  finally have slots: "np_zip (\<lambda>b p. int32 (int32 (int b * bs) + p mod bs))
      (ragged (\<lambda>x i. rw_blocks (?w x) ! nat (?p x i div bs)) ?xs ns) (ragged ?p ?xs ns) =
      Inr (ragged (\<lambda>w i. slot_of bs (rw_blocks w) (rw_num_computed w + i)) rows ns)" .
  have seq: "np_zip (+) (map rw_num_computed rows) ns = Inr (map2 (\<lambda>w n. rw_num_computed w + n) rows ns)"
    using len(2) by (simp add: zip_map1 case_prod_beta')
  have size: "py_len (ragged ?p ?xs ns) = min (sum_list ns) (wc_max_tokens cfg)"
    using ragged_length [OF len(1) pos, of ?p] fit(5) by (simp add: py_len_def)
  have "0 < ?n" using n fit(6) by simp
  then show ?thesis
    by (simp only: prepare_inputs_def Let_def fit(4) counts total indices offsets slice inner computed positions
        size tokens input_ids blocks numbers slots seq assms(9) ebind_simps py_assert_True raise_if_False
        bs_def [symmetric] rows_def [symmetric] not_True_eq_False simp_thms case_prod_conv)
      (simp only: to_rows [of "\<lambda>w i. rw_num_computed w + i"])
qed

section \<open>The inputs are those of the requests\<close>

text \<open>The cached state of the request at an index, and the token ids it processes in this step.\<close>

definition state_at :: "runner \<Rightarrow> string option \<Rightarrow> cached_state" where
  "state_at ru i = the (ru_requests ru (the i))"

definition processed :: "runner \<Rightarrow> string option \<Rightarrow> int \<Rightarrow> int list" where
  "processed ru i n =
     take (nat n) (drop (nat (cs_num_computed_tokens (state_at ru i))) (cs_tokens (ru_heap ru) (state_at ru i)))"

text \<open>What is scheduled is known.\<close>

definition tokens_known :: "scheduler_output \<Rightarrow> gpu_batch \<Rightarrow> bool" where
  "tokens_known so g \<longleftrightarrow>
     (let ns = counts_of so (gb_slots g) in
      \<forall>k < length ns. rw_num_computed (gb_rows g ! k) + ns ! k \<le> rw_num_tokens_no_spec (gb_rows g ! k))"

lemma batch_row:
  assumes "runner_ok L B ru" "k < length (cb_ids (gb_slots (ru_batch ru)))"
  shows "\<exists>r c. cb_ids (gb_slots (ru_batch ru)) ! k = Some r \<and> r \<in> batch_reqs (gb_slots (ru_batch ru)) \<and>
    ru_requests ru r = Some c \<and> state_at ru (cb_ids (gb_slots (ru_batch ru)) ! k) = c \<and>
    tokens_show (ru_heap ru) c (gb_rows (ru_batch ru) ! k)"
proof -
  let ?g = "ru_batch ru"
  have ok: "batch_rows_ok L B (ru_requests ru) (ru_heap ru) ?g" "batch_ok (gb_slots ?g)"
    using assms(1) by (simp_all add: runner_ok_def stepping_def)
  from row_of_index [OF ok assms(2)] obtain r c where r: "cb_ids (gb_slots ?g) ! k = Some r"
    "ru_requests ru r = Some c" "row_shows (ru_heap ru) (gb_vocab_size ?g) c (gb_rows ?g ! k)" by blast
  moreover have "r \<in> batch_reqs (gb_slots ?g)" using holes_okD(1) [OF ok(2), of r k] r(1) assms(2) by auto
  ultimately show ?thesis by (simp add: state_at_def row_shows_def)
qed

lemma row_agrees:
  assumes "tokens_show h c w" "0 \<le> rw_num_computed w" "0 \<le> i" "rw_num_computed w + i < rw_num_tokens_no_spec w"
  shows "rw_num_computed w = cs_num_computed_tokens c"
    "rw_tokens w ! nat (rw_num_computed w + i) = cs_tokens h c ! nat (cs_num_computed_tokens c + i)"
    "nat (cs_num_computed_tokens c + i) < length (cs_tokens h c)"
proof -
  have w: "rw_num_computed w = cs_num_computed_tokens c" "rw_num_tokens_no_spec w \<le> py_len (cs_tokens h c)"
    "take (nat (rw_num_tokens_no_spec w)) (rw_tokens w) = take (nat (rw_num_tokens_no_spec w)) (cs_tokens h c)"
    using assms(1) by (simp_all add: tokens_show_def)
  let ?p = "nat (rw_num_computed w + i)"
  have p: "?p < nat (rw_num_tokens_no_spec w)" using assms(2-4) by simp
  then have "rw_tokens w ! ?p = cs_tokens h c ! ?p" using w(3) by (metis nth_take)
  then show "rw_tokens w ! ?p = cs_tokens h c ! nat (cs_num_computed_tokens c + i)" using w(1) by simp
  show "rw_num_computed w = cs_num_computed_tokens c" by (rule w(1))
  show "nat (cs_num_computed_tokens c + i) < length (cs_tokens h c)"
    using p w(1,2) assms(4) by (simp add: py_len_def)
qed

lemma row_slot:
  assumes "tokens_show h c w" "0 \<le> rw_num_computed w + i" "rw_num_computed w + i < rw_num_blocks w * bs" "0 < bs"
  shows "nat ((rw_num_computed w + i) div bs) < length (cs_block_ids c)"
    "slot_of bs (rw_blocks w) (rw_num_computed w + i) = slot_of bs (cs_block_ids c) (cs_num_computed_tokens c + i)"
proof -
  have w: "rw_num_computed w = cs_num_computed_tokens c" "rw_num_blocks w = py_len (cs_block_ids c)"
    "take (length (cs_block_ids c)) (rw_blocks w) = cs_block_ids c"
    using assms(1) by (simp_all add: tokens_show_def)
  let ?q = "nat ((rw_num_computed w + i) div bs)"
  show q: "?q < length (cs_block_ids c)"
    using block_index(1,2) [OF assms(2,3) order_refl assms(4)] w(2) by (simp add: py_len_def)
  then have "rw_blocks w ! ?q = cs_block_ids c ! ?q" using w(3) by (metis nth_take)
  then show "slot_of bs (rw_blocks w) (rw_num_computed w + i) = slot_of bs (cs_block_ids c) (cs_num_computed_tokens c + i)"
    by (simp add: slot_of_def w(1))
qed

lemma prepared:
  fixes ru so cfg
  defines "g \<equiv> ru_batch ru" and "ns \<equiv> counts_of so (gb_slots (ru_batch ru))" and "bs \<equiv> wc_block_size cfg"
    and "ids \<equiv> cb_ids (gb_slots (ru_batch ru))"
  assumes "runner_ok L B ru" "batch_reqs (gb_slots (ru_batch ru)) = scheduled_ids so"
    and "inputs_fit L B cfg so (ru_batch ru)" "tokens_known so (ru_batch ru)"
  assumes "\<And>input_ids. input_ids = concat (map2 (processed ru) ids ns) \<Longrightarrow>
    logits_of cfg so g (np_cumsum ns) input_ids = Inr (li, spec)"
  shows "\<exists>mi. prepare_inputs cfg so g = Inr mi \<and>
    mi_positions mi = ragged (\<lambda>i j. cs_num_computed_tokens (state_at ru i) + j) ids ns \<and>
    mi_input_ids mi = concat (map2 (processed ru) ids ns) \<and>
    mi_slots mi = ragged (\<lambda>i j. slot_of bs (cs_block_ids (state_at ru i)) (cs_num_computed_tokens (state_at ru i) + j)) ids ns \<and>
    mi_query_start_loc mi = 0 # np_cumsum ns \<and>
    mi_seq_lens mi = map2 (\<lambda>i n. cs_num_computed_tokens (state_at ru i) + n) ids ns \<and>
    mi_logits_indices mi = li \<and> mi_spec mi = spec"
proof -
  have ok: "batch_rows_ok L B (ru_requests ru) (ru_heap ru) g" "batch_ok (gb_slots g)"
    using assms(5) by (simp_all add: runner_ok_def stepping_def g_def)
  let ?rows = "take (cb_num_reqs (gb_slots g)) (gb_rows g)"
  have len: "length ids = length ns" by (simp add: ids_def ns_def counts_of_def)
  have n: "cb_num_reqs (gb_slots g) = length ns" using holes_count [OF ok(2)] len by (simp add: ids_def g_def)
  have le: "length ns \<le> length (gb_rows g)"
    using holes_okD(4) [OF ok(2)] batch_rows_okD(1) [OF ok(1)] len by (simp add: ids_def g_def)
  have rows: "length ?rows = length ids" "\<And>k. k < length ns \<Longrightarrow> ?rows ! k = gb_rows g ! k"
    using n le len by simp_all
  have fit: "0 < bs" "\<And>k. k < length ns \<Longrightarrow> 1 \<le> ns ! k \<and> 0 \<le> rw_num_computed (gb_rows g ! k) \<and>
      rw_num_computed (gb_rows g ! k) + ns ! k \<le> rw_num_blocks (gb_rows g ! k) * bs \<and>
      rw_num_computed (gb_rows g ! k) + ns ! k \<le> rw_num_tokens_no_spec (gb_rows g ! k)"
    using assms(7,8) by (simp_all add: inputs_fit_def tokens_known_def Let_def ns_def g_def bs_def)
  have shows_row: "tokens_show (ru_heap ru) (state_at ru (ids ! k)) (gb_rows g ! k)" if "k < length ns" for k
    using batch_row [OF assms(5), of k] that len by (auto simp: ids_def g_def)
  note agrees = row_agrees [OF shows_row] and slot = row_slot [OF shows_row]
  have positions: "ragged (\<lambda>w i. rw_num_computed w + i) ?rows ns =
      ragged (\<lambda>i j. cs_num_computed_tokens (state_at ru i) + j) ids ns"
    by (rule ragged_cong [OF rows(1)]) (use rows(2) fit(2) agrees(1) in force)
  have inputs: "ragged (\<lambda>w i. rw_tokens w ! nat (rw_num_computed w + i)) ?rows ns =
      concat (map2 (processed ru) ids ns)"
  proof -
    have "ragged (\<lambda>w i. rw_tokens w ! nat (rw_num_computed w + i)) ?rows ns =
        ragged (\<lambda>i j. cs_tokens (ru_heap ru) (state_at ru i) ! nat (cs_num_computed_tokens (state_at ru i) + j)) ids ns"
      by (rule ragged_cong [OF rows(1)]) (use rows(2) fit(2) agrees(2) in force)
    also have "\<dots> = concat (map2 (processed ru) ids ns)"
    proof (rule ragged_concat [OF len])
      fix k assume k: "k < length ns"
      let ?c = "state_at ru (ids ! k)" let ?ts = "cs_tokens (ru_heap ru) ?c" and ?nc = "cs_num_computed_tokens ?c"
      have "0 \<le> ns ! k - 1" "rw_num_computed (gb_rows g ! k) + (ns ! k - 1) < rw_num_tokens_no_spec (gb_rows g ! k)"
        "0 \<le> rw_num_computed (gb_rows g ! k)" using fit(2) [OF k] by simp_all
      from agrees(1,3) [OF k this(3,1,2)] this(3) have nc: "0 \<le> ?nc" "nat (?nc + (ns ! k - 1)) < length ?ts" by simp_all
      then have "nat ?nc + nat (ns ! k) \<le> length ?ts" using fit(2) [OF k] by linarith
      then show "map (\<lambda>j. ?ts ! nat (?nc + j)) (np_arange (ns ! k)) = processed ru (ids ! k) (ns ! k)"
        by (intro nth_equalityI)
          (use nc(1) in \<open>auto simp: processed_def np_arange_def nat_add_distrib\<close>)
    qed
    finally show ?thesis .
  qed
  have slots: "ragged (\<lambda>w i. slot_of bs (rw_blocks w) (rw_num_computed w + i)) ?rows ns =
      ragged (\<lambda>i j. slot_of bs (cs_block_ids (state_at ru i)) (cs_num_computed_tokens (state_at ru i) + j)) ids ns"
    by (rule ragged_cong [OF rows(1)]) (use rows(2) fit slot(2) in force)
  have seqs: "map2 (\<lambda>w n. rw_num_computed w + n) ?rows ns =
      map2 (\<lambda>i n. cs_num_computed_tokens (state_at ru i) + n) ids ns"
  proof (rule nth_equalityI)
    fix k assume "k < length (map2 (\<lambda>w n. rw_num_computed w + n) ?rows ns)"
    then have k: "k < length ns" by simp
    have "0 \<le> ns ! k - 1" "rw_num_computed (gb_rows g ! k) + (ns ! k - 1) < rw_num_tokens_no_spec (gb_rows g ! k)"
      "0 \<le> rw_num_computed (gb_rows g ! k)" using fit(2) [OF k] by simp_all
    from agrees(1) [OF k this(3,1,2)] show "map2 (\<lambda>w n. rw_num_computed w + n) ?rows ns ! k =
        map2 (\<lambda>i n. cs_num_computed_tokens (state_at ru i) + n) ids ns ! k"
      using k rows len by simp
  qed (use rows(1) len in simp)
  have arrays: "batch_ok (gb_slots g)" "batch_reqs (gb_slots g) = scheduled_ids so"
    "length (gb_rows g) = cb_max (gb_slots g)" "\<forall>w \<in> set (gb_rows g). row_wf L B (gb_vocab_size g) w"
    "inputs_fit L B cfg so g"
    using ok(2) assms(6,7) batch_rows_okD(1,8) [OF ok(1)] by (simp_all add: g_def)
  have "logits_of cfg so g (np_cumsum (counts_of so (gb_slots g)))
      (ragged (\<lambda>w i. rw_tokens w ! nat (rw_num_computed w + i)) ?rows (counts_of so (gb_slots g))) = Inr (li, spec)"
    using assms(9) [OF inputs] by (simp add: ns_def g_def)
  note prep = prepare_arrays [OF arrays this]
  have ns: "counts_of so (gb_slots g) = ns" by (simp add: ns_def g_def)
  show ?thesis
    unfolding prep ns positions inputs slots seqs bs_def [symmetric]
    by (rule exI, rule conjI [OF refl]) (simp only: model_inputs.simps simp_thms)
qed

end
