(* ===== verification/StepInputs.thy ===== *)
theory StepInputs
  imports PrepareInputs KVManager
begin

text \<open>
  What the inputs of a step guarantee: they are the tokens, positions and cache slots of the
  scheduled requests, no two tokens are written to the same slot of the KV cache, the embeddings
  attached by the engine core belong to the same tokens, and draft tokens meet the logits that
  predict them.
\<close>

section \<open>Tokens, positions and slots\<close>

lemma inputs_shown:
  assumes "runner_ok L B ru" "batch_reqs (gb_slots (ru_batch ru)) = scheduled_ids so"
    and "inputs_fit L B cfg so (ru_batch ru)" "tokens_known so (ru_batch ru)"
    and "so_spec_decode_tokens so = []"
  shows "\<exists>mi. prepare_inputs cfg so (ru_batch ru) = Inr mi \<and>
    mi_positions mi = ragged (\<lambda>i j. cs_num_computed_tokens (state_at ru i) + j)
      (cb_ids (gb_slots (ru_batch ru))) (counts_of so (gb_slots (ru_batch ru))) \<and>
    mi_input_ids mi = concat (map2 (processed ru) (cb_ids (gb_slots (ru_batch ru)))
      (counts_of so (gb_slots (ru_batch ru)))) \<and>
    mi_slots mi = ragged (\<lambda>i j. slot_of (wc_block_size cfg) (cs_block_ids (state_at ru i))
      (cs_num_computed_tokens (state_at ru i) + j))
      (cb_ids (gb_slots (ru_batch ru))) (counts_of so (gb_slots (ru_batch ru))) \<and>
    mi_query_start_loc mi = 0 # np_cumsum (counts_of so (gb_slots (ru_batch ru))) \<and>
    mi_seq_lens mi = map2 (\<lambda>i n. cs_num_computed_tokens (state_at ru i) + n)
      (cb_ids (gb_slots (ru_batch ru))) (counts_of so (gb_slots (ru_batch ru))) \<and>
    mi_logits_indices mi = map (\<lambda>e. e - 1) (np_cumsum (counts_of so (gb_slots (ru_batch ru)))) \<and>
    mi_spec mi = None"
proof -
  have "logits_of cfg so (ru_batch ru) (np_cumsum (counts_of so (gb_slots (ru_batch ru)))) input_ids =
      Inr (map (\<lambda>e. e - 1) (np_cumsum (counts_of so (gb_slots (ru_batch ru)))), None)" for input_ids
    using assms(5) by (simp add: logits_of_def)
  from prepared [OF assms(1-4) this] show ?thesis .
qed

text \<open>
  C10: the inputs are those of the requests. When the scheduled tokens fit, preparing the inputs
  raises nothing; the token ids are those the requests have at the positions after their computed
  tokens, each token's slot is its place in the request's blocks, and logits are taken at each
  request's last token.
\<close>

theorem inputs_show_requests:
  assumes "runner_ok L B ru" "batch_reqs (gb_slots (ru_batch ru)) = scheduled_ids so"
    and "inputs_fit L B cfg so (ru_batch ru)" "tokens_known so (ru_batch ru)"
    and "so_spec_decode_tokens so = []"
  shows "\<exists>mi. prepare_inputs cfg so (ru_batch ru) = Inr mi \<and>
    (let ids = cb_ids (gb_slots (ru_batch ru)); ns = counts_of so (gb_slots (ru_batch ru));
         computed = (\<lambda>i. cs_num_computed_tokens (state_at ru i)) in
     mi_input_ids mi = concat (map2 (processed ru) ids ns) \<and>
     mi_positions mi = ragged (\<lambda>i j. computed i + j) ids ns \<and>
     mi_slots mi = ragged (\<lambda>i j. slot_of (wc_block_size cfg) (cs_block_ids (state_at ru i)) (computed i + j)) ids ns \<and>
     mi_query_start_loc mi = 0 # np_cumsum ns \<and>
     mi_seq_lens mi = map2 (\<lambda>i n. computed i + n) ids ns \<and>
     mi_logits_indices mi = map (\<lambda>e. e - 1) (np_cumsum ns))"
  using inputs_shown [OF assms] unfolding Let_def by blast

section \<open>Slots\<close>

lemma slot_of_parts:
  assumes "0 < bs"
  shows "slot_of bs blocks p div bs = int (blocks ! nat (p div bs))" "slot_of bs blocks p mod bs = p mod bs"
  using assms by (simp_all add: slot_of_def)

lemma slot_inj:
  assumes "0 < bs" "0 \<le> p" "0 \<le> q" "distinct blocks" "nat (p div bs) < length blocks" "nat (q div bs) < length blocks"
    and "slot_of bs blocks p = slot_of bs blocks q"
  shows "p = q"
proof -
  have "blocks ! nat (p div bs) = blocks ! nat (q div bs)" "p mod bs = q mod bs"
    using slot_of_parts [OF assms(1)] assms(7) by (metis of_nat_eq_iff)+
  moreover from this(1) have "nat (p div bs) = nat (q div bs)" using assms(4-6) by (simp add: nth_eq_iff_index_eq)
  then have "p div bs = q div bs"
    using pos_imp_zdiv_nonneg_iff [OF assms(1)] assms(2,3) by (metis eq_nat_nat_iff)
  ultimately show ?thesis by (metis div_mult_mod_eq)
qed

lemma sp_tables_apart:
  assumes "init_sp_kv_manager bs FullAttentionManager N mml caching pre = Inr m0"
    and "(kv_step hash_fn none_hash)\<^sup>*\<^sup>* m0 m"
  shows "(\<forall>i. distinct (req_to_blocks m i) \<and> 0 \<notin> set (req_to_blocks m i)) \<and>
    (\<forall>i j. i \<noteq> j \<longrightarrow> set (req_to_blocks m i) \<inter> set (req_to_blocks m j) = {})"
proof -
  have "sp_ok m0" using init_sp_ok [OF assms(1)] by simp
  then have ok: "sp_ok m" by (rule sp_reachable_ok [OF assms(2)])
  have "0 \<notin> set (req_to_blocks m i)" for i
    using full_tables_managed [of m i] ok by (auto simp: sp_ok_def managed_def)
  then show ?thesis using sp_tables [OF ok] by simp
qed

text \<open>Requests with tables of their own are written to slots of their own.\<close>

lemma slots_apart:
  fixes table :: "'a \<Rightarrow> nat list" and nc :: "'a \<Rightarrow> int"
  assumes "0 < bs" "length ids = length ns"
    and place: "\<And>k j. \<lbrakk>k < length ns; 0 \<le> j; j < ns ! k\<rbrakk> \<Longrightarrow>
      0 \<le> nc (ids ! k) + j \<and> nat ((nc (ids ! k) + j) div bs) < length (table (ids ! k))"
    and "\<And>k. k < length ns \<Longrightarrow> distinct (table (ids ! k))"
    and apart: "\<And>k l. \<lbrakk>k < length ns; l < length ns; k \<noteq> l\<rbrakk> \<Longrightarrow> set (table (ids ! k)) \<inter> set (table (ids ! l)) = {}"
  shows "distinct (ragged (\<lambda>i j. slot_of bs (table i) (nc i + j)) ids ns)"
proof (rule distinct_ragged [OF assms(2)])
  fix k l i j assume k: "k < length ns" "l < length ns" "0 \<le> i" "i < ns ! k" "0 \<le> j" "j < ns ! l"
    and same: "slot_of bs (table (ids ! k)) (nc (ids ! k) + i) = slot_of bs (table (ids ! l)) (nc (ids ! l) + j)"
  note pi = place [OF k(1,3,4)] and pj = place [OF k(2,5,6)]
  have "nat (slot_of bs (table (ids ! k)) (nc (ids ! k) + i) div bs) \<in> set (table (ids ! k))"
    "nat (slot_of bs (table (ids ! l)) (nc (ids ! l) + j) div bs) \<in> set (table (ids ! l))"
    using pi pj by (simp_all add: slot_of_parts [OF assms(1)])
  then have kl: "k = l" using same apart [OF k(1,2)] by (metis disjoint_iff)
  have "nc (ids ! k) + i = nc (ids ! k) + j"
  proof (rule slot_inj [OF assms(1)])
    show "distinct (table (ids ! k))" by (rule assms(4) [OF k(1)])
    show "slot_of bs (table (ids ! k)) (nc (ids ! k) + i) = slot_of bs (table (ids ! k)) (nc (ids ! k) + j)"
      using same kl by simp
  qed (use pi pj kl in simp_all)
  then show "k = l \<and> i = j" using kl by simp
qed

text \<open>The rows of the batch have the tables of their requests, and the scheduled tokens lie within them.\<close>

lemma scheduled_tables:
  fixes ru :: runner and cfg :: worker_config
  defines "ids \<equiv> cb_ids (gb_slots (ru_batch ru))" and "bs \<equiv> wc_block_size cfg"
  assumes "runner_ok L B ru" "batch_reqs (gb_slots (ru_batch ru)) = scheduled_ids so" "inputs_fit L B cfg so (ru_batch ru)"
    and "\<forall>r \<in> scheduled_ids so. \<forall>c. ru_requests ru r = Some c \<longrightarrow> cs_block_ids c = tables r"
    and "k < length (counts_of so (gb_slots (ru_batch ru)))"
  shows "\<exists>r \<in> scheduled_ids so. ids ! k = Some r \<and> cs_block_ids (state_at ru (ids ! k)) = tables r"
    and "\<lbrakk>0 \<le> j; j < counts_of so (gb_slots (ru_batch ru)) ! k\<rbrakk> \<Longrightarrow>
      0 \<le> cs_num_computed_tokens (state_at ru (ids ! k)) + j \<and>
      nat ((cs_num_computed_tokens (state_at ru (ids ! k)) + j) div bs) < length (cs_block_ids (state_at ru (ids ! k)))"
proof -
  let ?row = "gb_rows (ru_batch ru) ! k"
  obtain r where r: "r \<in> scheduled_ids so" "ids ! k = Some r" "cs_block_ids (state_at ru (ids ! k)) = tables r"
    "tokens_show (ru_heap ru) (state_at ru (ids ! k)) ?row"
    using batch_row [OF assms(3), of k] assms(4,6,7) by (auto simp: ids_def counts_of_def)
  then show "\<exists>r \<in> scheduled_ids so. ids ! k = Some r \<and> cs_block_ids (state_at ru (ids ! k)) = tables r" by blast
  assume j: "0 \<le> j" "j < counts_of so (gb_slots (ru_batch ru)) ! k"
  have bs: "0 < bs" and p: "0 \<le> rw_num_computed ?row + j" "rw_num_computed ?row + j < rw_num_blocks ?row * bs"
    using assms(5,7) j by (auto simp: inputs_fit_def Let_def bs_def)
  have "rw_num_computed ?row = cs_num_computed_tokens (state_at ru (ids ! k))" using r(4) by (simp add: tokens_show_def)
  then show "0 \<le> cs_num_computed_tokens (state_at ru (ids ! k)) + j \<and>
      nat ((cs_num_computed_tokens (state_at ru (ids ! k)) + j) div bs) < length (cs_block_ids (state_at ru (ids ! k)))"
    using row_slot(1) [OF r(4) p bs] p(1) by simp
qed

text \<open>
  C11: no two tokens of a step share a slot. When the worker's cached block ids are the block
  tables of the speculative KV manager, in any state the manager reaches, the tokens of a step are
  written to pairwise different slots, each in a block of its own request's table and none in the
  null block.
\<close>

theorem slots_never_collide:
  assumes "runner_ok L B ru" "batch_reqs (gb_slots (ru_batch ru)) = scheduled_ids so"
    and "inputs_fit L B cfg so (ru_batch ru)" "tokens_known so (ru_batch ru)" "so_spec_decode_tokens so = []"
    and "init_sp_kv_manager bs FullAttentionManager N mml caching pre = Inr m0"
    and "(kv_step hash_fn none_hash)\<^sup>*\<^sup>* m0 m"
    and "\<forall>r \<in> scheduled_ids so. \<forall>c. ru_requests ru r = Some c \<longrightarrow> cs_block_ids c = req_to_blocks m r"
  shows "\<exists>mi. prepare_inputs cfg so (ru_batch ru) = Inr mi \<and> distinct (mi_slots mi) \<and>
    (\<forall>s \<in> set (mi_slots mi). \<exists>r \<in> scheduled_ids so. nat (s div wc_block_size cfg) \<in> set (req_to_blocks m r) \<and>
       nat (s div wc_block_size cfg) \<noteq> 0)"
proof -
  let ?g = "ru_batch ru" let ?ids = "cb_ids (gb_slots ?g)" and ?ns = "counts_of so (gb_slots ?g)"
  let ?bs = "wc_block_size cfg" and ?table = "\<lambda>k. cs_block_ids (state_at ru (?ids ! k))"
  let ?f = "\<lambda>i j. slot_of ?bs (cs_block_ids (state_at ru i)) (cs_num_computed_tokens (state_at ru i) + j)"
  have tables: "\<forall>i. distinct (req_to_blocks m i) \<and> 0 \<notin> set (req_to_blocks m i)"
    "\<forall>i j. i \<noteq> j \<longrightarrow> set (req_to_blocks m i) \<inter> set (req_to_blocks m j) = {}"
    using sp_tables_apart [OF assms(6,7)] by blast+
  have len: "length ?ids = length ?ns" and bs: "0 < ?bs"
    using assms(3) by (simp_all add: counts_of_def inputs_fit_def Let_def)
  note row = scheduled_tables [OF assms(1-3,8)]
  have apart: "set (?table k) \<inter> set (?table l) = {}" if k: "k < length ?ns" "l < length ?ns" "k \<noteq> l" for k l
  proof -
    obtain r q where r: "?ids ! k = Some r" "?table k = req_to_blocks m r" "?ids ! l = Some q" "?table l = req_to_blocks m q"
      using row(1) [OF k(1)] row(1) [OF k(2)] by blast
    have ok: "batch_ok (gb_slots ?g)" using assms(1) by (simp add: runner_ok_def stepping_def)
    have "r \<noteq> q" using holes_okD(1) [OF ok, of r k] holes_okD(1) [OF ok, of r l] r k len by auto
    then show ?thesis using r tables(2) by simp
  qed
  have "distinct (?table k)" if "k < length ?ns" for k using row(1) [OF that] tables(1) by metis
  then have "distinct (ragged ?f ?ids ?ns)"
    using row(2) apart by (intro slots_apart [OF bs len]) blast+
  moreover have "\<exists>r \<in> scheduled_ids so. nat (s div ?bs) \<in> set (req_to_blocks m r) \<and> nat (s div ?bs) \<noteq> 0"
    if "s \<in> set (ragged ?f ?ids ?ns)" for s
  proof -
    from that obtain k j where k: "s = ?f (?ids ! k) j" "k < length ?ns" "0 \<le> j" "j < ?ns ! k"
      by (auto simp: set_ragged)
    then have "nat (s div ?bs) \<in> set (?table k)" using row(2) [OF k(2-4)] by (simp add: slot_of_parts [OF bs])
    then show ?thesis using row(1) [OF k(2)] tables(1) by metis
  qed
  ultimately show ?thesis using inputs_shown [OF assms(1-5)] by auto
qed

section \<open>The embeddings of the step\<close>

lemma processed_step:
  assumes "ru_requests ru r = Some c" "0 \<le> cs_num_computed_tokens c"
  shows "processed ru (Some r) n = take (nat n) (drop (nat (cs_num_computed_tokens c)) (cs_tokens (ru_heap ru) c))"
  using assms by (simp add: processed_def state_at_def)

lemma step_tokens_new:
  assumes "distinct (map nr_req_id (so_new_reqs so) @ map cr_req_id (so_cached_reqs so))" "d \<in> set (so_new_reqs so)"
  shows "map_of (step_tokens so resumed) (nr_req_id d) = Some (new_tokens_of so d)"
proof (rule map_of_is_SomeI)
  show "distinct (map fst (step_tokens so resumed))" using assms(1) by (simp add: step_tokens_def comp_def)
  show "(nr_req_id d, new_tokens_of so d) \<in> set (step_tokens so resumed)"
    using assms(2) by (simp add: step_tokens_def)
qed

lemma step_tokens_cached:
  assumes "distinct (map nr_req_id (so_new_reqs so) @ map cr_req_id (so_cached_reqs so))" "d \<in> set (so_cached_reqs so)"
  shows "map_of (step_tokens so resumed) (cr_req_id d) = Some (cached_tokens_of so resumed d)"
proof (rule map_of_is_SomeI)
  show "distinct (map fst (step_tokens so resumed))" using assms(1) by (simp add: step_tokens_def comp_def)
  show "(cr_req_id d, cached_tokens_of so resumed d) \<in> set (step_tokens so resumed)"
    using assms(2) by (simp add: step_tokens_def)
qed

text \<open>
  C12: the embeddings are those of the inputs. After a step's output has been worked in, the token
  ids that the worker gathers from its flattened array are, in the same order, those whose
  embeddings the engine core attaches to the step, when new requests have no computed tokens and
  the token ids sent for the others are those of the step.
\<close>

theorem embeddings_match_inputs:
  assumes "runner_ok L B ru" "step_output_ok so (gb_slots (ru_batch ru))" "worker_fits L B so ru"
    and "enum_strings_ok enum" "gpu_update_states enum so ru = Inr ru'"
    and "inputs_fit L B cfg so (ru_batch ru')" "tokens_known so (ru_batch ru')" "so_spec_decode_tokens so = []"
    and "\<forall>d \<in> set (so_new_reqs so). nr_num_computed_tokens d = 0"
    and "\<forall>d \<in> set (so_cached_reqs so). cached_tokens_of so resumed d = cr_new_token_ids d \<and>
      num_scheduled_of so (cr_req_id d) = py_len (cr_new_token_ids d) \<and> 0 \<le> cr_num_computed_tokens d"
  shows "\<exists>mi. prepare_inputs cfg so (ru_batch ru') = Inr mi \<and>
    mi_input_ids mi = batch_tokens so resumed (gb_slots (ru_batch ru'))"
proof -
  let ?g = "ru_batch ru'" let ?ids = "cb_ids (gb_slots ?g)" and ?ns = "counts_of so (gb_slots ?g)"
  from gpu_update_ok [OF assms(1,2,4,3)] assms(5) have ok: "runner_ok L B ru'"
    "batch_reqs (gb_slots ?g) = scheduled_ids so"
    and new: "\<And>d. d \<in> set (so_new_reqs so) \<Longrightarrow>
      \<exists>c. ru_requests ru' (nr_req_id d) = Some c \<and> after_new d (ru_heap ru') c"
    and cached: "\<And>d. d \<in> set (so_cached_reqs so) \<Longrightarrow>
      \<exists>c. ru_requests ru' (cr_req_id d) = Some c \<and> after_cached d (ru_heap ru') c"
    by simp_all
  from inputs_shown [OF ok assms(6-8)] obtain mi where
    mi: "prepare_inputs cfg so ?g = Inr mi" "mi_input_ids mi = concat (map2 (processed ru') ?ids ?ns)" by blast
  have out: "distinct (map nr_req_id (so_new_reqs so) @ map cr_req_id (so_cached_reqs so))"
    "set (map nr_req_id (so_new_reqs so) @ map cr_req_id (so_cached_reqs so)) = scheduled_ids so"
    using assms(2) by (simp_all add: step_output_ok_def)
  have one: "processed ru' i (num_scheduled_of so (the i)) = the (map_of (step_tokens so resumed) (the i))"
    if i: "i \<in> set ?ids" for i
  proof -
    obtain k where k: "k < length ?ids" "?ids ! k = i" using i by (auto simp: in_set_conv_nth)
    from batch_row [OF ok(1) k(1)] k(2) ok(2) obtain r where r: "i = Some r" "r \<in> scheduled_ids so" by auto
    have n: "1 \<le> num_scheduled_of so r" using assms(6) k r(1) by (auto simp: inputs_fit_def Let_def counts_of_def)
    consider d where "d \<in> set (so_new_reqs so)" "nr_req_id d = r"
      | d where "d \<in> set (so_cached_reqs so)" "cr_req_id d = r"
      using r(2) unfolding out(2) [symmetric] by auto
    then show ?thesis
    proof cases
      case 1
      obtain c where c: "ru_requests ru' r = Some c" "after_new d (ru_heap ru') c" using new 1 by blast
      then show ?thesis
        using processed_step [OF c(1)] step_tokens_new [OF out(1) 1(1)] 1 assms(9) n r(1)
        by (simp add: after_new_def new_tokens_of_def py_upto_nonneg)
    next
      case 2
      obtain c where c: "ru_requests ru' r = Some c" "after_cached d (ru_heap ru') c" using cached 2 by blast
      moreover have "num_scheduled_of so r = py_len (cr_new_token_ids d)" "0 \<le> cr_num_computed_tokens d"
        "cached_tokens_of so resumed d = cr_new_token_ids d" using assms(10) 2 by auto
      ultimately show ?thesis
        using processed_step [OF c(1)] step_tokens_cached [OF out(1) 2(1)] 2 r(1)
        by (simp add: after_cached_def py_len_def)
    qed
  qed
  have "map2 (processed ru') ?ids ?ns = map (\<lambda>i. the (map_of (step_tokens so resumed) (the i))) ?ids"
    unfolding counts_of_def zip_map2 zip_same_conv_map map_map comp_def by (simp add: one)
  then show ?thesis using mi by (simp add: batch_tokens_def)
qed

section \<open>Draft tokens\<close>

text \<open>
  Each request asks for the logits of its draft tokens and of one more position at the end of its
  tokens; \<open>logits_at\<close> lists these positions, \<open>targets_at\<close> where the draft tokens' logits stand
  among them.
\<close>

definition draft_ends :: "int list \<Rightarrow> int list \<Rightarrow> int list" where
  "draft_ends nd ns = ragged (\<lambda>(e, d) i. e - d + i) (zip (np_cumsum ns) nd) nd"

definition logits_at :: "(int \<Rightarrow> 'a) \<Rightarrow> int list \<Rightarrow> int list \<Rightarrow> 'a list" where
  "logits_at f nd ns = ragged (\<lambda>b i. f (b + i)) (map2 (-) (np_cumsum ns) (map ((+) 1) nd)) (map ((+) 1) nd)"

definition targets_at :: "int list \<Rightarrow> int list" where
  "targets_at nd = ragged (\<lambda>s i. s + i) (map2 (-) (np_cumsum (map ((+) 1) nd)) (map ((+) 1) nd)) nd"

lemma logits_at_nth:
  assumes "length nd = length ns" "\<forall>n \<in> set nd. 0 \<le> n" "k < length nd" "0 \<le> i" "i \<le> nd ! k"
  shows "logits_at f nd ns ! nat (sum_list (take k (map ((+) 1) nd)) + i) = f (np_cumsum ns ! k - (nd ! k + 1) + i)"
    "0 \<le> sum_list (take k (map ((+) 1) nd)) + i"
    "sum_list (take k (map ((+) 1) nd)) + i < py_len (logits_at f nd ns)"
proof -
  let ?ns' = "map ((+) 1) nd" let ?bases = "map2 (-) (np_cumsum ns) ?ns'"
  have pos: "\<forall>n \<in> set ?ns'. 0 \<le> n" and len: "length ?bases = length ?ns'" using assms(1,2) by auto
  have i: "k < length ?ns'" "i < ?ns' ! k" using assms(3,5) by simp_all
  have b: "?bases ! k = np_cumsum ns ! k - (nd ! k + 1)" using assms(1,3) by simp
  note nth = ragged_nth [OF len pos i(1) assms(4) i(2), of "\<lambda>b i. f (b + i)", unfolded b]
  show "logits_at f nd ns ! nat (sum_list (take k ?ns') + i) = f (np_cumsum ns ! k - (nd ! k + 1) + i)"
    "sum_list (take k ?ns') + i < py_len (logits_at f nd ns)"
    using nth unfolding logits_at_def py_len_def by blast+
  show "0 \<le> sum_list (take k ?ns') + i" using nth assms(4) by linarith
qed

lemma target_start:
  assumes "k < length nd"
  shows "map2 (-) (np_cumsum (map ((+) 1) nd)) (map ((+) 1) nd) ! k = sum_list (take k (map ((+) 1) nd))"
  by (rule starts_nth) (use assms in simp)

lemma drafts_at_targets:
  assumes "length nd = length ns" "\<forall>n \<in> set nd. 0 \<le> n"
  shows "emap (py_get (logits_at f nd ns)) (map ((+) 1) (targets_at nd)) = Inr (map f (draft_ends nd ns))"
proof -
  let ?starts = "map2 (-) (np_cumsum (map ((+) 1) nd)) (map ((+) 1) nd)"
  let ?both = "zip ?starts (zip (np_cumsum ns) nd)"
  have "map ((+) 1) (targets_at nd) = ragged (\<lambda>(s, e, d) i. 1 + (s + i)) ?both nd"
    unfolding targets_at_def map_ragged by (rule ragged_cong) (use assms(1) in simp_all)
  moreover have "emap (py_get (logits_at f nd ns)) (ragged (\<lambda>(s, e, d) i. 1 + (s + i)) ?both nd) =
      Inr (ragged (\<lambda>(s, e, d) i. f (e - d + i)) ?both nd)"
  proof (rule emap_ragged)
    fix k i assume k: "k < length ?both" "k < length nd" "0 \<le> i" "i < nd ! k"
    have i: "0 \<le> i + 1" "i + 1 \<le> nd ! k" using k(3,4) by simp_all
    from logits_at_nth(1,3) [OF assms k(2) i, of f] logits_at_nth(2) [OF assms k(2) i]
    have "py_get (logits_at f nd ns) (1 + (?starts ! k + i)) = Inr (f (np_cumsum ns ! k - nd ! k + i))"
      by (simp only: target_start [OF k(2)]) (simp add: py_get_nonneg py_len_def algebra_simps)
    then show "py_get (logits_at f nd ns) ((\<lambda>(s, e, d) i. 1 + (s + i)) (?both ! k) i) =
        Inr ((\<lambda>(s, e, d) i. f (e - d + i)) (?both ! k) i)" using k assms(1) by simp
  qed
  moreover have "ragged (\<lambda>(s, e, d) i. f (e - d + i)) ?both nd = map f (draft_ends nd ns)"
    unfolding draft_ends_def map_ragged by (rule ragged_cong) (use assms(1) in simp_all)
  ultimately show ?thesis by simp
qed

lemma targets_before_drafts:
  assumes "length nd = length ns" "\<forall>n \<in> set nd. 0 \<le> n"
  shows "map (\<lambda>t. logits_at id nd ns ! nat t) (targets_at nd) = map (\<lambda>p. p - 1) (draft_ends nd ns)"
  unfolding targets_at_def draft_ends_def map_ragged
proof (rule ragged_cong)
  let ?starts = "map2 (-) (np_cumsum (map ((+) 1) nd)) (map ((+) 1) nd)"
  fix k i assume k: "k < length ?starts" "k < length nd" "0 \<le> i" "i < nd ! k"
  from logits_at_nth(1) [OF assms k(2,3) less_imp_le [OF k(4)], of id]
  show "logits_at id nd ns ! nat (?starts ! k + i) = (\<lambda>(e, d) i. e - d + i) (zip (np_cumsum ns) nd ! k) i - 1"
    using k assms(1) by (simp only: target_start [OF k(2)]) simp
qed (use assms(1) in simp)

lemma bonus_at_ends:
  assumes "length nd = length ns" "\<forall>n \<in> set nd. 0 \<le> n"
  shows "map (\<lambda>t. logits_at id nd ns ! nat t) (map (\<lambda>x. x - 1) (np_cumsum (map ((+) 1) nd))) =
    map (\<lambda>e. e - 1) (np_cumsum ns)"
proof (rule nth_equalityI)
  let ?ns' = "map ((+) 1) nd"
  fix k assume "k < length (map (\<lambda>t. logits_at id nd ns ! nat t) (map (\<lambda>x. x - 1) (np_cumsum ?ns')))"
  then have k: "k < length nd" by simp
  have "np_cumsum ?ns' ! k - 1 = sum_list (take k ?ns') + nd ! k"
    using k by (simp add: np_cumsum_nth take_Suc_conv_app_nth)
  moreover have "0 \<le> nd ! k" using k assms(2) by simp
  from logits_at_nth(1) [OF assms k this order_refl, of id]
  have "logits_at id nd ns ! nat (sum_list (take k ?ns') + nd ! k) = np_cumsum ns ! k - (nd ! k + 1) + nd ! k"
    by simp
  ultimately show "map (\<lambda>t. logits_at id nd ns ! nat t) (map (\<lambda>x. x - 1) (np_cumsum ?ns')) ! k =
      map (\<lambda>e. e - 1) (np_cumsum ns) ! k" using k assms(1) by simp
qed (use assms(1) in simp)

text \<open>All the positions lie in the input.\<close>

lemma logits_in_range:
  assumes "length nd = length ns" "\<forall>k < length ns. 0 \<le> nd ! k \<and> nd ! k + 1 \<le> ns ! k"
    and "int (length xs) = sum_list ns"
  shows "emap (py_get xs) (logits_at id nd ns) = Inr (logits_at (\<lambda>p. xs ! nat p) nd ns)"
  unfolding logits_at_def
proof (rule emap_ragged)
  let ?ns' = "map ((+) 1) nd" let ?bases = "map2 (-) (np_cumsum ns) ?ns'"
  fix k i assume k: "k < length ?bases" "k < length ?ns'" "0 \<le> i" "i < ?ns' ! k"
  have pos: "\<forall>n \<in> set ns. 0 \<le> n" using assms(1,2) by (force simp: in_set_conv_nth)
  have "0 \<le> sum_list (take k ns)" using pos by (intro sum_list_nonneg) (auto dest: in_set_takeD)
  moreover have "sum_list (take (Suc k) ns) \<le> sum_list ns"
    using pos sum_list_nonneg [of "drop (Suc k) ns"] sum_list_append [of "take (Suc k) ns" "drop (Suc k) ns"]
    by (auto dest: in_set_dropD)
  ultimately have "0 \<le> ?bases ! k + i" "?bases ! k + i < int (length xs)"
    using k assms(1-3) by (auto simp: np_cumsum_nth take_Suc_conv_app_nth)
  then show "py_get xs (id (?bases ! k + i)) = Inr (xs ! nat (?bases ! k + i))" by (simp add: py_get_nonneg)
qed

text \<open>The metadata, with the indices written out.\<close>

definition metadata_of :: "int list \<Rightarrow> int list \<Rightarrow> int list \<Rightarrow> spec_metadata" where
  "metadata_of nd ns input_ids =
     \<lparr>sd_draft_token_ids = map (\<lambda>p. input_ids ! nat p) (draft_ends nd ns), sd_num_draft_tokens = nd,
      sd_cu_num_draft_tokens = np_cumsum nd, sd_target_logits_indices = targets_at nd,
      sd_bonus_logits_indices = map (\<lambda>x. x - 1) (np_cumsum (map ((+) 1) nd)),
      sd_logits_indices = logits_at id nd ns\<rparr>"

lemma spec_metadata_ok:
  assumes "length nd = length ns" "ns \<noteq> []" "\<forall>k < length ns. 0 \<le> nd ! k \<and> nd ! k + 1 \<le> ns ! k"
    and "int (length input_ids) = sum_list ns" "sum_list ns \<le> wc_max_tokens cfg"
  shows "calc_spec_decode_metadata (arange_slice cfg g) nd (np_cumsum ns) input_ids =
    Inr (metadata_of nd ns input_ids)"
proof -
  let ?ns' = "map ((+) 1) nd" let ?starts = "map2 (-) (np_cumsum ?ns') ?ns'"
  let ?bases = "map2 (-) (np_cumsum ns) ?ns'"
  have pos: "\<forall>n \<in> set ?ns'. 0 \<le> n" "\<forall>n \<in> set nd. 0 \<le> n"
    using assms(1,3) by (force simp: in_set_conv_nth)+
  have len: "length ?bases = length ?ns'" "length ?starts = length nd" using assms(1) by simp_all
  have nonempty: "nd \<noteq> []" "?ns' \<noteq> []" using assms(1,2) by auto
  have le: "sum_list ?ns' \<le> sum_list ns" "sum_list nd \<le> sum_list ns"
    using assms(1,3) by (intro sum_list_le; force simp: add.commute)+
  have slice: "arange_slice cfg g n = np_arange n" if "n \<le> sum_list ns" for n
    unfolding arange_slice_def using that assms(5) by (intro arg_cong [of _ _ np_arange] min_absorb1) simp
  have bases: "np_repeat ?bases ?ns' = Inr (ragged (\<lambda>x _. x) ?bases ?ns')"
    "np_zip (+) (ragged (\<lambda>x _. x) ?bases ?ns') (ragged (\<lambda>_ i. i) ?ns' ?ns') = Inr (logits_at id nd ns)"
    unfolding repeat_ragged [OF len(1) pos(1)] np_zip_ragged [OF len(1) refl] zip_ragged_index [OF len(1) refl]
      logits_at_def id_apply by (rule refl)+
  have targets: "np_repeat ?starts nd = Inr (ragged (\<lambda>x _. x) ?starts nd)"
    "np_zip (+) (ragged (\<lambda>x _. x) ?starts nd) (ragged (\<lambda>_ i. i) nd nd) = Inr (targets_at nd)"
    unfolding repeat_ragged [OF len(2) pos(2)] np_zip_ragged [OF len(2) refl] zip_ragged_index [OF len(2) refl]
      targets_at_def by (rule refl)+
  show ?thesis
    by (simp only: calc_spec_decode_metadata_def Let_def py_get_total [OF nonempty(1)] py_get_total [OF nonempty(2)]
        slice [OF le(1)] slice [OF le(2)] batched_steps [OF pos(1)] batched_steps [OF pos(2)] bases targets
        logits_in_range [OF assms(1,3,4)] drafts_at_targets [OF assms(1) pos(2)] ebind_simps metadata_of_def)
qed

text \<open>
  C13: draft tokens meet the logits that predict them. When each request is scheduled for its draft
  tokens and at least one token before them, the draft ids handed to the rejection sampler are
  the last tokens of the request, the target logits are those at the position before each of
  them, and the bonus logits those at the request's last token.
\<close>

theorem drafts_meet_logits:
  assumes "length nd = length ns" "ns \<noteq> []" "\<forall>k < length ns. 0 \<le> nd ! k \<and> nd ! k + 1 \<le> ns ! k"
    and "int (length input_ids) = sum_list ns" "sum_list ns \<le> wc_max_tokens cfg"
  shows "\<exists>m. calc_spec_decode_metadata (arange_slice cfg g) nd (np_cumsum ns) input_ids = Inr m \<and>
    (let drafts = ragged (\<lambda>(e, d) i. e - d + i) (zip (np_cumsum ns) nd) nd in
     sd_draft_token_ids m = map (\<lambda>p. input_ids ! nat p) drafts \<and>
     map (\<lambda>t. sd_logits_indices m ! nat t) (sd_target_logits_indices m) = map (\<lambda>p. p - 1) drafts \<and>
     map (\<lambda>t. sd_logits_indices m ! nat t) (sd_bonus_logits_indices m) = map (\<lambda>e. e - 1) (np_cumsum ns))"
proof -
  have pos: "\<forall>n \<in> set nd. 0 \<le> n" using assms(1,3) by (force simp: in_set_conv_nth)
  show ?thesis
    using spec_metadata_ok [OF assms] targets_before_drafts [OF assms(1) pos] bonus_at_ends [OF assms(1) pos]
    unfolding Let_def draft_ends_def [symmetric] by (simp add: metadata_of_def)
qed

section \<open>Samples\<close>

text \<open>A first request of two tokens, which takes block 1 of a pool of six.\<close>

definition sample_worker :: worker_config where
  "sample_worker = \<lparr>wc_max_len = 4, wc_max_blocks = 2, wc_block_size = 2, wc_max_tokens = 8,
     wc_query_heads = 1, wc_kv_heads = 1, wc_alibi = False, wc_sliding_window = False, wc_num_sms = 1,
     wc_cascade = False\<rparr>"

definition first_step :: scheduler_output where
  "first_step = sample_step\<lparr>so_new_reqs := [sample_new\<lparr>nr_block_ids := [1]\<rparr>]\<rparr>"

lemma first_step_ok:
  "step_output_ok first_step (gb_slots (ru_batch (init_runner 2 4 2 8 1)))"
  "worker_fits 4 2 first_step (init_runner 2 4 2 8 1)" "so_spec_decode_tokens first_step = []"
  "scheduled_ids first_step = {''a''}"
  by (simp_all add: step_output_ok_def worker_fits_def new_fits_def first_step_def sample_step_def sample_new_def
      init_runner_def init_gpu_batch_def init_cpu_batch_def scheduled_ids_def sample_params_def or_default_def)

lemma first_inputs_fit:
  "case gpu_update_states sorted_list_of_set first_step (init_runner 2 4 2 8 1) of
     Inl e \<Rightarrow> False
   | Inr ru \<Rightarrow> inputs_fit 4 2 sample_worker first_step (ru_batch ru) \<and> tokens_known first_step (ru_batch ru)"
  by code_simp

lemma first_step_done:
  "\<exists>ru. gpu_update_states sorted_list_of_set first_step (init_runner 2 4 2 8 1) = Inr ru \<and>
    runner_ok 4 2 ru \<and> batch_reqs (gb_slots (ru_batch ru)) = scheduled_ids first_step \<and>
    inputs_fit 4 2 sample_worker first_step (ru_batch ru) \<and> tokens_known first_step (ru_batch ru) \<and>
    (\<exists>c. ru_requests ru ''a'' = Some c \<and> cs_block_ids c = [1] \<and> cs_tokens (ru_heap ru) c = [1, 2])"
proof -
  from gpu_update_ok [OF sample_step_ok(1) first_step_ok(1) enum_sorted first_step_ok(2)] obtain ru where
    ru: "gpu_update_states sorted_list_of_set first_step (init_runner 2 4 2 8 1) = Inr ru" "runner_ok 4 2 ru"
      "batch_reqs (gb_slots (ru_batch ru)) = scheduled_ids first_step"
    and new: "\<forall>d \<in> set (so_new_reqs first_step). \<exists>c. ru_requests ru (nr_req_id d) = Some c \<and> after_new d (ru_heap ru) c"
    by blast
  have "\<exists>c. ru_requests ru ''a'' = Some c \<and> cs_block_ids c = [1] \<and> cs_tokens (ru_heap ru) c = [1, 2]"
    using new by (simp add: first_step_def sample_step_def sample_new_def after_new_def) blast
  then show ?thesis using ru first_inputs_fit by simp
qed

lemma first_table:
  "\<exists>m0 m. init_sp_kv_manager 2 FullAttentionManager 6 100 True 0 = Inr m0 \<and>
    (kv_step fst 7)\<^sup>*\<^sup>* m0 m \<and> req_to_blocks m ''a'' = [1]"
proof -
  let ?r = "sample_request ''a'' [1, 2]"
  have "case init_sp_kv_manager 2 FullAttentionManager 6 100 True 0 of
      Inl e \<Rightarrow> False
    | Inr m0 \<Rightarrow> required_blocks ?r 2 [] 0 m0 \<le> max_num_blocks_per_req m0 \<and>
        (case allocate_slots fst 7 ?r 2 [] 0 m0 of Inl e \<Rightarrow> False | Inr (res, m) \<Rightarrow> req_to_blocks m ''a'' = [1])"
    by code_simp
  then obtain m0 res m where m: "init_sp_kv_manager 2 FullAttentionManager 6 100 True 0 = Inr m0"
    "required_blocks ?r 2 [] 0 m0 \<le> max_num_blocks_per_req m0" "allocate_slots fst 7 ?r 2 [] 0 m0 = Inr (res, m)"
    "req_to_blocks m ''a'' = [1]"
    by (auto split: sum.splits prod.splits)
  have "kv_step fst 7 m0 m" by (rule kv_step.extend [OF _ m(2,3)]) simp
  with m(1,4) show ?thesis by blast
qed

theorem inputs_show_requests_witness:
  "\<exists>ru mi. gpu_update_states sorted_list_of_set first_step (init_runner 2 4 2 8 1) = Inr ru \<and>
    prepare_inputs sample_worker first_step (ru_batch ru) = Inr mi \<and>
    mi_input_ids mi = concat (map2 (processed ru) (cb_ids (gb_slots (ru_batch ru)))
      (counts_of first_step (gb_slots (ru_batch ru))))"
proof -
  from first_step_done obtain ru where
    ru: "gpu_update_states sorted_list_of_set first_step (init_runner 2 4 2 8 1) = Inr ru"
      "runner_ok 4 2 ru" "batch_reqs (gb_slots (ru_batch ru)) = scheduled_ids first_step"
      "inputs_fit 4 2 sample_worker first_step (ru_batch ru)" "tokens_known first_step (ru_batch ru)" by blast
  from inputs_show_requests [OF ru(2-5) first_step_ok(3)] ru(1) show ?thesis unfolding Let_def by blast
qed

theorem slots_never_collide_witness:
  "\<exists>ru mi. gpu_update_states sorted_list_of_set first_step (init_runner 2 4 2 8 1) = Inr ru \<and>
    prepare_inputs sample_worker first_step (ru_batch ru) = Inr mi \<and> distinct (mi_slots mi)"
proof -
  from first_step_done obtain ru c where
    ru: "gpu_update_states sorted_list_of_set first_step (init_runner 2 4 2 8 1) = Inr ru"
      "runner_ok 4 2 ru" "batch_reqs (gb_slots (ru_batch ru)) = scheduled_ids first_step"
      "inputs_fit 4 2 sample_worker first_step (ru_batch ru)" "tokens_known first_step (ru_batch ru)"
    and c: "ru_requests ru ''a'' = Some c" "cs_block_ids c = [1]" by blast
  from first_table obtain m0 m where m: "init_sp_kv_manager 2 FullAttentionManager 6 100 True 0 = Inr m0"
    "(kv_step fst 7)\<^sup>*\<^sup>* m0 m" "req_to_blocks m ''a'' = [1]" by blast
  have "\<forall>r \<in> scheduled_ids first_step. \<forall>c. ru_requests ru r = Some c \<longrightarrow> cs_block_ids c = req_to_blocks m r"
    using c m(3) by (simp add: first_step_ok(4))
  from slots_never_collide [OF ru(2-5) first_step_ok(3) m(1,2) this] ru(1) show ?thesis by blast
qed

theorem embeddings_match_inputs_witness:
  "\<exists>ru mi. gpu_update_states sorted_list_of_set first_step (init_runner 2 4 2 8 1) = Inr ru \<and>
    prepare_inputs sample_worker first_step (ru_batch ru) = Inr mi \<and>
    mi_input_ids mi = batch_tokens first_step [] (gb_slots (ru_batch ru))"
proof -
  from first_step_done obtain ru where
    ru: "gpu_update_states sorted_list_of_set first_step (init_runner 2 4 2 8 1) = Inr ru"
      "inputs_fit 4 2 sample_worker first_step (ru_batch ru)" "tokens_known first_step (ru_batch ru)" by blast
  have new: "\<forall>d \<in> set (so_new_reqs first_step). nr_num_computed_tokens d = 0"
    and cached: "\<forall>d \<in> set (so_cached_reqs first_step). cached_tokens_of first_step [] d = cr_new_token_ids d \<and>
      num_scheduled_of first_step (cr_req_id d) = py_len (cr_new_token_ids d) \<and> 0 \<le> cr_num_computed_tokens d"
    by (simp_all add: first_step_def sample_step_def sample_new_def)
  from embeddings_match_inputs [OF sample_step_ok(1) first_step_ok(1,2) enum_sorted ru first_step_ok(3) new cached] ru(1)
  show ?thesis by blast
qed

theorem drafts_meet_logits_witness:
  "\<exists>m. calc_spec_decode_metadata (arange_slice sample_worker (init_gpu_batch 2 4 2 8)) [2, 0] (np_cumsum [3, 1])
      [5, 6, 7, 8] = Inr m \<and> sd_draft_token_ids m = [6, 7] \<and>
    map (\<lambda>t. sd_logits_indices m ! nat t) (sd_bonus_logits_indices m) = [2, 3]"
proof -
  have len: "length [2, 0 :: int] = length [3, 1 :: int]" and ne: "[3, 1 :: int] \<noteq> []"
    and drafts: "\<forall>k < length [3, 1 :: int]. 0 \<le> [2, 0 :: int] ! k \<and> [2, 0] ! k + 1 \<le> [3, 1 :: int] ! k"
    and total: "int (length [5, 6, 7, 8 :: int]) = sum_list [3, 1]" "sum_list [3, 1] \<le> wc_max_tokens sample_worker"
    by (simp_all add: sample_worker_def less_Suc_eq_0_disj)
  from drafts_meet_logits [OF len ne drafts total, of "init_gpu_batch 2 4 2 8"] show ?thesis
    unfolding Let_def by (auto simp: np_cumsum_def np_arange_def upt_conv_Cons)
qed

end
