(* ===== verification/ShmChannel.thy ===== *)
theory ShmChannel
  imports NumpyOps BatchRows
begin

text \<open>
  The shared-memory channel over which the first worker hands the speculative output to the engine
  core: \<open>read_result_from_shm\<close> of \<open>spexis/spec_parallel/shm.py\<close> and the writer at the end of
  \<open>execute_spec_parallel_model_ray\<close> in \<open>spexis/executor/ray_utils.py\<close>. Both poll a flag; the
  buffer is a list of bytes, and every numpy operation on it is one step of its process. The steps
  of the two interleave in any order. Pickling is left out: a message is a list of bytes.
\<close>

section \<open>Integers in the buffer\<close>

type_synonym byte = "8 word"

definition le_bytes :: "int \<Rightarrow> byte list" where
  "le_bytes x = map (\<lambda>i. word_of_int (x div 256 ^ i)) [0..<4]"

primrec le_value :: "byte list \<Rightarrow> int" where
  "le_value [] = 0"
| "le_value (b # bs) = uint b + 256 * le_value bs"

definition read_int32 :: "byte list \<Rightarrow> int \<Rightarrow> int" where
  "read_int32 buf k = int32 (le_value (py_slice buf k (k + 4)))"

section \<open>The two processes\<close>

datatype writer_pc = Writer_Waits | Writes_Payload | Writes_Length | Writes_Flag
datatype reader_pc = Reader_Waits | Reads_Length | Reads_Payload int | Releases "byte list"

text \<open>What is left to send begins with the message at hand.\<close>

record channel =
  ch_buffer :: "byte list"
  ch_writer :: writer_pc
  ch_reader :: reader_pc
  ch_to_send :: "byte list list"
  ch_received :: "byte list list"

definition init_channel :: "nat \<Rightarrow> byte list list \<Rightarrow> channel" where
  "init_channel max_size msgs =
     \<lparr>ch_buffer = replicate max_size 0, ch_writer = Writer_Waits, ch_reader = Reader_Waits,
      ch_to_send = msgs, ch_received = []\<rparr>"

definition writer_step :: "channel \<Rightarrow> channel res" where
  "writer_step c =
     (let buf = ch_buffer c in
      case ch_to_send c of
        [] \<Rightarrow> Inr c
      | d # rest \<Rightarrow>
          (case ch_writer c of
             Writer_Waits \<Rightarrow>
               ebind (py_assert (py_len d < py_len buf - 4)) (\<lambda>_.
               Inr (if read_int32 buf 0 = 0 then c\<lparr>ch_writer := Writes_Payload\<rparr> else c))
           | Writes_Payload \<Rightarrow>
               ebind (np_set_slice buf 8 (8 + py_len d) d) (\<lambda>b.
               Inr (c\<lparr>ch_buffer := b, ch_writer := Writes_Length\<rparr>))
           | Writes_Length \<Rightarrow>
               ebind (np_set_slice buf 4 (4 + 4) (le_bytes (py_len d))) (\<lambda>b.
               Inr (c\<lparr>ch_buffer := b, ch_writer := Writes_Flag\<rparr>))
           | Writes_Flag \<Rightarrow>
               ebind (np_set_slice buf 0 4 (le_bytes 1)) (\<lambda>b.
               Inr (c\<lparr>ch_buffer := b, ch_writer := Writer_Waits, ch_to_send := rest\<rparr>))))"

definition reader_step :: "channel \<Rightarrow> channel res" where
  "reader_step c =
     (let buf = ch_buffer c in
      case ch_reader c of
        Reader_Waits \<Rightarrow> Inr (if read_int32 buf 0 = 1 then c\<lparr>ch_reader := Reads_Length\<rparr> else c)
      | Reads_Length \<Rightarrow> Inr (c\<lparr>ch_reader := Reads_Payload (read_int32 buf 4)\<rparr>)
      | Reads_Payload n \<Rightarrow> Inr (c\<lparr>ch_reader := Releases (py_slice buf 8 (8 + n))\<rparr>)
      | Releases p \<Rightarrow>
          ebind (np_set_slice buf 0 4 (le_bytes 0)) (\<lambda>b.
          Inr (c\<lparr>ch_buffer := b, ch_reader := Reader_Waits, ch_received := ch_received c @ [p]\<rparr>)))"

inductive channel_step :: "channel \<Rightarrow> channel \<Rightarrow> bool" where
  writer: "writer_step c = Inr c' \<Longrightarrow> channel_step c c'"
| reader: "reader_step c = Inr c' \<Longrightarrow> channel_step c c'"

section \<open>What the buffer holds\<close>

lemma le_bytes_length [simp]: "length (le_bytes x) = 4"
  by (simp add: le_bytes_def)

lemma le_bytes_eq: "le_bytes x = [word_of_int x, word_of_int (x div 256), word_of_int (x div 65536), word_of_int (x div 16777216)]"
  by (simp add: le_bytes_def upt_conv_Cons)

lemma le_value_bytes: "\<lbrakk>0 \<le> x; x < 2 ^ 32\<rbrakk> \<Longrightarrow> le_value (le_bytes x) = x"
proof -
  assume x: "0 \<le> x" "x < 2 ^ 32"
  have split: "y mod 256 + 256 * (y div 256) = y" for y :: int by simp
  have top: "(x div 16777216) mod 256 = x div 16777216" using x by (intro mod_pos_pos_trivial) auto
  have "x div 256 div 256 = x div 65536" "x div 65536 div 256 = x div 16777216"
    by (simp_all add: zdiv_zmult2_eq [symmetric])
  then show ?thesis
    using split [of x] split [of "x div 256"] split [of "x div 65536"] top
    by (simp add: le_bytes_eq uint_word_of_int)
qed

definition flag_of :: "byte list \<Rightarrow> byte list" where
  "flag_of buf = take 4 buf"

text \<open>The buffer holds a message: its length stands in the header and its bytes after it.\<close>

definition holds_length :: "byte list \<Rightarrow> byte list \<Rightarrow> bool" where
  "holds_length buf d \<longleftrightarrow> take 4 (drop 4 buf) = le_bytes (py_len d)"

definition holds_payload :: "byte list \<Rightarrow> byte list \<Rightarrow> bool" where
  "holds_payload buf d \<longleftrightarrow> take (length d) (drop 8 buf) = d"

lemma read_flag:
  assumes "8 \<le> length buf" "flag_of buf = le_bytes b" "b \<in> {0, 1}"
  shows "read_int32 buf 0 = b"
proof -
  have "py_slice buf 0 (0 + 4) = le_bytes b"
    using assms(1,2) by (simp add: py_slice_def py_clamp_def flag_of_def Let_def)
  then show ?thesis using assms(3) by (auto simp: read_int32_def le_value_bytes)
qed

lemma read_length:
  assumes "8 \<le> length buf" "holds_length buf d" "length d < 2 ^ 31"
  shows "read_int32 buf 4 = py_len d"
proof -
  have "py_slice buf 4 (4 + 4) = le_bytes (py_len d)"
    using assms(1,2) by (simp add: py_slice_def py_clamp_def holds_length_def Let_def)
  then show ?thesis using assms(3) by (simp add: read_int32_def le_value_bytes py_len_def)
qed

lemma read_payload:
  assumes "holds_payload buf d" "length d + 8 \<le> length buf"
  shows "py_slice buf 8 (8 + py_len d) = d"
  using assms by (simp add: py_slice_def py_clamp_def holds_payload_def py_len_def Let_def nat_add_distrib)

section \<open>Writing\<close>

lemma write_flag:
  assumes "8 \<le> length buf"
  shows "np_set_slice buf 0 4 (le_bytes b) = Inr (le_bytes b @ drop 4 buf)"
  using np_set_slice_0 [of "le_bytes b" buf 4] assms by (simp add: py_len_def)

lemma write_length:
  assumes "8 \<le> length buf"
  shows "np_set_slice buf 4 (4 + 4) (le_bytes n) = Inr (take 4 buf @ le_bytes n @ drop 8 buf)"
  using np_set_slice_nat [of 4 "le_bytes n" buf] assms by (simp add: py_len_def)

lemma write_payload:
  assumes "length d + 8 \<le> length buf"
  shows "np_set_slice buf 8 (8 + py_len d) d = Inr (take 8 buf @ d @ drop (8 + length d) buf)"
  using np_set_slice_nat [of 8 d buf] assms by simp

text \<open>What the writes leave of each other.\<close>

lemma after_payload:
  assumes "length d + 8 \<le> length buf"
  shows "holds_payload (take 8 buf @ d @ drop (8 + length d) buf) d"
    "flag_of (take 8 buf @ d @ drop (8 + length d) buf) = flag_of buf"
    "length (take 8 buf @ d @ drop (8 + length d) buf) = length buf"
  using assms by (simp_all add: holds_payload_def flag_of_def min_absorb2)

lemma after_length:
  assumes "8 \<le> length buf"
  shows "holds_length (take 4 buf @ le_bytes (py_len d) @ drop 8 buf) d"
    "holds_payload (take 4 buf @ le_bytes n @ drop 8 buf) d = holds_payload buf d"
    "flag_of (take 4 buf @ le_bytes n @ drop 8 buf) = flag_of buf"
    "length (take 4 buf @ le_bytes n @ drop 8 buf) = length buf"
  using assms by (simp_all add: holds_length_def holds_payload_def flag_of_def)

lemma after_flag:
  assumes "8 \<le> length buf"
  shows "flag_of (le_bytes b @ drop 4 buf) = le_bytes b"
    "holds_length (le_bytes b @ drop 4 buf) d = holds_length buf d"
    "holds_payload (le_bytes b @ drop 4 buf) d = holds_payload buf d"
    "length (le_bytes b @ drop 4 buf) = length buf"
  using assms by (simp_all add: holds_length_def holds_payload_def flag_of_def)

section \<open>The invariant\<close>

definition writer_ok :: "byte list \<Rightarrow> byte list list \<Rightarrow> writer_pc \<Rightarrow> bool" where
  "writer_ok buf to_send pc \<longleftrightarrow>
     (case pc of
        Writer_Waits \<Rightarrow> True
      | Writes_Payload \<Rightarrow> to_send \<noteq> []
      | Writes_Length \<Rightarrow> to_send \<noteq> [] \<and> holds_payload buf (hd to_send)
      | Writes_Flag \<Rightarrow> to_send \<noteq> [] \<and> holds_payload buf (hd to_send) \<and> holds_length buf (hd to_send))"

definition reader_ok :: "byte list \<Rightarrow> reader_pc \<Rightarrow> bool" where
  "reader_ok d pc \<longleftrightarrow>
     (case pc of Reads_Payload n \<Rightarrow> n = py_len d | Releases p \<Rightarrow> p = d | _ \<Rightarrow> True)"

text \<open>Either the buffer is the writer's, or it holds the message that the reader takes.\<close>

definition writers_turn :: "byte list list \<Rightarrow> channel \<Rightarrow> bool" where
  "writers_turn msgs c \<longleftrightarrow> flag_of (ch_buffer c) = le_bytes 0 \<and> ch_reader c = Reader_Waits \<and>
     ch_received c @ ch_to_send c = msgs \<and> writer_ok (ch_buffer c) (ch_to_send c) (ch_writer c)"

definition readers_turn :: "byte list list \<Rightarrow> byte list \<Rightarrow> channel \<Rightarrow> bool" where
  "readers_turn msgs d c \<longleftrightarrow> flag_of (ch_buffer c) = le_bytes 1 \<and> ch_writer c = Writer_Waits \<and>
     ch_received c @ d # ch_to_send c = msgs \<and> holds_length (ch_buffer c) d \<and>
     holds_payload (ch_buffer c) d \<and> reader_ok d (ch_reader c)"

definition channel_ok :: "nat \<Rightarrow> byte list list \<Rightarrow> channel \<Rightarrow> bool" where
  "channel_ok max_size msgs c \<longleftrightarrow> length (ch_buffer c) = max_size \<and>
     (writers_turn msgs c \<or> (\<exists>d. readers_turn msgs d c))"

definition messages_fit :: "nat \<Rightarrow> byte list list \<Rightarrow> bool" where
  "messages_fit max_size msgs \<longleftrightarrow> 8 \<le> max_size \<and> max_size \<le> 2 ^ 31 \<and>
     (\<forall>d \<in> set msgs. length d + 8 \<le> max_size)"

lemma le_bytes_0: "le_bytes 0 = replicate 4 0"
  by (simp add: le_bytes_eq eval_nat_numeral)

lemma init_channel_ok: "messages_fit max_size msgs \<Longrightarrow> channel_ok max_size msgs (init_channel max_size msgs)"
  by (simp add: channel_ok_def writers_turn_def init_channel_def flag_of_def messages_fit_def le_bytes_0
      writer_ok_def min_def)

text \<open>How far the transfer has come: eight steps for each message.\<close>

definition writer_progress :: "writer_pc \<Rightarrow> nat" where
  "writer_progress pc = (case pc of Writer_Waits \<Rightarrow> 0 | Writes_Payload \<Rightarrow> 1 | Writes_Length \<Rightarrow> 2 | Writes_Flag \<Rightarrow> 3)"

definition reader_progress :: "reader_pc \<Rightarrow> nat" where
  "reader_progress pc = (case pc of Reader_Waits \<Rightarrow> 0 | Reads_Length \<Rightarrow> 1 | Reads_Payload n \<Rightarrow> 2 | Releases p \<Rightarrow> 3)"

definition steps_done :: "byte list list \<Rightarrow> channel \<Rightarrow> nat" where
  "steps_done msgs c = 8 * length (ch_received c) +
     (if flag_of (ch_buffer c) = le_bytes 0 then writer_progress (ch_writer c)
      else 4 + reader_progress (ch_reader c))"

lemma flags_differ [simp]: "le_bytes 1 \<noteq> le_bytes 0" "le_bytes 0 \<noteq> le_bytes 1"
  by (simp_all add: le_bytes_eq)

text \<open>On its turn a process makes one step towards the end; otherwise its step changes nothing.\<close>

lemma writer_on_turn:
  assumes "messages_fit max_size msgs" "length (ch_buffer c) = max_size" "writers_turn msgs c" "ch_to_send c \<noteq> []"
  shows "\<exists>c'. writer_step c = Inr c' \<and> channel_ok max_size msgs c' \<and> steps_done msgs c' = Suc (steps_done msgs c)"
proof -
  obtain d rest where d: "ch_to_send c = d # rest" using assms(4) by (cases "ch_to_send c") auto
  let ?buf = "ch_buffer c"
  have turn: "flag_of ?buf = le_bytes 0" "ch_reader c = Reader_Waits" "ch_received c @ d # rest = msgs"
    "writer_ok ?buf (d # rest) (ch_writer c)" using assms(3) d by (simp_all add: writers_turn_def)
  have "d \<in> set msgs" using turn(3) by auto
  then have fit: "length d + 8 \<le> length ?buf" "8 \<le> length ?buf"
    using assms(1,2) by (auto simp: messages_fit_def)
  show ?thesis
  proof (cases "ch_writer c")
    case Writer_Waits
    have "read_int32 ?buf 0 = 0" using read_flag [OF fit(2) turn(1)] by simp
    then have "writer_step c = Inr (c\<lparr>ch_writer := Writes_Payload\<rparr>)"
      using Writer_Waits d fit(1) by (simp add: writer_step_def Let_def py_len_def)
    then show ?thesis using assms(2) turn d Writer_Waits
      by (simp add: channel_ok_def writers_turn_def writer_ok_def steps_done_def writer_progress_def)
  next
    case Writes_Payload
    then have "writer_step c = Inr (c\<lparr>ch_buffer := take 8 ?buf @ d @ drop (8 + length d) ?buf, ch_writer := Writes_Length\<rparr>)"
      using d by (simp add: writer_step_def Let_def write_payload [OF fit(1)])
    then show ?thesis using assms(2) turn d Writes_Payload after_payload [OF fit(1)]
      by (simp add: channel_ok_def writers_turn_def writer_ok_def steps_done_def writer_progress_def del: length_append)
  next
    case Writes_Length
    then have "writer_step c = Inr (c\<lparr>ch_buffer := take 4 ?buf @ le_bytes (py_len d) @ drop 8 ?buf, ch_writer := Writes_Flag\<rparr>)"
      using d write_length [OF fit(2)] by (simp add: writer_step_def Let_def)
    then show ?thesis using assms(2) turn d Writes_Length after_length [OF fit(2)]
      by (simp add: channel_ok_def writers_turn_def writer_ok_def steps_done_def writer_progress_def del: length_append)
  next
    case Writes_Flag
    then have "writer_step c = Inr (c\<lparr>ch_buffer := le_bytes 1 @ drop 4 ?buf, ch_writer := Writer_Waits, ch_to_send := rest\<rparr>)"
      using d by (simp add: writer_step_def Let_def write_flag [OF fit(2)])
    moreover have "readers_turn msgs d (c\<lparr>ch_buffer := le_bytes 1 @ drop 4 ?buf, ch_writer := Writer_Waits,
        ch_to_send := rest\<rparr>)"
      using turn Writes_Flag after_flag [OF fit(2)] by (simp add: readers_turn_def writer_ok_def reader_ok_def)
    ultimately show ?thesis using assms(2) turn Writes_Flag after_flag [OF fit(2)]
      by (simp only: channel_ok_def) (auto simp: steps_done_def writer_progress_def reader_progress_def
          simp del: length_append)
  qed
qed

lemma reader_on_turn:
  assumes "messages_fit max_size msgs" "length (ch_buffer c) = max_size" "readers_turn msgs d c"
  shows "\<exists>c'. reader_step c = Inr c' \<and> channel_ok max_size msgs c' \<and> steps_done msgs c' = Suc (steps_done msgs c)"
proof -
  let ?buf = "ch_buffer c"
  have turn: "flag_of ?buf = le_bytes 1" "ch_writer c = Writer_Waits" "ch_received c @ d # ch_to_send c = msgs"
    "holds_length ?buf d" "holds_payload ?buf d" "reader_ok d (ch_reader c)"
    using assms(3) by (simp_all add: readers_turn_def)
  have "d \<in> set msgs" using turn(3) by auto
  then have fit: "length d + 8 \<le> length ?buf" "8 \<le> length ?buf" "length d < 2 ^ 31"
    using assms(1,2) by (auto simp: messages_fit_def)
  show ?thesis
  proof (cases "ch_reader c")
    case Reader_Waits
    have "read_int32 ?buf 0 = 1" using read_flag [OF fit(2) turn(1)] by simp
    then have "reader_step c = Inr (c\<lparr>ch_reader := Reads_Length\<rparr>)" using Reader_Waits by (simp add: reader_step_def)
    then show ?thesis using assms(2) turn Reader_Waits
      by (auto simp: channel_ok_def readers_turn_def reader_ok_def steps_done_def reader_progress_def)
  next
    case Reads_Length
    have "reader_step c = Inr (c\<lparr>ch_reader := Reads_Payload (py_len d)\<rparr>)"
      using Reads_Length read_length [OF fit(2) turn(4) fit(3)] by (simp add: reader_step_def)
    then show ?thesis using assms(2) turn Reads_Length
      by (auto simp: channel_ok_def readers_turn_def reader_ok_def steps_done_def reader_progress_def)
  next
    case (Reads_Payload n)
    then have "n = py_len d" using turn(6) by (simp add: reader_ok_def)
    then have "reader_step c = Inr (c\<lparr>ch_reader := Releases d\<rparr>)"
      using Reads_Payload read_payload [OF turn(5) fit(1)] by (simp add: reader_step_def Let_def)
    then show ?thesis using assms(2) turn Reads_Payload
      by (auto simp: channel_ok_def readers_turn_def reader_ok_def steps_done_def reader_progress_def)
  next
    case (Releases p)
    then have "p = d" using turn(6) by (simp add: reader_ok_def)
    then have "reader_step c = Inr (c\<lparr>ch_buffer := le_bytes 0 @ drop 4 ?buf, ch_reader := Reader_Waits,
        ch_received := ch_received c @ [d]\<rparr>)"
      using Releases by (simp add: reader_step_def Let_def write_flag [OF fit(2)])
    then show ?thesis using assms(2) turn Releases after_flag [OF fit(2)]
      by (simp add: channel_ok_def writers_turn_def writer_ok_def steps_done_def writer_progress_def
          reader_progress_def length_append_singleton del: length_append)
  qed
qed

lemma writer_off_turn:
  assumes "messages_fit max_size msgs" "length (ch_buffer c) = max_size"
    and "readers_turn msgs d c \<or> writers_turn msgs c \<and> ch_to_send c = []"
  shows "writer_step c = Inr c"
proof (cases "ch_to_send c")
  case (Cons e rest)
  then have turn: "readers_turn msgs d c" using assms(3) by simp
  then have "e \<in> set msgs" using Cons by (auto simp: readers_turn_def)
  then have fit: "length e + 8 \<le> length (ch_buffer c)" "8 \<le> length (ch_buffer c)"
    using assms(1,2) by (auto simp: messages_fit_def)
  have "read_int32 (ch_buffer c) 0 = 1" using read_flag [OF fit(2), of 1] turn by (simp add: readers_turn_def)
  then show ?thesis using turn Cons fit(1) by (simp add: writer_step_def Let_def readers_turn_def py_len_def)
qed (simp add: writer_step_def)

lemma reader_off_turn:
  assumes "messages_fit max_size msgs" "length (ch_buffer c) = max_size" "writers_turn msgs c"
  shows "reader_step c = Inr c"
proof -
  have "8 \<le> length (ch_buffer c)" using assms(1,2) by (simp add: messages_fit_def)
  then have "read_int32 (ch_buffer c) 0 = 0" using read_flag [of _ 0] assms(3) by (simp add: writers_turn_def)
  then show ?thesis using assms(3) by (simp add: reader_step_def writers_turn_def)
qed

section \<open>Messages arrive\<close>

lemma channel_turns:
  assumes "messages_fit max_size msgs" "channel_ok max_size msgs c"
  shows "\<exists>cw cr. writer_step c = Inr cw \<and> reader_step c = Inr cr \<and>
    channel_ok max_size msgs cw \<and> channel_ok max_size msgs cr \<and>
    (if ch_received c = msgs then cw = c \<and> cr = c
     else steps_done msgs cw + steps_done msgs cr = Suc (2 * steps_done msgs c))"
proof -
  have len: "length (ch_buffer c) = max_size" using assms(2) by (simp add: channel_ok_def)
  consider "writers_turn msgs c" "ch_to_send c = []" | "writers_turn msgs c" "ch_to_send c \<noteq> []"
    | d where "readers_turn msgs d c"
    using assms(2) by (auto simp: channel_ok_def)
  then show ?thesis
  proof cases
    case 1
    then have "ch_received c = msgs" by (simp add: writers_turn_def)
    then show ?thesis
      using writer_off_turn [OF assms(1) len] reader_off_turn [OF assms(1) len] 1 assms(2) by auto
  next
    case 2
    then have "ch_received c \<noteq> msgs" by (auto simp: writers_turn_def)
    then show ?thesis
      using writer_on_turn [OF assms(1) len 2] reader_off_turn [OF assms(1) len 2(1)] assms(2) by auto
  next
    case 3
    then have "ch_received c \<noteq> msgs" by (auto simp: readers_turn_def)
    then show ?thesis
      using reader_on_turn [OF assms(1) len 3] writer_off_turn [OF assms(1) len disjI1 [OF 3]] assms(2) by auto
  qed
qed

lemma channel_step_ok:
  assumes "messages_fit max_size msgs" "channel_step c c'" "channel_ok max_size msgs c"
  shows "channel_ok max_size msgs c'"
  using assms(2) channel_turns [OF assms(1,3)] by (cases rule: channel_step.cases) auto

lemma channel_reachable_ok:
  assumes "messages_fit max_size msgs" "channel_step\<^sup>*\<^sup>* (init_channel max_size msgs) c"
  shows "channel_ok max_size msgs c"
  using assms(2)
  by (induction rule: rtranclp_induct)
    (use init_channel_ok [OF assms(1)] channel_step_ok [OF assms(1)] in auto)

lemma steps_bounded:
  assumes "channel_ok max_size msgs c"
  shows "steps_done msgs c \<le> 8 * length msgs"
proof -
  consider "writers_turn msgs c" | d where "readers_turn msgs d c" using assms by (auto simp: channel_ok_def)
  then show ?thesis
  proof cases
    case 1
    then have "length msgs = length (ch_received c) + length (ch_to_send c)"
      by (auto simp: writers_turn_def simp flip: length_append)
    moreover have "ch_writer c = Writer_Waits \<or> ch_to_send c \<noteq> []"
      using 1 by (auto simp: writers_turn_def writer_ok_def split: writer_pc.splits)
    ultimately show ?thesis
      using 1 by (cases "ch_writer c"; cases "ch_to_send c") (simp_all add: writers_turn_def steps_done_def writer_progress_def)
  next
    case 2
    then have "length msgs = length (ch_received c) + Suc (length (ch_to_send c))"
      by (auto simp: readers_turn_def)
    then show ?thesis
      using 2 by (cases "ch_reader c") (simp_all add: readers_turn_def steps_done_def reader_progress_def)
  qed
qed

text \<open>
  C19: the channel loses, repeats and reorders nothing. However the steps of writer and reader
  interleave, neither raises, and what the reader has received is a prefix of what was sent;
  the buffer never holds half a message when the reader copies it.
\<close>

theorem channel_delivers_in_order:
  assumes "messages_fit max_size msgs" "channel_step\<^sup>*\<^sup>* (init_channel max_size msgs) c"
  shows "(\<exists>cw cr. writer_step c = Inr cw \<and> reader_step c = Inr cr) \<and>
    (\<exists>k. ch_received c = take k msgs) \<and>
    (\<forall>p. ch_reader c = Releases p \<longrightarrow> length (ch_received c) < length msgs \<and> p = msgs ! length (ch_received c))"
proof -
  note ok = channel_reachable_ok [OF assms]
  have "\<exists>k. ch_received c = take k msgs"
    using ok by (auto simp: channel_ok_def writers_turn_def readers_turn_def intro!: exI [of _ "length (ch_received c)"])
  moreover have "length (ch_received c) < length msgs \<and> p = msgs ! length (ch_received c)"
    if "ch_reader c = Releases p" for p
    using ok that by (auto simp: channel_ok_def writers_turn_def readers_turn_def reader_ok_def)
  ultimately show ?thesis using channel_turns [OF assms(1) ok] by blast
qed

text \<open>
  C20: every message arrives. In every reachable state, unless all messages have been received,
  exactly one of the two processes has a step that does more than poll, and it brings the
  transfer one step closer to its end, which lies eight steps per message from the start.
\<close>

theorem channel_never_stalls:
  assumes "messages_fit max_size msgs" "channel_step\<^sup>*\<^sup>* (init_channel max_size msgs) c"
  shows "\<exists>cw cr. writer_step c = Inr cw \<and> reader_step c = Inr cr \<and>
    (if ch_received c = msgs then cw = c \<and> cr = c
     else steps_done msgs cw + steps_done msgs cr = Suc (2 * steps_done msgs c) \<and>
       steps_done msgs c < 8 * length msgs)"
proof -
  note ok = channel_reachable_ok [OF assms]
  from channel_turns [OF assms(1) ok] obtain cw cr where step: "writer_step c = Inr cw" "reader_step c = Inr cr"
    "channel_ok max_size msgs cw" "channel_ok max_size msgs cr"
    "if ch_received c = msgs then cw = c \<and> cr = c
     else steps_done msgs cw + steps_done msgs cr = Suc (2 * steps_done msgs c)" by blast
  moreover have "steps_done msgs c < 8 * length msgs" if "ch_received c \<noteq> msgs"
  proof -
    have "steps_done msgs c < steps_done msgs cw \<or> steps_done msgs c < steps_done msgs cr"
      using step(5) that by (auto split: if_splits)
    then show ?thesis using steps_bounded [OF step(3)] steps_bounded [OF step(4)] by linarith
  qed
  ultimately show ?thesis by auto
qed

section \<open>A message at the limit\<close>

text \<open>
  The check of the size is four bytes short. The writer refuses a message only when it does not
  fit behind the flag, and leaves the four bytes of the length out of account: a message that
  passes the check and does not fit behind the header raises ValueError while it is being written.
\<close>

theorem message_at_limit_raises:
  assumes "ch_to_send c = d # rest" "ch_writer c = Writer_Waits" "flag_of (ch_buffer c) = le_bytes 0"
    and "9 \<le> length (ch_buffer c)" "py_len (ch_buffer c) - 8 < py_len d" "py_len d < py_len (ch_buffer c) - 4"
  shows "\<exists>c'. writer_step c = Inr c' \<and> writer_step c' = Inl ValueError"
proof -
  let ?buf = "ch_buffer c" and ?c = "c\<lparr>ch_writer := Writes_Payload\<rparr>"
  have "read_int32 ?buf 0 = 0" using read_flag [OF _ assms(3)] assms(4) by simp
  then have "writer_step c = Inr ?c" using assms(1,2,6) by (simp add: writer_step_def Let_def)
  moreover have "np_set_slice ?buf 8 (8 + py_len d) d = Inl ValueError"
  proof -
    have "nat (py_clamp (py_len ?buf) 8) = 8" using py_clamp_nat [of 8 ?buf] assms(4) by simp
    moreover have "nat (py_clamp (py_len ?buf) (8 + py_len d)) = length ?buf"
      using assms(5) by (simp add: py_clamp_def py_len_def)
    moreover have "length d \<noteq> length ?buf - 8" "length d \<noteq> 1" using assms(4,5) by (auto simp: py_len_def)
    ultimately show ?thesis by (simp add: np_set_slice_def Let_def)
  qed
  then have "writer_step ?c = Inl ValueError" using assms(1) by (simp add: writer_step_def Let_def)
  ultimately show ?thesis by blast
qed

section \<open>Samples\<close>

lemma sample_messages: "messages_fit (2 ^ 20) [[1, 2], [3]]"
  by (simp add: messages_fit_def)

theorem channel_delivers_in_order_witness:
  "\<exists>c. channel_step (init_channel (2 ^ 20) [[1, 2], [3]]) c \<and> ch_writer c = Writes_Payload \<and>
    (\<exists>k. ch_received c = take k [[1, 2], [3]])"
proof -
  let ?i = "init_channel (2 ^ 20) [[1, 2], [3]]"
  have ok: "channel_ok (2 ^ 20) [[1, 2], [3]] ?i" by (rule init_channel_ok [OF sample_messages])
  then have "read_int32 (ch_buffer ?i) 0 = 0"
    using read_flag [of "ch_buffer ?i" 0] by (simp add: channel_ok_def writers_turn_def readers_turn_def init_channel_def
        flag_of_def le_bytes_0)
  then have "writer_step ?i = Inr (?i\<lparr>ch_writer := Writes_Payload\<rparr>)"
    by (simp add: writer_step_def Let_def init_channel_def py_len_def)
  then have step: "channel_step ?i (?i\<lparr>ch_writer := Writes_Payload\<rparr>)" by (rule channel_step.writer)
  then have "channel_step\<^sup>*\<^sup>* ?i (?i\<lparr>ch_writer := Writes_Payload\<rparr>)" by (rule r_into_rtranclp)
  from channel_delivers_in_order [OF sample_messages this]
  have "\<exists>k. ch_received (?i\<lparr>ch_writer := Writes_Payload\<rparr>) = take k [[1, 2], [3]]" by blast
  with step show ?thesis by (intro exI [of _ "?i\<lparr>ch_writer := Writes_Payload\<rparr>"]) simp
qed

theorem channel_never_stalls_witness:
  "\<exists>cw cr. writer_step (init_channel (2 ^ 20) [[1, 2], [3]]) = Inr cw \<and>
    reader_step (init_channel (2 ^ 20) [[1, 2], [3]]) = Inr cr \<and>
    steps_done [[1, 2], [3]] cw + steps_done [[1, 2], [3]] cr =
      Suc (2 * steps_done [[1, 2], [3]] (init_channel (2 ^ 20) [[1, 2], [3]]))"
proof -
  have "ch_received (init_channel (2 ^ 20) [[1, 2], [3]]) \<noteq> [[1, 2], [3]]" by (simp add: init_channel_def)
  then show ?thesis using channel_never_stalls [OF sample_messages rtranclp.rtrancl_refl] by auto
qed

theorem message_at_limit_raises_witness:
  "\<exists>c c'. ch_buffer c = replicate (2 ^ 20) 0 \<and> ch_to_send c = [replicate (2 ^ 20 - 5) 7] \<and>
    writer_step c = Inr c' \<and> writer_step c' = Inl ValueError"
proof -
  let ?c = "init_channel (2 ^ 20) [replicate (2 ^ 20 - 5) 7]"
  have start: "ch_to_send ?c = [replicate (2 ^ 20 - 5) 7]" "ch_writer ?c = Writer_Waits"
    "flag_of (ch_buffer ?c) = le_bytes 0" "9 \<le> length (ch_buffer ?c)"
    "py_len (ch_buffer ?c) - 8 < py_len (replicate (2 ^ 20 - 5) (7 :: byte))"
    "py_len (replicate (2 ^ 20 - 5) (7 :: byte)) < py_len (ch_buffer ?c) - 4"
    by (simp_all add: init_channel_def flag_of_def le_bytes_0 py_len_def)
  from message_at_limit_raises [OF start] obtain c' where
    "writer_step ?c = Inr c'" "writer_step c' = Inl ValueError" by blast
  moreover have "ch_buffer ?c = replicate (2 ^ 20) 0" by (simp add: init_channel_def)
  ultimately show ?thesis using start(1) by blast
qed

end
