(* ===== verification/Ageing.thy ===== *)
theory Ageing
  imports UpdateOk SchedEvents
begin

text \<open>
  Requests only grow older: no operation of \<open>schedule\<close> makes a request that has been scheduled
  before look like one that has not, and the requests that \<open>schedule\<close> announces as new are
  requests that have never been scheduled. Ids and the table of requests stay as they are.
\<close>

section \<open>Requests that have not been scheduled\<close>

definition young :: "request \<Rightarrow> bool" where
  "young r \<longleftrightarrow> status r \<in> {WAITING, WAITING_FOR_FSM}"

definition ages :: "scheduler \<Rightarrow> scheduler \<Rightarrow> bool" where
  "ages s s' \<longleftrightarrow> requests s' \<subseteq>\<^sub>m requests s \<and>
     (\<forall>x. req_id_of s' x = req_id_of s x \<and> (young (heap s' x) \<longrightarrow> young (heap s x)))"

lemma ages_refl [simp]: "ages s s"
  by (simp add: ages_def)

lemma ages_trans: "\<lbrakk>ages s t; ages t u\<rbrakk> \<Longrightarrow> ages s u"
  by (auto simp: ages_def intro: map_le_trans)

lemma ages_fields: "\<lbrakk>heap s' = heap s; requests s' = requests s\<rbrakk> \<Longrightarrow> ages s s'"
  by (simp add: ages_def)

lemma ages_upd:
  assumes "request_id (f (heap s x)) = req_id_of s x" "young (f (heap s x)) \<Longrightarrow> young (heap s x)"
  shows "ages s (upd x f s)"
  using assms by (simp add: ages_def)

text \<open>The other fields do not matter.\<close>

lemma ages_cong: "\<lbrakk>heap s' = heap t; requests s' = requests t; ages s t\<rbrakk> \<Longrightarrow> ages s s'"
  by (simp add: ages_def)

section \<open>Preemption\<close>

lemma passed_young: "young (r\<lparr>confidence_passed := b\<rparr>) = young r"
  by (simp add: young_def)

lemma passed_id: "request_id (r\<lparr>confidence_passed := b\<rparr>) = request_id r"
  by simp

lemma young_simps [simp]:
  "young (mark_preempted r) = young r" "young (reset_preempted r) = young r"
  "young (record_event e ts r) = young r" "young (r\<lparr>num_scheduled := n\<rparr>) = young r"
  "young (r\<lparr>num_computed_tokens := i\<rparr>) = young r" "\<not> young (r\<lparr>status := PREEMPTED\<rparr>)"
  "\<not> young (r\<lparr>status := RUNNING\<rparr>)" "young (r\<lparr>drop_end := b\<rparr>) = young r"
  "young (drop_speculation r) = young r"
  by (simp_all add: young_def mark_preempted_def reset_preempted_def record_event_def drop_speculation_def Let_def)

lemma id_simps [simp]:
  "request_id (mark_preempted r) = request_id r" "request_id (reset_preempted r) = request_id r"
  "request_id (record_event e ts r) = request_id r" "request_id (drop_speculation r) = request_id r"
  by (simp_all add: mark_preempted_def reset_preempted_def record_event_def drop_speculation_def Let_def)

lemma preempt_ages: "preempt_request x s = (b, s') \<Longrightarrow> ages s s'"
  by (auto simp: preempt_request_def Let_def ages_def split: if_splits)

lemma drain_ages: "drain_preempted s = (xs, s') \<Longrightarrow> ages s s'"
proof -
  have fold: "ages s (snd (fold drain_step ys (p, s)))" for ys p
  proof (induction ys arbitrary: p s)
    case (Cons y ys)
    obtain b t where t: "preempt_request y s = (b, t)" by fastforce
    then show ?case using Cons.IH [of t] preempt_ages [OF t] by (auto simp: drain_step_def intro: ages_trans)
  qed simp
  assume "drain_preempted s = (xs, s')"
  then obtain p t where "fold drain_step (to_be_preempted s) ([], s) = (p, t)" "s' = t\<lparr>to_be_preempted := p\<rparr>"
    by (auto simp: drain_preempted_def split: prod.splits)
  then show ?thesis using fold [of "to_be_preempted s" "[]"] by (auto intro: ages_cong)
qed

lemma evict_ages:
  assumes "evict_last cfg ts s = Inr (y, s')"
  shows "ages s s'"
proof -
  let ?x = "last (running_scheduled s)"
  obtain m where m: "free (heap s ?x) (kv_cache_manager s) = Inr m"
    using assms by (auto simp: evict_last_def Let_def res_simps split: if_splits)
  define s1 where "s1 = upd ?x (\<lambda>r. r\<lparr>status := PREEMPTED\<rparr>)
    (s\<lparr>running_scheduled := butlast (running_scheduled s), kv_cache_manager := m\<rparr>)"
  define s2 where "s2 = (if log_stats cfg then upd ?x (record_event PREEMPTED_EVENT ts) s1 else s1)"
  obtain b t where t: "preempt_request ?x s2 = (b, t)" by fastforce
  have "running_scheduled s \<noteq> []" using assms by (auto simp: evict_last_def)
  then have "evict_last cfg ts s = (case preempt_request ?x s2 of (b, s3) \<Rightarrow>
      Inr (?x, if b then s3 else s3\<lparr>to_be_preempted := to_be_preempted s3 @ [?x]\<rparr>))"
    by (simp add: evict_last_def Let_def m s1_def s2_def)
  then have "s' = (if b then t else t\<lparr>to_be_preempted := to_be_preempted t @ [?x]\<rparr>)"
    using assms t by simp
  moreover have "ages s s2" by (simp add: s2_def s1_def ages_def)
  then have "ages s t" using preempt_ages [OF t] by (rule ages_trans)
  ultimately show ?thesis by (auto intro: ages_cong)
qed

lemma allocate_ages:
  "allocate_with_preemption cfg env ts x n preempted s = Inr (new, preempted', s') \<Longrightarrow> ages s s'"
proof (induction cfg env ts x n preempted s rule: allocate_with_preemption.induct)
  case (1 cfg env ts x n preempted s)
  note eq = 1(2) [unfolded allocate_with_preemption.simps [of cfg env ts x n preempted s]]
  from eq obtain res m where
    alloc: "allocate_slots (env_hash env) (env_none_hash env) (heap s x) n []
      (num_lookahead_tokens cfg) (kv_cache_manager s) = Inr (res, m)"
    by (auto simp: res_simps)
  let ?s1 = "s\<lparr>kv_cache_manager := m\<rparr>"
  have s1: "ages s ?s1" by (simp add: ages_def)
  show ?case
  proof (cases res)
    case (Some b)
    then show ?thesis using eq alloc s1 by auto
  next
    case None
    with eq alloc obtain y s2 where y: "evict_last cfg ts ?s1 = Inr (y, s2)" by (auto simp: res_simps)
    have s2: "ages s s2" using s1 evict_ages [OF y] by (rule ages_trans)
    show ?thesis
    proof (cases "y = x")
      case True
      then show ?thesis using eq alloc None y s2 by auto
    next
      case False
      then have "allocate_with_preemption cfg env ts x n (preempted @ [y]) s2 = Inr (new, preempted', s')"
        using eq alloc None y by auto
      from 1(1) [OF alloc refl refl _ y refl False this] None s2 show ?thesis by (auto intro: ages_trans)
    qed
  qed
qed

section \<open>The running phase\<close>

text \<open>What the loops of \<open>schedule\<close> keep: the requests collected as new were young at the start.\<close>

definition ageing :: "scheduler \<Rightarrow> scheduler \<times> sched_local \<Rightarrow> bool" where
  "ageing s0 st \<longleftrightarrow> ages s0 (fst st) \<and> (\<forall>x \<in> set (new_reqs (snd st)). young (heap s0 x))"

lemma schedule_running_ages:
  assumes "ageing s0 (s, l)"
  shows "res_ok True (\<lambda>(b, st). ageing s0 st) (schedule_running cfg env ts x flushed n (s, l))"
proof -
  have "ageing s0 st" if r: "schedule_running cfg env ts x flushed n (s, l) = Inr (b, st)" for b st
  proof -
    from r obtain new preempted s' where a: "allocate_with_preemption cfg env ts x (cap_tokens cfg (token_budget l) n)
        (preempted_reqs l) s = Inr (new, preempted, s')"
      "ages s' (fst st)" "new_reqs (snd st) = new_reqs l"
      by (auto simp: schedule_running_def commit_running_def Let_def res_simps ages_def split: option.splits)
    then show ?thesis using assms allocate_ages [OF a(1)] by (auto simp: ageing_def intro: ages_trans)
  qed
  then show ?thesis by (cases "schedule_running cfg env ts x flushed n (s, l)") auto
qed

lemma ageing_upd:
  assumes "ageing s0 (s, l)" "request_id (f (heap s x)) = req_id_of s x" "young (f (heap s x)) \<Longrightarrow> young (heap s x)"
  shows "ageing s0 (upd x f s, l)"
proof -
  have "ages s (upd x f s)" by (rule ages_upd) (fact assms(2), fact assms(3))
  then show ?thesis using assms(1) by (auto simp: ageing_def intro: ages_trans)
qed

lemma ageing_next: "ageing s0 st \<Longrightarrow> ageing s0 (next_request st)"
  by (simp add: ageing_def next_request_def)

lemma running_step_ages:
  assumes "ageing s0 st"
  shows "res_ok True (\<lambda>(b, st'). ageing s0 st') (running_step cfg env ts st)"
proof -
  obtain s l where st: "st = (s, l)" by (cases st)
  have "ageing s0 (upd x (\<lambda>r. r\<lparr>drop_end := False\<rparr>) s, l)" "ageing s0 (upd x drop_speculation s, l)" for x
    using assms by (auto intro!: ageing_upd simp: st)
  then show ?thesis
    using schedule_running_ages assms ageing_next by (simp add: running_step_def st Let_def)
qed

lemma running_loop_ages: "ageing s0 st \<Longrightarrow> res_ok True (ageing s0) (running_loop cfg env ts st)"
proof (induction cfg env ts st rule: running_loop.induct)
  case (1 cfg env ts st)
  show ?case
  proof (cases "length (running_scheduled (fst st)) \<le> req_index (snd st) \<or> token_budget (snd st) \<le> 0")
    case True
    then show ?thesis using 1(2) by (simp add: running_loop.simps [of cfg env ts st])
  next
    case False
    have "res_ok True (ageing s0) (ebind (running_step cfg env ts st) (\<lambda>(go_on, st').
        if go_on then running_loop cfg env ts st' else Inr st'))"
    proof (rule res_ok_ebind [OF running_step_ages [OF 1(2)]])
      fix p assume p: "running_step cfg env ts st = Inr p" "case p of (b, st') \<Rightarrow> ageing s0 st'"
      obtain b st' where "p = (b, st')" by (cases p)
      then show "res_ok True (ageing s0) (case p of (go_on, st') \<Rightarrow> if go_on then running_loop cfg env ts st' else Inr st')"
        using 1(1) [OF False p(1)] p(2) by auto
    qed
    then show ?thesis using False by (simp add: running_loop.simps [of cfg env ts st])
  qed
qed

section \<open>The waiting phase\<close>

lemma poll_grammar_ages: "poll_grammar x s = (b, s') \<Longrightarrow> ages s s'"
  by (auto simp: poll_grammar_def Let_def ages_def young_def split: if_splits option.splits prod.splits)

lemma commit_waiting_ages:
  assumes "ageing s0 (s, l)" "commit_waiting cfg ts x n nc bs (s, l) = Inr st"
  shows "ageing s0 st"
proof -
  have st: "ages s (fst st)" "new_reqs (snd st) = new_reqs l @ (if status (heap s x) = WAITING then [x] else [])"
    using assms(2) by (auto simp: commit_waiting_def Let_def ages_def split: if_splits)
  have "young (heap s0 x)" if "status (heap s x) = WAITING"
    using assms(1) that by (auto simp: ageing_def ages_def young_def)
  moreover have old: "ages s0 s" "\<forall>y \<in> set (new_reqs l). young (heap s0 y)"
    using assms(1) by (simp_all add: ageing_def)
  moreover have "ages s0 (fst st)" by (rule ages_trans [OF old(1) st(1)])
  ultimately show ?thesis by (cases "status (heap s x) = WAITING") (simp_all add: ageing_def st(2))
qed

lemma ageing_fields:
  "\<lbrakk>ageing s0 st; heap (fst st') = heap (fst st); requests (fst st') = requests (fst st);
    new_reqs (snd st') = new_reqs (snd st)\<rbrakk> \<Longrightarrow> ageing s0 st'"
  by (simp add: ageing_def ages_def)

lemma admit_waiting_ages:
  assumes "ageing s0 (s, l)"
  shows "res_ok True (\<lambda>(b, st). ageing s0 st) (admit_waiting cfg env ts x (s, l))"
proof -
  have "ageing s0 st" if a: "admit_waiting cfg env ts x (s, l) = Inr (b, st)" for b st
  proof -
    from a consider m where "st = (s\<lparr>kv_cache_manager := m\<rparr>, l)"
      | n nc bs m where "commit_waiting cfg ts x n nc bs (s\<lparr>kv_cache_manager := m\<rparr>, l) = Inr st"
      by (auto simp: admit_waiting_def Let_def res_simps split: option.splits)
    then show ?thesis
    proof cases
      case 1
      show ?thesis by (rule ageing_fields [OF assms]) (simp_all add: 1)
    next
      case 2
      have "ageing s0 (s\<lparr>kv_cache_manager := m\<rparr>, l)" by (rule ageing_fields [OF assms]) simp_all
      then show ?thesis using 2 by (rule commit_waiting_ages)
    qed
  qed
  then show ?thesis by (cases "admit_waiting cfg env ts x (s, l)") auto
qed

lemma estimate_waiting_ages:
  "ageing s0 st \<Longrightarrow> res_ok True (ageing s0) (estimate_waiting cfg env x st)"
proof -
  assume st: "ageing s0 st"
  have "ageing s0 st'" if "estimate_waiting cfg env x st = Inr st'" for st'
    by (rule ageing_fields [OF st])
      (use that in \<open>auto simp: estimate_waiting_def res_simps split: if_splits prod.splits\<close>)
  then show ?thesis by (cases "estimate_waiting cfg env x st") auto
qed

lemma waiting_step_ages:
  assumes "ageing s0 st"
  shows "res_ok True (\<lambda>(b, st'). ageing s0 st') (waiting_step cfg env ts st)"
proof (cases "py_len (running_scheduled (fst st)) = max_num_running_reqs cfg")
  case True
  then show ?thesis using assms by (simp add: waiting_step_def)
next
  case False
  let ?x = "hd (waiting (fst st))"
  have "res_ok True (\<lambda>(b, st'). ageing s0 st') (ebind (estimate_waiting cfg env ?x st) (\<lambda>(s1, l1).
      if should_estimate (estimate l1) \<and> delay_prefill (estimate l1) then Inr (False, s1, l1)
      else (case poll_grammar ?x s1 of (ready, s2) \<Rightarrow>
        (if ready then admit_waiting cfg env ts ?x (s2, l1)
         else Inr (True, s2\<lparr>waiting := tl (waiting s2)\<rparr>, l1\<lparr>skipped_reqs := ?x # skipped_reqs l1\<rparr>)))))"
  proof (rule res_ok_ebind [OF estimate_waiting_ages [OF assms]])
    fix p assume p: "ageing s0 p"
    obtain s1 l1 where p1: "p = (s1, l1)" by (cases p)
    obtain ready s2 where g: "poll_grammar ?x s1 = (ready, s2)" by fastforce
    have s2: "ageing s0 (s2, l1)" using p poll_grammar_ages [OF g] by (auto simp: p1 ageing_def intro: ages_trans)
    have "ageing s0 (s2\<lparr>waiting := tl (waiting s2)\<rparr>, l1\<lparr>skipped_reqs := ?x # skipped_reqs l1\<rparr>)"
      by (rule ageing_fields [OF s2]) simp_all
    then show "res_ok True (\<lambda>(b, st'). ageing s0 st') (case p of (s1, l1) \<Rightarrow>
        if should_estimate (estimate l1) \<and> delay_prefill (estimate l1) then Inr (False, s1, l1)
        else (case poll_grammar ?x s1 of (ready, s2) \<Rightarrow>
          (if ready then admit_waiting cfg env ts ?x (s2, l1)
           else Inr (True, s2\<lparr>waiting := tl (waiting s2)\<rparr>, l1\<lparr>skipped_reqs := ?x # skipped_reqs l1\<rparr>))))"
      using p admit_waiting_ages [OF s2] by (simp add: p1 g)
  qed
  then show ?thesis using False by (simp add: waiting_step_def Let_def)
qed

lemma waiting_loop_ages: "ageing s0 st \<Longrightarrow> res_ok True (ageing s0) (waiting_loop cfg env ts st)"
proof (induction cfg env ts st rule: waiting_loop.induct)
  case (1 cfg env ts st)
  show ?case
  proof (cases "waiting (fst st) = [] \<or> token_budget (snd st) \<le> 0")
    case True
    then show ?thesis using 1(2) by (simp add: waiting_loop.simps [of cfg env ts st])
  next
    case False
    have "res_ok True (ageing s0) (ebind (waiting_step cfg env ts st) (\<lambda>(go_on, st').
        if go_on then waiting_loop cfg env ts st' else Inr st'))"
    proof (rule res_ok_ebind [OF waiting_step_ages [OF 1(2)]])
      fix p assume p: "waiting_step cfg env ts st = Inr p" "case p of (b, st') \<Rightarrow> ageing s0 st'"
      obtain b st' where "p = (b, st')" by (cases p)
      then show "res_ok True (ageing s0) (case p of (go_on, st') \<Rightarrow> if go_on then waiting_loop cfg env ts st' else Inr st')"
        using 1(1) [OF False p(1)] p(2) by auto
    qed
    then show ?thesis using False by (simp add: waiting_loop.simps [of cfg env ts st])
  qed
qed

lemma put_back_ages: "ageing s0 st \<Longrightarrow> ageing s0 (put_back_skipped st, snd st)"
  by (rule ageing_fields) (simp_all add: put_back_skipped_def)

lemma schedule_waiting_ages:
  assumes "ageing s0 (s, l)" "schedule_waiting cfg env ts (s, l) = Inr st"
  shows "ageing s0 st"
proof -
  from assms(2) obtain e c st' where est: "(if enable_la_sched2 cfg
      then estimate_lookahead_memory cfg env (token_budget l) (preempted_reqs l \<noteq> []) s
      else Inr (no_estimate, s)) = Inr (e, c)"
    "(if preempted_reqs l = [] \<and> \<not> delay_prefill e
      then waiting_loop cfg env ts (c, l\<lparr>estimate := e\<rparr>) else Inr (c, l\<lparr>estimate := e\<rparr>)) = Inr st'"
    "st = (put_back_skipped st', snd st')"
    by (auto simp: schedule_waiting_def Let_def res_simps)
  have "heap c = heap s \<and> requests c = requests s"
    using est(1) res_ok_Inr [OF estimate_lookahead_memory_ok [of s cfg env "token_budget l" "preempted_reqs l \<noteq> []"]]
    by (auto split: if_splits)
  then have "ageing s0 (c, l\<lparr>estimate := e\<rparr>)" by (intro ageing_fields [OF assms(1)]) simp_all
  then have "ageing s0 st'"
    using est(2) res_ok_Inr [OF waiting_loop_ages] by (auto split: if_splits)
  then show ?thesis unfolding est(3) by (rule put_back_ages)
qed

section \<open>The output\<close>

lemma efold_ages:
  assumes "\<And>x s s'. f x s = Inr s' \<Longrightarrow> ages s s'" "efold f xs s = Inr s'"
  shows "ages s s'"
proof -
  have "res_ok True (ages s) (efold f xs s)"
  proof (rule efold_res_ok)
    fix x t assume t: "ages s t"
    show "res_ok True (ages s) (f x t)"
    proof (cases "f x t")
      case (Inr t')
      then show ?thesis using ages_trans [OF t assms(1) [OF Inr]] by simp
    qed simp
  qed simp
  then show ?thesis using assms(2) by simp
qed

lemma resolve_correction_young:
  "resolve_correction r tokens cached = Inr (ts, res, idx, r') \<Longrightarrow> young r' = young r \<and> request_id r' = request_id r"
  by (auto simp: resolve_correction_def young_def res_simps split: if_splits option.splits)

lemma make_cached_request_data_ages:
  assumes "make_cached_request_data x n k blocks resumed s = Inr (d, s')"
  shows "ages s s' \<and> resumed_from_preemption d = resumed"
proof -
  let ?old = "cached_reqs_data s (req_id_of s x)"
  from assms obtain ts res idx r' where r: "resolve_correction (heap s x)
      (py_slice (all_token_ids (heap s x)) (num_computed_tokens (heap s x))
        (num_computed_tokens (heap s x) + (n - k))) (?old \<noteq> None) = Inr (ts, res, idx, r')"
    and s': "heap s' = (heap s)(x := r')" "requests s' = requests s" "resumed_from_preemption d = resumed"
    by (auto simp: make_cached_request_data_def Let_def res_simps cached_request_data_from_def split: option.splits)
  then show ?thesis using resolve_correction_young [OF r] by (simp add: ages_def)
qed

lemma make_cached_list_ages:
  "make_cached_list l resumed xs s = Inr (ds, s') \<Longrightarrow>
   ages s s' \<and> (\<forall>d \<in> set ds. resumed_from_preemption d = resumed)"
proof (induction xs arbitrary: s ds)
  case (Cons x xs)
  then obtain n b d t ds' where x: "make_cached_request_data x n 0 b resumed s = Inr (d, t)"
    "make_cached_list l resumed xs t = Inr (ds', s')" "ds = d # ds'"
    by (auto simp: res_simps)
  then show ?case
    using make_cached_request_data_ages [OF x(1)] Cons.IH [OF x(2)] by (auto intro: ages_trans)
qed simp

lemma advance_computed_ages: "advance_computed e s = Inr s' \<Longrightarrow> ages s s'"
  by (auto simp: advance_computed_def res_simps ages_def split: if_splits)

lemma make_new_list_ids:
  assumes "make_new_list l s = Inr ds" "d \<in> set ds"
  shows "\<exists>x \<in> set (new_reqs l). req_id_of s x = nr_req_id d"
proof -
  have "\<forall>d \<in> set ds. \<exists>x \<in> set xs. req_id_of s x = nr_req_id d"
    if "emap (\<lambda>x. ebind (map_get (new_block_ids l) (req_id_of s x)) (\<lambda>blocks.
      Inr (new_request_data_from (heap s x) blocks))) xs = Inr ds" for xs ds
    using that
  proof (induction xs arbitrary: ds)
    case (Cons x xs)
    from Cons.prems obtain b ds' where "ds = new_request_data_from (heap s x) b # ds'"
      "\<forall>d \<in> set ds'. \<exists>x \<in> set xs. req_id_of s x = nr_req_id d"
      using Cons.IH by (auto simp: res_simps)
    then show ?case by (auto simp: new_request_data_from_def)
  qed simp
  then show ?thesis using assms by (auto simp: make_new_list_def)
qed

lemma finish_schedule_parts:
  assumes "finish_schedule cfg d (s, l) = Inr (res, s')"
  shows "\<exists>rs fs ss s1 s2 s3 enc s4. make_new_list l s = Inr (so_new_reqs (sr_output res)) \<and>
    make_cached_list l True (resumed_reqs l) s = Inr (rs, s1) \<and>
    make_cached_list l False (flushed_reqs l) s1 = Inr (fs, s2) \<and>
    make_cached_list l False (sp_reqs l) s2 = Inr (ss, s3) \<and>
    so_cached_reqs (sr_output res) = rs @ fs @ ss \<and>
    so_num_scheduled_tokens (sr_output res) = scheduled_tokens l \<and>
    sr_resume_helper res = resume_helper (map (heap s3) (resumed_reqs l)) \<and>
    so_total_num_scheduled_tokens (sr_output res) = total_scheduled l \<and>
    efold advance_computed (scheduled_tokens l) (s3\<lparr>encoder_cache_manager := enc\<rparr>) = Inr s4 \<and>
    s' = s4\<lparr>finished_req_ids := {}\<rparr>"
proof -
  from assms show ?thesis
    unfolding finish_schedule_def prod.case Let_def get_freed_ids_def
    by (elim ebind_InrE) (auto split: prod.splits elim!: ebind_InrE, blast)
qed

lemma finish_schedule_ages:
  assumes "finish_schedule cfg d (s, l) = Inr (res, s')"
  shows "ages s s'"
proof -
  from finish_schedule_parts [OF assms] obtain rs fs ss s1 s2 s3 enc s4 where
    m: "make_cached_list l True (resumed_reqs l) s = Inr (rs, s1)"
      "make_cached_list l False (flushed_reqs l) s1 = Inr (fs, s2)"
      "make_cached_list l False (sp_reqs l) s2 = Inr (ss, s3)"
      "efold advance_computed (scheduled_tokens l) (s3\<lparr>encoder_cache_manager := enc\<rparr>) = Inr s4"
      "s' = s4\<lparr>finished_req_ids := {}\<rparr>"
    by blast
  have "ages s s1" "ages s1 s2" "ages s2 s3" using m(1-3) make_cached_list_ages by blast+
  then have "ages s s3" by (blast intro: ages_trans)
  moreover have "ages s3 (s3\<lparr>encoder_cache_manager := enc\<rparr>)" by (rule ages_fields) simp_all
  moreover have "ages (s3\<lparr>encoder_cache_manager := enc\<rparr>) s4"
    by (rule efold_ages [OF advance_computed_ages m(4)])
  moreover have "ages s4 s'" unfolding m(5) by (rule ages_fields) simp_all
  ultimately show ?thesis by (blast intro: ages_trans)
qed

section \<open>\<open>schedule\<close>\<close>

text \<open>The state before the output is made.\<close>

lemma schedule_phases:
  assumes "schedulable cfg env s" "schedule cfg env ts s = Inr (res, s')"
  shows "\<exists>d t l. finish_schedule cfg d (t, l) = Inr (res, s') \<and> ageing s (t, l) \<and>
    sched_ok cfg t \<and> all_fit cfg (finished_req_ids s) t \<and> SchedSafety.batch_ok cfg t l"
proof -
  let ?F = "finished_req_ids s"
  obtain pre s1 where drain: "drain_preempted s = (pre, s1)" by fastforce
  have s1: "schedulable cfg env s1" "finished_req_ids s1 = ?F" "ages s s1"
    using drain_schedulable [OF assms(1) drain] drain_ages [OF drain] by simp_all
  from assms(2) obtain d s2 st1 st2 where p: "(if enable_la_sched1 cfg then apply_confidence_drop cfg env s1
      else Inr (0, s1)) = Inr (d, s2)"
    "running_loop cfg env ts (s2, init_local cfg pre) = Inr st1"
    "schedule_waiting cfg env ts st1 = Inr st2" "finish_schedule cfg d st2 = Inr (res, s')"
    by (auto simp: schedule_def drain elim!: ebind_InrE)
  have "same_but_passed s1 s2"
  proof (cases "enable_la_sched1 cfg")
    case True
    then have "confidences_ok cfg env s1" using s1(1) by (simp add: schedulable_def)
    from apply_confidence_drop_ok [OF this] show ?thesis using True p(1) by auto
  qed (use p(1) in simp)
  then have s2: "run_phase cfg ?F (s2, init_local cfg pre)" "ages s1 s2"
  proof -
    assume same: "same_but_passed s1 s2"
    show "run_phase cfg ?F (s2, init_local cfg pre)" using passed_schedulable [OF s1(1) same] s1(2) by simp
    have "requests s2 = requests s1"
      using same by (metis same_but_passed_def scheduler.select_convs(2) scheduler.surjective scheduler.update_convs(1))
    moreover have "young (heap s2 y) = young (heap s1 y) \<and> req_id_of s2 y = req_id_of s1 y" for y
      using same unfolding same_but_passed_def by (metis passed_young passed_id)
    ultimately show "ages s1 s2" by (simp add: ages_def)
  qed
  have "ageing s (s2, init_local cfg pre)"
    using ages_trans [OF s1(3) s2(2)] by (simp add: ageing_def init_local_def)
  then have st1: "ageing s st1" using p(2) res_ok_Inr [OF running_loop_ages] by blast
  have done1: "run_done cfg ?F st1"
    using running_loop_ok [OF s2(1), of env ts] p(2) by simp
  obtain u k where u: "st1 = (u, k)" by (cases st1)
  have "ageing s st2" using schedule_waiting_ages [of s u k] st1 p(3) u by blast
  moreover obtain t l where "st2 = (t, l)" by (cases st2)
  moreover have "sched_ok cfg t \<and> all_fit cfg ?F t \<and> SchedSafety.batch_ok cfg t l"
    using res_ok_Inr [OF schedule_waiting_ok [of cfg ?F u k env ts]] done1 p(3) u \<open>st2 = (t, l)\<close> by auto
  ultimately show ?thesis using p(4) by blast
qed

lemma resume_helper_has:
  assumes "r \<in> set rs"
  shows "map_of (resume_helper rs) (request_id r) \<noteq> None"
proof -
  have "i \<in> dom (map_of (fold (\<lambda>r d. AList.update (request_id r) (all_token_ids r) d) rs d))"
    if "i \<in> request_id ` set rs \<union> dom (map_of d)" for i rs d
    using that
  proof (induction rs arbitrary: d)
    case (Cons r rs)
    then have "i \<in> request_id ` set rs \<union> dom (map_of (AList.update (request_id r) (all_token_ids r) d))"
      by (auto simp: update_conv')
    from Cons.IH [OF this] show ?case by simp
  qed simp
  from this [of "request_id r" rs "[]"] show ?thesis using assms by (auto simp: resume_helper_def)
qed

lemma resumed_covered:
  assumes "sched_ok cfg t" "all_fit cfg F t" "SchedSafety.batch_ok cfg t l"
    and "finish_schedule cfg d (t, l) = Inr (res, s')"
  shows "\<forall>c \<in> set (so_cached_reqs (sr_output res)). resumed_from_preemption c \<longrightarrow>
    map_of (sr_resume_helper res) (cr_req_id c) \<noteq> None"
proof (intro ballI impI)
  fix c assume c: "c \<in> set (so_cached_reqs (sr_output res))" "resumed_from_preemption c"
  from finish_schedule_parts [OF assms(4)] obtain rs fs ss s1 s2 s3 where
    m: "make_cached_list l True (resumed_reqs l) t = Inr (rs, s1)"
      "make_cached_list l False (flushed_reqs l) s1 = Inr (fs, s2)"
      "make_cached_list l False (sp_reqs l) s2 = Inr (ss, s3)"
      "so_cached_reqs (sr_output res) = rs @ fs @ ss"
      "sr_resume_helper res = resume_helper (map (heap s3) (resumed_reqs l))"
    by blast
  have ag: "ages t s1" "ages s1 s2" "ages s2 s3" using m(1-3) make_cached_list_ages by blast+
  have "c \<in> set rs"
    using c m(4) make_cached_list_ages [OF m(2)] make_cached_list_ages [OF m(3)] by auto
  have "sendable l t (resumed_reqs l)" by (rule batch_sendable [OF assms(2,3)]) (auto simp: batch_def)
  moreover have "cached_ids_ok t" using assms(2) by (simp add: all_fit_def cached_ids_ok_def)
  ultimately have "map cr_req_id rs = map (req_id_of t) (resumed_reqs l)"
    using make_cached_list_ok [of l t "resumed_reqs l" True] m(1)
    by (auto dest: arg_cong [of _ _ "map fst"] simp: comp_def)
  then obtain x where x: "x \<in> set (resumed_reqs l)" "cr_req_id c = req_id_of t x"
    using \<open>c \<in> set rs\<close> by (metis (no_types, lifting) image_iff list.set_map)
  have "req_id_of s3 x = req_id_of t x" using ag by (simp add: ages_def)
  then show "map_of (sr_resume_helper res) (cr_req_id c) \<noteq> None"
    using resume_helper_has [of "heap s3 x" "map (heap s3) (resumed_reqs l)"] x m(5) by simp
qed

lemma payloads_bounded:
  assumes "sched_ok cfg s" "output_ok cfg F out s"
  shows "int (length (so_new_reqs out) + length (so_cached_reqs out)) \<le> max_num_running_reqs cfg"
proof -
  have "fst ` set (payloads out) \<subseteq> req_id_of s ` set (running_scheduled s)"
  proof
    fix i assume "i \<in> fst ` set (payloads out)"
    then obtain k where "(i, k) \<in> set (payloads out)" by auto
    then obtain x where x: "requests s i = Some x" "x \<in> set (running_scheduled s)"
      using assms(2) unfolding output_ok_def by blast
    then have "req_id_of s x = i" using assms(1) by (simp add: sched_inv_def queues_ok_def)
    then show "i \<in> req_id_of s ` set (running_scheduled s)" using x(2) by blast
  qed
  then have "card (set (map fst (payloads out))) \<le> card (req_id_of s ` set (running_scheduled s))"
    by (intro card_mono) simp_all
  also have "\<dots> \<le> length (running_scheduled s)"
    using card_image_le [of "set (running_scheduled s)" "req_id_of s"] card_length le_trans by blast
  finally have "length (payloads out) \<le> length (running_scheduled s)"
    using assms(2) distinct_card [of "map fst (payloads out)"] by (simp add: output_ok_def)
  moreover have "py_len (running_scheduled s) \<le> max_num_running_reqs cfg"
    using assms(1) by (simp add: sched_inv_def resources_ok_def)
  ultimately show ?thesis by (simp add: payloads_def py_len_def)
qed

text \<open>What the output of \<open>schedule\<close> means to the worker.\<close>

lemma schedule_output:
  assumes "schedulable cfg env s" "schedule cfg env ts s = Inr (res, s')"
  shows "ages s s'" "sched_ok cfg s'" "output_ok cfg (finished_req_ids s) (sr_output res) s'"
    "\<forall>d \<in> set (so_new_reqs (sr_output res)). \<exists>x. requests s (nr_req_id d) = Some x \<and> young (heap s x)"
    "\<forall>c \<in> set (so_cached_reqs (sr_output res)). resumed_from_preemption c \<longrightarrow>
      map_of (sr_resume_helper res) (cr_req_id c) \<noteq> None"
    "int (length (so_new_reqs (sr_output res)) + length (so_cached_reqs (sr_output res))) \<le> max_num_running_reqs cfg"
    "finished_req_ids s' = {}"
proof -
  from schedule_phases [OF assms] obtain d t l where t: "finish_schedule cfg d (t, l) = Inr (res, s')"
    "ageing s (t, l)" "sched_ok cfg t" "all_fit cfg (finished_req_ids s) t" "SchedSafety.batch_ok cfg t l" by blast
  show "ages s s'" using t(2) finish_schedule_ages [OF t(1)] by (auto simp: ageing_def intro: ages_trans)
  from schedule_ok [OF assms(1), of ts] assms(2) show ok: "sched_ok cfg s'"
    "output_ok cfg (finished_req_ids s) (sr_output res) s'" by simp_all
  show "int (length (so_new_reqs (sr_output res)) + length (so_cached_reqs (sr_output res))) \<le> max_num_running_reqs cfg"
    by (rule payloads_bounded [OF ok])
  show "\<forall>c \<in> set (so_cached_reqs (sr_output res)). resumed_from_preemption c \<longrightarrow>
      map_of (sr_resume_helper res) (cr_req_id c) \<noteq> None"
    by (rule resumed_covered [OF t(3,4,5,1)])
  from finish_schedule_parts [OF t(1)] have new: "make_new_list l t = Inr (so_new_reqs (sr_output res))"
    and "\<exists>u. s' = u\<lparr>finished_req_ids := {}\<rparr>" by blast+
  then show "finished_req_ids s' = {}" by auto
  show "\<forall>d \<in> set (so_new_reqs (sr_output res)). \<exists>x. requests s (nr_req_id d) = Some x \<and> young (heap s x)"
  proof
    fix d assume "d \<in> set (so_new_reqs (sr_output res))"
    from make_new_list_ids [OF new this] obtain x where x: "x \<in> set (new_reqs l)" "req_id_of t x = nr_req_id d" by blast
    have "x \<in> set (running_scheduled t)" using x(1) batch_dest(8) [OF t(5)] by (auto simp: batch_def)
    then have "requests t (req_id_of t x) = Some x"
      using t(3) by (simp add: sched_inv_def queues_ok_def tracked_def)
    then have "requests t (nr_req_id d) = Some x" using x(2) by simp
    moreover have "requests t \<subseteq>\<^sub>m requests s" "young (heap s x)"
      using t(2) x(1) by (auto simp: ageing_def ages_def)
    ultimately show "\<exists>x. requests s (nr_req_id d) = Some x \<and> young (heap s x)" by (auto simp: map_le_def dom_def)
  qed
qed

section \<open>The two updates\<close>

lemma emit_output_young:
  assumes "emit_output tokens lps ro r = Inr (out, r')"
  shows "young r' = young r \<and> request_id r' = request_id r"
proof -
  have acc: "young q = young r \<and> request_id q = request_id r"
    if "(if tokens \<noteq> [] \<and> use_structured_output r then accept_tokens tokens r else Inr r) = Inr q" for q
    using that by (auto simp: accept_tokens_def young_def split: if_splits option.splits prod.splits)
  from assms obtain q where q: "(if tokens \<noteq> [] \<and> use_structured_output r then accept_tokens tokens r else Inr r) = Inr q"
    "r' = q \<or> r' = snd (take_events q)"
    unfolding emit_output_def Let_def
    by (elim ebind_InrE) (auto simp: make_output_def res_simps split: if_splits prod.splits)
  have "young (snd (take_events q)) = young q \<and> request_id (snd (take_events q)) = request_id q"
    by (simp add: take_events_def young_def)
  then show ?thesis using q(2) acc [OF q(1)] by auto
qed

lemma free_request_ages: "free_request env x s = Inr s' \<Longrightarrow> ages s s'"
  by (auto simp: free_request_def Let_def res_simps ages_def map_le_def split: if_splits)

lemma verify_step_ages:
  assumes "verify_step cfg env sch ro x (acc, s) = Inr (acc', s')"
  shows "ages s s'"
proof (cases "sch (req_id_of s x) = 0")
  case True
  then show ?thesis using assms by (simp add: verify_step_def)
next
  case False
  define fin where "fin kept codes stopped r1 k s2 =
     (let acc1 = acc\<lparr>va_counts := fold count_code codes (va_counts acc)\<rparr>;
          acc2 = (if stopped then acc1\<lparr>va_finished := va_finished acc1 @ [req_id_of s x]\<rparr> else acc1)
      in if \<not> (spec_result (heap s x) \<noteq> Some False) then Inr (acc2, s2)
         else ebind (emit_output kept
                (if logprobs_param (params r1) \<noteq> None \<and> ro_logprobs ro then Some (k, k + 1) else None) ro (heap s2 x))
              (\<lambda>(out, r2). Inr (acc2\<lparr>va_outputs := va_outputs acc2 @ out\<rparr>, upd x (\<lambda>_. r2) s2)))"
    for kept codes and stopped :: bool and r1 :: request and k :: int and s2 :: scheduler
  have "verify_step cfg env sch ro x (acc, s) =
     ebind (map_get (req_id_to_index ro) (req_id_of s x)) (\<lambda>k.
     ebind (py_get (sampled_token_ids ro) k) (\<lambda>tokens.
     ebind (verify_loop (max_model_len cfg) tokens ((heap s x)\<lparr>num_scheduled := num_scheduled (heap s x) - 1\<rparr>))
       (\<lambda>(kept, codes, stopped, r1).
     ebind (if stopped then free_request env x (upd x (\<lambda>_. r1) s) else Inr (upd x (\<lambda>_. r1) s))
       (fin kept codes stopped r1 k))))"
    using False by (simp add: verify_step_def Let_def fin_def [abs_def])
  with assms obtain tokens kept codes stopped r1 k s2 where
    v: "verify_loop (max_model_len cfg) tokens ((heap s x)\<lparr>num_scheduled := num_scheduled (heap s x) - 1\<rparr>) =
      Inr (kept, codes, stopped, r1)"
    and f: "(if stopped then free_request env x (upd x (\<lambda>_. r1) s) else Inr (upd x (\<lambda>_. r1) s)) = Inr s2"
    and fin: "fin kept codes stopped r1 k s2 = Inr (acc', s')"
    by (auto elim!: ebind_InrE)
  have e: "s' = s2 \<or> (\<exists>lps out r2. emit_output kept lps ro (heap s2 x) = Inr (out, r2) \<and> s' = upd x (\<lambda>_. r2) s2)"
    using fin unfolding fin_def Let_def by (cases "spec_result (heap s x) \<noteq> Some False") (auto elim!: ebind_InrE)
  have r1: "request_id r1 = req_id_of s x" "young r1 \<Longrightarrow> young (heap s x)"
    using verify_loop_fields [OF v] by (auto simp: same_owner_def young_def is_finished_def split: if_splits)
  have "ages s (upd x (\<lambda>_. r1) s)" by (rule ages_upd) (fact r1)+
  moreover have "ages (upd x (\<lambda>_. r1) s) s2" using f free_request_ages by (auto split: if_splits)
  moreover have "ages s2 s'"
  proof (cases "s' = s2")
    case False
    then obtain lps out r2 where "emit_output kept lps ro (heap s2 x) = Inr (out, r2)" and s': "s' = upd x (\<lambda>_. r2) s2"
      using e by blast
    from emit_output_young [OF this(1)] show ?thesis unfolding s' by (intro ages_upd) simp_all
  qed simp
  ultimately show ?thesis by (blast intro: ages_trans)
qed

lemma verify_and_collect_ages:
  assumes "verify_and_collect cfg env sch ro xs st = Inr st'"
  shows "ages (snd st) (snd st')"
proof -
  have "res_ok True (\<lambda>p. ages (snd st) (snd p)) (efold (verify_step cfg env sch ro) xs st)"
  proof (rule efold_res_ok)
    fix x and p :: "verify_acc \<times> scheduler" assume p: "ages (snd st) (snd p)"
    show "res_ok True (\<lambda>p. ages (snd st) (snd p)) (verify_step cfg env sch ro x p)"
    proof (cases "verify_step cfg env sch ro x p")
      case (Inr q)
      obtain a s b t where "p = (a, s)" "q = (b, t)" by (metis surj_pair)
      then show ?thesis using p Inr verify_step_ages [of cfg env sch ro x a s b t] by (auto intro: ages_trans)
    qed simp
  qed simp
  then show ?thesis using assms by (simp add: verify_and_collect_def)
qed

lemma finish_outputs_ages: "finish_outputs cfg env so outs s = (o', s') \<Longrightarrow> ages s s'"
  by (auto simp: finish_outputs_def make_stats_def ages_def split: prod.splits if_splits)

lemma true_output_ages:
  assumes "update_from_true_output cfg env so ro s = Inr (outs, counts, s')"
  shows "ages s s'"
proof -
  from assms obtain st acc s2 where v: "verify_and_collect cfg env (tokens_scheduled so) ro (running_scheduled s)
      (\<lparr>va_outputs = [], va_finished = [], va_counts = [0, 0, 0, 0, 0]\<rparr>, s) = Inr st"
    "verify_and_collect cfg env (tokens_scheduled so) ro (to_be_preempted (snd st)) st = Inr (acc, s2)"
    "finish_outputs cfg env so (va_outputs acc) (fold forget_finished (va_finished acc) s2) = (outs, s')"
    unfolding update_from_true_output_def
    by (elim ebind_InrE) (auto elim!: ebind_InrE split: prod.splits)
  have "heap (fold forget_finished is s) = heap s \<and> requests (fold forget_finished is s) = requests s" for "is" s
    by (induction "is" arbitrary: s) (simp_all add: forget_finished_def)
  then have "ages s2 (fold forget_finished (va_finished acc) s2)" by (intro ages_fields) simp_all
  moreover have "ages s (snd st)" "ages (snd st) s2"
    using verify_and_collect_ages [OF v(1)] verify_and_collect_ages [OF v(2)] by simp_all
  ultimately show ?thesis using finish_outputs_ages [OF v(3)] by (blast intro: ages_trans)
qed

lemma spec_append_loop_young:
  "spec_append_loop mml i ts confs lp r = Inr r' \<Longrightarrow> young r' = young r \<and> request_id r' = request_id r"
proof (induction ts arbitrary: i r)
  case (Cons t ts)
  have app: "young (append_output_token_ids a b c q) = young q" "request_id (append_output_token_ids a b c q) = request_id q"
    for a b c q
    by (simp_all add: append_output_token_ids_def young_def Let_def split: option.splits)
  have fields: "young (q\<lparr>sp_len := n\<rparr>) = young q" "young (q\<lparr>stop_dropped := b, drop_len := n\<rparr>) = young q" for q n b
    by (simp_all add: young_def)
  from Cons.prems show ?case
    unfolding spec_append_loop.simps Let_def
    by (elim ebind_InrE) (auto dest!: Cons.IH simp: app fields split: if_splits)
qed simp

lemma spec_output_ages:
  assumes "update_from_spec_output cfg env so ro s = Inr (outs, s')"
  shows "ages s s'"
proof -
  have step: "ages s (snd st')" if "spec_update_step cfg so ro x (o', s) = Inr st'" for x o' s st'
  proof (cases "tokens_scheduled so (req_id_of s x) = 0")
    case True
    then show ?thesis using that by (auto simp: spec_update_step_def)
  next
    case False
    with that obtain tokens confs lp r1 out r2 where r: "spec_append_loop (max_model_len cfg) 0 tokens confs lp (heap s x) = Inr r1"
      "emit_output tokens None ro r1 = Inr (out, r2)" "snd st' = upd x (\<lambda>_. r2) s"
      unfolding spec_update_step_def prod.case Let_def
      by (simp only: if_False) (elim ebind_InrE, auto elim!: ebind_InrE)
    show ?thesis
      unfolding r(3) using spec_append_loop_young [OF r(1)] emit_output_young [OF r(2)] by (intro ages_upd) simp_all
  qed
  from assms obtain o' s1 where e: "efold (spec_update_step cfg so ro) (running_scheduled s) ([], s) = Inr (o', s1)"
    "finish_outputs cfg env so o' s1 = (outs, s')"
    by (auto simp: update_from_spec_output_def res_simps)
  have "res_ok True (\<lambda>p. ages s (snd p)) (efold (spec_update_step cfg so ro) (running_scheduled s) ([], s))"
  proof (rule efold_res_ok)
    fix x and p :: "engine_core_output list \<times> scheduler" assume p: "ages s (snd p)"
    show "res_ok True (\<lambda>p. ages s (snd p)) (spec_update_step cfg so ro x p)"
    proof (cases "spec_update_step cfg so ro x p")
      case (Inr q)
      then show ?thesis using p step [of x "fst p" "snd p" q] by (auto intro: ages_trans)
    qed simp
  qed simp
  then have "ages s s1" using e(1) by simp
  then show ?thesis using finish_outputs_ages [OF e(2)] by (rule ages_trans)
qed

end
