(* ===== verification/EngineCore.thy ===== *)
theory EngineCore
  imports Ageing CpuBatch "HOL-Library.Char_ord" "HOL-Library.List_Lexorder"
begin

text \<open>
  The step of the engine core (\<open>EngineCore.step_with_spexis\<close> of \<open>spexis/v1/engine/core.py\<close>), which
  ties the scheduler, the mirror of the worker's batch and the queue of the batches in flight
  together: verify the oldest batch, schedule the next, look its embeddings up, send it, and ingest
  its speculative tokens.

  What the model computes is an argument: the true output of the oldest batch and the speculative
  output of the new one. The queue of the code holds pairs of a future and a scheduler output; here
  it holds the outputs.
\<close>

section \<open>The state and the step\<close>

record engine_core =
  en_scheduler :: scheduler
  en_input_batch :: cpu_batch
  en_queue :: "scheduler_output option list"
  en_queue_size :: nat

definition init_engine :: "nat \<Rightarrow> nat \<Rightarrow> scheduler \<Rightarrow> engine_core" where
  "init_engine queue_size max_reqs s =
     \<lparr>en_scheduler = s, en_input_batch = init_cpu_batch max_reqs,
      en_queue = replicate queue_size None, en_queue_size = queue_size\<rparr>"

definition queue_put :: "scheduler_output option \<Rightarrow> engine_core \<Rightarrow> engine_core res" where
  "queue_put x e =
     ebind (raise_if (en_queue_size e \<le> length (en_queue e)) QueueFull) (\<lambda>_.
     Inr (e\<lparr>en_queue := en_queue e @ [x]\<rparr>))"

text \<open>Verification of the batch that left the pipeline.\<close>

definition engine_verify ::
  "sched_config \<Rightarrow> sched_env \<Rightarrow> runner_output \<Rightarrow> engine_core \<Rightarrow> (engine_core_outputs option \<times> engine_core) res"
where
  "engine_verify cfg env true_out e =
     (case en_queue e of
        [] \<Rightarrow> Inr (None, e)
      | None # q \<Rightarrow> Inr (None, e\<lparr>en_queue := q\<rparr>)
      | Some so # q \<Rightarrow>
          ebind (update_from_true_output cfg env so true_out (en_scheduler e)) (\<lambda>(outs, counts, s).
          Inr (Some outs, e\<lparr>en_queue := q, en_scheduler := s\<rparr>)))"

text \<open>Scheduling and sending of the next batch; nothing is sent when no token is scheduled.\<close>

definition engine_launch ::
  "sched_config \<Rightarrow> sched_env \<Rightarrow> (string set \<Rightarrow> string list) \<Rightarrow> rat list list \<Rightarrow> rat \<Rightarrow> engine_core \<Rightarrow>
   (scheduler_output option \<times> engine_core) res" where
  "engine_launch cfg env enum embed_tokens ts e =
     ebind (schedule cfg env ts (en_scheduler e)) (\<lambda>(res, s).
     (let so = sr_output res; e1 = e\<lparr>en_scheduler := s\<rparr> in
      if 0 < so_total_num_scheduled_tokens so
      then ebind (total_embedding_process enum embed_tokens (sr_resume_helper res) so (en_input_batch e1))
             (\<lambda>(so', b).
           ebind (queue_put (Some so') (e1\<lparr>en_input_batch := b\<rparr>)) (\<lambda>e2. Inr (Some so', e2)))
      else ebind (queue_put None e1) (\<lambda>e2. Inr (None, e2))))"

definition engine_ingest ::
  "sched_config \<Rightarrow> sched_env \<Rightarrow> scheduler_output option \<Rightarrow> runner_output \<Rightarrow> engine_core \<Rightarrow> engine_core res" where
  "engine_ingest cfg env sent spec_out e =
     (case sent of
        None \<Rightarrow> Inr e
      | Some so \<Rightarrow>
          ebind (update_from_spec_output cfg env so spec_out (en_scheduler e)) (\<lambda>(_, s).
          Inr (e\<lparr>en_scheduler := s\<rparr>)))"

definition step_with_spexis ::
  "sched_config \<Rightarrow> sched_env \<Rightarrow> (string set \<Rightarrow> string list) \<Rightarrow> rat list list \<Rightarrow> rat \<Rightarrow>
   runner_output \<Rightarrow> runner_output \<Rightarrow> engine_core \<Rightarrow> (engine_core_outputs option \<times> engine_core) res" where
  "step_with_spexis cfg env enum embed_tokens ts true_out spec_out e =
     ebind (engine_verify cfg env true_out e) (\<lambda>(outs, e1).
     ebind (engine_launch cfg env enum embed_tokens ts e1) (\<lambda>(sent, e2).
     ebind (engine_ingest cfg env sent spec_out e2) (\<lambda>e3.
     Inr (outs, e3))))"

text \<open>Requests from outside; multi-modal inputs and the start of grammars are left out.\<close>

definition engine_add :: "sched_config \<Rightarrow> rat \<Rightarrow> oid \<Rightarrow> engine_core \<Rightarrow> engine_core res" where
  "engine_add cfg ts x e =
     ebind (add_request cfg ts x (en_scheduler e)) (\<lambda>s. Inr (e\<lparr>en_scheduler := s\<rparr>))"

definition abort_requests :: "sched_env \<Rightarrow> string list \<Rightarrow> engine_core \<Rightarrow> engine_core res" where
  "abort_requests env ids e =
     ebind (finish_requests env ids FINISHED_ABORTED (en_scheduler e)) (\<lambda>s.
     Inr (e\<lparr>en_scheduler := s\<rparr>))"

section \<open>The invariant\<close>

text \<open>
  The mirror is well-formed, has room for all running requests, and what is in it has been
  scheduled before, if it is still known.
\<close>

definition mirror_ok :: "sched_config \<Rightarrow> scheduler \<Rightarrow> cpu_batch \<Rightarrow> bool" where
  "mirror_ok cfg s b \<longleftrightarrow> CpuBatch.batch_ok b \<and> int (cb_max b) = max_num_running_reqs cfg \<and>
     (\<forall>i \<in> batch_reqs b. \<forall>x. requests s i = Some x \<longrightarrow> \<not> young (heap s x))"

text \<open>Between two steps the queue is as long as the pipeline.\<close>

definition engine_ok :: "sched_config \<Rightarrow> engine_core \<Rightarrow> bool" where
  "engine_ok cfg e \<longleftrightarrow> mirror_ok cfg (en_scheduler e) (en_input_batch e) \<and>
     length (en_queue e) = en_queue_size e \<and> 0 < en_queue_size e"

text \<open>The scheduler is ready, and the tokens it schedules have embeddings.\<close>

definition step_ready :: "sched_config \<Rightarrow> sched_env \<Rightarrow> rat list list \<Rightarrow> rat \<Rightarrow> scheduler \<Rightarrow> bool" where
  "step_ready cfg env embed_tokens ts s \<longleftrightarrow> schedulable cfg env s \<and> finite (finished_req_ids s) \<and>
     (case schedule cfg env ts s of
        Inl err \<Rightarrow> True
      | Inr (res, s') \<Rightarrow> embeddable embed_tokens (sr_output res) (sr_resume_helper res))"

lemma mirror_ages:
  assumes "ages s s'" "mirror_ok cfg s b"
  shows "mirror_ok cfg s' b"
proof -
  have "\<not> young (heap s' x)" if "i \<in> batch_reqs b" "requests s' i = Some x" for i x
  proof -
    from that(2) assms(1) have "requests s i = Some x" by (auto simp: ages_def map_le_def dom_def)
    then show ?thesis using that(1) assms by (auto simp: ages_def mirror_ok_def)
  qed
  then show ?thesis using assms(2) by (simp add: mirror_ok_def)
qed

lemma engine_verify_ok:
  assumes "engine_ok cfg e" "engine_verify cfg env to e = Inr (outs, e')"
  shows "mirror_ok cfg (en_scheduler e') (en_input_batch e')" "Suc (length (en_queue e')) = en_queue_size e'"
proof -
  obtain x q where q: "en_queue e = x # q" using assms(1) by (cases "en_queue e") (auto simp: engine_ok_def)
  have e': "en_queue e' = q" "en_input_batch e' = en_input_batch e" "en_queue_size e' = en_queue_size e"
    "ages (en_scheduler e) (en_scheduler e')"
    using assms(2) true_output_ages by (cases x; auto simp: engine_verify_def q res_simps)+
  show "mirror_ok cfg (en_scheduler e') (en_input_batch e')"
    using mirror_ages [OF e'(4)] assms(1) e'(2) by (simp add: engine_ok_def)
  show "Suc (length (en_queue e')) = en_queue_size e'" using assms(1) e'(1,3) q by (simp add: engine_ok_def)
qed

section \<open>A launch\<close>

lemma embedded_output:
  "step_output_ok (so\<lparr>so_embeddings := x\<rparr>) b = step_output_ok so b"
  "scheduled_ids (so\<lparr>so_embeddings := x\<rparr>) = scheduled_ids so"
  by (simp_all add: step_output_ok_def scheduled_ids_def)

text \<open>The output of the scheduler fits the mirror.\<close>

lemma schedule_fits_mirror:
  assumes "schedulable cfg env s" "finite (finished_req_ids s)" "mirror_ok cfg s b"
    and "schedule cfg env ts s = Inr (res, s')"
  shows "step_output_ok (sr_output res) b"
proof -
  let ?so = "sr_output res"
  note out = schedule_output [OF assms(1,4)]
  have ids: "map fst (payloads ?so) = map nr_req_id (so_new_reqs ?so) @ map cr_req_id (so_cached_reqs ?so)"
    by (simp add: payloads_def comp_def)
  have "distinct (map fst (payloads ?so))" "set (map fst (payloads ?so)) = scheduled_ids ?so"
    "so_finished_req_ids ?so = finished_req_ids s"
    using out(3) by (simp_all add: output_ok_def scheduled_ids_def)
  moreover have "length (so_new_reqs ?so) + length (so_cached_reqs ?so) \<le> cb_max b"
    using out(6) assms(3) unfolding mirror_ok_def by linarith
  moreover have "nr_req_id d \<notin> batch_reqs b" if "d \<in> set (so_new_reqs ?so)" for d
    using out(4) that assms(3) unfolding mirror_ok_def by blast
  ultimately show ?thesis using assms(2) unfolding step_output_ok_def ids by simp
qed

text \<open>After a launch the mirror holds what runs.\<close>

lemma launched_mirror:
  assumes "schedulable cfg env s" "schedule cfg env ts s = Inr (res, s')"
    and "CpuBatch.batch_ok b" "batch_reqs b = scheduled_ids (sr_output res)" "int (cb_max b) = max_num_running_reqs cfg"
  shows "mirror_ok cfg s' b"
proof -
  let ?so = "sr_output res"
  note out = schedule_output [OF assms(1,2)]
  have "\<not> young (heap s' x)" if i: "i \<in> batch_reqs b" "requests s' i = Some x" for i x
  proof -
    have "i \<in> fst ` set (payloads ?so)"
      using i(1) assms(4) out(3) by (simp add: output_ok_def scheduled_ids_def)
    then obtain k where "(i, k) \<in> set (payloads ?so)" by auto
    then obtain y where y: "requests s' i = Some y" "y \<in> set (running_scheduled s')"
      using out(3) unfolding output_ok_def by blast
    then have "run_ok (heap s' x)" using out(2) i(2) by (simp add: sched_inv_def queues_ok_def)
    then show ?thesis by (simp add: run_ok_def young_def)
  qed
  then show ?thesis using assms(3,5) by (simp add: mirror_ok_def)
qed

text \<open>What is sent: the output of the scheduler with the embeddings of its tokens.\<close>

definition launched ::
  "sched_config \<Rightarrow> sched_env \<Rightarrow> rat list list \<Rightarrow> rat \<Rightarrow> engine_core \<Rightarrow> scheduler_output option \<Rightarrow> engine_core \<Rightarrow> bool"
where
  "launched cfg env embed_tokens ts e sent e' \<longleftrightarrow>
     (case schedule cfg env ts (en_scheduler e) of
        Inl err \<Rightarrow> False
      | Inr (res, s) \<Rightarrow>
          en_scheduler e' = s \<and> en_queue e' = en_queue e @ [sent] \<and>
          (if 0 < so_total_num_scheduled_tokens (sr_output res)
           then step_output_ok (sr_output res) (en_input_batch e) \<and>
             batch_reqs (en_input_batch e') = scheduled_ids (sr_output res) \<and>
             sent = Some ((sr_output res)\<lparr>so_embeddings := Some (map (\<lambda>t. embed_tokens ! nat t)
               (batch_tokens (sr_output res) (sr_resume_helper res) (en_input_batch e')))\<rparr>)
           else sent = None \<and> en_input_batch e' = en_input_batch e))"

lemma engine_launch_ok:
  assumes "step_ready cfg env embed_tokens ts (en_scheduler e)" "enum_strings_ok enum"
    and "mirror_ok cfg (en_scheduler e) (en_input_batch e)" "length (en_queue e) < en_queue_size e"
  shows "case engine_launch cfg env enum embed_tokens ts e of
      Inl err \<Rightarrow> enable_la_sched2 cfg
    | Inr (sent, e') \<Rightarrow> launched cfg env embed_tokens ts e sent e' \<and>
        mirror_ok cfg (en_scheduler e') (en_input_batch e') \<and> en_queue_size e' = en_queue_size e"
proof -
  let ?s = "en_scheduler e" and ?b = "en_input_batch e"
  have ready: "schedulable cfg env ?s" "finite (finished_req_ids ?s)"
    using assms(1) by (simp_all add: step_ready_def)
  show ?thesis
  proof (cases "schedule cfg env ts ?s")
    case (Inl err)
    then show ?thesis using schedule_ok [OF ready(1), of ts] by (simp add: engine_launch_def)
  next
    case (Inr r)
    obtain res s where r: "schedule cfg env ts ?s = Inr (res, s)" using Inr by (cases r) simp
    let ?so = "sr_output res"
    note out = schedule_output [OF ready(1) r]
    have room: "queue_put x e' = Inr (e'\<lparr>en_queue := en_queue e' @ [x]\<rparr>)"
      if "en_queue e' = en_queue e" "en_queue_size e' = en_queue_size e" for x e'
      using assms(4) that by (simp add: queue_put_def raise_if_def)
    show ?thesis
    proof (cases "0 < so_total_num_scheduled_tokens ?so")
      case True
      have "embeddable embed_tokens ?so (sr_resume_helper res)" using assms(1) r by (simp add: step_ready_def)
      moreover note fits = schedule_fits_mirror [OF ready assms(3) r]
      moreover have "CpuBatch.batch_ok ?b" using assms(3) by (simp add: mirror_ok_def)
      ultimately obtain b where b: "CpuBatch.batch_ok b" "batch_reqs b = scheduled_ids ?so" "cb_max b = cb_max ?b"
        "total_embedding_process enum embed_tokens (sr_resume_helper res) ?so ?b =
          Inr (?so\<lparr>so_embeddings := Some (map (\<lambda>t. embed_tokens ! nat t)
            (batch_tokens ?so (sr_resume_helper res) b))\<rparr>, b)"
        using total_embedding_ok [OF _ _ assms(2) out(5)] by blast
      have "int (cb_max b) = max_num_running_reqs cfg" using assms(3) b(3) by (simp add: mirror_ok_def)
      from launched_mirror [OF ready(1) r b(1,2) this] have "mirror_ok cfg s b" .
      then show ?thesis
        using True r b(2,4) fits by (simp add: engine_launch_def Let_def room launched_def)
    next
      case False
      then show ?thesis
        using r mirror_ages [OF out(1) assms(3)] by (simp add: engine_launch_def Let_def room launched_def)
    qed
  qed
qed

section \<open>Any sequence of steps and requests\<close>

text \<open>Ids are not used again while the mirror holds them.\<close>

inductive engine_event ::
  "sched_config \<Rightarrow> sched_env \<Rightarrow> (string set \<Rightarrow> string list) \<Rightarrow> rat list list \<Rightarrow> engine_core \<Rightarrow> engine_core \<Rightarrow> bool"
  for cfg env enum embed_tokens where
  step: "engine_verify cfg env true_out e = Inr (outs, e1) \<Longrightarrow>
    step_ready cfg env embed_tokens ts (en_scheduler e1) \<Longrightarrow>
    step_with_spexis cfg env enum embed_tokens ts true_out spec_out e = Inr (outs, e') \<Longrightarrow>
    engine_event cfg env enum embed_tokens e e'"
| add: "req_id_of (en_scheduler e) x \<notin> batch_reqs (en_input_batch e) \<Longrightarrow>
    engine_add cfg ts x e = Inr e' \<Longrightarrow> engine_event cfg env enum embed_tokens e e'"
| abort: "abort_requests env ids e = Inr e' \<Longrightarrow> engine_event cfg env enum embed_tokens e e'"

lemma engine_ingest_ok:
  assumes "engine_ingest cfg env sent spec_out e = Inr e'" "mirror_ok cfg (en_scheduler e) (en_input_batch e)"
  shows "mirror_ok cfg (en_scheduler e') (en_input_batch e') \<and> en_queue e' = en_queue e \<and>
    en_queue_size e' = en_queue_size e"
proof (cases sent)
  case (Some so)
  with assms(1) obtain outs s where s: "update_from_spec_output cfg env so spec_out (en_scheduler e) = Inr (outs, s)"
    "e' = e\<lparr>en_scheduler := s\<rparr>"
    by (auto simp: engine_ingest_def res_simps)
  then show ?thesis using mirror_ages [OF spec_output_ages [OF s(1)] assms(2)] by simp
qed (use assms in \<open>simp add: engine_ingest_def\<close>)

lemma finish_request_ages:
  assumes "finish_request env st i s = Inr s'" "status_is_finished st"
  shows "ages s s'"
proof (cases "requests s i")
  case (Some x)
  with assms(1) obtain s1 where s1': "(if status (heap s x) = RUNNING
      then Inr (s\<lparr>scheduled_req_ids := scheduled_req_ids s - {req_id_of s x}\<rparr>)
      else if x \<in> set (waiting s) then Inr (s\<lparr>waiting := remove1 x (waiting s)\<rparr>) else Inl ValueError) = Inr s1"
    and s1'': "free_request env x (upd x (\<lambda>r. r\<lparr>status := st\<rparr>) s1) = Inr s'"
    by (auto simp: finish_request_def elim!: ebind_InrE)
  have s1: "heap s1 = heap s" "requests s1 = requests s"
    "free_request env x (upd x (\<lambda>r. r\<lparr>status := st\<rparr>) s1) = Inr s'"
    using s1' s1'' by (auto split: if_splits)
  have "\<not> young (r\<lparr>status := st\<rparr>)" for r :: request using assms(2) by (cases st) (simp_all add: young_def)
  then have "ages s (upd x (\<lambda>r. r\<lparr>status := st\<rparr>) s1)" using s1(1,2) by (auto simp: ages_def)
  then show ?thesis using free_request_ages [OF s1(3)] by (rule ages_trans)
qed (use assms(1) in \<open>simp add: finish_request_def\<close>)

lemma engine_event_ok:
  assumes "engine_event cfg env enum embed_tokens e e'" "enum_strings_ok enum" "engine_ok cfg e"
  shows "engine_ok cfg e' \<and> en_queue_size e' = en_queue_size e"
  using assms(1)
proof cases
  case (step to outs e1 ts so)
  note v = engine_verify_ok [OF assms(3) step(1)]
  have size: "en_queue_size e1 = en_queue_size e"
    using step(1) by (auto simp: engine_verify_def res_simps split: list.splits option.splits)
  from step(1,3) obtain sent e2 where l: "engine_launch cfg env enum embed_tokens ts e1 = Inr (sent, e2)"
    "engine_ingest cfg env sent so e2 = Inr e'"
    by (auto simp: step_with_spexis_def res_simps)
  have "length (en_queue e1) < en_queue_size e1" using v(2) by simp
  from engine_launch_ok [OF step(2) assms(2) v(1) this] l(1) have
    "launched cfg env embed_tokens ts e1 sent e2" "mirror_ok cfg (en_scheduler e2) (en_input_batch e2)"
    "en_queue_size e2 = en_queue_size e1" by simp_all
  moreover from this(1) have "length (en_queue e2) = Suc (length (en_queue e1))"
    by (auto simp: launched_def split: sum.splits)
  ultimately show ?thesis
    using engine_ingest_ok [OF l(2)] v(2) size by (simp add: engine_ok_def)
next
  case (add x ts)
  let ?s = "en_scheduler e"
  from add(2) obtain s where s: "e' = e\<lparr>en_scheduler := s\<rparr>" "requests s = (requests ?s)(req_id_of ?s x \<mapsto> x)"
    "\<forall>y. young (heap s y) = young (heap ?s y)"
    by (auto simp: engine_add_def add_request_def res_simps Let_def)
  have "mirror_ok cfg s (en_input_batch e)"
    using assms(3) add(1) s(2,3) by (auto simp: engine_ok_def mirror_ok_def split: if_splits)
  then show ?thesis using assms(3) s(1) by (simp add: engine_ok_def)
next
  case (abort ids)
  then obtain s where s: "status_is_finished FINISHED_ABORTED"
    "efold (finish_request env FINISHED_ABORTED) ids (en_scheduler e) = Inr s" "e' = e\<lparr>en_scheduler := s\<rparr>"
    by (auto simp: abort_requests_def finish_requests_def res_simps)
  have "ages (en_scheduler e) s" by (rule efold_ages [OF finish_request_ages [OF _ s(1)] s(2)])
  then show ?thesis using assms(3) mirror_ages s(3) by (auto simp: engine_ok_def)
qed

lemma engine_reachable_ok:
  assumes "enum_strings_ok enum" "int max_reqs = max_num_running_reqs cfg" "0 < queue_size"
    and "(engine_event cfg env enum embed_tokens)\<^sup>*\<^sup>* (init_engine queue_size max_reqs s) e"
  shows "engine_ok cfg e \<and> en_queue_size e = queue_size"
  using assms(4)
proof (induction rule: rtranclp_induct)
  case base
  show ?case using assms(2,3)
    by (simp add: engine_ok_def mirror_ok_def init_engine_def init_cpu_batch_def holes_ok_def)
next
  case (step e e')
  then show ?case using engine_event_ok [OF step(2) assms(1)] by auto
qed


section \<open>Finished requests that nobody hears of\<close>

text \<open>
  The last requests to finish are never reported to the workers. When nothing waits, runs or
  drains any more, the ids of the requests that have just finished leave the scheduler with an
  output that is not sent, because it schedules no token; the workers keep their states.
\<close>

theorem finished_ids_lost:
  assumes "schedulable cfg env (en_scheduler e)" "tracked (en_scheduler e) = []"
    and "length (en_queue e) < en_queue_size e"
  shows "case engine_launch cfg env enum embed_tokens ts e of
      Inl err \<Rightarrow> enable_la_sched2 cfg
    | Inr (sent, e') \<Rightarrow> sent = None \<and> en_queue e' = en_queue e @ [None] \<and>
        finished_req_ids (en_scheduler e') = {} \<and> en_input_batch e' = en_input_batch e"
proof (cases "schedule cfg env ts (en_scheduler e)")
  case (Inl err)
  then show ?thesis using schedule_ok [OF assms(1), of ts] by (simp add: engine_launch_def)
next
  case (Inr r)
  obtain res s where r: "schedule cfg env ts (en_scheduler e) = Inr (res, s)" using Inr by (cases r) simp
  note out = schedule_output [OF assms(1) r]
  have "requests (en_scheduler e) i = None" for i
    using assms(1,2) by (cases "requests (en_scheduler e) i") (auto simp: schedulable_def sched_inv_def queues_ok_def)
  then have "requests s i = None" for i
    using out(1) by (auto simp: ages_def map_le_def dom_def intro: ccontr)
  then have "payloads (sr_output res) = []"
    using out(3) unfolding output_ok_def by (cases "payloads (sr_output res)") auto
  then have "so_num_scheduled_tokens (sr_output res) = []" using out(3) by (simp add: output_ok_def)
  then have "so_total_num_scheduled_tokens (sr_output res) = 0" using out(3) by (simp add: output_ok_def)
  then show ?thesis
    using r out(7) assms(3) by (simp add: engine_launch_def Let_def queue_put_def raise_if_def)
qed

section \<open>Samples\<close>

text \<open>A scheduler at which one request waits.\<close>

definition sample_one :: scheduler where
  "sample_one = (sample_scheduler (\<lambda>_. sample_request ''r'' [1, 2]))
     \<lparr>waiting := [0], requests := [''r'' \<mapsto> 0]\<rparr>"

lemma sample_ready:
  "case schedule sample_config sample_env 0 sample_one of
     Inl err \<Rightarrow> True
   | Inr (res, s) \<Rightarrow> embeddable (replicate 10 [0]) (sr_output res) (sr_resume_helper res)"
  by code_simp

lemma sample_one_simps:
  "heap sample_one = (\<lambda>_. sample_request ''r'' [1, 2])"
  "running_scheduled sample_one = []" "waiting sample_one = [0]"
  "to_be_preempted sample_one = []" "finished_req_ids sample_one = {}"
  "cached_reqs_data sample_one = (\<lambda>_. None)" "requests sample_one = [''r'' \<mapsto> 0]"
  "ec_cached (encoder_cache_manager sample_one) = (\<lambda>_. None)"
  by (simp_all add: sample_one_def init_encoder_cache_def)

lemma sample_one_kv:
  "sp_ok (kv_cache_manager sample_one)" "req_to_blocks (kv_cache_manager sample_one) = (\<lambda>_. [])"
  "max_num_blocks_per_req (kv_cache_manager sample_one) = 50"
  "block_size (kv_cache_manager sample_one) = 2"
  using sample_scheduler_init [of "\<lambda>_. sample_request ''r'' [1, 2]"] by (auto simp: sample_one_def)

lemma sample_one_schedulable: "schedulable sample_config sample_env sample_one"
proof -
  have "cdiv 100 2 = 50" by (simp add: cdiv_def)
  then have "resources_ok sample_config {} sample_one"
    by (simp add: resources_ok_def sample_one_kv sample_one_simps sample_config_def)
  moreover have "queues_ok {} sample_one"
    by (auto simp: queues_ok_def tracked_def sample_one_simps wait_ok_def)
  ultimately have "sched_ok sample_config sample_one" by (simp add: sched_inv_def)
  moreover have "request_fits sample_config (sample_request ''r'' [1, 2])"
    by (simp add: request_fits_def correction_ok_def sample_no_grammar num_tokens_def
        num_tokens_with_spec_def sample_config_def)
  then have "all_fit sample_config {} sample_one"
    by (simp add: all_fit_def tracked_def sample_one_simps)
  moreover have "confidences_ok sample_config sample_env sample_one"
    by (simp add: confidences_ok_def sample_one_simps sample_config_def)
  ultimately show ?thesis
    by (simp add: schedulable_def sample_one_simps) (simp add: sample_config_def)
qed

lemma sample_step_ready: "step_ready sample_config sample_env (replicate 10 [0]) 0 sample_one"
  using sample_one_schedulable sample_ready
  by (simp add: step_ready_def sample_one_simps)

definition sample_engine :: engine_core where
  "sample_engine = init_engine 2 4 sample_one"


text \<open>A scheduler at which nothing is left but the id of a request that has just finished.\<close>

definition sample_done :: scheduler where
  "sample_done = (sample_scheduler (\<lambda>_. sample_request ''r'' [1, 2]))\<lparr>finished_req_ids := {''r''}\<rparr>"

lemma sample_done_simps:
  "running_scheduled sample_done = []" "waiting sample_done = []"
  "to_be_preempted sample_done = []" "finished_req_ids sample_done = {''r''}"
  "cached_reqs_data sample_done = (\<lambda>_. None)" "requests sample_done = (\<lambda>_. None)"
  "ec_cached (encoder_cache_manager sample_done) = (\<lambda>_. None)"
  by (simp_all add: sample_done_def init_encoder_cache_def)

lemma sample_done_kv:
  "sp_ok (kv_cache_manager sample_done)" "req_to_blocks (kv_cache_manager sample_done) = (\<lambda>_. [])"
  "max_num_blocks_per_req (kv_cache_manager sample_done) = 50"
  "block_size (kv_cache_manager sample_done) = 2"
  using sample_scheduler_init [of "\<lambda>_. sample_request ''r'' [1, 2]"] by (auto simp: sample_done_def)

lemma sample_done_schedulable: "schedulable sample_config sample_env sample_done"
proof -
  have "cdiv 100 2 = 50" by (simp add: cdiv_def)
  then have "resources_ok sample_config {} sample_done"
    by (simp add: resources_ok_def sample_done_kv sample_done_simps sample_config_def)
  moreover have "queues_ok {} sample_done"
    by (auto simp: queues_ok_def tracked_def sample_done_simps)
  ultimately have "sched_ok sample_config sample_done" by (simp add: sched_inv_def)
  moreover have "all_fit sample_config {''r''} sample_done"
    by (simp add: all_fit_def tracked_def sample_done_simps)
  moreover have "confidences_ok sample_config sample_env sample_done"
    by (simp add: confidences_ok_def sample_done_simps sample_config_def)
  ultimately show ?thesis
    by (simp add: schedulable_def sample_done_simps) (simp add: sample_config_def)
qed

theorem finished_ids_lost_witness:
  "\<exists>e'. engine_launch sample_config sample_env sorted_list_of_set [] 0
      ((init_engine 2 4 sample_done)\<lparr>en_queue := [None]\<rparr>) = Inr (None, e') \<and>
    finished_req_ids sample_done = {''r''} \<and> finished_req_ids (en_scheduler e') = {}"
proof -
  let ?e = "(init_engine 2 4 sample_done)\<lparr>en_queue := [None]\<rparr>"
  have "schedulable sample_config sample_env (en_scheduler ?e)"
    using sample_done_schedulable by (simp add: init_engine_def)
  moreover have "tracked (en_scheduler ?e) = []"
    by (simp add: init_engine_def tracked_def sample_done_simps)
  moreover have "length (en_queue ?e) < en_queue_size ?e" by (simp add: init_engine_def)
  moreover have "\<not> enable_la_sched2 sample_config" by (simp add: sample_config_def)
  ultimately show ?thesis
    using finished_ids_lost [of sample_config sample_env ?e sorted_list_of_set "[]" 0]
    by (cases "engine_launch sample_config sample_env sorted_list_of_set [] 0 ?e")
      (auto simp: sample_done_simps)
qed

end
