(* ===== verification/Sampler.thy ===== *)
theory Sampler
  imports NumpyOps
begin

text \<open>
  Sampling (\<open>spexis/v1/sample/sampler.py\<close> and \<open>spexis/v1/sample/ops\<close>): the logits of a step are masked,
  biased and penalised, filtered by min-p, top-k and top-p, and a token is drawn for each request.

  A tensor is a list of rows. A logit is a rational or an infinity; arithmetic on logits is exact.
  The softmax of the tensor library, the order in which its sort puts equal elements and the
  exponential noise are arguments. Not-a-number is left out: it needs an infinity times zero, or a
  softmax of a row that holds no finite logit or a positive infinity, of which nothing is assumed.
\<close>

section \<open>Logits\<close>

datatype logit = NegInf | Fin rat | PosInf

fun logit_le :: "logit \<Rightarrow> logit \<Rightarrow> bool" where
  "logit_le NegInf y = True"
| "logit_le x PosInf = True"
| "logit_le (Fin a) (Fin b) = (a \<le> b)"
| "logit_le x y = False"

instantiation logit :: linorder
begin

definition less_eq_logit :: "logit \<Rightarrow> logit \<Rightarrow> bool" where
  "less_eq_logit x y \<longleftrightarrow> logit_le x y"

definition less_logit :: "logit \<Rightarrow> logit \<Rightarrow> bool" where
  "less_logit x y \<longleftrightarrow> \<not> logit_le y x"

instance
proof
  fix x y z :: logit
  show "(x < y) = (x \<le> y \<and> \<not> y \<le> x)"
    by (cases x; cases y) (auto simp: less_eq_logit_def less_logit_def)
  show "x \<le> x" by (cases x) (auto simp: less_eq_logit_def)
  show "x \<le> z" if "x \<le> y" "y \<le> z"
    using that by (cases x; cases y; cases z) (auto simp: less_eq_logit_def)
  show "x = y" if "x \<le> y" "y \<le> x" using that by (cases x; cases y) (auto simp: less_eq_logit_def)
  show "x \<le> y \<or> y \<le> x" by (cases x; cases y) (auto simp: less_eq_logit_def)
qed

end

lemma logit_order_simps [simp]:
  "NegInf \<le> x" "x \<le> PosInf" "Fin a \<le> Fin b \<longleftrightarrow> a \<le> b" "Fin a < Fin b \<longleftrightarrow> a < b" "\<not> x < NegInf"
  "\<not> PosInf < x" "x \<le> NegInf \<longleftrightarrow> x = NegInf" "PosInf \<le> x \<longleftrightarrow> x = PosInf" "NegInf < x \<longleftrightarrow> x \<noteq> NegInf"
  by (cases x; auto simp: less_eq_logit_def less_logit_def)+

fun l_add :: "logit \<Rightarrow> rat \<Rightarrow> logit" where
  "l_add (Fin a) b = Fin (a + b)"
| "l_add x b = x"

fun l_mul :: "logit \<Rightarrow> rat \<Rightarrow> logit" where
  "l_mul (Fin a) b = Fin (a * b)"
| "l_mul NegInf b = (if b < 0 then PosInf else NegInf)"
| "l_mul PosInf b = (if b < 0 then NegInf else PosInf)"

definition l_div :: "logit \<Rightarrow> rat \<Rightarrow> logit" where
  "l_div x b = l_mul x (1 / b)"

lemma l_add_NegInf [simp]: "l_add x b = NegInf \<longleftrightarrow> x = NegInf"
  by (cases x) simp_all

lemma l_mul_NegInf [simp]: "0 < b \<Longrightarrow> l_mul x b = NegInf \<longleftrightarrow> x = NegInf"
  by (cases x) simp_all

lemma l_div_NegInf [simp]: "0 < b \<Longrightarrow> l_div x b = NegInf \<longleftrightarrow> x = NegInf"
  by (simp add: l_div_def)

section \<open>What the sampler is told\<close>

text \<open>
  \<open>SamplingMetadata\<close>; a dictionary from row indices is an association list, and a set of stop
  tokens the list of its elements.
\<close>

record sampler_metadata =
  me_temperature :: "rat list option"
  me_all_greedy :: bool
  me_all_random :: bool
  me_top_p :: "rat list option"
  me_top_k :: "int list option"
  me_min_p :: "rat list option"
  me_max_num_logprobs :: "nat option"
  me_no_penalties :: bool
  me_prompt_token_ids :: "int list list option"
  me_frequency :: "rat list"
  me_presence :: "rat list"
  me_repetition :: "rat list"
  me_output_token_ids :: "int list list"
  me_min_tokens :: "(int \<times> int \<times> int list) list"
  me_logit_bias :: "(int \<times> rat) list option list"
  me_allowed_mask :: "bool list list option"
  me_bad_words :: "(int \<times> int list list) list"

section \<open>Masks, bias and penalties\<close>

definition apply_allowed_token_ids :: "sampler_metadata \<Rightarrow> logit list list \<Rightarrow> logit list list" where
  "apply_allowed_token_ids m logits =
     (case me_allowed_mask m of
        None \<Rightarrow> logits
      | Some banned \<Rightarrow> map2 (map2 (\<lambda>b x. if b then NegInf else x)) banned logits)"

definition ban_word :: "int list \<Rightarrow> int list \<Rightarrow> logit list \<Rightarrow> logit list res" where
  "ban_word past word row =
     (if length past + 1 < length word then Inr row
      else let prefix_length = length word - 1 in
        ebind (py_get word (- 1)) (\<lambda>final.
        let actual = (if 0 < prefix_length then py_from past (- int prefix_length) else []);
            expected = take prefix_length word in
        ebind (py_assert (length actual = length expected)) (\<lambda>_.
        if actual = expected then py_set row final NegInf else Inr row)))"

definition apply_bad_words :: "(int \<times> int list list) list \<Rightarrow> int list list \<Rightarrow> logit list list \<Rightarrow> logit list list res" where
  "apply_bad_words bad past =
     efold (\<lambda>(i, words) logits.
       ebind (py_get logits i) (\<lambda>row.
       ebind (py_get past i) (\<lambda>p.
       ebind (efold (ban_word p) words row) (\<lambda>row'.
       py_set logits i row')))) bad"

definition bias_row :: "(int \<times> rat) list \<Rightarrow> logit list \<Rightarrow> logit list res" where
  "bias_row bias row =
     efold (\<lambda>(t, b) r.
       ebind (raise_if (t < 0 \<or> py_len row \<le> t) ValueError) (\<lambda>_.
       Inr (r[nat t := l_add (r ! nat t) b]))) bias row"

definition apply_logits_bias :: "(int \<times> rat) list option list \<Rightarrow> logit list list \<Rightarrow> logit list list res" where
  "apply_logits_bias biases logits =
     efold (\<lambda>(i, bias) ls.
       (case bias of
          None \<Rightarrow> Inr ls
        | Some b \<Rightarrow> if b = [] then Inr ls
            else ebind (py_get ls (int i)) (\<lambda>row. ebind (bias_row b row) (\<lambda>row'. py_set ls (int i) row'))))
       (zip [0..<length biases] biases) logits"

text \<open>All stop tokens of requests whose output is too short, in one indexed assignment.\<close>

definition ban_token :: "int \<times> int \<Rightarrow> logit list list \<Rightarrow> logit list list res" where
  "ban_token = (\<lambda>(i, t) logits.
     ebind (py_get logits i) (\<lambda>row. ebind (py_set row t NegInf) (\<lambda>row'. py_set logits i row')))"

definition apply_min_token_penalties ::
  "int list list \<Rightarrow> (int \<times> int \<times> int list) list \<Rightarrow> logit list list \<Rightarrow> logit list list res" where
  "apply_min_token_penalties outputs min_tokens logits =
     ebind (efold (\<lambda>(i, n, stops) pairs.
         ebind (py_get outputs i) (\<lambda>out.
         Inr (if py_len out < n then pairs @ map (Pair i) stops else pairs))) min_tokens []) (\<lambda>pairs.
     efold ban_token pairs logits)"

text \<open>How often each token of the vocabulary occurs; padding counts in a bin that is cut off.\<close>

definition bin_counts :: "nat \<Rightarrow> int list \<Rightarrow> nat list res" where
  "bin_counts vocab tokens =
     ebind (raise_if (\<exists>t \<in> set tokens. t < 0 \<or> int vocab < t) RuntimeError) (\<lambda>_.
     Inr (map (\<lambda>v. count_list tokens (int v)) [0..<vocab]))"

definition penalise :: "rat \<Rightarrow> rat \<Rightarrow> rat \<Rightarrow> bool \<Rightarrow> nat \<Rightarrow> logit \<Rightarrow> logit" where
  "penalise presence frequency repetition prompted n x =
     (let r = (if prompted \<or> 0 < n then repetition else 1);
          x1 = (if Fin 0 < x then l_div x r else x);
          x2 = (if x1 \<le> Fin 0 then l_mul x1 r else x1);
          x3 = l_add x2 (- (frequency * of_nat n)) in
      l_add x3 (- (presence * (if 0 < n then 1 else 0))))"

definition penalise_row ::
  "int list \<Rightarrow> int list \<Rightarrow> rat \<Rightarrow> rat \<Rightarrow> rat \<Rightarrow> logit list \<Rightarrow> logit list res" where
  "penalise_row prompt output presence frequency repetition row =
     ebind (bin_counts (length row) prompt) (\<lambda>ps.
     ebind (bin_counts (length row) output) (\<lambda>ns.
     Inr (map (\<lambda>(p, n, x). penalise presence frequency repetition (0 < p) n x) (zip ps (zip ns row)))))"

text \<open>\<open>make_tensor_with_pad\<close> pads at the end.\<close>

definition pad_rows :: "'a \<Rightarrow> 'a list list \<Rightarrow> 'a list list" where
  "pad_rows pad xs =
     (let n = Max (insert 0 (length ` set xs)) in map (\<lambda>x. x @ replicate (n - length x) pad) xs)"

definition apply_all_penalties ::
  "int list list \<Rightarrow> rat list \<Rightarrow> rat list \<Rightarrow> rat list \<Rightarrow> int list list \<Rightarrow> logit list list \<Rightarrow> logit list list res"
where
  "apply_all_penalties prompts presence frequency repetition outputs logits =
     emap (\<lambda>(row, p, out, pr, fr, re). penalise_row p out pr fr re row)
       (zip logits (zip prompts (zip (pad_rows (case logits of [] \<Rightarrow> 0 | row # _ \<Rightarrow> py_len row) outputs)
         (zip presence (zip frequency repetition)))))"

definition sampler_penalties :: "sampler_metadata \<Rightarrow> logit list list \<Rightarrow> logit list list res" where
  "sampler_penalties m logits =
     ebind (if me_min_tokens m = [] then Inr logits
            else apply_min_token_penalties (me_output_token_ids m) (me_min_tokens m) logits) (\<lambda>ls.
     if me_no_penalties m then Inr ls
     else (case me_prompt_token_ids m of
             None \<Rightarrow> Inl AssertionError
           | Some prompts \<Rightarrow> apply_all_penalties prompts (me_presence m) (me_frequency m)
               (me_repetition m) (me_output_token_ids m) ls))"

definition process_logits :: "sampler_metadata \<Rightarrow> logit list list \<Rightarrow> logit list list res" where
  "process_logits m logits =
     ebind (if me_bad_words m = [] then Inr (apply_allowed_token_ids m logits)
            else apply_bad_words (me_bad_words m) (me_output_token_ids m) (apply_allowed_token_ids m logits)) (\<lambda>ls.
     ebind (apply_logits_bias (me_logit_bias m) ls) (\<lambda>ls.
     sampler_penalties m ls))"

section \<open>Filters\<close>

text \<open>The largest \<open>k\<close> values in descending order, and the first of the largest.\<close>

definition topk_values :: "nat \<Rightarrow> 'a :: linorder list \<Rightarrow> 'a list" where
  "topk_values k xs = take k (rev (sort xs))"

definition argmax :: "'a :: linorder list \<Rightarrow> nat" where
  "argmax xs = length (takeWhile (\<lambda>x. x \<noteq> Max (set xs)) xs)"

definition mask_below :: "logit \<Rightarrow> logit list \<Rightarrow> logit list" where
  "mask_below c row = map (\<lambda>x. if x < c then NegInf else x) row"

definition top_k_only_row :: "int \<Rightarrow> logit list \<Rightarrow> logit list res" where
  "top_k_only_row k row =
     (let whole = (k = py_len row); k1 = (if whole then 1 else k) in
      ebind (py_get (topk_values (nat k1) row) (k1 - 1)) (\<lambda>c.
      Inr (mask_below (if whole then NegInf else c) row)))"

definition min_p_row :: "(logit list \<Rightarrow> rat list) \<Rightarrow> rat \<Rightarrow> logit list \<Rightarrow> logit list" where
  "min_p_row softmax min_p row =
     (let ps = softmax row; c = min_p * Max (set ps) in
      map2 (\<lambda>p x. if c \<le> p then x else NegInf) ps row)"

text \<open>Running sums, and the mask of the smallest probabilities that together do not exceed \<open>1 - p\<close>.\<close>

fun sums_from :: "rat \<Rightarrow> rat list \<Rightarrow> rat list" where
  "sums_from a [] = []"
| "sums_from a (x # xs) = (a + x) # sums_from (a + x) xs"

definition top_p_mask :: "rat \<Rightarrow> rat list \<Rightarrow> bool list" where
  "top_p_mask p probs = (map (\<lambda>c. c \<le> 1 - p) (sums_from 0 probs))[length probs - 1 := False]"

text \<open>
  The row is sorted in ascending order, masked, and scattered back. \<open>argsort\<close> is the order in which
  the library sorts the row.
\<close>

definition scatter :: "nat list \<Rightarrow> 'a list \<Rightarrow> 'a list \<Rightarrow> 'a list" where
  "scatter idx src row = fold (\<lambda>(i, x) r. r[i := x]) (zip idx src) row"

definition top_k_mask_sorted :: "int option \<Rightarrow> logit list \<Rightarrow> logit list res" where
  "top_k_mask_sorted k asc =
     (case k of
        None \<Rightarrow> Inr asc
      | Some k \<Rightarrow> ebind (py_get asc (py_len asc - k)) (\<lambda>c. Inr (mask_below c asc)))"

definition top_p_mask_sorted :: "(logit list \<Rightarrow> rat list) \<Rightarrow> rat \<Rightarrow> logit list \<Rightarrow> logit list" where
  "top_p_mask_sorted softmax p asc =
     map2 (\<lambda>b x. if b then NegInf else x) (top_p_mask p (softmax asc)) asc"

definition top_k_top_p_row ::
  "(logit list \<Rightarrow> rat list) \<Rightarrow> (logit list \<Rightarrow> nat list) \<Rightarrow> int option \<Rightarrow> rat option \<Rightarrow> logit list \<Rightarrow> logit list res"
where
  "top_k_top_p_row softmax argsort k p row =
     (case p of
        None \<Rightarrow> (case k of None \<Rightarrow> Inr row | Some k \<Rightarrow> top_k_only_row k row)
      | Some p \<Rightarrow>
          (let idx = argsort row; asc = map ((!) row) idx in
           ebind (top_k_mask_sorted k asc) (\<lambda>s.
           Inr (scatter idx (top_p_mask_sorted softmax p s) row))))"

text \<open>Columns of the metadata, one entry for each row.\<close>

definition column :: "'a list option \<Rightarrow> nat \<Rightarrow> 'a option list" where
  "column c n = (case c of None \<Rightarrow> replicate n None | Some xs \<Rightarrow> map Some xs)"

definition apply_top_k_top_p ::
  "(logit list \<Rightarrow> rat list) \<Rightarrow> (logit list \<Rightarrow> nat list) \<Rightarrow> int list option \<Rightarrow> rat list option \<Rightarrow>
   logit list list \<Rightarrow> logit list list res" where
  "apply_top_k_top_p softmax argsort k p logits =
     emap (\<lambda>(row, k, p). top_k_top_p_row softmax argsort k p row)
       (zip logits (zip (column k (length logits)) (column p (length logits))))"

text \<open>The variant without scatter, which keeps all elements that tie with the last one kept.\<close>

definition top_p_cutoff_row :: "(logit list \<Rightarrow> rat list) \<Rightarrow> rat \<Rightarrow> logit list \<Rightarrow> logit list res" where
  "top_p_cutoff_row softmax p row =
     (let ps = softmax row; asc = sort ps; dropped = length (filter id (top_p_mask p asc)) in
      ebind (py_get asc (int dropped)) (\<lambda>c.
      Inr (map2 (\<lambda>q x. if q < c then NegInf else x) ps row)))"

definition top_k_top_p_tpu_row ::
  "(logit list \<Rightarrow> rat list) \<Rightarrow> int option \<Rightarrow> rat option \<Rightarrow> logit list \<Rightarrow> logit list res" where
  "top_k_top_p_tpu_row softmax k p row =
     ebind (case k of None \<Rightarrow> Inr row | Some k \<Rightarrow> top_k_only_row k row) (\<lambda>r.
     case p of None \<Rightarrow> Inr r | Some p \<Rightarrow> top_p_cutoff_row softmax p r)"

section \<open>Drawing a token\<close>

text \<open>The exponential race: the largest probability divided by its noise.\<close>

definition random_sample_row :: "rat list \<Rightarrow> rat list \<Rightarrow> nat" where
  "random_sample_row probs noise = argmax (map2 (/) probs noise)"

definition sampling_eps_v1 :: rat where
  "sampling_eps_v1 = 1 / 100000"

definition sample_tokens ::
  "(logit list \<Rightarrow> rat list) \<Rightarrow> (logit list \<Rightarrow> nat list) \<Rightarrow> rat list list \<Rightarrow> sampler_metadata \<Rightarrow>
   logit list list \<Rightarrow> nat list res" where
  "sample_tokens softmax argsort noise m logits =
     ebind (py_assert (\<not> (me_all_greedy m \<and> me_all_random m))) (\<lambda>_.
     (let greedy = map argmax logits in
      if me_all_greedy m then Inr greedy
      else (case me_temperature m of
        None \<Rightarrow> Inl AssertionError
      | Some temps \<Rightarrow>
          let scaled = map2 (\<lambda>t row. map (\<lambda>x. l_div x t) row) temps logits;
              filtered = (case me_min_p m of
                 None \<Rightarrow> scaled
               | Some ps \<Rightarrow> map2 (min_p_row softmax) ps scaled) in
          ebind (apply_top_k_top_p softmax argsort (me_top_k m) (me_top_p m) filtered) (\<lambda>ls.
          let random = map2 (\<lambda>row q. random_sample_row (softmax row) q) ls noise in
          Inr (if me_all_random m then random
               else map2 (\<lambda>t (g, r). if t < sampling_eps_v1 then g else r) temps (zip greedy random))))))"

text \<open>The log probabilities of a row: the sampled token first, then the largest.\<close>

definition topk_indices :: "nat \<Rightarrow> 'a :: linorder list \<Rightarrow> nat list" where
  "topk_indices k xs = take k (rev (sort_key (\<lambda>i. xs ! i) (rev [0..<length xs])))"

definition gather_logprobs_row :: "nat \<Rightarrow> rat list \<Rightarrow> nat \<Rightarrow> (nat list \<times> rat list \<times> nat) res" where
  "gather_logprobs_row n logprobs token =
     ebind (raise_if (length logprobs < n) RuntimeError) (\<lambda>_.
     ebind (py_get logprobs (int token)) (\<lambda>lp.
     Inr (token # topk_indices n logprobs, lp # map ((!) logprobs) (topk_indices n logprobs),
          length (filter (\<lambda>x. lp \<le> x) logprobs))))"

record sampler_output =
  sa_sampled_token_ids :: "nat list list"
  sa_logprobs :: "(nat list \<times> rat list \<times> nat) list option"

definition sampler_forward ::
  "(logit list \<Rightarrow> rat list) \<Rightarrow> (logit list \<Rightarrow> rat list) \<Rightarrow> (logit list \<Rightarrow> nat list) \<Rightarrow> rat list list \<Rightarrow>
   sampler_metadata \<Rightarrow> logit list list \<Rightarrow> sampler_output res" where
  "sampler_forward softmax log_softmax argsort noise m logits =
     ebind (process_logits m logits) (\<lambda>ls.
     ebind (sample_tokens softmax argsort noise m ls) (\<lambda>sampled.
     ebind (case me_max_num_logprobs m of
              None \<Rightarrow> Inr None
            | Some n \<Rightarrow> ebind (emap (\<lambda>(row, t). gather_logprobs_row n (log_softmax row) t) (zip logits sampled))
                (\<lambda>lps. Inr (Some lps))) (\<lambda>lps.
     Inr \<lparr>sa_sampled_token_ids = map (\<lambda>t. [t]) sampled, sa_logprobs = lps\<rparr>)))"

end
