(* ===== verification/SamplerOk.thy ===== *)
theory SamplerOk
  imports Sampler "HOL-Library.Sublist"
begin

text \<open>
  What sampling guarantees: whatever the noise, the token drawn for a request is one that its masks
  permit. Masking and biasing only take tokens away, and every filter leaves the most likely token.
\<close>

section \<open>Steps that only take tokens away\<close>

definition fades :: "logit list \<Rightarrow> logit list \<Rightarrow> bool" where
  "fades = list_all2 (\<lambda>x y. x = NegInf \<longrightarrow> y = NegInf)"

definition narrows :: "logit list list \<Rightarrow> logit list list \<Rightarrow> bool" where
  "narrows = list_all2 fades"

lemma fades_refl [simp]: "fades r r"
  by (simp add: fades_def list_all2_refl)

lemma narrows_refl [simp]: "narrows ls ls"
  by (simp add: narrows_def list_all2_refl)

lemma fades_trans: "fades r s \<Longrightarrow> fades s t \<Longrightarrow> fades r t"
  unfolding fades_def by (rule list_all2_trans [where ?P2.0 = "\<lambda>x y. x = NegInf \<longrightarrow> y = NegInf"]) auto

lemma narrows_trans: "narrows ls ms \<Longrightarrow> narrows ms ns \<Longrightarrow> narrows ls ns"
  unfolding narrows_def by (rule list_all2_trans [where ?P2.0 = fades]) (auto intro: fades_trans)

lemma fades_length: "fades r s \<Longrightarrow> length s = length r"
  by (simp add: fades_def list_all2_lengthD)

lemma fades_nth: "fades r s \<Longrightarrow> t < length r \<Longrightarrow> r ! t = NegInf \<Longrightarrow> s ! t = NegInf"
  by (auto simp: fades_def list_all2_conv_all_nth)

lemma narrows_length: "narrows ls ms \<Longrightarrow> length ms = length ls"
  by (simp add: narrows_def list_all2_lengthD)

lemma narrows_nth: "narrows ls ms \<Longrightarrow> i < length ls \<Longrightarrow> fades (ls ! i) (ms ! i)"
  by (simp add: narrows_def list_all2_nthD)

lemma fades_update: "fades r (r[t := NegInf])"
  by (cases "t < length r") (auto simp: fades_def list_all2_conv_all_nth nth_list_update list_update_beyond)

lemma narrows_update: "fades (ls ! i) r \<Longrightarrow> narrows ls (ls[i := r])"
  by (cases "i < length ls") (auto simp: narrows_def list_all2_conv_all_nth nth_list_update list_update_beyond)

text \<open>A loop of such steps keeps what each step achieves.\<close>

lemma efold_achieves:
  assumes "I s" and step: "\<And>x s. x \<in> set xs \<Longrightarrow> I s \<Longrightarrow> \<exists>t. f x s = Inr t \<and> R s t \<and> I t \<and> Q x t"
    and keep: "\<And>x s t. R s t \<Longrightarrow> I s \<Longrightarrow> Q x s \<Longrightarrow> Q x t"
    and refl: "\<And>s. R s s" and trans: "\<And>s t u. R s t \<Longrightarrow> R t u \<Longrightarrow> R s u"
  shows "\<exists>t. efold f xs s = Inr t \<and> R s t \<and> I t \<and> (\<forall>x \<in> set xs. Q x t)"
  using assms(1) step
proof (induction xs arbitrary: s)
  case Nil
  then show ?case using refl by simp
next
  case (Cons x xs)
  obtain u where u: "f x s = Inr u" "R s u" "I u" "Q x u"
    using Cons.prems(2) [OF list.set_intros(1) Cons.prems(1)] by blast
  obtain t where t: "efold f xs u = Inr t" "R u t" "I t" "\<forall>x \<in> set xs. Q x t"
    using Cons.IH [OF u(3) Cons.prems(2) [OF list.set_intros(2)]] by blast
  have "efold f (x # xs) s = Inr t" using u(1) t(1) by simp
  moreover have "R s t" using u(2) t(2) by (rule trans)
  moreover have "\<forall>y \<in> set (x # xs). Q y t" using t(4) keep [OF t(2) u(3,4)] by simp
  ultimately show ?case using t(3) by blast
qed

lemma efold_keeps:
  assumes "I s" and step: "\<And>x s. x \<in> set xs \<Longrightarrow> I s \<Longrightarrow> \<exists>t. f x s = Inr t \<and> R s t \<and> I t"
    and refl: "\<And>s. R s s" and trans: "\<And>s t u. R s t \<Longrightarrow> R t u \<Longrightarrow> R s u"
  shows "\<exists>t. efold f xs s = Inr t \<and> R s t \<and> I t"
  using efold_achieves [of I s xs f R "\<lambda>_ _. True"] assms by blast

text \<open>All rows of a tensor are as long as the vocabulary.\<close>

definition shaped :: "nat \<Rightarrow> nat \<Rightarrow> logit list list \<Rightarrow> bool" where
  "shaped n vocab ls \<longleftrightarrow> length ls = n \<and> (\<forall>r \<in> set ls. length r = vocab)"

lemma shaped_nth: "shaped n vocab ls \<Longrightarrow> i < n \<Longrightarrow> length (ls ! i) = vocab"
  by (simp add: shaped_def)

lemma shaped_narrows: "shaped n vocab ls \<Longrightarrow> narrows ls ms \<Longrightarrow> shaped n vocab ms"
  using narrows_length [of ls ms] narrows_nth [of ls ms] fades_length
  by (fastforce simp: shaped_def in_set_conv_nth)

lemma shaped_update: "shaped n vocab ls \<Longrightarrow> length r = vocab \<Longrightarrow> shaped n vocab (ls[i := r])"
  by (auto simp: shaped_def dest: set_update_subset_insert [THEN subsetD])

lemma py_set_nonneg: "0 \<le> i \<Longrightarrow> i < py_len xs \<Longrightarrow> py_set xs i v = Inr (xs[nat i := v])"
  by (simp add: py_set_def py_index_def py_len_def Let_def)

text \<open>A step on one row.\<close>

lemma row_step:
  assumes "shaped n vocab ls" "0 \<le> i" "i < int n" "f (ls ! nat i) = Inr r" "fades (ls ! nat i) r"
  shows "ebind (py_get ls i) (\<lambda>row. ebind (f row) (\<lambda>row'. py_set ls i row')) = Inr (ls[nat i := r])"
    "narrows ls (ls[nat i := r])" "shaped n vocab (ls[nat i := r])" "ls[nat i := r] ! nat i = r"
proof -
  have len: "py_len ls = int n" using assms(1) by (simp add: shaped_def py_len_def)
  then show "ebind (py_get ls i) (\<lambda>row. ebind (f row) (\<lambda>row'. py_set ls i row')) = Inr (ls[nat i := r])"
    using assms(2-4) by (simp add: py_get_nonneg py_set_nonneg py_len_def)
  show n: "narrows ls (ls[nat i := r])" by (rule narrows_update [OF assms(5)])
  show "shaped n vocab (ls[nat i := r])" by (rule shaped_narrows [OF assms(1) n])
  show "ls[nat i := r] ! nat i = r" using assms(2,3) len by (simp add: py_len_def)
qed

section \<open>What is forbidden\<close>

text \<open>A word is completed by the token when the output ends with it.\<close>

definition completes :: "int list \<Rightarrow> int list \<Rightarrow> int \<Rightarrow> bool" where
  "completes past word t \<longleftrightarrow> word \<noteq> [] \<and> suffix word (past @ [t])"

lemma ban_word_ok:
  assumes "word \<noteq> []" "\<forall>t \<in> set word. 0 \<le> t \<and> t < py_len row"
  shows "\<exists>row'. ban_word past word row = Inr row' \<and> fades row row' \<and>
    (\<forall>t. completes past word t \<longrightarrow> row' ! nat t = NegInf)"
proof (cases "length past + 1 < length word")
  case True
  then have "\<not> completes past word t" for t using suffix_length_le by (fastforce simp: completes_def)
  then show ?thesis using True by (simp add: ban_word_def)
next
  case False
  obtain w l where w: "word = w @ [l]" using assms(1) by (cases word rule: rev_cases) auto
  then have le: "length w \<le> length past" using False by simp
  have actual: "(if 0 < length w then py_from past (- int (length w)) else []) = drop (length past - length w) past"
    using le by (simp add: py_from_def py_clamp_def nat_diff_distrib')
  have "suffix w past \<longleftrightarrow> drop (length past - length w) past = w"
    by (auto simp: suffix_def) (metis append_take_drop_id)
  then have ends: "completes past word t \<longleftrightarrow> t = l \<and> drop (length past - length w) past = w" for t
    by (auto simp: completes_def w snoc_suffix_snoc)
  have "ban_word past word row =
      (if drop (length past - length w) past = w then py_set row l NegInf else Inr row)"
    using False le by (simp add: ban_word_def w actual [simplified])
  moreover have "py_set row l NegInf = Inr (row[nat l := NegInf])" "nat l < length row"
    using assms(2) by (simp_all add: w py_set_nonneg py_len_def nat_less_iff)
  ultimately show ?thesis using ends fades_update by auto
qed

text \<open>What a dictionary of rows and words asks for.\<close>

definition words_banned :: "int list list \<Rightarrow> int \<times> int list list \<Rightarrow> logit list list \<Rightarrow> bool" where
  "words_banned past iw ls \<longleftrightarrow>
     (\<forall>w \<in> set (snd iw). \<forall>t. completes (past ! nat (fst iw)) w t \<longrightarrow> ls ! nat (fst iw) ! nat t = NegInf)"

definition words_ok :: "nat \<Rightarrow> nat \<Rightarrow> int \<times> int list list \<Rightarrow> bool" where
  "words_ok n vocab iw \<longleftrightarrow> 0 \<le> fst iw \<and> fst iw < int n \<and>
     (\<forall>w \<in> set (snd iw). w \<noteq> [] \<and> (\<forall>t \<in> set w. 0 \<le> t \<and> t < int vocab))"

lemma completes_in_word: "completes past w t \<Longrightarrow> t \<in> set w"
  by (cases w rule: rev_cases) (auto simp: completes_def)

lemma ban_words_row:
  assumes "length row = vocab" "\<forall>w \<in> set words. w \<noteq> [] \<and> (\<forall>t \<in> set w. 0 \<le> t \<and> t < int vocab)"
  shows "\<exists>row'. efold (ban_word past) words row = Inr row' \<and> fades row row' \<and> length row' = vocab \<and>
    (\<forall>w \<in> set words. w \<noteq> [] \<and> (\<forall>t \<in> set w. 0 \<le> t \<and> t < int vocab) \<and>
       (\<forall>t. completes past w t \<longrightarrow> row' ! nat t = NegInf))"
proof (rule efold_achieves [where R = fades and I = "\<lambda>r. length r = vocab"])
  fix w and r :: "logit list" assume w: "w \<in> set words" "length r = vocab"
  then have "w \<noteq> []" "\<forall>t \<in> set w. 0 \<le> t \<and> t < py_len r" using assms(2) by (auto simp: py_len_def)
  from ban_word_ok [OF this, of past] show "\<exists>r'. ban_word past w r = Inr r' \<and> fades r r' \<and> length r' = vocab \<and>
      w \<noteq> [] \<and> (\<forall>t \<in> set w. 0 \<le> t \<and> t < int vocab) \<and> (\<forall>t. completes past w t \<longrightarrow> r' ! nat t = NegInf)"
    using w assms(2) fades_length by metis
next
  fix w and r r' :: "logit list" assume "fades r r'" "length r = vocab" and
    q: "w \<noteq> [] \<and> (\<forall>t \<in> set w. 0 \<le> t \<and> t < int vocab) \<and> (\<forall>t. completes past w t \<longrightarrow> r ! nat t = NegInf)"
  then show "w \<noteq> [] \<and> (\<forall>t \<in> set w. 0 \<le> t \<and> t < int vocab) \<and> (\<forall>t. completes past w t \<longrightarrow> r' ! nat t = NegInf)"
    using completes_in_word fades_nth by (metis nat_less_iff)
qed (use assms(1) fades_trans in auto)

lemma apply_bad_words_ok:
  assumes "shaped n vocab ls" "length past = n" "\<forall>iw \<in> set bad. words_ok n vocab iw"
  shows "\<exists>ls'. apply_bad_words bad past ls = Inr ls' \<and> narrows ls ls' \<and> shaped n vocab ls' \<and>
    (\<forall>iw \<in> set bad. words_ok n vocab iw \<and> words_banned past iw ls')"
  unfolding apply_bad_words_def
proof (rule efold_achieves [where R = narrows and I = "shaped n vocab"])
  fix iw ls assume iw: "iw \<in> set bad" "shaped n vocab ls"
  obtain i words where i: "iw = (i, words)" by (cases iw)
  have ok: "words_ok n vocab iw" using assms(3) iw(1) by blast
  then have r: "0 \<le> i" "i < int n" "\<forall>w \<in> set words. w \<noteq> [] \<and> (\<forall>t \<in> set w. 0 \<le> t \<and> t < int vocab)"
    by (simp_all add: words_ok_def i)
  have "length (ls ! nat i) = vocab" using shaped_nth [OF iw(2)] r by simp
  from ban_words_row [OF this r(3), of "past ! nat i"] obtain row' where
    row': "efold (ban_word (past ! nat i)) words (ls ! nat i) = Inr row'" "fades (ls ! nat i) row'"
    "\<forall>w \<in> set words. \<forall>t. completes (past ! nat i) w t \<longrightarrow> row' ! nat t = NegInf" by blast
  note step = row_step [OF iw(2) r(1,2), of "efold (ban_word (past ! nat i)) words", OF row'(1,2)]
  have "py_get past i = Inr (past ! nat i)" using r assms(2) by (simp add: py_get_nonneg)
  then show "\<exists>ls'. (\<lambda>(i, words) logits. ebind (py_get logits i) (\<lambda>row. ebind (py_get past i) (\<lambda>p.
      ebind (efold (ban_word p) words row) (\<lambda>row'. py_set logits i row')))) iw ls = Inr ls' \<and>
      narrows ls ls' \<and> shaped n vocab ls' \<and> words_ok n vocab iw \<and> words_banned past iw ls'"
    using step row'(3) ok by (intro exI [of _ "ls[nat i := row']"]) (simp add: i words_banned_def)
next
  fix iw ls ls' assume n: "narrows ls ls'" "shaped n vocab ls" and q: "words_ok n vocab iw \<and> words_banned past iw ls"
  have f: "fades (ls ! nat (fst iw)) (ls' ! nat (fst iw))"
    using n q by (intro narrows_nth) (auto simp: words_ok_def shaped_def)
  have len: "length (ls ! nat (fst iw)) = vocab" using q shaped_nth [OF n(2)] by (simp add: words_ok_def nat_less_iff)
  show "words_ok n vocab iw \<and> words_banned past iw ls'"
    using q fades_nth [OF f] completes_in_word
    by (auto simp: words_banned_def words_ok_def len) (metis nat_less_iff)
qed (use assms narrows_trans in auto)

section \<open>Bias, stop tokens and penalties\<close>

lemma fades_add: "fades r (r[t := l_add (r ! t) b])"
  by (cases "t < length r") (auto simp: fades_def list_all2_conv_all_nth nth_list_update list_update_beyond)

lemma bias_row_ok:
  assumes "length row = vocab" "\<forall>(t, b) \<in> set bias. 0 \<le> t \<and> t < int vocab"
  shows "\<exists>row'. bias_row bias row = Inr row' \<and> fades row row' \<and> length row' = vocab"
  unfolding bias_row_def
proof (rule efold_keeps [where R = fades and I = "\<lambda>r. length r = vocab"])
  fix x and r :: "logit list" assume x: "x \<in> set bias" "length r = vocab"
  obtain t b where t: "x = (t, b)" by (cases x)
  then show "\<exists>r'. (\<lambda>(t, b) r. ebind (raise_if (t < 0 \<or> py_len row \<le> t) ValueError) (\<lambda>_.
      Inr (r[nat t := l_add (r ! nat t) b]))) x r = Inr r' \<and> fades r r' \<and> length r' = vocab"
    using x assms fades_add by (auto simp: py_len_def raise_if_def)
qed (use assms(1) fades_trans in auto)

definition bias_ok :: "nat \<Rightarrow> (int \<times> rat) list option \<Rightarrow> bool" where
  "bias_ok vocab bias \<longleftrightarrow> (case bias of None \<Rightarrow> True | Some b \<Rightarrow> \<forall>(t, x) \<in> set b. 0 \<le> t \<and> t < int vocab)"

lemma apply_logits_bias_ok:
  assumes "shaped n vocab ls" "length biases = n" "\<forall>b \<in> set biases. bias_ok vocab b"
  shows "\<exists>ls'. apply_logits_bias biases ls = Inr ls' \<and> narrows ls ls' \<and> shaped n vocab ls'"
  unfolding apply_logits_bias_def
proof (rule efold_keeps [where R = narrows and I = "shaped n vocab"])
  fix x ls assume x: "x \<in> set (zip [0..<length biases] biases)" "shaped n vocab ls"
  obtain i where "x = (i, biases ! i)" "i < length biases" using x(1) by (auto simp: set_zip)
  then obtain bias where i: "x = (i, bias)" "i < n" "bias_ok vocab bias" using assms(2,3) by simp
  let ?f = "\<lambda>(i, bias) ls. case bias of None \<Rightarrow> Inr ls | Some b \<Rightarrow> if b = [] then Inr ls
      else ebind (py_get ls (int i)) (\<lambda>row. ebind (bias_row b row) (\<lambda>row'. py_set ls (int i) row'))"
  show "\<exists>ls'. ?f x ls = Inr ls' \<and> narrows ls ls' \<and> shaped n vocab ls'"
  proof (cases bias)
    case (Some b)
    have "length (ls ! nat (int i)) = vocab" using shaped_nth [OF x(2) i(2)] by simp
    moreover have "\<forall>(t, x) \<in> set b. 0 \<le> t \<and> t < int vocab" using i(3) Some by (simp add: bias_ok_def)
    ultimately obtain r where r: "bias_row b (ls ! nat (int i)) = Inr r" "fades (ls ! nat (int i)) r"
      using bias_row_ok by blast
    have "0 \<le> int i" "int i < int n" using i(2) by simp_all
    note step = row_step [OF x(2) this, of "bias_row b", OF r]
    then show ?thesis using x(2) by (cases "b = []") (auto simp: i(1) Some simp del: nat_int)
  qed (use x(2) in \<open>simp add: i(1)\<close>)
qed (use assms(1) narrows_trans in auto)

lemma ban_tokens_ok:
  assumes "shaped n vocab ls" "\<forall>(i, t) \<in> set pairs. 0 \<le> i \<and> i < int n \<and> 0 \<le> t \<and> t < int vocab"
  shows "\<exists>ls'. efold ban_token pairs ls = Inr ls' \<and> narrows ls ls' \<and> shaped n vocab ls' \<and>
    (\<forall>x \<in> set pairs. (0 \<le> fst x \<and> fst x < int n \<and> 0 \<le> snd x \<and> snd x < int vocab) \<and>
       ls' ! nat (fst x) ! nat (snd x) = NegInf)"
proof (rule efold_achieves [where R = narrows and I = "shaped n vocab"])
  fix x ls assume x: "x \<in> set pairs" "shaped n vocab ls"
  obtain i t where i: "x = (i, t)" by (cases x)
  have r: "0 \<le> i" "i < int n" "0 \<le> t" "t < int vocab" using x(1) assms(2) by (auto simp: i)
  have len: "length (ls ! nat i) = vocab" using shaped_nth [OF x(2)] r by (simp add: nat_less_iff)
  have "py_set (ls ! nat i) t NegInf = Inr ((ls ! nat i)[nat t := NegInf])"
    using r len by (simp add: py_set_nonneg py_len_def)
  from row_step [OF x(2) r(1,2), of "\<lambda>row. py_set row t NegInf", OF this fades_update]
  show "\<exists>ls'. ban_token x ls = Inr ls' \<and> narrows ls ls' \<and> shaped n vocab ls' \<and>
      (0 \<le> fst x \<and> fst x < int n \<and> 0 \<le> snd x \<and> snd x < int vocab) \<and> ls' ! nat (fst x) ! nat (snd x) = NegInf"
    using r len by (simp add: ban_token_def i nat_less_iff)
next
  fix x ls ls' assume n: "narrows ls ls'" "shaped n vocab ls"
    and q: "(0 \<le> fst x \<and> fst x < int n \<and> 0 \<le> snd x \<and> snd x < int vocab) \<and> ls ! nat (fst x) ! nat (snd x) = NegInf"
  then have "nat (fst x) < length ls" "nat (snd x) < length (ls ! nat (fst x))"
    using shaped_nth [OF n(2)] by (simp_all add: nat_less_iff) (simp add: shaped_def nat_less_iff)
  then show "(0 \<le> fst x \<and> fst x < int n \<and> 0 \<le> snd x \<and> snd x < int vocab) \<and> ls' ! nat (fst x) ! nat (snd x) = NegInf"
    using q fades_nth [OF narrows_nth [OF n(1)]] by simp
qed (use assms narrows_trans in auto)

text \<open>A request stays below its minimum: a stop token is forbidden.\<close>

definition stops_ok :: "nat \<Rightarrow> nat \<Rightarrow> int \<times> int \<times> int list \<Rightarrow> bool" where
  "stops_ok n vocab x \<longleftrightarrow> 0 \<le> fst x \<and> fst x < int n \<and> (\<forall>t \<in> set (snd (snd x)). 0 \<le> t \<and> t < int vocab)"

definition too_early :: "int list list \<Rightarrow> int \<times> int \<times> int list \<Rightarrow> (int \<times> int) list" where
  "too_early outputs x =
     (if py_len (outputs ! nat (fst x)) < fst (snd x) then map (Pair (fst x)) (snd (snd x)) else [])"

lemma min_token_pairs:
  assumes "\<forall>x \<in> set mts. stops_ok (length outputs) vocab x"
  shows "efold (\<lambda>(i, n, stops) pairs. ebind (py_get outputs i) (\<lambda>out.
      Inr (if py_len out < n then pairs @ map (Pair i) stops else pairs))) mts acc =
    Inr (acc @ concat (map (too_early outputs) mts))"
  using assms
proof (induction mts arbitrary: acc)
  case (Cons x mts)
  obtain i n stops where x: "x = (i, n, stops)" by (cases x)
  have "py_get outputs i = Inr (outputs ! nat i)" using Cons.prems by (simp add: x stops_ok_def py_get_nonneg)
  then show ?case using Cons by (simp add: x too_early_def)
qed simp

lemma min_tokens_ok:
  assumes "shaped n vocab ls" "length outputs = n" "\<forall>x \<in> set mts. stops_ok n vocab x"
  shows "\<exists>ls'. apply_min_token_penalties outputs mts ls = Inr ls' \<and> narrows ls ls' \<and> shaped n vocab ls' \<and>
    (\<forall>x \<in> set mts. \<forall>(i, t) \<in> set (too_early outputs x). ls' ! nat i ! nat t = NegInf)"
proof -
  let ?pairs = "concat (map (too_early outputs) mts)"
  have "\<forall>(i, t) \<in> set ?pairs. 0 \<le> i \<and> i < int n \<and> 0 \<le> t \<and> t < int vocab"
    using assms(3) by (fastforce simp: too_early_def stops_ok_def split: if_splits)
  from ban_tokens_ok [OF assms(1) this] obtain ls' where ls': "efold ban_token ?pairs ls = Inr ls'"
    "narrows ls ls'" "shaped n vocab ls'" "\<forall>x \<in> set ?pairs. ls' ! nat (fst x) ! nat (snd x) = NegInf" by blast
  have "apply_min_token_penalties outputs mts ls = Inr ls'"
    using min_token_pairs [of mts outputs vocab "[]"] assms(2,3) ls'(1)
    by (simp add: apply_min_token_penalties_def)
  then show ?thesis using ls'(2-4) by fastforce
qed

lemma penalise_NegInf: "0 < r \<Longrightarrow> penalise p f r b n NegInf = NegInf"
  by (simp add: penalise_def Let_def)

lemma penalise_row_ok:
  assumes "length row = vocab" "0 < r" "\<forall>t \<in> set prompt \<union> set out. 0 \<le> t \<and> t \<le> int vocab"
  shows "\<exists>row'. penalise_row prompt out p f r row = Inr row' \<and> fades row row'"
proof -
  let ?ps = "map (\<lambda>v. count_list prompt (int v)) [0..<vocab]" and ?ns = "map (\<lambda>v. count_list out (int v)) [0..<vocab]"
  let ?row' = "map (\<lambda>(q, n, x). penalise p f r (0 < q) n x) (zip ?ps (zip ?ns row))"
  have "bin_counts vocab prompt = Inr ?ps" "bin_counts vocab out = Inr ?ns"
    using assms(3) by (force simp: bin_counts_def raise_if_def)+
  then have "penalise_row prompt out p f r row = Inr ?row'" using assms(1) by (simp add: penalise_row_def)
  moreover have "fades row ?row'"
    using assms(1,2) by (auto simp: fades_def list_all2_conv_all_nth penalise_NegInf)
  ultimately show ?thesis by blast
qed

lemma pad_rows_ok:
  assumes "\<forall>xs \<in> set rows. \<forall>t \<in> set xs. P t" "P pad"
  shows "length (pad_rows pad rows) = length rows" "\<forall>xs \<in> set (pad_rows pad rows). \<forall>t \<in> set xs. P t"
  using assms by (auto simp: pad_rows_def Let_def)

lemma emap_list_all2:
  assumes "\<forall>x \<in> set xs. \<exists>y. f x = Inr y \<and> P x y"
  shows "\<exists>ys. emap f xs = Inr ys \<and> list_all2 P xs ys"
  using assms by (induction xs) auto

lemma all_penalties_ok:
  assumes "shaped n vocab ls" "length prompts = n" "length outputs = n" "length pr = n" "length fr = n" "length re = n"
    and "\<forall>r \<in> set re. 0 < r" "\<forall>xs \<in> set prompts \<union> set outputs. \<forall>t \<in> set xs. 0 \<le> t \<and> t \<le> int vocab"
  shows "\<exists>ls'. apply_all_penalties prompts pr fr re outputs ls = Inr ls' \<and> narrows ls ls'"
proof -
  define padded where "padded = pad_rows (case ls of [] \<Rightarrow> 0 | row # _ \<Rightarrow> py_len row) outputs"
  let ?rows = "zip ls (zip prompts (zip padded (zip pr (zip fr re))))"
  have pad: "0 \<le> (case ls of [] \<Rightarrow> 0 | row # _ \<Rightarrow> py_len row)" "(case ls of [] \<Rightarrow> 0 | row # _ \<Rightarrow> py_len row) \<le> int vocab"
    using assms(1) by (cases ls; simp add: shaped_def py_len_def)+
  have len: "length padded = n" "\<forall>xs \<in> set padded. \<forall>t \<in> set xs. 0 \<le> t \<and> t \<le> int vocab"
    using pad_rows_ok [of outputs "\<lambda>t. 0 \<le> t \<and> t \<le> int vocab" "case ls of [] \<Rightarrow> 0 | row # _ \<Rightarrow> py_len row"]
      assms(3,8) pad unfolding padded_def by auto
  have "\<forall>x \<in> set ?rows. \<exists>row'. (\<lambda>(row, p, out, pr, fr, re). penalise_row p out pr fr re row) x = Inr row' \<and>
      fades (fst x) row'"
  proof
    fix x assume x: "x \<in> set ?rows"
    obtain row p out a b r where e: "x = (row, p, out, a, b, r)" by (cases x)
    have "row \<in> set ls" "p \<in> set prompts" "out \<in> set padded" "r \<in> set re"
      using x by (auto simp: e set_zip)
    then have "length row = vocab" "0 < r" "\<forall>t \<in> set p \<union> set out. 0 \<le> t \<and> t \<le> int vocab"
      using assms(1,7,8) len(2) by (auto simp: shaped_def)
    from penalise_row_ok [OF this, of a b] show "\<exists>row'. (\<lambda>(row, p, out, pr, fr, re). penalise_row p out pr fr re row) x =
        Inr row' \<and> fades (fst x) row'" by (simp add: e)
  qed
  from emap_list_all2 [OF this] obtain ls' where ls': "apply_all_penalties prompts pr fr re outputs ls = Inr ls'"
    "list_all2 (\<lambda>x row'. fades (fst x) row') ?rows ls'"
    unfolding apply_all_penalties_def padded_def by blast
  moreover have "length ?rows = n" using assms(1-6) len(1) by (simp add: shaped_def)
  ultimately have "narrows ls ls'"
    using assms(1) by (auto simp: narrows_def list_all2_conv_all_nth shaped_def)
  then show ?thesis using ls'(1) by blast
qed

section \<open>What processing forbids\<close>

text \<open>Metadata of \<open>n\<close> requests with tokens of the vocabulary.\<close>

definition masks_ok :: "nat \<Rightarrow> nat \<Rightarrow> sampler_metadata \<Rightarrow> bool" where
  "masks_ok n vocab m \<longleftrightarrow> length (me_output_token_ids m) = n \<and>
     (\<forall>banned. me_allowed_mask m = Some banned \<longrightarrow> length banned = n \<and> (\<forall>b \<in> set banned. length b = vocab)) \<and>
     (\<forall>x \<in> set (me_bad_words m). words_ok n vocab x) \<and> (\<forall>x \<in> set (me_min_tokens m). stops_ok n vocab x) \<and>
     length (me_logit_bias m) = n \<and> (\<forall>b \<in> set (me_logit_bias m). bias_ok vocab b)"

definition penalties_ok :: "nat \<Rightarrow> nat \<Rightarrow> sampler_metadata \<Rightarrow> bool" where
  "penalties_ok n vocab m \<longleftrightarrow> me_no_penalties m \<or>
     (\<exists>prompts. me_prompt_token_ids m = Some prompts \<and> length prompts = n \<and>
       (\<forall>xs \<in> set prompts \<union> set (me_output_token_ids m). \<forall>t \<in> set xs. 0 \<le> t \<and> t \<le> int vocab)) \<and>
     length (me_presence m) = n \<and> length (me_frequency m) = n \<and> length (me_repetition m) = n \<and>
     (\<forall>r \<in> set (me_repetition m). 0 < r)"

definition forbidden :: "sampler_metadata \<Rightarrow> nat \<Rightarrow> nat \<Rightarrow> bool" where
  "forbidden m i t \<longleftrightarrow>
     (case me_allowed_mask m of None \<Rightarrow> False | Some banned \<Rightarrow> banned ! i ! t) \<or>
     (\<exists>(j, words) \<in> set (me_bad_words m). nat j = i \<and>
       (\<exists>w \<in> set words. completes (me_output_token_ids m ! i) w (int t))) \<or>
     (\<exists>(j, n, stops) \<in> set (me_min_tokens m). nat j = i \<and>
       py_len (me_output_token_ids m ! i) < n \<and> int t \<in> set stops)"

lemma allowed_ok:
  assumes "shaped n vocab ls" "masks_ok n vocab m"
  shows "narrows ls (apply_allowed_token_ids m ls)" "shaped n vocab (apply_allowed_token_ids m ls)"
    "\<lbrakk>me_allowed_mask m = Some banned; i < n; t < vocab; banned ! i ! t\<rbrakk> \<Longrightarrow> apply_allowed_token_ids m ls ! i ! t = NegInf"
proof -
  show n: "narrows ls (apply_allowed_token_ids m ls)"
  proof (cases "me_allowed_mask m")
    case (Some banned)
    then have "length banned = n" "\<forall>i < n. length (banned ! i) = vocab"
      using assms(2) by (auto simp: masks_ok_def)
    then show ?thesis using assms(1) Some
      by (auto simp: apply_allowed_token_ids_def narrows_def fades_def list_all2_conv_all_nth shaped_def)
  qed (simp add: apply_allowed_token_ids_def)
  show "shaped n vocab (apply_allowed_token_ids m ls)" by (rule shaped_narrows [OF assms(1) n])
  assume b: "me_allowed_mask m = Some banned" "i < n" "t < vocab" "banned ! i ! t"
  then have "length banned = n" "length (banned ! i) = vocab" using assms(2) by (auto simp: masks_ok_def)
  then show "apply_allowed_token_ids m ls ! i ! t = NegInf"
    using b assms(1) shaped_nth [OF assms(1)] by (simp add: apply_allowed_token_ids_def shaped_def)
qed

lemma penalties_total:
  assumes "shaped n vocab ls" "masks_ok n vocab m" "penalties_ok n vocab m"
  shows "\<exists>ls'. sampler_penalties m ls = Inr ls' \<and> narrows ls ls' \<and> shaped n vocab ls' \<and>
    (\<forall>x \<in> set (me_min_tokens m). \<forall>(i, t) \<in> set (too_early (me_output_token_ids m) x). ls' ! nat i ! nat t = NegInf)"
proof -
  let ?early = "\<lambda>ls'. \<forall>x \<in> set (me_min_tokens m).
      \<forall>(i, t) \<in> set (too_early (me_output_token_ids m) x). ls' ! nat i ! nat t = NegInf"
  have m: "length (me_output_token_ids m) = n" "\<forall>x \<in> set (me_min_tokens m). stops_ok n vocab x"
    using assms(2) by (simp_all add: masks_ok_def)
  obtain ls1 where ls1: "(if me_min_tokens m = [] then Inr ls
      else apply_min_token_penalties (me_output_token_ids m) (me_min_tokens m) ls) = Inr ls1"
    "narrows ls ls1" "shaped n vocab ls1" "?early ls1"
    using min_tokens_ok [OF assms(1) m] assms(1) by (cases "me_min_tokens m = []") auto
  obtain ls2 where ls2: "sampler_penalties m ls = Inr ls2" "narrows ls1 ls2"
  proof (cases "me_no_penalties m")
    case True
    then show ?thesis using that [of ls1] ls1(1) by (simp add: sampler_penalties_def)
  next
    case False
    then obtain prompts where p: "me_prompt_token_ids m = Some prompts" "length prompts = n"
      "\<forall>xs \<in> set prompts \<union> set (me_output_token_ids m). \<forall>t \<in> set xs. 0 \<le> t \<and> t \<le> int vocab"
      "length (me_presence m) = n" "length (me_frequency m) = n" "length (me_repetition m) = n"
      "\<forall>r \<in> set (me_repetition m). 0 < r" using assms(3) by (auto simp: penalties_ok_def)
    from all_penalties_ok [OF ls1(3) p(2) m(1) p(4-7,3)] show ?thesis
      using that ls1(1) p(1) False by (auto simp: sampler_penalties_def)
  qed
  have "?early ls2"
  proof (intro ballI, clarify)
    fix x1 n1 st i t assume x: "(x1, n1, st) \<in> set (me_min_tokens m)"
      and it: "(i, t) \<in> set (too_early (me_output_token_ids m) (x1, n1, st))"
    then have "0 \<le> i" "i < int n" "0 \<le> t" "t < int vocab" "ls1 ! nat i ! nat t = NegInf"
      using m(2) ls1(4) by (fastforce simp: too_early_def stops_ok_def split: if_splits)+
    then show "ls2 ! nat i ! nat t = NegInf"
      using fades_nth [OF narrows_nth [OF ls2(2)]] shaped_nth [OF ls1(3)] ls1(3) by (simp add: shaped_def nat_less_iff)
  qed
  then show ?thesis using ls2 narrows_trans [OF ls1(2) ls2(2)] shaped_narrows [OF ls1(3) ls2(2)] by blast
qed

lemma process_logits_ok:
  assumes "shaped n vocab ls" "masks_ok n vocab m" "penalties_ok n vocab m"
  shows "\<exists>ls'. process_logits m ls = Inr ls' \<and> shaped n vocab ls' \<and> narrows ls ls' \<and>
    (\<forall>i < n. \<forall>t < vocab. forbidden m i t \<longrightarrow> ls' ! i ! t = NegInf)"
proof -
  let ?ls1 = "apply_allowed_token_ids m ls" and ?out = "me_output_token_ids m"
  note a = allowed_ok [OF assms(1,2)]
  have m: "length ?out = n" "\<forall>x \<in> set (me_bad_words m). words_ok n vocab x"
    "length (me_logit_bias m) = n" "\<forall>b \<in> set (me_logit_bias m). bias_ok vocab b"
    using assms(2) by (simp_all add: masks_ok_def)
  obtain ls2 where ls2: "(if me_bad_words m = [] then Inr ?ls1 else apply_bad_words (me_bad_words m) ?out ?ls1) = Inr ls2"
    "narrows ?ls1 ls2" "shaped n vocab ls2" "\<forall>x \<in> set (me_bad_words m). words_banned ?out x ls2"
    using apply_bad_words_ok [OF a(2) m(1,2)] a(2) by (cases "me_bad_words m = []") auto
  obtain ls3 where ls3: "apply_logits_bias (me_logit_bias m) ls2 = Inr ls3" "narrows ls2 ls3" "shaped n vocab ls3"
    using apply_logits_bias_ok [OF ls2(3) m(3,4)] by blast
  obtain ls4 where ls4: "sampler_penalties m ls3 = Inr ls4" "narrows ls3 ls4" "shaped n vocab ls4"
    "\<forall>x \<in> set (me_min_tokens m). \<forall>(i, t) \<in> set (too_early ?out x). ls4 ! nat i ! nat t = NegInf"
    using penalties_total [OF ls3(3) assms(2,3)] by blast
  have n: "narrows ls2 ls4" "narrows ?ls1 ls4" "narrows ls ls4"
    using narrows_trans a(1) ls2(2) ls3(2) ls4(2) by blast+
  have stays: "ls4 ! i ! t = NegInf" if "narrows ms ls4" "shaped n vocab ms" "i < n" "t < vocab" "ms ! i ! t = NegInf" for ms i t
    using fades_nth [OF narrows_nth [OF that(1)]] that shaped_nth [OF that(2)] by (simp add: shaped_def)
  have "ls4 ! i ! t = NegInf" if it: "i < n" "t < vocab" "forbidden m i t" for i t
  proof -
    consider banned where "me_allowed_mask m = Some banned" "banned ! i ! t"
      | j words w where "(j, words) \<in> set (me_bad_words m)" "nat j = i" "w \<in> set words" "completes (?out ! i) w (int t)"
      | j k stops where "(j, k, stops) \<in> set (me_min_tokens m)" "nat j = i" "py_len (?out ! i) < k" "int t \<in> set stops"
      using it(3) by (auto simp: forbidden_def split: option.splits)
    then show ?thesis
    proof cases
      case 1
      then show ?thesis using stays [OF n(2) a(2) it(1,2)] a(3) it by blast
    next
      case 2
      then have "ls2 ! i ! nat (int t) = NegInf" using ls2(4) by (fastforce simp: words_banned_def)
      then show ?thesis using stays [OF n(1) ls2(3) it(1,2)] by simp
    next
      case 3
      then have "(j, int t) \<in> set (too_early ?out (j, k, stops))" by (simp add: too_early_def)
      then have "ls4 ! nat j ! nat (int t) = NegInf" using ls4(4) 3(1) by blast
      then show ?thesis using 3(2) by simp
    qed
  qed
  moreover have "process_logits m ls = Inr ls4"
    using ls2(1) ls3(1) ls4(1) by (simp add: process_logits_def split: if_splits)
  ultimately show ?thesis using ls4(3) n(3) by blast
qed

section \<open>Filters keep the most likely token\<close>

text \<open>A row from which a token can be drawn.\<close>

definition alive :: "logit list \<Rightarrow> bool" where
  "alive row \<longleftrightarrow> PosInf \<notin> set row \<and> (\<exists>x \<in> set row. x \<noteq> NegInf)"

definition softmax_ok :: "(logit list \<Rightarrow> rat list) \<Rightarrow> bool" where
  "softmax_ok softmax \<longleftrightarrow> (\<forall>row. length (softmax row) = length row) \<and> (\<forall>row. alive row \<longrightarrow>
     (\<forall>i < length row. 0 \<le> softmax row ! i \<and> (row ! i = NegInf \<longrightarrow> softmax row ! i = 0)) \<and>
     (\<exists>i < length row. 0 < softmax row ! i))"

definition argsort_ok :: "(logit list \<Rightarrow> nat list) \<Rightarrow> bool" where
  "argsort_ok argsort \<longleftrightarrow> (\<forall>row. distinct (argsort row) \<and> set (argsort row) = {..<length row} \<and>
     sorted (map ((!) row) (argsort row)))"

text \<open>Some entries are masked, the others stay, and not all are masked.\<close>

definition prunes :: "logit list \<Rightarrow> logit list \<Rightarrow> bool" where
  "prunes row row' \<longleftrightarrow> list_all2 (\<lambda>x y. y = NegInf \<or> y = x) row row' \<and> (alive row \<longrightarrow> alive row')"

lemma prunes_refl [simp]: "prunes row row"
  by (simp add: prunes_def list_all2_refl)

lemma prunes_trans: "prunes r s \<Longrightarrow> prunes s t \<Longrightarrow> prunes r t"
  unfolding prunes_def list_all2_conv_all_nth by (metis)

lemma prunesI:
  assumes "length row' = length row" "\<And>i. i < length row \<Longrightarrow> row' ! i = NegInf \<or> row' ! i = row ! i"
    and "alive row \<Longrightarrow> \<exists>i < length row. row' ! i = row ! i \<and> row ! i \<noteq> NegInf"
  shows "prunes row row'"
proof -
  have "alive row'" if a: "alive row"
  proof -
    from assms(3) [OF a] obtain i where i: "i < length row" "row' ! i = row ! i" "row ! i \<noteq> NegInf" by blast
    have "row' ! i \<in> set row'" using i(1) assms(1) by simp
    moreover have "PosInf \<notin> set row'"
      using a assms(1,2) unfolding alive_def in_set_conv_nth by (metis logit.distinct(3))
    ultimately show ?thesis using i(2,3) by (auto simp: alive_def)
  qed
  then show ?thesis using assms(1,2) by (auto simp: prunes_def list_all2_conv_all_nth)
qed

lemma argmax_ok:
  assumes "xs \<noteq> []"
  shows "argmax xs < length xs" "xs ! argmax xs = Max (set xs)"
proof -
  have less: "length (takeWhile (\<lambda>x. x \<noteq> y) zs) < length zs" if "y \<in> set zs" for y and zs :: "'a list"
    using that by (induction zs) auto
  have "Max (set xs) \<in> set xs" using assms by simp
  then have l: "length (takeWhile (\<lambda>x. x \<noteq> Max (set xs)) xs) < length xs" by (rule less)
  then show "argmax xs < length xs" by (simp add: argmax_def)
  show "xs ! argmax xs = Max (set xs)"
    using nth_length_takeWhile [OF l] by (simp add: argmax_def)
qed

lemma alive_max:
  assumes "alive row"
  shows "row \<noteq> []" "Max (set row) \<noteq> NegInf"
proof -
  obtain x where x: "x \<in> set row" "x \<noteq> NegInf" using assms by (auto simp: alive_def)
  then show "row \<noteq> []" by auto
  have "x \<le> Max (set row)" using x(1) by simp
  then show "Max (set row) \<noteq> NegInf" using x(2) by auto
qed

text \<open>A threshold that does not exceed the largest logit.\<close>

lemma mask_below_prunes:
  assumes "row \<noteq> [] \<Longrightarrow> c \<le> Max (set row)"
  shows "prunes row (mask_below c row)"
proof (rule prunesI)
  assume a: "alive row"
  note m = alive_max [OF a] and x = argmax_ok [OF alive_max(1) [OF a]]
  have "\<not> row ! argmax row < c" unfolding x(2) using assms [OF m(1)] by (rule leD)
  then show "\<exists>i < length row. mask_below c row ! i = row ! i \<and> row ! i \<noteq> NegInf"
    using x(1) m(2) x(2) by (intro exI [of _ "argmax row"]) (simp add: mask_below_def)
qed (auto simp: mask_below_def)

lemma top_k_only_ok:
  assumes "1 \<le> k" "k \<le> py_len row"
  shows "\<exists>row'. top_k_only_row k row = Inr row' \<and> prunes row row'"
proof -
  let ?k1 = "if k = py_len row then 1 else k" let ?top = "topk_values (nat ?k1) row"
  have len: "length ?top = nat ?k1" using assms by (auto simp: topk_values_def py_len_def)
  then have c: "py_get ?top (?k1 - 1) = Inr (?top ! nat (?k1 - 1))" "nat (?k1 - 1) < length ?top"
    using assms by (auto simp: py_get_nonneg)
  have "?top ! nat (?k1 - 1) \<in> set row" using c(2) nth_mem [OF c(2)] by (auto simp: topk_values_def dest: in_set_takeD)
  then have "?top ! nat (?k1 - 1) \<le> Max (set row)" by simp
  then have "prunes row (mask_below (if k = py_len row then NegInf else ?top ! nat (?k1 - 1)) row)"
    by (intro mask_below_prunes) (cases "k = py_len row"; simp)
  then show ?thesis unfolding top_k_only_row_def Let_def c(1) by simp
qed

lemma softmax_max:
  assumes "softmax_ok softmax" "alive row"
  shows "length (softmax row) = length row" "softmax row \<noteq> []" "0 < Max (set (softmax row))"
    "\<lbrakk>i < length row; 0 < softmax row ! i\<rbrakk> \<Longrightarrow> row ! i \<noteq> NegInf"
proof -
  from assms have s: "length (softmax row) = length row"
    "\<forall>i < length row. row ! i = NegInf \<longrightarrow> softmax row ! i = 0" "\<exists>i < length row. 0 < softmax row ! i"
    by (auto simp: softmax_ok_def)
  then obtain j where j: "j < length row" "0 < softmax row ! j" by blast
  then have "softmax row ! j \<le> Max (set (softmax row))" using s(1) by simp
  then show "0 < Max (set (softmax row))" using j(2) by linarith
  show "length (softmax row) = length row" "softmax row \<noteq> []" using s(1) j(1) by auto
  show "\<lbrakk>i < length row; 0 < softmax row ! i\<rbrakk> \<Longrightarrow> row ! i \<noteq> NegInf" using s(2) by fastforce
qed

lemma min_p_ok:
  assumes "softmax_ok softmax" "min_p \<le> 1" "alive row"
  shows "prunes row (min_p_row softmax min_p row)"
proof (rule prunesI)
  note m = softmax_max [OF assms(1,3)]
  let ?j = "argmax (softmax row)"
  have j: "?j < length row" "softmax row ! ?j = Max (set (softmax row))" using argmax_ok [OF m(2)] m(1) by simp_all
  have "min_p * Max (set (softmax row)) \<le> Max (set (softmax row))"
    using mult_right_mono [OF assms(2), of "Max (set (softmax row))"] m(3) by simp
  then show "\<exists>i < length row. min_p_row softmax min_p row ! i = row ! i \<and> row ! i \<noteq> NegInf"
    using j m(1) m(4) [OF j(1)] m(3) by (intro exI [of _ ?j]) (simp add: min_p_row_def Let_def del: Max_ge_iff)
qed (use softmax_max(1) [OF assms(1,3)] in \<open>auto simp: min_p_row_def Let_def\<close>)

text \<open>Scattering back: each value returns to its place.\<close>

lemma scatter_ok:
  assumes "distinct idx" "length src = length idx" "\<forall>i \<in> set idx. i < length row"
  shows "length (scatter idx src row) = length row"
    "j < length idx \<Longrightarrow> scatter idx src row ! (idx ! j) = src ! j"
    "i \<notin> set idx \<Longrightarrow> scatter idx src row ! i = row ! i"
proof -
  have "length (scatter idx src row) = length row \<and>
      (\<forall>j < length idx. scatter idx src row ! (idx ! j) = src ! j) \<and>
      (\<forall>i. i \<notin> set idx \<longrightarrow> scatter idx src row ! i = row ! i)"
    using assms(2,1,3)
  proof (induction src idx arbitrary: row rule: list_induct2)
    case (Cons x src i idx)
    have "scatter (i # idx) (x # src) row = scatter idx src (row[i := x])" by (simp add: scatter_def)
    moreover from Cons.IH [of "row[i := x]"] Cons.prems have
      ih: "length (scatter idx src (row[i := x])) = length row"
      "\<forall>j < length idx. scatter idx src (row[i := x]) ! (idx ! j) = src ! j"
      "\<forall>k. k \<notin> set idx \<longrightarrow> scatter idx src (row[i := x]) ! k = row[i := x] ! k" by auto
    moreover have "scatter idx src (row[i := x]) ! ((i # idx) ! j) = (x # src) ! j" if "j < length (i # idx)" for j
      using that ih(2,3) Cons.prems by (cases j) auto
    ultimately show ?case by simp
  qed (simp add: scatter_def)
  then show "length (scatter idx src row) = length row"
    "j < length idx \<Longrightarrow> scatter idx src row ! (idx ! j) = src ! j"
    "i \<notin> set idx \<Longrightarrow> scatter idx src row ! i = row ! i" by blast+
qed

lemma set_permuted: "set idx = {..<length row} \<Longrightarrow> set (map ((!) row) idx) = set row"
  using nth_image [of "length row" row] by (simp add: lessThan_atLeast0)

text \<open>A row pruned in sorted order is pruned.\<close>

lemma scatter_prunes:
  assumes "distinct idx" "set idx = {..<length row}" "prunes (map ((!) row) idx) src"
  shows "prunes row (scatter idx src row)"
proof -
  let ?asc = "map ((!) row) idx"
  have src: "length src = length idx" "\<And>j. j < length idx \<Longrightarrow> src ! j = NegInf \<or> src ! j = row ! (idx ! j)"
    using assms(3) by (auto simp: prunes_def list_all2_conv_all_nth)
  have place: "scatter idx src row ! (idx ! j) = src ! j" if "j < length idx" for j
    using scatter_ok(2) [OF assms(1) src(1) _ that] assms(2) by auto
  have "set ?asc = set row" by (rule set_permuted [OF assms(2)])
  then have alive: "alive ?asc = alive row" by (simp add: alive_def)
  show ?thesis
  proof (rule prunesI)
    show "length (scatter idx src row) = length row" using scatter_ok(1) [OF assms(1) src(1)] assms(2) by auto
  next
    fix i assume "i < length row"
    then have "i \<in> set idx" using assms(2) by simp
    then obtain j where "j < length idx" "idx ! j = i" unfolding in_set_conv_nth by blast
    then show "scatter idx src row ! i = NegInf \<or> scatter idx src row ! i = row ! i"
      using place src(2) by metis
  next
    assume "alive row"
    then have "alive src" using assms(3) alive by (simp add: prunes_def)
    then obtain j where j: "j < length idx" "src ! j \<noteq> NegInf"
      using src(1) by (auto simp: alive_def in_set_conv_nth)
    then have "idx ! j < length row" using assms(2) nth_mem by blast
    then show "\<exists>i < length row. scatter idx src row ! i = row ! i \<and> row ! i \<noteq> NegInf"
      using place [OF j(1)] src(2) [OF j(1)] j(2) by (intro exI [of _ "idx ! j"]) auto
  qed
qed

lemma sums_from_length [simp]: "length (sums_from a xs) = length xs"
  by (induction xs arbitrary: a) simp_all

lemma top_p_mask_length [simp]: "length (top_p_mask p probs) = length probs"
  by (simp add: top_p_mask_def)

lemma top_p_mask_last: "probs \<noteq> [] \<Longrightarrow> \<not> top_p_mask p probs ! (length probs - 1)"
  by (simp add: top_p_mask_def)

lemma sorted_last_Max:
  fixes xs :: "'a :: linorder list"
  assumes "sorted xs" "xs \<noteq> []"
  shows "xs ! (length xs - 1) = Max (set xs)"
proof -
  have "x \<le> last xs" if "x \<in> set xs" for x
    using that assms by (cases xs rule: rev_cases) (auto simp: sorted_append)
  then show ?thesis
    unfolding last_conv_nth [OF assms(2), symmetric] using assms(2) by (intro Max_eqI [symmetric]) simp_all
qed

text \<open>The last entry of a sorted row survives top-k and top-p.\<close>

lemma top_k_mask_sorted_ok:
  assumes "sorted asc" "\<And>k. k' = Some k \<Longrightarrow> 1 \<le> k \<and> k \<le> py_len asc" "asc \<noteq> []"
  shows "\<exists>s. top_k_mask_sorted k' asc = Inr s \<and> prunes asc s \<and> s ! (length asc - 1) = asc ! (length asc - 1)"
proof (cases k')
  case (Some k)
  have k: "1 \<le> k" "k \<le> py_len asc" using assms(2) [OF Some] by simp_all
  let ?c = "asc ! nat (py_len asc - k)"
  have i: "nat (py_len asc - k) < length asc" using k assms(3) by (auto simp: py_len_def)
  have c: "py_get asc (py_len asc - k) = Inr ?c" using k by (simp add: py_get_nonneg py_len_def)
  have le: "?c \<le> Max (set asc)" using i by simp
  have "\<not> asc ! (length asc - 1) < ?c" unfolding sorted_last_Max [OF assms(1,3)] using le by (rule leD)
  then have "mask_below ?c asc ! (length asc - 1) = asc ! (length asc - 1)"
    using assms(3) by (simp add: mask_below_def)
  then show ?thesis using mask_below_prunes [of asc ?c] le c Some by (simp add: top_k_mask_sorted_def)
qed (simp add: top_k_mask_sorted_def)

lemma top_p_mask_sorted_ok:
  assumes "softmax_ok softmax" "alive s" "s ! (length s - 1) \<noteq> NegInf"
  shows "prunes s (top_p_mask_sorted softmax p s)"
proof (rule prunesI)
  note m = softmax_max [OF assms(1,2)]
  have "s \<noteq> []" using alive_max(1) [OF assms(2)] .
  then show "\<exists>i < length s. top_p_mask_sorted softmax p s ! i = s ! i \<and> s ! i \<noteq> NegInf"
    using top_p_mask_last [OF m(2), of p] m(1) assms(3)
    by (intro exI [of _ "length s - 1"]) (simp add: top_p_mask_sorted_def)
qed (use softmax_max(1) [OF assms(1,2)] in \<open>auto simp: top_p_mask_sorted_def\<close>)

lemma top_k_top_p_ok:
  assumes "softmax_ok softmax" "argsort_ok argsort" "alive row"
    and "\<And>k'. k = Some k' \<Longrightarrow> 1 \<le> k' \<and> k' \<le> py_len row"
  shows "\<exists>row'. top_k_top_p_row softmax argsort k p row = Inr row' \<and> prunes row row'"
proof (cases p)
  case None
  then show ?thesis
    using top_k_only_ok [of _ row] assms(4) by (cases k) (auto simp: top_k_top_p_row_def)
next
  case (Some p')
  let ?idx = "argsort row" let ?asc = "map ((!) row) ?idx"
  have idx: "distinct ?idx" "set ?idx = {..<length row}" "sorted ?asc"
    using assms(2) by (simp_all add: argsort_ok_def)
  have len: "length ?idx = length row" using distinct_card [OF idx(1)] idx(2) by simp
  have same: "set ?asc = set row" by (rule set_permuted [OF idx(2)])
  then have alive: "alive ?asc" using assms(3) by (simp add: alive_def)
  have k: "1 \<le> k' \<and> k' \<le> py_len ?asc" if "k = Some k'" for k' using assms(4) [OF that] len by (simp add: py_len_def)
  obtain s where s: "top_k_mask_sorted k ?asc = Inr s" "prunes ?asc s"
    "s ! (length ?asc - 1) = ?asc ! (length ?asc - 1)"
    using top_k_mask_sorted_ok [OF idx(3) k alive_max(1) [OF alive]] by blast
  have "s ! (length s - 1) \<noteq> NegInf" "alive s"
    using s(2,3) sorted_last_Max [OF idx(3) alive_max(1) [OF alive]] alive_max(2) [OF alive] alive
    by (auto simp: prunes_def dest: list_all2_lengthD)
  then have "prunes ?asc (top_p_mask_sorted softmax p' s)"
    using prunes_trans [OF s(2) top_p_mask_sorted_ok [OF assms(1)]] by blast
  from scatter_prunes [OF idx(1,2) this] show ?thesis
    using s(1) Some by (simp add: top_k_top_p_row_def Let_def)
qed

section \<open>The drawn token\<close>

lemma random_sample_ok:
  assumes "softmax_ok softmax" "alive row" "length noise = length row" "\<forall>q \<in> set noise. 0 < q"
  shows "random_sample_row (softmax row) noise < length row \<and> row ! random_sample_row (softmax row) noise \<noteq> NegInf"
proof -
  note m = softmax_max [OF assms(1,2)]
  let ?r = "map2 (/) (softmax row) noise" let ?j = "argmax ?r"
  have len: "length ?r = length row" using m(1) assms(3) by simp
  then have "?r \<noteq> []" using alive_max(1) [OF assms(2)] by auto
  note j = argmax_ok [OF this]
  obtain i where i: "i < length row" "0 < softmax row ! i" using assms(1,2) by (auto simp: softmax_ok_def)
  have q: "0 < noise ! k" if "k < length row" for k using assms(3,4) that by simp
  have "0 < ?r ! i" using i q m(1) assms(3) by simp
  also have "?r ! i \<le> Max (set ?r)"
  proof (rule Max_ge)
    show "?r ! i \<in> set ?r" by (rule nth_mem) (use i(1) len in simp)
  qed simp
  finally have "0 < ?r ! ?j" using j(2) by simp
  moreover have "?j < length row" using j(1) unfolding len .
  ultimately have "0 < softmax row ! ?j"
    using q [of ?j] m(1) assms(3) by (simp add: zero_less_divide_iff)
  then show ?thesis using m(4) \<open>?j < length row\<close> by (simp add: random_sample_row_def)
qed

text \<open>Parameters of \<open>n\<close> requests, as \<open>SamplingParams\<close> and the batch leave them.\<close>

definition sampling_ok :: "nat \<Rightarrow> nat \<Rightarrow> sampler_metadata \<Rightarrow> bool" where
  "sampling_ok n vocab m \<longleftrightarrow> \<not> (me_all_greedy m \<and> me_all_random m) \<and>
     (me_all_greedy m \<or> (\<exists>ts. me_temperature m = Some ts \<and> length ts = n \<and>
       (me_all_random m \<longrightarrow> (\<forall>t \<in> set ts. sampling_eps_v1 \<le> t)))) \<and>
     (\<forall>ps. me_top_p m = Some ps \<longrightarrow> length ps = n) \<and>
     (\<forall>ks. me_top_k m = Some ks \<longrightarrow> length ks = n \<and> (\<forall>k \<in> set ks. 1 \<le> k \<and> k \<le> int vocab)) \<and>
     (\<forall>ps. me_min_p m = Some ps \<longrightarrow> length ps = n \<and> (\<forall>p \<in> set ps. p \<le> 1)) \<and>
     (\<forall>k. me_max_num_logprobs m = Some k \<longrightarrow> k \<le> vocab)"

definition noise_ok :: "nat \<Rightarrow> nat \<Rightarrow> rat list list \<Rightarrow> bool" where
  "noise_ok n vocab noise \<longleftrightarrow> length noise = n \<and> (\<forall>q \<in> set noise. length q = vocab \<and> (\<forall>x \<in> set q. 0 < x))"

lemma scaled_alive:
  assumes "0 < t" "alive row"
  shows "alive (map (\<lambda>x. l_div x t) row)"
proof -
  have "l_div x t = PosInf \<longleftrightarrow> x = PosInf" for x using assms(1) by (cases x) (simp_all add: l_div_def)
  moreover have "l_div x t = NegInf \<longleftrightarrow> x = NegInf" for x using assms(1) by simp
  ultimately show ?thesis using assms(2) by (auto simp: alive_def image_iff) metis
qed

lemma prunes_back: "prunes r s \<Longrightarrow> t < length r \<Longrightarrow> s ! t \<noteq> NegInf \<Longrightarrow> r ! t \<noteq> NegInf"
  by (auto simp: prunes_def list_all2_conv_all_nth)

lemma top_k_top_p_total:
  assumes "argsort_ok argsort" "\<And>k'. k = Some k' \<Longrightarrow> 1 \<le> k' \<and> k' \<le> py_len row"
  shows "\<exists>row'. top_k_top_p_row softmax argsort k p row = Inr row'"
proof (cases p)
  case None
  then show ?thesis using top_k_only_ok [of _ row] assms(2) by (cases k) (auto simp: top_k_top_p_row_def)
next
  case (Some p')
  have "length (argsort row) = length row"
    using assms(1) distinct_card [of "argsort row"] by (simp add: argsort_ok_def)
  then have "\<exists>s. top_k_mask_sorted k (map ((!) row) (argsort row)) = Inr s"
    using assms(2) by (cases k) (auto simp: top_k_mask_sorted_def py_get_nonneg py_len_def)
  then show ?thesis using Some by (auto simp: top_k_top_p_row_def Let_def)
qed

text \<open>A random draw for one row, through all filters.\<close>

lemma random_row:
  assumes "softmax_ok softmax" "argsort_ok argsort" "alive row" "0 < t"
    and "\<And>k'. k = Some k' \<Longrightarrow> 1 \<le> k' \<and> k' \<le> py_len row" "\<And>q. mp = Some q \<Longrightarrow> q \<le> 1"
    and "length noise = length row" "\<forall>q \<in> set noise. 0 < q"
  defines "scaled \<equiv> map (\<lambda>x. l_div x t) row"
  defines "filtered \<equiv> (case mp of None \<Rightarrow> scaled | Some q \<Rightarrow> min_p_row softmax q scaled)"
  assumes "top_k_top_p_row softmax argsort k p filtered = Inr final"
  shows "random_sample_row (softmax final) noise < length row \<and>
    row ! random_sample_row (softmax final) noise \<noteq> NegInf"
proof -
  have a: "alive scaled" unfolding scaled_def by (rule scaled_alive [OF assms(4,3)])
  have f: "prunes scaled filtered"
    unfolding filtered_def using min_p_ok [OF assms(1) assms(6) a] by (cases mp) simp_all
  then have af: "alive filtered" and len: "length filtered = length row"
    using a by (auto simp: prunes_def scaled_def dest: list_all2_lengthD)
  have k: "1 \<le> k' \<and> k' \<le> py_len filtered" if "k = Some k'" for k' using assms(5) [OF that] len by (simp add: py_len_def)
  have "prunes filtered final" using top_k_top_p_ok [where k = k and p = p, OF assms(1,2) af] k assms(11) by auto
  then have p: "prunes scaled final" by (rule prunes_trans [OF f])
  then have "alive final" "length final = length row"
    using a by (auto simp: prunes_def scaled_def dest: list_all2_lengthD)
  with random_sample_ok [OF assms(1), of final noise] assms(7,8)
  have "random_sample_row (softmax final) noise < length row"
    "final ! random_sample_row (softmax final) noise \<noteq> NegInf" by auto
  then show ?thesis using prunes_back [OF p] assms(4) by (simp add: scaled_def)
qed

lemma column_length: "\<forall>xs. c = Some xs \<longrightarrow> length xs = n \<Longrightarrow> length (column c n) = n"
  by (auto simp: column_def split: option.split)

lemma column_nth:
  assumes "\<forall>xs. c = Some xs \<longrightarrow> length xs = n" "i < n"
  shows "column c n ! i = map_option (\<lambda>xs. xs ! i) c"
  using assms by (auto simp: column_def split: option.split)

lemma sample_tokens_ok:
  assumes "shaped n vocab ls" "sampling_ok n vocab m" "softmax_ok softmax" "argsort_ok argsort"
    and "noise_ok n vocab noise" "\<forall>i < n. alive (ls ! i)"
  shows "\<exists>ts. sample_tokens softmax argsort noise m ls = Inr ts \<and> length ts = n \<and>
    (\<forall>i < n. ts ! i < vocab \<and> ls ! i ! (ts ! i) \<noteq> NegInf)"
proof -
  have ls: "length ls = n" "\<And>i. i < n \<Longrightarrow> length (ls ! i) = vocab"
    using assms(1) shaped_nth by (auto simp: shaped_def)
  have greedy: "map argmax ls ! i < vocab \<and> ls ! i ! (map argmax ls ! i) \<noteq> NegInf" if "i < n" for i
  proof -
    have a: "alive (ls ! i)" using assms(6) that by blast
    show ?thesis using argmax_ok [OF alive_max(1) [OF a]] alive_max(2) [OF a] ls that by simp
  qed
  show ?thesis
  proof (cases "me_all_greedy m")
    case True
    then show ?thesis using greedy ls(1) assms(2) by (simp add: sample_tokens_def sampling_ok_def)
  next
    case False
    then obtain temps where temps: "me_temperature m = Some temps" "length temps = n"
      "me_all_random m \<longrightarrow> (\<forall>t \<in> set temps. sampling_eps_v1 \<le> t)" using assms(2) by (auto simp: sampling_ok_def)
    define scaled where "scaled = map2 (\<lambda>t row. map (\<lambda>x. l_div x t) row) temps ls"
    define filtered where "filtered = (case me_min_p m of None \<Rightarrow> scaled | Some ps \<Rightarrow> map2 (min_p_row softmax) ps scaled)"
    let ?k = "column (me_top_k m) n" and ?p = "column (me_top_p m) n" and ?mp = "column (me_min_p m) n"
    have cols: "\<forall>xs. me_top_k m = Some xs \<longrightarrow> length xs = n" "\<forall>xs. me_top_p m = Some xs \<longrightarrow> length xs = n"
      "\<forall>xs. me_min_p m = Some xs \<longrightarrow> length xs = n" using assms(2) by (simp_all add: sampling_ok_def)
    have scaled: "length scaled = n" "\<And>i. i < n \<Longrightarrow> scaled ! i = map (\<lambda>x. l_div x (temps ! i)) (ls ! i)"
      using temps(2) ls(1) by (simp_all add: scaled_def)
    have filtered: "length filtered = n" "\<And>i. i < n \<Longrightarrow> filtered ! i =
        (case ?mp ! i of None \<Rightarrow> scaled ! i | Some q \<Rightarrow> min_p_row softmax q (scaled ! i))"
      using scaled cols(3) column_nth [OF cols(3)] by (cases "me_min_p m"; simp add: filtered_def)+
    let ?rows = "zip filtered (zip ?k ?p)" and ?f = "\<lambda>(row, k, p). top_k_top_p_row softmax argsort k p row"
    have kp: "?k ! i = Some k' \<Longrightarrow> 1 \<le> k' \<and> k' \<le> int vocab" if "i < n" for i k'
      using assms(2) column_nth [OF cols(1) that] that by (cases "me_top_k m") (auto simp: sampling_ok_def)
    have mp: "?mp ! i = Some q \<Longrightarrow> q \<le> 1" if "i < n" for i q
      using assms(2) column_nth [OF cols(3) that] that by (cases "me_min_p m") (auto simp: sampling_ok_def)
    have wide: "length (filtered ! i) = vocab" if "i < n" for i
      using filtered(2) scaled(2) ls(2) assms(3) that by (auto simp: min_p_row_def softmax_ok_def Let_def split: option.split)
    have rows: "length ?rows = n" "\<And>i. i < n \<Longrightarrow> ?rows ! i = (filtered ! i, ?k ! i, ?p ! i)"
      using filtered(1) column_length [OF cols(1)] column_length [OF cols(2)] by simp_all
    have "\<exists>row'. ?f x = Inr row' \<and> ?f x = Inr row'" if x: "x \<in> set ?rows" for x
    proof -
      obtain i where i: "i < n" "x = ?rows ! i" using x unfolding in_set_conv_nth rows(1) by blast
      show ?thesis
        using top_k_top_p_total [OF assms(4), where k = "?k ! i" and row = "filtered ! i"] kp [OF i(1)] wide [OF i(1)]
        unfolding i(2) rows(2) [OF i(1)] by (auto simp: py_len_def)
    qed
    then obtain ls' where ls': "emap ?f ?rows = Inr ls'" "list_all2 (\<lambda>x y. ?f x = Inr y) ?rows ls'"
      using emap_list_all2 [of ?rows ?f "\<lambda>x y. ?f x = Inr y"] by blast
    have len: "length ls' = n" using list_all2_lengthD [OF ls'(2)] unfolding rows(1) by simp
    have final: "top_k_top_p_row softmax argsort (?k ! i) (?p ! i) (filtered ! i) = Inr (ls' ! i)" if "i < n" for i
      using list_all2_nthD [OF ls'(2), of i] that unfolding rows(1) by (simp only: rows(2) prod.case)
    define random where "random = map2 (\<lambda>row q. random_sample_row (softmax row) q) ls' noise"
    have noise: "length noise = n" "\<And>i. i < n \<Longrightarrow> length (noise ! i) = vocab \<and> (\<forall>q \<in> set (noise ! i). 0 < q)"
      using assms(5) nth_mem [of _ noise] by (auto simp: noise_ok_def)
    have random: "random ! i < vocab \<and> ls ! i ! (random ! i) \<noteq> NegInf" if i: "i < n" "sampling_eps_v1 \<le> temps ! i" for i
    proof -
      have "0 < temps ! i" using i(2) by (simp add: sampling_eps_v1_def)
      moreover have "alive (ls ! i)" using assms(6) i(1) by blast
      moreover have "top_k_top_p_row softmax argsort (?k ! i) (?p ! i) (case ?mp ! i of
          None \<Rightarrow> map (\<lambda>x. l_div x (temps ! i)) (ls ! i)
        | Some q \<Rightarrow> min_p_row softmax q (map (\<lambda>x. l_div x (temps ! i)) (ls ! i))) = Inr (ls' ! i)"
        using final [OF i(1)] unfolding filtered(2) [OF i(1)] scaled(2) [OF i(1)] .
      ultimately show ?thesis
        using random_row [OF assms(3,4), of "ls ! i" "temps ! i" "?k ! i" "?mp ! i" "noise ! i" "?p ! i" "ls' ! i"]
          kp [OF i(1)] mp [OF i(1)] noise ls(2) [OF i(1)] i(1) len
        by (simp add: random_def py_len_def)
    qed
    let ?ts = "if me_all_random m then random
        else map2 (\<lambda>t (g, r). if t < sampling_eps_v1 then g else r) temps (zip (map argmax ls) random)"
    have "sample_tokens softmax argsort noise m ls = Inr ?ts"
      using False temps(1) ls'(1) ls(1) filtered(1)
      by (simp add: sample_tokens_def Let_def scaled_def [symmetric] filtered_def [symmetric] apply_top_k_top_p_def
          random_def [symmetric])
    moreover have "length random = n" using len noise(1) by (simp add: random_def)
    ultimately show ?thesis
      using greedy random temps(2,3) ls(1) by (intro exI [of _ ?ts]) (auto simp: not_less)
  qed
qed

lemma gather_ok:
  assumes "t < length logprobs" "k \<le> length logprobs"
  shows "\<exists>r. gather_logprobs_row k logprobs t = Inr r"
  using assms by (simp add: gather_logprobs_row_def raise_if_def py_get_nonneg)

text \<open>
  C17: a sampled token is permitted. Whatever the logits, the noise and the order in which equal
  logits are sorted, sampling raises nothing and yields one token of the vocabulary for each
  request, provided that the masks leave each request some token; and that token is not masked
  out, completes no bad word of the request, and is no stop token while the request is below its
  minimal length, through bias, penalties, temperature, min-p, top-k and top-p.
\<close>

theorem sampled_token_permitted:
  assumes "shaped n vocab logits" "masks_ok n vocab m" "penalties_ok n vocab m" "sampling_ok n vocab m"
    and "softmax_ok softmax" "argsort_ok argsort" "noise_ok n vocab noise" "\<forall>row. length (log_softmax row) = length row"
    and "process_logits m logits = Inr ls" "\<forall>i < n. alive (ls ! i)"
  shows "\<exists>out. sampler_forward softmax log_softmax argsort noise m logits = Inr out \<and>
    length (sa_sampled_token_ids out) = n \<and>
    (\<forall>i < n. \<exists>t < vocab. sa_sampled_token_ids out ! i = [t] \<and> \<not> forbidden m i t)"
proof -
  from process_logits_ok [OF assms(1-3)] assms(9) have ls: "shaped n vocab ls"
    "\<forall>i < n. \<forall>t < vocab. forbidden m i t \<longrightarrow> ls ! i ! t = NegInf" by auto
  from sample_tokens_ok [OF ls(1) assms(4-7,10)] obtain ts where ts:
    "sample_tokens softmax argsort noise m ls = Inr ts" "length ts = n"
    "\<forall>i < n. ts ! i < vocab \<and> ls ! i ! (ts ! i) \<noteq> NegInf" by blast
  obtain lps where lps: "(case me_max_num_logprobs m of None \<Rightarrow> Inr None
      | Some k \<Rightarrow> ebind (emap (\<lambda>(row, t). gather_logprobs_row k (log_softmax row) t) (zip logits ts)) (\<lambda>lps. Inr (Some lps))) =
      Inr lps"
  proof (cases "me_max_num_logprobs m")
    case (Some k)
    have "\<exists>y. (\<lambda>(row, t). gather_logprobs_row k (log_softmax row) t) x = Inr y \<and> True" if x: "x \<in> set (zip logits ts)" for x
    proof -
      obtain i where i: "i < n" "x = (logits ! i, ts ! i)" using x assms(1) ts(2) by (auto simp: set_zip shaped_def)
      have "length (log_softmax (logits ! i)) = vocab" using assms(8) shaped_nth [OF assms(1) i(1)] by simp
      moreover have "k \<le> vocab" using assms(4) Some by (simp add: sampling_ok_def)
      ultimately show ?thesis using gather_ok [of "ts ! i"] ts(3) i by simp
    qed
    then obtain ys where "emap (\<lambda>(row, t). gather_logprobs_row k (log_softmax row) t) (zip logits ts) = Inr ys"
      using emap_list_all2 [of "zip logits ts" "\<lambda>(row, t). gather_logprobs_row k (log_softmax row) t" "\<lambda>_ _. True"] by blast
    then show ?thesis using that Some by simp
  qed (use that in simp)
  have "sampler_forward softmax log_softmax argsort noise m logits =
      Inr \<lparr>sa_sampled_token_ids = map (\<lambda>t. [t]) ts, sa_logprobs = lps\<rparr>"
    unfolding sampler_forward_def assms(9) ebind_simps ts(1) lps by simp
  then show ?thesis using ts(2,3) ls(2) by auto
qed

section \<open>A sample\<close>

text \<open>All tokens that are not masked are equally likely.\<close>

definition sample_softmax :: "logit list \<Rightarrow> rat list" where
  "sample_softmax row = map (\<lambda>x. if x = NegInf then 0 else 1 / rat_of_nat (length (filter (\<lambda>x. x \<noteq> NegInf) row))) row"

definition sample_argsort :: "logit list \<Rightarrow> nat list" where
  "sample_argsort row = sort_key ((!) row) [0..<length row]"

lemma sample_softmax_ok: "softmax_ok sample_softmax"
proof -
  have "\<exists>i < length row. 0 < sample_softmax row ! i" if a: "alive row" for row
  proof -
    obtain x where "x \<in> set row" "x \<noteq> NegInf" using a by (auto simp: alive_def)
    then obtain i where i: "i < length row" "row ! i \<noteq> NegInf" unfolding in_set_conv_nth by blast
    then have "filter (\<lambda>x. x \<noteq> NegInf) row \<noteq> []" by (auto simp: filter_empty_conv)
    then show ?thesis using i by (intro exI [of _ i]) (simp add: sample_softmax_def)
  qed
  then show ?thesis by (simp add: softmax_ok_def) (simp add: sample_softmax_def)
qed

lemma sample_argsort_ok: "argsort_ok sample_argsort"
  by (simp add: argsort_ok_def sample_argsort_def lessThan_atLeast0)

text \<open>
  Three requests over four tokens: greedy with a mask, random with a bad word that the last token
  begins, and random below its minimal length.
\<close>

definition sample_metadata :: sampler_metadata where
  "sample_metadata =
     \<lparr>me_temperature = Some [-1, 1, 1 / 2], me_all_greedy = False, me_all_random = False,
      me_top_p = Some [1, 9 / 10, 1], me_top_k = Some [4, 2, 4], me_min_p = None, me_max_num_logprobs = Some 2,
      me_no_penalties = False, me_prompt_token_ids = Some [[1, 4], [2, 3], [0, 4]],
      me_frequency = [0, 1, 0], me_presence = [0, 0, 0], me_repetition = [1, 2, 1],
      me_output_token_ids = [[1], [2, 3], [0]], me_min_tokens = [(2, 3, [1])],
      me_logit_bias = [None, None, Some [(1, 5)]],
      me_allowed_mask = Some [[False, False, False, True], [False, False, False, False], [False, False, False, False]],
      me_bad_words = [(1, [[3, 0], [2]])]\<rparr>"

definition sample_logits :: "logit list list" where
  "sample_logits = [[Fin 0, Fin 1, Fin 2, Fin 3], [Fin 3, Fin 1, Fin 2, Fin (- 1)], [Fin 0, Fin 1, Fin 2, Fin 3]]"

theorem sampled_token_permitted_witness:
  "\<exists>out. sampler_forward sample_softmax (map (\<lambda>_. 0)) sample_argsort (replicate 3 [1, 2, 3, 4]) sample_metadata sample_logits = Inr out \<and>
    forbidden sample_metadata 0 3 \<and> forbidden sample_metadata 1 0 \<and> forbidden sample_metadata 2 1 \<and>
    (\<forall>i < 3. \<exists>t < 4. sa_sampled_token_ids out ! i = [t] \<and> \<not> forbidden sample_metadata i t)"
proof -
  have shaped: "shaped 3 4 sample_logits" by (simp add: shaped_def sample_logits_def)
  have masks: "masks_ok 3 4 sample_metadata"
    by (simp add: masks_ok_def sample_metadata_def words_ok_def stops_ok_def bias_ok_def)
  have penalties: "penalties_ok 3 4 sample_metadata"
    by (simp add: penalties_ok_def sample_metadata_def)
  have sampling: "sampling_ok 3 4 sample_metadata"
    by (simp add: sampling_ok_def sample_metadata_def)
  have noise: "noise_ok 3 4 (replicate 3 [1, 2, 3, 4])" by (simp add: noise_ok_def)
  have "case process_logits sample_metadata sample_logits of Inl e \<Rightarrow> False
    | Inr ls \<Rightarrow> length ls = 3 \<and> list_all (\<lambda>r. PosInf \<notin> set r \<and> r ! 2 \<noteq> NegInf \<or> PosInf \<notin> set r \<and> r ! 1 \<noteq> NegInf) ls"
    by code_simp
  then obtain ls where ls: "process_logits sample_metadata sample_logits = Inr ls" "length ls = 3"
    "list_all (\<lambda>r. PosInf \<notin> set r \<and> r ! 2 \<noteq> NegInf \<or> PosInf \<notin> set r \<and> r ! 1 \<noteq> NegInf) ls"
    by (auto split: sum.splits)
  have "shaped 3 4 ls" using process_logits_ok [OF shaped masks penalties] ls(1) by auto
  then have "\<forall>i < 3. alive (ls ! i)"
    using ls(2,3) by (force simp: shaped_def alive_def list_all_length)
  from sampled_token_permitted [OF shaped masks penalties sampling sample_softmax_ok sample_argsort_ok noise _ ls(1) this,
      of "map (\<lambda>_. 0)"]
  have "\<exists>out. sampler_forward sample_softmax (map (\<lambda>_. 0)) sample_argsort (replicate 3 [1, 2, 3, 4]) sample_metadata sample_logits = Inr out \<and>
    (\<forall>i < 3. \<exists>t < 4. sa_sampled_token_ids out ! i = [t] \<and> \<not> forbidden sample_metadata i t)" by simp blast
  moreover have "forbidden sample_metadata 0 3" "forbidden sample_metadata 1 0" "forbidden sample_metadata 2 1"
    by (simp_all add: forbidden_def sample_metadata_def completes_def suffix_def)
  ultimately show ?thesis by blast
qed

end
