(* ===== verification/Nucleus.thy ===== *)
theory Nucleus
  imports SamplerOk
begin

text \<open>
  Top-p filtering keeps a nucleus: the fewest of the most likely tokens whose probabilities reach
  \<open>p\<close>. Here the softmax is that of exact arithmetic, as far as its documentation goes: the
  probabilities add up to one, follow the order of the logits, and do not depend on their places.
\<close>

section \<open>The mask of a sorted row\<close>

lemma sums_from_nth: "i < length xs \<Longrightarrow> sums_from a xs ! i = a + sum_list (take (Suc i) xs)"
  by (induction xs arbitrary: a i) (auto simp: nth_Cons add.assoc split: nat.split)

lemma sum_take_mono:
  fixes xs :: "rat list"
  assumes "\<forall>x \<in> set xs. 0 \<le> x" "i \<le> j"
  shows "sum_list (take i xs) \<le> sum_list (take j xs)"
proof -
  have "take j xs = take i xs @ take (j - i) (drop i xs)" using assms(2) by (metis le_add_diff_inverse take_add)
  moreover have "0 \<le> sum_list (take (j - i) (drop i xs))"
    using assms(1) by (intro sum_list_nonneg) (auto dest: in_set_takeD in_set_dropD)
  ultimately show ?thesis by simp
qed

text \<open>The mask is a prefix, cut where the sum of what is dropped would exceed \<open>1 - p\<close>.\<close>

lemma top_p_mask_prefix:
  assumes "\<forall>x \<in> set ps. 0 \<le> x" "ps \<noteq> []" "p \<le> 1"
  shows "\<exists>d < length ps. (\<forall>i < length ps. top_p_mask p ps ! i \<longleftrightarrow> i < d) \<and> sum_list (take d ps) \<le> 1 - p \<and>
    (Suc d < length ps \<longrightarrow> 1 - p < sum_list (take (Suc d) ps))"
proof -
  let ?n = "length ps" and ?P = "\<lambda>i. i = length ps - 1 \<or> 1 - p < sum_list (take (Suc i) ps)"
  have mask: "top_p_mask p ps ! i \<longleftrightarrow> \<not> ?P i" if "i < ?n" for i
    using that by (auto simp: top_p_mask_def nth_list_update sums_from_nth not_less)
  define d where "d = (LEAST i. ?P i)"
  have d: "?P d" "\<And>i. i < d \<Longrightarrow> \<not> ?P i"
    unfolding d_def by (rule LeastI [of ?P "?n - 1"]) (auto dest: not_less_Least)
  have le: "d \<le> ?n - 1" unfolding d_def by (rule Least_le) simp
  have up: "?P i" if "d \<le> i" "i < ?n" for i
  proof (cases "d = ?n - 1")
    case False
    then have "1 - p < sum_list (take (Suc d) ps)" using d(1) by blast
    also have "\<dots> \<le> sum_list (take (Suc i) ps)" using sum_take_mono [OF assms(1)] that(1) by simp
    finally show ?thesis by blast
  qed (use that le in auto)
  have "sum_list (take d ps) \<le> 1 - p"
  proof (cases d)
    case (Suc i)
    then show ?thesis using d(2) [of i] by (simp add: not_less)
  qed (use assms(3) in simp)
  moreover have "1 - p < sum_list (take (Suc d) ps)" if "Suc d < ?n" using d(1) that by auto
  moreover have "top_p_mask p ps ! i \<longleftrightarrow> i < d" if "i < ?n" for i using mask [OF that] d(2) [of i] up [OF _ that] by (cases "d \<le> i") auto
  moreover have "d < ?n" using le assms(2) by (cases ps) auto
  ultimately show ?thesis by blast
qed

section \<open>The filtered row\<close>

definition softmax_exact :: "(logit list \<Rightarrow> rat list) \<Rightarrow> bool" where
  "softmax_exact softmax \<longleftrightarrow> softmax_ok softmax \<and>
     (\<forall>row. alive row \<longrightarrow> sum_list (softmax row) = 1 \<and>
       (\<forall>i < length row. \<forall>j < length row. row ! i \<le> row ! j \<longrightarrow> softmax row ! i \<le> softmax row ! j) \<and>
       (\<forall>idx. distinct idx \<and> set idx = {..<length row} \<longrightarrow>
         softmax (map ((!) row) idx) = map ((!) (softmax row)) idx))"

lemma sum_over_permuted:
  fixes f :: "nat \<Rightarrow> rat"
  assumes "distinct idx"
  shows "(\<Sum>i \<in> set (drop d idx). f i) = sum_list (drop d (map f idx))"
  using assms by (simp add: sum_list_distinct_conv_sum_set drop_map)

text \<open>In sorted order the survivors are a suffix, none of which is masked already.\<close>

lemma nucleus_suffix:
  assumes "softmax_exact softmax" "alive asc" "sorted asc" "0 < p" "p \<le> 1"
  shows "\<exists>d < length asc. (\<forall>j < length asc. top_p_mask_sorted softmax p asc ! j = (if j < d then NegInf else asc ! j)) \<and>
    (\<forall>j. d \<le> j \<and> j < length asc \<longrightarrow> asc ! j \<noteq> NegInf) \<and>
    p \<le> sum_list (drop d (softmax asc)) \<and> sum_list (drop (Suc d) (softmax asc)) < p"
proof -
  let ?ps = "softmax asc" and ?n = "length asc"
  have ok: "softmax_ok softmax" "sum_list ?ps = 1" using assms(1,2) by (simp_all add: softmax_exact_def)
  note m = softmax_max [OF ok(1) assms(2)]
  have nonneg: "\<forall>x \<in> set ?ps. 0 \<le> x"
    and zero: "\<And>j. j < ?n \<Longrightarrow> asc ! j = NegInf \<Longrightarrow> ?ps ! j = 0"
    using ok(1) assms(2) m(1) by (auto simp: softmax_ok_def in_set_conv_nth)
  from top_p_mask_prefix [OF nonneg m(2) assms(5)] m(1) obtain d where
    d: "d < ?n" "\<forall>i < ?n. top_p_mask p ?ps ! i \<longleftrightarrow> i < d" "sum_list (take d ?ps) \<le> 1 - p"
    "Suc d < ?n \<longrightarrow> 1 - p < sum_list (take (Suc d) ?ps)" by auto
  have split: "sum_list (drop k ?ps) = 1 - sum_list (take k ?ps)" for k
    using ok(2) sum_list_append [of "take k ?ps" "drop k ?ps"] by simp
  have "asc ! j \<noteq> NegInf" if j: "d \<le> j" "j < ?n" for j
  proof
    assume neg: "asc ! j = NegInf"
    have "asc ! i \<le> asc ! j" if "i \<le> d" for i using sorted_nth_mono [OF assms(3), of i j] that j by simp
    then have "?ps ! i = 0" if "i \<le> d" for i using zero [of i] neg d(1) that by simp
    then have "sum_list (take (Suc d) ?ps) = 0"
      using d(1) m(1) by (simp add: sum_list_sum_nth)
    then have "\<not> Suc d < ?n" using d(4) assms(5) by auto
    then have "j = ?n - 1" using j d(1) by simp
    then show False
      using neg sorted_last_Max [OF assms(3) alive_max(1) [OF assms(2)]] alive_max(2) [OF assms(2)] by simp
  qed
  moreover have "sum_list (drop (Suc d) ?ps) < p"
    using d(1,4) m(1) assms(4) split [of "Suc d"] by (cases "Suc d < ?n") auto
  ultimately show ?thesis
    using d(1-3) split [of d] m(1) by (intro exI [of _ d]) (simp add: top_p_mask_sorted_def)
qed

lemma in_set_drop: "x \<in> set (drop d xs) \<longleftrightarrow> (\<exists>a. d \<le> a \<and> a < length xs \<and> x = xs ! a)"
proof
  assume "x \<in> set (drop d xs)"
  then obtain i where "i < length xs - d" "x = xs ! (d + i)" by (auto simp: in_set_conv_nth)
  then show "\<exists>a. d \<le> a \<and> a < length xs \<and> x = xs ! a" by (intro exI [of _ "d + i"]) simp
next
  assume "\<exists>a. d \<le> a \<and> a < length xs \<and> x = xs ! a"
  then obtain a where "d \<le> a" "a < length xs" "x = xs ! a" by blast
  then have "a - d < length (drop d xs)" "drop d xs ! (a - d) = x" by simp_all
  then show "x \<in> set (drop d xs)" by (metis nth_mem)
qed

text \<open>The places of an ascending sequence from \<open>d\<close> on are a smallest set of large weights.\<close>

lemma smallest_suffix:
  fixes w :: "nat \<Rightarrow> rat"
  assumes "distinct idx" "\<And>a b. a \<le> b \<Longrightarrow> b < length idx \<Longrightarrow> w (idx ! a) \<le> w (idx ! b)" "d < length idx"
    and "p \<le> sum_list (drop d (map w idx))" "sum_list (drop (Suc d) (map w idx)) < p"
  defines "kept \<equiv> set (drop d idx)"
  shows "p \<le> sum w kept" "i \<in> kept \<Longrightarrow> j \<in> set idx - kept \<Longrightarrow> w j \<le> w i"
    "i \<in> kept \<Longrightarrow> \<forall>j \<in> kept. w i \<le> w j \<Longrightarrow> sum w (kept - {i}) < p"
proof -
  have mass: "sum w kept = sum_list (drop d (map w idx))" unfolding kept_def by (rule sum_over_permuted [OF assms(1)])
  then show "p \<le> sum w kept" using assms(4) by simp
  have in_kept: "\<exists>a. d \<le> a \<and> a < length idx \<and> i = idx ! a" if "i \<in> kept" for i
    using that by (simp add: kept_def in_set_drop)
  have kept_nth: "idx ! a \<in> kept" if "d \<le> a" "a < length idx" for a
    using that by (auto simp: kept_def in_set_drop)
  show "w j \<le> w i" if ij: "i \<in> kept" "j \<in> set idx - kept"
  proof -
    obtain b where b: "b < length idx" "j = idx ! b" using ij(2) by (auto simp: in_set_conv_nth)
    then have "\<not> d \<le> b" using kept_nth ij(2) by blast
    then show ?thesis using in_kept [OF ij(1)] assms(2) b(2) by force
  qed
  show "sum w (kept - {i}) < p" if i: "i \<in> kept" "\<forall>j \<in> kept. w i \<le> w j"
  proof -
    have "w i = w (idx ! d)"
      using in_kept [OF i(1)] assms(2,3) i(2) kept_nth by (force intro: order_antisym)
    moreover have "drop d (map w idx) = w (idx ! d) # drop (Suc d) (map w idx)"
      using assms(3) by (metis Cons_nth_drop_Suc length_map nth_map)
    moreover have "sum w (kept - {i}) = sum w kept - w i" using i(1) by (simp add: kept_def sum_diff1)
    ultimately show ?thesis using mass assms(5) by simp
  qed
qed

text \<open>Scattering a suffix of the row in sorted order back to its places.\<close>

lemma scattered_suffix:
  assumes "distinct idx" "set idx = {..<length row}" "length src = length idx"
    and "\<And>j. j < length idx \<Longrightarrow> src ! j = (if j < d then NegInf else row ! (idx ! j))"
    and "\<And>j. d \<le> j \<Longrightarrow> j < length idx \<Longrightarrow> row ! (idx ! j) \<noteq> NegInf"
  defines "out \<equiv> scatter idx src row"
  shows "length out = length row" "{i. i < length row \<and> out ! i \<noteq> NegInf} = set (drop d idx)"
    "i \<in> set (drop d idx) \<Longrightarrow> out ! i = row ! i"
proof -
  note sc = scatter_ok [OF assms(1,3), of row]
  have out: "length out = length row" "\<And>j. j < length idx \<Longrightarrow> out ! (idx ! j) = src ! j"
    using sc(1,2) assms(2) by (auto simp: out_def)
  then show "length out = length row" by simp
  show "i \<in> set (drop d idx) \<Longrightarrow> out ! i = row ! i" using out(2) assms(4) by (force simp: in_set_drop)
  show "{i. i < length row \<and> out ! i \<noteq> NegInf} = set (drop d idx)"
  proof (intro set_eqI iffI)
    fix i assume i: "i \<in> {i. i < length row \<and> out ! i \<noteq> NegInf}"
    then obtain j where j: "j < length idx" "i = idx ! j" using assms(2) by (metis in_set_conv_nth lessThan_iff mem_Collect_eq)
    then have "d \<le> j" using i out(2) [of j] assms(4) [of j] by (auto split: if_splits)
    then show "i \<in> set (drop d idx)" using j by (auto simp: in_set_drop)
  next
    fix i assume i: "i \<in> set (drop d idx)"
    then obtain j where j: "d \<le> j" "j < length idx" "i = idx ! j" by (auto simp: in_set_drop)
    then have "i < length row" using assms(2) nth_mem [of j idx] by simp
    then show "i \<in> {i. i < length row \<and> out ! i \<noteq> NegInf}" using j out(2) assms(4,5) by simp
  qed
qed

text \<open>
  C18: top-p keeps the smallest nucleus. The tokens that survive have together at least the
  probability \<open>p\<close>; none that is dropped is more likely than one that is kept; without a least
  likely survivor the others would not reach \<open>p\<close>; and survivors keep their logits.
\<close>

theorem top_p_smallest_nucleus:
  assumes "softmax_exact softmax" "argsort_ok argsort" "alive row" "0 < p" "p \<le> 1"
  defines "prob \<equiv> (\<lambda>i. softmax row ! i)"
  shows "\<exists>out. top_k_top_p_row softmax argsort None (Some p) row = Inr out \<and> length out = length row \<and>
    (let kept = {i. i < length row \<and> out ! i \<noteq> NegInf} in
      (\<forall>i \<in> kept. out ! i = row ! i) \<and> p \<le> sum prob kept \<and>
      (\<forall>i \<in> kept. \<forall>j < length row. j \<notin> kept \<longrightarrow> prob j \<le> prob i) \<and>
      (\<forall>i \<in> kept. (\<forall>j \<in> kept. prob i \<le> prob j) \<longrightarrow> sum prob (kept - {i}) < p))"
proof -
  let ?n = "length row" and ?idx = "argsort row" let ?asc = "map ((!) row) ?idx" and ?ps = "map prob ?idx"
  have ok: "softmax_ok softmax" using assms(1) by (simp add: softmax_exact_def)
  have idx: "distinct ?idx" "set ?idx = {..<?n}" "sorted ?asc" using assms(2) by (simp_all add: argsort_ok_def)
  have alive: "alive ?asc" using assms(3) set_permuted [OF idx(2)] by (simp add: alive_def)
  have ps: "softmax ?asc = ?ps" using assms(1,3) idx(1,2) by (simp add: softmax_exact_def prob_def)
  let ?src = "top_p_mask_sorted softmax p ?asc" let ?out = "scatter ?idx ?src row"
  obtain d where d: "d < length ?idx" "\<And>j. j < length ?idx \<Longrightarrow> ?src ! j = (if j < d then NegInf else row ! (?idx ! j))"
    "\<And>j. d \<le> j \<Longrightarrow> j < length ?idx \<Longrightarrow> row ! (?idx ! j) \<noteq> NegInf"
    "p \<le> sum_list (drop d ?ps)" "sum_list (drop (Suc d) ?ps) < p"
    using nucleus_suffix [OF assms(1) alive idx(3) assms(4,5)] unfolding ps by auto
  have "length ?src = length ?idx" using ok by (simp add: top_p_mask_sorted_def softmax_ok_def)
  note out = scattered_suffix [OF idx(1,2) this d(2,3)]
  have mono: "prob (?idx ! a) \<le> prob (?idx ! b)" if "a \<le> b" "b < length ?idx" for a b
    using sorted_nth_mono [OF idx(3), of a b] that idx(2) assms(1,3) nth_mem [of a ?idx] nth_mem [of b ?idx]
    by (auto simp: softmax_exact_def prob_def)
  note kept = smallest_suffix [OF idx(1) mono d(1,4,5)]
  have "top_k_top_p_row softmax argsort None (Some p) row = Inr ?out"
    by (simp add: top_k_top_p_row_def top_k_mask_sorted_def Let_def)
  then show ?thesis
    using out(1,3) kept unfolding Let_def idx(2) by (intro exI [of _ ?out]) (simp add: out(2))
qed

section \<open>A sample\<close>

lemma filter_permuted:
  assumes "distinct idx" "set idx = {..<length row}"
  shows "length (filter P (map ((!) row) idx)) = length (filter P row)"
proof -
  have "length (filter P (map ((!) row) idx)) = card (set (filter (\<lambda>i. P (row ! i)) idx))"
    using distinct_card [OF distinct_filter [OF assms(1), of "\<lambda>i. P (row ! i)"]] by (simp add: filter_map comp_def)
  also have "set (filter (\<lambda>i. P (row ! i)) idx) = {i. i < length row \<and> P (row ! i)}" using assms(2) by auto
  finally show ?thesis by (simp add: length_filter_conv_card)
qed

lemma sample_softmax_exact: "softmax_exact sample_softmax"
proof -
  let ?count = "\<lambda>row. rat_of_nat (length (filter (\<lambda>x. x \<noteq> NegInf) row))"
  have sum: "sum_list (map (\<lambda>x. if x = NegInf then 0 else c) row) = c * ?count row" for c :: rat and row
    by (induction row) (simp_all add: algebra_simps)
  have "sum_list (sample_softmax row) = 1" if a: "alive row" for row
  proof -
    have "filter (\<lambda>x. x \<noteq> NegInf) row \<noteq> []" using a by (auto simp: alive_def filter_empty_conv)
    then show ?thesis by (simp add: sample_softmax_def sum)
  qed
  moreover have "sample_softmax row ! i \<le> sample_softmax row ! j"
    if "i < length row" "j < length row" "row ! i \<le> row ! j" for row i j
    using that by (auto simp: sample_softmax_def)
  moreover have "sample_softmax (map ((!) row) idx) = map ((!) (sample_softmax row)) idx"
    if "distinct idx" "set idx = {..<length row}" for row idx
    using filter_permuted [OF that] that(2) by (auto simp: sample_softmax_def)
  ultimately show ?thesis using sample_softmax_ok by (simp add: softmax_exact_def)
qed

theorem top_p_smallest_nucleus_witness:
  "\<exists>out. top_k_top_p_row sample_softmax sample_argsort None (Some (1 / 2)) [Fin 1, NegInf, Fin 0, Fin 2] = Inr out \<and>
    1 / 2 \<le> (\<Sum>i \<in> {i. i < 4 \<and> out ! i \<noteq> NegInf}. sample_softmax [Fin 1, NegInf, Fin 0, Fin 2] ! i)"
proof -
  have a: "alive [Fin 1, NegInf, Fin 0, Fin 2]" and n: "length [Fin 1, NegInf, Fin 0, Fin 2] = 4"
    by (auto simp: alive_def)
  have p: "0 < (1 / 2 :: rat)" "1 / 2 \<le> (1 :: rat)" by simp_all
  show ?thesis
    using top_p_smallest_nucleus [OF sample_softmax_exact sample_argsort_ok a p] unfolding Let_def n by blast
qed

end
