(* ===== verification/RejectionSampler.thy ===== *)
theory RejectionSampler
  imports SamplerOk
begin

text \<open>
  Rejection sampling of draft tokens (\<open>spexis/v1/sample/rejection_sampler.py\<close>). The kernels are
  programs that read and write flat buffers; the programs of a launch run in any order, given as a
  list. An access outside of a buffer is an \<open>IndexError\<close>. The uniform and the exponential noise and
  the softmax are arguments.
\<close>

section \<open>Buffers\<close>

definition tl_load :: "'a list \<Rightarrow> int \<Rightarrow> 'a res" where
  "tl_load buf i = (if 0 \<le> i \<and> i < py_len buf then Inr (buf ! nat i) else Inl IndexError)"

definition tl_store :: "'a list \<Rightarrow> int \<Rightarrow> 'a \<Rightarrow> 'a list res" where
  "tl_store buf i x = (if 0 \<le> i \<and> i < py_len buf then Inr (buf[nat i := x]) else Inl IndexError)"

text \<open>Where the draft tokens of a request stand in the flattened batch.\<close>

definition draft_span :: "int list \<Rightarrow> int \<Rightarrow> (int \<times> int) res" where
  "draft_span cu req =
     ebind (if req = 0 then Inr 0 else tl_load cu (req - 1)) (\<lambda>start_idx.
     ebind (tl_load cu req) (\<lambda>end_idx.
     Inr (start_idx, end_idx)))"

definition placeholder_token_id :: int where "placeholder_token_id = -1"
definition greedy_temperature :: rat where "greedy_temperature = -1"
definition max_spec_len :: int where "max_spec_len = 32"

section \<open>The kernels\<close>

text \<open>
  Both kernels walk over the draft tokens of a request until one is rejected; \<open>pick\<close> yields the
  token to store and whether the draft token is rejected.
\<close>

definition sample_pos :: "(int \<Rightarrow> (int \<times> bool) res) \<Rightarrow> int \<Rightarrow> int \<Rightarrow> bool \<times> int list \<Rightarrow> (bool \<times> int list) res" where
  "sample_pos pick base pos = (\<lambda>(rejected, out).
     if rejected then Inr (rejected, out)
     else ebind (pick pos) (\<lambda>(token, reject).
       ebind (tl_store out (base + pos) token) (\<lambda>out.
       Inr (reject, out))))"

definition sample_request_row ::
  "(int \<Rightarrow> (int \<times> bool) res) \<Rightarrow> int list \<Rightarrow> int \<Rightarrow> int \<Rightarrow> int \<Rightarrow> int list \<Rightarrow> int list res" where
  "sample_request_row pick bonus req base n out =
     ebind (efold (sample_pos pick base) (np_arange n) (False, out)) (\<lambda>(rejected, out).
     if rejected then Inr out
     else ebind (tl_load bonus req) (\<lambda>b. tl_store out (base + n) b))"

definition greedy_choice :: "int list \<Rightarrow> int list \<Rightarrow> int \<Rightarrow> int \<Rightarrow> (int \<times> bool) res" where
  "greedy_choice drafts target_argmax start pos =
     ebind (tl_load drafts (start + pos)) (\<lambda>draft.
     ebind (tl_load target_argmax (start + pos)) (\<lambda>target.
     Inr (target, draft \<noteq> target)))"

definition rejection_greedy_sample_kernel ::
  "int list \<Rightarrow> int list \<Rightarrow> int list \<Rightarrow> int list \<Rightarrow> bool list option \<Rightarrow> int \<Rightarrow> int \<Rightarrow> int list \<Rightarrow> int list res" where
  "rejection_greedy_sample_kernel cu drafts target_argmax bonus is_greedy spec_len req out =
     ebind (case is_greedy of None \<Rightarrow> Inr True | Some g \<Rightarrow> tl_load g req) (\<lambda>greedy.
     if \<not> greedy then Inr out
     else ebind (draft_span cu req) (\<lambda>(start, stop).
       sample_request_row (greedy_choice drafts target_argmax start) bonus req (req * (spec_len + 1)) (stop - start) out))"

text \<open>The test of a draft token: its probability under the draft and the target model, and a uniform number.\<close>

definition accepts :: "rat \<Rightarrow> rat \<Rightarrow> rat \<Rightarrow> bool" where
  "accepts draft_prob target_prob uniform \<longleftrightarrow> 0 < draft_prob \<and> uniform \<le> target_prob / draft_prob"

definition random_choice ::
  "int list \<Rightarrow> rat list list option \<Rightarrow> rat list list \<Rightarrow> int list \<Rightarrow> rat list \<Rightarrow> int \<Rightarrow> int \<Rightarrow> (int \<times> bool) res" where
  "random_choice drafts draft_probs target_probs recovered uniform start pos =
     ebind (tl_load drafts (start + pos)) (\<lambda>draft.
     ebind (case draft_probs of None \<Rightarrow> Inr 1
            | Some ps \<Rightarrow> ebind (tl_load ps (start + pos)) (\<lambda>row. tl_load row draft)) (\<lambda>draft_prob.
     ebind (ebind (tl_load target_probs (start + pos)) (\<lambda>row. tl_load row draft)) (\<lambda>target_prob.
     ebind (tl_load uniform (start + pos)) (\<lambda>u.
     if accepts draft_prob target_prob u then Inr (draft, False)
     else ebind (tl_load recovered (start + pos)) (\<lambda>token. Inr (token, True))))))"

definition rejection_random_sample_kernel ::
  "int list \<Rightarrow> int list \<Rightarrow> rat list list option \<Rightarrow> rat list list \<Rightarrow> int list \<Rightarrow> int list \<Rightarrow> rat list \<Rightarrow>
   bool list \<Rightarrow> int \<Rightarrow> int \<Rightarrow> int list \<Rightarrow> int list res" where
  "rejection_random_sample_kernel cu drafts draft_probs target_probs bonus recovered uniform is_greedy spec_len req out =
     ebind (tl_load is_greedy req) (\<lambda>greedy.
     if greedy then Inr out
     else ebind (draft_span cu req) (\<lambda>(start, stop).
       sample_request_row (random_choice drafts draft_probs target_probs recovered uniform start) bonus req
         (req * (spec_len + 1)) (stop - start) out))"

definition replace_value :: "'a \<Rightarrow> 'a \<Rightarrow> 'a \<Rightarrow> 'a" where
  "replace_value a b v = (if v = a then b else v)"

text \<open>A value of each request at each of its tokens; the kernel writes at most 32 places.\<close>

definition expand_kernel :: "'a list \<Rightarrow> int list \<Rightarrow> ('a \<Rightarrow> 'a) \<Rightarrow> int \<Rightarrow> 'a list \<Rightarrow> 'a list res" where
  "expand_kernel x cu replace req out =
     ebind (draft_span cu req) (\<lambda>(start, stop).
     ebind (tl_load x req) (\<lambda>v.
     efold (\<lambda>offset out. if offset < stop - start then tl_store out (start + offset) (replace v) else Inr out)
       (np_arange max_spec_len) out))"

definition expand_batch_to_tokens ::
  "int list \<Rightarrow> 'a \<Rightarrow> ('a \<Rightarrow> 'a) \<Rightarrow> 'a list \<Rightarrow> int list \<Rightarrow> int \<Rightarrow> 'a list res" where
  "expand_batch_to_tokens programs uninitialised replace x cu num_tokens =
     ebind (py_assert (length cu = length x)) (\<lambda>_.
     efold (expand_kernel x cu replace) programs (replicate (nat num_tokens) uninitialised))"

text \<open>
  The recovered token at a position: the exponential race among the probabilities that remain, over
  a vocabulary padded to a power of two. Without draft probabilities (n-gram drafts) the kernel
  sets the entry of the draft token to zero in place and restores it afterwards; no other program
  reads that row.
\<close>

definition residual :: "int \<Rightarrow> rat list option \<Rightarrow> rat list \<Rightarrow> rat list res" where
  "residual draft draft_row target_row =
     (case draft_row of
        None \<Rightarrow> tl_store target_row draft 0
      | Some ds \<Rightarrow> Inr (map2 (\<lambda>t d. max (t - d) 0) target_row ds))"

definition recovered_id :: "nat \<Rightarrow> rat list \<Rightarrow> rat list \<Rightarrow> nat" where
  "recovered_id padded prob q = argmax (map2 (/) prob q @ replicate (padded - length prob) 0)"

definition sample_recovered_tokens_kernel ::
  "int list \<Rightarrow> int list \<Rightarrow> rat list list option \<Rightarrow> rat list list \<Rightarrow> rat list list \<Rightarrow> nat \<Rightarrow> int \<times> int \<Rightarrow> int list \<Rightarrow> int list res"
where
  "sample_recovered_tokens_kernel cu drafts draft_probs target_probs q padded = (\<lambda>(req, pos) out.
     ebind (draft_span cu req) (\<lambda>(start, stop).
     if stop - start \<le> pos then Inr out
     else ebind (tl_load drafts (start + pos)) (\<lambda>draft.
       ebind (case draft_probs of None \<Rightarrow> Inr None
              | Some ps \<Rightarrow> ebind (tl_load ps (start + pos)) (\<lambda>row. Inr (Some row))) (\<lambda>draft_row.
       ebind (tl_load target_probs (start + pos)) (\<lambda>target_row.
       ebind (residual draft draft_row target_row) (\<lambda>prob.
       ebind (tl_load q req) (\<lambda>noise.
       tl_store out (start + pos) (int (recovered_id padded prob noise)))))))))"

section \<open>The sampler\<close>

text \<open>What \<open>compute_probs\<close> returns: the logits when all requests are greedy, else probabilities.\<close>

datatype target = Logits "logit list list" | Probs "rat list list"

fun target_argmax :: "target \<Rightarrow> int list" where
  "target_argmax (Logits ls) = map (\<lambda>r. int (argmax r)) ls"
| "target_argmax (Probs ps) = map (\<lambda>r. int (argmax r)) ps"

record rejection_noise =
  rn_uniform :: "rat list"
  rn_exponential :: "rat list list"

text \<open>The orders in which the programs of the launches run, and \<open>triton.next_power_of_2\<close>.\<close>

record launch_orders =
  lo_next_power_of_2 :: "nat \<Rightarrow> nat"
  lo_requests :: "int list"
  lo_positions :: "(int \<times> int) list"

definition expand_column ::
  "int list \<Rightarrow> 'a \<Rightarrow> 'a list option \<Rightarrow> int list \<Rightarrow> int \<Rightarrow> 'a list option res" where
  "expand_column programs zero c cu n =
     (case c of
        None \<Rightarrow> Inr None
      | Some xs \<Rightarrow> ebind (expand_batch_to_tokens programs zero (replace_value zero zero) xs cu n) (\<lambda>ys. Inr (Some ys)))"

definition compute_probs ::
  "(logit list \<Rightarrow> rat list) \<Rightarrow> (logit list \<Rightarrow> nat list) \<Rightarrow> int list \<Rightarrow> int list \<Rightarrow> sampler_metadata \<Rightarrow>
   logit list list \<Rightarrow> target res" where
  "compute_probs softmax argsort programs cu m logits =
     (if me_all_greedy m then Inr (Logits logits)
      else (case me_temperature m of
        None \<Rightarrow> Inl AttributeError
      | Some ts \<Rightarrow>
          let n = py_len logits in
          ebind (expand_batch_to_tokens programs 0 (replace_value greedy_temperature 1) ts cu n) (\<lambda>temps.
          let scaled = map2 (\<lambda>t row. map (\<lambda>x. l_div x t) row) temps logits in
          ebind (expand_column programs 0 (me_top_k m) cu n) (\<lambda>k.
          ebind (expand_column programs 0 (me_top_p m) cu n) (\<lambda>p.
          ebind (apply_top_k_top_p softmax argsort k p scaled) (\<lambda>ls.
          Inr (Probs (map softmax ls))))))))"

text \<open>Random numbers are drawn for requests with draft tokens; all of them are given here.\<close>

definition sample_recovered_tokens ::
  "(nat \<Rightarrow> nat) \<Rightarrow> (int \<times> int) list \<Rightarrow> int list \<Rightarrow> int list \<Rightarrow> rat list list option \<Rightarrow> rat list list \<Rightarrow> rat list list \<Rightarrow>
   int list res" where
  "sample_recovered_tokens next_power_of_2 programs cu drafts draft_probs target_probs q =
     (let vocab = (case target_probs of [] \<Rightarrow> 0 | row # _ \<Rightarrow> length row) in
      efold (sample_recovered_tokens_kernel cu drafts draft_probs target_probs q (next_power_of_2 vocab)) programs
        (replicate (length drafts) 0))"

definition unflatten :: "nat \<Rightarrow> nat \<Rightarrow> 'a list \<Rightarrow> 'a list list" where
  "unflatten rows width xs = map (\<lambda>i. take width (drop (i * width) xs)) [0..<rows]"

definition rejection_sample ::
  "launch_orders \<Rightarrow> rejection_noise \<Rightarrow> int list \<Rightarrow> int list \<Rightarrow> int \<Rightarrow> int list \<Rightarrow> rat list list option \<Rightarrow>
   target \<Rightarrow> int list \<Rightarrow> sampler_metadata \<Rightarrow> int list list res" where
  "rejection_sample orders noise drafts num_draft spec_len cu draft_probs target bonus m =
     (let batch = length num_draft; width = nat (spec_len + 1);
          out = replicate (batch * width) placeholder_token_id;
          is_greedy = (if me_all_greedy m then None
            else map_option (map (\<lambda>t. t = greedy_temperature)) (me_temperature m)) in
      ebind (if me_all_random m then Inr out
             else efold (rejection_greedy_sample_kernel cu drafts (target_argmax target) bonus is_greedy spec_len)
               (lo_requests orders) out) (\<lambda>out.
      if me_all_greedy m then Inr (unflatten batch width out)
      else (case (target, is_greedy) of
        (Probs probs, Some greedy) \<Rightarrow>
          ebind (sample_recovered_tokens (lo_next_power_of_2 orders) (lo_positions orders) cu drafts draft_probs probs (rn_exponential noise)) (\<lambda>recovered.
          ebind (efold (rejection_random_sample_kernel cu drafts draft_probs probs bonus recovered (rn_uniform noise) greedy spec_len)
            (lo_requests orders) out) (\<lambda>out.
          Inr (unflatten batch width out)))
      | _ \<Rightarrow> Inl TypeError)))"

definition rejection_forward ::
  "(logit list \<Rightarrow> rat list) \<Rightarrow> (logit list \<Rightarrow> nat list) \<Rightarrow> launch_orders \<Rightarrow> rejection_noise \<Rightarrow> int list \<Rightarrow>
   int list \<Rightarrow> int list \<Rightarrow> rat list list option \<Rightarrow> logit list list \<Rightarrow> int list \<Rightarrow> sampler_metadata \<Rightarrow> int list list res"
where
  "rejection_forward softmax argsort orders noise drafts num_draft cu draft_probs logits bonus m =
     (let spec_len = Max (set num_draft) in
      ebind (py_assert (spec_len \<le> max_spec_len)) (\<lambda>_.
      ebind (compute_probs softmax argsort (lo_requests orders) cu m logits) (\<lambda>target.
      rejection_sample orders noise drafts num_draft spec_len cu draft_probs target bonus m)))"

definition parse_output :: "int \<Rightarrow> int list list \<Rightarrow> int list list" where
  "parse_output vocab rows = map (filter (\<lambda>t. t \<noteq> placeholder_token_id \<and> t < vocab)) rows"

end
