(* ===== verification/RejectionOk.thy ===== *)
theory RejectionOk
  imports RejectionSampler
begin

text \<open>
  The kernels of rejection sampling: the programs of a launch do not disturb each other, and the
  row of a request is the accepted prefix of its drafts with one more token.
\<close>

section \<open>One request\<close>

text \<open>The tokens up to the first rejected draft.\<close>

fun upto_reject :: "(int \<times> bool) list \<Rightarrow> int list" where
  "upto_reject [] = []"
| "upto_reject ((t, rejected) # xs) = t # (if rejected then [] else upto_reject xs)"

definition verdict :: "(int \<times> bool) list \<Rightarrow> int \<Rightarrow> int list" where
  "verdict xs bonus = upto_reject xs @ (if \<exists>x \<in> set xs. snd x then [] else [bonus])"

definition overwrite :: "'a list \<Rightarrow> 'a list \<Rightarrow> 'a list" where
  "overwrite ts row = ts @ drop (length ts) row"

lemma upto_reject_length: "length (upto_reject xs) \<le> length xs"
  by (induction xs rule: upto_reject.induct) auto

lemma upto_reject_all: "\<forall>x \<in> set xs. \<not> snd x \<Longrightarrow> length (upto_reject xs) = length xs"
  by (induction xs rule: upto_reject.induct) auto

lemma verdict_length: "length (verdict xs b) \<le> Suc (length xs)"
  using upto_reject_length [of xs] by (simp add: verdict_def)

lemma overwrite_length: "length ts \<le> length row \<Longrightarrow> length (overwrite ts row) = length row"
  by (simp add: overwrite_def)

lemma tl_store_at:
  "tl_store (pre @ x # post) (int (length pre)) v = Inr (pre @ v # post)"
  by (simp add: tl_store_def py_len_def)

lemma rejected_loop: "efold (sample_pos pick base) ps (True, out) = Inr (True, out)"
  by (induction ps) (simp_all add: sample_pos_def)

lemma sample_loop:
  assumes "\<And>p. a \<le> p \<Longrightarrow> p < a + k \<Longrightarrow> pick (int p) = Inr (c p)" "length pre = B + a" "k \<le> length row"
  shows "efold (sample_pos pick (int B)) (map int [a..<a + k]) (False, pre @ row @ post) =
    Inr (\<exists>x \<in> set (map c [a..<a + k]). snd x, pre @ overwrite (upto_reject (map c [a..<a + k])) row @ post)"
  using assms
proof (induction k arbitrary: a pre row)
  case 0
  then show ?case by (simp add: overwrite_def)
next
  case (Suc k)
  obtain x row' where row: "row = x # row'" using Suc.prems(3) by (cases row) auto
  obtain t r where c: "c a = (t, r)" by (cases "c a")
  have range: "[a..<a + Suc k] = a # [Suc a..<Suc a + k]" by (simp add: upt_conv_Cons del: upt_Suc)
  have "pick (int a) = Inr (t, r)" using Suc.prems(1) [of a] c by simp
  moreover have "tl_store (pre @ row @ post) (int B + int a) t = Inr ((pre @ [t]) @ row' @ post)"
    using tl_store_at [of pre x "row' @ post" t] Suc.prems(2) by (simp add: row)
  ultimately have step: "sample_pos pick (int B) (int a) (False, pre @ row @ post) = Inr (r, (pre @ [t]) @ row' @ post)"
    by (simp add: sample_pos_def)
  have "efold (sample_pos pick (int B)) (map int [Suc a..<Suc a + k]) (False, (pre @ [t]) @ row' @ post) =
      Inr (\<exists>x \<in> set (map c [Suc a..<Suc a + k]). snd x,
        (pre @ [t]) @ overwrite (upto_reject (map c [Suc a..<Suc a + k])) row' @ post)"
    by (rule Suc.IH) (use Suc.prems row in simp_all)
  then show ?case
    using step unfolding range
    by (cases r) (simp_all add: c row rejected_loop overwrite_def del: upt_Suc)
qed

lemma sample_row_ok:
  assumes "\<And>p. p < n \<Longrightarrow> pick (int p) = Inr (c p)" "length pre = B" "n < length row"
    and "tl_load bonus req = Inr b"
  shows "sample_request_row pick bonus req (int B) (int n) (pre @ row @ post) =
    Inr (pre @ overwrite (verdict (map c [0..<n]) b) row @ post)"
proof -
  let ?xs = "map c [0..<n]" let ?out = "pre @ overwrite (upto_reject ?xs) row @ post"
  have loop: "efold (sample_pos pick (int B)) (np_arange (int n)) (False, pre @ row @ post) =
      Inr (\<exists>x \<in> set ?xs. snd x, ?out)"
    using sample_loop [of 0 n pick c pre B row post] assms(1-3) by (simp add: np_arange_def)
  show ?thesis
  proof (cases "\<exists>x \<in> set ?xs. snd x")
    case True
    then show ?thesis using loop by (simp add: sample_request_row_def verdict_def)
  next
    case False
    then have len: "length (upto_reject ?xs) = n" using upto_reject_all [of ?xs] by auto
    obtain x where x: "drop n row = x # drop (Suc n) row" using assms(3) by (metis Cons_nth_drop_Suc)
    have "?out = (pre @ upto_reject ?xs) @ x # drop (Suc n) row @ post" by (simp add: overwrite_def len x)
    moreover have "int B + int n = int (length (pre @ upto_reject ?xs))" using assms(2) len by simp
    ultimately have "tl_store ?out (int B + int n) b = Inr (pre @ overwrite (verdict ?xs b) row @ post)"
      using False by (simp only: tl_store_at) (simp add: verdict_def overwrite_def len)
    then show ?thesis using loop False assms(4) by (simp add: sample_request_row_def)
  qed
qed

section \<open>A launch\<close>

lemma concat_at:
  assumes "i < length rows"
  shows "concat rows = concat (take i rows) @ rows ! i @ concat (drop (Suc i) rows)"
  using id_take_nth_drop [OF assms] by (metis concat.simps(2) concat_append)

lemma concat_length_uniform: "\<forall>r \<in> set rows. length r = w \<Longrightarrow> length (concat rows) = length rows * w"
  by (induction rows) simp_all

text \<open>Programs that each rewrite the row of their request leave all rows rewritten, in any order.\<close>

lemma launch_rewrites:
  assumes "\<And>i rows. \<lbrakk>i < B; length rows = B; ok rows\<rbrakk> \<Longrightarrow>
      prog (int i) (concat rows) = Inr (concat (rows[i := f i (rows ! i)])) \<and> ok (rows[i := f i (rows ! i)])"
    and "distinct ps" "set ps \<subseteq> int ` {..<B}" "length rows = B" "ok rows"
  shows "efold prog ps (concat rows) =
    Inr (concat (map (\<lambda>i. if int i \<in> set ps then f i (rows ! i) else rows ! i) [0..<B]))"
  using assms(2-5)
proof (induction ps arbitrary: rows)
  case Nil
  then have "map (\<lambda>i. rows ! i) [0..<B] = rows" by (intro nth_equalityI) simp_all
  then show ?case by simp
next
  case (Cons p ps)
  then obtain i where i: "p = int i" "i < B" by auto
  let ?rows = "rows[i := f i (rows ! i)]"
  from assms(1) [OF i(2) Cons.prems(3,4)] have step: "prog p (concat rows) = Inr (concat ?rows)" "ok ?rows"
    by (simp_all add: i(1))
  then have "efold prog ps (concat ?rows) =
      Inr (concat (map (\<lambda>j. if int j \<in> set ps then f j (?rows ! j) else ?rows ! j) [0..<B]))"
    using Cons.prems by (intro Cons.IH) simp_all
  moreover have "map (\<lambda>j. if int j \<in> set ps then f j (?rows ! j) else ?rows ! j) [0..<B] =
      map (\<lambda>j. if int j \<in> set (p # ps) then f j (rows ! j) else rows ! j) [0..<B]"
    using Cons.prems(1,3) i by (intro map_cong refl) (auto simp: nth_list_update)
  ultimately show ?case using step(1) by simp
qed

lemma launch_rows:
  assumes "\<And>i rows. \<lbrakk>i < B; length rows = B; \<forall>r \<in> set rows. length r = w\<rbrakk> \<Longrightarrow>
      prog (int i) (concat rows) = Inr (concat (rows[i := f i (rows ! i)])) \<and> length (f i (rows ! i)) = w"
    and "distinct ps" "set ps = int ` {..<B}" "length rows = B" "\<forall>r \<in> set rows. length r = w"
  shows "efold prog ps (concat rows) = Inr (concat (map (\<lambda>i. f i (rows ! i)) [0..<B]))"
proof -
  have "prog (int i) (concat rows) = Inr (concat (rows[i := f i (rows ! i)])) \<and>
      (\<forall>r \<in> set (rows[i := f i (rows ! i)]). length r = w)"
    if i: "i < B" "length rows = B" "\<forall>r \<in> set rows. length r = w" for i rows
    using assms(1) [OF i] i(3) set_update_subset_insert [of rows i "f i (rows ! i)"] by blast
  from launch_rewrites [where ok = "\<lambda>rows. \<forall>r \<in> set rows. length r = w", OF this assms(2) _ assms(4,5)]
  have "efold prog ps (concat rows) =
      Inr (concat (map (\<lambda>i. if int i \<in> set ps then f i (rows ! i) else rows ! i) [0..<B]))" using assms(3) by blast
  also have "map (\<lambda>i. if int i \<in> set ps then f i (rows ! i) else rows ! i) [0..<B] = map (\<lambda>i. f i (rows ! i)) [0..<B]"
    using assms(3) by (intro map_cong) auto
  finally show ?thesis .
qed

section \<open>Flattened batches\<close>

text \<open>Where the entries of the \<open>i\<close>th request begin.\<close>

definition first_of :: "'a list list \<Rightarrow> nat \<Rightarrow> nat" where
  "first_of xss i = sum_list (map length (take i xss))"

lemma first_of_cong: "map length xss = map length yss \<Longrightarrow> first_of xss = first_of yss"
  by (simp add: first_of_def fun_eq_iff take_map [symmetric])

lemma concat_nth:
  assumes "i < length xss" "j < length (xss ! i)"
  shows "first_of xss i + j < length (concat xss)" "concat xss ! (first_of xss i + j) = xss ! i ! j"
proof -
  have len: "length (concat (take i xss)) = first_of xss i" by (simp add: first_of_def length_concat)
  show "first_of xss i + j < length (concat xss)" "concat xss ! (first_of xss i + j) = xss ! i ! j"
    using concat_at [OF assms(1)] assms(2) len by (simp_all add: nth_append)
qed

lemma load_flat:
  assumes "map length xss = map length yss" "i < length yss" "j < length (yss ! i)"
  shows "tl_load (concat xss) (int (first_of yss i) + int j) = Inr (xss ! i ! j)"
proof -
  have "i < length xss" "j < length (xss ! i)" using assms by (metis length_map nth_map)+
  from concat_nth [OF this] show ?thesis
    using first_of_cong [OF assms(1)] by (simp add: tl_load_def py_len_def nat_add_distrib flip: of_nat_add)
qed

lemma load_nth: "i < length xs \<Longrightarrow> tl_load xs (int i) = Inr (xs ! i)"
  by (simp add: tl_load_def py_len_def)

lemma first_of_Suc: "i < length xss \<Longrightarrow> first_of xss (Suc i) = first_of xss i + length (xss ! i)"
  by (simp add: first_of_def take_Suc_conv_app_nth)

lemma cumsum_first_of: "i < length dss \<Longrightarrow> np_cumsum (map py_len dss) ! i = int (first_of dss (Suc i))"
proof -
  have "sum_list (map py_len xss) = int (sum_list (map length xss))" for xss :: "'a list list"
    by (induction xss) (simp_all add: py_len_def)
  moreover assume "i < length dss"
  ultimately show ?thesis by (simp add: np_cumsum_nth first_of_def take_map)
qed

lemma draft_span_ok:
  assumes "i < length dss"
  shows "draft_span (np_cumsum (map py_len dss)) (int i) =
    Inr (int (first_of dss i), int (first_of dss i) + int (length (dss ! i)))"
proof -
  have "(if int i = 0 then Inr 0 else tl_load (np_cumsum (map py_len dss)) (int i - 1)) = Inr (int (first_of dss i))"
  proof (cases i)
    case 0
    then show ?thesis by (simp add: first_of_def)
  next
    case (Suc k)
    then show ?thesis
      using load_nth [of k "np_cumsum (map py_len dss)"] cumsum_first_of [of k dss] assms by simp
  qed
  moreover have "tl_load (np_cumsum (map py_len dss)) (int i) = Inr (int (first_of dss i) + int (length (dss ! i)))"
    using load_nth [of i "np_cumsum (map py_len dss)"] cumsum_first_of [OF assms] assms by (simp add: first_of_Suc)
  ultimately show ?thesis by (simp add: draft_span_def)
qed

text \<open>A row of its own for each request, wide enough for all its drafts and one token more.\<close>

lemma request_row:
  assumes "i < B" "length rows = B" "\<forall>r \<in> set rows. length r = w" "n < w" "w = nat (spec_len + 1)"
    and "\<And>p. p < n \<Longrightarrow> pick (int p) = Inr (c p)" "length bonus = B"
  shows "sample_request_row pick bonus (int i) (int i * (spec_len + 1)) (int n) (concat rows) =
    Inr (concat (rows[i := overwrite (verdict (map c [0..<n]) (bonus ! i)) (rows ! i)]))"
    "length (overwrite (verdict (map c [0..<n]) (bonus ! i)) (rows ! i)) = w"
proof -
  have i: "i < length rows" "length (rows ! i) = w" using assms(1-3) by simp_all
  have pre: "length (concat (take i rows)) = i * w"
    using concat_length_uniform [of "take i rows" w] assms(3) i(1) by (auto dest: in_set_takeD)
  have base: "int i * (spec_len + 1) = int (i * w)" using assms(4,5) by simp
  show "length (overwrite (verdict (map c [0..<n]) (bonus ! i)) (rows ! i)) = w"
    using overwrite_length [of _ "rows ! i"] verdict_length [of "map c [0..<n]" "bonus ! i"] i(2) assms(4) by simp
  have "sample_request_row pick bonus (int i) (int (i * w)) (int n)
      (concat (take i rows) @ rows ! i @ concat (drop (Suc i) rows)) =
      Inr (concat (take i rows) @ overwrite (verdict (map c [0..<n]) (bonus ! i)) (rows ! i) @ concat (drop (Suc i) rows))"
    by (rule sample_row_ok) (use assms(1,4,6,7) i pre in \<open>simp_all add: load_nth\<close>)
  then show "sample_request_row pick bonus (int i) (int i * (spec_len + 1)) (int n) (concat rows) =
      Inr (concat (rows[i := overwrite (verdict (map c [0..<n]) (bonus ! i)) (rows ! i)]))"
    unfolding base concat_at [OF i(1)] using i(1) by (simp add: upd_conv_take_nth_drop)
qed

section \<open>Greedy requests\<close>

definition greedy_choices :: "int list \<Rightarrow> int list \<Rightarrow> (int \<times> bool) list" where
  "greedy_choices ds ts = map2 (\<lambda>d t. (t, d \<noteq> t)) ds ts"

definition greedy_row :: "int list list \<Rightarrow> int list list \<Rightarrow> int list \<Rightarrow> nat \<Rightarrow> int list" where
  "greedy_row dss ass bonus i = verdict (greedy_choices (dss ! i) (ass ! i)) (bonus ! i)"

text \<open>The flattened arguments of a batch.\<close>

definition drafts_fit :: "int list list \<Rightarrow> int \<Rightarrow> int list \<Rightarrow> bool" where
  "drafts_fit dss spec_len bonus \<longleftrightarrow> length bonus = length dss \<and> (\<forall>ds \<in> set dss. py_len ds \<le> spec_len)"

lemma greedy_kernel_ok:
  assumes "drafts_fit dss spec_len bonus" "map length ass = map length dss"
    and "is_greedy = None \<or> is_greedy = Some g \<and> length g = length dss"
    and "i < length dss" "length rows = length dss" "\<forall>r \<in> set rows. length r = nat (spec_len + 1)"
  defines "f \<equiv> \<lambda>i row. if is_greedy = None \<or> g ! i then overwrite (greedy_row dss ass bonus i) row else row"
  shows "rejection_greedy_sample_kernel (np_cumsum (map py_len dss)) (concat dss) (concat ass) bonus is_greedy spec_len (int i)
      (concat rows) = Inr (concat (rows[i := f i (rows ! i)])) \<and> length (f i (rows ! i)) = nat (spec_len + 1)"
proof -
  let ?n = "length (dss ! i)" and ?w = "nat (spec_len + 1)"
  let ?c = "\<lambda>p. (ass ! i ! p, dss ! i ! p \<noteq> ass ! i ! p)"
  have greedy: "(case is_greedy of None \<Rightarrow> Inr True | Some g \<Rightarrow> tl_load g (int i)) = Inr (is_greedy = None \<or> g ! i)"
    using assms(3,4) by (auto simp: load_nth)
  have "py_len (dss ! i) \<le> spec_len" using assms(1,4) by (simp add: drafts_fit_def)
  then have n: "?n < ?w" by (simp add: py_len_def)
  have la: "length (ass ! i) = ?n" using assms(2,4) by (metis length_map nth_map)
  have pick: "greedy_choice (concat dss) (concat ass) (int (first_of dss i)) (int p) = Inr (?c p)" if "p < ?n" for p
    using load_flat [OF refl assms(4) that] load_flat [OF assms(2,4) that] by (simp add: greedy_choice_def)
  have "map ?c [0..<?n] = greedy_choices (dss ! i) (ass ! i)"
    using la by (intro nth_equalityI) (simp_all add: greedy_choices_def)
  note row = request_row [where pick = "greedy_choice (concat dss) (concat ass) (int (first_of dss i))" and c = ?c,
      OF assms(4-6) n refl pick, unfolded this, of bonus]
  have b: "length bonus = length dss" using assms(1) by (simp add: drafts_fit_def)
  show ?thesis
  proof (cases "is_greedy = None \<or> g ! i")
    case True
    then show ?thesis
      unfolding rejection_greedy_sample_kernel_def greedy ebind_simps draft_span_ok [OF assms(4)] f_def greedy_row_def
      using row [OF _ b] by simp
  next
    case False
    have "length (rows ! i) = ?w" using assms(4-6) by simp
    then show ?thesis
      unfolding rejection_greedy_sample_kernel_def greedy ebind_simps f_def using False by auto
  qed
qed

section \<open>Recovered tokens\<close>

text \<open>Every program of the grid stores at a place of its own.\<close>

lemma flat_place_inj:
  assumes "i < length xss" "j < length (xss ! i)" "k < length xss" "l < length (xss ! k)"
    and "first_of xss i + j = first_of xss k + l"
  shows "i = k \<and> j = l"
proof -
  let ?ids = "map (\<lambda>i. map (Pair i) [0..<length (xss ! i)]) [0..<length xss]"
  have len: "map length ?ids = map length xss" by (intro nth_equalityI) simp_all
  have a: "concat ?ids ! (first_of xss i + j) = (i, j)"
    using concat_nth(2) [of i ?ids j] assms(1,2) first_of_cong [OF len] by simp
  have b: "concat ?ids ! (first_of xss k + l) = (k, l)"
    using concat_nth(2) [of k ?ids l] assms(3,4) first_of_cong [OF len] by simp
  have "(i, j) = (k, l)" using a unfolding assms(5) b by (rule sym)
  then show ?thesis by simp
qed

lemma flat_place:
  assumes "k < length (concat xss)"
  shows "\<exists>i j. i < length xss \<and> j < length (xss ! i) \<and> k = first_of xss i + j"
  using assms
proof (induction xss arbitrary: k)
  case (Cons xs xss)
  show ?case
  proof (cases "k < length xs")
    case True
    then show ?thesis by (intro exI [of _ 0] exI [of _ k]) (simp add: first_of_def)
  next
    case False
    then have "k - length xs < length (concat xss)" using Cons.prems by simp
    from Cons.IH [OF this] obtain i j where "i < length xss" "j < length (xss ! i)" "k - length xs = first_of xss i + j" by blast
    then show ?thesis using False by (intro exI [of _ "Suc i"] exI [of _ j]) (simp add: first_of_def)
  qed
qed simp

text \<open>What such a launch stores: \<open>v i j\<close> at the place of the \<open>j\<close>th draft of request \<open>i\<close>.\<close>

lemma launch_places:
  assumes "\<And>i j out. \<lbrakk>i < length dss; length out = length (concat dss)\<rbrakk> \<Longrightarrow>
      prog (int i, int j) out =
        Inr (if j < length (dss ! i) then out[first_of dss i + j := v i j] else out)"
    and "distinct ps" "set ps \<subseteq> {(int i, int j) |i j. i < length dss}" "length out = length (concat dss)"
  shows "\<exists>out'. efold prog ps out = Inr out' \<and> length out' = length (concat dss) \<and>
    (\<forall>i < length dss. \<forall>j < length (dss ! i). out' ! (first_of dss i + j) =
       (if (int i, int j) \<in> set ps then v i j else out ! (first_of dss i + j)))"
  using assms(2-4)
proof (induction ps arbitrary: out)
  case (Cons p ps)
  then obtain k l where p: "p = (int k, int l)" "k < length dss" by auto
  let ?out = "if l < length (dss ! k) then out[first_of dss k + l := v k l] else out"
  have "prog p out = Inr ?out" using assms(1) [OF p(2) Cons.prems(3)] by (simp add: p(1))
  moreover have "distinct ps" "set ps \<subseteq> {(int i, int j) |i j. i < length dss}" "length ?out = length (concat dss)"
    using Cons.prems by simp_all
  from Cons.IH [OF this] obtain out' where
    out': "efold prog ps ?out = Inr out'" "length out' = length (concat dss)"
    "\<forall>i < length dss. \<forall>j < length (dss ! i). out' ! (first_of dss i + j) =
       (if (int i, int j) \<in> set ps then v i j else ?out ! (first_of dss i + j))" by blast
  moreover have "out' ! (first_of dss i + j) =
      (if (int i, int j) \<in> set (p # ps) then v i j else out ! (first_of dss i + j))"
    if ij: "i < length dss" "j < length (dss ! i)" for i j
  proof (cases "i = k \<and> j = l")
    case True
    then show ?thesis
      using out'(3) ij Cons.prems(1,3) concat_nth(1) [OF ij] by (simp add: p(1))
  next
    case False
    then have "first_of dss i + j \<noteq> first_of dss k + l" if "l < length (dss ! k)"
      using flat_place_inj [OF ij p(2) that] by blast
    then show ?thesis using out'(3) ij False by (auto simp: p(1))
  qed
  ultimately show ?case by auto
qed simp

definition residual_row :: "int \<Rightarrow> rat list option \<Rightarrow> rat list \<Rightarrow> rat list" where
  "residual_row draft draft_row target_row =
     (case draft_row of
        None \<Rightarrow> target_row[nat draft := 0]
      | Some ds \<Rightarrow> map2 (\<lambda>t d. max (t - d) 0) target_row ds)"

text \<open>The probabilities of a batch: one row for each draft token, of the length of the vocabulary.\<close>

definition probs_fit :: "nat \<Rightarrow> int list list \<Rightarrow> rat list list list option \<Rightarrow> rat list list list \<Rightarrow> bool" where
  "probs_fit vocab dss dps tps \<longleftrightarrow> map length tps = map length dss \<and>
     (\<forall>rows \<in> set tps. \<forall>r \<in> set rows. length r = vocab) \<and>
     (\<forall>ps. dps = Some ps \<longrightarrow> map length ps = map length dss \<and> (\<forall>rows \<in> set ps. \<forall>r \<in> set rows. length r = vocab)) \<and>
     (\<forall>ds \<in> set dss. \<forall>d \<in> set ds. 0 \<le> d \<and> d < int vocab)"

definition recovered_at ::
  "int list list \<Rightarrow> rat list list list option \<Rightarrow> rat list list list \<Rightarrow> rat list list \<Rightarrow> nat \<Rightarrow> nat \<Rightarrow> nat \<Rightarrow> int" where
  "recovered_at dss dps tps q padded i j =
     int (recovered_id padded (residual_row (dss ! i ! j) (map_option (\<lambda>ps. ps ! i ! j) dps) (tps ! i ! j)) (q ! i))"

lemma same_lengths_nth: "map length xss = map length yss \<Longrightarrow> i < length yss \<Longrightarrow> length (xss ! i) = length (yss ! i)"
  by (metis length_map nth_map)

lemma recovered_kernel_ok:
  assumes "probs_fit vocab dss dps tps" "length q = length dss" "i < length dss" "length out = length (concat dss)"
  shows "sample_recovered_tokens_kernel (np_cumsum (map py_len dss)) (concat dss) (map_option concat dps) (concat tps) q padded
      (int i, int j) out =
    Inr (if j < length (dss ! i) then out[first_of dss i + j := recovered_at dss dps tps q padded i j] else out)"
proof (cases "j < length (dss ! i)")
  case True
  let ?p = "int (first_of dss i) + int j" and ?d = "dss ! i ! j"
  have "dss ! i \<in> set dss" "?d \<in> set (dss ! i)" using assms(3) True by simp_all
  then have t: "map length tps = map length dss" "0 \<le> ?d" "?d < int vocab"
    using assms(1) by (auto simp: probs_fit_def)
  have "tps ! i \<in> set tps" "tps ! i ! j \<in> set (tps ! i)"
    using t(1) assms(3) True same_lengths_nth [OF t(1) assms(3)] by (metis length_map nth_mem)+
  then have len: "length (tps ! i ! j) = vocab" using assms(1) by (auto simp: probs_fit_def)
  have draft_row: "(case map_option concat dps of None \<Rightarrow> Inr None
      | Some ps \<Rightarrow> ebind (tl_load ps ?p) (\<lambda>row. Inr (Some row))) = Inr (map_option (\<lambda>ps. ps ! i ! j) dps)"
  proof (cases dps)
    case (Some ps)
    then have "map length ps = map length dss" using assms(1) by (simp add: probs_fit_def)
    then show ?thesis by (simp add: Some load_flat [OF _ assms(3) True])
  qed simp
  have res: "residual ?d (map_option (\<lambda>ps. ps ! i ! j) dps) (tps ! i ! j) =
      Inr (residual_row ?d (map_option (\<lambda>ps. ps ! i ! j) dps) (tps ! i ! j))"
    using t(2,3) len by (cases dps) (simp_all add: residual_def residual_row_def tl_store_def py_len_def)
  have store: "tl_store out ?p x = Inr (out[first_of dss i + j := x])" for x
    using concat_nth(1) [OF assms(3) True] assms(4) by (simp add: tl_store_def py_len_def nat_add_distrib)
  have "\<not> int (first_of dss i) + int (length (dss ! i)) - int (first_of dss i) \<le> int j" using True by simp
  moreover have "tl_load q (int i) = Inr (q ! i)" using assms(2,3) by (simp add: load_nth)
  ultimately show ?thesis
    by (simp only: sample_recovered_tokens_kernel_def prod.case draft_span_ok [OF assms(3)] ebind_simps if_False
        load_flat [OF refl assms(3) True] load_flat [OF t(1) assms(3) True] draft_row res store recovered_at_def True if_True)
next
  case False
  then show ?thesis by (simp add: sample_recovered_tokens_kernel_def draft_span_ok [OF assms(3)])
qed

lemma recovered_ok:
  assumes "probs_fit vocab dss dps tps" "length q = length dss" "concat dss \<noteq> [] \<longrightarrow> 0 < vocab"
    and "distinct ps" "set ps \<subseteq> {(int i, int j) |i j. i < length dss}"
    and "\<forall>i < length dss. \<forall>j < length (dss ! i). (int i, int j) \<in> set ps"
  shows "\<exists>rec. sample_recovered_tokens next_power_of_2 ps (np_cumsum (map py_len dss)) (concat dss) (map_option concat dps) (concat tps) q =
      Inr (concat rec) \<and> map length rec = map length dss \<and>
    (\<forall>i < length dss. \<forall>j < length (dss ! i). rec ! i ! j = recovered_at dss dps tps q (next_power_of_2 vocab) i j)"
proof -
  let ?v = "recovered_at dss dps tps q (next_power_of_2 vocab)"
  let ?rec = "map (\<lambda>i. map (?v i) [0..<length (dss ! i)]) [0..<length dss]"
  have lens: "map length ?rec = map length dss" by (intro nth_equalityI) simp_all
  have t: "map length tps = map length dss" "\<forall>rows \<in> set tps. \<forall>r \<in> set rows. length r = vocab"
    using assms(1) by (simp_all add: probs_fit_def)
  have vocab: "(case concat tps of [] \<Rightarrow> 0 | row # _ \<Rightarrow> length row) = vocab" if nonempty: "concat dss \<noteq> []"
  proof -
    have "length (concat tps) = length (concat dss)" using t(1) by (simp add: length_concat)
    then obtain row rows where row: "concat tps = row # rows" using nonempty by (cases "concat tps") auto
    then have "row \<in> set (concat tps)" by simp
    then have "length row = vocab" using t(2) by auto
    then show ?thesis by (simp add: row)
  qed
  let ?prog = "sample_recovered_tokens_kernel (np_cumsum (map py_len dss)) (concat dss) (map_option concat dps) (concat tps) q"
  have launch: "\<exists>out. efold (?prog padded) ps (replicate (length (concat dss)) 0) = Inr out \<and> length out = length (concat dss) \<and>
      (\<forall>i < length dss. \<forall>j < length (dss ! i). out ! (first_of dss i + j) = (if (int i, int j) \<in> set ps
         then recovered_at dss dps tps q padded i j else replicate (length (concat dss)) 0 ! (first_of dss i + j)))" for padded
    by (rule launch_places [OF recovered_kernel_ok [OF assms(1,2)] assms(4,5)]) simp_all
  have "\<exists>out. efold (?prog (next_power_of_2 (case concat tps of [] \<Rightarrow> 0 | row # _ \<Rightarrow> length row))) ps
      (replicate (length (concat dss)) 0) = Inr out \<and> length out = length (concat dss) \<and>
      (\<forall>i < length dss. \<forall>j < length (dss ! i). out ! (first_of dss i + j) = ?v i j)"
  proof (cases "concat dss = []")
    case True
    have "length (dss ! i) = 0" if "i < length dss" for i using True that by simp
    then show ?thesis using launch [of "next_power_of_2 (case concat tps of [] \<Rightarrow> 0 | row # _ \<Rightarrow> length row)"] by auto
  next
    case False
    then show ?thesis using launch [of "next_power_of_2 vocab"] assms(6) unfolding vocab [OF False] by auto
  qed
  then obtain out where out: "sample_recovered_tokens next_power_of_2 ps (np_cumsum (map py_len dss)) (concat dss) (map_option concat dps) (concat tps) q =
      Inr out" "length out = length (concat dss)"
    "\<forall>i < length dss. \<forall>j < length (dss ! i). out ! (first_of dss i + j) = ?v i j"
    unfolding sample_recovered_tokens_def Let_def by blast
  have "out = concat ?rec"
  proof (rule nth_equalityI)
    show "length out = length (concat ?rec)" using out(2) lens by (simp add: length_concat)
    fix k assume "k < length out"
    then obtain i j where ij: "i < length dss" "j < length (dss ! i)" "k = first_of dss i + j"
      using out(2) flat_place by metis
    then show "out ! k = concat ?rec ! k"
      using out(3) concat_nth(2) [of i ?rec j] first_of_cong [OF lens] by simp
  qed
  then show ?thesis using out(1) lens by (intro exI [of _ ?rec]) auto
qed

section \<open>Random requests\<close>

definition draft_prob :: "int list list \<Rightarrow> rat list list list option \<Rightarrow> nat \<Rightarrow> nat \<Rightarrow> rat" where
  "draft_prob dss dps i j = (case dps of None \<Rightarrow> 1 | Some ps \<Rightarrow> ps ! i ! j ! nat (dss ! i ! j))"

definition random_choices ::
  "nat \<Rightarrow> int list list \<Rightarrow> rat list list list option \<Rightarrow> rat list list list \<Rightarrow> rat list list \<Rightarrow> rat list list \<Rightarrow> nat \<Rightarrow> (int \<times> bool) list"
where
  "random_choices padded dss dps tps us q i =
     map (\<lambda>j. if accepts (draft_prob dss dps i j) (tps ! i ! j ! nat (dss ! i ! j)) (us ! i ! j) then (dss ! i ! j, False)
       else (recovered_at dss dps tps q padded i j, True)) [0..<length (dss ! i)]"

definition random_row ::
  "nat \<Rightarrow> int list list \<Rightarrow> rat list list list option \<Rightarrow> rat list list list \<Rightarrow> int list \<Rightarrow> rat list list \<Rightarrow> rat list list \<Rightarrow> nat \<Rightarrow> int list"
where
  "random_row padded dss dps tps bonus us q i = verdict (random_choices padded dss dps tps us q i) (bonus ! i)"

lemma random_kernel_ok:
  assumes "drafts_fit dss spec_len bonus" "probs_fit vocab dss dps tps" "map length us = map length dss"
    and "map length rec = map length dss"
    and "\<forall>i < length dss. \<forall>j < length (dss ! i). rec ! i ! j = recovered_at dss dps tps q padded i j"
    and "length g = length dss" "i < length dss" "length rows = length dss" "\<forall>r \<in> set rows. length r = nat (spec_len + 1)"
  defines "f \<equiv> \<lambda>i row. if g ! i then row else overwrite (random_row padded dss dps tps bonus us q i) row"
  shows "rejection_random_sample_kernel (np_cumsum (map py_len dss)) (concat dss) (map_option concat dps) (concat tps) bonus
      (concat rec) (concat us) g spec_len (int i) (concat rows) =
    Inr (concat (rows[i := f i (rows ! i)])) \<and> length (f i (rows ! i)) = nat (spec_len + 1)"
proof -
  let ?n = "length (dss ! i)" and ?w = "nat (spec_len + 1)"
  let ?c = "\<lambda>j. if accepts (draft_prob dss dps i j) (tps ! i ! j ! nat (dss ! i ! j)) (us ! i ! j) then (dss ! i ! j, False)
       else (recovered_at dss dps tps q padded i j, True)"
  let ?pick = "random_choice (concat dss) (map_option concat dps) (concat tps) (concat rec) (concat us) (int (first_of dss i))"
  have "py_len (dss ! i) \<le> spec_len" using assms(1,7) by (simp add: drafts_fit_def)
  then have n: "?n < ?w" by (simp add: py_len_def)
  have pick: "?pick (int j) = Inr (?c j)" if j: "j < ?n" for j
  proof -
    let ?d = "dss ! i ! j" and ?at = "int (first_of dss i) + int j"
    have "dss ! i \<in> set dss" "?d \<in> set (dss ! i)" using assms(7) j by simp_all
    then have t: "map length tps = map length dss" "0 \<le> ?d" "?d < int vocab"
      using assms(2) by (auto simp: probs_fit_def)
    have row: "tl_load r ?d = Inr (r ! nat ?d)" if "length r = vocab" for r :: "rat list"
      using t(2,3) that by (simp add: tl_load_def py_len_def)
    have wide: "length (xss ! i ! j) = vocab"
      if "map length xss = map length dss" "\<forall>rows \<in> set xss. \<forall>r \<in> set rows. length r = vocab" for xss :: "rat list list list"
      using that assms(7) j same_lengths_nth [OF that(1) assms(7)] by (metis length_map nth_mem)
    have "(case map_option concat dps of None \<Rightarrow> Inr 1 | Some ps \<Rightarrow> ebind (tl_load ps ?at) (\<lambda>row. tl_load row ?d)) =
        Inr (draft_prob dss dps i j)"
    proof (cases dps)
      case (Some ps)
      then have ps: "map length ps = map length dss" "\<forall>rows \<in> set ps. \<forall>r \<in> set rows. length r = vocab"
        using assms(2) by (simp_all add: probs_fit_def)
      show ?thesis by (simp add: Some load_flat [OF ps(1) assms(7) j] row [OF wide [OF ps]] draft_prob_def)
    qed (simp add: draft_prob_def)
    moreover have "tl_load (tps ! i ! j) ?d = Inr (tps ! i ! j ! nat ?d)"
      using assms(2) by (intro row wide) (simp_all add: probs_fit_def)
    ultimately show ?thesis
      using assms(5,7) j
      by (simp only: random_choice_def load_flat [OF refl assms(7) j] load_flat [OF t(1) assms(7) j]
          load_flat [OF assms(3,7) j] load_flat [OF assms(4,7) j] ebind_simps) simp
  qed
  note row = request_row [where pick = ?pick and c = ?c, OF assms(7-9) n refl pick, of bonus]
  have b: "length bonus = length dss" using assms(1) by (simp add: drafts_fit_def)
  have "tl_load g (int i) = Inr (g ! i)" using assms(6,7) by (simp add: load_nth)
  moreover have "length (rows ! i) = ?w" using assms(7-9) by simp
  ultimately show ?thesis
    using row [OF _ b]
    by (simp add: rejection_random_sample_kernel_def draft_span_ok [OF assms(7)] f_def random_row_def random_choices_def)
qed

section \<open>A batch\<close>

lemma unflatten_concat:
  assumes "\<forall>r \<in> set rows. length r = w"
  shows "unflatten (length rows) w (concat rows) = rows"
proof (rule nth_equalityI)
  fix i assume "i < length (unflatten (length rows) w (concat rows))"
  then have i: "i < length rows" by (simp add: unflatten_def)
  have "length (concat (take i rows)) = i * w"
    using concat_length_uniform [of "take i rows" w] assms i by (auto dest: in_set_takeD)
  then show "unflatten (length rows) w (concat rows) ! i = rows ! i"
    using i assms concat_at [OF i] by (simp add: unflatten_def)
qed (simp add: unflatten_def)

text \<open>The arguments of a batch agree with each other, and every program of each launch runs once.\<close>

definition batch_fits ::
  "nat \<Rightarrow> launch_orders \<Rightarrow> rejection_noise \<Rightarrow> int list list \<Rightarrow> int \<Rightarrow> rat list list list option \<Rightarrow> rat list list list \<Rightarrow>
   int list list \<Rightarrow> target \<Rightarrow> int list \<Rightarrow> rat list list \<Rightarrow> sampler_metadata \<Rightarrow> bool" where
  "batch_fits vocab orders noise dss spec_len dps tps ass target bonus us m \<longleftrightarrow>
     drafts_fit dss spec_len bonus \<and> target_argmax target = concat ass \<and> map length ass = map length dss \<and>
     distinct (lo_requests orders) \<and> set (lo_requests orders) = int ` {..<length dss} \<and>
     \<not> (me_all_greedy m \<and> me_all_random m) \<and>
     (\<not> me_all_greedy m \<longrightarrow> target = Probs (concat tps) \<and> probs_fit vocab dss dps tps \<and> 0 < vocab \<and>
       map length us = map length dss \<and> rn_uniform noise = concat us \<and> length (rn_exponential noise) = length dss \<and>
       distinct (lo_positions orders) \<and> set (lo_positions orders) \<subseteq> {(int i, int j) |i j. i < length dss} \<and>
       (\<forall>i < length dss. \<forall>j < length (dss ! i). (int i, int j) \<in> set (lo_positions orders)) \<and>
       (\<exists>ts. me_temperature m = Some ts \<and> length ts = length dss \<and>
         (me_all_random m \<longrightarrow> (\<forall>t \<in> set ts. t \<noteq> greedy_temperature))))"

definition greedy_request :: "sampler_metadata \<Rightarrow> nat \<Rightarrow> bool" where
  "greedy_request m i \<longleftrightarrow> me_all_greedy m \<or> (\<exists>ts. me_temperature m = Some ts \<and> ts ! i = greedy_temperature)"

definition request_tokens ::
  "nat \<Rightarrow> rejection_noise \<Rightarrow> int list list \<Rightarrow> rat list list list option \<Rightarrow> rat list list list \<Rightarrow>
   int list list \<Rightarrow> int list \<Rightarrow> rat list list \<Rightarrow> sampler_metadata \<Rightarrow> nat \<Rightarrow> int list" where
  "request_tokens padded noise dss dps tps ass bonus us m i =
     (if greedy_request m i then greedy_row dss ass bonus i
      else random_row padded dss dps tps bonus us (rn_exponential noise) i)"

lemma greedy_launch:
  assumes "drafts_fit dss spec_len bonus" "map length ass = map length dss" "distinct ps" "set ps = int ` {..<length dss}"
    and "is_greedy = None \<or> is_greedy = Some g \<and> length g = length dss" "length rows = length dss"
    and "\<forall>r \<in> set rows. length r = nat (spec_len + 1)"
  shows "efold (rejection_greedy_sample_kernel (np_cumsum (map py_len dss)) (concat dss) (concat ass) bonus is_greedy spec_len)
      ps (concat rows) = Inr (concat (map (\<lambda>i. if is_greedy = None \<or> g ! i
        then overwrite (greedy_row dss ass bonus i) (rows ! i) else rows ! i) [0..<length dss]))"
  by (rule launch_rows [where w = "nat (spec_len + 1)"]) (use greedy_kernel_ok [OF assms(1,2,5)] assms(3,4,6,7) in auto)

lemma random_launch:
  assumes "drafts_fit dss spec_len bonus" "probs_fit vocab dss dps tps" "map length us = map length dss"
    and "map length rec = map length dss"
    and "\<forall>i < length dss. \<forall>j < length (dss ! i). rec ! i ! j = recovered_at dss dps tps q padded i j"
    and "length g = length dss" "distinct ps" "set ps = int ` {..<length dss}" "length rows = length dss"
    and "\<forall>r \<in> set rows. length r = nat (spec_len + 1)"
  shows "efold (rejection_random_sample_kernel (np_cumsum (map py_len dss)) (concat dss) (map_option concat dps) (concat tps) bonus
      (concat rec) (concat us) g spec_len) ps (concat rows) = Inr (concat (map (\<lambda>i. if g ! i then rows ! i
        else overwrite (random_row padded dss dps tps bonus us q i) (rows ! i)) [0..<length dss]))"
  by (rule launch_rows [where w = "nat (spec_len + 1)"]) (use random_kernel_ok [OF assms(1-6)] assms(7-10) in auto)

lemma row_width:
  assumes "drafts_fit dss spec_len bonus" "i < length dss" "length xs = length (dss ! i)"
  shows "length (overwrite (verdict xs b) (replicate (nat (spec_len + 1)) x)) = nat (spec_len + 1)"
proof -
  have "py_len (dss ! i) \<le> spec_len" using assms(1,2) by (simp add: drafts_fit_def)
  then have "length (verdict xs b) \<le> nat (spec_len + 1)" using verdict_length [of xs b] assms(3) by (simp add: py_len_def)
  then show ?thesis by (simp add: overwrite_length)
qed

lemma greedy_choices_length: "map length ass = map length dss \<Longrightarrow> i < length dss \<Longrightarrow>
    length (greedy_choices (dss ! i) (ass ! i)) = length (dss ! i)"
  using same_lengths_nth [of ass dss i] by (simp add: greedy_choices_def)

text \<open>The rows that are returned: the tokens of each request, then placeholders.\<close>

lemma rejection_sample_ok:
  assumes "batch_fits vocab orders noise dss spec_len dps tps ass target bonus us m"
  shows "rejection_sample orders noise (concat dss) (map py_len dss) spec_len (np_cumsum (map py_len dss))
      (map_option concat dps) target bonus m =
    Inr (map (\<lambda>i. overwrite (request_tokens (lo_next_power_of_2 orders vocab) noise dss dps tps ass bonus us m i)
      (replicate (nat (spec_len + 1)) placeholder_token_id)) [0..<length dss])"
proof -
  let ?B = "length dss" and ?w = "nat (spec_len + 1)" let ?blank = "replicate ?w placeholder_token_id"
  have fit: "drafts_fit dss spec_len bonus" "target_argmax target = concat ass" "map length ass = map length dss"
    "distinct (lo_requests orders)" "set (lo_requests orders) = int ` {..<?B}" "\<not> (me_all_greedy m \<and> me_all_random m)"
    using assms by (simp_all add: batch_fits_def)
  have blank: "replicate (k * ?w) placeholder_token_id = concat (replicate k ?blank)" for k
    by (induction k) (simp_all add: replicate_add)
  have blanks: "length (replicate ?B ?blank) = ?B" "\<forall>r \<in> set (replicate ?B ?blank). length r = ?w" by simp_all
  note greedy = greedy_launch [OF fit(1,3,4,5) _ blanks]
  have gw: "length (overwrite (greedy_row dss ass bonus i) ?blank) = ?w" if "i < ?B" for i
    unfolding greedy_row_def by (rule row_width [OF fit(1) that greedy_choices_length [OF fit(3) that]])
  have whole: "unflatten ?B ?w (concat (map f [0..<?B])) = map f [0..<?B]" if "\<And>i. i < ?B \<Longrightarrow> length (f i) = ?w" for f :: "nat \<Rightarrow> int list"
    using unflatten_concat [of "map f [0..<?B]" ?w] that by simp
  show ?thesis
  proof (cases "me_all_greedy m")
    case True
    then have "\<not> me_all_random m" using fit(6) by simp
    then show ?thesis
      using True gw by (simp add: rejection_sample_def Let_def fit(2) blank greedy whole request_tokens_def greedy_request_def)
  next
    case False
    then obtain ts where ts: "me_temperature m = Some ts" "length ts = ?B"
      "me_all_random m \<longrightarrow> (\<forall>t \<in> set ts. t \<noteq> greedy_temperature)" using assms by (auto simp: batch_fits_def)
    let ?g = "map (\<lambda>t. t = greedy_temperature) ts"
    from False assms have r: "target = Probs (concat tps)" "probs_fit vocab dss dps tps" "0 < vocab"
      "map length us = map length dss" "rn_uniform noise = concat us" "length (rn_exponential noise) = ?B"
      "distinct (lo_positions orders)" "set (lo_positions orders) \<subseteq> {(int i, int j) |i j. i < ?B}"
      "\<forall>i < ?B. \<forall>j < length (dss ! i). (int i, int j) \<in> set (lo_positions orders)" by (simp_all add: batch_fits_def)
    obtain rec where rec: "sample_recovered_tokens (lo_next_power_of_2 orders) (lo_positions orders) (np_cumsum (map py_len dss)) (concat dss)
        (map_option concat dps) (concat tps) (rn_exponential noise) = Inr (concat rec)" "map length rec = map length dss"
      "\<forall>i < ?B. \<forall>j < length (dss ! i). rec ! i ! j =
        recovered_at dss dps tps (rn_exponential noise) (lo_next_power_of_2 orders vocab) i j"
      using recovered_ok [OF r(2,6) _ r(7-9)] r(3) by blast
    let ?rows = "map (\<lambda>i. if ?g ! i then overwrite (greedy_row dss ass bonus i) ?blank else ?blank) [0..<?B]"
    have first: "(if me_all_random m then Inr (replicate (?B * ?w) placeholder_token_id)
        else efold (rejection_greedy_sample_kernel (np_cumsum (map py_len dss)) (concat dss) (target_argmax target) bonus
          (Some ?g) spec_len) (lo_requests orders) (replicate (?B * ?w) placeholder_token_id)) = Inr (concat ?rows)"
    proof (cases "me_all_random m")
      case True
      then have "\<not> ?g ! i" if "i < ?B" for i using ts(2,3) that by simp
      then have "?rows = replicate ?B ?blank" by (intro nth_equalityI) simp_all
      then show ?thesis using True blank by simp
    next
      case False
      have "?rows = map (\<lambda>i. if Some ?g = None \<or> ?g ! i then overwrite (greedy_row dss ass bonus i) (replicate ?B ?blank ! i)
          else replicate ?B ?blank ! i) [0..<?B]" by (intro map_cong) simp_all
      then show ?thesis unfolding fit(2) blank using greedy [of "Some ?g" ?g] False ts(2) by (simp only: length_map simp_thms if_False)
    qed
    have rows: "length ?rows = ?B" "\<forall>r \<in> set ?rows. length r = ?w" using gw by auto
    have g: "length ?g = ?B" "length (map py_len dss) = ?B"
      "map_option (map (\<lambda>t. t = greedy_temperature)) (me_temperature m) = Some ?g"
      using False ts(1,2) by simp_all
    note second = random_launch [OF fit(1) r(2,4) rec(2,3) g(1) fit(4,5) rows]
    let ?final = "\<lambda>i. overwrite (request_tokens (lo_next_power_of_2 orders vocab) noise dss dps tps ass bonus us m i) ?blank"
    have final: "map (\<lambda>i. if ?g ! i then ?rows ! i
        else overwrite (random_row (lo_next_power_of_2 orders vocab) dss dps tps bonus us (rn_exponential noise) i) (?rows ! i)) [0..<?B] = map ?final [0..<?B]"
      using False ts(1,2) by (intro map_cong) (simp_all add: request_tokens_def greedy_request_def)
    have fw: "length (?final i) = ?w" if "i < ?B" for i
      using gw [OF that] row_width [OF fit(1) that, of "random_choices (lo_next_power_of_2 orders vocab) dss dps tps us (rn_exponential noise) i"]
      by (simp add: request_tokens_def random_row_def random_choices_def)
    show ?thesis
      unfolding rejection_sample_def Let_def if_not_P [OF False] g(2,3) first ebind_simps
      by (simp only: r(1,5) prod.case target.case option.case rec(1) ebind_simps second final whole [OF fw])
  qed
qed

end
