(* ===== verification/RejectionForward.thy ===== *)
theory RejectionForward
  imports RejectionOk
begin

text \<open>
  What rejection sampling guarantees as a whole, from the logits to the parsed output: for greedy
  requests it is what plain decoding yields; for the others the drafts that pass their test and a
  token of the residual; and the first token has the distribution of the target model, up to a
  defect at uniform zero.
\<close>

section \<open>Columns for the tokens of a batch\<close>

text \<open>The kernel writes at most 32 entries, enough for requests of as many drafts.\<close>

lemma expand_loop:
  assumes "length pre = start" "length row = len"
  shows "efold (\<lambda>offset out. if offset < int len then tl_store out (int start + offset) v else Inr out)
      (np_arange (int n)) (pre @ row @ post) = Inr (pre @ replicate (min n len) v @ drop n row @ post)"
proof (induction n)
  case (Suc n)
  have arange: "np_arange (int (Suc n)) = np_arange (int n) @ [int n]" by (simp add: np_arange_def nat_add_distrib)
  show ?case
  proof (cases "n < len")
    case True
    then obtain x where "drop n row = x # drop (Suc n) row" using assms(2) by (metis Cons_nth_drop_Suc)
    then show ?thesis
      using tl_store_at [of "pre @ replicate n v" x "drop (Suc n) row @ post" v] True assms(1)
      unfolding arange efold_append Suc.IH by (simp add: min_def replicate_app_Cons_same)
  next
    case False
    then show ?thesis unfolding arange efold_append Suc.IH using assms(2) by (simp add: min_def)
  qed
qed (simp add: np_arange_def)

lemma expand_kernel_ok:
  assumes "i < length dss" "map length rows = map length dss" "length x = length dss" "length (dss ! i) \<le> 32"
  shows "expand_kernel x (np_cumsum (map py_len dss)) replace (int i) (concat rows) =
    Inr (concat (rows[i := replicate (length (dss ! i)) (replace (x ! i))]))"
proof -
  have i: "i < length rows" using assms(1,2) by (metis length_map)
  have row: "length (rows ! i) = length (dss ! i)" using assms(1,2) by (metis length_map nth_map)
  have "length (concat (take i rows)) = first_of rows i" by (simp add: first_of_def length_concat)
  then have pre: "length (concat (take i rows)) = first_of dss i" by (simp add: first_of_cong [OF assms(2)])
  have "efold (\<lambda>offset out. if offset < int (length (dss ! i)) then tl_store out (int (first_of dss i) + offset) (replace (x ! i))
      else Inr out) (np_arange (int 32)) (concat (take i rows) @ rows ! i @ concat (drop (Suc i) rows)) =
      Inr (concat (take i rows) @ replicate (length (dss ! i)) (replace (x ! i)) @ concat (drop (Suc i) rows))"
    unfolding expand_loop [OF pre row] using assms(4) row by (simp add: min_absorb2)
  then show ?thesis
    using assms(1,3) i by (simp add: expand_kernel_def draft_span_ok load_nth max_spec_len_def
        concat_at [OF i] upd_conv_take_nth_drop)
qed

lemma expand_batch_ok:
  assumes "length x = length dss" "\<forall>ds \<in> set dss. length ds \<le> 32" "distinct ps" "set ps = int ` {..<length dss}"
  shows "expand_batch_to_tokens ps zero replace x (np_cumsum (map py_len dss)) (py_len (concat dss)) =
    Inr (concat (map (\<lambda>i. replicate (length (dss ! i)) (replace (x ! i))) [0..<length dss]))"
proof -
  let ?rows = "map (\<lambda>ds. replicate (length ds) zero) dss"
  have blank: "replicate (nat (py_len (concat dss))) zero = concat ?rows"
    by (induction dss) (simp_all add: py_len_def replicate_add nat_add_distrib)
  have "expand_kernel x (np_cumsum (map py_len dss)) replace (int i) (concat rows) =
      Inr (concat (rows[i := replicate (length (dss ! i)) (replace (x ! i))])) \<and>
      map length (rows[i := replicate (length (dss ! i)) (replace (x ! i))]) = map length dss"
    if i: "i < length dss" "length rows = length dss" "map length rows = map length dss" for i rows
  proof -
    have "map length rows ! i = length (dss ! i)" using i(1,3) by simp
    then have "map length (rows[i := replicate (length (dss ! i)) (replace (x ! i))]) = map length rows"
      by (simp add: map_update) (metis list_update_id)
    then show ?thesis using expand_kernel_ok [OF i(1,3) assms(1)] assms(2) i(1,3) by simp
  qed
  note run = launch_rewrites [where ok = "\<lambda>rows. map length rows = map length dss" and rows = ?rows, OF this assms(3)]
  have "set ps \<subseteq> int ` {..<length dss}" "length ?rows = length dss" "map length ?rows = map length dss"
    using assms(4) by simp_all
  from run [OF _ _ _ this]
  have "efold (expand_kernel x (np_cumsum (map py_len dss)) replace) ps (concat ?rows) =
      Inr (concat (map (\<lambda>i. if int i \<in> set ps then replicate (length (dss ! i)) (replace (x ! i)) else ?rows ! i) [0..<length dss]))"
    by blast
  also have "map (\<lambda>i. if int i \<in> set ps then replicate (length (dss ! i)) (replace (x ! i)) else ?rows ! i) [0..<length dss] =
      map (\<lambda>i. replicate (length (dss ! i)) (replace (x ! i))) [0..<length dss]"
    using assms(4) by (intro map_cong) auto
  finally show ?thesis using assms(1) by (simp add: expand_batch_to_tokens_def blank py_assert_def)
qed

section \<open>Target probabilities\<close>

text \<open>Expanded columns put the value of a request beside each of its rows.\<close>

lemma zip_by_request:
  assumes "map length lss = map length dss"
  shows "zip (concat lss) (concat (map (\<lambda>i. replicate (length (dss ! i)) (v i)) [0..<length dss])) =
    concat (map (\<lambda>i. map (\<lambda>x. (x, v i)) (lss ! i)) [0..<length dss])"
  using assms
proof (induction lss arbitrary: dss v)
  case (Cons ls lss)
  then obtain ds ess where ess: "dss = ds # ess" "length ls = length ds" "map length lss = map length ess" by (cases dss) auto
  have upt: "[0..<length dss] = 0 # map Suc [0..<length ess]" by (simp add: ess(1) upt_conv_Cons map_Suc_upt del: upt_Suc)
  have "zip ls (replicate (length ds) (v 0)) = map (\<lambda>y. (y, v 0)) ls"
    by (simp add: ess(2) [symmetric] zip_replicate2)
  then show ?case unfolding upt using Cons.IH [OF ess(3), of "\<lambda>i. v (Suc i)"] ess by (simp add: comp_def)
qed simp

lemma each_length:
  assumes "map length lss = map length dss"
  shows "length (concat (map (\<lambda>i. map (f i) (lss ! i)) [0..<length dss])) = length (concat dss)"
proof -
  have "map length (map (\<lambda>i. map (f i) (lss ! i)) [0..<length dss]) = map length dss"
    using assms by (intro nth_equalityI) (simp_all, metis length_map nth_map)
  then show ?thesis by (simp only: length_concat)
qed

lemma zip_columns:
  assumes "map length lss = map length dss"
  shows "zip (concat (map (\<lambda>i. map (f i) (lss ! i)) [0..<length dss]))
      (zip (concat (map (\<lambda>i. replicate (length (dss ! i)) (k i)) [0..<length dss]))
        (concat (map (\<lambda>i. replicate (length (dss ! i)) (p i)) [0..<length dss]))) =
    concat (map (\<lambda>i. map (\<lambda>x. (f i x, k i, p i)) (lss ! i)) [0..<length dss])"
proof -
  let ?ks = "map (\<lambda>i. replicate (length (dss ! i)) (k i)) [0..<length dss]"
    and ?fs = "map (\<lambda>i. map (f i) (lss ! i)) [0..<length dss]"
  have ks: "map length ?ks = map length dss" by (intro nth_equalityI) simp_all
  have fs: "map length ?fs = map length dss"
    using assms by (intro nth_equalityI) (simp_all, metis length_map nth_map)
  have "zip (concat ?ks) (concat (map (\<lambda>i. replicate (length (dss ! i)) (p i)) [0..<length dss])) =
      concat (map (\<lambda>i. replicate (length (dss ! i)) (k i, p i)) [0..<length dss])"
    unfolding zip_by_request [OF ks] by (intro arg_cong [where f = concat] map_cong refl) simp
  moreover have "zip (concat ?fs) (concat (map (\<lambda>i. replicate (length (dss ! i)) (k i, p i)) [0..<length dss])) =
      concat (map (\<lambda>i. map (\<lambda>x. (f i x, k i, p i)) (lss ! i)) [0..<length dss])"
    unfolding zip_by_request [OF fs] by (intro arg_cong [where f = concat] map_cong refl) simp
  ultimately show ?thesis by simp
qed

definition request_temperature :: "sampler_metadata \<Rightarrow> nat \<Rightarrow> rat" where
  "request_temperature m i = replace_value greedy_temperature 1 (the (me_temperature m) ! i)"

definition target_row ::
  "(logit list \<Rightarrow> rat list) \<Rightarrow> (logit list \<Rightarrow> nat list) \<Rightarrow> sampler_metadata \<Rightarrow> nat \<Rightarrow> logit list \<Rightarrow> rat list" where
  "target_row softmax argsort m i row =
     (case top_k_top_p_row softmax argsort (map_option (\<lambda>ks. ks ! i) (me_top_k m)) (map_option (\<lambda>ps. ps ! i) (me_top_p m))
        (map (\<lambda>x. l_div x (request_temperature m i)) row) of
        Inl e \<Rightarrow> []
      | Inr r \<Rightarrow> softmax r)"

text \<open>Columns that fit a batch over a vocabulary.\<close>

definition columns_fit :: "nat \<Rightarrow> nat \<Rightarrow> sampler_metadata \<Rightarrow> bool" where
  "columns_fit n vocab m \<longleftrightarrow>
     (\<exists>ts. me_temperature m = Some ts \<and> length ts = n \<and> (\<forall>t \<in> set ts. t = greedy_temperature \<or> 0 < t) \<and>
       (me_all_random m \<longrightarrow> (\<forall>t \<in> set ts. t \<noteq> greedy_temperature))) \<and>
     (\<forall>ps. me_top_p m = Some ps \<longrightarrow> length ps = n) \<and>
     (\<forall>ks. me_top_k m = Some ks \<longrightarrow> length ks = n \<and> (\<forall>k \<in> set ks. 1 \<le> k \<and> k \<le> int vocab))"

lemma target_row_ok:
  assumes "softmax_ok softmax" "argsort_ok argsort" "columns_fit n vocab m" "i < n" "alive row" "length row = vocab"
  shows "\<exists>r. top_k_top_p_row softmax argsort (map_option (\<lambda>ks. ks ! i) (me_top_k m)) (map_option (\<lambda>ps. ps ! i) (me_top_p m))
      (map (\<lambda>x. l_div x (request_temperature m i)) row) = Inr r \<and> target_row softmax argsort m i row = softmax r"
    "length (target_row softmax argsort m i row) = vocab" "\<forall>p \<in> set (target_row softmax argsort m i row). 0 \<le> p"
proof -
  let ?scaled = "map (\<lambda>x. l_div x (request_temperature m i)) row"
  obtain ts where ts: "me_temperature m = Some ts" "length ts = n" "\<forall>t \<in> set ts. t = greedy_temperature \<or> 0 < t"
    using assms(3) by (auto simp: columns_fit_def)
  have "ts ! i \<in> set ts" using assms(4) ts(2) by simp
  then have "0 < request_temperature m i" using ts(1,3) by (auto simp: request_temperature_def replace_value_def)
  from scaled_alive [OF this assms(5)] have a: "alive ?scaled" .
  have "1 \<le> k \<and> k \<le> py_len ?scaled" if k: "map_option (\<lambda>ks. ks ! i) (me_top_k m) = Some k" for k
  proof -
    obtain ks where ks: "me_top_k m = Some ks" "k = ks ! i" using k by auto
    then have "k \<in> set ks" using assms(3,4) by (auto simp: columns_fit_def)
    then show ?thesis using assms(3,6) ks(1) by (auto simp: columns_fit_def py_len_def)
  qed
  from top_k_top_p_ok [OF assms(1,2) a this] obtain r where
    r: "top_k_top_p_row softmax argsort (map_option (\<lambda>ks. ks ! i) (me_top_k m)) (map_option (\<lambda>ps. ps ! i) (me_top_p m)) ?scaled =
      Inr r" "prunes ?scaled r" by blast
  then show t: "\<exists>r. top_k_top_p_row softmax argsort (map_option (\<lambda>ks. ks ! i) (me_top_k m)) (map_option (\<lambda>ps. ps ! i) (me_top_p m))
      ?scaled = Inr r \<and> target_row softmax argsort m i row = softmax r" by (simp add: target_row_def)
  have "alive r" "length r = vocab" using r(2) a assms(6) by (auto simp: prunes_def dest: list_all2_lengthD)
  moreover have "target_row softmax argsort m i row = softmax r" using r(1) by (simp add: target_row_def)
  ultimately show "length (target_row softmax argsort m i row) = vocab" "\<forall>p \<in> set (target_row softmax argsort m i row). 0 \<le> p"
    using assms(1) by (auto simp: softmax_ok_def in_set_conv_nth)
qed

text \<open>A column of the metadata at each row.\<close>

lemma expand_column_ok:
  assumes "\<forall>xs. c = Some xs \<longrightarrow> length xs = length dss" "\<forall>ds \<in> set dss. length ds \<le> 32"
    and "distinct ps" "set ps = int ` {..<length dss}"
  shows "\<exists>c'. expand_column ps zero c (np_cumsum (map py_len dss)) (py_len (concat dss)) = Inr c' \<and>
    column c' (length (concat dss)) =
      concat (map (\<lambda>i. replicate (length (dss ! i)) (map_option (\<lambda>xs. xs ! i) c)) [0..<length dss])"
proof (cases c)
  case None
  have "replicate (length (concat dss)) x = concat (map (\<lambda>i. replicate (length (dss ! i)) x) [0..<length dss])" for x :: "'a option"
  proof -
    have "replicate (length (concat dss)) x = concat (map (\<lambda>ds. replicate (length ds) x) dss)"
      by (induction dss) (simp_all add: replicate_add)
    also have "map (\<lambda>ds. replicate (length ds) x) dss = map (\<lambda>i. replicate (length (dss ! i)) x) [0..<length dss]"
      by (intro nth_equalityI) simp_all
    finally show ?thesis .
  qed
  then show ?thesis by (simp add: expand_column_def column_def None)
next
  case (Some xs)
  then have "length xs = length dss" using assms(1) by simp
  from expand_batch_ok [OF this assms(2-4), of zero "replace_value zero zero"] show ?thesis
    by (simp add: expand_column_def column_def Some map_concat comp_def replace_value_def)
qed

lemma compute_probs_ok:
  assumes "softmax_ok softmax" "argsort_ok argsort" "columns_fit (length dss) vocab m" "\<not> me_all_greedy m"
    and "\<forall>ds \<in> set dss. length ds \<le> 32" "distinct ps" "set ps = int ` {..<length dss}"
    and "map length lss = map length dss" "\<forall>rows \<in> set lss. \<forall>r \<in> set rows. length r = vocab \<and> alive r"
  shows "compute_probs softmax argsort ps (np_cumsum (map py_len dss)) m (concat lss) =
    Inr (Probs (concat (map (\<lambda>i. map (target_row softmax argsort m i) (lss ! i)) [0..<length dss])))"
proof -
  let ?B = "length dss" and ?cu = "np_cumsum (map py_len dss)" and ?n = "length (concat dss)"
  let ?each = "\<lambda>f. concat (map (\<lambda>i. map (f i) (lss ! i)) [0..<?B])"
  let ?k = "\<lambda>i. map_option (\<lambda>ks. ks ! i) (me_top_k m)" and ?p = "\<lambda>i. map_option (\<lambda>ps. ps ! i) (me_top_p m)"
  let ?scale = "\<lambda>i row. map (\<lambda>x. l_div x (request_temperature m i)) row"
  obtain ts where ts: "me_temperature m = Some ts" "length ts = ?B" using assms(3) by (auto simp: columns_fit_def)
  have n: "py_len (concat lss) = py_len (concat dss)" "length (concat lss) = ?n"
    using assms(8) by (simp_all add: py_len_def length_concat)
  have "expand_batch_to_tokens ps 0 (replace_value greedy_temperature 1) ts ?cu (py_len (concat dss)) =
      Inr (concat (map (\<lambda>i. replicate (length (dss ! i)) (request_temperature m i)) [0..<?B]))"
    using expand_batch_ok [OF ts(2) assms(5-7)] by (simp add: request_temperature_def ts(1))
  moreover have "map2 (\<lambda>t row. map (\<lambda>x. l_div x t) row)
      (concat (map (\<lambda>i. replicate (length (dss ! i)) (request_temperature m i)) [0..<?B])) (concat lss) = ?each ?scale"
    unfolding zip_commute [of _ "concat lss"] zip_by_request [OF assms(8)] by (simp add: map_concat comp_def)
  moreover have cols: "\<forall>xs. me_top_k m = Some xs \<longrightarrow> length xs = ?B" "\<forall>xs. me_top_p m = Some xs \<longrightarrow> length xs = ?B"
    using assms(3) by (simp_all add: columns_fit_def)
  moreover obtain ks where ks: "expand_column ps 0 (me_top_k m) ?cu (py_len (concat dss)) = Inr ks"
    "column ks ?n = concat (map (\<lambda>i. replicate (length (dss ! i)) (?k i)) [0..<?B])"
    using expand_column_ok [OF cols(1) assms(5-7), of 0] by blast
  moreover obtain qs where qs: "expand_column ps 0 (me_top_p m) ?cu (py_len (concat dss)) = Inr qs"
    "column qs ?n = concat (map (\<lambda>i. replicate (length (dss ! i)) (?p i)) [0..<?B])"
    using expand_column_ok [OF cols(2) assms(5-7), of 0] by blast
  moreover obtain fs where "apply_top_k_top_p softmax argsort ks qs (?each ?scale) = Inr fs"
    "map softmax fs = ?each (target_row softmax argsort m)"
  proof -
    let ?f = "\<lambda>(row, k, p). top_k_top_p_row softmax argsort k p row" and ?h = "\<lambda>i row. (?scale i row, ?k i, ?p i)"
    have row: "\<exists>r. ?f (?h i row) = Inr r \<and> target_row softmax argsort m i row = softmax r"
      if i: "i < ?B" "row \<in> set (lss ! i)" for i row
    proof -
      have "lss ! i \<in> set lss" using i(1) assms(8) by (metis length_map nth_mem)
      then show ?thesis using target_row_ok(1) [OF assms(1-3) i(1)] assms(9) i(2) by simp
    qed
    have "zip (?each ?scale) (zip (column ks ?n) (column qs ?n)) = ?each ?h"
      unfolding ks(2) qs(2) by (rule zip_columns [OF assms(8)])
    moreover have "length (?each ?scale) = ?n" by (simp add: each_length [OF assms(8)])
    moreover have "emap ?f (?each ?h) = Inr (map (\<lambda>x. projr (?f x)) (?each ?h))"
      by (rule emap_all) (use row in force)
    moreover have "map softmax (map (\<lambda>x. projr (?f x)) (?each ?h)) = ?each (target_row softmax argsort m)"
      unfolding map_concat map_map comp_def
      by (intro arg_cong [where f = concat] map_cong refl) (use row in force)
    ultimately show ?thesis using that by (simp only: apply_top_k_top_p_def)
  qed
  ultimately show ?thesis by (simp add: compute_probs_def assms(4) ts(1) n Let_def)
qed

text \<open>The token of the target model after a row of logits, as the greedy kernel sees it.\<close>

definition target_token ::
  "(logit list \<Rightarrow> rat list) \<Rightarrow> (logit list \<Rightarrow> nat list) \<Rightarrow> sampler_metadata \<Rightarrow> nat \<Rightarrow> logit list \<Rightarrow> int" where
  "target_token softmax argsort m i row =
     int (if me_all_greedy m then argmax row else argmax (target_row softmax argsort m i row))"

text \<open>
  The arguments of \<open>forward\<close>, given per request: drafts \<open>dss\<close> with their probabilities \<open>dps\<close>, logits
  \<open>lss\<close> and uniform numbers \<open>us\<close>. Every program of each launch runs once.
\<close>

definition forward_fits ::
  "nat \<Rightarrow> launch_orders \<Rightarrow> rejection_noise \<Rightarrow> int list list \<Rightarrow> rat list list list option \<Rightarrow> logit list list list \<Rightarrow>
   int list \<Rightarrow> rat list list \<Rightarrow> sampler_metadata \<Rightarrow> bool" where
  "forward_fits vocab orders noise dss dps lss bonus us m \<longleftrightarrow>
     dss \<noteq> [] \<and> length bonus = length dss \<and>
     (\<forall>ds \<in> set dss. length ds \<le> 32 \<and> (\<forall>d \<in> set ds. 0 \<le> d \<and> d < int vocab)) \<and>
     map length lss = map length dss \<and> (\<forall>rows \<in> set lss. \<forall>r \<in> set rows. length r = vocab \<and> alive r) \<and>
     (\<forall>ps. dps = Some ps \<longrightarrow> map length ps = map length dss \<and> (\<forall>rows \<in> set ps. \<forall>r \<in> set rows. length r = vocab)) \<and>
     distinct (lo_requests orders) \<and> set (lo_requests orders) = int ` {..<length dss} \<and>
     \<not> (me_all_greedy m \<and> me_all_random m) \<and>
     (\<not> me_all_greedy m \<longrightarrow> columns_fit (length dss) vocab m \<and> 0 < vocab \<and>
       map length us = map length dss \<and> rn_uniform noise = concat us \<and> length (rn_exponential noise) = length dss \<and>
       distinct (lo_positions orders) \<and> set (lo_positions orders) \<subseteq> {(int i, int j) |i j. i < length dss} \<and>
       (\<forall>i < length dss. \<forall>j < length (dss ! i). (int i, int j) \<in> set (lo_positions orders)))"

definition for_each :: "(nat \<Rightarrow> 'a \<Rightarrow> 'b) \<Rightarrow> 'a list list \<Rightarrow> 'b list list" where
  "for_each f xss = map (\<lambda>i. map (f i) (xss ! i)) [0..<length xss]"

lemma for_each_lengths: "map length (for_each f xss) = map length xss"
  unfolding for_each_def by (intro nth_equalityI) simp_all

lemma for_each_nth: "i < length xss \<Longrightarrow> j < length (xss ! i) \<Longrightarrow> for_each f xss ! i ! j = f i (xss ! i ! j)"
  by (simp add: for_each_def)

lemma for_each_all:
  assumes "\<And>i x. i < length xss \<Longrightarrow> x \<in> set (xss ! i) \<Longrightarrow> P (f i x)"
  shows "\<forall>ys \<in> set (for_each f xss). \<forall>y \<in> set ys. P y"
  using assms by (auto simp: for_each_def)

lemma concat_for_each: "map g (concat (for_each f xss)) = concat (for_each (\<lambda>i x. g (f i x)) xss)"
  by (simp add: for_each_def map_concat comp_def)

lemma concat_for_each_same: "map f (concat xss) = concat (for_each (\<lambda>_. f) xss)"
proof -
  have "map (map f) xss = map (\<lambda>i. map f (xss ! i)) [0..<length xss]" by (intro nth_equalityI) simp_all
  then show ?thesis by (simp add: for_each_def map_concat)
qed

lemma forward_ok:
  assumes "forward_fits vocab orders noise dss dps lss bonus us m" "softmax_ok softmax" "argsort_ok argsort"
  defines "spec_len \<equiv> Max (set (map py_len dss))"
  shows "\<exists>target. rejection_forward softmax argsort orders noise (concat dss) (map py_len dss) (np_cumsum (map py_len dss))
        (map_option concat dps) (concat lss) bonus m =
      rejection_sample orders noise (concat dss) (map py_len dss) spec_len (np_cumsum (map py_len dss))
        (map_option concat dps) target bonus m \<and>
      batch_fits vocab orders noise dss spec_len dps (for_each (target_row softmax argsort m) lss)
        (for_each (target_token softmax argsort m) lss) target bonus us m"
proof -
  let ?tps = "for_each (target_row softmax argsort m) lss" and ?ass = "for_each (target_token softmax argsort m) lss"
  note fits = assms(1) [unfolded forward_fits_def]
  have same: "map length lss = map length dss" using fits by blast
  note n = same map_eq_imp_length_eq [OF same]
  have rows: "\<forall>rows \<in> set lss. \<forall>r \<in> set rows. length r = vocab \<and> alive r" using fits by blast
  have "spec_len \<in> set (map py_len dss)" unfolding spec_len_def using fits by (intro Max_in) simp_all
  then have short: "spec_len \<le> max_spec_len" using fits by (auto simp: py_len_def max_spec_len_def)
  have drafts: "drafts_fit dss spec_len bonus" using fits by (simp add: drafts_fit_def spec_len_def)
  have ass: "map length ?ass = map length dss" and tps: "map length ?tps = map length dss" by (simp_all add: for_each_lengths n(1))
  have whole: "rejection_forward softmax argsort orders noise (concat dss) (map py_len dss) cu dps' ls bonus m =
      rejection_sample orders noise (concat dss) (map py_len dss) spec_len cu dps' target bonus m"
    if "compute_probs softmax argsort (lo_requests orders) cu m ls = Inr target" for cu dps' ls target
    using short unfolding rejection_forward_def Let_def spec_len_def [symmetric] that by (simp add: py_assert_def)
  show ?thesis
  proof (cases "me_all_greedy m")
    case True
    have "compute_probs softmax argsort (lo_requests orders) (np_cumsum (map py_len dss)) m (concat lss) = Inr (Logits (concat lss))"
      using True by (simp add: compute_probs_def)
    moreover have "target_token softmax argsort m = (\<lambda>_ r. int (argmax r))" using True by (simp add: fun_eq_iff target_token_def)
    then have "target_argmax (Logits (concat lss)) = concat ?ass" by (simp add: concat_for_each_same)
    ultimately show ?thesis
      using whole drafts ass fits True by (intro exI [of _ "Logits (concat lss)"] conjI) (simp_all add: batch_fits_def)
  next
    case False
    then have cols: "columns_fit (length dss) vocab m" using fits by blast
    then obtain ts where ts: "me_temperature m = Some ts" "length ts = length dss"
      "me_all_random m \<longrightarrow> (\<forall>t \<in> set ts. t \<noteq> greedy_temperature)" by (auto simp: columns_fit_def)
    have "compute_probs softmax argsort (lo_requests orders) (np_cumsum (map py_len dss)) m (concat lss) = Inr (Probs (concat ?tps))"
      unfolding for_each_def n(2) by (rule compute_probs_ok [OF assms(2,3) cols False _ _ _ n(1)]) (use fits in blast)+
    moreover have "target_token softmax argsort m = (\<lambda>i r. int (argmax (target_row softmax argsort m i r)))"
      using False by (simp add: fun_eq_iff target_token_def)
    then have "target_argmax (Probs (concat ?tps)) = concat ?ass" by (simp add: concat_for_each)
    moreover have "\<forall>rows \<in> set ?tps. \<forall>r \<in> set rows. length r = vocab"
    proof (rule for_each_all)
      fix i row assume i: "i < length lss" "row \<in> set (lss ! i)"
      then have "lss ! i \<in> set lss" by simp
      then have "length row = vocab \<and> alive row" using rows i(2) by blast
      then show "length (target_row softmax argsort m i row) = vocab"
        using target_row_ok(2) [OF assms(2,3) cols] i(1) n(2) by simp
    qed
    then have "probs_fit vocab dss dps ?tps" using fits tps by (simp add: probs_fit_def)
    ultimately show ?thesis
      using whole drafts ass fits False ts
      by (intro exI [of _ "Probs (concat ?tps)"] conjI) (simp_all add: batch_fits_def)
  qed
qed

section \<open>A batch of a greedy and of a sampling request\<close>

definition mixed_metadata :: sampler_metadata where
  "mixed_metadata = sample_metadata
     \<lparr>me_temperature := Some [-1, 1], me_top_p := None, me_top_k := Some [3, 2]\<rparr>"

definition mixed_orders :: launch_orders where
  "mixed_orders = \<lparr>lo_next_power_of_2 = (\<lambda>_. 4), lo_requests = [1, 0],
     lo_positions = [(1, 1), (0, 1), (1, 0), (0, 0)]\<rparr>"

definition mixed_noise :: rejection_noise where
  "mixed_noise = \<lparr>rn_uniform = [1 / 2, 1 / 2, 3 / 4], rn_exponential = [[1, 1, 1], [1, 1, 1]]\<rparr>"

definition mixed_logits :: "logit list list list" where
  "mixed_logits = [[[NegInf, Fin 2, NegInf], [Fin 1, NegInf, NegInf]], [[Fin 3, Fin 4, NegInf]]]"

lemma mixed_fits:
  "forward_fits 3 mixed_orders mixed_noise [[1, 2], [0]] None mixed_logits [0, 1] [[1 / 2, 1 / 2], [3 / 4]] mixed_metadata"
proof -
  have metadata: "me_temperature mixed_metadata = Some [-1, 1]" "\<not> me_all_greedy mixed_metadata"
    "\<not> me_all_random mixed_metadata" by (simp_all add: mixed_metadata_def sample_metadata_def)
  have columns: "columns_fit (length [[1, 2], [0 :: int]]) 3 mixed_metadata"
    by (simp add: columns_fit_def mixed_metadata_def sample_metadata_def greedy_temperature_def)
  have alive: "alive [NegInf, Fin 2, NegInf]" "alive [Fin 1, NegInf, NegInf]" "alive [Fin 3, Fin 4, NegInf]"
    by (simp_all add: alive_def)
  have "set (lo_positions mixed_orders) \<subseteq> {(int i, int j) |i j. i < length [[1, 2], [0 :: int]]}"
    by (auto simp: mixed_orders_def intro: exI [of _ 0] exI [of _ 1])
  then show ?thesis
    using metadata columns alive
    by (simp add: forward_fits_def mixed_orders_def mixed_noise_def mixed_logits_def
        less_Suc_eq numeral_2_eq_2 insert_commute lessThan_Suc)
qed

text \<open>What the target model yields after each row, without filters and with those of the metadata.\<close>

lemma mixed_targets:
  "target_token sample_softmax sample_argsort mixed_metadata 0 [NegInf, Fin 2, NegInf] = 1"
  "target_token sample_softmax sample_argsort mixed_metadata 0 [Fin 1, NegInf, NegInf] = 0"
  "target_row sample_softmax sample_argsort mixed_metadata 1 [Fin 3, Fin 4, NegInf] = [1 / 2, 1 / 2, 0]"
  by code_simp+

section \<open>Greedy drafts are lossless\<close>

text \<open>Parsing removes the placeholders.\<close>

lemma parse_row:
  assumes "\<forall>t \<in> set ts. 0 \<le> t \<and> t < vocab"
  shows "filter (\<lambda>t. t \<noteq> placeholder_token_id \<and> t < vocab) (overwrite ts (replicate w placeholder_token_id)) = ts"
proof -
  have "filter (\<lambda>t. t \<noteq> placeholder_token_id \<and> t < vocab) ts = ts"
    using assms by (intro filter_True) (auto simp: placeholder_token_id_def)
  then show ?thesis by (simp add: overwrite_def)
qed

text \<open>A model that decodes greedily: the verdict on drafts is a run of it.\<close>

lemma greedy_verdict_decodes:
  assumes "length as = length ds" "\<forall>j < length ds. as ! j = next (ctx @ take j ds)" "b = next (ctx @ ds)"
  defines "ts \<equiv> verdict (greedy_choices ds as) b"
  shows "ts \<noteq> [] \<and> (\<forall>j < length ts. ts ! j = next (ctx @ take j ts)) \<and> length ts \<le> Suc (length ds) \<and>
    butlast ts = take (length ts - 1) ds \<and> (length ts \<le> length ds \<longrightarrow> last ts \<noteq> ds ! (length ts - 1))"
  using assms(1-3) unfolding ts_def
proof (induction ds arbitrary: as ctx)
  case Nil
  then show ?case by (simp add: verdict_def greedy_choices_def)
next
  case (Cons d ds)
  obtain a as' where as: "as = a # as'" using Cons.prems(1) by (cases as) auto
  have a: "a = next ctx" using Cons.prems(2) as by auto
  let ?v = "verdict (greedy_choices ds as') b"
  show ?case
  proof (cases "d = a")
    case False
    then show ?thesis by (simp add: as verdict_def greedy_choices_def a)
  next
    case True
    have "as' ! j = next ((ctx @ [d]) @ take j ds)" if "j < length ds" for j
      using Cons.prems(2) that by (auto simp: as)
    moreover have "b = next ((ctx @ [d]) @ ds)" "length as' = length ds" using Cons.prems(1,3) by (simp_all add: as)
    ultimately have ih: "?v \<noteq> []" "\<forall>j < length ?v. ?v ! j = next ((ctx @ [d]) @ take j ?v)" "length ?v \<le> Suc (length ds)"
      "butlast ?v = take (length ?v - 1) ds" "length ?v \<le> length ds \<longrightarrow> last ?v \<noteq> ds ! (length ?v - 1)"
      using Cons.IH [of as' "ctx @ [d]"] by blast+
    have v: "verdict (greedy_choices (d # ds) as) b = d # ?v" using True by (simp add: as verdict_def greedy_choices_def)
    have "(d # ?v) ! j = next (ctx @ take j (d # ?v))" if "j < length (d # ?v)" for j
      using that ih(2) a True by (cases j) simp_all
    moreover have "butlast (d # ?v) = take (length (d # ?v) - 1) (d # ds)"
      using ih(1,4) by (cases ?v) (simp_all add: take_Cons')
    moreover have "last (d # ?v) \<noteq> (d # ds) ! (length (d # ?v) - 1)" if "length (d # ?v) \<le> length (d # ds)"
      using ih(1,5) that by (cases ?v) simp_all
    ultimately show ?thesis unfolding v using ih(3) by simp
  qed
qed

text \<open>
  C14: speculative decoding is lossless for greedy requests. In a batch that may also hold random
  requests, and in whatever order the programs of the kernels run, the parsed output of a greedy
  request is what the target model would decode without drafts, token by token: the drafts up to
  the first that differs, and one token of the target model; all drafts and the bonus token when
  none differs.
\<close>

theorem greedy_drafts_lossless:
  assumes "forward_fits vocab orders noise dss dps lss bonus us m" "softmax_ok softmax" "argsort_ok argsort"
    and "i < length dss" "greedy_request m i" "\<And>xs. 0 \<le> next xs \<and> next xs < int vocab"
    and "\<forall>j < length (dss ! i). target_token softmax argsort m i (lss ! i ! j) = next (ctx @ take j (dss ! i))"
    and "bonus ! i = next (ctx @ dss ! i)"
  shows "\<exists>rows ts. rejection_forward softmax argsort orders noise (concat dss) (map py_len dss) (np_cumsum (map py_len dss))
        (map_option concat dps) (concat lss) bonus m = Inr rows \<and> parse_output (int vocab) rows ! i = ts \<and>
      ts \<noteq> [] \<and> (\<forall>j < length ts. ts ! j = next (ctx @ take j ts)) \<and> length ts \<le> Suc (length (dss ! i)) \<and>
      butlast ts = take (length ts - 1) (dss ! i) \<and>
      (length ts \<le> length (dss ! i) \<longrightarrow> last ts \<noteq> dss ! i ! (length ts - 1))"
proof -
  let ?ass = "for_each (target_token softmax argsort m) lss" let ?ts = "greedy_row dss ?ass bonus i"
  obtain target spec_len where forward: "rejection_forward softmax argsort orders noise (concat dss) (map py_len dss)
      (np_cumsum (map py_len dss)) (map_option concat dps) (concat lss) bonus m =
      rejection_sample orders noise (concat dss) (map py_len dss) spec_len (np_cumsum (map py_len dss))
        (map_option concat dps) target bonus m"
    and fits: "batch_fits vocab orders noise dss spec_len dps (for_each (target_row softmax argsort m) lss) ?ass target bonus us m"
    using forward_ok [OF assms(1-3)] by blast
  have same: "map length lss = map length dss" using assms(1) by (simp add: forward_fits_def)
  have len: "length (?ass ! i) = length (dss ! i)"
    using same_lengths_nth [of ?ass dss i] same assms(4) by (simp add: for_each_lengths)
  have "?ass ! i ! j = next (ctx @ take j (dss ! i))" if "j < length (dss ! i)" for j
    using assms(4,7) that same map_eq_imp_length_eq [OF same] same_lengths_nth [OF same assms(4)] by (simp add: for_each_nth)
  then have "\<forall>j < length (dss ! i). ?ass ! i ! j = next (ctx @ take j (dss ! i))" by blast
  note run = greedy_verdict_decodes [OF len this assms(8), folded greedy_row_def]
  then have "\<forall>t \<in> set ?ts. 0 \<le> t \<and> t < int vocab" using assms(6) by (metis in_set_conv_nth)
  from parse_row [OF this] show ?thesis
    unfolding forward using rejection_sample_ok [OF fits] assms(4,5) run
    by (simp add: parse_output_def request_tokens_def)
qed

theorem greedy_drafts_lossless_witness:
  "\<exists>rows ts. rejection_forward sample_softmax sample_argsort mixed_orders mixed_noise (concat [[1, 2], [0]])
      (map py_len [[1, 2], [0 :: int]]) (np_cumsum (map py_len [[1, 2], [0 :: int]])) (map_option concat None)
      (concat mixed_logits) [0, 1] mixed_metadata = Inr rows \<and>
    parse_output 3 rows ! 0 = ts \<and> ts \<noteq> [] \<and> butlast ts = take (length ts - 1) [1, 2]"
proof -
  let ?dss = "[[1, 2], [0 :: int]]" and ?next = "\<lambda>xs :: int list. if xs = [] then 1 else 0 :: int"
  have i: "0 < length ?dss" and greedy: "greedy_request mixed_metadata 0"
    by (simp_all add: greedy_request_def mixed_metadata_def greedy_temperature_def)
  have vocab: "0 \<le> ?next xs \<and> ?next xs < int 3" for xs by simp
  have tokens: "\<forall>j < length (?dss ! 0). target_token sample_softmax sample_argsort mixed_metadata 0 (mixed_logits ! 0 ! j) =
      ?next ([] @ take j (?dss ! 0))" "[0, 1] ! 0 = ?next ([] @ ?dss ! 0)"
    by (simp_all add: less_Suc_eq numeral_2_eq_2 mixed_logits_def mixed_targets)
  obtain rows ts where r: "rejection_forward sample_softmax sample_argsort mixed_orders mixed_noise (concat ?dss)
      (map py_len ?dss) (np_cumsum (map py_len ?dss)) (map_option concat None) (concat mixed_logits) [0, 1] mixed_metadata = Inr rows"
    "parse_output (int 3) rows ! 0 = ts" "ts \<noteq> []" "butlast ts = take (length ts - 1) (?dss ! 0)"
    using greedy_drafts_lossless [OF mixed_fits sample_softmax_ok sample_argsort_ok i greedy vocab tokens] by blast
  show ?thesis by (intro exI conjI, rule r(1), rule refl) (use r(2-4) in simp_all)
qed

section \<open>Random drafts are verified\<close>

lemma verdict_shape:
  "verdict xs b \<noteq> [] \<and> length (verdict xs b) - 1 \<le> length xs \<and>
   (\<forall>j < length (verdict xs b) - 1. \<not> snd (xs ! j) \<and> verdict xs b ! j = fst (xs ! j)) \<and>
   (if length (verdict xs b) - 1 < length xs
    then snd (xs ! (length (verdict xs b) - 1)) \<and> last (verdict xs b) = fst (xs ! (length (verdict xs b) - 1))
    else last (verdict xs b) = b)"
proof (induction xs rule: upto_reject.induct)
  case (2 t rejected xs)
  show ?case
  proof (cases rejected)
    case False
    let ?v = "verdict xs b"
    have v: "verdict ((t, rejected) # xs) b = t # ?v" using False by (simp add: verdict_def)
    obtain n where n: "length ?v = Suc n" using 2 [OF False] by (cases ?v) auto
    then have "length ?v - 1 = n" by simp
    note ih = 2 [OF False, unfolded this]
    have "\<not> snd (((t, rejected) # xs) ! j) \<and> (t # ?v) ! j = fst (((t, rejected) # xs) ! j)" if "j < Suc n" for j
      using ih False that by (cases j) simp_all
    then show ?thesis using ih unfolding v by (simp add: n)
  qed (simp add: verdict_def)
qed (simp add: verdict_def)

text \<open>The race is won by an entry of the vocabulary, and by one with weight if there is any.\<close>

lemma recovered_id_ok:
  assumes "length prob = vocab" "length q = vocab" "0 < vocab" "\<forall>p \<in> set prob. 0 \<le> p" "\<forall>x \<in> set q. 0 < x"
  shows "recovered_id padded prob q < vocab"
    "y < vocab \<Longrightarrow> 0 < prob ! y \<Longrightarrow> 0 < prob ! recovered_id padded prob q"
proof -
  let ?r = "map2 (/) prob q" let ?xs = "?r @ replicate (padded - vocab) 0" let ?a = "recovered_id padded prob q"
  have a: "?a = argmax ?xs" by (simp add: recovered_id_def assms(1))
  have "?xs \<noteq> []" using assms(1-3) by auto
  from argmax_ok [OF this] have m: "?a < length ?xs" "?xs ! ?a = Max (set ?xs)" by (simp_all add: a)
  have nth: "?xs ! y = prob ! y / q ! y" "0 \<le> prob ! y" "0 < q ! y" if "y < vocab" for y
    using that assms by (simp_all add: nth_append)
  have le: "?xs ! y \<le> ?xs ! ?a" if "y < vocab" for y
    unfolding m(2) using that assms(1,2) by (intro Max_ge nth_mem) simp_all
  have pos: "?a < vocab \<and> 0 < prob ! ?a" if p: "0 < ?xs ! ?a"
  proof -
    have "?a < vocab"
    proof (rule ccontr)
      assume "\<not> ?a < vocab"
      then have "?xs ! ?a = 0" using m(1) assms(1,2) by (simp add: nth_append)
      then show False using p by simp
    qed
    then show ?thesis using p nth [of ?a] by (simp add: zero_less_divide_iff)
  qed
  show "?a < vocab"
  proof (cases "0 < ?xs ! ?a")
    case False
    have "0 \<le> ?xs ! 0" using nth [OF assms(3)] by simp
    then have "?xs ! 0 = Max (set ?xs)" using False le [OF assms(3)] m(2) by linarith
    moreover obtain x xs where "?xs = x # xs" using \<open>?xs \<noteq> []\<close> by (cases ?xs) auto
    ultimately have "argmax ?xs = 0" by (simp add: argmax_def)
    then show ?thesis using a assms(3) by simp
  qed (use pos in blast)
  show "0 < prob ! ?a" if "y < vocab" "0 < prob ! y"
  proof -
    have "0 < ?xs ! y" using nth [OF that(1)] that(2) by simp
    then show ?thesis using le [OF that(1)] pos by linarith
  qed
qed

lemma residual_row_ok:
  assumes "probs_fit vocab dss dps tps" "i < length dss" "j < length (dss ! i)" "\<forall>p \<in> set (tps ! i ! j). 0 \<le> p"
  defines "ws \<equiv> residual_row (dss ! i ! j) (map_option (\<lambda>ps. ps ! i ! j) dps) (tps ! i ! j)"
  shows "length ws = vocab" "\<forall>w \<in> set ws. 0 \<le> w"
proof -
  have wide: "length (xss ! i ! j) = vocab"
    if "map length xss = map length dss" "\<forall>rows \<in> set xss. \<forall>r \<in> set rows. length r = vocab" for xss :: "rat list list list"
    using that assms(2,3) same_lengths_nth [OF that(1) assms(2)] by (metis length_map nth_mem)
  have t: "length (tps ! i ! j) = vocab" using assms(1) by (intro wide) (simp_all add: probs_fit_def)
  have d: "length (ps ! i ! j) = vocab" if "dps = Some ps" for ps
    using assms(1) that by (intro wide) (simp_all add: probs_fit_def)
  show "length ws = vocab" using t d by (cases dps) (simp_all add: ws_def residual_row_def)
  show "\<forall>w \<in> set ws. 0 \<le> w"
  proof (cases dps)
    case None
    then show ?thesis
      using assms(4) set_update_subset_insert [of "tps ! i ! j" _ 0] unfolding ws_def residual_row_def by fastforce
  qed (auto simp: ws_def residual_row_def)
qed

text \<open>The row of a request: drafts as long as they are accepted, and one token more.\<close>

lemma random_row_shape:
  fixes dss :: "int list list" and dps :: "rat list list list option" and tps us
  defines "accepted \<equiv> \<lambda>i j. accepts (draft_prob dss dps i j) (tps ! i ! j ! nat (dss ! i ! j)) (us ! i ! j)"
  shows "\<exists>n t. random_row padded dss dps tps bonus us q i = take n (dss ! i) @ [t] \<and> n \<le> length (dss ! i) \<and>
    (\<forall>j < n. accepted i j) \<and>
    (if n < length (dss ! i) then \<not> accepted i n \<and> t = recovered_at dss dps tps q padded i n else t = bonus ! i)"
proof -
  let ?cs = "random_choices padded dss dps tps us q i" let ?v = "verdict ?cs (bonus ! i)"
  have len: "length ?cs = length (dss ! i)" by (simp add: random_choices_def)
  have c: "?cs ! j = (if accepted i j then (dss ! i ! j, False) else (recovered_at dss dps tps q padded i j, True))"
    if "j < length (dss ! i)" for j using that by (simp add: random_choices_def accepted_def)
  define n where "n = length ?v - 1"
  note shape = verdict_shape [of ?cs "bonus ! i", folded n_def]
  have "\<forall>j < n. ?v ! j = dss ! i ! j" using shape c len by (metis fst_conv less_le_trans snd_conv)
  then have "butlast ?v = take n (dss ! i)"
    using shape len by (intro nth_equalityI) (simp_all add: n_def nth_butlast)
  then have "?v = take n (dss ! i) @ [last ?v]" using shape append_butlast_last_id [of ?v] by simp
  moreover have "n \<le> length (dss ! i)" using shape len by simp
  moreover have "accepted i j" if "j < n" for j using shape c [of j] len that by (auto split: if_splits)
  moreover have "\<not> accepted i n \<and> last ?v = recovered_at dss dps tps q padded i n" if "n < length (dss ! i)"
    using shape c [OF that] len that by (auto split: if_splits)
  moreover have "last ?v = bonus ! i" if "\<not> n < length (dss ! i)" using shape len that by simp
  ultimately show ?thesis unfolding random_row_def by (intro exI [of _ n] exI [of _ "last ?v"]) simp
qed

text \<open>The token that is recovered at a place.\<close>

lemma recovered_race:
  assumes "probs_fit vocab dss dps tps" "0 < vocab" "i < length dss" "j < length (dss ! i)"
    and "\<forall>p \<in> set (tps ! i ! j). 0 \<le> p" "length (q ! i) = vocab" "\<forall>x \<in> set (q ! i). 0 < x"
  shows "\<exists>ws. residual (dss ! i ! j) (map_option (\<lambda>ps. ps ! i ! j) dps) (tps ! i ! j) = Inr ws \<and>
    recovered_at dss dps tps q padded i j = int (recovered_id padded ws (q ! i)) \<and> recovered_id padded ws (q ! i) < vocab \<and>
    ((\<exists>y < vocab. 0 < ws ! y) \<longrightarrow> 0 < ws ! recovered_id padded ws (q ! i))"
proof -
  let ?ws = "residual_row (dss ! i ! j) (map_option (\<lambda>ps. ps ! i ! j) dps) (tps ! i ! j)"
  note w = residual_row_ok [OF assms(1,3-5)]
  have "dss ! i \<in> set dss" "dss ! i ! j \<in> set (dss ! i)" using assms(3,4) by simp_all
  then have d: "0 \<le> dss ! i ! j" "dss ! i ! j < int vocab" using assms(1) by (auto simp: probs_fit_def)
  have "residual (dss ! i ! j) (map_option (\<lambda>ps. ps ! i ! j) dps) (tps ! i ! j) = Inr ?ws"
    using w(1) d by (cases dps) (simp_all add: residual_def residual_row_def tl_store_def py_len_def)
  moreover have "recovered_at dss dps tps q padded i j = int (recovered_id padded ?ws (q ! i))"
    by (simp add: recovered_at_def)
  ultimately show ?thesis
    using recovered_id_ok(1) [OF w(1) assms(6,2) w(2) assms(7)] recovered_id_ok(2) [OF w(1) assms(6,2) w(2) assms(7)]
    by (intro exI [of _ ?ws]) blast
qed

text \<open>What the random kernel leaves for a request: \<open>n\<close> accepted drafts and the tokens \<open>ts\<close> after them.\<close>

definition random_verdict ::
  "nat \<Rightarrow> int list list \<Rightarrow> rat list list list option \<Rightarrow> rat list list list \<Rightarrow> int list \<Rightarrow> rat list list \<Rightarrow> rat list list \<Rightarrow>
   nat \<Rightarrow> nat \<Rightarrow> nat \<Rightarrow> int list \<Rightarrow> bool" where
  "random_verdict padded dss dps tps bonus us q vocab i n ts \<longleftrightarrow>
     (\<forall>j < n. accepts (draft_prob dss dps i j) (tps ! i ! j ! nat (dss ! i ! j)) (us ! i ! j)) \<and>
     (if n < length (dss ! i) then \<not> accepts (draft_prob dss dps i n) (tps ! i ! n ! nat (dss ! i ! n)) (us ! i ! n) \<and>
        (case residual (dss ! i ! n) (map_option (\<lambda>ps. ps ! i ! n) dps) (tps ! i ! n) of Inl e \<Rightarrow> False | Inr ws \<Rightarrow>
          (let x = recovered_id padded ws (q ! i) in
           ts = [int x] \<and> x < vocab \<and> ((\<exists>y < vocab. 0 < ws ! y) \<longrightarrow> 0 < ws ! x)))
      else ts = [bonus ! i])"

lemma random_request_parsed:
  assumes "batch_fits vocab orders noise dss spec_len dps tps ass target bonus us m"
    and "i < length dss" "\<not> greedy_request m i" "0 \<le> bonus ! i" "bonus ! i < int vocab"
    and "\<And>j. j < length (dss ! i) \<Longrightarrow> \<forall>p \<in> set (tps ! i ! j). 0 \<le> p"
    and "length (rn_exponential noise ! i) = vocab" "\<forall>x \<in> set (rn_exponential noise ! i). 0 < x"
  shows "\<exists>n ts rows. rejection_sample orders noise (concat dss) (map py_len dss) spec_len (np_cumsum (map py_len dss))
        (map_option concat dps) target bonus m = Inr rows \<and>
      parse_output (int vocab) rows ! i = take n (dss ! i) @ ts \<and> n \<le> length (dss ! i) \<and>
      random_verdict (lo_next_power_of_2 orders vocab) dss dps tps bonus us (rn_exponential noise) vocab i n ts"
proof -
  let ?pad = "lo_next_power_of_2 orders vocab" let ?q = "rn_exponential noise"
  let ?row = "\<lambda>i. overwrite (request_tokens ?pad noise dss dps tps ass bonus us m i)
      (replicate (nat (spec_len + 1)) placeholder_token_id)"
  have fit: "probs_fit vocab dss dps tps" "0 < vocab" using assms(1,3) by (auto simp: batch_fits_def greedy_request_def)
  obtain n t where row: "random_row ?pad dss dps tps bonus us ?q i = take n (dss ! i) @ [t]" "n \<le> length (dss ! i)"
    "\<forall>j < n. accepts (draft_prob dss dps i j) (tps ! i ! j ! nat (dss ! i ! j)) (us ! i ! j)"
    "if n < length (dss ! i) then \<not> accepts (draft_prob dss dps i n) (tps ! i ! n ! nat (dss ! i ! n)) (us ! i ! n) \<and>
       t = recovered_at dss dps tps ?q ?pad i n else t = bonus ! i"
    using random_row_shape by blast
  note race = recovered_race [OF fit assms(2) _ _ assms(7,8), of n ?pad]
  have "0 \<le> t \<and> t < int vocab"
    using row(4) race assms(4-6) by (cases "n < length (dss ! i)") auto
  moreover have "0 \<le> d \<and> d < int vocab" if "d \<in> set (dss ! i)" for d
    using fit(1) assms(2) that nth_mem by (auto simp: probs_fit_def)
  ultimately have "\<forall>x \<in> set (take n (dss ! i) @ [t]). 0 \<le> x \<and> x < int vocab" by (auto dest: in_set_takeD)
  from parse_row [OF this] have "parse_output (int vocab) (map ?row [0..<length dss]) ! i = take n (dss ! i) @ [t]"
    using assms(2,3) by (simp add: parse_output_def request_tokens_def row(1))
  then show ?thesis
    using row(2-4) race assms(6)
    by (intro exI [of _ "map ?row [0..<length dss]"] exI [of _ "[t]"] exI [of _ n] conjI rejection_sample_ok [OF assms(1)])
      (auto simp: Let_def random_verdict_def)
qed

lemma target_row_nonneg:
  assumes "forward_fits vocab orders noise dss dps lss bonus us m" "softmax_ok softmax" "argsort_ok argsort"
    and "i < length dss" "j < length (dss ! i)" "\<not> me_all_greedy m"
  shows "\<forall>p \<in> set (target_row softmax argsort m i (lss ! i ! j)). 0 \<le> p"
proof -
  have same: "map length lss = map length dss" and rows: "\<forall>rows \<in> set lss. \<forall>r \<in> set rows. length r = vocab \<and> alive r"
    and cols: "columns_fit (length dss) vocab m" using assms(1,6) by (simp_all add: forward_fits_def)
  have "lss ! i \<in> set lss" "lss ! i ! j \<in> set (lss ! i)"
    using assms(4,5) map_eq_imp_length_eq [OF same] same_lengths_nth [OF same assms(4)] by simp_all
  then show ?thesis using target_row_ok(3) [OF assms(2,3) cols assms(4)] rows by blast
qed

text \<open>
  C15: the output of a request that samples. In a batch of any requests, with the programs of the
  kernels in any order, the parsed output is a prefix of the drafts, each accepted by its
  probabilities and its own uniform number, and one token more: after a draft that was not
  accepted the token that wins the race among the residual weights at that place, which has
  weight whenever some token has; after all drafts the bonus token.
\<close>

theorem random_drafts_verified:
  assumes "forward_fits vocab orders noise dss dps lss bonus us m" "softmax_ok softmax" "argsort_ok argsort"
    and "i < length dss" "\<not> greedy_request m i" "0 \<le> bonus ! i" "bonus ! i < int vocab"
    and "length (rn_exponential noise ! i) = vocab" "\<forall>x \<in> set (rn_exponential noise ! i). 0 < x"
  defines "probs \<equiv> \<lambda>j. target_row softmax argsort m i (lss ! i ! j)"
  shows "\<exists>rows ts n. rejection_forward softmax argsort orders noise (concat dss) (map py_len dss) (np_cumsum (map py_len dss))
        (map_option concat dps) (concat lss) bonus m = Inr rows \<and>
      parse_output (int vocab) rows ! i = take n (dss ! i) @ ts \<and> n \<le> length (dss ! i) \<and>
      (\<forall>j < n. accepts (draft_prob dss dps i j) (probs j ! nat (dss ! i ! j)) (us ! i ! j)) \<and>
      (if n < length (dss ! i) then \<not> accepts (draft_prob dss dps i n) (probs n ! nat (dss ! i ! n)) (us ! i ! n) \<and>
         (case residual (dss ! i ! n) (map_option (\<lambda>ps. ps ! i ! n) dps) (probs n) of Inl e \<Rightarrow> False | Inr ws \<Rightarrow>
           (let x = recovered_id (lo_next_power_of_2 orders vocab) ws (rn_exponential noise ! i) in
            ts = [int x] \<and> x < vocab \<and> ((\<exists>y < vocab. 0 < ws ! y) \<longrightarrow> 0 < ws ! x)))
       else ts = [bonus ! i])"
proof -
  let ?pad = "lo_next_power_of_2 orders vocab" and ?q = "rn_exponential noise"
  let ?tps = "for_each (target_row softmax argsort m) lss" and ?ass = "for_each (target_token softmax argsort m) lss"
  obtain target spec_len where forward: "rejection_forward softmax argsort orders noise (concat dss) (map py_len dss)
      (np_cumsum (map py_len dss)) (map_option concat dps) (concat lss) bonus m =
      rejection_sample orders noise (concat dss) (map py_len dss) spec_len (np_cumsum (map py_len dss))
        (map_option concat dps) target bonus m"
    and fits: "batch_fits vocab orders noise dss spec_len dps ?tps ?ass target bonus us m"
    using forward_ok [OF assms(1-3)] by blast
  have same: "map length lss = map length dss" using assms(1) by (simp add: forward_fits_def)
  have probs: "?tps ! i ! j = probs j" if "j < length (dss ! i)" for j
    using assms(4) that map_eq_imp_length_eq [OF same] same_lengths_nth [OF same assms(4)]
    by (simp add: for_each_nth probs_def)
  have nonneg: "\<forall>p \<in> set (?tps ! i ! j). 0 \<le> p" if j: "j < length (dss ! i)" for j
    unfolding probs [OF j] probs_def by (rule target_row_nonneg [OF assms(1-3,4) j]) (use assms(5) in \<open>simp add: greedy_request_def\<close>)
  obtain n ts rows where "rejection_sample orders noise (concat dss) (map py_len dss) spec_len (np_cumsum (map py_len dss))
      (map_option concat dps) target bonus m = Inr rows"
    "parse_output (int vocab) rows ! i = take n (dss ! i) @ ts" "n \<le> length (dss ! i)"
    "random_verdict ?pad dss dps ?tps bonus us ?q vocab i n ts"
    using random_request_parsed [OF fits assms(4-7) nonneg assms(8,9)] by blast
  then show ?thesis
    unfolding forward random_verdict_def using probs
    by (intro exI [of _ rows] exI [of _ ts] exI [of _ n]) (cases "n < length (dss ! i)"; simp)
qed

theorem random_drafts_verified_witness:
  "\<exists>rows. rejection_forward sample_softmax sample_argsort mixed_orders mixed_noise (concat [[1, 2], [0]])
      (map py_len [[1, 2], [0 :: int]]) (np_cumsum (map py_len [[1, 2], [0 :: int]])) (map_option concat None)
      (concat mixed_logits) [0, 1] mixed_metadata = Inr rows \<and> parse_output 3 rows ! 1 = [1]"
proof -
  let ?dss = "[[1, 2], [0 :: int]]" and ?us = "[[1 / 2, 1 / 2], [3 / 4]] :: rat list list"
  let ?probs = "\<lambda>j. target_row sample_softmax sample_argsort mixed_metadata 1 (mixed_logits ! 1 ! j)"
  let ?x = "\<lambda>ws. recovered_id (lo_next_power_of_2 mixed_orders 3) ws (rn_exponential mixed_noise ! 1)"
  have i: "1 < length ?dss" and random: "\<not> greedy_request mixed_metadata 1"
    by (simp_all add: greedy_request_def mixed_metadata_def sample_metadata_def greedy_temperature_def)
  have bonus: "0 \<le> [0, 1 :: int] ! 1" "[0, 1 :: int] ! 1 < int 3" by simp_all
  have noise: "length (rn_exponential mixed_noise ! 1) = 3" "\<forall>x \<in> set (rn_exponential mixed_noise ! 1). 0 < x"
    by (simp_all add: mixed_noise_def)
  obtain rows ts n where r: "rejection_forward sample_softmax sample_argsort mixed_orders mixed_noise (concat ?dss)
      (map py_len ?dss) (np_cumsum (map py_len ?dss)) (map_option concat None) (concat mixed_logits) [0, 1] mixed_metadata = Inr rows"
    "parse_output (int 3) rows ! 1 = take n (?dss ! 1) @ ts" "n \<le> length (?dss ! 1)"
    "\<forall>j < n. accepts (draft_prob ?dss None 1 j) (?probs j ! nat (?dss ! 1 ! j)) (?us ! 1 ! j)"
    "if n < length (?dss ! 1) then \<not> accepts (draft_prob ?dss None 1 n) (?probs n ! nat (?dss ! 1 ! n)) (?us ! 1 ! n) \<and>
         (case residual (?dss ! 1 ! n) (map_option (\<lambda>ps. ps ! 1 ! n) None) (?probs n) of Inl e \<Rightarrow> False | Inr ws \<Rightarrow>
           (let x = ?x ws in ts = [int x] \<and> x < 3 \<and> ((\<exists>y < 3. 0 < ws ! y) \<longrightarrow> 0 < ws ! x)))
       else ts = [[0, 1] ! 1]"
    using random_drafts_verified [OF mixed_fits sample_softmax_ok sample_argsort_ok i random bonus noise] by blast
  have probs: "?probs 0 = [1 / 2, 1 / 2, 0]" unfolding mixed_logits_def using mixed_targets(3) by simp
  have "n = 0"
  proof (rule ccontr)
    assume "n \<noteq> 0"
    then have "0 < n" by simp
    then have "accepts (draft_prob ?dss None 1 0) (?probs 0 ! nat (?dss ! 1 ! 0)) (?us ! 1 ! 0)" using r(4) by blast
    then show False unfolding probs by (simp add: draft_prob_def accepts_def)
  qed
  let ?ws = "[0, 1 / 2, 0] :: rat list"
  have res: "residual (?dss ! 1 ! 0) (map_option (\<lambda>ps. ps ! 1 ! 0) None) [1 / 2, 1 / 2, 0] = Inr ?ws"
    by (simp add: residual_def tl_store_def py_len_def)
  have "0 < length (?dss ! 1)" by simp
  then have x: "ts = [int (?x ?ws)]" "?x ?ws < 3" "(\<exists>y < 3. 0 < ?ws ! y) \<longrightarrow> 0 < ?ws ! ?x ?ws"
    using r(5) unfolding \<open>n = 0\<close> probs res Let_def sum.case by argo+
  have "0 < ?ws ! 1" by simp
  then have "0 < ?ws ! ?x ?ws" using x(3) by (metis one_less_numeral_iff semiring_norm(77))
  then have one: "?x ?ws = 1" using x(2) by (cases "?x ?ws = 1") (auto simp: nth_Cons' split: if_splits)
  show ?thesis by (intro exI conjI, rule r(1)) (use r(2) x(1) \<open>n = 0\<close> one in simp)
qed

section \<open>The distribution of a sampled token\<close>

text \<open>
  The probability with which a draft token is accepted: the part of the unit interval in which
  the uniform number leads to acceptance.
\<close>

definition accept_probability :: "rat \<Rightarrow> rat \<Rightarrow> rat" where
  "accept_probability d t = (if 0 < d then min 1 (t / d) else 0)"

lemma accepts_iff:
  assumes "0 < d" "0 \<le> t" "0 \<le> u" "u < 1"
  shows "accepts d t u \<longleftrightarrow> u \<le> accept_probability d t"
proof (cases "d \<le> t")
  case True
  then have "1 \<le> t / d" using assms(1) by simp
  moreover from this have "u \<le> t / d" using assms(4) by linarith
  ultimately show ?thesis using assms by (simp add: accepts_def accept_probability_def)
next
  case False
  then have "t / d \<le> 1" using assms(1) by simp
  then show ?thesis using assms(1) by (simp add: accepts_def accept_probability_def)
qed

lemma accepted_mass: "0 \<le> d \<Longrightarrow> 0 \<le> t \<Longrightarrow> d * accept_probability d t = min d t"
  by (auto simp: accept_probability_def min_def field_simps)

text \<open>The exponential race among weights draws each with its share of their sum.\<close>

definition race_probability :: "rat list \<Rightarrow> nat \<Rightarrow> rat" where
  "race_probability ws x = ws ! x / sum_list ws"

definition distribution :: "nat \<Rightarrow> rat list \<Rightarrow> bool" where
  "distribution vocab ps \<longleftrightarrow> length ps = vocab \<and> (\<forall>p \<in> set ps. 0 \<le> p) \<and> sum_list ps = 1"

lemma distributionD:
  assumes "distribution vocab ps"
  shows "length ps = vocab" "\<And>y. y < vocab \<Longrightarrow> 0 \<le> ps ! y" "(\<Sum>y < vocab. ps ! y) = 1"
    "\<And>y. y < vocab \<Longrightarrow> ps ! y \<le> 1"
proof -
  show p: "length ps = vocab" "\<And>y. y < vocab \<Longrightarrow> 0 \<le> ps ! y" "(\<Sum>y < vocab. ps ! y) = 1"
    using assms by (auto simp: distribution_def sum_list_sum_nth lessThan_atLeast0)
  show "ps ! y \<le> 1" if "y < vocab" for y
    using member_le_sum [of y "{..<vocab}" "\<lambda>y. ps ! y"] p that by simp
qed

text \<open>A share of the mass that is left over.\<close>

lemma share_of_rest:
  fixes w :: rat
  assumes "a = 1 \<Longrightarrow> w = 0"
  shows "(1 - a) * (w / (1 - a)) = w"
  using assms by (cases "a = 1") simp_all

lemma residual_draft:
  assumes "distribution vocab ds" "distribution vocab ts" "x < vocab"
  shows "\<exists>ws. residual y (Some ds) ts = Inr ws \<and>
    (1 - (\<Sum>y < vocab. min (ds ! y) (ts ! y))) * race_probability ws x = max (ts ! x - ds ! x) 0"
proof -
  note d = distributionD [OF assms(1)] and t = distributionD [OF assms(2)]
  let ?ws = "map2 (\<lambda>t d. max (t - d) 0) ts ds"
  have nth: "?ws ! y = max (ts ! y - ds ! y) 0" if "y < vocab" for y using that d(1) t(1) by simp
  have "sum_list ?ws = (\<Sum>y < vocab. max (ts ! y - ds ! y) 0)"
    using d(1) t(1) by (simp add: sum_list_sum_nth lessThan_atLeast0)
  also have "\<dots> = (\<Sum>y < vocab. ts ! y - min (ds ! y) (ts ! y))" by (intro sum.cong) (auto simp: min_def max_def)
  finally have sum: "sum_list ?ws = 1 - (\<Sum>y < vocab. min (ds ! y) (ts ! y))" using t(3) by (simp add: sum_subtractf)
  have "?ws ! x = 0" if "(\<Sum>y < vocab. min (ds ! y) (ts ! y)) = 1"
  proof -
    have "(\<Sum>y < vocab. max (ts ! y - ds ! y) 0) = 0"
      using that sum d(1) t(1) by (simp add: sum_list_sum_nth lessThan_atLeast0)
    then show ?thesis using sum_nonneg_eq_0_iff [of "{..<vocab}" "\<lambda>y. max (ts ! y - ds ! y) 0"] assms(3) nth by simp
  qed
  then have "(1 - (\<Sum>y < vocab. min (ds ! y) (ts ! y))) * race_probability ?ws x = ?ws ! x"
    unfolding race_probability_def sum by (rule share_of_rest)
  then show ?thesis using nth [OF assms(3)] by (simp add: residual_def)
qed

lemma residual_ngram:
  assumes "distribution vocab ts" "x < vocab" "draft < vocab"
  shows "\<exists>ws. residual (int draft) None ts = Inr ws \<and>
    (1 - ts ! draft) * race_probability ws x = (if x = draft then 0 else ts ! x)"
proof -
  note t = distributionD [OF assms(1)]
  let ?ws = "ts[draft := 0]"
  have "draft < length ts" using assms(3) t(1) by simp
  then have "sum_list ?ws = sum_list (take draft ts) + sum_list (drop (Suc draft) ts)"
    "sum_list ts = sum_list (take draft ts) + (ts ! draft + sum_list (drop (Suc draft) ts))"
    using arg_cong [OF id_take_nth_drop, of draft ts sum_list] by (simp_all add: upd_conv_take_nth_drop)
  then have "sum_list ?ws = sum_list ts - ts ! draft" by simp
  then have sum: "sum_list ?ws = 1 - ts ! draft" using assms(1) by (simp add: distribution_def)
  have nth: "?ws ! x = (if x = draft then 0 else ts ! x)" using assms(2,3) t(1) by simp
  have "?ws ! x = 0" if one: "ts ! draft = 1"
  proof (cases "x = draft")
    case False
    have "ts ! draft + ts ! x = sum (\<lambda>y. ts ! y) {draft, x}" using False by simp
    also have "\<dots> \<le> (\<Sum>y < vocab. ts ! y)" using assms(2,3) t(2) by (intro sum_mono2) auto
    finally show ?thesis using one t(2) [OF assms(2)] t(3) False nth by simp
  qed (use nth in simp)
  then have "(1 - ts ! draft) * race_probability ?ws x = ?ws ! x"
    unfolding race_probability_def sum by (rule share_of_rest)
  then show ?thesis using nth assms(3) t(1) by (simp add: residual_def tl_store_def py_len_def)
qed

text \<open>
  C16: rejection sampling follows the target model. Let a draft token be drawn from \<open>ds\<close> and be
  accepted for uniform numbers up to its acceptance probability, and let otherwise the race among
  the residual weights decide; then every token comes out with its probability under the target
  model, whatever the draft model. The same holds for a draft without probabilities. The one
  exception is the uniform number zero, which the generator can return: it accepts also a draft
  token that the target model excludes.
\<close>

theorem sampled_token_exact:
  assumes "distribution vocab ds" "distribution vocab ts" "x < vocab" "draft < vocab"
  shows "(\<forall>d t u. 0 < d \<and> 0 \<le> t \<and> 0 \<le> u \<and> u < 1 \<longrightarrow> accepts d t u = (u \<le> accept_probability d t)) \<and>
    (\<forall>d. 0 < d \<longrightarrow> accepts d 0 0) \<and>
    (case residual y (Some ds) ts of Inl e \<Rightarrow> False | Inr ws \<Rightarrow>
      ds ! x * accept_probability (ds ! x) (ts ! x) +
      (1 - (\<Sum>y < vocab. ds ! y * accept_probability (ds ! y) (ts ! y))) * race_probability ws x = ts ! x) \<and>
    (case residual (int draft) None ts of Inl e \<Rightarrow> False | Inr ws \<Rightarrow>
      (if x = draft then accept_probability 1 (ts ! draft) else 0) +
      (1 - accept_probability 1 (ts ! draft)) * race_probability ws x = ts ! x)"
proof -
  note d = distributionD [OF assms(1)] and t = distributionD [OF assms(2)]
  have mass: "ds ! y * accept_probability (ds ! y) (ts ! y) = min (ds ! y) (ts ! y)" if "y < vocab" for y
    using that d(2) t(2) by (intro accepted_mass) simp_all
  then have sum: "(\<Sum>y < vocab. ds ! y * accept_probability (ds ! y) (ts ! y)) = (\<Sum>y < vocab. min (ds ! y) (ts ! y))"
    by (intro sum.cong) simp_all
  have one: "accept_probability 1 (ts ! draft) = ts ! draft"
    using t(4) [OF assms(4)] by (simp add: accept_probability_def)
  have accept: "\<forall>d t u. 0 < d \<and> 0 \<le> t \<and> 0 \<le> u \<and> u < 1 \<longrightarrow> accepts d t u = (u \<le> accept_probability d t)"
    using accepts_iff by blast
  obtain ws where ws: "residual y (Some ds) ts = Inr ws"
    "(1 - (\<Sum>y < vocab. min (ds ! y) (ts ! y))) * race_probability ws x = max (ts ! x - ds ! x) 0"
    using residual_draft [OF assms(1-3)] by blast
  obtain vs where vs: "residual (int draft) None ts = Inr vs"
    "(1 - ts ! draft) * race_probability vs x = (if x = draft then 0 else ts ! x)"
    using residual_ngram [OF assms(2-4)] by blast
  have "min (ds ! x) (ts ! x) + max (ts ! x - ds ! x) 0 = ts ! x" by (simp add: min_def max_def)
  moreover have "\<forall>d. 0 < d \<longrightarrow> accepts d 0 0" by (simp add: accepts_def)
  ultimately show ?thesis using accept ws vs by (simp add: sum mass [OF assms(3)] one)
qed

theorem sampled_token_exact_witness:
  "case residual 0 (Some [1, 0]) [1 / 2, 1 / 2] of Inl e \<Rightarrow> False | Inr ws \<Rightarrow>
    0 * accept_probability 0 (1 / 2) + (1 - (1 * accept_probability 1 (1 / 2) + 0 * accept_probability 0 (1 / 2))) *
      race_probability ws 1 = 1 / 2"
proof -
  have "distribution 2 [1, 0]" "distribution 2 [1 / 2, 1 / 2]" by (simp_all add: distribution_def)
  from sampled_token_exact [OF this, of 1 0 0] have
    "case residual 0 (Some [1, 0]) [1 / 2, 1 / 2] of Inl e \<Rightarrow> False | Inr ws \<Rightarrow>
      [1, 0] ! 1 * accept_probability ([1, 0] ! 1) ([1 / 2, 1 / 2] ! 1) +
      (1 - (\<Sum>y < 2. [1, 0] ! y * accept_probability ([1, 0] ! y) ([1 / 2, 1 / 2] ! y))) * race_probability ws 1 =
      [1 / 2, 1 / 2] ! 1" by simp
  moreover have "(\<Sum>y < 2. f y) = f 0 + f 1" for f :: "nat \<Rightarrow> rat" by (simp add: numeral_2_eq_2)
  ultimately show ?thesis by (simp split: sum.splits)
qed

end
