(* ===== verification/Spec2Isabelle.thy ===== *)
theory Spec2Isabelle
  imports SpecPipeline Ngram KVConfig OutputProc StepInputs ShmChannel EngineCore Nucleus RejectionForward
begin

text \<open>
  A verification library for Spexis, an engine for LLM inference with speculative parallelism. All
  paths are relative to \<open>src/spexis\<close>.

  The program. A model is cut into pipeline stages. The first stage ends in an exit layer that
  guesses the next token of each request before the full model has computed it. The engine core
  (\<open>v1/engine/core.py\<close>) keeps a queue of batches in flight. A step verifies the oldest batch: the
  target model's token of each request is compared with the guess that was made for it, and a wrong
  guess is corrected and its later iterations flushed. It then lets the scheduler
  (\<open>spec_parallel/scheduler.py\<close>) choose the next batch: corrections, waiting and preempted requests,
  and guesses confident enough for the budget. It sends the batch to the workers and appends their
  guesses to the requests. The scheduler allocates KV cache blocks, and encoder cache slots, and
  preempts when it runs out. The workers (\<open>spec_parallel/gpu_model_runner.py\<close>) follow the scheduler
  with a batch of their own, build flat inputs from it and sample. The core mirrors the order of
  that batch to send the embeddings of the tokens. The first worker returns its guesses through
  shared memory. The frontend turns tokens into text and collects the outputs of each caller.

  Theories, in the order in which they build on each other:

    \<^item> \<open>Prelude\<close>: Python's exceptions as values, lists with negative indices and slices, loops that
      may raise (\<open>efold\<close>, \<open>emap\<close>), and the rules \<open>res_simps\<close>.
    \<^item> \<open>SamplingParams\<close>: \<open>sampling_params.py\<close>, the checks and the normalisation of parameters.
    \<^item> \<open>SpecRequest\<close>: \<open>v1/request.py\<close>, a request with its tokens, its counters of unverified tokens
      (\<open>sp_len\<close>), of iterations to flush (\<open>flush_len\<close>) and of dropped ones. \<open>StopCheck\<close>:
      \<open>v1/core/sched/utils.py\<close>, \<open>spec_parallel/stop_check.py\<close>. \<open>SpecUpdate\<close>: the loops of the two
      update phases of the scheduler over the tokens of one request.
    \<^item> \<open>SpecPipeline\<close>: one request in the pipeline as a step relation \<open>pipe_step\<close>, with the operations
      above, against plain greedy decoding (\<open>greedy\<close>, \<open>vanilla_run\<close>).
    \<^item> \<open>BlockHash\<close>, \<open>FreeQueue\<close>, \<open>BlockPool\<close>, \<open>KVManager\<close>: \<open>v1/core/kv_cache_utils.py\<close>,
      \<open>v1/core/block_pool.py\<close>, \<open>v1/core/kv_cache_manager.py\<close>, \<open>v1/core/specialized_manager.py\<close> and
      \<open>spec_parallel/kv_cache_manager.py\<close>. Blocks are numbers into a store that holds their fields and
      links. \<open>KVConfig\<close>: the layout of the cache tensors, \<open>v1/kv_cache_interface.py\<close> and the second
      half of \<open>kv_cache_utils.py\<close>.
    \<^item> \<open>LengthCalc\<close>: \<open>lookahead_scheduling/length_calc.py\<close>. \<open>EncoderCache\<close>:
      \<open>v1/core/encoder_cache_manager.py\<close>.
    \<^item> \<open>SchedState\<close>, \<open>SpexisSched\<close>: the scheduler's state, payloads and operations
      (\<open>spec_parallel/sched_output.py\<close>, \<open>spec_parallel/scheduler.py\<close>). Requests live in a heap, queues
      hold their addresses. \<open>SchedInv\<close>, \<open>ConfidenceDrop\<close>, \<open>SchedSafety\<close>, \<open>ScheduleOk\<close>, \<open>UpdateOk\<close>,
      \<open>SchedEvents\<close>, \<open>Ageing\<close>: its invariant, and what \<open>schedule\<close>, \<open>update_from_true_output\<close> and
      \<open>finish_requests\<close> do with it.
    \<^item> \<open>CpuBatch\<close>: the core's mirror of the worker's batch, \<open>spec_parallel/handle_inputbatch.py\<close>.
      \<open>EngineCore\<close>: \<open>step_with_spexis\<close>, new requests and aborts on scheduler, mirror and queue.
      \<open>ShmChannel\<close>: \<open>spec_parallel/shm.py\<close> and the writer in \<open>executor/ray_utils.py\<close>.
    \<^item> \<open>InputBatch\<close>, \<open>BatchRows\<close>, \<open>GpuUpdate\<close>, \<open>Worker\<close>: the worker's batch and how it follows the
      scheduler, \<open>v1/worker/gpu_input_batch.py\<close>, \<open>v1/worker/block_table.py\<close> and \<open>_update_states\<close>.
      \<open>NumpyOps\<close>, \<open>PrepareInputs\<close>, \<open>StepInputs\<close>: \<open>_prepare_inputs\<close> with its 32-bit arithmetic and the
      indices of the logits of draft tokens, \<open>v1/worker/gpu_model_runner.py\<close>.
    \<^item> \<open>Sampler\<close>, \<open>SamplerOk\<close>, \<open>Nucleus\<close>: \<open>v1/sample/sampler.py\<close> and \<open>v1/sample/ops\<close>.
      \<open>RejectionSampler\<close>, \<open>RejectionOk\<close>, \<open>RejectionForward\<close>: the kernels of \<open>v1/sample/rejection_sampler.py\<close> on flat
      buffers. \<open>Ngram\<close>: the drafts of \<open>v1/spec_decode/ngram_proposer.py\<close>.
    \<^item> \<open>Detok\<close>, \<open>Outputs\<close>, \<open>OutputProc\<close>: tokens to text, log probabilities, parallel sampling, the
      collectors and the output processor (\<open>transformers_utils/detokenizer_utils.py\<close>,
      \<open>v1/engine/detokenizer.py\<close>, \<open>v1/engine/output_processor.py\<close> and others beside it). \<open>Metrics\<close>:
      the counters of \<open>v1/metrics/stats.py\<close> and \<open>v1/spec_decode/metrics.py\<close>.
\<close>

text \<open>
  What is shown. Each property stands in the theory of its component, after a text that states it.

    \<^item> Speculation changes nothing: the verified output of a request is that of greedy decoding with
      the upstream stop check, and the pipeline does not get stuck (\<open>SpecPipeline\<close>). Rejection
      sampling returns for greedy requests what the target model decodes, and for the others tokens of
      the target model's distribution (\<open>RejectionForward\<close>).
    \<^item> The scheduler: from a state with the invariant, \<open>schedule\<close> fails none of its assertions and each
      scheduled request owns slots for its tokens; verification releases exactly the requests that
      stop; a correction survives a preemption; the confidence drop takes the most confident requests
      within the budget. Any sequence of steps, arrivals and aborts of the engine core keeps scheduler,
      queue and mirror consistent (\<open>EngineCore\<close>).
    \<^item> Memory: the linked free list refines a list, blocks are neither lost nor shared, equal hashes
      mean equal prefixes, allocation is all or nothing, the tensors fit the memory.
    \<^item> The worker: its batch shows the scheduled requests; the flat inputs are their tokens, positions
      and slots, no two tokens share a slot, embeddings and logits belong to the right tokens; the
      sampler draws permitted tokens, and top-p keeps a smallest nucleus.
    \<^item> The edges: the shared-memory channel delivers whole messages in order under every interleaving;
      streamed text adds up to the whole; a collector loses no output.
    \<^item> Where the code does something else than it means to, a property of kind error states what it
      does on a concrete class of states.

  Interfaces are locales: \<open>block_queue\<close> and \<open>labelled_queue\<close> (\<open>FreeQueue\<close>) are what the pool asks of
  its free list; \<open>batch_move\<close>, \<open>batch_removal\<close> and \<open>batch_ops\<close> (\<open>CpuBatch\<close>) are what a batch that
  moves requests into gaps promises. The mirror of the core and the batch of the worker both
  interpret them, which is why their orders agree.

  Bounds and fuel. A loop that the code writes with \<open>while\<close> is a function with a proof that it ends, or
  has as fuel a number that its caller computes and that is proved to suffice; the parents of the
  output processor take part in aborts with as much fuel as there are parents. Integers of Python are
  unbounded; the index arithmetic of the worker is on 32-bit words, with the sizes of the
  configuration as hypotheses that keep it from wrapping around.

  Parameters. Sets are walked in an order given by a function of the environment; floating-point
  results are rationals rounded by an arbitrary function, and exact in the samplers. The target model,
  the exit layer, the tokenizer, hashes, clocks, random numbers, softmax and sorting of the tensor
  library are arguments, with what is used of them as named hypotheses that witnesses instantiate.
\<close>

text \<open>
  What is not modelled. \<open>SpecPipeline\<close> follows one request and leaves out the steps in which the
  token budget passes over a running request; in the scheduler's theories those steps are included.
  Arrays of the worker are modelled row by row. M-RoPE positions, adapters on the device, multi-step
  and pooling variants are left out, as are pickling and the order in which the memory of the shared
  channel becomes visible: the writes of a process are seen in their order. The results of the
  workers' futures are arguments of the engine's steps. The neural networks, attention and their
  kernels, the servers, the executors and process management, multi-modal preprocessing, grammars,
  and the engine of version 0 are outside: they are libraries or input and output around the parts
  above.
\<close>

end
